(* ===== verification/Sqfs_Prelude.thy ===== *)
theory Sqfs_Prelude
  imports Main "HOL-Library.Word" "HOL-Library.Multiset"
begin

text \<open>
  Shared vocabulary of the development: the C integer types the sources use, the outcome of a C
  call (a value, an error code of \<^verbatim>\<open>common.h\<close>, or a fault: an action the C
  standard leaves undefined or an assertion that aborts), the sequencing of calls that read and
  write one state, and a small calculus for such programs.

  \<^item> \<open>size_t\<close> is \<^typ>\<open>nat\<close>; where the C arithmetic can wrap around at 64 bits the
    wrap-around is written with \<open>size_add\<close>, \<open>size_sub\<close>, \<open>size_mul\<close>.
  \<^item> \<open>off_t\<close> (\<^verbatim>\<open>sqfs_off_t\<close>) is \<^typ>\<open>int\<close>; conversions to and from
    64-bit unsigned values go through \<open>off_wrap\<close>.
  \<^item> \<open>('s, 'a) io\<close> is a C function that works on a state of type \<open>'s\<close>.
\<close>

unbundle bit_operations_syntax

section \<open>Machine types\<close>

type_synonym u8 = "8 word"
type_synonym u16 = "16 word"
type_synonym u32 = "32 word"
type_synonym u64 = "64 word"
type_synonym bytes = "u8 list"
type_synonym size_t = nat
type_synonym off_t = int

definition size_add :: "size_t \<Rightarrow> size_t \<Rightarrow> size_t" where
  "size_add a b = (a + b) mod 2 ^ 64"

definition size_sub :: "size_t \<Rightarrow> size_t \<Rightarrow> size_t" where
  "size_sub a b = (a + 2 ^ 64 - b) mod 2 ^ 64"

definition size_mul :: "size_t \<Rightarrow> size_t \<Rightarrow> size_t" where
  "size_mul a b = (a * b) mod 2 ^ 64"

definition off_wrap :: "int \<Rightarrow> off_t" where
  "off_wrap x = (x + 2 ^ 63) mod 2 ^ 64 - 2 ^ 63"

definition off_of_u64 :: "u64 \<Rightarrow> off_t" where
  "off_of_u64 w = off_wrap (uint w)"

definition u64_of_off :: "off_t \<Rightarrow> u64" where
  "u64_of_off x = word_of_int x"

text \<open>\<^verbatim>\<open>off_t + size_t\<close> is computed in 64-bit unsigned arithmetic and read back as signed.\<close>

definition off_add :: "off_t \<Rightarrow> size_t \<Rightarrow> off_t" where
  "off_add a b = off_wrap (a + int b)"

lemma size_add_small [simp]: "a + b < 2 ^ 64 \<Longrightarrow> size_add a b = a + b"
  by (simp add: size_add_def)

lemma size_sub_small [simp]: "b \<le> a \<Longrightarrow> a < 2 ^ 64 \<Longrightarrow> size_sub a b = a - b"
proof -
  assume "b \<le> a" "a < 2 ^ 64"
  then have "a + 2 ^ 64 - b = (a - b) + 2 ^ 64" by simp
  then have "size_sub a b = ((a - b) + 2 ^ 64) mod 2 ^ 64" by (simp only: size_sub_def)
  also have "\<dots> = (a - b) mod 2 ^ 64" by (rule mod_add_self2)
  also have "\<dots> = a - b" using \<open>a < 2 ^ 64\<close> by simp
  finally show ?thesis .
qed

lemma size_sub_wrap: "a < b \<Longrightarrow> b < 2 ^ 64 \<Longrightarrow> size_sub a b = 2 ^ 64 - (b - a)"
  by (simp add: size_sub_def)

lemma size_mul_small [simp]: "a * b < 2 ^ 64 \<Longrightarrow> size_mul a b = a * b"
  by (simp add: size_mul_def)

lemma off_wrap_id [simp]: "- (2 ^ 63) \<le> x \<Longrightarrow> x < 2 ^ 63 \<Longrightarrow> off_wrap x = x"
  by (simp add: off_wrap_def)

lemma off_add_small [simp]: "0 \<le> a \<Longrightarrow> a + int b < 2 ^ 63 \<Longrightarrow> off_add a b = a + int b"
  by (simp add: off_add_def)

lemma off_of_u64_of_off [simp]:
  "0 \<le> x \<Longrightarrow> x < 2 ^ 63 \<Longrightarrow> off_of_u64 (u64_of_off x) = x"
  by (simp add: off_of_u64_def u64_of_off_def uint_word_of_int)

lemma u64_of_off_inj:
  "0 \<le> x \<Longrightarrow> x < 2 ^ 63 \<Longrightarrow> 0 \<le> y \<Longrightarrow> y < 2 ^ 63 \<Longrightarrow> u64_of_off x = u64_of_off y \<Longrightarrow> x = y"
  by (metis off_of_u64_of_off)

lemma u64_of_off_eq_0 [simp]: "0 \<le> x \<Longrightarrow> x < 2 ^ 63 \<Longrightarrow> u64_of_off x = 0 \<longleftrightarrow> x = 0"
  using u64_of_off_inj [of x 0] by (auto simp: u64_of_off_def)

section \<open>Outcomes of a call\<close>

text \<open>\<^verbatim>\<open>sqfs_err\<close> of \<^verbatim>\<open>common.h\<close>; \<^verbatim>\<open>SQFS_OK\<close> is the constructor \<open>Ok\<close> below.\<close>

datatype sqfs_err = SQFS_ERR | SQFS_BADFORMAT | SQFS_BADVERSION | SQFS_BADCOMP | SQFS_UNSUP

text \<open>
  What can go wrong outside the error codes. \<open>Out_Of_Bounds\<close> is an access outside the
  initialised bytes of an object, \<open>Assert_Failed\<close> an \<^verbatim>\<open>assert\<close> that aborts the
  process, \<open>Wrong_Union_Arm\<close> a read of a member of \<^verbatim>\<open>sqfs_inode.xtra\<close> that was not
  the one written, \<open>Bad_Shift\<close> a shift by the width of the type or more, \<open>Diverges\<close> a loop that ran out of the fuel of the model.
\<close>

datatype fault =
    Out_Of_Bounds | Use_After_Free | Null_Deref | Assert_Failed | Div_By_Zero
  | Uninitialised | Wrong_Union_Arm | Bad_Shift | Diverges

datatype 'a res = Ok 'a | Err sqfs_err | Fault fault

fun res_bind :: "'a res \<Rightarrow> ('a \<Rightarrow> 'b res) \<Rightarrow> 'b res" where
  "res_bind (Ok a) f = f a"
| "res_bind (Err e) f = Err e"
| "res_bind (Fault u) f = Fault u"

fun is_ok :: "'a res \<Rightarrow> bool" where
  "is_ok (Ok a) = True"
| "is_ok r = False"

lemma is_ok_conv: "is_ok r \<longleftrightarrow> (\<exists>a. r = Ok a)"
  by (cases r) auto

lemma res_bind_eq_Ok:
  "res_bind r f = Ok b \<longleftrightarrow> (\<exists>a. r = Ok a \<and> f a = Ok b)"
  by (cases r) auto

lemma res_bind_assoc: "res_bind (res_bind r f) g = res_bind r (\<lambda>a. res_bind (f a) g)"
  by (cases r) auto

section \<open>Calls in sequence\<close>

type_synonym ('s, 'a) io = "'s \<Rightarrow> 'a res \<times> 's"

definition io_ret :: "'a \<Rightarrow> ('s, 'a) io" where
  "io_ret a = (\<lambda>s. (Ok a, s))"

definition io_raise :: "sqfs_err \<Rightarrow> ('s, 'a) io" where
  "io_raise e = (\<lambda>s. (Err e, s))"

definition io_fault :: "fault \<Rightarrow> ('s, 'a) io" where
  "io_fault u = (\<lambda>s. (Fault u, s))"

definition io_lift :: "'a res \<Rightarrow> ('s, 'a) io" where
  "io_lift r = (\<lambda>s. (r, s))"

definition io_gets :: "('s \<Rightarrow> 'a) \<Rightarrow> ('s, 'a) io" where
  "io_gets f = (\<lambda>s. (Ok (f s), s))"

definition io_modify :: "('s \<Rightarrow> 's) \<Rightarrow> ('s, unit) io" where
  "io_modify f = (\<lambda>s. (Ok (), f s))"

definition io_bind :: "('s, 'a) io \<Rightarrow> ('a \<Rightarrow> ('s, 'b) io) \<Rightarrow> ('s, 'b) io" where
  "io_bind m f = (\<lambda>s. case m s of (r, s') \<Rightarrow>
     (case r of Ok a \<Rightarrow> f a s' | Err e \<Rightarrow> (Err e, s') | Fault u \<Rightarrow> (Fault u, s')))"

text \<open>\<open>io_try m k\<close> hands both a result and an error code to the caller, as the C code does when it
  stores the returned code and goes on; a fault stays a fault.\<close>

definition io_try :: "('s, 'a) io \<Rightarrow> (sqfs_err + 'a \<Rightarrow> ('s, 'b) io) \<Rightarrow> ('s, 'b) io" where
  "io_try m k = (\<lambda>s. case m s of (r, s') \<Rightarrow>
     (case r of Ok a \<Rightarrow> k (Inr a) s' | Err e \<Rightarrow> k (Inl e) s' | Fault u \<Rightarrow> (Fault u, s')))"

definition io_guard :: "bool \<Rightarrow> fault \<Rightarrow> ('s, unit) io" where
  "io_guard c u = (if c then io_ret () else io_fault u)"

definition io_check :: "bool \<Rightarrow> sqfs_err \<Rightarrow> ('s, unit) io" where
  "io_check c e = (if c then io_ret () else io_raise e)"

text \<open>Running a call on one component of a larger state.\<close>

definition io_on :: "('s \<Rightarrow> 't) \<Rightarrow> ('t \<Rightarrow> 's \<Rightarrow> 's) \<Rightarrow> ('t, 'a) io \<Rightarrow> ('s, 'a) io" where
  "io_on g u m = (\<lambda>s. case m (g s) of (r, t) \<Rightarrow> (r, u t s))"

named_theorems io_simps \<open>evaluation of the sequencing combinators\<close>

lemma io_ret_run [io_simps]: "io_ret a s = (Ok a, s)"
  by (simp add: io_ret_def)

lemma io_raise_run [io_simps]: "io_raise e s = (Err e, s)"
  by (simp add: io_raise_def)

lemma io_fault_run [io_simps]: "io_fault u s = (Fault u, s)"
  by (simp add: io_fault_def)

lemma io_lift_run [io_simps]: "io_lift r s = (r, s)"
  by (simp add: io_lift_def)

lemma io_gets_run [io_simps]: "io_gets f s = (Ok (f s), s)"
  by (simp add: io_gets_def)

lemma io_modify_run [io_simps]: "io_modify f s = (Ok (), f s)"
  by (simp add: io_modify_def)

lemma io_bind_run [io_simps]:
  "io_bind m f s = (case m s of (r, s') \<Rightarrow>
     (case r of Ok a \<Rightarrow> f a s' | Err e \<Rightarrow> (Err e, s') | Fault u \<Rightarrow> (Fault u, s')))"
  by (simp add: io_bind_def)

lemma io_try_run [io_simps]:
  "io_try m k s = (case m s of (r, s') \<Rightarrow>
     (case r of Ok a \<Rightarrow> k (Inr a) s' | Err e \<Rightarrow> k (Inl e) s' | Fault u \<Rightarrow> (Fault u, s')))"
  by (simp add: io_try_def)

lemma io_guard_run [io_simps]:
  "io_guard c u s = (if c then (Ok (), s) else (Fault u, s))"
  by (simp add: io_guard_def io_simps)

lemma io_check_run [io_simps]:
  "io_check c e s = (if c then (Ok (), s) else (Err e, s))"
  by (simp add: io_check_def io_simps)

lemma io_on_run [io_simps]: "io_on g u m s = (case m (g s) of (r, t) \<Rightarrow> (r, u t s))"
  by (simp add: io_on_def)

lemma io_bind_eq_Ok:
  "io_bind m f s = (Ok b, s'') \<longleftrightarrow> (\<exists>a s'. m s = (Ok a, s') \<and> f a s' = (Ok b, s''))"
  by (auto simp: io_bind_def split: prod.splits res.splits)

lemma io_bind_assoc: "io_bind (io_bind m f) g = io_bind m (\<lambda>a. io_bind (f a) g)"
  by (rule ext) (auto simp: io_bind_def split: prod.splits res.splits)

lemma io_lift_Ok [simp]: "io_lift (Ok a) = io_ret a"
  by (simp add: io_lift_def io_ret_def)

lemma io_bind_ret [simp]: "io_bind (io_ret a) f = f a"
  by (rule ext) (simp add: io_bind_def io_ret_def)

section \<open>Triples: what a call guarantees\<close>

text \<open>
  \<open>io_triple P m Q E F\<close>: started in a state that satisfies \<open>P\<close>, the call either returns a
  value and a state related by \<open>Q\<close>, or an error code and a state related by \<open>E\<close>, or ends in a
  fault \<open>F\<close> allows.
\<close>

definition io_triple ::
  "('s \<Rightarrow> bool) \<Rightarrow> ('s, 'a) io \<Rightarrow> ('a \<Rightarrow> 's \<Rightarrow> bool) \<Rightarrow> (sqfs_err \<Rightarrow> 's \<Rightarrow> bool)
     \<Rightarrow> (fault \<Rightarrow> bool) \<Rightarrow> bool" where
  "io_triple P m Q E F \<longleftrightarrow> (\<forall>s. P s \<longrightarrow> (case m s of (r, s') \<Rightarrow>
     (case r of Ok a \<Rightarrow> Q a s' | Err e \<Rightarrow> E e s' | Fault u \<Rightarrow> F u)))"

named_theorems triple_rules \<open>rules for triples\<close>

lemma io_tripleI:
  assumes "\<And>s r s'. P s \<Longrightarrow> m s = (r, s') \<Longrightarrow>
     (case r of Ok a \<Rightarrow> Q a s' | Err e \<Rightarrow> E e s' | Fault u \<Rightarrow> F u)"
  shows "io_triple P m Q E F"
  using assms by (auto simp: io_triple_def)

lemma io_tripleD:
  assumes "io_triple P m Q E F" and "P s" and "m s = (r, s')"
  shows "case r of Ok a \<Rightarrow> Q a s' | Err e \<Rightarrow> E e s' | Fault u \<Rightarrow> F u"
  using assms by (fastforce simp: io_triple_def)

lemma io_triple_ret [triple_rules]: "(\<And>s. P s \<Longrightarrow> Q a s) \<Longrightarrow> io_triple P (io_ret a) Q E F"
  by (simp add: io_triple_def io_simps)

lemma io_triple_raise [triple_rules]: "(\<And>s. P s \<Longrightarrow> E e s) \<Longrightarrow> io_triple P (io_raise e) Q E F"
  by (simp add: io_triple_def io_simps)

lemma io_triple_fault [triple_rules]: "F u \<Longrightarrow> io_triple P (io_fault u) Q E F"
  by (simp add: io_triple_def io_simps)

lemma io_triple_gets [triple_rules]:
  "(\<And>s. P s \<Longrightarrow> Q (f s) s) \<Longrightarrow> io_triple P (io_gets f) Q E F"
  by (simp add: io_triple_def io_simps)

lemma io_triple_modify [triple_rules]:
  "(\<And>s. P s \<Longrightarrow> Q () (f s)) \<Longrightarrow> io_triple P (io_modify f) Q E F"
  by (simp add: io_triple_def io_simps)

lemma io_triple_lift [triple_rules]:
  "(\<And>s. P s \<Longrightarrow> case r of Ok a \<Rightarrow> Q a s | Err e \<Rightarrow> E e s | Fault u \<Rightarrow> F u) \<Longrightarrow>
   io_triple P (io_lift r) Q E F"
  by (simp add: io_triple_def io_simps)

lemma io_triple_guard [triple_rules]:
  "(\<And>s. P s \<Longrightarrow> c \<Longrightarrow> Q () s) \<Longrightarrow> (\<And>s. P s \<Longrightarrow> \<not> c \<Longrightarrow> F u) \<Longrightarrow>
   io_triple P (io_guard c u) Q E F"
  by (simp add: io_triple_def io_simps)

lemma io_triple_check [triple_rules]:
  "(\<And>s. P s \<Longrightarrow> c \<Longrightarrow> Q () s) \<Longrightarrow> (\<And>s. P s \<Longrightarrow> \<not> c \<Longrightarrow> E e s) \<Longrightarrow>
   io_triple P (io_check c e) Q E F"
  by (simp add: io_triple_def io_simps)

lemma io_triple_bind:
  assumes "io_triple P m Q E F" and "\<And>a. io_triple (Q a) (f a) R E F"
  shows "io_triple P (io_bind m f) R E F"
  using assms unfolding io_triple_def io_bind_def
  by (fastforce split: prod.splits res.splits)

lemma io_triple_try:
  assumes "io_triple P m (\<lambda>a. Q (Inr a)) (\<lambda>e. Q (Inl e)) F"
    and "\<And>x. io_triple (Q x) (k x) R E F"
  shows "io_triple P (io_try m k) R E F"
  using assms unfolding io_triple_def io_try_def
  by (fastforce split: prod.splits res.splits)

lemma io_triple_weaken:
  assumes "io_triple P m Q E F"
    and "\<And>s. P' s \<Longrightarrow> P s" and "\<And>a s. Q a s \<Longrightarrow> Q' a s"
    and "\<And>e s. E e s \<Longrightarrow> E' e s" and "\<And>u. F u \<Longrightarrow> F' u"
  shows "io_triple P' m Q' E' F'"
  using assms unfolding io_triple_def by (fastforce split: prod.splits res.splits)

lemma io_triple_if [triple_rules]:
  "(c \<Longrightarrow> io_triple P m Q E F) \<Longrightarrow> (\<not> c \<Longrightarrow> io_triple P n Q E F) \<Longrightarrow>
   io_triple P (if c then m else n) Q E F"
  by simp

section \<open>Refinement: a call that implements a pure function\<close>

text \<open>
  \<open>implements oom A B m r\<close>: from every state that satisfies \<open>A\<close> the call \<open>m\<close> has the outcome \<open>r\<close>,
  whatever else the state holds; when memory may run out (\<open>oom\<close>) it may instead return
  \<open>SQFS_ERR\<close>. It keeps \<open>A\<close> when it succeeds and establishes \<open>B\<close> when it returns an error code.
\<close>

definition implements ::
  "bool \<Rightarrow> ('s \<Rightarrow> bool) \<Rightarrow> ('s \<Rightarrow> bool) \<Rightarrow> ('s, 'a) io \<Rightarrow> 'a res \<Rightarrow> bool" where
  "implements oom A B m r \<longleftrightarrow> (\<forall>s. A s \<longrightarrow> (\<exists>r' s'. m s = (r', s') \<and>
     (r' = r \<or> oom \<and> r' = Err SQFS_ERR) \<and>
     (case r' of Ok a \<Rightarrow> A s' | Err e \<Rightarrow> B s' | Fault u \<Rightarrow> True)))"

named_theorems implements_rules \<open>rules for refinement\<close>

lemma implementsI:
  assumes "\<And>s. A s \<Longrightarrow> \<exists>r' s'. m s = (r', s') \<and> (r' = r \<or> oom \<and> r' = Err SQFS_ERR) \<and>
     (case r' of Ok a \<Rightarrow> A s' | Err e \<Rightarrow> B s' | Fault u \<Rightarrow> True)"
  shows "implements oom A B m r"
  using assms by (auto simp: implements_def)

lemma implementsD:
  assumes "implements oom A B m r" and "A s"
  obtains r' s' where "m s = (r', s')" and "r' = r \<or> oom \<and> r' = Err SQFS_ERR"
    and "case r' of Ok a \<Rightarrow> A s' | Err e \<Rightarrow> B s' | Fault u \<Rightarrow> True"
  using assms unfolding implements_def by blast

lemma implements_OkD:
  assumes "implements False A B m (Ok a)" and "A s"
  obtains s' where "m s = (Ok a, s')" and "A s'"
  using assms by (auto simp: implements_def)

lemma implements_value: "implements False A B m r \<Longrightarrow> A s \<Longrightarrow> fst (m s) = r"
  by (auto simp: implements_def)

lemma implements_no_fault:
  "implements oom A B m r \<Longrightarrow> A s \<Longrightarrow> r \<noteq> Fault u \<Longrightarrow> fst (m s) \<noteq> Fault u"
  by (auto simp: implements_def)

lemma implements_ret [implements_rules]: "implements oom A B (io_ret a) (Ok a)"
  by (simp add: implements_def io_simps)

lemma implements_fault [implements_rules]: "implements oom A B (io_fault u) (Fault u)"
  by (simp add: implements_def io_simps)

lemma implements_raise [implements_rules]:
  "(\<And>s. A s \<Longrightarrow> B s) \<Longrightarrow> implements oom A B (io_raise e) (Err e)"
  by (simp add: implements_def io_simps)

lemma implements_lift [implements_rules]:
  "(\<And>s. A s \<Longrightarrow> B s) \<Longrightarrow> implements oom A B (io_lift r) r"
  by (auto simp: implements_def io_simps split: res.splits)

lemma implements_gets [implements_rules]:
  "(\<And>s. A s \<Longrightarrow> f s = a) \<Longrightarrow> implements oom A B (io_gets f) (Ok a)"
  by (simp add: implements_def io_simps)

lemma implements_check [implements_rules]:
  "(\<And>s. A s \<Longrightarrow> B s) \<Longrightarrow> implements oom A B (io_check c e) (if c then Ok () else Err e)"
  by (simp add: implements_def io_simps)

lemma implements_guard [implements_rules]:
  "implements oom A B (io_guard c u) (if c then Ok () else Fault u)"
  by (simp add: implements_def io_simps)

lemma implements_bind [implements_rules]:
  assumes "implements oom A B m r" and "\<And>a. r = Ok a \<Longrightarrow> implements oom A B (f a) (g a)"
  shows "implements oom A B (io_bind m f) (res_bind r g)"
proof (rule implementsI)
  fix s assume "A s"
  with assms(1) obtain r' s' where s': "m s = (r', s')" "r' = r \<or> oom \<and> r' = Err SQFS_ERR"
      "case r' of Ok a \<Rightarrow> A s' | Err e \<Rightarrow> B s' | Fault u \<Rightarrow> True"
    by (rule implementsD)
  show "\<exists>r' s'. io_bind m f s = (r', s') \<and> (r' = res_bind r g \<or> oom \<and> r' = Err SQFS_ERR) \<and>
      (case r' of Ok a \<Rightarrow> A s' | Err e \<Rightarrow> B s' | Fault u \<Rightarrow> True)"
  proof (cases r')
    case (Ok a)
    with s' have "A s'" and r: "r = Ok a" by auto
    with assms(2) [OF r] obtain r'' s'' where "f a s' = (r'', s'')"
        "r'' = g a \<or> oom \<and> r'' = Err SQFS_ERR"
        "case r'' of Ok a \<Rightarrow> A s'' | Err e \<Rightarrow> B s'' | Fault u \<Rightarrow> True"
      using implementsD by metis
    with s' Ok r show ?thesis by (simp add: io_simps)
  qed (use s' in \<open>auto simp: io_simps\<close>)
qed

lemma implements_if [implements_rules]:
  "(c \<Longrightarrow> implements oom A B m r) \<Longrightarrow> (\<not> c \<Longrightarrow> implements oom A B n t) \<Longrightarrow>
   implements oom A B (if c then m else n) (if c then r else t)"
  by simp

section \<open>Lists\<close>

lemma length_take_drop_le: "length (take n (drop k xs)) = n \<longleftrightarrow> n = 0 \<or> k + n \<le> length xs"
  by auto

lemma take_drop_split: "take (n + m) (drop k xs) = take n (drop k xs) @ take m (drop (k + n) xs)"
  by (simp only: take_add drop_drop add.commute [of n k])

lemma sum_list_update_mset:
  fixes f :: "'a \<Rightarrow> 'b multiset"
  assumes "i < length xs"
  shows "(\<Sum>x\<leftarrow>xs[i := y]. f x) + f (xs ! i) = (\<Sum>x\<leftarrow>xs. f x) + f y"
proof -
  have "(\<Sum>x\<leftarrow>xs. f x) = (\<Sum>x\<leftarrow>take i xs @ xs ! i # drop (Suc i) xs. f x)"
    using assms by (simp add: id_take_nth_drop [symmetric])
  moreover have "(\<Sum>x\<leftarrow>xs[i := y]. f x) = (\<Sum>x\<leftarrow>take i xs @ y # drop (Suc i) xs. f x)"
    using assms by (simp add: upd_conv_take_nth_drop)
  ultimately show ?thesis by (simp add: ac_simps)
qed

end
