(* ===== verification/Sqfs_Swap.thy ===== *)
theory Sqfs_Swap
  imports Sqfs_Prelude
begin

text \<open>
  Byte order: \<^verbatim>\<open>swap.c\<close>. Every multi-byte value of a squashfs image is little-endian;
  \<^verbatim>\<open>sqfs_swapin16/32/64\<close> turn the bytes a structure was read into into a host integer,
  on a host of either byte order. The generated \<^verbatim>\<open>sqfs_swapin_<struct>\<close> functions
  (\<^verbatim>\<open>gen_swap.sh\<close>) apply them field by field; they are in theory
  \<open>Sqfs_Format\<close> with the structures. \<open>le_bytes\<close> is the encoder an image builder uses; the
  lemmas show that the decoders invert it.
\<close>

section \<open>Decoding\<close>

text \<open>The macro \<^verbatim>\<open>SWAP(BITS)\<close>: from the last byte to the first, shift by eight and add.\<close>

definition sqfs_swapin :: "bytes \<Rightarrow> 'a::len word" where
  "sqfs_swapin c = foldr (\<lambda>b r. push_bit 8 r + ucast b) c 0"

definition sqfs_swapin16 :: "bytes \<Rightarrow> u16" where
  "sqfs_swapin16 c = sqfs_swapin c"

definition sqfs_swapin32 :: "bytes \<Rightarrow> u32" where
  "sqfs_swapin32 c = sqfs_swapin c"

definition sqfs_swapin64 :: "bytes \<Rightarrow> u64" where
  "sqfs_swapin64 c = sqfs_swapin c"

definition sqfs_swap16 :: "u16 \<Rightarrow> u16" where
  "sqfs_swap16 n = drop_bit 8 n + push_bit 8 n"

section \<open>Encoding\<close>

fun le_bytes :: "nat \<Rightarrow> 'a::len word \<Rightarrow> bytes" where
  "le_bytes 0 w = []"
| "le_bytes (Suc n) w = ucast w # le_bytes n (drop_bit 8 w)"

lemma length_le_bytes [simp]: "length (le_bytes n w) = n"
  by (induction n arbitrary: w) auto

section \<open>Round trips\<close>

lemma add_disjoint_bits:
  fixes a b :: "'a::len word"
  assumes "\<And>n. n < LENGTH('a) \<Longrightarrow> \<not> (bit a n \<and> bit b n)"
  shows "a + b = a OR b"
proof (rule disjunctive_add)
  show "\<not> bit a n \<or> \<not> bit b n" for n
    using assms [of n] by (cases "n < LENGTH('a)") (auto dest: bit_imp_le_length)
qed

lemma push_bit_add_byte:
  fixes r :: "'a::len word" and b :: u8
  shows "push_bit 8 r + ucast b = push_bit 8 r OR ucast b"
  by (rule add_disjoint_bits) (auto simp: bit_simps dest: bit_imp_le_length)

lemma sqfs_swapin_Nil [simp]: "sqfs_swapin [] = 0"
  by (simp add: sqfs_swapin_def)

lemma sqfs_swapin_Cons: "sqfs_swapin (b # bs) = push_bit 8 (sqfs_swapin bs) OR ucast b"
  by (simp add: sqfs_swapin_def push_bit_add_byte)

lemma sqfs_swapin_le_bytes: "sqfs_swapin (le_bytes n w) = take_bit (8 * n) (w :: 'a::len word)"
proof (induction n arbitrary: w)
  case 0
  then show ?case by simp
next
  case (Suc n)
  have "push_bit 8 (take_bit (8 * n) (drop_bit 8 w)) OR ucast (ucast w :: u8)
      = take_bit (8 * Suc n) w"
    by (rule bit_word_eqI) (auto simp: bit_simps)
  then show ?case by (simp add: sqfs_swapin_Cons Suc.IH)
qed

lemma ucast_byte_cons:
  fixes r :: "'a::len word" and b :: u8
  assumes "8 \<le> LENGTH('a)"
  shows "ucast (push_bit 8 r OR ucast b) = b"
  using assms by (intro bit_word_eqI) (auto simp: bit_simps dest: bit_imp_le_length)

lemma drop_byte_cons:
  fixes r :: "'a::len word" and b :: u8
  shows "drop_bit 8 (push_bit 8 r OR ucast b) = take_bit (LENGTH('a) - 8) r"
  by (rule bit_word_eqI) (auto simp: bit_simps dest: bit_imp_le_length)

lemma sqfs_swapin_bits: "bit (sqfs_swapin bs :: 'a::len word) n \<Longrightarrow> n < 8 * length bs"
proof (induction bs arbitrary: n)
  case Nil
  then show ?case by simp
next
  case (Cons b bs)
  then show ?case
    by (auto simp: sqfs_swapin_Cons bit_simps dest: bit_imp_le_length
        dest!: Cons.IH [of "n - 8"])
qed

lemma take_bit_sqfs_swapin:
  "8 * length bs \<le> k \<Longrightarrow> take_bit k (sqfs_swapin bs :: 'a::len word) = sqfs_swapin bs"
  by (rule bit_word_eqI) (auto simp: bit_simps dest: sqfs_swapin_bits)

lemma le_bytes_sqfs_swapin:
  "8 * length bs \<le> LENGTH('a) \<Longrightarrow> le_bytes (length bs) (sqfs_swapin bs :: 'a::len word) = bs"
proof (induction bs)
  case Nil
  then show ?case by simp
next
  case (Cons b bs)
  have "take_bit (LENGTH('a) - 8) (sqfs_swapin bs :: 'a word) = sqfs_swapin bs"
    using Cons.prems by (intro take_bit_sqfs_swapin) simp
  with Cons show ?case
    by (simp add: sqfs_swapin_Cons ucast_byte_cons drop_byte_cons del: drop_bit_or)
qed

lemma swapin_le_bytes [simp]:
  "sqfs_swapin16 (le_bytes 2 w16) = w16"
  "sqfs_swapin32 (le_bytes 4 w32) = w32"
  "sqfs_swapin64 (le_bytes 8 w64) = w64"
  by (simp_all add: sqfs_swapin16_def sqfs_swapin32_def sqfs_swapin64_def
      sqfs_swapin_le_bytes take_bit_word_eq_self)

lemma sqfs_swap16_bytes: "sqfs_swap16 (sqfs_swapin16 [a, b]) = sqfs_swapin16 [b, a]"
proof -
  have *: "sqfs_swap16 n = drop_bit 8 n OR push_bit 8 n" for n
    unfolding sqfs_swap16_def by (rule add_disjoint_bits) (auto simp: bit_simps dest: bit_imp_le_length)
  show ?thesis
    by (rule bit_word_eqI)
      (auto simp: * sqfs_swapin16_def sqfs_swapin_Cons bit_simps dest: bit_imp_le_length)
qed

end
