(* ===== verification/Sqfs_Format.thy ===== *)
theory Sqfs_Format
  imports Sqfs_Swap
begin

text \<open>
  The on-disk format: the constants and structures of \<^verbatim>\<open>squashfs_fs.h\<close>, the
  field-wise decoders \<^verbatim>\<open>sqfs_swapin_<struct>\<close> that \<^verbatim>\<open>gen_swap.sh\<close>
  generates from them, and the packed headers and mode bits that \<^verbatim>\<open>fs.c\<close> and
  \<^verbatim>\<open>nonstd-stat.c\<close> decode. A structure is read into memory byte by byte; field
  offsets are those of the C structures, whose members are all naturally aligned, so there is no
  padding. \<^verbatim>\<open>squashfs_fragment_entry.unused\<close> is a plain \<^verbatim>\<open>unsigned int\<close>
  that no code reads and the generator does not swap; it is decoded as on a little-endian host.
\<close>

section \<open>Constants\<close>

abbreviation (input) SQUASHFS_MAGIC :: u32 where "SQUASHFS_MAGIC \<equiv> 0x73717368"
abbreviation (input) SQFS_MAGIC_SWAP :: u32 where "SQFS_MAGIC_SWAP \<equiv> 0x68737173"
abbreviation (input) SQUASHFS_MAJOR :: u16 where "SQUASHFS_MAJOR \<equiv> 4"
abbreviation (input) SQUASHFS_MINOR :: u16 where "SQUASHFS_MINOR \<equiv> 0"
abbreviation (input) SQUASHFS_METADATA_SIZE :: nat where "SQUASHFS_METADATA_SIZE \<equiv> 8192"
abbreviation (input) SQUASHFS_NAME_LEN :: nat where "SQUASHFS_NAME_LEN \<equiv> 256"
abbreviation (input) SQUASHFS_INVALID_FRAG :: u32 where "SQUASHFS_INVALID_FRAG \<equiv> 0xffffffff"
abbreviation (input) SQUASHFS_INVALID_XATTR :: u32 where "SQUASHFS_INVALID_XATTR \<equiv> 0xffffffff"
abbreviation (input) SQUASHFS_INVALID_BLK :: off_t where "SQUASHFS_INVALID_BLK \<equiv> -1"
abbreviation (input) SQUASHFS_DIR_TYPE :: u16 where "SQUASHFS_DIR_TYPE \<equiv> 1"
abbreviation (input) SQUASHFS_REG_TYPE :: u16 where "SQUASHFS_REG_TYPE \<equiv> 2"
abbreviation (input) SQUASHFS_SYMLINK_TYPE :: u16 where "SQUASHFS_SYMLINK_TYPE \<equiv> 3"
abbreviation (input) SQUASHFS_BLKDEV_TYPE :: u16 where "SQUASHFS_BLKDEV_TYPE \<equiv> 4"
abbreviation (input) SQUASHFS_CHRDEV_TYPE :: u16 where "SQUASHFS_CHRDEV_TYPE \<equiv> 5"
abbreviation (input) SQUASHFS_FIFO_TYPE :: u16 where "SQUASHFS_FIFO_TYPE \<equiv> 6"
abbreviation (input) SQUASHFS_SOCKET_TYPE :: u16 where "SQUASHFS_SOCKET_TYPE \<equiv> 7"
abbreviation (input) SQUASHFS_LDIR_TYPE :: u16 where "SQUASHFS_LDIR_TYPE \<equiv> 8"
abbreviation (input) SQUASHFS_LREG_TYPE :: u16 where "SQUASHFS_LREG_TYPE \<equiv> 9"
abbreviation (input) SQUASHFS_LSYMLINK_TYPE :: u16 where "SQUASHFS_LSYMLINK_TYPE \<equiv> 10"
abbreviation (input) SQUASHFS_LBLKDEV_TYPE :: u16 where "SQUASHFS_LBLKDEV_TYPE \<equiv> 11"
abbreviation (input) SQUASHFS_LCHRDEV_TYPE :: u16 where "SQUASHFS_LCHRDEV_TYPE \<equiv> 12"
abbreviation (input) SQUASHFS_LFIFO_TYPE :: u16 where "SQUASHFS_LFIFO_TYPE \<equiv> 13"
abbreviation (input) SQUASHFS_LSOCKET_TYPE :: u16 where "SQUASHFS_LSOCKET_TYPE \<equiv> 14"
abbreviation (input) SQUASHFS_XATTR_VALUE_OOL :: u16 where "SQUASHFS_XATTR_VALUE_OOL \<equiv> 256"
abbreviation (input) SQUASHFS_XATTR_PREFIX_MASK :: u16 where "SQUASHFS_XATTR_PREFIX_MASK \<equiv> 0xff"
abbreviation (input) SQUASHFS_COMPRESSED_BIT :: u16 where "SQUASHFS_COMPRESSED_BIT \<equiv> 0x8000"
abbreviation (input) SQUASHFS_COMPRESSED_BIT_BLOCK :: u32 where
  "SQUASHFS_COMPRESSED_BIT_BLOCK \<equiv> 0x1000000"
abbreviation (input) SQUASHFS_CACHED_BLKS :: nat where "SQUASHFS_CACHED_BLKS \<equiv> 8"
abbreviation (input) SQUASHFS_META_SLOTS :: nat where "SQUASHFS_META_SLOTS \<equiv> 8"

section \<open>Structures\<close>

definition fld16 :: "nat \<Rightarrow> bytes \<Rightarrow> u16" where
  "fld16 k bs = sqfs_swapin16 (take 2 (drop k bs))"

definition fld32 :: "nat \<Rightarrow> bytes \<Rightarrow> u32" where
  "fld32 k bs = sqfs_swapin32 (take 4 (drop k bs))"

definition fld64 :: "nat \<Rightarrow> bytes \<Rightarrow> u64" where
  "fld64 k bs = sqfs_swapin64 (take 8 (drop k bs))"

record squashfs_super_block =
  sb_magic :: u32
  sb_inodes :: u32
  sb_mkfs_time :: u32
  sb_block_size :: u32
  sb_fragments :: u32
  sb_compression :: u16
  sb_block_log :: u16
  sb_flags :: u16
  sb_no_ids :: u16
  sb_major :: u16
  sb_minor :: u16
  sb_root_inode :: u64
  sb_bytes_used :: u64
  sb_id_table_start :: u64
  sb_xattr_id_table_start :: u64
  sb_inode_table_start :: u64
  sb_directory_table_start :: u64
  sb_fragment_table_start :: u64
  sb_lookup_table_start :: u64

abbreviation (input) sizeof_super_block :: nat where
  "sizeof_super_block \<equiv> 96"

definition sqfs_swapin_super_block :: "bytes \<Rightarrow> squashfs_super_block" where
  "sqfs_swapin_super_block bs = \<lparr>
     sb_magic = fld32 0 bs, sb_inodes = fld32 4 bs, sb_mkfs_time = fld32 8 bs,
     sb_block_size = fld32 12 bs, sb_fragments = fld32 16 bs,
     sb_compression = fld16 20 bs, sb_block_log = fld16 22 bs, sb_flags = fld16 24 bs,
     sb_no_ids = fld16 26 bs, sb_major = fld16 28 bs, sb_minor = fld16 30 bs,
     sb_root_inode = fld64 32 bs, sb_bytes_used = fld64 40 bs,
     sb_id_table_start = fld64 48 bs, sb_xattr_id_table_start = fld64 56 bs,
     sb_inode_table_start = fld64 64 bs, sb_directory_table_start = fld64 72 bs,
     sb_fragment_table_start = fld64 80 bs, sb_lookup_table_start = fld64 88 bs\<rparr>"

record squashfs_dir_index =
  di_index :: u32
  di_start_block :: u32
  di_size :: u32

abbreviation (input) sizeof_dir_index :: nat where
  "sizeof_dir_index \<equiv> 12"

definition sqfs_swapin_dir_index :: "bytes \<Rightarrow> squashfs_dir_index" where
  "sqfs_swapin_dir_index bs = \<lparr>
     di_index = fld32 0 bs, di_start_block = fld32 4 bs, di_size = fld32 8 bs\<rparr>"

record squashfs_base_inode =
  bi_inode_type :: u16
  bi_mode :: u16
  bi_uid :: u16
  bi_guid :: u16
  bi_mtime :: u32
  bi_inode_number :: u32

abbreviation (input) sizeof_base_inode :: nat where
  "sizeof_base_inode \<equiv> 16"

definition sqfs_swapin_base_inode :: "bytes \<Rightarrow> squashfs_base_inode" where
  "sqfs_swapin_base_inode bs = \<lparr>
     bi_inode_type = fld16 0 bs, bi_mode = fld16 2 bs, bi_uid = fld16 4 bs,
     bi_guid = fld16 6 bs, bi_mtime = fld32 8 bs, bi_inode_number = fld32 12 bs\<rparr>"

record squashfs_ipc_inode = squashfs_base_inode +
  ipc_nlink :: u32

abbreviation (input) sizeof_ipc_inode :: nat where
  "sizeof_ipc_inode \<equiv> 20"

definition sqfs_swapin_ipc_inode :: "bytes \<Rightarrow> squashfs_ipc_inode" where
  "sqfs_swapin_ipc_inode bs = \<lparr>
     bi_inode_type = fld16 0 bs, bi_mode = fld16 2 bs, bi_uid = fld16 4 bs,
     bi_guid = fld16 6 bs, bi_mtime = fld32 8 bs, bi_inode_number = fld32 12 bs,
     ipc_nlink = fld32 16 bs\<rparr>"

record squashfs_lipc_inode = squashfs_base_inode +
  lipc_nlink :: u32
  lipc_xattr :: u32

abbreviation (input) sizeof_lipc_inode :: nat where
  "sizeof_lipc_inode \<equiv> 24"

definition sqfs_swapin_lipc_inode :: "bytes \<Rightarrow> squashfs_lipc_inode" where
  "sqfs_swapin_lipc_inode bs = \<lparr>
     bi_inode_type = fld16 0 bs, bi_mode = fld16 2 bs, bi_uid = fld16 4 bs,
     bi_guid = fld16 6 bs, bi_mtime = fld32 8 bs, bi_inode_number = fld32 12 bs,
     lipc_nlink = fld32 16 bs, lipc_xattr = fld32 20 bs\<rparr>"

record squashfs_dev_inode = squashfs_base_inode +
  dev_nlink :: u32
  dev_rdev :: u32

abbreviation (input) sizeof_dev_inode :: nat where
  "sizeof_dev_inode \<equiv> 24"

definition sqfs_swapin_dev_inode :: "bytes \<Rightarrow> squashfs_dev_inode" where
  "sqfs_swapin_dev_inode bs = \<lparr>
     bi_inode_type = fld16 0 bs, bi_mode = fld16 2 bs, bi_uid = fld16 4 bs,
     bi_guid = fld16 6 bs, bi_mtime = fld32 8 bs, bi_inode_number = fld32 12 bs,
     dev_nlink = fld32 16 bs, dev_rdev = fld32 20 bs\<rparr>"

record squashfs_ldev_inode = squashfs_base_inode +
  ldev_nlink :: u32
  ldev_rdev :: u32
  ldev_xattr :: u32

abbreviation (input) sizeof_ldev_inode :: nat where
  "sizeof_ldev_inode \<equiv> 28"

definition sqfs_swapin_ldev_inode :: "bytes \<Rightarrow> squashfs_ldev_inode" where
  "sqfs_swapin_ldev_inode bs = \<lparr>
     bi_inode_type = fld16 0 bs, bi_mode = fld16 2 bs, bi_uid = fld16 4 bs,
     bi_guid = fld16 6 bs, bi_mtime = fld32 8 bs, bi_inode_number = fld32 12 bs,
     ldev_nlink = fld32 16 bs, ldev_rdev = fld32 20 bs, ldev_xattr = fld32 24 bs\<rparr>"

record squashfs_symlink_inode = squashfs_base_inode +
  sym_nlink :: u32
  sym_symlink_size :: u32

abbreviation (input) sizeof_symlink_inode :: nat where
  "sizeof_symlink_inode \<equiv> 24"

definition sqfs_swapin_symlink_inode :: "bytes \<Rightarrow> squashfs_symlink_inode" where
  "sqfs_swapin_symlink_inode bs = \<lparr>
     bi_inode_type = fld16 0 bs, bi_mode = fld16 2 bs, bi_uid = fld16 4 bs,
     bi_guid = fld16 6 bs, bi_mtime = fld32 8 bs, bi_inode_number = fld32 12 bs,
     sym_nlink = fld32 16 bs, sym_symlink_size = fld32 20 bs\<rparr>"

record squashfs_reg_inode = squashfs_base_inode +
  reg_start_block :: u32
  reg_fragment :: u32
  reg_offset :: u32
  reg_file_size :: u32

abbreviation (input) sizeof_reg_inode :: nat where
  "sizeof_reg_inode \<equiv> 32"

definition sqfs_swapin_reg_inode :: "bytes \<Rightarrow> squashfs_reg_inode" where
  "sqfs_swapin_reg_inode bs = \<lparr>
     bi_inode_type = fld16 0 bs, bi_mode = fld16 2 bs, bi_uid = fld16 4 bs,
     bi_guid = fld16 6 bs, bi_mtime = fld32 8 bs, bi_inode_number = fld32 12 bs,
     reg_start_block = fld32 16 bs, reg_fragment = fld32 20 bs,
     reg_offset = fld32 24 bs, reg_file_size = fld32 28 bs\<rparr>"

record squashfs_lreg_inode = squashfs_base_inode +
  lreg_start_block :: u64
  lreg_file_size :: u64
  lreg_sparse :: u64
  lreg_nlink :: u32
  lreg_fragment :: u32
  lreg_offset :: u32
  lreg_xattr :: u32

abbreviation (input) sizeof_lreg_inode :: nat where
  "sizeof_lreg_inode \<equiv> 56"

definition sqfs_swapin_lreg_inode :: "bytes \<Rightarrow> squashfs_lreg_inode" where
  "sqfs_swapin_lreg_inode bs = \<lparr>
     bi_inode_type = fld16 0 bs, bi_mode = fld16 2 bs, bi_uid = fld16 4 bs,
     bi_guid = fld16 6 bs, bi_mtime = fld32 8 bs, bi_inode_number = fld32 12 bs,
     lreg_start_block = fld64 16 bs, lreg_file_size = fld64 24 bs,
     lreg_sparse = fld64 32 bs, lreg_nlink = fld32 40 bs, lreg_fragment = fld32 44 bs,
     lreg_offset = fld32 48 bs, lreg_xattr = fld32 52 bs\<rparr>"

record squashfs_dir_inode = squashfs_base_inode +
  dir_start_block :: u32
  dir_nlink :: u32
  dir_file_size :: u16
  dir_offset :: u16
  dir_parent_inode :: u32

abbreviation (input) sizeof_dir_inode :: nat where
  "sizeof_dir_inode \<equiv> 32"

definition sqfs_swapin_dir_inode :: "bytes \<Rightarrow> squashfs_dir_inode" where
  "sqfs_swapin_dir_inode bs = \<lparr>
     bi_inode_type = fld16 0 bs, bi_mode = fld16 2 bs, bi_uid = fld16 4 bs,
     bi_guid = fld16 6 bs, bi_mtime = fld32 8 bs, bi_inode_number = fld32 12 bs,
     dir_start_block = fld32 16 bs, dir_nlink = fld32 20 bs,
     dir_file_size = fld16 24 bs, dir_offset = fld16 26 bs,
     dir_parent_inode = fld32 28 bs\<rparr>"

record squashfs_ldir_inode = squashfs_base_inode +
  ldir_nlink :: u32
  ldir_file_size :: u32
  ldir_start_block :: u32
  ldir_parent_inode :: u32
  ldir_i_count :: u16
  ldir_offset :: u16
  ldir_xattr :: u32

abbreviation (input) sizeof_ldir_inode :: nat where
  "sizeof_ldir_inode \<equiv> 40"

definition sqfs_swapin_ldir_inode :: "bytes \<Rightarrow> squashfs_ldir_inode" where
  "sqfs_swapin_ldir_inode bs = \<lparr>
     bi_inode_type = fld16 0 bs, bi_mode = fld16 2 bs, bi_uid = fld16 4 bs,
     bi_guid = fld16 6 bs, bi_mtime = fld32 8 bs, bi_inode_number = fld32 12 bs,
     ldir_nlink = fld32 16 bs, ldir_file_size = fld32 20 bs,
     ldir_start_block = fld32 24 bs, ldir_parent_inode = fld32 28 bs,
     ldir_i_count = fld16 32 bs, ldir_offset = fld16 34 bs, ldir_xattr = fld32 36 bs\<rparr>"

record squashfs_dir_entry =
  de_offset :: u16
  de_inode_number :: u16
  de_type :: u16
  de_size :: u16

abbreviation (input) sizeof_dir_entry :: nat where
  "sizeof_dir_entry \<equiv> 8"

definition sqfs_swapin_dir_entry :: "bytes \<Rightarrow> squashfs_dir_entry" where
  "sqfs_swapin_dir_entry bs = \<lparr>
     de_offset = fld16 0 bs, de_inode_number = fld16 2 bs, de_type = fld16 4 bs,
     de_size = fld16 6 bs\<rparr>"

record squashfs_dir_header =
  dh_count :: u32
  dh_start_block :: u32
  dh_inode_number :: u32

abbreviation (input) sizeof_dir_header :: nat where
  "sizeof_dir_header \<equiv> 12"

definition sqfs_swapin_dir_header :: "bytes \<Rightarrow> squashfs_dir_header" where
  "sqfs_swapin_dir_header bs = \<lparr>
     dh_count = fld32 0 bs, dh_start_block = fld32 4 bs, dh_inode_number = fld32 8 bs\<rparr>"

record squashfs_fragment_entry =
  fe_start_block :: u64
  fe_size :: u32
  fe_unused :: u32

abbreviation (input) sizeof_fragment_entry :: nat where
  "sizeof_fragment_entry \<equiv> 16"

definition sqfs_swapin_fragment_entry :: "bytes \<Rightarrow> squashfs_fragment_entry" where
  "sqfs_swapin_fragment_entry bs = \<lparr>
     fe_start_block = fld64 0 bs, fe_size = fld32 8 bs, fe_unused = fld32 12 bs\<rparr>"

record squashfs_xattr_entry =
  xe_type :: u16
  xe_size :: u16

abbreviation (input) sizeof_xattr_entry :: nat where
  "sizeof_xattr_entry \<equiv> 4"

definition sqfs_swapin_xattr_entry :: "bytes \<Rightarrow> squashfs_xattr_entry" where
  "sqfs_swapin_xattr_entry bs = \<lparr>
     xe_type = fld16 0 bs, xe_size = fld16 2 bs\<rparr>"

record squashfs_xattr_val =
  xv_vsize :: u32

abbreviation (input) sizeof_xattr_val :: nat where
  "sizeof_xattr_val \<equiv> 4"

definition sqfs_swapin_xattr_val :: "bytes \<Rightarrow> squashfs_xattr_val" where
  "sqfs_swapin_xattr_val bs = \<lparr>
     xv_vsize = fld32 0 bs\<rparr>"

record squashfs_xattr_id =
  xi_xattr :: u64
  xi_count :: u32
  xi_size :: u32

abbreviation (input) sizeof_xattr_id :: nat where
  "sizeof_xattr_id \<equiv> 16"

definition sqfs_swapin_xattr_id :: "bytes \<Rightarrow> squashfs_xattr_id" where
  "sqfs_swapin_xattr_id bs = \<lparr>
     xi_xattr = fld64 0 bs, xi_count = fld32 8 bs, xi_size = fld32 12 bs\<rparr>"

record squashfs_xattr_id_table =
  xt_xattr_table_start :: u64
  xt_xattr_ids :: u32
  xt_unused :: u32

abbreviation (input) sizeof_xattr_id_table :: nat where
  "sizeof_xattr_id_table \<equiv> 16"

definition sqfs_swapin_xattr_id_table :: "bytes \<Rightarrow> squashfs_xattr_id_table" where
  "sqfs_swapin_xattr_id_table bs = \<lparr>
     xt_xattr_table_start = fld64 0 bs, xt_xattr_ids = fld32 8 bs,
     xt_unused = fld32 12 bs\<rparr>"

section \<open>Mode bits\<close>

abbreviation (input) S_IFMT :: u32 where "S_IFMT \<equiv> 0xF000"
abbreviation (input) S_IFSOCK :: u32 where "S_IFSOCK \<equiv> 0xC000"
abbreviation (input) S_IFLNK :: u32 where "S_IFLNK \<equiv> 0xA000"
abbreviation (input) S_IFREG :: u32 where "S_IFREG \<equiv> 0x8000"
abbreviation (input) S_IFBLK :: u32 where "S_IFBLK \<equiv> 0x6000"
abbreviation (input) S_IFDIR :: u32 where "S_IFDIR \<equiv> 0x4000"
abbreviation (input) S_IFCHR :: u32 where "S_IFCHR \<equiv> 0x2000"
abbreviation (input) S_IFIFO :: u32 where "S_IFIFO \<equiv> 0x1000"

definition S_ISDIR :: "u32 \<Rightarrow> bool" where "S_ISDIR m \<longleftrightarrow> m AND S_IFMT = S_IFDIR"
definition S_ISREG :: "u32 \<Rightarrow> bool" where "S_ISREG m \<longleftrightarrow> m AND S_IFMT = S_IFREG"
definition S_ISLNK :: "u32 \<Rightarrow> bool" where "S_ISLNK m \<longleftrightarrow> m AND S_IFMT = S_IFLNK"
definition S_ISBLK :: "u32 \<Rightarrow> bool" where "S_ISBLK m \<longleftrightarrow> m AND S_IFMT = S_IFBLK"
definition S_ISCHR :: "u32 \<Rightarrow> bool" where "S_ISCHR m \<longleftrightarrow> m AND S_IFMT = S_IFCHR"

lemmas S_IS_defs = S_ISDIR_def S_ISREG_def S_ISLNK_def S_ISBLK_def S_ISCHR_def

definition sqfs_mode :: "u16 \<Rightarrow> u32" where
  "sqfs_mode t =
     (if t = SQUASHFS_DIR_TYPE \<or> t = SQUASHFS_LDIR_TYPE then S_IFDIR
      else if t = SQUASHFS_REG_TYPE \<or> t = SQUASHFS_LREG_TYPE then S_IFREG
      else if t = SQUASHFS_SYMLINK_TYPE \<or> t = SQUASHFS_LSYMLINK_TYPE then S_IFLNK
      else if t = SQUASHFS_BLKDEV_TYPE \<or> t = SQUASHFS_LBLKDEV_TYPE then S_IFBLK
      else if t = SQUASHFS_CHRDEV_TYPE \<or> t = SQUASHFS_LCHRDEV_TYPE then S_IFCHR
      else if t = SQUASHFS_FIFO_TYPE \<or> t = SQUASHFS_LFIFO_TYPE then S_IFIFO
      else if t = SQUASHFS_SOCKET_TYPE \<or> t = SQUASHFS_LSOCKET_TYPE then S_IFSOCK
      else 0)"

section \<open>Block headers\<close>

definition sqfs_md_header :: "u16 \<Rightarrow> bool \<times> u16" where
  "sqfs_md_header hdr =
     (let compressed = (hdr AND SQUASHFS_COMPRESSED_BIT = 0);
          size = hdr AND NOT SQUASHFS_COMPRESSED_BIT
      in (compressed, if size = 0 then SQUASHFS_COMPRESSED_BIT else size))"

definition sqfs_data_header :: "u32 \<Rightarrow> bool \<times> u32" where
  "sqfs_data_header hdr =
     (hdr AND SQUASHFS_COMPRESSED_BIT_BLOCK = 0, hdr AND NOT SQUASHFS_COMPRESSED_BIT_BLOCK)"

lemma sqfs_md_header_size: "snd (sqfs_md_header hdr) \<noteq> 0"
  by (simp add: sqfs_md_header_def Let_def)

lemma sqfs_md_header_le: "unat (snd (sqfs_md_header hdr)) \<le> 32768"
proof -
  have n: "NOT SQUASHFS_COMPRESSED_BIT = (32767 :: u16)" by simp
  have "hdr AND NOT SQUASHFS_COMPRESSED_BIT \<le> 32767"
    unfolding n by (rule word_and_le1)
  then show ?thesis
    by (simp add: sqfs_md_header_def Let_def word_le_nat_alt)
qed

section \<open>Rounding up\<close>

text \<open>\<^verbatim>\<open>sqfs_divceil\<close>: the division traps when the group size is zero.\<close>

definition sqfs_divceil :: "nat \<Rightarrow> size_t \<Rightarrow> size_t res" where
  "sqfs_divceil n g =
     (if g = 0 then Fault Div_By_Zero
      else Ok (let q = n div g in if n mod g \<noteq> 0 then size_add q 1 else q))"

end
