(* ===== verification/Sqfs_Block.thy ===== *)
theory Sqfs_Block
  imports Sqfs_Format
begin

text \<open>
  Reference-counted blocks: \<^verbatim>\<open>sqfs_block\<close> of \<^verbatim>\<open>common.h\<close> and
  \<^verbatim>\<open>sqfs_block_dispose\<close> of \<^verbatim>\<open>fs.c\<close>, over an explicit store. A pointer to
  a block or to a block-index array is an address of the store; freeing removes the address, and
  using an address that is not live is the fault \<open>Use_After_Free\<close>. The outcome of each
  \<^verbatim>\<open>malloc\<close> is an arbitrary oracle, so every out-of-memory path is reachable.

  \<open>heap_owned h M\<close> says that the multiset \<open>M\<close> of references the program holds accounts for the
  store exactly: every live block has as many references as its count says, every other address
  has none. It is the invariant behind \<^emph>\<open>no use after free, no double free, no leak\<close>.
\<close>

section \<open>The store\<close>

record sqfs_block =
  blk_size :: size_t
  blk_data :: bytes
  blk_refcount :: int

text \<open>\<^verbatim>\<open>sqfs_blockidx_entry\<close> of \<^verbatim>\<open>file.h\<close>; an array element that was
  allocated but never written is \<open>None\<close>.\<close>

record sqfs_blockidx_entry =
  bx_data_block :: u64
  bx_md_block :: u32

datatype cell = Block_Cell sqfs_block | Index_Cell "sqfs_blockidx_entry option list"

record heap =
  hp_cells :: "nat \<Rightarrow> cell option"
  hp_brk :: nat
  hp_malloc_ok :: "nat \<Rightarrow> bool"
  hp_mallocs :: nat

definition hp_malloc :: "(heap, bool) io" where
  "hp_malloc = (\<lambda>h. (Ok (hp_malloc_ok h (hp_mallocs h)), h\<lparr>hp_mallocs := Suc (hp_mallocs h)\<rparr>))"

definition hp_new :: "cell \<Rightarrow> (heap, nat) io" where
  "hp_new c = (\<lambda>h. (Ok (hp_brk h),
     h\<lparr>hp_cells := (hp_cells h)(hp_brk h \<mapsto> c), hp_brk := Suc (hp_brk h)\<rparr>))"

definition hp_store :: "nat \<Rightarrow> cell \<Rightarrow> (heap, unit) io" where
  "hp_store a c = io_modify (\<lambda>h. h\<lparr>hp_cells := (hp_cells h)(a \<mapsto> c)\<rparr>)"

definition hp_free :: "nat \<Rightarrow> (heap, unit) io" where
  "hp_free a = (\<lambda>h. case hp_cells h a of
     None \<Rightarrow> (Fault Use_After_Free, h)
   | Some c \<Rightarrow> (Ok (), h\<lparr>hp_cells := (hp_cells h)(a := None)\<rparr>))"

definition hp_block :: "nat \<Rightarrow> (heap, sqfs_block) io" where
  "hp_block a = (\<lambda>h. case hp_cells h a of
     Some (Block_Cell b) \<Rightarrow> (Ok b, h)
   | _ \<Rightarrow> (Fault Use_After_Free, h))"

definition hp_index :: "nat \<Rightarrow> (heap, sqfs_blockidx_entry option list) io" where
  "hp_index a = (\<lambda>h. case hp_cells h a of
     Some (Index_Cell xs) \<Rightarrow> (Ok xs, h)
   | _ \<Rightarrow> (Fault Use_After_Free, h))"

section \<open>Reference counts\<close>

definition sqfs_block_ref :: "nat \<Rightarrow> (heap, unit) io" where
  "sqfs_block_ref a = io_bind (hp_block a) (\<lambda>b.
     hp_store a (Block_Cell (b\<lparr>blk_refcount := blk_refcount b + 1\<rparr>)))"

definition sqfs_block_deref :: "nat \<Rightarrow> (heap, bool) io" where
  "sqfs_block_deref a = io_bind (hp_block a) (\<lambda>b.
     io_bind (hp_store a (Block_Cell (b\<lparr>blk_refcount := blk_refcount b - 1\<rparr>)))
       (\<lambda>_. io_ret (blk_refcount b - 1 = 0)))"

definition sqfs_block_dispose :: "nat \<Rightarrow> (heap, unit) io" where
  "sqfs_block_dispose a = io_bind (sqfs_block_deref a) (\<lambda>last.
     if last then hp_free a else io_ret ())"

section \<open>Ownership\<close>

fun cell_owned :: "cell option \<Rightarrow> nat \<Rightarrow> bool" where
  "cell_owned None n \<longleftrightarrow> n = 0"
| "cell_owned (Some (Block_Cell b)) n \<longleftrightarrow>
     0 < n \<and> blk_refcount b = int n \<and> blk_size b = length (blk_data b)"
| "cell_owned (Some (Index_Cell xs)) n \<longleftrightarrow> n = 1"

definition heap_owned :: "heap \<Rightarrow> nat multiset \<Rightarrow> bool" where
  "heap_owned h M \<longleftrightarrow>
     (\<forall>a. cell_owned (hp_cells h a) (count M a)) \<and> (\<forall>a. hp_brk h \<le> a \<longrightarrow> hp_cells h a = None)"

text \<open>What a reader can see of the store: the contents, without the counts.\<close>

definition hp_view :: "heap \<Rightarrow> nat \<Rightarrow> (bytes + sqfs_blockidx_entry option list) option" where
  "hp_view h a = (case hp_cells h a of
     None \<Rightarrow> None
   | Some (Block_Cell b) \<Rightarrow> Some (Inl (blk_data b))
   | Some (Index_Cell xs) \<Rightarrow> Some (Inr xs))"

lemma heap_ownedD:
  assumes "heap_owned h M"
  shows "cell_owned (hp_cells h a) (count M a)"
    and "hp_brk h \<le> a \<Longrightarrow> hp_cells h a = None"
  using assms unfolding heap_owned_def by auto

lemma heap_owned_fresh:
  assumes "heap_owned h M"
  shows "hp_cells h (hp_brk h) = None" and "count M (hp_brk h) = 0"
  using heap_ownedD [OF assms, of "hp_brk h"] by auto

lemma hp_view_None [simp]: "hp_view h a = None \<longleftrightarrow> hp_cells h a = None"
  by (auto simp: hp_view_def split: option.splits cell.splits)

lemma hp_view_Inl: "hp_view h a = Some (Inl d) \<longleftrightarrow>
    (\<exists>b. hp_cells h a = Some (Block_Cell b) \<and> blk_data b = d)"
  by (auto simp: hp_view_def split: option.splits cell.splits)

lemma hp_view_Inr: "hp_view h a = Some (Inr xs) \<longleftrightarrow> hp_cells h a = Some (Index_Cell xs)"
  by (auto simp: hp_view_def split: option.splits cell.splits)

lemma heap_owned_live: "heap_owned h M \<Longrightarrow> a \<in># M \<longleftrightarrow> hp_cells h a \<noteq> None"
  using heap_ownedD(1) [of h M a]
  by (cases "(hp_cells h a, count M a)" rule: cell_owned.cases)
    (auto simp: not_in_iff intro: count_inI)

text \<open>Replacing one cell keeps ownership when the references to that address change with it.\<close>

lemma heap_owned_update:
  assumes "heap_owned h M" and "cell_owned c (count M' a)"
    and "\<And>x. x \<noteq> a \<Longrightarrow> count M' x = count M x"
    and "\<And>x. b \<le> x \<Longrightarrow> hp_brk h \<le> x \<and> x \<noteq> a"
  shows "heap_owned (h\<lparr>hp_cells := (hp_cells h)(a := c), hp_brk := b\<rparr>) M'"
  using assms heap_ownedD [OF assms(1)] unfolding heap_owned_def by auto

lemma heap_owned_update_same:
  assumes "heap_owned h M" and "cell_owned c (count M' a)" and "hp_cells h a \<noteq> None"
    and "\<And>x. x \<noteq> a \<Longrightarrow> count M' x = count M x"
  shows "heap_owned (h\<lparr>hp_cells := (hp_cells h)(a := c)\<rparr>) M'"
  using assms heap_ownedD [OF assms(1)] unfolding heap_owned_def by auto

text \<open>Allocation hands out a fresh address and adds one reference to it.\<close>

lemma hp_new_block:
  assumes "heap_owned h M"
  shows "\<exists>h'. hp_new (Block_Cell \<lparr>blk_size = length d, blk_data = d, blk_refcount = 1\<rparr>) h
            = (Ok (hp_brk h), h')
      \<and> heap_owned h' (add_mset (hp_brk h) M)
      \<and> hp_view h' = (hp_view h)(hp_brk h \<mapsto> Inl d)
      \<and> hp_view h (hp_brk h) = None
      \<and> hp_malloc_ok h' = hp_malloc_ok h"
  using heap_owned_fresh [OF assms]
  by (auto simp: hp_new_def hp_view_def fun_eq_iff intro!: heap_owned_update [OF assms])

lemma hp_new_index:
  assumes "heap_owned h M"
  shows "\<exists>h'. hp_new (Index_Cell xs) h = (Ok (hp_brk h), h')
      \<and> heap_owned h' (add_mset (hp_brk h) M)
      \<and> hp_view h' = (hp_view h)(hp_brk h \<mapsto> Inr xs)
      \<and> hp_view h (hp_brk h) = None
      \<and> hp_malloc_ok h' = hp_malloc_ok h"
  using heap_owned_fresh [OF assms]
  by (auto simp: hp_new_def hp_view_def fun_eq_iff intro!: heap_owned_update [OF assms])

lemma hp_malloc_run:
  "hp_malloc h = (Ok (hp_malloc_ok h (hp_mallocs h)), h\<lparr>hp_mallocs := Suc (hp_mallocs h)\<rparr>)"
  by (simp add: hp_malloc_def)

lemma heap_mallocs_irrelevant [simp]:
  "heap_owned (h\<lparr>hp_mallocs := n\<rparr>) M = heap_owned h M"
  "hp_view (h\<lparr>hp_mallocs := n\<rparr>) = hp_view h"
  by (auto simp: heap_owned_def hp_view_def fun_eq_iff)

text \<open>Taking a reference to a live block.\<close>

lemma sqfs_block_ref_owned:
  assumes "heap_owned h M" and "hp_view h a = Some (Inl d)"
  shows "\<exists>h'. sqfs_block_ref a h = (Ok (), h') \<and> heap_owned h' (add_mset a M)
      \<and> hp_view h' = hp_view h \<and> hp_malloc_ok h' = hp_malloc_ok h"
proof -
  from assms(2) obtain b where b: "hp_cells h a = Some (Block_Cell b)" "blk_data b = d"
    by (auto simp: hp_view_Inl)
  let ?c = "Block_Cell (b\<lparr>blk_refcount := blk_refcount b + 1\<rparr>)"
  have "heap_owned (h\<lparr>hp_cells := (hp_cells h)(a \<mapsto> ?c)\<rparr>) (add_mset a M)"
    using heap_ownedD(1) [OF assms(1), of a] b
    by (intro heap_owned_update_same [OF assms(1)]) auto
  with b show ?thesis
    by (auto simp: sqfs_block_ref_def hp_block_def hp_store_def io_simps hp_view_def fun_eq_iff)
qed

text \<open>Giving a reference back frees the block exactly when it was the last one.\<close>

lemma sqfs_block_dispose_owned:
  assumes "heap_owned h (add_mset a M)" and "hp_view h a = Some (Inl d)"
  shows "\<exists>h'. sqfs_block_dispose a h = (Ok (), h') \<and> heap_owned h' M
      \<and> hp_view h' = (if a \<in># M then hp_view h else (hp_view h)(a := None))
      \<and> hp_malloc_ok h' = hp_malloc_ok h"
proof -
  from assms(2) obtain b where b: "hp_cells h a = Some (Block_Cell b)" "blk_data b = d"
    by (auto simp: hp_view_Inl)
  have r: "blk_refcount b = int (count M a) + 1" and s: "blk_size b = length (blk_data b)"
    using heap_ownedD(1) [OF assms(1), of a] b by auto
  let ?b = "Block_Cell (b\<lparr>blk_refcount := blk_refcount b - 1\<rparr>)"
  have d: "sqfs_block_deref a h
      = (Ok (count M a = 0), h\<lparr>hp_cells := (hp_cells h)(a \<mapsto> ?b)\<rparr>)"
    using b r by (simp add: sqfs_block_deref_def hp_block_def hp_store_def io_simps)
  show ?thesis
  proof (cases "count M a = 0")
    case True
    then have "heap_owned (h\<lparr>hp_cells := (hp_cells h)(a := None)\<rparr>) M"
      using b by (intro heap_owned_update_same [OF assms(1)]) auto
    moreover from True have "a \<notin># M" by (simp add: not_in_iff)
    ultimately show ?thesis using d True
      by (auto simp: sqfs_block_dispose_def hp_free_def io_simps hp_view_def fun_eq_iff)
  next
    case False
    then have "heap_owned (h\<lparr>hp_cells := (hp_cells h)(a \<mapsto> ?b)\<rparr>) M"
      using b r s by (intro heap_owned_update_same [OF assms(1)]) auto
    moreover from False have "a \<in># M" by (simp add: not_in_iff)
    moreover have "sqfs_block_deref a h = (Ok False, h\<lparr>hp_cells := (hp_cells h)(a \<mapsto> ?b)\<rparr>)"
      using d False by simp
    ultimately show ?thesis using b
      by (auto simp: sqfs_block_dispose_def io_simps hp_view_def fun_eq_iff)
  qed
qed

lemma hp_free_index_owned:
  assumes "heap_owned h (add_mset a M)" and "hp_view h a = Some (Inr xs)"
  shows "\<exists>h'. hp_free a h = (Ok (), h') \<and> heap_owned h' M
      \<and> hp_view h' = (hp_view h)(a := None) \<and> hp_malloc_ok h' = hp_malloc_ok h"
proof -
  from assms(2) have c: "hp_cells h a = Some (Index_Cell xs)" by (simp add: hp_view_Inr)
  then have "heap_owned (h\<lparr>hp_cells := (hp_cells h)(a := None)\<rparr>) M"
    using heap_ownedD(1) [OF assms(1), of a]
    by (intro heap_owned_update_same [OF assms(1)]) auto
  with c show ?thesis by (auto simp: hp_free_def hp_view_def fun_eq_iff)
qed

lemma heap_owned_block_size:
  assumes "heap_owned h M" and "hp_view h a = Some (Inl d)"
  obtains b where "hp_block a h = (Ok b, h)" and "blk_data b = d" and "blk_size b = length d"
proof -
  from assms(2) obtain b where b: "hp_cells h a = Some (Block_Cell b)" "blk_data b = d"
    by (auto simp: hp_view_Inl)
  with heap_ownedD(1) [OF assms(1), of a] that [of b] show thesis
    by (simp add: hp_block_def)
qed

end
