(* ===== verification/Sqfs_Cache.thy ===== *)
theory Sqfs_Cache
  imports Sqfs_Block
begin

text \<open>
  The caches: the interface of \<^verbatim>\<open>cache.h\<close> as the locale \<open>cache_api\<close>, and its
  single-threaded implementation \<^verbatim>\<open>cache.c\<close> (linear search, round-robin eviction).
  The multi-threaded implementation is in theory \<open>Sqfs_Cache_MT\<close>.

  A cache is an array of slots, each a header (\<^verbatim>\<open>sqfs_cache_entry_hdr\<close>) followed by the
  caller's payload. The \<^verbatim>\<open>void *\<close> entry handle the C functions return is the number of
  the slot. Evicting a valid slot calls the cache's \<^verbatim>\<open>dispose\<close> function on its payload,
  which works on the store.
\<close>

section \<open>State\<close>

record 'e cache_slot =
  slot_valid :: bool
  slot_idx :: u64
  slot_data :: 'e

record 'e sqfs_cache_internal =
  c_slots :: "'e cache_slot list"
  c_dispose :: "'e \<Rightarrow> (heap, unit) io"
  c_size :: size_t
  c_count :: size_t
  c_next :: size_t

type_synonym 'e sqfs_cache = "'e sqfs_cache_internal option"

section \<open>Operations of cache.c\<close>

text \<open>\<^verbatim>\<open>sizeof(sqfs_cache_entry_hdr)\<close> is 16; \<open>zero\<close> is the all-zero payload that
  \<^verbatim>\<open>calloc\<close> leaves in every slot.\<close>

definition sqfs_cache_init ::
  "size_t \<Rightarrow> size_t \<Rightarrow> ('e \<Rightarrow> (heap, unit) io) \<Rightarrow> 'e \<Rightarrow> (heap, 'e sqfs_cache_internal) io" where
  "sqfs_cache_init sz cnt dispose zero =
     io_bind hp_malloc (\<lambda>ok. if \<not> ok then io_raise SQFS_ERR else
     io_bind hp_malloc (\<lambda>ok. if \<not> ok then io_raise SQFS_ERR else
     io_ret \<lparr>c_slots = replicate cnt \<lparr>slot_valid = False, slot_idx = 0, slot_data = zero\<rparr>,
             c_dispose = dispose, c_size = sz + 16, c_count = cnt, c_next = 0\<rparr>))"

fun dispose_slots :: "('e \<Rightarrow> (heap, unit) io) \<Rightarrow> 'e cache_slot list \<Rightarrow> (heap, unit) io" where
  "dispose_slots d [] = io_ret ()"
| "dispose_slots d (s # ss) =
     io_bind (if slot_valid s then d (slot_data s) else io_ret ()) (\<lambda>_. dispose_slots d ss)"

definition sqfs_cache_destroy :: "('e sqfs_cache \<times> heap, unit) io" where
  "sqfs_cache_destroy = (\<lambda>(co, h). case co of
     None \<Rightarrow> (Ok (), (None, h))
   | Some c \<Rightarrow> (case dispose_slots (c_dispose c) (c_slots c) h of (r, h') \<Rightarrow>
       (case r of Ok _ \<Rightarrow> (Ok (), (None, h')) | Err e \<Rightarrow> (Err e, (co, h'))
        | Fault u \<Rightarrow> (Fault u, (co, h')))))"

fun find_slot :: "u64 \<Rightarrow> 'e cache_slot list \<Rightarrow> nat option" where
  "find_slot idx [] = None"
| "find_slot idx (s # ss) =
     (if slot_idx s = idx then Some 0 else map_option Suc (find_slot idx ss))"

definition sqfs_cache_get :: "u64 \<Rightarrow> ('e sqfs_cache \<times> heap, size_t) io" where
  "sqfs_cache_get idx = (\<lambda>(co, h). case co of
     None \<Rightarrow> (Fault Null_Deref, (co, h))
   | Some c \<Rightarrow>
      (case find_slot idx (c_slots c) of
         Some i \<Rightarrow>
           if slot_valid (c_slots c ! i) then (Ok i, (co, h)) else (Fault Assert_Failed, (co, h))
       | None \<Rightarrow>
           if c_count c = 0 then (Fault Div_By_Zero, (co, h))
           else if length (c_slots c) \<le> c_next c then (Fault Out_Of_Bounds, (co, h))
           else
             let i = c_next c;
                 hdr = c_slots c ! i;
                 c1 = c\<lparr>c_next := Suc i mod c_count c,
                        c_slots := (c_slots c)[i := hdr\<lparr>slot_valid := False, slot_idx := idx\<rparr>]\<rparr>
             in (case (if slot_valid hdr then c_dispose c (slot_data hdr) h else (Ok (), h)) of
                   (r, h') \<Rightarrow> (case r of
                      Ok _ \<Rightarrow> (Ok i, (Some c1, h'))
                    | Err e \<Rightarrow> (Err e, (Some c1, h'))
                    | Fault u \<Rightarrow> (Fault u, (Some c1, h'))))))"

definition sqfs_cache_entry_valid :: "size_t \<Rightarrow> 'e sqfs_cache_internal \<Rightarrow> bool" where
  "sqfs_cache_entry_valid e c = slot_valid (c_slots c ! e)"

definition sqfs_cache_entry_mark_valid ::
  "size_t \<Rightarrow> 'e sqfs_cache_internal \<Rightarrow> 'e sqfs_cache_internal res" where
  "sqfs_cache_entry_mark_valid e c =
     (if slot_valid (c_slots c ! e) then Fault Assert_Failed
      else Ok (c\<lparr>c_slots := (c_slots c)[e := (c_slots c ! e)\<lparr>slot_valid := True\<rparr>]\<rparr>))"

definition sqfs_cache_put :: "size_t \<Rightarrow> 'e sqfs_cache_internal \<Rightarrow> 'e sqfs_cache_internal" where
  "sqfs_cache_put e c = c"

text \<open>The caller's accesses to the payload behind an entry handle.\<close>

definition cache_payload :: "size_t \<Rightarrow> 'e sqfs_cache_internal \<Rightarrow> 'e" where
  "cache_payload e c = slot_data (c_slots c ! e)"

definition cache_set_payload :: "size_t \<Rightarrow> 'e \<Rightarrow> 'e sqfs_cache_internal \<Rightarrow> 'e sqfs_cache_internal"
  where "cache_set_payload e v c =
     c\<lparr>c_slots := (c_slots c)[e := (c_slots c ! e)\<lparr>slot_data := v\<rparr>]\<rparr>"

section \<open>The interface\<close>

text \<open>
  What a client of \<^verbatim>\<open>cache.h\<close> relies on. \<open>pick\<close> is the choice of an entry for a
  key (with the payload it evicts, which the implementation disposes of), \<open>content\<close> the valid
  entries with their keys, \<open>held c p k\<close> the state between get and put of entry \<open>p\<close> for key \<open>k\<close>.
\<close>

locale cache_api =
  fixes pick :: "u64 \<Rightarrow> 'c \<Rightarrow> (size_t \<times> 'e option \<times> 'c) res"
    and entry_valid :: "size_t \<Rightarrow> 'c \<Rightarrow> bool"
    and mark_valid :: "size_t \<Rightarrow> 'c \<Rightarrow> 'c res"
    and release :: "size_t \<Rightarrow> 'c \<Rightarrow> 'c"
    and payload :: "size_t \<Rightarrow> 'c \<Rightarrow> 'e"
    and set_payload :: "size_t \<Rightarrow> 'e \<Rightarrow> 'c \<Rightarrow> 'c"
    and content :: "'c \<Rightarrow> (u64 \<times> 'e) multiset"
    and inv :: "'c \<Rightarrow> bool"
    and usable :: "u64 \<Rightarrow> 'c \<Rightarrow> bool"
    and held :: "'c \<Rightarrow> size_t \<Rightarrow> u64 \<Rightarrow> bool"
  assumes pick_hit: "inv c \<Longrightarrow> (k, v) \<in># content c \<Longrightarrow>
      \<exists>p c'. pick k c = Ok (p, None, c') \<and> held c' p k \<and> entry_valid p c' \<and> payload p c' = v
        \<and> content c' = content c"
    and pick_miss: "inv c \<Longrightarrow> usable k c \<Longrightarrow> (\<forall>v. (k, v) \<notin># content c) \<Longrightarrow>
      \<exists>p ev c' k'. pick k c = Ok (p, ev, c') \<and> held c' p k \<and> \<not> entry_valid p c'
        \<and> content c = content c' + (case ev of None \<Rightarrow> {#} | Some w \<Rightarrow> {#(k', w)#})"
    and fill: "held c p k \<Longrightarrow> \<not> entry_valid p c \<Longrightarrow>
      \<exists>c'. mark_valid p (set_payload p v c) = Ok c' \<and> held c' p k \<and> entry_valid p c'
        \<and> payload p c' = v \<and> content c' = add_mset (k, v) (content c)"
    and release_valid: "held c p k \<Longrightarrow> entry_valid p c \<Longrightarrow>
      inv (release p c) \<and> content (release p c) = content c"
begin

text \<open>A cache is coherent with a relation when every valid entry is related to its key.\<close>

definition coherent :: "(u64 \<Rightarrow> 'e \<Rightarrow> bool) \<Rightarrow> 'c \<Rightarrow> bool" where
  "coherent R c \<longleftrightarrow> (\<forall>(k, v) \<in># content c. R k v)"

text \<open>The references an ownership function assigns to the valid entries.\<close>

definition owned :: "('e \<Rightarrow> nat multiset) \<Rightarrow> 'c \<Rightarrow> nat multiset" where
  "owned ptr c = (\<Sum>(k, v) \<in># content c. ptr v)"

lemma coherent_subset: "coherent R c \<Longrightarrow> content c' \<subseteq># content c \<Longrightarrow> coherent R c'"
  by (auto simp: coherent_def dest: mset_subset_eqD)

lemma hit_coherent:
  assumes "inv c" and "coherent R c" and "(k, v) \<in># content c"
  shows "\<exists>p c'. pick k c = Ok (p, None, c') \<and> held c' p k \<and> entry_valid p c' \<and> payload p c' = v
    \<and> content c' = content c \<and> inv (release p c') \<and> content (release p c') = content c
    \<and> R k v"
  using pick_hit [OF assms(1,3)] release_valid assms(2,3) by (fastforce simp: coherent_def)

lemma miss_owned:
  assumes "inv c" and "usable k c" and "\<forall>v. (k, v) \<notin># content c"
  shows "\<exists>p ev c'. pick k c = Ok (p, ev, c') \<and> held c' p k \<and> \<not> entry_valid p c'
    \<and> content c' \<subseteq># content c
    \<and> owned ptr c = owned ptr c' + (case ev of None \<Rightarrow> {#} | Some w \<Rightarrow> ptr w)
    \<and> (\<forall>w. ev = Some w \<longrightarrow> (\<exists>k'. (k', w) \<in># content c))"
proof -
  obtain p ev c' k' where *: "pick k c = Ok (p, ev, c')" "held c' p k" "\<not> entry_valid p c'"
      "content c = content c' + (case ev of None \<Rightarrow> {#} | Some w \<Rightarrow> {#(k', w)#})"
    using pick_miss [OF assms] by blast
  then show ?thesis
    by (intro exI [of _ p] exI [of _ ev] exI [of _ c'])
      (auto simp: owned_def split: option.splits)
qed

lemma fill_release:
  assumes "held c p k" and "\<not> entry_valid p c"
  shows "\<exists>c'. mark_valid p (set_payload p v c) = Ok c' \<and> entry_valid p c' \<and> payload p c' = v
    \<and> content c' = add_mset (k, v) (content c)
    \<and> inv (release p c') \<and> content (release p c') = add_mset (k, v) (content c)"
  using fill [OF assms] release_valid by metis

end

section \<open>cache.c implements the interface\<close>

text \<open>\<open>sqfs_cache_get\<close> split at the call of \<^verbatim>\<open>dispose\<close>: the choice of a slot and what it evicts.\<close>

definition cache_pick ::
  "u64 \<Rightarrow> 'e sqfs_cache_internal \<Rightarrow> (size_t \<times> 'e option \<times> 'e sqfs_cache_internal) res" where
  "cache_pick idx c = (case find_slot idx (c_slots c) of
     Some i \<Rightarrow> if slot_valid (c_slots c ! i) then Ok (i, None, c) else Fault Assert_Failed
   | None \<Rightarrow>
      if c_count c = 0 then Fault Div_By_Zero
      else if length (c_slots c) \<le> c_next c then Fault Out_Of_Bounds
      else let i = c_next c; hdr = c_slots c ! i in
        Ok (i, if slot_valid hdr then Some (slot_data hdr) else None,
            c\<lparr>c_next := Suc i mod c_count c,
              c_slots := (c_slots c)[i := hdr\<lparr>slot_valid := False, slot_idx := idx\<rparr>]\<rparr>))"

lemma sqfs_cache_get_pick:
  "sqfs_cache_get idx (Some c, h) = (case cache_pick idx c of
     Err e \<Rightarrow> (Err e, (Some c, h))
   | Fault u \<Rightarrow> (Fault u, (Some c, h))
   | Ok (i, ev, c1) \<Rightarrow> (case ev of
       None \<Rightarrow> (Ok i, (Some c1, h))
     | Some v \<Rightarrow> (case c_dispose c v h of (r, h') \<Rightarrow> (case r of
           Ok _ \<Rightarrow> (Ok i, (Some c1, h'))
         | Err e \<Rightarrow> (Err e, (Some c1, h'))
         | Fault u \<Rightarrow> (Fault u, (Some c1, h'))))))"
  by (auto simp: sqfs_cache_get_def cache_pick_def Let_def
      split: option.splits prod.splits res.splits)

definition slot_content :: "'e cache_slot \<Rightarrow> (u64 \<times> 'e) multiset" where
  "slot_content s = (if slot_valid s then {#(slot_idx s, slot_data s)#} else {#})"

definition cache_content :: "'e sqfs_cache_internal \<Rightarrow> (u64 \<times> 'e) multiset" where
  "cache_content c = (\<Sum>s\<leftarrow>c_slots c. slot_content s)"

definition cache_wf :: "'e sqfs_cache_internal \<Rightarrow> bool" where
  "cache_wf c \<longleftrightarrow> length (c_slots c) = c_count c \<and> 0 < c_count c \<and> c_next c < c_count c"

text \<open>No key occurs twice, except the zero key of slots that were never used.\<close>

definition cache_distinct :: "'e sqfs_cache_internal \<Rightarrow> bool" where
  "cache_distinct c \<longleftrightarrow> (\<forall>i < c_count c. \<forall>j < c_count c. i \<noteq> j \<longrightarrow>
     slot_idx (c_slots c ! i) = slot_idx (c_slots c ! j) \<longrightarrow>
     \<not> slot_valid (c_slots c ! i) \<and> \<not> slot_valid (c_slots c ! j))"

text \<open>Every slot that is not valid was never used: no earlier fill of a slot has failed.\<close>

definition cache_inv :: "'e sqfs_cache_internal \<Rightarrow> bool" where
  "cache_inv c \<longleftrightarrow> cache_wf c \<and> cache_distinct c \<and>
     (\<forall>i < c_count c. \<not> slot_valid (c_slots c ! i) \<longrightarrow> slot_idx (c_slots c ! i) = 0)"

definition cache_usable :: "u64 \<Rightarrow> 'e sqfs_cache_internal \<Rightarrow> bool" where
  "cache_usable k c \<longleftrightarrow> k \<noteq> 0"

definition cache_held :: "'e sqfs_cache_internal \<Rightarrow> size_t \<Rightarrow> u64 \<Rightarrow> bool" where
  "cache_held c p k \<longleftrightarrow> cache_wf c \<and> cache_distinct c \<and> p < c_count c \<and> slot_idx (c_slots c ! p) = k \<and>
     (\<forall>i < c_count c. i \<noteq> p \<longrightarrow> slot_idx (c_slots c ! i) \<noteq> k) \<and>
     (\<forall>i < c_count c. i \<noteq> p \<longrightarrow> \<not> slot_valid (c_slots c ! i) \<longrightarrow> slot_idx (c_slots c ! i) = 0)"

lemma find_slot_None: "find_slot k ss = None \<longleftrightarrow> (\<forall>i < length ss. slot_idx (ss ! i) \<noteq> k)"
proof -
  have "find_slot k ss = None \<longleftrightarrow> (\<forall>s \<in> set ss. slot_idx s \<noteq> k)"
    by (induction ss) auto
  then show ?thesis by (simp add: all_set_conv_all_nth)
qed

lemma find_slot_Some:
  "find_slot k ss = Some i \<Longrightarrow> i < length ss \<and> slot_idx (ss ! i) = k"
  by (induction ss arbitrary: i) (auto split: if_splits)

lemma cache_content_mem:
  "(k, v) \<in># cache_content c \<longleftrightarrow> (\<exists>i < length (c_slots c).
     slot_valid (c_slots c ! i) \<and> slot_idx (c_slots c ! i) = k \<and> slot_data (c_slots c ! i) = v)"
proof -
  have "(k, v) \<in># (\<Sum>s\<leftarrow>ss. slot_content s) \<longleftrightarrow>
      (\<exists>s \<in> set ss. slot_valid s \<and> slot_idx s = k \<and> slot_data s = v)" for ss
    by (induction ss) (auto simp: slot_content_def)
  then show ?thesis by (auto simp: cache_content_def set_conv_nth)
qed

lemma cache_content_update:
  assumes "i < length (c_slots c)"
  shows "cache_content (c\<lparr>c_slots := (c_slots c)[i := s]\<rparr>) + slot_content (c_slots c ! i)
       = cache_content c + slot_content s"
  using sum_list_update_mset [OF assms, of slot_content s] by (simp add: cache_content_def)

lemma cache_content_next [simp]: "cache_content (c\<lparr>c_next := n\<rparr>) = cache_content c"
  by (simp add: cache_content_def)

text \<open>Writing a key no other slot has, into any slot, keeps the keys distinct.\<close>

lemma cache_distinct_update:
  assumes "cache_wf c" and "cache_distinct c"
    and "\<And>i. i < c_count c \<Longrightarrow> i \<noteq> p \<Longrightarrow> slot_idx (c_slots c ! i) \<noteq> slot_idx s"
  shows "cache_distinct (c\<lparr>c_slots := (c_slots c)[p := s]\<rparr>)"
proof -
  have len: "length (c_slots c) = c_count c" using assms(1) by (simp add: cache_wf_def)
  show ?thesis
    unfolding cache_distinct_def
  proof (intro allI impI)
    fix i j
    assume ij: "i < c_count (c\<lparr>c_slots := (c_slots c)[p := s]\<rparr>)"
        "j < c_count (c\<lparr>c_slots := (c_slots c)[p := s]\<rparr>)" "i \<noteq> j"
      and eq: "slot_idx (c_slots (c\<lparr>c_slots := (c_slots c)[p := s]\<rparr>) ! i)
             = slot_idx (c_slots (c\<lparr>c_slots := (c_slots c)[p := s]\<rparr>) ! j)"
    from ij eq assms(3) [of i] assms(3) [of j] len have "i \<noteq> p" "j \<noteq> p"
      by (auto simp: nth_list_update split: if_splits)
    with ij eq len assms(2) show
      "\<not> slot_valid (c_slots (c\<lparr>c_slots := (c_slots c)[p := s]\<rparr>) ! i) \<and>
       \<not> slot_valid (c_slots (c\<lparr>c_slots := (c_slots c)[p := s]\<rparr>) ! j)"
      unfolding cache_distinct_def by simp
  qed
qed

lemma cache_next_irrelevant [simp]: "cache_distinct (c\<lparr>c_next := n\<rparr>) = cache_distinct c"
  by (simp add: cache_distinct_def)

lemma cache_hit_index:
  assumes "cache_wf c" and "cache_distinct c" and "(k, v) \<in># cache_content c"
  obtains i where "find_slot k (c_slots c) = Some i" and "i < c_count c"
    and "slot_valid (c_slots c ! i)" and "slot_data (c_slots c ! i) = v"
    and "slot_idx (c_slots c ! i) = k"
    and "\<And>j. j < c_count c \<Longrightarrow> j \<noteq> i \<Longrightarrow> slot_idx (c_slots c ! j) \<noteq> k"
proof -
  have len: "length (c_slots c) = c_count c" using assms(1) by (simp add: cache_wf_def)
  from assms(3) obtain i where i: "i < c_count c" "slot_valid (c_slots c ! i)"
      "slot_idx (c_slots c ! i) = k" "slot_data (c_slots c ! i) = v"
    by (auto simp: cache_content_mem len)
  have other: "\<And>j. j < c_count c \<Longrightarrow> j \<noteq> i \<Longrightarrow> slot_idx (c_slots c ! j) \<noteq> k"
    using assms(2) i unfolding cache_distinct_def by metis
  obtain j where j: "find_slot k (c_slots c) = Some j"
    using i len by (cases "find_slot k (c_slots c)") (auto simp: find_slot_None)
  have "j = i" using find_slot_Some [OF j] other len by metis
  with i j other show ?thesis by (intro that) auto
qed

lemma cache_pick_miss:
  assumes "cache_inv c" and "cache_usable k c" and "\<forall>v. (k, v) \<notin># cache_content c"
  shows "\<exists>p ev c' k'. cache_pick k c = Ok (p, ev, c') \<and> cache_held c' p k
    \<and> \<not> sqfs_cache_entry_valid p c'
    \<and> cache_content c = cache_content c' + (case ev of None \<Rightarrow> {#} | Some w \<Rightarrow> {#(k', w)#})"
proof -
  let ?i = "c_next c" and ?n = "c_count c"
  let ?s = "c_slots c ! ?i"
  let ?s' = "?s\<lparr>slot_valid := False, slot_idx := k\<rparr>"
  let ?c = "c\<lparr>c_next := Suc ?i mod ?n, c_slots := (c_slots c)[?i := ?s']\<rparr>"
  from assms(1) have len: "length (c_slots c) = ?n" and pos: "0 < ?n" and lt: "?i < ?n"
    and dist: "cache_distinct c" and clean: "\<And>i. i < ?n \<Longrightarrow> \<not> slot_valid (c_slots c ! i) \<Longrightarrow>
        slot_idx (c_slots c ! i) = 0"
    by (auto simp: cache_inv_def cache_wf_def)
  have none: "slot_idx (c_slots c ! i) \<noteq> k" if "i < ?n" for i
    using assms(2,3) that clean [OF that] len by (auto simp: cache_content_mem cache_usable_def)
  then have "find_slot k (c_slots c) = None" by (simp add: find_slot_None len)
  then have pick: "cache_pick k c = Ok (?i, if slot_valid ?s then Some (slot_data ?s) else None, ?c)"
    using len pos lt by (simp add: cache_pick_def Let_def)
  have "cache_distinct ?c"
    using cache_distinct_update [of "c\<lparr>c_next := Suc ?i mod ?n\<rparr>" ?i ?s'] dist none len pos lt
    by (simp add: cache_wf_def)
  then have "cache_held ?c ?i k"
    using len pos lt none clean
    by (auto simp: cache_held_def cache_wf_def nth_list_update)
  moreover have "cache_content c = cache_content ?c + slot_content ?s"
    using cache_content_update [of ?i "c\<lparr>c_next := Suc ?i mod ?n\<rparr>" ?s'] len lt
    by (simp add: slot_content_def)
  ultimately show ?thesis
    using pick len lt
    by (intro exI [of _ ?i] exI [of _ "if slot_valid ?s then Some (slot_data ?s) else None"]
        exI [of _ ?c] exI [of _ "slot_idx ?s"])
      (simp add: sqfs_cache_entry_valid_def slot_content_def)
qed

lemma cache_fill:
  assumes "cache_held c p k" and "\<not> sqfs_cache_entry_valid p c"
  shows "\<exists>c'. sqfs_cache_entry_mark_valid p (cache_set_payload p v c) = Ok c' \<and> cache_held c' p k
    \<and> sqfs_cache_entry_valid p c' \<and> cache_payload p c' = v
    \<and> cache_content c' = add_mset (k, v) (cache_content c)"
proof -
  let ?s = "(c_slots c ! p)\<lparr>slot_data := v, slot_valid := True\<rparr>"
  let ?c = "c\<lparr>c_slots := (c_slots c)[p := ?s]\<rparr>"
  from assms(1) have len: "length (c_slots c) = c_count c" and lt: "p < c_count c"
    and dist: "cache_distinct c" and k: "slot_idx (c_slots c ! p) = k"
    and other: "\<And>i. i < c_count c \<Longrightarrow> i \<noteq> p \<Longrightarrow> slot_idx (c_slots c ! i) \<noteq> k"
    by (auto simp: cache_held_def cache_wf_def)
  have "sqfs_cache_entry_mark_valid p (cache_set_payload p v c) = Ok ?c"
    using assms(2) len lt
    by (simp add: sqfs_cache_entry_mark_valid_def cache_set_payload_def sqfs_cache_entry_valid_def)
  moreover have "cache_distinct ?c"
    using cache_distinct_update [of c p ?s] dist other k assms(1) by (simp add: cache_held_def)
  then have "cache_held ?c p k"
    using assms(1) len lt by (auto simp: cache_held_def cache_wf_def nth_list_update)
  moreover have "cache_content ?c = add_mset (k, v) (cache_content c)"
    using cache_content_update [of p c ?s] len lt assms(2) k
    by (simp add: slot_content_def sqfs_cache_entry_valid_def)
  ultimately show ?thesis
    using len lt by (auto simp: sqfs_cache_entry_valid_def cache_payload_def)
qed

interpretation sc: cache_api cache_pick sqfs_cache_entry_valid sqfs_cache_entry_mark_valid
  sqfs_cache_put cache_payload cache_set_payload cache_content cache_inv cache_usable cache_held
proof
  fix c :: "'e sqfs_cache_internal" and k v
  assume "cache_inv c" and mem: "(k, v) \<in># cache_content c"
  then have wf: "cache_wf c" and dist: "cache_distinct c" by (auto simp: cache_inv_def)
  from wf dist mem obtain i where i: "find_slot k (c_slots c) = Some i" "i < c_count c"
      "slot_valid (c_slots c ! i)" "slot_data (c_slots c ! i) = v" "slot_idx (c_slots c ! i) = k"
      "\<And>j. j < c_count c \<Longrightarrow> j \<noteq> i \<Longrightarrow> slot_idx (c_slots c ! j) \<noteq> k"
    by (rule cache_hit_index) blast
  with \<open>cache_inv c\<close> show "\<exists>p c'. cache_pick k c = Ok (p, None, c') \<and> cache_held c' p k
      \<and> sqfs_cache_entry_valid p c' \<and> cache_payload p c' = v \<and> cache_content c' = cache_content c"
    by (auto simp: cache_pick_def cache_held_def cache_inv_def sqfs_cache_entry_valid_def
        cache_payload_def)
next
  fix c :: "'e sqfs_cache_internal" and p k
  assume "cache_held c p k" and "sqfs_cache_entry_valid p c"
  then show "cache_inv (sqfs_cache_put p c) \<and> cache_content (sqfs_cache_put p c) = cache_content c"
    by (auto simp: sqfs_cache_put_def cache_held_def cache_inv_def sqfs_cache_entry_valid_def)
qed (blast intro: cache_pick_miss cache_fill)+

section \<open>Properties\<close>

text \<open>A held slot is the one a lookup of its key finds.\<close>

lemma find_slot_held: "cache_held c p k \<Longrightarrow> find_slot k (c_slots c) = Some p"
proof -
  assume h: "cache_held c p k"
  then have p: "p < length (c_slots c)" "slot_idx (c_slots c ! p) = k" by (simp_all add: cache_held_def cache_wf_def)
  then obtain i where i: "find_slot k (c_slots c) = Some i" using find_slot_None [of k "c_slots c"] by fastforce
  then have "i < length (c_slots c)" "slot_idx (c_slots c ! i) = k" using find_slot_Some by blast+
  then show ?thesis using h i by (auto simp: cache_held_def cache_wf_def)
qed

text \<open>A lookup that misses, when the entries can be disposed of.\<close>

lemma cache_get_miss:
  assumes "cache_inv c" and "k \<noteq> 0" and "\<forall>v. (k, v) \<notin># cache_content c"
    and "\<forall>v h. \<exists>h'. c_dispose c v h = (Ok (), h')"
  shows "\<exists>p c1 h1. sqfs_cache_get k (Some c, h) = (Ok p, (Some c1, h1)) \<and> cache_held c1 p k \<and>
    \<not> sqfs_cache_entry_valid p c1"
proof -
  have "cache_usable k c" using assms(2) by (simp add: cache_usable_def)
  from cache_pick_miss [OF assms(1) this assms(3)] obtain p ev c1 where
    p: "cache_pick k c = Ok (p, ev, c1)" "cache_held c1 p k" "\<not> sqfs_cache_entry_valid p c1" by blast
  show ?thesis
  proof (cases ev)
    case None
    then show ?thesis using p by (simp add: sqfs_cache_get_pick)
  next
    case (Some w)
    moreover obtain h1 where "c_dispose c w h = (Ok (), h1)" using assms(4) by blast
    ultimately show ?thesis using p by (simp add: sqfs_cache_get_pick)
  qed
qed

text \<open>A lookup that misses hands out an invalid slot; once it is filled, marked valid and put back,
  the next lookup of the key returns that slot, valid and with what was stored, changes nothing, and the
  cache's invariant holds.\<close>

theorem cache_fill_then_hit:
  assumes "cache_inv c" and "k \<noteq> 0" and "\<forall>v. (k, v) \<notin># cache_content c"
    and "\<forall>v h. \<exists>h'. c_dispose c v h = (Ok (), h')"
  shows "\<exists>p c1 h1 c2. sqfs_cache_get k (Some c, h) = (Ok p, (Some c1, h1)) \<and> \<not> sqfs_cache_entry_valid p c1 \<and>
    sqfs_cache_entry_mark_valid p (cache_set_payload p v c1) = Ok c2 \<and> cache_inv (sqfs_cache_put p c2) \<and>
    sqfs_cache_get k (Some (sqfs_cache_put p c2), h1) = (Ok p, (Some (sqfs_cache_put p c2), h1)) \<and>
    sqfs_cache_entry_valid p (sqfs_cache_put p c2) \<and> cache_payload p (sqfs_cache_put p c2) = v"
proof -
  from cache_get_miss [OF assms] obtain p c1 h1 where
    p: "sqfs_cache_get k (Some c, h) = (Ok p, (Some c1, h1))" "cache_held c1 p k" "\<not> sqfs_cache_entry_valid p c1"
    by blast
  from cache_fill [OF p(2,3), of v] obtain c2 where
    c2: "sqfs_cache_entry_mark_valid p (cache_set_payload p v c1) = Ok c2" "cache_held c2 p k"
      "sqfs_cache_entry_valid p c2" "cache_payload p c2 = v" by blast
  have "cache_inv (sqfs_cache_put p c2)" using sc.release_valid [OF c2(2,3)] by blast
  moreover have "sqfs_cache_get k (Some c2, h1) = (Ok p, (Some c2, h1))"
    using find_slot_held [OF c2(2)] c2(3) by (simp add: sqfs_cache_get_def sqfs_cache_entry_valid_def)
  ultimately show ?thesis using p(1,3) c2 by (auto simp: sqfs_cache_put_def)
qed

definition wit_dispose :: "u8 \<Rightarrow> (heap, unit) io" where
  "wit_dispose v = io_ret ()"

definition wit_cache :: "u8 sqfs_cache_internal" where
  "wit_cache = \<lparr>c_slots = [\<lparr>slot_valid = True, slot_idx = 5, slot_data = 50\<rparr>], c_dispose = wit_dispose,
     c_size = 17, c_count = 1, c_next = 0\<rparr>"

lemma wit_cache_ok: "cache_inv wit_cache" "\<forall>v. (9, v) \<notin># cache_content wit_cache"
  "\<forall>v h. \<exists>h'. c_dispose wit_cache v h = (Ok (), h')"
  by (simp_all add: wit_cache_def cache_inv_def cache_wf_def cache_distinct_def cache_content_def slot_content_def
      wit_dispose_def io_simps)

theorem cache_fill_then_hit_witness:
  "\<forall>h. \<exists>p c1 h1 c2. sqfs_cache_get 9 (Some wit_cache, h) = (Ok p, (Some c1, h1)) \<and>
    sqfs_cache_entry_mark_valid p (cache_set_payload p 90 c1) = Ok c2 \<and>
    sqfs_cache_get 9 (Some (sqfs_cache_put p c2), h1) = (Ok p, (Some (sqfs_cache_put p c2), h1)) \<and>
    cache_payload p (sqfs_cache_put p c2) = 90"
proof
  fix h :: heap
  show "\<exists>p c1 h1 c2. sqfs_cache_get 9 (Some wit_cache, h) = (Ok p, (Some c1, h1)) \<and>
    sqfs_cache_entry_mark_valid p (cache_set_payload p 90 c1) = Ok c2 \<and>
    sqfs_cache_get 9 (Some (sqfs_cache_put p c2), h1) = (Ok p, (Some (sqfs_cache_put p c2), h1)) \<and>
    cache_payload p (sqfs_cache_put p c2) = 90"
    using cache_fill_then_hit [OF wit_cache_ok(1) _ wit_cache_ok(2,3), of h 90] by auto
qed

text \<open>C38. When the entry that a lookup handed out could not be filled and is put back invalid, its key
  stays in the slot: the next lookup of the key runs into the assertion that every matching entry is
  valid, instead of trying again.\<close>

theorem cache_failed_fill_asserts:
  assumes "cache_inv c" and "k \<noteq> 0" and "\<forall>v. (k, v) \<notin># cache_content c"
    and "\<forall>v h. \<exists>h'. c_dispose c v h = (Ok (), h')"
  shows "\<exists>p c1 h1. sqfs_cache_get k (Some c, h) = (Ok p, (Some c1, h1)) \<and>
    fst (sqfs_cache_get k (Some (sqfs_cache_put p c1), h1)) = Fault Assert_Failed"
proof -
  from cache_get_miss [OF assms] obtain p c1 h1 where
    p: "sqfs_cache_get k (Some c, h) = (Ok p, (Some c1, h1))" "cache_held c1 p k" "\<not> sqfs_cache_entry_valid p c1"
    by blast
  then show ?thesis using find_slot_held [OF p(2)]
    by (simp add: sqfs_cache_get_def [of k, THEN fun_cong, of "(Some c1, h1)"] sqfs_cache_put_def sqfs_cache_entry_valid_def)
qed

theorem cache_failed_fill_asserts_witness:
  "\<forall>h. \<exists>p c1 h1. sqfs_cache_get 9 (Some wit_cache, h) = (Ok p, (Some c1, h1)) \<and>
    fst (sqfs_cache_get 9 (Some (sqfs_cache_put p c1), h1)) = Fault Assert_Failed"
  using cache_failed_fill_asserts [OF wit_cache_ok(1) _ wit_cache_ok(2,3)] by auto

end
