(* ===== verification/Sqfs_State.thy ===== *)
theory Sqfs_State
  imports Sqfs_Cache
begin

text \<open>
  The library's state, \<^verbatim>\<open>struct sqfs\<close> of \<^verbatim>\<open>fs.h\<close>. The record
  \<open>sqfs_image\<close> holds the members that no operation changes after \<^verbatim>\<open>sqfs_init\<close> (the
  contents of the image file stand for its descriptor), its extension \<open>sqfs\<close> the caches and the
  store the program allocates from.

  The theory also states, as the locale \<open>owned_entries\<close>, what the library relies on when the
  entries of a cache own references to blocks: evicting an entry gives its references back, and no
  entry that stays in the cache is disturbed.
\<close>

section \<open>State\<close>

type_synonym sqfs_decompressor = "bytes \<Rightarrow> size_t \<Rightarrow> bytes res"
type_synonym sqfs_inode_id = u64
type_synonym sqfs_inode_num = u32

record sqfs_table =
  tb_each :: size_t
  tb_count :: size_t
  tb_blocks :: "u64 list option"

record sqfs_md_cursor =
  cur_block :: off_t
  cur_offset :: size_t

record sqfs_block_cache_entry =
  be_block :: "nat option"
  be_data_size :: size_t

type_synonym sqfs_blockidx_ptr = "nat option"

record sqfs_image =
  fs_fd :: bytes
  fs_offset :: size_t
  fs_uid :: int
  fs_gid :: int
  fs_sb :: squashfs_super_block
  fs_id_table :: sqfs_table
  fs_frag_table :: sqfs_table
  fs_export_table :: sqfs_table
  fs_decompressor :: "sqfs_decompressor option"
  fs_xattr_info :: squashfs_xattr_id_table
  fs_xattr_table :: sqfs_table

record sqfs = sqfs_image +
  fs_md_cache :: "sqfs_block_cache_entry sqfs_cache"
  fs_data_cache :: "sqfs_block_cache_entry sqfs_cache"
  fs_frag_cache :: "sqfs_block_cache_entry sqfs_cache"
  fs_blockidx :: "sqfs_blockidx_ptr sqfs_cache"
  fs_heap :: heap

abbreviation fs_img :: "sqfs \<Rightarrow> sqfs_image" where
  "fs_img s \<equiv> sqfs_image.truncate s"

text \<open>\<^verbatim>\<open>sqfs_pread\<close> on a regular file: at most \<open>n\<close> bytes from the offset, fewer at the end
  of the file, \<^verbatim>\<open>-1\<close> for a negative offset.\<close>

definition sqfs_pread :: "bytes \<Rightarrow> size_t \<Rightarrow> off_t \<Rightarrow> bytes option" where
  "sqfs_pread fd n off = (if off < 0 then None else Some (take n (drop (nat off) fd)))"

lemma sqfs_pread_full:
  "sqfs_pread fd n off = Some bs \<and> length bs = n \<longleftrightarrow>
   0 \<le> off \<and> (n = 0 \<or> nat off + n \<le> length fd) \<and> bs = take n (drop (nat off) fd)"
  by (auto simp: sqfs_pread_def split: if_splits)

section \<open>The three block caches\<close>

text \<open>\<^verbatim>\<open>sqfs_data_cache\<close> takes a pointer to one of the caches of \<^verbatim>\<open>struct sqfs\<close>;
  the pointer is the name of the member.\<close>

datatype bcache = MD_CACHE | DATA_CACHE | FRAG_CACHE

fun bc_get :: "bcache \<Rightarrow> sqfs \<Rightarrow> sqfs_block_cache_entry sqfs_cache" where
  "bc_get MD_CACHE s = fs_md_cache s"
| "bc_get DATA_CACHE s = fs_data_cache s"
| "bc_get FRAG_CACHE s = fs_frag_cache s"

fun bc_set :: "bcache \<Rightarrow> sqfs_block_cache_entry sqfs_cache \<Rightarrow> sqfs \<Rightarrow> sqfs" where
  "bc_set MD_CACHE c s = s\<lparr>fs_md_cache := c\<rparr>"
| "bc_set DATA_CACHE c s = s\<lparr>fs_data_cache := c\<rparr>"
| "bc_set FRAG_CACHE c s = s\<lparr>fs_frag_cache := c\<rparr>"

lemma bc_get_set [simp]: "bc_get w (bc_set w' c s) = (if w = w' then c else bc_get w s)"
  by (cases w; cases w') simp_all

lemma bc_get_heap [simp]: "bc_get w (s\<lparr>fs_heap := h\<rparr>) = bc_get w s"
  by (cases w) simp_all

lemma bc_set_other [simp]:
  "fs_heap (bc_set w c s) = fs_heap s" "fs_blockidx (bc_set w c s) = fs_blockidx s"
  "fs_img (bc_set w c s) = fs_img s"
  "fs_fd (bc_set w c s) = fs_fd s" "fs_offset (bc_set w c s) = fs_offset s"
  "fs_sb (bc_set w c s) = fs_sb s" "fs_decompressor (bc_set w c s) = fs_decompressor s"
  by (cases w; simp add: sqfs_image.defs)+

lemma bc_set_set [simp]: "bc_set w c (bc_set w c' s) = bc_set w c s"
  by (cases w) simp_all

lemma bc_set_heap_set [simp]: "(bc_set w c s)\<lparr>fs_heap := h\<rparr> = bc_set w c (s\<lparr>fs_heap := h\<rparr>)"
  by (cases w) simp_all

lemma fs_img_heap [simp]: "fs_img (s\<lparr>fs_heap := h\<rparr>) = fs_img s"
    "fs_img (s\<lparr>fs_blockidx := x\<rparr>) = fs_img s"
  by (simp_all add: sqfs_image.defs)

lemma fs_img_fields [simp]:
  "fs_fd (fs_img s) = fs_fd s" "fs_offset (fs_img s) = fs_offset s" "fs_sb (fs_img s) = fs_sb s"
  "fs_decompressor (fs_img s) = fs_decompressor s" "fs_id_table (fs_img s) = fs_id_table s"
  "fs_frag_table (fs_img s) = fs_frag_table s" "fs_export_table (fs_img s) = fs_export_table s"
  "fs_xattr_info (fs_img s) = fs_xattr_info s" "fs_xattr_table (fs_img s) = fs_xattr_table s"
  "fs_uid (fs_img s) = fs_uid s" "fs_gid (fs_img s) = fs_gid s"
  by (simp_all add: sqfs_image.defs)

text \<open>Calls on the store and on one cache, seen from the whole state.\<close>

definition on_heap :: "(heap, 'a) io \<Rightarrow> (sqfs, 'a) io" where
  "on_heap = io_on fs_heap (\<lambda>h s. s\<lparr>fs_heap := h\<rparr>)"

definition bc_lookup :: "bcache \<Rightarrow> u64 \<Rightarrow> (sqfs, size_t) io" where
  "bc_lookup w idx = io_on (\<lambda>s. (bc_get w s, fs_heap s))
     (\<lambda>(c, h) s. bc_set w c (s\<lparr>fs_heap := h\<rparr>)) (sqfs_cache_get idx)"

definition bc_reads :: "bcache \<Rightarrow> (sqfs_block_cache_entry sqfs_cache_internal \<Rightarrow> 'a) \<Rightarrow> (sqfs, 'a) io"
  where "bc_reads w f = (\<lambda>s. case bc_get w s of
     None \<Rightarrow> (Fault Null_Deref, s) | Some c \<Rightarrow> (Ok (f c), s))"

definition bc_changes ::
  "bcache \<Rightarrow> (sqfs_block_cache_entry sqfs_cache_internal
     \<Rightarrow> sqfs_block_cache_entry sqfs_cache_internal res) \<Rightarrow> (sqfs, unit) io" where
  "bc_changes w f = (\<lambda>s. case bc_get w s of
     None \<Rightarrow> (Fault Null_Deref, s)
   | Some c \<Rightarrow> (case f c of Ok c' \<Rightarrow> (Ok (), bc_set w (Some c') s)
                | Err e \<Rightarrow> (Err e, s) | Fault u \<Rightarrow> (Fault u, s)))"

lemmas bc_defs = bc_lookup_def bc_reads_def bc_changes_def

section \<open>Caches whose entries own references\<close>

text \<open>
  \<open>ptr e\<close> are the references entry \<open>e\<close> owns, \<open>R v k e\<close> says that \<open>e\<close> is right for key \<open>k\<close> when the
  store looks like \<open>v\<close>, \<open>disp\<close> is the cache's dispose function.
\<close>

type_synonym view = "nat \<Rightarrow> (bytes + sqfs_blockidx_entry option list) option"

locale owned_entries =
  fixes ptr :: "'e \<Rightarrow> nat multiset"
    and R :: "view \<Rightarrow> u64 \<Rightarrow> 'e \<Rightarrow> bool"
    and disp :: "'e \<Rightarrow> (heap, unit) io"
  assumes R_local: "R v k e \<Longrightarrow> (\<And>a. a \<in># ptr e \<Longrightarrow> v' a = v a) \<Longrightarrow> R v' k e"
    and disp_owned: "heap_owned h (ptr e + N) \<Longrightarrow> R (hp_view h) k e \<Longrightarrow>
      \<exists>h'. disp e h = (Ok (), h') \<and> heap_owned h' N \<and> (\<forall>a \<in># N. hp_view h' a = hp_view h a)
        \<and> hp_malloc_ok h' = hp_malloc_ok h"
begin

lemma ptr_in_owned: "(k, e) \<in># cache_content c \<Longrightarrow> ptr e \<subseteq># sc.owned ptr c"
proof -
  assume "(k, e) \<in># cache_content c"
  then obtain N where "cache_content c = add_mset (k, e) N" by (metis multi_member_split)
  then show ?thesis by (simp add: sc.owned_def)
qed

lemma coherent_local:
  assumes "sc.coherent (R v) c" and "\<And>a. a \<in># sc.owned ptr c \<Longrightarrow> v' a = v a"
  shows "sc.coherent (R v') c"
  unfolding sc.coherent_def
proof clarify
  fix k e assume m: "(k, e) \<in># cache_content c"
  then have "R v k e" using assms(1) by (auto simp: sc.coherent_def)
  then show "R v' k e"
    by (rule R_local) (use assms(2) mset_subset_eqD [OF ptr_in_owned [OF m]] in blast)
qed

text \<open>Looking up a key that is not cached: the entry it evicts, if any, gives its references back.\<close>

lemma get_miss:
  assumes inv: "cache_inv c" and k: "k \<noteq> 0" "\<forall>v. (k, v) \<notin># cache_content c"
    and coh: "sc.coherent (R (hp_view h)) c" and own: "heap_owned h (sc.owned ptr c + F)"
    and d: "c_dispose c = disp"
  shows "\<exists>p c' h'. sqfs_cache_get k (Some c, h) = (Ok p, (Some c', h')) \<and> cache_held c' p k
    \<and> \<not> sqfs_cache_entry_valid p c' \<and> c_dispose c' = disp
    \<and> heap_owned h' (sc.owned ptr c' + F) \<and> sc.coherent (R (hp_view h')) c'
    \<and> (\<forall>a \<in># F. hp_view h' a = hp_view h a) \<and> hp_malloc_ok h' = hp_malloc_ok h"
proof -
  have "cache_usable k c" using k by (simp add: cache_usable_def)
  from sc.miss_owned [OF inv this k(2), of ptr] obtain p ev c' where
    pick: "cache_pick k c = Ok (p, ev, c')" "cache_held c' p k" "\<not> sqfs_cache_entry_valid p c'"
      "cache_content c' \<subseteq># cache_content c"
      and refs: "sc.owned ptr c = sc.owned ptr c' + (case ev of None \<Rightarrow> {#} | Some w \<Rightarrow> ptr w)"
      and mem: "\<forall>w. ev = Some w \<longrightarrow> (\<exists>k'. (k', w) \<in># cache_content c)"
    by blast
  have d': "c_dispose c' = disp" using pick(1) d
    by (auto simp: cache_pick_def Let_def split: option.splits if_splits)
  have coh': "sc.coherent (R (hp_view h)) c'" using coh pick(4) by (rule sc.coherent_subset)
  show ?thesis
  proof (cases ev)
    case None
    then show ?thesis using pick refs own coh' d' by (simp add: sqfs_cache_get_pick)
  next
    case (Some w)
    then obtain k' where "(k', w) \<in># cache_content c" using mem by blast
    then have "R (hp_view h) k' w" using coh by (auto simp: sc.coherent_def)
    moreover have "heap_owned h (ptr w + (sc.owned ptr c' + F))"
      using own refs Some by (simp add: ac_simps)
    ultimately obtain h' where h': "disp w h = (Ok (), h')" "heap_owned h' (sc.owned ptr c' + F)"
        "\<forall>a \<in># sc.owned ptr c' + F. hp_view h' a = hp_view h a" "hp_malloc_ok h' = hp_malloc_ok h"
      using disp_owned by blast
    have "sc.coherent (R (hp_view h')) c'"
      using coh' by (rule coherent_local) (use h'(3) in simp)
    then show ?thesis using pick Some h' d d' by (simp add: sqfs_cache_get_pick)
  qed
qed

lemma get_hit:
  assumes "cache_inv c" and "(k, e) \<in># cache_content c" and "sc.coherent (R v) c"
  shows "\<exists>p. sqfs_cache_get k (Some c, h) = (Ok p, (Some c, h)) \<and> sqfs_cache_entry_valid p c
    \<and> cache_payload p c = e \<and> R v k e"
proof -
  have "cache_wf c" "cache_distinct c" using assms(1) by (simp_all add: cache_inv_def)
  from cache_hit_index [OF this assms(2)] obtain p where
    p: "find_slot k (c_slots c) = Some p" "slot_valid (c_slots c ! p)" "slot_data (c_slots c ! p) = e"
    by metis
  moreover have "R v k e" using assms(2,3) by (auto simp: sc.coherent_def)
  ultimately show ?thesis
    by (auto simp: sqfs_cache_get_def sqfs_cache_entry_valid_def cache_payload_def)
qed

text \<open>Filling the entry that was looked up.\<close>

lemma fill_entry:
  assumes "cache_held c p k" and "\<not> sqfs_cache_entry_valid p c" and "sc.coherent (R v) c"
    and "R v k e"
  shows "\<exists>c'. sqfs_cache_entry_mark_valid p (cache_set_payload p e c) = Ok c'
    \<and> cache_inv c' \<and> sc.coherent (R v) c' \<and> sc.owned ptr c' = ptr e + sc.owned ptr c
    \<and> sqfs_cache_entry_valid p c' \<and> cache_payload p c' = e \<and> c_dispose c' = c_dispose c"
proof -
  from sc.fill_release [OF assms(1,2), of e] obtain c' where
    c': "sqfs_cache_entry_mark_valid p (cache_set_payload p e c) = Ok c'"
      "sqfs_cache_entry_valid p c'" "cache_payload p c' = e"
      "cache_content c' = add_mset (k, e) (cache_content c)" "cache_inv (sqfs_cache_put p c')"
    by blast
  moreover from c'(1) have "c_dispose c' = c_dispose c"
    by (auto simp: sqfs_cache_entry_mark_valid_def cache_set_payload_def split: if_splits)
  ultimately show ?thesis using assms(3,4)
    by (auto simp: sc.coherent_def sc.owned_def sqfs_cache_put_def)
qed

end

end
