(* ===== verification/Sqfs_Fs.thy ===== *)
theory Sqfs_Fs
  imports Sqfs_State
begin

text \<open>
  Reading blocks: the part of \<^verbatim>\<open>fs.c\<close> from \<^verbatim>\<open>sqfs_block_read\<close> to
  \<^verbatim>\<open>sqfs_md_read\<close>. Metadata and data blocks are read from the image, decompressed,
  kept in the caches with reference counts, and metadata is read as a stream that runs over block
  boundaries. For every operation there is a pure function of the image (\<open>block_spec\<close>,
  \<open>md_block_spec\<close>, \<open>data_block_spec\<close>) that says what it returns; theory \<open>Sqfs_Md\<close> shows that
  the operations return exactly that, whatever the caches hold.
\<close>

section \<open>Operations\<close>

definition block_set_data :: "nat \<Rightarrow> bytes \<Rightarrow> (heap, unit) io" where
  "block_set_data a d = io_bind (hp_block a) (\<lambda>b.
     hp_store a (Block_Cell (b\<lparr>blk_size := length d, blk_data := d\<rparr>)))"

text \<open>The body of \<^verbatim>\<open>sqfs_block_read\<close> between the allocation of the block and the label
  \<^verbatim>\<open>error\<close>.\<close>

definition block_fill :: "nat \<Rightarrow> off_t \<Rightarrow> bool \<Rightarrow> size_t \<Rightarrow> size_t \<Rightarrow> (sqfs, unit) io" where
  "block_fill a pos compressed sz outsize =
     io_bind (on_heap hp_malloc) (\<lambda>ok. if \<not> ok then io_raise SQFS_ERR else
     io_bind (io_gets (\<lambda>s. sqfs_pread (fs_fd s) sz (off_add pos (fs_offset s)))) (\<lambda>rd.
     case rd of None \<Rightarrow> io_raise SQFS_ERR
     | Some bs \<Rightarrow>
        if length bs \<noteq> sz then io_raise SQFS_ERR
        else if compressed then
          io_bind (on_heap hp_malloc) (\<lambda>ok. if \<not> ok then io_raise SQFS_ERR else
          io_bind (io_gets fs_decompressor) (\<lambda>dc.
          case dc of None \<Rightarrow> io_fault Null_Deref
          | Some decompress \<Rightarrow> io_bind (io_lift (decompress bs outsize)) (\<lambda>out.
              on_heap (block_set_data a out))))
        else on_heap (block_set_data a bs)))"

definition sqfs_block_read :: "off_t \<Rightarrow> bool \<Rightarrow> size_t \<Rightarrow> size_t \<Rightarrow> (sqfs, nat) io" where
  "sqfs_block_read pos compressed sz outsize =
     io_bind (on_heap hp_malloc) (\<lambda>ok. if \<not> ok then io_raise SQFS_ERR else
     io_bind (on_heap (hp_new (Block_Cell \<lparr>blk_size = 0, blk_data = [], blk_refcount = 1\<rparr>))) (\<lambda>a.
     io_try (block_fill a pos compressed sz outsize) (\<lambda>x. case x of
         Inr _ \<Rightarrow> io_ret a
       | Inl e \<Rightarrow> io_bind (on_heap (sqfs_block_dispose a)) (\<lambda>_. io_raise e))))"

text \<open>\<^verbatim>\<open>sqfs_md_block_read\<close> fills the two members of a cache entry it gets by pointer,
  also when it fails: the result is the error code and the entry.\<close>

definition sqfs_md_block_read ::
  "off_t \<Rightarrow> sqfs_block_cache_entry \<Rightarrow> (sqfs, sqfs_err option \<times> sqfs_block_cache_entry) io" where
  "sqfs_md_block_read pos e =
     io_bind (io_gets (\<lambda>s. sqfs_pread (fs_fd s) 2 (off_add pos (fs_offset s)))) (\<lambda>rd.
     let e0 = e\<lparr>be_data_size := 0\<rparr> in
     case rd of None \<Rightarrow> io_ret (Some SQFS_ERR, e0)
     | Some bs \<Rightarrow>
        if length bs \<noteq> 2 then io_ret (Some SQFS_ERR, e0)
        else
          let (compressed, sz) = sqfs_md_header (sqfs_swapin16 bs);
              e1 = e\<lparr>be_data_size := 2 + unat sz\<rparr>
          in io_try (sqfs_block_read (off_add pos 2) compressed (unat sz) SQUASHFS_METADATA_SIZE)
               (\<lambda>x. case x of
                  Inl err \<Rightarrow> io_ret (Some err, e1\<lparr>be_block := None\<rparr>)
                | Inr a \<Rightarrow> io_ret (None, e1\<lparr>be_block := Some a\<rparr>)))"

definition sqfs_data_block_read ::
  "off_t \<Rightarrow> u32 \<Rightarrow> sqfs_block_cache_entry \<Rightarrow> (sqfs, sqfs_err option \<times> sqfs_block_cache_entry) io" where
  "sqfs_data_block_read pos hdr e =
     io_bind (io_gets fs_sb) (\<lambda>sb.
     let (compressed, sz) = sqfs_data_header hdr in
     io_try (sqfs_block_read pos compressed (unat sz) (unat (sb_block_size sb)))
       (\<lambda>x. case x of
          Inl err \<Rightarrow> io_ret (Some err, e\<lparr>be_block := None\<rparr>)
        | Inr a \<Rightarrow> io_ret (None, e\<lparr>be_block := Some a\<rparr>)))"

definition block_ref_of :: "nat option \<Rightarrow> (sqfs, nat) io" where
  "block_ref_of p = (case p of None \<Rightarrow> io_fault Null_Deref
     | Some a \<Rightarrow> io_bind (on_heap (sqfs_block_ref a)) (\<lambda>_. io_ret a))"

definition sqfs_md_cache :: "off_t \<Rightarrow> (sqfs, off_t \<times> nat) io" where
  "sqfs_md_cache pos =
     io_bind (bc_lookup MD_CACHE (u64_of_off pos)) (\<lambda>entry.
     io_bind (bc_reads MD_CACHE (sqfs_cache_entry_valid entry)) (\<lambda>valid.
     io_bind (if valid then io_ret () else
       io_bind (bc_reads MD_CACHE (cache_payload entry)) (\<lambda>e.
       io_bind (sqfs_md_block_read pos e) (\<lambda>(err, e').
       io_bind (bc_changes MD_CACHE (Ok \<circ> cache_set_payload entry e')) (\<lambda>_.
       case err of
         Some x \<Rightarrow> io_bind (bc_changes MD_CACHE (Ok \<circ> sqfs_cache_put entry)) (\<lambda>_. io_raise x)
       | None \<Rightarrow> bc_changes MD_CACHE (sqfs_cache_entry_mark_valid entry))))) (\<lambda>_.
     io_bind (bc_reads MD_CACHE (cache_payload entry)) (\<lambda>e.
     io_bind (block_ref_of (be_block e)) (\<lambda>block.
     io_bind (bc_changes MD_CACHE (Ok \<circ> sqfs_cache_put entry)) (\<lambda>_.
     io_ret (off_add pos (be_data_size e), block)))))))"

definition sqfs_data_cache :: "bcache \<Rightarrow> off_t \<Rightarrow> u32 \<Rightarrow> (sqfs, nat) io" where
  "sqfs_data_cache cache pos hdr =
     io_bind (bc_lookup cache (u64_of_off pos)) (\<lambda>entry.
     io_bind (bc_reads cache (sqfs_cache_entry_valid entry)) (\<lambda>valid.
     io_bind (if valid then io_ret () else
       io_bind (bc_reads cache (cache_payload entry)) (\<lambda>e.
       io_bind (sqfs_data_block_read pos hdr e) (\<lambda>(err, e').
       io_bind (bc_changes cache (Ok \<circ> cache_set_payload entry e')) (\<lambda>_.
       case err of
         Some x \<Rightarrow> io_bind (bc_changes cache (Ok \<circ> sqfs_cache_put entry)) (\<lambda>_. io_raise x)
       | None \<Rightarrow> bc_changes cache (sqfs_cache_entry_mark_valid entry))))) (\<lambda>_.
     io_bind (bc_reads cache (cache_payload entry)) (\<lambda>e.
     io_bind (block_ref_of (be_block e)) (\<lambda>block.
     io_bind (bc_changes cache (Ok \<circ> sqfs_cache_put entry)) (\<lambda>_.
     io_ret block))))))"

definition sqfs_block_cache_dispose :: "sqfs_block_cache_entry \<Rightarrow> (heap, unit) io" where
  "sqfs_block_cache_dispose e = (case be_block e of
     None \<Rightarrow> io_fault Null_Deref | Some a \<Rightarrow> sqfs_block_dispose a)"

definition sqfs_block_cache_init ::
  "size_t \<Rightarrow> (heap, sqfs_block_cache_entry sqfs_cache_internal) io" where
  "sqfs_block_cache_init cnt =
     sqfs_cache_init 16 cnt sqfs_block_cache_dispose \<lparr>be_block = None, be_data_size = 0\<rparr>"

definition sqfs_md_cursor_inode :: "sqfs_inode_id \<Rightarrow> off_t \<Rightarrow> sqfs_md_cursor" where
  "sqfs_md_cursor_inode i base =
     \<lparr>cur_block = off_of_u64 (drop_bit 16 i + u64_of_off base), cur_offset = unat (i AND 0xffff)\<rparr>"

text \<open>
  The loop of \<^verbatim>\<open>sqfs_md_read\<close>. \<open>buf\<close> says whether the caller passed a buffer; the bytes
  copied are the result (empty without a buffer). A copy that leaves the block's data is the
  fault \<open>Out_Of_Bounds\<close>.
\<close>

fun md_read_loop :: "nat \<Rightarrow> bool \<Rightarrow> sqfs_md_cursor \<Rightarrow> size_t \<Rightarrow> (sqfs, bytes \<times> sqfs_md_cursor) io" where
  "md_read_loop fuel buf cur 0 = io_ret ([], cur)"
| "md_read_loop 0 buf cur (Suc n) = io_fault Diverges"
| "md_read_loop (Suc fuel) buf cur (Suc n) =
     io_bind (sqfs_md_cache (cur_block cur)) (\<lambda>(pos, block).
     io_bind (on_heap (hp_block block)) (\<lambda>b.
     let take0 = size_sub (blk_size b) (cur_offset cur);
         tk = (if Suc n < take0 then Suc n else take0)
     in if buf \<and> length (blk_data b) < cur_offset cur + tk then io_fault Out_Of_Bounds
        else
          let off = size_add (cur_offset cur) tk;
              cur' = (if off = blk_size b then \<lparr>cur_block = pos, cur_offset = 0\<rparr>
                      else cur\<lparr>cur_offset := off\<rparr>);
              got = (if buf then take tk (drop (cur_offset cur) (blk_data b)) else [])
          in io_bind (on_heap (sqfs_block_dispose block)) (\<lambda>_.
             io_bind (md_read_loop fuel buf cur' (Suc n - tk)) (\<lambda>(rest, cur'').
             io_ret (got @ rest, cur'')))))"

text \<open>Each iteration of the loop that does not finish moves on to a later block, so a file of
  \<open>n\<close> bytes allows fewer than \<open>n\<close> of them.\<close>

definition sqfs_md_read ::
  "bool \<Rightarrow> sqfs_md_cursor \<Rightarrow> size_t \<Rightarrow> (sqfs, bytes \<times> sqfs_md_cursor) io" where
  "sqfs_md_read buf cur n =
     io_bind (io_gets (\<lambda>s. Suc (length (fs_fd s)))) (\<lambda>fuel. md_read_loop fuel buf cur n)"

section \<open>What the blocks of an image are\<close>

definition block_spec :: "sqfs_image \<Rightarrow> off_t \<Rightarrow> bool \<Rightarrow> size_t \<Rightarrow> size_t \<Rightarrow> bytes res" where
  "block_spec im pos compressed sz outsize =
     (case sqfs_pread (fs_fd im) sz (off_add pos (fs_offset im)) of
        None \<Rightarrow> Err SQFS_ERR
      | Some bs \<Rightarrow>
         if length bs \<noteq> sz then Err SQFS_ERR
         else if compressed then
           (case fs_decompressor im of None \<Rightarrow> Fault Null_Deref | Some d \<Rightarrow> d bs outsize)
         else Ok bs)"

definition md_block_spec :: "sqfs_image \<Rightarrow> off_t \<Rightarrow> (bytes \<times> size_t) res" where
  "md_block_spec im pos =
     (case sqfs_pread (fs_fd im) 2 (off_add pos (fs_offset im)) of
        None \<Rightarrow> Err SQFS_ERR
      | Some bs \<Rightarrow>
         if length bs \<noteq> 2 then Err SQFS_ERR
         else let (compressed, sz) = sqfs_md_header (sqfs_swapin16 bs) in
           res_bind (block_spec im (off_add pos 2) compressed (unat sz) SQUASHFS_METADATA_SIZE)
             (\<lambda>d. Ok (d, 2 + unat sz)))"

definition data_block_spec :: "sqfs_image \<Rightarrow> off_t \<Rightarrow> u32 \<Rightarrow> bytes res" where
  "data_block_spec im pos hdr =
     (let (compressed, sz) = sqfs_data_header hdr in
      block_spec im pos compressed (unat sz) (unat (sb_block_size (fs_sb im))))"

section \<open>Reading one block\<close>

text \<open>The store after a call: the oracle for allocations stays the same, and nothing changes at the
  addresses of references that somebody still holds.\<close>

definition hp_keeps :: "nat multiset \<Rightarrow> heap \<Rightarrow> heap \<Rightarrow> bool" where
  "hp_keeps N h h' \<longleftrightarrow> (\<forall>a \<in># N. hp_view h' a = hp_view h a) \<and> hp_malloc_ok h' = hp_malloc_ok h"

lemma hp_keeps_refl [simp]: "hp_keeps N h h"
  by (simp add: hp_keeps_def)

lemma hp_keeps_trans: "hp_keeps N h h' \<Longrightarrow> hp_keeps N h' h'' \<Longrightarrow> hp_keeps N h h''"
  by (simp add: hp_keeps_def)

lemma hp_keeps_mono: "hp_keeps N h h' \<Longrightarrow> N' \<subseteq># N \<Longrightarrow> hp_keeps N' h h'"
  by (auto simp: hp_keeps_def dest: mset_subset_eqD)

lemma hp_keeps_mallocs [simp]:
  "hp_keeps N (h\<lparr>hp_mallocs := n\<rparr>) h' = hp_keeps N h h'"
  "hp_keeps N h (h'\<lparr>hp_mallocs := n\<rparr>) = hp_keeps N h h'"
  by (simp_all add: hp_keeps_def)

lemma on_heap_run [io_simps]:
  "on_heap m s = (case m (fs_heap s) of (r, h) \<Rightarrow> (r, s\<lparr>fs_heap := h\<rparr>))"
  by (simp add: on_heap_def io_simps)

lemma block_set_data_owned:
  assumes "heap_owned h (add_mset a N)" and "hp_view h a = Some (Inl d0)" and "a \<notin># N"
  shows "\<exists>h'. block_set_data a d h = (Ok (), h') \<and> heap_owned h' (add_mset a N)
    \<and> hp_view h' a = Some (Inl d) \<and> hp_keeps N h h'"
proof -
  obtain b where b: "hp_cells h a = Some (Block_Cell b)" using assms(2) by (auto simp: hp_view_Inl)
  let ?c = "Some (Block_Cell (b\<lparr>blk_size := length d, blk_data := d\<rparr>))"
  have "heap_owned (h\<lparr>hp_cells := (hp_cells h)(a := ?c)\<rparr>) (add_mset a N)"
    using heap_ownedD(1) [OF assms(1), of a] b
    by (intro heap_owned_update_same [OF assms(1)]) auto
  with b assms(3) show ?thesis
    by (auto simp: block_set_data_def hp_block_def hp_store_def io_simps hp_view_def hp_keeps_def)
qed

text \<open>
  The outcome of reading a block when the image holds \<open>spec\<close> there and the references \<open>N\<close> are
  held: a new reference to a block with the right contents, or an error that gave everything back.
\<close>

definition block_outcome ::
  "bool \<Rightarrow> bytes res \<Rightarrow> nat multiset \<Rightarrow> heap \<Rightarrow> nat res \<Rightarrow> heap \<Rightarrow> bool" where
  "block_outcome oom spec N h r h' \<longleftrightarrow> (case r of
     Ok a \<Rightarrow> \<exists>d. spec = Ok d \<and> heap_owned h' (add_mset a N) \<and> hp_view h' a = Some (Inl d)
       \<and> hp_keeps N h h'
   | Err e \<Rightarrow> (spec = Err e \<or> oom \<and> e = SQFS_ERR) \<and> heap_owned h' N \<and> hp_keeps N h h'
   | Fault u \<Rightarrow> spec = Fault u)"

text \<open>Filling an allocated block either stores what the image holds or leaves the store as it was,
  up to the number of allocations.\<close>

definition fill_outcome ::
  "bool \<Rightarrow> bytes res \<Rightarrow> nat \<Rightarrow> nat multiset \<Rightarrow> heap \<Rightarrow> unit res \<Rightarrow> heap \<Rightarrow> bool" where
  "fill_outcome oom spec a N h r h' \<longleftrightarrow> (case r of
     Ok _ \<Rightarrow> \<exists>d. spec = Ok d \<and> heap_owned h' (add_mset a N) \<and> hp_view h' a = Some (Inl d)
       \<and> hp_keeps N h h'
   | Err e \<Rightarrow> (spec = Err e \<or> oom \<and> e = SQFS_ERR) \<and> (\<exists>n. h' = h\<lparr>hp_mallocs := n\<rparr>)
   | Fault u \<Rightarrow> spec = Fault u)"

lemma block_fill_run:
  fixes s :: sqfs
  assumes im: "fs_img s = im" and h: "fs_heap s = h" and own: "heap_owned h (add_mset a N)"
    and a: "hp_view h a = Some (Inl d0)" "a \<notin># N"
    and oom: "oom \<longleftrightarrow> \<not> (\<forall>n. hp_malloc_ok h n)"
  shows "\<exists>r h'. block_fill a pos c sz outsz s = (r, s\<lparr>fs_heap := h'\<rparr>)
    \<and> fill_outcome oom (block_spec im pos c sz outsz) a N h r h'"
    (is "\<exists>r h'. ?run = (r, _) \<and> ?out r h'")
proof -
  let ?rd = "sqfs_pread (fs_fd s) sz (off_add pos (fs_offset s))"
  have stored: ?thesis if "?run = (case block_set_data a d (h\<lparr>hp_mallocs := n\<rparr>) of
      (r, h') \<Rightarrow> (r, s\<lparr>fs_heap := h'\<rparr>))" and "block_spec im pos c sz outsz = Ok d" for d n
    using block_set_data_owned [of "h\<lparr>hp_mallocs := n\<rparr>" a N d0 d] own a that
    by (auto simp: fill_outcome_def)
  have failed: ?thesis if "?run = (Err e, s\<lparr>fs_heap := h\<lparr>hp_mallocs := n\<rparr>\<rparr>)"
      and "block_spec im pos c sz outsz = Err e \<or> oom \<and> e = SQFS_ERR" for e n
    using that unfolding fill_outcome_def by fastforce
  have faulted: ?thesis if "?run = (Fault u, s\<lparr>fs_heap := h'\<rparr>)"
      and "block_spec im pos c sz outsz = Fault u" for u h'
    using that unfolding fill_outcome_def by fastforce
  have oomI: "\<not> hp_malloc_ok h n \<Longrightarrow> oom" for n using oom by blast
  note run = block_fill_def io_simps hp_malloc_run h
  have fd: "fs_fd im = fs_fd s" "fs_offset im = fs_offset s" "fs_decompressor im = fs_decompressor s"
    using im by auto
  note spec = block_spec_def fd
  let ?n = "hp_mallocs h"
  consider "\<not> hp_malloc_ok h ?n"
    | "hp_malloc_ok h ?n" "\<not> (\<exists>bs. ?rd = Some bs \<and> length bs = sz)"
    | bs where "hp_malloc_ok h ?n" "?rd = Some bs" "length bs = sz" "\<not> c"
    | bs where "hp_malloc_ok h ?n" "?rd = Some bs" "length bs = sz" "c" "\<not> hp_malloc_ok h (Suc ?n)"
    | bs where "hp_malloc_ok h ?n" "?rd = Some bs" "length bs = sz" "c" "hp_malloc_ok h (Suc ?n)"
        "fs_decompressor s = None"
    | bs dc where "hp_malloc_ok h ?n" "?rd = Some bs" "length bs = sz" "c" "hp_malloc_ok h (Suc ?n)"
        "fs_decompressor s = Some dc"
    by fastforce
  then show ?thesis
  proof cases
    case 1
    then show ?thesis using oomI by (intro failed [of SQFS_ERR "Suc ?n"]) (simp_all add: run)
  next
    case 2
    then show ?thesis
      by (intro failed [of SQFS_ERR "Suc ?n"]; cases ?rd) (simp_all add: run spec)
  next
    case (3 bs)
    then show ?thesis by (intro stored [of bs "Suc ?n"]) (simp_all add: run spec)
  next
    case (4 bs)
    then show ?thesis using oomI by (intro failed [of SQFS_ERR "Suc (Suc ?n)"]) (simp_all add: run)
  next
    case (5 bs)
    then show ?thesis
      by (intro faulted [of Null_Deref "h\<lparr>hp_mallocs := Suc (Suc ?n)\<rparr>"]) (simp_all add: run spec)
  next
    case (6 bs dc)
    show ?thesis
    proof (cases "dc bs outsz")
      case (Ok d)
      with 6 show ?thesis by (intro stored [of d "Suc (Suc ?n)"]) (simp_all add: run spec)
    next
      case (Err e)
      with 6 show ?thesis by (intro failed [of e "Suc (Suc ?n)"]) (simp_all add: run spec)
    next
      case (Fault u)
      with 6 show ?thesis
        by (intro faulted [of u "h\<lparr>hp_mallocs := Suc (Suc ?n)\<rparr>"]) (simp_all add: run spec)
    qed
  qed
qed

lemma sqfs_block_read_run:
  fixes s :: sqfs
  assumes im: "fs_img s = im" and h: "fs_heap s = h" and own: "heap_owned h N"
    and oom: "oom \<longleftrightarrow> \<not> (\<forall>n. hp_malloc_ok h n)"
  shows "\<exists>r h'. sqfs_block_read pos c sz outsz s = (r, s\<lparr>fs_heap := h'\<rparr>)
    \<and> block_outcome oom (block_spec im pos c sz outsz) N h r h'"
proof (cases "hp_malloc_ok h (hp_mallocs h)")
  case False
  then have "block_outcome oom (block_spec im pos c sz outsz) N h (Err SQFS_ERR)
      (h\<lparr>hp_mallocs := Suc (hp_mallocs h)\<rparr>)"
    using own oom by (auto simp: block_outcome_def)
  with False show ?thesis by (force simp: sqfs_block_read_def io_simps hp_malloc_run h)
next
  case ok: True
  let ?h0 = "h\<lparr>hp_mallocs := Suc (hp_mallocs h)\<rparr>"
  let ?b = "Block_Cell \<lparr>blk_size = 0, blk_data = [], blk_refcount = 1\<rparr>"
  let ?a = "hp_brk h"
  have "heap_owned ?h0 N" using own by simp
  from hp_new_block [OF this, of "[]"] obtain h1 where
    h1: "hp_new ?b ?h0 = (Ok ?a, h1)" "heap_owned h1 (add_mset ?a N)"
      "hp_view h1 = (hp_view h)(?a \<mapsto> Inl [])" "hp_malloc_ok h1 = hp_malloc_ok h"
    by auto
  have fresh: "?a \<notin># N" using heap_owned_fresh(2) [OF own] by (simp add: not_in_iff)
  have keep1: "hp_keeps N h h1" using h1(3,4) fresh by (auto simp: hp_keeps_def)
  have im1: "fs_img (s\<lparr>fs_heap := h1\<rparr>) = im" and hp1: "fs_heap (s\<lparr>fs_heap := h1\<rparr>) = h1"
    and v1: "hp_view h1 ?a = Some (Inl [])" and oom1: "oom \<longleftrightarrow> \<not> (\<forall>n. hp_malloc_ok h1 n)"
    using im h1(3,4) oom by simp_all
  from block_fill_run [OF im1 hp1 h1(2) v1 fresh oom1, of pos c sz outsz] obtain r h2 where
    r: "block_fill ?a pos c sz outsz (s\<lparr>fs_heap := h1\<rparr>) = (r, s\<lparr>fs_heap := h2\<rparr>)"
      "fill_outcome oom (block_spec im pos c sz outsz) ?a N h1 r h2"
    by auto
  have start: "sqfs_block_read pos c sz outsz s = io_try (block_fill ?a pos c sz outsz) (\<lambda>x. case x of
         Inr _ \<Rightarrow> io_ret ?a
       | Inl e \<Rightarrow> io_bind (on_heap (sqfs_block_dispose ?a)) (\<lambda>_. io_raise e)) (s\<lparr>fs_heap := h1\<rparr>)"
    using ok h1(1) by (simp add: sqfs_block_read_def io_simps hp_malloc_run h)
  show ?thesis
  proof (cases r)
    case (Ok u)
    then have "block_outcome oom (block_spec im pos c sz outsz) N h (Ok ?a) h2"
      using r(2) hp_keeps_trans [OF keep1] by (auto simp: fill_outcome_def block_outcome_def)
    moreover have "sqfs_block_read pos c sz outsz s = (Ok ?a, s\<lparr>fs_heap := h2\<rparr>)"
      using r(1) Ok unfolding start by (simp add: io_simps)
    ultimately show ?thesis by blast
  next
    case (Err e)
    then obtain n where n: "h2 = h1\<lparr>hp_mallocs := n\<rparr>" using r(2) by (auto simp: fill_outcome_def)
    have "heap_owned h2 (add_mset ?a N)" "hp_view h2 ?a = Some (Inl [])" using n h1 by simp_all
    from sqfs_block_dispose_owned [OF this] fresh obtain h3 where
      h3: "sqfs_block_dispose ?a h2 = (Ok (), h3)" "heap_owned h3 N"
        "hp_view h3 = (hp_view h2)(?a := None)" "hp_malloc_ok h3 = hp_malloc_ok h2"
      by auto
    have "hp_keeps N h h3" using h3(3,4) n h1(3,4) fresh by (auto simp: hp_keeps_def)
    then have "block_outcome oom (block_spec im pos c sz outsz) N h (Err e) h3"
      using r(2) Err h3(2) by (auto simp: fill_outcome_def block_outcome_def)
    moreover have "sqfs_block_read pos c sz outsz s = (Err e, s\<lparr>fs_heap := h3\<rparr>)"
      using r(1) Err h3(1) unfolding start by (simp add: io_simps)
    ultimately show ?thesis by blast
  next
    case (Fault u)
    then have "block_outcome oom (block_spec im pos c sz outsz) N h (Fault u) h2"
      using r(2) by (simp add: fill_outcome_def block_outcome_def)
    moreover have "sqfs_block_read pos c sz outsz s = (Fault u, s\<lparr>fs_heap := h2\<rparr>)"
      using r(1) Fault unfolding start by (simp add: io_simps)
    ultimately show ?thesis by blast
  qed
qed

end
