(* ===== verification/Sqfs_Inv.thy ===== *)
theory Sqfs_Inv
  imports Sqfs_Fs
begin

text \<open>
  The invariant of the library's state and the one fact about its caches everything else rests on:
  fetching a block through a cache returns what the image holds, accounts for every reference, and
  leaves every block somebody still refers to alone.

  \<open>fs_clean E M\<close> is the invariant while the program holds the references \<open>M\<close> besides those of the
  caches and no fill of a cache entry has failed yet; \<open>fs_safe E M\<close> is what remains after an error
  code was returned. \<open>E\<close> names what does not change: the image, the allocation oracle, and the
  headers of the data blocks.
\<close>

section \<open>The invariant\<close>

definition sqfs_blockidx_dispose :: "sqfs_blockidx_ptr \<Rightarrow> (heap, unit) io" where
  "sqfs_blockidx_dispose p = (case p of None \<Rightarrow> io_ret () | Some a \<Rightarrow> hp_free a)"

definition block_ptr :: "sqfs_block_cache_entry \<Rightarrow> nat multiset" where
  "block_ptr e = (case be_block e of None \<Rightarrow> {#} | Some a \<Rightarrow> {#a#})"

definition block_rel ::
  "(u64 \<Rightarrow> bytes \<Rightarrow> size_t \<Rightarrow> bool) \<Rightarrow> view \<Rightarrow> u64 \<Rightarrow> sqfs_block_cache_entry \<Rightarrow> bool" where
  "block_rel S v k e \<longleftrightarrow> (\<exists>a d. be_block e = Some a \<and> v a = Some (Inl d) \<and> S k d (be_data_size e))"

definition index_ptr :: "sqfs_blockidx_ptr \<Rightarrow> nat multiset" where
  "index_ptr p = (case p of None \<Rightarrow> {#} | Some a \<Rightarrow> {#a#})"

definition index_rel ::
  "(u64 \<Rightarrow> sqfs_blockidx_entry option list \<Rightarrow> bool) \<Rightarrow> view \<Rightarrow> u64 \<Rightarrow> sqfs_blockidx_ptr \<Rightarrow> bool" where
  "index_rel T v k p \<longleftrightarrow> (\<exists>a xs. p = Some a \<and> v a = Some (Inr xs) \<and> T k xs)"

interpretation be: owned_entries block_ptr "block_rel S" sqfs_block_cache_dispose for S
proof
  fix v v' :: view and k e
  assume "block_rel S v k e" and "\<And>a. a \<in># block_ptr e \<Longrightarrow> v' a = v a"
  then show "block_rel S v' k e" by (auto simp: block_rel_def block_ptr_def)
next
  fix h e N k
  assume own: "heap_owned h (block_ptr e + N)" and "block_rel S (hp_view h) k e"
  then obtain a d where a: "be_block e = Some a" "hp_view h a = Some (Inl d)"
    by (auto simp: block_rel_def)
  with sqfs_block_dispose_owned [of h a N d] own
  show "\<exists>h'. sqfs_block_cache_dispose e h = (Ok (), h') \<and> heap_owned h' N
      \<and> (\<forall>a \<in># N. hp_view h' a = hp_view h a) \<and> hp_malloc_ok h' = hp_malloc_ok h"
    by (auto simp: sqfs_block_cache_dispose_def block_ptr_def split: if_splits)
qed

interpretation ix: owned_entries index_ptr "index_rel T" sqfs_blockidx_dispose for T
proof
  fix v v' :: view and k e
  assume "index_rel T v k e" and "\<And>a. a \<in># index_ptr e \<Longrightarrow> v' a = v a"
  then show "index_rel T v' k e" by (auto simp: index_rel_def index_ptr_def)
next
  fix h e N k
  assume own: "heap_owned h (index_ptr e + N)" and "index_rel T (hp_view h) k e"
  then obtain a xs where a: "e = Some a" "hp_view h a = Some (Inr xs)"
    by (auto simp: index_rel_def)
  then have own': "heap_owned h (add_mset a N)" using own by (simp add: index_ptr_def)
  have "hp_cells h a = Some (Index_Cell xs)" using a(2) by (simp add: hp_view_Inr)
  then have "a \<notin># N" using heap_ownedD(1) [OF own', of a] by (simp add: not_in_iff)
  with hp_free_index_owned [OF own' a(2)] a(1)
  show "\<exists>h'. sqfs_blockidx_dispose e h = (Ok (), h') \<and> heap_owned h' N
      \<and> (\<forall>a \<in># N. hp_view h' a = hp_view h a) \<and> hp_malloc_ok h' = hp_malloc_ok h"
    by (auto simp: sqfs_blockidx_dispose_def)
qed

record fs_env =
  ev_img :: sqfs_image
  ev_oracle :: "nat \<Rightarrow> bool"
  ev_hdr :: "bcache \<Rightarrow> u64 \<Rightarrow> u32"
  ev_idx :: "u64 \<Rightarrow> sqfs_blockidx_entry option list \<Rightarrow> bool"

text \<open>Memory may run out.\<close>

definition ev_oom :: "fs_env \<Rightarrow> bool" where
  "ev_oom E \<longleftrightarrow> \<not> (\<forall>n. ev_oracle E n)"

definition block_fact :: "fs_env \<Rightarrow> bcache \<Rightarrow> u64 \<Rightarrow> bytes \<Rightarrow> size_t \<Rightarrow> bool" where
  "block_fact E w k d ds \<longleftrightarrow> (if w = MD_CACHE
     then md_block_spec (ev_img E) (off_of_u64 k) = Ok (d, ds)
     else data_block_spec (ev_img E) (off_of_u64 k) (ev_hdr E w k) = Ok d)"

definition cache_state :: "bool \<Rightarrow> 'e sqfs_cache_internal \<Rightarrow> bool" where
  "cache_state strict c \<longleftrightarrow> (if strict then cache_inv c else cache_wf c \<and> cache_distinct c)"

lemma cache_state_weaken: "cache_state True c \<Longrightarrow> cache_state strict c"
  by (auto simp: cache_state_def cache_inv_def)

definition bc_good ::
  "fs_env \<Rightarrow> bool \<Rightarrow> bcache \<Rightarrow> heap \<Rightarrow> sqfs_block_cache_entry sqfs_cache_internal \<Rightarrow> bool" where
  "bc_good E strict w h c \<longleftrightarrow> cache_state strict c \<and> c_dispose c = sqfs_block_cache_dispose \<and>
     sc.coherent (block_rel (block_fact E w) (hp_view h)) c"

definition ix_good ::
  "fs_env \<Rightarrow> bool \<Rightarrow> heap \<Rightarrow> sqfs_blockidx_ptr sqfs_cache_internal \<Rightarrow> bool" where
  "ix_good E strict h c \<longleftrightarrow> cache_state strict c \<and> c_dispose c = sqfs_blockidx_dispose \<and>
     sc.coherent (index_rel (ev_idx E) (hp_view h)) c"

definition bc_refs :: "bcache \<Rightarrow> sqfs \<Rightarrow> nat multiset" where
  "bc_refs w s = (case bc_get w s of None \<Rightarrow> {#} | Some c \<Rightarrow> sc.owned block_ptr c)"

definition ix_refs :: "sqfs \<Rightarrow> nat multiset" where
  "ix_refs s = (case fs_blockidx s of None \<Rightarrow> {#} | Some c \<Rightarrow> sc.owned index_ptr c)"

fun fs_rest :: "bcache \<Rightarrow> sqfs \<Rightarrow> nat multiset" where
  "fs_rest MD_CACHE s = bc_refs DATA_CACHE s + bc_refs FRAG_CACHE s + ix_refs s"
| "fs_rest DATA_CACHE s = bc_refs MD_CACHE s + bc_refs FRAG_CACHE s + ix_refs s"
| "fs_rest FRAG_CACHE s = bc_refs MD_CACHE s + bc_refs DATA_CACHE s + ix_refs s"

definition fs_refs :: "sqfs \<Rightarrow> nat multiset" where
  "fs_refs s = bc_refs MD_CACHE s + fs_rest MD_CACHE s"

lemma fs_refs_split: "fs_refs s = bc_refs w s + fs_rest w s"
  by (cases w) (simp_all add: fs_refs_def ac_simps)

definition fs_inv :: "fs_env \<Rightarrow> bool \<Rightarrow> nat multiset \<Rightarrow> sqfs \<Rightarrow> bool" where
  "fs_inv E strict M s \<longleftrightarrow> fs_img s = ev_img E \<and> hp_malloc_ok (fs_heap s) = ev_oracle E \<and>
     heap_owned (fs_heap s) (fs_refs s + M) \<and>
     (\<forall>w. \<exists>c. bc_get w s = Some c \<and> bc_good E strict w (fs_heap s) c) \<and>
     (\<exists>c. fs_blockidx s = Some c \<and> ix_good E strict (fs_heap s) c)"

abbreviation fs_clean :: "fs_env \<Rightarrow> nat multiset \<Rightarrow> sqfs \<Rightarrow> bool" where
  "fs_clean E \<equiv> fs_inv E True"

abbreviation fs_safe :: "fs_env \<Rightarrow> nat multiset \<Rightarrow> sqfs \<Rightarrow> bool" where
  "fs_safe E \<equiv> fs_inv E False"

lemma fs_clean_safe: "fs_clean E M s \<Longrightarrow> fs_inv E strict M s"
  unfolding fs_inv_def bc_good_def ix_good_def using cache_state_weaken by meson

lemma bc_good_keeps:
  assumes "bc_good E strict w h c" and "hp_keeps (sc.owned block_ptr c) h h'"
  shows "bc_good E strict w h' c"
  using assms be.coherent_local [of "block_fact E w" "hp_view h" c "hp_view h'"]
  by (auto simp: bc_good_def hp_keeps_def)

lemma ix_good_keeps:
  assumes "ix_good E strict h c" and "hp_keeps (sc.owned index_ptr c) h h'"
  shows "ix_good E strict h' c"
  using assms ix.coherent_local [of "ev_idx E" "hp_view h" c "hp_view h'"]
  by (auto simp: ix_good_def hp_keeps_def)

lemma bc_refs_simps [simp]:
  "bc_refs w (bc_set w' (Some c) s) = (if w = w' then sc.owned block_ptr c else bc_refs w s)"
  "bc_refs w (s\<lparr>fs_heap := h\<rparr>) = bc_refs w s"
  "bc_refs w (s\<lparr>fs_blockidx := x\<rparr>) = bc_refs w s"
  by (auto simp: bc_refs_def) (cases w; simp)

lemma ix_refs_simps [simp]:
  "ix_refs (bc_set w c s) = ix_refs s"
  "ix_refs (s\<lparr>fs_heap := h\<rparr>) = ix_refs s"
  by (simp_all add: ix_refs_def)

lemma fs_rest_simps [simp]:
  "fs_rest w (bc_set w (Some c) s) = fs_rest w s"
  "fs_rest w (s\<lparr>fs_heap := h\<rparr>) = fs_rest w s"
  by (cases w; simp only: fs_rest.simps bc_refs_simps ix_refs_simps bcache.distinct if_False)+

lemma bc_refs_rest: "w' \<noteq> w \<Longrightarrow> bc_refs w' s \<subseteq># fs_rest w s" "ix_refs s \<subseteq># fs_rest w s"
proof -
  show "w' \<noteq> w \<Longrightarrow> bc_refs w' s \<subseteq># fs_rest w s"
    by (cases w; cases w') (auto simp: subseteq_mset_def)
  show "ix_refs s \<subseteq># fs_rest w s" by (cases w) (auto simp: subseteq_mset_def)
qed

text \<open>Changing one cache and the store, with the other caches' references untouched.\<close>

lemma fs_inv_change:
  assumes inv: "fs_inv E strict M s" and good: "bc_good E strict w h' c"
    and own: "heap_owned h' (sc.owned block_ptr c + fs_rest w s + M')"
    and keep: "hp_keeps (fs_rest w s) (fs_heap s) h'"
  shows "fs_inv E strict M' (bc_set w (Some c) (s\<lparr>fs_heap := h'\<rparr>))"
proof -
  let ?s = "bc_set w (Some c) (s\<lparr>fs_heap := h'\<rparr>)"
  have "\<exists>c'. bc_get w' ?s = Some c' \<and> bc_good E strict w' h' c'" for w'
  proof (cases "w' = w")
    case False
    obtain c' where c': "bc_get w' s = Some c'" "bc_good E strict w' (fs_heap s) c'"
      using inv unfolding fs_inv_def by blast
    have "sc.owned block_ptr c' \<subseteq># fs_rest w s"
      using bc_refs_rest(1) [OF False, of s] c'(1) by (simp add: bc_refs_def)
    then have "bc_good E strict w' h' c'"
      using bc_good_keeps [OF c'(2)] hp_keeps_mono [OF keep] by blast
    with c' False show ?thesis by simp
  qed (use good in simp)
  moreover obtain ci where ci: "fs_blockidx s = Some ci" "ix_good E strict (fs_heap s) ci"
    using inv unfolding fs_inv_def by blast
  have "sc.owned index_ptr ci \<subseteq># fs_rest w s"
    using bc_refs_rest(2) [of s w] ci(1) by (simp add: ix_refs_def)
  then have "ix_good E strict h' ci"
    using ix_good_keeps [OF ci(2)] hp_keeps_mono [OF keep] by blast
  ultimately show ?thesis
    using inv ci(1) own keep fs_refs_split [of ?s w]
    by (simp add: fs_inv_def hp_keeps_def)
qed

section \<open>Fetching a block through a cache\<close>

text \<open>The common shape of \<^verbatim>\<open>sqfs_md_cache\<close> and \<^verbatim>\<open>sqfs_data_cache\<close>.\<close>

definition bc_fetch ::
  "bcache \<Rightarrow> u64 \<Rightarrow> (sqfs_block_cache_entry \<Rightarrow> (sqfs, sqfs_err option \<times> sqfs_block_cache_entry) io)
     \<Rightarrow> (sqfs, sqfs_block_cache_entry \<times> nat) io" where
  "bc_fetch w key fill =
     io_bind (bc_lookup w key) (\<lambda>entry.
     io_bind (bc_reads w (sqfs_cache_entry_valid entry)) (\<lambda>valid.
     io_bind (if valid then io_ret () else
       io_bind (bc_reads w (cache_payload entry)) (\<lambda>e.
       io_bind (fill e) (\<lambda>(err, e').
       io_bind (bc_changes w (Ok \<circ> cache_set_payload entry e')) (\<lambda>_.
       case err of
         Some x \<Rightarrow> io_bind (bc_changes w (Ok \<circ> sqfs_cache_put entry)) (\<lambda>_. io_raise x)
       | None \<Rightarrow> bc_changes w (sqfs_cache_entry_mark_valid entry))))) (\<lambda>_.
     io_bind (bc_reads w (cache_payload entry)) (\<lambda>e.
     io_bind (block_ref_of (be_block e)) (\<lambda>block.
     io_bind (bc_changes w (Ok \<circ> sqfs_cache_put entry)) (\<lambda>_.
     io_ret (e, block)))))))"

lemma sqfs_md_cache_fetch:
  "sqfs_md_cache pos = io_bind (bc_fetch MD_CACHE (u64_of_off pos) (sqfs_md_block_read pos))
     (\<lambda>(e, block). io_ret (off_add pos (be_data_size e), block))"
  by (simp add: sqfs_md_cache_def bc_fetch_def io_bind_assoc)

lemma sqfs_data_cache_fetch:
  "sqfs_data_cache w pos hdr = io_bind (bc_fetch w (u64_of_off pos) (sqfs_data_block_read pos hdr))
     (\<lambda>(e, block). io_ret block)"
  by (simp add: sqfs_data_cache_def bc_fetch_def io_bind_assoc)

text \<open>What filling an entry guarantees: \<open>spec\<close> is what the image holds, \<open>S\<close> the fact the cache
  records about it.\<close>

definition entry_outcome ::
  "bool \<Rightarrow> bytes res \<Rightarrow> (bytes \<Rightarrow> size_t \<Rightarrow> bool) \<Rightarrow> nat multiset \<Rightarrow> heap
     \<Rightarrow> (sqfs_err option \<times> sqfs_block_cache_entry) res \<Rightarrow> heap \<Rightarrow> bool" where
  "entry_outcome oom spec S N h r h' \<longleftrightarrow> (case r of
     Ok (err, e) \<Rightarrow> (case err of
         None \<Rightarrow> \<exists>a d. spec = Ok d \<and> S d (be_data_size e) \<and> be_block e = Some a \<and>
           heap_owned h' (add_mset a N) \<and> hp_view h' a = Some (Inl d) \<and> hp_keeps N h h'
       | Some x \<Rightarrow> (spec = Err x \<or> oom \<and> x = SQFS_ERR) \<and> heap_owned h' N \<and> hp_keeps N h h')
   | Err e \<Rightarrow> False
   | Fault u \<Rightarrow> spec = Fault u)"

definition fills ::
  "fs_env \<Rightarrow> (sqfs_block_cache_entry \<Rightarrow> (sqfs, sqfs_err option \<times> sqfs_block_cache_entry) io)
     \<Rightarrow> bytes res \<Rightarrow> (bytes \<Rightarrow> size_t \<Rightarrow> bool) \<Rightarrow> bool" where
  "fills E fill spec S \<longleftrightarrow> (\<forall>e s h N. fs_img s = ev_img E \<longrightarrow> fs_heap s = h \<longrightarrow>
     hp_malloc_ok h = ev_oracle E \<longrightarrow> heap_owned h N \<longrightarrow>
     (\<exists>r h'. fill e s = (r, s\<lparr>fs_heap := h'\<rparr>) \<and> entry_outcome (ev_oom E) spec S N h r h'))"

lemma block_read_fills:
  assumes "fs_img s = ev_img E" and "fs_heap s = h" and "hp_malloc_ok h = ev_oracle E"
    and "heap_owned h N" and "block_spec (ev_img E) pos c sz outsz = spec"
    and S: "\<And>d. spec = Ok d \<Longrightarrow> S d (be_data_size e)"
  shows "\<exists>r h'. io_try (sqfs_block_read pos c sz outsz) (\<lambda>x. case x of
       Inl err \<Rightarrow> io_ret (Some err, e\<lparr>be_block := None\<rparr>)
     | Inr a \<Rightarrow> io_ret (None, e\<lparr>be_block := Some a\<rparr>)) s = (r, s\<lparr>fs_heap := h'\<rparr>)
    \<and> entry_outcome (ev_oom E) spec S N h r h'"
proof -
  have "ev_oom E \<longleftrightarrow> \<not> (\<forall>n. hp_malloc_ok h n)" using assms(3) by (simp add: ev_oom_def)
  from sqfs_block_read_run [OF assms(1,2,4) this, of pos c sz outsz] obtain r h' where
    r: "sqfs_block_read pos c sz outsz s = (r, s\<lparr>fs_heap := h'\<rparr>)"
      "block_outcome (ev_oom E) spec N h r h'"
    using assms(5) by blast
  show ?thesis
  proof (cases r)
    case (Ok a)
    then have "entry_outcome (ev_oom E) spec S N h (Ok (None, e\<lparr>be_block := Some a\<rparr>)) h'"
      using r(2) S by (auto simp: block_outcome_def entry_outcome_def)
    then show ?thesis using r(1) Ok by (auto simp: io_simps)
  next
    case (Err x)
    then have "entry_outcome (ev_oom E) spec S N h (Ok (Some x, e\<lparr>be_block := None\<rparr>)) h'"
      using r(2) by (auto simp: block_outcome_def entry_outcome_def)
    then show ?thesis using r(1) Err by (auto simp: io_simps)
  next
    case (Fault u)
    then have "entry_outcome (ev_oom E) spec S N h (Fault u) h'"
      using r(2) by (auto simp: block_outcome_def entry_outcome_def)
    then show ?thesis using r(1) Fault by (auto simp: io_simps)
  qed
qed

lemma md_block_read_fills:
  "fills E (sqfs_md_block_read pos) (res_bind (md_block_spec (ev_img E) pos) (\<lambda>(d, ds). Ok d))
     (\<lambda>d ds. md_block_spec (ev_img E) pos = Ok (d, ds))"
  unfolding fills_def
proof (intro allI impI)
  fix e :: sqfs_block_cache_entry and s :: sqfs and h N
  assume im: "fs_img s = ev_img E" and h: "fs_heap s = h" and orc: "hp_malloc_ok h = ev_oracle E"
    and own: "heap_owned h N"
  let ?spec = "res_bind (md_block_spec (ev_img E) pos) (\<lambda>(d, ds). Ok d)"
  let ?S = "\<lambda>d ds. md_block_spec (ev_img E) pos = Ok (d, ds)"
  let ?rd = "sqfs_pread (fs_fd s) 2 (off_add pos (fs_offset s))"
  have fd: "fs_fd (ev_img E) = fs_fd s" "fs_offset (ev_img E) = fs_offset s"
    using im by (metis fs_img_fields)+
  show "\<exists>r h'. sqfs_md_block_read pos e s = (r, s\<lparr>fs_heap := h'\<rparr>)
      \<and> entry_outcome (ev_oom E) ?spec ?S N h r h'"
  proof (cases "\<exists>bs. ?rd = Some bs \<and> length bs = 2")
    case False
    then have "sqfs_md_block_read pos e s = (Ok (Some SQFS_ERR, e\<lparr>be_data_size := 0\<rparr>), s\<lparr>fs_heap := h\<rparr>)"
      using h by (cases ?rd) (auto simp: sqfs_md_block_read_def io_simps)
    moreover have "md_block_spec (ev_img E) pos = Err SQFS_ERR"
      using False by (cases ?rd) (auto simp: md_block_spec_def fd)
    ultimately show ?thesis using own by (auto simp: entry_outcome_def)
  next
    case True
    then obtain bs where bs: "?rd = Some bs" "length bs = 2" by blast
    obtain c sz where hdr: "sqfs_md_header (sqfs_swapin16 bs) = (c, sz)" by fastforce
    have spec: "md_block_spec (ev_img E) pos = res_bind
        (block_spec (ev_img E) (off_add pos 2) c (unat sz) 8192) (\<lambda>d. Ok (d, 2 + unat sz))"
      using bs hdr by (simp add: md_block_spec_def fd)
    have "?spec = block_spec (ev_img E) (off_add pos 2) c (unat sz) 8192"
      using spec by (cases "block_spec (ev_img E) (off_add pos 2) c (unat sz) 8192") simp_all
    then show ?thesis
      using block_read_fills [OF im h orc own, where pos = "off_add pos 2" and c = c
          and sz = "unat sz" and outsz = 8192 and spec = ?spec
          and S = ?S and e = "e\<lparr>be_data_size := 2 + unat sz\<rparr>"] bs hdr spec
      by (simp add: sqfs_md_block_read_def io_gets_run io_bind_run Let_def)
  qed
qed

lemma data_block_read_fills:
  "fills E (sqfs_data_block_read pos hdr) (data_block_spec (ev_img E) pos hdr)
     (\<lambda>d ds. data_block_spec (ev_img E) pos hdr = Ok d)"
  unfolding fills_def
proof (intro allI impI)
  fix e :: sqfs_block_cache_entry and s :: sqfs and h N
  assume im: "fs_img s = ev_img E" and h: "fs_heap s = h" and orc: "hp_malloc_ok h = ev_oracle E"
    and own: "heap_owned h N"
  obtain c sz where hdr: "sqfs_data_header hdr = (c, sz)" by fastforce
  have sb: "fs_sb (ev_img E) = fs_sb s" using im by (metis fs_img_fields(3))
  have spec: "block_spec (ev_img E) pos c (unat sz) (unat (sb_block_size (fs_sb s)))
      = data_block_spec (ev_img E) pos hdr"
    using hdr by (simp add: data_block_spec_def sb)
  show "\<exists>r h'. sqfs_data_block_read pos hdr e s = (r, s\<lparr>fs_heap := h'\<rparr>)
      \<and> entry_outcome (ev_oom E) (data_block_spec (ev_img E) pos hdr)
          (\<lambda>d ds. data_block_spec (ev_img E) pos hdr = Ok d) N h r h'"
    using block_read_fills [OF im h orc own spec, where S = "\<lambda>d ds. data_block_spec (ev_img E) pos hdr = Ok d"
        and e = e] hdr
    by (simp add: sqfs_data_block_read_def io_gets_run io_bind_run)
qed

text \<open>The part of the fetch after the entry is known to be valid.\<close>

definition bc_take :: "bcache \<Rightarrow> size_t \<Rightarrow> (sqfs, sqfs_block_cache_entry \<times> nat) io" where
  "bc_take w entry =
     io_bind (bc_reads w (cache_payload entry)) (\<lambda>e.
     io_bind (block_ref_of (be_block e)) (\<lambda>block.
     io_bind (bc_changes w (Ok \<circ> sqfs_cache_put entry)) (\<lambda>_.
     io_ret (e, block))))"

lemma bc_set_same [simp]: "bc_get w s = Some c \<Longrightarrow> bc_set w (Some c) s = s"
  by (cases w) auto

lemma fs_inv_cache:
  assumes "fs_inv E strict M s" and "bc_get w s = Some c"
  shows "bc_good E strict w (fs_heap s) c"
    and "heap_owned (fs_heap s) (sc.owned block_ptr c + (fs_rest w s + M))"
    and "fs_img s = ev_img E" and "hp_malloc_ok (fs_heap s) = ev_oracle E"
  using assms fs_refs_split [of s w] unfolding fs_inv_def
  by (metis option.inject, simp add: bc_refs_def add.assoc, blast, blast)

lemma bc_take_run:
  assumes inv: "fs_clean E M s" and c: "bc_get w s = Some c" and e: "cache_payload p c = e"
    and a: "be_block e = Some a" "hp_view (fs_heap s) a = Some (Inl d)"
  shows "\<exists>s'. bc_take w p s = (Ok (e, a), s') \<and> fs_clean E (add_mset a M) s'
    \<and> hp_view (fs_heap s') = hp_view (fs_heap s) \<and> hp_malloc_ok (fs_heap s') = hp_malloc_ok (fs_heap s)"
proof -
  note ic = fs_inv_cache [OF inv c]
  from sqfs_block_ref_owned [OF ic(2) a(2)] obtain h' where
    h': "sqfs_block_ref a (fs_heap s) = (Ok (), h')"
      "heap_owned h' (add_mset a (sc.owned block_ptr c + (fs_rest w s + M)))"
      "hp_view h' = hp_view (fs_heap s)" "hp_malloc_ok h' = hp_malloc_ok (fs_heap s)"
    by blast
  have keep: "hp_keeps N (fs_heap s) h'" for N using h'(3,4) by (simp add: hp_keeps_def)
  let ?s = "bc_set w (Some c) (s\<lparr>fs_heap := h'\<rparr>)"
  have "fs_clean E (add_mset a M) ?s"
    using h'(2) by (intro fs_inv_change [OF inv bc_good_keeps [OF ic(1) keep] _ keep])
      (simp add: ac_simps)
  moreover have "bc_take w p s = (Ok (e, a), ?s)"
    using c e a(1) h'(1)
    by (simp add: bc_take_def bc_reads_def bc_changes_def block_ref_of_def io_simps sqfs_cache_put_def)
  ultimately show ?thesis using h' by simp
qed

definition fetch_outcome ::
  "fs_env \<Rightarrow> bcache \<Rightarrow> u64 \<Rightarrow> bytes res \<Rightarrow> nat multiset \<Rightarrow> sqfs
     \<Rightarrow> (sqfs_block_cache_entry \<times> nat) res \<Rightarrow> sqfs \<Rightarrow> bool" where
  "fetch_outcome E w key spec M s r s' \<longleftrightarrow> (case r of
     Ok (e, a) \<Rightarrow> (\<exists>d. spec = Ok d \<and> block_fact E w key d (be_data_size e) \<and>
       hp_view (fs_heap s') a = Some (Inl d)) \<and> fs_clean E (add_mset a M) s' \<and>
       hp_keeps M (fs_heap s) (fs_heap s')
   | Err x \<Rightarrow> (spec = Err x \<or> ev_oom E \<and> x = SQFS_ERR) \<and> fs_safe E M s' \<and>
       hp_keeps M (fs_heap s) (fs_heap s')
   | Fault u \<Rightarrow> spec = Fault u)"

lemma bc_fetch_take:
  "bc_fetch w key fill = io_bind (bc_lookup w key) (\<lambda>entry.
     io_bind (bc_reads w (sqfs_cache_entry_valid entry)) (\<lambda>valid.
     io_bind (if valid then io_ret () else
       io_bind (bc_reads w (cache_payload entry)) (\<lambda>e.
       io_bind (fill e) (\<lambda>(err, e').
       io_bind (bc_changes w (Ok \<circ> cache_set_payload entry e')) (\<lambda>_.
       case err of
         Some x \<Rightarrow> io_bind (bc_changes w (Ok \<circ> sqfs_cache_put entry)) (\<lambda>_. io_raise x)
       | None \<Rightarrow> bc_changes w (sqfs_cache_entry_mark_valid entry))))) (\<lambda>_. bc_take w entry)))"
  by (simp add: bc_fetch_def bc_take_def)

lemma bc_fetch_hit:
  assumes inv: "fs_clean E M s" and c: "bc_get w s = Some c" and mem: "(key, e) \<in># cache_content c"
    and det: "\<And>d ds. block_fact E w key d ds \<Longrightarrow> spec = Ok d"
  shows "\<exists>r s'. bc_fetch w key fill s = (r, s') \<and> fetch_outcome E w key spec M s r s'"
proof -
  note ic = fs_inv_cache [OF inv c]
  have "cache_inv c" "sc.coherent (block_rel (block_fact E w) (hp_view (fs_heap s))) c"
    using ic(1) by (simp_all add: bc_good_def cache_state_def)
  from be.get_hit [OF this(1) mem this(2), of "fs_heap s"] obtain p where
    p: "sqfs_cache_get key (Some c, fs_heap s) = (Ok p, (Some c, fs_heap s))"
      "sqfs_cache_entry_valid p c" "cache_payload p c = e"
      "block_rel (block_fact E w) (hp_view (fs_heap s)) key e"
    by blast
  from p(4) obtain a d where a: "be_block e = Some a" "hp_view (fs_heap s) a = Some (Inl d)"
      "block_fact E w key d (be_data_size e)"
    by (auto simp: block_rel_def)
  from bc_take_run [OF inv c p(3) a(1,2)] obtain s' where
    s': "bc_take w p s = (Ok (e, a), s')" "fs_clean E (add_mset a M) s'"
      "hp_view (fs_heap s') = hp_view (fs_heap s)" "hp_malloc_ok (fs_heap s') = hp_malloc_ok (fs_heap s)"
    by blast
  have "bc_fetch w key fill s = (Ok (e, a), s')"
    using p c s'(1) by (simp add: bc_fetch_take bc_lookup_def bc_reads_def io_simps)
  moreover have "fetch_outcome E w key spec M s (Ok (e, a)) s'"
    using det [OF a(3)] a s' by (auto simp: fetch_outcome_def hp_keeps_def)
  ultimately show ?thesis by blast
qed

text \<open>A failed fill leaves the entry invalid and the content of the cache as it was.\<close>

lemma cache_set_payload_invalid:
  assumes "cache_held c p k" and "\<not> sqfs_cache_entry_valid p c"
  shows "cache_content (cache_set_payload p e c) = cache_content c"
    and "cache_state False (cache_set_payload p e c)"
    and "c_dispose (cache_set_payload p e c) = c_dispose c"
proof -
  let ?s = "(c_slots c ! p)\<lparr>slot_data := e\<rparr>"
  have lt: "p < length (c_slots c)" and wf: "cache_wf c" and dist: "cache_distinct c"
    and other: "\<And>i. i < c_count c \<Longrightarrow> i \<noteq> p \<Longrightarrow> slot_idx (c_slots c ! i) \<noteq> slot_idx ?s"
    using assms(1) by (auto simp: cache_held_def cache_wf_def)
  show "cache_content (cache_set_payload p e c) = cache_content c"
    using cache_content_update [OF lt, of ?s] assms(2)
    by (simp add: cache_set_payload_def slot_content_def sqfs_cache_entry_valid_def)
  show "cache_state False (cache_set_payload p e c)"
    using cache_distinct_update [OF wf dist other] wf
    by (simp add: cache_state_def cache_set_payload_def cache_wf_def)
  show "c_dispose (cache_set_payload p e c) = c_dispose c" by (simp add: cache_set_payload_def)
qed

lemma bc_fetch_miss:
  assumes inv: "fs_clean E M s" and c: "bc_get w s = Some c" and key: "key \<noteq> 0"
    and none: "\<forall>e. (key, e) \<notin># cache_content c"
    and fill: "fills E fill spec (block_fact E w key)"
  shows "\<exists>r s'. bc_fetch w key fill s = (r, s') \<and> fetch_outcome E w key spec M s r s'"
proof -
  note ic = fs_inv_cache [OF inv c]
  have good: "cache_inv c" "c_dispose c = sqfs_block_cache_dispose"
      "sc.coherent (block_rel (block_fact E w) (hp_view (fs_heap s))) c"
    using ic(1) by (simp_all add: bc_good_def cache_state_def)
  from be.get_miss [OF good(1) key none good(3) ic(2) good(2)] obtain p c1 h1 where
    p: "sqfs_cache_get key (Some c, fs_heap s) = (Ok p, (Some c1, h1))" "cache_held c1 p key"
      "\<not> sqfs_cache_entry_valid p c1" "c_dispose c1 = sqfs_block_cache_dispose"
      "heap_owned h1 (sc.owned block_ptr c1 + (fs_rest w s + M))"
      "sc.coherent (block_rel (block_fact E w) (hp_view h1)) c1"
      "\<forall>a \<in># fs_rest w s + M. hp_view h1 a = hp_view (fs_heap s) a"
      "hp_malloc_ok h1 = hp_malloc_ok (fs_heap s)"
    by blast
  let ?N = "sc.owned block_ptr c1 + (fs_rest w s + M)"
  let ?s1 = "bc_set w (Some c1) (s\<lparr>fs_heap := h1\<rparr>)"
  let ?e0 = "cache_payload p c1"
  have keep1: "hp_keeps (fs_rest w s + M) (fs_heap s) h1" using p(7,8) by (simp add: hp_keeps_def)
  have "fs_img ?s1 = ev_img E" "fs_heap ?s1 = h1" "hp_malloc_ok h1 = ev_oracle E"
    using ic(3,4) p(8) by simp_all
  with fill p(5) obtain r h2 where
    r: "fill ?e0 ?s1 = (r, ?s1\<lparr>fs_heap := h2\<rparr>)"
      "entry_outcome (ev_oom E) spec (block_fact E w key) ?N h1 r h2"
    unfolding fills_def by blast
  have start: "bc_fetch w key fill s = io_bind (io_bind (fill ?e0) (\<lambda>(err, e').
       io_bind (bc_changes w (Ok \<circ> cache_set_payload p e')) (\<lambda>_.
       case err of
         Some x \<Rightarrow> io_bind (bc_changes w (Ok \<circ> sqfs_cache_put p)) (\<lambda>_. io_raise x)
       | None \<Rightarrow> bc_changes w (sqfs_cache_entry_mark_valid p)))) (\<lambda>_. bc_take w p) ?s1"
    using p(1,3) c by (simp add: bc_fetch_take bc_lookup_def bc_reads_def io_simps)
  show ?thesis
  proof (cases r)
    case (Err e)
    then show ?thesis using r(2) by (simp add: entry_outcome_def)
  next
    case (Fault u)
    then have "bc_fetch w key fill s = (Fault u, ?s1\<lparr>fs_heap := h2\<rparr>)" "spec = Fault u"
      using r unfolding start by (simp_all add: io_simps entry_outcome_def)
    then show ?thesis by (auto simp: fetch_outcome_def)
  next
    case (Ok x)
    then obtain err e where x: "r = Ok (err, e)" by (cases x) simp
    have keep2: "hp_keeps ?N h1 h2" using r(2) x by (auto simp: entry_outcome_def split: option.splits)
    have keep: "hp_keeps (fs_rest w s + M) (fs_heap s) h2"
      using hp_keeps_trans [OF keep1 hp_keeps_mono [OF keep2]] by simp
    then have keepM: "hp_keeps M (fs_heap s) h2" and keepR: "hp_keeps (fs_rest w s) (fs_heap s) h2"
      by (auto elim: hp_keeps_mono)
    have coh2: "sc.coherent (block_rel (block_fact E w) (hp_view h2)) c1"
      using p(6) by (rule be.coherent_local) (use keep2 in \<open>simp add: hp_keeps_def\<close>)
    show ?thesis
    proof (cases err)
      case (Some xe)
      let ?c = "cache_set_payload p e c1"
      let ?s2 = "bc_set w (Some ?c) (s\<lparr>fs_heap := h2\<rparr>)"
      note sp = cache_set_payload_invalid [OF p(2,3), of e]
      have own: "heap_owned h2 ?N" and out: "spec = Err xe \<or> ev_oom E \<and> xe = SQFS_ERR"
        using r(2) x Some by (simp_all add: entry_outcome_def)
      have "bc_good E False w h2 ?c"
        using coh2 sp p(4) by (simp add: bc_good_def sc.coherent_def)
      then have "fs_safe E M ?s2"
        using own sp(1) by (intro fs_inv_change [OF fs_clean_safe [OF inv] _ _ keepR])
          (simp_all add: sc.owned_def add.assoc)
      moreover have "bc_fetch w key fill s = (Err xe, ?s2)"
        using r(1) x Some unfolding start
        by (simp add: io_simps bc_changes_def sqfs_cache_put_def)
      ultimately show ?thesis using out keepM by (auto simp: fetch_outcome_def)
    next
      case None
      then obtain a d where a: "spec = Ok d" "block_fact E w key d (be_data_size e)"
          "be_block e = Some a" "heap_owned h2 (add_mset a ?N)" "hp_view h2 a = Some (Inl d)"
        using r(2) x by (auto simp: entry_outcome_def)
      then have "block_rel (block_fact E w) (hp_view h2) key e" by (auto simp: block_rel_def)
      from be.fill_entry [OF p(2,3) coh2 this] obtain c2 where
        c2: "sqfs_cache_entry_mark_valid p (cache_set_payload p e c1) = Ok c2" "cache_inv c2"
          "sc.coherent (block_rel (block_fact E w) (hp_view h2)) c2"
          "sc.owned block_ptr c2 = block_ptr e + sc.owned block_ptr c1"
          "cache_payload p c2 = e" "c_dispose c2 = c_dispose c1"
        by blast
      let ?s2 = "bc_set w (Some c2) (s\<lparr>fs_heap := h2\<rparr>)"
      have "bc_good E True w h2 c2"
        using c2 p(4) by (simp add: bc_good_def cache_state_def)
      then have inv2: "fs_clean E M ?s2"
        using a(3,4) c2(4) by (intro fs_inv_change [OF inv _ _ keepR])
          (simp_all add: block_ptr_def ac_simps)
      have run2: "bc_fetch w key fill s = bc_take w p ?s2"
        using r(1) x None c2(1) unfolding start by (simp add: io_simps bc_changes_def)
      have c2': "bc_get w ?s2 = Some c2" and v2: "hp_view (fs_heap ?s2) a = Some (Inl d)"
        using a(5) by simp_all
      from bc_take_run [OF inv2 c2' c2(5) a(3) v2] obtain s3 where
        "bc_take w p ?s2 = (Ok (e, a), s3)" "fs_clean E (add_mset a M) s3"
          "hp_view (fs_heap s3) = hp_view h2" "hp_malloc_ok (fs_heap s3) = hp_malloc_ok h2"
        by auto
      with a run2 keepM show ?thesis by (auto simp: fetch_outcome_def hp_keeps_def)
    qed
  qed
qed

lemma bc_fetch_run:
  assumes inv: "fs_clean E M s" and key: "key \<noteq> 0"
    and fill: "fills E fill spec (block_fact E w key)"
    and det: "\<And>d ds. block_fact E w key d ds \<Longrightarrow> spec = Ok d"
  shows "\<exists>r s'. bc_fetch w key fill s = (r, s') \<and> fetch_outcome E w key spec M s r s'"
proof -
  obtain c where c: "bc_get w s = Some c" using inv unfolding fs_inv_def by blast
  show ?thesis
  proof (cases "\<exists>e. (key, e) \<in># cache_content c")
    case True
    then obtain e where "(key, e) \<in># cache_content c" by blast
    then show ?thesis by (rule bc_fetch_hit [OF inv c]) (rule det)
  next
    case False
    then show ?thesis using bc_fetch_miss [OF inv c key _ fill] by blast
  qed
qed

end
