(* ===== verification/Sqfs_Md.thy ===== *)
theory Sqfs_Md
  imports Sqfs_Inv
begin

text \<open>
  Metadata as a stream. \<open>md_spec\<close> is \<^verbatim>\<open>sqfs_md_read\<close> as a function of the image alone;
  the theory shows that the operation with its caches, reference counts and allocations implements
  it (\<open>sqfs_md_read_implements\<close>), that its loop always ends (\<open>md_spec_terminates\<close>), and that
  reading \<open>n + m\<close> bytes is reading \<open>n\<close> and then \<open>m\<close> (the locale \<open>byte_stream\<close>, which the readers
  of inodes, directories and attributes build on).
\<close>

section \<open>Images and positions\<close>

text \<open>
  Files and offsets stay well below the range of \<^verbatim>\<open>off_t\<close>; positions of blocks are
  positive (the superblock is at zero). A codec, which is code of another library, writes at most
  as many bytes as the caller has room for, and it returns.
\<close>

definition codec_ok :: "sqfs_decompressor \<Rightarrow> bool" where
  "codec_ok d \<longleftrightarrow> (\<forall>bs n. case d bs n of
     Ok out \<Rightarrow> length out \<le> n | Err e \<Rightarrow> True | Fault u \<Rightarrow> u \<noteq> Diverges)"

definition img_ok :: "sqfs_image \<Rightarrow> bool" where
  "img_ok im \<longleftrightarrow> length (fs_fd im) < 2 ^ 62 \<and> fs_offset im < 2 ^ 62 \<and>
     pred_option codec_ok (fs_decompressor im)"

definition pos_ok :: "off_t \<Rightarrow> bool" where
  "pos_ok pos \<longleftrightarrow> 0 < pos \<and> pos < 2 ^ 63"

lemma pos_ok_key: "pos_ok pos \<Longrightarrow> u64_of_off pos \<noteq> 0 \<and> off_of_u64 (u64_of_off pos) = pos"
  by (simp add: pos_ok_def)

lemma off_wrap_cases:
  assumes "0 \<le> x" and "x < 2 ^ 64"
  shows "off_wrap x = (if x < 2 ^ 63 then x else x - 2 ^ 64)"
proof (cases "x < 2 ^ 63")
  case False
  have "(x + 2 ^ 63) mod 2 ^ 64 = (x + 2 ^ 63 - 2 ^ 64) mod 2 ^ 64"
    by (rule minus_mod_self2 [symmetric])
  also have "\<dots> = x - 2 ^ 63" using False assms by (subst mod_pos_pos_trivial) simp_all
  finally show ?thesis using False by (simp add: off_wrap_def)
qed (use assms in simp)

lemma pread_in_file:
  assumes "img_ok im" and "0 < pos" and "pos < 2 ^ 63 + 2" and "0 < n"
    and "sqfs_pread (fs_fd im) n (off_add pos (fs_offset im)) = Some bs" and "length bs = n"
  shows "pos + int (fs_offset im) + int n \<le> int (length (fs_fd im))"
proof -
  have "off_add pos (fs_offset im) = (if pos + int (fs_offset im) < 2 ^ 63
      then pos + int (fs_offset im) else pos + int (fs_offset im) - 2 ^ 64)"
    using assms(1-3) unfolding off_add_def
    by (intro off_wrap_cases) (simp_all add: img_ok_def)
  moreover have "0 \<le> off_add pos (fs_offset im)"
      "nat (off_add pos (fs_offset im)) + n \<le> length (fs_fd im)"
    using sqfs_pread_full [of "fs_fd im" n "off_add pos (fs_offset im)" bs] assms(4-6) by simp_all
  ultimately show ?thesis using assms(1-3) by (auto simp: img_ok_def split: if_splits)
qed

lemma md_block_spec_in_file:
  assumes "img_ok im" and "pos_ok pos" and "md_block_spec im pos = Ok (d, ds)"
  shows "3 \<le> ds" and "pos + int (fs_offset im) + int ds \<le> int (length (fs_fd im))"
proof -
  from assms(3) obtain bs c sz where
    bs: "sqfs_pread (fs_fd im) 2 (off_add pos (fs_offset im)) = Some bs" "length bs = 2"
      "sqfs_md_header (sqfs_swapin16 bs) = (c, sz)" "ds = 2 + unat sz"
      "block_spec im (off_add pos 2) c (unat sz) 8192 = Ok d"
    by (auto simp: md_block_spec_def res_bind_eq_Ok split: option.splits if_splits prod.splits)
  have sz: "0 < unat sz" using sqfs_md_header_size [of "sqfs_swapin16 bs"] bs(3)
    by (simp add: unat_gt_0)
  then show "3 \<le> ds" using bs(4) by simp
  have pos2: "off_add pos 2 = pos + 2"
    using pread_in_file [OF assms(1) _ _ _ bs(1,2)] assms(1,2) by (simp add: pos_ok_def img_ok_def)
  from bs(5) obtain ds' where
    "sqfs_pread (fs_fd im) (unat sz) (off_add (off_add pos 2) (fs_offset im)) = Some ds'"
    "length ds' = unat sz"
    by (auto simp: block_spec_def split: option.splits if_splits)
  from pread_in_file [OF assms(1) _ _ sz this] show
    "pos + int (fs_offset im) + int ds \<le> int (length (fs_fd im))"
    using assms(2) bs(4) unfolding pos2 by (simp add: pos_ok_def)
qed

lemma md_block_spec_size:
  assumes "img_ok im" and "md_block_spec im pos = Ok (d, ds)"
  shows "length d \<le> 32768"
proof -
  from assms(2) obtain bs c sz where
    bs: "sqfs_md_header (sqfs_swapin16 bs) = (c, sz)"
      "block_spec im (off_add pos 2) c (unat sz) 8192 = Ok d"
    by (auto simp: md_block_spec_def res_bind_eq_Ok split: option.splits if_splits prod.splits)
  have "unat sz \<le> 32768" using sqfs_md_header_le [of "sqfs_swapin16 bs"] bs(1) by simp
  moreover have "length d \<le> 8192" if "dc bs' 8192 = Ok d" "codec_ok dc" for dc bs'
  proof -
    have "case dc bs' 8192 of Ok out \<Rightarrow> length out \<le> 8192 | Err e \<Rightarrow> True | Fault u \<Rightarrow> u \<noteq> Diverges"
      using that(2) unfolding codec_ok_def by blast
    then show ?thesis using that(1) by simp
  qed
  ultimately show ?thesis
    using bs(2) assms(1)
    by (auto simp: block_spec_def img_ok_def split: option.splits if_splits) fastforce+
qed

lemma md_block_spec_diverges:
  assumes "img_ok im"
  shows "md_block_spec im pos \<noteq> Fault Diverges"
proof -
  have "dc bs n \<noteq> Fault Diverges" if "codec_ok dc" for dc bs n
  proof
    assume "dc bs n = Fault Diverges"
    moreover have "case dc bs n of Ok out \<Rightarrow> length out \<le> n | Err e \<Rightarrow> True | Fault u \<Rightarrow> u \<noteq> Diverges"
      using that unfolding codec_ok_def by blast
    ultimately show False by simp
  qed
  then have block: "block_spec im p c n m \<noteq> Fault Diverges" for p c n m
    using assms by (auto simp: block_spec_def img_ok_def split: option.splits)
  show ?thesis
  proof
    assume "md_block_spec im pos = Fault Diverges"
    then obtain c sz where "res_bind (block_spec im (off_add pos 2) c (unat (sz :: u16)) 8192)
        (\<lambda>d. Ok (d, 2 + unat sz)) = Fault Diverges"
      by (auto simp: md_block_spec_def split: option.splits if_splits prod.splits)
    then show False using block [of "off_add pos 2" c "unat sz" 8192]
      by (cases "block_spec im (off_add pos 2) c (unat sz) 8192") auto
  qed
qed

lemma md_block_next:
  assumes "img_ok im" and "pos_ok pos" and "md_block_spec im pos = Ok (d, ds)"
  shows "off_add pos ds = pos + int ds" and "pos_ok (off_add pos ds)"
    and "pos < off_add pos ds" and "off_add pos ds \<le> int (length (fs_fd im))"
  using md_block_spec_in_file [OF assms] assms(1,2) by (simp_all add: pos_ok_def img_ok_def)

section \<open>Fetching blocks through the caches\<close>

fun res_map_err :: "(sqfs_err \<Rightarrow> sqfs_err) \<Rightarrow> 'a res \<Rightarrow> 'a res" where
  "res_map_err g (Ok a) = Ok a"
| "res_map_err g (Err e) = Err (g e)"
| "res_map_err g (Fault u) = Fault u"

lemma res_bind_fst_Ok: "res_bind r (\<lambda>(d, ds). Ok d) = Ok d \<longleftrightarrow> (\<exists>ds. r = Ok (d, ds))"
  by (cases r) auto

lemma sqfs_md_cache_run:
  assumes inv: "fs_clean E M s" and pos: "pos_ok pos"
  shows "\<exists>r s'. sqfs_md_cache pos s = (r, s') \<and> (case r of
      Ok (pos', a) \<Rightarrow> (\<exists>d ds. md_block_spec (ev_img E) pos = Ok (d, ds) \<and> pos' = off_add pos ds \<and>
        hp_view (fs_heap s') a = Some (Inl d)) \<and> fs_clean E (add_mset a M) s' \<and>
        hp_keeps M (fs_heap s) (fs_heap s')
    | Err x \<Rightarrow> (md_block_spec (ev_img E) pos = Err x \<or> ev_oom E \<and> x = SQFS_ERR) \<and> fs_safe E M s'
        \<and> hp_keeps M (fs_heap s) (fs_heap s')
    | Fault u \<Rightarrow> md_block_spec (ev_img E) pos = Fault u)"
proof -
  let ?k = "u64_of_off pos"
  let ?spec = "res_bind (md_block_spec (ev_img E) pos) (\<lambda>(d, ds). Ok d)"
  have key: "?k \<noteq> 0" "off_of_u64 ?k = pos" using pos_ok_key [OF pos] by simp_all
  have fact: "block_fact E MD_CACHE ?k = (\<lambda>d ds. md_block_spec (ev_img E) pos = Ok (d, ds))"
    using key by (simp add: block_fact_def fun_eq_iff)
  have "fills E (sqfs_md_block_read pos) ?spec (block_fact E MD_CACHE ?k)"
    unfolding fact by (rule md_block_read_fills)
  from bc_fetch_run [OF inv key(1) this] obtain r s' where
    r: "bc_fetch MD_CACHE ?k (sqfs_md_block_read pos) s = (r, s')"
      "fetch_outcome E MD_CACHE ?k ?spec M s r s'"
    using fact by fastforce
  have err: "?spec = Err x \<longleftrightarrow> md_block_spec (ev_img E) pos = Err x"
      "?spec = Fault u \<longleftrightarrow> md_block_spec (ev_img E) pos = Fault u" for x u
    by (cases "md_block_spec (ev_img E) pos"; auto)+
  show ?thesis
  proof (cases r)
    case (Ok ea)
    then show ?thesis using r fact
      by (cases ea) (auto simp: sqfs_md_cache_fetch io_simps fetch_outcome_def)
  qed (use r err in \<open>auto simp: sqfs_md_cache_fetch io_simps fetch_outcome_def\<close>)
qed

lemma sqfs_data_cache_run:
  assumes inv: "fs_clean E M s" and pos: "pos_ok pos" and w: "w \<noteq> MD_CACHE"
    and hdr: "ev_hdr E w (u64_of_off pos) = hdr"
  shows "\<exists>r s'. sqfs_data_cache w pos hdr s = (r, s') \<and> (case r of
      Ok a \<Rightarrow> (\<exists>d. data_block_spec (ev_img E) pos hdr = Ok d \<and>
        hp_view (fs_heap s') a = Some (Inl d)) \<and> fs_clean E (add_mset a M) s' \<and>
        hp_keeps M (fs_heap s) (fs_heap s')
    | Err x \<Rightarrow> (data_block_spec (ev_img E) pos hdr = Err x \<or> ev_oom E \<and> x = SQFS_ERR) \<and>
        fs_safe E M s' \<and> hp_keeps M (fs_heap s) (fs_heap s')
    | Fault u \<Rightarrow> data_block_spec (ev_img E) pos hdr = Fault u)"
proof -
  let ?k = "u64_of_off pos"
  let ?spec = "data_block_spec (ev_img E) pos hdr"
  have key: "?k \<noteq> 0" "off_of_u64 ?k = pos" using pos_ok_key [OF pos] by simp_all
  have fact: "block_fact E w ?k = (\<lambda>d ds. ?spec = Ok d)"
    using key w hdr by (simp add: block_fact_def fun_eq_iff)
  have "fills E (sqfs_data_block_read pos hdr) ?spec (block_fact E w ?k)"
    unfolding fact by (rule data_block_read_fills)
  from bc_fetch_run [OF inv key(1) this] obtain r s' where
    r: "bc_fetch w ?k (sqfs_data_block_read pos hdr) s = (r, s')" "fetch_outcome E w ?k ?spec M s r s'"
    using fact by fastforce
  show ?thesis
  proof (cases r)
    case (Ok ea)
    then show ?thesis using r
      by (cases ea) (auto simp: sqfs_data_cache_fetch io_simps fetch_outcome_def)
  qed (use r in \<open>auto simp: sqfs_data_cache_fetch io_simps fetch_outcome_def\<close>)
qed

text \<open>Giving a block back.\<close>

lemma dispose_run:
  assumes inv: "fs_inv E strict (add_mset a M) s" and a: "hp_view (fs_heap s) a = Some (Inl d)"
  shows "\<exists>s'. on_heap (sqfs_block_dispose a) s = (Ok (), s') \<and> fs_inv E strict M s'
    \<and> hp_keeps M (fs_heap s) (fs_heap s')"
proof -
  obtain c where c: "bc_get MD_CACHE s = Some c" using inv unfolding fs_inv_def by blast
  note ic = fs_inv_cache [OF inv c]
  let ?N = "sc.owned block_ptr c + (fs_rest MD_CACHE s + M)"
  have own: "heap_owned (fs_heap s) (add_mset a ?N)" using ic(2) by simp
  from sqfs_block_dispose_owned [OF own a] obtain h' where
    h': "sqfs_block_dispose a (fs_heap s) = (Ok (), h')" "heap_owned h' ?N"
      "hp_view h' = (if a \<in># ?N then hp_view (fs_heap s) else (hp_view (fs_heap s))(a := None))"
      "hp_malloc_ok h' = hp_malloc_ok (fs_heap s)"
    by blast
  have keep: "hp_keeps ?N (fs_heap s) h'" using h'(3,4) by (auto simp: hp_keeps_def)
  have sub: "hp_keeps (sc.owned block_ptr c) (fs_heap s) h'"
      "hp_keeps (fs_rest MD_CACHE s) (fs_heap s) h'" "hp_keeps M (fs_heap s) h'"
    by (rule hp_keeps_mono [OF keep], auto simp: subseteq_mset_def)+
  have "fs_inv E strict M (bc_set MD_CACHE (Some c) (s\<lparr>fs_heap := h'\<rparr>))"
    using h'(2) by (intro fs_inv_change [OF inv bc_good_keeps [OF ic(1) sub(1)] _ sub(2)])
      (simp add: add.assoc)
  moreover have "bc_set MD_CACHE (Some c) (s\<lparr>fs_heap := h'\<rparr>) = s\<lparr>fs_heap := h'\<rparr>"
    using c by (intro bc_set_same) simp
  ultimately have "fs_inv E strict M (s\<lparr>fs_heap := h'\<rparr>)" by (simp only:)
  with h'(1) sub(3) show ?thesis by (simp add: io_simps)
qed

text \<open>What a call promises also holds while its caller relies on blocks it holds: \<open>P\<close> is a property of
  the heap that depends only on the contents of the blocks \<open>M\<close>.\<close>

definition stable :: "nat multiset \<Rightarrow> (heap \<Rightarrow> bool) \<Rightarrow> bool" where
  "stable M P \<longleftrightarrow> (\<forall>h h'. P h \<longrightarrow> hp_keeps M h h' \<longrightarrow> P h')"

definition framed :: "(sqfs \<Rightarrow> bool) \<Rightarrow> (heap \<Rightarrow> bool) \<Rightarrow> sqfs \<Rightarrow> bool" where
  "framed A P s \<longleftrightarrow> A s \<and> P (fs_heap s)"

lemma stableD: "stable M P \<Longrightarrow> P h \<Longrightarrow> hp_keeps M h h' \<Longrightarrow> P h'"
  by (simp add: stable_def)

lemma stable_True [simp]: "stable M (\<lambda>_. True)"
  by (simp add: stable_def)

lemma stable_view: "a \<in># M \<Longrightarrow> stable M (\<lambda>h. Q (hp_view h a))"
  by (simp add: stable_def hp_keeps_def)

lemma framed_True [simp]: "framed A (\<lambda>_. True) = A"
  by (simp add: framed_def fun_eq_iff)

text \<open>The way callers use a metadata block: fetch it, look at it, give it back, go on. \<open>g\<close> is what
  the caller makes of an error code.\<close>

lemma md_block_use_err_frame:
  assumes fr: "stable M P" and pos: "pos_ok pos" and g: "g SQFS_ERR = SQFS_ERR"
    and body: "\<And>d ds a b. md_block_spec (ev_img E) pos = Ok (d, ds) \<Longrightarrow> blk_data b = d \<Longrightarrow>
      blk_size b = length d \<Longrightarrow>
      (\<exists>u. body (off_add pos ds) a b = io_fault u \<and> k (d, ds) = Fault u) \<or>
      (\<exists>rest. body (off_add pos ds) a b = io_bind (on_heap (sqfs_block_dispose a)) (\<lambda>_. rest) \<and>
         implements (ev_oom E) (framed (fs_clean E M) P) (framed (fs_safe E M) P) rest (k (d, ds)))"
  shows "implements (ev_oom E) (framed (fs_clean E M) P) (framed (fs_safe E M) P)
    (io_try (sqfs_md_cache pos) (\<lambda>x. case x of Inl e \<Rightarrow> io_raise (g e)
       | Inr (pos', a) \<Rightarrow> io_bind (on_heap (hp_block a)) (body pos' a)))
    (res_bind (res_map_err g (md_block_spec (ev_img E) pos)) k)"
proof (rule implementsI)
  fix s assume "framed (fs_clean E M) P s"
  then have inv: "fs_clean E M s" and P: "P (fs_heap s)" by (simp_all add: framed_def)
  let ?run = "io_try (sqfs_md_cache pos) (\<lambda>x. case x of Inl e \<Rightarrow> io_raise (g e)
       | Inr (pos', a) \<Rightarrow> io_bind (on_heap (hp_block a)) (body pos' a)) s"
  from sqfs_md_cache_run [OF inv pos] obtain r s1 where
    run: "sqfs_md_cache pos s = (r, s1)" and r: "case r of
      Ok (pos', a) \<Rightarrow> (\<exists>d ds. md_block_spec (ev_img E) pos = Ok (d, ds) \<and> pos' = off_add pos ds \<and>
        hp_view (fs_heap s1) a = Some (Inl d)) \<and> fs_clean E (add_mset a M) s1 \<and>
        hp_keeps M (fs_heap s) (fs_heap s1)
    | Err x \<Rightarrow> (md_block_spec (ev_img E) pos = Err x \<or> ev_oom E \<and> x = SQFS_ERR) \<and> fs_safe E M s1
        \<and> hp_keeps M (fs_heap s) (fs_heap s1)
    | Fault u \<Rightarrow> md_block_spec (ev_img E) pos = Fault u"
    by blast
  show "\<exists>r' s'. ?run = (r', s') \<and>
      (r' = res_bind (res_map_err g (md_block_spec (ev_img E) pos)) k \<or> ev_oom E \<and> r' = Err SQFS_ERR) \<and>
      (case r' of Ok a \<Rightarrow> framed (fs_clean E M) P s' | Err e \<Rightarrow> framed (fs_safe E M) P s' | Fault u \<Rightarrow> True)"
  proof (cases r)
    case (Ok x)
    then obtain d ds a where x: "r = Ok (off_add pos ds, a)"
        "md_block_spec (ev_img E) pos = Ok (d, ds)" "hp_view (fs_heap s1) a = Some (Inl d)"
        "fs_clean E (add_mset a M) s1" "hp_keeps M (fs_heap s) (fs_heap s1)"
      using r by (cases x) auto
    have "heap_owned (fs_heap s1) (fs_refs s1 + add_mset a M)" using x(4) by (simp add: fs_inv_def)
    from heap_owned_block_size [OF this x(3)] obtain b where
      b: "hp_block a (fs_heap s1) = (Ok b, fs_heap s1)" "blk_data b = d" "blk_size b = length d"
      by blast
    have go: "?run = body (off_add pos ds) a b s1"
      using run x(1) b(1) by (simp add: io_simps)
    from body [OF x(2) b(2,3), of a] show ?thesis
    proof (elim disjE exE conjE)
      fix u assume "body (off_add pos ds) a b = io_fault u" "k (d, ds) = Fault u"
      then show ?thesis using go x(2) by (simp add: io_simps)
    next
      fix rest
      assume rest: "body (off_add pos ds) a b = io_bind (on_heap (sqfs_block_dispose a)) (\<lambda>_. rest)"
        and impl: "implements (ev_oom E) (framed (fs_clean E M) P) (framed (fs_safe E M) P) rest (k (d, ds))"
      from dispose_run [OF x(4,3)] obtain s2 where
        s2: "on_heap (sqfs_block_dispose a) s1 = (Ok (), s2)" "fs_clean E M s2" "hp_keeps M (fs_heap s1) (fs_heap s2)"
        by blast
      have "framed (fs_clean E M) P s2"
        using s2(2) stableD [OF fr stableD [OF fr P x(5)] s2(3)] by (simp add: framed_def)
      from impl this obtain r' s' where "rest s2 = (r', s')"
          "r' = k (d, ds) \<or> ev_oom E \<and> r' = Err SQFS_ERR"
          "case r' of Ok a \<Rightarrow> framed (fs_clean E M) P s' | Err e \<Rightarrow> framed (fs_safe E M) P s' | Fault u \<Rightarrow> True"
        by (rule implementsD)
      moreover have "?run = rest s2" using go rest s2(1) by (simp add: io_bind_run)
      ultimately show ?thesis using x(2) by auto
    qed
  qed (use run r g stableD [OF fr P] in \<open>auto simp: io_simps framed_def\<close>)
qed

lemma md_block_use_frame:
  assumes fr: "stable M P" and pos: "pos_ok pos"
    and body: "\<And>d ds a b. md_block_spec (ev_img E) pos = Ok (d, ds) \<Longrightarrow> blk_data b = d \<Longrightarrow>
      blk_size b = length d \<Longrightarrow>
      (\<exists>u. body (off_add pos ds) a b = io_fault u \<and> k (d, ds) = Fault u) \<or>
      (\<exists>rest. body (off_add pos ds) a b = io_bind (on_heap (sqfs_block_dispose a)) (\<lambda>_. rest) \<and>
         implements (ev_oom E) (framed (fs_clean E M) P) (framed (fs_safe E M) P) rest (k (d, ds)))"
  shows "implements (ev_oom E) (framed (fs_clean E M) P) (framed (fs_safe E M) P)
    (io_bind (sqfs_md_cache pos) (\<lambda>(pos', a). io_bind (on_heap (hp_block a)) (body pos' a)))
    (res_bind (md_block_spec (ev_img E) pos) k)"
proof -
  have *: "io_bind m (\<lambda>(x, y). f x y) = io_try m (\<lambda>x. case x of Inl e \<Rightarrow> io_raise (id e)
      | Inr (x, y) \<Rightarrow> f x y)"
    for m :: "(sqfs, off_t \<times> nat) io" and f
    by (rule ext) (auto simp: io_simps split: res.splits prod.splits)
  have "res_map_err id r = r" for r :: "(bytes \<times> size_t) res" by (cases r) simp_all
  then show ?thesis
    using md_block_use_err_frame [OF fr pos, of id E body k] body unfolding * by simp
qed

lemmas md_block_use_err = md_block_use_err_frame [OF stable_True, unfolded framed_True]

section \<open>Reading the stream\<close>

text \<open>\<^verbatim>\<open>sqfs_md_read\<close> as a function of the image.\<close>

fun md_spec :: "sqfs_image \<Rightarrow> nat \<Rightarrow> bool \<Rightarrow> sqfs_md_cursor \<Rightarrow> size_t \<Rightarrow> (bytes \<times> sqfs_md_cursor) res"
  where
  "md_spec im fuel buf cur 0 = Ok ([], cur)"
| "md_spec im 0 buf cur (Suc n) = Fault Diverges"
| "md_spec im (Suc fuel) buf cur (Suc n) =
     res_bind (md_block_spec im (cur_block cur)) (\<lambda>(d, ds).
     let take0 = size_sub (length d) (cur_offset cur);
         tk = (if Suc n < take0 then Suc n else take0)
     in if buf \<and> length d < cur_offset cur + tk then Fault Out_Of_Bounds
        else
          let off = size_add (cur_offset cur) tk;
              cur' = (if off = length d then \<lparr>cur_block = off_add (cur_block cur) ds, cur_offset = 0\<rparr>
                      else cur\<lparr>cur_offset := off\<rparr>);
              got = (if buf then take tk (drop (cur_offset cur) d) else [])
          in res_bind (md_spec im fuel buf cur' (Suc n - tk)) (\<lambda>(rest, cur'').
             Ok (got @ rest, cur'')))"

definition md_read_spec ::
  "sqfs_image \<Rightarrow> bool \<Rightarrow> sqfs_md_cursor \<Rightarrow> size_t \<Rightarrow> (bytes \<times> sqfs_md_cursor) res" where
  "md_read_spec im buf cur n = md_spec im (Suc (length (fs_fd im))) buf cur n"

lemma md_read_loop_frame:
  assumes fr: "stable M P" and im: "img_ok (ev_img E)" and pos: "pos_ok (cur_block cur)"
  shows "implements (ev_oom E) (framed (fs_clean E M) P) (framed (fs_safe E M) P)
    (md_read_loop fuel buf cur n) (md_spec (ev_img E) fuel buf cur n)"
  using pos
proof (induction fuel arbitrary: cur n)
  case 0
  then show ?case by (cases n) (simp_all add: implements_rules)
next
  case (Suc fuel cur n0)
  show ?case
  proof (cases n0)
    case 0
    then show ?thesis by (simp add: implements_rules)
  next
    case (Suc n)
    show ?thesis
      unfolding Suc md_read_loop.simps md_spec.simps
    proof (rule md_block_use_frame [OF fr Suc.prems], goal_cases)
      case (1 d ds a b)
      define tk where "tk = (if Suc n < size_sub (length d) (cur_offset cur) then Suc n
        else size_sub (length d) (cur_offset cur))"
      define cur' where "cur' = (if size_add (cur_offset cur) tk = length d
        then \<lparr>cur_block = off_add (cur_block cur) ds, cur_offset = 0\<rparr>
        else cur\<lparr>cur_offset := size_add (cur_offset cur) tk\<rparr>)"
      define got where "got = (if buf then take tk (drop (cur_offset cur) d) else [])"
      have "pos_ok (cur_block cur')"
        using md_block_next(2) [OF im Suc.prems 1(1)] Suc.prems by (simp add: cur'_def)
      note IH = Suc.IH [OF this, of "Suc n - tk"]
      have rest: "implements (ev_oom E) (framed (fs_clean E M) P) (framed (fs_safe E M) P)
          (io_bind (md_read_loop fuel buf cur' (Suc n - tk)) (\<lambda>(rest, cur''). io_ret (got @ rest, cur'')))
          (res_bind (md_spec (ev_img E) fuel buf cur' (Suc n - tk)) (\<lambda>(rest, cur''). Ok (got @ rest, cur'')))"
        by (rule implements_bind [OF IH]) (auto intro: implements_rules)
      show ?case
        unfolding Let_def prod.case 1(2,3) tk_def [symmetric] cur'_def [symmetric] got_def [symmetric]
        using rest by (cases "buf \<and> length d < cur_offset cur + tk") auto
    qed
  qed
qed

definition cur_ok :: "sqfs_md_cursor \<Rightarrow> bool" where
  "cur_ok cur \<longleftrightarrow> pos_ok (cur_block cur) \<and> cur_offset cur < 2 ^ 64"

lemma sqfs_md_read_frame:
  assumes fr: "stable M P" and "img_ok (ev_img E)" and "cur_ok cur"
  shows "implements (ev_oom E) (framed (fs_clean E M) P) (framed (fs_safe E M) P)
    (sqfs_md_read buf cur n) (md_read_spec (ev_img E) buf cur n)"
proof -
  have "implements (ev_oom E) (framed (fs_clean E M) P) (framed (fs_safe E M) P) (sqfs_md_read buf cur n)
      (res_bind (Ok (Suc (length (fs_fd (ev_img E)))))
        (\<lambda>fuel. md_spec (ev_img E) fuel buf cur n))"
    unfolding sqfs_md_read_def
  proof (rule implements_bind)
    show "implements (ev_oom E) (framed (fs_clean E M) P) (framed (fs_safe E M) P) (io_gets (\<lambda>s. Suc (length (fs_fd s))))
        (Ok (Suc (length (fs_fd (ev_img E)))))"
      by (rule implements_gets) (metis framed_def fs_inv_def fs_img_fields(1))
    show "implements (ev_oom E) (framed (fs_clean E M) P) (framed (fs_safe E M) P) (md_read_loop fuel buf cur n)
        (md_spec (ev_img E) fuel buf cur n)" for fuel
      using assms by (intro md_read_loop_frame) (simp_all add: cur_ok_def)
  qed
  then show ?thesis by (simp add: md_read_spec_def)
qed

lemmas sqfs_md_read_implements = sqfs_md_read_frame [OF stable_True, unfolded framed_True]

text \<open>One round of the loop: how much it takes, where it leaves the cursor.\<close>

definition md_tk :: "bytes \<Rightarrow> sqfs_md_cursor \<Rightarrow> size_t \<Rightarrow> size_t" where
  "md_tk d cur n = (let take0 = size_sub (length d) (cur_offset cur) in
     if n < take0 then n else take0)"

definition md_move :: "bytes \<Rightarrow> size_t \<Rightarrow> sqfs_md_cursor \<Rightarrow> size_t \<Rightarrow> sqfs_md_cursor" where
  "md_move d ds cur n = (let off = size_add (cur_offset cur) (md_tk d cur n) in
     if off = length d then \<lparr>cur_block = off_add (cur_block cur) ds, cur_offset = 0\<rparr>
     else cur\<lparr>cur_offset := off\<rparr>)"

lemma md_spec_Suc:
  "md_spec im (Suc fuel) buf cur (Suc n) =
     res_bind (md_block_spec im (cur_block cur)) (\<lambda>(d, ds).
       if buf \<and> length d < cur_offset cur + md_tk d cur (Suc n) then Fault Out_Of_Bounds
       else res_bind (md_spec im fuel buf (md_move d ds cur (Suc n)) (Suc n - md_tk d cur (Suc n)))
         (\<lambda>(rest, cur''). Ok ((if buf then take (md_tk d cur (Suc n)) (drop (cur_offset cur) d) else [])
            @ rest, cur'')))"
  unfolding md_spec.simps md_tk_def md_move_def Let_def by (rule refl)

lemma size_sub_add: "a < 2 ^ 64 \<Longrightarrow> b < 2 ^ 64 \<Longrightarrow> size_add b (size_sub a b) = a"
proof -
  assume "a < 2 ^ 64" "b < 2 ^ 64"
  then have "size_add b (size_sub a b) = (b + (a + 2 ^ 64 - b)) mod 2 ^ 64"
    by (simp only: size_add_def size_sub_def mod_add_right_eq)
  also have "b + (a + 2 ^ 64 - b) = a + 2 ^ 64" using \<open>b < 2 ^ 64\<close> by simp
  also have "(a + 2 ^ 64) mod 2 ^ 64 = a" using \<open>a < 2 ^ 64\<close> by (simp only: mod_add_self2 mod_less)
  finally show ?thesis .
qed

text \<open>A round that leaves something to read moves to the next block.\<close>

lemma md_move_more:
  assumes "img_ok im" and "cur_ok cur" and "md_block_spec im (cur_block cur) = Ok (d, ds)"
    and "md_tk d cur n < n"
  shows "md_move d ds cur n = \<lparr>cur_block = off_add (cur_block cur) ds, cur_offset = 0\<rparr>"
proof -
  have "length d < 2 ^ 64" using md_block_spec_size [OF assms(1,3)] by simp
  then have "size_add (cur_offset cur) (size_sub (length d) (cur_offset cur)) = length d"
    using assms(2) by (simp add: size_sub_add cur_ok_def)
  moreover have "md_tk d cur n = size_sub (length d) (cur_offset cur)"
    using assms(4) by (auto simp: md_tk_def Let_def split: if_splits)
  ultimately show ?thesis by (simp add: md_move_def Let_def)
qed

lemma md_tk_le: "md_tk d cur n \<le> n"
  by (simp add: md_tk_def Let_def)

lemma md_move_ok:
  assumes "img_ok im" and "cur_ok cur" and "md_block_spec im (cur_block cur) = Ok (d, ds)"
  shows "cur_ok (md_move d ds cur n)"
  using md_block_next(2) [OF assms(1) _ assms(3)] assms(2)
  by (auto simp: cur_ok_def md_move_def Let_def size_add_def)

text \<open>Any two amounts of fuel that cover the rest of the file give the same result.\<close>

definition fuel_ok :: "sqfs_image \<Rightarrow> nat \<Rightarrow> sqfs_md_cursor \<Rightarrow> bool" where
  "fuel_ok im fuel cur \<longleftrightarrow> 0 < fuel \<and> int (length (fs_fd im)) < cur_block cur + int fuel"

lemma fuel_ok_next:
  assumes "img_ok im" and "cur_ok cur" and "md_block_spec im (cur_block cur) = Ok (d, ds)"
    and "fuel_ok im (Suc fuel) cur" and "md_tk d cur n < n"
  shows "fuel_ok im fuel (md_move d ds cur n)"
proof -
  have pos: "pos_ok (cur_block cur)" using assms(2) by (simp add: cur_ok_def)
  note md_block_next [OF assms(1) pos assms(3)]
  moreover have "3 \<le> ds" by (rule md_block_spec_in_file [OF assms(1) pos assms(3)])
  ultimately show ?thesis
    using assms(4) unfolding md_move_more [OF assms(1-3,5)] by (simp add: fuel_ok_def)
qed

lemma md_spec_fuel:
  assumes "img_ok im" and "cur_ok cur" and "fuel_ok im f cur" and "fuel_ok im g cur"
  shows "md_spec im f buf cur n = md_spec im g buf cur n"
  using assms(2-)
proof (induction f arbitrary: g cur n)
  case 0
  then show ?case by (simp add: fuel_ok_def)
next
  case (Suc f)
  from Suc.prems(3) obtain g' where g: "g = Suc g'" by (cases g) (auto simp: fuel_ok_def)
  show ?case
  proof (cases n)
    case (Suc n')
    have "md_spec im f buf (md_move d ds cur n) (n - md_tk d cur n)
        = md_spec im g' buf (md_move d ds cur n) (n - md_tk d cur n)"
      if d: "md_block_spec im (cur_block cur) = Ok (d, ds)" for d ds
    proof (cases "md_tk d cur n < n")
      case True
      show ?thesis
        by (rule Suc.IH) (use Suc.prems True d g in
            \<open>auto intro: md_move_ok [OF assms(1)] fuel_ok_next [OF assms(1)]\<close>)
    next
      case False
      then have "n - md_tk d cur n = 0" by simp
      then show ?thesis by (simp only: md_spec.simps)
    qed
    then show ?thesis
      unfolding Suc g md_spec_Suc by (cases "md_block_spec im (cur_block cur)") auto
  qed simp
qed

lemma fuel_ok_file: "cur_ok cur \<Longrightarrow> fuel_ok im (Suc (length (fs_fd im))) cur"
  by (simp add: fuel_ok_def cur_ok_def pos_ok_def)

text \<open>The defining equation of the stream, free of fuel.\<close>

lemma md_read_spec_unfold:
  assumes "img_ok im" and "cur_ok cur" and "0 < n"
  shows "md_read_spec im buf cur n =
     res_bind (md_block_spec im (cur_block cur)) (\<lambda>(d, ds).
       if buf \<and> length d < cur_offset cur + md_tk d cur n then Fault Out_Of_Bounds
       else res_bind (md_read_spec im buf (md_move d ds cur n) (n - md_tk d cur n))
         (\<lambda>(rest, cur''). Ok ((if buf then take (md_tk d cur n) (drop (cur_offset cur) d) else [])
            @ rest, cur'')))"
proof -
  obtain n' where n: "n = Suc n'" using assms(3) by (cases n) auto
  have "md_spec im (length (fs_fd im)) buf (md_move d ds cur n) (n - md_tk d cur n)
      = md_spec im (Suc (length (fs_fd im))) buf (md_move d ds cur n) (n - md_tk d cur n)"
    if d: "md_block_spec im (cur_block cur) = Ok (d, ds)" for d ds
  proof (cases "md_tk d cur n < n")
    case True
    note ok = md_move_ok [OF assms(1,2) d, of n]
    show ?thesis
      by (rule md_spec_fuel [OF assms(1) ok])
        (auto intro: fuel_ok_next [OF assms(1,2) d _ True] fuel_ok_file assms(2) ok)
  next
    case False
    then have "n - md_tk d cur n = 0" by simp
    then show ?thesis by (simp only: md_spec.simps)
  qed
  then show ?thesis
    unfolding md_read_spec_def n md_spec_Suc
    by (cases "md_block_spec im (cur_block cur)") (auto simp del: md_spec.simps)
qed

lemma md_read_spec_0 [simp]: "md_read_spec im buf cur 0 = Ok ([], cur)"
  by (simp add: md_read_spec_def)

text \<open>Induction over the reads of a stream: from a cursor to the start of the next block.\<close>

lemma md_read_induct [consumes 2, case_names read]:
  assumes "img_ok im" and "cur_ok cur"
    and step: "\<And>cur n. cur_ok cur \<Longrightarrow>
      (\<And>d ds m n'. md_block_spec im (cur_block cur) = Ok (d, ds) \<Longrightarrow> md_tk d cur m < m \<Longrightarrow>
         cur_ok (md_move d ds cur m) \<Longrightarrow> P (md_move d ds cur m) n') \<Longrightarrow> P cur n"
  shows "P cur n"
  using assms(2)
proof (induction "nat (int (length (fs_fd im)) + 1 - cur_block cur)" arbitrary: cur n rule: less_induct)
  case less
  show ?case
  proof (rule step [OF less.prems])
    fix d ds m n'
    assume d: "md_block_spec im (cur_block cur) = Ok (d, ds)" and tk: "md_tk d cur m < m"
      and ok: "cur_ok (md_move d ds cur m)"
    have "pos_ok (cur_block cur)" using less.prems by (simp add: cur_ok_def)
    note nx = md_block_next(3,4) [OF assms(1) this d]
    have "cur_block (md_move d ds cur m) = off_add (cur_block cur) ds"
      by (simp add: md_move_more [OF assms(1) less.prems d tk])
    then show "P (md_move d ds cur m) n'" using nx by (intro less.hyps ok) linarith
  qed
qed

text \<open>The loop ends: with the fuel of \<open>sqfs_md_read\<close> the stream never runs out of it.\<close>

lemma md_read_spec_terminates:
  assumes "img_ok im" and "cur_ok cur"
  shows "md_read_spec im buf cur n \<noteq> Fault Diverges"
  using assms
proof (induction cur n rule: md_read_induct)
  case (read cur n)
  show ?case
  proof (cases "n = 0")
    case False
    have "md_read_spec im buf (md_move d ds cur n) (n - md_tk d cur n) \<noteq> Fault Diverges"
      if d: "md_block_spec im (cur_block cur) = Ok (d, ds)" for d ds
    proof (cases "md_tk d cur n < n")
      case True
      then show ?thesis by (rule read.IH [OF d _ md_move_ok [OF assms(1) read.hyps d]])
    next
      case False
      then have "n - md_tk d cur n = 0" by simp
      then show ?thesis by (simp only: md_read_spec_0) simp
    qed
    then have "(case x of (d, ds) \<Rightarrow>
        if buf \<and> length d < cur_offset cur + md_tk d cur n then Fault Out_Of_Bounds
        else res_bind (md_read_spec im buf (md_move d ds cur n) (n - md_tk d cur n))
          (\<lambda>(rest, cur''). Ok ((if buf then take (md_tk d cur n) (drop (cur_offset cur) d) else [])
             @ rest, cur''))) \<noteq> Fault Diverges"
      if "md_block_spec im (cur_block cur) = Ok x" for x
      using that
      by (cases x; cases "md_read_spec im buf (md_move (fst x) (snd x) cur n) (n - md_tk (fst x) cur n)")
        auto
    then show ?thesis
      using md_read_spec_unfold [OF assms(1) read.hyps, of n buf] False
        md_block_spec_diverges [OF assms(1), of "cur_block cur"]
      by (cases "md_block_spec im (cur_block cur)") auto
  qed simp
qed

lemma md_read_spec_ok:
  assumes "img_ok im" and "cur_ok cur" and "md_read_spec im buf cur n = Ok (bs, cur')"
  shows "cur_ok cur' \<and> (if buf then length bs = n else bs = [])"
  using assms
proof (induction cur n arbitrary: bs rule: md_read_induct)
  case (read cur n)
  show ?case
  proof (cases "n = 0")
    case True
    then show ?thesis using read.prems read.hyps by simp
  next
    case False
    with read.prems md_read_spec_unfold [OF assms(1) read.hyps, of n buf] obtain d ds rest where
      d: "md_block_spec im (cur_block cur) = Ok (d, ds)"
        "\<not> (buf \<and> length d < cur_offset cur + md_tk d cur n)"
        "md_read_spec im buf (md_move d ds cur n) (n - md_tk d cur n) = Ok (rest, cur')"
        "bs = (if buf then take (md_tk d cur n) (drop (cur_offset cur) d) else []) @ rest"
      by (auto simp: res_bind_eq_Ok split: if_splits)
    have "cur_ok cur' \<and> (if buf then length rest = n - md_tk d cur n else rest = [])"
    proof (cases "md_tk d cur n < n")
      case True
      then show ?thesis
        by (rule read.IH [OF d(1) _ md_move_ok [OF assms(1) read.hyps d(1)] d(3)])
    next
      case False
      then have "n - md_tk d cur n = 0" by simp
      then show ?thesis using d(3) md_move_ok [OF assms(1) read.hyps d(1), of n] by auto
    qed
    then show ?thesis using d(2,4) md_tk_le [of d cur n] by auto
  qed
qed

text \<open>Skipping bytes without a buffer moves the cursor as reading them does.\<close>

lemma md_read_spec_skip:
  assumes "img_ok im" and "cur_ok cur" and "md_read_spec im True cur n = Ok (bs, cur')"
  shows "md_read_spec im False cur n = Ok ([], cur')"
  using assms
proof (induction cur n arbitrary: bs rule: md_read_induct)
  case (read cur n)
  show ?case
  proof (cases "n = 0")
    case False
    with read.prems md_read_spec_unfold [OF assms(1) read.hyps, of n True] obtain d ds rest where
      d: "md_block_spec im (cur_block cur) = Ok (d, ds)"
        "md_read_spec im True (md_move d ds cur n) (n - md_tk d cur n) = Ok (rest, cur')"
      by (auto simp: res_bind_eq_Ok split: if_splits)
    have "md_read_spec im False (md_move d ds cur n) (n - md_tk d cur n) = Ok ([], cur')"
    proof (cases "md_tk d cur n < n")
      case True
      then show ?thesis
        by (rule read.IH [OF d(1) _ md_move_ok [OF assms(1) read.hyps d(1)] d(2)])
    next
      case False
      then have "n - md_tk d cur n = 0" by simp
      then show ?thesis using d(2) by simp
    qed
    then show ?thesis
      using d(1) False md_read_spec_unfold [OF assms(1) read.hyps, of n False] by simp
  qed (use read.prems in simp)
qed

section \<open>The stream law\<close>

text \<open>The two ways a round of reading \<open>n + m\<close> bytes relates to a round of reading \<open>n\<close>.\<close>

lemma md_read_within:
  assumes im: "img_ok im" and cur: "cur_ok cur" and d: "md_block_spec im (cur_block cur) = Ok (d, ds)"
    and n: "0 < n" "cur_offset cur + n < length d"
  shows "md_read_spec im True cur n
    = Ok (take n (drop (cur_offset cur) d), cur\<lparr>cur_offset := cur_offset cur + n\<rparr>)"
proof -
  have len: "length d \<le> 32768" by (rule md_block_spec_size [OF im d])
  then have "md_tk d cur n = n" using n by (simp add: md_tk_def Let_def)
  moreover from this have "md_move d ds cur n = cur\<lparr>cur_offset := cur_offset cur + n\<rparr>"
    using n len by (simp add: md_move_def Let_def)
  ultimately show ?thesis
    using md_read_spec_unfold [OF im cur n(1), of True] d n(2) by simp
qed

lemma res_prefix_assoc:
  "res_bind (res_bind r (\<lambda>(x, c'). res_bind (f c') (\<lambda>(y, c''). Ok (x @ y, c''))))
     (\<lambda>(rest, c). Ok (g @ rest, c))
   = res_bind (res_bind r (\<lambda>(rest, c). Ok (g @ rest, c)))
     (\<lambda>(x, c'). res_bind (f c') (\<lambda>(y, c''). Ok (x @ y, c'')))"
proof (cases r)
  case (Ok x)
  then show ?thesis by (cases "f (snd x)") (auto split: prod.splits)
qed simp_all

lemma md_read_spec_split:
  assumes im: "img_ok im" and cur: "cur_ok cur"
  shows "md_read_spec im True cur (n + m) = res_bind (md_read_spec im True cur n) (\<lambda>(x, cur').
    res_bind (md_read_spec im True cur' m) (\<lambda>(y, cur''). Ok (x @ y, cur'')))"
  using im cur
proof (induction cur n arbitrary: m rule: md_read_induct)
  case (read cur n)
  have triv: "res_bind r Ok = r" for r :: "(bytes \<times> sqfs_md_cursor) res"
    by (cases r) auto
  consider "n = 0" | "m = 0" | "0 < n" "0 < m" by blast
  then show ?case
  proof cases
    case 3
    note unf = md_read_spec_unfold [OF im read.hyps, of _ True]
    show ?thesis
    proof (cases "md_block_spec im (cur_block cur)")
      case (Ok x)
      then obtain d ds where d: "md_block_spec im (cur_block cur) = Ok (d, ds)" by (cases x) auto
      have len: "length d \<le> 32768" by (rule md_block_spec_size [OF im d])
      let ?o = "cur_offset cur" and ?t = "size_sub (length d) (cur_offset cur)"
      show ?thesis
      proof (cases "n < ?t")
        case True
        then have tn: "md_tk d cur n = n" and tnm: "n \<le> md_tk d cur (n + m)"
          by (simp_all add: md_tk_def Let_def)
        show ?thesis
        proof (cases "length d < ?o + n")
          case True
          then show ?thesis using unf [of n] unf [of "n + m"] 3 d tn tnm by simp
        next
          case False
          then have t: "?t = length d - ?o" using len by simp
          then have lt: "?o + n < length d" using True by simp
          let ?c = "cur\<lparr>cur_offset := ?o + n\<rparr>"
          have c: "cur_ok ?c" using read.hyps lt len by (simp add: cur_ok_def)
          have dc: "md_block_spec im (cur_block ?c) = Ok (d, ds)" using d by simp
          have "size_sub (length d) (?o + n) = length d - (?o + n)" using lt len by simp
          then have tk: "md_tk d cur (n + m) = n + md_tk d ?c m"
            using t lt by (auto simp: md_tk_def Let_def)
          have o: "?o + n + md_tk d ?c m \<le> length d"
            using lt len by (auto simp: md_tk_def Let_def)
          have mv: "md_move d ds cur (n + m) = md_move d ds ?c m"
            using o len by (simp add: md_move_def Let_def tk add.assoc)
          have rem: "n + m - md_tk d cur (n + m) = m - md_tk d ?c m" using tk by simp
          have got: "take (n + md_tk d ?c m) (drop ?o d)
              = take n (drop ?o d) @ take (md_tk d ?c m) (drop (?o + n) d)"
            by (rule take_drop_split)
          have "md_read_spec im True cur (n + m) = res_bind
              (md_read_spec im True (md_move d ds ?c m) (m - md_tk d ?c m)) (\<lambda>(rest, cur'').
              Ok (take n (drop ?o d) @ take (md_tk d ?c m) (drop (?o + n) d) @ rest, cur''))"
            using unf [of "n + m"] 3 d o by (simp add: rem mv) (simp add: tk got add.assoc)
          moreover have "md_read_spec im True ?c m = res_bind
              (md_read_spec im True (md_move d ds ?c m) (m - md_tk d ?c m)) (\<lambda>(rest, cur'').
              Ok (take (md_tk d ?c m) (drop (?o + n) d) @ rest, cur''))"
            using md_read_spec_unfold [OF im c 3(2), of True] dc o by simp
          ultimately show ?thesis
            using md_read_within [OF im read.hyps d 3(1) lt]
            by (cases "md_read_spec im True (md_move d ds ?c m) (m - md_tk d ?c m)") auto
        qed
      next
        case False
        then have tk: "md_tk d cur n = ?t" "md_tk d cur (n + m) = ?t"
          by (simp_all add: md_tk_def Let_def)
        then have more: "md_tk d cur (n + m) < n + m" using False 3 by simp
        have mv: "md_move d ds cur n = md_move d ds cur (n + m)" by (simp add: md_move_def tk)
        have rem: "n + m - ?t = (n - ?t) + m" using False by simp
        note IH = read.IH [OF d more md_move_ok [OF im read.hyps d], of "n - ?t" m]
        show ?thesis
        proof (cases "length d < ?o + ?t")
          case True
          then show ?thesis using unf [of n] unf [of "n + m"] 3 d by (simp add: tk)
        next
          case False
          then have "md_read_spec im True cur n = res_bind
              (md_read_spec im True (md_move d ds cur (n + m)) (n - ?t))
              (\<lambda>(rest, c). Ok (take ?t (drop ?o d) @ rest, c))"
            using unf [of n] 3(1) d by (simp add: tk mv)
          moreover have "md_read_spec im True cur (n + m) = res_bind
              (md_read_spec im True (md_move d ds cur (n + m)) ((n - ?t) + m))
              (\<lambda>(rest, c). Ok (take ?t (drop ?o d) @ rest, c))"
            using unf [of "n + m"] 3 d False by (simp add: tk rem)
          ultimately show ?thesis by (simp only: IH res_prefix_assoc)
        qed
      qed
    qed (use unf [of n] unf [of "n + m"] 3 in simp_all)
  qed (auto simp: triv res_bind_assoc split: prod.splits)
qed

text \<open>
  The interface the readers of metadata structures build on: a cursor stands at a position of a
  stream of bytes. \<open>holds c bs c'\<close> says that the stream holds the bytes \<open>bs\<close> at \<open>c\<close> and goes on
  at \<open>c'\<close>.
\<close>

locale byte_stream =
  fixes rd :: "'c \<Rightarrow> nat \<Rightarrow> (bytes \<times> 'c) res"
    and ok :: "'c \<Rightarrow> bool"
  assumes rd_0: "ok c \<Longrightarrow> rd c 0 = Ok ([], c)"
    and rd_split: "ok c \<Longrightarrow> rd c (n + m) = res_bind (rd c n) (\<lambda>(x, c').
      res_bind (rd c' m) (\<lambda>(y, c''). Ok (x @ y, c'')))"
    and rd_ok: "ok c \<Longrightarrow> rd c n = Ok (bs, c') \<Longrightarrow> ok c' \<and> length bs = n"
begin

definition holds :: "'c \<Rightarrow> bytes \<Rightarrow> 'c \<Rightarrow> bool" where
  "holds c bs c' \<longleftrightarrow> rd c (length bs) = Ok (bs, c')"

lemma holds_Nil: "ok c \<Longrightarrow> holds c [] c' \<longleftrightarrow> c' = c"
  by (auto simp: holds_def rd_0)

lemma holds_ok: "ok c \<Longrightarrow> holds c bs c' \<Longrightarrow> ok c'"
  using rd_ok by (simp add: holds_def)

lemma holds_rd: "ok c \<Longrightarrow> rd c n = Ok (bs, c') \<Longrightarrow> holds c bs c'"
  using rd_ok by (auto simp: holds_def)

lemma holds_append:
  assumes "ok c"
  shows "holds c (xs @ ys) c'' \<longleftrightarrow> (\<exists>c'. holds c xs c' \<and> holds c' ys c'')"
proof
  assume "holds c (xs @ ys) c''"
  then obtain x c' y where *: "rd c (length xs) = Ok (x, c')" "rd c' (length ys) = Ok (y, c'')"
      "xs @ ys = x @ y"
    using rd_split [OF assms, of "length xs" "length ys"]
    by (auto simp: holds_def res_bind_eq_Ok)
  moreover have "length x = length xs" using rd_ok [OF assms *(1)] by simp
  ultimately show "\<exists>c'. holds c xs c' \<and> holds c' ys c''" by (auto simp: holds_def)
next
  assume "\<exists>c'. holds c xs c' \<and> holds c' ys c''"
  then show "holds c (xs @ ys) c''"
    using rd_split [OF assms, of "length xs" "length ys"] by (auto simp: holds_def)
qed

lemma holds_det: "holds c bs c' \<Longrightarrow> holds c bs c'' \<Longrightarrow> c' = c''"
  by (simp add: holds_def)

end

text \<open>For an image whose cursors are sound, metadata is such a stream.\<close>

interpretation ms: byte_stream "md_read_spec im True" "\<lambda>c. img_ok im \<and> cur_ok c" for im
proof
  fix c n bs c'
  assume "img_ok im \<and> cur_ok c" "md_read_spec im True c n = Ok (bs, c')"
  then show "(img_ok im \<and> cur_ok c') \<and> length bs = n"
    using md_read_spec_ok [of im c True n bs c'] by simp
qed (simp_all add: md_read_spec_split)

abbreviation md_holds :: "sqfs_image \<Rightarrow> sqfs_md_cursor \<Rightarrow> bytes \<Rightarrow> sqfs_md_cursor \<Rightarrow> bool" where
  "md_holds im \<equiv> byte_stream.holds (md_read_spec im True)"

end
