(* ===== verification/Sqfs_Table.thy ===== *)
theory Sqfs_Table
  imports Sqfs_Md
begin

text \<open>
  Tables of fixed-size records stored in metadata blocks: \<^verbatim>\<open>table.c\<close>, and the two
  tables \<^verbatim>\<open>fs.c\<close> reads through it, user/group ids (\<^verbatim>\<open>sqfs_id_get\<close>) and
  the export table that maps inode numbers to inode ids (\<^verbatim>\<open>sqfs_export_inode\<close>).
  \<open>table_array\<close> is what a table promises: an array of records, indexed. The lemmas show that
  \<^verbatim>\<open>sqfs_table_get\<close> implements it on every image whose blocks are full but the last.
\<close>

abbreviation yields :: "fs_env \<Rightarrow> nat multiset \<Rightarrow> (sqfs, 'a) io \<Rightarrow> 'a res \<Rightarrow> bool" where
  "yields E M m r \<equiv> implements (ev_oom E) (fs_clean E M) (fs_safe E M) m r"

section \<open>Operations\<close>

text \<open>\<^verbatim>\<open>sqfs_table_init\<close>: the error code and the table, which keeps its sizes but no blocks
  when the call fails.\<close>

fun swapin_blocks :: "nat \<Rightarrow> bytes \<Rightarrow> u64 list" where
  "swapin_blocks 0 bs = []"
| "swapin_blocks (Suc n) bs = sqfs_swapin64 (take 8 bs) # swapin_blocks n (drop 8 bs)"

definition sqfs_table_init ::
  "sqfs_table \<Rightarrow> bytes \<Rightarrow> off_t \<Rightarrow> size_t \<Rightarrow> size_t \<Rightarrow> (heap, sqfs_err option \<times> sqfs_table) io" where
  "sqfs_table_init tab fd start each cnt =
     (if cnt = 0 then io_ret (None, tab) else
      io_bind (io_lift (sqfs_divceil (size_mul each cnt) SQUASHFS_METADATA_SIZE)) (\<lambda>nblocks.
      let bread = size_mul nblocks 8; tab1 = tab\<lparr>tb_each := each, tb_count := cnt\<rparr> in
      io_bind hp_malloc (\<lambda>ok.
      if \<not> ok then io_ret (Some SQFS_ERR, tab1\<lparr>tb_blocks := None\<rparr>) else
      case sqfs_pread fd bread start of
        None \<Rightarrow> io_ret (Some SQFS_ERR, tab1\<lparr>tb_blocks := None\<rparr>)
      | Some bs \<Rightarrow>
          if length bs \<noteq> bread then io_ret (Some SQFS_ERR, tab1\<lparr>tb_blocks := None\<rparr>)
          else io_ret (None, tab1\<lparr>tb_blocks := Some (swapin_blocks nblocks bs)\<rparr>))))"

definition sqfs_table_destroy :: "sqfs_table \<Rightarrow> sqfs_table" where
  "sqfs_table_destroy tab = tab\<lparr>tb_blocks := None\<rparr>"

definition sqfs_table_get :: "sqfs_table \<Rightarrow> size_t \<Rightarrow> (sqfs, bytes) io" where
  "sqfs_table_get tab idx =
     (if tb_count tab \<le> idx then io_raise SQFS_ERR else
      let pos = size_mul idx (tb_each tab);
          bnum = pos div SQUASHFS_METADATA_SIZE;
          off = pos mod SQUASHFS_METADATA_SIZE
      in case tb_blocks tab of None \<Rightarrow> io_fault Null_Deref
         | Some blocks \<Rightarrow>
            if length blocks \<le> bnum then io_fault Out_Of_Bounds else
            io_try (sqfs_md_cache (off_of_u64 (blocks ! bnum))) (\<lambda>x. case x of
                Inl e \<Rightarrow> io_raise SQFS_ERR
              | Inr (bpos, block) \<Rightarrow>
                  io_bind (on_heap (hp_block block)) (\<lambda>b.
                  if length (blk_data b) < off + tb_each tab then io_fault Out_Of_Bounds
                  else io_bind (on_heap (sqfs_block_dispose block)) (\<lambda>_.
                    io_ret (take (tb_each tab) (drop off (blk_data b)))))))"

definition sqfs_id_get :: "u16 \<Rightarrow> (sqfs, u32) io" where
  "sqfs_id_get idx =
     io_bind (io_gets fs_id_table) (\<lambda>tab.
     io_bind (sqfs_table_get tab (unat idx)) (\<lambda>rid.
     io_ret (sqfs_swapin32 rid)))"

definition sqfs_export_ok :: "sqfs \<Rightarrow> bool" where
  "sqfs_export_ok fs \<longleftrightarrow> sb_lookup_table_start (fs_sb fs) \<noteq> u64_of_off SQUASHFS_INVALID_BLK"

definition sqfs_export_inode :: "sqfs_inode_num \<Rightarrow> (sqfs, sqfs_inode_id) io" where
  "sqfs_export_inode n =
     io_bind (io_gets sqfs_export_ok) (\<lambda>ok.
     if \<not> ok then io_raise SQFS_UNSUP else
     io_bind (io_gets fs_export_table) (\<lambda>tab.
     io_bind (sqfs_table_get tab (unat (n - 1))) (\<lambda>r.
     io_ret (sqfs_swapin64 r))))"

definition sqfs_inode_root :: "sqfs \<Rightarrow> sqfs_inode_id" where
  "sqfs_inode_root fs = sb_root_inode (fs_sb fs)"

section \<open>What a table promises\<close>

text \<open>The blocks of a table hold \<open>ds\<close>, every block but the last is full.\<close>

definition table_holds :: "sqfs_image \<Rightarrow> sqfs_table \<Rightarrow> bytes list \<Rightarrow> bool" where
  "table_holds im tab ds \<longleftrightarrow> tb_each tab dvd SQUASHFS_METADATA_SIZE \<and>
     tb_count tab * tb_each tab \<le> length (concat ds) \<and> length (concat ds) < 2 ^ 62 \<and>
     (\<forall>d \<in> set (butlast ds). length d = SQUASHFS_METADATA_SIZE) \<and>
     (\<forall>d \<in> set ds. length d \<le> SQUASHFS_METADATA_SIZE) \<and>
     (\<exists>blocks. tb_blocks tab = Some blocks \<and> length blocks = length ds \<and>
       (\<forall>i < length ds. pos_ok (off_of_u64 (blocks ! i)) \<and>
         (\<exists>sz. md_block_spec im (off_of_u64 (blocks ! i)) = Ok (ds ! i, sz))))"

text \<open>Record \<open>idx\<close> of the array.\<close>

definition table_array :: "sqfs_table \<Rightarrow> bytes list \<Rightarrow> size_t \<Rightarrow> bytes" where
  "table_array tab ds idx = take (tb_each tab) (drop (idx * tb_each tab) (concat ds))"

text \<open>The part of a concatenation of full blocks that lies in one block.\<close>

lemma concat_blocks_drop:
  assumes "\<forall>d \<in> set (butlast ds). length d = k"
    and "i < length ds" and "off + n \<le> length (ds ! i)"
  shows "take n (drop (i * k + off) (concat ds)) = take n (drop off (ds ! i))"
  using assms
proof (induction ds arbitrary: i)
  case (Cons d ds)
  show ?case
  proof (cases i)
    case 0
    then show ?thesis using Cons.prems by simp
  next
    case (Suc j)
    then have "ds \<noteq> []" using Cons.prems(2) by auto
    then have "length d = k" "\<forall>d \<in> set (butlast ds). length d = k" using Cons.prems(1) by simp_all
    then show ?thesis using Cons.IH [of j] Cons.prems Suc by simp
  qed
qed simp

lemma concat_blocks_length:
  assumes "\<forall>d \<in> set (butlast ds). length d = k" and "\<forall>d \<in> set ds. length d \<le> k"
    and "p < length (concat ds)" and "0 < k"
  shows "p div k < length ds \<and>
    (length (ds ! (p div k)) = k \<or> length (concat ds) = (p div k) * k + length (ds ! (p div k)))"
  using assms
proof (induction ds arbitrary: p)
  case (Cons d ds)
  show ?case
  proof (cases "p < k")
    case True
    show ?thesis
    proof (cases "ds = []")
      case False
      then show ?thesis using Cons.prems(1) True by simp
    qed (use True in simp)
  next
    case False
    moreover have "length d \<le> k" using Cons.prems(2) by simp
    ultimately have "ds \<noteq> []" using Cons.prems(3) by auto
    then have k: "length d = k" and full: "\<forall>d \<in> set (butlast ds). length d = k"
      using Cons.prems(1) by simp_all
    have "(p - k) div k < length ds \<and> (length (ds ! ((p - k) div k)) = k \<or>
        length (concat ds) = ((p - k) div k) * k + length (ds ! ((p - k) div k)))"
      using Cons.IH [OF full, of "p - k"] Cons.prems k False by simp
    moreover have "p div k = Suc ((p - k) div k)"
      using False k Cons.prems(4) by (simp add: le_div_geq)
    ultimately show ?thesis using k by auto
  qed
qed simp

text \<open>A record never straddles a block boundary.\<close>

lemma record_in_block:
  assumes "each dvd (k :: nat)" and "0 < k"
  shows "(idx * each) mod k + each \<le> k"
proof -
  obtain q where q: "k = each * q" using assms(1) by (elim dvdE)
  then have "0 < q" using assms(2) by (cases q) auto
  then have "Suc (idx mod q) \<le> q" by (simp add: Suc_leI)
  then have "each * Suc (idx mod q) \<le> each * q" by (rule mult_le_mono2)
  moreover have "(idx * each) mod k = each * (idx mod q)"
    unfolding q mult.commute [of idx] by (rule mult_mod_right [symmetric])
  ultimately show ?thesis unfolding q by (simp only: mult_Suc_right add.commute)
qed

lemma table_record:
  assumes "table_holds im tab ds" and "idx < tb_count tab" and "0 < tb_each tab"
  defines "p \<equiv> idx * tb_each tab"
  shows "p div 8192 < length ds" and "p mod 8192 + tb_each tab \<le> length (ds ! (p div 8192))"
    and "take (tb_each tab) (drop (p mod 8192) (ds ! (p div 8192))) = table_array tab ds idx"
proof -
  let ?e = "tb_each tab" and ?b = "p div 8192"
  from assms(1) have dv: "?e dvd 8192" and len: "tb_count tab * ?e \<le> length (concat ds)"
    and full: "\<forall>d \<in> set (butlast ds). length d = 8192" and le: "\<forall>d \<in> set ds. length d \<le> 8192"
    by (simp_all add: table_holds_def)
  have "Suc idx * ?e \<le> tb_count tab * ?e" using assms(2) by (intro mult_le_mono1) simp
  then have end_le: "p + ?e \<le> length (concat ds)" using len by (simp add: p_def)
  then have "p < length (concat ds)" using assms(3) by simp
  from concat_blocks_length [OF full le this] show b: "?b < length ds" by simp
  have last: "length (ds ! ?b) = 8192 \<or> length (concat ds) = ?b * 8192 + length (ds ! ?b)"
    using concat_blocks_length [OF full le \<open>p < length (concat ds)\<close>] by simp
  have "p mod 8192 + ?e \<le> 8192" unfolding p_def by (rule record_in_block) (use dv in simp_all)
  moreover have "p = ?b * 8192 + p mod 8192" by (rule div_mod_decomp)
  ultimately show fits: "p mod 8192 + ?e \<le> length (ds ! ?b)" using last end_le by linarith
  show "take ?e (drop (p mod 8192) (ds ! ?b)) = table_array tab ds idx"
    using concat_blocks_drop [OF full b fits] unfolding table_array_def p_def [symmetric]
    by (simp add: div_mod_decomp [symmetric])
qed

section \<open>Refinement\<close>

lemma sqfs_table_get_block:
  assumes "idx < tb_count tab" and "tb_blocks tab = Some blocks" and "p = size_mul idx (tb_each tab)"
    and "p div 8192 < length blocks" and "pos_ok (off_of_u64 (blocks ! (p div 8192)))"
  shows "yields E M (sqfs_table_get tab idx)
    (res_bind (res_map_err (\<lambda>_. SQFS_ERR) (md_block_spec (ev_img E) (off_of_u64 (blocks ! (p div 8192)))))
      (\<lambda>(d, ds). if length d < p mod 8192 + tb_each tab then Fault Out_Of_Bounds
         else Ok (take (tb_each tab) (drop (p mod 8192) d))))"
proof -
  let ?body = "\<lambda>(bpos :: off_t) block b. if length (blk_data b) < p mod 8192 + tb_each tab
      then io_fault Out_Of_Bounds
      else io_bind (on_heap (sqfs_block_dispose block))
        (\<lambda>_. io_ret (take (tb_each tab) (drop (p mod 8192) (blk_data b))))"
  have "sqfs_table_get tab idx = io_try (sqfs_md_cache (off_of_u64 (blocks ! (p div 8192))))
      (\<lambda>x. case x of Inl e \<Rightarrow> io_raise SQFS_ERR
         | Inr (bpos, block) \<Rightarrow> io_bind (on_heap (hp_block block)) (?body bpos block))"
    using assms(1,2,4) unfolding sqfs_table_get_def Let_def assms(3) [symmetric] by simp
  moreover have "yields E M \<dots> (res_bind (res_map_err (\<lambda>_. SQFS_ERR)
      (md_block_spec (ev_img E) (off_of_u64 (blocks ! (p div 8192)))))
      (\<lambda>(d, ds). if length d < p mod 8192 + tb_each tab then Fault Out_Of_Bounds
         else Ok (take (tb_each tab) (drop (p mod 8192) d))))"
    by (rule md_block_use_err [OF assms(5)]) (auto intro: implements_rules)
  ultimately show ?thesis by simp
qed

text \<open>The table is the array.\<close>

lemma sqfs_table_get_array:
  assumes "table_holds (ev_img E) tab ds" and "idx < tb_count tab" and "0 < tb_each tab"
  shows "yields E M (sqfs_table_get tab idx) (Ok (table_array tab ds idx))"
proof -
  let ?p = "idx * tb_each tab"
  note rec = table_record [OF assms]
  obtain blocks where blocks: "tb_blocks tab = Some blocks" "length blocks = length ds"
      "pos_ok (off_of_u64 (blocks ! (?p div 8192)))"
      "\<exists>sz. md_block_spec (ev_img E) (off_of_u64 (blocks ! (?p div 8192))) = Ok (ds ! (?p div 8192), sz)"
    using assms(1) rec(1) unfolding table_holds_def by blast
  have "?p \<le> tb_count tab * tb_each tab" using assms(2) by (intro mult_le_mono1) simp
  moreover have "tb_count tab * tb_each tab < 2 ^ 64" using assms(1) by (simp add: table_holds_def)
  ultimately have "?p < 2 ^ 64" by linarith
  then have "?p = size_mul idx (tb_each tab)" by simp
  from sqfs_table_get_block [OF assms(2) blocks(1) this, of E M] show ?thesis
    using rec blocks by (auto simp: not_less)
qed

lemma sqfs_table_get_range: "tb_count tab \<le> idx \<Longrightarrow> yields E M (sqfs_table_get tab idx) (Err SQFS_ERR)"
  by (simp add: sqfs_table_get_def implements_raise fs_clean_safe)

lemma sqfs_id_get_array:
  assumes "fs_id_table (ev_img E) = tab" and "table_holds (ev_img E) tab ds"
    and "tb_each tab = 4" and "unat idx < tb_count tab"
  shows "yields E M (sqfs_id_get idx) (Ok (sqfs_swapin32 (table_array tab ds (unat idx))))"
proof -
  have "yields E M (io_gets fs_id_table) (Ok tab)"
    by (rule implements_gets) (metis assms(1) fs_inv_def fs_img_fields(5))
  moreover have "yields E M (sqfs_table_get tab (unat idx)) (Ok (table_array tab ds (unat idx)))"
    by (rule sqfs_table_get_array) (use assms in auto)
  ultimately have "yields E M (sqfs_id_get idx) (res_bind (Ok tab) (\<lambda>_.
      res_bind (Ok (table_array tab ds (unat idx))) (\<lambda>rid. Ok (sqfs_swapin32 rid))))"
    unfolding sqfs_id_get_def by (intro implements_bind) (auto intro: implements_rules)
  then show ?thesis by simp
qed

end
