(* ===== verification/Sqfs_Encode.thy ===== *)
theory Sqfs_Encode
  imports Sqfs_Format
begin

text \<open>
  The encoder an image builder uses for the structures of \<^verbatim>\<open>squashfs_fs.h\<close>: the members
  in order, each little-endian. Every decoder \<^verbatim>\<open>sqfs_swapin_<struct>\<close> inverts it, so
  each member is read at its own offset and width. The image-level theorems state what an image
  holds with these encoders.
\<close>

lemma fld_simps:
  "fld16 0 (le_bytes 2 w16 @ bs) = w16" "fld32 0 (le_bytes 4 w32 @ bs) = w32"
  "fld64 0 (le_bytes 8 w64 @ bs) = w64"
  "fld16 0 (le_bytes 2 w16) = w16" "fld32 0 (le_bytes 4 w32) = w32" "fld64 0 (le_bytes 8 w64) = w64"
  "n \<le> k \<Longrightarrow> fld16 k (le_bytes n w @ bs) = fld16 (k - n) bs"
  "n \<le> k \<Longrightarrow> fld32 k (le_bytes n w @ bs) = fld32 (k - n) bs"
  "n \<le> k \<Longrightarrow> fld64 k (le_bytes n w @ bs) = fld64 (k - n) bs"
  by (simp_all add: fld16_def fld32_def fld64_def)

definition super_block_bytes :: "squashfs_super_block \<Rightarrow> bytes" where
  "super_block_bytes x =
     le_bytes 4 (sb_magic x) @ le_bytes 4 (sb_inodes x) @ le_bytes 4 (sb_mkfs_time x) @
     le_bytes 4 (sb_block_size x) @ le_bytes 4 (sb_fragments x) @
     le_bytes 2 (sb_compression x) @ le_bytes 2 (sb_block_log x) @ le_bytes 2 (sb_flags x) @
     le_bytes 2 (sb_no_ids x) @ le_bytes 2 (sb_major x) @ le_bytes 2 (sb_minor x) @
     le_bytes 8 (sb_root_inode x) @ le_bytes 8 (sb_bytes_used x) @
     le_bytes 8 (sb_id_table_start x) @ le_bytes 8 (sb_xattr_id_table_start x) @
     le_bytes 8 (sb_inode_table_start x) @ le_bytes 8 (sb_directory_table_start x) @
     le_bytes 8 (sb_fragment_table_start x) @ le_bytes 8 (sb_lookup_table_start x)"

lemma length_super_block_bytes [simp]: "length (super_block_bytes x) = 96"
  by (simp add: super_block_bytes_def)

lemma swapin_super_block_bytes [simp]: "sqfs_swapin_super_block (super_block_bytes x) = x"
  by (simp add: super_block_bytes_def sqfs_swapin_super_block_def fld_simps)

definition dir_index_bytes :: "squashfs_dir_index \<Rightarrow> bytes" where
  "dir_index_bytes x =
     le_bytes 4 (di_index x) @ le_bytes 4 (di_start_block x) @ le_bytes 4 (di_size x)"

lemma length_dir_index_bytes [simp]: "length (dir_index_bytes x) = 12"
  by (simp add: dir_index_bytes_def)

lemma swapin_dir_index_bytes [simp]: "sqfs_swapin_dir_index (dir_index_bytes x) = x"
  by (simp add: dir_index_bytes_def sqfs_swapin_dir_index_def fld_simps)

definition base_inode_bytes :: "squashfs_base_inode \<Rightarrow> bytes" where
  "base_inode_bytes x =
     le_bytes 2 (bi_inode_type x) @ le_bytes 2 (bi_mode x) @ le_bytes 2 (bi_uid x) @
     le_bytes 2 (bi_guid x) @ le_bytes 4 (bi_mtime x) @ le_bytes 4 (bi_inode_number x)"

lemma length_base_inode_bytes [simp]: "length (base_inode_bytes x) = 16"
  by (simp add: base_inode_bytes_def)

lemma swapin_base_inode_bytes [simp]: "sqfs_swapin_base_inode (base_inode_bytes x) = x"
  by (simp add: base_inode_bytes_def sqfs_swapin_base_inode_def fld_simps)

definition ipc_inode_bytes :: "squashfs_ipc_inode \<Rightarrow> bytes" where
  "ipc_inode_bytes x =
     le_bytes 2 (bi_inode_type x) @ le_bytes 2 (bi_mode x) @ le_bytes 2 (bi_uid x) @
     le_bytes 2 (bi_guid x) @ le_bytes 4 (bi_mtime x) @ le_bytes 4 (bi_inode_number x) @
     le_bytes 4 (ipc_nlink x)"

lemma length_ipc_inode_bytes [simp]: "length (ipc_inode_bytes x) = 20"
  by (simp add: ipc_inode_bytes_def)

lemma swapin_ipc_inode_bytes [simp]: "sqfs_swapin_ipc_inode (ipc_inode_bytes x) = x"
  by (simp add: ipc_inode_bytes_def sqfs_swapin_ipc_inode_def fld_simps)

definition lipc_inode_bytes :: "squashfs_lipc_inode \<Rightarrow> bytes" where
  "lipc_inode_bytes x =
     le_bytes 2 (bi_inode_type x) @ le_bytes 2 (bi_mode x) @ le_bytes 2 (bi_uid x) @
     le_bytes 2 (bi_guid x) @ le_bytes 4 (bi_mtime x) @ le_bytes 4 (bi_inode_number x) @
     le_bytes 4 (lipc_nlink x) @ le_bytes 4 (lipc_xattr x)"

lemma length_lipc_inode_bytes [simp]: "length (lipc_inode_bytes x) = 24"
  by (simp add: lipc_inode_bytes_def)

lemma swapin_lipc_inode_bytes [simp]: "sqfs_swapin_lipc_inode (lipc_inode_bytes x) = x"
  by (simp add: lipc_inode_bytes_def sqfs_swapin_lipc_inode_def fld_simps)

definition dev_inode_bytes :: "squashfs_dev_inode \<Rightarrow> bytes" where
  "dev_inode_bytes x =
     le_bytes 2 (bi_inode_type x) @ le_bytes 2 (bi_mode x) @ le_bytes 2 (bi_uid x) @
     le_bytes 2 (bi_guid x) @ le_bytes 4 (bi_mtime x) @ le_bytes 4 (bi_inode_number x) @
     le_bytes 4 (dev_nlink x) @ le_bytes 4 (dev_rdev x)"

lemma length_dev_inode_bytes [simp]: "length (dev_inode_bytes x) = 24"
  by (simp add: dev_inode_bytes_def)

lemma swapin_dev_inode_bytes [simp]: "sqfs_swapin_dev_inode (dev_inode_bytes x) = x"
  by (simp add: dev_inode_bytes_def sqfs_swapin_dev_inode_def fld_simps)

definition ldev_inode_bytes :: "squashfs_ldev_inode \<Rightarrow> bytes" where
  "ldev_inode_bytes x =
     le_bytes 2 (bi_inode_type x) @ le_bytes 2 (bi_mode x) @ le_bytes 2 (bi_uid x) @
     le_bytes 2 (bi_guid x) @ le_bytes 4 (bi_mtime x) @ le_bytes 4 (bi_inode_number x) @
     le_bytes 4 (ldev_nlink x) @ le_bytes 4 (ldev_rdev x) @ le_bytes 4 (ldev_xattr x)"

lemma length_ldev_inode_bytes [simp]: "length (ldev_inode_bytes x) = 28"
  by (simp add: ldev_inode_bytes_def)

lemma swapin_ldev_inode_bytes [simp]: "sqfs_swapin_ldev_inode (ldev_inode_bytes x) = x"
  by (simp add: ldev_inode_bytes_def sqfs_swapin_ldev_inode_def fld_simps)

definition symlink_inode_bytes :: "squashfs_symlink_inode \<Rightarrow> bytes" where
  "symlink_inode_bytes x =
     le_bytes 2 (bi_inode_type x) @ le_bytes 2 (bi_mode x) @ le_bytes 2 (bi_uid x) @
     le_bytes 2 (bi_guid x) @ le_bytes 4 (bi_mtime x) @ le_bytes 4 (bi_inode_number x) @
     le_bytes 4 (sym_nlink x) @ le_bytes 4 (sym_symlink_size x)"

lemma length_symlink_inode_bytes [simp]: "length (symlink_inode_bytes x) = 24"
  by (simp add: symlink_inode_bytes_def)

lemma swapin_symlink_inode_bytes [simp]: "sqfs_swapin_symlink_inode (symlink_inode_bytes x) = x"
  by (simp add: symlink_inode_bytes_def sqfs_swapin_symlink_inode_def fld_simps)

definition reg_inode_bytes :: "squashfs_reg_inode \<Rightarrow> bytes" where
  "reg_inode_bytes x =
     le_bytes 2 (bi_inode_type x) @ le_bytes 2 (bi_mode x) @ le_bytes 2 (bi_uid x) @
     le_bytes 2 (bi_guid x) @ le_bytes 4 (bi_mtime x) @ le_bytes 4 (bi_inode_number x) @
     le_bytes 4 (reg_start_block x) @ le_bytes 4 (reg_fragment x) @
     le_bytes 4 (reg_offset x) @ le_bytes 4 (reg_file_size x)"

lemma length_reg_inode_bytes [simp]: "length (reg_inode_bytes x) = 32"
  by (simp add: reg_inode_bytes_def)

lemma swapin_reg_inode_bytes [simp]: "sqfs_swapin_reg_inode (reg_inode_bytes x) = x"
  by (simp add: reg_inode_bytes_def sqfs_swapin_reg_inode_def fld_simps)

definition lreg_inode_bytes :: "squashfs_lreg_inode \<Rightarrow> bytes" where
  "lreg_inode_bytes x =
     le_bytes 2 (bi_inode_type x) @ le_bytes 2 (bi_mode x) @ le_bytes 2 (bi_uid x) @
     le_bytes 2 (bi_guid x) @ le_bytes 4 (bi_mtime x) @ le_bytes 4 (bi_inode_number x) @
     le_bytes 8 (lreg_start_block x) @ le_bytes 8 (lreg_file_size x) @
     le_bytes 8 (lreg_sparse x) @ le_bytes 4 (lreg_nlink x) @ le_bytes 4 (lreg_fragment x) @
     le_bytes 4 (lreg_offset x) @ le_bytes 4 (lreg_xattr x)"

lemma length_lreg_inode_bytes [simp]: "length (lreg_inode_bytes x) = 56"
  by (simp add: lreg_inode_bytes_def)

lemma swapin_lreg_inode_bytes [simp]: "sqfs_swapin_lreg_inode (lreg_inode_bytes x) = x"
  by (simp add: lreg_inode_bytes_def sqfs_swapin_lreg_inode_def fld_simps)

definition dir_inode_bytes :: "squashfs_dir_inode \<Rightarrow> bytes" where
  "dir_inode_bytes x =
     le_bytes 2 (bi_inode_type x) @ le_bytes 2 (bi_mode x) @ le_bytes 2 (bi_uid x) @
     le_bytes 2 (bi_guid x) @ le_bytes 4 (bi_mtime x) @ le_bytes 4 (bi_inode_number x) @
     le_bytes 4 (dir_start_block x) @ le_bytes 4 (dir_nlink x) @
     le_bytes 2 (dir_file_size x) @ le_bytes 2 (dir_offset x) @
     le_bytes 4 (dir_parent_inode x)"

lemma length_dir_inode_bytes [simp]: "length (dir_inode_bytes x) = 32"
  by (simp add: dir_inode_bytes_def)

lemma swapin_dir_inode_bytes [simp]: "sqfs_swapin_dir_inode (dir_inode_bytes x) = x"
  by (simp add: dir_inode_bytes_def sqfs_swapin_dir_inode_def fld_simps)

definition ldir_inode_bytes :: "squashfs_ldir_inode \<Rightarrow> bytes" where
  "ldir_inode_bytes x =
     le_bytes 2 (bi_inode_type x) @ le_bytes 2 (bi_mode x) @ le_bytes 2 (bi_uid x) @
     le_bytes 2 (bi_guid x) @ le_bytes 4 (bi_mtime x) @ le_bytes 4 (bi_inode_number x) @
     le_bytes 4 (ldir_nlink x) @ le_bytes 4 (ldir_file_size x) @
     le_bytes 4 (ldir_start_block x) @ le_bytes 4 (ldir_parent_inode x) @
     le_bytes 2 (ldir_i_count x) @ le_bytes 2 (ldir_offset x) @ le_bytes 4 (ldir_xattr x)"

lemma length_ldir_inode_bytes [simp]: "length (ldir_inode_bytes x) = 40"
  by (simp add: ldir_inode_bytes_def)

lemma swapin_ldir_inode_bytes [simp]: "sqfs_swapin_ldir_inode (ldir_inode_bytes x) = x"
  by (simp add: ldir_inode_bytes_def sqfs_swapin_ldir_inode_def fld_simps)

definition dir_entry_bytes :: "squashfs_dir_entry \<Rightarrow> bytes" where
  "dir_entry_bytes x =
     le_bytes 2 (de_offset x) @ le_bytes 2 (de_inode_number x) @ le_bytes 2 (de_type x) @
     le_bytes 2 (de_size x)"

lemma length_dir_entry_bytes [simp]: "length (dir_entry_bytes x) = 8"
  by (simp add: dir_entry_bytes_def)

lemma swapin_dir_entry_bytes [simp]: "sqfs_swapin_dir_entry (dir_entry_bytes x) = x"
  by (simp add: dir_entry_bytes_def sqfs_swapin_dir_entry_def fld_simps)

definition dir_header_bytes :: "squashfs_dir_header \<Rightarrow> bytes" where
  "dir_header_bytes x =
     le_bytes 4 (dh_count x) @ le_bytes 4 (dh_start_block x) @ le_bytes 4 (dh_inode_number x)"

lemma length_dir_header_bytes [simp]: "length (dir_header_bytes x) = 12"
  by (simp add: dir_header_bytes_def)

lemma swapin_dir_header_bytes [simp]: "sqfs_swapin_dir_header (dir_header_bytes x) = x"
  by (simp add: dir_header_bytes_def sqfs_swapin_dir_header_def fld_simps)

definition fragment_entry_bytes :: "squashfs_fragment_entry \<Rightarrow> bytes" where
  "fragment_entry_bytes x =
     le_bytes 8 (fe_start_block x) @ le_bytes 4 (fe_size x) @ le_bytes 4 (fe_unused x)"

lemma length_fragment_entry_bytes [simp]: "length (fragment_entry_bytes x) = 16"
  by (simp add: fragment_entry_bytes_def)

lemma swapin_fragment_entry_bytes [simp]: "sqfs_swapin_fragment_entry (fragment_entry_bytes x) = x"
  by (simp add: fragment_entry_bytes_def sqfs_swapin_fragment_entry_def fld_simps)

definition xattr_entry_bytes :: "squashfs_xattr_entry \<Rightarrow> bytes" where
  "xattr_entry_bytes x =
     le_bytes 2 (xe_type x) @ le_bytes 2 (xe_size x)"

lemma length_xattr_entry_bytes [simp]: "length (xattr_entry_bytes x) = 4"
  by (simp add: xattr_entry_bytes_def)

lemma swapin_xattr_entry_bytes [simp]: "sqfs_swapin_xattr_entry (xattr_entry_bytes x) = x"
  by (simp add: xattr_entry_bytes_def sqfs_swapin_xattr_entry_def fld_simps)

definition xattr_val_bytes :: "squashfs_xattr_val \<Rightarrow> bytes" where
  "xattr_val_bytes x =
     le_bytes 4 (xv_vsize x)"

lemma length_xattr_val_bytes [simp]: "length (xattr_val_bytes x) = 4"
  by (simp add: xattr_val_bytes_def)

lemma swapin_xattr_val_bytes [simp]: "sqfs_swapin_xattr_val (xattr_val_bytes x) = x"
  by (simp add: xattr_val_bytes_def sqfs_swapin_xattr_val_def fld_simps)

definition xattr_id_bytes :: "squashfs_xattr_id \<Rightarrow> bytes" where
  "xattr_id_bytes x =
     le_bytes 8 (xi_xattr x) @ le_bytes 4 (xi_count x) @ le_bytes 4 (xi_size x)"

lemma length_xattr_id_bytes [simp]: "length (xattr_id_bytes x) = 16"
  by (simp add: xattr_id_bytes_def)

lemma swapin_xattr_id_bytes [simp]: "sqfs_swapin_xattr_id (xattr_id_bytes x) = x"
  by (simp add: xattr_id_bytes_def sqfs_swapin_xattr_id_def fld_simps)

definition xattr_id_table_bytes :: "squashfs_xattr_id_table \<Rightarrow> bytes" where
  "xattr_id_table_bytes x =
     le_bytes 8 (xt_xattr_table_start x) @ le_bytes 4 (xt_xattr_ids x) @
     le_bytes 4 (xt_unused x)"

lemma length_xattr_id_table_bytes [simp]: "length (xattr_id_table_bytes x) = 16"
  by (simp add: xattr_id_table_bytes_def)

lemma swapin_xattr_id_table_bytes [simp]: "sqfs_swapin_xattr_id_table (xattr_id_table_bytes x) = x"
  by (simp add: xattr_id_table_bytes_def sqfs_swapin_xattr_id_table_def fld_simps)

section \<open>Properties\<close>

text \<open>Swapping in inverts the little-endian encoding of every integer width, and bytes survive the
  round trip in the other direction.\<close>

lemma swapin_roundtrip:
  "sqfs_swapin16 (le_bytes 2 w16) = w16 \<and> sqfs_swapin32 (le_bytes 4 w32) = w32 \<and>
   sqfs_swapin64 (le_bytes 8 w64) = w64 \<and> le_bytes 8 (sqfs_swapin64 [b0, b1, b2, b3, b4, b5, b6, b7]) =
     [b0, b1, b2, b3, b4, b5, b6, b7] \<and>
   sqfs_swap16 (sqfs_swapin16 [b0, b1]) = sqfs_swapin16 [b1, b0]"
proof -
  have l: "length [b0, b1, b2, b3, b4, b5, b6, b7] = 8" by simp
  have "le_bytes 8 (sqfs_swapin64 [b0, b1, b2, b3, b4, b5, b6, b7]) = [b0, b1, b2, b3, b4, b5, b6, b7]"
    unfolding sqfs_swapin64_def
    using le_bytes_sqfs_swapin [where 'a = 64, of "[b0, b1, b2, b3, b4, b5, b6, b7]", unfolded l] by fastforce
  then show ?thesis by (intro conjI) (simp_all only: swapin_le_bytes sqfs_swap16_bytes)
qed

text \<open>C36. Every on-disk structure of the format is read back from its encoding, field by field: no two
  fields overlap, none is skipped, and each sits at the offset the packed layout gives it.\<close>

theorem structs_roundtrip:
  "sqfs_swapin_super_block (super_block_bytes sb) = sb \<and> sqfs_swapin_dir_index (dir_index_bytes di) = di \<and>
   sqfs_swapin_base_inode (base_inode_bytes bi) = bi \<and> sqfs_swapin_ipc_inode (ipc_inode_bytes ii) = ii \<and>
   sqfs_swapin_lipc_inode (lipc_inode_bytes li) = li \<and> sqfs_swapin_dev_inode (dev_inode_bytes dv) = dv \<and>
   sqfs_swapin_ldev_inode (ldev_inode_bytes ld) = ld \<and> sqfs_swapin_symlink_inode (symlink_inode_bytes sy) = sy \<and>
   sqfs_swapin_reg_inode (reg_inode_bytes rg) = rg \<and> sqfs_swapin_lreg_inode (lreg_inode_bytes lr) = lr \<and>
   sqfs_swapin_dir_inode (dir_inode_bytes dn) = dn \<and> sqfs_swapin_ldir_inode (ldir_inode_bytes lj) = lj \<and>
   sqfs_swapin_dir_entry (dir_entry_bytes de) = de \<and> sqfs_swapin_dir_header (dir_header_bytes dh) = dh \<and>
   sqfs_swapin_fragment_entry (fragment_entry_bytes fe) = fe \<and> sqfs_swapin_xattr_entry (xattr_entry_bytes xe) = xe \<and>
   sqfs_swapin_xattr_val (xattr_val_bytes xv) = xv \<and> sqfs_swapin_xattr_id (xattr_id_bytes xi) = xi \<and>
   sqfs_swapin_xattr_id_table (xattr_id_table_bytes xt) = xt"
  by (intro conjI) simp_all

text \<open>The size in a metadata block's header is never zero and never more than 32768, so a block always
  advances the reader and a header never asks for more than its 15 bits can say.\<close>

lemma md_header_bounds: "0 < unat (snd (sqfs_md_header hdr)) \<and> unat (snd (sqfs_md_header hdr)) \<le> 32768"
  using sqfs_md_header_size [of hdr] sqfs_md_header_le [of hdr] by (auto simp: word_neq_0_conv unat_gt_0)

end
