(* ===== verification/Sqfs_Inode.thy ===== *)
theory Sqfs_Inode
  imports Sqfs_Table Sqfs_Encode
begin

text \<open>
  Inodes: \<^verbatim>\<open>sqfs_inode_get\<close>, \<^verbatim>\<open>sqfs_decode_dev\<close> and
  \<^verbatim>\<open>sqfs_readlink\<close> of \<^verbatim>\<open>fs.c\<close>, with \<^verbatim>\<open>struct sqfs_inode\<close> of
  \<^verbatim>\<open>fs.h\<close>. The union \<^verbatim>\<open>xtra\<close> is a datatype with one constructor per member;
  \<open>X_None\<close> is the union as \<^verbatim>\<open>memset\<close> left it.

  \<open>disk_inode\<close> and \<open>disk_inode_bytes\<close> are the inodes an image builder can write, of all fourteen
  types; the main lemma says that \<^verbatim>\<open>sqfs_inode_get\<close> reads back each of them.
\<close>

section \<open>Data\<close>

datatype inode_xtra =
    X_None
  | X_Dev (xd_major: int) (xd_minor: int)
  | X_Symlink (xs_size: size_t)
  | X_Reg (xr_start_block: u64) (xr_file_size: u64) (xr_frag_idx: u32) (xr_frag_off: u32)
  | X_Dir (xi_start_block: u32) (xi_offset: u16) (xi_dir_size: u32) (xi_idx_count: u16)
      (xi_parent_inode: u32)

record sqfs_inode =
  in_base :: squashfs_base_inode
  in_nlink :: int
  in_xattr :: u32
  in_next :: sqfs_md_cursor
  in_xtra :: inode_xtra

definition in_mode :: "sqfs_inode \<Rightarrow> u32" where
  "in_mode i = ucast (bi_mode (in_base i))"

section \<open>Operations\<close>

definition sqfs_decode_dev :: "u32 \<Rightarrow> inode_xtra" where
  "sqfs_decode_dev rdev = X_Dev (sint (drop_bit 8 rdev AND 0xfff))
     (sint ((rdev AND 0xff) OR (drop_bit 12 rdev AND 0xfff00)))"

text \<open>The macro \<^verbatim>\<open>INODE_TYPE\<close>: the structure at the inode's position, and the position after it.\<close>

definition INODE_TYPE :: "(bytes \<Rightarrow> 'x) \<Rightarrow> size_t \<Rightarrow> sqfs_inode \<Rightarrow> (sqfs, 'x \<times> sqfs_inode) io" where
  "INODE_TYPE swapin sz inode =
     io_bind (sqfs_md_read True (in_next inode) sz) (\<lambda>(bs, nxt).
     io_ret (swapin bs, inode\<lparr>in_next := nxt\<rparr>))"

text \<open>The switch over the inode type.\<close>

definition inode_switch :: "u16 \<Rightarrow> sqfs_inode \<Rightarrow> (sqfs, sqfs_inode) io" where
  "inode_switch t inode =
    (if t = SQUASHFS_REG_TYPE then
       io_bind (INODE_TYPE sqfs_swapin_reg_inode sizeof_reg_inode inode) (\<lambda>(x, inode).
       io_ret (inode\<lparr>in_nlink := 1,
         in_xtra := X_Reg (ucast (reg_start_block x)) (ucast (reg_file_size x)) (reg_fragment x)
           (reg_offset x)\<rparr>))
     else if t = SQUASHFS_LREG_TYPE then
       io_bind (INODE_TYPE sqfs_swapin_lreg_inode sizeof_lreg_inode inode) (\<lambda>(x, inode).
       io_ret (inode\<lparr>in_nlink := sint (lreg_nlink x), in_xattr := lreg_xattr x,
         in_xtra := X_Reg (lreg_start_block x) (lreg_file_size x) (lreg_fragment x)
           (lreg_offset x)\<rparr>))
     else if t = SQUASHFS_DIR_TYPE then
       io_bind (INODE_TYPE sqfs_swapin_dir_inode sizeof_dir_inode inode) (\<lambda>(x, inode).
       io_ret (inode\<lparr>in_nlink := sint (dir_nlink x),
         in_xtra := X_Dir (dir_start_block x) (dir_offset x) (ucast (dir_file_size x)) 0
           (dir_parent_inode x)\<rparr>))
     else if t = SQUASHFS_LDIR_TYPE then
       io_bind (INODE_TYPE sqfs_swapin_ldir_inode sizeof_ldir_inode inode) (\<lambda>(x, inode).
       io_ret (inode\<lparr>in_nlink := sint (ldir_nlink x), in_xattr := ldir_xattr x,
         in_xtra := X_Dir (ldir_start_block x) (ldir_offset x) (ldir_file_size x)
           (ldir_i_count x) (ldir_parent_inode x)\<rparr>))
     else if t = SQUASHFS_SYMLINK_TYPE \<or> t = SQUASHFS_LSYMLINK_TYPE then
       io_bind (INODE_TYPE sqfs_swapin_symlink_inode sizeof_symlink_inode inode) (\<lambda>(x, inode).
       let inode = inode\<lparr>in_nlink := sint (sym_nlink x),
             in_xtra := X_Symlink (unat (sym_symlink_size x))\<rparr>
       in if t = SQUASHFS_LSYMLINK_TYPE then
            io_bind (sqfs_md_read False (in_next inode) (unat (sym_symlink_size x))) (\<lambda>(_, cur).
            io_bind (sqfs_md_read True cur 4) (\<lambda>(bs, _).
            io_ret (inode\<lparr>in_xattr := sqfs_swapin32 bs\<rparr>)))
          else io_ret inode)
     else if t = SQUASHFS_BLKDEV_TYPE \<or> t = SQUASHFS_CHRDEV_TYPE then
       io_bind (INODE_TYPE sqfs_swapin_dev_inode sizeof_dev_inode inode) (\<lambda>(x, inode).
       io_ret (inode\<lparr>in_nlink := sint (dev_nlink x), in_xtra := sqfs_decode_dev (dev_rdev x)\<rparr>))
     else if t = SQUASHFS_LBLKDEV_TYPE \<or> t = SQUASHFS_LCHRDEV_TYPE then
       io_bind (INODE_TYPE sqfs_swapin_ldev_inode sizeof_ldev_inode inode) (\<lambda>(x, inode).
       io_ret (inode\<lparr>in_nlink := sint (ldev_nlink x), in_xattr := ldev_xattr x,
         in_xtra := sqfs_decode_dev (ldev_rdev x)\<rparr>))
     else if t = SQUASHFS_SOCKET_TYPE \<or> t = SQUASHFS_FIFO_TYPE then
       io_bind (INODE_TYPE sqfs_swapin_ipc_inode sizeof_ipc_inode inode) (\<lambda>(x, inode).
       io_ret (inode\<lparr>in_nlink := sint (ipc_nlink x)\<rparr>))
     else if t = SQUASHFS_LSOCKET_TYPE \<or> t = SQUASHFS_LFIFO_TYPE then
       io_bind (INODE_TYPE sqfs_swapin_lipc_inode sizeof_lipc_inode inode) (\<lambda>(x, inode).
       io_ret (inode\<lparr>in_nlink := sint (lipc_nlink x), in_xattr := lipc_xattr x\<rparr>))
     else io_raise SQFS_ERR)"

definition sqfs_inode_get :: "sqfs_inode_id \<Rightarrow> (sqfs, sqfs_inode) io" where
  "sqfs_inode_get id0 =
     io_bind (io_gets fs_sb) (\<lambda>sb.
     let cur = sqfs_md_cursor_inode id0 (off_of_u64 (sb_inode_table_start sb)) in
     io_bind (sqfs_md_read True cur sizeof_base_inode) (\<lambda>(bs, _).
     let base0 = sqfs_swapin_base_inode bs;
         t = bi_inode_type base0;
         base = base0\<lparr>bi_mode := ucast (ucast (bi_mode base0) OR sqfs_mode t)\<rparr>;
         inode = \<lparr>in_base = base, in_nlink = 0, in_xattr = SQUASHFS_INVALID_XATTR, in_next = cur,
                  in_xtra = X_None\<rparr>
     in inode_switch t inode))"

text \<open>
  \<^verbatim>\<open>sqfs_readlink\<close>. Without a buffer the result is the size to allocate (\<open>Inl\<close>). With a
  buffer of \<open>sz\<close> bytes it is the characters and the terminating NUL that are written to it
  (\<open>Inr\<close>); writing beyond the buffer is a fault.
\<close>

definition sqfs_readlink :: "sqfs_inode \<Rightarrow> bool \<Rightarrow> size_t \<Rightarrow> (sqfs, size_t + bytes) io" where
  "sqfs_readlink inode buf sz =
     (if \<not> S_ISLNK (in_mode inode) then io_raise SQFS_ERR else
      case in_xtra inode of
        X_Symlink want0 \<Rightarrow>
          if \<not> buf then io_ret (Inl (size_add want0 1)) else
          let want = (if size_sub sz 1 < want0 then size_sub sz 1 else want0) in
          if sz < want + 1 then io_fault Out_Of_Bounds else
          io_bind (sqfs_md_read True (in_next inode) want) (\<lambda>(bs, _).
          io_ret (Inr (bs @ [0])))
      | _ \<Rightarrow> io_fault Wrong_Union_Arm)"

section \<open>Device numbers\<close>

text \<open>The encoding of the Linux kernel: a 12-bit major number between the two parts of a 20-bit
  minor number.\<close>

definition encode_dev :: "u32 \<Rightarrow> u32 \<Rightarrow> u32" where
  "encode_dev mj mn = push_bit 8 mj OR (mn AND 0xff) OR push_bit 12 (mn AND 0xfff00)"

lemma decode_encode_dev:
  assumes "mj < 2 ^ 12" and "mn < 2 ^ 20"
  shows "sqfs_decode_dev (encode_dev mj mn) = X_Dev (uint mj) (uint mn)"
proof -
  have m: "(0xff :: u32) = mask 8" "(0xfff :: u32) = mask 12" "(0xfff00 :: u32) = push_bit 8 (mask 12)"
    by (simp_all add: mask_eq_exp_minus_1)
  have mj: "take_bit 12 mj = mj" and mn: "take_bit 20 mn = mn"
    using less_mask_eq [OF assms(1)] less_mask_eq [OF assms(2)]
    by (simp_all add: take_bit_eq_mask mask_eq_exp_minus_1)
  have bmj: "bit mj n \<Longrightarrow> n < 12" and bmn: "bit mn n \<Longrightarrow> n < 20" for n
    using arg_cong [OF mj, of "\<lambda>w. bit w n"] arg_cong [OF mn, of "\<lambda>w. bit w n"]
    by (auto simp: bit_take_bit_iff)
  have 1: "drop_bit 8 (encode_dev mj mn) AND 0xfff = mj"
    unfolding encode_dev_def m
    by (rule bit_word_eqI) (auto simp: bit_simps dest: bmj)
  have 2: "(encode_dev mj mn AND 0xff) OR (drop_bit 12 (encode_dev mj mn) AND 0xfff00) = mn"
    unfolding encode_dev_def m
    by (rule bit_word_eqI) (auto simp: bit_simps not_less dest: bmn bmj)
  have sint: "sint w = uint w" if "uint w < 2 ^ 31" for w :: u32
    unfolding sint_uint
  proof (rule signed_take_bit_int_eq_self)
    have "- (2 ^ (LENGTH(32) - Suc 0)) \<le> (0 :: int)" by simp
    then show "- (2 ^ (LENGTH(32) - Suc 0)) \<le> uint w" using uint_ge_0 [of w] by (rule order_trans)
  qed (use that in simp)
  have "sint mj = uint mj" "sint mn = uint mn"
    using assms by (simp_all add: sint word_less_def)
  with 1 2 show ?thesis by (simp add: sqfs_decode_dev_def)
qed

section \<open>Types\<close>

text \<open>The member of \<^verbatim>\<open>xtra\<close> that belongs to an inode type.\<close>

definition xtra_matches :: "u16 \<Rightarrow> inode_xtra \<Rightarrow> bool" where
  "xtra_matches t x \<longleftrightarrow> (case x of
     X_Reg _ _ _ _ \<Rightarrow> t = SQUASHFS_REG_TYPE \<or> t = SQUASHFS_LREG_TYPE
   | X_Dir _ _ _ _ _ \<Rightarrow> t = SQUASHFS_DIR_TYPE \<or> t = SQUASHFS_LDIR_TYPE
   | X_Symlink _ \<Rightarrow> t = SQUASHFS_SYMLINK_TYPE \<or> t = SQUASHFS_LSYMLINK_TYPE
   | X_Dev _ _ \<Rightarrow> t = SQUASHFS_BLKDEV_TYPE \<or> t = SQUASHFS_CHRDEV_TYPE \<or>
       t = SQUASHFS_LBLKDEV_TYPE \<or> t = SQUASHFS_LCHRDEV_TYPE
   | X_None \<Rightarrow> t = SQUASHFS_SOCKET_TYPE \<or> t = SQUASHFS_FIFO_TYPE \<or>
       t = SQUASHFS_LSOCKET_TYPE \<or> t = SQUASHFS_LFIFO_TYPE)"

lemma sqfs_inode_get_matches:
  assumes "sqfs_inode_get i s = (Ok inode, s')"
  shows "xtra_matches (bi_inode_type (in_base inode)) (in_xtra inode)"
  using assms unfolding sqfs_inode_get_def inode_switch_def INODE_TYPE_def Let_def
  by (auto simp: io_bind_eq_Ok io_ret_run io_gets_run io_raise_run xtra_matches_def
      sqfs_decode_dev_def split: if_splits prod.splits)

section \<open>Reading back what an image holds\<close>

text \<open>Rules for calls that read what the image holds.\<close>

lemma yields_bind_Ok:
  assumes "yields E M m (Ok a)" and "yields E M (f a) r"
  shows "yields E M (io_bind m f) r"
  using implements_bind [OF assms(1), of f "\<lambda>_. r"] assms(2) by simp

lemma yields_image: "(\<And>s. fs_img s = ev_img E \<Longrightarrow> f s = a) \<Longrightarrow> yields E M (io_gets f) (Ok a)"
  by (rule implements_gets) (simp add: fs_inv_def)

lemma yields_ret: "a = b \<Longrightarrow> yields E M (io_ret a) (Ok b)"
  by (simp add: implements_ret)

lemma yields_md_read:
  assumes "img_ok (ev_img E)" and "cur_ok cur" and "md_holds (ev_img E) cur bs cur'"
    and "length bs = n"
  shows "yields E M (sqfs_md_read True cur n) (Ok (bs, cur'))"
  using sqfs_md_read_implements [OF assms(1,2), of M True n] assms(3,4) by (auto simp: ms.holds_def)

lemma yields_md_skip:
  assumes "img_ok (ev_img E)" and "cur_ok cur" and "md_holds (ev_img E) cur bs cur'"
    and "length bs = n"
  shows "yields E M (sqfs_md_read False cur n) (Ok ([], cur'))"
  using sqfs_md_read_implements [OF assms(1,2), of M False n]
    md_read_spec_skip [OF assms(1,2), of n bs cur'] assms(3,4) by (auto simp: ms.holds_def)

lemma yields_INODE_TYPE:
  assumes "img_ok (ev_img E)" and "cur_ok (in_next inode)"
    and "md_holds (ev_img E) (in_next inode) bs nxt" and "length bs = n"
  shows "yields E M (INODE_TYPE swapin n inode) (Ok (swapin bs, inode\<lparr>in_next := nxt\<rparr>))"
  unfolding INODE_TYPE_def
  by (rule yields_bind_Ok [OF yields_md_read [OF assms]]) (simp add: yields_ret)

text \<open>The inodes an image can hold.\<close>

datatype disk_inode =
    Disk_Reg squashfs_reg_inode
  | Disk_LReg squashfs_lreg_inode
  | Disk_Dir squashfs_dir_inode
  | Disk_LDir squashfs_ldir_inode
  | Disk_Symlink squashfs_symlink_inode bytes
  | Disk_LSymlink squashfs_symlink_inode bytes u32
  | Disk_Dev squashfs_dev_inode
  | Disk_LDev squashfs_ldev_inode
  | Disk_Ipc squashfs_ipc_inode
  | Disk_LIpc squashfs_lipc_inode

fun disk_inode_ok :: "disk_inode \<Rightarrow> bool" where
  "disk_inode_ok (Disk_Reg x) \<longleftrightarrow> bi_inode_type x = SQUASHFS_REG_TYPE"
| "disk_inode_ok (Disk_LReg x) \<longleftrightarrow> bi_inode_type x = SQUASHFS_LREG_TYPE"
| "disk_inode_ok (Disk_Dir x) \<longleftrightarrow> bi_inode_type x = SQUASHFS_DIR_TYPE"
| "disk_inode_ok (Disk_LDir x) \<longleftrightarrow> bi_inode_type x = SQUASHFS_LDIR_TYPE"
| "disk_inode_ok (Disk_Symlink x tgt) \<longleftrightarrow> bi_inode_type x = SQUASHFS_SYMLINK_TYPE \<and>
     length tgt = unat (sym_symlink_size x)"
| "disk_inode_ok (Disk_LSymlink x tgt xa) \<longleftrightarrow> bi_inode_type x = SQUASHFS_LSYMLINK_TYPE \<and>
     length tgt = unat (sym_symlink_size x)"
| "disk_inode_ok (Disk_Dev x) \<longleftrightarrow>
     bi_inode_type x = SQUASHFS_BLKDEV_TYPE \<or> bi_inode_type x = SQUASHFS_CHRDEV_TYPE"
| "disk_inode_ok (Disk_LDev x) \<longleftrightarrow>
     bi_inode_type x = SQUASHFS_LBLKDEV_TYPE \<or> bi_inode_type x = SQUASHFS_LCHRDEV_TYPE"
| "disk_inode_ok (Disk_Ipc x) \<longleftrightarrow>
     bi_inode_type x = SQUASHFS_SOCKET_TYPE \<or> bi_inode_type x = SQUASHFS_FIFO_TYPE"
| "disk_inode_ok (Disk_LIpc x) \<longleftrightarrow>
     bi_inode_type x = SQUASHFS_LSOCKET_TYPE \<or> bi_inode_type x = SQUASHFS_LFIFO_TYPE"

text \<open>The structure of an inode, and what follows it.\<close>

fun disk_head :: "disk_inode \<Rightarrow> bytes" where
  "disk_head (Disk_Reg x) = reg_inode_bytes x"
| "disk_head (Disk_LReg x) = lreg_inode_bytes x"
| "disk_head (Disk_Dir x) = dir_inode_bytes x"
| "disk_head (Disk_LDir x) = ldir_inode_bytes x"
| "disk_head (Disk_Symlink x tgt) = symlink_inode_bytes x"
| "disk_head (Disk_LSymlink x tgt xa) = symlink_inode_bytes x"
| "disk_head (Disk_Dev x) = dev_inode_bytes x"
| "disk_head (Disk_LDev x) = ldev_inode_bytes x"
| "disk_head (Disk_Ipc x) = ipc_inode_bytes x"
| "disk_head (Disk_LIpc x) = lipc_inode_bytes x"

fun disk_tail :: "disk_inode \<Rightarrow> bytes" where
  "disk_tail (Disk_Symlink x tgt) = tgt"
| "disk_tail (Disk_LSymlink x tgt xa) = tgt @ le_bytes 4 xa"
| "disk_tail d = []"

definition disk_inode_bytes :: "disk_inode \<Rightarrow> bytes" where
  "disk_inode_bytes d = disk_head d @ disk_tail d"

fun disk_base :: "disk_inode \<Rightarrow> squashfs_base_inode" where
  "disk_base (Disk_Reg x) = squashfs_base_inode.truncate x"
| "disk_base (Disk_LReg x) = squashfs_base_inode.truncate x"
| "disk_base (Disk_Dir x) = squashfs_base_inode.truncate x"
| "disk_base (Disk_LDir x) = squashfs_base_inode.truncate x"
| "disk_base (Disk_Symlink x tgt) = squashfs_base_inode.truncate x"
| "disk_base (Disk_LSymlink x tgt xa) = squashfs_base_inode.truncate x"
| "disk_base (Disk_Dev x) = squashfs_base_inode.truncate x"
| "disk_base (Disk_LDev x) = squashfs_base_inode.truncate x"
| "disk_base (Disk_Ipc x) = squashfs_base_inode.truncate x"
| "disk_base (Disk_LIpc x) = squashfs_base_inode.truncate x"

text \<open>What the library makes of it: the fields of \<^verbatim>\<open>struct sqfs_inode\<close>.\<close>

fun disk_nlink :: "disk_inode \<Rightarrow> int" where
  "disk_nlink (Disk_Reg x) = 1"
| "disk_nlink (Disk_LReg x) = sint (lreg_nlink x)"
| "disk_nlink (Disk_Dir x) = sint (dir_nlink x)"
| "disk_nlink (Disk_LDir x) = sint (ldir_nlink x)"
| "disk_nlink (Disk_Symlink x tgt) = sint (sym_nlink x)"
| "disk_nlink (Disk_LSymlink x tgt xa) = sint (sym_nlink x)"
| "disk_nlink (Disk_Dev x) = sint (dev_nlink x)"
| "disk_nlink (Disk_LDev x) = sint (ldev_nlink x)"
| "disk_nlink (Disk_Ipc x) = sint (ipc_nlink x)"
| "disk_nlink (Disk_LIpc x) = sint (lipc_nlink x)"

fun disk_xattr :: "disk_inode \<Rightarrow> u32" where
  "disk_xattr (Disk_LReg x) = lreg_xattr x"
| "disk_xattr (Disk_LDir x) = ldir_xattr x"
| "disk_xattr (Disk_LSymlink x tgt xa) = xa"
| "disk_xattr (Disk_LDev x) = ldev_xattr x"
| "disk_xattr (Disk_LIpc x) = lipc_xattr x"
| "disk_xattr d = SQUASHFS_INVALID_XATTR"

fun disk_xtra :: "disk_inode \<Rightarrow> inode_xtra" where
  "disk_xtra (Disk_Reg x) = X_Reg (ucast (reg_start_block x)) (ucast (reg_file_size x))
     (reg_fragment x) (reg_offset x)"
| "disk_xtra (Disk_LReg x) = X_Reg (lreg_start_block x) (lreg_file_size x) (lreg_fragment x)
     (lreg_offset x)"
| "disk_xtra (Disk_Dir x) = X_Dir (dir_start_block x) (dir_offset x) (ucast (dir_file_size x)) 0
     (dir_parent_inode x)"
| "disk_xtra (Disk_LDir x) = X_Dir (ldir_start_block x) (ldir_offset x) (ldir_file_size x)
     (ldir_i_count x) (ldir_parent_inode x)"
| "disk_xtra (Disk_Symlink x tgt) = X_Symlink (length tgt)"
| "disk_xtra (Disk_LSymlink x tgt xa) = X_Symlink (length tgt)"
| "disk_xtra (Disk_Dev x) = sqfs_decode_dev (dev_rdev x)"
| "disk_xtra (Disk_LDev x) = sqfs_decode_dev (ldev_rdev x)"
| "disk_xtra (Disk_Ipc x) = X_None"
| "disk_xtra (Disk_LIpc x) = X_None"

definition disk_inode_of :: "disk_inode \<Rightarrow> sqfs_md_cursor \<Rightarrow> sqfs_inode" where
  "disk_inode_of d nxt =
     \<lparr>in_base = (disk_base d)\<lparr>bi_mode := ucast (ucast (bi_mode (disk_base d)) OR
         sqfs_mode (bi_inode_type (disk_base d)))\<rparr>,
      in_nlink = disk_nlink d, in_xattr = disk_xattr d, in_next = nxt, in_xtra = disk_xtra d\<rparr>"

lemma disk_head_base:
  "take 16 (disk_head d) = base_inode_bytes (disk_base d)" "16 \<le> length (disk_head d)"
  by (cases d; simp add: base_inode_bytes_def reg_inode_bytes_def lreg_inode_bytes_def
      dir_inode_bytes_def ldir_inode_bytes_def symlink_inode_bytes_def dev_inode_bytes_def
      ldev_inode_bytes_def ipc_inode_bytes_def lipc_inode_bytes_def squashfs_base_inode.defs)+

lemma inode_switch_disk:
  assumes im: "img_ok (ev_img E)" and cur: "cur_ok (in_next inode)" and d: "disk_inode_ok d"
    and head: "md_holds (ev_img E) (in_next inode) (disk_head d) nxt"
    and tail: "md_holds (ev_img E) nxt (disk_tail d) c'"
    and init: "in_xattr inode = SQUASHFS_INVALID_XATTR" "in_xtra inode = X_None"
  shows "yields E M (inode_switch (bi_inode_type (disk_base d)) inode)
    (Ok (inode\<lparr>in_nlink := disk_nlink d, in_xattr := disk_xattr d, in_next := nxt,
       in_xtra := disk_xtra d\<rparr>))"
proof -
  have nx: "cur_ok nxt" using ms.holds_ok [OF _ head] im cur by simp
  note rdt = yields_INODE_TYPE [OF im cur head]
  have go: "yields E M (io_bind (INODE_TYPE swapin n inode) f) (Ok i)"
    if "length (disk_head d) = n" "yields E M (f (swapin (disk_head d), inode\<lparr>in_next := nxt\<rparr>)) (Ok i)"
    for swapin :: "bytes \<Rightarrow> 'x" and n f i
    by (rule yields_bind_Ok [where f = f, OF rdt [where swapin = swapin and M = M, OF that(1)] that(2)])
  show ?thesis
  proof (cases d)
    case (Disk_LSymlink x tgt xa)
    with tail im nx obtain c2 where c2: "md_holds (ev_img E) nxt tgt c2"
        "md_holds (ev_img E) c2 (le_bytes 4 xa) c'"
      using ms.holds_append [of "ev_img E" nxt tgt "le_bytes 4 xa" c'] by auto
    have c2ok: "cur_ok c2" using ms.holds_ok [OF _ c2(1)] im nx by simp
    note sk = yields_md_skip [OF im nx c2(1)] and rd = yields_md_read [OF im c2ok c2(2)]
    show ?thesis
      using Disk_LSymlink d init
      by (auto simp: inode_switch_def squashfs_base_inode.defs Let_def
          intro!: go yields_bind_Ok [OF sk] yields_bind_Ok [OF rd] yields_ret)
  qed (use d init in \<open>auto simp: inode_switch_def squashfs_base_inode.defs Let_def
      intro!: go yields_ret\<close>)
qed

abbreviation inode_cursor :: "sqfs_image \<Rightarrow> sqfs_inode_id \<Rightarrow> sqfs_md_cursor" where
  "inode_cursor im i \<equiv> sqfs_md_cursor_inode i (off_of_u64 (sb_inode_table_start (fs_sb im)))"

lemma sqfs_inode_get_disk:
  assumes im: "img_ok (ev_img E)" and cur: "cur_ok (inode_cursor (ev_img E) i)"
    and d: "disk_inode_ok d"
    and held: "md_holds (ev_img E) (inode_cursor (ev_img E) i) (disk_inode_bytes d) c'"
  shows "\<exists>nxt. md_holds (ev_img E) (inode_cursor (ev_img E) i) (disk_head d) nxt \<and>
    md_holds (ev_img E) nxt (disk_tail d) c' \<and>
    yields E M (sqfs_inode_get i) (Ok (disk_inode_of d nxt))"
proof -
  let ?cur = "inode_cursor (ev_img E) i"
  from held im cur obtain nxt where head: "md_holds (ev_img E) ?cur (disk_head d) nxt"
      and tail: "md_holds (ev_img E) nxt (disk_tail d) c'"
    using ms.holds_append [of "ev_img E" ?cur "disk_head d" "disk_tail d" c']
    by (auto simp: disk_inode_bytes_def)
  have "disk_head d = base_inode_bytes (disk_base d) @ drop 16 (disk_head d)"
    using disk_head_base(1) by (metis append_take_drop_id)
  with head im cur obtain c1 where base: "md_holds (ev_img E) ?cur (base_inode_bytes (disk_base d)) c1"
    using ms.holds_append [of "ev_img E" ?cur "base_inode_bytes (disk_base d)" "drop 16 (disk_head d)" nxt]
    by auto
  let ?in = "\<lparr>in_base = (disk_base d)\<lparr>bi_mode := ucast (ucast (bi_mode (disk_base d)) OR
         sqfs_mode (bi_inode_type (disk_base d)))\<rparr>, in_nlink = 0,
      in_xattr = SQUASHFS_INVALID_XATTR, in_next = ?cur, in_xtra = X_None\<rparr>"
  have "yields E M (inode_switch (bi_inode_type (disk_base d)) ?in) (Ok (disk_inode_of d nxt))"
    using inode_switch_disk [OF im _ d _ tail, of ?in M] cur head by (simp add: disk_inode_of_def)
  then have "yields E M (sqfs_inode_get i) (Ok (disk_inode_of d nxt))"
    unfolding sqfs_inode_get_def Let_def
    by (intro yields_bind_Ok [OF yields_image [where a = "fs_sb (ev_img E)"]]
        yields_bind_Ok [OF yields_md_read [OF im cur base]])
      (auto simp flip: fs_img_fields(3))
  with head tail show ?thesis by blast
qed

section \<open>Modes and links\<close>

text \<open>When the permission bits of the image carry no type bits, the mode names the inode's type.\<close>

lemma mode_type_word:
  fixes m :: u16 and t :: u32
  assumes "m AND 0xF000 = 0" and "t AND 0xF000 = t"
  shows "ucast (ucast (ucast m OR t :: u32) :: u16) AND (0xF000 :: u32) = t"
proof -
  have F: "(0xF000 :: 'a::len word) = push_bit 12 (mask 4)" by (simp add: mask_eq_exp_minus_1)
  have m: "bit m n \<Longrightarrow> n < 12" for n
    using arg_cong [OF assms(1), of "\<lambda>w. bit w n"] unfolding F
    by (auto simp: bit_simps dest: bit_imp_le_length)
  have t: "bit t n \<Longrightarrow> 12 \<le> n \<and> n < 16" for n
    using arg_cong [OF assms(2), of "\<lambda>w. bit w n"] unfolding F
    by (auto simp: bit_simps dest: bit_imp_le_length)
  show ?thesis
    unfolding F by (rule bit_word_eqI) (auto simp: bit_simps dest: m t)
qed

lemma disk_mode_type:
  assumes "bi_mode (disk_base d) AND 0xF000 = 0"
  shows "in_mode (disk_inode_of d nxt) AND S_IFMT = sqfs_mode (bi_inode_type (disk_base d))"
  unfolding in_mode_def disk_inode_of_def
  using mode_type_word [OF assms, of "sqfs_mode (bi_inode_type (disk_base d))"]
  by (simp add: sqfs_mode_def)

text \<open>A symbolic link is read back, cut to the buffer, and terminated.\<close>

lemma sqfs_readlink_target:
  assumes im: "img_ok (ev_img E)" and cur: "cur_ok (in_next inode)"
    and lnk: "S_ISLNK (in_mode inode)" "in_xtra inode = X_Symlink (length tgt)"
    and held: "md_holds (ev_img E) (in_next inode) tgt c'"
    and sz: "0 < sz" "sz < 2 ^ 64"
  shows "yields E M (sqfs_readlink inode True sz) (Ok (Inr (take (sz - 1) tgt @ [0])))"
proof -
  let ?want = "if sz - 1 < length tgt then sz - 1 else length tgt"
  have "tgt = take ?want tgt @ drop ?want tgt" by simp
  with held im cur obtain c1 where "md_holds (ev_img E) (in_next inode) (take ?want tgt) c1"
    using ms.holds_append [of "ev_img E" "in_next inode" "take ?want tgt" "drop ?want tgt" c']
    by (auto simp del: append_take_drop_id)
  moreover have "size_sub sz 1 = sz - 1" using sz by simp
  moreover have "take ?want tgt = take (sz - 1) tgt" by simp
  ultimately show ?thesis
    using lnk sz by (auto simp: sqfs_readlink_def Let_def not_less
        intro!: yields_bind_Ok [OF yields_md_read [OF im cur]] yields_ret)
qed

end
