(* ===== verification/Sqfs_Dir.thy ===== *)
theory Sqfs_Dir
  imports Sqfs_Inode
begin

text \<open>
  Directories: \<^verbatim>\<open>dir.c\<close>. A directory is a sequence of runs in the metadata stream, each
  a header (a count biased by one, the block of the inodes, a base inode number) and its entries;
  big directories carry an index of (offset, block, first name) with their inode.

  \<open>listing_bytes\<close> is the directory an image builder writes. The lemmas show that opening a directory
  and calling \<^verbatim>\<open>sqfs_dir_next\<close> until it returns false yields exactly its entries in order,
  and that \<^verbatim>\<open>sqfs_dir_lookup\<close> finds exactly the names of a sorted directory.
\<close>

section \<open>Data\<close>

record sqfs_dir =
  dr_cur :: sqfs_md_cursor
  dr_offset :: off_t
  dr_total :: off_t
  dr_header :: squashfs_dir_header

text \<open>\<open>ent_name\<close> is \<open>None\<close> for a \<^verbatim>\<open>NULL\<close> name buffer, otherwise what was read into it.\<close>

record sqfs_dir_entry =
  ent_inode :: sqfs_inode_id
  ent_inode_number :: sqfs_inode_num
  ent_type :: int
  ent_name :: "bytes option"
  ent_name_size :: size_t
  ent_offset :: off_t
  ent_next_offset :: off_t

definition dir_header_zero :: squashfs_dir_header where
  "dir_header_zero = \<lparr>dh_count = 0, dh_start_block = 0, dh_inode_number = 0\<rparr>"

section \<open>Operations\<close>

definition sqfs_dir_md_read :: "bool \<Rightarrow> sqfs_dir \<Rightarrow> size_t \<Rightarrow> (sqfs, bytes \<times> sqfs_dir) io" where
  "sqfs_dir_md_read buf dir sz =
     io_bind (sqfs_md_read buf (dr_cur dir) sz) (\<lambda>(bs, cur).
     io_ret (bs, dir\<lparr>dr_cur := cur, dr_offset := off_add (dr_offset dir) sz\<rparr>))"

definition sqfs_dentry_init :: "bool \<Rightarrow> sqfs_dir_entry" where
  "sqfs_dentry_init buf = \<lparr>ent_inode = 0, ent_inode_number = 0, ent_type = 0,
     ent_name = (if buf then Some [] else None), ent_name_size = 0, ent_offset = 0,
     ent_next_offset = 0\<rparr>"

definition sqfs_dentry_mode :: "sqfs_dir_entry \<Rightarrow> u32" where
  "sqfs_dentry_mode e = sqfs_mode (word_of_int (ent_type e))"

definition sqfs_dentry_is_dir :: "sqfs_dir_entry \<Rightarrow> bool" where
  "sqfs_dentry_is_dir e = S_ISDIR (sqfs_dentry_mode e)"

text \<open>The name as a C string: \<^verbatim>\<open>sqfs_dentry_name\<close> writes a NUL after \<^verbatim>\<open>name_size\<close> characters.\<close>

definition sqfs_dentry_name :: "sqfs_dir_entry \<Rightarrow> bytes option" where
  "sqfs_dentry_name e = map_option (\<lambda>bs. take (ent_name_size e) bs) (ent_name e)"

text \<open>The loop that skips to the next header; \<^verbatim>\<open>count\<close> is biased by one and may wrap to zero.
  Each round moves on by the size of a header, so \<open>dr_total\<close> rounds are enough.\<close>

fun dir_header_loop :: "nat \<Rightarrow> sqfs_dir \<Rightarrow> (sqfs, bool \<times> sqfs_dir) io" where
  "dir_header_loop fuel dir =
     (if dh_count (dr_header dir) \<noteq> 0 then io_ret (True, dir)
      else if dr_total dir \<le> dr_offset dir then io_ret (False, dir)
      else case fuel of 0 \<Rightarrow> io_fault Diverges
      | Suc fuel' \<Rightarrow>
         io_bind (sqfs_dir_md_read True dir sizeof_dir_header) (\<lambda>(bs, dir).
         let hdr = sqfs_swapin_dir_header bs in
         dir_header_loop fuel' (dir\<lparr>dr_header := hdr\<lparr>dh_count := dh_count hdr + 1\<rparr>\<rparr>)))"

declare dir_header_loop.simps [simp del]

text \<open>The part of \<^verbatim>\<open>sqfs_dir_next\<close> after the loop: the entry and its name.\<close>

definition dir_read_entry ::
  "sqfs_dir \<Rightarrow> sqfs_dir_entry \<Rightarrow> (sqfs, bool \<times> sqfs_dir \<times> sqfs_dir_entry) io" where
  "dir_read_entry dir entry =
     io_bind (sqfs_dir_md_read True dir sizeof_dir_entry) (\<lambda>(bs, dir).
     let e = sqfs_swapin_dir_entry bs;
         hdr = dr_header dir;
         dir = dir\<lparr>dr_header := hdr\<lparr>dh_count := dh_count hdr - 1\<rparr>\<rparr>;
         entry = entry\<lparr>ent_type := uint (de_type e), ent_name_size := unat (de_size e) + 1,
           ent_inode := push_bit 16 (ucast (dh_start_block hdr)) + ucast (de_offset e),
           ent_inode_number := dh_inode_number hdr + scast (de_inode_number e)\<rparr>
     in if SQUASHFS_NAME_LEN < ent_name_size entry then io_raise SQFS_ERR else
     io_bind (sqfs_dir_md_read (ent_name entry \<noteq> None) dir (ent_name_size entry)) (\<lambda>(nm, dir).
     io_ret (True, dir, entry\<lparr>ent_name := map_option (\<lambda>_. nm) (ent_name entry),
       ent_next_offset := dr_offset dir\<rparr>)))"

text \<open>\<^verbatim>\<open>sqfs_dir_next\<close>: whether there is an entry, with the directory and the entry as the call
  leaves them; an error code is raised.\<close>

definition sqfs_dir_next ::
  "sqfs_dir \<Rightarrow> sqfs_dir_entry \<Rightarrow> (sqfs, bool \<times> sqfs_dir \<times> sqfs_dir_entry) io" where
  "sqfs_dir_next dir entry =
     (let entry = entry\<lparr>ent_offset := dr_offset dir\<rparr> in
      io_bind (dir_header_loop (Suc (nat (dr_total dir))) dir) (\<lambda>(more, dir).
      if \<not> more then io_ret (False, dir, entry) else dir_read_entry dir entry))"

text \<open>Fast-forwarding with the directory index; \<open>func\<close> is the callback, which may move the cursor
  and ask to stop.\<close>

fun dir_ff_loop ::
  "nat \<Rightarrow> (sqfs_md_cursor \<Rightarrow> squashfs_dir_index \<Rightarrow> (sqfs, sqfs_md_cursor \<times> bool) io)
     \<Rightarrow> sqfs_md_cursor \<Rightarrow> sqfs_dir \<Rightarrow> (sqfs, sqfs_dir) io" where
  "dir_ff_loop 0 func cur dir = io_ret dir"
| "dir_ff_loop (Suc cnt) func cur dir =
     io_bind (sqfs_md_read True cur sizeof_dir_index) (\<lambda>(bs, cur).
     let idx = sqfs_swapin_dir_index bs in
     io_bind (func cur idx) (\<lambda>(cur, stop).
     if stop then io_ret dir else
     io_bind (io_gets fs_sb) (\<lambda>sb.
     dir_ff_loop cnt func cur (dir\<lparr>
       dr_cur := (dr_cur dir)\<lparr>cur_block :=
         off_of_u64 (ucast (di_start_block idx) + sb_directory_table_start sb)\<rparr>,
       dr_offset := uint (di_index idx)\<rparr>))))"

definition sqfs_dir_ff_header ::
  "sqfs_inode \<Rightarrow> sqfs_dir \<Rightarrow> (sqfs_md_cursor \<Rightarrow> squashfs_dir_index \<Rightarrow> (sqfs, sqfs_md_cursor \<times> bool) io)
     \<Rightarrow> (sqfs, sqfs_dir) io" where
  "sqfs_dir_ff_header inode dir func = (case in_xtra inode of
     X_Dir _ _ _ idx_count _ \<Rightarrow>
       if idx_count = 0 then io_ret dir else
       io_bind (dir_ff_loop (unat idx_count) func (in_next inode) dir) (\<lambda>dir.
       io_ret (dir\<lparr>dr_cur := (dr_cur dir)\<lparr>cur_offset :=
         size_add (cur_offset (dr_cur dir)) (unat (u64_of_off (dr_offset dir)))
           mod SQUASHFS_METADATA_SIZE\<rparr>\<rparr>))
   | _ \<Rightarrow> io_fault Wrong_Union_Arm)"

definition sqfs_dir_ff_offset_f ::
  "off_t \<Rightarrow> sqfs_md_cursor \<Rightarrow> squashfs_dir_index \<Rightarrow> (sqfs, sqfs_md_cursor \<times> bool) io" where
  "sqfs_dir_ff_offset_f offset cur idx =
     (if offset \<le> uint (di_index idx) then io_ret (cur, True)
      else io_bind (sqfs_md_read False cur (unat (di_size idx + 1))) (\<lambda>(_, cur).
        io_ret (cur, False)))"

fun dir_skip_loop :: "nat \<Rightarrow> off_t \<Rightarrow> sqfs_dir \<Rightarrow> sqfs_dir_entry \<Rightarrow> (sqfs, sqfs_dir) io" where
  "dir_skip_loop fuel offset dir entry =
     (if offset \<le> dr_offset dir then io_ret dir
      else case fuel of 0 \<Rightarrow> io_fault Diverges
      | Suc fuel' \<Rightarrow>
         io_bind (sqfs_dir_next dir entry) (\<lambda>(more, dir, entry).
         if more then dir_skip_loop fuel' offset dir entry else io_ret dir))"

declare dir_skip_loop.simps [simp del]

definition sqfs_dir_ff_offset :: "sqfs_inode \<Rightarrow> sqfs_dir \<Rightarrow> off_t \<Rightarrow> (sqfs, sqfs_dir) io" where
  "sqfs_dir_ff_offset inode dir offset =
     io_bind (sqfs_dir_ff_header inode dir (sqfs_dir_ff_offset_f offset)) (\<lambda>dir.
     io_bind (dir_skip_loop (Suc (nat offset)) offset dir (sqfs_dentry_init False)) (\<lambda>dir.
     if dr_offset dir = offset then io_ret dir else io_raise SQFS_ERR))"

definition sqfs_dir_open :: "sqfs_inode \<Rightarrow> off_t \<Rightarrow> (sqfs, sqfs_dir) io" where
  "sqfs_dir_open inode offset =
     (if \<not> S_ISDIR (in_mode inode) then io_raise SQFS_ERR else
      case in_xtra inode of
        X_Dir start_block off dir_size _ _ \<Rightarrow>
          io_bind (io_gets fs_sb) (\<lambda>sb.
          let dir = \<lparr>dr_cur = \<lparr>cur_block =
                  off_of_u64 (ucast start_block + sb_directory_table_start sb),
                cur_offset = unat off\<rparr>,
              dr_offset = 0, dr_total = (if dir_size \<le> 3 then 0 else uint (dir_size - 3)),
              dr_header = dir_header_zero\<rparr>
          in if offset \<noteq> 0 then sqfs_dir_ff_offset inode dir offset else io_ret dir)
      | _ \<Rightarrow> io_fault Wrong_Union_Arm)"

text \<open>\<^verbatim>\<open>strncmp\<close>: both arguments end with an implicit NUL.\<close>

fun strncmp :: "bytes \<Rightarrow> bytes \<Rightarrow> nat \<Rightarrow> int" where
  "strncmp a b 0 = 0"
| "strncmp a b (Suc n) =
     (let x = (case a of [] \<Rightarrow> 0 | c # _ \<Rightarrow> c); y = (case b of [] \<Rightarrow> 0 | c # _ \<Rightarrow> c) in
      if x \<noteq> y then uint x - uint y
      else if x = 0 then 0 else strncmp (tl a) (tl b) n)"

definition sqfs_dir_ff_name_f ::
  "bytes \<Rightarrow> sqfs_md_cursor \<Rightarrow> squashfs_dir_index \<Rightarrow> (sqfs, sqfs_md_cursor \<times> bool) io" where
  "sqfs_dir_ff_name_f cmp cur idx =
     (let name_size = unat (di_size idx + 1) in
      if SQUASHFS_NAME_LEN < name_size then io_raise SQFS_ERR else
      io_bind (sqfs_md_read True cur name_size) (\<lambda>(nm, cur).
      let order = strncmp nm cmp (length cmp) in
      io_ret (cur, 0 < order \<or> order = 0 \<and> length cmp < name_size)))"

text \<open>The loop of \<^verbatim>\<open>sqfs_dir_lookup\<close>. Every entry read advances in the metadata stream, whose
  length \<open>md_fuel\<close> bounds.\<close>

definition md_fuel :: "sqfs_image \<Rightarrow> nat" where
  "md_fuel im = Suc (Suc (length (fs_fd im)) * 32769)"

fun dir_lookup_loop ::
  "nat \<Rightarrow> bytes \<Rightarrow> sqfs_dir \<Rightarrow> sqfs_dir_entry \<Rightarrow> (sqfs, bool \<times> sqfs_dir_entry) io" where
  "dir_lookup_loop 0 name dir entry = io_fault Diverges"
| "dir_lookup_loop (Suc fuel) name dir entry =
     io_bind (sqfs_dir_next dir entry) (\<lambda>(more, dir, entry).
     if \<not> more then io_ret (False, entry) else
     case sqfs_dentry_name entry of None \<Rightarrow> io_fault Null_Deref
     | Some nm \<Rightarrow>
        let order = strncmp nm name (length name) in
        if 0 \<le> order then io_ret (order = 0 \<and> ent_name_size entry = length name, entry)
        else dir_lookup_loop fuel name dir entry)"

definition sqfs_dir_lookup ::
  "sqfs_inode \<Rightarrow> bytes \<Rightarrow> sqfs_dir_entry \<Rightarrow> (sqfs, bool \<times> sqfs_dir_entry) io" where
  "sqfs_dir_lookup inode name entry =
     io_bind (sqfs_dir_open inode 0) (\<lambda>dir.
     io_bind (sqfs_dir_ff_header inode dir (sqfs_dir_ff_name_f name)) (\<lambda>dir.
     io_bind (io_gets (\<lambda>s. md_fuel (fs_img s))) (\<lambda>fuel.
     dir_lookup_loop fuel name dir entry)))"

text \<open>Path lookup: the components of the path one after the other. The result is the inode reached
  and its id, or \<open>None\<close> when a component is missing; \<open>id0\<close> is what \<^verbatim>\<open>*id\<close> holds before.\<close>

definition slash :: u8 where "slash = 47"

fun lookup_loop ::
  "nat \<Rightarrow> sqfs_inode \<Rightarrow> sqfs_inode_id \<Rightarrow> bytes \<Rightarrow> sqfs_dir_entry
     \<Rightarrow> (sqfs, (sqfs_inode \<times> sqfs_inode_id) option) io" where
  "lookup_loop fuel inode id0 path entry =
     (if path = [] then io_ret (Some (inode, id0)) else
      let rest = dropWhile (\<lambda>c. c = slash) path;
          name = takeWhile (\<lambda>c. c \<noteq> slash) rest;
          path' = dropWhile (\<lambda>c. c \<noteq> slash) rest
      in if name = [] then io_ret (Some (inode, id0)) else
         case fuel of 0 \<Rightarrow> io_fault Diverges
         | Suc fuel' \<Rightarrow>
            io_bind (sqfs_dir_lookup inode name entry) (\<lambda>(found, entry).
            if \<not> found then io_ret None else
            io_bind (sqfs_inode_get (ent_inode entry)) (\<lambda>inode.
            lookup_loop fuel' inode (ent_inode entry) path' entry)))"

declare lookup_loop.simps [simp del]

definition sqfs_lookup_path_with_id ::
  "sqfs_inode \<Rightarrow> sqfs_inode_id \<Rightarrow> bytes \<Rightarrow> (sqfs, (sqfs_inode \<times> sqfs_inode_id) option) io" where
  "sqfs_lookup_path_with_id inode id0 path =
     lookup_loop (length path) inode id0 path (sqfs_dentry_init True)"

definition sqfs_lookup_path :: "sqfs_inode \<Rightarrow> bytes \<Rightarrow> (sqfs, sqfs_inode option) io" where
  "sqfs_lookup_path inode path =
     io_bind (sqfs_lookup_path_with_id inode 0 path) (\<lambda>r. io_ret (map_option fst r))"

section \<open>Directories as an image builder writes them\<close>

record disk_dirent =
  dd_offset :: u16
  dd_delta :: u16
  dd_type :: u16
  dd_name :: bytes

record disk_run =
  dr_start_block :: u32
  dr_inode_number :: u32
  dr_entries :: "disk_dirent list"

definition dirent_bytes :: "disk_dirent \<Rightarrow> bytes" where
  "dirent_bytes e = dir_entry_bytes \<lparr>de_offset = dd_offset e, de_inode_number = dd_delta e,
     de_type = dd_type e, de_size = word_of_nat (length (dd_name e) - 1)\<rparr> @ dd_name e"

definition run_bytes :: "disk_run \<Rightarrow> bytes" where
  "run_bytes r = dir_header_bytes \<lparr>dh_count = word_of_nat (length (dr_entries r) - 1),
       dh_start_block = dr_start_block r, dh_inode_number = dr_inode_number r\<rparr>
     @ concat (map dirent_bytes (dr_entries r))"

definition listing_bytes :: "disk_run list \<Rightarrow> bytes" where
  "listing_bytes rs = concat (map run_bytes rs)"

definition dirent_ok :: "disk_dirent \<Rightarrow> bool" where
  "dirent_ok e \<longleftrightarrow> 0 < length (dd_name e) \<and> length (dd_name e) \<le> SQUASHFS_NAME_LEN"

definition run_ok :: "disk_run \<Rightarrow> bool" where
  "run_ok r \<longleftrightarrow> 0 < length (dr_entries r) \<and> length (dr_entries r) < 2 ^ 32 \<and>
     (\<forall>e \<in> set (dr_entries r). dirent_ok e)"

text \<open>The entry the library reports, at position \<open>pos\<close> of the directory.\<close>

definition dir_entry_of ::
  "u32 \<Rightarrow> u32 \<Rightarrow> disk_dirent \<Rightarrow> off_t \<Rightarrow> off_t \<Rightarrow> sqfs_dir_entry" where
  "dir_entry_of blk ino e off nxt =
     \<lparr>ent_inode = push_bit 16 (ucast blk) + ucast (dd_offset e),
      ent_inode_number = ino + scast (dd_delta e), ent_type = uint (dd_type e),
      ent_name = Some (dd_name e), ent_name_size = length (dd_name e),
      ent_offset = off, ent_next_offset = nxt\<rparr>"

text \<open>The state of a traversal: the entries left in the current run, then the runs left.\<close>

definition pending_bytes :: "disk_dirent list \<Rightarrow> disk_run list \<Rightarrow> bytes" where
  "pending_bytes es rs = concat (map dirent_bytes es) @ listing_bytes rs"

definition dir_at ::
  "sqfs_image \<Rightarrow> sqfs_dir \<Rightarrow> u32 \<Rightarrow> u32 \<Rightarrow> disk_dirent list \<Rightarrow> disk_run list \<Rightarrow> bool" where
  "dir_at im dir blk ino es rs \<longleftrightarrow> cur_ok (dr_cur dir) \<and>
     (\<exists>c. md_holds im (dr_cur dir) (pending_bytes es rs) c) \<and>
     0 \<le> dr_offset dir \<and> dr_total dir = dr_offset dir + int (length (pending_bytes es rs)) \<and>
     dr_total dir < 2 ^ 62 \<and> length es < 2 ^ 32 \<and>
     dr_header dir = \<lparr>dh_count = word_of_nat (length es), dh_start_block = blk,
       dh_inode_number = ino\<rparr> \<and>
     (\<forall>e \<in> set es. dirent_ok e) \<and> (\<forall>r \<in> set rs. run_ok r)"

lemma length_dirent_bytes [simp]: "length (dirent_bytes e) = 8 + length (dd_name e)"
  by (simp add: dirent_bytes_def)

lemma word_of_nat_eq_0_u32: "n < 2 ^ 32 \<Longrightarrow> (word_of_nat n :: u32) = 0 \<longleftrightarrow> n = 0"
  by (auto simp: word_of_nat_eq_0_iff dest: dvd_imp_le)

lemma pending_empty_offset:
  assumes "dir_at im dir blk ino [] []"
  shows "dr_total dir \<le> dr_offset dir"
  using assms by (simp add: dir_at_def pending_bytes_def listing_bytes_def)

text \<open>Reading the next piece of the directory.\<close>

lemma yields_dir_md_read:
  assumes im: "img_ok (ev_img E)" and cur: "cur_ok (dr_cur dir)"
    and held: "md_holds (ev_img E) (dr_cur dir) (xs @ ys) c" and n: "length xs = n"
    and off: "0 \<le> dr_offset dir" "dr_offset dir + int n < 2 ^ 62"
  shows "\<exists>c'. yields E M (sqfs_dir_md_read True dir n)
      (Ok (xs, dir\<lparr>dr_cur := c', dr_offset := dr_offset dir + int n\<rparr>)) \<and>
    cur_ok c' \<and> md_holds (ev_img E) c' ys c"
proof -
  from held im cur obtain c' where c': "md_holds (ev_img E) (dr_cur dir) xs c'"
      "md_holds (ev_img E) c' ys c"
    using ms.holds_append [of "ev_img E" "dr_cur dir" xs ys c] by auto
  have "cur_ok c'" using ms.holds_ok [OF _ c'(1)] im cur by simp
  moreover have "off_add (dr_offset dir) n = dr_offset dir + int n" using off by simp
  ultimately show ?thesis
    using c' unfolding sqfs_dir_md_read_def
    by (intro exI [of _ c'] conjI yields_bind_Ok [OF yields_md_read [OF im cur c'(1) n]])
      (auto intro: yields_ret)
qed

lemma dir_read_entry_pending:
  assumes im: "img_ok (ev_img E)" and at: "dir_at (ev_img E) dir blk ino (e # es) rs"
    and buf: "ent_name entry \<noteq> None" "ent_offset entry = off"
  shows "\<exists>dir'. yields E M (dir_read_entry dir entry)
      (Ok (True, dir', dir_entry_of blk ino e off (dr_offset dir'))) \<and>
    dir_at (ev_img E) dir' blk ino es rs \<and>
    dr_offset dir' = dr_offset dir + 8 + int (length (dd_name e))"
proof -
  define sw where "sw = (word_of_nat (length (dd_name e) - 1) :: u16)"
  let ?de = "\<lparr>de_offset = dd_offset e, de_inode_number = dd_delta e,
     de_type = dd_type e, de_size = sw\<rparr>"
  let ?n = "length (dd_name e)"
  from at have cur: "cur_ok (dr_cur dir)" and e: "dirent_ok e"
    and off: "0 \<le> dr_offset dir" "dr_total dir < 2 ^ 62"
    and tot: "dr_total dir = dr_offset dir + int (length (pending_bytes (e # es) rs))"
    and hdr: "dr_header dir = \<lparr>dh_count = word_of_nat (Suc (length es)), dh_start_block = blk,
       dh_inode_number = ino\<rparr>"
    by (simp_all add: dir_at_def)
  have len: "length (pending_bytes (e # es) rs) = 8 + ?n + length (pending_bytes es rs)"
    by (simp add: pending_bytes_def)
  obtain c where c: "md_holds (ev_img E) (dr_cur dir)
      (dir_entry_bytes ?de @ dd_name e @ pending_bytes es rs) c"
    using at unfolding sw_def by (auto simp: dir_at_def pending_bytes_def dirent_bytes_def)
  have n: "0 < ?n" "?n \<le> 256" using e by (simp_all add: dirent_ok_def)
  then have "(?n - 1) mod 65536 = ?n - 1" by simp
  then have sz: "Suc (unat sw) = ?n" "?n \<le> 256"
    using n by (simp_all add: sw_def take_bit_eq_mod unsigned_of_nat)
  have "dr_offset dir + int 8 < 2 ^ 62" using tot len off by simp
  from yields_dir_md_read [OF im cur c _ off(1) this] obtain c1 where
    c1: "yields E M (sqfs_dir_md_read True dir 8)
        (Ok (dir_entry_bytes ?de, dir\<lparr>dr_cur := c1, dr_offset := dr_offset dir + int 8\<rparr>))"
      "cur_ok c1" "md_holds (ev_img E) c1 (dd_name e @ pending_bytes es rs) c"
    by auto
  let ?h = "\<lparr>dh_count = word_of_nat (Suc (length es)) - 1, dh_start_block = blk, dh_inode_number = ino\<rparr>"
  let ?d1 = "dir\<lparr>dr_cur := c1, dr_offset := dr_offset dir + int 8, dr_header := ?h\<rparr>"
  have "cur_ok (dr_cur ?d1)" "md_holds (ev_img E) (dr_cur ?d1) (dd_name e @ pending_bytes es rs) c"
      "0 \<le> dr_offset ?d1" "dr_offset ?d1 + int ?n < 2 ^ 62"
    using c1 tot len off by simp_all
  from yields_dir_md_read [OF im this(1,2) refl this(3,4)] obtain c2 where
    c2: "yields E M (sqfs_dir_md_read True ?d1 ?n)
        (Ok (dd_name e, ?d1\<lparr>dr_cur := c2, dr_offset := dr_offset ?d1 + int ?n\<rparr>))"
      "cur_ok c2" "md_holds (ev_img E) c2 (pending_bytes es rs) c"
    by auto
  let ?d2 = "?d1\<lparr>dr_cur := c2, dr_offset := dr_offset ?d1 + int ?n\<rparr>"
  have "yields E M (dir_read_entry dir entry)
      (Ok (True, ?d2, dir_entry_of blk ino e off (dr_offset ?d2)))"
    unfolding dir_read_entry_def
    apply (rule yields_bind_Ok [OF c1(1)])
    using sz hdr buf by (auto simp: Let_def dir_entry_of_def
        intro!: yields_bind_Ok [OF c2(1) [simplified]] yields_ret)
  moreover have "dir_at (ev_img E) ?d2 blk ino es rs"
    using at c2(2,3) tot len off by (auto simp: dir_at_def)
  ultimately show ?thesis by (intro exI [of _ ?d2]) simp
qed

lemma dir_header_loop_pending:
  assumes "dir_at im dir blk ino es rs" and "es \<noteq> [] \<or> rs = []"
  shows "dir_header_loop fuel dir = io_ret (es \<noteq> [], dir)"
proof -
  have "length es < 2 ^ 32" using assms(1) by (simp add: dir_at_def)
  then have "dh_count (dr_header dir) = 0 \<longleftrightarrow> es = []"
    using assms(1) word_of_nat_eq_0_u32 [of "length es"] by (simp add: dir_at_def)
  then show ?thesis
    using assms pending_empty_offset [of im dir blk ino] by (subst dir_header_loop.simps) auto
qed

lemma dir_header_loop_run:
  assumes im: "img_ok (ev_img E)" and at: "dir_at (ev_img E) dir blk ino [] (r # rs)"
  shows "\<exists>dir'. yields E M (dir_header_loop (Suc fuel) dir) (Ok (True, dir')) \<and>
    dir_at (ev_img E) dir' (dr_start_block r) (dr_inode_number r) (dr_entries r) rs \<and>
    dr_offset dir' = dr_offset dir + 12"
proof -
  let ?h = "\<lparr>dh_count = word_of_nat (length (dr_entries r) - 1),
       dh_start_block = dr_start_block r, dh_inode_number = dr_inode_number r\<rparr>"
  let ?p = "pending_bytes (dr_entries r) rs"
  from at have cur: "cur_ok (dr_cur dir)" and r: "run_ok r" and rs: "\<forall>r \<in> set rs. run_ok r"
    and off: "0 \<le> dr_offset dir" "dr_total dir < 2 ^ 62"
    and tot: "dr_total dir = dr_offset dir + int (length (pending_bytes [] (r # rs)))"
    and cnt: "dh_count (dr_header dir) = 0"
    by (simp_all add: dir_at_def)
  have bytes: "pending_bytes [] (r # rs) = dir_header_bytes ?h @ ?p"
    by (simp add: pending_bytes_def listing_bytes_def run_bytes_def)
  obtain c where c: "md_holds (ev_img E) (dr_cur dir) (dir_header_bytes ?h @ ?p) c"
    using at unfolding dir_at_def bytes by blast
  have "dr_offset dir + int 12 < 2 ^ 62" using tot off unfolding bytes by simp
  from yields_dir_md_read [OF im cur c _ off(1) this] obtain c1 where
    c1: "yields E M (sqfs_dir_md_read True dir 12)
        (Ok (dir_header_bytes ?h, dir\<lparr>dr_cur := c1, dr_offset := dr_offset dir + int 12\<rparr>))"
      "cur_ok c1" "md_holds (ev_img E) c1 ?p c"
    by auto
  have n: "0 < length (dr_entries r)" "length (dr_entries r) < 2 ^ 32" using r by (simp_all add: run_ok_def)
  let ?d = "dir\<lparr>dr_cur := c1, dr_offset := dr_offset dir + int 12,
      dr_header := ?h\<lparr>dh_count := dh_count ?h + 1\<rparr>\<rparr>"
  have cnt1: "word_of_nat (length (dr_entries r) - 1) + (1 :: u32) = word_of_nat (length (dr_entries r))"
    using n(1) by (metis One_nat_def Suc_diff_1 of_nat_Suc add.commute)
  have at': "dir_at (ev_img E) ?d (dr_start_block r) (dr_inode_number r) (dr_entries r) rs"
    using c1 r rs off tot n cnt1 unfolding bytes by (auto simp: dir_at_def run_ok_def)
  have ne: "dr_entries r \<noteq> []" using n(1) by auto
  have "yields E M (dir_header_loop (Suc fuel) dir) (Ok (True, ?d))"
  proof -
    have "dir_header_loop (Suc fuel) dir = io_bind (sqfs_dir_md_read True dir 12) (\<lambda>(bs, dir).
         let hdr = sqfs_swapin_dir_header bs in
         dir_header_loop fuel (dir\<lparr>dr_header := hdr\<lparr>dh_count := dh_count hdr + 1\<rparr>\<rparr>))"
      using cnt tot off unfolding bytes by (subst dir_header_loop.simps) simp
    moreover have "yields E M (dir_header_loop fuel ?d) (Ok (True, ?d))"
      using dir_header_loop_pending [OF at', of fuel] ne by (simp add: yields_ret)
    then have "yields E M (io_bind (sqfs_dir_md_read True dir 12) (\<lambda>(bs, dir).
         let hdr = sqfs_swapin_dir_header bs in
         dir_header_loop fuel (dir\<lparr>dr_header := hdr\<lparr>dh_count := dh_count hdr + 1\<rparr>\<rparr>)))
         (Ok (True, ?d))"
      by (intro yields_bind_Ok [OF c1(1)]) simp
    ultimately show ?thesis by (simp only:)
  qed
  with at' show ?thesis by (intro exI [of _ ?d]) simp
qed

text \<open>The three outcomes of \<^verbatim>\<open>sqfs_dir_next\<close>.\<close>

lemma sqfs_dir_next_end:
  assumes "dir_at (ev_img E) dir blk ino [] []"
  shows "yields E M (sqfs_dir_next dir entry) (Ok (False, dir, entry\<lparr>ent_offset := dr_offset dir\<rparr>))"
  using dir_header_loop_pending [OF assms] by (simp add: sqfs_dir_next_def yields_ret)

lemma sqfs_dir_next_pending:
  assumes im: "img_ok (ev_img E)" and at: "dir_at (ev_img E) dir blk ino (e # es) rs"
    and buf: "ent_name entry \<noteq> None"
  shows "\<exists>dir'. yields E M (sqfs_dir_next dir entry)
      (Ok (True, dir', dir_entry_of blk ino e (dr_offset dir) (dr_offset dir'))) \<and>
    dir_at (ev_img E) dir' blk ino es rs \<and>
    dr_offset dir' = dr_offset dir + 8 + int (length (dd_name e))"
  using dir_read_entry_pending [OF im at, of "entry\<lparr>ent_offset := dr_offset dir\<rparr>" "dr_offset dir" M] buf
    dir_header_loop_pending [OF at]
  by (simp add: sqfs_dir_next_def)

lemma sqfs_dir_next_run:
  assumes im: "img_ok (ev_img E)" and at: "dir_at (ev_img E) dir blk ino [] (r # rs)"
    and e: "dr_entries r = e # es" and buf: "ent_name entry \<noteq> None"
  shows "\<exists>dir'. yields E M (sqfs_dir_next dir entry)
      (Ok (True, dir', dir_entry_of (dr_start_block r) (dr_inode_number r) e (dr_offset dir)
         (dr_offset dir'))) \<and>
    dir_at (ev_img E) dir' (dr_start_block r) (dr_inode_number r) es rs \<and>
    dr_offset dir' = dr_offset dir + 20 + int (length (dd_name e))"
proof -
  from dir_header_loop_run [OF im at] obtain d1 where
    d1: "yields E M (dir_header_loop (Suc (nat (dr_total dir))) dir) (Ok (True, d1))"
      "dir_at (ev_img E) d1 (dr_start_block r) (dr_inode_number r) (e # es) rs"
      "dr_offset d1 = dr_offset dir + 12"
    using e by metis
  from dir_read_entry_pending [OF im d1(2), of "entry\<lparr>ent_offset := dr_offset dir\<rparr>" "dr_offset dir" M] buf
  obtain d2 where d2: "yields E M (dir_read_entry d1 (entry\<lparr>ent_offset := dr_offset dir\<rparr>))
      (Ok (True, d2, dir_entry_of (dr_start_block r) (dr_inode_number r) e (dr_offset dir) (dr_offset d2)))"
      "dir_at (ev_img E) d2 (dr_start_block r) (dr_inode_number r) es rs"
      "dr_offset d2 = dr_offset d1 + 8 + int (length (dd_name e))"
    by auto
  have "yields E M (sqfs_dir_next dir entry)
      (Ok (True, d2, dir_entry_of (dr_start_block r) (dr_inode_number r) e (dr_offset dir) (dr_offset d2)))"
    unfolding sqfs_dir_next_def Let_def by (rule yields_bind_Ok [OF d1(1)]) (use d2(1) in simp)
  with d2(2,3) d1(3) show ?thesis by (intro exI [of _ d2]) simp
qed

section \<open>Listing and looking up\<close>

text \<open>The entries of a directory, with the offsets the library reports: an entry starts where the
  previous one ended, so the first of a run starts at the header of the run.\<close>

function listing_of ::
  "off_t \<Rightarrow> u32 \<Rightarrow> u32 \<Rightarrow> disk_dirent list \<Rightarrow> disk_run list \<Rightarrow> sqfs_dir_entry list" where
  "listing_of off blk ino (e # es) rs =
     (let nxt = off + 8 + int (length (dd_name e)) in
      dir_entry_of blk ino e off nxt # listing_of nxt blk ino es rs)"
| "listing_of off blk ino [] [] = []"
| "listing_of off blk ino [] (r # rs) = (case dr_entries r of
     [] \<Rightarrow> listing_of off blk ino [] rs
   | e # es \<Rightarrow> let nxt = off + 20 + int (length (dd_name e)) in
      dir_entry_of (dr_start_block r) (dr_inode_number r) e off nxt
        # listing_of nxt (dr_start_block r) (dr_inode_number r) es rs)"
  by pat_completeness auto

termination
  by (relation "measure (\<lambda>(off, blk, ino, es, rs). length es + (\<Sum>r\<leftarrow>rs. Suc (length (dr_entries r))))")
    auto

text \<open>The loop over a directory that its readers run: call \<^verbatim>\<open>sqfs_dir_next\<close> until it
  returns false.\<close>

fun dir_read_all :: "nat \<Rightarrow> sqfs_dir \<Rightarrow> sqfs_dir_entry \<Rightarrow> (sqfs, sqfs_dir_entry list) io" where
  "dir_read_all 0 dir entry = io_fault Diverges"
| "dir_read_all (Suc fuel) dir entry =
     io_bind (sqfs_dir_next dir entry) (\<lambda>(more, dir, entry).
     if \<not> more then io_ret [] else
     io_bind (dir_read_all fuel dir entry) (\<lambda>es. io_ret (entry # es)))"

text \<open>Every step of a traversal takes the head of the listing.\<close>

lemma sqfs_dir_next_listing:
  assumes im: "img_ok (ev_img E)" and at: "dir_at (ev_img E) dir blk ino es rs"
    and buf: "ent_name entry \<noteq> None"
  shows "(listing_of (dr_offset dir) blk ino es rs = [] \<and>
      (\<exists>entry'. yields E M (sqfs_dir_next dir entry) (Ok (False, dir, entry')))) \<or>
    (\<exists>x xs dir' blk' ino' es' rs'. listing_of (dr_offset dir) blk ino es rs = x # xs \<and>
      yields E M (sqfs_dir_next dir entry) (Ok (True, dir', x)) \<and> ent_name x \<noteq> None \<and>
      dir_at (ev_img E) dir' blk' ino' es' rs' \<and> listing_of (dr_offset dir') blk' ino' es' rs' = xs)"
proof (cases es)
  case (Cons e es')
  with sqfs_dir_next_pending [OF im _ buf, of dir blk ino e es' rs M] at show ?thesis
    by (fastforce simp: Let_def dir_entry_of_def)
next
  case es: Nil
  show ?thesis
  proof (cases rs)
    case Nil
    then show ?thesis using sqfs_dir_next_end [of E dir blk ino M entry] at es by auto
  next
    case (Cons r rs')
    have "run_ok r" using at Cons by (simp add: dir_at_def)
    then obtain e es' where e: "dr_entries r = e # es'" by (cases "dr_entries r") (auto simp: run_ok_def)
    with sqfs_dir_next_run [OF im _ e buf, of dir blk ino rs' M] at es Cons show ?thesis
      by (fastforce simp: Let_def dir_entry_of_def)
  qed
qed

lemma dir_read_all_listing:
  assumes im: "img_ok (ev_img E)" and at: "dir_at (ev_img E) dir blk ino es rs"
    and buf: "ent_name entry \<noteq> None"
    and fuel: "length (listing_of (dr_offset dir) blk ino es rs) < fuel"
  shows "yields E M (dir_read_all fuel dir entry) (Ok (listing_of (dr_offset dir) blk ino es rs))"
  using at buf fuel
proof (induction fuel arbitrary: dir blk ino es rs entry)
  case (Suc fuel)
  from sqfs_dir_next_listing [OF im Suc.prems(1,2), of M] show ?case
  proof (elim disjE exE conjE)
    fix entry' assume "listing_of (dr_offset dir) blk ino es rs = []"
      and "yields E M (sqfs_dir_next dir entry) (Ok (False, dir, entry'))"
    then show ?thesis by (auto intro!: yields_bind_Ok yields_ret)
  next
    fix x xs dir' blk' ino' es' rs'
    assume x: "listing_of (dr_offset dir) blk ino es rs = x # xs"
      "yields E M (sqfs_dir_next dir entry) (Ok (True, dir', x))" "ent_name x \<noteq> None"
      "dir_at (ev_img E) dir' blk' ino' es' rs'" "listing_of (dr_offset dir') blk' ino' es' rs' = xs"
    then have "yields E M (dir_read_all fuel dir' x) (Ok xs)"
      using Suc.IH [OF x(4,3)] Suc.prems(3) by simp
    then have "yields E M (io_bind (dir_read_all fuel dir' x) (\<lambda>es. io_ret (x # es))) (Ok (x # xs))"
      by (rule yields_bind_Ok) (simp add: yields_ret)
    then show ?thesis
      unfolding x(1) dir_read_all.simps by (intro yields_bind_Ok [OF x(2)]) simp
  qed
qed simp

text \<open>A stream holds at most \<open>md_fuel\<close> bytes.\<close>

lemma md_read_spec_bound:
  assumes "img_ok im" and "cur_ok cur" and "md_read_spec im True cur n = Ok (bs, cur')" and "0 < n"
  shows "n + cur_offset cur \<le> nat (int (length (fs_fd im)) + 1 - cur_block cur) * 32769"
  using assms
proof (induction cur n arbitrary: bs rule: md_read_induct)
  case (read cur n)
  from read.prems md_read_spec_unfold [OF assms(1) read.hyps, of n True] obtain d ds rest where
    d: "md_block_spec im (cur_block cur) = Ok (d, ds)"
      "cur_offset cur + md_tk d cur n \<le> length d"
      "md_read_spec im True (md_move d ds cur n) (n - md_tk d cur n) = Ok (rest, cur')"
    by (auto simp: res_bind_eq_Ok not_less split: if_splits)
  have len: "length d \<le> 32768" by (rule md_block_spec_size [OF assms(1) d(1)])
  have pos: "pos_ok (cur_block cur)" using read.hyps by (simp add: cur_ok_def)
  note nx = md_block_next [OF assms(1) pos d(1)]
  let ?A = "nat (int (length (fs_fd im)) + 1 - cur_block cur)"
  show ?case
  proof (cases "md_tk d cur n < n")
    case True
    have mv: "md_move d ds cur n = \<lparr>cur_block = off_add (cur_block cur) ds, cur_offset = 0\<rparr>"
      by (rule md_move_more [OF assms(1) read.hyps d(1) True])
    have "n - md_tk d cur n \<le> nat (int (length (fs_fd im)) + 1 - off_add (cur_block cur) ds) * 32769"
      using read.IH [OF d(1) True md_move_ok [OF assms(1) read.hyps d(1)] d(3)] True
      by (simp add: mv)
    also have "\<dots> \<le> (?A - 1) * 32769" using nx by (intro mult_le_mono1) linarith
    finally have "n - md_tk d cur n + 32769 \<le> (?A - 1) * 32769 + 1 * 32769" by simp
    also have "\<dots> = (?A - 1 + 1) * 32769" by (simp only: add_mult_distrib)
    also have "?A - 1 + 1 = ?A" using nx by linarith
    finally show ?thesis using d(2) len md_tk_le [of d cur n] by linarith
  next
    case False
    then have "n + cur_offset cur \<le> 1 * 32769" using d(2) len by simp
    also have "\<dots> \<le> ?A * 32769" using nx by (intro mult_le_mono1) linarith
    finally show ?thesis .
  qed
qed

lemma md_holds_bound:
  assumes "img_ok im" and "cur_ok cur" and "md_holds im cur bs cur'"
  shows "length bs < md_fuel im"
proof (cases "bs = []")
  case False
  have "nat (int (length (fs_fd im)) + 1 - cur_block cur) \<le> Suc (length (fs_fd im))"
    using assms(2) by (auto simp: cur_ok_def pos_ok_def nat_le_iff)
  then have "nat (int (length (fs_fd im)) + 1 - cur_block cur) * 32769
      \<le> Suc (length (fs_fd im)) * 32769"
    by (rule mult_le_mono1)
  then show ?thesis
    using md_read_spec_bound [OF assms(1,2), of "length bs" bs cur'] assms(3) False
    by (simp add: ms.holds_def md_fuel_def)
qed (simp add: md_fuel_def)

lemma listing_of_length: "length (listing_of off blk ino es rs) \<le> length (pending_bytes es rs)"
proof (induction off blk ino es rs rule: listing_of.induct)
  case (1 off blk ino e es rs)
  then show ?case by (simp add: Let_def pending_bytes_def)
next
  case (3 off blk ino r rs)
  show ?case
  proof (cases "dr_entries r")
    case Nil
    then show ?thesis using 3(1) by (simp add: pending_bytes_def listing_bytes_def run_bytes_def)
  next
    case (Cons e es)
    then show ?thesis using 3(2) [OF Cons refl]
      by (simp add: Let_def pending_bytes_def listing_bytes_def run_bytes_def)
  qed
qed simp

text \<open>The order of names: as unsigned bytes, a prefix before its extensions.\<close>

fun name_less :: "bytes \<Rightarrow> bytes \<Rightarrow> bool" where
  "name_less [] [] \<longleftrightarrow> False"
| "name_less [] (y # ys) \<longleftrightarrow> True"
| "name_less (x # xs) [] \<longleftrightarrow> False"
| "name_less (x # xs) (y # ys) \<longleftrightarrow> x < y \<or> x = y \<and> name_less xs ys"

lemma name_less_irrefl [simp]: "\<not> name_less a a"
  by (induction a) auto

lemma name_less_Nil [simp]: "\<not> name_less a []"
  by (cases a) auto

lemma strncmp_name:
  assumes "0 \<notin> set a" and "0 \<notin> set n"
  shows "strncmp a n (length n) < 0 \<longleftrightarrow> name_less a n"
    and "strncmp a n (length n) = 0 \<longleftrightarrow> take (length n) a = n"
  using assms
proof (induction n arbitrary: a)
  case (Cons y ys)
  have pos: "0 < uint c" if "c \<noteq> 0" for c :: u8
    using that uint_ge_0 [of c] by (metis less_le uint_0_iff)
  {
    case 1
    then show ?case using Cons.IH(1) [of "tl a"] pos [of y]
      by (cases a) (auto simp: Let_def word_less_def)
  next
    case 2
    then show ?case using Cons.IH(2) [of "tl a"] pos [of y]
      by (cases a) (auto simp: Let_def uint_0_iff simp flip: word_uint_eq_iff)
  }
qed simp_all

text \<open>A listing whose names are C strings in order.\<close>

definition names_sorted :: "sqfs_dir_entry list \<Rightarrow> bool" where
  "names_sorted xs \<longleftrightarrow> sorted_wrt name_less (map (the \<circ> ent_name) xs) \<and>
     (\<forall>x \<in> set xs. \<exists>nm. ent_name x = Some nm \<and> ent_name_size x = length nm \<and> 0 \<notin> set nm)"

lemma dir_lookup_loop_sorted:
  assumes im: "img_ok (ev_img E)" and at: "dir_at (ev_img E) dir blk ino es rs"
    and buf: "ent_name entry \<noteq> None" and name: "0 \<notin> set name"
    and sorted: "names_sorted (listing_of (dr_offset dir) blk ino es rs)"
    and fuel: "length (listing_of (dr_offset dir) blk ino es rs) < fuel"
  shows "\<exists>found entry'. yields E M (dir_lookup_loop fuel name dir entry) (Ok (found, entry')) \<and>
    (found \<longleftrightarrow> (\<exists>x \<in> set (listing_of (dr_offset dir) blk ino es rs). ent_name x = Some name)) \<and>
    (found \<longrightarrow> entry' \<in> set (listing_of (dr_offset dir) blk ino es rs) \<and> ent_name entry' = Some name)"
  using at buf sorted fuel
proof (induction fuel arbitrary: dir blk ino es rs entry)
  case (Suc fuel)
  from sqfs_dir_next_listing [OF im Suc.prems(1,2), of M] show ?case
  proof (elim disjE exE conjE)
    fix entry' assume nil: "listing_of (dr_offset dir) blk ino es rs = []"
      and "yields E M (sqfs_dir_next dir entry) (Ok (False, dir, entry'))"
    then have "yields E M (dir_lookup_loop (Suc fuel) name dir entry) (Ok (False, entry'))"
      by (auto intro!: yields_bind_Ok yields_ret)
    with nil show ?thesis by auto
  next
    fix x xs dir' blk' ino' es' rs'
    assume x: "listing_of (dr_offset dir) blk ino es rs = x # xs"
      "yields E M (sqfs_dir_next dir entry) (Ok (True, dir', x))" "ent_name x \<noteq> None"
      "dir_at (ev_img E) dir' blk' ino' es' rs'" "listing_of (dr_offset dir') blk' ino' es' rs' = xs"
    from Suc.prems(3) x(1) obtain nm where nm: "ent_name x = Some nm" "ent_name_size x = length nm"
        "0 \<notin> set nm"
      and later: "\<forall>y \<in> set xs. name_less nm (the (ent_name y))" and sorted': "names_sorted xs"
      by (auto simp: names_sorted_def)
    have dn: "sqfs_dentry_name x = Some nm" using nm by (simp add: sqfs_dentry_name_def)
    note cmp = strncmp_name [OF nm(3) name]
    have run: "yields E M (dir_lookup_loop (Suc fuel) name dir entry) r" if "yields E M
        (let order = strncmp nm name (length name) in
         if 0 \<le> order then io_ret (order = 0 \<and> ent_name_size x = length name, x)
         else dir_lookup_loop fuel name dir' x) r" for r
      unfolding dir_lookup_loop.simps by (rule yields_bind_Ok [OF x(2)]) (use that dn in simp)
    show ?thesis
    proof (cases "name_less nm name")
      case True
      then have "ent_name x \<noteq> Some name" using nm(1) by auto
      moreover obtain found entry' where "yields E M (dir_lookup_loop fuel name dir' x) (Ok (found, entry'))"
          "found \<longleftrightarrow> (\<exists>x \<in> set xs. ent_name x = Some name)"
          "found \<longrightarrow> entry' \<in> set xs \<and> ent_name entry' = Some name"
        using Suc.IH [OF x(4,3)] sorted' Suc.prems(4) x(1,5) by auto
      ultimately show ?thesis
        using True cmp(1) run [of "Ok (found, entry')"] unfolding x(1) by (auto simp: Let_def)
    next
      case False
      have "strncmp nm name (length name) = 0 \<and> length nm = length name \<longleftrightarrow> nm = name"
        using cmp(2) by auto
      moreover have "yields E M (dir_lookup_loop (Suc fuel) name dir entry)
          (Ok (strncmp nm name (length name) = 0 \<and> length nm = length name, x))"
        using False cmp(1) nm(2) by (intro run) (simp add: Let_def yields_ret)
      moreover have "(\<exists>y \<in> set (x # xs). ent_name y = Some name) \<longleftrightarrow> nm = name"
        using later False nm(1) by auto
      ultimately show ?thesis unfolding x(1) using nm(1) by auto
    qed
  qed
qed simp

text \<open>A directory inode without an index whose listing the image holds.\<close>

definition dir_holds :: "sqfs_image \<Rightarrow> sqfs_inode \<Rightarrow> disk_run list \<Rightarrow> bool" where
  "dir_holds im inode rs \<longleftrightarrow> S_ISDIR (in_mode inode) \<and> (\<forall>r \<in> set rs. run_ok r) \<and>
     (case in_xtra inode of
        X_Dir blk off sz idx parent \<Rightarrow> idx = 0 \<and> unat sz = length (listing_bytes rs) + 3 \<and>
          (let cur = \<lparr>cur_block = off_of_u64 (ucast blk + sb_directory_table_start (fs_sb im)),
                      cur_offset = unat off\<rparr>
           in cur_ok cur \<and> (\<exists>c. md_holds im cur (listing_bytes rs) c))
      | _ \<Rightarrow> False)"

lemma sqfs_dir_open_holds:
  assumes "dir_holds (ev_img E) inode rs"
  shows "\<exists>dir. yields E M (sqfs_dir_open inode 0) (Ok dir) \<and> dir_at (ev_img E) dir 0 0 [] rs \<and>
    dr_offset dir = 0 \<and> sqfs_dir_ff_header inode dir func = io_ret dir"
proof -
  from assms obtain blk off sz parent where x: "in_xtra inode = X_Dir blk off sz 0 parent"
      "S_ISDIR (in_mode inode)" "unat sz = length (listing_bytes rs) + 3" "\<forall>r \<in> set rs. run_ok r"
    by (auto simp: dir_holds_def split: inode_xtra.splits)
  let ?cur = "\<lparr>cur_block = off_of_u64 (ucast blk + sb_directory_table_start (fs_sb (ev_img E))),
      cur_offset = unat off\<rparr>"
  let ?dir = "\<lparr>dr_cur = ?cur, dr_offset = 0, dr_total = (if sz \<le> 3 then 0 else uint (sz - 3)),
      dr_header = dir_header_zero\<rparr>"
  have cur: "cur_ok ?cur" "\<exists>c. md_holds (ev_img E) ?cur (listing_bytes rs) c"
    using assms x(1) by (auto simp: dir_holds_def Let_def)
  have "unat sz < 2 ^ 32" using unsigned_less [of sz] by simp
  have "3 \<le> sz" using x(3) by (simp add: word_le_nat_alt)
  then have "uint (sz - 3) = uint sz - 3" using uint_minus_simple_alt [of 3 sz] by simp
  moreover have "uint sz = int (unat sz)" by simp
  ultimately have "uint (sz - 3) = int (length (listing_bytes rs))" using x(3) by linarith
  moreover have "listing_bytes rs = []" if "sz \<le> 3"
    using that x(3) by (simp add: word_le_nat_alt)
  ultimately have total_eq: "dr_total ?dir = int (length (listing_bytes rs))" by simp
  have "yields E M (sqfs_dir_open inode 0) (Ok ?dir)"
  proof -
    have sb: "yields E M (io_gets fs_sb) (Ok (fs_sb (ev_img E)))"
      by (rule yields_image) (metis fs_img_fields(3))
    show ?thesis
      using x(1,2) yields_bind_Ok [OF sb yields_ret [OF refl]]
      by (simp only: sqfs_dir_open_def inode_xtra.case not_True_eq_False if_False Let_def
          not_False_eq_True simp_thms)
  qed
  moreover have "dir_at (ev_img E) ?dir 0 0 [] rs"
    using cur total_eq x(3,4) \<open>unat sz < 2 ^ 32\<close>
    by (simp add: dir_at_def pending_bytes_def dir_header_zero_def)
  moreover have "sqfs_dir_ff_header inode ?dir func = io_ret ?dir"
    using x(1) by (simp add: sqfs_dir_ff_header_def)
  ultimately show ?thesis by (intro exI [of _ ?dir]) simp
qed

lemma sqfs_dir_lookup_sorted:
  assumes im: "img_ok (ev_img E)" and dir: "dir_holds (ev_img E) inode rs"
    and name: "0 \<notin> set name" and buf: "ent_name entry \<noteq> None"
    and sorted: "names_sorted (listing_of 0 0 0 [] rs)"
  shows "\<exists>found entry'. yields E M (sqfs_dir_lookup inode name entry) (Ok (found, entry')) \<and>
    (found \<longleftrightarrow> (\<exists>x \<in> set (listing_of 0 0 0 [] rs). ent_name x = Some name)) \<and>
    (found \<longrightarrow> entry' \<in> set (listing_of 0 0 0 [] rs) \<and> ent_name entry' = Some name)"
proof -
  from sqfs_dir_open_holds [OF dir, of M "sqfs_dir_ff_name_f name"] obtain d where
    d: "yields E M (sqfs_dir_open inode 0) (Ok d)" "dir_at (ev_img E) d 0 0 [] rs" "dr_offset d = 0"
      "sqfs_dir_ff_header inode d (sqfs_dir_ff_name_f name) = io_ret d"
    by blast
  obtain c where "cur_ok (dr_cur d)" "md_holds (ev_img E) (dr_cur d) (pending_bytes [] rs) c"
    using d(2) by (auto simp: dir_at_def)
  from md_holds_bound [OF im this] have "length (listing_of 0 0 0 [] rs) < md_fuel (ev_img E)"
    using listing_of_length [of 0 0 0 "[]" rs] by linarith
  then obtain found entry' where
    r: "yields E M (dir_lookup_loop (md_fuel (ev_img E)) name d entry) (Ok (found, entry'))"
      "found \<longleftrightarrow> (\<exists>x \<in> set (listing_of 0 0 0 [] rs). ent_name x = Some name)"
      "found \<longrightarrow> entry' \<in> set (listing_of 0 0 0 [] rs) \<and> ent_name entry' = Some name"
    using dir_lookup_loop_sorted [OF im d(2) buf name, of "md_fuel (ev_img E)" M] sorted d(3) by auto
  have "yields E M (sqfs_dir_lookup inode name entry) (Ok (found, entry'))"
    unfolding sqfs_dir_lookup_def
    by (rule yields_bind_Ok [OF d(1)], unfold d(4),
        rule yields_bind_Ok [OF yields_ret [OF refl]],
        rule yields_bind_Ok [OF yields_image [where a = "md_fuel (ev_img E)"]]) (simp_all add: r(1))
  with r(2,3) show ?thesis by blast
qed

end
