(* ===== verification/Sqfs_File.thy ===== *)
theory Sqfs_File
  imports Sqfs_Dir
begin

text \<open>
  Regular files: \<^verbatim>\<open>file.c\<close>. The blocks of a file are listed in the metadata stream after its
  inode, one packed 32-bit header per block; the tail may live in a fragment block shared with
  other files. \<^verbatim>\<open>sqfs_read_range\<close> walks the list; for big files an index cached per inode
  (\<^verbatim>\<open>sqfs_blockidx_*\<close>) lets it skip metadata blocks.

  \<open>file_content\<close> is what a file holds: its blocks one after the other, a block of size zero read as
  zeros, then the tail. The main lemma says that reading any range returns exactly that slice.
\<close>

section \<open>Data\<close>

record sqfs_blocklist =
  bl_remain :: size_t
  bl_cur :: sqfs_md_cursor
  bl_started :: bool
  bl_pos :: u64
  bl_block :: u64
  bl_header :: u32
  bl_input_size :: u32

text \<open>The block-index cache, seen from the whole state.\<close>

definition ix_lookup :: "u64 \<Rightarrow> (sqfs, size_t) io" where
  "ix_lookup idx = io_on (\<lambda>s. (fs_blockidx s, fs_heap s))
     (\<lambda>(c, h) s. s\<lparr>fs_blockidx := c, fs_heap := h\<rparr>) (sqfs_cache_get idx)"

definition ix_reads :: "(sqfs_blockidx_ptr sqfs_cache_internal \<Rightarrow> 'a) \<Rightarrow> (sqfs, 'a) io" where
  "ix_reads f = (\<lambda>s. case fs_blockidx s of
     None \<Rightarrow> (Fault Null_Deref, s) | Some c \<Rightarrow> (Ok (f c), s))"

definition ix_changes ::
  "(sqfs_blockidx_ptr sqfs_cache_internal \<Rightarrow> sqfs_blockidx_ptr sqfs_cache_internal res)
     \<Rightarrow> (sqfs, unit) io" where
  "ix_changes f = (\<lambda>s. case fs_blockidx s of
     None \<Rightarrow> (Fault Null_Deref, s)
   | Some c \<Rightarrow> (case f c of Ok c' \<Rightarrow> (Ok (), s\<lparr>fs_blockidx := Some c'\<rparr>)
                | Err e \<Rightarrow> (Err e, s) | Fault u \<Rightarrow> (Fault u, s)))"

section \<open>Fragments\<close>

definition sqfs_frag_entry :: "u32 \<Rightarrow> (sqfs, squashfs_fragment_entry) io" where
  "sqfs_frag_entry idx =
     (if idx = SQUASHFS_INVALID_FRAG then io_raise SQFS_ERR else
      io_bind (io_gets fs_frag_table) (\<lambda>tab.
      io_bind (sqfs_table_get tab (unat idx)) (\<lambda>bs.
      io_ret (sqfs_swapin_fragment_entry bs))))"

text \<open>\<^verbatim>\<open>sqfs_frag_block\<close>: offset and size of the tail in the fragment block, and the block.\<close>

definition sqfs_frag_block :: "sqfs_inode \<Rightarrow> (sqfs, size_t \<times> size_t \<times> nat) io" where
  "sqfs_frag_block inode =
     (if \<not> S_ISREG (in_mode inode) then io_raise SQFS_ERR else
      case in_xtra inode of
        X_Reg _ file_size frag_idx frag_off \<Rightarrow>
          io_bind (sqfs_frag_entry frag_idx) (\<lambda>frag.
          io_try (sqfs_data_cache FRAG_CACHE (off_of_u64 (fe_start_block frag)) (fe_size frag)) (\<lambda>x.
          case x of Inl e \<Rightarrow> io_raise SQFS_ERR
          | Inr block \<Rightarrow>
            io_bind (io_gets fs_sb) (\<lambda>sb.
            if sb_block_size sb = 0 then io_fault Div_By_Zero
            else io_ret (unat frag_off, unat file_size mod unat (sb_block_size sb), block))))
      | _ \<Rightarrow> io_fault Wrong_Union_Arm)"

section \<open>Block lists\<close>

definition sqfs_blocklist_count :: "squashfs_super_block \<Rightarrow> sqfs_inode \<Rightarrow> size_t res" where
  "sqfs_blocklist_count sb inode = (case in_xtra inode of
     X_Reg _ file_size frag_idx _ \<Rightarrow>
       let block = unat (sb_block_size sb) in
       if frag_idx = SQUASHFS_INVALID_FRAG then sqfs_divceil (unat file_size) block
       else if block = 0 then Fault Div_By_Zero else Ok (unat file_size div block)
   | _ \<Rightarrow> Fault Wrong_Union_Arm)"

definition sqfs_blocklist_init :: "sqfs_inode \<Rightarrow> (sqfs, sqfs_blocklist) io" where
  "sqfs_blocklist_init inode =
     io_bind (io_gets fs_sb) (\<lambda>sb.
     io_bind (io_lift (sqfs_blocklist_count sb inode)) (\<lambda>cnt.
     case in_xtra inode of
       X_Reg start_block _ _ _ \<Rightarrow>
         io_ret \<lparr>bl_remain = cnt, bl_cur = in_next inode, bl_started = False, bl_pos = 0,
                 bl_block = start_block, bl_header = 0, bl_input_size = 0\<rparr>
     | _ \<Rightarrow> io_fault Wrong_Union_Arm))"

definition sqfs_blocklist_next :: "sqfs_blocklist \<Rightarrow> (sqfs, sqfs_blocklist) io" where
  "sqfs_blocklist_next bl =
     (if bl_remain bl = 0 then io_raise SQFS_ERR else
      io_bind (sqfs_md_read True (bl_cur bl) 4) (\<lambda>(bs, cur).
      io_bind (io_gets fs_sb) (\<lambda>sb.
      let header = sqfs_swapin32 bs in
      io_ret \<lparr>bl_remain = bl_remain bl - 1, bl_cur = cur, bl_started = True,
        bl_pos = (if bl_started bl then bl_pos bl + ucast (sb_block_size sb) else bl_pos bl),
        bl_block = bl_block bl + ucast (bl_input_size bl), bl_header = header,
        bl_input_size = snd (sqfs_data_header header)\<rparr>)))"

section \<open>The block index\<close>

definition sqfs_blockidx_indexable :: "squashfs_super_block \<Rightarrow> sqfs_inode \<Rightarrow> bool res" where
  "sqfs_blockidx_indexable sb inode = res_bind (sqfs_blocklist_count sb inode) (\<lambda>blocks.
     Ok (SQUASHFS_METADATA_SIZE \<le> size_mul blocks 4))"

definition sqfs_blockidx_init :: "(heap, sqfs_blockidx_ptr sqfs_cache_internal) io" where
  "sqfs_blockidx_init = sqfs_cache_init 8 SQUASHFS_META_SLOTS sqfs_blockidx_dispose None"

text \<open>Writing entry \<open>i\<close> of the array at \<open>a\<close>.\<close>

definition index_store :: "nat \<Rightarrow> nat \<Rightarrow> sqfs_blockidx_entry \<Rightarrow> (heap, unit) io" where
  "index_store a i e = io_bind (hp_index a) (\<lambda>xs.
     if i < length xs then hp_store a (Index_Cell (xs[i := Some e])) else io_fault Out_Of_Bounds)"

fun blockidx_loop :: "nat \<Rightarrow> nat \<Rightarrow> size_t \<Rightarrow> size_t \<Rightarrow> bool \<Rightarrow> sqfs_blocklist \<Rightarrow> (sqfs, unit) io" where
  "blockidx_loop fuel a cnt i first bl =
     (if bl_remain bl = 0 \<or> cnt \<le> i then io_ret ()
      else case fuel of 0 \<Rightarrow> io_fault Diverges
      | Suc fuel' \<Rightarrow>
         let new = cur_offset (bl_cur bl) < 4 \<and> \<not> first in
         io_bind (if \<not> new then io_ret () else
           io_bind (io_gets fs_sb) (\<lambda>sb.
           on_heap (index_store a i
             \<lparr>bx_data_block = bl_block bl + ucast (bl_input_size bl),
              bx_md_block = ucast (u64_of_off (cur_block (bl_cur bl)) - sb_inode_table_start sb)\<rparr>)))
         (\<lambda>_. io_bind (sqfs_blocklist_next bl) (\<lambda>bl'.
           blockidx_loop fuel' a cnt (if new then Suc i else i) False bl')))"

declare blockidx_loop.simps [simp del]

definition sqfs_blockidx_add :: "sqfs_inode \<Rightarrow> (sqfs, nat) io" where
  "sqfs_blockidx_add inode =
     io_bind (io_gets fs_sb) (\<lambda>sb.
     io_bind (io_lift (sqfs_blocklist_count sb inode)) (\<lambda>blocks.
     let md_size = size_mul blocks 4;
         cnt = size_sub (size_add (cur_offset (in_next inode)) md_size) 1 div SQUASHFS_METADATA_SIZE
     in io_bind (on_heap hp_malloc) (\<lambda>ok. if \<not> ok then io_raise SQFS_ERR else
     io_bind (on_heap (hp_new (Index_Cell (replicate cnt None)))) (\<lambda>a.
     io_bind (sqfs_blocklist_init inode) (\<lambda>bl.
     io_try (blockidx_loop (bl_remain bl) a cnt 0 True bl) (\<lambda>x. case x of
         Inl e \<Rightarrow> io_bind (on_heap (hp_free a)) (\<lambda>_. io_raise SQFS_ERR)
       | Inr _ \<Rightarrow> io_ret a))))))"

text \<open>\<^verbatim>\<open>sqfs_blockidx_blocklist\<close>: a block list that starts at the block of the position \<open>start\<close>
  or before it.\<close>

definition sqfs_blockidx_blocklist :: "sqfs_inode \<Rightarrow> off_t \<Rightarrow> (sqfs, sqfs_blocklist) io" where
  "sqfs_blockidx_blocklist inode start =
     io_bind (sqfs_blocklist_init inode) (\<lambda>bl.
     io_bind (io_gets fs_sb) (\<lambda>sb.
     if sb_block_size sb = 0 then io_fault Div_By_Zero else
     let bs = uint (sb_block_size sb);
         block = unat (u64_of_off (if start < 0 then - ((- start) div bs) else start div bs)) in
     if bl_remain bl < block then io_ret (bl\<lparr>bl_remain := 0\<rparr>) else
     let metablock = size_add (cur_offset (bl_cur bl)) (size_mul block 4) div SQUASHFS_METADATA_SIZE in
     if metablock = 0 then io_ret bl else
     io_bind (io_lift (sqfs_blockidx_indexable sb inode)) (\<lambda>indexable.
     if \<not> indexable then io_ret bl else
     let idx = ucast (bi_inode_number (in_base inode) + 1) in
     io_bind (ix_lookup idx) (\<lambda>bp.
     io_bind (ix_reads (sqfs_cache_entry_valid bp)) (\<lambda>valid.
     io_bind (if valid then
         io_bind (ix_reads (cache_payload bp)) (\<lambda>p. case p of
             None \<Rightarrow> io_fault Null_Deref | Some a \<Rightarrow> io_ret a)
       else
         io_try (sqfs_blockidx_add inode) (\<lambda>x. case x of
             Inl e \<Rightarrow> io_bind (ix_changes (Ok \<circ> sqfs_cache_put bp)) (\<lambda>_. io_raise e)
           | Inr a \<Rightarrow>
               io_bind (ix_changes (Ok \<circ> cache_set_payload bp (Some a))) (\<lambda>_.
               io_bind (ix_changes (sqfs_cache_entry_mark_valid bp)) (\<lambda>_. io_ret a))))
     (\<lambda>blockidx.
     let skipped = size_sub (metablock * SQUASHFS_METADATA_SIZE div 4) (cur_offset (bl_cur bl) div 4) in
     io_bind (on_heap (hp_index blockidx)) (\<lambda>xs.
     if length xs \<le> metablock - 1 then io_fault Out_Of_Bounds else
     case xs ! (metablock - 1) of None \<Rightarrow> io_fault Uninitialised
     | Some e \<Rightarrow>
         io_bind (ix_changes (Ok \<circ> sqfs_cache_put bp)) (\<lambda>_.
         io_ret (bl\<lparr>
           bl_cur := \<lparr>cur_block = off_of_u64 (ucast (bx_md_block e) + sb_inode_table_start sb),
             cur_offset = cur_offset (bl_cur bl) mod 4\<rparr>,
           bl_remain := size_sub (bl_remain bl) skipped,
           bl_pos := word_of_nat skipped * ucast (sb_block_size sb),
           bl_block := bx_data_block e\<rparr>)))))))))"

section \<open>Reading\<close>

text \<open>What is copied from one block (or hole) into the buffer: \<open>src\<close> is the block, if there is one,
  with the offset and size of the file's part of it.\<close>

definition read_take :: "size_t \<Rightarrow> size_t \<Rightarrow> off_t \<Rightarrow> size_t" where
  "read_take data_size read_off sz =
     (let tk = size_sub data_size read_off in
      if unat (u64_of_off sz) < tk then unat (u64_of_off sz) else tk)"

text \<open>The loop of \<^verbatim>\<open>sqfs_read_range\<close>: \<open>sz\<close> is \<^verbatim>\<open>*size\<close>, the result the bytes
  written to the buffer.\<close>

fun read_loop ::
  "nat \<Rightarrow> sqfs_inode \<Rightarrow> off_t \<Rightarrow> u64 \<Rightarrow> u32 \<Rightarrow> sqfs_blocklist \<Rightarrow> size_t \<Rightarrow> off_t
     \<Rightarrow> (sqfs, bytes) io" where
  "read_loop fuel inode start file_size frag_idx bl read_off sz =
     (if sz \<le> 0 then io_ret []
      else if bl_remain bl = 0 then
        if frag_idx = SQUASHFS_INVALID_FRAG then io_ret [] else
        io_bind (sqfs_frag_block inode) (\<lambda>(data_off, data_size, block).
        io_bind (on_heap (hp_block block)) (\<lambda>b.
        let tk = read_take data_size read_off sz in
        if length (blk_data b) < data_off + read_off + tk then io_fault Out_Of_Bounds else
        io_bind (on_heap (sqfs_block_dispose block)) (\<lambda>_.
        io_ret (take tk (drop (data_off + read_off) (blk_data b))))))
      else case fuel of 0 \<Rightarrow> io_fault Diverges
      | Suc fuel' \<Rightarrow>
        io_bind (sqfs_blocklist_next bl) (\<lambda>bl.
        io_bind (io_gets fs_sb) (\<lambda>sb.
        let block_size = unat (sb_block_size sb) in
        if size_add (unat (bl_pos bl)) block_size \<le> unat (u64_of_off start)
        then read_loop fuel' inode start file_size frag_idx bl read_off sz
        else if bl_input_size bl = 0 then
          let left = size_sub (unat file_size) (unat (bl_pos bl));
              data_size = (if block_size < left then block_size else left);
              tk = read_take data_size read_off sz
          in io_bind (read_loop fuel' inode start file_size frag_idx bl 0 (sz - int tk)) (\<lambda>rest.
             io_ret (replicate tk 0 @ rest))
        else
          io_bind (sqfs_data_cache DATA_CACHE (off_of_u64 (bl_block bl)) (bl_header bl)) (\<lambda>block.
          io_bind (on_heap (hp_block block)) (\<lambda>b.
          let tk = read_take (blk_size b) read_off sz in
          if length (blk_data b) < read_off + tk then io_fault Out_Of_Bounds else
          io_bind (on_heap (sqfs_block_dispose block)) (\<lambda>_.
          io_bind (read_loop fuel' inode start file_size frag_idx bl 0 (sz - int tk)) (\<lambda>rest.
          io_ret (take tk (drop read_off (blk_data b)) @ rest))))))))"

declare read_loop.simps [simp del]

definition sqfs_read_range :: "sqfs_inode \<Rightarrow> off_t \<Rightarrow> off_t \<Rightarrow> (sqfs, bytes) io" where
  "sqfs_read_range inode start sz =
     (if \<not> S_ISREG (in_mode inode) then io_raise SQFS_ERR else
      case in_xtra inode of
        X_Reg _ file_size frag_idx _ \<Rightarrow>
          if sz < 0 \<or> off_of_u64 file_size < start then io_raise SQFS_ERR else
          if start = off_of_u64 file_size then io_ret [] else
          io_bind (sqfs_blockidx_blocklist inode start) (\<lambda>bl.
          io_bind (io_gets fs_sb) (\<lambda>sb.
          io_bind (read_loop (bl_remain bl) inode start file_size frag_idx bl
            (unat (u64_of_off start) mod unat (sb_block_size sb)) sz) (\<lambda>got.
          if got = [] then io_raise SQFS_ERR else io_ret got)))
      | _ \<Rightarrow> io_fault Wrong_Union_Arm)"

section \<open>Calls that hold a block\<close>

text \<open>A call that starts while the program holds one reference to block \<open>a\<close> with contents \<open>d\<close>, and
  gives it back.\<close>

definition uses_block ::
  "fs_env \<Rightarrow> nat multiset \<Rightarrow> nat \<Rightarrow> bytes \<Rightarrow> (sqfs, 'a) io \<Rightarrow> 'a res \<Rightarrow> bool" where
  "uses_block E M a d m r \<longleftrightarrow> (\<forall>s. fs_clean E (add_mset a M) s \<longrightarrow> hp_view (fs_heap s) a = Some (Inl d) \<longrightarrow>
     (\<exists>r' s'. m s = (r', s') \<and> (r' = r \<or> ev_oom E \<and> r' = Err SQFS_ERR) \<and>
       (case r' of Ok x \<Rightarrow> fs_clean E M s' | Err e \<Rightarrow> fs_safe E M s' | Fault u \<Rightarrow> True)))"

lemma uses_block_read:
  assumes "\<And>b. blk_data b = d \<Longrightarrow> blk_size b = length d \<Longrightarrow> uses_block E M a d (f b) r"
  shows "uses_block E M a d (io_bind (on_heap (hp_block a)) f) r"
  unfolding uses_block_def
proof (intro allI impI)
  fix s assume inv: "fs_clean E (add_mset a M) s" and v: "hp_view (fs_heap s) a = Some (Inl d)"
  have "heap_owned (fs_heap s) (fs_refs s + add_mset a M)" using inv by (simp add: fs_inv_def)
  from heap_owned_block_size [OF this v] obtain b where
    b: "hp_block a (fs_heap s) = (Ok b, fs_heap s)" "blk_data b = d" "blk_size b = length d"
    by blast
  have "io_bind (on_heap (hp_block a)) f s = f b s" using b(1) by (simp add: io_simps)
  then show "\<exists>r' s'. io_bind (on_heap (hp_block a)) f s = (r', s') \<and>
      (r' = r \<or> ev_oom E \<and> r' = Err SQFS_ERR) \<and>
      (case r' of Ok x \<Rightarrow> fs_clean E M s' | Err e \<Rightarrow> fs_safe E M s' | Fault u \<Rightarrow> True)"
    using assms [OF b(2,3)] inv v unfolding uses_block_def by simp
qed

lemma uses_block_image:
  assumes "\<And>s. fs_img s = ev_img E \<Longrightarrow> g s = x" and "uses_block E M a d (f x) r"
  shows "uses_block E M a d (io_bind (io_gets g) f) r"
  using assms unfolding uses_block_def by (auto simp: io_simps fs_inv_def)

lemma uses_block_dispose:
  assumes "yields E M rest r"
  shows "uses_block E M a d (io_bind (on_heap (sqfs_block_dispose a)) (\<lambda>_. rest)) r"
  unfolding uses_block_def
proof (intro allI impI)
  fix s assume "fs_clean E (add_mset a M) s" "hp_view (fs_heap s) a = Some (Inl d)"
  from dispose_run [OF this] obtain s1 where
    s1: "on_heap (sqfs_block_dispose a) s = (Ok (), s1)" "fs_clean E M s1"
    by blast
  from assms s1(2) obtain r' s' where "rest s1 = (r', s')" "r' = r \<or> ev_oom E \<and> r' = Err SQFS_ERR"
      "case r' of Ok a \<Rightarrow> fs_clean E M s' | Err e \<Rightarrow> fs_safe E M s' | Fault u \<Rightarrow> True"
    by (rule implementsD)
  with s1(1) show "\<exists>r' s'. io_bind (on_heap (sqfs_block_dispose a)) (\<lambda>_. rest) s = (r', s') \<and>
      (r' = r \<or> ev_oom E \<and> r' = Err SQFS_ERR) \<and>
      (case r' of Ok x \<Rightarrow> fs_clean E M s' | Err e \<Rightarrow> fs_safe E M s' | Fault u \<Rightarrow> True)"
    by (auto simp: io_bind_run)
qed

lemma data_cache_use:
  assumes pos: "pos_ok pos" and w: "w \<noteq> MD_CACHE" and hdr: "ev_hdr E w (u64_of_off pos) = hdr"
    and d: "data_block_spec (ev_img E) pos hdr = Ok d"
    and body: "\<And>a. uses_block E M a d (body a) r"
  shows "yields E M (io_try (sqfs_data_cache w pos hdr) (\<lambda>x. case x of
      Inl e \<Rightarrow> io_raise SQFS_ERR | Inr a \<Rightarrow> body a)) r"
    and "yields E M (io_bind (sqfs_data_cache w pos hdr) body) r"
proof -
  have *: "\<exists>r' s'. io_try (sqfs_data_cache w pos hdr) (\<lambda>x. case x of
      Inl e \<Rightarrow> io_raise SQFS_ERR | Inr a \<Rightarrow> body a) s = (r', s') \<and>
      io_bind (sqfs_data_cache w pos hdr) body s = (r', s') \<and>
      (r' = r \<or> ev_oom E \<and> r' = Err SQFS_ERR) \<and>
      (case r' of Ok x \<Rightarrow> fs_clean E M s' | Err e \<Rightarrow> fs_safe E M s' | Fault u \<Rightarrow> True)"
    if inv: "fs_clean E M s" for s
  proof -
    from sqfs_data_cache_run [OF inv pos w hdr] obtain q s1 where
      q: "sqfs_data_cache w pos hdr s = (q, s1)" "case q of
        Ok a \<Rightarrow> (\<exists>d. data_block_spec (ev_img E) pos hdr = Ok d \<and>
          hp_view (fs_heap s1) a = Some (Inl d)) \<and> fs_clean E (add_mset a M) s1 \<and>
          hp_keeps M (fs_heap s) (fs_heap s1)
      | Err x \<Rightarrow> (data_block_spec (ev_img E) pos hdr = Err x \<or> ev_oom E \<and> x = SQFS_ERR) \<and>
          fs_safe E M s1 \<and> hp_keeps M (fs_heap s) (fs_heap s1)
      | Fault u \<Rightarrow> data_block_spec (ev_img E) pos hdr = Fault u"
      by blast
    show ?thesis
    proof (cases q)
      case (Ok a)
      then have "fs_clean E (add_mset a M) s1" "hp_view (fs_heap s1) a = Some (Inl d)" using q(2) d by auto
      with body [of a] obtain r' s' where "body a s1 = (r', s')" "r' = r \<or> ev_oom E \<and> r' = Err SQFS_ERR"
          "case r' of Ok x \<Rightarrow> fs_clean E M s' | Err e \<Rightarrow> fs_safe E M s' | Fault u \<Rightarrow> True"
        unfolding uses_block_def by blast
      then show ?thesis using q(1) Ok by (simp add: io_bind_run io_try_run)
    qed (use q d in \<open>auto simp: io_simps\<close>)
  qed
  show "yields E M (io_try (sqfs_data_cache w pos hdr) (\<lambda>x. case x of
      Inl e \<Rightarrow> io_raise SQFS_ERR | Inr a \<Rightarrow> body a)) r"
    by (rule implementsI) (use * in blast)
  show "yields E M (io_bind (sqfs_data_cache w pos hdr) body) r"
    by (rule implementsI) (use * in blast)
qed

section \<open>Files as an image builder writes them\<close>

text \<open>The stored size of the block with packed header \<open>h\<close>, and the place of block \<open>i\<close>.\<close>

definition hdr_size :: "u32 \<Rightarrow> u32" where
  "hdr_size h = snd (sqfs_data_header h)"

fun block_addr :: "u64 \<Rightarrow> u32 list \<Rightarrow> nat \<Rightarrow> u64" where
  "block_addr a hs 0 = a"
| "block_addr a hs (Suc i) = block_addr a hs i + ucast (hdr_size (hs ! i))"

definition block_holds :: "fs_env \<Rightarrow> nat \<Rightarrow> nat \<Rightarrow> nat \<Rightarrow> u64 \<Rightarrow> u32 \<Rightarrow> bytes \<Rightarrow> bool" where
  "block_holds E bs fsz i addr h d \<longleftrightarrow> length d = min bs (fsz - i * bs) \<and>
     (if hdr_size h = 0 then d = replicate (length d) 0
      else pos_ok (off_of_u64 addr) \<and> ev_hdr E DATA_CACHE (u64_of_off (off_of_u64 addr)) = h \<and>
        data_block_spec (ev_img E) (off_of_u64 addr) h = Ok d)"

definition frag_holds :: "fs_env \<Rightarrow> u32 \<Rightarrow> u32 \<Rightarrow> bytes \<Rightarrow> bool" where
  "frag_holds E fidx foff tail \<longleftrightarrow> (\<exists>tds frag d. table_holds (ev_img E) (fs_frag_table (ev_img E)) tds \<and>
     tb_each (fs_frag_table (ev_img E)) = 16 \<and> unat fidx < tb_count (fs_frag_table (ev_img E)) \<and>
     table_array (fs_frag_table (ev_img E)) tds (unat fidx) = fragment_entry_bytes frag \<and>
     pos_ok (off_of_u64 (fe_start_block frag)) \<and>
     ev_hdr E FRAG_CACHE (u64_of_off (off_of_u64 (fe_start_block frag))) = fe_size frag \<and>
     data_block_spec (ev_img E) (off_of_u64 (fe_start_block frag)) (fe_size frag) = Ok d \<and>
     unat foff + length tail \<le> length d \<and> take (length tail) (drop (unat foff) d) = tail)"

definition file_holds :: "fs_env \<Rightarrow> sqfs_inode \<Rightarrow> u32 list \<Rightarrow> bytes list \<Rightarrow> bytes \<Rightarrow> bool" where
  "file_holds E inode hs ds tail \<longleftrightarrow> S_ISREG (in_mode inode) \<and> cur_ok (in_next inode) \<and>
     (\<exists>c. md_holds (ev_img E) (in_next inode) (concat (map (le_bytes 4) hs)) c) \<and>
     (case in_xtra inode of
        X_Reg start fsz fidx foff \<Rightarrow>
          let bs = unat (sb_block_size (fs_sb (ev_img E))) in
          0 < bs \<and> unat fsz < 2 ^ 62 \<and> length ds = length hs \<and>
          sqfs_blocklist_count (fs_sb (ev_img E)) inode = Ok (length hs) \<and>
          (\<forall>i < length hs. block_holds E bs (unat fsz) i (block_addr start hs i) (hs ! i) (ds ! i)) \<and>
          (if fidx = SQUASHFS_INVALID_FRAG then tail = []
           else length tail = unat fsz mod bs \<and> frag_holds E fidx foff tail)
      | _ \<Rightarrow> False)"

definition file_content :: "bytes list \<Rightarrow> bytes \<Rightarrow> bytes" where
  "file_content ds tail = concat ds @ tail"

lemma concat_take_length:
  assumes "\<forall>j < length ds. length (ds ! j) = min bs (fsz - j * bs)"
  shows "i \<le> length ds \<Longrightarrow> length (concat (take i ds)) = min (i * bs) fsz"
proof (induction i)
  case (Suc i)
  then have "length (concat (take (Suc i) ds)) = min (i * bs) fsz + min bs (fsz - i * bs)"
    using assms by (simp add: take_Suc_conv_app_nth)
  also have "\<dots> = min (Suc i * bs) fsz" unfolding mult_Suc by linarith
  finally show ?case .
qed simp

lemma blocklist_count_cases:
  assumes "sqfs_blocklist_count sb inode = Ok n" and "in_xtra inode = X_Reg st fsz fidx foff"
    and "bs = unat (sb_block_size sb)" and "unat fsz < 2 ^ 62"
  shows "0 < bs" and "n * bs \<le> unat fsz \<or> fidx = SQUASHFS_INVALID_FRAG \<and> unat fsz < n * bs"
    and "unat fsz < n * bs + bs" and "i < n \<Longrightarrow> i * bs < unat fsz"
    and "Suc i < n \<Longrightarrow> Suc i * bs \<le> unat fsz"
    and "fidx = SQUASHFS_INVALID_FRAG \<Longrightarrow> unat fsz \<le> n * bs"
    and "fidx \<noteq> SQUASHFS_INVALID_FRAG \<Longrightarrow> n = unat fsz div bs"
proof -
  let ?q = "unat fsz div bs" and ?r = "unat fsz mod bs"
  show pos: "0 < bs" using assms(1-3)
    by (auto simp: sqfs_blocklist_count_def sqfs_divceil_def Let_def split: if_splits)
  have "?q \<le> unat fsz" by simp
  moreover have "(2 :: nat) ^ 62 + 1 < 2 ^ 64" by simp
  ultimately have "?q + 1 < 2 ^ 64" using assms(4) by linarith
  then have n: "n = (if fidx = SQUASHFS_INVALID_FRAG \<and> ?r \<noteq> 0 then ?q + 1 else ?q)"
    using assms(1-3) pos
    by (auto simp: sqfs_blocklist_count_def sqfs_divceil_def Let_def split: if_splits)
  have dm: "unat fsz = ?q * bs + ?r" and r: "?r < bs" using pos by simp_all
  have cover: "?q * bs \<le> unat fsz" "unat fsz < ?q * bs + bs" "?r \<noteq> 0 \<Longrightarrow> unat fsz < (?q + 1) * bs"
    using dm r unfolding add_mult_distrib by linarith+
  show "n * bs \<le> unat fsz \<or> fidx = SQUASHFS_INVALID_FRAG \<and> unat fsz < n * bs"
    using n cover by (cases "fidx = SQUASHFS_INVALID_FRAG \<and> ?r \<noteq> 0") simp_all
  show "unat fsz < n * bs + bs"
    using n cover by (cases "fidx = SQUASHFS_INVALID_FRAG \<and> ?r \<noteq> 0") simp_all
  show "i * bs < unat fsz" if "i < n"
  proof -
    have "i * bs \<le> ?q * bs" using that n by (intro mult_le_mono1) (auto split: if_splits)
    moreover have "i * bs < ?q * bs" if "i < ?q" using that pos by simp
    moreover have "i = ?q \<and> 0 < ?r \<or> i < ?q" using that n by (auto split: if_splits)
    ultimately show ?thesis using dm by (elim disjE conjE) linarith+
  qed
  show "Suc i * bs \<le> unat fsz" if "Suc i < n"
  proof -
    have "Suc i * bs \<le> ?q * bs" using that n by (intro mult_le_mono1) (auto split: if_splits)
    then show ?thesis using dm by linarith
  qed
  show "unat fsz \<le> n * bs" if "fidx = SQUASHFS_INVALID_FRAG"
  proof (cases "?r = 0")
    case True with n that have "n = ?q" by simp
    moreover have "unat fsz \<le> ?q * bs" using dm True by linarith
    ultimately show ?thesis by simp
  next
    case False with n that have "n = ?q + 1" by simp
    with cover(3) [OF False] show ?thesis by simp
  qed
  show "fidx \<noteq> SQUASHFS_INVALID_FRAG \<Longrightarrow> n = ?q" using n by simp
qed

section \<open>Walking the block list\<close>

definition bl_at ::
  "sqfs_image \<Rightarrow> nat \<Rightarrow> u64 \<Rightarrow> u32 list \<Rightarrow> nat \<Rightarrow> sqfs_blocklist \<Rightarrow> bool" where
  "bl_at im bs start hs i bl \<longleftrightarrow> i \<le> length hs \<and> bl_remain bl = length hs - i \<and> cur_ok (bl_cur bl) \<and>
     (\<exists>c. md_holds im (bl_cur bl) (concat (map (le_bytes 4) (drop i hs))) c) \<and>
     bl_block bl + ucast (bl_input_size bl) = block_addr start hs i \<and>
     (if bl_started bl then bl_pos bl + word_of_nat bs else bl_pos bl) = word_of_nat (i * bs)"

lemma implements_bind_Ok:
  assumes "implements oom A B m (Ok a)" and "implements oom A B (f a) r"
  shows "implements oom A B (io_bind m f) r"
  using implements_bind [OF assms(1), of f "\<lambda>_. r"] assms(2) by simp

lemma sqfs_blocklist_next_frame:
  assumes fr: "stable M P" and im: "img_ok (ev_img E)" and at: "bl_at (ev_img E) bs start hs i bl" and i: "i < length hs"
    and bs: "bs = unat (sb_block_size (fs_sb (ev_img E)))"
  shows "\<exists>bl'. implements (ev_oom E) (framed (fs_clean E M) P) (framed (fs_safe E M) P) (sqfs_blocklist_next bl) (Ok bl') \<and>
    md_holds (ev_img E) (bl_cur bl) (le_bytes 4 (hs ! i)) (bl_cur bl') \<and> bl_at (ev_img E) bs start hs (Suc i) bl' \<and> bl_block bl' = block_addr start hs i \<and>
    bl_header bl' = hs ! i \<and> bl_input_size bl' = hdr_size (hs ! i) \<and> bl_pos bl' = word_of_nat (i * bs) \<and> bl_started bl'"
proof -
  have drop: "drop i hs = hs ! i # drop (Suc i) hs" using i by (simp add: Cons_nth_drop_Suc)
  from at have cur: "cur_ok (bl_cur bl)" and rem: "bl_remain bl = length hs - i"
    by (simp_all add: bl_at_def)
  from at obtain c where "md_holds (ev_img E) (bl_cur bl)
      (le_bytes 4 (hs ! i) @ concat (map (le_bytes 4) (drop (Suc i) hs))) c"
    unfolding bl_at_def drop by auto
  then obtain c1 where c1: "md_holds (ev_img E) (bl_cur bl) (le_bytes 4 (hs ! i)) c1"
      "md_holds (ev_img E) c1 (concat (map (le_bytes 4) (drop (Suc i) hs))) c"
    using ms.holds_append [of "ev_img E" "bl_cur bl"] im cur by blast
  have c1ok: "cur_ok c1" using ms.holds_ok [OF _ c1(1)] im cur by simp
  let ?sb = "fs_sb (ev_img E)"
  let ?bl = "\<lparr>bl_remain = bl_remain bl - 1, bl_cur = c1, bl_started = True,
        bl_pos = (if bl_started bl then bl_pos bl + ucast (sb_block_size ?sb) else bl_pos bl),
        bl_block = bl_block bl + ucast (bl_input_size bl), bl_header = hs ! i,
        bl_input_size = snd (sqfs_data_header (hs ! i))\<rparr>"
  have sb: "implements (ev_oom E) (framed (fs_clean E M) P) (framed (fs_safe E M) P) (io_gets fs_sb) (Ok ?sb)"
    by (rule implements_gets) (metis framed_def fs_inv_def fs_img_fields(3))
  have rd: "implements (ev_oom E) (framed (fs_clean E M) P) (framed (fs_safe E M) P)
      (sqfs_md_read True (bl_cur bl) 4) (Ok (le_bytes 4 (hs ! i), c1))"
    using sqfs_md_read_frame [OF fr im cur, of True 4] c1(1) by (simp add: ms.holds_def)
  have y: "implements (ev_oom E) (framed (fs_clean E M) P) (framed (fs_safe E M) P) (sqfs_blocklist_next bl) (Ok ?bl)"
    unfolding sqfs_blocklist_next_def using rem i
    by (auto simp: Let_def intro!: implements_bind_Ok [OF rd] implements_bind_Ok [OF sb] implements_ret)
  have ub: "ucast (sb_block_size ?sb) = (word_of_nat bs :: u64)"
    using bs by simp
  have addr: "bl_block bl + ucast (bl_input_size bl) = block_addr start hs i"
    and pos: "(if bl_started bl then bl_pos bl + word_of_nat bs else bl_pos bl) = word_of_nat (i * bs)"
    using at by (simp_all add: bl_at_def)
  have "bl_pos ?bl = word_of_nat (i * bs)"
    unfolding pos [symmetric] ub [symmetric] by simp
  moreover have "bl_at (ev_img E) bs start hs (Suc i) ?bl"
    using i rem c1ok c1(2) addr calculation
    by (auto simp: bl_at_def hdr_size_def)
  ultimately show ?thesis using y addr c1(1) by (intro exI [of _ ?bl]) (simp add: hdr_size_def)
qed

lemma sqfs_blocklist_next_at:
  assumes "img_ok (ev_img E)" and "bl_at (ev_img E) bs start hs i bl" and "i < length hs"
    and "bs = unat (sb_block_size (fs_sb (ev_img E)))"
  shows "\<exists>bl'. yields E M (sqfs_blocklist_next bl) (Ok bl') \<and>
    bl_at (ev_img E) bs start hs (Suc i) bl' \<and> bl_block bl' = block_addr start hs i \<and>
    bl_header bl' = hs ! i \<and> bl_input_size bl' = hdr_size (hs ! i) \<and> bl_pos bl' = word_of_nat (i * bs)"
  using sqfs_blocklist_next_frame [OF stable_True assms, of M] by auto

section \<open>Reading a range\<close>

lemma u64_of_off_nat: "0 \<le> x \<Longrightarrow> x < 2 ^ 63 \<Longrightarrow> unat (u64_of_off x) = nat x"
  by (simp add: u64_of_off_def unat_eq_nat_uint uint_word_of_int)

lemma read_take_min:
  assumes "ro \<le> len" and "len < 2 ^ 64" and "0 < sz" and "sz < 2 ^ 63"
  shows "read_take len ro sz = min (nat sz) (len - ro)"
  using assms by (simp add: read_take_def Let_def u64_of_off_nat min_def)

lemma io_bind_try_raise:
  "io_bind (io_try m (case_sum (\<lambda>_. io_raise e) k)) g =
     io_try m (case_sum (\<lambda>_. io_raise e) (\<lambda>a. io_bind (k a) g))"
  by (rule ext) (auto simp: io_simps split: prod.splits res.splits)

text \<open>A caller that looks at the tail of a file inside its fragment block.\<close>

lemma sqfs_frag_block_use:
  assumes reg: "S_ISREG (in_mode inode)" and x: "in_xtra inode = X_Reg st fsz fidx foff"
    and fidx: "fidx \<noteq> SQUASHFS_INVALID_FRAG" and fr: "frag_holds E fidx foff tail"
    and bs: "bs = unat (sb_block_size (fs_sb (ev_img E)))" "0 < bs" and tail: "length tail = unat fsz mod bs"
    and body: "\<And>a d. unat foff + length tail \<le> length d \<Longrightarrow>
      take (length tail) (drop (unat foff) d) = tail \<Longrightarrow> uses_block E M a d (body (unat foff, length tail, a)) r"
  shows "yields E M (io_bind (sqfs_frag_block inode) body) r"
proof -
  from fr obtain tds frag d where tab: "table_holds (ev_img E) (fs_frag_table (ev_img E)) tds"
      "tb_each (fs_frag_table (ev_img E)) = 16" "unat fidx < tb_count (fs_frag_table (ev_img E))"
      "table_array (fs_frag_table (ev_img E)) tds (unat fidx) = fragment_entry_bytes frag"
    and d: "pos_ok (off_of_u64 (fe_start_block frag))"
      "ev_hdr E FRAG_CACHE (u64_of_off (off_of_u64 (fe_start_block frag))) = fe_size frag"
      "data_block_spec (ev_img E) (off_of_u64 (fe_start_block frag)) (fe_size frag) = Ok d"
      "unat foff + length tail \<le> length d" "take (length tail) (drop (unat foff) d) = tail"
    unfolding frag_holds_def by blast
  have "yields E M (io_gets fs_frag_table) (Ok (fs_frag_table (ev_img E)))"
    by (rule yields_image) (metis fs_img_fields(6))
  moreover have "yields E M (sqfs_table_get (fs_frag_table (ev_img E)) (unat fidx)) (Ok (fragment_entry_bytes frag))"
    using sqfs_table_get_array [OF tab(1,3), of M] tab(2,4) by simp
  ultimately have fe: "yields E M (sqfs_frag_entry fidx) (Ok frag)"
    unfolding sqfs_frag_entry_def using fidx
    by (simp, intro yields_bind_Ok) (auto intro: yields_ret simp: swapin_fragment_entry_bytes)
  have sb: "sb_block_size (fs_sb (ev_img E)) \<noteq> 0" using bs by auto
  have "uses_block E M a d (io_bind (io_bind (io_gets fs_sb) (\<lambda>sb.
      if sb_block_size sb = 0 then io_fault Div_By_Zero
      else io_ret (unat foff, unat fsz mod unat (sb_block_size sb), a))) body) r" for a
    unfolding io_bind_assoc
    by (rule uses_block_image [where x = "fs_sb (ev_img E)"])
       (use body [OF d(4,5)] sb bs tail in \<open>auto simp: fs_img_fields(3) [symmetric] simp del: fs_img_fields\<close>)
  then show ?thesis
    unfolding sqfs_frag_block_def using reg x
    by (simp add: io_bind_assoc [of "sqfs_frag_entry fidx"] io_bind_try_raise)
       (rule yields_bind_Ok [OF fe], rule data_cache_use(1) [OF d(1) _ d(2,3)], simp_all)
qed

text \<open>The last step: all blocks are done and the tail, if there is one, is in a fragment.\<close>

lemma read_loop_tail:
  assumes h: "file_holds E inode hs ds tail" and x: "in_xtra inode = X_Reg st fsz fidx foff"
    and rem: "bl_remain bl = 0" and ro: "ro \<le> length tail" and sz: "sz < 2 ^ 63"
  shows "yields E M (read_loop fuel inode start fsz fidx bl ro sz) (Ok (take (nat sz) (drop ro tail)))"
proof (cases "0 < sz \<and> fidx \<noteq> SQUASHFS_INVALID_FRAG")
  case False
  then have "sz \<le> 0 \<or> tail = []" using h x by (auto simp: file_holds_def Let_def)
  then show ?thesis using False rem by (auto simp: read_loop.simps [of fuel] intro!: yields_ret)
next
  case True
  let ?bs = "unat (sb_block_size (fs_sb (ev_img E)))"
  have f: "S_ISREG (in_mode inode)" "0 < ?bs" "length tail = unat fsz mod ?bs" "frag_holds E fidx foff tail"
    "unat fsz < 2 ^ 62"
    using h x True by (auto simp: file_holds_def Let_def)
  have len: "length tail < 2 ^ 64" using f(3,5) by (simp add: order.strict_trans1 [OF mod_less_eq_dividend])
  let ?tk = "read_take (length tail) ro sz"
  have tk: "?tk = min (nat sz) (length tail - ro)" using read_take_min [OF ro len] True sz by simp
  have *: "uses_block E M a d (io_bind (on_heap (hp_block a)) (\<lambda>b.
      if length (blk_data b) < unat foff + ro + ?tk then io_fault Out_Of_Bounds else
      io_bind (on_heap (sqfs_block_dispose a)) (\<lambda>_.
      io_ret (take ?tk (drop (unat foff + ro) (blk_data b)))))) (Ok (take (nat sz) (drop ro tail)))"
    if d: "unat foff + length tail \<le> length d" "take (length tail) (drop (unat foff) d) = tail" for a d
  proof (rule uses_block_read)
    fix b assume b: "blk_data b = d" "blk_size b = length d"
    have "take ?tk (drop (unat foff + ro) d) = take ?tk (drop ro (take (length tail) (drop (unat foff) d)))"
      using tk by (simp add: drop_take min_def ac_simps)
    also have "\<dots> = take (nat sz) (drop ro tail)" unfolding d(2) tk by (simp add: min_def)
    finally have "take ?tk (drop (unat foff + ro) d) = take (nat sz) (drop ro tail)" .
    moreover have "unat foff + ro + ?tk \<le> length d" using d(1) ro tk by simp
    ultimately show "uses_block E M a d (if length (blk_data b) < unat foff + ro + ?tk then io_fault Out_Of_Bounds
        else io_bind (on_heap (sqfs_block_dispose a)) (\<lambda>_.
          io_ret (take ?tk (drop (unat foff + ro) (blk_data b))))) (Ok (take (nat sz) (drop ro tail)))"
      using b(1) by (simp add: uses_block_dispose yields_ret)
  qed
  show ?thesis using True rem
    by (simp add: read_loop.simps [of fuel] Let_def)
       (rule sqfs_frag_block_use [OF f(1) x _ f(4) refl f(2,3)], use * in simp_all)
qed

text \<open>One iteration on block \<open>i\<close>: it delivers the bytes of the block from \<open>ro\<close> on, at most \<open>sz\<close>.\<close>

lemma read_loop_block:
  assumes im: "img_ok (ev_img E)" and h: "file_holds E inode hs ds tail"
    and x: "in_xtra inode = X_Reg st fsz fidx foff" and bs: "bs = unat (sb_block_size (fs_sb (ev_img E)))"
    and at: "bl_at (ev_img E) bs st hs i bl" and i: "i < length hs" and sz: "0 < sz" "sz < 2 ^ 63"
    and start: "0 \<le> start" "start < 2 ^ 63" "nat start < Suc i * bs" and ro: "ro \<le> length (ds ! i)"
    and rest: "\<And>bl'. bl_at (ev_img E) bs st hs (Suc i) bl' \<Longrightarrow>
      yields E M (read_loop fuel inode start fsz fidx bl' 0 (sz - int (min (nat sz) (length (ds ! i) - ro)))) (Ok out)"
  shows "yields E M (read_loop (Suc fuel) inode start fsz fidx bl ro sz)
    (Ok (take (nat sz) (drop ro (ds ! i)) @ out))"
proof -
  from sqfs_blocklist_next_at [OF im at i bs, of M] obtain bl' where
    nx: "yields E M (sqfs_blocklist_next bl) (Ok bl')" and at': "bl_at (ev_img E) bs st hs (Suc i) bl'"
    and bl': "bl_block bl' = block_addr st hs i" "bl_header bl' = hs ! i"
      "bl_input_size bl' = hdr_size (hs ! i)" "bl_pos bl' = word_of_nat (i * bs)"
    by blast
  have f: "0 < bs" "unat fsz < 2 ^ 62" "sqfs_blocklist_count (fs_sb (ev_img E)) inode = Ok (length hs)"
    "block_holds E bs (unat fsz) i (block_addr st hs i) (hs ! i) (ds ! i)"
    using h x i bs by (auto simp: file_holds_def Let_def)
  have ib: "i * bs < unat fsz" by (rule blocklist_count_cases(4) [OF f(3) x bs f(2) i])
  have bs32: "bs < 2 ^ 32" using bs unsigned_less [of "sb_block_size (fs_sb (ev_img E))"] by simp
  have pos: "unat (bl_pos bl') = i * bs" unfolding bl'(4) unat_of_nat using ib f(2) by simp
  have noskip: "\<not> size_add (unat (bl_pos bl')) bs \<le> unat (u64_of_off start)"
    using pos ib f(2) bs32 start u64_of_off_nat [OF start(1,2)] by simp
  let ?d = "ds ! i"
  have len: "length ?d = min bs (unat fsz - i * bs)" using f(4) by (simp add: block_holds_def)
  then have len64: "length ?d < 2 ^ 64" using bs32 by simp
  let ?tk = "min (nat sz) (length ?d - ro)"
  have tk: "read_take (length ?d) ro sz = ?tk" by (rule read_take_min [OF ro len64 sz])
  have inb: "(length ?d < ro + ?tk) = False" using ro by (simp only: simp_thms)
  have out: "take ?tk (drop ro ?d) = take (nat sz) (drop ro ?d)" by (simp add: min_def)
  have sb: "yields E M (io_gets fs_sb) (Ok (fs_sb (ev_img E)))"
    by (rule yields_image) (metis fs_img_fields(3))
  have go: "yields E M (io_bind (read_loop fuel inode start fsz fidx bl' 0 (sz - int ?tk))
      (\<lambda>rest. io_ret (take ?tk (drop ro ?d) @ rest))) (Ok (take (nat sz) (drop ro ?d) @ out))"
    unfolding out by (rule yields_bind_Ok [OF rest [OF at']]) (simp add: yields_ret)
  have rem: "bl_remain bl \<noteq> 0" using at i by (simp add: bl_at_def)
  show ?thesis
  proof (cases "hdr_size (hs ! i) = 0")
    case True
    then have zero: "?d = replicate (length ?d) 0" using f(4) unfolding block_holds_def by metis
    have "size_sub (unat fsz) (i * bs) = unat fsz - i * bs" using ib f(2) by simp
    then have ds: "(if bs < size_sub (unat fsz) (i * bs) then bs else size_sub (unat fsz) (i * bs)) = length ?d"
      using len by (simp add: min_def)
    have "take ?tk (drop ro ?d) = replicate ?tk 0" by (subst zero) (simp add: min_def)
    with go have "yields E M (io_bind (read_loop fuel inode start fsz fidx bl' 0 (sz - int ?tk))
      (\<lambda>rest. io_ret (replicate ?tk 0 @ rest))) (Ok (take (nat sz) (drop ro ?d) @ out))" by simp
    then show ?thesis
      unfolding read_loop.simps [of "Suc fuel" _ _ _ _ bl] using sz(1) rem noskip True bl'(3)
      by (simp, intro yields_bind_Ok [OF nx] yields_bind_Ok [OF sb])
         (simp add: bs [symmetric] pos Let_def ds [simplified] tk)
  next
    case False
    then have d: "pos_ok (off_of_u64 (block_addr st hs i))"
      "ev_hdr E DATA_CACHE (u64_of_off (off_of_u64 (block_addr st hs i))) = hs ! i"
      "data_block_spec (ev_img E) (off_of_u64 (block_addr st hs i)) (hs ! i) = Ok ?d"
      using f(4) by (simp_all add: block_holds_def)
    have "uses_block E M a ?d (io_bind (on_heap (hp_block a)) (\<lambda>b.
          let tk = read_take (blk_size b) ro sz in
          if length (blk_data b) < ro + tk then io_fault Out_Of_Bounds else
          io_bind (on_heap (sqfs_block_dispose a)) (\<lambda>_.
          io_bind (read_loop fuel inode start fsz fidx bl' 0 (sz - int tk)) (\<lambda>rest.
          io_ret (take tk (drop ro (blk_data b)) @ rest))))) (Ok (take (nat sz) (drop ro ?d) @ out))" for a
      by (rule uses_block_read) (use inb tk go in \<open>simp add: Let_def uses_block_dispose del: min_less_iff_conj\<close>)
    then show ?thesis
      unfolding read_loop.simps [of "Suc fuel" _ _ _ _ bl] using sz(1) rem noskip False bl'
      by (simp, intro yields_bind_Ok [OF nx] yields_bind_Ok [OF sb])
         (simp add: bs [symmetric] Let_def, rule data_cache_use(2) [OF d(1) _ d(2,3)], simp_all)
  qed
qed

lemma take_drop_append:
  assumes "ro \<le> length d" and "0 \<le> sz"
  shows "take (nat sz) (drop ro (d @ y)) =
    take (nat sz) (drop ro d) @ take (nat (sz - int (min (nat sz) (length d - ro)))) y"
proof -
  have "nat (sz - int (min (nat sz) (length d - ro))) = nat sz - (length d - ro)"
    using assms(2) by (simp add: min_def nat_diff_distrib)
  with assms(1) show ?thesis by simp
qed

text \<open>From a block that contains the wanted position, or follows it, to the end.\<close>

lemma read_loop_from:
  assumes im: "img_ok (ev_img E)" and h: "file_holds E inode hs ds tail"
    and x: "in_xtra inode = X_Reg st fsz fidx foff" and bs: "bs = unat (sb_block_size (fs_sb (ev_img E)))"
    and start: "0 \<le> start" "start < 2 ^ 63"
  shows "bl_at (ev_img E) bs st hs i bl \<Longrightarrow> nat start < Suc i * bs \<Longrightarrow>
    ro \<le> length ((ds @ [tail]) ! i) \<Longrightarrow> sz < 2 ^ 63 \<Longrightarrow>
    yields E M (read_loop (length hs - i) inode start fsz fidx bl ro sz)
      (Ok (take (nat sz) (drop ro (concat (drop i ds) @ tail))))"
proof (induction "length hs - i" arbitrary: i bl ro sz)
  case 0
  have len: "length ds = length hs" using h x by (simp add: file_holds_def Let_def)
  have i: "i = length hs" using 0 by (simp add: bl_at_def)
  have ro: "ro \<le> length tail" using 0(4) i len by (simp add: nth_append)
  have rem: "bl_remain bl = 0" using 0(2) i by (simp add: bl_at_def)
  show ?case using read_loop_tail [OF h x rem ro 0(5)] i len by simp
next
  case (Suc m)
  have len: "length ds = length hs" and b0: "0 < bs" using h x bs by (simp_all add: file_holds_def Let_def)
  have i: "i < length hs" using Suc(2) by simp
  have ds: "concat (drop i ds) @ tail = ds ! i @ (concat (drop (Suc i) ds) @ tail)"
    using i len by (simp add: Cons_nth_drop_Suc [symmetric])
  have ro: "ro \<le> length (ds ! i)" using Suc(5) i len by (simp add: nth_append)
  have m: "length hs - i = Suc m" "m = length hs - Suc i" using Suc(2) by simp_all
  show ?case
  proof (cases "0 < sz")
    case False
    then show ?thesis using i by (auto simp: read_loop.simps [of "length hs - i"] intro!: yields_ret)
  next
    case True
    have "yields E M (read_loop m inode start fsz fidx bl' 0 (sz - int (min (nat sz) (length (ds ! i) - ro))))
        (Ok (take (nat (sz - int (min (nat sz) (length (ds ! i) - ro)))) (concat (drop (Suc i) ds) @ tail)))"
      if "bl_at (ev_img E) bs st hs (Suc i) bl'" for bl'
      using Suc(1) [OF m(2) that, of 0 "sz - int (min (nat sz) (length (ds ! i) - ro))"] Suc(4,6) m(2) by simp
    from read_loop_block [OF im h x bs Suc(3) i True Suc(6) start Suc(4) ro this]
    show ?thesis unfolding ds m(1) using True
      by (subst take_drop_append [OF ro]) simp_all
  qed
qed

text \<open>Blocks before the wanted position are skipped without reading their data.\<close>

lemma read_loop_seek:
  assumes im: "img_ok (ev_img E)" and h: "file_holds E inode hs ds tail"
    and x: "in_xtra inode = X_Reg st fsz fidx foff" and bs: "bs = unat (sb_block_size (fs_sb (ev_img E)))"
    and start: "0 \<le> start" "start < 2 ^ 63"
    and k: "k * bs \<le> nat start" "nat start < Suc k * bs" "k \<le> length hs"
    and ro: "ro \<le> length ((ds @ [tail]) ! k)" and sz: "sz < 2 ^ 63"
  shows "i \<le> k \<Longrightarrow> bl_at (ev_img E) bs st hs i bl \<Longrightarrow>
    yields E M (read_loop (length hs - i) inode start fsz fidx bl ro sz)
      (Ok (take (nat sz) (drop ro (concat (drop k ds) @ tail))))"
proof (induction "k - i" arbitrary: i bl)
  case 0
  then have "i = k" by simp
  with read_loop_from [OF im h x bs start _ k(2) ro sz] 0(3) show ?case by simp
next
  case (Suc m)
  have ik: "i < k" using Suc(2) by simp
  have i: "i < length hs" using ik k(3) by simp
  from sqfs_blocklist_next_at [OF im Suc(4) i bs, of M] obtain bl' where
    nx: "yields E M (sqfs_blocklist_next bl) (Ok bl')" and at': "bl_at (ev_img E) bs st hs (Suc i) bl'"
    and pos: "bl_pos bl' = word_of_nat (i * bs)"
    by blast
  have "Suc i * bs \<le> k * bs" using ik by (intro mult_le_mono1) simp
  then have le: "i * bs + bs \<le> nat start" using k(1) by simp
  moreover have "nat start < 2 ^ 63" using start by simp
  ultimately have "i * bs + bs < 2 ^ 63" by (rule order.strict_trans1)
  then have "size_add (unat (bl_pos bl')) bs = i * bs + bs"
    unfolding pos unat_of_nat by simp
  then have skip: "size_add (unat (bl_pos bl')) bs \<le> unat (u64_of_off start)"
    using le u64_of_off_nat [OF start] by simp
  have sb: "yields E M (io_gets fs_sb) (Ok (fs_sb (ev_img E)))"
    by (rule yields_image) (metis fs_img_fields(3))
  have m: "length hs - i = Suc (length hs - Suc i)" using i by simp
  have rem: "bl_remain bl \<noteq> 0" using Suc(4) i by (simp add: bl_at_def)
  have IH: "yields E M (read_loop (length hs - Suc i) inode start fsz fidx bl' ro sz)
      (Ok (take (nat sz) (drop ro (concat (drop k ds) @ tail))))"
    using Suc(1) [of "Suc i"] Suc(2) ik at' by simp
  show ?case
  proof (cases "0 < sz")
    case False
    then show ?thesis by (auto simp: read_loop.simps [of "length hs - i"] intro!: yields_ret)
  next
    case True
    then show ?thesis unfolding m read_loop.simps [of "Suc _" _ _ _ _ bl] using rem IH skip
      by (simp, intro yields_bind_Ok [OF nx] yields_bind_Ok [OF sb]) (simp add: bs [symmetric])
  qed
qed

lemma file_content_facts:
  assumes h: "file_holds E inode hs ds tail" and x: "in_xtra inode = X_Reg st fsz fidx foff"
    and bs: "bs = unat (sb_block_size (fs_sb (ev_img E)))"
  shows file_content_length: "length (file_content ds tail) = unat fsz"
    and file_content_drop: "k \<le> length ds \<Longrightarrow> k * bs \<le> unat fsz \<Longrightarrow>
      drop (k * bs) (file_content ds tail) = concat (drop k ds) @ tail"
    and file_block_reach: "p < unat fsz \<Longrightarrow> p div bs \<le> length ds \<and>
      p mod bs \<le> length ((ds @ [tail]) ! (p div bs))"
proof -
  have f: "0 < bs" "unat fsz < 2 ^ 62" "length ds = length hs"
      "sqfs_blocklist_count (fs_sb (ev_img E)) inode = Ok (length hs)"
    and b: "\<forall>j < length ds. length (ds ! j) = min bs (unat fsz - j * bs)"
    and t: "if fidx = SQUASHFS_INVALID_FRAG then tail = [] else length tail = unat fsz mod bs"
    using h x bs by (auto simp: file_holds_def Let_def block_holds_def)
  note n = blocklist_count_cases [OF f(4) x bs f(2), folded f(3)]
  have all: "length (concat ds) = min (length ds * bs) (unat fsz)"
    using concat_take_length [OF b, of "length ds"] by simp
  have dm: "unat fsz = unat fsz div bs * bs + unat fsz mod bs" by simp
  show "length (file_content ds tail) = unat fsz"
  proof (cases "fidx = SQUASHFS_INVALID_FRAG")
    case True
    then show ?thesis using n(6) t all by (simp add: file_content_def)
  next
    case False
    then have "length ds * bs \<le> unat fsz" "length tail = unat fsz mod bs" "length ds = unat fsz div bs"
      using n(2,7) t by auto
    then show ?thesis unfolding file_content_def length_append all using dm by (simp add: min_def)
  qed
  show "drop (k * bs) (file_content ds tail) = concat (drop k ds) @ tail"
    if k: "k \<le> length ds" "k * bs \<le> unat fsz" for k
  proof -
    have "concat ds = concat (take k ds) @ concat (drop k ds)"
      by (metis append_take_drop_id concat_append)
    moreover have "length (concat (take k ds)) = k * bs" using concat_take_length [OF b k(1)] k(2) by simp
    ultimately show ?thesis by (simp add: file_content_def)
  qed
  show "p div bs \<le> length ds \<and> p mod bs \<le> length ((ds @ [tail]) ! (p div bs))" if p: "p < unat fsz" for p
  proof (cases "p div bs < length ds")
    case True
    have "p = p div bs * bs + p mod bs" "p mod bs < bs" using f(1) by simp_all
    then have "p mod bs \<le> min bs (unat fsz - p div bs * bs)" using p by linarith
    with True b show ?thesis by (simp add: nth_append)
  next
    case False
    then have "length ds * bs \<le> p" using f(1) by (simp add: div_less_iff_less_mult not_less)
    then have fi: "fidx \<noteq> SQUASHFS_INVALID_FRAG" using n(6) p by fastforce
    then have q: "length ds = unat fsz div bs" "length tail = unat fsz mod bs" using n(7) t by auto
    then have "p div bs = length ds" using False p div_le_mono [of p "unat fsz" bs] by simp
    moreover have "p = p div bs * bs + p mod bs" by simp
    then have "p mod bs \<le> unat fsz mod bs" using p dm q calculation by (metis less_imp_le nat_add_left_cancel_le)
    ultimately show ?thesis using q by (simp add: nth_append)
  qed
qed

text \<open>The block list a read starts from when the index is not used: the position is in the first
  metadata block of the list, or the file is too short to be indexed.\<close>

definition unindexed :: "squashfs_super_block \<Rightarrow> sqfs_inode \<Rightarrow> nat \<Rightarrow> nat \<Rightarrow> bool" where
  "unindexed sb inode n start \<longleftrightarrow> n * 4 < SQUASHFS_METADATA_SIZE \<or>
     cur_offset (in_next inode) + start div unat (sb_block_size sb) * 4 < SQUASHFS_METADATA_SIZE"

lemma sqfs_blocklist_init_at:
  assumes h: "file_holds E inode hs ds tail" and x: "in_xtra inode = X_Reg st fsz fidx foff"
    and bs: "bs = unat (sb_block_size (fs_sb (ev_img E)))"
  shows "\<exists>bl. yields E M (sqfs_blocklist_init inode) (Ok bl) \<and> bl_at (ev_img E) bs st hs 0 bl \<and>
    bl_remain bl = length hs \<and> bl_cur bl = in_next inode \<and> \<not> bl_started bl \<and> bl_input_size bl = 0"
proof -
  let ?bl = "\<lparr>bl_remain = length hs, bl_cur = in_next inode, bl_started = False, bl_pos = 0,
                 bl_block = st, bl_header = 0, bl_input_size = 0\<rparr>"
  have f: "sqfs_blocklist_count (fs_sb (ev_img E)) inode = Ok (length hs)" "cur_ok (in_next inode)"
     "\<exists>c. md_holds (ev_img E) (in_next inode) (concat (map (le_bytes 4) hs)) c"
    using h x by (auto simp: file_holds_def Let_def)
  have sb: "yields E M (io_gets fs_sb) (Ok (fs_sb (ev_img E)))"
    by (rule yields_image) (metis fs_img_fields(3))
  have "yields E M (sqfs_blocklist_init inode) (Ok ?bl)"
    unfolding sqfs_blocklist_init_def using x f(1)
    by (intro yields_bind_Ok [OF sb]) (simp add: yields_ret)
  moreover have "bl_at (ev_img E) bs st hs 0 ?bl" using f by (simp add: bl_at_def)
  ultimately show ?thesis by (intro exI [of _ ?bl]) simp
qed

lemma sqfs_blockidx_blocklist_plain:
  assumes h: "file_holds E inode hs ds tail" and x: "in_xtra inode = X_Reg st fsz fidx foff"
    and bs: "bs = unat (sb_block_size (fs_sb (ev_img E)))"
    and start: "0 \<le> start" "nat start < unat fsz" and u: "unindexed (fs_sb (ev_img E)) inode (length hs) (nat start)"
  shows "\<exists>bl. yields E M (sqfs_blockidx_blocklist inode start) (Ok bl) \<and>
    bl_at (ev_img E) bs st hs 0 bl \<and> bl_remain bl = length hs"
proof -
  from sqfs_blocklist_init_at [OF h x bs, of M] obtain bl where
    bl: "yields E M (sqfs_blocklist_init inode) (Ok bl)" "bl_at (ev_img E) bs st hs 0 bl"
      "bl_remain bl = length hs" "bl_cur bl = in_next inode" by blast
  have f: "sqfs_blocklist_count (fs_sb (ev_img E)) inode = Ok (length hs)" "0 < bs" "unat fsz < 2 ^ 62"
      "length ds = length hs"
    using h x bs by (auto simp: file_holds_def Let_def)
  have sb: "yields E M (io_gets fs_sb) (Ok (fs_sb (ev_img E)))"
    by (rule yields_image) (metis fs_img_fields(3))
  have "nat start < 2 ^ 62" using start(2) f(3) by (rule order.strict_trans)
  then have s62: "start < 2 ^ 62" using start(1) by (simp add: nat_less_iff)
  have q: "start div uint (sb_block_size (fs_sb (ev_img E))) = int (nat start div bs)"
    using start(1) bs by (simp add: zdiv_int)
  have "nat start div bs \<le> nat start" by simp
  then have q62: "nat start div bs < 2 ^ 62" using \<open>nat start < 2 ^ 62\<close> by (rule order.strict_trans1)
  then have blk: "unat (u64_of_off (start div uint (sb_block_size (fs_sb (ev_img E))))) = nat start div bs"
    unfolding q by (subst u64_of_off_nat) simp_all
  have le: "nat start div bs \<le> length hs" using file_block_reach [OF h x bs start(2)] f(4) by simp
  let ?mb = "size_add (cur_offset (in_next inode)) (size_mul (nat start div bs) 4) div SQUASHFS_METADATA_SIZE"
  have plain: "?mb = 0 \<or> size_mul (length hs) 4 < SQUASHFS_METADATA_SIZE"
    using u bs by (auto simp: unindexed_def size_mul_def size_add_def)
  have sb0: "sb_block_size (fs_sb (ev_img E)) \<noteq> 0" using f(2) bs by auto
  have "yields E M (sqfs_blockidx_blocklist inode start) (Ok bl)"
    unfolding sqfs_blockidx_blocklist_def
    by (intro yields_bind_Ok [OF bl(1)] yields_bind_Ok [OF sb])
       (use start(1) f(1) le blk plain sb0 in
         \<open>auto simp: Let_def bl(3,4) sqfs_blockidx_indexable_def not_less intro!: yields_ret\<close>)
  with bl show ?thesis by blast
qed

text \<open>A read from whatever block at or before the wanted one the block list starts at.\<close>

lemma sqfs_read_range_from:
  assumes im: "img_ok (ev_img E)" and h: "file_holds E inode hs ds tail"
    and x: "in_xtra inode = X_Reg st fsz fidx foff" and sz: "0 < sz" "sz < 2 ^ 63"
    and start: "0 \<le> start" "start < int (unat fsz)"
    and bl: "yields E M (sqfs_blockidx_blocklist inode start) (Ok bl)"
      "bl_at (ev_img E) (unat (sb_block_size (fs_sb (ev_img E)))) st hs i bl"
      "i \<le> nat start div unat (sb_block_size (fs_sb (ev_img E)))"
  shows "yields E M (sqfs_read_range inode start sz)
    (Ok (take (nat sz) (drop (nat start) (file_content ds tail))))"
proof -
  let ?bs = "unat (sb_block_size (fs_sb (ev_img E)))"
  have f: "S_ISREG (in_mode inode)" "0 < ?bs" "unat fsz < 2 ^ 62" "length ds = length hs"
    using h x by (auto simp: file_holds_def Let_def)
  have st: "nat start < unat fsz" using start by linarith
  have "nat start < 2 ^ 62" using st f(3) by (rule order.strict_trans)
  then have s63: "start < 2 ^ 63" using start(1) by (simp add: nat_less_iff)
  have fo: "off_of_u64 fsz = int (unat fsz)"
  proof -
    have "uint fsz < 2 ^ 62" using f(3) by (metis of_nat_less_iff of_nat_numeral of_nat_power uint_nat)
    then show ?thesis by (simp add: off_of_u64_def off_wrap_def)
  qed
  let ?k = "nat start div ?bs" and ?ro = "nat start mod ?bs"
  have k: "?k * ?bs \<le> nat start" "nat start < Suc ?k * ?bs" "nat start = ?k * ?bs + ?ro"
    using f(2) dividend_less_div_times [of ?bs "nat start"] by simp_all
  have reach: "?k \<le> length ds" "?ro \<le> length ((ds @ [tail]) ! ?k)"
    using file_block_reach [OF h x refl st] by simp_all
  have kfs: "?k * ?bs \<le> unat fsz" using k(1) st by linarith
  have out: "drop (nat start) (file_content ds tail) = drop ?ro (concat (drop ?k ds) @ tail)"
    using file_content_drop [OF h x refl reach(1) kfs] k(3) drop_drop [of ?ro "?k * ?bs" "file_content ds tail"]
    by (simp add: add.commute)
  have loop: "yields E M (read_loop (bl_remain bl) inode start fsz fidx bl ?ro sz)
      (Ok (take (nat sz) (drop (nat start) (file_content ds tail))))"
    unfolding out using read_loop_seek [OF im h x refl start(1) s63 k(1,2) _ reach(2) sz(2) bl(3,2)]
      reach(1) f(4) bl(2) by (simp add: bl_at_def)
  have ne: "take (nat sz) (drop (nat start) (file_content ds tail)) \<noteq> []"
    using sz(1) st file_content_length [OF h x refl] by simp
  have sb: "yields E M (io_gets fs_sb) (Ok (fs_sb (ev_img E)))"
    by (rule yields_image) (metis fs_img_fields(3))
  have ro: "unat (u64_of_off start) mod ?bs = ?ro" using u64_of_off_nat [OF start(1) s63] by simp
  show ?thesis
    unfolding sqfs_read_range_def using f(1) x sz(1) fo start ne
    by (simp, intro yields_bind_Ok [OF bl(1)] yields_bind_Ok [OF sb] yields_bind_Ok [OF loop [folded ro]])
       (simp add: yields_ret)
qed

lemma sqfs_read_range_slice:
  assumes "img_ok (ev_img E)" and h: "file_holds E inode hs ds tail"
    and x: "in_xtra inode = X_Reg st fsz fidx foff" and "0 < sz" and "sz < 2 ^ 63"
    and start: "0 \<le> start" "start < int (unat fsz)"
    and u: "unindexed (fs_sb (ev_img E)) inode (length hs) (nat start)"
  shows "yields E M (sqfs_read_range inode start sz)
    (Ok (take (nat sz) (drop (nat start) (file_content ds tail))))"
proof -
  have "nat start < unat fsz" using start by linarith
  from sqfs_blockidx_blocklist_plain [OF h x refl start(1) this u, of M] obtain bl where
    "yields E M (sqfs_blockidx_blocklist inode start) (Ok bl)"
    "bl_at (ev_img E) (unat (sb_block_size (fs_sb (ev_img E)))) st hs 0 bl" by blast
  then show ?thesis by (rule sqfs_read_range_from [OF assms(1-7)]) (rule le0)
qed

end
