(* ===== verification/Sqfs_Xattr.thy ===== *)
theory Sqfs_Xattr
  imports Sqfs_Dir
begin

unbundle bit_operations_syntax

text \<open>
  Extended attributes: \<^verbatim>\<open>xattr.c\<close>. An inode names a run of entries in the xattr stream; each is
  a header, the name without its prefix, and a value, stored in place or (out of line) as the place
  of the value. \<^verbatim>\<open>sqfs_xattr\<close> is an iterator that keeps up to four cursors into the entry, and
  flags that say which of them are valid, so that names and values need not be read to step over
  them.

  \<open>xattr_run\<close> says that a stretch of metadata holds a list of attributes. The lemmas show that the
  iterator visits exactly that list whatever part of each entry the caller asks for, and that
  \<^verbatim>\<open>sqfs_xattr_lookup\<close> finds the first attribute with a name, with its value.
\<close>

section \<open>Data\<close>

definition sqfs_xattr_prefixes :: "bytes list" where
  "sqfs_xattr_prefixes =
     [[0x75, 0x73, 0x65, 0x72, 0x2e],
      [0x74, 0x72, 0x75, 0x73, 0x74, 0x65, 0x64, 0x2e],
      [0x73, 0x65, 0x63, 0x75, 0x72, 0x69, 0x74, 0x79, 0x2e]]"

abbreviation (input) SQFS_XATTR_PREFIX_MAX :: u16 where "SQFS_XATTR_PREFIX_MAX \<equiv> 2"

abbreviation (input) CURS_VSIZE :: u32 where "CURS_VSIZE \<equiv> 1"
abbreviation (input) CURS_VAL :: u32 where "CURS_VAL \<equiv> 2"
abbreviation (input) CURS_NEXT :: u32 where "CURS_NEXT \<equiv> 4"

record sqfs_xattr =
  xa_cursors :: u32
  xa_c_name :: sqfs_md_cursor
  xa_c_vsize :: sqfs_md_cursor
  xa_c_val :: sqfs_md_cursor
  xa_c_next :: sqfs_md_cursor
  xa_remain :: size_t
  xa_info :: squashfs_xattr_id
  xa_type :: u16
  xa_ool :: bool
  xa_entry :: squashfs_xattr_entry
  xa_val :: squashfs_xattr_val

section \<open>Operations\<close>

text \<open>\<^verbatim>\<open>sqfs_xattr_init\<close>. A short read leaves the bytes it got in \<^verbatim>\<open>xattr_info\<close>.\<close>

definition sqfs_xattr_init :: "(sqfs, unit) io" where
  "sqfs_xattr_init =
     io_bind (io_gets (\<lambda>s. s)) (\<lambda>s.
     let start = off_of_u64 (sb_xattr_id_table_start (fs_sb s)) in
     if start = SQUASHFS_INVALID_BLK then io_ret () else
     case sqfs_pread (fs_fd s) sizeof_xattr_id_table (off_add start (fs_offset s)) of
       None \<Rightarrow> io_raise SQFS_ERR
     | Some bs \<Rightarrow>
        let info = sqfs_swapin_xattr_id_table
              (bs @ drop (length bs) (xattr_id_table_bytes (fs_xattr_info s))) in
        io_bind (io_modify (\<lambda>s. s\<lparr>fs_xattr_info := info\<rparr>)) (\<lambda>_.
        if length bs \<noteq> sizeof_xattr_id_table then io_raise SQFS_ERR else
        io_bind (on_heap (sqfs_table_init (fs_xattr_table s) (fs_fd s)
            (off_add (off_add start sizeof_xattr_id_table) (fs_offset s)) sizeof_xattr_id
            (unat (xt_xattr_ids info)))) (\<lambda>(e, tab).
        io_bind (io_modify (\<lambda>s. s\<lparr>fs_xattr_table := tab\<rparr>)) (\<lambda>_.
        case e of None \<Rightarrow> io_ret () | Some err \<Rightarrow> io_raise err))))"

definition sqfs_xattr_open :: "sqfs_inode \<Rightarrow> sqfs_xattr \<Rightarrow> (sqfs, sqfs_xattr) io" where
  "sqfs_xattr_open inode x =
     io_bind (io_gets fs_xattr_info) (\<lambda>xinfo.
     let x = x\<lparr>xa_remain := 0\<rparr> in
     if xt_xattr_ids xinfo = 0 \<or> in_xattr inode = SQUASHFS_INVALID_XATTR then io_ret x else
     io_bind (io_gets fs_xattr_table) (\<lambda>tab.
     io_try (sqfs_table_get tab (unat (in_xattr inode))) (\<lambda>r. case r of
       Inl e \<Rightarrow> io_raise SQFS_ERR
     | Inr bs \<Rightarrow>
        let info = sqfs_swapin_xattr_id bs in
        io_ret (x\<lparr>xa_info := info,
          xa_c_next := sqfs_md_cursor_inode (xi_xattr info) (off_of_u64 (xt_xattr_table_start xinfo)),
          xa_remain := unat (xi_count info), xa_cursors := CURS_NEXT\<rparr>))))"

text \<open>\<^verbatim>\<open>sqfs_xattr_name_size\<close>; an index past the three prefixes leaves the array.\<close>

definition xattr_prefix :: "u16 \<Rightarrow> bytes res" where
  "xattr_prefix t = (if unat t < length sqfs_xattr_prefixes then Ok (sqfs_xattr_prefixes ! unat t)
     else Fault Out_Of_Bounds)"

definition sqfs_xattr_name_size :: "sqfs_xattr \<Rightarrow> size_t res" where
  "sqfs_xattr_name_size x = res_bind (xattr_prefix (xa_type x)) (\<lambda>p.
     Ok (unat (xe_size (xa_entry x)) + length p))"

text \<open>\<open>name\<close> says whether the caller passed a buffer; the result is what was written to it.\<close>

definition sqfs_xattr_name :: "sqfs_xattr \<Rightarrow> bool \<Rightarrow> bool \<Rightarrow> (sqfs, bytes \<times> sqfs_xattr) io" where
  "sqfs_xattr_name x name prefix =
     io_bind (if name \<and> prefix then io_lift (xattr_prefix (xa_type x)) else io_ret []) (\<lambda>p.
     io_bind (sqfs_md_read name (xa_c_name x) (unat (xe_size (xa_entry x)))) (\<lambda>(bs, c).
     io_ret (p @ bs, x\<lparr>xa_c_vsize := c, xa_cursors := xa_cursors x OR CURS_VSIZE\<rparr>)))"

definition sqfs_xattr_value_size :: "sqfs_xattr \<Rightarrow> (sqfs, size_t \<times> sqfs_xattr) io" where
  "sqfs_xattr_value_size x =
     io_bind (if xa_cursors x AND CURS_VSIZE = 0 then sqfs_xattr_name x False False else io_ret ([], x))
     (\<lambda>(_, x).
     io_bind (sqfs_md_read True (xa_c_vsize x) sizeof_xattr_val) (\<lambda>(bs, c).
     let x = x\<lparr>xa_c_val := c, xa_val := sqfs_swapin_xattr_val bs\<rparr> in
     io_bind (if \<not> xa_ool x then io_ret x else
       io_bind (sqfs_md_read True (xa_c_val x) 8) (\<lambda>(bs, c).
       let pos = sqfs_swapin64 bs; x = x\<lparr>xa_c_next := c, xa_cursors := xa_cursors x OR CURS_NEXT\<rparr> in
       io_bind (io_gets fs_xattr_info) (\<lambda>xinfo.
       io_bind (sqfs_md_read True
         (sqfs_md_cursor_inode pos (off_of_u64 (xt_xattr_table_start xinfo))) sizeof_xattr_val) (\<lambda>(bs, c).
       io_ret (x\<lparr>xa_c_val := c, xa_val := sqfs_swapin_xattr_val bs\<rparr>)))))
     (\<lambda>x. io_ret (unat (xv_vsize (xa_val x)), x\<lparr>xa_cursors := xa_cursors x OR CURS_VAL\<rparr>))))"

definition sqfs_xattr_value :: "sqfs_xattr \<Rightarrow> bool \<Rightarrow> (sqfs, bytes \<times> sqfs_xattr) io" where
  "sqfs_xattr_value x buf =
     io_bind (if xa_cursors x AND CURS_VAL = 0 then sqfs_xattr_value_size x else io_ret (0, x)) (\<lambda>(_, x).
     io_bind (sqfs_md_read buf (xa_c_val x) (unat (xv_vsize (xa_val x)))) (\<lambda>(bs, c).
     io_ret (bs, if xa_ool x then x
       else x\<lparr>xa_c_next := c, xa_cursors := xa_cursors x OR CURS_NEXT\<rparr>)))"

definition sqfs_xattr_read :: "sqfs_xattr \<Rightarrow> (sqfs, sqfs_xattr) io" where
  "sqfs_xattr_read x =
     (if xa_remain x = 0 then io_raise SQFS_ERR else
      io_bind (if xa_cursors x AND CURS_NEXT = 0 then sqfs_xattr_value (x\<lparr>xa_ool := False\<rparr>) False
        else io_ret ([], x)) (\<lambda>(_, x).
      io_bind (sqfs_md_read True (xa_c_next x) sizeof_xattr_entry) (\<lambda>(bs, c).
      let entry = sqfs_swapin_xattr_entry bs;
          x = x\<lparr>xa_c_name := c, xa_entry := entry,
                xa_type := xe_type entry AND SQUASHFS_XATTR_PREFIX_MASK,
                xa_ool := xe_type entry AND SQUASHFS_XATTR_VALUE_OOL \<noteq> 0\<rparr>
      in if SQFS_XATTR_PREFIX_MAX < xa_type x then io_raise SQFS_ERR
         else io_ret (x\<lparr>xa_remain := xa_remain x - 1, xa_cursors := 0\<rparr>))))"

text \<open>\<^verbatim>\<open>sqfs_xattr_find_prefix\<close>: the index of the prefix \<open>name\<close> starts with.\<close>

fun find_prefix_loop :: "bytes \<Rightarrow> u16 \<Rightarrow> bytes list \<Rightarrow> u16 option" where
  "find_prefix_loop name i [] = None"
| "find_prefix_loop name i (p # ps) =
     (if strncmp name p (length p) = 0 then Some i else find_prefix_loop name (i + 1) ps)"

definition sqfs_xattr_find_prefix :: "bytes \<Rightarrow> u16 option" where
  "sqfs_xattr_find_prefix name = find_prefix_loop name 0 sqfs_xattr_prefixes"

fun xattr_find_loop :: "nat \<Rightarrow> u16 \<Rightarrow> bytes \<Rightarrow> sqfs_xattr \<Rightarrow> (sqfs, bool \<times> sqfs_xattr) io" where
  "xattr_find_loop fuel type name x =
     (if xa_remain x = 0 then io_ret (False, x)
      else case fuel of 0 \<Rightarrow> io_fault Diverges
      | Suc fuel' \<Rightarrow>
         io_bind (sqfs_xattr_read x) (\<lambda>x.
         if xa_type x \<noteq> type \<or> unat (xe_size (xa_entry x)) \<noteq> length name
         then xattr_find_loop fuel' type name x
         else io_bind (sqfs_xattr_name x True False) (\<lambda>(cmp, x).
           if strncmp name cmp (length name) = 0 then io_ret (True, x)
           else xattr_find_loop fuel' type name x)))"

declare xattr_find_loop.simps [simp del]

text \<open>\<^verbatim>\<open>sqfs_xattr_find\<close>; \<open>name\<close> is a C string, so its length is what \<^verbatim>\<open>strlen\<close> says. The
  number of entries left falls in every round, so \<open>xa_remain\<close> rounds are enough.\<close>

definition sqfs_xattr_find :: "sqfs_xattr \<Rightarrow> bytes \<Rightarrow> (sqfs, bool \<times> sqfs_xattr) io" where
  "sqfs_xattr_find x name = (case sqfs_xattr_find_prefix name of
     None \<Rightarrow> io_ret (False, x)
   | Some type \<Rightarrow>
      io_bind (io_lift (xattr_prefix type)) (\<lambda>p.
      io_bind (on_heap hp_malloc) (\<lambda>ok. if \<not> ok then io_raise SQFS_ERR else
      xattr_find_loop (xa_remain x) type (drop (length p) name) x)))"

text \<open>\<^verbatim>\<open>sqfs_xattr_lookup\<close>: \<open>buf\<close> is the size of the caller's buffer, if there is one; the
  result is the new \<^verbatim>\<open>*size\<close> and what was written to the buffer. \<open>x\<close> is what the stack holds.\<close>

definition sqfs_xattr_lookup ::
  "sqfs_xattr \<Rightarrow> sqfs_inode \<Rightarrow> bytes \<Rightarrow> size_t option \<Rightarrow> (sqfs, size_t \<times> bytes option) io" where
  "sqfs_xattr_lookup x inode name buf =
     io_bind (sqfs_xattr_open inode x) (\<lambda>x.
     io_bind (sqfs_xattr_find x name) (\<lambda>(found, x).
     if \<not> found then io_ret (0, None) else
     io_bind (sqfs_xattr_value_size x) (\<lambda>(real, x).
     case buf of
       Some sz \<Rightarrow> if real \<le> sz then io_bind (sqfs_xattr_value x True) (\<lambda>(bs, x). io_ret (real, Some bs))
                  else io_ret (real, None)
     | None \<Rightarrow> io_ret (real, None))))"

section \<open>Attributes as an image builder writes them\<close>

record disk_xattr =
  dx_type :: u16
  dx_name :: bytes
  dx_value :: bytes
  dx_ool :: "u64 option"

definition xattr_val_stored :: "bytes \<Rightarrow> bytes" where
  "xattr_val_stored v = xattr_val_bytes \<lparr>xv_vsize = word_of_nat (length v)\<rparr> @ v"

definition xattr_tail_bytes :: "disk_xattr \<Rightarrow> bytes" where
  "xattr_tail_bytes d = (case dx_ool d of
     None \<Rightarrow> xattr_val_stored (dx_value d) | Some pos \<Rightarrow> xattr_val_stored (le_bytes 8 pos))"

definition disk_xattr_entry :: "disk_xattr \<Rightarrow> squashfs_xattr_entry" where
  "disk_xattr_entry d = \<lparr>xe_type = dx_type d OR (if dx_ool d = None then 0 else SQUASHFS_XATTR_VALUE_OOL),
     xe_size = word_of_nat (length (dx_name d))\<rparr>"

definition disk_xattr_bytes :: "disk_xattr \<Rightarrow> bytes" where
  "disk_xattr_bytes d = xattr_entry_bytes (disk_xattr_entry d) @ dx_name d @ xattr_tail_bytes d"

text \<open>A cursor from which a string can be read.\<close>

definition md_at :: "sqfs_image \<Rightarrow> sqfs_md_cursor \<Rightarrow> bytes \<Rightarrow> bool" where
  "md_at im c bs \<longleftrightarrow> cur_ok c \<and> (\<exists>c'. md_holds im c bs c')"

definition xattr_base :: "sqfs_image \<Rightarrow> off_t" where
  "xattr_base im = off_of_u64 (xt_xattr_table_start (fs_xattr_info im))"

definition disk_xattr_ok :: "sqfs_image \<Rightarrow> disk_xattr \<Rightarrow> bool" where
  "disk_xattr_ok im d \<longleftrightarrow> dx_type d \<le> SQFS_XATTR_PREFIX_MAX \<and> length (dx_name d) < 2 ^ 16 \<and>
     length (dx_value d) < 2 ^ 32 \<and> 0 \<notin> set (dx_name d) \<and>
     (case dx_ool d of None \<Rightarrow> True
      | Some pos \<Rightarrow> md_at im (sqfs_md_cursor_inode pos (xattr_base im)) (xattr_val_stored (dx_value d)))"

definition xattr_run :: "disk_xattr list \<Rightarrow> bytes" where
  "xattr_run ds = concat (map disk_xattr_bytes ds)"

lemma md_at_append:
  assumes "img_ok im" and "md_at im c (a @ b)"
  obtains c' where "md_holds im c a c'" and "cur_ok c" and "md_at im c' b"
proof -
  from assms(2) obtain e where c: "cur_ok c" and "md_holds im c (a @ b) e" by (auto simp: md_at_def)
  then obtain c' where *: "md_holds im c a c'" "md_holds im c' b e"
    using ms.holds_append [of im c] assms(1) by blast
  moreover have "cur_ok c'" using ms.holds_ok [OF _ *(1)] assms(1) c by simp
  ultimately show thesis using that c by (auto simp: md_at_def)
qed

lemma yields_md_at:
  assumes "img_ok (ev_img E)" and "md_at (ev_img E) c (bs @ rest)" and "length bs = n"
  obtains c' where "yields E M (sqfs_md_read buf c n) (Ok (if buf then bs else [], c'))"
    and "md_at (ev_img E) c' rest"
proof -
  from md_at_append [OF assms(1,2)] obtain c' where c': "md_holds (ev_img E) c bs c'" "cur_ok c"
    "md_at (ev_img E) c' rest" by blast
  have "yields E M (sqfs_md_read buf c n) (Ok (if buf then bs else [], c'))"
    using yields_md_read [OF assms(1) c'(2,1) assms(3)] yields_md_skip [OF assms(1) c'(2,1) assms(3)]
    by (cases buf) simp_all
  with that c'(3) show thesis by blast
qed

section \<open>The iterator\<close>

text \<open>The iterator has read the header of \<open>d\<close>; \<open>rest\<close> follows. A cursor whose flag is set stands
  where its name says.\<close>

definition xattr_at :: "sqfs_image \<Rightarrow> disk_xattr \<Rightarrow> bytes \<Rightarrow> sqfs_xattr \<Rightarrow> bool" where
  "xattr_at im d rest x \<longleftrightarrow> disk_xattr_ok im d \<and>
     xa_type x = dx_type d \<and> unat (xe_size (xa_entry x)) = length (dx_name d) \<and>
     xa_ool x = (dx_ool d \<noteq> None) \<and>
     md_at im (xa_c_name x) (dx_name d @ xattr_tail_bytes d @ rest) \<and>
     (bit (xa_cursors x) 0 \<longrightarrow> md_at im (xa_c_vsize x) (xattr_tail_bytes d @ rest)) \<and>
     (bit (xa_cursors x) 1 \<longrightarrow> unat (xv_vsize (xa_val x)) = length (dx_value d) \<and>
        (if xa_ool x then md_at im (xa_c_val x) (dx_value d) \<and> bit (xa_cursors x) 2
         else md_at im (xa_c_val x) (dx_value d @ rest))) \<and>
     (bit (xa_cursors x) 2 \<longrightarrow> md_at im (xa_c_next x) rest)"

lemma curs_bits [simp]:
  "(c :: u32) AND CURS_VSIZE = 0 \<longleftrightarrow> \<not> bit c 0" "c AND CURS_VAL = 0 \<longleftrightarrow> \<not> bit c (Suc 0)"
  "c AND CURS_NEXT = 0 \<longleftrightarrow> \<not> bit c 2"
  "bit (c OR CURS_VSIZE) 0" "bit (c OR CURS_VSIZE) (Suc 0) = bit c (Suc 0)" "bit (c OR CURS_VSIZE) 2 = bit c 2"
  "bit (c OR CURS_VAL) 0 = bit c 0" "bit (c OR CURS_VAL) (Suc 0)" "bit (c OR CURS_VAL) 2 = bit c 2"
  "bit (c OR CURS_NEXT) 0 = bit c 0" "bit (c OR CURS_NEXT) (Suc 0) = bit c (Suc 0)" "bit (c OR CURS_NEXT) 2"
  using and_exp_eq_0_iff_not_bit [of c 0] and_exp_eq_0_iff_not_bit [of c 1] and_exp_eq_0_iff_not_bit [of c 2]
    bit_2_iff [of 0, where 'a = "32 word"] bit_2_iff [of 1, where 'a = "32 word"]
  by (simp_all add: bit_or_iff)

lemma sqfs_xattr_name_at:
  assumes im: "img_ok (ev_img E)" and x: "xattr_at (ev_img E) d rest x"
  shows "\<exists>x'. yields E M (sqfs_xattr_name x buf prefix)
      (Ok (if buf then (if prefix then sqfs_xattr_prefixes ! unat (dx_type d) else []) @ dx_name d else [], x')) \<and>
    xattr_at (ev_img E) d rest x' \<and> xa_remain x' = xa_remain x \<and> bit (xa_cursors x') 0 \<and>
    bit (xa_cursors x') 2 = bit (xa_cursors x) 2"
proof -
  have "md_at (ev_img E) (xa_c_name x) (dx_name d @ xattr_tail_bytes d @ rest)"
    and len: "length (dx_name d) = unat (xe_size (xa_entry x))" using x by (simp_all add: xattr_at_def)
  from yields_md_at [OF im this, of M buf] obtain c where
    rd: "yields E M (sqfs_md_read buf (xa_c_name x) (unat (xe_size (xa_entry x))))
      (Ok (if buf then dx_name d else [], c))" and c: "md_at (ev_img E) c (xattr_tail_bytes d @ rest)" .
  let ?x = "x\<lparr>xa_c_vsize := c, xa_cursors := xa_cursors x OR CURS_VSIZE\<rparr>"
  have t: "xa_type x = dx_type d" "unat (dx_type d) < 3"
    using x by (simp_all add: xattr_at_def disk_xattr_ok_def word_le_nat_alt)
  have pf: "(if buf \<and> prefix then io_lift (xattr_prefix (xa_type x)) else io_ret []) =
      io_ret (if buf \<and> prefix then sqfs_xattr_prefixes ! unat (dx_type d) else [])"
    using t by (simp add: xattr_prefix_def sqfs_xattr_prefixes_def io_ret_def io_lift_def)
  have "yields E M (sqfs_xattr_name x buf prefix)
      (Ok (if buf then (if prefix then sqfs_xattr_prefixes ! unat (dx_type d) else []) @ dx_name d else [], ?x))"
    unfolding sqfs_xattr_name_def pf io_bind_ret by (intro yields_bind_Ok [OF rd]) (simp add: yields_ret)
  moreover have "xattr_at (ev_img E) d rest ?x" using x c by (simp add: xattr_at_def)
  ultimately show ?thesis by (intro exI [of _ ?x]) simp
qed

lemma unat_of_len: "n < 2 ^ 32 \<Longrightarrow> unat (word_of_nat n :: u32) = n"
  by (simp add: unat_of_nat)

text \<open>The value size, with the tail of the entry at \<open>c_vsize\<close>: reading it may follow the reference of
  a value stored out of line.\<close>

lemma sqfs_xattr_value_size_at:
  assumes im: "img_ok (ev_img E)" and x: "xattr_at (ev_img E) d rest x"
  shows "\<exists>x'. yields E M (sqfs_xattr_value_size x) (Ok (length (dx_value d), x')) \<and>
    xattr_at (ev_img E) d rest x' \<and> xa_remain x' = xa_remain x \<and> bit (xa_cursors x') 1"
proof -
  have "\<exists>x1. yields E M (if xa_cursors x AND CURS_VSIZE = 0 then sqfs_xattr_name x False False else io_ret ([], x))
      (Ok ([], x1)) \<and> xattr_at (ev_img E) d rest x1 \<and> xa_remain x1 = xa_remain x \<and> bit (xa_cursors x1) 0"
  proof (cases "bit (xa_cursors x) 0")
    case True
    then show ?thesis using x by (intro exI [of _ x]) (simp add: yields_ret)
  next
    case False
    then show ?thesis using sqfs_xattr_name_at [OF assms, of M False False] by auto
  qed
  then obtain x1 where nm: "yields E M (if xa_cursors x AND CURS_VSIZE = 0 then sqfs_xattr_name x False False
      else io_ret ([], x)) (Ok ([], x1))" and x1: "xattr_at (ev_img E) d rest x1" "bit (xa_cursors x1) 0"
      "xa_remain x1 = xa_remain x" by blast
  have ok: "disk_xattr_ok (ev_img E) d" "xa_ool x1 = (dx_ool d \<noteq> None)" using x1(1) by (simp_all add: xattr_at_def)
  define v where "v = (case dx_ool d of None \<Rightarrow> dx_value d | Some pos \<Rightarrow> le_bytes 8 pos)"
  have tail: "xattr_tail_bytes d @ rest = xattr_val_bytes \<lparr>xv_vsize = word_of_nat (length v)\<rparr> @ v @ rest"
    by (simp add: v_def xattr_tail_bytes_def xattr_val_stored_def split: option.splits)
  have "md_at (ev_img E) (xa_c_vsize x1) (xattr_val_bytes \<lparr>xv_vsize = word_of_nat (length v)\<rparr> @ v @ rest)"
    using x1 by (simp add: xattr_at_def tail)
  from yields_md_at [OF im this length_xattr_val_bytes, of M True] obtain c where
    rd: "yields E M (sqfs_md_read True (xa_c_vsize x1) 4)
      (Ok (xattr_val_bytes \<lparr>xv_vsize = word_of_nat (length v)\<rparr>, c))" and c: "md_at (ev_img E) c (v @ rest)"
    by auto
  let ?x2 = "x1\<lparr>xa_c_val := c, xa_val := \<lparr>xv_vsize = word_of_nat (length v)\<rparr>\<rparr>"
  show ?thesis
  proof (cases "dx_ool d")
    case None
    then have v: "v = dx_value d" by (simp add: v_def)
    have len: "unat (word_of_nat (length v) :: u32) = length v"
      using ok v by (simp add: unat_of_len disk_xattr_ok_def)
    let ?x' = "?x2\<lparr>xa_cursors := xa_cursors x1 OR CURS_VAL\<rparr>"
    have "yields E M (sqfs_xattr_value_size x) (Ok (length (dx_value d), ?x'))"
      unfolding sqfs_xattr_value_size_def
      by (intro yields_bind_Ok [OF nm], simp, intro yields_bind_Ok [OF rd])
         (use ok(2) None len v in \<open>simp add: Let_def yields_ret\<close>)
    moreover have "xattr_at (ev_img E) d rest ?x'"
      using x1 c v len ok(2) None by (simp add: xattr_at_def)
    ultimately show ?thesis using x1(3) by (intro exI [of _ ?x']) simp
  next
    case (Some pos)
    then have v: "v = le_bytes 8 pos" by (simp add: v_def)
    have len: "unat (word_of_nat (length (dx_value d)) :: u32) = length (dx_value d)"
      using ok by (simp add: unat_of_len disk_xattr_ok_def)
    from yields_md_at [OF im c, of 8 M True] v obtain c2 where
      rd2: "yields E M (sqfs_md_read True c 8) (Ok (le_bytes 8 pos, c2))" and c2: "md_at (ev_img E) c2 rest"
      by auto
    let ?cv = "sqfs_md_cursor_inode pos (xattr_base (ev_img E))"
    have "md_at (ev_img E) ?cv (xattr_val_bytes \<lparr>xv_vsize = word_of_nat (length (dx_value d))\<rparr> @ dx_value d)"
      using ok(1) Some by (simp add: disk_xattr_ok_def xattr_val_stored_def)
    from yields_md_at [OF im this length_xattr_val_bytes, of M True] obtain c3 where
      rd3: "yields E M (sqfs_md_read True ?cv 4)
        (Ok (xattr_val_bytes \<lparr>xv_vsize = word_of_nat (length (dx_value d))\<rparr>, c3))"
      and c3: "md_at (ev_img E) c3 (dx_value d)"
      by auto
    have xi: "yields E M (io_gets fs_xattr_info) (Ok (fs_xattr_info (ev_img E)))"
      by (rule yields_image) (metis fs_img_fields(8))
    let ?x3 = "?x2\<lparr>xa_c_next := c2, xa_cursors := xa_cursors x1 OR CURS_NEXT, xa_c_val := c3,
      xa_val := \<lparr>xv_vsize = word_of_nat (length (dx_value d))\<rparr>\<rparr>"
    let ?x' = "?x3\<lparr>xa_cursors := xa_cursors ?x3 OR CURS_VAL\<rparr>"
    have ool: "yields E M (if \<not> xa_ool ?x2 then io_ret ?x2 else
       io_bind (sqfs_md_read True (xa_c_val ?x2) 8) (\<lambda>(bs, c).
       let pos = sqfs_swapin64 bs; x = ?x2\<lparr>xa_c_next := c, xa_cursors := xa_cursors ?x2 OR CURS_NEXT\<rparr> in
       io_bind (io_gets fs_xattr_info) (\<lambda>xinfo.
       io_bind (sqfs_md_read True
         (sqfs_md_cursor_inode pos (off_of_u64 (xt_xattr_table_start xinfo))) sizeof_xattr_val) (\<lambda>(bs, c).
       io_ret (x\<lparr>xa_c_val := c, xa_val := sqfs_swapin_xattr_val bs\<rparr>))))) (Ok ?x3)"
      using ok(2) Some
      by (simp, intro yields_bind_Ok [OF rd2])
         (simp, intro yields_bind_Ok [OF xi] yields_bind_Ok [OF rd3 [unfolded xattr_base_def]],
          simp add: yields_ret)
    have "yields E M (sqfs_xattr_value_size x) (Ok (length (dx_value d), ?x'))"
      unfolding sqfs_xattr_value_size_def
      by (intro yields_bind_Ok [OF nm], simp only: prod.case, intro yields_bind_Ok [OF rd],
          simp only: prod.case Let_def swapin_xattr_val_bytes, intro yields_bind_Ok [OF ool [unfolded Let_def]])
         (simp add: len yields_ret)
    moreover have "xattr_at (ev_img E) d rest ?x'"
      using x1 c2 c3 len ok(2) Some by (simp add: xattr_at_def)
    ultimately show ?thesis using x1(3) by (intro exI [of _ ?x']) simp
  qed
qed

lemma sqfs_xattr_value_at:
  assumes im: "img_ok (ev_img E)" and x: "xattr_at (ev_img E) d rest x"
  shows "\<exists>x'. yields E M (sqfs_xattr_value x buf) (Ok (if buf then dx_value d else [], x')) \<and>
    xattr_at (ev_img E) d rest x' \<and> xa_remain x' = xa_remain x \<and> bit (xa_cursors x') 2"
proof -
  have "\<exists>n x1. yields E M (if xa_cursors x AND CURS_VAL = 0 then sqfs_xattr_value_size x else io_ret (0, x))
      (Ok (n, x1)) \<and> xattr_at (ev_img E) d rest x1 \<and> xa_remain x1 = xa_remain x \<and> bit (xa_cursors x1) 1"
  proof (cases "bit (xa_cursors x) 1")
    case True
    then show ?thesis using x by (intro exI [of _ 0] exI [of _ x]) (simp add: yields_ret)
  next
    case False
    then show ?thesis using sqfs_xattr_value_size_at [OF assms, of M] by auto
  qed
  then obtain n x1 where vs: "yields E M (if xa_cursors x AND CURS_VAL = 0 then sqfs_xattr_value_size x
      else io_ret (0, x)) (Ok (n, x1))" and x1: "xattr_at (ev_img E) d rest x1" "bit (xa_cursors x1) 1"
      "xa_remain x1 = xa_remain x" by blast
  let ?more = "if xa_ool x1 then [] else rest"
  have "md_at (ev_img E) (xa_c_val x1) (dx_value d @ ?more)"
    and len: "length (dx_value d) = unat (xv_vsize (xa_val x1))" using x1 by (auto simp: xattr_at_def)
  from yields_md_at [OF im this, of M buf] obtain c where
    rd: "yields E M (sqfs_md_read buf (xa_c_val x1) (unat (xv_vsize (xa_val x1))))
      (Ok (if buf then dx_value d else [], c))" and c: "md_at (ev_img E) c ?more" .
  let ?x' = "if xa_ool x1 then x1 else x1\<lparr>xa_c_next := c, xa_cursors := xa_cursors x1 OR CURS_NEXT\<rparr>"
  have "yields E M (sqfs_xattr_value x buf) (Ok (if buf then dx_value d else [], ?x'))"
    unfolding sqfs_xattr_value_def
    by (intro yields_bind_Ok [OF vs], simp only: prod.case, intro yields_bind_Ok [OF rd]) (simp add: yields_ret)
  moreover have "xattr_at (ev_img E) d rest ?x'" "bit (xa_cursors ?x') 2"
    using x1 c by (auto simp: xattr_at_def)
  ultimately show ?thesis using x1(3) by (intro exI [of _ ?x']) simp
qed

text \<open>The iterator stands before the attributes \<open>ds\<close>: freshly opened, or on the entry before them.\<close>

definition xattr_before :: "sqfs_image \<Rightarrow> disk_xattr list \<Rightarrow> sqfs_xattr \<Rightarrow> bool" where
  "xattr_before im ds x \<longleftrightarrow> xa_remain x = length ds \<and> (\<forall>d \<in> set ds. disk_xattr_ok im d) \<and>
     (bit (xa_cursors x) 2 \<and> md_at im (xa_c_next x) (xattr_run ds) \<or>
      (\<exists>d. xattr_at im d (xattr_run ds) x))"

text \<open>Stepping over an entry whose value was not read treats the reference of an out-of-line value
  as the value.\<close>

lemma xattr_at_inline:
  assumes "xattr_at im d rest x" and "\<not> bit (xa_cursors x) 2"
  shows "\<exists>d'. xattr_at im d' rest (x\<lparr>xa_ool := False\<rparr>)"
proof (cases "dx_ool d")
  case None
  then show ?thesis using assms(1) by (intro exI [of _ d]) (auto simp: xattr_at_def)
next
  case (Some pos)
  let ?d = "d\<lparr>dx_value := le_bytes 8 pos, dx_ool := None\<rparr>"
  have "xattr_tail_bytes ?d = xattr_tail_bytes d" using Some by (simp add: xattr_tail_bytes_def)
  moreover have "\<not> bit (xa_cursors x) 1" using assms Some by (auto simp: xattr_at_def)
  ultimately show ?thesis using assms Some
    by (intro exI [of _ ?d]) (auto simp: xattr_at_def disk_xattr_ok_def)
qed

lemma disk_xattr_entry_type:
  assumes "disk_xattr_ok im d"
  shows "xe_type (disk_xattr_entry d) AND SQUASHFS_XATTR_PREFIX_MASK = dx_type d"
    and "xe_type (disk_xattr_entry d) AND SQUASHFS_XATTR_VALUE_OOL \<noteq> 0 \<longleftrightarrow> dx_ool d \<noteq> None"
    and "unat (xe_size (disk_xattr_entry d)) = length (dx_name d)"
proof -
  have "unat (dx_type d) \<le> 2" using assms by (simp add: disk_xattr_ok_def word_le_nat_alt)
  then have "unat (dx_type d) = 0 \<or> unat (dx_type d) = 1 \<or> unat (dx_type d) = 2" by linarith
  then have "dx_type d = 0 \<or> dx_type d = 1 \<or> dx_type d = 2"
    by (simp add: word_unat_eq_iff)
  then show "xe_type (disk_xattr_entry d) AND SQUASHFS_XATTR_PREFIX_MASK = dx_type d"
    and "xe_type (disk_xattr_entry d) AND SQUASHFS_XATTR_VALUE_OOL \<noteq> 0 \<longleftrightarrow> dx_ool d \<noteq> None"
    by (auto simp: disk_xattr_entry_def)
  show "unat (xe_size (disk_xattr_entry d)) = length (dx_name d)"
    using assms by (simp add: disk_xattr_entry_def disk_xattr_ok_def unat_of_nat)
qed

lemma sqfs_xattr_read_before:
  assumes im: "img_ok (ev_img E)" and x: "xattr_before (ev_img E) (d # ds) x"
  shows "\<exists>x'. yields E M (sqfs_xattr_read x) (Ok x') \<and> xattr_at (ev_img E) d (xattr_run ds) x' \<and>
    xa_remain x' = length ds \<and> xattr_before (ev_img E) ds x'"
proof -
  let ?run = "xattr_run (d # ds)"
  have ok: "disk_xattr_ok (ev_img E) d" "\<forall>d \<in> set ds. disk_xattr_ok (ev_img E) d" "xa_remain x = Suc (length ds)"
    using x by (simp_all add: xattr_before_def)
  have "\<exists>b x1. yields E M (if xa_cursors x AND CURS_NEXT = 0 then sqfs_xattr_value (x\<lparr>xa_ool := False\<rparr>) False
      else io_ret ([], x)) (Ok (b, x1)) \<and> md_at (ev_img E) (xa_c_next x1) ?run \<and> xa_remain x1 = Suc (length ds)"
  proof (cases "bit (xa_cursors x) 2")
    case True
    then have "md_at (ev_img E) (xa_c_next x) ?run" using x by (auto simp: xattr_before_def xattr_at_def)
    then show ?thesis using True ok by (intro exI [of _ "[]"] exI [of _ x]) (simp add: yields_ret)
  next
    case False
    then obtain d' where "xattr_at (ev_img E) d' ?run (x\<lparr>xa_ool := False\<rparr>)"
      using x xattr_at_inline unfolding xattr_before_def by blast
    from sqfs_xattr_value_at [OF im this, of M False] obtain x1 where
      "yields E M (sqfs_xattr_value (x\<lparr>xa_ool := False\<rparr>) False) (Ok ([], x1))"
      "xattr_at (ev_img E) d' ?run x1" "bit (xa_cursors x1) 2" "xa_remain x1 = xa_remain x" by auto
    then show ?thesis using False ok(3) by (intro exI [of _ "[]"] exI [of _ x1]) (simp add: xattr_at_def)
  qed
  then obtain b x1 where nx: "yields E M (if xa_cursors x AND CURS_NEXT = 0
      then sqfs_xattr_value (x\<lparr>xa_ool := False\<rparr>) False else io_ret ([], x)) (Ok (b, x1))"
    and x1: "md_at (ev_img E) (xa_c_next x1) ?run" "xa_remain x1 = Suc (length ds)" by blast
  have "?run = xattr_entry_bytes (disk_xattr_entry d) @ dx_name d @ xattr_tail_bytes d @ xattr_run ds"
    by (simp add: xattr_run_def disk_xattr_bytes_def)
  from yields_md_at [OF im x1(1) [unfolded this] length_xattr_entry_bytes, of M True] obtain c where
    rd: "yields E M (sqfs_md_read True (xa_c_next x1) 4) (Ok (xattr_entry_bytes (disk_xattr_entry d), c))"
    and c: "md_at (ev_img E) c (dx_name d @ xattr_tail_bytes d @ xattr_run ds)" by auto
  let ?x' = "x1\<lparr>xa_c_name := c, xa_entry := disk_xattr_entry d, xa_type := dx_type d,
    xa_ool := (dx_ool d \<noteq> None), xa_remain := xa_remain x1 - 1, xa_cursors := 0\<rparr>"
  note t = disk_xattr_entry_type [OF ok(1)]
  have le: "\<not> SQFS_XATTR_PREFIX_MAX < dx_type d" using ok(1) by (simp add: disk_xattr_ok_def not_less)
  have "yields E M (sqfs_xattr_read x) (Ok ?x')"
    unfolding sqfs_xattr_read_def using ok(3)
    by (simp only: nat.simps if_False, intro yields_bind_Ok [OF nx], simp only: prod.case,
        intro yields_bind_Ok [OF rd], simp only: prod.case Let_def swapin_xattr_entry_bytes t(1,2))
       (simp add: le yields_ret)
  moreover have "xattr_at (ev_img E) d (xattr_run ds) ?x'"
    using ok(1) c t(3) by (simp add: xattr_at_def)
  ultimately show ?thesis using ok(2) x1(2)
    by (intro exI [of _ ?x']) (auto simp: xattr_before_def)
qed

section \<open>Finding an attribute\<close>

text \<open>A \<^verbatim>\<open>malloc\<close> whose result is tested.\<close>

lemma fs_inv_mallocs:
  assumes "fs_inv E strict M s"
  shows "fs_inv E strict M (s\<lparr>fs_heap := (fs_heap s)\<lparr>hp_mallocs := n\<rparr>\<rparr>)"
proof -
  let ?s = "s\<lparr>fs_heap := (fs_heap s)\<lparr>hp_mallocs := n\<rparr>\<rparr>"
  have get: "bc_get w ?s = bc_get w s" for w by (cases w) simp_all
  have "fs_img ?s = fs_img s" "fs_refs ?s = fs_refs s"
    using get by (simp_all add: fs_refs_def bc_refs_def ix_refs_def sqfs_image.defs)
  then show ?thesis using assms unfolding fs_inv_def get by (simp add: bc_good_def ix_good_def)
qed

lemma yields_malloc:
  assumes "yields E M m r"
  shows "yields E M (io_bind (on_heap hp_malloc) (\<lambda>ok. if \<not> ok then io_raise SQFS_ERR else m)) r"
proof (rule implementsI)
  fix s assume s: "fs_clean E M s"
  let ?h = "fs_heap s" and ?s = "s\<lparr>fs_heap := (fs_heap s)\<lparr>hp_mallocs := Suc (hp_mallocs (fs_heap s))\<rparr>\<rparr>"
  have inv: "fs_clean E M ?s" by (rule fs_inv_mallocs [OF s])
  have run: "io_bind (on_heap hp_malloc) (\<lambda>ok. if \<not> ok then io_raise SQFS_ERR else m) s =
      (if hp_malloc_ok ?h (hp_mallocs ?h) then m ?s else (Err SQFS_ERR, ?s))"
    by (simp add: io_simps hp_malloc_run)
  have orc: "hp_malloc_ok ?h = ev_oracle E" using s by (simp add: fs_inv_def)
  show "\<exists>r' s'. io_bind (on_heap hp_malloc) (\<lambda>ok. if \<not> ok then io_raise SQFS_ERR else m) s = (r', s') \<and>
      (r' = r \<or> ev_oom E \<and> r' = Err SQFS_ERR) \<and>
      (case r' of Ok x \<Rightarrow> fs_clean E M s' | Err e \<Rightarrow> fs_safe E M s' | Fault u \<Rightarrow> True)"
  proof (cases "hp_malloc_ok ?h (hp_mallocs ?h)")
    case True
    then show ?thesis using implementsD [OF assms inv] unfolding run by simp blast
  next
    case False
    then have "ev_oom E" using orc by (auto simp: ev_oom_def)
    then show ?thesis unfolding run using False fs_clean_safe [OF inv] by simp
  qed
qed

definition xattr_is :: "u16 \<Rightarrow> bytes \<Rightarrow> disk_xattr \<Rightarrow> bool" where
  "xattr_is t nm d \<longleftrightarrow> dx_type d = t \<and> dx_name d = nm"

lemma xattr_find_loop_spec:
  assumes im: "img_ok (ev_img E)" and nm: "0 \<notin> set nm"
  shows "xattr_before (ev_img E) ds x \<Longrightarrow>
    (\<exists>x'. yields E M (xattr_find_loop (length ds) t nm x) (Ok (List.find (xattr_is t nm) ds \<noteq> None, x')) \<and>
      (\<forall>d. List.find (xattr_is t nm) ds = Some d \<longrightarrow> (\<exists>rest. xattr_at (ev_img E) d rest x')))"
proof (induction ds arbitrary: x)
  case Nil
  then have "xa_remain x = 0" by (simp add: xattr_before_def)
  then show ?case by (intro exI [of _ x]) (simp add: xattr_find_loop.simps [of 0] yields_ret)
next
  case (Cons d ds)
  from sqfs_xattr_read_before [OF im Cons.prems, of M] obtain x1 where
    rd: "yields E M (sqfs_xattr_read x) (Ok x1)" and x1: "xattr_at (ev_img E) d (xattr_run ds) x1"
      "xa_remain x1 = length ds" "xattr_before (ev_img E) ds x1" by blast
  have d: "xa_type x1 = dx_type d" "unat (xe_size (xa_entry x1)) = length (dx_name d)" "0 \<notin> set (dx_name d)"
    using x1(1) by (simp_all add: xattr_at_def disk_xattr_ok_def)
  have rem: "xa_remain x \<noteq> 0" using Cons.prems by (simp add: xattr_before_def)
  have step: "yields E M (xattr_find_loop (length (d # ds)) t nm x) r"
    if "yields E M (if dx_type d \<noteq> t \<or> length (dx_name d) \<noteq> length nm then xattr_find_loop (length ds) t nm x1
        else io_bind (sqfs_xattr_name x1 True False) (\<lambda>(cmp, x).
           if strncmp nm cmp (length nm) = 0 then io_ret (True, x)
           else xattr_find_loop (length ds) t nm x)) r" for r
    unfolding xattr_find_loop.simps [of "length (d # ds)" _ _ x] using rem
    by (simp, intro yields_bind_Ok [OF rd]) (use that d in simp)
  show ?case
  proof (cases "dx_type d \<noteq> t \<or> length (dx_name d) \<noteq> length nm")
    case True
    then have "\<not> xattr_is t nm d" by (auto simp: xattr_is_def)
    then show ?thesis using Cons.IH [OF x1(3)] step True by (auto split: if_splits)
  next
    case False
    from sqfs_xattr_name_at [OF im x1(1), of M True False] obtain x2 where
      nx: "yields E M (sqfs_xattr_name x1 True False) (Ok (dx_name d, x2))"
      and x2: "xattr_at (ev_img E) d (xattr_run ds) x2" "xa_remain x2 = xa_remain x1" by auto
    have cmp: "strncmp nm (dx_name d) (length nm) = 0 \<longleftrightarrow> xattr_is t nm d"
      using strncmp_name(2) [OF nm d(3)] False by (auto simp: xattr_is_def)
    have b: "xattr_before (ev_img E) ds x2" using x2 x1(2,3) by (auto simp: xattr_before_def)
    show ?thesis
    proof (cases "xattr_is t nm d")
      case True
      have "yields E M (xattr_find_loop (length (d # ds)) t nm x) (Ok (True, x2))"
        using False True cmp by (intro step) (simp, intro yields_bind_Ok [OF nx], simp add: yields_ret)
      then show ?thesis using True x2(1) by (intro exI [of _ x2]) auto
    next
      case no: False
      have "yields E M (xattr_find_loop (length (d # ds)) t nm x) r"
        if "yields E M (xattr_find_loop (length ds) t nm x2) r" for r
        using False no cmp that by (intro step) (simp, intro yields_bind_Ok [OF nx], simp)
      then show ?thesis using Cons.IH [OF b] no by auto
    qed
  qed
qed

text \<open>The prefix is found, and only a prefix.\<close>

lemma strncmp_prefix:
  assumes "0 \<notin> set p"
  shows "strncmp (p @ a) p (length p) = 0" and "strncmp a p (length p) = 0 \<Longrightarrow> take (length p) a = p"
proof -
  show "strncmp (p @ a) p (length p) = 0" by (induction p) (auto simp: Let_def)
  show "strncmp a p (length p) = 0 \<Longrightarrow> take (length p) a = p" using assms
  proof (induction p arbitrary: a)
    case (Cons y ys)
    then show ?case using Cons.IH [of "tl a"]
      by (cases a) (auto simp: Let_def uint_0_iff simp flip: word_uint_eq_iff split: if_splits)
  qed simp
qed

lemma sqfs_xattr_find_prefix_some:
  assumes "t \<le> SQFS_XATTR_PREFIX_MAX"
  shows "sqfs_xattr_find_prefix (sqfs_xattr_prefixes ! unat t @ nm) = Some t"
proof -
  have "unat t \<le> 2" using assms by (simp add: word_le_nat_alt)
  then have "unat t = 0 \<or> unat t = 1 \<or> unat t = 2" by linarith
  then have "t = 0 \<or> t = 1 \<or> t = 2" by (simp add: word_unat_eq_iff)
  then show ?thesis
    by (elim disjE) (simp_all add: sqfs_xattr_find_prefix_def sqfs_xattr_prefixes_def Let_def)
qed

lemma sqfs_xattr_find_prefix_none:
  assumes "\<forall>p \<in> set sqfs_xattr_prefixes. take (length p) name \<noteq> p"
  shows "sqfs_xattr_find_prefix name = None"
proof -
  have "find_prefix_loop name i ps = None" if "\<forall>p \<in> set ps. 0 \<notin> set p \<and> take (length p) name \<noteq> p" for i ps
    using that by (induction ps arbitrary: i) (auto dest: strncmp_prefix(2))
  moreover have "\<forall>p \<in> set sqfs_xattr_prefixes. 0 \<notin> set p" by (simp add: sqfs_xattr_prefixes_def)
  ultimately show ?thesis using assms by (simp add: sqfs_xattr_find_prefix_def)
qed

lemma yields_try_raise:
  assumes "yields E M m (Ok a)" and "yields E M (k a) r"
  shows "yields E M (io_try m (case_sum (\<lambda>_. io_raise SQFS_ERR) k)) r"
proof (rule implementsI)
  fix s assume "fs_clean E M s"
  from implementsD [OF assms(1) this] obtain r' s' where r': "m s = (r', s')"
    "r' = Ok a \<or> ev_oom E \<and> r' = Err SQFS_ERR"
    "case r' of Ok a \<Rightarrow> fs_clean E M s' | Err e \<Rightarrow> fs_safe E M s' | Fault u \<Rightarrow> True" by blast
  show "\<exists>r' s'. io_try m (case_sum (\<lambda>_. io_raise SQFS_ERR) k) s = (r', s') \<and>
      (r' = r \<or> ev_oom E \<and> r' = Err SQFS_ERR) \<and>
      (case r' of Ok x \<Rightarrow> fs_clean E M s' | Err e \<Rightarrow> fs_safe E M s' | Fault u \<Rightarrow> True)"
  proof (cases "r' = Ok a")
    case True
    then have "fs_clean E M s'" using r'(3) by simp
    from implementsD [OF assms(2) this] obtain r2 s2 where "k a s' = (r2, s2)"
      "r2 = r \<or> ev_oom E \<and> r2 = Err SQFS_ERR"
      "case r2 of Ok a \<Rightarrow> fs_clean E M s2 | Err e \<Rightarrow> fs_safe E M s2 | Fault u \<Rightarrow> True" by blast
    then show ?thesis using r'(1) True by (simp add: io_try_run)
  next
    case False
    then show ?thesis using r' by (auto simp: io_simps)
  qed
qed

text \<open>The attributes of an inode.\<close>

definition inode_xattrs :: "fs_env \<Rightarrow> sqfs_inode \<Rightarrow> disk_xattr list \<Rightarrow> bool" where
  "inode_xattrs E inode ds \<longleftrightarrow>
     (if xt_xattr_ids (fs_xattr_info (ev_img E)) = 0 \<or> in_xattr inode = SQUASHFS_INVALID_XATTR then ds = []
      else \<exists>tds info. table_holds (ev_img E) (fs_xattr_table (ev_img E)) tds \<and>
        tb_each (fs_xattr_table (ev_img E)) = sizeof_xattr_id \<and>
        unat (in_xattr inode) < tb_count (fs_xattr_table (ev_img E)) \<and>
        table_array (fs_xattr_table (ev_img E)) tds (unat (in_xattr inode)) = xattr_id_bytes info \<and>
        unat (xi_count info) = length ds \<and> (\<forall>d \<in> set ds. disk_xattr_ok (ev_img E) d) \<and>
        md_at (ev_img E) (sqfs_md_cursor_inode (xi_xattr info) (xattr_base (ev_img E))) (xattr_run ds))"

lemma sqfs_xattr_open_before:
  assumes h: "inode_xattrs E inode ds"
  shows "\<exists>x'. yields E M (sqfs_xattr_open inode x) (Ok x') \<and>
    (ds = [] \<and> xa_remain x' = 0 \<or> xattr_before (ev_img E) ds x')"
proof -
  let ?none = "xt_xattr_ids (fs_xattr_info (ev_img E)) = 0 \<or> in_xattr inode = SQUASHFS_INVALID_XATTR"
  have xi: "yields E M (io_gets fs_xattr_info) (Ok (fs_xattr_info (ev_img E)))"
    by (rule yields_image) (metis fs_img_fields(8))
  show ?thesis
  proof (cases ?none)
    case True
    then have "ds = []" using h by (auto simp: inode_xattrs_def)
    moreover have "yields E M (sqfs_xattr_open inode x) (Ok (x\<lparr>xa_remain := 0\<rparr>))"
      unfolding sqfs_xattr_open_def
      by (intro yields_bind_Ok [OF xi]) (use True in \<open>auto simp: Let_def intro: yields_ret\<close>)
    ultimately show ?thesis by (intro exI [of _ "x\<lparr>xa_remain := 0\<rparr>"]) simp
  next
    case False
    then obtain tds info where tab: "table_holds (ev_img E) (fs_xattr_table (ev_img E)) tds"
        "tb_each (fs_xattr_table (ev_img E)) = 16" "unat (in_xattr inode) < tb_count (fs_xattr_table (ev_img E))"
        "table_array (fs_xattr_table (ev_img E)) tds (unat (in_xattr inode)) = xattr_id_bytes info"
      and ds: "unat (xi_count info) = length ds" "\<forall>d \<in> set ds. disk_xattr_ok (ev_img E) d"
        "md_at (ev_img E) (sqfs_md_cursor_inode (xi_xattr info) (xattr_base (ev_img E))) (xattr_run ds)"
      using h unfolding inode_xattrs_def by (simp only: if_False) blast
    have tb: "yields E M (io_gets fs_xattr_table) (Ok (fs_xattr_table (ev_img E)))"
      by (rule yields_image) (metis fs_img_fields(9))
    have get: "yields E M (sqfs_table_get (fs_xattr_table (ev_img E)) (unat (in_xattr inode))) (Ok (xattr_id_bytes info))"
      using sqfs_table_get_array [OF tab(1,3), of M] tab(2,4) by simp
    let ?x' = "x\<lparr>xa_remain := 0\<rparr>\<lparr>xa_info := info,
          xa_c_next := sqfs_md_cursor_inode (xi_xattr info) (xattr_base (ev_img E)),
          xa_remain := unat (xi_count info), xa_cursors := CURS_NEXT\<rparr>"
    have "yields E M (sqfs_xattr_open inode x) (Ok ?x')"
      unfolding sqfs_xattr_open_def
      by (intro yields_bind_Ok [OF xi], use False in \<open>simp only: Let_def if_False\<close>)
         (intro yields_bind_Ok [OF tb] yields_try_raise [OF get], simp add: xattr_base_def yields_ret)
    moreover have "xattr_before (ev_img E) ds ?x'"
      using ds by (simp add: xattr_before_def bit_simps)
    ultimately show ?thesis by blast
  qed
qed

text \<open>What a lookup answers: the size of the value, and the value when the buffer takes it.\<close>

definition xattr_answer :: "size_t option \<Rightarrow> disk_xattr option \<Rightarrow> size_t \<times> bytes option" where
  "xattr_answer buf r = (case r of None \<Rightarrow> (0, None)
   | Some d \<Rightarrow> (length (dx_value d), case buf of None \<Rightarrow> None
       | Some sz \<Rightarrow> if length (dx_value d) \<le> sz then Some (dx_value d) else None))"

lemma sqfs_xattr_lookup_finds:
  assumes im: "img_ok (ev_img E)" and h: "inode_xattrs E inode ds"
    and t: "t \<le> SQFS_XATTR_PREFIX_MAX" and nm: "0 \<notin> set nm"
  shows "yields E M (sqfs_xattr_lookup x inode (sqfs_xattr_prefixes ! unat t @ nm) buf)
    (Ok (xattr_answer buf (List.find (xattr_is t nm) ds)))"
proof -
  let ?found = "List.find (xattr_is t nm) ds"
  from sqfs_xattr_open_before [OF h, of M x] obtain x1 where op: "yields E M (sqfs_xattr_open inode x) (Ok x1)"
    and x1: "ds = [] \<and> xa_remain x1 = 0 \<or> xattr_before (ev_img E) ds x1" by blast
  have rem: "xa_remain x1 = length ds" using x1 by (auto simp: xattr_before_def)
  have "\<exists>x2. yields E M (xattr_find_loop (length ds) t nm x1) (Ok (?found \<noteq> None, x2)) \<and>
      (\<forall>d. ?found = Some d \<longrightarrow> (\<exists>rest. xattr_at (ev_img E) d rest x2))"
    using x1
  proof
    assume "ds = [] \<and> xa_remain x1 = 0"
    then show ?thesis by (intro exI [of _ x1]) (simp add: xattr_find_loop.simps [of 0] yields_ret)
  qed (rule xattr_find_loop_spec [OF im nm])
  then obtain x2 where lp: "yields E M (xattr_find_loop (length ds) t nm x1) (Ok (?found \<noteq> None, x2))"
    and x2: "\<And>d. ?found = Some d \<Longrightarrow> \<exists>rest. xattr_at (ev_img E) d rest x2" by blast
  have pf: "xattr_prefix t = Ok (sqfs_xattr_prefixes ! unat t)"
    using t by (simp add: word_le_nat_alt xattr_prefix_def sqfs_xattr_prefixes_def)
  have nm_drop: "drop (length (sqfs_xattr_prefixes ! unat t)) (sqfs_xattr_prefixes ! unat t @ nm) = nm" by simp
  have fd: "yields E M (sqfs_xattr_find x1 (sqfs_xattr_prefixes ! unat t @ nm)) (Ok (?found \<noteq> None, x2))"
    unfolding sqfs_xattr_find_def sqfs_xattr_find_prefix_some [OF t] option.case pf io_lift_Ok io_bind_ret
      rem nm_drop by (rule yields_malloc [OF lp])
  show ?thesis
  proof (cases ?found)
    case None
    then show ?thesis unfolding sqfs_xattr_lookup_def
      by (intro yields_bind_Ok [OF op] yields_bind_Ok [OF fd]) (simp add: xattr_answer_def yields_ret)
  next
    case (Some d)
    then obtain rest where "xattr_at (ev_img E) d rest x2" using x2 by blast
    from sqfs_xattr_value_size_at [OF im this, of M] obtain x3 where
      vs: "yields E M (sqfs_xattr_value_size x2) (Ok (length (dx_value d), x3))"
      and x3: "xattr_at (ev_img E) d rest x3" by blast
    from sqfs_xattr_value_at [OF im x3, of M True] obtain x4 where
      v: "yields E M (sqfs_xattr_value x3 True) (Ok (dx_value d, x4))" by auto
    show ?thesis unfolding sqfs_xattr_lookup_def
      by (intro yields_bind_Ok [OF op] yields_bind_Ok [OF fd], simp only: prod.case Some, simp,
          intro yields_bind_Ok [OF vs])
         (auto simp: xattr_answer_def split: option.splits intro!: yields_ret yields_bind_Ok [OF v])
  qed
qed

end
