(* ===== verification/Sqfs_Decompress.thy ===== *)
theory Sqfs_Decompress
  imports Sqfs_Md
begin

text \<open>
  The codec wrappers of \<^verbatim>\<open>decompress.c\<close>. The compression libraries are not part of the
  program: the record \<open>codec_libs\<close> holds their entry points, \<open>None\<close> where the library was not found
  when the program was configured. \<open>libs_ok\<close> is what their documentation promises: no more bytes
  than the buffer takes, and a result that says how many there are.

  The lemmas show that every decompressor the program can select keeps the promise the block
  reader relies on (\<open>codec_ok\<close>), and that the two lists of codecs in the file agree.
\<close>

section \<open>The libraries\<close>

datatype lzma_action = LZMA_RUN | LZMA_FINISH

text \<open>An entry point takes the input and the size of the output buffer and returns its status and
  what it wrote. \<open>'st\<close> is the state of an \<^verbatim>\<open>lzma_stream\<close>; \<open>lib_lzma_code\<close> returns the status,
  the input it left, what it wrote and the next state.\<close>

record 'st codec_libs =
  lib_uncompress :: "(bytes \<Rightarrow> size_t \<Rightarrow> int \<times> bytes) option"
  lib_lzma_buffer_decode :: "(bytes \<Rightarrow> size_t \<Rightarrow> int \<times> bytes) option"
  lib_lzma_alone_decoder :: "int \<times> 'st"
  lib_lzma_code :: "'st \<Rightarrow> bytes \<Rightarrow> size_t \<Rightarrow> lzma_action \<Rightarrow> int \<times> size_t \<times> bytes \<times> 'st"
  lib_lzo1x :: "(bytes \<Rightarrow> size_t \<Rightarrow> int \<times> bytes) option"
  lib_lz4 :: "(bytes \<Rightarrow> int \<Rightarrow> int \<Rightarrow> int \<times> bytes) option"
  lib_zstd :: "(bytes \<Rightarrow> size_t \<Rightarrow> size_t \<times> bytes) option"
  lib_zstd_isError :: "size_t \<Rightarrow> bool"

abbreviation (input) Z_OK :: int where "Z_OK \<equiv> 0"
abbreviation (input) LZMA_OK :: int where "LZMA_OK \<equiv> 0"
abbreviation (input) LZMA_STREAM_END :: int where "LZMA_STREAM_END \<equiv> 1"
abbreviation (input) LZO_E_OK :: int where "LZO_E_OK \<equiv> 0"
abbreviation (input) LZMA_PROPS_SIZE :: nat where "LZMA_PROPS_SIZE \<equiv> 5"
abbreviation (input) LZMA_UNCOMP_SIZE :: nat where "LZMA_UNCOMP_SIZE \<equiv> 8"
abbreviation (input) LZMA_HEADER_SIZE :: nat where "LZMA_HEADER_SIZE \<equiv> 13"

abbreviation (input) ZLIB_COMPRESSION :: int where "ZLIB_COMPRESSION \<equiv> 1"
abbreviation (input) LZMA_COMPRESSION :: int where "LZMA_COMPRESSION \<equiv> 2"
abbreviation (input) LZO_COMPRESSION :: int where "LZO_COMPRESSION \<equiv> 3"
abbreviation (input) XZ_COMPRESSION :: int where "XZ_COMPRESSION \<equiv> 4"
abbreviation (input) LZ4_COMPRESSION :: int where "LZ4_COMPRESSION \<equiv> 5"
abbreviation (input) ZSTD_COMPRESSION :: int where "ZSTD_COMPRESSION \<equiv> 6"
abbreviation (input) SQFS_COMP_UNKNOWN :: int where "SQFS_COMP_UNKNOWN \<equiv> 0"
abbreviation (input) SQFS_COMP_MAX :: nat where "SQFS_COMP_MAX \<equiv> 16"

section \<open>The wrappers\<close>

definition sqfs_decompressor_zlib :: "(bytes \<Rightarrow> size_t \<Rightarrow> int \<times> bytes) \<Rightarrow> sqfs_decompressor" where
  "sqfs_decompressor_zlib uncompress inp outsz =
     (case uncompress inp outsz of (zerr, out) \<Rightarrow> if zerr \<noteq> Z_OK then Err SQFS_ERR else Ok out)"

definition sqfs_decompressor_xz :: "(bytes \<Rightarrow> size_t \<Rightarrow> int \<times> bytes) \<Rightarrow> sqfs_decompressor" where
  "sqfs_decompressor_xz decode inp outsz =
     (case decode inp outsz of (err, out) \<Rightarrow> if err \<noteq> LZMA_OK then Err SQFS_ERR else Ok out)"

text \<open>\<^verbatim>\<open>sqfs_decompressor_lzma\<close> copies a header of 13 bytes whatever the size of the input. It
  reports the size the header announces: when the stream produced fewer bytes the rest of the
  block is whatever \<^verbatim>\<open>malloc\<close> returned.\<close>

definition sqfs_decompressor_lzma :: "'st codec_libs \<Rightarrow> sqfs_decompressor" where
  "sqfs_decompressor_lzma L inp outsz =
     (case lib_lzma_alone_decoder L of (res, strm) \<Rightarrow>
      if res \<noteq> LZMA_OK then Err SQFS_ERR else
      if length inp < LZMA_HEADER_SIZE then Fault Out_Of_Bounds else
      let header = take LZMA_HEADER_SIZE inp;
          uncompressed_size = unat (sqfs_swapin32 (take 4 (drop LZMA_PROPS_SIZE header)))
      in if outsz < uncompressed_size then Err SQFS_ERR else
      let header = take LZMA_PROPS_SIZE header @ replicate LZMA_UNCOMP_SIZE 255
      in case lib_lzma_code L strm header outsz LZMA_RUN of (res, avail_in, out1, strm) \<Rightarrow>
      if res \<noteq> LZMA_OK \<or> avail_in \<noteq> 0 then Err SQFS_ERR else
      case lib_lzma_code L strm (drop LZMA_HEADER_SIZE inp) (outsz - length out1) LZMA_FINISH
        of (res, avail_in, out2, strm) \<Rightarrow>
      let total_out = length out1 + length out2 in
      if res = LZMA_STREAM_END \<or> res = LZMA_OK \<and> uncompressed_size \<le> total_out \<and> avail_in = 0
      then if total_out < uncompressed_size then Fault Uninitialised
        else Ok (take uncompressed_size (out1 @ out2))
      else Err SQFS_ERR)"

definition sqfs_decompressor_lzo :: "(bytes \<Rightarrow> size_t \<Rightarrow> int \<times> bytes) \<Rightarrow> sqfs_decompressor" where
  "sqfs_decompressor_lzo decompress inp outsz =
     (case decompress inp outsz of (err, out) \<Rightarrow> if err \<noteq> LZO_E_OK then Err SQFS_ERR else Ok out)"

text \<open>\<^verbatim>\<open>LZ4_decompress_safe\<close> takes both sizes as \<^verbatim>\<open>int\<close>.\<close>

definition int_of_size :: "size_t \<Rightarrow> int" where
  "int_of_size n = sint (word_of_nat n :: u32)"

definition sqfs_decompressor_lz4 :: "(bytes \<Rightarrow> int \<Rightarrow> int \<Rightarrow> int \<times> bytes) \<Rightarrow> sqfs_decompressor" where
  "sqfs_decompressor_lz4 decompress_safe inp outsz =
     (case decompress_safe inp (int_of_size (length inp)) (int_of_size outsz) of (lz4out, out) \<Rightarrow>
      if lz4out < 0 then Err SQFS_ERR
      else if length out < nat lz4out then Fault Uninitialised else Ok (take (nat lz4out) out))"

definition sqfs_decompressor_zstd ::
  "(bytes \<Rightarrow> size_t \<Rightarrow> size_t \<times> bytes) \<Rightarrow> (size_t \<Rightarrow> bool) \<Rightarrow> sqfs_decompressor" where
  "sqfs_decompressor_zstd decompress isError inp outsz =
     (case decompress inp outsz of (zstdout, out) \<Rightarrow>
      if isError zstdout then Err SQFS_ERR
      else if length out < zstdout then Fault Uninitialised else Ok (take zstdout out))"

definition sqfs_decompressor_get :: "'st codec_libs \<Rightarrow> int \<Rightarrow> sqfs_decompressor option" where
  "sqfs_decompressor_get L type =
     (if type = ZLIB_COMPRESSION then map_option sqfs_decompressor_zlib (lib_uncompress L)
      else if type = LZMA_COMPRESSION then
        map_option (\<lambda>_. sqfs_decompressor_lzma L) (lib_lzma_buffer_decode L)
      else if type = LZO_COMPRESSION then map_option sqfs_decompressor_lzo (lib_lzo1x L)
      else if type = XZ_COMPRESSION then map_option sqfs_decompressor_xz (lib_lzma_buffer_decode L)
      else if type = LZ4_COMPRESSION then map_option sqfs_decompressor_lz4 (lib_lz4 L)
      else if type = ZSTD_COMPRESSION then
        map_option (\<lambda>f. sqfs_decompressor_zstd f (lib_zstd_isError L)) (lib_zstd L)
      else None)"

definition sqfs_compression_names :: "string option list" where
  "sqfs_compression_names =
     [None, Some ''zlib'', Some ''lzma'', Some ''lzo'', Some ''xz'', Some ''lz4'', Some ''zstd''] @ replicate 9 None"

definition sqfs_compression_name :: "int \<Rightarrow> string option" where
  "sqfs_compression_name type =
     (if type < 0 \<or> int SQFS_COMP_MAX \<le> type then None else sqfs_compression_names ! nat type)"

text \<open>The array \<^verbatim>\<open>sqfs_compression_supported\<close> fills.\<close>

definition sqfs_compression_supported :: "'st codec_libs \<Rightarrow> int list" where
  "sqfs_compression_supported L =
     (let sup = (if lib_uncompress L \<noteq> None then [ZLIB_COMPRESSION] else [])
        @ (if lib_lzma_buffer_decode L \<noteq> None then [LZMA_COMPRESSION] else [])
        @ (if lib_lzo1x L \<noteq> None then [LZO_COMPRESSION] else [])
        @ (if lib_lzma_buffer_decode L \<noteq> None then [XZ_COMPRESSION] else [])
        @ (if lib_lz4 L \<noteq> None then [LZ4_COMPRESSION] else [])
        @ (if lib_zstd L \<noteq> None then [ZSTD_COMPRESSION] else [])
      in sup @ replicate (SQFS_COMP_MAX - length sup) SQFS_COMP_UNKNOWN)"

section \<open>What the block reader relies on\<close>

text \<open>The documented behaviour of the libraries.\<close>

definition libs_ok :: "'st codec_libs \<Rightarrow> bool" where
  "libs_ok L \<longleftrightarrow>
     (\<forall>f. lib_uncompress L = Some f \<longrightarrow> (\<forall>inp n. length (snd (f inp n)) \<le> n)) \<and>
     (\<forall>f. lib_lzma_buffer_decode L = Some f \<longrightarrow> (\<forall>inp n. length (snd (f inp n)) \<le> n)) \<and>
     (\<forall>f. lib_lzo1x L = Some f \<longrightarrow> (\<forall>inp n. length (snd (f inp n)) \<le> n)) \<and>
     (\<forall>f. lib_lz4 L = Some f \<longrightarrow> (\<forall>inp i n. fst (f inp i n) \<le> n)) \<and>
     (\<forall>f. lib_zstd L = Some f \<longrightarrow>
        (\<forall>inp n. \<not> lib_zstd_isError L (fst (f inp n)) \<longrightarrow> fst (f inp n) \<le> n))"

lemma int_of_size_le: "int_of_size n \<le> int n"
proof -
  have "take_bit 32 (uint w) = uint w" for w :: u32
    using uint_lt2p [of w] by (intro take_bit_int_eq_self) simp_all
  then have "int_of_size n \<le> uint (word_of_nat n :: u32)"
    unfolding int_of_size_def by (simp add: sint_uint signed_take_bit_eq_take_bit_minus)
  also have "\<dots> \<le> int n" by (simp add: uint_nat unat_of_nat)
  finally show ?thesis .
qed

lemma sqfs_decompressor_get_ok:
  assumes "libs_ok L" and "sqfs_decompressor_get L type = Some d"
  shows "codec_ok d"
proof -
  have lz4: "codec_ok (sqfs_decompressor_lz4 f)" if "\<forall>inp i n. fst (f inp i n) \<le> n" for f
    unfolding codec_ok_def
  proof (intro allI)
    fix bs n
    obtain r out where f: "f bs (int_of_size (length bs)) (int_of_size n) = (r, out)" by fastforce
    have "r \<le> int_of_size n" using that f by (metis fst_conv)
    then have "nat r \<le> n" using int_of_size_le [of n] by linarith
    then show "case sqfs_decompressor_lz4 f bs n of
        Ok out \<Rightarrow> length out \<le> n | Err e \<Rightarrow> True | Fault u \<Rightarrow> u \<noteq> Diverges"
      using f by (simp add: sqfs_decompressor_lz4_def)
  qed
  have lzma: "codec_ok (sqfs_decompressor_lzma L)"
    by (auto simp: codec_ok_def sqfs_decompressor_lzma_def Let_def split: prod.splits)
  have one: "codec_ok (sqfs_decompressor_zlib f)" "codec_ok (sqfs_decompressor_xz f)" "codec_ok (sqfs_decompressor_lzo f)"
    if "\<forall>inp n. length (snd (f inp n)) \<le> n" for f
    using that by (auto simp: codec_ok_def sqfs_decompressor_zlib_def sqfs_decompressor_xz_def
        sqfs_decompressor_lzo_def split: prod.splits) (metis snd_conv)+
  have zstd: "codec_ok (sqfs_decompressor_zstd f e)" if "\<forall>inp n. \<not> e (fst (f inp n)) \<longrightarrow> fst (f inp n) \<le> n" for f e
    using that by (auto simp: codec_ok_def sqfs_decompressor_zstd_def split: prod.splits) (metis fst_conv)
  show ?thesis
    using assms one lz4 lzma zstd
    by (auto simp: sqfs_decompressor_get_def libs_ok_def split: if_splits)
qed

lemma sqfs_compression_supported_get:
  "type \<in> set (sqfs_compression_supported L) \<longleftrightarrow>
     sqfs_decompressor_get L type \<noteq> None \<or> type = SQFS_COMP_UNKNOWN"
  by (auto simp: sqfs_compression_supported_def sqfs_decompressor_get_def Let_def)

lemma sqfs_compression_name_get:
  "sqfs_decompressor_get L type \<noteq> None \<Longrightarrow> sqfs_compression_name type \<noteq> None"
  by (auto simp: sqfs_decompressor_get_def sqfs_compression_name_def sqfs_compression_names_def split: if_splits)

end
