(* ===== verification/Sqfs_Init.thy ===== *)
theory Sqfs_Init
  imports Sqfs_File Sqfs_Xattr Sqfs_Decompress
begin

text \<open>
  Opening and closing an image: \<^verbatim>\<open>sqfs_init_with_subdir\<close>, \<^verbatim>\<open>sqfs_init\<close> and
  \<^verbatim>\<open>sqfs_destroy\<close> of \<^verbatim>\<open>fs.c\<close>. The superblock is checked, the tables and the caches are
  set up one after the other (a failure is remembered, not returned at once), and a subdirectory may
  become the root.

  The lemmas say which errors a bad superblock gives, that a successful \<^verbatim>\<open>sqfs_init\<close>
  establishes the invariant every other operation relies on, and that \<^verbatim>\<open>sqfs_destroy\<close>
  gives every block back.
\<close>

section \<open>Operations\<close>

definition sqfs_version_supported :: "int \<times> int \<times> int \<times> int" where
  "sqfs_version_supported = (uint SQUASHFS_MAJOR, 0, uint SQUASHFS_MAJOR, uint SQUASHFS_MINOR)"

definition sqfs_version :: "sqfs \<Rightarrow> int \<times> int" where
  "sqfs_version fs = (uint (sb_major (fs_sb fs)), uint (sb_minor (fs_sb fs)))"

definition sqfs_compression :: "sqfs \<Rightarrow> int" where
  "sqfs_compression fs = uint (sb_compression (fs_sb fs))"

text \<open>\<^verbatim>\<open>memset(fs, 0, sizeof(*fs))\<close>, then the descriptor and the offset.\<close>

definition table_zero :: sqfs_table where
  "table_zero = \<lparr>tb_each = 0, tb_count = 0, tb_blocks = None\<rparr>"

definition sqfs_zero :: "bytes \<Rightarrow> size_t \<Rightarrow> heap \<Rightarrow> sqfs" where
  "sqfs_zero fd off h = \<lparr>fs_fd = fd, fs_offset = off, fs_uid = 0, fs_gid = 0,
     fs_sb = sqfs_swapin_super_block (replicate sizeof_super_block 0),
     fs_id_table = table_zero, fs_frag_table = table_zero, fs_export_table = table_zero,
     fs_decompressor = None,
     fs_xattr_info = sqfs_swapin_xattr_id_table (replicate sizeof_xattr_id_table 0),
     fs_xattr_table = table_zero, fs_md_cache = None, fs_data_cache = None, fs_frag_cache = None,
     fs_blockidx = None, fs_heap = h\<rparr>"

text \<open>\<^verbatim>\<open>err |= ...\<close>: whether a step failed.\<close>

definition init_step :: "(sqfs, unit) io \<Rightarrow> (sqfs, bool) io" where
  "init_step m = io_try m (\<lambda>x. case x of Inl e \<Rightarrow> io_ret True | Inr _ \<Rightarrow> io_ret False)"

definition init_table ::
  "(sqfs \<Rightarrow> sqfs_table) \<Rightarrow> (sqfs_table \<Rightarrow> sqfs \<Rightarrow> sqfs) \<Rightarrow> u64 \<Rightarrow> size_t \<Rightarrow> size_t \<Rightarrow> (sqfs, bool) io" where
  "init_table get put start each cnt =
     io_bind (io_gets (\<lambda>s. s)) (\<lambda>s.
     io_bind (on_heap (sqfs_table_init (get s) (fs_fd s) (off_of_u64 (start + word_of_nat (fs_offset s))) each cnt))
       (\<lambda>(e, tab).
     io_bind (io_modify (put tab)) (\<lambda>_. io_ret (e \<noteq> None))))"

definition init_cache ::
  "('e sqfs_cache \<Rightarrow> sqfs \<Rightarrow> sqfs) \<Rightarrow> (heap, 'e sqfs_cache_internal) io \<Rightarrow> (sqfs, bool) io" where
  "init_cache put m = init_step (io_bind (on_heap m) (\<lambda>c. io_modify (put (Some c))))"

definition destroy_cache ::
  "(sqfs \<Rightarrow> 'e sqfs_cache) \<Rightarrow> ('e sqfs_cache \<Rightarrow> sqfs \<Rightarrow> sqfs) \<Rightarrow> (sqfs, unit) io" where
  "destroy_cache get put = io_on (\<lambda>s. (get s, fs_heap s)) (\<lambda>(c, h) s. put c (s\<lparr>fs_heap := h\<rparr>)) sqfs_cache_destroy"

text \<open>\<^verbatim>\<open>sqfs_destroy\<close>; the xattr table is not released.\<close>

definition destroy_tables :: "sqfs \<Rightarrow> sqfs" where
  "destroy_tables s = (let s = s\<lparr>fs_id_table := sqfs_table_destroy (fs_id_table s),
       fs_frag_table := sqfs_table_destroy (fs_frag_table s)\<rparr>
     in if sqfs_export_ok s then s\<lparr>fs_export_table := sqfs_table_destroy (fs_export_table s)\<rparr> else s)"

definition sqfs_destroy :: "(sqfs, unit) io" where
  "sqfs_destroy =
     io_bind (io_modify destroy_tables) (\<lambda>_.
     io_bind (destroy_cache fs_md_cache (\<lambda>c s. s\<lparr>fs_md_cache := c\<rparr>)) (\<lambda>_.
     io_bind (destroy_cache fs_data_cache (\<lambda>c s. s\<lparr>fs_data_cache := c\<rparr>)) (\<lambda>_.
     io_bind (destroy_cache fs_frag_cache (\<lambda>c s. s\<lparr>fs_frag_cache := c\<rparr>)) (\<lambda>_.
     destroy_cache fs_blockidx (\<lambda>c s. s\<lparr>fs_blockidx := c\<rparr>)))))"

text \<open>The superblock: swapped in, its version fields swapped back when the magic number says that
  they were written in the other byte order, then checked.\<close>

definition sb_checked :: "squashfs_super_block \<Rightarrow> squashfs_super_block res" where
  "sb_checked sb =
     (if sb_magic sb \<noteq> SQUASHFS_MAGIC then
        if sb_magic sb \<noteq> SQFS_MAGIC_SWAP then Err SQFS_BADFORMAT
        else Ok (sb\<lparr>sb_major := sqfs_swap16 (sb_major sb), sb_minor := sqfs_swap16 (sb_minor sb)\<rparr>)
      else Ok sb)"

definition sb_version_ok :: "squashfs_super_block \<Rightarrow> bool" where
  "sb_version_ok sb \<longleftrightarrow> sb_major sb = SQUASHFS_MAJOR \<and> sb_minor sb \<le> SQUASHFS_MINOR"

definition DATA_CACHED_BLKS :: size_t where "DATA_CACHED_BLKS = 1"
definition FRAG_CACHED_BLKS :: size_t where "FRAG_CACHED_BLKS = 3"

text \<open>The tables and the caches, from the identifiers to the block index; the result says whether a
  step failed.\<close>

definition init_tables :: "squashfs_super_block \<Rightarrow> (sqfs, bool) io" where
  "init_tables sb =
     io_bind (init_table fs_id_table (\<lambda>t s. s\<lparr>fs_id_table := t\<rparr>) (sb_id_table_start sb) 4 (unat (sb_no_ids sb))) (\<lambda>e1.
     io_bind (init_table fs_frag_table (\<lambda>t s. s\<lparr>fs_frag_table := t\<rparr>) (sb_fragment_table_start sb)
       sizeof_fragment_entry (unat (sb_fragments sb))) (\<lambda>e2.
     io_bind (io_gets sqfs_export_ok) (\<lambda>ok.
     io_bind (if ok then init_table fs_export_table (\<lambda>t s. s\<lparr>fs_export_table := t\<rparr>) (sb_lookup_table_start sb)
         8 (unat (sb_inodes sb)) else io_ret False) (\<lambda>e3.
     io_bind (init_step sqfs_xattr_init) (\<lambda>e4. io_ret (e1 \<or> e2 \<or> e3 \<or> e4))))))"

definition init_caches :: "(sqfs, bool) io" where
  "init_caches =
     io_bind (init_cache (\<lambda>c s. s\<lparr>fs_md_cache := c\<rparr>) (sqfs_block_cache_init SQUASHFS_CACHED_BLKS)) (\<lambda>e1.
     io_bind (init_cache (\<lambda>c s. s\<lparr>fs_data_cache := c\<rparr>) (sqfs_block_cache_init DATA_CACHED_BLKS)) (\<lambda>e2.
     io_bind (init_cache (\<lambda>c s. s\<lparr>fs_frag_cache := c\<rparr>) (sqfs_block_cache_init FRAG_CACHED_BLKS)) (\<lambda>e3.
     io_bind (init_cache (\<lambda>c s. s\<lparr>fs_blockidx := c\<rparr>) sqfs_blockidx_init) (\<lambda>e4.
     io_ret (e1 \<or> e2 \<or> e3 \<or> e4)))))"

text \<open>\<^verbatim>\<open>memset(inode, 0, sizeof(*inode))\<close> of a failing \<^verbatim>\<open>sqfs_inode_get\<close>.\<close>

definition inode_zero :: sqfs_inode where
  "inode_zero = \<lparr>in_base = sqfs_swapin_base_inode (replicate sizeof_base_inode 0), in_nlink = 0,
     in_xattr = SQUASHFS_INVALID_XATTR, in_next = \<lparr>cur_block = 0, cur_offset = 0\<rparr>, in_xtra = X_None\<rparr>"

text \<open>The part of \<^verbatim>\<open>sqfs_init_with_subdir\<close> that makes \<open>subdir\<close> the root. \<open>junk\<close> is what
  \<^verbatim>\<open>new_root\<close> holds before it is assigned; the result says whether the directory was found and
  whether a step failed.\<close>

definition init_subdir :: "sqfs_inode_id \<Rightarrow> bytes \<Rightarrow> (sqfs, bool \<times> bool) io" where
  "init_subdir junk subdir =
     io_bind (io_gets sqfs_inode_root) (\<lambda>r.
     io_bind (io_try (sqfs_inode_get r) (\<lambda>x. case x of
        Inl e \<Rightarrow> io_ret (inode_zero, True) | Inr i \<Rightarrow> io_ret (i, False))) (\<lambda>(root, e1).
     io_try (sqfs_lookup_path_with_id root junk subdir) (\<lambda>x. case x of
         Inl e \<Rightarrow> io_ret (False, True)
       | Inr None \<Rightarrow> io_ret (False, e1)
       | Inr (Some (_, new_root)) \<Rightarrow>
          io_bind (io_modify (\<lambda>s. s\<lparr>fs_sb := (fs_sb s)\<lparr>sb_root_inode := new_root\<rparr>\<rparr>)) (\<lambda>_.
          io_ret (True, e1)))))"

definition sqfs_init_with_subdir ::
  "'st codec_libs \<Rightarrow> sqfs_inode_id \<Rightarrow> bytes \<Rightarrow> size_t \<Rightarrow> bytes option \<Rightarrow> (sqfs, unit) io" where
  "sqfs_init_with_subdir L junk fd offset subdir =
     io_bind (io_modify (\<lambda>s. sqfs_zero fd offset (fs_heap s))) (\<lambda>_.
     case sqfs_pread fd sizeof_super_block (off_wrap (int offset)) of
       None \<Rightarrow> io_raise SQFS_BADFORMAT
     | Some bs \<Rightarrow>
        if length bs \<noteq> sizeof_super_block then io_raise SQFS_BADFORMAT else
        io_bind (io_modify (\<lambda>s. s\<lparr>fs_sb := sqfs_swapin_super_block bs\<rparr>)) (\<lambda>_.
        io_bind (io_lift (sb_checked (sqfs_swapin_super_block bs))) (\<lambda>sb.
        io_bind (io_modify (\<lambda>s. s\<lparr>fs_sb := sb\<rparr>)) (\<lambda>_.
        if \<not> sb_version_ok sb then io_raise SQFS_BADVERSION else
        case sqfs_decompressor_get L (uint (sb_compression sb)) of
          None \<Rightarrow> io_raise SQFS_BADCOMP
        | Some d \<Rightarrow>
           io_bind (io_modify (\<lambda>s. s\<lparr>fs_decompressor := Some d\<rparr>)) (\<lambda>_.
           io_bind (init_tables sb) (\<lambda>e1.
           io_bind init_caches (\<lambda>e2.
           io_bind (case subdir of None \<Rightarrow> io_ret (True, False)
             | Some p \<Rightarrow> if p = [] then io_ret (True, False) else init_subdir junk p) (\<lambda>(found, e3).
           if \<not> found \<or> e1 \<or> e2 \<or> e3
           then io_bind sqfs_destroy (\<lambda>_. io_raise SQFS_ERR) else io_ret ()))))))))"

definition sqfs_init :: "'st codec_libs \<Rightarrow> sqfs_inode_id \<Rightarrow> bytes \<Rightarrow> size_t \<Rightarrow> (sqfs, unit) io" where
  "sqfs_init L junk fd offset = sqfs_init_with_subdir L junk fd offset None"

section \<open>Destroying a cache\<close>

lemma destroy_tables_fields [simp]:
  "fs_md_cache (destroy_tables s) = fs_md_cache s" "fs_data_cache (destroy_tables s) = fs_data_cache s"
  "fs_frag_cache (destroy_tables s) = fs_frag_cache s" "fs_blockidx (destroy_tables s) = fs_blockidx s"
  "fs_heap (destroy_tables s) = fs_heap s"
  by (simp_all add: destroy_tables_def Let_def)

context owned_entries
begin

text \<open>Disposing of every valid entry gives all references of the cache back.\<close>

lemma dispose_slots_owned:
  "heap_owned h ((\<Sum>(k, v) \<in># (\<Sum>s\<leftarrow>ss. slot_content s). ptr v) + F) \<Longrightarrow>
   (\<forall>(k, v) \<in># (\<Sum>s\<leftarrow>ss. slot_content s). R (hp_view h) k v) \<Longrightarrow>
   \<exists>h'. dispose_slots disp ss h = (Ok (), h') \<and> heap_owned h' F \<and> (\<forall>a \<in># F. hp_view h' a = hp_view h a)
     \<and> hp_malloc_ok h' = hp_malloc_ok h"
proof (induction ss arbitrary: h)
  case Nil
  then show ?case by (simp add: io_simps)
next
  case (Cons s ss)
  let ?G = "(\<Sum>(k, v) \<in># (\<Sum>s\<leftarrow>ss. slot_content s). ptr v) + F"
  show ?case
  proof (cases "slot_valid s")
    case False
    then show ?thesis using Cons by (simp add: slot_content_def io_simps)
  next
    case True
    have "heap_owned h (ptr (slot_data s) + ?G)" "R (hp_view h) (slot_idx s) (slot_data s)"
      using Cons.prems True by (simp_all add: slot_content_def ac_simps)
    from disp_owned [OF this] obtain h1 where h1: "disp (slot_data s) h = (Ok (), h1)" "heap_owned h1 ?G"
      "\<forall>a \<in># ?G. hp_view h1 a = hp_view h a" "hp_malloc_ok h1 = hp_malloc_ok h" by blast
    have "R (hp_view h1) k v" if m: "(k, v) \<in># (\<Sum>s\<leftarrow>ss. slot_content s)" for k v
    proof (rule R_local)
      show "R (hp_view h) k v" using Cons.prems(2) m by auto
      fix a assume "a \<in># ptr v"
      then have "a \<in># ?G" using m by (auto intro!: bexI [of _ "(k, v)"])
      with h1(3) show "hp_view h1 a = hp_view h a" by blast
    qed
    then have "\<forall>(k, v) \<in># (\<Sum>s\<leftarrow>ss. slot_content s). R (hp_view h1) k v" by blast
    from Cons.IH [OF h1(2) this] obtain h2 where "dispose_slots disp ss h1 = (Ok (), h2)" "heap_owned h2 F"
      "\<forall>a \<in># F. hp_view h2 a = hp_view h1 a" "hp_malloc_ok h2 = hp_malloc_ok h1" by blast
    then show ?thesis using h1 True by (auto simp: io_simps)
  qed
qed

lemma cache_destroy_owned:
  assumes "heap_owned h (sc.owned ptr c + F)" and "sc.coherent (R (hp_view h)) c" and "c_dispose c = disp"
  shows "\<exists>h'. sqfs_cache_destroy (Some c, h) = (Ok (), (None, h')) \<and> heap_owned h' F \<and>
    (\<forall>a \<in># F. hp_view h' a = hp_view h a) \<and> hp_malloc_ok h' = hp_malloc_ok h"
  using dispose_slots_owned [of h "c_slots c" F] assms
  by (auto simp: sqfs_cache_destroy_def sc.owned_def sc.coherent_def cache_content_def)

end

text \<open>One block cache of the state.\<close>

lemma destroy_cache_run:
  assumes "get s = Some c" and "sqfs_cache_destroy (Some c, fs_heap s) = (Ok (), (None, h'))"
  shows "destroy_cache get put s = (Ok (), put None (s\<lparr>fs_heap := h'\<rparr>))"
  using assms by (simp add: destroy_cache_def io_on_def)

lemma sqfs_destroy_inv:
  assumes "fs_inv E strict M s"
  shows "\<exists>s'. sqfs_destroy s = (Ok (), s') \<and> heap_owned (fs_heap s') M \<and>
    (\<forall>a \<in># M. hp_view (fs_heap s') a = hp_view (fs_heap s) a) \<and>
    fs_md_cache s' = None \<and> fs_data_cache s' = None \<and> fs_frag_cache s' = None \<and> fs_blockidx s' = None"
proof -
  let ?h = "fs_heap s"
  obtain c1 c2 c3 c4 where
    get: "fs_md_cache s = Some c1" "fs_data_cache s = Some c2" "fs_frag_cache s = Some c3" "fs_blockidx s = Some c4"
    and good: "bc_good E strict MD_CACHE ?h c1" "bc_good E strict DATA_CACHE ?h c2" "bc_good E strict FRAG_CACHE ?h c3"
      "ix_good E strict ?h c4"
    and own: "heap_owned ?h (fs_refs s + M)"
    using assms unfolding fs_inv_def by (metis bc_get.simps)
  let ?o = "sc.owned block_ptr" and ?x = "sc.owned index_ptr c4"
  have own1: "heap_owned ?h (?o c1 + (?o c2 + ?o c3 + ?x + M))"
    using own get by (simp add: fs_refs_def bc_refs_def ix_refs_def ac_simps)
  from be.cache_destroy_owned [OF own1] good(1) obtain h1 where
    h1: "sqfs_cache_destroy (Some c1, ?h) = (Ok (), (None, h1))" "heap_owned h1 (?o c2 + (?o c3 + ?x + M))"
      "hp_keeps (?o c2 + ?o c3 + ?x + M) ?h h1"
    by (auto simp: bc_good_def hp_keeps_def ac_simps)
  have g2: "bc_good E strict DATA_CACHE h1 c2" "bc_good E strict FRAG_CACHE h1 c3" "ix_good E strict h1 c4"
    using good h1(3) by (auto intro!: bc_good_keeps [where h = ?h] ix_good_keeps [where h = ?h] elim: hp_keeps_mono)
  from be.cache_destroy_owned [OF h1(2)] g2(1) obtain h2 where
    h2: "sqfs_cache_destroy (Some c2, h1) = (Ok (), (None, h2))" "heap_owned h2 (?o c3 + (?x + M))"
      "hp_keeps (?o c3 + ?x + M) h1 h2"
    by (auto simp: bc_good_def hp_keeps_def ac_simps)
  have g3: "bc_good E strict FRAG_CACHE h2 c3" "ix_good E strict h2 c4"
    using g2 h2(3) by (auto intro!: bc_good_keeps [where h = h1] ix_good_keeps [where h = h1] elim: hp_keeps_mono)
  from be.cache_destroy_owned [OF h2(2)] g3(1) obtain h3 where
    h3: "sqfs_cache_destroy (Some c3, h2) = (Ok (), (None, h3))" "heap_owned h3 (?x + M)" "hp_keeps (?x + M) h2 h3"
    by (auto simp: bc_good_def hp_keeps_def ac_simps)
  have g4: "ix_good E strict h3 c4"
    using g3 h3(3) by (auto intro!: ix_good_keeps [where h = h2] elim: hp_keeps_mono)
  from ix.cache_destroy_owned [OF h3(2)] g4 obtain h4 where
    h4: "sqfs_cache_destroy (Some c4, h3) = (Ok (), (None, h4))" "heap_owned h4 M" "hp_keeps M h3 h4"
    by (auto simp: ix_good_def hp_keeps_def)
  have keep: "hp_keeps M ?h h4"
    using h1(3) h2(3) h3(3) h4(3) by (auto simp: hp_keeps_def)
  show ?thesis
    using get h1(1) h2(1) h3(1) h4 keep
    by (simp add: sqfs_destroy_def io_simps destroy_cache_def hp_keeps_def)
qed

section \<open>Opening an image\<close>

text \<open>A fresh cache, and a state whose caches are absent or fresh.\<close>

definition fresh_cache :: "size_t \<Rightarrow> size_t \<Rightarrow> ('e \<Rightarrow> (heap, unit) io) \<Rightarrow> 'e \<Rightarrow> 'e sqfs_cache_internal" where
  "fresh_cache sz cnt dispose zero =
     \<lparr>c_slots = replicate cnt \<lparr>slot_valid = False, slot_idx = 0, slot_data = zero\<rparr>,
      c_dispose = dispose, c_size = sz + 16, c_count = cnt, c_next = 0\<rparr>"

lemma fresh_cache_content [simp]: "cache_content (fresh_cache sz cnt d z) = {#}"
proof -
  have "(\<Sum>s\<leftarrow>replicate cnt \<lparr>slot_valid = False, slot_idx = 0, slot_data = z\<rparr>. slot_content s) = {#}" for z :: 'a
    by (induction cnt) (simp_all add: slot_content_def)
  then show ?thesis by (simp add: cache_content_def fresh_cache_def)
qed

lemma fresh_cache_inv: "0 < cnt \<Longrightarrow> cache_inv (fresh_cache sz cnt d z)"
  by (simp add: cache_inv_def cache_wf_def cache_distinct_def fresh_cache_def)

lemma fresh_cache_dispose [simp]: "c_dispose (fresh_cache sz cnt d z) = d"
  by (simp add: fresh_cache_def)

lemma fresh_cache_owned [simp]: "sc.owned ptr (fresh_cache sz cnt d z) = {#}"
  by (simp add: sc.owned_def)

abbreviation fresh_bcache :: "size_t \<Rightarrow> sqfs_block_cache_entry sqfs_cache_internal" where
  "fresh_bcache cnt \<equiv> fresh_cache 16 cnt sqfs_block_cache_dispose \<lparr>be_block = None, be_data_size = 0\<rparr>"

abbreviation fresh_ixcache :: "sqfs_blockidx_ptr sqfs_cache_internal" where
  "fresh_ixcache \<equiv> fresh_cache 8 SQUASHFS_META_SLOTS sqfs_blockidx_dispose None"

definition caches_ready :: "sqfs \<Rightarrow> bool" where
  "caches_ready s \<longleftrightarrow> fs_md_cache s = Some (fresh_bcache SQUASHFS_CACHED_BLKS) \<and>
     fs_data_cache s = Some (fresh_bcache DATA_CACHED_BLKS) \<and>
     fs_frag_cache s = Some (fresh_bcache FRAG_CACHED_BLKS) \<and> fs_blockidx s = Some fresh_ixcache"

lemma fs_clean_fresh:
  assumes ready: "caches_ready s" and own: "heap_owned (fs_heap s) M"
    and E: "ev_img E = fs_img s" "ev_oracle E = hp_malloc_ok (fs_heap s)"
  shows "fs_clean E M s"
proof -
  have bc: "bc_good E True w h (fresh_bcache cnt)" if "0 < cnt" for w h cnt
    using fresh_cache_inv [OF that] by (simp add: bc_good_def cache_state_def sc.coherent_def)
  have ix: "ix_good E True h fresh_ixcache" for h
    by (simp add: ix_good_def cache_state_def sc.coherent_def fresh_cache_inv)
  have get: "\<exists>c. bc_get w s = Some c \<and> bc_good E True w (fs_heap s) c" for w
    using ready bc by (cases w) (auto simp: caches_ready_def DATA_CACHED_BLKS_def FRAG_CACHED_BLKS_def)
  have "fs_refs s = {#}"
    using ready by (simp add: fs_refs_def bc_refs_def ix_refs_def caches_ready_def)
  then show ?thesis using get ix ready own E by (auto simp: fs_inv_def caches_ready_def)
qed

text \<open>Setting up the tables changes the tables only, and counts allocations.\<close>

definition heap_like :: "heap \<Rightarrow> heap \<Rightarrow> bool" where
  "heap_like h h' \<longleftrightarrow> hp_cells h' = hp_cells h \<and> hp_brk h' = hp_brk h \<and> hp_malloc_ok h' = hp_malloc_ok h"

lemma heap_like_mallocs [simp]: "heap_like h (h\<lparr>hp_mallocs := n\<rparr>)" "heap_like h h"
  by (simp_all add: heap_like_def)

lemma heap_like_owned: "heap_like h h' \<Longrightarrow> heap_owned h' M = heap_owned h M"
  by (simp add: heap_like_def heap_owned_def)

definition same_core :: "sqfs \<Rightarrow> sqfs \<Rightarrow> bool" where
  "same_core s s' \<longleftrightarrow> fs_fd s' = fs_fd s \<and> fs_offset s' = fs_offset s \<and> fs_sb s' = fs_sb s \<and>
     fs_decompressor s' = fs_decompressor s \<and> heap_like (fs_heap s) (fs_heap s') \<and>
     fs_md_cache s' = fs_md_cache s \<and> fs_data_cache s' = fs_data_cache s \<and>
     fs_frag_cache s' = fs_frag_cache s \<and> fs_blockidx s' = fs_blockidx s"

definition init_keeps :: "bool \<Rightarrow> (sqfs, 'a) io \<Rightarrow> bool" where
  "init_keeps strict m \<longleftrightarrow> (\<forall>s. \<exists>r s'. m s = (r, s') \<and> same_core s s' \<and> (\<forall>u. r \<noteq> Fault u) \<and>
     (strict \<longrightarrow> is_ok r))"

lemma same_core_trans: "same_core s s' \<Longrightarrow> same_core s' s'' \<Longrightarrow> same_core s s''"
  by (auto simp: same_core_def heap_like_def)

lemma init_keepsE:
  assumes "init_keeps strict m"
  obtains r s' where "m s = (r, s')" "same_core s s'" "\<forall>u. r \<noteq> Fault u" "strict \<longrightarrow> is_ok r"
  using assms unfolding init_keeps_def by blast

lemma init_keeps_bind:
  assumes m: "init_keeps strict m" and k: "\<And>a. init_keeps strict (k a)"
  shows "init_keeps strict (io_bind m k)"
  unfolding init_keeps_def
proof
  fix s
  obtain r s1 where m1: "m s = (r, s1)" "same_core s s1" "\<forall>u. r \<noteq> Fault u" "strict \<longrightarrow> is_ok r"
    by (rule init_keepsE [OF m, of s])
  show "\<exists>r s'. io_bind m k s = (r, s') \<and> same_core s s' \<and> (\<forall>u. r \<noteq> Fault u) \<and> (strict \<longrightarrow> is_ok r)"
  proof (cases r)
    case (Ok a)
    obtain r2 s2 where "k a s1 = (r2, s2)" "same_core s1 s2" "\<forall>u. r2 \<noteq> Fault u" "strict \<longrightarrow> is_ok r2"
      by (rule init_keepsE [OF k [of a], of s1])
    then show ?thesis using m1 Ok same_core_trans by (fastforce simp: io_bind_run)
  qed (use m1 in \<open>auto simp: io_bind_run\<close>)
qed

lemma init_keeps_try:
  assumes m: "init_keeps False m" and k: "\<And>a. init_keeps strict (k a)"
  shows "init_keeps strict (io_try m k)"
  unfolding init_keeps_def
proof
  fix s
  obtain r s1 where m1: "m s = (r, s1)" "same_core s s1" "\<forall>u. r \<noteq> Fault u"
    by (rule init_keepsE [OF m, of s])
  obtain x where x: "io_try m k s = k x s1" using m1(1,3) by (cases r) (auto simp: io_try_run)
  obtain r2 s2 where "k x s1 = (r2, s2)" "same_core s1 s2" "\<forall>u. r2 \<noteq> Fault u" "strict \<longrightarrow> is_ok r2"
    by (rule init_keepsE [OF k [of x], of s1])
  then show "\<exists>r s'. io_try m k s = (r, s') \<and> same_core s s' \<and> (\<forall>u. r \<noteq> Fault u) \<and> (strict \<longrightarrow> is_ok r)"
    using m1(2) x same_core_trans by fastforce
qed

lemma init_keeps_basic:
  "init_keeps strict (io_ret a)" "init_keeps False (io_raise e)" "init_keeps strict (io_gets f)"
  by (auto simp: init_keeps_def io_simps same_core_def)

lemma sqfs_table_init_keeps: "init_keeps strict (on_heap (sqfs_table_init tab fd start each cnt))"
proof -
  have "\<exists>r n. sqfs_table_init tab fd start each cnt h = (Ok r, h\<lparr>hp_mallocs := n\<rparr>)" for h
  proof (cases "cnt = 0")
    case True
    then show ?thesis by (auto simp: sqfs_table_init_def io_simps intro!: exI [of _ "hp_mallocs h"])
  next
    case False
    then show ?thesis
      by (auto simp: sqfs_table_init_def io_simps hp_malloc_run sqfs_divceil_def Let_def
          split: option.splits intro!: exI [of _ "Suc (hp_mallocs h)"])
  qed
  then obtain r n where run: "\<And>h. sqfs_table_init tab fd start each cnt h = (Ok (r h), h\<lparr>hp_mallocs := n h\<rparr>)"
    by metis
  show ?thesis by (simp add: init_keeps_def on_heap_def io_on_run same_core_def run)
qed

lemma init_keeps_put_table:
  "init_keeps strict (io_modify (\<lambda>s. s\<lparr>fs_id_table := t\<rparr>))" "init_keeps strict (io_modify (\<lambda>s. s\<lparr>fs_frag_table := t\<rparr>))"
  "init_keeps strict (io_modify (\<lambda>s. s\<lparr>fs_export_table := t\<rparr>))" "init_keeps strict (io_modify (\<lambda>s. s\<lparr>fs_xattr_table := t\<rparr>))"
  "init_keeps strict (io_modify (\<lambda>s. s\<lparr>fs_xattr_info := i\<rparr>))"
  by (auto simp: init_keeps_def io_simps same_core_def)

lemmas init_keeps_rules =
  init_keeps_bind init_keeps_try init_keeps_basic sqfs_table_init_keeps init_keeps_put_table

lemma init_table_keeps:
  "(\<And>t. init_keeps strict (io_modify (put t))) \<Longrightarrow> init_keeps strict (init_table get put start each cnt)"
  unfolding init_table_def by (auto intro!: init_keeps_rules split: prod.splits)

lemma sqfs_xattr_init_keeps: "init_keeps False sqfs_xattr_init"
  unfolding sqfs_xattr_init_def Let_def
  by (auto intro!: init_keeps_rules split: prod.splits option.splits)

lemma init_tables_keeps: "init_keeps True (init_tables sb)"
  unfolding init_tables_def init_step_def
  by (auto intro!: init_keeps_rules init_table_keeps sqfs_xattr_init_keeps split: sum.splits)

text \<open>Setting up the caches; a cache that could not be allocated stays absent.\<close>

definition caches_partial :: "sqfs \<Rightarrow> bool" where
  "caches_partial s \<longleftrightarrow> fs_md_cache s \<in> {None, Some (fresh_bcache SQUASHFS_CACHED_BLKS)} \<and>
     fs_data_cache s \<in> {None, Some (fresh_bcache DATA_CACHED_BLKS)} \<and>
     fs_frag_cache s \<in> {None, Some (fresh_bcache FRAG_CACHED_BLKS)} \<and>
     fs_blockidx s \<in> {None, Some fresh_ixcache}"

definition caches_absent :: "sqfs \<Rightarrow> bool" where
  "caches_absent s \<longleftrightarrow> fs_md_cache s = None \<and> fs_data_cache s = None \<and> fs_frag_cache s = None \<and> fs_blockidx s = None"

lemma init_cache_run:
  "\<exists>e h'. heap_like (fs_heap s) h' \<and> (e \<longrightarrow> \<not> (\<forall>n. hp_malloc_ok (fs_heap s) n)) \<and>
     init_cache put (sqfs_cache_init sz cnt d z) s =
       (Ok e, if e then s\<lparr>fs_heap := h'\<rparr> else put (Some (fresh_cache sz cnt d z)) (s\<lparr>fs_heap := h'\<rparr>))"
proof -
  let ?h = "fs_heap s" and ?n = "hp_mallocs (fs_heap s)"
  have no: "\<not> (\<forall>n. hp_malloc_ok ?h n)" if "\<not> hp_malloc_ok ?h m" for m using that by blast
  show ?thesis
  proof (cases "hp_malloc_ok ?h ?n \<and> hp_malloc_ok ?h (Suc ?n)")
    case True
    then show ?thesis
      by (intro exI [of _ False] exI [of _ "?h\<lparr>hp_mallocs := Suc (Suc ?n)\<rparr>"])
         (simp add: init_cache_def init_step_def sqfs_cache_init_def io_simps on_heap_def hp_malloc_run fresh_cache_def)
  next
    case False
    then show ?thesis
      using no by (intro exI [of _ True] exI [of _ "?h\<lparr>hp_mallocs := if hp_malloc_ok ?h ?n then Suc (Suc ?n) else Suc ?n\<rparr>"])
         (auto simp: init_cache_def init_step_def sqfs_cache_init_def io_simps on_heap_def hp_malloc_run)
  qed
qed

lemma init_caches_run:
  assumes "caches_absent s"
  shows "\<exists>e s'. init_caches s = (Ok e, s') \<and> heap_like (fs_heap s) (fs_heap s') \<and> fs_img s' = fs_img s \<and>
    caches_partial s' \<and> (\<not> e \<longrightarrow> caches_ready s') \<and> (e \<longrightarrow> \<not> (\<forall>n. hp_malloc_ok (fs_heap s) n))"
proof -
  let ?p1 = "\<lambda>c s. s\<lparr>fs_md_cache := c\<rparr>" and ?p2 = "\<lambda>c s. s\<lparr>fs_data_cache := c\<rparr>"
    and ?p3 = "\<lambda>c s. s\<lparr>fs_frag_cache := c\<rparr>" and ?p4 = "\<lambda>c s. s\<lparr>fs_blockidx := c\<rparr>"
  define c1 where "c1 = fresh_bcache SQUASHFS_CACHED_BLKS"
  define c2 where "c2 = fresh_bcache DATA_CACHED_BLKS"
  define c3 where "c3 = fresh_bcache FRAG_CACHED_BLKS"
  define c4 where "c4 = fresh_ixcache"
  obtain e1 h1 where 1: "heap_like (fs_heap s) h1" "e1 \<longrightarrow> \<not> (\<forall>n. hp_malloc_ok (fs_heap s) n)"
    "init_cache ?p1 (sqfs_block_cache_init SQUASHFS_CACHED_BLKS) s =
      (Ok e1, if e1 then s\<lparr>fs_heap := h1\<rparr> else s\<lparr>fs_heap := h1, fs_md_cache := Some c1\<rparr>)"
    using init_cache_run [of s ?p1] unfolding sqfs_block_cache_init_def c1_def by blast
  define t1 where "t1 = (if e1 then s\<lparr>fs_heap := h1\<rparr> else s\<lparr>fs_heap := h1, fs_md_cache := Some c1\<rparr>)"
  have t1: "fs_heap t1 = h1" by (simp add: t1_def)
  obtain e2 h2 where 2: "heap_like h1 h2" "e2 \<longrightarrow> \<not> (\<forall>n. hp_malloc_ok h1 n)"
    "init_cache ?p2 (sqfs_block_cache_init DATA_CACHED_BLKS) t1 =
      (Ok e2, if e2 then t1\<lparr>fs_heap := h2\<rparr> else t1\<lparr>fs_heap := h2, fs_data_cache := Some c2\<rparr>)"
    using init_cache_run [of t1 ?p2] unfolding sqfs_block_cache_init_def c2_def t1 by blast
  define t2 where "t2 = (if e2 then t1\<lparr>fs_heap := h2\<rparr> else t1\<lparr>fs_heap := h2, fs_data_cache := Some c2\<rparr>)"
  have t2: "fs_heap t2 = h2" by (simp add: t2_def)
  obtain e3 h3 where 3: "heap_like h2 h3" "e3 \<longrightarrow> \<not> (\<forall>n. hp_malloc_ok h2 n)"
    "init_cache ?p3 (sqfs_block_cache_init FRAG_CACHED_BLKS) t2 =
      (Ok e3, if e3 then t2\<lparr>fs_heap := h3\<rparr> else t2\<lparr>fs_heap := h3, fs_frag_cache := Some c3\<rparr>)"
    using init_cache_run [of t2 ?p3] unfolding sqfs_block_cache_init_def c3_def t2 by blast
  define t3 where "t3 = (if e3 then t2\<lparr>fs_heap := h3\<rparr> else t2\<lparr>fs_heap := h3, fs_frag_cache := Some c3\<rparr>)"
  have t3: "fs_heap t3 = h3" by (simp add: t3_def)
  obtain e4 h4 where 4: "heap_like h3 h4" "e4 \<longrightarrow> \<not> (\<forall>n. hp_malloc_ok h3 n)"
    "init_cache ?p4 sqfs_blockidx_init t3 =
      (Ok e4, if e4 then t3\<lparr>fs_heap := h4\<rparr> else t3\<lparr>fs_heap := h4, fs_blockidx := Some c4\<rparr>)"
    using init_cache_run [of t3 ?p4] unfolding sqfs_blockidx_init_def c4_def t3 by blast
  define t4 where "t4 = (if e4 then t3\<lparr>fs_heap := h4\<rparr> else t3\<lparr>fs_heap := h4, fs_blockidx := Some c4\<rparr>)"
  let ?e = "e1 \<or> e2 \<or> e3 \<or> e4"
  have run: "init_caches s = (Ok ?e, t4)"
    using 1(3) 2(3) 3(3) 4(3) unfolding init_caches_def t1_def [symmetric] t2_def [symmetric] t3_def [symmetric]
      t4_def [symmetric] by (simp add: io_simps)
  have like: "heap_like (fs_heap s) (fs_heap t4)" using 1(1) 2(1) 3(1) 4(1) by (simp add: t4_def heap_like_def)
  have img: "fs_img t4 = fs_img s" by (simp add: t1_def t2_def t3_def t4_def sqfs_image.defs)
  have part: "caches_partial t4"
    using assms by (simp add: t1_def t2_def t3_def t4_def caches_partial_def caches_absent_def c1_def c2_def c3_def c4_def)
  have ready: "caches_ready t4" if "\<not> ?e"
    using that by (simp add: t1_def t2_def t3_def t4_def caches_ready_def c1_def c2_def c3_def c4_def)
  have oom: "\<not> (\<forall>n. hp_malloc_ok (fs_heap s) n)" if ?e
    using that 1(1,2) 2(1,2) 3(1,2) 4(2) by (auto simp: heap_like_def)
  show ?thesis
    using run like img part ready oom by (intro exI [of _ ?e] exI [of _ t4]) simp
qed

lemma fresh_cache_destroy:
  "sqfs_cache_destroy (Some (fresh_cache sz cnt d z), h) = (Ok (), (None, h))"
proof -
  have "dispose_slots d (replicate cnt \<lparr>slot_valid = False, slot_idx = 0, slot_data = z\<rparr>) h = (Ok (), h)"
    by (induction cnt) (simp_all add: io_simps)
  then show ?thesis by (simp add: sqfs_cache_destroy_def fresh_cache_def)
qed

lemma destroy_cache_fresh:
  assumes "get s = None \<or> (\<exists>sz cnt d z. get s = Some (fresh_cache sz cnt d z))"
  shows "destroy_cache get put s = (Ok (), put None s)"
proof -
  have "sqfs_cache_destroy (get s, fs_heap s) = (Ok (), (None, fs_heap s))"
    using assms
  proof
    assume "get s = None"
    then show ?thesis by (simp add: sqfs_cache_destroy_def)
  qed (metis fresh_cache_destroy)
  then show ?thesis by (simp add: destroy_cache_def io_on_def)
qed

lemma sqfs_destroy_partial:
  assumes "caches_partial s"
  shows "\<exists>s'. sqfs_destroy s = (Ok (), s') \<and> fs_heap s' = fs_heap s \<and> caches_absent s'"
proof -
  define t where "t = destroy_tables s"
  have d1: "destroy_cache fs_md_cache (\<lambda>c s. s\<lparr>fs_md_cache := c\<rparr>) t = (Ok (), t\<lparr>fs_md_cache := None\<rparr>)"
    by (rule destroy_cache_fresh) (use assms in \<open>auto simp: caches_partial_def t_def\<close>)
  let ?t1 = "t\<lparr>fs_md_cache := None\<rparr>"
  have d2: "destroy_cache fs_data_cache (\<lambda>c s. s\<lparr>fs_data_cache := c\<rparr>) ?t1 = (Ok (), ?t1\<lparr>fs_data_cache := None\<rparr>)"
    by (rule destroy_cache_fresh) (use assms in \<open>auto simp: caches_partial_def t_def\<close>)
  let ?t2 = "?t1\<lparr>fs_data_cache := None\<rparr>"
  have d3: "destroy_cache fs_frag_cache (\<lambda>c s. s\<lparr>fs_frag_cache := c\<rparr>) ?t2 = (Ok (), ?t2\<lparr>fs_frag_cache := None\<rparr>)"
    by (rule destroy_cache_fresh) (use assms in \<open>auto simp: caches_partial_def t_def\<close>)
  let ?t3 = "?t2\<lparr>fs_frag_cache := None\<rparr>"
  have d4: "destroy_cache fs_blockidx (\<lambda>c s. s\<lparr>fs_blockidx := c\<rparr>) ?t3 = (Ok (), ?t3\<lparr>fs_blockidx := None\<rparr>)"
    by (rule destroy_cache_fresh) (use assms in \<open>auto simp: caches_partial_def t_def\<close>)
  have "sqfs_destroy s = (Ok (), ?t3\<lparr>fs_blockidx := None\<rparr>)"
    using d1 d2 d3 d4 by (simp add: sqfs_destroy_def io_simps t_def)
  then show ?thesis by (simp add: caches_absent_def t_def)
qed

text \<open>What the superblock alone decides.\<close>

definition init_verdict :: "'st codec_libs \<Rightarrow> bytes \<Rightarrow> size_t \<Rightarrow> (squashfs_super_block \<times> sqfs_decompressor) res" where
  "init_verdict L fd offset = (case sqfs_pread fd sizeof_super_block (off_wrap (int offset)) of
     None \<Rightarrow> Err SQFS_BADFORMAT
   | Some bs \<Rightarrow> if length bs \<noteq> sizeof_super_block then Err SQFS_BADFORMAT else
       res_bind (sb_checked (sqfs_swapin_super_block bs)) (\<lambda>sb.
       if \<not> sb_version_ok sb then Err SQFS_BADVERSION else
       case sqfs_decompressor_get L (uint (sb_compression sb)) of
         None \<Rightarrow> Err SQFS_BADCOMP | Some d \<Rightarrow> Ok (sb, d)))"

lemma sqfs_init_verdict_err:
  assumes "init_verdict L fd offset = Err e"
  shows "\<exists>s'. sqfs_init_with_subdir L junk fd offset subdir s = (Err e, s') \<and> fs_heap s' = fs_heap s \<and> caches_absent s'"
  using assms
  by (auto simp: init_verdict_def sqfs_init_with_subdir_def io_simps sqfs_zero_def caches_absent_def res_bind_eq_Ok
      sb_checked_def split: option.splits if_splits)

lemma init_verdict_no_fault: "init_verdict L fd offset \<noteq> Fault u"
  by (auto simp: init_verdict_def sb_checked_def split: option.splits if_splits)

text \<open>Behind a good superblock: the tables, the caches, the subdirectory, and a clean-up when a step failed.\<close>

lemma sqfs_init_with_subdir_steps:
  assumes "init_verdict L fd offset = Ok (sb, d)"
  shows "sqfs_init_with_subdir L junk fd offset subdir s =
     io_bind (init_tables sb) (\<lambda>e1. io_bind init_caches (\<lambda>e2.
     io_bind (case subdir of None \<Rightarrow> io_ret (True, False)
       | Some p \<Rightarrow> if p = [] then io_ret (True, False) else init_subdir junk p) (\<lambda>(found, e3).
     if \<not> found \<or> e1 \<or> e2 \<or> e3 then io_bind sqfs_destroy (\<lambda>_. io_raise SQFS_ERR) else io_ret ())))
     ((sqfs_zero fd offset (fs_heap s))\<lparr>fs_sb := sb, fs_decompressor := Some d\<rparr>)"
proof -
  from assms obtain bs where bs: "sqfs_pread fd sizeof_super_block (off_wrap (int offset)) = Some bs"
      "length bs = sizeof_super_block" "sb_checked (sqfs_swapin_super_block bs) = Ok sb" "sb_version_ok sb"
      "sqfs_decompressor_get L (uint (sb_compression sb)) = Some d"
    by (auto simp: init_verdict_def res_bind_eq_Ok split: option.splits if_splits)
  then show ?thesis
    by (simp add: sqfs_init_with_subdir_def io_bind_run io_modify_run io_lift_run)
qed

lemma sqfs_init_steps:
  assumes "init_verdict L fd offset = Ok (sb, d)"
  shows "sqfs_init L junk fd offset s =
     io_bind (init_tables sb) (\<lambda>e1. io_bind init_caches (\<lambda>e2.
       if e1 \<or> e2 then io_bind sqfs_destroy (\<lambda>_. io_raise SQFS_ERR) else io_ret ()))
     ((sqfs_zero fd offset (fs_heap s))\<lparr>fs_sb := sb, fs_decompressor := Some d\<rparr>)"
  unfolding sqfs_init_def sqfs_init_with_subdir_steps [OF assms] by simp

text \<open>\<^verbatim>\<open>sqfs_init\<close> never faults; on success the invariant holds, on failure nothing is left
  allocated.\<close>

lemma sqfs_init_spec:
  assumes own: "heap_owned (fs_heap s) M"
  shows "\<exists>r s'. sqfs_init L junk fd offset s = (r, s') \<and>
    (case r of
       Ok _ \<Rightarrow> (\<exists>sb d. init_verdict L fd offset = Ok (sb, d) \<and> fs_sb s' = sb \<and> fs_decompressor s' = Some d) \<and>
         fs_fd s' = fd \<and> fs_offset s' = offset \<and> caches_ready s' \<and> heap_owned (fs_heap s') M \<and>
         hp_malloc_ok (fs_heap s') = hp_malloc_ok (fs_heap s)
     | Err e \<Rightarrow> heap_owned (fs_heap s') M \<and> caches_absent s' \<and> (init_verdict L fd offset = Err e \<or> e = SQFS_ERR)
     | Fault u \<Rightarrow> False)"
proof (cases "init_verdict L fd offset")
  case (Err e)
  from sqfs_init_verdict_err [OF this, of junk None s] show ?thesis
    using own Err by (auto simp: sqfs_init_def)
next
  case (Fault u)
  then show ?thesis using init_verdict_no_fault by blast
next
  case (Ok x)
  then obtain sb d where x: "init_verdict L fd offset = Ok (sb, d)" by (cases x) simp
  let ?s0 = "(sqfs_zero fd offset (fs_heap s))\<lparr>fs_sb := sb, fs_decompressor := Some d\<rparr>"
  note pre = sqfs_init_steps [OF x, of junk s]
  obtain r1 s1 where t: "init_tables sb ?s0 = (r1, s1)" "same_core ?s0 s1" "is_ok r1"
    by (rule init_keepsE [OF init_tables_keeps, of sb ?s0]) simp
  have abs1: "caches_absent s1" and h1: "heap_like (fs_heap s) (fs_heap s1)"
    using t(2) by (simp_all add: same_core_def caches_absent_def sqfs_zero_def)
  show ?thesis
  proof (cases r1)
    case (Ok e1)
    from init_caches_run [OF abs1] obtain e2 s2 where
      c: "init_caches s1 = (Ok e2, s2)" "heap_like (fs_heap s1) (fs_heap s2)" "fs_img s2 = fs_img s1"
        "caches_partial s2" "\<not> e2 \<longrightarrow> caches_ready s2" by blast
    have own2: "heap_owned (fs_heap s2) M" using own h1 c(2) by (simp add: heap_like_owned)
    show ?thesis
    proof (cases "e1 \<or> e2")
      case True
      from sqfs_destroy_partial [OF c(4)] obtain s3 where "sqfs_destroy s2 = (Ok (), s3)"
        "fs_heap s3 = fs_heap s2" "caches_absent s3" by blast
      then show ?thesis using True own2 t(1) c(1) Ok by (simp add: pre io_simps)
    next
      case False
      have "fs_sb s2 = sb" "fs_decompressor s2 = Some d" "fs_fd s2 = fd" "fs_offset s2 = offset"
        using t(2) fs_img_fields(1-4) [of s2] c(3) by (simp_all add: same_core_def sqfs_zero_def)
      then show ?thesis using False own2 t(1) c Ok h1 x by (simp add: pre io_simps heap_like_def)
    qed
  qed (use t(3) in simp_all)
qed

end
