(* ===== verification/Sqfs_Image.thy ===== *)
theory Sqfs_Image
  imports Sqfs_Init
begin

text \<open>
  A small image, written out byte by byte from the structures it holds, and the state of the
  library after it was opened: the concrete input on which the properties of the development are
  applied. The image has a root directory with a file (one data block and a fragment), a symbolic
  link and a subdirectory with a second link to the file and another file, its tables, and an extended attribute.

  The first section has the general facts: where the image file has the bytes of a block, the
  specifications of block reading return its contents, and the metadata stream holds every part
  of it.
\<close>

section \<open>Bytes of the image file\<close>

definition img_at :: "sqfs_image \<Rightarrow> nat \<Rightarrow> bytes \<Rightarrow> bool" where
  "img_at im pos bs \<longleftrightarrow> pos + fs_offset im + length bs \<le> length (fs_fd im) \<and> length (fs_fd im) < 2 ^ 62 \<and>
     take (length bs) (drop (pos + fs_offset im) (fs_fd im)) = bs"

text \<open>A metadata block stored as it is.\<close>

definition md_block_bytes :: "bytes \<Rightarrow> bytes" where
  "md_block_bytes d = le_bytes 2 (SQUASHFS_COMPRESSED_BIT OR word_of_nat (length d) :: u16) @ d"

lemma length_md_block_bytes [simp]: "length (md_block_bytes d) = 2 + length d"
  by (simp add: md_block_bytes_def)

lemma img_at_append:
  "img_at im pos (a @ b) \<longleftrightarrow> img_at im pos a \<and> img_at im (pos + length a) b"
proof
  assume h: "img_at im pos (a @ b)"
  then have "take (length a) (drop (pos + fs_offset im) (fs_fd im)) @
      take (length b) (drop (pos + fs_offset im + length a) (fs_fd im)) = a @ b"
    by (simp add: img_at_def flip: take_drop_split)
  moreover have "length (take (length a) (drop (pos + fs_offset im) (fs_fd im))) = length a"
    using h by (auto simp: img_at_def)
  ultimately have "take (length a) (drop (pos + fs_offset im) (fs_fd im)) = a"
    "take (length b) (drop (pos + fs_offset im + length a) (fs_fd im)) = b" by simp_all
  then show "img_at im pos a \<and> img_at im (pos + length a) b" using h by (simp add: img_at_def ac_simps)
next
  assume "img_at im pos a \<and> img_at im (pos + length a) b"
  then show "img_at im pos (a @ b)" by (simp add: img_at_def take_drop_split ac_simps)
qed

lemma img_at_pread:
  assumes "img_at im pos bs"
  shows "sqfs_pread (fs_fd im) (length bs) (off_add (int pos) (fs_offset im)) = Some bs"
proof -
  have "off_add (int pos) (fs_offset im) = int (pos + fs_offset im)"
    using assms by (simp add: img_at_def)
  then show ?thesis using assms unfolding sqfs_pread_def img_at_def by (simp only: nat_int) simp
qed

lemma img_at_block:
  assumes "img_at im pos bs"
  shows "block_spec im (int pos) False (length bs) outsize = Ok bs"
  using img_at_pread [OF assms] by (simp add: block_spec_def)

lemma md_header_plain:
  assumes "0 < n" and "n < 32768"
  shows "sqfs_md_header (SQUASHFS_COMPRESSED_BIT OR word_of_nat n) = (False, word_of_nat n)"
proof -
  let ?h = "SQUASHFS_COMPRESSED_BIT OR word_of_nat n :: u16"
  have "bit (2 ^ 15 :: u16) k \<longleftrightarrow> k = 15" for k by (simp only: bit_exp_iff) auto
  then have p: "bit (0x8000 :: u16) k \<longleftrightarrow> k = 15" for k by simp
  have ne: "x \<noteq> 0" if "bit x 15" for x :: u16 using that by auto
  have "n div 2 ^ 15 = 0" using assms by simp
  then have "\<not> bit n 15" unfolding bit_iff_odd by presburger
  then have "?h AND NOT SQUASHFS_COMPRESSED_BIT = word_of_nat n"
    by (intro bit_word_eqI, simp only: bit_and_iff bit_or_iff bit_not_iff p) (auto simp: bit_simps)
  moreover have "bit (?h AND SQUASHFS_COMPRESSED_BIT) 15" by (simp add: bit_simps p)
  then have "?h AND SQUASHFS_COMPRESSED_BIT \<noteq> 0" by (rule ne)
  moreover have "(word_of_nat n :: u16) \<noteq> 0"
  proof
    assume "(word_of_nat n :: u16) = 0"
    then have "unat (word_of_nat n :: u16) = 0" by simp
    then show False using assms by (simp add: unat_of_nat)
  qed
  ultimately show ?thesis unfolding sqfs_md_header_def Let_def by simp
qed

lemma img_at_md_block:
  assumes at: "img_at im pos (md_block_bytes d)" and len: "0 < length d" "length d \<le> 8192"
  shows "md_block_spec im (int pos) = Ok (d, 2 + length d)"
proof -
  let ?h = "SQUASHFS_COMPRESSED_BIT OR word_of_nat (length d) :: u16"
  have 1: "img_at im pos (le_bytes 2 ?h)" and 2: "img_at im (pos + 2) d"
    using at by (simp_all add: md_block_bytes_def img_at_append)
  have hdr: "sqfs_md_header ?h = (False, word_of_nat (length d))"
    using len by (intro md_header_plain) simp_all
  have "off_add (int pos) 2 = int (pos + 2)" using 2 by (simp add: img_at_def)
  then show ?thesis
    using img_at_pread [OF 1] img_at_block [OF 2] hdr len by (simp add: md_block_spec_def unat_of_nat)
qed

text \<open>Every part of a metadata block that does not reach its end is in the stream.\<close>

lemma md_holds_block:
  assumes "img_ok im" and "img_at im pos (md_block_bytes d)" and "0 < pos" and "length d \<le> 8192"
    and "off + length bs < length d" and "take (length bs) (drop off d) = bs"
  shows "md_holds im \<lparr>cur_block = int pos, cur_offset = off\<rparr> bs
    \<lparr>cur_block = int pos, cur_offset = off + length bs\<rparr>"
proof (cases "bs = []")
  case True
  then show ?thesis by (simp add: ms.holds_def)
next
  case False
  have "md_block_spec im (int pos) = Ok (d, 2 + length d)" using assms by (intro img_at_md_block) auto
  moreover have "cur_ok \<lparr>cur_block = int pos, cur_offset = off\<rparr>"
    using assms by (auto simp: cur_ok_def pos_ok_def img_at_def)
  ultimately show ?thesis
    using md_read_within [OF assms(1), of "\<lparr>cur_block = int pos, cur_offset = off\<rparr>" d "2 + length d" "length bs"]
      False assms(5,6) by (simp add: ms.holds_def)
qed

section \<open>The image\<close>

definition wit_sb :: squashfs_super_block where
  "wit_sb = \<lparr>sb_magic = SQUASHFS_MAGIC, sb_inodes = 5, sb_mkfs_time = 0, sb_block_size = 8, sb_fragments = 1,
     sb_compression = 1, sb_block_log = 3, sb_flags = 0, sb_no_ids = 2, sb_major = 4, sb_minor = 0,
     sb_root_inode = 0, sb_bytes_used = 544, sb_id_table_start = 504, sb_xattr_id_table_start = 520,
     sb_inode_table_start = 108, sb_directory_table_start = 298, sb_fragment_table_start = 496,
     sb_lookup_table_start = 512\<rparr>"

text \<open>The inodes: the root directory, a file with an extended attribute, a symbolic link \<open>c/a\<close>, the
  subdirectory, and a plain file with the same contents as the first.\<close>

definition wit_root :: disk_inode where
  "wit_root = Disk_Dir \<lparr>bi_inode_type = SQUASHFS_DIR_TYPE, bi_mode = 493, bi_uid = 0, bi_guid = 0,
     bi_mtime = 0, bi_inode_number = 1, dir_start_block = 0, dir_nlink = 3, dir_file_size = 42,
     dir_offset = 0, dir_parent_inode = 6\<rparr>"

definition wit_file :: disk_inode where
  "wit_file = Disk_LReg \<lparr>bi_inode_type = SQUASHFS_LREG_TYPE, bi_mode = 420, bi_uid = 0, bi_guid = 1,
     bi_mtime = 0, bi_inode_number = 2, lreg_start_block = 96, lreg_file_size = 11, lreg_sparse = 0,
     lreg_nlink = 2, lreg_fragment = 0, lreg_offset = 1, lreg_xattr = 0\<rparr>"

definition wit_link :: disk_inode where
  "wit_link = Disk_Symlink \<lparr>bi_inode_type = SQUASHFS_SYMLINK_TYPE, bi_mode = 511, bi_uid = 0, bi_guid = 0,
     bi_mtime = 0, bi_inode_number = 3, sym_nlink = 1, sym_symlink_size = 3\<rparr> [99, 47, 97]"

definition wit_sub :: disk_inode where
  "wit_sub = Disk_Dir \<lparr>bi_inode_type = SQUASHFS_DIR_TYPE, bi_mode = 493, bi_uid = 1, bi_guid = 1,
     bi_mtime = 0, bi_inode_number = 4, dir_start_block = 0, dir_nlink = 2, dir_file_size = 33,
     dir_offset = 39, dir_parent_inode = 1\<rparr>"

definition wit_reg :: disk_inode where
  "wit_reg = Disk_Reg \<lparr>bi_inode_type = SQUASHFS_REG_TYPE, bi_mode = 384, bi_uid = 1, bi_guid = 1,
     bi_mtime = 0, bi_inode_number = 5, reg_start_block = 96, reg_fragment = 0, reg_offset = 1, reg_file_size = 11\<rparr>"

text \<open>The header of the files' one data block: 8 bytes, stored as they are.\<close>

definition wit_hdrs :: "u32 list" where "wit_hdrs = [0x1000008]"

definition wit_inodes :: bytes where
  "wit_inodes = disk_inode_bytes wit_root @ (disk_inode_bytes wit_file @ concat (map (le_bytes 4) wit_hdrs))
     @ disk_inode_bytes wit_link @ disk_inode_bytes wit_sub
     @ disk_inode_bytes wit_reg @ concat (map (le_bytes 4) wit_hdrs) @ [0]"

text \<open>The directories.\<close>

definition wit_root_runs :: "disk_run list" where
  "wit_root_runs = [\<lparr>dr_start_block = 0, dr_inode_number = 1, dr_entries =
     [\<lparr>dd_offset = 32, dd_delta = 1, dd_type = 2, dd_name = [97]\<rparr>,
      \<lparr>dd_offset = 92, dd_delta = 2, dd_type = 3, dd_name = [98]\<rparr>,
      \<lparr>dd_offset = 119, dd_delta = 3, dd_type = 1, dd_name = [99]\<rparr>]\<rparr>]"

definition wit_sub_runs :: "disk_run list" where
  "wit_sub_runs = [\<lparr>dr_start_block = 0, dr_inode_number = 2, dr_entries =
     [\<lparr>dd_offset = 32, dd_delta = 0, dd_type = 2, dd_name = [97]\<rparr>,
      \<lparr>dd_offset = 151, dd_delta = 3, dd_type = 2, dd_name = [98]\<rparr>]\<rparr>]"

definition wit_dirs :: bytes where
  "wit_dirs = listing_bytes wit_root_runs @ listing_bytes wit_sub_runs @ [0]"

text \<open>The fragment, the ids, the inode numbers.\<close>

definition wit_frag :: squashfs_fragment_entry where
  "wit_frag = \<lparr>fe_start_block = 104, fe_size = 0x1000004, fe_unused = 0\<rparr>"

definition wit_ids :: bytes where
  "wit_ids = le_bytes 4 (1000 :: u32) @ le_bytes 4 (100 :: u32)"

definition wit_exports :: bytes where
  "wit_exports = concat (map (le_bytes 8) [0, 32, 92, 119, 151 :: u64])"

text \<open>Two extended attributes, the second with its value out of line.\<close>

definition wit_xattrs :: "disk_xattr list" where
  "wit_xattrs = [\<lparr>dx_type = 0, dx_name = [107], dx_value = [7, 8], dx_ool = None\<rparr>,
     \<lparr>dx_type = 1, dx_name = [116], dx_value = [5, 6, 7], dx_ool = Some 0\<rparr>]"

definition wit_xattr_block :: bytes where
  "wit_xattr_block = xattr_val_stored [5, 6, 7] @ xattr_run wit_xattrs @ [0]"

definition wit_xattr_id :: squashfs_xattr_id where
  "wit_xattr_id = \<lparr>xi_xattr = 7, xi_count = 2, xi_size = 28\<rparr>"

definition wit_xattr_info :: squashfs_xattr_id_table where
  "wit_xattr_info = \<lparr>xt_xattr_table_start = 440, xt_xattr_ids = 1, xt_unused = 0\<rparr>"

definition wit_fd :: bytes where
  "wit_fd = super_block_bytes wit_sb @ [1, 2, 3, 4, 5, 6, 7, 8] @ [0, 9, 10, 11]
     @ md_block_bytes wit_inodes @ md_block_bytes wit_dirs
     @ md_block_bytes (fragment_entry_bytes wit_frag) @ md_block_bytes wit_ids @ md_block_bytes wit_exports
     @ md_block_bytes wit_xattr_block @ md_block_bytes (xattr_id_bytes wit_xattr_id)
     @ le_bytes 8 (370 :: u64) @ le_bytes 8 (388 :: u64) @ le_bytes 8 (398 :: u64)
     @ xattr_id_table_bytes wit_xattr_info @ le_bytes 8 (478 :: u64)"

lemma wit_lengths [simp]:
  "length wit_inodes = 188" "length wit_dirs = 70" "length wit_ids = 8" "length wit_exports = 40"
  "length wit_xattr_block = 36" "length wit_fd = 544"
proof -
  show "length wit_inodes = 188"
    by (simp add: wit_inodes_def disk_inode_bytes_def wit_root_def wit_file_def wit_link_def wit_sub_def wit_reg_def wit_hdrs_def)
  moreover show "length wit_dirs = 70"
    by (simp add: wit_dirs_def listing_bytes_def wit_root_runs_def wit_sub_runs_def run_bytes_def)
  moreover show "length wit_ids = 8" by (simp add: wit_ids_def)
  moreover show "length wit_exports = 40" by (simp add: wit_exports_def)
  moreover show "length wit_xattr_block = 36"
    by (simp add: wit_xattr_block_def xattr_run_def wit_xattrs_def disk_xattr_bytes_def xattr_tail_bytes_def
        xattr_val_stored_def)
  ultimately show "length wit_fd = 544" by (simp add: wit_fd_def)
qed

section \<open>The opened image\<close>

text \<open>A build with zlib only, whose \<^verbatim>\<open>uncompress\<close> copies its input.\<close>

definition wit_uncompress :: "bytes \<Rightarrow> size_t \<Rightarrow> int \<times> bytes" where
  "wit_uncompress inp n = (0, take n inp)"

definition wit_libs :: "unit codec_libs" where
  "wit_libs = \<lparr>lib_uncompress = Some wit_uncompress, lib_lzma_buffer_decode = None,
     lib_lzma_alone_decoder = (0, ()), lib_lzma_code = (\<lambda>st inp n a. (0, 0, [], ())),
     lib_lzo1x = None, lib_lz4 = None, lib_zstd = None, lib_zstd_isError = (\<lambda>n. False)\<rparr>"

definition wit_table :: "size_t \<Rightarrow> size_t \<Rightarrow> u64 \<Rightarrow> sqfs_table" where
  "wit_table each cnt pos = \<lparr>tb_each = each, tb_count = cnt, tb_blocks = Some [pos]\<rparr>"

definition wit_heap :: "nat \<Rightarrow> heap" where
  "wit_heap n = \<lparr>hp_cells = (\<lambda>_. None), hp_brk = 0, hp_malloc_ok = (\<lambda>_. True), hp_mallocs = n\<rparr>"

definition wit_fs :: sqfs where
  "wit_fs = \<lparr>fs_fd = wit_fd, fs_offset = 0, fs_uid = 0, fs_gid = 0, fs_sb = wit_sb,
     fs_id_table = wit_table 4 2 388, fs_frag_table = wit_table 16 1 370, fs_export_table = wit_table 8 5 398,
     fs_decompressor = Some (sqfs_decompressor_zlib wit_uncompress), fs_xattr_info = wit_xattr_info,
     fs_xattr_table = wit_table 16 1 478,
     fs_md_cache = Some (fresh_bcache SQUASHFS_CACHED_BLKS), fs_data_cache = Some (fresh_bcache DATA_CACHED_BLKS),
     fs_frag_cache = Some (fresh_bcache FRAG_CACHED_BLKS), fs_blockidx = Some fresh_ixcache,
     fs_heap = wit_heap 12\<rparr>"

abbreviation wit_img :: sqfs_image where "wit_img \<equiv> fs_img wit_fs"

definition wit_env :: fs_env where
  "wit_env = \<lparr>ev_img = wit_img, ev_oracle = (\<lambda>_. True),
     ev_hdr = (\<lambda>w k. if w = DATA_CACHE then 0x1000008 else 0x1000004), ev_idx = (\<lambda>_ _. False)\<rparr>"

lemma wit_fs_simps [simp]:
  "fs_fd wit_fs = wit_fd" "fs_offset wit_fs = 0" "fs_sb wit_fs = wit_sb"
  "fs_id_table wit_fs = wit_table 4 2 388" "fs_frag_table wit_fs = wit_table 16 1 370"
  "fs_export_table wit_fs = wit_table 8 5 398" "fs_xattr_info wit_fs = wit_xattr_info"
  "fs_xattr_table wit_fs = wit_table 16 1 478"
  "fs_decompressor wit_fs = Some (sqfs_decompressor_zlib wit_uncompress)"
  by (simp_all add: wit_fs_def)

lemma wit_env_simps [simp]:
  "ev_img wit_env = wit_img" "ev_hdr wit_env DATA_CACHE k = 0x1000008" "ev_hdr wit_env FRAG_CACHE k = 0x1000004"
  "\<not> ev_oom wit_env"
  by (simp_all add: wit_env_def ev_oom_def)

lemma wit_heap_owned [simp]: "heap_owned (wit_heap n) {#}"
  by (simp add: heap_owned_def wit_heap_def)

lemma wit_libs_ok: "libs_ok wit_libs"
  by (simp add: libs_ok_def wit_libs_def wit_uncompress_def)

lemma wit_img_ok [simp]: "img_ok wit_img"
  using sqfs_decompressor_get_ok [OF wit_libs_ok, of 1 "sqfs_decompressor_zlib wit_uncompress"]
  by (simp add: img_ok_def sqfs_decompressor_get_def wit_libs_def)

lemma wit_clean: "fs_clean wit_env {#} wit_fs"
  by (rule fs_clean_fresh) (simp_all add: caches_ready_def wit_fs_def wit_env_def wit_heap_def heap_owned_def)

lemma wit_at:
  "img_at wit_img 0 (super_block_bytes wit_sb)" "img_at wit_img 96 [1, 2, 3, 4, 5, 6, 7, 8]"
  "img_at wit_img 104 [0, 9, 10, 11]" "img_at wit_img 108 (md_block_bytes wit_inodes)"
  "img_at wit_img 298 (md_block_bytes wit_dirs)" "img_at wit_img 370 (md_block_bytes (fragment_entry_bytes wit_frag))"
  "img_at wit_img 388 (md_block_bytes wit_ids)" "img_at wit_img 398 (md_block_bytes wit_exports)"
  "img_at wit_img 440 (md_block_bytes wit_xattr_block)" "img_at wit_img 478 (md_block_bytes (xattr_id_bytes wit_xattr_id))"
  by (simp_all add: img_at_def wit_fd_def)

section \<open>What the image holds\<close>

lemma wit_inode_cursor [simp]:
  "sqfs_md_cursor_inode 0 (off_of_u64 (sb_inode_table_start wit_sb)) = \<lparr>cur_block = 108, cur_offset = 0\<rparr>"
  "sqfs_md_cursor_inode 32 (off_of_u64 (sb_inode_table_start wit_sb)) = \<lparr>cur_block = 108, cur_offset = 32\<rparr>"
  "sqfs_md_cursor_inode 92 (off_of_u64 (sb_inode_table_start wit_sb)) = \<lparr>cur_block = 108, cur_offset = 92\<rparr>"
  "sqfs_md_cursor_inode 151 (off_of_u64 (sb_inode_table_start wit_sb)) = \<lparr>cur_block = 108, cur_offset = 151\<rparr>"
  "sqfs_md_cursor_inode 119 (off_of_u64 (sb_inode_table_start wit_sb)) = \<lparr>cur_block = 108, cur_offset = 119\<rparr>"
  by (simp_all add: sqfs_md_cursor_inode_def wit_sb_def off_of_u64_def u64_of_off_def)

lemma wit_inode_bytes [simp]:
  "length (disk_inode_bytes wit_root) = 32" "length (disk_inode_bytes wit_file) = 56"
  "length (disk_inode_bytes wit_link) = 27" "length (disk_inode_bytes wit_sub) = 32"
  "length (disk_head wit_file) = 56" "length (disk_head wit_link) = 24" "length (disk_inode_bytes wit_reg) = 32"
  by (simp_all add: disk_inode_bytes_def wit_root_def wit_file_def wit_link_def wit_sub_def wit_reg_def)

lemmas wit_inode_holds = md_holds_block [OF wit_img_ok wit_at(4), simplified]
lemmas wit_dir_holds = md_holds_block [OF wit_img_ok wit_at(5), simplified]

lemma wit_inodes_at:
  "md_holds wit_img \<lparr>cur_block = 108, cur_offset = 0\<rparr> (disk_inode_bytes wit_root) \<lparr>cur_block = 108, cur_offset = 32\<rparr>"
  "md_holds wit_img \<lparr>cur_block = 108, cur_offset = 32\<rparr> (disk_inode_bytes wit_file) \<lparr>cur_block = 108, cur_offset = 88\<rparr>"
  "md_holds wit_img \<lparr>cur_block = 108, cur_offset = 88\<rparr> (concat (map (le_bytes 4) wit_hdrs)) \<lparr>cur_block = 108, cur_offset = 92\<rparr>"
  "md_holds wit_img \<lparr>cur_block = 108, cur_offset = 92\<rparr> (disk_inode_bytes wit_link) \<lparr>cur_block = 108, cur_offset = 119\<rparr>"
  "md_holds wit_img \<lparr>cur_block = 108, cur_offset = 119\<rparr> (disk_inode_bytes wit_sub) \<lparr>cur_block = 108, cur_offset = 151\<rparr>"
  "md_holds wit_img \<lparr>cur_block = 108, cur_offset = 151\<rparr> (disk_inode_bytes wit_reg) \<lparr>cur_block = 108, cur_offset = 183\<rparr>"
  "md_holds wit_img \<lparr>cur_block = 108, cur_offset = 183\<rparr> (concat (map (le_bytes 4) wit_hdrs)) \<lparr>cur_block = 108, cur_offset = 187\<rparr>"
proof -
  have "concat (map (le_bytes 4) wit_hdrs) = le_bytes 4 (0x1000008 :: u32)" by (simp add: wit_hdrs_def)
  note ins = wit_inodes_def this
  show "md_holds wit_img \<lparr>cur_block = 108, cur_offset = 0\<rparr> (disk_inode_bytes wit_root) \<lparr>cur_block = 108, cur_offset = 32\<rparr>"
    using wit_inode_holds [of 0 "disk_inode_bytes wit_root"] by (simp add: ins)
  show "md_holds wit_img \<lparr>cur_block = 108, cur_offset = 32\<rparr> (disk_inode_bytes wit_file) \<lparr>cur_block = 108, cur_offset = 88\<rparr>"
    using wit_inode_holds [of 32 "disk_inode_bytes wit_file"] by (simp add: ins)
  show "md_holds wit_img \<lparr>cur_block = 108, cur_offset = 88\<rparr> (concat (map (le_bytes 4) wit_hdrs)) \<lparr>cur_block = 108, cur_offset = 92\<rparr>"
    using wit_inode_holds [of 88 "concat (map (le_bytes 4) wit_hdrs)"] by (simp add: ins)
  show "md_holds wit_img \<lparr>cur_block = 108, cur_offset = 92\<rparr> (disk_inode_bytes wit_link) \<lparr>cur_block = 108, cur_offset = 119\<rparr>"
    using wit_inode_holds [of 92 "disk_inode_bytes wit_link"] by (simp add: ins)
  show "md_holds wit_img \<lparr>cur_block = 108, cur_offset = 119\<rparr> (disk_inode_bytes wit_sub) \<lparr>cur_block = 108, cur_offset = 151\<rparr>"
    using wit_inode_holds [of 119 "disk_inode_bytes wit_sub"] by (simp add: ins)
  show "md_holds wit_img \<lparr>cur_block = 108, cur_offset = 151\<rparr> (disk_inode_bytes wit_reg) \<lparr>cur_block = 108, cur_offset = 183\<rparr>"
    using wit_inode_holds [of 151 "disk_inode_bytes wit_reg"] by (simp add: ins)
  show "md_holds wit_img \<lparr>cur_block = 108, cur_offset = 183\<rparr> (concat (map (le_bytes 4) wit_hdrs)) \<lparr>cur_block = 108, cur_offset = 187\<rparr>"
    using wit_inode_holds [of 183 "concat (map (le_bytes 4) wit_hdrs)"] by (simp add: ins)
qed

lemma wit_cur_ok [simp]: "0 < b \<Longrightarrow> b < 2 ^ 63 \<Longrightarrow> off < 2 ^ 64 \<Longrightarrow> cur_ok \<lparr>cur_block = b, cur_offset = off\<rparr>"
  by (simp add: cur_ok_def pos_ok_def)

lemma wit_disk_ok [simp]: "disk_inode_ok wit_root" "disk_inode_ok wit_file" "disk_inode_ok wit_link" "disk_inode_ok wit_sub"
  "disk_inode_ok wit_reg"
  by (simp_all add: wit_root_def wit_file_def wit_link_def wit_sub_def wit_reg_def)

text \<open>The inodes as the library reports them.\<close>

definition wit_root_inode :: sqfs_inode where
  "wit_root_inode = disk_inode_of wit_root \<lparr>cur_block = 108, cur_offset = 32\<rparr>"

definition wit_file_inode :: sqfs_inode where
  "wit_file_inode = disk_inode_of wit_file \<lparr>cur_block = 108, cur_offset = 88\<rparr>"

definition wit_link_inode :: sqfs_inode where
  "wit_link_inode = disk_inode_of wit_link \<lparr>cur_block = 108, cur_offset = 116\<rparr>"

definition wit_sub_inode :: sqfs_inode where
  "wit_sub_inode = disk_inode_of wit_sub \<lparr>cur_block = 108, cur_offset = 151\<rparr>"

definition wit_reg_inode :: sqfs_inode where
  "wit_reg_inode = disk_inode_of wit_reg \<lparr>cur_block = 108, cur_offset = 183\<rparr>"

lemma wit_dir_bytes [simp]: "length (listing_bytes wit_root_runs) = 39" "length (listing_bytes wit_sub_runs) = 30"
  by (simp_all add: listing_bytes_def wit_root_runs_def wit_sub_runs_def run_bytes_def)

lemma wit_dirs_at:
  "md_holds wit_img \<lparr>cur_block = 298, cur_offset = 0\<rparr> (listing_bytes wit_root_runs) \<lparr>cur_block = 298, cur_offset = 39\<rparr>"
  "md_holds wit_img \<lparr>cur_block = 298, cur_offset = 39\<rparr> (listing_bytes wit_sub_runs) \<lparr>cur_block = 298, cur_offset = 69\<rparr>"
  using wit_dir_holds [of 0 "listing_bytes wit_root_runs"] wit_dir_holds [of 39 "listing_bytes wit_sub_runs"]
  by (simp_all add: wit_dirs_def)

lemma wit_runs_ok: "\<forall>r \<in> set wit_root_runs. run_ok r" "\<forall>r \<in> set wit_sub_runs. run_ok r"
  by (simp_all add: wit_root_runs_def wit_sub_runs_def run_ok_def dirent_ok_def)

lemma wit_dir_xtra:
  "in_xtra wit_root_inode = X_Dir 0 0 42 0 6" "in_xtra wit_sub_inode = X_Dir 0 39 33 0 1"
  "S_ISDIR (in_mode wit_root_inode)" "S_ISDIR (in_mode wit_sub_inode)"
  by (simp_all add: wit_root_inode_def wit_sub_inode_def disk_inode_of_def wit_root_def wit_sub_def in_mode_def
      S_ISDIR_def sqfs_mode_def squashfs_base_inode.defs)

lemma wit_dir_base: "off_of_u64 (sb_directory_table_start wit_sb) = 298"
  by (simp add: wit_sb_def off_of_u64_def)

lemma wit_dir_holds_root: "dir_holds wit_img wit_root_inode wit_root_runs"
  and wit_dir_holds_sub: "dir_holds wit_img wit_sub_inode wit_sub_runs"
  using wit_dirs_at wit_runs_ok by (auto simp: dir_holds_def wit_dir_xtra wit_dir_base)

text \<open>The tables.\<close>

lemma wit_table_holds:
  assumes "img_at wit_img pos (md_block_bytes d)" and "0 < pos" and "0 < length d" and "length d \<le> 8192"
    and "each dvd 8192" and "cnt * each \<le> length d"
  shows "table_holds wit_img (wit_table each cnt (word_of_nat pos)) [d]"
proof -
  have "pos < 2 ^ 62" using assms(1) by (simp add: img_at_def)
  then have "off_of_u64 (word_of_nat pos) = int pos"
    by (simp add: off_of_u64_def uint_nat unat_of_nat)
  then show ?thesis using img_at_md_block [OF assms(1,3,4)] assms \<open>pos < 2 ^ 62\<close>
    by (simp add: table_holds_def wit_table_def pos_ok_def)
qed

lemma wit_tables:
  "table_holds wit_img (wit_table 4 2 388) [wit_ids]" "table_holds wit_img (wit_table 8 5 398) [wit_exports]"
  "table_holds wit_img (wit_table 16 1 370) [fragment_entry_bytes wit_frag]"
  "table_holds wit_img (wit_table 16 1 478) [xattr_id_bytes wit_xattr_id]"
  using wit_table_holds [OF wit_at(7), of 4 2] wit_table_holds [OF wit_at(8), of 8 5]
    wit_table_holds [OF wit_at(6), of 16 1] wit_table_holds [OF wit_at(10), of 16 1] by simp_all

text \<open>The file.\<close>

lemma wit_data:
  "data_block_spec wit_img 96 0x1000008 = Ok [1, 2, 3, 4, 5, 6, 7, 8]"
  "data_block_spec wit_img 104 0x1000004 = Ok [0, 9, 10, 11]"
proof -
  have l: "length [1, 2, 3, 4, 5, 6, 7, 8 :: u8] = 8" "length [0, 9, 10, 11 :: u8] = 4" by simp_all
  show "data_block_spec wit_img 96 0x1000008 = Ok [1, 2, 3, 4, 5, 6, 7, 8]"
    "data_block_spec wit_img 104 0x1000004 = Ok [0, 9, 10, 11]"
    using img_at_block [OF wit_at(2), of 8] img_at_block [OF wit_at(3), of 8] unfolding l
    by (simp_all add: data_block_spec_def sqfs_data_header_def wit_sb_def)
qed

lemma wit_file_xtra:
  "in_xtra wit_file_inode = X_Reg 96 11 0 1" "S_ISREG (in_mode wit_file_inode)"
  "in_next wit_file_inode = \<lparr>cur_block = 108, cur_offset = 88\<rparr>" "in_xattr wit_file_inode = 0"
  by (simp_all add: wit_file_inode_def disk_inode_of_def wit_file_def in_mode_def S_ISREG_def sqfs_mode_def
      squashfs_base_inode.defs)

lemma wit_reg_xtra:
  "in_xtra wit_reg_inode = X_Reg 96 11 0 1" "S_ISREG (in_mode wit_reg_inode)" "in_mode wit_reg_inode = 33152"
  "in_next wit_reg_inode = \<lparr>cur_block = 108, cur_offset = 183\<rparr>" "bi_inode_type (in_base wit_reg_inode) = SQUASHFS_REG_TYPE"
  by (simp_all add: wit_reg_inode_def disk_inode_of_def wit_reg_def in_mode_def S_ISREG_def sqfs_mode_def
      squashfs_base_inode.defs)

lemma wit_frag_holds: "frag_holds wit_env 0 1 [9, 10, 11]"
  using wit_tables(3) wit_data(2)
  by (auto simp: frag_holds_def wit_table_def table_array_def wit_frag_def off_of_u64_def pos_ok_def
      intro!: exI [of _ "[fragment_entry_bytes wit_frag]"] exI [of _ wit_frag])

lemma wit_file_holds: "file_holds wit_env wit_file_inode wit_hdrs [[1, 2, 3, 4, 5, 6, 7, 8]] [9, 10, 11]"
  using wit_inodes_at(3) wit_data(1) wit_frag_holds
  by (auto simp: file_holds_def wit_file_xtra wit_hdrs_def wit_sb_def block_holds_def hdr_size_def
      sqfs_blocklist_count_def off_of_u64_def pos_ok_def sqfs_data_header_def)

lemma wit_reg_holds: "file_holds wit_env wit_reg_inode wit_hdrs [[1, 2, 3, 4, 5, 6, 7, 8]] [9, 10, 11]"
  using wit_inodes_at(7) wit_data(1) wit_frag_holds
  by (auto simp: file_holds_def S_ISREG_def wit_reg_xtra wit_hdrs_def wit_sb_def block_holds_def hdr_size_def
      sqfs_blocklist_count_def off_of_u64_def pos_ok_def sqfs_data_header_def)

text \<open>The extended attributes.\<close>

lemma wit_xattr_bytes [simp]: "length (xattr_run wit_xattrs) = 28" "length (xattr_val_stored [5, 6, 7]) = 7"
  by (simp_all add: xattr_run_def wit_xattrs_def disk_xattr_bytes_def xattr_tail_bytes_def xattr_val_stored_def)

lemmas wit_xattr_holds = md_holds_block [OF wit_img_ok wit_at(9), simplified]

lemma wit_xattr_at:
  "md_at wit_img \<lparr>cur_block = 440, cur_offset = 7\<rparr> (xattr_run wit_xattrs)"
  "md_at wit_img \<lparr>cur_block = 440, cur_offset = 0\<rparr> (xattr_val_stored [5, 6, 7])"
  using wit_xattr_holds [of 7 "xattr_run wit_xattrs"] wit_xattr_holds [of 0 "xattr_val_stored [5, 6, 7]"]
  by (auto simp: wit_xattr_block_def md_at_def)

lemma wit_xattr_cursor:
  "xattr_base wit_img = 440"
  "sqfs_md_cursor_inode 7 440 = \<lparr>cur_block = 440, cur_offset = 7\<rparr>"
  "sqfs_md_cursor_inode 0 440 = \<lparr>cur_block = 440, cur_offset = 0\<rparr>"
  by (simp_all add: xattr_base_def wit_xattr_info_def sqfs_md_cursor_inode_def off_of_u64_def u64_of_off_def)

lemma wit_inode_xattrs: "inode_xattrs wit_env wit_file_inode wit_xattrs"
proof -
  have "\<forall>d \<in> set wit_xattrs. disk_xattr_ok wit_img d"
    using wit_xattr_at(2) by (simp add: wit_xattrs_def disk_xattr_ok_def wit_xattr_cursor)
  moreover have "table_array (wit_table 16 1 478) [xattr_id_bytes wit_xattr_id] 0 = xattr_id_bytes wit_xattr_id"
    by (simp add: table_array_def wit_table_def)
  moreover have "length wit_xattrs = 2" by (simp add: wit_xattrs_def)
  ultimately show ?thesis using wit_tables(4) wit_xattr_at(1)
    by (auto simp: inode_xattrs_def wit_file_xtra wit_xattr_info_def wit_xattr_cursor(2,3)
        wit_xattr_cursor(1) [simplified] wit_table_def wit_xattr_id_def
        intro!: exI [of _ "[xattr_id_bytes wit_xattr_id]"] exI [of _ wit_xattr_id])
qed

section \<open>Opening it\<close>

text \<open>What \<^verbatim>\<open>sqfs_init\<close> reads from the file, at offset 0.\<close>

lemma wit_pread:
  "sqfs_pread wit_fd 96 0 = Some (super_block_bytes wit_sb)"
  "sqfs_pread wit_fd 8 496 = Some (le_bytes 8 (370 :: u64))" "sqfs_pread wit_fd 8 504 = Some (le_bytes 8 (388 :: u64))"
  "sqfs_pread wit_fd 8 512 = Some (le_bytes 8 (398 :: u64))"
  "sqfs_pread wit_fd 16 520 = Some (xattr_id_table_bytes wit_xattr_info)"
  "sqfs_pread wit_fd 8 536 = Some (le_bytes 8 (478 :: u64))"
  by (simp_all add: sqfs_pread_def wit_fd_def)

lemma wit_table_init:
  assumes "sqfs_pread fd 8 start = Some (le_bytes 8 (pos :: u64))" and "0 < cnt" and "cnt * each \<le> 8192" and "0 < each"
  shows "sqfs_table_init tab fd start each cnt (wit_heap n) = (Ok (None, wit_table each cnt pos), wit_heap (Suc n))"
proof -
  have "sqfs_divceil (size_mul each cnt) 8192 = Ok 1"
  proof -
    have "size_mul each cnt = each * cnt" "0 < each * cnt" "each * cnt \<le> 8192" using assms by (simp_all add: ac_simps)
    then show ?thesis by (cases "each * cnt = 8192") (simp_all add: sqfs_divceil_def)
  qed
  then show ?thesis using assms
    by (simp add: sqfs_table_init_def io_simps hp_malloc_run wit_heap_def wit_table_def Let_def)
qed

lemma wit_init_table:
  assumes "fs_fd s = wit_fd" and "fs_offset s = 0" and "fs_heap s = wit_heap n"
    and "sqfs_pread wit_fd 8 (off_of_u64 start) = Some (le_bytes 8 (pos :: u64))"
    and "0 < cnt" and "cnt * each \<le> 8192" and "0 < each"
  shows "init_table get put start each cnt s = (Ok False, put (wit_table each cnt pos) (s\<lparr>fs_heap := wit_heap (Suc n)\<rparr>))"
  using assms wit_table_init [OF assms(4-7)] by (simp add: init_table_def io_simps on_heap_def)

lemma wit_xattr_init:
  assumes "fs_fd s = wit_fd" and "fs_offset s = 0" and "fs_heap s = wit_heap n" and "fs_sb s = wit_sb"
  shows "init_step sqfs_xattr_init s =
    (Ok False, s\<lparr>fs_heap := wit_heap (Suc n), fs_xattr_info := wit_xattr_info, fs_xattr_table := wit_table 16 1 478\<rparr>)"
proof -
  have "off_of_u64 (sb_xattr_id_table_start wit_sb) = 520" "unat (xt_xattr_ids wit_xattr_info) = 1"
    by (simp_all add: wit_sb_def off_of_u64_def wit_xattr_info_def)
  then show ?thesis
    using assms wit_table_init [OF wit_pread(6), of 1 16] wit_pread(5)
    by (simp add: init_step_def sqfs_xattr_init_def io_simps on_heap_def Let_def)
qed

definition wit_opening :: "nat \<Rightarrow> sqfs" where
  "wit_opening n = (sqfs_zero wit_fd 0 (wit_heap n))\<lparr>fs_sb := wit_sb,
     fs_decompressor := Some (sqfs_decompressor_zlib wit_uncompress)\<rparr>"

lemma wit_opening_fields [simp]:
  "fs_fd (wit_opening n) = wit_fd" "fs_offset (wit_opening n) = 0" "fs_sb (wit_opening n) = wit_sb"
  "fs_heap (wit_opening n) = wit_heap n"
  by (simp_all add: wit_opening_def sqfs_zero_def)

lemma wit_init_tables:
  "init_tables wit_sb (wit_opening n) =
   (Ok False, (wit_opening n)\<lparr>fs_heap := wit_heap (Suc (Suc (Suc (Suc n)))),
     fs_id_table := wit_table 4 2 388, fs_frag_table := wit_table 16 1 370, fs_export_table := wit_table 8 5 398,
     fs_xattr_info := wit_xattr_info, fs_xattr_table := wit_table 16 1 478\<rparr>)"
proof -
  have pos: "off_of_u64 (sb_id_table_start wit_sb) = 504" "off_of_u64 (sb_fragment_table_start wit_sb) = 496"
    "off_of_u64 (sb_lookup_table_start wit_sb) = 512"
    and num: "unat (sb_no_ids wit_sb) = 2" "unat (sb_fragments wit_sb) = 1" "unat (sb_inodes wit_sb) = 5"
    by (simp_all add: wit_sb_def off_of_u64_def)
  have ex: "sqfs_export_ok s = True" if "fs_sb s = wit_sb" for s
    using that by (simp add: wit_sb_def u64_of_off_def sqfs_export_ok_def)
  show ?thesis
    unfolding init_tables_def
    by (simp add: io_bind_run io_gets_run io_ret_run pos num ex wit_pread
        wit_init_table [where n = n and pos = 388] wit_init_table [where n = "Suc n" and pos = 370]
        wit_init_table [where n = "Suc (Suc n)" and pos = 398] wit_xattr_init [where n = "Suc (Suc (Suc n))"])
qed

lemma wit_init_cache:
  "fs_heap s = wit_heap n \<Longrightarrow> init_cache put (sqfs_cache_init sz cnt d z) s =
      (Ok False, put (Some (fresh_cache sz cnt d z)) (s\<lparr>fs_heap := wit_heap (Suc (Suc n))\<rparr>))"
  by (simp add: init_cache_def init_step_def sqfs_cache_init_def io_simps on_heap_def hp_malloc_run
        fresh_cache_def wit_heap_def)

lemma wit_init_caches:
  assumes "fs_heap s = wit_heap 4"
  shows "init_caches s = (Ok False, s\<lparr>fs_heap := wit_heap 12,
     fs_md_cache := Some (fresh_bcache SQUASHFS_CACHED_BLKS), fs_data_cache := Some (fresh_bcache DATA_CACHED_BLKS),
     fs_frag_cache := Some (fresh_bcache FRAG_CACHED_BLKS), fs_blockidx := Some fresh_ixcache\<rparr>)"
  unfolding init_caches_def sqfs_block_cache_init_def sqfs_blockidx_init_def
  using assms by (simp add: io_bind_run io_ret_run wit_init_cache [where n = 4] wit_init_cache [where n = 6]
      wit_init_cache [where n = 8] wit_init_cache [where n = 10])

lemma wit_init_verdict:
  "init_verdict wit_libs wit_fd 0 = Ok (wit_sb, sqfs_decompressor_zlib wit_uncompress)"
  by (simp add: init_verdict_def wit_pread(1) sb_checked_def sb_version_ok_def wit_sb_def sqfs_decompressor_get_def
      wit_libs_def)

text \<open>Opening the image gives the state the properties are applied to.\<close>

lemma wit_sqfs_init:
  assumes "fs_heap s = wit_heap 0"
  shows "sqfs_init wit_libs junk wit_fd 0 s = (Ok (), wit_fs)"
proof -
  have pre: "sqfs_init wit_libs junk wit_fd 0 s =
     io_bind (init_tables wit_sb) (\<lambda>e1. io_bind init_caches (\<lambda>e2.
       if e1 \<or> e2 then io_bind sqfs_destroy (\<lambda>_. io_raise SQFS_ERR) else io_ret ())) (wit_opening 0)"
    unfolding wit_opening_def assms [symmetric] by (rule sqfs_init_steps [OF wit_init_verdict])
  have "Suc (Suc (Suc (Suc 0))) = 4" by simp
  note t = wit_init_tables [of 0, unfolded this]
  show ?thesis
    unfolding pre io_bind_run t by (simp add: io_bind_run io_ret_run wit_init_caches)
      (simp add: wit_fs_def wit_opening_def sqfs_zero_def)
qed

text \<open>A state with an empty store to open an image in, and opening the image at its root \<open>"/"\<close>.\<close>

definition wit_blank :: sqfs where "wit_blank = sqfs_zero [] 0 (wit_heap 0)"

lemma wit_blank_heap [simp]: "fs_heap wit_blank = wit_heap 0"
  by (simp add: wit_blank_def sqfs_zero_def)

lemma wit_root_inode_get: "yields wit_env {#} (sqfs_inode_get 0) (Ok wit_root_inode)"
proof -
  have "disk_head wit_root = disk_inode_bytes wit_root" by (simp add: disk_inode_bytes_def wit_root_def)
  then show ?thesis
    using sqfs_inode_get_disk [of wit_env 0 wit_root "\<lparr>cur_block = 108, cur_offset = 32\<rparr>" "{#}"] wit_inodes_at(1)
    by (auto simp: wit_root_inode_def ms.holds_def)
qed

lemma wit_init_slash: "\<exists>s'. sqfs_init_with_subdir wit_libs junk wit_fd 0 (Some [slash]) wit_blank = (Ok (), s')"
proof -
  have "Suc (Suc (Suc (Suc 0))) = 4" by simp
  note t = wit_init_tables [of 0, unfolded this]
  have op: "(sqfs_zero wit_fd 0 (wit_heap 0))\<lparr>fs_sb := wit_sb, fs_decompressor := Some (sqfs_decompressor_zlib wit_uncompress)\<rparr>
      = wit_opening 0" by (simp add: wit_opening_def)
  obtain s1 where s1: "sqfs_inode_get 0 wit_fs = (Ok wit_root_inode, s1)"
    using wit_root_inode_get wit_clean by (auto elim: implements_OkD)
  have "lookup_loop f i junk [slash] e = io_ret (Some (i, junk))" for f i e by (simp add: lookup_loop.simps)
  then have "init_subdir junk [slash] wit_fs = (Ok (True, False), s1\<lparr>fs_sb := (fs_sb s1)\<lparr>sb_root_inode := junk\<rparr>\<rparr>)"
    using s1 by (simp add: init_subdir_def io_simps sqfs_inode_root_def sqfs_lookup_path_with_id_def wit_sb_def)
  moreover have "init_caches ((wit_opening 0)\<lparr>fs_heap := wit_heap 4,
     fs_id_table := wit_table 4 2 388, fs_frag_table := wit_table 16 1 370, fs_export_table := wit_table 8 5 398,
     fs_xattr_info := wit_xattr_info, fs_xattr_table := wit_table 16 1 478\<rparr>) = (Ok False, wit_fs)"
    by (simp add: wit_init_caches) (simp add: wit_fs_def wit_opening_def sqfs_zero_def)
  ultimately show ?thesis
    unfolding sqfs_init_with_subdir_steps [OF wit_init_verdict] wit_blank_heap op io_bind_run t
    by (simp add: io_bind_run io_ret_run)
qed

text \<open>The other inodes, and the order of the names.\<close>

lemma wit_inode_gets:
  "yields wit_env {#} (sqfs_inode_get 32) (Ok wit_file_inode)"
  "yields wit_env {#} (sqfs_inode_get 92) (Ok wit_link_inode)"
  "yields wit_env {#} (sqfs_inode_get 119) (Ok wit_sub_inode)"
  "yields wit_env {#} (sqfs_inode_get 151) (Ok wit_reg_inode)"
proof -
  have h: "disk_head wit_file = disk_inode_bytes wit_file" "disk_head wit_sub = disk_inode_bytes wit_sub"
    "disk_head wit_reg = disk_inode_bytes wit_reg"
    by (simp_all add: disk_inode_bytes_def wit_file_def wit_sub_def wit_reg_def)
  show "yields wit_env {#} (sqfs_inode_get 32) (Ok wit_file_inode)"
    using sqfs_inode_get_disk [of wit_env 32 wit_file "\<lparr>cur_block = 108, cur_offset = 88\<rparr>" "{#}"] wit_inodes_at(2) h(1)
    by (auto simp: wit_file_inode_def ms.holds_def)
  show "yields wit_env {#} (sqfs_inode_get 119) (Ok wit_sub_inode)"
    using sqfs_inode_get_disk [of wit_env 119 wit_sub "\<lparr>cur_block = 108, cur_offset = 151\<rparr>" "{#}"] wit_inodes_at(5) h(2)
    by (auto simp: wit_sub_inode_def ms.holds_def)
  show "yields wit_env {#} (sqfs_inode_get 151) (Ok wit_reg_inode)"
    using sqfs_inode_get_disk [of wit_env 151 wit_reg "\<lparr>cur_block = 108, cur_offset = 183\<rparr>" "{#}"] wit_inodes_at(6) h(3)
    by (auto simp: wit_reg_inode_def ms.holds_def)
  have "md_holds wit_img \<lparr>cur_block = 108, cur_offset = 92\<rparr> (disk_head wit_link) \<lparr>cur_block = 108, cur_offset = 116\<rparr>"
    using wit_inode_holds [of 92 "disk_head wit_link"]
    by (simp add: wit_inodes_def disk_inode_bytes_def wit_root_def wit_file_def wit_link_def wit_hdrs_def)
  then show "yields wit_env {#} (sqfs_inode_get 92) (Ok wit_link_inode)"
    using sqfs_inode_get_disk [of wit_env 92 wit_link "\<lparr>cur_block = 108, cur_offset = 119\<rparr>" "{#}"] wit_inodes_at(4)
    by (auto simp: wit_link_inode_def ms.holds_def)
qed

lemma wit_names_sorted: "names_sorted (listing_of 0 0 0 [] wit_root_runs)" "names_sorted (listing_of 0 0 0 [] wit_sub_runs)"
  by (simp_all add: wit_root_runs_def wit_sub_runs_def names_sorted_def dir_entry_of_def)

lemma wit_listing:
  "map ent_inode (listing_of 0 0 0 [] wit_root_runs) = [32, 92, 119]"
  "map ent_name (listing_of 0 0 0 [] wit_root_runs) = [Some [97], Some [98], Some [99]]"
  "map ent_inode (listing_of 0 0 0 [] wit_sub_runs) = [32, 151]"
  "map ent_name (listing_of 0 0 0 [] wit_sub_runs) = [Some [97], Some [98]]"
  by (simp_all add: wit_root_runs_def wit_sub_runs_def dir_entry_of_def)

end
