(* ===== verification/Sqfs_Stack.thy ===== *)
theory Sqfs_Stack
  imports Sqfs_Block
begin

text \<open>
  The growable stack of \<^verbatim>\<open>stack.c\<close>, which the traversal keeps its levels in. An item pointer
  the code hands out (\<^verbatim>\<open>items + i * value_size\<close>) is the index \<open>i\<close>; the slots of the array are
  \<open>None\<close> until they are written. What a client relies on is the locale \<open>lifo\<close>: the stack is a list,
  a push adds one slot on top, a pop removes it.
\<close>

section \<open>State and operations\<close>

record 'v sqfs_stack =
  st_value_size :: size_t
  st_size :: size_t
  st_capacity :: size_t
  st_items :: "'v option list option"
  st_freer :: "('v option \<Rightarrow> (heap, unit) io) option"

text \<open>The slot an item pointer refers to, and writing it.\<close>

definition stack_slot :: "size_t \<Rightarrow> 'v sqfs_stack \<Rightarrow> 'v option res" where
  "stack_slot i s = (case st_items s of None \<Rightarrow> Fault Null_Deref
   | Some xs \<Rightarrow> if i < length xs then Ok (xs ! i) else Fault Out_Of_Bounds)"

definition stack_store :: "size_t \<Rightarrow> 'v \<Rightarrow> 'v sqfs_stack \<Rightarrow> 'v sqfs_stack res" where
  "stack_store i v s = (case st_items s of None \<Rightarrow> Fault Null_Deref
   | Some xs \<Rightarrow> if i < length xs then Ok (s\<lparr>st_items := Some (xs[i := Some v])\<rparr>) else Fault Out_Of_Bounds)"

text \<open>\<^verbatim>\<open>realloc\<close> to \<open>bytes\<close> bytes keeps the slots that fit and adds uninitialised ones.\<close>

definition stack_realloc :: "size_t \<Rightarrow> size_t \<Rightarrow> 'v option list option \<Rightarrow> 'v option list" where
  "stack_realloc vsize bytes xs = (let n = bytes div vsize; old = (case xs of None \<Rightarrow> [] | Some xs \<Rightarrow> xs) in
     take n old @ replicate (n - length old) None)"

definition sqfs_stack_capacity :: "size_t \<Rightarrow> ('v sqfs_stack \<times> heap, unit) io" where
  "sqfs_stack_capacity cap = (\<lambda>(s, h).
     if cap \<le> st_capacity s then (Ok (), (s, h))
     else (case hp_malloc h of (r, h') \<Rightarrow>
       (if r = Ok True then
          (Ok (), (s\<lparr>st_items := Some (stack_realloc (st_value_size s) (size_mul cap (st_value_size s)) (st_items s)),
                     st_capacity := cap\<rparr>, h'))
        else (Err SQFS_ERR, (s, h')))))"

text \<open>\<^verbatim>\<open>cap * CAPACITY_RATIO\<close> is \<^verbatim>\<open>cap * 3 / 2\<close>; the product wraps.\<close>

definition sqfs_stack_next_capacity :: "size_t \<Rightarrow> size_t" where
  "sqfs_stack_next_capacity cap =
     (if cap = 0 then 8 else
      let n = size_mul cap 3 div 2 in if n \<le> cap then size_add cap 1 else n)"

definition sqfs_stack_grow :: "('v sqfs_stack \<times> heap, unit) io" where
  "sqfs_stack_grow =
     io_bind (io_gets fst) (\<lambda>s.
     io_bind (if st_size s = st_capacity s then sqfs_stack_capacity (sqfs_stack_next_capacity (st_capacity s))
       else io_ret ()) (\<lambda>_.
     io_modify (\<lambda>(s, h). (s\<lparr>st_size := size_add (st_size s) 1\<rparr>, h))))"

definition sqfs_stack_create ::
  "size_t \<Rightarrow> size_t \<Rightarrow> ('v option \<Rightarrow> (heap, unit) io) option \<Rightarrow> ('v sqfs_stack \<times> heap, unit) io" where
  "sqfs_stack_create vsize initial freer =
     io_bind (io_modify (\<lambda>(s, h). (\<lparr>st_value_size = vsize, st_size = 0, st_capacity = 0,
       st_items = None, st_freer = freer\<rparr>, h))) (\<lambda>_.
     sqfs_stack_capacity initial)"

text \<open>\<^verbatim>\<open>sqfs_stack_init\<close> leaves the size and the free function as they are.\<close>

definition sqfs_stack_init :: "'v sqfs_stack \<Rightarrow> 'v sqfs_stack" where
  "sqfs_stack_init s = s\<lparr>st_items := None, st_capacity := 0\<rparr>"

definition sqfs_stack_size :: "'v sqfs_stack \<Rightarrow> size_t" where
  "sqfs_stack_size s = st_size s"

definition sqfs_stack_at :: "'v sqfs_stack \<Rightarrow> size_t \<Rightarrow> size_t res" where
  "sqfs_stack_at s i = (if st_size s \<le> i then Err SQFS_ERR else Ok i)"

definition sqfs_stack_top :: "'v sqfs_stack \<Rightarrow> size_t res" where
  "sqfs_stack_top s = (if st_size s = 0 then Err SQFS_ERR else sqfs_stack_at s (st_size s - 1))"

definition sqfs_stack_push :: "('v sqfs_stack \<times> heap, size_t) io" where
  "sqfs_stack_push =
     io_bind sqfs_stack_grow (\<lambda>_.
     io_bind (io_gets fst) (\<lambda>s. io_lift (sqfs_stack_top s)))"

definition sqfs_stack_pop :: "('v sqfs_stack \<times> heap, bool) io" where
  "sqfs_stack_pop =
     io_bind (io_gets fst) (\<lambda>s.
     if st_size s = 0 then io_ret False else
     io_bind (io_lift (sqfs_stack_top s)) (\<lambda>v.
     io_bind (case st_freer s of None \<Rightarrow> io_ret ()
       | Some freer \<Rightarrow> io_bind (io_lift (stack_slot v s)) (\<lambda>x.
           io_on snd (\<lambda>h (s, _). (s, h)) (freer x))) (\<lambda>_.
     io_bind (io_modify (\<lambda>(s, h). (s\<lparr>st_size := st_size s - 1\<rparr>, h))) (\<lambda>_.
     io_ret True))))"

text \<open>The loop of \<^verbatim>\<open>sqfs_stack_destroy\<close>; each pop lowers the size, which is the fuel.\<close>

fun stack_pop_all :: "nat \<Rightarrow> ('v sqfs_stack \<times> heap, unit) io" where
  "stack_pop_all 0 = io_bind sqfs_stack_pop (\<lambda>more. if more then io_fault Diverges else io_ret ())"
| "stack_pop_all (Suc fuel) = io_bind sqfs_stack_pop (\<lambda>more. if more then stack_pop_all fuel else io_ret ())"

definition sqfs_stack_destroy :: "('v sqfs_stack \<times> heap, unit) io" where
  "sqfs_stack_destroy =
     io_bind (io_gets (\<lambda>(s, h). st_size s)) (\<lambda>n.
     io_bind (stack_pop_all n) (\<lambda>_.
     io_modify (\<lambda>(s, h). (sqfs_stack_init s, h))))"

section \<open>The stack is a list\<close>

text \<open>\<open>st_capacity\<close> slots are allocated, unless nothing was; the bound keeps the byte counts of
  \<^verbatim>\<open>realloc\<close> from wrapping.\<close>

definition stack_wf :: "'v sqfs_stack \<Rightarrow> bool" where
  "stack_wf s \<longleftrightarrow> 0 < st_value_size s \<and> st_size s \<le> st_capacity s \<and>
     (case st_items s of None \<Rightarrow> st_capacity s = 0 | Some xs \<Rightarrow> length xs = st_capacity s)"

definition stack_room :: "'v sqfs_stack \<Rightarrow> bool" where
  "stack_room s \<longleftrightarrow> st_size s * 2 * st_value_size s + 16 * st_value_size s < 2 ^ 62"

definition stack_list :: "'v sqfs_stack \<Rightarrow> 'v option list" where
  "stack_list s = (case st_items s of None \<Rightarrow> [] | Some xs \<Rightarrow> take (st_size s) xs)"

lemma stack_list_length: "stack_wf s \<Longrightarrow> length (stack_list s) = st_size s"
  by (auto simp: stack_wf_def stack_list_def split: option.splits)

lemma next_capacity_grows:
  assumes "cap * 3 < 2 ^ 64"
  shows "cap < sqfs_stack_next_capacity cap" and "sqfs_stack_next_capacity cap \<le> cap * 2 + 8"
  using assms by (auto simp: sqfs_stack_next_capacity_def size_mul_def size_add_def Let_def)

lemma stack_room_size:
  assumes "stack_wf s" and "stack_room s"
  shows "st_size s < 2 ^ 61"
proof -
  have "st_size s * 1 \<le> st_size s * st_value_size s" using assms(1) by (intro mult_le_mono2) (simp add: stack_wf_def)
  moreover have "st_size s * 2 * st_value_size s = st_size s * st_value_size s + st_size s * st_value_size s" by simp
  moreover have "(2 :: nat) ^ 62 = 2 * 2 ^ 61" by simp
  ultimately show ?thesis using assms(2) unfolding stack_room_def by linarith
qed

lemma sqfs_stack_grow_spec:
  assumes wf: "stack_wf s" and room: "stack_room s"
  shows "\<exists>r s' n. sqfs_stack_grow (s, h) = (r, (s', h\<lparr>hp_mallocs := n\<rparr>)) \<and>
    (case r of Ok _ \<Rightarrow> stack_wf s' \<and> (\<exists>x. stack_list s' = stack_list s @ [x]) \<and>
        st_size s' = Suc (st_size s) \<and> st_value_size s' = st_value_size s \<and> st_freer s' = st_freer s
     | Err e \<Rightarrow> e = SQFS_ERR \<and> s' = s \<and> \<not> (\<forall>n. hp_malloc_ok h n)
     | Fault _ \<Rightarrow> False)"
proof -
  let ?n = "sqfs_stack_next_capacity (st_capacity s)" and ?v = "st_value_size s"
  have v: "1 \<le> ?v" using wf by (simp add: stack_wf_def)
  have sz: "st_size s < 2 ^ 61" by (rule stack_room_size [OF wf room])
  show ?thesis
  proof (cases "st_size s = st_capacity s")
    case False
    then have lt: "st_size s < st_capacity s" using wf by (simp add: stack_wf_def)
    then obtain xs where xs: "st_items s = Some xs" "length xs = st_capacity s"
      using wf by (cases "st_items s") (auto simp: stack_wf_def)
    let ?s = "s\<lparr>st_size := Suc (st_size s)\<rparr>"
    have "stack_list ?s = stack_list s @ [xs ! st_size s]"
      using xs lt by (simp add: stack_list_def take_Suc_conv_app_nth)
    moreover have "stack_wf ?s" using wf lt xs by (simp add: stack_wf_def)
    moreover have "sqfs_stack_grow (s, h) = (Ok (), (?s, h\<lparr>hp_mallocs := hp_mallocs h\<rparr>))"
      using False sz by (simp add: sqfs_stack_grow_def io_simps)
    ultimately show ?thesis by (intro exI [of _ "Ok ()"] exI [of _ ?s] exI [of _ "hp_mallocs h"]) auto
  next
    case True
    have n: "st_size s < ?n" "?n \<le> st_size s * 2 + 8" using next_capacity_grows [of "st_capacity s"] sz True by simp_all
    have "?n * ?v \<le> (st_size s * 2 + 8) * ?v" using n(2) by (rule mult_le_mono1)
    then have "?n * ?v < 2 ^ 62" using room unfolding stack_room_def add_mult_distrib by linarith
    then have cnt: "size_mul ?n ?v div ?v = ?n" using v by (simp add: size_mul_def)
    let ?old = "case st_items s of None \<Rightarrow> [] | Some xs \<Rightarrow> xs"
    have old: "length ?old = st_size s" "stack_list s = ?old"
      using wf True by (auto simp: stack_wf_def stack_list_def split: option.splits)
    let ?xs = "stack_realloc ?v (size_mul ?n ?v) (st_items s)"
    have xs: "?xs = ?old @ replicate (?n - st_size s) None"
      using n(1) old(1) by (simp add: stack_realloc_def Let_def cnt)
    let ?s = "s\<lparr>st_items := Some ?xs, st_capacity := ?n, st_size := Suc (st_size s)\<rparr>"
    obtain m where m: "?n - st_size s = Suc m" using n(1) by (cases "?n - st_size s") auto
    have "take (Suc (st_size s)) ?xs = ?old @ [None]" unfolding xs m using old(1) by simp
    then have "stack_list ?s = stack_list s @ [None]" using old(2) by (simp add: stack_list_def)
    moreover have "stack_wf ?s" using wf n(1) old(1) by (auto simp: stack_wf_def xs)
    moreover have run: "sqfs_stack_grow (s, h) = (if hp_malloc_ok h (hp_mallocs h)
        then (Ok (), (?s, h\<lparr>hp_mallocs := Suc (hp_mallocs h)\<rparr>))
        else (Err SQFS_ERR, (s, h\<lparr>hp_mallocs := Suc (hp_mallocs h)\<rparr>)))"
      using True n(1) sz by (simp add: sqfs_stack_grow_def sqfs_stack_capacity_def io_simps hp_malloc_run)
    moreover have "\<not> (\<forall>n. hp_malloc_ok h n)" if "\<not> hp_malloc_ok h (hp_mallocs h)" using that by blast
    ultimately show ?thesis
      by (cases "hp_malloc_ok h (hp_mallocs h)"; simp only: if_True if_False prod.inject; intro exI conjI; (rule refl)?)
         auto
  qed
qed

lemma sqfs_stack_push_spec:
  assumes wf: "stack_wf s" and room: "stack_room s"
  shows "\<exists>r s' n. sqfs_stack_push (s, h) = (r, (s', h\<lparr>hp_mallocs := n\<rparr>)) \<and>
    (case r of Ok i \<Rightarrow> i = st_size s \<and> stack_wf s' \<and> (\<exists>x. stack_list s' = stack_list s @ [x]) \<and>
        st_value_size s' = st_value_size s \<and> st_freer s' = st_freer s
     | Err e \<Rightarrow> e = SQFS_ERR \<and> s' = s \<and> \<not> (\<forall>n. hp_malloc_ok h n)
     | Fault _ \<Rightarrow> False)"
proof -
  from sqfs_stack_grow_spec [OF assms, of h] obtain r s' n where
    g: "sqfs_stack_grow (s, h) = (r, (s', h\<lparr>hp_mallocs := n\<rparr>))"
      "case r of Ok _ \<Rightarrow> stack_wf s' \<and> (\<exists>x. stack_list s' = stack_list s @ [x]) \<and>
        st_size s' = Suc (st_size s) \<and> st_value_size s' = st_value_size s \<and> st_freer s' = st_freer s
     | Err e \<Rightarrow> e = SQFS_ERR \<and> s' = s \<and> \<not> (\<forall>n. hp_malloc_ok h n)
     | Fault _ \<Rightarrow> False" by blast
  then show ?thesis
    by (cases r) (auto simp: sqfs_stack_push_def io_simps sqfs_stack_top_def sqfs_stack_at_def)
qed

lemma stack_slot_list: "stack_wf s \<Longrightarrow> i < st_size s \<Longrightarrow> stack_slot i s = Ok (stack_list s ! i)"
  by (auto simp: stack_slot_def stack_wf_def stack_list_def split: option.splits)

lemma stack_store_list:
  "stack_wf s \<Longrightarrow> i < st_size s \<Longrightarrow> \<exists>s'. stack_store i v s = Ok s' \<and> stack_wf s' \<and>
     stack_list s' = (stack_list s)[i := Some v] \<and> st_size s' = st_size s \<and>
     st_value_size s' = st_value_size s \<and> st_freer s' = st_freer s"
  by (auto simp: stack_store_def stack_wf_def stack_list_def take_update_swap split: option.splits)

lemma sqfs_stack_pop_spec:
  assumes wf: "stack_wf s" and freer: "st_freer s = None"
  shows "sqfs_stack_pop (s, h) = (Ok (stack_list s \<noteq> []), (s\<lparr>st_size := st_size s - 1\<rparr>, h))"
    and "stack_wf (s\<lparr>st_size := st_size s - 1\<rparr>)"
    and "stack_list (s\<lparr>st_size := st_size s - 1\<rparr>) = butlast (stack_list s)"
proof -
  have z: "st_size s = 0 \<longleftrightarrow> stack_list s = []" using stack_list_length [OF wf] by auto
  show "sqfs_stack_pop (s, h) = (Ok (stack_list s \<noteq> []), (s\<lparr>st_size := st_size s - 1\<rparr>, h))"
    using freer z by (auto simp: sqfs_stack_pop_def io_simps sqfs_stack_top_def sqfs_stack_at_def)
  show "stack_wf (s\<lparr>st_size := st_size s - 1\<rparr>)"
    using wf by (cases "st_items s") (auto simp: stack_wf_def)
  show "stack_list (s\<lparr>st_size := st_size s - 1\<rparr>) = butlast (stack_list s)"
    using wf by (auto simp: stack_wf_def stack_list_def butlast_take split: option.splits)
qed

text \<open>Destroying a stack pops every item, and ends in the state \<^verbatim>\<open>sqfs_stack_init\<close> gives.\<close>

lemma stack_pop_all_spec:
  "stack_wf s \<Longrightarrow> st_freer s = None \<Longrightarrow> stack_pop_all (st_size s) (s, h) = (Ok (), (s\<lparr>st_size := 0\<rparr>, h))"
proof (induction "st_size s" arbitrary: s)
  case 0
  then have "stack_list s = []" using stack_list_length [of s] by simp
  then show ?case using 0 sqfs_stack_pop_spec(1) [of s h] by (simp flip: 0(1) add: io_simps)
next
  case (Suc n)
  let ?t = "s\<lparr>st_size := st_size s - 1\<rparr>"
  have ne: "stack_list s \<noteq> []" using stack_list_length [OF Suc(3)] Suc(2) by auto
  have n: "n = st_size ?t" using Suc(2) by simp
  have "stack_pop_all (st_size ?t) (?t, h) = (Ok (), (?t\<lparr>st_size := 0\<rparr>, h))"
    by (rule Suc(1) [OF n]) (use sqfs_stack_pop_spec(2) [OF Suc(3,4)] Suc(4) in simp_all)
  then have "stack_pop_all n (?t, h) = (Ok (), (s\<lparr>st_size := 0\<rparr>, h))" unfolding n by simp
  moreover have "stack_pop_all (st_size s) (s, h) = stack_pop_all n (?t, h)"
    unfolding Suc(2) [symmetric] stack_pop_all.simps io_bind_run sqfs_stack_pop_spec(1) [OF Suc(3,4)]
    using ne by (simp flip: Suc(2))
  ultimately show ?case by simp
qed

lemma sqfs_stack_destroy_spec:
  assumes "stack_wf s" and "st_freer s = None"
  shows "sqfs_stack_destroy (s, h) = (Ok (), (s\<lparr>st_size := 0, st_items := None, st_capacity := 0\<rparr>, h))"
  using stack_pop_all_spec [OF assms] by (simp add: sqfs_stack_destroy_def io_simps sqfs_stack_init_def)

text \<open>With memory to spare, what a push does is a function of the stack.\<close>

definition stack_pushed :: "'v sqfs_stack \<Rightarrow> 'v sqfs_stack" where
  "stack_pushed s = (if st_size s = st_capacity s
     then s\<lparr>st_items := Some (stack_realloc (st_value_size s)
              (size_mul (sqfs_stack_next_capacity (st_capacity s)) (st_value_size s)) (st_items s)),
            st_capacity := sqfs_stack_next_capacity (st_capacity s), st_size := Suc (st_size s)\<rparr>
     else s\<lparr>st_size := Suc (st_size s)\<rparr>)"

lemma sqfs_stack_push_ok:
  assumes wf: "stack_wf s" and room: "stack_room s" and mem: "\<forall>n. hp_malloc_ok h n"
  shows "\<exists>n. sqfs_stack_push (s, h) = (Ok (st_size s), (stack_pushed s, h\<lparr>hp_mallocs := n\<rparr>))"
    and "stack_wf (stack_pushed s)" and "\<exists>x. stack_list (stack_pushed s) = stack_list s @ [x]"
    and "st_value_size (stack_pushed s) = st_value_size s" and "st_freer (stack_pushed s) = st_freer s"
proof -
  have sz: "st_size s < 2 ^ 61" by (rule stack_room_size [OF wf room])
  have cap: "st_capacity s < sqfs_stack_next_capacity (st_capacity s)" if "st_size s = st_capacity s"
    using next_capacity_grows(1) [of "st_capacity s"] sz that by simp
  show run: "\<exists>n. sqfs_stack_push (s, h) = (Ok (st_size s), (stack_pushed s, h\<lparr>hp_mallocs := n\<rparr>))"
  proof (cases "st_size s = st_capacity s")
    case True
    then show ?thesis using sz cap mem
      by (intro exI [of _ "Suc (hp_mallocs h)"]) (simp add: sqfs_stack_push_def sqfs_stack_grow_def
          sqfs_stack_capacity_def io_simps hp_malloc_run stack_pushed_def sqfs_stack_top_def sqfs_stack_at_def)
  next
    case False
    then show ?thesis using sz
      by (intro exI [of _ "hp_mallocs h"]) (simp add: sqfs_stack_push_def sqfs_stack_grow_def
          io_simps stack_pushed_def sqfs_stack_top_def sqfs_stack_at_def)
  qed
  from run sqfs_stack_push_spec [OF wf room, of h]
  show "stack_wf (stack_pushed s)" "\<exists>x. stack_list (stack_pushed s) = stack_list s @ [x]"
    "st_value_size (stack_pushed s) = st_value_size s" "st_freer (stack_pushed s) = st_freer s"
    by auto
qed

section \<open>What a client relies on\<close>

text \<open>A client pushes a slot and writes its value; \<open>contents\<close> is what it has on the stack, bottom first.\<close>

locale lifo =
  fixes push_val :: "'v \<Rightarrow> ('s, unit) io"
    and pop :: "('s, bool) io"
    and contents :: "'s \<Rightarrow> 'v option list"
    and ok :: "'s \<Rightarrow> bool"
    and room :: "'s \<Rightarrow> bool"
  assumes push_contents: "ok s \<Longrightarrow> room s \<Longrightarrow>
      \<exists>s'. push_val v s = (Ok (), s') \<and> ok s' \<and> contents s' = contents s @ [Some v]"
    and pop_contents: "ok s \<Longrightarrow>
      \<exists>s'. pop s = (Ok (contents s \<noteq> []), s') \<and> ok s' \<and> contents s' = butlast (contents s)"
begin

lemma push_pop:
  assumes "ok s" and "room s"
  shows "\<exists>s' s''. push_val v s = (Ok (), s') \<and> last (contents s') = Some v \<and> pop s' = (Ok True, s'') \<and>
    ok s'' \<and> contents s'' = contents s"
proof -
  from push_contents [OF assms, of v] obtain s' where
    s': "push_val v s = (Ok (), s')" "ok s'" "contents s' = contents s @ [Some v]" by blast
  with pop_contents [OF s'(2)] show ?thesis by force
qed

end

definition stack_push_value :: "'v \<Rightarrow> ('v sqfs_stack \<times> heap, unit) io" where
  "stack_push_value v = io_bind sqfs_stack_push (\<lambda>i.
     io_bind (io_gets fst) (\<lambda>s. io_bind (io_lift (stack_store i v s)) (\<lambda>s. io_modify (\<lambda>(_, h). (s, h)))))"

definition stack_ok :: "'v sqfs_stack \<times> heap \<Rightarrow> bool" where
  "stack_ok sh \<longleftrightarrow> stack_wf (fst sh) \<and> st_freer (fst sh) = None"

definition stack_free :: "'v sqfs_stack \<times> heap \<Rightarrow> bool" where
  "stack_free sh \<longleftrightarrow> stack_room (fst sh) \<and> (\<forall>n. hp_malloc_ok (snd sh) n)"

interpretation sl: lifo stack_push_value sqfs_stack_pop "\<lambda>sh. stack_list (fst sh)" stack_ok stack_free
proof (unfold_locales, goal_cases)
  case (1 sh v)
  obtain s h where sh: "sh = (s, h)" by fastforce
  have pre: "stack_wf s" "stack_room s" "\<forall>n. hp_malloc_ok h n" "st_freer s = None"
    using 1 by (simp_all add: sh stack_ok_def stack_free_def)
  note p = sqfs_stack_push_ok [OF pre(1-3)]
  obtain n x where n: "sqfs_stack_push (s, h) = (Ok (st_size s), (stack_pushed s, h\<lparr>hp_mallocs := n\<rparr>))"
    and x: "stack_list (stack_pushed s) = stack_list s @ [x]" using p(1,3) by blast
  have "st_size s < st_size (stack_pushed s)" by (simp add: stack_pushed_def)
  from stack_store_list [OF p(2) this, of v] obtain s' where
    s': "stack_store (st_size s) v (stack_pushed s) = Ok s'" "stack_wf s'"
      "stack_list s' = (stack_list (stack_pushed s))[st_size s := Some v]" "st_freer s' = st_freer (stack_pushed s)" by blast
  have "stack_list s' = stack_list s @ [Some v]"
    using s'(3) x stack_list_length [OF pre(1)] by (simp add: list_update_append)
  then show ?case using n s' p(5) pre(4) by (simp add: sh stack_push_value_def io_simps stack_ok_def)
next
  case (2 sh)
  obtain s h where sh: "sh = (s, h)" by fastforce
  have pre: "stack_wf s" "st_freer s = None" using 2 by (simp_all add: sh stack_ok_def)
  from sqfs_stack_pop_spec [OF this] show ?case using pre by (simp add: sh stack_ok_def)
qed

section \<open>Properties\<close>

text \<open>A push followed by a pop restores the stack's contents, and in between the pushed value is on
  top, also when the push has to grow the array.\<close>

theorem stack_push_pop:
  assumes "stack_wf s" and "st_freer s = None" and "stack_room s" and "\<forall>n. hp_malloc_ok h n"
  shows "\<exists>s' h' s''. stack_push_value v (s, h) = (Ok (), (s', h')) \<and> last (stack_list s') = Some v \<and>
    sqfs_stack_pop (s', h') = (Ok True, (s'', h')) \<and> stack_wf s'' \<and> stack_list s'' = stack_list s"
proof -
  obtain sh' sh'' where p: "stack_push_value v (s, h) = (Ok (), sh')" "last (stack_list (fst sh')) = Some v"
    "sqfs_stack_pop sh' = (Ok True, sh'')" "stack_ok sh''" "stack_list (fst sh'') = stack_list s" "stack_ok sh'"
    using sl.push_pop [of "(s, h)" v] sl.push_contents [of "(s, h)" v] assms
    by (auto simp: stack_ok_def stack_free_def)
  obtain s' h' where sh': "sh' = (s', h')" by fastforce
  have "snd sh'' = h'" using p(3) sqfs_stack_pop_spec(1) [of s' h'] p(6) by (auto simp: sh' stack_ok_def)
  then show ?thesis using p by (cases sh'') (auto simp: sh' stack_ok_def)
qed

definition wit_stack :: "u8 sqfs_stack" where
  "wit_stack = \<lparr>st_value_size = 1, st_size = 1, st_capacity = 1, st_items = Some [Some 7], st_freer = None\<rparr>"

definition wit_stack_heap :: heap where
  "wit_stack_heap = \<lparr>hp_cells = (\<lambda>_. None), hp_brk = 0, hp_malloc_ok = (\<lambda>_. True), hp_mallocs = 0\<rparr>"

lemma wit_stack_ok: "stack_wf wit_stack" "st_freer wit_stack = None" "stack_room wit_stack"
  "stack_list wit_stack = [Some 7]"
  by (simp_all add: wit_stack_def stack_wf_def stack_room_def stack_list_def)

theorem stack_push_pop_witness:
  "\<exists>s' h' s''. stack_push_value 9 (wit_stack, wit_stack_heap) = (Ok (), (s', h')) \<and> last (stack_list s') = Some 9 \<and>
    sqfs_stack_pop (s', h') = (Ok True, (s'', h')) \<and> stack_list s'' = [Some 7]"
  using stack_push_pop [OF wit_stack_ok(1-3), of wit_stack_heap 9] wit_stack_ok(4) by (auto simp: wit_stack_heap_def)

end
