(* ===== verification/Sqfs_Traverse.thy ===== *)
theory Sqfs_Traverse
  imports Sqfs_Xattr Sqfs_Stack
begin

text \<open>
  Walking a directory tree: \<^verbatim>\<open>traverse.c\<close>. The traversal keeps a stack of open directories, the
  path of the current entry in a growing buffer, and a state; \<^verbatim>\<open>sqfs_traverse_next\<close> is a loop
  over the state that stops at the next entry, at the end of a directory, at the end of the tree or
  at an error.

  Operations that can fail half-way return the error code beside the traversal as they leave it,
  since the caller can go on calling. The contents of the entry and of the directory after a failed
  \<^verbatim>\<open>sqfs_dir_next\<close> are taken to be those before the call. The first part of the theory is the code,
  the second shows that the loop of \<^verbatim>\<open>sqfs_traverse_next\<close> always ends.
\<close>

section \<open>Data\<close>

datatype traverse_state =
    TRAVERSE_DESCEND | TRAVERSE_NAME_REMOVE | TRAVERSE_ERROR | TRAVERSE_FINISHED
  | TRAVERSE_ASCEND | TRAVERSE_NAME_ADD | TRAVERSE_GET_ENTRY

record sqfs_traverse_level =
  lv_dir :: sqfs_dir
  lv_name_size :: size_t

text \<open>The bytes of the path buffer are \<open>None\<close> until they are written.\<close>

record sqfs_traverse =
  tv_dir_end :: bool
  tv_entry :: sqfs_dir_entry
  tv_path :: "u8 option list option"
  tv_state :: traverse_state
  tv_stack :: "sqfs_traverse_level sqfs_stack"
  tv_path_size :: size_t
  tv_path_cap :: size_t
  tv_path_last_size :: size_t

abbreviation (input) TRAVERSE_DEFAULT_PATH_CAP :: size_t where "TRAVERSE_DEFAULT_PATH_CAP \<equiv> 32"

text \<open>A call on the stack, and a result that carries the traversal.\<close>

type_synonym 'a trv_io = "(sqfs, (sqfs_err + 'a) \<times> sqfs_traverse) io"

definition on_stack :: "(sqfs_traverse_level sqfs_stack \<times> heap, 'a) io \<Rightarrow> sqfs_traverse \<Rightarrow> 'a trv_io" where
  "on_stack m trv = (\<lambda>s. case m (tv_stack trv, fs_heap s) of (r, (st, h)) \<Rightarrow>
     let t = trv\<lparr>tv_stack := st\<rparr>; s' = s\<lparr>fs_heap := h\<rparr> in
     case r of Ok a \<Rightarrow> (Ok (Inr a, t), s') | Err e \<Rightarrow> (Ok (Inl e, t), s') | Fault u \<Rightarrow> (Fault u, s'))"

definition trv_bind :: "'a trv_io \<Rightarrow> ('a \<Rightarrow> sqfs_traverse \<Rightarrow> 'b trv_io) \<Rightarrow> 'b trv_io" where
  "trv_bind m k = io_bind m (\<lambda>(r, trv). case r of Inl e \<Rightarrow> io_ret (Inl e, trv) | Inr a \<Rightarrow> k a trv)"

definition trv_try :: "(sqfs, 'a) io \<Rightarrow> sqfs_traverse \<Rightarrow> 'a trv_io" where
  "trv_try m trv = io_try m (\<lambda>x. io_ret (x, trv))"

section \<open>The path\<close>

text \<open>Writing into the path buffer.\<close>

definition path_store :: "size_t \<Rightarrow> bytes \<Rightarrow> sqfs_traverse \<Rightarrow> sqfs_traverse res" where
  "path_store i bs trv = (case tv_path trv of None \<Rightarrow> Fault Null_Deref
   | Some p \<Rightarrow> if i + length bs \<le> length p
       then Ok (trv\<lparr>tv_path := Some (take i p @ map Some bs @ drop (i + length bs) p)\<rparr>)
       else Fault Out_Of_Bounds)"

definition sqfs_traverse_path_terminate :: "sqfs_traverse \<Rightarrow> sqfs_traverse res" where
  "sqfs_traverse_path_terminate trv = path_store (size_sub (tv_path_size trv) 1) [0] trv"

definition sqfs_traverse_path_init :: "sqfs_traverse \<Rightarrow> unit trv_io" where
  "sqfs_traverse_path_init trv =
     io_bind (on_heap hp_malloc) (\<lambda>ok.
     let trv = trv\<lparr>tv_path_cap := TRAVERSE_DEFAULT_PATH_CAP\<rparr> in
     if \<not> ok then io_ret (Inl SQFS_ERR, trv\<lparr>tv_path := None\<rparr>)
     else io_ret (Inr (), trv\<lparr>tv_path := Some (Some 0 # replicate (TRAVERSE_DEFAULT_PATH_CAP - 1) None),
       tv_path_size := 1\<rparr>))"

text \<open>The loop that doubles the capacity; it never ends when the doubling wraps to zero, and 64
  rounds are enough otherwise.\<close>

fun path_next_cap :: "nat \<Rightarrow> size_t \<Rightarrow> size_t \<Rightarrow> size_t res" where
  "path_next_cap fuel need cap =
     (if need \<le> cap then Ok cap else case fuel of 0 \<Rightarrow> Fault Diverges
      | Suc fuel' \<Rightarrow> path_next_cap fuel' need (size_mul cap 2))"

declare path_next_cap.simps [simp del]

definition sqfs_traverse_path_add :: "bytes \<Rightarrow> sqfs_traverse \<Rightarrow> unit trv_io" where
  "sqfs_traverse_path_add str trv =
     (let need = size_add (tv_path_size trv) (length str) in
      trv_bind (if need \<le> tv_path_cap trv then io_ret (Inr (), trv) else
        io_bind (io_lift (path_next_cap 64 need (tv_path_cap trv))) (\<lambda>next_cap.
        io_bind (on_heap hp_malloc) (\<lambda>ok.
        if \<not> ok then io_ret (Inl SQFS_ERR, trv) else
        let old = (case tv_path trv of None \<Rightarrow> [] | Some p \<Rightarrow> p) in
        io_ret (Inr (), trv\<lparr>tv_path := Some (take next_cap old @ replicate (next_cap - length old) None),
          tv_path_cap := next_cap\<rparr>))))
      (\<lambda>_ trv.
        io_bind (io_lift (path_store (size_sub (tv_path_size trv) 1) str trv)) (\<lambda>trv.
        io_bind (io_lift (sqfs_traverse_path_terminate (trv\<lparr>tv_path_size := need\<rparr>))) (\<lambda>trv.
        io_ret (Inr (), trv)))))"

definition sqfs_traverse_path_remove :: "size_t \<Rightarrow> sqfs_traverse \<Rightarrow> sqfs_traverse res" where
  "sqfs_traverse_path_remove sz trv =
     sqfs_traverse_path_terminate (trv\<lparr>tv_path_size :=
       (if sz < tv_path_size trv then tv_path_size trv - sz else 1)\<rparr>)"

definition sqfs_traverse_path_add_name :: "sqfs_traverse \<Rightarrow> unit trv_io" where
  "sqfs_traverse_path_add_name trv =
     (let trv = trv\<lparr>tv_path_last_size := ent_name_size (tv_entry trv)\<rparr> in
      case sqfs_dentry_name (tv_entry trv) of None \<Rightarrow> io_fault Null_Deref
      | Some nm \<Rightarrow> sqfs_traverse_path_add nm trv)"

definition sqfs_traverse_path_add_sep :: "sqfs_traverse \<Rightarrow> unit trv_io" where
  "sqfs_traverse_path_add_sep trv = sqfs_traverse_path_add [slash] trv"

definition sqfs_traverse_path_remove_name :: "sqfs_traverse \<Rightarrow> sqfs_traverse res" where
  "sqfs_traverse_path_remove_name trv = sqfs_traverse_path_remove (tv_path_last_size trv) trv"

definition sqfs_traverse_path_remove_sep :: "sqfs_traverse \<Rightarrow> sqfs_traverse res" where
  "sqfs_traverse_path_remove_sep trv = sqfs_traverse_path_remove 1 trv"

definition sqfs_traverse_path_set_name_size :: "size_t \<Rightarrow> sqfs_traverse \<Rightarrow> sqfs_traverse" where
  "sqfs_traverse_path_set_name_size sz trv = trv\<lparr>tv_path_last_size := sz\<rparr>"

section \<open>Going down and up\<close>

definition sqfs_traverse_descend_inode :: "sqfs_inode \<Rightarrow> sqfs_traverse \<Rightarrow> unit trv_io" where
  "sqfs_traverse_descend_inode inode trv =
     (let initial = (sqfs_stack_size (tv_stack trv) = 0) in
      trv_bind (on_stack sqfs_stack_push trv) (\<lambda>level trv.
      trv_bind (trv_try (sqfs_dir_open inode 0) trv) (\<lambda>dir trv.
      let name_size = (if initial then 0 else ent_name_size (tv_entry trv)) in
      io_bind (io_lift (stack_store level \<lparr>lv_dir = dir, lv_name_size = name_size\<rparr> (tv_stack trv))) (\<lambda>st.
      let trv = trv\<lparr>tv_stack := st\<rparr> in
      if initial then io_ret (Inr (), trv) else sqfs_traverse_path_add_sep trv))))"

definition sqfs_traverse_descend :: "sqfs_inode_id \<Rightarrow> sqfs_traverse \<Rightarrow> unit trv_io" where
  "sqfs_traverse_descend iid trv =
     trv_bind (trv_try (sqfs_inode_get iid) trv) (\<lambda>inode trv. sqfs_traverse_descend_inode inode trv)"

text \<open>The level an item pointer refers to.\<close>

definition level_at :: "size_t \<Rightarrow> sqfs_traverse \<Rightarrow> sqfs_traverse_level res" where
  "level_at i trv = res_bind (stack_slot i (tv_stack trv)) (\<lambda>x.
     case x of None \<Rightarrow> Fault Uninitialised | Some l \<Rightarrow> Ok l)"

definition sqfs_traverse_ascend :: "sqfs_traverse \<Rightarrow> unit trv_io" where
  "sqfs_traverse_ascend trv =
     trv_bind (trv_try (io_lift (sqfs_stack_top (tv_stack trv))) trv) (\<lambda>level trv.
     io_bind (io_lift (sqfs_traverse_path_remove_sep trv)) (\<lambda>trv.
     io_bind (io_lift (level_at level trv)) (\<lambda>l.
     trv_bind (on_stack sqfs_stack_pop (sqfs_traverse_path_set_name_size (lv_name_size l) trv)) (\<lambda>_ trv.
     io_ret (Inr (), trv)))))"

section \<open>Opening, stepping, closing\<close>

definition sqfs_traverse_init :: "sqfs_traverse \<Rightarrow> sqfs_traverse" where
  "sqfs_traverse_init trv = trv\<lparr>tv_entry := sqfs_dentry_init True, tv_stack := sqfs_stack_init (tv_stack trv),
     tv_state := TRAVERSE_ERROR, tv_path := None\<rparr>"

definition sqfs_traverse_close :: "sqfs_traverse \<Rightarrow> (sqfs, sqfs_traverse) io" where
  "sqfs_traverse_close trv =
     io_bind (on_stack sqfs_stack_destroy trv) (\<lambda>(_, trv). io_ret (sqfs_traverse_init trv))"

text \<open>\<open>sqfs_traverse_level\<close> has 56 bytes.\<close>

definition sqfs_traverse_open_inode :: "sqfs_inode \<Rightarrow> sqfs_traverse \<Rightarrow> unit trv_io" where
  "sqfs_traverse_open_inode inode trv =
     io_bind (trv_bind (sqfs_traverse_path_init (sqfs_traverse_init trv)) (\<lambda>_ trv.
       trv_bind (on_stack (sqfs_stack_create 56 0 None) trv) (\<lambda>_ trv.
       sqfs_traverse_descend_inode inode trv))) (\<lambda>(r, trv).
     case r of
       Inl e \<Rightarrow> io_bind (sqfs_traverse_close trv) (\<lambda>trv. io_ret (Inl e, trv))
     | Inr _ \<Rightarrow> io_ret (Inr (), (sqfs_traverse_path_set_name_size 0 trv)\<lparr>tv_state := TRAVERSE_NAME_REMOVE\<rparr>))"

definition sqfs_traverse_open :: "sqfs_inode_id \<Rightarrow> sqfs_traverse \<Rightarrow> unit trv_io" where
  "sqfs_traverse_open iid trv =
     trv_bind (trv_try (sqfs_inode_get iid) trv) (\<lambda>inode trv. sqfs_traverse_open_inode inode trv)"

text \<open>One round of the loop: go on, return a value, or fail.\<close>

datatype traverse_outcome = Go | Return bool | Fail sqfs_err

definition traverse_step :: "sqfs_traverse \<Rightarrow> (sqfs, traverse_outcome \<times> sqfs_traverse) io" where
  "traverse_step trv =
    (let check = (\<lambda>(m :: unit trv_io) k. io_bind m (\<lambda>(r, trv).
        case r of Inl e \<Rightarrow> io_ret (Fail e, trv) | Inr _ \<Rightarrow> k trv))
     in case tv_state trv of
       TRAVERSE_GET_ENTRY \<Rightarrow>
         (case sqfs_stack_top (tv_stack trv) of
            Err e \<Rightarrow> io_ret (Fail e, trv)
          | Fault u \<Rightarrow> io_fault u
          | Ok level \<Rightarrow>
             io_bind (io_lift (level_at level trv)) (\<lambda>l.
             io_try (sqfs_dir_next (lv_dir l) (tv_entry trv)) (\<lambda>x. case x of
                 Inl e \<Rightarrow> io_ret (Fail e, trv)
               | Inr (found, dir, entry) \<Rightarrow>
                  io_bind (io_lift (stack_store level (l\<lparr>lv_dir := dir\<rparr>) (tv_stack trv))) (\<lambda>st.
                  io_ret (Go, trv\<lparr>tv_stack := st, tv_entry := entry,
                    tv_state := (if found then TRAVERSE_NAME_ADD else TRAVERSE_ASCEND)\<rparr>)))))
     | TRAVERSE_NAME_ADD \<Rightarrow>
         check (sqfs_traverse_path_add_name trv) (\<lambda>trv.
         io_ret (Return True, trv\<lparr>tv_dir_end := False,
           tv_state := (if sqfs_dentry_is_dir (tv_entry trv) then TRAVERSE_DESCEND else TRAVERSE_NAME_REMOVE)\<rparr>))
     | TRAVERSE_NAME_REMOVE \<Rightarrow>
         io_bind (io_lift (sqfs_traverse_path_remove_name trv)) (\<lambda>trv.
         io_ret (Go, trv\<lparr>tv_state := TRAVERSE_GET_ENTRY\<rparr>))
     | TRAVERSE_DESCEND \<Rightarrow>
         check (sqfs_traverse_descend (ent_inode (tv_entry trv)) trv) (\<lambda>trv.
         io_ret (Go, trv\<lparr>tv_state := TRAVERSE_GET_ENTRY\<rparr>))
     | TRAVERSE_ASCEND \<Rightarrow>
         check (sqfs_traverse_ascend trv) (\<lambda>trv.
         if 0 < sqfs_stack_size (tv_stack trv)
         then io_ret (Return True, trv\<lparr>tv_dir_end := True, tv_state := TRAVERSE_NAME_REMOVE\<rparr>)
         else io_ret (Go, trv\<lparr>tv_state := TRAVERSE_FINISHED\<rparr>))
     | TRAVERSE_FINISHED \<Rightarrow> io_ret (Return False, trv)
     | TRAVERSE_ERROR \<Rightarrow> io_ret (Fail SQFS_ERR, trv))"

fun traverse_loop :: "nat \<Rightarrow> sqfs_traverse \<Rightarrow> (sqfs, (bool \<times> sqfs_err option) \<times> sqfs_traverse) io" where
  "traverse_loop 0 trv = io_fault Diverges"
| "traverse_loop (Suc fuel) trv =
     io_bind (traverse_step trv) (\<lambda>(out, trv).
     case out of
       Go \<Rightarrow> traverse_loop fuel trv
     | Return b \<Rightarrow> io_ret ((b, None), trv)
     | Fail e \<Rightarrow> io_ret ((False, Some e), trv\<lparr>tv_state := TRAVERSE_ERROR\<rparr>))"

text \<open>\<^verbatim>\<open>sqfs_traverse_next\<close>: whether there is an item, and the error code. Four rounds are
  enough from every state (\<open>traverse_loop_fuel\<close> below).\<close>

definition sqfs_traverse_next :: "sqfs_traverse \<Rightarrow> (sqfs, (bool \<times> sqfs_err option) \<times> sqfs_traverse) io" where
  "sqfs_traverse_next trv = traverse_loop 4 trv"

definition sqfs_traverse_prune :: "sqfs_traverse \<Rightarrow> sqfs_traverse" where
  "sqfs_traverse_prune trv = trv\<lparr>tv_state := TRAVERSE_NAME_REMOVE\<rparr>"

section \<open>The loop ends\<close>

fun traverse_rank :: "traverse_state \<Rightarrow> nat" where
  "traverse_rank TRAVERSE_DESCEND = 4"
| "traverse_rank TRAVERSE_NAME_REMOVE = 4"
| "traverse_rank TRAVERSE_GET_ENTRY = 3"
| "traverse_rank TRAVERSE_ASCEND = 2"
| "traverse_rank TRAVERSE_NAME_ADD = 1"
| "traverse_rank TRAVERSE_ERROR = 1"
| "traverse_rank TRAVERSE_FINISHED = 1"

lemma traverse_step_rank:
  assumes "traverse_step trv s = (Ok (Go, trv'), s')"
  shows "traverse_rank (tv_state trv') < traverse_rank (tv_state trv)"
  using assms
  by (auto simp: traverse_step_def io_simps Let_def
      split: traverse_state.splits res.splits prod.splits sum.splits if_splits)

lemma traverse_loop_fuel:
  "traverse_rank (tv_state trv) \<le> fuel \<Longrightarrow> traverse_loop (fuel + n) trv s = traverse_loop fuel trv s"
proof (induction fuel arbitrary: trv s)
  case 0
  then show ?case by (cases "tv_state trv") simp_all
next
  case (Suc fuel)
  obtain r s1 where r: "traverse_step trv s = (r, s1)" by fastforce
  have "traverse_loop (fuel + n) trv' s1 = traverse_loop fuel trv' s1" if "r = Ok (Go, trv')" for trv'
    using Suc.IH [of trv' s1] traverse_step_rank [of trv s trv' s1] r that Suc.prems by simp
  then show ?case using r by (auto simp: io_simps split: res.splits traverse_outcome.splits)
qed

section \<open>The path buffer holds a string\<close>

definition path_is :: "bytes \<Rightarrow> sqfs_traverse \<Rightarrow> bool" where
  "path_is p trv \<longleftrightarrow> (\<exists>buf. tv_path trv = Some buf \<and> length buf = tv_path_cap trv \<and> 0 < tv_path_cap trv \<and>
     tv_path_cap trv < 2 ^ 62 \<and> tv_path_size trv = Suc (length p) \<and> Suc (length p) \<le> tv_path_cap trv \<and>
     take (Suc (length p)) buf = map Some (p @ [0]))"

text \<open>The string a caller reads from \<^verbatim>\<open>trv->path\<close>.\<close>

definition trv_path_string :: "sqfs_traverse \<Rightarrow> bytes" where
  "trv_path_string trv = (case tv_path trv of None \<Rightarrow> []
     | Some buf \<Rightarrow> map the (take (tv_path_size trv - 1) buf))"

lemma path_is_string: "path_is p trv \<Longrightarrow> trv_path_string trv = p"
proof -
  assume "path_is p trv"
  then obtain buf where buf: "tv_path trv = Some buf" "tv_path_size trv = Suc (length p)"
    "take (Suc (length p)) buf = map Some (p @ [0])" by (auto simp: path_is_def)
  have "take (length p) buf = take (length p) (take (Suc (length p)) buf)" by simp
  also have "\<dots> = map Some p" unfolding buf(3) by simp
  finally show ?thesis using buf(1,2) by (simp add: trv_path_string_def comp_def)
qed

lemma path_next_cap_ok:
  assumes "0 < cap" and "need \<le> cap * 2 ^ fuel" and "need < 2 ^ 61" and "cap < 2 ^ 62"
  shows "\<exists>c. path_next_cap fuel need cap = Ok c \<and> need \<le> c \<and> cap \<le> c \<and> c < 2 ^ 62"
  using assms
proof (induction fuel arbitrary: cap)
  case 0
  then show ?case by (simp add: path_next_cap.simps [of 0])
next
  case (Suc fuel)
  show ?case
  proof (cases "need \<le> cap")
    case False
    then have c: "cap * 2 < 2 ^ 62" using Suc.prems(3) by simp
    then have "size_mul cap 2 = cap * 2" by (simp add: size_mul_def)
    then show ?thesis using False Suc.IH [of "cap * 2"] Suc.prems c
      by (auto simp: path_next_cap.simps [of "Suc fuel"] ac_simps)
  qed (use Suc.prems in \<open>simp add: path_next_cap.simps [of "Suc fuel"]\<close>)
qed

lemma path_terminate_is:
  assumes "tv_path trv = Some buf" and "length buf = tv_path_cap trv" and "tv_path_cap trv < 2 ^ 62"
    and "tv_path_size trv = Suc (length p)" and "Suc (length p) \<le> tv_path_cap trv"
    and "take (length p) buf = map Some p"
  shows "\<exists>buf'. sqfs_traverse_path_terminate trv = Ok (trv\<lparr>tv_path := Some buf'\<rparr>) \<and> path_is p (trv\<lparr>tv_path := Some buf'\<rparr>)"
proof -
  let ?b = "take (length p) buf @ [Some 0] @ drop (Suc (length p)) buf"
  have "size_sub (Suc (length p)) 1 = length p" using assms(3,5) by simp
  then have "sqfs_traverse_path_terminate trv = Ok (trv\<lparr>tv_path := Some ?b\<rparr>)"
    using assms by (simp add: sqfs_traverse_path_terminate_def path_store_def)
  moreover have "take (Suc (length p)) ?b = map Some (p @ [0])" using assms(2,5,6) by simp
  then have "path_is p (trv\<lparr>tv_path := Some ?b\<rparr>)" using assms by (auto simp: path_is_def)
  ultimately show ?thesis by blast
qed

lemma path_remove_is:
  assumes "path_is (p @ q) trv" and "length q = n"
  shows "\<exists>buf'. sqfs_traverse_path_remove n trv = Ok (trv\<lparr>tv_path_size := Suc (length p), tv_path := Some buf'\<rparr>) \<and>
    path_is p (trv\<lparr>tv_path_size := Suc (length p), tv_path := Some buf'\<rparr>)"
proof -
  obtain buf where buf: "tv_path trv = Some buf" "length buf = tv_path_cap trv" "tv_path_cap trv < 2 ^ 62"
    "tv_path_size trv = Suc (length (p @ q))" "Suc (length (p @ q)) \<le> tv_path_cap trv"
    "take (Suc (length (p @ q))) buf = map Some ((p @ q) @ [0])" using assms(1) by (auto simp: path_is_def)
  have "take (length p) buf = take (length p) (take (Suc (length (p @ q))) buf)" by (simp add: min_def)
  also have "\<dots> = map Some p" unfolding buf(6) by simp
  finally have p: "take (length p) buf = map Some p" .
  let ?t = "trv\<lparr>tv_path_size := Suc (length p)\<rparr>"
  have "\<exists>buf'. sqfs_traverse_path_terminate ?t = Ok (?t\<lparr>tv_path := Some buf'\<rparr>) \<and> path_is p (?t\<lparr>tv_path := Some buf'\<rparr>)"
    by (rule path_terminate_is [of _ buf]) (use buf p in simp_all)
  then show ?thesis using buf(4) assms(2) by (simp add: sqfs_traverse_path_remove_def)
qed

text \<open>Removing more than there is leaves the empty path.\<close>

lemma path_remove_all:
  assumes "path_is [] trv"
  shows "\<exists>buf'. sqfs_traverse_path_remove n trv = Ok (trv\<lparr>tv_path_size := 1, tv_path := Some buf'\<rparr>) \<and>
    path_is [] (trv\<lparr>tv_path_size := 1, tv_path := Some buf'\<rparr>)"
proof -
  obtain buf where buf: "tv_path trv = Some buf" "length buf = tv_path_cap trv" "tv_path_cap trv < 2 ^ 62"
    "tv_path_size trv = 1" "1 \<le> tv_path_cap trv" using assms by (auto simp: path_is_def)
  let ?t = "trv\<lparr>tv_path_size := 1\<rparr>"
  have "\<exists>buf'. sqfs_traverse_path_terminate ?t = Ok (?t\<lparr>tv_path := Some buf'\<rparr>) \<and> path_is [] (?t\<lparr>tv_path := Some buf'\<rparr>)"
    by (rule path_terminate_is [of _ buf]) (use buf in simp_all)
  then show ?thesis using buf(4) by (auto simp: sqfs_traverse_path_remove_def)
qed

end
