(* ===== verification/Sqfs_Tree.thy ===== *)
theory Sqfs_Tree
  imports Sqfs_Traverse
begin

text \<open>
  What a traversal visits. A tree of directory entries is a specification of what an image holds
  below a directory; the visits of the tree are its entries in preorder, each with the path that leads to
  it, and the end of every directory after its entries. The theory shows that \<^verbatim>\<open>sqfs_traverse_open\<close>
  followed by calls of \<^verbatim>\<open>sqfs_traverse_next\<close> makes exactly these visits, and ends.
\<close>

section \<open>Trees and their visits\<close>

datatype sqfs_tree = Tree (tr_entry: sqfs_dir_entry) (tr_children: "sqfs_tree list")

datatype visit = Entry_At bytes sqfs_dir_entry | Dir_End bytes

fun visit_path :: "visit \<Rightarrow> bytes" where
  "visit_path (Entry_At p e) = p"
| "visit_path (Dir_End p) = p"

abbreviation ent_label :: "sqfs_dir_entry \<Rightarrow> bytes" where
  "ent_label e \<equiv> the (ent_name e)"

fun tree_visits :: "bytes \<Rightarrow> sqfs_tree \<Rightarrow> visit list" where
  "tree_visits p (Tree e ts) = Entry_At (p @ ent_label e) e #
     (if sqfs_dentry_is_dir e
      then concat (map (tree_visits (p @ ent_label e @ [slash])) ts) @ [Dir_End (p @ ent_label e)] else [])"

text \<open>The image has the tree: a directory lists the entries of its children, in order; the other entries
  have none.\<close>

definition entries_hold :: "fs_env \<Rightarrow> sqfs_inode \<Rightarrow> sqfs_tree list \<Rightarrow> bool" where
  "entries_hold E inode ts \<longleftrightarrow> (\<exists>rs. dir_holds (ev_img E) inode rs \<and> map tr_entry ts = listing_of 0 0 0 [] rs)"

fun tree_holds :: "fs_env \<Rightarrow> nat multiset \<Rightarrow> sqfs_tree \<Rightarrow> bool" where
  "tree_holds E M (Tree e ts) \<longleftrightarrow>
     (if sqfs_dentry_is_dir e
      then (\<exists>inode. yields E M (sqfs_inode_get (ent_inode e)) (Ok inode) \<and> entries_hold E inode ts) \<and>
        (\<forall>t \<in> set ts. tree_holds E M t)
      else ts = [])"

text \<open>What a caller sees after a call that returned true.\<close>

definition trv_visit :: "sqfs_traverse \<Rightarrow> visit" where
  "trv_visit trv = (if tv_dir_end trv then Dir_End (trv_path_string trv)
     else Entry_At (trv_path_string trv) (tv_entry trv))"

text \<open>The loop of a caller, with the visits it makes and the error code it ends with.\<close>

fun traverse_all :: "nat \<Rightarrow> sqfs_traverse \<Rightarrow> (sqfs, (visit list \<times> sqfs_err option) \<times> sqfs_traverse) io" where
  "traverse_all 0 trv = io_fault Diverges"
| "traverse_all (Suc fuel) trv =
     io_bind (sqfs_traverse_next trv) (\<lambda>((more, err), trv).
     if \<not> more then io_ret (([], err), trv) else
     io_bind (traverse_all fuel trv) (\<lambda>((vs, err), trv'). io_ret ((trv_visit trv # vs, err), trv')))"

section \<open>Rounds of the loop\<close>

text \<open>\<open>tours E M Q trv s vs\<close>: rounds of the loop of \<^verbatim>\<open>sqfs_traverse_next\<close>, in this call and in
  later ones, make the visits \<open>vs\<close> and lead to \<open>Q\<close>. After a visit its path is in the path buffer, and the
  caller may use the library as it likes before it calls again: all that is kept of the library's state is the
  invariant.\<close>

inductive tours :: "fs_env \<Rightarrow> nat multiset \<Rightarrow> (sqfs_traverse \<Rightarrow> sqfs \<Rightarrow> bool) \<Rightarrow> sqfs_traverse \<Rightarrow> sqfs \<Rightarrow> visit list \<Rightarrow> bool"
  for E M Q where
  stop: "Q trv s \<Longrightarrow> tours E M Q trv s []"
| go: "traverse_step trv s = (Ok (Go, trv1), s1) \<Longrightarrow> tours E M Q trv1 s1 vs \<Longrightarrow> tours E M Q trv s vs"
| visit: "traverse_step trv s = (Ok (Return True, trv1), s1) \<Longrightarrow> path_is p trv1 \<Longrightarrow> trv_visit trv1 = v \<Longrightarrow> visit_path v = p \<Longrightarrow>
    fs_clean E M s1 \<Longrightarrow> (\<And>s2. fs_clean E M s2 \<Longrightarrow> tours E M Q trv1 s2 vs) \<Longrightarrow> tours E M Q trv s (v # vs)"

lemma tours_trans:
  "tours E M Q a s vs \<Longrightarrow> (\<And>b t. Q b t \<Longrightarrow> tours E M R b t ws) \<Longrightarrow> tours E M R a s (vs @ ws)"
  by (induction rule: tours.induct) (auto intro: tours.go tours.visit)

lemma traverse_next_go:
  assumes "traverse_step trv s = (Ok (Go, trv'), s')"
  shows "sqfs_traverse_next trv s = sqfs_traverse_next trv' s'"
proof -
  have "traverse_rank (tv_state trv) \<le> 4" by (cases "tv_state trv") simp_all
  then have "traverse_rank (tv_state trv') \<le> 3" using traverse_step_rank [OF assms] by simp
  then have "traverse_loop (3 + 1) trv' s' = traverse_loop 3 trv' s'" by (rule traverse_loop_fuel)
  then show ?thesis using assms
    by (simp add: sqfs_traverse_next_def io_simps numeral_eq_Suc)
qed

lemma traverse_next_return:
  assumes "traverse_step trv s = (Ok (Return b, trv'), s')"
  shows "sqfs_traverse_next trv s = (Ok ((b, None), trv'), s')"
  using assms by (simp add: sqfs_traverse_next_def numeral_eq_Suc io_simps)

lemma traverse_next_finished:
  "tv_state trv = TRAVERSE_FINISHED \<Longrightarrow> sqfs_traverse_next trv s = (Ok ((False, None), trv), s)"
  by (rule traverse_next_return) (simp add: traverse_step_def io_simps)

lemma tours_all:
  "tours E M Q trv s vs \<Longrightarrow> (\<And>trv s. Q trv s \<Longrightarrow> tv_state trv = TRAVERSE_FINISHED) \<Longrightarrow>
    \<exists>trv' s'. traverse_all (Suc (length vs) + n) trv s = (Ok ((vs, None), trv'), s') \<and> Q trv' s'"
proof (induction rule: tours.induct)
  case (stop trv s)
  from traverse_next_finished [OF stop(2) [OF stop(1)]] stop(1) show ?case by (simp add: io_simps)
next
  case (go trv s trv1 s1 vs)
  then show ?case using traverse_next_go [OF go(1)] by (simp add: io_bind_run)
next
  case (visit trv s trv1 s1 p v vs)
  from visit(7) [OF visit(5)] visit(8) obtain trv' s' where
    r: "traverse_all (Suc (length vs) + n) trv1 s1 = (Ok ((vs, None), trv'), s')" "Q trv' s'" by blast
  show ?case using traverse_next_return [OF visit(1)] visit(3) r
    by (intro exI [of _ trv'] exI [of _ s']) (simp add: io_simps)
qed

text \<open>Programs that loop over a traversal, in a state \<open>'t\<close> that holds the library's: the loop ends when the
  traversal does, and otherwise does its work for the entry and goes on. Work on a visit that is \<open>fit\<close> keeps
  the library's invariant, and \<open>upd\<close> says how it changes what is observed of the state.\<close>

locale traversal_client =
  fixes E :: fs_env and M :: "nat multiset" and fs_of :: "'t \<Rightarrow> sqfs" and put_fs :: "sqfs \<Rightarrow> 't \<Rightarrow> 't"
    and obs :: "'t \<Rightarrow> 'o" and upd :: "visit \<Rightarrow> 'o \<Rightarrow> 'o" and fit :: "visit \<Rightarrow> bool"
    and loop :: "nat \<Rightarrow> sqfs_traverse \<Rightarrow> ('t, 'r) io" and fin :: "sqfs_err option \<Rightarrow> sqfs_traverse \<Rightarrow> 'r"
  assumes put: "fs_of (put_fs f t) = f" "obs (put_fs f t) = obs t" "put_fs f (put_fs g t) = put_fs f t"
    and ends: "sqfs_traverse_next trv (fs_of t) = (Ok ((False, err), trv'), f) \<Longrightarrow>
      loop (Suc n) trv t = (Ok (fin err trv'), put_fs f t)"
    and work: "sqfs_traverse_next trv (fs_of t) = (Ok ((True, err), trv'), f) \<Longrightarrow> path_is (visit_path (trv_visit trv')) trv' \<Longrightarrow>
      fs_clean E M f \<Longrightarrow> fit (trv_visit trv') \<Longrightarrow>
      \<exists>t'. loop (Suc n) trv t = loop n trv' t' \<and> fs_clean E M (fs_of t') \<and> obs t' = upd (trv_visit trv') (obs t)"
    and step: "sqfs_traverse_next trv (fs_of t) = sqfs_traverse_next trv' f \<Longrightarrow>
      loop (Suc n) trv t = loop (Suc n) trv' (put_fs f t)"
begin

lemma loop_tours:
  "tours E M Q trv f vs \<Longrightarrow> fs_of t = f \<Longrightarrow> (\<And>trv s. Q trv s \<Longrightarrow> tv_state trv = TRAVERSE_FINISHED) \<Longrightarrow> \<forall>v \<in> set vs. fit v \<Longrightarrow>
    \<exists>trv' t'. loop (Suc (length vs) + n) trv t = (Ok (fin None trv'), t') \<and> Q trv' (fs_of t') \<and> obs t' = fold upd vs (obs t)"
proof (induction arbitrary: t rule: tours.induct)
  case (stop trv s)
  from ends [of trv t None trv s n] traverse_next_finished [OF stop(3) [OF stop(1)]] stop(1,2) show ?case by (auto simp: put)
next
  case (go trv s trv1 s1 vs)
  from step [of trv t trv1 s1] traverse_next_go [OF go(1)] go(4)
  have "loop (Suc (length vs) + n) trv t = loop (Suc (length vs) + n) trv1 (put_fs s1 t)" by simp
  with go(3) [of "put_fs s1 t"] go(5,6) show ?case by (simp add: put)
next
  case (visit trv s trv1 s1 p v vs)
  have "\<exists>t'. loop (Suc (length (v # vs)) + n) trv t = loop (Suc (length vs) + n) trv1 t' \<and> fs_clean E M (fs_of t') \<and> obs t' = upd v (obs t)"
    using work [of trv t None trv1 s1 "Suc (length vs) + n"] traverse_next_return [OF visit(1)] visit(2-5,8,10) by simp
  then obtain t' where t': "loop (Suc (length (v # vs)) + n) trv t = loop (Suc (length vs) + n) trv1 t'" "fs_clean E M (fs_of t')"
    "obs t' = upd v (obs t)" by blast
  from visit(7) [OF t'(2) refl visit(9)] visit(10) t'(1,3) show ?case by simp
qed

end

section \<open>The path\<close>

lemma path_add_is:
  assumes p: "path_is p trv" and len: "length p + length q < 2 ^ 60" and mem: "\<forall>n. hp_malloc_ok (fs_heap s) n"
  shows "\<exists>buf cap n. sqfs_traverse_path_add q trv s =
      (Ok (Inr (), trv\<lparr>tv_path := Some buf, tv_path_cap := cap, tv_path_size := Suc (length (p @ q))\<rparr>),
       s\<lparr>fs_heap := (fs_heap s)\<lparr>hp_mallocs := n\<rparr>\<rparr>) \<and>
    path_is (p @ q) (trv\<lparr>tv_path := Some buf, tv_path_cap := cap, tv_path_size := Suc (length (p @ q))\<rparr>)"
proof -
  obtain buf where buf: "tv_path trv = Some buf" "length buf = tv_path_cap trv" "0 < tv_path_cap trv" "tv_path_cap trv < 2 ^ 62"
    "tv_path_size trv = Suc (length p)" "Suc (length p) \<le> tv_path_cap trv"
    "take (Suc (length p)) buf = map Some (p @ [0])" using p by (auto simp: path_is_def)
  have "take (length p) buf = take (length p) (take (Suc (length p)) buf)" by simp
  then have tk: "take (length p) buf = map Some p" unfolding buf(7) by simp
  let ?need = "Suc (length (p @ q))"
  have need: "size_add (tv_path_size trv) (length q) = ?need" using len by (simp add: buf(5) size_add_def)
  have "?need \<le> 2 ^ 64" using len by simp
  also have "\<dots> \<le> tv_path_cap trv * 2 ^ 64" using buf(3) by simp
  finally obtain c where c: "path_next_cap 64 ?need (tv_path_cap trv) = Ok c" "?need \<le> c" "tv_path_cap trv \<le> c" "c < 2 ^ 62"
    using path_next_cap_ok [OF buf(3), of ?need 64] buf(4) len by auto
  text \<open>The buffer, large enough.\<close>
  define grown where "grown = (if ?need \<le> tv_path_cap trv then trv else
    trv\<lparr>tv_path := Some (take c buf @ replicate (c - length buf) None), tv_path_cap := c\<rparr>)"
  define s1 where "s1 = (if ?need \<le> tv_path_cap trv then s else
    s\<lparr>fs_heap := (fs_heap s)\<lparr>hp_mallocs := Suc (hp_mallocs (fs_heap s))\<rparr>\<rparr>)"
  obtain b where b: "tv_path grown = Some b" "length b = tv_path_cap grown" "?need \<le> tv_path_cap grown"
    "tv_path_cap grown < 2 ^ 62" "take (length p) b = map Some p" "tv_path_size grown = Suc (length p)"
  proof (cases "?need \<le> tv_path_cap trv")
    case True
    then show ?thesis using buf tk that [of buf] by (simp add: grown_def)
  next
    case False
    then show ?thesis using buf c tk that [of "take c buf @ replicate (c - length buf) None"] by (simp add: grown_def)
  qed
  let ?b = "take (length p) b @ map Some q @ drop (length p + length q) b"
  let ?t = "grown\<lparr>tv_path := Some ?b, tv_path_size := ?need\<rparr>"
  have st: "path_store (size_sub (tv_path_size grown) 1) q grown = Ok (grown\<lparr>tv_path := Some ?b\<rparr>)"
    using b len by (simp add: path_store_def)
  have "\<exists>b'. sqfs_traverse_path_terminate ?t = Ok (?t\<lparr>tv_path := Some b'\<rparr>) \<and> path_is (p @ q) (?t\<lparr>tv_path := Some b'\<rparr>)"
    by (rule path_terminate_is [of _ ?b]) (use b in simp_all)
  then obtain b' where b': "sqfs_traverse_path_terminate ?t = Ok (?t\<lparr>tv_path := Some b'\<rparr>)"
    "path_is (p @ q) (?t\<lparr>tv_path := Some b'\<rparr>)" by blast
  have "sqfs_traverse_path_add q trv s = (Ok (Inr (), ?t\<lparr>tv_path := Some b'\<rparr>), s1)"
  proof (cases "?need \<le> tv_path_cap trv")
    case True
    then have "grown = trv" "s1 = s" by (simp_all add: grown_def s1_def)
    then show ?thesis using True st b'(1) need
      by (simp add: sqfs_traverse_path_add_def Let_def trv_bind_def io_simps)
  next
    case False
    then have "grown = trv\<lparr>tv_path := Some (take c buf @ replicate (c - length buf) None), tv_path_cap := c\<rparr>"
      "s1 = s\<lparr>fs_heap := (fs_heap s)\<lparr>hp_mallocs := Suc (hp_mallocs (fs_heap s))\<rparr>\<rparr>" by (simp_all add: grown_def s1_def)
    then show ?thesis using False st b'(1) mem c(1) buf(1) need
      by (simp add: sqfs_traverse_path_add_def Let_def trv_bind_def io_simps hp_malloc_run)
  qed
  moreover have "?t\<lparr>tv_path := Some b'\<rparr> = trv\<lparr>tv_path := Some b', tv_path_cap := tv_path_cap grown, tv_path_size := ?need\<rparr>"
    by (simp add: grown_def)
  moreover have "\<exists>n. s1 = s\<lparr>fs_heap := (fs_heap s)\<lparr>hp_mallocs := n\<rparr>\<rparr>"
    unfolding s1_def by (cases "?need \<le> tv_path_cap trv") (auto intro: exI [of _ "hp_mallocs (fs_heap s)"])
  ultimately show ?thesis using b'(2) by metis
qed

section \<open>Where a traversal is\<close>

text \<open>Between rounds: the path is \<open>p\<close>, the stack holds the levels \<open>ls\<close>, the loop is in state \<open>q\<close>.\<close>

definition stack_holds :: "sqfs_traverse_level list \<Rightarrow> sqfs_traverse_level sqfs_stack \<Rightarrow> bool" where
  "stack_holds ls st \<longleftrightarrow> stack_wf st \<and> st_freer st = None \<and> st_value_size st = 56 \<and> stack_list st = map Some ls"

definition trv_at ::
  "fs_env \<Rightarrow> nat multiset \<Rightarrow> bytes \<Rightarrow> sqfs_traverse_level list \<Rightarrow> traverse_state \<Rightarrow> sqfs_traverse \<Rightarrow> sqfs \<Rightarrow> bool" where
  "trv_at E M p ls q trv s \<longleftrightarrow> fs_clean E M s \<and> path_is p trv \<and> stack_holds ls (tv_stack trv) \<and> tv_state trv = q \<and>
     ent_name (tv_entry trv) \<noteq> None"

lemma stack_holds_size: "stack_holds ls st \<Longrightarrow> st_size st = length ls"
  using stack_list_length [of st] by (simp add: stack_holds_def)

lemma stack_holds_top:
  assumes "stack_holds (ls @ [l]) st"
  shows "sqfs_stack_top st = Ok (length ls)" and "stack_slot (length ls) st = Ok (Some l)"
    and "\<exists>st'. stack_store (length ls) l' st = Ok st' \<and> stack_holds (ls @ [l']) st'"
proof -
  note sz = stack_holds_size [OF assms]
  have wf: "stack_wf st" and ls: "stack_list st = map Some (ls @ [l])" using assms by (simp_all add: stack_holds_def)
  show "sqfs_stack_top st = Ok (length ls)" using sz by (simp add: sqfs_stack_top_def sqfs_stack_at_def)
  show "stack_slot (length ls) st = Ok (Some l)"
    using stack_slot_list [OF wf, of "length ls"] sz ls by (simp add: nth_append)
  show "\<exists>st'. stack_store (length ls) l' st = Ok st' \<and> stack_holds (ls @ [l']) st'"
    using stack_store_list [OF wf, of "length ls" l'] sz ls assms by (auto simp: stack_holds_def list_update_append)
qed

lemma stack_holds_push:
  assumes "stack_holds ls st" and "length ls < 2 ^ 50" and "\<forall>n. hp_malloc_ok h n"
  shows "\<exists>n st1. sqfs_stack_push (st, h) = (Ok (length ls), (st1, h\<lparr>hp_mallocs := n\<rparr>)) \<and>
    (\<exists>st2. stack_store (length ls) l st1 = Ok st2 \<and> stack_holds (ls @ [l]) st2)"
proof -
  have wf: "stack_wf st" and ls: "stack_list st = map Some ls" using assms(1) by (simp_all add: stack_holds_def)
  note sz = stack_holds_size [OF assms(1)]
  have room: "stack_room st" using assms(1,2) sz by (simp add: stack_room_def stack_holds_def)
  note p = sqfs_stack_push_ok [OF wf room assms(3)]
  have "length ls < st_size (stack_pushed st)" using sz by (simp add: stack_pushed_def)
  from stack_store_list [OF p(2) this, of l] obtain st2 where st2: "stack_store (length ls) l (stack_pushed st) = Ok st2"
    "stack_wf st2" "stack_list st2 = (stack_list (stack_pushed st))[length ls := Some l]"
    "st_value_size st2 = st_value_size (stack_pushed st)" "st_freer st2 = st_freer (stack_pushed st)" by blast
  moreover have "stack_holds (ls @ [l]) st2"
    using p(3-5) st2 ls assms(1) by (auto simp: stack_holds_def list_update_append)
  ultimately show ?thesis using p(1) sz by metis
qed

lemma stack_holds_pop:
  assumes "stack_holds (ls @ [l]) st"
  shows "\<exists>st'. sqfs_stack_pop (st, h) = (Ok True, (st', h)) \<and> stack_holds ls st'"
proof -
  have "stack_wf st" "st_freer st = None" using assms by (simp_all add: stack_holds_def)
  from sqfs_stack_pop_spec [OF this] show ?thesis using assms by (auto simp: stack_holds_def butlast_append)
qed

lemma trv_at_mem: "trv_at E M p ls q trv s \<Longrightarrow> \<not> ev_oom E \<Longrightarrow> \<forall>n. hp_malloc_ok (fs_heap s) n"
  by (simp add: trv_at_def fs_inv_def ev_oom_def)

text \<open>The path does not depend on the rest of the traversal.\<close>

lemma path_is_frame [simp]:
  "path_is p (trv\<lparr>tv_state := q\<rparr>) = path_is p trv" "path_is p (trv\<lparr>tv_stack := st\<rparr>) = path_is p trv"
  "path_is p (trv\<lparr>tv_entry := e\<rparr>) = path_is p trv" "path_is p (trv\<lparr>tv_dir_end := b\<rparr>) = path_is p trv"
  "path_is p (trv\<lparr>tv_path_last_size := n\<rparr>) = path_is p trv"
  by (simp_all add: path_is_def)

section \<open>The rounds\<close>

text \<open>The entries a directory reader has left.\<close>

definition dir_left :: "fs_env \<Rightarrow> sqfs_dir \<Rightarrow> sqfs_dir_entry list \<Rightarrow> bool" where
  "dir_left E dir xs \<longleftrightarrow> (\<exists>blk ino es rs. dir_at (ev_img E) dir blk ino es rs \<and> listing_of (dr_offset dir) blk ino es rs = xs)"

lemma dir_left_next:
  assumes "img_ok (ev_img E)" and "dir_left E dir (x # xs)" and "ent_name entry \<noteq> None"
  shows "\<exists>dir'. yields E M (sqfs_dir_next dir entry) (Ok (True, dir', x)) \<and> ent_name x \<noteq> None \<and> dir_left E dir' xs"
proof -
  from assms(2) obtain blk ino es rs where at: "dir_at (ev_img E) dir blk ino es rs"
    "listing_of (dr_offset dir) blk ino es rs = x # xs" by (auto simp: dir_left_def)
  from sqfs_dir_next_listing [OF assms(1) at(1) assms(3), of M] at(2) show ?thesis
    by (fastforce simp: dir_left_def)
qed

lemma dir_left_end:
  assumes "dir_left E dir []"
  shows "yields E M (sqfs_dir_next dir entry) (Ok (False, dir, entry\<lparr>ent_offset := dr_offset dir\<rparr>))"
proof -
  from assms obtain blk ino es rs where at: "dir_at (ev_img E) dir blk ino es rs"
    "listing_of (dr_offset dir) blk ino es rs = []" by (auto simp: dir_left_def)
  have "es = []" using at(2) by (cases es) (simp_all add: Let_def)
  moreover have "rs = []"
  proof (cases rs)
    case (Cons r rs')
    then have "dr_entries r \<noteq> []" using at(1) by (auto simp: dir_at_def run_ok_def)
    then show ?thesis using at(2) Cons \<open>es = []\<close> by (cases "dr_entries r") (simp_all add: Let_def)
  qed
  ultimately show ?thesis using sqfs_dir_next_end [of E dir blk ino M entry] at(1) by simp
qed

lemma step_get_entry:
  assumes im: "img_ok (ev_img E)" and oom: "\<not> ev_oom E" and at: "trv_at E M p (ls @ [l]) TRAVERSE_GET_ENTRY trv s"
    and left: "dir_left E (lv_dir l) (x # xs)"
  shows "\<exists>trv' s' dir. traverse_step trv s = (Ok (Go, trv'), s') \<and>
    trv_at E M p (ls @ [l\<lparr>lv_dir := dir\<rparr>]) TRAVERSE_NAME_ADD trv' s' \<and> tv_entry trv' = x \<and> dir_left E dir xs"
proof -
  have cl: "fs_clean E M s" and st: "stack_holds (ls @ [l]) (tv_stack trv)" and q: "tv_state trv = TRAVERSE_GET_ENTRY"
    and e: "ent_name (tv_entry trv) \<noteq> None" and p: "path_is p trv" using at by (simp_all add: trv_at_def)
  from dir_left_next [OF im left e] obtain dir where
    d: "yields E M (sqfs_dir_next (lv_dir l) (tv_entry trv)) (Ok (True, dir, x))" "ent_name x \<noteq> None" "dir_left E dir xs"
    by blast
  obtain s' where s': "sqfs_dir_next (lv_dir l) (tv_entry trv) s = (Ok (True, dir, x), s')" "fs_clean E M s'"
    using implements_OkD [OF d(1) [simplified oom] cl] .
  note top = stack_holds_top [OF st]
  obtain st' where st': "stack_store (length ls) (l\<lparr>lv_dir := dir\<rparr>) (tv_stack trv) = Ok st'"
    "stack_holds (ls @ [l\<lparr>lv_dir := dir\<rparr>]) st'" using top(3) by blast
  let ?t = "trv\<lparr>tv_stack := st', tv_entry := x, tv_state := TRAVERSE_NAME_ADD\<rparr>"
  have "traverse_step trv s = (Ok (Go, ?t), s')"
    using q top(1,2) s'(1) st'(1) by (simp add: traverse_step_def io_simps level_at_def)
  then show ?thesis using s'(2) st'(2) p d(2,3) by (intro exI [of _ ?t] exI [of _ s'] exI [of _ dir]) (simp add: trv_at_def)
qed

lemma step_end_dir:
  assumes oom: "\<not> ev_oom E" and at: "trv_at E M p (ls @ [l]) TRAVERSE_GET_ENTRY trv s" and left: "dir_left E (lv_dir l) []"
  shows "\<exists>trv' s'. traverse_step trv s = (Ok (Go, trv'), s') \<and> trv_at E M p (ls @ [l]) TRAVERSE_ASCEND trv' s'"
proof -
  have cl: "fs_clean E M s" and st: "stack_holds (ls @ [l]) (tv_stack trv)" and q: "tv_state trv = TRAVERSE_GET_ENTRY"
    and e: "ent_name (tv_entry trv) \<noteq> None" and p: "path_is p trv" using at by (simp_all add: trv_at_def)
  let ?e = "(tv_entry trv)\<lparr>ent_offset := dr_offset (lv_dir l)\<rparr>"
  obtain s' where s': "sqfs_dir_next (lv_dir l) (tv_entry trv) s = (Ok (False, lv_dir l, ?e), s')" "fs_clean E M s'"
    using implements_OkD [OF dir_left_end [OF left, of M "tv_entry trv", simplified oom] cl] .
  note top = stack_holds_top [OF st]
  obtain st' where st': "stack_store (length ls) l (tv_stack trv) = Ok st'" "stack_holds (ls @ [l]) st'" using top(3) by blast
  let ?t = "trv\<lparr>tv_stack := st', tv_entry := ?e, tv_state := TRAVERSE_ASCEND\<rparr>"
  have "traverse_step trv s = (Ok (Go, ?t), s')"
    using q top(1,2) s'(1) st'(1) by (simp add: traverse_step_def io_simps level_at_def)
  then show ?thesis using s'(2) st'(2) p e by (intro exI [of _ ?t] exI [of _ s']) (simp add: trv_at_def)
qed

lemma step_name_add:
  assumes oom: "\<not> ev_oom E" and at: "trv_at E M p ls TRAVERSE_NAME_ADD trv s"
    and nm: "ent_name (tv_entry trv) = Some nm" "ent_name_size (tv_entry trv) = length nm" and len: "length (p @ nm) < 2 ^ 50"
  shows "\<exists>trv' s'. traverse_step trv s = (Ok (Return True, trv'), s') \<and>
    trv_at E M (p @ nm) ls (if sqfs_dentry_is_dir (tv_entry trv) then TRAVERSE_DESCEND else TRAVERSE_NAME_REMOVE) trv' s' \<and>
    tv_path_last_size trv' = length nm \<and> tv_entry trv' = tv_entry trv \<and>
    trv_visit trv' = Entry_At (p @ nm) (tv_entry trv)"
proof -
  let ?trv = "trv\<lparr>tv_path_last_size := length nm\<rparr>"
  have "path_is p ?trv" using at by (simp add: trv_at_def)
  from path_add_is [OF this _ trv_at_mem [OF at oom], of nm] len obtain buf cap n where
    a: "sqfs_traverse_path_add nm ?trv s =
      (Ok (Inr (), ?trv\<lparr>tv_path := Some buf, tv_path_cap := cap, tv_path_size := Suc (length (p @ nm))\<rparr>),
       s\<lparr>fs_heap := (fs_heap s)\<lparr>hp_mallocs := n\<rparr>\<rparr>)"
      "path_is (p @ nm) (?trv\<lparr>tv_path := Some buf, tv_path_cap := cap, tv_path_size := Suc (length (p @ nm))\<rparr>)"
    by auto
  let ?t = "?trv\<lparr>tv_path := Some buf, tv_path_cap := cap, tv_path_size := Suc (length (p @ nm)), tv_dir_end := False,
    tv_state := if sqfs_dentry_is_dir (tv_entry trv) then TRAVERSE_DESCEND else TRAVERSE_NAME_REMOVE\<rparr>"
  let ?s = "s\<lparr>fs_heap := (fs_heap s)\<lparr>hp_mallocs := n\<rparr>\<rparr>"
  have "traverse_step trv s = (Ok (Return True, ?t), ?s)"
    using at a(1) nm by (simp add: trv_at_def traverse_step_def io_simps sqfs_traverse_path_add_name_def sqfs_dentry_name_def)
  moreover have "path_is (p @ nm) ?t" using a(2) by (simp add: path_is_def)
  ultimately show ?thesis using at nm fs_inv_mallocs [of E True M s n] path_is_string [of "p @ nm" ?t]
    by (intro exI [of _ ?t] exI [of _ ?s]) (simp add: trv_at_def trv_visit_def)
qed

lemma step_name_remove:
  assumes "trv_at E M (p @ nm) ls TRAVERSE_NAME_REMOVE trv s" and "tv_path_last_size trv = length nm"
  shows "\<exists>trv'. traverse_step trv s = (Ok (Go, trv'), s) \<and> trv_at E M p ls TRAVERSE_GET_ENTRY trv' s"
proof -
  have "path_is (p @ nm) trv" using assms(1) by (simp add: trv_at_def)
  from path_remove_is [OF this refl] obtain buf where
    b: "sqfs_traverse_path_remove (length nm) trv = Ok (trv\<lparr>tv_path_size := Suc (length p), tv_path := Some buf\<rparr>)"
      "path_is p (trv\<lparr>tv_path_size := Suc (length p), tv_path := Some buf\<rparr>)" by blast
  let ?t = "trv\<lparr>tv_path_size := Suc (length p), tv_path := Some buf, tv_state := TRAVERSE_GET_ENTRY\<rparr>"
  have "traverse_step trv s = (Ok (Go, ?t), s)"
    using assms b(1) by (simp add: trv_at_def traverse_step_def sqfs_traverse_path_remove_name_def io_simps)
  moreover have "path_is p ?t" using b(2) by (simp add: path_is_def)
  ultimately show ?thesis using assms(1) by (intro exI [of _ ?t]) (simp add: trv_at_def)
qed

text \<open>Opening a directory on top of the stack; the separator is added unless it is the first.\<close>

lemma descend_inode_run:
  assumes oom: "\<not> ev_oom E" and cl: "fs_clean E M s" and p: "path_is p trv" and st: "stack_holds ls (tv_stack trv)"
    and dir: "entries_hold E inode ts" and len: "length ls < 2 ^ 50" "length p < 2 ^ 50" and top: "ls = [] \<Longrightarrow> p = []"
  shows "\<exists>trv' s' dir. sqfs_traverse_descend_inode inode trv s = (Ok (Inr (), trv'), s') \<and> fs_clean E M s' \<and>
    path_is (if ls = [] then p else p @ [slash]) trv' \<and> tv_entry trv' = tv_entry trv \<and>
    stack_holds (ls @ [\<lparr>lv_dir = dir, lv_name_size = if ls = [] then 0 else ent_name_size (tv_entry trv)\<rparr>]) (tv_stack trv') \<and>
    dir_left E dir (map tr_entry ts)"
proof -
  have mem: "\<forall>n. hp_malloc_ok (fs_heap s) n" using cl oom by (simp add: fs_inv_def ev_oom_def)
  from dir obtain rs where rs: "dir_holds (ev_img E) inode rs" "map tr_entry ts = listing_of 0 0 0 [] rs"
    by (auto simp: entries_hold_def)
  from sqfs_dir_open_holds [OF rs(1), of M undefined] obtain dir where
    d: "yields E M (sqfs_dir_open inode 0) (Ok dir)" "dir_at (ev_img E) dir 0 0 [] rs" "dr_offset dir = 0" by blast
  let ?l = "\<lparr>lv_dir = dir, lv_name_size = if ls = [] then 0 else ent_name_size (tv_entry trv)\<rparr>"
  from stack_holds_push [OF st len(1) mem, of ?l] obtain n st1 st2 where
    st1: "sqfs_stack_push (tv_stack trv, fs_heap s) = (Ok (length ls), (st1, (fs_heap s)\<lparr>hp_mallocs := n\<rparr>))"
      "stack_store (length ls) ?l st1 = Ok st2" "stack_holds (ls @ [?l]) st2" by blast
  let ?s = "s\<lparr>fs_heap := (fs_heap s)\<lparr>hp_mallocs := n\<rparr>\<rparr>"
  obtain s2 where s2: "sqfs_dir_open inode 0 ?s = (Ok dir, s2)" "fs_clean E M s2"
    using implements_OkD [OF d(1) [simplified oom] fs_inv_mallocs [OF cl]] .
  have mem2: "\<forall>n. hp_malloc_ok (fs_heap s2) n" using s2(2) oom by (simp add: fs_inv_def ev_oom_def)
  have initial: "sqfs_stack_size (tv_stack trv) = 0 \<longleftrightarrow> ls = []"
    using stack_holds_size [OF st] by (simp add: sqfs_stack_size_def)
  let ?t = "trv\<lparr>tv_stack := st2\<rparr>"
  have run: "sqfs_traverse_descend_inode inode trv s =
      (if ls = [] then (Ok (Inr (), ?t), s2) else sqfs_traverse_path_add_sep ?t s2)"
    using st1(1,2) s2(1) by (cases "ls = []")
      (simp_all add: sqfs_traverse_descend_inode_def initial trv_bind_def trv_try_def on_stack_def io_simps)
  have left: "dir_left E dir (map tr_entry ts)" unfolding dir_left_def using d(2,3) rs(2) by metis
  show ?thesis
  proof (cases "ls = []")
    case True
    then show ?thesis using run s2(2) p st1(3) left by (intro exI [of _ ?t] exI [of _ s2] exI [of _ dir]) simp
  next
    case False
    from path_add_is [of p ?t "[slash]" s2] p len(2) mem2 obtain buf cap m where
      a: "sqfs_traverse_path_add [slash] ?t s2 =
        (Ok (Inr (), ?t\<lparr>tv_path := Some buf, tv_path_cap := cap, tv_path_size := Suc (length (p @ [slash]))\<rparr>),
         s2\<lparr>fs_heap := (fs_heap s2)\<lparr>hp_mallocs := m\<rparr>\<rparr>)"
        "path_is (p @ [slash]) (?t\<lparr>tv_path := Some buf, tv_path_cap := cap, tv_path_size := Suc (length (p @ [slash]))\<rparr>)"
      by auto
    then show ?thesis using False run fs_inv_mallocs [OF s2(2), of m] st1(3) left
      by (intro exI [of _ "?t\<lparr>tv_path := Some buf, tv_path_cap := cap, tv_path_size := Suc (length (p @ [slash]))\<rparr>"]
          exI [of _ "s2\<lparr>fs_heap := (fs_heap s2)\<lparr>hp_mallocs := m\<rparr>\<rparr>"] exI [of _ dir])
        (simp add: sqfs_traverse_path_add_sep_def)
  qed
qed

lemma step_descend:
  assumes oom: "\<not> ev_oom E" and at: "trv_at E M p ls TRAVERSE_DESCEND trv s" and ne: "ls \<noteq> []"
    and ino: "yields E M (sqfs_inode_get (ent_inode (tv_entry trv))) (Ok inode)" "entries_hold E inode ts"
    and len: "length ls < 2 ^ 50" "length p < 2 ^ 50"
  shows "\<exists>trv' s' dir. traverse_step trv s = (Ok (Go, trv'), s') \<and>
    trv_at E M (p @ [slash]) (ls @ [\<lparr>lv_dir = dir, lv_name_size = ent_name_size (tv_entry trv)\<rparr>]) TRAVERSE_GET_ENTRY trv' s' \<and>
    dir_left E dir (map tr_entry ts)"
proof -
  have cl: "fs_clean E M s" and st: "stack_holds ls (tv_stack trv)" and p: "path_is p trv"
    using at by (simp_all add: trv_at_def)
  obtain s1 where s1: "sqfs_inode_get (ent_inode (tv_entry trv)) s = (Ok inode, s1)" "fs_clean E M s1"
    using implements_OkD [OF ino(1) [simplified oom] cl] .
  from descend_inode_run [OF oom s1(2) p st ino(2) len] ne obtain trv' s' dir where
    d: "sqfs_traverse_descend_inode inode trv s1 = (Ok (Inr (), trv'), s')" "fs_clean E M s'" "path_is (p @ [slash]) trv'"
      "tv_entry trv' = tv_entry trv"
      "stack_holds (ls @ [\<lparr>lv_dir = dir, lv_name_size = ent_name_size (tv_entry trv)\<rparr>]) (tv_stack trv')"
      "dir_left E dir (map tr_entry ts)" by auto
  have "traverse_step trv s = (Ok (Go, trv'\<lparr>tv_state := TRAVERSE_GET_ENTRY\<rparr>), s')"
    using at s1(1) d(1) by (simp add: trv_at_def traverse_step_def sqfs_traverse_descend_def trv_bind_def trv_try_def io_simps)
  then show ?thesis using d at by (intro exI [of _ "trv'\<lparr>tv_state := TRAVERSE_GET_ENTRY\<rparr>"] exI [of _ s'] exI [of _ dir])
      (simp add: trv_at_def)
qed

text \<open>Leaving a directory, or the last one.\<close>

lemma ascend_run:
  assumes st: "stack_holds (ls @ [l]) (tv_stack trv)"
    and rm: "sqfs_traverse_path_remove 1 trv = Ok trv1" "tv_stack trv1 = tv_stack trv"
  shows "\<exists>st'. sqfs_traverse_ascend trv s =
      (Ok (Inr (), trv1\<lparr>tv_path_last_size := lv_name_size l, tv_stack := st'\<rparr>), s) \<and> stack_holds ls st'"
proof -
  note top = stack_holds_top [OF st]
  from stack_holds_pop [OF st, of "fs_heap s"] obtain st' where
    "sqfs_stack_pop (tv_stack trv, fs_heap s) = (Ok True, (st', fs_heap s))" "stack_holds ls st'" by blast
  then show ?thesis using top(1,2) rm
    by (intro exI [of _ st']) (simp add: sqfs_traverse_ascend_def sqfs_traverse_path_remove_sep_def trv_bind_def trv_try_def on_stack_def level_at_def
        io_simps sqfs_traverse_path_set_name_size_def)
qed

lemma step_ascend:
  assumes at: "trv_at E M (p @ [slash]) (ls @ [l]) TRAVERSE_ASCEND trv s" and ne: "ls \<noteq> []"
  shows "\<exists>trv'. traverse_step trv s = (Ok (Return True, trv'), s) \<and> trv_at E M p ls TRAVERSE_NAME_REMOVE trv' s \<and>
    tv_path_last_size trv' = lv_name_size l \<and> trv_visit trv' = Dir_End p"
proof -
  have "path_is (p @ [slash]) trv" using at by (simp add: trv_at_def)
  from path_remove_is [OF this, of 1] obtain buf where
    b: "sqfs_traverse_path_remove 1 trv = Ok (trv\<lparr>tv_path_size := Suc (length p), tv_path := Some buf\<rparr>)"
      "path_is p (trv\<lparr>tv_path_size := Suc (length p), tv_path := Some buf\<rparr>)" by auto
  from ascend_run [OF _ b(1), of ls l s] at obtain st' where
    a: "sqfs_traverse_ascend trv s = (Ok (Inr (), trv\<lparr>tv_path_size := Suc (length p), tv_path := Some buf,
        tv_path_last_size := lv_name_size l, tv_stack := st'\<rparr>), s)" "stack_holds ls st'" by (auto simp: trv_at_def)
  let ?t = "trv\<lparr>tv_path_size := Suc (length p), tv_path := Some buf,
    tv_path_last_size := lv_name_size l, tv_stack := st', tv_dir_end := True, tv_state := TRAVERSE_NAME_REMOVE\<rparr>"
  have "traverse_step trv s = (Ok (Return True, ?t), s)"
    using at a(1) stack_holds_size [OF a(2)] ne by (simp add: trv_at_def traverse_step_def io_simps sqfs_stack_size_def)
  moreover have "path_is p ?t" using b(2) by (simp add: path_is_def)
  ultimately show ?thesis using at a(2) path_is_string [of p ?t]
    by (intro exI [of _ ?t]) (simp add: trv_at_def trv_visit_def)
qed

lemma step_ascend_root:
  assumes at: "trv_at E M [] [l] TRAVERSE_ASCEND trv s"
  shows "\<exists>trv'. traverse_step trv s = (Ok (Go, trv'), s) \<and> trv_at E M [] [] TRAVERSE_FINISHED trv' s"
proof -
  have "path_is [] trv" using at by (simp add: trv_at_def)
  from path_remove_all [OF this, of 1] obtain buf where
    b: "sqfs_traverse_path_remove 1 trv = Ok (trv\<lparr>tv_path_size := 1, tv_path := Some buf\<rparr>)"
      "path_is [] (trv\<lparr>tv_path_size := 1, tv_path := Some buf\<rparr>)" by auto
  from ascend_run [OF _ b(1), of "[]" l s] at obtain st' where
    a: "sqfs_traverse_ascend trv s = (Ok (Inr (), trv\<lparr>tv_path_size := 1, tv_path := Some buf,
        tv_path_last_size := lv_name_size l, tv_stack := st'\<rparr>), s)" "stack_holds [] st'" by (auto simp: trv_at_def)
  let ?t = "trv\<lparr>tv_path_size := 1, tv_path := Some buf,
    tv_path_last_size := lv_name_size l, tv_stack := st', tv_state := TRAVERSE_FINISHED\<rparr>"
  have "traverse_step trv s = (Ok (Go, ?t), s)"
    using at a(1) stack_holds_size [OF a(2)] by (simp add: trv_at_def traverse_step_def io_simps sqfs_stack_size_def)
  moreover have "path_is [] ?t" using b(2) by (simp add: path_is_def)
  ultimately show ?thesis using at a(2) by (intro exI [of _ ?t]) (simp add: trv_at_def)
qed

section \<open>A tree, a directory, a traversal\<close>

lemma listing_of_names:
  "e \<in> set (listing_of off blk ino es rs) \<Longrightarrow> \<exists>nm. ent_name e = Some nm \<and> ent_name_size e = length nm"
  by (induction off blk ino es rs rule: listing_of.induct) (auto simp: Let_def dir_entry_of_def split: list.splits)

definition named :: "sqfs_dir_entry \<Rightarrow> bool" where
  "named e \<longleftrightarrow> (\<exists>nm. ent_name e = Some nm \<and> ent_name_size e = length nm)"

lemma entries_hold_named: "entries_hold E inode ts \<Longrightarrow> t \<in> set ts \<Longrightarrow> named (tr_entry t)"
  using listing_of_names unfolding entries_hold_def named_def by (metis imageI set_map)

definition short :: "visit list \<Rightarrow> bool" where
  "short vs \<longleftrightarrow> (\<forall>v \<in> set vs. length (visit_path v) < 2 ^ 49)"

lemma trv_at_state: "trv_at E M p ls q trv s \<Longrightarrow> fs_clean E M s' \<Longrightarrow> trv_at E M p ls q trv s'"
  by (simp add: trv_at_def)

text \<open>A visit, after which the traversal is at \<open>q\<close>.\<close>

lemma tours_visit:
  assumes "traverse_step trv s = (Ok (Return True, trv1), s1)" and "trv_at E M p ls q trv1 s1" and "trv_visit trv1 = v" and "visit_path v = p"
    and "\<And>s2. trv_at E M p ls q trv1 s2 \<Longrightarrow> tours E M Q trv1 s2 vs"
  shows "tours E M Q trv s (v # vs)"
  using assms by (intro tours.visit [OF assms(1), of p]) (auto simp: trv_at_def)

text \<open>What the rounds make of one tree, from the moment its entry was read.\<close>

definition tree_runs :: "fs_env \<Rightarrow> nat multiset \<Rightarrow> sqfs_tree \<Rightarrow> bool" where
  "tree_runs E M t \<longleftrightarrow> (\<forall>p ls trv s. trv_at E M p ls TRAVERSE_NAME_ADD trv s \<longrightarrow> tv_entry trv = tr_entry t \<longrightarrow> ls \<noteq> [] \<longrightarrow>
     length ls \<le> Suc (length p) \<longrightarrow> short (tree_visits p t) \<longrightarrow>
     tours E M (trv_at E M p ls TRAVERSE_GET_ENTRY) trv s (tree_visits p t))"

lemma forest_runs:
  assumes im: "img_ok (ev_img E)" and oom: "\<not> ev_oom E"
  shows "trv_at E M p (ls @ [l]) TRAVERSE_GET_ENTRY trv s \<Longrightarrow> dir_left E (lv_dir l) (map tr_entry ts) \<Longrightarrow>
    length ls \<le> length p \<Longrightarrow> \<forall>t \<in> set ts. tree_runs E M t \<Longrightarrow> short (concat (map (tree_visits p) ts)) \<Longrightarrow>
    tours E M (\<lambda>trv' s'. \<exists>l'. trv_at E M p (ls @ [l']) TRAVERSE_ASCEND trv' s' \<and> lv_name_size l' = lv_name_size l)
      trv s (concat (map (tree_visits p) ts))"
proof (induction ts arbitrary: trv s l)
  case Nil
  then show ?case using step_end_dir [OF oom Nil(1)] by (auto intro: tours.go tours.stop)
next
  case (Cons t ts)
  from step_get_entry [OF im oom Cons.prems(1)] Cons.prems(2) obtain trv1 s1 dir where
    1: "traverse_step trv s = (Ok (Go, trv1), s1)" "trv_at E M p (ls @ [l\<lparr>lv_dir := dir\<rparr>]) TRAVERSE_NAME_ADD trv1 s1"
      "tv_entry trv1 = tr_entry t" "dir_left E dir (map tr_entry ts)" by (metis list.simps(9))
  have sh: "short (tree_visits p t)" "short (concat (map (tree_visits p) ts))" using Cons.prems(5) by (auto simp: short_def)
  have "tree_runs E M t" using Cons.prems(4) by simp
  then have 2: "tours E M (trv_at E M p (ls @ [l\<lparr>lv_dir := dir\<rparr>]) TRAVERSE_GET_ENTRY) trv1 s1 (tree_visits p t)"
    using 1(2,3) sh(1) Cons.prems(3) unfolding tree_runs_def by fastforce
  show ?case unfolding list.map concat.simps
    using Cons.IH [of "l\<lparr>lv_dir := dir\<rparr>"] 1(4) Cons.prems(3,4) sh(2) by (intro tours.go [OF 1(1)] tours_trans [OF 2]) auto
qed

lemma tree_holds_runs:
  assumes im: "img_ok (ev_img E)" and oom: "\<not> ev_oom E"
  shows "tree_holds E M t \<Longrightarrow> named (tr_entry t) \<Longrightarrow> tree_runs E M t"
proof (induction t)
  case (Tree e ts)
  obtain nm where nm: "ent_name e = Some nm" "ent_name_size e = length nm" using Tree.prems(2) by (auto simp: named_def)
  show ?case unfolding tree_runs_def
  proof (intro allI impI)
    fix p ls trv s
    assume at: "trv_at E M p ls TRAVERSE_NAME_ADD trv s" "tv_entry trv = tr_entry (Tree e ts)" "ls \<noteq> []"
      "length ls \<le> Suc (length p)" and sh: "short (tree_visits p (Tree e ts))"
    have len: "length (p @ nm) < 2 ^ 49" using sh nm(1) by (simp add: short_def)
    let ?q = "if sqfs_dentry_is_dir e then TRAVERSE_DESCEND else TRAVERSE_NAME_REMOVE" and ?G = "trv_at E M p ls TRAVERSE_GET_ENTRY"
    from step_name_add [OF oom at(1), of nm] at(2) nm len obtain trv1 s1 where
      1: "traverse_step trv s = (Ok (Return True, trv1), s1)" "trv_at E M (p @ nm) ls ?q trv1 s1"
        "tv_path_last_size trv1 = length nm" "tv_entry trv1 = e" "trv_visit trv1 = Entry_At (p @ nm) e" by auto
    have remove: "tours E M ?G trv' s' []" if "trv_at E M (p @ nm) ls TRAVERSE_NAME_REMOVE trv' s'" "tv_path_last_size trv' = length nm"
      for trv' s' using step_name_remove [OF that] by (auto intro: tours.go tours.stop)
    show "tours E M ?G trv s (tree_visits p (Tree e ts))"
    proof (cases "sqfs_dentry_is_dir e")
      case False
      then show ?thesis using remove 1(2,3) nm(1) tours_visit [OF 1(1,2,5), of ?G "[]"] by simp
    next
      case True
      then obtain inode where ino: "yields E M (sqfs_inode_get (ent_inode e)) (Ok inode)" "entries_hold E inode ts"
        "\<forall>t \<in> set ts. tree_holds E M t" using Tree.prems(1) by auto
      have trees: "\<forall>t \<in> set ts. tree_runs E M t" using Tree.IH ino(3) entries_hold_named [OF ino(2)] by blast
      have ls: "length ls < 2 ^ 50" "length (p @ nm) < 2 ^ 50" using at(4) len by simp_all
      let ?vs = "concat (map (tree_visits ((p @ nm) @ [slash])) ts)"
      have vs: "short ?vs" using sh True nm(1) by (auto simp: short_def)
      let ?A = "\<lambda>trv' s'. \<exists>l. trv_at E M ((p @ nm) @ [slash]) (ls @ [l]) TRAVERSE_ASCEND trv' s' \<and> lv_name_size l = length nm"
      have down: "tours E M ?A trv1 s2 ?vs" if s2: "trv_at E M (p @ nm) ls ?q trv1 s2" for s2
      proof -
        from step_descend [OF oom _ at(3) _ ino(2) ls, of M trv1 s2] s2 1(4) True ino(1) nm(2) obtain trv2 s3 dir where
          2: "traverse_step trv1 s2 = (Ok (Go, trv2), s3)"
            "trv_at E M ((p @ nm) @ [slash]) (ls @ [\<lparr>lv_dir = dir, lv_name_size = length nm\<rparr>]) TRAVERSE_GET_ENTRY trv2 s3"
            "dir_left E dir (map tr_entry ts)" by auto
        show ?thesis using forest_runs [OF im oom 2(2), of ts] 2(3) at(4) trees vs by (intro tours.go [OF 2(1)]) auto
      qed
      have up: "tours E M ?G trv3 s3 [Dir_End (p @ nm)]" if last: "?A trv3 s3" for trv3 s3
      proof -
        obtain l where l: "trv_at E M ((p @ nm) @ [slash]) (ls @ [l]) TRAVERSE_ASCEND trv3 s3" "lv_name_size l = length nm" using last by blast
        from step_ascend [OF l(1) at(3)] l(2) obtain trv4 where
          4: "traverse_step trv3 s3 = (Ok (Return True, trv4), s3)" "trv_at E M (p @ nm) ls TRAVERSE_NAME_REMOVE trv4 s3"
            "trv_visit trv4 = Dir_End (p @ nm)" "tv_path_last_size trv4 = length nm" by auto
        show ?thesis using remove 4(4) by (intro tours_visit [OF 4(1-3)]) auto
      qed
      have "tours E M ?G trv s (Entry_At (p @ nm) e # ?vs @ [Dir_End (p @ nm)])"
        by (rule tours_visit [OF 1(1,2,5)], simp, rule tours_trans, erule down, erule up)
      then show ?thesis using True nm(1) by simp
    qed
  qed
qed

text \<open>Opening a traversal.\<close>

lemma traverse_open_run:
  assumes oom: "\<not> ev_oom E" and cl: "fs_clean E M s"
    and ino: "yields E M (sqfs_inode_get i) (Ok inode)" "entries_hold E inode ts"
  shows "\<exists>trv s' l. sqfs_traverse_open i junk s = (Ok (Inr (), trv), s') \<and> trv_at E M [] [l] TRAVERSE_NAME_REMOVE trv s' \<and>
    tv_path_last_size trv = 0 \<and> dir_left E (lv_dir l) (map tr_entry ts)"
proof -
  obtain s1 where s1: "sqfs_inode_get i s = (Ok inode, s1)" "fs_clean E M s1"
    using implements_OkD [OF ino(1) [simplified oom] cl] .
  let ?s = "s1\<lparr>fs_heap := (fs_heap s1)\<lparr>hp_mallocs := Suc (hp_mallocs (fs_heap s1))\<rparr>\<rparr>"
  let ?t = "(sqfs_traverse_init junk)\<lparr>tv_path_cap := 32, tv_path := Some (Some 0 # replicate 31 None), tv_path_size := 1,
    tv_stack := \<lparr>st_value_size = 56, st_size = 0, st_capacity = 0, st_items = None, st_freer = None\<rparr>\<rparr>"
  have cl2: "fs_clean E M ?s" by (rule fs_inv_mallocs [OF s1(2)])
  have p: "path_is [] ?t" and st: "stack_holds [] (tv_stack ?t)"
    by (simp_all add: path_is_def stack_holds_def stack_wf_def stack_list_def)
  from descend_inode_run [OF oom cl2 p st ino(2)] obtain trv s' dir where
    d: "sqfs_traverse_descend_inode inode ?t ?s = (Ok (Inr (), trv), s')" "fs_clean E M s'" "path_is [] trv"
      "tv_entry trv = tv_entry ?t" "stack_holds [\<lparr>lv_dir = dir, lv_name_size = 0\<rparr>] (tv_stack trv)"
      "dir_left E dir (map tr_entry ts)" by auto
  let ?u = "trv\<lparr>tv_path_last_size := 0, tv_state := TRAVERSE_NAME_REMOVE\<rparr>"
  have "hp_malloc_ok (fs_heap s1) (hp_mallocs (fs_heap s1))" using s1(2) oom by (simp add: fs_inv_def ev_oom_def)
  then have "sqfs_traverse_open i junk s = (Ok (Inr (), ?u), s')"
    using s1(1) d(1) by (simp add: sqfs_traverse_open_def sqfs_traverse_open_inode_def sqfs_traverse_path_init_def trv_bind_def
        trv_try_def on_stack_def sqfs_stack_create_def sqfs_stack_capacity_def io_simps hp_malloc_run
        sqfs_traverse_path_set_name_size_def)
  then show ?thesis using d by (intro exI [of _ ?u] exI [of _ s'] exI [of _ "\<lparr>lv_dir = dir, lv_name_size = 0\<rparr>"])
      (simp add: trv_at_def sqfs_traverse_init_def sqfs_dentry_init_def)
qed

text \<open>A whole traversal: it opens, visits the trees in order, and is finished.\<close>

abbreviation forest_visits :: "sqfs_tree list \<Rightarrow> visit list" where
  "forest_visits ts \<equiv> concat (map (tree_visits []) ts)"

lemma traverse_visits:
  assumes "img_ok (ev_img E)" and "\<not> ev_oom E" and "fs_clean E M s"
    and "yields E M (sqfs_inode_get i) (Ok inode)" and "entries_hold E inode ts"
    and "\<forall>t \<in> set ts. tree_holds E M t" and "short (forest_visits ts)"
  shows "\<exists>trv s1. sqfs_traverse_open i junk s = (Ok (Inr (), trv), s1) \<and>
    tours E M (trv_at E M [] [] TRAVERSE_FINISHED) trv s1 (forest_visits ts)"
proof -
  from traverse_open_run [OF assms(2-5)] obtain trv s1 l where
    o: "sqfs_traverse_open i junk s = (Ok (Inr (), trv), s1)" "trv_at E M [] [l] TRAVERSE_NAME_REMOVE trv s1"
      "tv_path_last_size trv = 0" "dir_left E (lv_dir l) (map tr_entry ts)" by blast
  from step_name_remove [of E M "[]" "[]" "[l]" trv s1] o(2,3) obtain trv1 where
    1: "traverse_step trv s1 = (Ok (Go, trv1), s1)" "trv_at E M [] [l] TRAVERSE_GET_ENTRY trv1 s1" by auto
  have "\<forall>t \<in> set ts. tree_runs E M t"
    using tree_holds_runs [OF assms(1,2)] assms(6) entries_hold_named [OF assms(5)] by blast
  then have 2: "tours E M (\<lambda>trv' s'. \<exists>l'. trv_at E M [] [l'] TRAVERSE_ASCEND trv' s' \<and> lv_name_size l' = lv_name_size l) trv1 s1 (forest_visits ts)"
    using forest_runs [OF assms(1,2), of M "[]" "[]" l trv1 s1 ts] 1(2) o(4) assms(7) by simp
  have "tours E M (trv_at E M [] [] TRAVERSE_FINISHED) trv s1 (forest_visits ts @ [])"
    using step_ascend_root by (intro tours.go [OF 1(1)] tours_trans [OF 2]) (blast intro: tours.go tours.stop)
  then show ?thesis using o(1) by simp
qed

text \<open>Closing it releases the stack and the path.\<close>

lemma traverse_close_run:
  assumes "trv_at E M p ls q trv s"
  shows "\<exists>trv'. sqfs_traverse_close trv s = (Ok trv', s) \<and> tv_path trv' = None \<and> st_items (tv_stack trv') = None \<and>
    tv_state trv' = TRAVERSE_ERROR"
proof -
  have "stack_wf (tv_stack trv)" "st_freer (tv_stack trv) = None" using assms by (simp_all add: trv_at_def stack_holds_def)
  from sqfs_stack_destroy_spec [OF this, of "fs_heap s"] show ?thesis
    by (simp add: sqfs_traverse_close_def on_stack_def io_simps sqfs_traverse_init_def sqfs_stack_init_def)
qed

end
