(* ===== verification/Sqfs_Open.thy ===== *)
theory Sqfs_Open
  imports Sqfs_Init
begin

text \<open>
  Opening an image file: \<^verbatim>\<open>util.c\<close>. The state is the library's, the number of open descriptors
  and what was written to standard error. The file system underneath is a parameter: \<open>files\<close> maps a path
  to the contents of the file, when it can be opened, and \<open>why\<close> is what \<^verbatim>\<open>strerror\<close> says when it
  cannot. A descriptor is the contents of its file. This is the POSIX branch.

  The lemma shows that a descriptor is left open exactly when the call succeeds.
\<close>

record open_state =
  os_fs :: sqfs
  os_fds :: nat
  os_stderr :: string

record 'st open_env =
  oe_files :: "bytes \<Rightarrow> bytes option"
  oe_why :: string
  oe_libs :: "'st codec_libs"
  oe_junk :: sqfs_inode_id

definition on_os :: "(sqfs, 'a) io \<Rightarrow> (open_state, 'a) io" where
  "on_os = io_on os_fs (\<lambda>fs s. s\<lparr>os_fs := fs\<rparr>)"

definition print_err :: "string \<Rightarrow> (open_state, unit) io" where
  "print_err m = io_modify (\<lambda>s. s\<lparr>os_stderr := os_stderr s @ m\<rparr>)"

definition sqfs_fd_open :: "'st open_env \<Rightarrow> bytes \<Rightarrow> bool \<Rightarrow> (open_state, bytes) io" where
  "sqfs_fd_open env path print = (case oe_files env path of
     Some fd \<Rightarrow> io_bind (io_modify (\<lambda>s. s\<lparr>os_fds := Suc (os_fds s)\<rparr>)) (\<lambda>_. io_ret fd)
   | None \<Rightarrow> io_bind (if print then print_err (''Can't open squashfs image: '' @ oe_why env @ [CHR 0x0A]) else io_ret ())
       (\<lambda>_. io_raise SQFS_ERR))"

definition sqfs_fd_close :: "(open_state, unit) io" where
  "sqfs_fd_close = io_modify (\<lambda>s. s\<lparr>os_fds := os_fds s - 1\<rparr>)"

text \<open>\<^verbatim>\<open>%d\<close> of the non-negative numbers printed here; \<^verbatim>\<open>%s\<close> of a null pointer is undefined.\<close>

fun show_nat :: "nat \<Rightarrow> string" where
  "show_nat n = (if n < 10 then [char_of (48 + n)] else show_nat (n div 10) @ [char_of (48 + n mod 10)])"

declare show_nat.simps [simp del]

definition show_int :: "int \<Rightarrow> string" where "show_int i = show_nat (nat i)"

definition print_name :: "int \<Rightarrow> (open_state, unit) io" where
  "print_name ctype = (case sqfs_compression_name ctype of None \<Rightarrow> io_fault Null_Deref | Some nm \<Rightarrow> print_err nm)"

fun print_supported :: "bool \<Rightarrow> int list \<Rightarrow> (open_state, unit) io" where
  "print_supported first [] = io_ret ()"
| "print_supported first (c # cs) =
     (if c = SQFS_COMP_UNKNOWN then print_supported first cs else
      io_bind (if \<not> first then print_err '', '' else io_ret ()) (\<lambda>_.
      io_bind (print_name c) (\<lambda>_. print_supported False cs)))"

definition open_message :: "'st open_env \<Rightarrow> sqfs_err \<Rightarrow> (open_state, unit) io" where
  "open_message env e = (case e of
     SQFS_BADFORMAT \<Rightarrow> print_err (''This doesn't look like a squashfs image.'' @ [CHR 0x0A])
   | SQFS_BADVERSION \<Rightarrow>
       io_bind (io_gets (\<lambda>s. sqfs_version (os_fs s))) (\<lambda>(maj, mnr).
       case sqfs_version_supported of (mj1, mn1, mj2, mn2) \<Rightarrow>
       io_bind (print_err (''Squashfs version '' @ show_int maj @ ''.'' @ show_int mnr @ '' detected, only version'')) (\<lambda>_.
       io_bind (if mj1 = mj2 \<and> mn1 = mn2 then print_err ('' '' @ show_int mj1 @ ''.'' @ show_int mn1)
         else print_err (''s '' @ show_int mj1 @ ''.'' @ show_int mn1 @ '' to '' @ show_int mj2 @ ''.'' @ show_int mn2)) (\<lambda>_.
       print_err ('' supported.'' @ [CHR 0x0A]))))
   | SQFS_BADCOMP \<Rightarrow>
       io_bind (io_gets (\<lambda>s. sqfs_compression (os_fs s))) (\<lambda>ctype.
       io_bind (print_err ''Squashfs image uses '') (\<lambda>_.
       io_bind (print_name ctype) (\<lambda>_.
       io_bind (print_err '' compression, this version supports only '') (\<lambda>_.
       io_bind (print_supported True (sqfs_compression_supported (oe_libs env))) (\<lambda>_.
       print_err (''.'' @ [CHR 0x0A]))))))
   | _ \<Rightarrow> print_err (''Something went wrong trying to read the squashfs image.'' @ [CHR 0x0A]))"

definition sqfs_open_image_with_subdir ::
  "'st open_env \<Rightarrow> bytes \<Rightarrow> size_t \<Rightarrow> bytes option \<Rightarrow> (open_state, bytes) io" where
  "sqfs_open_image_with_subdir env file offset subdir =
     io_bind (sqfs_fd_open env file True) (\<lambda>fd.
     io_try (on_os (sqfs_init_with_subdir (oe_libs env) (oe_junk env) fd offset subdir)) (\<lambda>r. case r of
       Inr _ \<Rightarrow> io_ret fd
     | Inl e \<Rightarrow> io_bind (open_message env e) (\<lambda>_. io_bind sqfs_fd_close (\<lambda>_. io_raise e))))"

definition sqfs_open_image :: "'st open_env \<Rightarrow> bytes \<Rightarrow> size_t \<Rightarrow> (open_state, bytes) io" where
  "sqfs_open_image env file offset = sqfs_open_image_with_subdir env file offset None"

section \<open>Messages\<close>

text \<open>A call that only prints.\<close>

definition prints :: "(open_state, unit) io \<Rightarrow> bool" where
  "prints m \<longleftrightarrow> (\<forall>s. \<exists>t. m s = (Ok (), s\<lparr>os_stderr := t\<rparr>))"

lemma prints_err: "prints (print_err m)"
  by (auto simp: prints_def print_err_def io_simps)

lemma prints_ret: "prints (io_ret ())"
  unfolding prints_def io_simps by (metis open_state.surjective open_state.update_convs(3))

lemma prints_bind:
  assumes "prints m" and "prints n"
  shows "prints (io_bind m (\<lambda>_. n))"
  unfolding prints_def
proof
  fix s
  obtain t where "m s = (Ok (), s\<lparr>os_stderr := t\<rparr>)" using assms(1) unfolding prints_def by blast
  moreover obtain t' where "n (s\<lparr>os_stderr := t\<rparr>) = (Ok (), s\<lparr>os_stderr := t\<rparr>\<lparr>os_stderr := t'\<rparr>)"
    using assms(2) unfolding prints_def by blast
  ultimately show "\<exists>t. io_bind m (\<lambda>_. n) s = (Ok (), s\<lparr>os_stderr := t\<rparr>)" by (auto simp: io_simps)
qed

lemma prints_supported:
  "\<forall>c \<in> set cs. c = SQFS_COMP_UNKNOWN \<or> sqfs_compression_name c \<noteq> None \<Longrightarrow> prints (print_supported first cs)"
  by (induction cs arbitrary: first) (auto simp: print_name_def intro!: prints_ret prints_bind prints_err)

lemma supported_names:
  "c \<in> set (sqfs_compression_supported L) \<Longrightarrow> c = SQFS_COMP_UNKNOWN \<or> sqfs_compression_name c \<noteq> None"
  using sqfs_compression_supported_get sqfs_compression_name_get by blast

text \<open>The message, unless the image names a compression nobody has named.\<close>

lemma open_message_run:
  "(\<exists>t. open_message env e s = (Ok (), s\<lparr>os_stderr := t\<rparr>)) \<or>
   (\<exists>t. open_message env e s = (Fault Null_Deref, s\<lparr>os_stderr := t\<rparr>) \<and> e = SQFS_BADCOMP \<and>
      sqfs_compression_name (sqfs_compression (os_fs s)) = None)"
proof (cases "e = SQFS_BADCOMP")
  case False
  then have "prints (\<lambda>s. open_message env e s)"
    by (cases e) (auto simp: open_message_def prints_def print_err_def io_simps sqfs_version_supported_def split: prod.split)
  then show ?thesis unfolding prints_def by blast
next
  case True
  have sup: "prints (print_supported True (sqfs_compression_supported (oe_libs env)))"
    by (rule prints_supported) (use supported_names in blast)
  show ?thesis
  proof (cases "sqfs_compression_name (sqfs_compression (os_fs s))")
    case None
    then show ?thesis using True by (auto simp: open_message_def io_simps print_err_def print_name_def)
  next
    case (Some nm)
    have "prints (io_bind (print_err ''Squashfs image uses '') (\<lambda>_. io_bind (print_err nm) (\<lambda>_.
       io_bind (print_err '' compression, this version supports only '') (\<lambda>_.
       io_bind (print_supported True (sqfs_compression_supported (oe_libs env))) (\<lambda>_. print_err (''.'' @ [CHR 0x0A]))))))"
      by (intro prints_bind prints_err sup)
    then show ?thesis using Some True unfolding prints_def
      by (simp add: open_message_def io_bind_run [of "io_gets _"] io_gets_run print_name_def)
  qed
qed

section \<open>Descriptors\<close>

lemma open_image_run:
  assumes "heap_owned (fs_heap (os_fs s)) M"
  shows "\<exists>r s'. sqfs_open_image env file offset s = (r, s') \<and>
    (case r of
       Ok fd \<Rightarrow> oe_files env file = Some fd \<and> os_fds s' = Suc (os_fds s) \<and> os_stderr s' = os_stderr s \<and> caches_ready (os_fs s')
     | Err e \<Rightarrow> os_fds s' = os_fds s \<and> heap_owned (fs_heap (os_fs s')) M \<and> (oe_files env file \<noteq> None \<longrightarrow> caches_absent (os_fs s'))
     | Fault u \<Rightarrow> u = Null_Deref \<and> sqfs_compression_name (sqfs_compression (os_fs s')) = None)"
proof (cases "oe_files env file")
  case None
  then show ?thesis using assms
    by (simp add: sqfs_open_image_def sqfs_open_image_with_subdir_def sqfs_fd_open_def print_err_def io_simps)
next
  case (Some fd)
  obtain r f where init: "sqfs_init (oe_libs env) (oe_junk env) fd offset (os_fs s) = (r, f)" by fastforce
  note spec = sqfs_init_spec [OF assms, of "oe_libs env" "oe_junk env" fd offset, unfolded init]
  have ok: "\<And>a. r = Ok a \<Longrightarrow> caches_ready f" and er: "\<And>e. r = Err e \<Longrightarrow> heap_owned (fs_heap f) M \<and> caches_absent f"
    and fl: "\<And>u. r \<noteq> Fault u" using spec by auto
  let ?s1 = "s\<lparr>os_fds := Suc (os_fds s)\<rparr>"
  have run: "sqfs_open_image env file offset s = (case r of
      Ok _ \<Rightarrow> (Ok fd, ?s1\<lparr>os_fs := f\<rparr>)
    | Err e \<Rightarrow> io_bind (open_message env e) (\<lambda>_. io_bind sqfs_fd_close (\<lambda>_. io_raise e)) (?s1\<lparr>os_fs := f\<rparr>)
    | Fault u \<Rightarrow> (Fault u, ?s1\<lparr>os_fs := f\<rparr>))"
    using Some init by (simp add: sqfs_open_image_def sqfs_open_image_with_subdir_def sqfs_fd_open_def sqfs_init_def
        on_os_def io_simps split: res.split)
  show ?thesis
  proof (cases r)
    case (Ok a)
    then show ?thesis using ok Some by (simp add: run)
  next
    case (Err e)
    from open_message_run [of env e "?s1\<lparr>os_fs := f\<rparr>"] show ?thesis
      using er [OF Err] by (auto simp: run Err io_bind_run io_raise_run sqfs_fd_close_def io_modify_run)
  qed (use fl in simp)
qed

end
