(* ===== verification/Sqfs_LS.thy ===== *)
theory Sqfs_LS
  imports Sqfs_Tree Sqfs_Open
begin

text \<open>
  The program \<^verbatim>\<open>squashfuse_ls\<close>: \<^verbatim>\<open>ls.c\<close>. It opens an image, traverses it and prints the path of
  every entry. The status a program passes to \<^verbatim>\<open>exit\<close> is its result. The state is that of opening an
  image (\<open>Sqfs_Open\<close>) with what was written to standard output.

  A traversal of a damaged image need not end (a directory can list itself), so the loop has fuel; the lemmas
  show that the number of visits of the tree is enough.
\<close>

section \<open>The program\<close>

record tool_state =
  ts_os :: open_state
  ts_stdout :: bytes

definition on_open :: "(open_state, 'a) io \<Rightarrow> (tool_state, 'a) io" where
  "on_open = io_on ts_os (\<lambda>os s. s\<lparr>ts_os := os\<rparr>)"

definition on_image :: "(sqfs, 'a) io \<Rightarrow> (tool_state, 'a) io" where
  "on_image m = on_open (on_os m)"

definition print_out :: "bytes \<Rightarrow> (tool_state, unit) io" where
  "print_out bs = io_modify (\<lambda>s. s\<lparr>ts_stdout := ts_stdout s @ bs\<rparr>)"

abbreviation (input) ERR_MISC :: int where "ERR_MISC \<equiv> - 1"
abbreviation (input) ERR_USAGE :: int where "ERR_USAGE \<equiv> - 2"
abbreviation (input) ERR_OPEN :: int where "ERR_OPEN \<equiv> - 3"

definition usage :: "(tool_state, int) io" where
  "usage = io_bind (on_open (print_err (''squashfuse_ls (c) 2013 Dave Vasilevsky'' @ [CHR 0x0A, CHR 0x0A]))) (\<lambda>_.
     io_bind (on_open (print_err (''Usage: squashfuse_ls ARCHIVE'' @ [CHR 0x0A]))) (\<lambda>_. io_ret ERR_USAGE))"

definition die :: "string \<Rightarrow> (tool_state, int) io" where
  "die msg = io_bind (on_open (print_err (msg @ [CHR 0x0A]))) (\<lambda>_. io_ret ERR_MISC)"

text \<open>The string at the start of a buffer, as \<^verbatim>\<open>%s\<close> and the string functions read it.\<close>

fun c_string :: "u8 option list \<Rightarrow> bytes res" where
  "c_string [] = Fault Out_Of_Bounds"
| "c_string (None # bs) = Fault Uninitialised"
| "c_string (Some c # bs) = (if c = 0 then Ok [] else res_bind (c_string bs) (\<lambda>cs. Ok (c # cs)))"

definition trv_path :: "sqfs_traverse \<Rightarrow> bytes res" where
  "trv_path trv = (case tv_path trv of None \<Rightarrow> Fault Null_Deref | Some buf \<Rightarrow> c_string buf)"

fun ls_loop :: "nat \<Rightarrow> sqfs_traverse \<Rightarrow> (tool_state, sqfs_err option \<times> sqfs_traverse) io" where
  "ls_loop 0 trv = io_fault Diverges"
| "ls_loop (Suc fuel) trv =
     io_bind (on_image (sqfs_traverse_next trv)) (\<lambda>((more, err), trv).
     if \<not> more then io_ret (err, trv) else
     io_bind (if \<not> tv_dir_end trv then io_bind (io_lift (trv_path trv)) (\<lambda>p. print_out (p @ [10])) else io_ret ()) (\<lambda>_.
     ls_loop fuel trv))"

text \<open>\<open>argv\<close> are the arguments with the program's name first; \<open>junk\<close> is what the uninitialised
  \<^verbatim>\<open>trv\<close> holds.\<close>

definition ls_main :: "'st open_env \<Rightarrow> sqfs_traverse \<Rightarrow> nat \<Rightarrow> bytes list \<Rightarrow> (tool_state, int) io" where
  "ls_main env junk fuel argv =
     (if length argv \<noteq> 2 then usage else
      io_try (on_open (sqfs_open_image env (argv ! 1) 0)) (\<lambda>r. case r of Inl _ \<Rightarrow> io_ret ERR_OPEN | Inr _ \<Rightarrow>
      io_bind (on_image (io_bind (io_gets sqfs_inode_root) (\<lambda>root. sqfs_traverse_open root junk))) (\<lambda>(r, trv).
      case r of Inl _ \<Rightarrow> die ''sqfs_traverse_open error'' | Inr _ \<Rightarrow>
      io_bind (ls_loop fuel trv) (\<lambda>(err, trv).
      if err \<noteq> None then die ''sqfs_traverse_next error'' else
      io_bind (on_image (sqfs_traverse_close trv)) (\<lambda>_.
      io_bind (on_open sqfs_fd_close) (\<lambda>_. io_ret 0))))))"

section \<open>What it prints\<close>

lemma c_string_take:
  "take (Suc (length p)) buf = map Some (p @ [0]) \<Longrightarrow> c_string buf = Ok (takeWhile (\<lambda>c. c \<noteq> 0) p)"
proof (induction p arbitrary: buf)
  case Nil
  then show ?case by (cases buf) auto
next
  case (Cons c p)
  then show ?case by (cases buf) auto
qed

lemma trv_path_is: "path_is p trv \<Longrightarrow> trv_path trv = Ok (takeWhile (\<lambda>c. c \<noteq> 0) p)"
  using c_string_take by (auto simp: path_is_def trv_path_def)

text \<open>The line of a visit.\<close>

fun visit_line :: "visit \<Rightarrow> bytes" where
  "visit_line (Entry_At p e) = takeWhile (\<lambda>c. c \<noteq> 0) p @ [10]"
| "visit_line (Dir_End p) = []"

definition with_image :: "sqfs \<Rightarrow> tool_state \<Rightarrow> tool_state" where
  "with_image f s = s\<lparr>ts_os := (ts_os s)\<lparr>os_fs := f\<rparr>\<rparr>"

lemma on_image_run [io_simps]:
  "on_image m s = (case m (os_fs (ts_os s)) of (r, f) \<Rightarrow> (r, with_image f s))"
  by (simp add: on_image_def on_open_def on_os_def with_image_def io_simps split: prod.split)

lemma with_image_fields [simp]:
  "os_fs (ts_os (with_image f s)) = f" "ts_stdout (with_image f s) = ts_stdout s"
  "with_image f (with_image g s) = with_image f s" "os_fds (ts_os (with_image f s)) = os_fds (ts_os s)"
  "with_image f (s\<lparr>ts_stdout := x\<rparr>) = (with_image f s)\<lparr>ts_stdout := x\<rparr>"
  "os_stderr (ts_os (with_image f s)) = os_stderr (ts_os s)"
  by (simp_all add: with_image_def)

lemma with_image_same: "os_fs (ts_os s) = f \<Longrightarrow> with_image f s = s"
  by (simp add: with_image_def)

text \<open>The program is a client of the traversal: it adds the line of each visit to its output.\<close>

definition tool_seen :: "tool_state \<Rightarrow> bytes \<times> string \<times> nat" where
  "tool_seen s = (ts_stdout s, os_stderr (ts_os s), os_fds (ts_os s))"

definition ls_update :: "visit \<Rightarrow> bytes \<times> string \<times> nat \<Rightarrow> bytes \<times> string \<times> nat" where
  "ls_update v = (\<lambda>(out, err, fds). (out @ visit_line v, err, fds))"

interpretation lsc: traversal_client E M "\<lambda>s. os_fs (ts_os s)" with_image tool_seen ls_update "\<lambda>v. True" ls_loop Pair
  for E M
proof
  fix f g :: sqfs and t :: tool_state
  show "os_fs (ts_os (with_image f t)) = f" "tool_seen (with_image f t) = tool_seen t"
    "with_image f (with_image g t) = with_image f t" by (simp_all add: tool_seen_def)
next
  fix trv trv' :: sqfs_traverse and t :: tool_state and err f n
  assume "sqfs_traverse_next trv (os_fs (ts_os t)) = (Ok ((False, err), trv'), f)"
  then show "ls_loop (Suc n) trv t = (Ok (err, trv'), with_image f t)" by (simp add: io_simps)
next
  fix trv trv' :: sqfs_traverse and t :: tool_state and err f n
  assume r: "sqfs_traverse_next trv (os_fs (ts_os t)) = (Ok ((True, err), trv'), f)"
    "path_is (visit_path (trv_visit trv')) trv'" "fs_clean E M f"
  let ?t = "(with_image f t)\<lparr>ts_stdout := ts_stdout t @ visit_line (trv_visit trv')\<rparr>"
  have "ls_loop (Suc n) trv t = ls_loop n trv' ?t"
    using r(1) trv_path_is [OF r(2)] by (auto simp: io_simps print_out_def trv_visit_def with_image_def split: if_splits)
  moreover have "tool_seen ?t = ls_update (trv_visit trv') (tool_seen t)" by (simp add: tool_seen_def ls_update_def)
  ultimately show "\<exists>t'. ls_loop (Suc n) trv t = ls_loop n trv' t' \<and> fs_clean E M (os_fs (ts_os t')) \<and>
      tool_seen t' = ls_update (trv_visit trv') (tool_seen t)"
    using r(3) by (intro exI [of _ ?t]) simp
next
  fix trv trv' :: sqfs_traverse and t :: tool_state and f n
  assume "sqfs_traverse_next trv (os_fs (ts_os t)) = sqfs_traverse_next trv' f"
  then show "ls_loop (Suc n) trv t = ls_loop (Suc n) trv' (with_image f t)" by (simp add: io_bind_run on_image_run)
qed

lemma fold_ls_update: "fold ls_update vs (out, err, fds) = (out @ concat (map visit_line vs), err, fds)"
  by (induction vs arbitrary: out) (simp_all add: ls_update_def)

text \<open>The whole program on an image that holds a forest below its root.\<close>

lemma ls_main_lists:
  assumes open_ok: "sqfs_open_image env file 0 (ts_os s) = (Ok fd, os)"
    and im: "img_ok (ev_img E)" and oom: "\<not> ev_oom E" and cl: "fs_clean E M (os_fs os)"
    and root: "yields E M (sqfs_inode_get (sb_root_inode (fs_sb (ev_img E)))) (Ok inode)" "entries_hold E inode ts"
    and trees: "\<forall>t \<in> set ts. tree_holds E M t" "short (forest_visits ts)"
  shows "\<exists>s'. ls_main env junk (Suc (length (forest_visits ts)) + n) [prog, file] s = (Ok 0, s') \<and>
    ts_stdout s' = ts_stdout s @ concat (map visit_line (forest_visits ts)) \<and>
    os_fds (ts_os s') = os_fds os - 1 \<and> os_stderr (ts_os s') = os_stderr os"
proof -
  let ?f = "os_fs os" and ?s1 = "s\<lparr>ts_os := os\<rparr>"
  have "fs_img ?f = ev_img E" using cl by (simp add: fs_inv_def)
  then have r: "sqfs_inode_root ?f = sb_root_inode (fs_sb (ev_img E))" by (metis fs_img_fields(3) sqfs_inode_root_def)
  from traverse_visits [OF im oom cl root trees] obtain trv f1 where
    t: "sqfs_traverse_open (sqfs_inode_root ?f) junk ?f = (Ok (Inr (), trv), f1)"
      "tours E M (trv_at E M [] [] TRAVERSE_FINISHED) trv f1 (forest_visits ts)" unfolding r by blast
  have "tv_state trv' = TRAVERSE_FINISHED" if "trv_at E M [] [] TRAVERSE_FINISHED trv' f'" for trv' f'
    using that by (simp add: trv_at_def)
  with lsc.loop_tours [OF t(2), of "with_image f1 ?s1" n] obtain trv' s2 where
    l: "ls_loop (Suc (length (forest_visits ts)) + n) trv (with_image f1 ?s1) = (Ok (None, trv'), s2)"
      "trv_at E M [] [] TRAVERSE_FINISHED trv' (os_fs (ts_os s2))"
      "tool_seen s2 = (ts_stdout s @ concat (map visit_line (forest_visits ts)), os_stderr os, os_fds os)"
    by (auto simp: tool_seen_def fold_ls_update)
  from traverse_close_run [OF l(2)] obtain trv2 where
    c: "sqfs_traverse_close trv' (os_fs (ts_os s2)) = (Ok trv2, os_fs (ts_os s2))" by blast
  show ?thesis using open_ok t(1) l(1,3) c
    by (simp del: ls_loop.simps add: ls_main_def on_open_def io_simps sqfs_fd_close_def tool_seen_def)
qed

end
