(* ===== verification/Sqfs_Stat.thy ===== *)
theory Sqfs_Stat
  imports Sqfs_Xattr "HOL-Library.Signed_Division"
begin

text \<open>
  What the clients of the library share: \<^verbatim>\<open>stat.c\<close>, and of \<^verbatim>\<open>fuseprivate.c\<close> the listing
  of extended attributes, the file system statistics and the callback that sorts command-line
  arguments. The system's \<^verbatim>\<open>makedev\<close> is a parameter.

  The lemmas relate the results to the image: the owner is the entry of the id table the inode names,
  the attribute list is the concatenation of the terminated names.
\<close>

section \<open>stat\<close>

record stat =
  st_ino :: u64
  st_mode :: u32
  st_nlink :: int
  st_uid :: u32
  st_gid :: u32
  st_rdev :: u64
  st_size :: off_t
  st_blksize :: int
  st_blocks :: int
  st_atime :: int
  st_mtime :: int
  st_ctime :: int

definition stat_zero :: stat where
  "stat_zero = \<lparr>st_ino = 0, st_mode = 0, st_nlink = 0, st_uid = 0, st_gid = 0, st_rdev = 0, st_size = 0,
     st_blksize = 0, st_blocks = 0, st_atime = 0, st_mtime = 0, st_ctime = 0\<rparr>"

definition sqfs_makedev :: "(int \<Rightarrow> int \<Rightarrow> u64) \<Rightarrow> int \<Rightarrow> int \<Rightarrow> u64" where
  "sqfs_makedev makedev maj mn = makedev maj mn"

text \<open>The part that depends on the type of the file; reading another member of \<^verbatim>\<open>xtra\<close> than the
  inode has is a fault.\<close>

definition stat_xtra :: "(int \<Rightarrow> int \<Rightarrow> u64) \<Rightarrow> sqfs_inode \<Rightarrow> stat \<Rightarrow> stat res" where
  "stat_xtra makedev inode st =
     (if S_ISREG (st_mode st) then
        (case in_xtra inode of
           X_Reg _ file_size _ _ \<Rightarrow>
             Ok (st\<lparr>st_size := off_of_u64 file_size, st_blocks := off_of_u64 file_size sdiv 512\<rparr>)
         | _ \<Rightarrow> Fault Wrong_Union_Arm)
      else if S_ISBLK (st_mode st) \<or> S_ISCHR (st_mode st) then
        (case in_xtra inode of
           X_Dev mj mn \<Rightarrow> Ok (st\<lparr>st_rdev := sqfs_makedev makedev mj mn\<rparr>)
         | _ \<Rightarrow> Fault Wrong_Union_Arm)
      else if S_ISLNK (st_mode st) then
        (case in_xtra inode of
           X_Symlink sz \<Rightarrow> Ok (st\<lparr>st_size := int sz\<rparr>)
         | _ \<Rightarrow> Fault Wrong_Union_Arm)
      else Ok st)"

definition sqfs_stat :: "(int \<Rightarrow> int \<Rightarrow> u64) \<Rightarrow> sqfs_inode \<Rightarrow> (sqfs, stat) io" where
  "sqfs_stat makedev inode =
     (let mtime = uint (bi_mtime (in_base inode));
          st = stat_zero\<lparr>st_mode := in_mode inode, st_nlink := in_nlink inode,
            st_mtime := mtime, st_ctime := mtime, st_atime := mtime\<rparr>
      in io_bind (io_lift (stat_xtra makedev inode st)) (\<lambda>st.
         io_bind (io_gets (\<lambda>s. s)) (\<lambda>s.
         let st = st\<lparr>st_blksize := uint (sb_block_size (fs_sb s))\<rparr> in
         io_bind (if 0 < fs_uid s then io_ret (word_of_int (fs_uid s)) else sqfs_id_get (bi_uid (in_base inode))) (\<lambda>uid.
         io_bind (if 0 < fs_gid s then io_ret (word_of_int (fs_gid s)) else sqfs_id_get (bi_guid (in_base inode))) (\<lambda>gid.
         io_ret (st\<lparr>st_uid := uid, st_gid := gid\<rparr>))))))"

section \<open>File system statistics\<close>

record statvfs =
  f_bsize :: int
  f_frsize :: int
  f_blocks :: u64
  f_bfree :: int
  f_bavail :: int
  f_files :: int
  f_ffree :: int
  f_favail :: int
  f_namemax :: int

text \<open>\<^verbatim>\<open>sqfs_statfs\<close>; shifting by 64 bits or more is undefined.\<close>

definition sqfs_statfs :: "(sqfs, statvfs) io" where
  "sqfs_statfs =
     io_bind (io_gets fs_sb) (\<lambda>sb.
     io_bind (io_guard (unat (sb_block_log sb) < 64) Bad_Shift) (\<lambda>_.
     io_ret \<lparr>f_bsize = uint (sb_block_size sb), f_frsize = uint (sb_block_size sb),
       f_blocks = drop_bit (unat (sb_block_log sb)) (sb_bytes_used sb - 1) + 1,
       f_bfree = 0, f_bavail = 0, f_files = uint (sb_inodes sb), f_ffree = 0, f_favail = 0,
       f_namemax = int SQUASHFS_NAME_LEN\<rparr>))"

section \<open>Listing extended attributes\<close>

abbreviation (input) EIO :: int where "EIO \<equiv> 5"
abbreviation (input) ERANGE :: int where "ERANGE \<equiv> 34"

text \<open>\<^verbatim>\<open>sqfs_listxattr\<close>: \<open>buf\<close> is the size of the caller's buffer, if there is one; the result is an
  error number (\<open>Inl\<close>), or the new \<^verbatim>\<open>*size\<close> and what was written to the buffer. The number of
  attributes left falls in every round.\<close>

fun listxattr_loop :: "nat \<Rightarrow> size_t option \<Rightarrow> size_t \<Rightarrow> sqfs_xattr \<Rightarrow> (sqfs, int + size_t \<times> bytes) io" where
  "listxattr_loop fuel buf cnt x =
     (if xa_remain x = 0 then io_ret (Inr (cnt, []))
      else case fuel of 0 \<Rightarrow> io_fault Diverges
      | Suc fuel' \<Rightarrow>
         io_try (sqfs_xattr_read x) (\<lambda>r. case r of Inl e \<Rightarrow> io_ret (Inl EIO) | Inr x \<Rightarrow>
         io_bind (io_lift (sqfs_xattr_name_size x)) (\<lambda>n.
         let cnt = size_add cnt (size_add n 1) in
         case buf of
           None \<Rightarrow> listxattr_loop fuel' buf cnt x
         | Some sz \<Rightarrow>
            if sz < cnt then io_ret (Inl ERANGE) else
            io_try (sqfs_xattr_name x True True) (\<lambda>r. case r of Inl e \<Rightarrow> io_ret (Inl EIO) | Inr (nm, x) \<Rightarrow>
            io_bind (listxattr_loop fuel' buf cnt x) (\<lambda>r. case r of
              Inl e \<Rightarrow> io_ret (Inl e)
            | Inr (tot, rest) \<Rightarrow> io_ret (Inr (tot, nm @ [0] @ rest)))))))"

declare listxattr_loop.simps [simp del]

definition sqfs_listxattr :: "sqfs_xattr \<Rightarrow> sqfs_inode \<Rightarrow> size_t option \<Rightarrow> (sqfs, int + size_t \<times> bytes) io" where
  "sqfs_listxattr x inode buf =
     io_try (sqfs_xattr_open inode x) (\<lambda>r. case r of Inl e \<Rightarrow> io_ret (Inl (- EIO))
       | Inr x \<Rightarrow> listxattr_loop (xa_remain x) buf 0 x)"

section \<open>Command-line arguments\<close>

record sqfs_opts =
  op_progname :: bytes
  op_image :: "bytes option"
  op_subdir :: "bytes option"
  op_mountpoint :: int
  op_offset :: size_t
  op_idle_timeout_secs :: u32
  op_uid :: int
  op_gid :: int
  op_notify_pipe :: "bytes option"

abbreviation (input) FUSE_OPT_KEY_OPT :: int where "FUSE_OPT_KEY_OPT \<equiv> - 1"
abbreviation (input) FUSE_OPT_KEY_NONOPT :: int where "FUSE_OPT_KEY_NONOPT \<equiv> - 2"

text \<open>\<^verbatim>\<open>sqfs_opt_proc\<close>: whether FUSE is to keep the argument (1), drop it (0) or stop (-1).\<close>

definition sqfs_opt_proc :: "sqfs_opts \<Rightarrow> bytes \<Rightarrow> int \<Rightarrow> int \<times> sqfs_opts" where
  "sqfs_opt_proc opts arg key =
     (if key = FUSE_OPT_KEY_NONOPT then
        if op_mountpoint opts \<noteq> 0 then (- 1, opts)
        else if op_image opts \<noteq> None then (1, opts\<lparr>op_mountpoint := 1\<rparr>)
        else (0, opts\<lparr>op_image := Some arg\<rparr>)
      else if key = FUSE_OPT_KEY_OPT \<and> (strncmp arg [45, 104] 2 = 0 \<or> strncmp arg [45, 45, 104] 3 = 0) then (- 1, opts)
      else (1, opts))"

section \<open>What they return\<close>

lemma yields_try_Ok:
  assumes "\<not> ev_oom E" and "yields E M m (Ok a)" and "yields E M (k (Inr a)) r"
  shows "yields E M (io_try m k) r"
proof (rule implementsI)
  fix s assume "fs_clean E M s"
  from implements_OkD [OF assms(2) [simplified assms(1)] this] obtain s1 where
    s1: "m s = (Ok a, s1)" "fs_clean E M s1" by blast
  from implementsD [OF assms(3) s1(2)] obtain r' s' where "k (Inr a) s1 = (r', s')"
    "r' = r \<or> ev_oom E \<and> r' = Err SQFS_ERR"
    "case r' of Ok x \<Rightarrow> fs_clean E M s' | Err e \<Rightarrow> fs_safe E M s' | Fault u \<Rightarrow> True" by blast
  then show "\<exists>r' s'. io_try m k s = (r', s') \<and>
      (r' = r \<or> ev_oom E \<and> r' = Err SQFS_ERR) \<and>
      (case r' of Ok x \<Rightarrow> fs_clean E M s' | Err e \<Rightarrow> fs_safe E M s' | Fault u \<Rightarrow> True)"
    using s1(1) by (simp add: io_try_run)
qed

definition xattr_full_name :: "disk_xattr \<Rightarrow> bytes" where
  "xattr_full_name d = sqfs_xattr_prefixes ! unat (dx_type d) @ dx_name d"

definition xattr_list :: "disk_xattr list \<Rightarrow> bytes" where
  "xattr_list ds = concat (map (\<lambda>d. xattr_full_name d @ [0]) ds)"

definition listxattr_answer :: "size_t option \<Rightarrow> size_t \<Rightarrow> disk_xattr list \<Rightarrow> int + size_t \<times> bytes" where
  "listxattr_answer buf cnt ds = (let tot = cnt + length (xattr_list ds) in
     case buf of None \<Rightarrow> Inr (tot, [])
     | Some sz \<Rightarrow> if ds = [] \<or> tot \<le> sz then Inr (tot, xattr_list ds) else Inl ERANGE)"

lemma xattr_name_size_at:
  assumes "xattr_at im d rest x"
  shows "sqfs_xattr_name_size x = Ok (length (xattr_full_name d))"
proof -
  have "unat (dx_type d) < 3" "xa_type x = dx_type d" "unat (xe_size (xa_entry x)) = length (dx_name d)"
    using assms by (simp_all add: xattr_at_def disk_xattr_ok_def word_le_nat_alt)
  then show ?thesis
    by (simp add: sqfs_xattr_name_size_def xattr_prefix_def xattr_full_name_def sqfs_xattr_prefixes_def)
qed

lemma listxattr_loop_list:
  assumes im: "img_ok (ev_img E)" and mem: "\<not> ev_oom E"
  shows "xattr_before (ev_img E) ds x \<Longrightarrow> cnt + length (xattr_list ds) < 2 ^ 64 \<Longrightarrow>
    yields E M (listxattr_loop (length ds) buf cnt x) (Ok (listxattr_answer buf cnt ds))"
proof (induction ds arbitrary: x cnt)
  case Nil
  then have "xa_remain x = 0" by (simp add: xattr_before_def)
  then show ?case
    by (auto simp: listxattr_loop.simps [of 0] listxattr_answer_def xattr_list_def Let_def intro!: yields_ret split: option.splits)
next
  case (Cons d ds)
  let ?n = "length (xattr_full_name d)" and ?c = "cnt + Suc (length (xattr_full_name d))"
  from sqfs_xattr_read_before [OF im Cons.prems(1), of M] obtain x1 where
    rd: "yields E M (sqfs_xattr_read x) (Ok x1)" and x1: "xattr_at (ev_img E) d (xattr_run ds) x1"
      "xa_remain x1 = length ds" "xattr_before (ev_img E) ds x1" by blast
  have rem: "xa_remain x \<noteq> 0" using Cons.prems by (simp add: xattr_before_def)
  have all: "xattr_list (d # ds) = xattr_full_name d @ [0] @ xattr_list ds" by (simp add: xattr_list_def)
  have sum: "size_add cnt (size_add ?n (Suc 0)) = ?c" "?c + length (xattr_list ds) < 2 ^ 64"
    using Cons.prems(2) by (simp_all add: all)
  have step: "yields E M (listxattr_loop (length (d # ds)) buf cnt x) r"
    if "yields E M (case buf of None \<Rightarrow> listxattr_loop (length ds) buf ?c x1
        | Some sz \<Rightarrow> if sz < ?c then io_ret (Inl ERANGE) else
           io_try (sqfs_xattr_name x1 True True) (\<lambda>r. case r of Inl e \<Rightarrow> io_ret (Inl EIO) | Inr (nm, x) \<Rightarrow>
            io_bind (listxattr_loop (length ds) buf ?c x) (\<lambda>r. case r of
              Inl e \<Rightarrow> io_ret (Inl e) | Inr (tot, rest) \<Rightarrow> io_ret (Inr (tot, nm @ [0] @ rest))))) r" for r
    unfolding listxattr_loop.simps [of "length (d # ds)" _ _ x] using rem
    by (simp, intro yields_try_Ok [OF mem rd])
      (simp add: xattr_name_size_at [OF x1(1)] Let_def, unfold sum(1), rule that)
  show ?case
  proof (cases buf)
    case None
    then show ?thesis using Cons.IH [OF x1(3) sum(2)]
      by (intro step) (simp add: listxattr_answer_def all Let_def add.assoc)
  next
    case (Some sz)
    show ?thesis
    proof (cases "sz < ?c")
      case True
      then show ?thesis by (intro step) (simp add: Some listxattr_answer_def all Let_def yields_ret)
    next
      case False
      from sqfs_xattr_name_at [OF im x1(1), of M True True] obtain x2 where
        nx: "yields E M (sqfs_xattr_name x1 True True) (Ok (xattr_full_name d, x2))"
        and x2: "xattr_at (ev_img E) d (xattr_run ds) x2" "xa_remain x2 = xa_remain x1"
        by (auto simp: xattr_full_name_def)
      have b: "xattr_before (ev_img E) ds x2" using x2 x1(2,3) by (auto simp: xattr_before_def)
      have "yields E M (io_try (sqfs_xattr_name x1 True True) (\<lambda>r. case r of Inl e \<Rightarrow> io_ret (Inl EIO) | Inr (nm, x) \<Rightarrow>
          io_bind (listxattr_loop (length ds) buf ?c x) (\<lambda>r. case r of
            Inl e \<Rightarrow> io_ret (Inl e) | Inr (tot, rest) \<Rightarrow> io_ret (Inr (tot, nm @ [0] @ rest)))))
          (Ok (listxattr_answer buf cnt (d # ds)))"
        by (rule yields_try_Ok [OF mem nx], unfold sum.case prod.case, rule yields_bind_Ok [OF Cons.IH [OF b sum(2)]])
          (use False in \<open>auto simp: listxattr_answer_def all Let_def xattr_list_def Some add.assoc intro!: yields_ret\<close>)
      then show ?thesis using False by (intro step) (simp only: Some option.case if_False)
    qed
  qed
qed

lemma sqfs_listxattr_list:
  assumes im: "img_ok (ev_img E)" and mem: "\<not> ev_oom E" and h: "inode_xattrs E inode ds"
    and small: "length (xattr_list ds) < 2 ^ 64"
  shows "yields E M (sqfs_listxattr x inode buf) (Ok (listxattr_answer buf 0 ds))"
proof -
  from sqfs_xattr_open_before [OF h, of M x] obtain x1 where op: "yields E M (sqfs_xattr_open inode x) (Ok x1)"
    and x1: "ds = [] \<and> xa_remain x1 = 0 \<or> xattr_before (ev_img E) ds x1" by blast
  have rem: "xa_remain x1 = length ds" using x1 by (auto simp: xattr_before_def)
  have "yields E M (listxattr_loop (length ds) buf 0 x1) (Ok (listxattr_answer buf 0 ds))"
    using x1
  proof
    assume "ds = [] \<and> xa_remain x1 = 0"
    then show ?thesis
      by (auto simp: listxattr_loop.simps [of 0] listxattr_answer_def xattr_list_def Let_def intro!: yields_ret
          split: option.splits)
  next
    assume "xattr_before (ev_img E) ds x1"
    from listxattr_loop_list [OF im mem this] show ?thesis using small by simp
  qed
  then show ?thesis unfolding sqfs_listxattr_def
    by (intro yields_try_Ok [OF mem op]) (simp add: rem)
qed

text \<open>The owner and the group of a file.\<close>

definition owner_of :: "sqfs_image \<Rightarrow> bytes list \<Rightarrow> int \<Rightarrow> u16 \<Rightarrow> u32" where
  "owner_of im ids over idx = (if 0 < over then word_of_int over
     else sqfs_swapin32 (table_array (fs_id_table im) ids (unat idx)))"

lemma sqfs_stat_fields:
  assumes ids: "table_holds (ev_img E) (fs_id_table (ev_img E)) ids" "tb_each (fs_id_table (ev_img E)) = 4"
    and idx: "unat (bi_uid (in_base inode)) < tb_count (fs_id_table (ev_img E))"
      "unat (bi_guid (in_base inode)) < tb_count (fs_id_table (ev_img E))"
    and st: "stat_xtra makedev inode (stat_zero\<lparr>st_mode := in_mode inode, st_nlink := in_nlink inode,
        st_mtime := uint (bi_mtime (in_base inode)), st_ctime := uint (bi_mtime (in_base inode)),
        st_atime := uint (bi_mtime (in_base inode))\<rparr>) = Ok st"
  shows "yields E M (sqfs_stat makedev inode) (Ok (st\<lparr>st_blksize := uint (sb_block_size (fs_sb (ev_img E))),
    st_uid := owner_of (ev_img E) ids (fs_uid (ev_img E)) (bi_uid (in_base inode)),
    st_gid := owner_of (ev_img E) ids (fs_gid (ev_img E)) (bi_guid (in_base inode))\<rparr>))"
proof (rule implementsI)
  fix s assume s: "fs_clean E M s"
  then have im: "fs_img s = ev_img E" by (simp add: fs_inv_def)
  have f: "fs_uid s = fs_uid (ev_img E)" "fs_gid s = fs_gid (ev_img E)" "fs_sb s = fs_sb (ev_img E)"
    using fs_img_fields(10,11,3) [of s] im by simp_all
  have id: "yields E M (if 0 < over then io_ret (word_of_int over) else sqfs_id_get i) (Ok (owner_of (ev_img E) ids over i))"
    if "unat i < tb_count (fs_id_table (ev_img E))" for over i
    using sqfs_id_get_array [OF refl ids that, of M] by (simp add: owner_of_def yields_ret)
  let ?r = "st\<lparr>st_blksize := uint (sb_block_size (fs_sb (ev_img E))),
    st_uid := owner_of (ev_img E) ids (fs_uid (ev_img E)) (bi_uid (in_base inode)),
    st_gid := owner_of (ev_img E) ids (fs_gid (ev_img E)) (bi_guid (in_base inode))\<rparr>"
  have "yields E M (io_bind (if 0 < fs_uid s then io_ret (word_of_int (fs_uid s)) else sqfs_id_get (bi_uid (in_base inode))) (\<lambda>uid.
      io_bind (if 0 < fs_gid s then io_ret (word_of_int (fs_gid s)) else sqfs_id_get (bi_guid (in_base inode))) (\<lambda>gid.
      io_ret (st\<lparr>st_blksize := uint (sb_block_size (fs_sb s)), st_uid := uid, st_gid := gid\<rparr>)))) (Ok ?r)"
    unfolding f by (intro yields_bind_Ok [OF id [OF idx(1)]] yields_bind_Ok [OF id [OF idx(2)]] yields_ret) simp
  from implementsD [OF this s] obtain r' s' where "io_bind (if 0 < fs_uid s then io_ret (word_of_int (fs_uid s)) else sqfs_id_get (bi_uid (in_base inode))) (\<lambda>uid.
      io_bind (if 0 < fs_gid s then io_ret (word_of_int (fs_gid s)) else sqfs_id_get (bi_guid (in_base inode))) (\<lambda>gid.
      io_ret (st\<lparr>st_blksize := uint (sb_block_size (fs_sb s)), st_uid := uid, st_gid := gid\<rparr>))) s = (r', s')"
    "r' = Ok ?r \<or> ev_oom E \<and> r' = Err SQFS_ERR"
    "case r' of Ok x \<Rightarrow> fs_clean E M s' | Err e \<Rightarrow> fs_safe E M s' | Fault u \<Rightarrow> True" by blast
  moreover have "sqfs_stat makedev inode s = io_bind (if 0 < fs_uid s then io_ret (word_of_int (fs_uid s)) else sqfs_id_get (bi_uid (in_base inode))) (\<lambda>uid.
      io_bind (if 0 < fs_gid s then io_ret (word_of_int (fs_gid s)) else sqfs_id_get (bi_guid (in_base inode))) (\<lambda>gid.
      io_ret (st\<lparr>st_blksize := uint (sb_block_size (fs_sb s)), st_uid := uid, st_gid := gid\<rparr>))) s"
    unfolding sqfs_stat_def Let_def st io_lift_Ok io_bind_ret by (simp only: io_bind_run [of "io_gets _"] io_gets_run prod.case res.case)
  ultimately show "\<exists>r' s'. sqfs_stat makedev inode s = (r', s') \<and> (r' = Ok ?r \<or> ev_oom E \<and> r' = Err SQFS_ERR) \<and>
      (case r' of Ok x \<Rightarrow> fs_clean E M s' | Err e \<Rightarrow> fs_safe E M s' | Fault u \<Rightarrow> True)" by simp
qed

end
