(* ===== verification/Sqfs_Blockidx.thy ===== *)
theory Sqfs_Blockidx
  imports Sqfs_Init
begin

text \<open>
  The block index of \<^verbatim>\<open>file.c\<close>. To read far into a big file the library does not walk the block
  list from its start: it keeps, per file, where every metadata block of the list lies and which data block
  belongs to its first entry, and starts there. The index is right as long as the metadata blocks of the list
  are full, except the last, which is how image builders write them. The theory shows that reading through
  the index returns the same bytes as reading without it.
\<close>

section \<open>Full metadata blocks\<close>

text \<open>The position of the \<open>j\<close>-th metadata block from the one at \<open>b\<close>, when those before it are full.\<close>

fun md_nth :: "sqfs_image \<Rightarrow> off_t \<Rightarrow> nat \<Rightarrow> off_t option" where
  "md_nth im b 0 = Some b"
| "md_nth im b (Suc j) = (case md_nth im b j of None \<Rightarrow> None
     | Some p \<Rightarrow> (case md_block_spec im p of
         Ok (d, ds) \<Rightarrow> if length d = SQUASHFS_METADATA_SIZE then Some (off_add p ds) else None
       | _ \<Rightarrow> None))"

declare md_nth.simps(2) [simp del]

text \<open>The \<open>n\<close> bytes at \<open>cur\<close> lie in full blocks, but for the last of them.\<close>

definition md_span :: "sqfs_image \<Rightarrow> sqfs_md_cursor \<Rightarrow> nat \<Rightarrow> bool" where
  "md_span im cur n \<longleftrightarrow> cur_offset cur < SQUASHFS_METADATA_SIZE \<and> 0 < n \<and>
     (\<exists>p d ds. md_nth im (cur_block cur) ((cur_offset cur + n - 1) div SQUASHFS_METADATA_SIZE) = Some p \<and>
        md_block_spec im p = Ok (d, ds) \<and> (cur_offset cur + n - 1) mod SQUASHFS_METADATA_SIZE < length d)"

text \<open>The cursor after \<open>t\<close> bytes.\<close>

definition span_cur :: "sqfs_image \<Rightarrow> sqfs_md_cursor \<Rightarrow> nat \<Rightarrow> sqfs_md_cursor" where
  "span_cur im cur t = \<lparr>cur_block = the (md_nth im (cur_block cur) ((cur_offset cur + t) div SQUASHFS_METADATA_SIZE)),
     cur_offset = (cur_offset cur + t) mod SQUASHFS_METADATA_SIZE\<rparr>"

lemma mod_le_same_div: "x div b = y div b \<Longrightarrow> x \<le> y \<Longrightarrow> x mod b \<le> y mod b" for x y b :: nat
  by (metis div_mult_mod_eq nat_add_left_cancel_le)

lemma md_nth_down: "md_nth im b j \<noteq> None \<Longrightarrow> i \<le> j \<Longrightarrow> md_nth im b i \<noteq> None"
proof (induction j)
  case (Suc j)
  then show ?case by (cases "i = Suc j") (auto simp: md_nth.simps(2) split: option.splits)
qed simp

lemma md_nth_next:
  assumes "md_nth im b (Suc j) \<noteq> None"
  shows "\<exists>p d ds. md_nth im b j = Some p \<and> md_block_spec im p = Ok (d, ds) \<and> length d = SQUASHFS_METADATA_SIZE \<and>
    md_nth im b (Suc j) = Some (off_add p ds)"
  using assms by (auto simp: md_nth.simps(2) split: option.splits res.splits prod.splits if_splits)

lemma md_read_byte:
  assumes im: "img_ok im" and cur: "cur_ok cur" and d: "md_block_spec im (cur_block cur) = Ok (d, ds)"
    and off: "cur_offset cur < length d"
  shows "md_read_spec im True cur 1 = Ok ([d ! cur_offset cur],
    if Suc (cur_offset cur) = length d then \<lparr>cur_block = off_add (cur_block cur) ds, cur_offset = 0\<rparr>
    else cur\<lparr>cur_offset := Suc (cur_offset cur)\<rparr>)"
proof -
  have len: "length d \<le> 32768" by (rule md_block_spec_size [OF im d])
  have "md_tk d cur 1 = 1" using off len by (auto simp: md_tk_def Let_def)
  moreover from this have "md_move d ds cur 1 = (if Suc (cur_offset cur) = length d
      then \<lparr>cur_block = off_add (cur_block cur) ds, cur_offset = 0\<rparr> else cur\<lparr>cur_offset := Suc (cur_offset cur)\<rparr>)"
    using off len by (simp add: md_move_def Let_def)
  moreover have "take 1 (drop (cur_offset cur) d) = [d ! cur_offset cur]" using off by (simp add: take_Suc_conv_app_nth)
  ultimately show ?thesis using md_read_spec_unfold [OF im cur, of 1 True] d off by simp
qed

text \<open>One byte further.\<close>

lemma span_cur_Suc:
  assumes im: "img_ok im" and sp: "md_span im cur n" and t: "Suc t < n" and ok: "cur_ok (span_cur im cur t)"
  shows "\<exists>b. md_read_spec im True (span_cur im cur t) 1 = Ok ([b], span_cur im cur (Suc t))"
proof -
  let ?B = "SQUASHFS_METADATA_SIZE" and ?o = "cur_offset cur" and ?nth = "md_nth im (cur_block cur)"
  let ?j = "(?o + t) div ?B" and ?J = "(?o + n - 1) div ?B"
  from sp obtain p d ds where J: "?nth ?J = Some p" "md_block_spec im p = Ok (d, ds)" "(?o + n - 1) mod ?B < length d"
    by (auto simp: md_span_def)
  have le: "Suc (?o + t) div ?B \<le> ?J" using t by (intro div_le_mono) simp
  have le0: "?j \<le> ?J" using t by (intro div_le_mono) simp
  show ?thesis
  proof (cases "Suc (?o + t) div ?B = ?j")
    case same: True
    then have m: "Suc (?o + t) mod ?B = Suc ((?o + t) mod ?B)" by (simp add: div_Suc mod_Suc split: if_splits)
    obtain q e es where q: "?nth ?j = Some q" "md_block_spec im q = Ok (e, es)" "Suc ((?o + t) mod ?B) < length e"
    proof (cases "?j = ?J")
      case True
      have "(?o + n - 1) mod ?B \<ge> Suc (?o + t) mod ?B"
        using t same True by (intro mod_le_same_div) simp_all
      then show ?thesis using that [of p d ds] J True m by simp
    next
      case False
      then have "Suc ?j \<le> ?J" using le0 by linarith
      then have "?nth (Suc ?j) \<noteq> None" by (rule md_nth_down [rotated]) (simp only: J(1) option.distinct not_False_eq_True)
      from md_nth_next [OF this] obtain q e es where "?nth ?j = Some q" "md_block_spec im q = Ok (e, es)" "length e = ?B" by blast
      moreover have "Suc ((?o + t) mod ?B) < ?B" unfolding m [symmetric] by simp
      ultimately show ?thesis using that by simp
    qed
    have c: "span_cur im cur t = \<lparr>cur_block = q, cur_offset = (?o + t) mod ?B\<rparr>" using q(1) by (simp add: span_cur_def)
    have c': "span_cur im cur (Suc t) = \<lparr>cur_block = q, cur_offset = Suc ((?o + t) mod ?B)\<rparr>"
      using q(1) same m by (simp add: span_cur_def)
    show ?thesis using md_read_byte [OF im ok, of e es] q(2,3) unfolding c c' by auto
  next
    case False
    then have m: "Suc (?o + t) mod ?B = 0" "Suc ((?o + t) mod ?B) = ?B" "Suc (?o + t) div ?B = Suc ?j"
      by (auto simp: div_Suc mod_Suc split: if_splits)
    have "Suc ?j \<le> ?J" using le unfolding m(3) .
    then have "?nth (Suc ?j) \<noteq> None" by (rule md_nth_down [rotated]) (simp only: J(1) option.distinct not_False_eq_True)
    from md_nth_next [OF this] obtain q e es where
      q: "?nth ?j = Some q" "md_block_spec im q = Ok (e, es)" "length e = ?B" "?nth (Suc ?j) = Some (off_add q es)" by blast
    have c: "span_cur im cur t = \<lparr>cur_block = q, cur_offset = (?o + t) mod ?B\<rparr>" using q(1) by (simp add: span_cur_def)
    have c': "span_cur im cur (Suc t) = \<lparr>cur_block = off_add q es, cur_offset = 0\<rparr>"
      unfolding span_cur_def add_Suc_right m(1,3) q(4) by simp
    show ?thesis using md_read_byte [OF im ok, of e es] q(2,3) m(2) unfolding c c' by auto
  qed
qed

text \<open>Reading part of the span leaves the cursor there.\<close>

lemma span_cur_holds:
  assumes im: "img_ok im" and cur: "cur_ok cur" and sp: "md_span im cur n"
    and bs: "md_holds im cur bs c" "length bs = n"
  shows "t < n \<Longrightarrow> md_holds im cur (take t bs) (span_cur im cur t)"
proof (induction t)
  case 0
  have "span_cur im cur 0 = cur" using sp by (simp add: span_cur_def md_span_def)
  then show ?case using ms.holds_Nil [of im cur] im cur by simp
next
  case (Suc t)
  then have IH: "md_holds im cur (take t bs) (span_cur im cur t)" by simp
  have ok: "cur_ok (span_cur im cur t)" using ms.holds_ok [OF _ IH] im cur by simp
  from span_cur_Suc [OF im sp Suc.prems ok] obtain b where
    b: "md_read_spec im True (span_cur im cur t) 1 = Ok ([b], span_cur im cur (Suc t))" by blast
  have "bs = take t bs @ bs ! t # drop (Suc t) bs" using Suc.prems bs(2) by (simp add: id_take_nth_drop)
  then obtain c1 c2 where c: "md_holds im cur (take t bs) c1" "md_holds im c1 [bs ! t] c2"
    using ms.holds_append [of im cur "take t bs" "bs ! t # drop (Suc t) bs" c] bs(1)
      ms.holds_append [of im _ "[bs ! t]" "drop (Suc t) bs" c] im cur ms.holds_ok by (metis append_Cons append_Nil)
  have c1: "c1 = span_cur im cur t" by (rule ms.holds_det [OF c(1) IH])
  with c(2) b have "b = bs ! t" "c2 = span_cur im cur (Suc t)" by (simp_all add: ms.holds_def)
  then have "md_holds im (span_cur im cur t) [bs ! t] (span_cur im cur (Suc t))" using c(2) c1 by simp
  then have "md_holds im cur (take t bs @ [bs ! t]) (span_cur im cur (Suc t))"
    using ms.holds_append [of im cur] im cur IH by blast
  then show ?case using Suc.prems bs(2) by (simp add: take_Suc_conv_app_nth)
qed

section \<open>Entries and metadata blocks\<close>

text \<open>With \<open>q\<close> whole entries before the list in its first metadata block, entry \<open>i\<close> starts in block
  \<open>(q + i) div 2048\<close>.\<close>

lemma entry_block:
  fixes off i :: nat
  shows "(off + 4 * i) div SQUASHFS_METADATA_SIZE = (off div 4 + i) div 2048"
    and "(off + 4 * i) mod SQUASHFS_METADATA_SIZE < 4 \<longleftrightarrow> (off div 4 + i) mod 2048 = 0"
    and "(off + 4 * i) mod SQUASHFS_METADATA_SIZE = 4 * ((off div 4 + i) mod 2048) + off mod 4"
proof -
  have b: "(8192 :: nat) = 4 * 2048" by simp
  have d: "(off + 4 * i) div 4 = off div 4 + i" "(off + 4 * i) mod 4 = off mod 4" by simp_all
  show "(off + 4 * i) div SQUASHFS_METADATA_SIZE = (off div 4 + i) div 2048"
    unfolding b div_mult2_eq d ..
  show m: "(off + 4 * i) mod SQUASHFS_METADATA_SIZE = 4 * ((off div 4 + i) mod 2048) + off mod 4"
    unfolding b mod_mult2_eq d ..
  have "off mod 4 < 4" by simp
  then show "(off + 4 * i) mod SQUASHFS_METADATA_SIZE < 4 \<longleftrightarrow> (off div 4 + i) mod 2048 = 0"
    unfolding m by linarith
qed

lemma entry_block_last:
  assumes "1 \<le> m" and "2048 * m < off div 4 + n"
  shows "m \<le> (off + 4 * n - 1) div SQUASHFS_METADATA_SIZE"
proof -
  have "8192 * m \<le> off + 4 * n - 1" using assms(2) by linarith
  then show ?thesis using div_le_mono [of "8192 * m" _ 8192] by simp
qed

section \<open>What the index holds\<close>

definition index_entry :: "sqfs_image \<Rightarrow> sqfs_inode \<Rightarrow> u64 \<Rightarrow> u32 list \<Rightarrow> nat \<Rightarrow> sqfs_blockidx_entry" where
  "index_entry im inode st hs m =
     \<lparr>bx_data_block = block_addr st hs (2048 * m - cur_offset (in_next inode) div 4),
      bx_md_block = ucast (u64_of_off (the (md_nth im (cur_block (in_next inode)) m)) - sb_inode_table_start (fs_sb im))\<rparr>"

text \<open>The entries of the metadata blocks that start before list entry \<open>i\<close>.\<close>

definition index_upto :: "sqfs_image \<Rightarrow> sqfs_inode \<Rightarrow> u64 \<Rightarrow> u32 list \<Rightarrow> nat \<Rightarrow> sqfs_blockidx_entry option list \<Rightarrow> bool" where
  "index_upto im inode st hs i xs \<longleftrightarrow>
     length xs = (cur_offset (in_next inode) + 4 * length hs - 1) div SQUASHFS_METADATA_SIZE \<and>
     (\<forall>m. 1 \<le> m \<longrightarrow> 2048 * m < cur_offset (in_next inode) div 4 + i \<longrightarrow>
        m \<le> length xs \<and> xs ! (m - 1) = Some (index_entry im inode st hs m))"

abbreviation index_holds :: "sqfs_image \<Rightarrow> sqfs_inode \<Rightarrow> u64 \<Rightarrow> u32 list \<Rightarrow> sqfs_blockidx_entry option list \<Rightarrow> bool" where
  "index_holds im inode st hs \<equiv> index_upto im inode st hs (length hs)"

lemma index_upto_skip:
  assumes "index_upto im inode st hs i xs" and "(cur_offset (in_next inode) div 4 + i) mod 2048 \<noteq> 0 \<or> i = 0"
    and "cur_offset (in_next inode) < SQUASHFS_METADATA_SIZE"
  shows "index_upto im inode st hs (Suc i) xs"
proof -
  let ?q = "cur_offset (in_next inode) div 4"
  have "2048 * m < ?q + i" if m: "1 \<le> m" "2048 * m < ?q + Suc i" for m
  proof -
    have "2048 * m \<noteq> ?q + i"
    proof (cases "i = 0")
      case True
      then show ?thesis using assms(3) m(1) by simp
    next
      case False
      then show ?thesis using assms(2) by (metis mod_mult_self1_is_0)
    qed
    then show ?thesis using m(2) by simp
  qed
  then show ?thesis using assms(1) unfolding index_upto_def by blast
qed

lemma index_upto_store:
  assumes "index_upto im inode st hs i xs" and m: "cur_offset (in_next inode) div 4 + i = 2048 * m" "1 \<le> m" "m \<le> length xs"
  shows "index_upto im inode st hs (Suc i) (xs[m - 1 := Some (index_entry im inode st hs m)])"
  unfolding index_upto_def
proof (intro conjI allI impI)
  fix k assume k: "1 \<le> k" "2048 * k < cur_offset (in_next inode) div 4 + Suc i"
  have "k = m \<or> k - 1 \<noteq> m - 1 \<and> 2048 * k < cur_offset (in_next inode) div 4 + i" using k m by linarith
  then show "k \<le> length (xs[m - 1 := Some (index_entry im inode st hs m)])"
    "xs[m - 1 := Some (index_entry im inode st hs m)] ! (k - 1) = Some (index_entry im inode st hs k)"
    using assms(1) m(2,3) k(1) by (auto simp: index_upto_def)
qed (use assms(1) in \<open>simp add: index_upto_def\<close>)

lemma index_upto_done:
  assumes "index_upto im inode st hs i xs" and "length xs \<le> (cur_offset (in_next inode) div 4 + i - 1) div 2048"
  shows "index_holds im inode st hs xs"
proof -
  let ?q = "cur_offset (in_next inode) div 4"
  have "2048 * m < ?q + i" if m: "1 \<le> m" "2048 * m < ?q + length hs" for m
  proof -
    have "m \<le> length xs" using entry_block_last [OF m] assms(1) by (simp add: index_upto_def)
    then have "m \<le> (?q + i - 1) div 2048" using assms(2) by linarith
    then have "2048 * m \<le> ?q + i - 1" by (simp add: less_eq_div_iff_mult_less_eq)
    then show ?thesis using m(1) by linarith
  qed
  then show ?thesis using assms(1) unfolding index_upto_def by blast
qed

section \<open>Storing an entry\<close>

lemma io_bind_Ok_run: "m s = (Ok a, s') \<Longrightarrow> io_bind m f s = f a s'"
  by (simp add: io_bind_run)

lemma fs_inv_heap:
  assumes inv: "fs_inv E strict M s" and own: "heap_owned h (fs_refs s + M')" and keep: "hp_keeps (fs_refs s) (fs_heap s) h"
  shows "fs_inv E strict M' (s\<lparr>fs_heap := h\<rparr>)"
proof -
  obtain c where c: "bc_get MD_CACHE s = Some c" "bc_good E strict MD_CACHE (fs_heap s) c" using inv unfolding fs_inv_def by blast
  have refs: "fs_refs s = sc.owned block_ptr c + fs_rest MD_CACHE s" using c(1) by (simp add: fs_refs_def bc_refs_def)
  have sub: "hp_keeps (sc.owned block_ptr c) (fs_heap s) h" "hp_keeps (fs_rest MD_CACHE s) (fs_heap s) h"
    by (rule hp_keeps_mono [OF keep], simp add: refs)+
  have "fs_inv E strict M' (bc_set MD_CACHE (Some c) (s\<lparr>fs_heap := h\<rparr>))"
    using own by (intro fs_inv_change [OF inv bc_good_keeps [OF c(2) sub(1)] _ sub(2)]) (simp add: refs)
  moreover have "bc_set MD_CACHE (Some c) (s\<lparr>fs_heap := h\<rparr>) = s\<lparr>fs_heap := h\<rparr>" using c(1) by (intro bc_set_same) simp
  ultimately show ?thesis by (simp only:)
qed

lemma index_cell_alone:
  assumes "heap_owned h (add_mset a N)" and "hp_view h a = Some (Inr xs)"
  shows "a \<notin># N"
proof -
  have "hp_cells h a = Some (Index_Cell xs)" using assms(2) by (simp add: hp_view_Inr)
  then show ?thesis using heap_ownedD(1) [OF assms(1), of a] by (simp add: not_in_iff)
qed

lemma index_store_run:
  assumes inv: "fs_inv E strict (add_mset a M) s" and v: "hp_view (fs_heap s) a = Some (Inr xs)" and i: "i < length xs"
  shows "\<exists>s'. on_heap (index_store a i e) s = (Ok (), s') \<and> fs_inv E strict (add_mset a M) s' \<and>
    hp_view (fs_heap s') a = Some (Inr (xs[i := Some e])) \<and> hp_keeps M (fs_heap s) (fs_heap s')"
proof -
  let ?h = "fs_heap s" and ?c = "Some (Index_Cell (xs[i := Some e]))"
  let ?h' = "?h\<lparr>hp_cells := (hp_cells ?h)(a := ?c)\<rparr>"
  have c: "hp_cells ?h a = Some (Index_Cell xs)" using v by (simp add: hp_view_Inr)
  have own: "heap_owned ?h (add_mset a (fs_refs s + M))" using inv by (simp add: fs_inv_def)
  have notin: "a \<notin># fs_refs s + M" by (rule index_cell_alone [OF own v])
  have own': "heap_owned ?h' (fs_refs s + add_mset a M)"
    using heap_ownedD(1) [OF own, of a] c by (intro heap_owned_update_same [OF own]) simp_all
  have keep: "hp_keeps (fs_refs s + M) ?h ?h'" using notin by (auto simp: hp_keeps_def hp_view_def)
  have "hp_keeps (fs_refs s) ?h ?h'" and keepM: "hp_keeps M ?h ?h'" by (rule hp_keeps_mono [OF keep], simp)+
  from fs_inv_heap [OF inv own' this(1)] have "fs_inv E strict (add_mset a M) (s\<lparr>fs_heap := ?h'\<rparr>)" .
  moreover have "on_heap (index_store a i e) s = (Ok (), s\<lparr>fs_heap := ?h'\<rparr>)"
    using c i by (simp add: index_store_def io_simps hp_index_def hp_store_def)
  ultimately show ?thesis using keepM by (simp add: hp_view_def)
qed

section \<open>Building the index\<close>

text \<open>The heap while the index is built: \<open>Q\<close> is what the caller relies on, the array at \<open>a\<close> holds \<open>xs\<close>.\<close>

definition building :: "(heap \<Rightarrow> bool) \<Rightarrow> nat \<Rightarrow> sqfs_blockidx_entry option list \<Rightarrow> heap \<Rightarrow> bool" where
  "building Q a xs h \<longleftrightarrow> Q h \<and> hp_view h a = Some (Inr xs)"

lemma stable_building:
  assumes "stable M Q"
  shows "stable (add_mset a M) (building Q a xs)"
  unfolding stable_def building_def
proof (intro allI impI conjI)
  fix h h' assume h: "Q h \<and> hp_view h a = Some (Inr xs)" and k: "hp_keeps (add_mset a M) h h'"
  have "hp_keeps M h h'" by (rule hp_keeps_mono [OF k]) simp
  then show "Q h'" using stableD [OF assms] h by blast
  show "hp_view h' a = Some (Inr xs)" using h k by (simp add: hp_keeps_def)
qed

definition build_outcome ::
  "fs_env \<Rightarrow> nat multiset \<Rightarrow> (heap \<Rightarrow> bool) \<Rightarrow> nat \<Rightarrow> (sqfs_blockidx_entry option list \<Rightarrow> bool) \<Rightarrow> unit res \<Rightarrow> sqfs \<Rightarrow> bool" where
  "build_outcome E M Q a T r s \<longleftrightarrow>
     r = Ok () \<and> (\<exists>xs. T xs \<and> framed (fs_clean E (add_mset a M)) (building Q a xs) s) \<or>
     ev_oom E \<and> r = Err SQFS_ERR \<and> (\<exists>xs. framed (fs_safe E (add_mset a M)) (building Q a xs) s)"

text \<open>One round: record the metadata block if list entry \<open>i\<close> is the first that starts in it.\<close>

lemma blockidx_record:
  assumes Q: "stable M Q" and s: "framed (fs_clean E (add_mset a M)) (building Q a xs) s"
    and ix: "index_upto (ev_img E) inode st hs i xs" and off: "cur_offset (in_next inode) < SQUASHFS_METADATA_SIZE"
    and cur: "bl_cur bl = span_cur (ev_img E) (in_next inode) (4 * i)"
    and blk: "bl_block bl + ucast (bl_input_size bl) = block_addr st hs i"
    and more: "(cur_offset (in_next inode) div 4 + i - 1) div 2048 < length xs"
    and new: "new \<longleftrightarrow> cur_offset (bl_cur bl) < 4 \<and> i \<noteq> 0" and k: "k = (cur_offset (in_next inode) div 4 + i - 1) div 2048"
  shows "\<exists>xs' s'. (if \<not> new then io_ret () else
      io_bind (io_gets fs_sb) (\<lambda>sb.
        on_heap (index_store a k
          \<lparr>bx_data_block = bl_block bl + ucast (bl_input_size bl),
           bx_md_block = ucast (u64_of_off (cur_block (bl_cur bl)) - sb_inode_table_start sb)\<rparr>))) s = (Ok (), s') \<and>
    framed (fs_clean E (add_mset a M)) (building Q a xs') s' \<and> index_upto (ev_img E) inode st hs (Suc i) xs' \<and>
    (if new then Suc k else k) = (cur_offset (in_next inode) div 4 + Suc i - 1) div 2048"
proof -
  let ?q = "cur_offset (in_next inode) div 4"
  have q: "?q < 2048" using off by simp
  have c: "cur_offset (bl_cur bl) < 4 \<longleftrightarrow> (?q + i) mod 2048 = 0" "cur_block (bl_cur bl) = the (md_nth (ev_img E) (cur_block (in_next inode)) ((?q + i) div 2048))"
    by (simp_all only: cur span_cur_def sqfs_md_cursor.select_convs entry_block(1,2))
  show ?thesis
  proof (cases new)
    case False
    then have nn: "(?q + i) mod 2048 \<noteq> 0 \<or> i = 0" using new c(1) by blast
    have "(?q + i) div 2048 = (?q + i - 1) div 2048"
    proof (cases "i = 0")
      case True
      then show ?thesis using q by simp
    next
      case False
      then obtain x where "?q + i = Suc x" by (cases "?q + i") auto
      then show ?thesis using nn False by (auto simp: div_Suc)
    qed
    then show ?thesis using False s index_upto_skip [OF ix nn off] k by (auto simp: io_ret_run)
  next
    case True
    then have z: "(?q + i) mod 2048 = 0" "i \<noteq> 0" using new c(1) by auto
    define m where "m = (?q + i) div 2048"
    have m: "?q + i = 2048 * m" using z(1) div_mult_mod_eq [of "?q + i" 2048] by (simp add: m_def)
    then have m1: "1 \<le> m" using z(2) by (cases m) auto
    have "?q + i - 1 = 2047 + 2048 * (m - 1)" using m m1 by linarith
    then have k': "k = m - 1" using k by simp
    have lt: "k < length xs" using more k by simp
    let ?e = "\<lparr>bx_data_block = bl_block bl + ucast (bl_input_size bl),
           bx_md_block = ucast (u64_of_off (cur_block (bl_cur bl)) - sb_inode_table_start (fs_sb (ev_img E)))\<rparr>"
    have i: "2048 * m - ?q = i" using m by linarith
    have e: "?e = index_entry (ev_img E) inode st hs m"
      unfolding index_entry_def i blk c(2) m_def [symmetric] by (rule refl)
    have inv: "fs_clean E (add_mset a M) s" and v: "hp_view (fs_heap s) a = Some (Inr xs)" and Qs: "Q (fs_heap s)"
      using s by (simp_all add: framed_def building_def)
    from index_store_run [OF inv v lt, of ?e] obtain s' where
      s': "on_heap (index_store a k ?e) s = (Ok (), s')" "fs_clean E (add_mset a M) s'"
        "hp_view (fs_heap s') a = Some (Inr (xs[k := Some ?e]))" "hp_keeps M (fs_heap s) (fs_heap s')" by blast
    have sb: "fs_sb s = fs_sb (ev_img E)" using inv by (metis fs_inv_def fs_img_fields(3))
    have "index_upto (ev_img E) inode st hs (Suc i) (xs[m - 1 := Some (index_entry (ev_img E) inode st hs m)])"
      by (rule index_upto_store [OF ix m m1]) (use lt k' m1 in simp)
    moreover have "Suc k = (?q + Suc i - 1) div 2048" using k' m m1 by simp
    ultimately show ?thesis using True s' e k' sb stableD [OF Q Qs s'(4)]
      by (intro exI [of _ "xs[k := Some ?e]"] exI [of _ s']) (simp add: io_simps framed_def building_def)
  qed
qed

lemma blockidx_loop_builds:
  assumes im: "img_ok (ev_img E)" and Q: "stable M Q" and cur: "cur_ok (in_next inode)"
    and sp: "md_span (ev_img E) (in_next inode) (4 * length hs)"
    and bytes: "md_holds (ev_img E) (in_next inode) (concat (map (le_bytes 4) hs)) c"
    and bs: "bs = unat (sb_block_size (fs_sb (ev_img E)))"
    and cnt: "cnt = (cur_offset (in_next inode) + 4 * length hs - 1) div SQUASHFS_METADATA_SIZE"
  shows "i \<le> length hs \<Longrightarrow> bl_at (ev_img E) bs st hs i bl \<Longrightarrow>
    md_holds (ev_img E) (in_next inode) (concat (map (le_bytes 4) (take i hs))) (bl_cur bl) \<Longrightarrow>
    index_upto (ev_img E) inode st hs i xs \<Longrightarrow> framed (fs_clean E (add_mset a M)) (building Q a xs) s \<Longrightarrow>
    k = (cur_offset (in_next inode) div 4 + i - 1) div 2048 \<Longrightarrow>
    \<exists>r s'. blockidx_loop (length hs - i) a cnt k (i = 0) bl s = (r, s') \<and>
      build_outcome E M Q a (index_holds (ev_img E) inode st hs) r s'"
proof (induction "length hs - i" arbitrary: i bl xs s k)
  case 0
  then have "bl_remain bl = 0" "i = length hs" by (simp_all add: bl_at_def)
  then show ?case using 0 by (auto simp: blockidx_loop.simps [of 0] io_simps build_outcome_def)
next
  case (Suc n)
  have i: "i < length hs" using Suc(2) by simp
  have rem: "bl_remain bl \<noteq> 0" using Suc(4) i by (simp add: bl_at_def)
  have len: "length xs = cnt" using Suc(6) cnt by (simp add: index_upto_def)
  have off: "cur_offset (in_next inode) < SQUASHFS_METADATA_SIZE" using sp by (simp add: md_span_def)
  show ?case
  proof (cases "cnt \<le> k")
    case True
    then have "index_holds (ev_img E) inode st hs xs" using index_upto_done [OF Suc(6)] len Suc(8) by simp
    then show ?thesis using True Suc(2) Suc(7) by (auto simp: blockidx_loop.simps [of "length hs - i"] io_simps build_outcome_def)
  next
    case False
    have l4: "length (concat (map (le_bytes 4) ys)) = 4 * length ys" for ys :: "u32 list" by (induction ys) simp_all
    have tk: "take (4 * i) (concat (map (le_bytes 4) hs)) = concat (map (le_bytes 4) (take i hs))"
    proof -
      have "concat (map (le_bytes 4) hs) = concat (map (le_bytes 4) (take i hs)) @ concat (map (le_bytes 4) (drop i hs))"
        by (metis append_take_drop_id concat_append map_append)
      then show ?thesis using l4 [of "take i hs"] i by simp
    qed
    have bc: "bl_cur bl = span_cur (ev_img E) (in_next inode) (4 * i)"
      using span_cur_holds [OF im cur sp bytes, of "4 * i"] l4 [of hs] i Suc(5) unfolding tk
      by (auto intro: ms.holds_det)
    have blk: "bl_block bl + ucast (bl_input_size bl) = block_addr st hs i" using Suc(4) by (simp add: bl_at_def)
    have lt: "(cur_offset (in_next inode) div 4 + i - 1) div 2048 < length xs" using False Suc(8) len by simp
    define new where "new \<longleftrightarrow> cur_offset (bl_cur bl) < 4 \<and> i \<noteq> 0"
    from blockidx_record [OF Q Suc(7,6) off bc blk lt new_def Suc(8)] obtain xs' s1 where
      1: "(if \<not> new then io_ret () else
      io_bind (io_gets fs_sb) (\<lambda>sb.
        on_heap (index_store a k
          \<lparr>bx_data_block = bl_block bl + ucast (bl_input_size bl),
           bx_md_block = ucast (u64_of_off (cur_block (bl_cur bl)) - sb_inode_table_start sb)\<rparr>))) s = (Ok (), s1)"
        "framed (fs_clean E (add_mset a M)) (building Q a xs') s1" "index_upto (ev_img E) inode st hs (Suc i) xs'"
        "(if new then Suc k else k) = (cur_offset (in_next inode) div 4 + Suc i - 1) div 2048" by blast
    from sqfs_blocklist_next_frame [OF stable_building [OF Q, of a xs'] im Suc(4) i bs] obtain bl' where
      2: "implements (ev_oom E) (framed (fs_clean E (add_mset a M)) (building Q a xs'))
          (framed (fs_safe E (add_mset a M)) (building Q a xs')) (sqfs_blocklist_next bl) (Ok bl')"
        "md_holds (ev_img E) (bl_cur bl) (le_bytes 4 (hs ! i)) (bl_cur bl')" "bl_at (ev_img E) bs st hs (Suc i) bl'" by blast
    have m: "length hs - i = Suc (length hs - Suc i)" "n = length hs - Suc i" using Suc(2) i by simp_all
    have run: "blockidx_loop (length hs - i) a cnt k (i = 0) bl s =
        io_bind (sqfs_blocklist_next bl) (\<lambda>bl'. blockidx_loop (length hs - Suc i) a cnt (if new then Suc k else k) False bl') s1"
    proof -
      have step: "blockidx_loop (length hs - i) a cnt k (i = 0) bl = io_bind (if \<not> new then io_ret () else
        io_bind (io_gets fs_sb) (\<lambda>sb.
        on_heap (index_store a k
          \<lparr>bx_data_block = bl_block bl + ucast (bl_input_size bl),
           bx_md_block = ucast (u64_of_off (cur_block (bl_cur bl)) - sb_inode_table_start sb)\<rparr>))) (\<lambda>_.
        io_bind (sqfs_blocklist_next bl) (\<lambda>bl'. blockidx_loop (length hs - Suc i) a cnt (if new then Suc k else k) False bl'))"
        using rem False unfolding m(1) blockidx_loop.simps [of "Suc _"] Let_def new_def by simp
      show ?thesis unfolding step by (rule io_bind_Ok_run) (rule 1(1))
    qed
    obtain r1 s2 where r1: "sqfs_blocklist_next bl s1 = (r1, s2)" "r1 = Ok bl' \<or> ev_oom E \<and> r1 = Err SQFS_ERR"
      "case r1 of Ok x \<Rightarrow> framed (fs_clean E (add_mset a M)) (building Q a xs') s2
       | Err e \<Rightarrow> framed (fs_safe E (add_mset a M)) (building Q a xs') s2 | Fault u \<Rightarrow> True"
      using implementsD [OF 2(1) 1(2)] by metis
    show ?thesis
    proof (cases "r1 = Ok bl'")
      case True
      have "md_holds (ev_img E) (in_next inode) (concat (map (le_bytes 4) (take (Suc i) hs))) (bl_cur bl')"
        using ms.holds_append [of "ev_img E" "in_next inode"] im cur Suc(5) 2(2) i by (auto simp: take_Suc_conv_app_nth)
      from Suc(1) [OF m(2) _ 2(3) this 1(3) _ 1(4), of s2] True r1(3) i show ?thesis
        unfolding run by (simp add: io_bind_run r1(1))
    next
      case False
      then have "ev_oom E" "r1 = Err SQFS_ERR" using r1(2) by auto
      then show ?thesis using r1(1,3) unfolding run by (auto simp: io_bind_run build_outcome_def)
    qed
  qed
qed

section \<open>Calls that do not look at the index cache\<close>

text \<open>While the index is built, its slot in the cache is taken but not filled. Building reads metadata
  only, which does not depend on that cache, so it may be followed in a state with another cache.\<close>

definition ix_blind :: "(sqfs, 'a) io \<Rightarrow> bool" where
  "ix_blind m \<longleftrightarrow> (\<forall>s c. m (s\<lparr>fs_blockidx := c\<rparr>) = (case m s of (r, s') \<Rightarrow> (r, s'\<lparr>fs_blockidx := c\<rparr>)))"

named_theorems blind \<open>calls that do not look at the index cache\<close>

lemma ix_blindD: "ix_blind m \<Longrightarrow> m s = (r, s') \<Longrightarrow> m (s\<lparr>fs_blockidx := c\<rparr>) = (r, s'\<lparr>fs_blockidx := c\<rparr>)"
  by (simp add: ix_blind_def)

lemma blind_basic [blind]:
  "ix_blind (io_ret a)" "ix_blind (io_raise e)" "ix_blind (io_fault u)" "ix_blind (io_lift q)" "ix_blind (on_heap h)"
  by (auto simp: ix_blind_def io_simps split: prod.splits)

lemma blind_gets: "(\<And>s c. f (s\<lparr>fs_blockidx := c\<rparr>) = f s) \<Longrightarrow> ix_blind (io_gets f)"
  by (simp add: ix_blind_def io_simps)

lemma blind_bind [blind]: "ix_blind m \<Longrightarrow> (\<And>a. ix_blind (f a)) \<Longrightarrow> ix_blind (io_bind m f)"
  unfolding ix_blind_def io_bind_run by (auto split: prod.splits res.splits)

lemma blind_try [blind]: "ix_blind m \<Longrightarrow> (\<And>x. ix_blind (f x)) \<Longrightarrow> ix_blind (io_try m f)"
  unfolding ix_blind_def io_try_run by (auto split: prod.splits res.splits)

lemma blind_if [blind]: "ix_blind m \<Longrightarrow> ix_blind n \<Longrightarrow> ix_blind (if b then m else n)"
  by simp

lemma blind_cases [blind]:
  "ix_blind m \<Longrightarrow> (\<And>x. ix_blind (f x)) \<Longrightarrow> ix_blind (case_option m f o')"
  "(\<And>x. ix_blind (g x)) \<Longrightarrow> (\<And>y. ix_blind (k y)) \<Longrightarrow> ix_blind (case_sum g k q)"
  "(\<And>x y. ix_blind (l x y)) \<Longrightarrow> ix_blind (case_prod l p)"
  by (auto split: option.split sum.split prod.split)

lemma bc_other [simp]: "bc_get w (s\<lparr>fs_blockidx := c\<rparr>) = bc_get w s"
  "bc_set w x (s\<lparr>fs_blockidx := c\<rparr>) = (bc_set w x s)\<lparr>fs_blockidx := c\<rparr>"
  by (cases w; simp)+

lemma blind_cache [blind]: "ix_blind (bc_lookup w k)" "ix_blind (bc_reads w f)" "ix_blind (bc_changes w g)"
proof -
  have "bc_set w x (s\<lparr>fs_blockidx := c, fs_heap := h\<rparr>) = (bc_set w x (s\<lparr>fs_heap := h\<rparr>))\<lparr>fs_blockidx := c\<rparr>" for x s c h
    by (cases w) simp_all
  then show "ix_blind (bc_lookup w k)"
    by (auto simp: ix_blind_def bc_lookup_def io_simps split: prod.splits)
qed (auto simp: ix_blind_def bc_reads_def bc_changes_def split: option.splits res.splits)

lemma blind_block_read [blind]: "ix_blind (sqfs_block_read pos compressed sz outsize)"
  unfolding sqfs_block_read_def block_fill_def by (intro blind blind_gets | simp)+

lemma blind_md_cache [blind]: "ix_blind (sqfs_md_cache pos)"
  unfolding sqfs_md_cache_def sqfs_md_block_read_def block_ref_of_def Let_def by (intro blind blind_gets | simp)+

lemma blind_md_read_loop [blind]: "ix_blind (md_read_loop fuel buf cur n)"
proof (induction fuel arbitrary: cur n)
  case 0
  show ?case by (cases n) (simp_all add: blind)
next
  case (Suc fuel)
  show ?case
  proof (cases n)
    case (Suc m)
    show ?thesis unfolding Suc md_read_loop.simps Let_def by (intro blind Suc.IH)
  qed (simp add: blind)
qed

lemma blind_blocklist_next [blind]: "ix_blind (sqfs_blocklist_next bl)"
  unfolding sqfs_blocklist_next_def sqfs_md_read_def Let_def by (intro blind blind_gets | simp)+

lemma blind_blockidx_loop [blind]: "ix_blind (blockidx_loop fuel a cnt i first bl)"
proof (induction fuel arbitrary: i first bl)
  case 0
  show ?case unfolding blockidx_loop.simps [of 0] by (intro blind | simp)+
next
  case (Suc fuel)
  show ?case unfolding blockidx_loop.simps [of "Suc fuel"] Let_def nat.case
    by (intro blind blind_gets Suc) simp
qed

section \<open>Adding an index\<close>

text \<open>What an image builder guarantees of a file whose list is long enough to be indexed, and what the
  environment says of its index.\<close>

definition indexable :: "fs_env \<Rightarrow> sqfs_inode \<Rightarrow> u64 \<Rightarrow> u32 list \<Rightarrow> bool" where
  "indexable E inode st hs \<longleftrightarrow> md_span (ev_img E) (in_next inode) (4 * length hs) \<and> length hs < 2 ^ 60 \<and>
     bi_inode_number (in_base inode) + 1 \<noteq> 0 \<and>
     ev_idx E (ucast (bi_inode_number (in_base inode) + 1)) = index_holds (ev_img E) inode st hs \<and>
     (\<forall>m p. md_nth (ev_img E) (cur_block (in_next inode)) m = Some p \<longrightarrow>
        u64_of_off p - sb_inode_table_start (fs_sb (ev_img E)) < 2 ^ 32)"

lemma index_count:
  assumes "off < SQUASHFS_METADATA_SIZE" and "n < 2 ^ 60" and "0 < n"
  shows "size_sub (size_add off (size_mul n 4)) 1 div SQUASHFS_METADATA_SIZE = (off + 4 * n - 1) div SQUASHFS_METADATA_SIZE"
proof -
  have "size_mul n 4 = 4 * n" "size_add off (4 * n) = off + 4 * n" using assms by (simp_all add: size_mul_def size_add_def)
  moreover have "size_sub (off + 4 * n) 1 = off + 4 * n - 1" using assms by simp
  ultimately show ?thesis by simp
qed

definition add_outcome ::
  "fs_env \<Rightarrow> nat multiset \<Rightarrow> (heap \<Rightarrow> bool) \<Rightarrow> (sqfs_blockidx_entry option list \<Rightarrow> bool) \<Rightarrow> nat res \<Rightarrow> sqfs \<Rightarrow> bool" where
  "add_outcome E M Q T r s \<longleftrightarrow> (case r of
     Ok a \<Rightarrow> \<exists>xs. T xs \<and> framed (fs_clean E (add_mset a M)) (building Q a xs) s
   | Err e \<Rightarrow> ev_oom E \<and> e = SQFS_ERR \<and> framed (fs_safe E M) Q s
   | Fault u \<Rightarrow> False)"

lemma blockidx_add_run:
  assumes im: "img_ok (ev_img E)" and h: "file_holds E inode hs ds tail" and x: "in_xtra inode = X_Reg st fsz fidx foff"
    and ix: "indexable E inode st hs" and Q: "stable M Q" and s: "framed (fs_clean E M) Q s"
  shows "\<exists>r s'. sqfs_blockidx_add inode s = (r, s') \<and> add_outcome E M Q (index_holds (ev_img E) inode st hs) r s'"
proof -
  let ?off = "cur_offset (in_next inode)" and ?n = "length hs" and ?bs = "unat (sb_block_size (fs_sb (ev_img E)))"
  let ?cnt = "(?off + 4 * ?n - 1) div SQUASHFS_METADATA_SIZE"
  have cl: "fs_clean E M s" and Qs: "Q (fs_heap s)" using s by (simp_all add: framed_def)
  have f: "sqfs_blocklist_count (fs_sb (ev_img E)) inode = Ok ?n" "cur_ok (in_next inode)" using h x by (auto simp: file_holds_def Let_def)
  from h obtain c where c: "md_holds (ev_img E) (in_next inode) (concat (map (le_bytes 4) hs)) c" by (auto simp: file_holds_def)
  have sp: "md_span (ev_img E) (in_next inode) (4 * ?n)" and big: "?n < 2 ^ 60" using ix by (simp_all add: indexable_def)
  then have off: "?off < SQUASHFS_METADATA_SIZE" "0 < ?n" by (simp_all add: md_span_def)
  have sb: "fs_sb t = fs_sb (ev_img E)" if "fs_inv E strict N t" for strict N t using that by (metis fs_inv_def fs_img_fields(3))
  let ?h1 = "(fs_heap s)\<lparr>hp_mallocs := Suc (hp_mallocs (fs_heap s))\<rparr>" and ?xs = "replicate ?cnt None"
  let ?s1 = "s\<lparr>fs_heap := ?h1\<rparr>"
  have cl1: "fs_clean E M ?s1" by (rule fs_inv_mallocs [OF cl])
  then have own1: "heap_owned ?h1 (fs_refs s + M)" by (simp add: fs_inv_def fs_refs_def)
  have keep1: "hp_keeps M (fs_heap s) ?h1" by (simp add: hp_keeps_def)
  have Q1: "Q ?h1" by (rule stableD [OF Q Qs keep1])
  show ?thesis
  proof (cases "hp_malloc_ok (fs_heap s) (hp_mallocs (fs_heap s))")
    case False
    then have "ev_oom E" using cl by (auto simp: fs_inv_def ev_oom_def)
    moreover have "sqfs_blockidx_add inode s = (Err SQFS_ERR, ?s1)"
      using False f(1) sb [OF cl] by (simp add: sqfs_blockidx_add_def io_simps Let_def hp_malloc_run)
    ultimately show ?thesis using fs_clean_safe [OF cl1] Q1 by (auto simp: add_outcome_def framed_def)
  next
    case True
    from hp_new_index [OF own1, of ?xs] obtain h2 where
      h2: "hp_new (Index_Cell ?xs) ?h1 = (Ok (hp_brk (fs_heap s)), h2)" "heap_owned h2 (add_mset (hp_brk (fs_heap s)) (fs_refs s + M))"
        "hp_view h2 = (hp_view ?h1)(hp_brk (fs_heap s) \<mapsto> Inr ?xs)" "hp_view ?h1 (hp_brk (fs_heap s)) = None" "hp_malloc_ok h2 = hp_malloc_ok ?h1" by auto
    let ?a = "hp_brk (fs_heap s)" and ?s2 = "s\<lparr>fs_heap := h2\<rparr>"
    have "?a \<notin># fs_refs s + M" using heap_owned_live [OF own1, of ?a] h2(4) by (simp add: hp_view_None [symmetric] del: hp_view_None)
    then have keep2: "hp_keeps (fs_refs s + M) ?h1 h2" using h2(3,5) by (auto simp: hp_keeps_def)
    have kM: "hp_keeps M ?h1 h2" and kR: "hp_keeps (fs_refs s) ?h1 h2" by (rule hp_keeps_mono [OF keep2], simp)+
    have kR': "hp_keeps (fs_refs s) (fs_heap s) h2" using kR by (simp add: hp_keeps_def)
    have cl2: "fs_clean E (add_mset ?a M) ?s2" by (rule fs_inv_heap [OF cl _ kR']) (use h2(2) in simp)
    have fr2: "framed (fs_clean E (add_mset ?a M)) (building Q ?a ?xs) ?s2"
      using cl2 stableD [OF Q Q1 kM] h2(3) by (simp add: framed_def building_def)
    from sqfs_blocklist_init_at [OF h x refl, of "add_mset ?a M"] obtain bl where
      bl: "yields E (add_mset ?a M) (sqfs_blocklist_init inode) (Ok bl)" "bl_at (ev_img E) ?bs st hs 0 bl" "bl_remain bl = ?n"
        "bl_cur bl = in_next inode" by blast
    have init: "sqfs_blocklist_init inode ?s2 = (Ok bl, ?s2)"
    proof -
      have "\<exists>b. sqfs_blocklist_init inode ?s2 = (Ok b, ?s2)"
        using f(1) x sb [OF cl2] by (simp add: sqfs_blocklist_init_def io_simps)
      then obtain b where b: "sqfs_blocklist_init inode ?s2 = (Ok b, ?s2)" by blast
      then have "b = bl" using bl(1) cl2 by (auto elim: implementsD)
      then show ?thesis using b by simp
    qed
    have up: "index_upto (ev_img E) inode st hs 0 ?xs" using off(1) by (auto simp: index_upto_def)
    have "md_holds (ev_img E) (in_next inode) (concat (map (le_bytes 4) (take 0 hs))) (bl_cur bl)"
      using ms.holds_Nil [of "ev_img E" "in_next inode"] im f(2) bl(4) by simp
    from blockidx_loop_builds [OF im Q f(2) sp c refl refl _ bl(2) this up fr2, of 0] off(1) obtain r s3 where
      r: "blockidx_loop ?n ?a ?cnt 0 True bl ?s2 = (r, s3)" "build_outcome E M Q ?a (index_holds (ev_img E) inode st hs) r s3"
      by auto
    have run: "sqfs_blockidx_add inode s = io_try (blockidx_loop ?n ?a ?cnt 0 True bl) (\<lambda>x. case x of
         Inl e \<Rightarrow> io_bind (on_heap (hp_free ?a)) (\<lambda>_. io_raise SQFS_ERR) | Inr _ \<Rightarrow> io_ret ?a) ?s2"
      using True f(1) sb [OF cl] h2(1) init bl(3) index_count [OF off(1) big off(2)]
      by (simp add: sqfs_blockidx_add_def io_bind_run io_gets_run io_lift_run Let_def hp_malloc_run on_heap_run)
    show ?thesis
    proof (cases "r = Ok ()")
      case True
      then show ?thesis using r unfolding run by (auto simp: io_simps build_outcome_def add_outcome_def)
    next
      case False
      then obtain xs where e: "ev_oom E" "r = Err SQFS_ERR" "fs_safe E (add_mset ?a M) s3" "Q (fs_heap s3)"
        "hp_view (fs_heap s3) ?a = Some (Inr xs)" using r(2) by (auto simp: build_outcome_def framed_def building_def)
      have own3: "heap_owned (fs_heap s3) (add_mset ?a (fs_refs s3 + M))" using e(3) by (simp add: fs_inv_def)
      from hp_free_index_owned [OF own3 e(5)] obtain h4 where
        h4: "hp_free ?a (fs_heap s3) = (Ok (), h4)" "heap_owned h4 (fs_refs s3 + M)"
          "hp_view h4 = (hp_view (fs_heap s3))(?a := None)" "hp_malloc_ok h4 = hp_malloc_ok (fs_heap s3)" by blast
      have "?a \<notin># fs_refs s3 + M" by (rule index_cell_alone [OF own3 e(5)])
      then have k4: "hp_keeps (fs_refs s3 + M) (fs_heap s3) h4" using h4(3,4) by (auto simp: hp_keeps_def)
      have "hp_keeps M (fs_heap s3) h4" "hp_keeps (fs_refs s3) (fs_heap s3) h4" by (rule hp_keeps_mono [OF k4], simp)+
      then have "fs_safe E M (s3\<lparr>fs_heap := h4\<rparr>)" "Q h4" using fs_inv_heap [OF e(3) h4(2)] stableD [OF Q e(4)] by blast+
      then show ?thesis using e r(1) h4(1) unfolding run by (simp add: io_simps add_outcome_def framed_def)
    qed
  qed
qed

section \<open>Fetching the index through its cache\<close>

lemma blind_blockidx_add [blind]: "ix_blind (sqfs_blockidx_add inode)"
proof -
  have "ix_blind (sqfs_blocklist_init inode)"
    unfolding sqfs_blocklist_init_def by (cases "in_xtra inode"; simp; intro blind blind_gets; simp)
  then show ?thesis unfolding sqfs_blockidx_add_def Let_def by (intro blind blind_gets) simp_all
qed

lemma blind_keeps:
  assumes "ix_blind m" and "m s = (r, s')"
  shows "fs_blockidx s' = fs_blockidx s"
proof -
  have "m (s\<lparr>fs_blockidx := fs_blockidx s\<rparr>) = (r, s'\<lparr>fs_blockidx := fs_blockidx s\<rparr>)" by (rule ix_blindD [OF assms])
  then have "s' = s'\<lparr>fs_blockidx := fs_blockidx s\<rparr>" using assms(2) by simp
  from arg_cong [OF this, of fs_blockidx] show ?thesis by simp
qed

text \<open>The references of the block caches.\<close>

definition block_refs :: "sqfs \<Rightarrow> nat multiset" where
  "block_refs s = bc_refs MD_CACHE s + bc_refs DATA_CACHE s + bc_refs FRAG_CACHE s"

lemma block_refs_all: "fs_refs s = block_refs s + ix_refs s" "bc_refs w s \<subseteq># block_refs s"
  by (simp add: fs_refs_def block_refs_def) (cases w; simp add: block_refs_def)

text \<open>Changing the index cache and the store.\<close>

lemma fs_inv_ix:
  assumes inv: "fs_inv E strict M s" and good: "ix_good E strict h c" and own: "heap_owned h (block_refs s + sc.owned index_ptr c + M')"
    and keep: "hp_keeps (block_refs s) (fs_heap s) h"
  shows "fs_inv E strict M' (s\<lparr>fs_blockidx := Some c, fs_heap := h\<rparr>)"
proof -
  let ?s = "s\<lparr>fs_blockidx := Some c, fs_heap := h\<rparr>"
  have get: "bc_get w ?s = bc_get w s" for w by (cases w) simp_all
  have "\<exists>c'. bc_get w s = Some c' \<and> bc_good E strict w h c'" for w
  proof -
    obtain c' where c': "bc_get w s = Some c'" "bc_good E strict w (fs_heap s) c'" using inv unfolding fs_inv_def by blast
    have "sc.owned block_ptr c' \<subseteq># block_refs s" using block_refs_all(2) [of w s] c'(1) by (simp add: bc_refs_def)
    then show ?thesis using c' bc_good_keeps hp_keeps_mono [OF keep] by blast
  qed
  moreover have "fs_refs ?s = block_refs s + sc.owned index_ptr c"
    using get by (simp add: block_refs_all(1) block_refs_def bc_refs_def ix_refs_def)
  moreover have "fs_img ?s = fs_img s" by (simp add: sqfs_image.defs)
  ultimately show ?thesis using inv good own keep get by (simp add: fs_inv_def hp_keeps_def)
qed

definition index_fetch :: "sqfs_inode \<Rightarrow> (size_t \<Rightarrow> nat \<Rightarrow> (sqfs, 'a) io) \<Rightarrow> (sqfs, 'a) io" where
  "index_fetch inode k =
     io_bind (ix_lookup (ucast (bi_inode_number (in_base inode) + 1))) (\<lambda>bp.
     io_bind (ix_reads (sqfs_cache_entry_valid bp)) (\<lambda>valid.
     io_bind (if valid then
         io_bind (ix_reads (cache_payload bp)) (\<lambda>p. case p of
             None \<Rightarrow> io_fault Null_Deref | Some a \<Rightarrow> io_ret a)
       else
         io_try (sqfs_blockidx_add inode) (\<lambda>x. case x of
             Inl e \<Rightarrow> io_bind (ix_changes (Ok \<circ> sqfs_cache_put bp)) (\<lambda>_. io_raise e)
           | Inr a \<Rightarrow>
               io_bind (ix_changes (Ok \<circ> cache_set_payload bp (Some a))) (\<lambda>_.
               io_bind (ix_changes (sqfs_cache_entry_mark_valid bp)) (\<lambda>_. io_ret a)))) (k bp)))"

text \<open>What a caller can do with the index: it is there, and right.\<close>

definition index_user :: "fs_env \<Rightarrow> nat multiset \<Rightarrow> (sqfs_blockidx_entry option list \<Rightarrow> bool) \<Rightarrow> (nat \<Rightarrow> (sqfs, 'a) io) \<Rightarrow> 'a \<Rightarrow> bool" where
  "index_user E M T k out \<longleftrightarrow> (\<forall>a s xs. fs_clean E M s \<longrightarrow> hp_view (fs_heap s) a = Some (Inr xs) \<longrightarrow> T xs \<longrightarrow> k a s = (Ok out, s))"

lemma index_fetch_hit:
  assumes inv: "fs_clean E M s" and c: "fs_blockidx s = Some c" "(ucast (bi_inode_number (in_base inode) + 1), e) \<in># cache_content c"
    and T: "ev_idx E (ucast (bi_inode_number (in_base inode) + 1)) = T" and k: "\<And>bp. index_user E M T (k bp) out"
  shows "index_fetch inode k s = (Ok out, s)"
proof -
  have good: "cache_inv c" "sc.coherent (index_rel (ev_idx E) (hp_view (fs_heap s))) c"
    using inv c(1) by (auto simp: fs_inv_def ix_good_def cache_state_def)
  from ix.get_hit [OF good(1) c(2) good(2), of "fs_heap s"] obtain p where
    p: "sqfs_cache_get (ucast (bi_inode_number (in_base inode) + 1)) (Some c, fs_heap s) = (Ok p, (Some c, fs_heap s))"
      "sqfs_cache_entry_valid p c" "cache_payload p c = e"
      "index_rel (ev_idx E) (hp_view (fs_heap s)) (ucast (bi_inode_number (in_base inode) + 1)) e" by blast
  from p(4) obtain a xs where a: "e = Some a" "hp_view (fs_heap s) a = Some (Inr xs)" "T xs" using T by (auto simp: index_rel_def)
  have same: "s\<lparr>fs_blockidx := Some c\<rparr> = s" by (simp flip: c(1))
  have "index_fetch inode k s = k p a s"
    using p(1-3) a(1) c(1) by (simp add: same index_fetch_def ix_lookup_def ix_reads_def io_simps)
  then show ?thesis using k a(2,3) inv unfolding index_user_def by metis
qed

lemma ucast_64_zero: "(ucast w :: u64) = 0 \<longleftrightarrow> w = 0" for w :: u32
proof
  assume "(ucast w :: u64) = 0"
  then have "unat (ucast w :: u64) = 0" by simp
  moreover have "unat w < 2 ^ 32" using unsigned_less [of w, where ?'a = nat] by simp
  then have "unat w < 2 ^ 64" by (rule order.strict_trans) simp
  then have "unat (ucast w :: u64) = unat w" by (simp add: unsigned_ucast_eq take_bit_nat_eq_self)
  ultimately show "w = 0" by (simp add: unat_eq_zero)
qed simp

lemma index_fetch_miss:
  assumes im: "img_ok (ev_img E)" and h: "file_holds E inode hs ds tail" and x: "in_xtra inode = X_Reg st fsz fidx foff"
    and ix: "indexable E inode st hs" and inv: "fs_clean E M s" and c: "fs_blockidx s = Some c"
      "\<forall>e. (ucast (bi_inode_number (in_base inode) + 1), e) \<notin># cache_content c"
    and k: "\<And>bp. index_user E M (index_holds (ev_img E) inode st hs) (k bp) out"
  shows "\<exists>r s'. index_fetch inode k s = (r, s') \<and> (r = Ok out \<and> fs_clean E M s' \<or> ev_oom E \<and> r = Err SQFS_ERR \<and> fs_safe E M s')"
proof -
  let ?key = "ucast (bi_inode_number (in_base inode) + 1) :: u64"
  let ?T = "index_holds (ev_img E) inode st hs"
  have "bi_inode_number (in_base inode) + 1 \<noteq> 0" and T: "ev_idx E ?key = ?T" using ix by (simp_all add: indexable_def)
  then have key: "?key \<noteq> 0" by (metis ucast_64_zero)
  have good: "cache_inv c" "sc.coherent (index_rel (ev_idx E) (hp_view (fs_heap s))) c" "c_dispose c = sqfs_blockidx_dispose"
    using inv c(1) by (auto simp: fs_inv_def ix_good_def cache_state_def)
  have own: "heap_owned (fs_heap s) (sc.owned index_ptr c + (block_refs s + M))"
    using inv c(1) by (simp add: fs_inv_def block_refs_all(1) ix_refs_def ac_simps)
  from ix.get_miss [OF good(1) key c(2) good(2) own good(3)] obtain p c1 h1 where
    p: "sqfs_cache_get ?key (Some c, fs_heap s) = (Ok p, (Some c1, h1))" "cache_held c1 p ?key" "\<not> sqfs_cache_entry_valid p c1"
      "c_dispose c1 = sqfs_blockidx_dispose" "heap_owned h1 (sc.owned index_ptr c1 + (block_refs s + M))"
      "sc.coherent (index_rel (ev_idx E) (hp_view h1)) c1" "\<forall>a \<in># block_refs s + M. hp_view h1 a = hp_view (fs_heap s) a"
      "hp_malloc_ok h1 = hp_malloc_ok (fs_heap s)" by blast
  let ?O = "sc.owned index_ptr c1"
  text \<open>The same state with an empty index cache.\<close>
  let ?v = "s\<lparr>fs_blockidx := Some fresh_ixcache, fs_heap := h1\<rparr>"
  have keepB: "hp_keeps (block_refs s) (fs_heap s) h1" using p(7,8) by (simp add: hp_keeps_def)
  have fresh: "ix_good E True h fresh_ixcache" for h
    by (simp add: ix_good_def cache_state_def sc.coherent_def fresh_cache_inv)
  have v: "fs_clean E (?O + M) ?v" by (rule fs_inv_ix [OF inv fresh _ keepB]) (use p(5) in \<open>simp add: ac_simps\<close>)
  define Q where "Q h \<longleftrightarrow> (\<forall>a \<in># ?O. hp_view h a = hp_view h1 a)" for h
  have Q: "stable (?O + M) Q" by (auto simp: stable_def Q_def hp_keeps_def)
  have "framed (fs_clean E (?O + M)) Q ?v" using v by (simp add: framed_def Q_def)
  from blockidx_add_run [OF im h x ix Q this] obtain r v2 where
    r: "sqfs_blockidx_add inode ?v = (r, v2)" "add_outcome E (?O + M) Q ?T r v2" by blast
  have v2: "fs_blockidx v2 = Some fresh_ixcache" using blind_keeps [OF blind_blockidx_add r(1)] by simp
  have run1: "sqfs_blockidx_add inode (s\<lparr>fs_blockidx := Some c1, fs_heap := h1\<rparr>) = (r, v2\<lparr>fs_blockidx := Some c1\<rparr>)"
  proof -
    have "?v\<lparr>fs_blockidx := Some c1\<rparr> = s\<lparr>fs_blockidx := Some c1, fs_heap := h1\<rparr>" by (rule sqfs.equality) simp_all
    then show ?thesis using ix_blindD [OF blind_blockidx_add r(1), of "Some c1"] by (simp only:)
  qed
  have refs: "fs_refs v2 = block_refs v2" using v2 by (simp add: block_refs_all(1) ix_refs_def)
  let ?h2 = "fs_heap v2"
  have coh: "sc.coherent (index_rel (ev_idx E) (hp_view ?h2)) c1" if "Q ?h2"
    using p(6) by (rule ix.coherent_local) (use that in \<open>simp add: Q_def\<close>)
  have start: "index_fetch inode k s = io_bind (io_try (sqfs_blockidx_add inode) (\<lambda>x. case x of
             Inl e \<Rightarrow> io_bind (ix_changes (Ok \<circ> sqfs_cache_put p)) (\<lambda>_. io_raise e)
           | Inr a \<Rightarrow>
               io_bind (ix_changes (Ok \<circ> cache_set_payload p (Some a))) (\<lambda>_.
               io_bind (ix_changes (sqfs_cache_entry_mark_valid p)) (\<lambda>_. io_ret a)))) (k p)
      (s\<lparr>fs_blockidx := Some c1, fs_heap := h1\<rparr>)"
    using p(1,3) c(1) by (simp add: index_fetch_def ix_lookup_def ix_reads_def io_simps)
  show ?thesis
  proof (cases r)
    case (Ok a)
    then obtain xs where a: "?T xs" "fs_clean E (add_mset a (?O + M)) v2" "Q ?h2" "hp_view ?h2 a = Some (Inr xs)"
      using r(2) by (auto simp: add_outcome_def framed_def building_def)
    have rel: "index_rel (ev_idx E) (hp_view ?h2) ?key (Some a)" using a(1,4) T by (auto simp: index_rel_def)
    from ix.fill_entry [OF p(2,3) coh [OF a(3)] rel] obtain c2 where
      c2: "sqfs_cache_entry_mark_valid p (cache_set_payload p (Some a) c1) = Ok c2" "cache_inv c2"
        "sc.coherent (index_rel (ev_idx E) (hp_view ?h2)) c2" "sc.owned index_ptr c2 = index_ptr (Some a) + ?O"
        "c_dispose c2 = c_dispose c1" by blast
    let ?s3 = "v2\<lparr>fs_blockidx := Some c2\<rparr>"
    have "heap_owned ?h2 (block_refs v2 + sc.owned index_ptr c2 + M)"
      using a(2) refs c2(4) by (simp add: fs_inv_def index_ptr_def ac_simps)
    then have "fs_clean E M (v2\<lparr>fs_blockidx := Some c2, fs_heap := ?h2\<rparr>)"
      by (intro fs_inv_ix [OF a(2)]) (use c2 p(4) in \<open>simp_all add: ix_good_def cache_state_def\<close>)
    then have inv3: "fs_clean E M ?s3" by simp
    have "index_fetch inode k s = k p a ?s3"
      using run1 Ok c2(1) unfolding start by (simp add: io_simps ix_changes_def)
    moreover have "k p a ?s3 = (Ok out, ?s3)" using k [of p] inv3 a(1,4) unfolding index_user_def by simp
    ultimately show ?thesis using inv3 by auto
  next
    case (Err e)
    then have e: "ev_oom E" "e = SQFS_ERR" "fs_safe E (?O + M) v2" "Q ?h2" using r(2) by (auto simp: add_outcome_def framed_def)
    have "heap_owned ?h2 (block_refs v2 + ?O + M)" using e(3) refs by (simp add: fs_inv_def ac_simps)
    then have "fs_safe E M (v2\<lparr>fs_blockidx := Some c1, fs_heap := ?h2\<rparr>)"
      using coh [OF e(4)] p(2,4) by (intro fs_inv_ix [OF e(3)]) (simp_all add: ix_good_def cache_state_def cache_held_def)
    then have "fs_safe E M (v2\<lparr>fs_blockidx := Some c1\<rparr>)" by simp
    moreover have "index_fetch inode k s = (Err SQFS_ERR, v2\<lparr>fs_blockidx := Some c1\<rparr>)"
      using run1 Err e(2) unfolding start by (simp add: io_simps ix_changes_def sqfs_cache_put_def)
    ultimately show ?thesis using e(1) by auto
  qed (use r(2) in \<open>simp add: add_outcome_def\<close>)
qed

lemma index_fetch_yields:
  assumes im: "img_ok (ev_img E)" and h: "file_holds E inode hs ds tail" and x: "in_xtra inode = X_Reg st fsz fidx foff"
    and ix: "indexable E inode st hs" and k: "\<And>bp. index_user E M (index_holds (ev_img E) inode st hs) (k bp) out"
  shows "yields E M (index_fetch inode k) (Ok out)"
proof (rule implementsI)
  fix s assume inv: "fs_clean E M s"
  obtain c where c: "fs_blockidx s = Some c" using inv unfolding fs_inv_def by blast
  have T: "ev_idx E (ucast (bi_inode_number (in_base inode) + 1)) = index_holds (ev_img E) inode st hs"
    using ix by (simp add: indexable_def)
  show "\<exists>r' s'. index_fetch inode k s = (r', s') \<and> (r' = Ok out \<or> ev_oom E \<and> r' = Err SQFS_ERR) \<and>
      (case r' of Ok a \<Rightarrow> fs_clean E M s' | Err e \<Rightarrow> fs_safe E M s' | Fault u \<Rightarrow> True)"
  proof (cases "\<exists>e. (ucast (bi_inode_number (in_base inode) + 1), e) \<in># cache_content c")
    case True
    then show ?thesis using index_fetch_hit [OF inv c _ T k] inv by auto
  next
    case False
    then show ?thesis using index_fetch_miss [OF im h x ix inv c _ k] by fastforce
  qed
qed

section \<open>Starting from the index\<close>

text \<open>Which metadata block a position is looked for in, and the list entry it starts with.\<close>

definition seek_block :: "sqfs_inode \<Rightarrow> nat \<Rightarrow> nat" where
  "seek_block inode block = (cur_offset (in_next inode) + 4 * block) div SQUASHFS_METADATA_SIZE"

definition seek_entry :: "sqfs_inode \<Rightarrow> nat \<Rightarrow> nat" where
  "seek_entry inode block = 2048 * seek_block inode block - cur_offset (in_next inode) div 4"

text \<open>A block of the list can be found; so can the tail, if a metadata block in which an entry starts comes
  last in the list.\<close>

definition seekable :: "sqfs_inode \<Rightarrow> nat \<Rightarrow> nat \<Rightarrow> bool" where
  "seekable inode n block \<longleftrightarrow> block < n \<or> block = n \<and> 4 \<le> (cur_offset (in_next inode) + 4 * n) mod SQUASHFS_METADATA_SIZE"

lemma seek_entry_bounds:
  assumes "seekable inode n block" and "cur_offset (in_next inode) < SQUASHFS_METADATA_SIZE" and "1 \<le> seek_block inode block"
  shows "seek_entry inode block \<le> block" and "seek_entry inode block < n"
    and "cur_offset (in_next inode) div 4 + seek_entry inode block = 2048 * seek_block inode block"
proof -
  let ?q = "cur_offset (in_next inode) div 4" and ?m = "seek_block inode block"
  have m: "?m = (?q + block) div 2048" by (simp only: seek_block_def entry_block)
  have q: "?q < 2048" using assms(2) by simp
  have le: "2048 * ?m \<le> ?q + block" unfolding m by simp
  have "2048 \<le> 2048 * ?m" using assms(3) by simp
  then show eq: "?q + seek_entry inode block = 2048 * ?m" using q unfolding seek_entry_def by linarith
  then show "seek_entry inode block \<le> block" using le by linarith
  show "seek_entry inode block < n"
  proof (cases "block < n")
    case True
    then show ?thesis using le eq by linarith
  next
    case False
    then have n: "block = n" "4 \<le> (cur_offset (in_next inode) + 4 * n) mod SQUASHFS_METADATA_SIZE"
      using assms(1) by (auto simp: seekable_def)
    then have "(?q + block) mod 2048 \<noteq> 0" using entry_block(2) [of "cur_offset (in_next inode)" n] by simp
    then have "2048 * ?m \<noteq> ?q + block" unfolding m by (metis mod_mult_self1_is_0)
    then show ?thesis using le eq n(1) by linarith
  qed
qed

lemma ucast_back:
  assumes "w < 2 ^ 32"
  shows "ucast (ucast w :: u32) = (w :: u64)"
proof -
  have "unat w < 2 ^ 32" using assms by (simp add: word_less_nat_alt)
  then have "take_bit 32 w = w" by (simp add: word_unat_eq_iff unsigned_take_bit_eq take_bit_nat_eq_self)
  moreover have "ucast (ucast w :: u32) = take_bit 32 w" by (rule bit_eqI) (auto simp: bit_simps)
  ultimately show ?thesis by simp
qed

text \<open>The block list the index gives.\<close>

lemma index_list_at:
  assumes im: "img_ok (ev_img E)" and h: "file_holds E inode hs ds tail" and x: "in_xtra inode = X_Reg st fsz fidx foff"
    and ix: "indexable E inode st hs" and bs: "bs = unat (sb_block_size (fs_sb (ev_img E)))"
    and i: "i = seek_entry inode block" and m: "m = seek_block inode block" "1 \<le> m" "seekable inode (length hs) block"
    and bl: "bl_remain bl = length hs - i" "\<not> bl_started bl" "bl_pos bl = word_of_nat (i * bs)" "bl_input_size bl = 0"
      "bl_block bl = bx_data_block (index_entry (ev_img E) inode st hs m)"
      "bl_cur bl = \<lparr>cur_block = off_of_u64 (ucast (bx_md_block (index_entry (ev_img E) inode st hs m)) + sb_inode_table_start (fs_sb (ev_img E))),
         cur_offset = cur_offset (in_next inode) mod 4\<rparr>"
  shows "bl_at (ev_img E) bs st hs i bl \<and> md_holds (ev_img E) (in_next inode) (concat (map (le_bytes 4) (take i hs))) (bl_cur bl)"
proof -
  let ?im = "ev_img E" and ?cur = "in_next inode" and ?bytes = "\<lambda>hs. concat (map (le_bytes 4) (hs :: u32 list))"
  have sp: "md_span ?im ?cur (4 * length hs)" using ix by (simp add: indexable_def)
  then have off: "cur_offset ?cur < SQUASHFS_METADATA_SIZE" by (simp add: md_span_def)
  have "1 \<le> seek_block inode block" using m(1,2) by simp
  note e = seek_entry_bounds [OF m(3) off this, folded i m(1)]
  have cur: "cur_ok ?cur" using h by (simp add: file_holds_def)
  from h obtain c where c: "md_holds ?im ?cur (?bytes hs) c" by (auto simp: file_holds_def)
  have l4: "length (?bytes ys) = 4 * length ys" for ys by (induction ys) simp_all
  have split: "?bytes hs = ?bytes (take i hs) @ ?bytes (drop i hs)" by (metis append_take_drop_id concat_append map_append)
  then have tk: "take (4 * i) (?bytes hs) = ?bytes (take i hs)" using l4 [of "take i hs"] e(2) by simp
  have at: "md_holds ?im ?cur (?bytes (take i hs)) (span_cur ?im ?cur (4 * i))"
    using span_cur_holds [OF im cur sp c, of "4 * i"] l4 [of hs] e(2) unfolding tk by simp
  have ok: "cur_ok (span_cur ?im ?cur (4 * i))" using ms.holds_ok [OF _ at] im cur by simp
  have "\<exists>c'. md_holds ?im ?cur (?bytes (take i hs)) c' \<and> md_holds ?im c' (?bytes (drop i hs)) c"
    using c ms.holds_append [of ?im ?cur "?bytes (take i hs)" "?bytes (drop i hs)" c] im cur split by simp
  then have rest: "md_holds ?im (span_cur ?im ?cur (4 * i)) (?bytes (drop i hs)) c" using ms.holds_det [OF at] by blast
  have dm: "(cur_offset ?cur + 4 * i) div SQUASHFS_METADATA_SIZE = m" "(cur_offset ?cur + 4 * i) mod SQUASHFS_METADATA_SIZE = cur_offset ?cur mod 4"
    unfolding entry_block(1,3) e(3) by simp_all
  have "m \<le> (cur_offset ?cur + 4 * length hs - 1) div SQUASHFS_METADATA_SIZE"
    by (rule entry_block_last [OF m(2)]) (use e(2,3) in linarith)
  then obtain p where p: "md_nth ?im (cur_block ?cur) m = Some p"
    using md_nth_down [of ?im "cur_block ?cur" _ m] sp unfolding md_span_def by (metis not_None_eq)
  have sc: "span_cur ?im ?cur (4 * i) = \<lparr>cur_block = p, cur_offset = cur_offset ?cur mod 4\<rparr>"
    unfolding span_cur_def dm p by simp
  have "u64_of_off p - sb_inode_table_start (fs_sb ?im) < 2 ^ 32" using ix p by (simp add: indexable_def)
  then have "ucast (ucast (u64_of_off p - sb_inode_table_start (fs_sb ?im)) :: u32) = u64_of_off p - sb_inode_table_start (fs_sb ?im)"
    by (rule ucast_back)
  moreover have "off_of_u64 (u64_of_off p) = p" using ok pos_ok_key [of p] by (simp add: cur_ok_def sc)
  ultimately have "bl_cur bl = span_cur ?im ?cur (4 * i)" unfolding bl(6) sc by (simp add: index_entry_def p)
  moreover have "2048 * m - cur_offset ?cur div 4 = i" using e(3) by linarith
  then have "bl_block bl = block_addr st hs i" by (simp add: bl(5) index_entry_def)
  ultimately show ?thesis using e(2) ok rest at bl(1-4) by (auto simp: bl_at_def)
qed

text \<open>The conditions under which a read may use the index, or does not need it.\<close>

definition list_reachable :: "fs_env \<Rightarrow> sqfs_inode \<Rightarrow> u64 \<Rightarrow> u32 list \<Rightarrow> nat \<Rightarrow> bool" where
  "list_reachable E inode st hs start \<longleftrightarrow> unindexed (fs_sb (ev_img E)) inode (length hs) start \<or>
     indexable E inode st hs \<and> seekable inode (length hs) (start div unat (sb_block_size (fs_sb (ev_img E))))"

lemma sqfs_blockidx_blocklist_indexed:
  assumes im: "img_ok (ev_img E)" and h: "file_holds E inode hs ds tail" and x: "in_xtra inode = X_Reg st fsz fidx foff"
    and ix: "indexable E inode st hs" and bs: "bs = unat (sb_block_size (fs_sb (ev_img E)))"
    and start: "0 \<le> start" "nat start < unat fsz" and see: "seekable inode (length hs) (nat start div bs)"
    and big: "\<not> unindexed (fs_sb (ev_img E)) inode (length hs) (nat start)"
  shows "\<exists>bl. yields E M (sqfs_blockidx_blocklist inode start) (Ok bl) \<and>
    bl_at (ev_img E) bs st hs (seek_entry inode (nat start div bs)) bl \<and> seek_entry inode (nat start div bs) \<le> nat start div bs \<and>
    seek_entry inode (nat start div bs) < length hs \<and>
    md_holds (ev_img E) (in_next inode) (concat (map (le_bytes 4) (take (seek_entry inode (nat start div bs)) hs))) (bl_cur bl)"
proof -
  let ?b = "nat start div bs" and ?off = "cur_offset (in_next inode)" and ?sb = "fs_sb (ev_img E)"
  from sqfs_blocklist_init_at [OF h x bs, of M] obtain bl where
    bl: "yields E M (sqfs_blocklist_init inode) (Ok bl)" "bl_at (ev_img E) bs st hs 0 bl" "bl_remain bl = length hs"
      "bl_cur bl = in_next inode" and fresh: "\<not> bl_started bl" "bl_input_size bl = 0" by blast
  have f: "sqfs_blocklist_count ?sb inode = Ok (length hs)" "0 < bs" "unat fsz < 2 ^ 62" "length ds = length hs"
    using h x bs by (auto simp: file_holds_def Let_def)
  have n60: "length hs < 2 ^ 60" and sp: "md_span (ev_img E) (in_next inode) (4 * length hs)" using ix by (simp_all add: indexable_def)
  have off: "?off < SQUASHFS_METADATA_SIZE" using sp by (simp add: md_span_def)
  have le: "?b \<le> length hs" using file_block_reach [OF h x bs start(2)] f(4) by simp
  have q: "start div uint (sb_block_size ?sb) = int ?b" using start(1) bs by (simp add: zdiv_int)
  have blk: "unat (u64_of_off (start div uint (sb_block_size ?sb))) = ?b"
    unfolding q using le n60 by (subst u64_of_off_nat) simp_all
  define m where "m = seek_block inode ?b"
  define i where "i = seek_entry inode ?b"
  have big': "SQUASHFS_METADATA_SIZE \<le> length hs * 4" "SQUASHFS_METADATA_SIZE \<le> ?off + ?b * 4"
    using big bs by (simp_all add: unindexed_def not_less)
  have mb: "size_add ?off (size_mul ?b 4) div SQUASHFS_METADATA_SIZE = m"
    using off le n60 by (simp add: m_def seek_block_def size_add_def size_mul_def ac_simps)
  have m1: "1 \<le> m" unfolding m_def seek_block_def using div_le_mono [OF big'(2), of SQUASHFS_METADATA_SIZE] by (simp add: ac_simps)
  have idx: "sqfs_blockidx_indexable ?sb inode = Ok True" using f(1) big'(1) n60 by (simp add: sqfs_blockidx_indexable_def size_mul_def)
  note e = seek_entry_bounds [OF see off m1 [unfolded m_def], folded m_def i_def]
  have sk: "size_sub (m * SQUASHFS_METADATA_SIZE div 4) (?off div 4) = i"
  proof -
    have "m * SQUASHFS_METADATA_SIZE div 4 = 2048 * m" by simp
    moreover have "2048 * m < 2 ^ 64" using e(2,3) n60 off by simp
    ultimately show ?thesis using e(3) by simp
  qed
  let ?e = "index_entry (ev_img E) inode st hs m"
  let ?bl = "bl\<lparr>bl_cur := \<lparr>cur_block = off_of_u64 (ucast (bx_md_block ?e) + sb_inode_table_start ?sb), cur_offset = ?off mod 4\<rparr>,
     bl_remain := length hs - i, bl_pos := word_of_nat i * ucast (sb_block_size ?sb), bl_block := bx_data_block ?e\<rparr>"
  have pos: "word_of_nat i * ucast (sb_block_size ?sb) = (word_of_nat (i * bs) :: u64)" by (simp add: bs)
  have at: "bl_at (ev_img E) bs st hs i ?bl \<and> md_holds (ev_img E) (in_next inode) (concat (map (le_bytes 4) (take i hs))) (bl_cur ?bl)"
    by (rule index_list_at [OF im h x ix bs i_def m_def m1 see]) (use fresh pos in simp_all)
  define k where "k bp blockidx = io_bind (on_heap (hp_index blockidx)) (\<lambda>xs.
     if length xs \<le> m - 1 then io_fault Out_Of_Bounds else
     case xs ! (m - 1) of None \<Rightarrow> io_fault Uninitialised
     | Some e \<Rightarrow>
         io_bind (ix_changes (Ok \<circ> sqfs_cache_put bp)) (\<lambda>_.
         io_ret (bl\<lparr>
           bl_cur := \<lparr>cur_block = off_of_u64 (ucast (bx_md_block e) + sb_inode_table_start ?sb), cur_offset = ?off mod 4\<rparr>,
           bl_remain := length hs - i, bl_pos := word_of_nat i * ucast (sb_block_size ?sb), bl_block := bx_data_block e\<rparr>)))" for bp blockidx
  have user: "index_user E M (index_holds (ev_img E) inode st hs) (k bp) ?bl" for bp
    unfolding index_user_def
  proof (intro allI impI)
    fix a s xs assume inv: "fs_clean E M s" and v: "hp_view (fs_heap s) a = Some (Inr xs)" and xs: "index_holds (ev_img E) inode st hs xs"
    obtain c where c: "fs_blockidx s = Some c" using inv unfolding fs_inv_def by blast
    have same: "s\<lparr>fs_blockidx := Some c\<rparr> = s" by (simp flip: c)
    have l: "m \<le> length xs" and g: "xs ! (m - 1) = Some ?e" using xs m1 e(2,3) unfolding index_upto_def by simp_all
    have "\<not> length xs \<le> m - 1" using l m1 by linarith
    moreover have "hp_index a (fs_heap s) = (Ok xs, fs_heap s)" using v by (simp add: hp_index_def hp_view_Inr)
    ultimately show "k bp a s = (Ok ?bl, s)"
      using g c by (simp add: k_def io_simps ix_changes_def sqfs_cache_put_def same)
  qed
  have y: "yields E M (index_fetch inode k) (Ok ?bl)" by (rule index_fetch_yields [OF im h x ix user])
  have sb: "yields E M (io_gets fs_sb) (Ok ?sb)" by (rule yields_image) (metis fs_img_fields(3))
  have sb0: "sb_block_size ?sb \<noteq> 0" using f(2) bs by auto
  have rem: "size_sub (length hs) i = length hs - i" using e(2) n60 by simp
  have flags: "(sb_block_size ?sb = 0) = False" "(start < 0) = False" "(length hs < ?b) = False" "(m = 0) = False"
    using sb0 start(1) le m1 by simp_all
  have "yields E M (sqfs_blockidx_blocklist inode start) (Ok ?bl)"
    unfolding sqfs_blockidx_blocklist_def
    by (intro yields_bind_Ok [OF bl(1)] yields_bind_Ok [OF sb])
       (use y in \<open>simp only: Let_def bl(3,4) blk mb idx sk rem flags io_lift_Ok io_bind_ret if_False if_True not_True_eq_False
          index_fetch_def k_def [abs_def]\<close>)
  with at e(1,2) show ?thesis unfolding i_def by blast
qed

text \<open>Reading a range, with or without the index.\<close>

lemma sqfs_read_range_any:
  assumes im: "img_ok (ev_img E)" and h: "file_holds E inode hs ds tail" and x: "in_xtra inode = X_Reg st fsz fidx foff"
    and sz: "0 < sz" "sz < 2 ^ 63" and start: "0 \<le> start" "start < int (unat fsz)"
    and reach: "list_reachable E inode st hs (nat start)"
  shows "yields E M (sqfs_read_range inode start sz) (Ok (take (nat sz) (drop (nat start) (file_content ds tail))))"
proof (cases "unindexed (fs_sb (ev_img E)) inode (length hs) (nat start)")
  case True
  then show ?thesis by (rule sqfs_read_range_slice [OF im h x sz start])
next
  case False
  then have ix: "indexable E inode st hs" "seekable inode (length hs) (nat start div unat (sb_block_size (fs_sb (ev_img E))))"
    using reach by (simp_all add: list_reachable_def)
  have "nat start < unat fsz" using start by linarith
  from sqfs_blockidx_blocklist_indexed [OF im h x ix(1) refl start(1) this ix(2) False, of M] obtain bl where
    bl: "yields E M (sqfs_blockidx_blocklist inode start) (Ok bl)"
      "bl_at (ev_img E) (unat (sb_block_size (fs_sb (ev_img E)))) st hs
        (seek_entry inode (nat start div unat (sb_block_size (fs_sb (ev_img E))))) bl"
      "seek_entry inode (nat start div unat (sb_block_size (fs_sb (ev_img E)))) \<le> nat start div unat (sb_block_size (fs_sb (ev_img E)))"
    by blast
  show ?thesis by (rule sqfs_read_range_from [OF im h x sz start bl])
qed

section \<open>The index finds what walking finds\<close>

fun blocklist_skip :: "nat \<Rightarrow> sqfs_blocklist \<Rightarrow> (sqfs, sqfs_blocklist) io" where
  "blocklist_skip 0 bl = io_ret bl"
| "blocklist_skip (Suc i) bl = io_bind (blocklist_skip i bl) sqfs_blocklist_next"

text \<open>The list after \<open>Suc i\<close> steps.\<close>

definition list_after :: "sqfs_image \<Rightarrow> u64 \<Rightarrow> u32 list \<Rightarrow> sqfs_md_cursor \<Rightarrow> nat \<Rightarrow> sqfs_blocklist" where
  "list_after im st hs cur i = \<lparr>bl_remain = length hs - Suc i, bl_cur = cur, bl_started = True,
     bl_pos = word_of_nat (i * unat (sb_block_size (fs_sb im))), bl_block = block_addr st hs i, bl_header = hs ! i,
     bl_input_size = hdr_size (hs ! i)\<rparr>"

lemma blocklist_next_after:
  assumes "img_ok (ev_img E)" and "bl_at (ev_img E) (unat (sb_block_size (fs_sb (ev_img E)))) st hs i bl" and "i < length hs"
  shows "\<exists>cur. yields E M (sqfs_blocklist_next bl) (Ok (list_after (ev_img E) st hs cur i)) \<and>
    md_holds (ev_img E) (bl_cur bl) (le_bytes 4 (hs ! i)) cur \<and>
    bl_at (ev_img E) (unat (sb_block_size (fs_sb (ev_img E)))) st hs (Suc i) (list_after (ev_img E) st hs cur i)"
proof -
  from sqfs_blocklist_next_frame [OF stable_True assms refl, of M] obtain bl' where
    b: "yields E M (sqfs_blocklist_next bl) (Ok bl')" "md_holds (ev_img E) (bl_cur bl) (le_bytes 4 (hs ! i)) (bl_cur bl')"
      "bl_at (ev_img E) (unat (sb_block_size (fs_sb (ev_img E)))) st hs (Suc i) bl'" "bl_block bl' = block_addr st hs i"
      "bl_header bl' = hs ! i" "bl_input_size bl' = hdr_size (hs ! i)"
      "bl_pos bl' = word_of_nat (i * unat (sb_block_size (fs_sb (ev_img E))))" "bl_started bl'" by auto
  have "bl' = list_after (ev_img E) st hs (bl_cur bl') i"
    using b(3-8) by (intro sqfs_blocklist.equality) (simp_all add: list_after_def bl_at_def)
  then show ?thesis using b(1-3) by metis
qed

lemma blocklist_skip_at:
  assumes im: "img_ok (ev_img E)" and cur: "cur_ok cur" and bs: "bs = unat (sb_block_size (fs_sb (ev_img E)))"
    and bl: "bl_at (ev_img E) bs st hs 0 bl" "bl_cur bl = cur"
  shows "i \<le> length hs \<Longrightarrow> \<exists>bl'. yields E M (blocklist_skip i bl) (Ok bl') \<and> bl_at (ev_img E) bs st hs i bl' \<and>
    md_holds (ev_img E) cur (concat (map (le_bytes 4) (take i hs))) (bl_cur bl')"
proof (induction i)
  case 0
  then show ?case using bl ms.holds_Nil [of "ev_img E" cur] im cur by (auto intro!: exI [of _ bl] yields_ret)
next
  case (Suc i)
  then obtain b where b: "yields E M (blocklist_skip i bl) (Ok b)" "bl_at (ev_img E) bs st hs i b"
    "md_holds (ev_img E) cur (concat (map (le_bytes 4) (take i hs))) (bl_cur b)" by auto
  from blocklist_next_after [OF im b(2) [unfolded bs], of M] Suc.prems obtain c where
    c: "yields E M (sqfs_blocklist_next b) (Ok (list_after (ev_img E) st hs c i))" "md_holds (ev_img E) (bl_cur b) (le_bytes 4 (hs ! i)) c"
      "bl_at (ev_img E) bs st hs (Suc i) (list_after (ev_img E) st hs c i)" unfolding bs by auto
  have "md_holds (ev_img E) cur (concat (map (le_bytes 4) (take (Suc i) hs))) c"
    using ms.holds_append [of "ev_img E" cur] im cur b(3) c(2) Suc.prems by (auto simp: take_Suc_conv_app_nth)
  moreover have "yields E M (blocklist_skip (Suc i) bl) (Ok (list_after (ev_img E) st hs c i))"
    unfolding blocklist_skip.simps by (rule yields_bind_Ok [OF b(1)]) (rule c(1))
  ultimately show ?case using c(3)
    by (intro exI [of _ "list_after (ev_img E) st hs c i"]) (simp add: list_after_def)
qed

lemma blockidx_seek_walk:
  assumes im: "img_ok (ev_img E)" and h: "file_holds E inode hs ds tail" and x: "in_xtra inode = X_Reg st fsz fidx foff"
    and ix: "indexable E inode st hs" and bs: "bs = unat (sb_block_size (fs_sb (ev_img E)))"
    and start: "0 \<le> start" "nat start < unat fsz" and see: "seekable inode (length hs) (nat start div bs)"
    and big: "\<not> unindexed (fs_sb (ev_img E)) inode (length hs) (nat start)"
  shows "\<exists>bl. yields E M (io_bind (sqfs_blockidx_blocklist inode start) sqfs_blocklist_next) (Ok bl) \<and>
    yields E M (io_bind (sqfs_blocklist_init inode) (blocklist_skip (Suc (seek_entry inode (nat start div bs))))) (Ok bl)"
proof -
  let ?i = "seek_entry inode (nat start div bs)"
  from sqfs_blocklist_init_at [OF h x bs, of M] obtain b0 where
    b0: "yields E M (sqfs_blocklist_init inode) (Ok b0)" "bl_at (ev_img E) bs st hs 0 b0" "bl_cur b0 = in_next inode" by blast
  have cur: "cur_ok (in_next inode)" using h by (simp add: file_holds_def)
  from sqfs_blockidx_blocklist_indexed [OF im h x ix bs start see big, of M] obtain bl where
    bl: "yields E M (sqfs_blockidx_blocklist inode start) (Ok bl)" "bl_at (ev_img E) bs st hs ?i bl" "?i < length hs"
      "md_holds (ev_img E) (in_next inode) (concat (map (le_bytes 4) (take ?i hs))) (bl_cur bl)" by blast
  from blocklist_skip_at [OF im cur bs b0(2,3), of ?i M] bl(3) obtain b where
    b: "yields E M (blocklist_skip ?i b0) (Ok b)" "bl_at (ev_img E) bs st hs ?i b"
      "md_holds (ev_img E) (in_next inode) (concat (map (le_bytes 4) (take ?i hs))) (bl_cur b)" by auto
  have same: "bl_cur b = bl_cur bl" by (rule ms.holds_det [OF b(3) bl(4)])
  from blocklist_next_after [OF im b(2) [unfolded bs], folded bs, OF bl(3), of M] obtain c where
    c: "yields E M (sqfs_blocklist_next b) (Ok (list_after (ev_img E) st hs c ?i))" "md_holds (ev_img E) (bl_cur b) (le_bytes 4 (hs ! ?i)) c" by blast
  from blocklist_next_after [OF im bl(2) [unfolded bs], folded bs, OF bl(3), of M] obtain c' where
    c': "yields E M (sqfs_blocklist_next bl) (Ok (list_after (ev_img E) st hs c' ?i))" "md_holds (ev_img E) (bl_cur bl) (le_bytes 4 (hs ! ?i)) c'" by blast
  have "c' = c" using ms.holds_det [OF c(2)] c'(2) same by simp
  have "yields E M (blocklist_skip (Suc ?i) b0) (Ok (list_after (ev_img E) st hs c ?i))"
    unfolding blocklist_skip.simps by (rule yields_bind_Ok [OF b(1)]) (rule c(1))
  then have "yields E M (io_bind (sqfs_blocklist_init inode) (blocklist_skip (Suc ?i))) (Ok (list_after (ev_img E) st hs c ?i))"
    by (rule yields_bind_Ok [OF b0(1)])
  moreover have "yields E M (io_bind (sqfs_blockidx_blocklist inode start) sqfs_blocklist_next) (Ok (list_after (ev_img E) st hs c' ?i))"
    by (rule yields_bind_Ok [OF bl(1)]) (rule c'(1))
  ultimately show ?thesis using \<open>c' = c\<close> by blast
qed

end
