(* ===== verification/Sqfs_Extract.thy ===== *)
theory Sqfs_Extract
  imports Sqfs_LS Sqfs_Stat Sqfs_Blockidx
begin

text \<open>
  The program \<^verbatim>\<open>squashfuse_extract\<close>: \<^verbatim>\<open>extract.c\<close>. It traverses an image and writes the
  entries below a path (or all of them, with \<^verbatim>\<open>-a\<close>) into the directory \<^verbatim>\<open>squashfs-root/\<close>.

  The system the files are written to is a parameter. Every call the program makes is recorded, in order, and
  \<open>xe_sys\<close> says whether a call succeeds after the calls made before it. The results of \<^verbatim>\<open>fwrite\<close>,
  \<^verbatim>\<open>fclose\<close>, \<^verbatim>\<open>chmod\<close> and \<^verbatim>\<open>unlink\<close> are ignored by the program. A call of
  \<^verbatim>\<open>exit\<close> is the left value of a sum.

  The lemmas say which calls the extraction of a tree makes, and that replaying them gives every regular file
  its contents.
\<close>

section \<open>The state and the system\<close>

datatype host_call =
    Access bytes
  | Mkdir bytes int
  | Fopen bytes
  | Fwrite bytes bytes
  | Fclose bytes
  | Chmod bytes u32
  | Unlink bytes
  | Symlink bytes bytes

record extract_state =
  ex_tool :: tool_state
  ex_calls :: "host_call list"

text \<open>\<open>xe_why\<close> is what \<^verbatim>\<open>perror\<close> adds to its message; \<open>xe_seen\<close> is the number the bytes of another
  member of the union give when they are read as the size of a regular file, which the program does for a
  message.\<close>

record extract_env =
  xe_sys :: "host_call list \<Rightarrow> host_call \<Rightarrow> bool"
  xe_why :: string
  xe_seen :: "inode_xtra \<Rightarrow> u64"
  xe_makedev :: "int \<Rightarrow> int \<Rightarrow> u64"

definition on_tool :: "(tool_state, 'a) io \<Rightarrow> (extract_state, 'a) io" where
  "on_tool = io_on ex_tool (\<lambda>t s. s\<lparr>ex_tool := t\<rparr>)"

definition ex_image :: "(sqfs, 'a) io \<Rightarrow> (extract_state, 'a) io" where
  "ex_image m = on_tool (on_image m)"

definition host :: "extract_env \<Rightarrow> host_call \<Rightarrow> (extract_state, bool) io" where
  "host X c = io_bind (io_gets ex_calls) (\<lambda>h.
     io_bind (io_modify (\<lambda>s. s\<lparr>ex_calls := h @ [c]\<rparr>)) (\<lambda>_. io_ret (xe_sys X h c)))"

definition say :: "string \<Rightarrow> (extract_state, unit) io" where
  "say m = on_tool (on_open (print_err (m @ [CHR 0x0A])))"

definition say_out :: "string \<Rightarrow> (extract_state, unit) io" where
  "say_out m = on_tool (print_out (map of_char m))"

definition chars_of :: "bytes \<Rightarrow> string" where
  "chars_of bs = map (\<lambda>b. char_of (unat b)) bs"

definition ex_bind :: "(extract_state, int + 'a) io \<Rightarrow> ('a \<Rightarrow> (extract_state, int + 'b) io) \<Rightarrow> (extract_state, int + 'b) io" where
  "ex_bind m k = io_bind m (\<lambda>r. case r of Inl c \<Rightarrow> io_ret (Inl c) | Inr x \<Rightarrow> k x)"

section \<open>The program\<close>

abbreviation (input) X_ERR_MISC :: int where "X_ERR_MISC \<equiv> 1"
abbreviation (input) X_ERR_USAGE :: int where "X_ERR_USAGE \<equiv> 2"
abbreviation (input) X_ERR_OPEN :: int where "X_ERR_OPEN \<equiv> 3"

definition extract_usage :: "(extract_state, int + 'a) io" where
  "extract_usage = io_bind (say ''Usage: squashfuse_extract ARCHIVE PATH_TO_EXTRACT'') (\<lambda>_.
     io_bind (say ''       squashfuse_extract ARCHIVE -a'') (\<lambda>_. io_ret (Inl X_ERR_USAGE)))"

definition extract_die :: "string \<Rightarrow> (extract_state, int + 'a) io" where
  "extract_die msg = io_bind (say msg) (\<lambda>_. io_ret (Inl X_ERR_MISC))"

definition starts_with :: "bytes \<Rightarrow> bytes \<Rightarrow> bool" where
  "starts_with pre s = (let lenpre = length pre; lenstr = length s in
     if lenstr < lenpre then False else take lenpre s = pre)"

definition prefix :: bytes where
  "prefix = map of_char ''squashfs-root/''"

definition make_dir :: "extract_env \<Rightarrow> bytes \<Rightarrow> (extract_state, int + unit) io" where
  "make_dir X q = io_bind (host X (Access q)) (\<lambda>there.
     if there then io_ret (Inr ()) else
     io_bind (host X (Mkdir q 511)) (\<lambda>made.
     if made then io_ret (Inr ()) else io_bind (say (''mkdir error: '' @ xe_why X)) (\<lambda>_. io_ret (Inl 1))))"

text \<open>\<^verbatim>\<open>strcat\<close> into the buffer of 1024 bytes.\<close>

definition prefixed_path :: "bytes \<Rightarrow> bytes res" where
  "prefixed_path p = (if 1024 < length (prefix @ p) + 1 then Fault Out_Of_Bounds else Ok (prefix @ p))"

definition xtra_file_size :: "extract_env \<Rightarrow> inode_xtra \<Rightarrow> u64" where
  "xtra_file_size X x = (case x of X_Reg _ fsz _ _ \<Rightarrow> fsz | _ \<Rightarrow> xe_seen X x)"

definition extract_dir :: "extract_env \<Rightarrow> bytes \<Rightarrow> sqfs_inode \<Rightarrow> (extract_state, int + unit) io" where
  "extract_dir X q inode = (case in_xtra inode of
     X_Dir _ _ _ _ parent \<Rightarrow>
       io_bind (say (''inode.xtra.dir.parent_inode: '' @ show_nat (unat parent) @ ''i'')) (\<lambda>_.
       io_bind (say (''mkdir: '' @ chars_of q @ ''/'')) (\<lambda>_. make_dir X q))
   | _ \<Rightarrow> io_fault Wrong_Union_Arm)"

definition permissions :: "u32 \<Rightarrow> string" where
  "permissions mode =
     (if S_ISDIR mode then ''d'' else ''-'') @
     (if mode AND 256 \<noteq> 0 then ''r'' else ''-'') @ (if mode AND 128 \<noteq> 0 then ''w'' else ''-'') @
     (if mode AND 64 \<noteq> 0 then ''x'' else ''-'') @ (if mode AND 32 \<noteq> 0 then ''r'' else ''-'') @
     (if mode AND 16 \<noteq> 0 then ''w'' else ''-'') @ (if mode AND 8 \<noteq> 0 then ''x'' else ''-'') @
     (if mode AND 4 \<noteq> 0 then ''r'' else ''-'') @ (if mode AND 2 \<noteq> 0 then ''w'' else ''-'') @
     (if mode AND 1 \<noteq> 0 then ''x'' else ''-'')"

text \<open>The chunks of a file. A chunk is as big as the last one was; an array without elements has no meaning in C.
  Every chunk moves the position, so the size of the file is enough fuel.\<close>

fun extract_chunks :: "nat \<Rightarrow> extract_env \<Rightarrow> bytes \<Rightarrow> sqfs_inode \<Rightarrow> off_t \<Rightarrow> off_t \<Rightarrow> (extract_state, int + unit) io" where
  "extract_chunks fuel X q inode pos at_a_time = (case in_xtra inode of
     X_Reg _ fsz _ _ \<Rightarrow>
       if u64_of_off pos < fsz then
         case fuel of 0 \<Rightarrow> io_fault Diverges
         | Suc fuel' \<Rightarrow>
           if at_a_time \<le> 0 then io_fault Out_Of_Bounds else
           io_try (ex_image (sqfs_read_range inode pos at_a_time)) (\<lambda>r. case r of
             Inl _ \<Rightarrow> extract_die ''sqfs_read_range error''
           | Inr bs \<Rightarrow>
               io_bind (host X (Fwrite q bs)) (\<lambda>_.
               extract_chunks fuel' X q inode (off_add pos (length bs)) (int (length bs))))
       else io_ret (Inr ())
   | _ \<Rightarrow> io_fault Wrong_Union_Arm)"

declare extract_chunks.simps [simp del]

definition extract_reg :: "extract_env \<Rightarrow> bytes \<Rightarrow> sqfs_inode \<Rightarrow> (extract_state, int + unit) io" where
  "extract_reg X q inode =
     io_bind (say (''Extract to: '' @ chars_of q)) (\<lambda>_.
     io_try (ex_image (sqfs_stat (xe_makedev X) inode)) (\<lambda>r. case r of
       Inl _ \<Rightarrow> extract_die ''sqfs_stat error''
     | Inr st \<Rightarrow>
         io_bind (say_out (''Permissions: '' @ permissions (st_mode st) @ [CHR 0x0A])) (\<lambda>_.
         io_bind (host X (Fopen q)) (\<lambda>opened.
         if \<not> opened then extract_die ''fopen error'' else
         ex_bind (extract_chunks (unat (xtra_file_size X (in_xtra inode))) X q inode 0 65536) (\<lambda>_.
         io_bind (host X (Fclose q)) (\<lambda>_.
         io_bind (host X (Chmod q (st_mode st))) (\<lambda>_. io_ret (Inr ()))))))))"

definition sqfs_symlink :: "extract_env \<Rightarrow> bytes \<Rightarrow> bytes \<Rightarrow> (extract_state, bool) io" where
  "sqfs_symlink X target linkpath = host X (Symlink target linkpath)"

text \<open>The link: the buffer has the length of the path of the entry.\<close>

definition extract_symlink :: "extract_env \<Rightarrow> bytes \<Rightarrow> bytes \<Rightarrow> sqfs_inode \<Rightarrow> (extract_state, int + unit) io" where
  "extract_symlink X p q inode =
     io_try (ex_image (sqfs_readlink inode True (length p + 1))) (\<lambda>r. case r of
       Inl _ \<Rightarrow> extract_die ''sqfs_readlink error''
     | Inr (Inl _) \<Rightarrow> io_fault Uninitialised
     | Inr (Inr buf) \<Rightarrow>
         io_bind (io_lift (c_string (map Some buf))) (\<lambda>target.
         io_bind (say (''Symlink: '' @ chars_of q @ '' to '' @ chars_of target @ '' '')) (\<lambda>_.
         io_bind (host X (Unlink q)) (\<lambda>_.
         io_bind (sqfs_symlink X target q) (\<lambda>made.
         if made then io_ret (Inr ()) else extract_die ''symlink error'')))))"

definition extract_inode :: "extract_env \<Rightarrow> bytes \<Rightarrow> sqfs_inode \<Rightarrow> (extract_state, int + unit) io" where
  "extract_inode X p inode =
     (let t = bi_inode_type (in_base inode) in
      io_bind (say (''inode.base.inode_type: '' @ show_nat (unat t))) (\<lambda>_.
      io_bind (say (''inode.xtra.reg.file_size: '' @ show_nat (unat (xtra_file_size X (in_xtra inode))))) (\<lambda>_.
      io_bind (io_lift (prefixed_path p)) (\<lambda>q.
      if t = SQUASHFS_DIR_TYPE then extract_dir X q inode
      else if t = SQUASHFS_REG_TYPE then extract_reg X q inode
      else if t = SQUASHFS_SYMLINK_TYPE then extract_symlink X p q inode
      else io_bind (say (''TODO: Implement inode.base.inode_type '' @ show_nat (unat t))) (\<lambda>_. io_ret (Inr ()))))))"

definition extract_entry :: "extract_env \<Rightarrow> bytes \<Rightarrow> sqfs_dir_entry \<Rightarrow> (extract_state, int + unit) io" where
  "extract_entry X p e =
     io_bind (say (''trv.path: '' @ chars_of p)) (\<lambda>_.
     io_bind (say (''sqfs_inode_id: '' @ show_nat (unat (ent_inode e)))) (\<lambda>_.
     io_try (ex_image (sqfs_inode_get (ent_inode e))) (\<lambda>r. case r of
       Inl _ \<Rightarrow> extract_die ''sqfs_inode_get error''
     | Inr inode \<Rightarrow> ex_bind (extract_inode X p inode) (\<lambda>_. io_bind (say []) (\<lambda>_. io_ret (Inr ()))))))"

definition wanted :: "bytes \<Rightarrow> bytes \<Rightarrow> bool" where
  "wanted path_to_extract p \<longleftrightarrow> starts_with path_to_extract p \<or> path_to_extract = map of_char ''-a''"

fun extract_loop :: "extract_env \<Rightarrow> bytes \<Rightarrow> nat \<Rightarrow> sqfs_traverse \<Rightarrow> (extract_state, int + sqfs_err option \<times> sqfs_traverse) io" where
  "extract_loop X path_to_extract 0 trv = io_fault Diverges"
| "extract_loop X path_to_extract (Suc fuel) trv =
     io_bind (ex_image (sqfs_traverse_next trv)) (\<lambda>((more, err), trv).
     if \<not> more then io_ret (Inr (err, trv)) else
     ex_bind (if \<not> tv_dir_end trv then
         io_bind (io_lift (trv_path trv)) (\<lambda>p.
         if wanted path_to_extract p then extract_entry X p (tv_entry trv) else io_ret (Inr ()))
       else io_ret (Inr ())) (\<lambda>_.
     extract_loop X path_to_extract fuel trv))"

definition extract_run :: "'st open_env \<Rightarrow> extract_env \<Rightarrow> sqfs_traverse \<Rightarrow> nat \<Rightarrow> bytes \<Rightarrow> bytes \<Rightarrow> (extract_state, int + int) io" where
  "extract_run env X junk fuel archive path_to_extract =
     io_try (on_tool (on_open (sqfs_open_image env archive 0))) (\<lambda>r. case r of Inl _ \<Rightarrow> io_ret (Inl X_ERR_OPEN) | Inr _ \<Rightarrow>
     io_bind (ex_image (io_bind (io_gets sqfs_inode_root) (\<lambda>root. sqfs_traverse_open root junk))) (\<lambda>(r, trv).
     case r of Inl _ \<Rightarrow> extract_die ''sqfs_traverse_open error'' | Inr _ \<Rightarrow>
     ex_bind (extract_loop X path_to_extract fuel trv) (\<lambda>(err, trv).
     if err \<noteq> None then extract_die ''sqfs_traverse_next error'' else
     io_bind (ex_image (sqfs_traverse_close trv)) (\<lambda>_.
     io_bind (on_tool (on_open sqfs_fd_close)) (\<lambda>_. io_ret (Inr 0))))))"

definition extract_main :: "'st open_env \<Rightarrow> extract_env \<Rightarrow> sqfs_traverse \<Rightarrow> nat \<Rightarrow> bytes list \<Rightarrow> (extract_state, int) io" where
  "extract_main env X junk fuel argv =
     io_bind (ex_bind (make_dir X prefix) (\<lambda>_.
       if length argv \<noteq> 3 then extract_usage else extract_run env X junk fuel (argv ! 1) (argv ! 2))) (\<lambda>r.
     io_ret (case r of Inl c \<Rightarrow> c | Inr c \<Rightarrow> c))"

section \<open>What is written\<close>

text \<open>What an image holds under an inode id, as far as the program cares.\<close>

datatype node = N_Dir | N_Reg u32 bytes | N_Link bytes | N_Other

definition inode_is :: "fs_env \<Rightarrow> nat multiset \<Rightarrow> extract_env \<Rightarrow> sqfs_inode \<Rightarrow> node \<Rightarrow> bool" where
  "inode_is E M X inode nd \<longleftrightarrow> (let t = bi_inode_type (in_base inode) in case nd of
     N_Dir \<Rightarrow> t = SQUASHFS_DIR_TYPE
   | N_Reg mode ct \<Rightarrow> t = SQUASHFS_REG_TYPE \<and>
       (\<exists>hs ds tail st fsz fidx foff. file_holds E inode hs ds tail \<and> in_xtra inode = X_Reg st fsz fidx foff \<and>
          ct = file_content ds tail \<and> (\<forall>k. 65536 * k < unat fsz \<longrightarrow> list_reachable E inode st hs (65536 * k))) \<and>
       (\<exists>stt. yields E M (sqfs_stat (xe_makedev X) inode) (Ok stt) \<and> st_mode stt = mode)
   | N_Link target \<Rightarrow> t = SQUASHFS_SYMLINK_TYPE \<and> S_ISLNK (in_mode inode) \<and> in_xtra inode = X_Symlink (length target) \<and>
       cur_ok (in_next inode) \<and> (\<exists>c. md_holds (ev_img E) (in_next inode) target c) \<and> 0 \<notin> set target
   | N_Other \<Rightarrow> t \<noteq> SQUASHFS_DIR_TYPE \<and> t \<noteq> SQUASHFS_REG_TYPE \<and> t \<noteq> SQUASHFS_SYMLINK_TYPE)"

definition node_holds :: "fs_env \<Rightarrow> nat multiset \<Rightarrow> extract_env \<Rightarrow> sqfs_inode_id \<Rightarrow> node \<Rightarrow> bool" where
  "node_holds E M X i nd \<longleftrightarrow> (\<exists>inode. yields E M (sqfs_inode_get i) (Ok inode) \<and> inode_is E M X inode nd)"

text \<open>The calls for one entry; a link's target is cut to the length of the entry's path.\<close>

fun chunks :: "bytes \<Rightarrow> bytes list" where
  "chunks bs = (if bs = [] then [] else take 65536 bs # chunks (drop 65536 bs))"

declare chunks.simps [simp del]

definition dir_calls :: "extract_env \<Rightarrow> bytes \<Rightarrow> host_call list \<Rightarrow> host_call list" where
  "dir_calls X q h = Access q # (if xe_sys X h (Access q) then [] else [Mkdir q 511])"

fun node_calls :: "extract_env \<Rightarrow> bytes \<Rightarrow> node \<Rightarrow> host_call list \<Rightarrow> host_call list" where
  "node_calls X p N_Dir h = dir_calls X (prefix @ p) h"
| "node_calls X p (N_Reg mode ct) h =
     Fopen (prefix @ p) # map (Fwrite (prefix @ p)) (chunks ct) @ [Fclose (prefix @ p), Chmod (prefix @ p) mode]"
| "node_calls X p (N_Link target) h = [Unlink (prefix @ p), Symlink (take (length p) target) (prefix @ p)]"
| "node_calls X p N_Other h = []"

text \<open>The system makes directories, opens files and makes links when it is asked to.\<close>

definition obedient :: "extract_env \<Rightarrow> bool" where
  "obedient X \<longleftrightarrow> (\<forall>h q m t. xe_sys X h (Mkdir q m) \<and> xe_sys X h (Fopen q) \<and> xe_sys X h (Symlink t q))"

lemma concat_chunks: "concat (chunks bs) = bs"
  by (induction bs rule: chunks.induct) (subst chunks.simps, auto)

section \<open>Calls in sequence\<close>

abbreviation ex_fs :: "extract_state \<Rightarrow> sqfs" where "ex_fs s \<equiv> os_fs (ts_os (ex_tool s))"
abbreviation ex_fds :: "extract_state \<Rightarrow> nat" where "ex_fds s \<equiv> os_fds (ts_os (ex_tool s))"

text \<open>\<open>does E M m r cs\<close>: from every state with the library's invariant, \<open>m\<close> returns \<open>r\<close>, keeps the
  invariant, and makes the calls \<open>cs h\<close> after the calls \<open>h\<close> made before.\<close>

definition does ::
  "fs_env \<Rightarrow> nat multiset \<Rightarrow> (extract_state, 'a) io \<Rightarrow> 'a \<Rightarrow> (host_call list \<Rightarrow> host_call list) \<Rightarrow> bool" where
  "does E M m r cs \<longleftrightarrow> (\<forall>s. fs_clean E M (ex_fs s) \<longrightarrow> (\<exists>s'. m s = (Ok r, s') \<and> fs_clean E M (ex_fs s') \<and>
     ex_fds s' = ex_fds s \<and> ex_calls s' = ex_calls s @ cs (ex_calls s)))"

lemma doesI:
  assumes "\<And>s. fs_clean E M (ex_fs s) \<Longrightarrow> \<exists>s'. m s = (Ok r, s') \<and> fs_clean E M (ex_fs s') \<and>
    ex_fds s' = ex_fds s \<and> ex_calls s' = ex_calls s @ cs (ex_calls s)"
  shows "does E M m r cs"
  using assms by (simp add: does_def)

lemma doesE:
  assumes "does E M m r cs" and "fs_clean E M (ex_fs s)"
  obtains s' where "m s = (Ok r, s')" "fs_clean E M (ex_fs s')" "ex_fds s' = ex_fds s" "ex_calls s' = ex_calls s @ cs (ex_calls s)"
  using assms by (auto simp: does_def)

lemma does_ret: "does E M (io_ret r) r (\<lambda>h. [])"
  by (rule doesI) (simp add: io_simps)

lemma does_bind:
  assumes "does E M m a cs" and "does E M (k a) r ds"
  shows "does E M (io_bind m k) r (\<lambda>h. cs h @ ds (h @ cs h))"
proof (rule doesI)
  fix s assume "fs_clean E M (ex_fs s)"
  from assms(1) this obtain s1 where 1: "m s = (Ok a, s1)" "fs_clean E M (ex_fs s1)" "ex_fds s1 = ex_fds s"
    "ex_calls s1 = ex_calls s @ cs (ex_calls s)" by (rule doesE)
  from assms(2) 1(2) obtain s2 where "k a s1 = (Ok r, s2)" "fs_clean E M (ex_fs s2)" "ex_fds s2 = ex_fds s1"
    "ex_calls s2 = ex_calls s1 @ ds (ex_calls s1)" by (rule doesE)
  with 1 show "\<exists>s'. io_bind m k s = (Ok r, s') \<and> fs_clean E M (ex_fs s') \<and> ex_fds s' = ex_fds s \<and>
      ex_calls s' = ex_calls s @ cs (ex_calls s) @ ds (ex_calls s @ cs (ex_calls s))" by (simp add: io_bind_run)
qed

text \<open>A call that makes no calls to the system.\<close>

lemma does_quiet:
  assumes "does E M m a (\<lambda>h. [])" and "does E M (k a) r ds"
  shows "does E M (io_bind m k) r ds"
  using does_bind [of E M m a "\<lambda>h. []" k r ds] assms by simp

lemma does_try:
  assumes "does E M m a (\<lambda>h. [])" and "does E M (k (Inr a)) r ds"
  shows "does E M (io_try m k) r ds"
proof (rule doesI)
  fix s assume "fs_clean E M (ex_fs s)"
  from assms(1) this obtain s1 where 1: "m s = (Ok a, s1)" "fs_clean E M (ex_fs s1)" "ex_fds s1 = ex_fds s"
    "ex_calls s1 = ex_calls s @ []" by (rule doesE)
  from assms(2) 1(2) obtain s2 where "k (Inr a) s1 = (Ok r, s2)" "fs_clean E M (ex_fs s2)" "ex_fds s2 = ex_fds s1"
    "ex_calls s2 = ex_calls s1 @ ds (ex_calls s1)" by (rule doesE)
  with 1 show "\<exists>s'. io_try m k s = (Ok r, s') \<and> fs_clean E M (ex_fs s') \<and> ex_fds s' = ex_fds s \<and>
      ex_calls s' = ex_calls s @ ds (ex_calls s)" by (simp add: io_simps)
qed

lemma does_ex:
  assumes "does E M m (Inr a) cs" and "does E M (k a) r ds"
  shows "does E M (ex_bind m k) r (\<lambda>h. cs h @ ds (h @ cs h))"
  unfolding ex_bind_def by (rule does_bind [OF assms(1)]) (simp add: assms(2))

lemma does_say: "does E M (say m) () (\<lambda>h. [])"
  by (rule doesI) (simp add: say_def on_tool_def on_open_def print_err_def io_simps)

lemma does_out: "does E M (say_out m) () (\<lambda>h. [])"
  by (rule doesI) (simp add: say_out_def on_tool_def print_out_def io_simps)

lemma does_image:
  assumes "yields E M m (Ok a)" and "\<not> ev_oom E"
  shows "does E M (ex_image m) a (\<lambda>h. [])"
proof (rule doesI)
  fix s assume "fs_clean E M (ex_fs s)"
  with assms obtain f where "m (ex_fs s) = (Ok a, f)" "fs_clean E M f" by (auto elim: implements_OkD)
  then show "\<exists>s'. ex_image m s = (Ok a, s') \<and> fs_clean E M (ex_fs s') \<and> ex_fds s' = ex_fds s \<and> ex_calls s' = ex_calls s @ []"
    by (simp add: ex_image_def on_tool_def io_simps)
qed

lemma does_host:
  assumes "\<And>h. does E M (k (xe_sys X h c)) r ds"
  shows "does E M (io_bind (host X c) k) r (\<lambda>h. c # ds (h @ [c]))"
proof (rule doesI)
  fix s assume "fs_clean E M (ex_fs s)"
  then have "fs_clean E M (ex_fs (s\<lparr>ex_calls := ex_calls s @ [c]\<rparr>))" by simp
  from assms this obtain s' where "k (xe_sys X (ex_calls s) c) (s\<lparr>ex_calls := ex_calls s @ [c]\<rparr>) = (Ok r, s')"
    "fs_clean E M (ex_fs s')" "ex_fds s' = ex_fds (s\<lparr>ex_calls := ex_calls s @ [c]\<rparr>)"
    "ex_calls s' = ex_calls (s\<lparr>ex_calls := ex_calls s @ [c]\<rparr>) @ ds (ex_calls (s\<lparr>ex_calls := ex_calls s @ [c]\<rparr>))" by (rule doesE)
  then show "\<exists>s'. io_bind (host X c) k s = (Ok r, s') \<and> fs_clean E M (ex_fs s') \<and>
      ex_fds s' = ex_fds s \<and> ex_calls s' = ex_calls s @ c # ds (ex_calls s @ [c])"
    by (simp add: host_def io_simps)
qed

lemmas does_seq = does_quiet [OF does_say] does_quiet [OF does_out]

lemma does_say_ret: "does E M (io_bind (say m) (\<lambda>_. io_ret r)) r (\<lambda>h. [])"
  by (intro does_seq does_ret)

section \<open>Entries\<close>

lemma does_make_dir:
  assumes "obedient X"
  shows "does E M (make_dir X q) (Inr ()) (dir_calls X q)"
proof (rule doesI)
  fix s assume "fs_clean E M (ex_fs s)"
  then show "\<exists>s'. make_dir X q s = (Ok (Inr ()), s') \<and> fs_clean E M (ex_fs s') \<and> ex_fds s' = ex_fds s \<and>
      ex_calls s' = ex_calls s @ dir_calls X q (ex_calls s)"
    using assms by (simp add: make_dir_def host_def io_simps obedient_def dir_calls_def)
qed

lemma drop_chunks:
  assumes "n < length bs"
  shows "chunks (drop n bs) = take 65536 (drop n bs) # chunks (drop (n + 65536) bs)"
  using assms by (subst chunks.simps) (simp add: add.commute)

lemma does_chunks:
  assumes im: "img_ok (ev_img E)" and oom: "\<not> ev_oom E" and h: "file_holds E inode hs ds tail"
    and x: "in_xtra inode = X_Reg st fsz fidx foff" and ct: "ct = file_content ds tail"
    and reach: "\<forall>k. 65536 * k < unat fsz \<longrightarrow> list_reachable E inode st hs (65536 * k)"
  shows "unat fsz \<le> pos + fuel \<Longrightarrow> pos \<le> unat fsz \<Longrightarrow> pos < unat fsz \<longrightarrow> pos mod 65536 = 0 \<and> at = 65536 \<Longrightarrow>
    does E M (extract_chunks fuel X q inode (int pos) at) (Inr ()) (\<lambda>h. map (Fwrite q) (chunks (drop pos ct)))"
proof (induction fuel arbitrary: pos at)
  case 0
  have f: "unat fsz < 2 ^ 62" using h x by (simp add: file_holds_def Let_def)
  have "\<not> u64_of_off (int pos) < fsz" using 0 f u64_of_off_nat [of "int pos"] by (simp add: word_less_nat_alt)
  moreover have "length ct = unat fsz" unfolding ct by (rule file_content_length [OF h x refl])
  ultimately show ?case using 0 x does_ret [of E M "Inr ()"] by (simp add: extract_chunks.simps chunks.simps)
next
  case (Suc fuel)
  have f: "unat fsz < 2 ^ 62" using h x by (simp add: file_holds_def Let_def)
  have len: "length ct = unat fsz" unfolding ct by (rule file_content_length [OF h x refl])
  have u: "u64_of_off (int pos) < fsz \<longleftrightarrow> pos < unat fsz"
    using Suc.prems(2) f u64_of_off_nat [of "int pos"] by (simp add: word_less_nat_alt)
  show ?case
  proof (cases "pos < unat fsz")
    case False
    then show ?thesis using Suc.prems(2) x u len does_ret [of E M "Inr ()"] by (simp add: extract_chunks.simps chunks.simps)
  next
    case True
    then obtain k where k: "pos = 65536 * k" "at = 65536" using Suc.prems(3) by auto
    let ?bs = "take 65536 (drop pos ct)"
    have rd: "yields E M (sqfs_read_range inode (int pos) 65536) (Ok ?bs)"
    proof -
      have "int pos < int (unat fsz)" "list_reachable E inode st hs (nat (int pos))" using True reach k(1) by (simp_all only: of_nat_less_iff nat_int)
      from sqfs_read_range_any [OF im h x _ _ _ this, of 65536 M] show ?thesis unfolding ct by (simp only: nat_int) simp
    qed
    have bs: "length ?bs = min 65536 (unat fsz - pos)" using len by simp
    have "drop (pos + 65536) ct = drop (pos + length ?bs) ct" using bs len by (simp add: min_def)
    then have c: "chunks (drop pos ct) = ?bs # chunks (drop (pos + length ?bs) ct)" using drop_chunks [of pos ct] True len by simp
    have oa: "off_add (int pos) (length ?bs) = int (pos + length ?bs)"
      using bs True f by simp
    have "does E M (extract_chunks fuel X q inode (int (pos + length ?bs)) (int (length ?bs))) (Inr ())
        (\<lambda>h. map (Fwrite q) (chunks (drop (pos + length ?bs) ct)))"
      using bs True Suc.prems(1) k by (intro Suc.IH) (auto simp: min_def)
    then have "does E M (io_bind (host X (Fwrite q ?bs)) (\<lambda>_. extract_chunks fuel X q inode (off_add (int pos) (length ?bs)) (int (length ?bs))))
        (Inr ()) (\<lambda>h. Fwrite q ?bs # map (Fwrite q) (chunks (drop (pos + length ?bs) ct)))"
      unfolding oa by (rule does_host)
    then have "does E M (io_try (ex_image (sqfs_read_range inode (int pos) 65536)) (\<lambda>r. case r of
          Inl _ \<Rightarrow> extract_die ''sqfs_read_range error''
        | Inr bs \<Rightarrow> io_bind (host X (Fwrite q bs)) (\<lambda>_. extract_chunks fuel X q inode (off_add (int pos) (length bs)) (int (length bs)))))
        (Inr ()) (\<lambda>h. map (Fwrite q) (chunks (drop pos ct)))"
      unfolding c by (intro does_try [OF does_image [OF rd oom]]) simp
    then show ?thesis using True u x k(2) by (subst extract_chunks.simps) simp
  qed
qed

lemma does_reg:
  assumes "img_ok (ev_img E)" and oom: "\<not> ev_oom E" and ob: "obedient X" and nd: "inode_is E M X inode (N_Reg mode ct)"
  shows "does E M (extract_reg X (prefix @ p) inode) (Inr ()) (node_calls X p (N_Reg mode ct))"
proof -
  let ?q = "prefix @ p"
  obtain hs ds tail st fsz fidx foff stt where f: "file_holds E inode hs ds tail" "in_xtra inode = X_Reg st fsz fidx foff"
    "ct = file_content ds tail" "\<forall>k. 65536 * k < unat fsz \<longrightarrow> list_reachable E inode st hs (65536 * k)"
    and stt: "yields E M (sqfs_stat (xe_makedev X) inode) (Ok stt)" "st_mode stt = mode"
    using nd by (auto simp: inode_is_def Let_def)
  have fs: "xtra_file_size X (in_xtra inode) = fsz" using f(2) by (simp add: xtra_file_size_def)
  have c: "does E M (extract_chunks (unat fsz) X ?q inode 0 65536) (Inr ()) (\<lambda>h. map (Fwrite ?q) (chunks ct))"
    using does_chunks [OF assms(1) oom f, of 0 "unat fsz" 65536 M X ?q] by simp
  have "does E M (io_bind (host X (Fclose ?q)) (\<lambda>_. io_bind (host X (Chmod ?q mode)) (\<lambda>_. io_ret (Inr ())))) (Inr ())
      (\<lambda>h. [Fclose ?q, Chmod ?q mode])" by (intro does_host does_ret)
  then have "does E M (ex_bind (extract_chunks (unat fsz) X ?q inode 0 65536) (\<lambda>_.
      io_bind (host X (Fclose ?q)) (\<lambda>_. io_bind (host X (Chmod ?q mode)) (\<lambda>_. io_ret (Inr ()))))) (Inr ())
      (\<lambda>h. map (Fwrite ?q) (chunks ct) @ [Fclose ?q, Chmod ?q mode])" by (rule does_ex [OF c])
  then have "does E M (io_bind (host X (Fopen ?q)) (\<lambda>opened. if \<not> opened then extract_die ''fopen error'' else
      ex_bind (extract_chunks (unat fsz) X ?q inode 0 65536) (\<lambda>_.
      io_bind (host X (Fclose ?q)) (\<lambda>_. io_bind (host X (Chmod ?q mode)) (\<lambda>_. io_ret (Inr ()))))))
      (Inr ()) (\<lambda>h. Fopen ?q # map (Fwrite ?q) (chunks ct) @ [Fclose ?q, Chmod ?q mode])"
    using ob by (intro does_host) (simp add: obedient_def)
  then show ?thesis unfolding extract_reg_def node_calls.simps [abs_def] fs
    by (intro does_seq does_try [OF does_image [OF stt(1) oom]]) (simp only: sum.case stt(2), intro does_seq)
qed

lemma does_link:
  assumes im: "img_ok (ev_img E)" and oom: "\<not> ev_oom E" and ob: "obedient X" and nd: "inode_is E M X inode (N_Link target)"
    and len: "length p + 1 < 2 ^ 64"
  shows "does E M (extract_symlink X p (prefix @ p) inode) (Inr ()) (node_calls X p (N_Link target))"
proof -
  let ?q = "prefix @ p" and ?t = "take (length p) target"
  obtain c where l: "S_ISLNK (in_mode inode)" "in_xtra inode = X_Symlink (length target)" "cur_ok (in_next inode)"
    "md_holds (ev_img E) (in_next inode) target c" "0 \<notin> set target" using nd by (auto simp: inode_is_def Let_def)
  have rl: "yields E M (sqfs_readlink inode True (length p + 1)) (Ok (Inr (?t @ [0])))"
    using sqfs_readlink_target [OF im l(3,1,2,4), of "length p + 1" M] len by simp
  have "takeWhile (\<lambda>c. c \<noteq> 0) ?t = ?t" using l(5) by (auto simp: takeWhile_eq_all_conv dest: in_set_takeD)
  then have cs: "c_string (map Some (?t @ [0])) = Ok ?t" using c_string_take [of ?t "map Some (?t @ [0])"] by simp
  have lift: "does E M (io_lift (Ok ?t)) ?t (\<lambda>h. [])" by (rule doesI) (simp add: io_simps)
  have "does E M (io_bind (host X (Unlink ?q)) (\<lambda>_. io_bind (host X (Symlink ?t ?q)) (\<lambda>made.
      if made then io_ret (Inr ()) else extract_die ''symlink error''))) (Inr ()) (\<lambda>h. [Unlink ?q, Symlink ?t ?q])"
    using ob by (intro does_host) (simp add: obedient_def does_ret)
  then show ?thesis unfolding extract_symlink_def sqfs_symlink_def node_calls.simps [abs_def]
    by (intro does_try [OF does_image [OF rl oom]]) (simp only: sum.case cs, intro does_quiet [OF lift] does_seq)
qed

lemma does_assume:
  assumes "\<And>f. fs_clean E M f \<Longrightarrow> does E M m r cs"
  shows "does E M m r cs"
  using assms by (intro doesI) (auto simp: does_def)

text \<open>One entry that is wanted.\<close>

lemma does_entry:
  assumes im: "img_ok (ev_img E)" and oom: "\<not> ev_oom E" and ob: "obedient X" and nd: "node_holds E M X (ent_inode e) nd"
    and len: "length p < 1010"
  shows "does E M (extract_entry X p e) (Inr ()) (node_calls X p nd)"
proof -
  obtain inode where ino: "yields E M (sqfs_inode_get (ent_inode e)) (Ok inode)" "inode_is E M X inode nd"
    using nd by (auto simp: node_holds_def)
  let ?t = "bi_inode_type (in_base inode)"
  have "does E M (if ?t = SQUASHFS_DIR_TYPE then extract_dir X (prefix @ p) inode
      else if ?t = SQUASHFS_REG_TYPE then extract_reg X (prefix @ p) inode
      else if ?t = SQUASHFS_SYMLINK_TYPE then extract_symlink X p (prefix @ p) inode
      else io_bind (say (''TODO: Implement inode.base.inode_type '' @ show_nat (unat ?t))) (\<lambda>_. io_ret (Inr ())))
      (Inr ()) (node_calls X p nd)"
  proof (cases nd)
    case N_Dir
    then have t: "?t = SQUASHFS_DIR_TYPE" using ino(2) by (simp add: inode_is_def)
    show ?thesis
    proof (rule does_assume)
      fix f assume "fs_clean E M f"
      with ino(1) oom have "\<exists>f'. sqfs_inode_get (ent_inode e) f = (Ok inode, f')" by (auto elim: implements_OkD)
      then have "xtra_matches ?t (in_xtra inode)" using sqfs_inode_get_matches by blast
      with t have "extract_dir X (prefix @ p) inode = (case in_xtra inode of X_Dir _ _ _ _ parent \<Rightarrow>
          io_bind (say (''inode.xtra.dir.parent_inode: '' @ show_nat (unat parent) @ ''i'')) (\<lambda>_.
          io_bind (say (''mkdir: '' @ chars_of (prefix @ p) @ ''/'')) (\<lambda>_. make_dir X (prefix @ p))))"
        by (auto simp: extract_dir_def xtra_matches_def split: inode_xtra.splits)
      then show ?thesis using t N_Dir \<open>xtra_matches ?t (in_xtra inode)\<close> does_seq(1) [OF does_seq(1) [OF does_make_dir [OF ob]]]
        by (auto simp: xtra_matches_def node_calls.simps [abs_def] split: inode_xtra.splits)
    qed
  next
    case (N_Reg mode ct)
    then have "?t = SQUASHFS_REG_TYPE" using ino(2) by (simp add: inode_is_def)
    then show ?thesis using does_reg [OF im oom ob ino(2) [unfolded N_Reg], of p] N_Reg by simp
  next
    case (N_Link target)
    then have "?t = SQUASHFS_SYMLINK_TYPE" using ino(2) by (simp add: inode_is_def)
    then show ?thesis using does_link [OF im oom ob ino(2) [unfolded N_Link], of p] len N_Link by simp
  next
    case N_Other
    then show ?thesis using ino(2) does_say_ret by (simp add: inode_is_def Let_def node_calls.simps [abs_def])
  qed
  moreover have "does E M (io_lift (prefixed_path p)) (prefix @ p) (\<lambda>h. [])"
    using len by (intro doesI) (simp add: prefixed_path_def prefix_def io_simps)
  ultimately have i: "does E M (extract_inode X p inode) (Inr ()) (node_calls X p nd)"
    unfolding extract_inode_def Let_def by (intro does_seq does_quiet)
  have "does E M (ex_bind (extract_inode X p inode) (\<lambda>_. io_bind (say []) (\<lambda>_. io_ret (Inr ())))) (Inr ()) (node_calls X p nd)"
    using does_ex [OF i, of "\<lambda>_. io_bind (say []) (\<lambda>_. io_ret (Inr ()))" "Inr ()" "\<lambda>h. []"] does_say_ret [of E M "[]" "Inr () :: int + unit"] by simp
  then show ?thesis unfolding extract_entry_def by (intro does_seq does_try [OF does_image [OF ino(1) oom]]) simp
qed

section \<open>The whole tree\<close>

fun extract_update :: "extract_env \<Rightarrow> bytes \<Rightarrow> (sqfs_inode_id \<Rightarrow> node) \<Rightarrow> visit \<Rightarrow> host_call list \<Rightarrow> host_call list" where
  "extract_update X want nodes (Entry_At p e) h =
     (if wanted want p then h @ node_calls X p (nodes (ent_inode e)) h else h)"
| "extract_update X want nodes (Dir_End p) h = h"

definition extract_fit ::
  "fs_env \<Rightarrow> nat multiset \<Rightarrow> extract_env \<Rightarrow> bytes \<Rightarrow> (sqfs_inode_id \<Rightarrow> node) \<Rightarrow> visit \<Rightarrow> bool" where
  "extract_fit E M X want nodes v \<longleftrightarrow> img_ok (ev_img E) \<and> \<not> ev_oom E \<and> obedient X \<and> (case v of
     Entry_At p e \<Rightarrow> 0 \<notin> set p \<and>
       (wanted want p \<longrightarrow> length p < 1010 \<and> node_holds E M X (ent_inode e) (nodes (ent_inode e)))
   | Dir_End p \<Rightarrow> True)"

definition put_image :: "sqfs \<Rightarrow> extract_state \<Rightarrow> extract_state" where
  "put_image f s = s\<lparr>ex_tool := with_image f (ex_tool s)\<rparr>"

definition extract_seen :: "extract_state \<Rightarrow> host_call list \<times> nat" where
  "extract_seen s = (ex_calls s, ex_fds s)"

lemma ex_image_run [io_simps]:
  "ex_image m s = (case m (ex_fs s) of (r, f) \<Rightarrow> (r, put_image f s))"
  by (simp add: ex_image_def on_tool_def put_image_def io_simps split: prod.split)

lemma put_image_fields [simp]:
  "ex_fs (put_image f s) = f" "ex_fds (put_image f s) = ex_fds s" "ex_calls (put_image f s) = ex_calls s"
  "put_image f (put_image g s) = put_image f s"
  by (simp_all add: put_image_def)

lemma extract_loop_work:
  assumes nx: "sqfs_traverse_next trv (ex_fs t) = (Ok ((True, err), trv'), f)" and p: "path_is (visit_path (trv_visit trv')) trv'"
    and f: "fs_clean E M f" and fit: "extract_fit E M X want nodes (trv_visit trv')"
  shows "\<exists>t'. extract_loop X want (Suc n) trv t = extract_loop X want n trv' t' \<and> fs_clean E M (ex_fs t') \<and>
    extract_seen t' = apfst (extract_update X want nodes (trv_visit trv')) (extract_seen t)"
proof (cases "tv_dir_end trv'")
  case True
  then show ?thesis using nx f by (intro exI [of _ "put_image f t"])
      (simp add: io_simps ex_bind_def extract_seen_def trv_visit_def)
next
  case False
  let ?p = "trv_path_string trv'" and ?e = "tv_entry trv'" and ?t = "put_image f t"
  have v: "trv_visit trv' = Entry_At ?p ?e" using False by (simp add: trv_visit_def)
  then have z: "takeWhile (\<lambda>c. c \<noteq> 0) ?p = ?p" using fit by (auto simp: extract_fit_def takeWhile_eq_all_conv)
  from trv_path_is [OF p] have tp: "trv_path trv' = Ok ?p" using v z by simp
  show ?thesis
  proof (cases "wanted want ?p")
    case True
    then have e: "does E M (extract_entry X ?p ?e) (Inr ()) (node_calls X ?p (nodes (ent_inode ?e)))"
      using fit v by (intro does_entry) (simp_all add: extract_fit_def)
    have "fs_clean E M (ex_fs ?t)" using f by simp
    from e this obtain t' where t': "extract_entry X ?p ?e ?t = (Ok (Inr ()), t')" "fs_clean E M (ex_fs t')" "ex_fds t' = ex_fds ?t"
      "ex_calls t' = ex_calls ?t @ node_calls X ?p (nodes (ent_inode ?e)) (ex_calls ?t)" by (rule doesE)
    then show ?thesis using nx False tp True v
      by (intro exI [of _ t']) (simp add: io_simps ex_bind_def extract_seen_def)
  next
    case not: False
    then show ?thesis using nx f False tp v
      by (intro exI [of _ ?t]) (simp add: io_simps ex_bind_def extract_seen_def)
  qed
qed

interpretation exc: traversal_client E M ex_fs put_image extract_seen "\<lambda>v. apfst (extract_update X want nodes v)"
  "extract_fit E M X want nodes" "extract_loop X want" "\<lambda>err trv. Inr (err, trv)" for E M X want nodes
proof
  fix f g t
  show "ex_fs (put_image f t) = f" "extract_seen (put_image f t) = extract_seen t" "put_image f (put_image g t) = put_image f t"
    by (simp_all add: extract_seen_def)
next
  fix trv t err trv' f n
  assume "sqfs_traverse_next trv (ex_fs t) = (Ok ((False, err), trv'), f)"
  then show "extract_loop X want (Suc n) trv t = (Ok (Inr (err, trv')), put_image f t)" by (simp add: io_simps)
next
  fix trv t trv' f n
  assume "sqfs_traverse_next trv (ex_fs t) = sqfs_traverse_next trv' f"
  then show "extract_loop X want (Suc n) trv t = extract_loop X want (Suc n) trv' (put_image f t)"
    by (simp add: io_bind_run ex_image_run)
qed (rule extract_loop_work)

lemma fold_apfst: "fold (\<lambda>v. apfst (g v)) vs (a, b) = (fold g vs a, b)"
  by (induction vs arbitrary: a) simp_all

text \<open>The whole program.\<close>

lemma extract_main_calls:
  assumes open_ok: "sqfs_open_image env file 0 (ts_os (ex_tool s)) = (Ok fd, os)" and im: "img_ok (ev_img E)"
    and oom: "\<not> ev_oom E" and cl: "fs_clean E M (os_fs os)" and ob: "obedient X"
    and root: "yields E M (sqfs_inode_get (sb_root_inode (fs_sb (ev_img E)))) (Ok inode)" "entries_hold E inode ts"
    and trees: "\<forall>t \<in> set ts. tree_holds E M t" "short (forest_visits ts)"
    and fit: "\<forall>v \<in> set (forest_visits ts). extract_fit E M X want nodes v"
  shows "\<exists>s'. extract_main env X junk (Suc (length (forest_visits ts)) + n) [prog, file, want] s = (Ok 0, s') \<and>
    ex_calls s' = fold (extract_update X want nodes) (forest_visits ts) (ex_calls s @ dir_calls X prefix (ex_calls s)) \<and>
    ex_fds s' = os_fds os - 1"
proof -
  let ?f = "os_fs os" and ?h = "ex_calls s @ dir_calls X prefix (ex_calls s)"
  let ?s1 = "s\<lparr>ex_calls := ?h\<rparr>" and ?s2 = "s\<lparr>ex_calls := ?h, ex_tool := (ex_tool s)\<lparr>ts_os := os\<rparr>\<rparr>"
  have mk: "make_dir X prefix s = (Ok (Inr ()), ?s1)"
    using ob by (simp add: make_dir_def host_def io_simps obedient_def dir_calls_def)
  have "fs_img ?f = ev_img E" using cl by (simp add: fs_inv_def)
  then have r: "sqfs_inode_root ?f = sb_root_inode (fs_sb (ev_img E))" by (metis fs_img_fields(3) sqfs_inode_root_def)
  from traverse_visits [OF im oom cl root trees] obtain trv f1 where
    t: "sqfs_traverse_open (sqfs_inode_root ?f) junk ?f = (Ok (Inr (), trv), f1)"
      "tours E M (trv_at E M [] [] TRAVERSE_FINISHED) trv f1 (forest_visits ts)" unfolding r by blast
  have "tv_state trv' = TRAVERSE_FINISHED" if "trv_at E M [] [] TRAVERSE_FINISHED trv' f'" for trv' f'
    using that by (simp add: trv_at_def)
  with exc.loop_tours [OF t(2), of "put_image f1 ?s2" X want nodes n] fit obtain trv' s3 where
    l: "extract_loop X want (Suc (length (forest_visits ts)) + n) trv (put_image f1 ?s2) = (Ok (Inr (None, trv')), s3)"
      "trv_at E M [] [] TRAVERSE_FINISHED trv' (ex_fs s3)"
      "extract_seen s3 = (fold (extract_update X want nodes) (forest_visits ts) ?h, os_fds os)"
    by (auto simp: extract_seen_def fold_apfst)
  from traverse_close_run [OF l(2)] obtain trv2 where c: "sqfs_traverse_close trv' (ex_fs s3) = (Ok trv2, ex_fs s3)" by blast
  show ?thesis using open_ok mk t(1) l(1,3) c
    by (simp del: extract_loop.simps add: extract_main_def extract_run_def ex_bind_def on_tool_def on_open_def io_simps sqfs_fd_close_def extract_seen_def)
qed

section \<open>What the system has afterwards\<close>

text \<open>The contents of the files, from the calls made: \<^verbatim>\<open>fopen\<close> with mode \<^verbatim>\<open>w+\<close> empties a file,
  \<^verbatim>\<open>fwrite\<close> adds at its end, \<^verbatim>\<open>unlink\<close> removes it.\<close>

fun replay_call :: "host_call \<Rightarrow> (bytes \<rightharpoonup> bytes) \<Rightarrow> (bytes \<rightharpoonup> bytes)" where
  "replay_call (Fopen q) m = m(q \<mapsto> [])"
| "replay_call (Fwrite q bs) m = m(q \<mapsto> (case m q of None \<Rightarrow> bs | Some xs \<Rightarrow> xs @ bs))"
| "replay_call (Unlink q) m = m(q := None)"
| "replay_call c m = m"

definition replay :: "host_call list \<Rightarrow> (bytes \<rightharpoonup> bytes)" where
  "replay cs = fold replay_call cs Map.empty"

fun entry_paths :: "visit list \<Rightarrow> bytes list" where
  "entry_paths [] = []"
| "entry_paths (Entry_At p e # vs) = p # entry_paths vs"
| "entry_paths (Dir_End p # vs) = entry_paths vs"

lemma replay_append: "replay (cs @ ds) = fold replay_call ds (replay cs)"
  by (simp add: replay_def)

lemma replay_writes: "m q = Some xs \<Longrightarrow> fold replay_call (map (Fwrite q) bss) m = m(q \<mapsto> xs @ concat bss)"
  by (induction bss arbitrary: m xs) (auto simp: fun_upd_idem)

lemma replay_node:
  "replay (h @ node_calls X p nd h) (prefix @ p) = (case nd of N_Reg mode ct \<Rightarrow> Some ct | N_Link t \<Rightarrow> None | _ \<Rightarrow> replay h (prefix @ p))"
  "q \<noteq> p \<Longrightarrow> replay (h @ node_calls X p nd h) (prefix @ q) = replay h (prefix @ q)"
  by (cases nd; simp add: replay_append dir_calls_def replay_writes concat_chunks)+

lemma replay_untouched:
  "p \<notin> set (entry_paths vs) \<Longrightarrow> replay (fold (extract_update X want nodes) vs h) (prefix @ p) = replay h (prefix @ p)"
proof (induction vs arbitrary: h rule: entry_paths.induct)
  case (2 p' e vs)
  then show ?case using replay_node(2) [of p p' h X "nodes (ent_inode e)"] by simp
qed simp_all

text \<open>If no two entries have the same path, every regular file that is wanted has its contents in the end.\<close>

lemma replay_contents:
  assumes "Entry_At p e \<in> set vs" and "distinct (entry_paths vs)" and "wanted want p" and "nodes (ent_inode e) = N_Reg mode ct"
  shows "replay (fold (extract_update X want nodes) vs h) (prefix @ p) = Some ct"
  using assms(1,2)
proof (induction vs arbitrary: h rule: entry_paths.induct)
  case (2 p' e' vs)
  show ?case
  proof (cases "Entry_At p e = Entry_At p' e'")
    case True
    then have "p \<notin> set (entry_paths vs)" using 2 by simp
    then show ?thesis using True assms(3,4) replay_node(1) [of h X p "N_Reg mode ct"]
      by (simp add: replay_untouched)
  next
    case False
    then show ?thesis using 2 by auto
  qed
qed simp_all

end
