(* ===== verification/Sqfs_Bigfile.thy ===== *)
theory Sqfs_Bigfile
  imports Sqfs_Image Sqfs_Blockidx
begin

text \<open>
  An image with a file whose block list runs over a metadata block, so that its blocks are found through the
  block index: 2049 sparse blocks of one byte each. The metadata blocks are written symbolically; nothing is
  evaluated byte by byte.
\<close>

lemma md_read_whole_block:
  assumes im: "img_ok im" and cur: "cur_ok cur" "cur_offset cur = 0"
    and d: "md_block_spec im (cur_block cur) = Ok (d, ds)" "d \<noteq> []"
  shows "md_holds im cur d \<lparr>cur_block = off_add (cur_block cur) ds, cur_offset = 0\<rparr>"
proof -
  have len: "length d \<le> 32768" by (rule md_block_spec_size [OF im d(1)])
  then have tk: "md_tk d cur (length d) = length d" using cur(2) by (simp add: md_tk_def)
  have "md_move d ds cur (length d) = \<lparr>cur_block = off_add (cur_block cur) ds, cur_offset = 0\<rparr>"
    using len cur(2) tk by (simp add: md_move_def)
  then show ?thesis
    using md_read_spec_unfold [OF im cur(1), of "length d" True] d cur(2) tk by (simp add: ms.holds_def)
qed

lemma concat_replicate_replicate: "concat (replicate n (replicate k x)) = replicate (n * k) x"
  by (induction n) (simp_all add: replicate_add)

section \<open>The image\<close>

definition big_head :: bytes where "big_head = replicate 8192 0"
definition big_rest :: bytes where "big_rest = replicate 8 0"

definition big_fd :: bytes where
  "big_fd = [0] @ md_block_bytes big_head @ md_block_bytes big_rest"

definition big_fs :: sqfs where
  "big_fs = wit_fs\<lparr>fs_fd := big_fd, fs_sb := wit_sb\<lparr>sb_block_size := 1, sb_inode_table_start := 0\<rparr>\<rparr>"

abbreviation big_img :: sqfs_image where "big_img \<equiv> fs_img big_fs"

definition big_inode :: sqfs_inode where
  "big_inode = \<lparr>in_base = \<lparr>bi_inode_type = SQUASHFS_REG_TYPE, bi_mode = 0x81A4, bi_uid = 0, bi_guid = 0, bi_mtime = 0,
     bi_inode_number = 1\<rparr>, in_nlink = 1, in_xattr = SQUASHFS_INVALID_XATTR,
     in_next = \<lparr>cur_block = 1, cur_offset = 0\<rparr>, in_xtra = X_Reg 0 2049 SQUASHFS_INVALID_FRAG 0\<rparr>"

abbreviation big_hdrs :: "u32 list" where "big_hdrs \<equiv> replicate 2049 0"

definition big_env :: fs_env where
  "big_env = \<lparr>ev_img = big_img, ev_oracle = (\<lambda>_. True), ev_hdr = (\<lambda>w k. 0),
     ev_idx = (\<lambda>k. index_holds big_img big_inode 0 big_hdrs)\<rparr>"

lemma big_lengths [simp]: "length big_head = 8192" "length big_rest = 8" "length big_fd = 8205"
  by (simp_all add: big_head_def big_rest_def big_fd_def)

lemma big_simps [simp]:
  "fs_fd big_fs = big_fd" "fs_offset big_fs = 0" "fs_sb big_fs = wit_sb\<lparr>sb_block_size := 1, sb_inode_table_start := 0\<rparr>"
  "fs_decompressor big_fs = Some (sqfs_decompressor_zlib wit_uncompress)" "ev_img big_env = big_img" "\<not> ev_oom big_env"
  "in_next big_inode = \<lparr>cur_block = 1, cur_offset = 0\<rparr>" "in_xtra big_inode = X_Reg 0 2049 SQUASHFS_INVALID_FRAG 0"
  "bi_inode_number (in_base big_inode) = 1" "in_mode big_inode = 0x81A4"
  by (simp_all add: big_fs_def big_env_def big_inode_def ev_oom_def in_mode_def)

lemma big_img_ok [simp]: "img_ok big_img"
  using wit_img_ok by (simp add: img_ok_def)

lemma big_clean: "fs_clean big_env {#} big_fs"
  by (rule fs_clean_fresh) (simp_all add: caches_ready_def big_fs_def wit_fs_def big_env_def wit_heap_def heap_owned_def)

lemma big_blocks:
  "md_block_spec big_img 1 = Ok (big_head, 8194)" "md_block_spec big_img 8195 = Ok (big_rest, 10)"
proof -
  have "img_at big_img 1 (md_block_bytes big_head)" "img_at big_img 8195 (md_block_bytes big_rest)"
    by (simp_all add: img_at_def big_fd_def)
  from img_at_md_block [OF this(1)] img_at_md_block [OF this(2)]
  show "md_block_spec big_img 1 = Ok (big_head, 8194)" "md_block_spec big_img 8195 = Ok (big_rest, 10)" by simp_all
qed

lemma big_nth: "md_nth big_img 1 m = (if m = 0 then Some 1 else if m = 1 then Some 8195 else None)"
proof (induction m)
  case (Suc m)
  then show ?case by (auto simp: md_nth.simps(2) big_blocks)
qed simp

lemma big_bytes: "concat (map (le_bytes 4) big_hdrs) = big_head @ replicate 4 0"
proof -
  have "le_bytes 4 (0 :: u32) = replicate 4 0" by (simp add: numeral_eq_Suc)
  then have "concat (map (le_bytes 4) big_hdrs) = replicate (2049 * 4) 0"
    by (simp only: map_replicate concat_replicate_replicate)
  also have "\<dots> = replicate (8192 + 4) 0" by simp
  finally show ?thesis unfolding replicate_add big_head_def .
qed

lemma big_list: "md_holds big_img \<lparr>cur_block = 1, cur_offset = 0\<rparr> (concat (map (le_bytes 4) big_hdrs)) \<lparr>cur_block = 8195, cur_offset = 4\<rparr>"
proof -
  have ok: "cur_ok \<lparr>cur_block = 1, cur_offset = 0\<rparr>" by simp
  have "big_head \<noteq> []" by (metis big_lengths(1) list.size(3) zero_neq_numeral)
  then have 1: "md_holds big_img \<lparr>cur_block = 1, cur_offset = 0\<rparr> big_head \<lparr>cur_block = 8195, cur_offset = 0\<rparr>"
    using md_read_whole_block [OF big_img_ok ok, of big_head 8194] big_blocks(1) by simp
  have "img_at big_img 8195 (md_block_bytes big_rest)" by (simp add: img_at_def big_fd_def)
  from md_holds_block [OF big_img_ok this, of 0 "replicate 4 0"]
  have "md_holds big_img \<lparr>cur_block = 8195, cur_offset = 0\<rparr> (replicate 4 0) \<lparr>cur_block = 8195, cur_offset = 4\<rparr>"
    by (simp add: big_rest_def)
  with 1 show ?thesis unfolding big_bytes using ms.holds_append [of big_img "\<lparr>cur_block = 1, cur_offset = 0\<rparr>"] ok by auto
qed

lemma big_file_holds: "file_holds big_env big_inode big_hdrs (replicate 2049 [0]) []"
proof -
  have "hdr_size 0 = 0" by (simp add: hdr_size_def sqfs_data_header_def)
  moreover have "sqfs_blocklist_count (wit_sb\<lparr>sb_block_size := 1, sb_inode_table_start := 0\<rparr>) big_inode = Ok 2049"
    by (simp add: sqfs_blocklist_count_def sqfs_divceil_def)
  ultimately show ?thesis using big_list
    by (auto simp: file_holds_def block_holds_def S_ISREG_def min_def)
qed

lemma big_indexable: "indexable big_env big_inode 0 big_hdrs"
proof -
  have "md_span big_img \<lparr>cur_block = 1, cur_offset = 0\<rparr> 8196"
    using big_blocks by (simp add: md_span_def big_nth)
  moreover have "u64_of_off p - 0 < 2 ^ 32" if "md_nth big_img 1 m = Some p" for m p
    using that by (auto simp: big_nth u64_of_off_def split: if_splits)
  ultimately show ?thesis by (simp add: indexable_def big_env_def)
qed

end
