(* ===== verification/Sqfs_Cache_MT.thy ===== *)
theory Sqfs_Cache_MT
  imports Sqfs_Cache
begin

text \<open>
  The thread-safe cache, \<^verbatim>\<open>cache_mt.c\<close>: one candidate slot per key, chosen by a hash,
  and one mutex per slot that \<^verbatim>\<open>sqfs_cache_get\<close> takes and \<^verbatim>\<open>sqfs_cache_put\<close>
  releases. In sequential use the cache satisfies the same interface as \<^verbatim>\<open>cache.c\<close>; a
  thread that asks for a mutex it already holds waits for ever (\<open>Diverges\<close>).
  Several threads are interleavings of get, fill and put: the step relation \<open>mt_step\<close>, in which a
  get is enabled only while the mutex of its slot is free. The invariant \<open>mt_sys_inv\<close> holds in
  every reachable state: a locked slot has exactly one holder, whose key is the slot's.
\<close>

section \<open>Hashing\<close>

definition kMurmur2Seed :: u64 where
  "kMurmur2Seed = 4193360111"

definition MurmurRehash64A :: "u64 \<Rightarrow> u64" where
  "MurmurRehash64A key0 =
     (let m = 0xc6a4a7935bd1e995;
          r = 47;
          h0 = kMurmur2Seed XOR (8 * m);
          key1 = key0 * m;
          key2 = key1 XOR drop_bit r key1;
          key3 = key2 * m;
          h1 = h0 XOR key3;
          h2 = h1 * m;
          h3 = h2 XOR drop_bit r h2;
          h4 = h3 * m
      in h4 XOR drop_bit r h4)"

section \<open>State and operations\<close>

record 'e mt_slot =
  mt_full :: bool
  mt_idx :: u64
  mt_locked :: bool
  mt_data :: 'e

record 'e mt_cache =
  mt_slots :: "'e mt_slot list"
  mt_dispose :: "'e \<Rightarrow> (heap, unit) io"
  mt_entry_size :: size_t
  mt_count :: size_t

definition mt_cache_init ::
  "size_t \<Rightarrow> size_t \<Rightarrow> ('e \<Rightarrow> (heap, unit) io) \<Rightarrow> 'e \<Rightarrow> (heap, 'e mt_cache) io" where
  "mt_cache_init sz cnt dispose zero =
     io_bind hp_malloc (\<lambda>ok. if \<not> ok then io_raise SQFS_ERR else
     io_bind hp_malloc (\<lambda>ok. if \<not> ok then io_raise SQFS_ERR else
     io_ret \<lparr>mt_slots = replicate cnt
               \<lparr>mt_full = False, mt_idx = 0, mt_locked = False, mt_data = zero\<rparr>,
             mt_dispose = dispose, mt_entry_size = sz + 56, mt_count = cnt\<rparr>))"

text \<open>The slot a key goes to: \<^verbatim>\<open>MurmurRehash64A(idx) % c->count\<close>.\<close>

definition mt_key :: "u64 \<Rightarrow> 'e mt_cache \<Rightarrow> size_t" where
  "mt_key idx c = unat (MurmurRehash64A idx) mod mt_count c"

text \<open>The part of \<^verbatim>\<open>sqfs_cache_get\<close> after the mutex is taken: an empty slot or a hit is
  returned, a collision is evicted.\<close>

definition mt_cache_pick ::
  "u64 \<Rightarrow> 'e mt_cache \<Rightarrow> (size_t \<times> 'e option \<times> 'e mt_cache) res" where
  "mt_cache_pick idx c =
     (if mt_count c = 0 then Fault Div_By_Zero
      else let i = mt_key idx c in
        if length (mt_slots c) \<le> i then Fault Assert_Failed
        else let hdr = mt_slots c ! i; hdr1 = hdr\<lparr>mt_locked := True\<rparr> in
          if mt_locked hdr then Fault Diverges
          else if \<not> mt_full hdr then
            Ok (i, None, c\<lparr>mt_slots := (mt_slots c)[i := hdr1\<lparr>mt_idx := idx\<rparr>]\<rparr>)
          else if mt_idx hdr = idx then Ok (i, None, c\<lparr>mt_slots := (mt_slots c)[i := hdr1]\<rparr>)
          else Ok (i, Some (mt_data hdr),
                   c\<lparr>mt_slots := (mt_slots c)[i := hdr1\<lparr>mt_full := False, mt_idx := idx\<rparr>]\<rparr>))"

definition mt_cache_get :: "u64 \<Rightarrow> ('e mt_cache \<times> heap, size_t) io" where
  "mt_cache_get idx = (\<lambda>(c, h). case mt_cache_pick idx c of
     Err e \<Rightarrow> (Err e, (c, h))
   | Fault u \<Rightarrow> (Fault u, (c, h))
   | Ok (i, ev, c1) \<Rightarrow> (case ev of
       None \<Rightarrow> (Ok i, (c1, h))
     | Some v \<Rightarrow> (case mt_dispose c v h of (r, h') \<Rightarrow> (case r of
           Ok _ \<Rightarrow> (Ok i, (c1, h'))
         | Err e \<Rightarrow> (Err e, (c1, h'))
         | Fault u \<Rightarrow> (Fault u, (c1, h'))))))"

definition mt_cache_entry_valid :: "size_t \<Rightarrow> 'e mt_cache \<Rightarrow> bool" where
  "mt_cache_entry_valid e c = mt_full (mt_slots c ! e)"

definition mt_cache_entry_mark_valid :: "size_t \<Rightarrow> 'e mt_cache \<Rightarrow> 'e mt_cache res" where
  "mt_cache_entry_mark_valid e c =
     (if mt_full (mt_slots c ! e) then Fault Assert_Failed
      else Ok (c\<lparr>mt_slots := (mt_slots c)[e := (mt_slots c ! e)\<lparr>mt_full := True\<rparr>]\<rparr>))"

definition mt_cache_put :: "size_t \<Rightarrow> 'e mt_cache \<Rightarrow> 'e mt_cache" where
  "mt_cache_put e c =
     c\<lparr>mt_slots := (mt_slots c)[e := (mt_slots c ! e)\<lparr>mt_locked := False\<rparr>]\<rparr>"

definition mt_payload :: "size_t \<Rightarrow> 'e mt_cache \<Rightarrow> 'e" where
  "mt_payload e c = mt_data (mt_slots c ! e)"

definition mt_set_payload :: "size_t \<Rightarrow> 'e \<Rightarrow> 'e mt_cache \<Rightarrow> 'e mt_cache" where
  "mt_set_payload e v c = c\<lparr>mt_slots := (mt_slots c)[e := (mt_slots c ! e)\<lparr>mt_data := v\<rparr>]\<rparr>"

fun mt_dispose_slots :: "('e \<Rightarrow> (heap, unit) io) \<Rightarrow> 'e mt_slot list \<Rightarrow> (heap, unit) io" where
  "mt_dispose_slots d [] = io_ret ()"
| "mt_dispose_slots d (s # ss) =
     io_bind (if mt_full s then d (mt_data s) else io_ret ()) (\<lambda>_.
     if mt_locked s then io_fault Assert_Failed else mt_dispose_slots d ss)"

definition mt_cache_destroy :: "'e mt_cache \<Rightarrow> (heap, unit) io" where
  "mt_cache_destroy c = mt_dispose_slots (mt_dispose c) (mt_slots c)"

section \<open>The interface, in sequential use\<close>

definition mt_slot_content :: "'e mt_slot \<Rightarrow> (u64 \<times> 'e) multiset" where
  "mt_slot_content s = (if mt_full s then {#(mt_idx s, mt_data s)#} else {#})"

definition mt_content :: "'e mt_cache \<Rightarrow> (u64 \<times> 'e) multiset" where
  "mt_content c = (\<Sum>s\<leftarrow>mt_slots c. mt_slot_content s)"

text \<open>Every full slot holds a key that hashes to it.\<close>

definition mt_wf :: "'e mt_cache \<Rightarrow> bool" where
  "mt_wf c \<longleftrightarrow> length (mt_slots c) = mt_count c \<and> 0 < mt_count c \<and>
     (\<forall>i < mt_count c. mt_full (mt_slots c ! i) \<longrightarrow> mt_key (mt_idx (mt_slots c ! i)) c = i)"

definition mt_inv :: "'e mt_cache \<Rightarrow> bool" where
  "mt_inv c \<longleftrightarrow> mt_wf c \<and> (\<forall>i < mt_count c. \<not> mt_locked (mt_slots c ! i))"

definition mt_usable :: "u64 \<Rightarrow> 'e mt_cache \<Rightarrow> bool" where
  "mt_usable k c \<longleftrightarrow> True"

definition mt_held :: "'e mt_cache \<Rightarrow> size_t \<Rightarrow> u64 \<Rightarrow> bool" where
  "mt_held c p k \<longleftrightarrow> mt_wf c \<and> p = mt_key k c \<and> mt_idx (mt_slots c ! p) = k \<and>
     (\<forall>i < mt_count c. mt_locked (mt_slots c ! i) \<longleftrightarrow> i = p)"

lemma mt_content_update:
  assumes "i < length (mt_slots c)"
  shows "mt_content (c\<lparr>mt_slots := (mt_slots c)[i := s]\<rparr>) + mt_slot_content (mt_slots c ! i)
       = mt_content c + mt_slot_content s"
  using sum_list_update_mset [OF assms, of mt_slot_content s] by (simp add: mt_content_def)

lemma mt_content_mem:
  "(k, v) \<in># mt_content c \<longleftrightarrow> (\<exists>i < length (mt_slots c).
     mt_full (mt_slots c ! i) \<and> mt_idx (mt_slots c ! i) = k \<and> mt_data (mt_slots c ! i) = v)"
proof -
  have "(k, v) \<in># (\<Sum>s\<leftarrow>ss. mt_slot_content s) \<longleftrightarrow>
      (\<exists>s \<in> set ss. mt_full s \<and> mt_idx s = k \<and> mt_data s = v)" for ss
    by (induction ss) (auto simp: mt_slot_content_def)
  then show ?thesis by (auto simp: mt_content_def set_conv_nth)
qed

lemma mt_key_update [simp]: "mt_key k (c\<lparr>mt_slots := ss\<rparr>) = mt_key k c"
  by (simp add: mt_key_def)

lemma mt_key_lt: "mt_wf c \<Longrightarrow> mt_key k c < mt_count c"
  by (simp add: mt_wf_def mt_key_def)

text \<open>Writing the slot of a key, with that key, keeps the structure.\<close>

lemma mt_wf_update:
  assumes "mt_wf c" and "mt_idx s = k \<or> \<not> mt_full s"
  shows "mt_wf (c\<lparr>mt_slots := (mt_slots c)[mt_key k c := s]\<rparr>)"
proof -
  have "mt_key k c < length (mt_slots c)" using assms(1) by (simp add: mt_wf_def mt_key_def)
  with assms show ?thesis by (auto simp: mt_wf_def nth_list_update split: if_splits)
qed

lemma mt_held_update:
  assumes "mt_inv c" and "mt_idx s = k" and "mt_locked s"
  shows "mt_held (c\<lparr>mt_slots := (mt_slots c)[mt_key k c := s]\<rparr>) (mt_key k c) k"
proof -
  from assms(1) have wf: "mt_wf c" by (simp add: mt_inv_def)
  have len: "length (mt_slots c) = mt_count c" using wf by (simp add: mt_wf_def)
  show ?thesis
    using mt_wf_update [OF wf, of s k] mt_key_lt [OF wf, of k] assms len
    by (auto simp: mt_held_def mt_inv_def nth_list_update)
qed

lemma mt_pick_miss:
  assumes "mt_inv c" and "\<forall>v. (k, v) \<notin># mt_content c"
  shows "\<exists>p ev c' k'. mt_cache_pick k c = Ok (p, ev, c') \<and> mt_held c' p k
    \<and> \<not> mt_cache_entry_valid p c'
    \<and> mt_content c = mt_content c' + (case ev of None \<Rightarrow> {#} | Some w \<Rightarrow> {#(k', w)#})"
proof -
  let ?i = "mt_key k c"
  let ?s = "mt_slots c ! ?i"
  let ?s' = "?s\<lparr>mt_locked := True, mt_full := False, mt_idx := k\<rparr>"
  let ?c = "c\<lparr>mt_slots := (mt_slots c)[?i := ?s']\<rparr>"
  from assms(1) have wf: "mt_wf c" and ul: "\<And>i. i < mt_count c \<Longrightarrow> \<not> mt_locked (mt_slots c ! i)"
    by (auto simp: mt_inv_def)
  then have len: "length (mt_slots c) = mt_count c" and pos: "0 < mt_count c"
    by (auto simp: mt_wf_def)
  note lt = mt_key_lt [OF wf, of k]
  have ne: "mt_full ?s \<Longrightarrow> mt_idx ?s \<noteq> k" using assms(2) lt len by (auto simp: mt_content_mem)
  have pick: "mt_cache_pick k c = Ok (?i, if mt_full ?s then Some (mt_data ?s) else None, ?c)"
  proof (cases "mt_full ?s")
    case True
    then show ?thesis using len pos lt ul [OF lt] ne by (simp add: mt_cache_pick_def Let_def)
  next
    case False
    then have e: "?s' = ?s\<lparr>mt_locked := True, mt_idx := k\<rparr>" by (cases ?s) simp
    show ?thesis
      unfolding e using False len pos lt ul [OF lt] by (simp add: mt_cache_pick_def Let_def)
  qed
  have "mt_held ?c ?i k" using mt_held_update [OF assms(1), of ?s' k] by simp
  moreover have "mt_content c = mt_content ?c + mt_slot_content ?s"
    using mt_content_update [of ?i c ?s'] len lt by (simp add: mt_slot_content_def)
  ultimately show ?thesis
    using pick len lt
    by (intro exI [of _ ?i] exI [of _ "if mt_full ?s then Some (mt_data ?s) else None"]
        exI [of _ ?c] exI [of _ "mt_idx ?s"])
      (simp add: mt_cache_entry_valid_def mt_slot_content_def)
qed

lemma mt_pick_hit:
  assumes "mt_inv c" and "(k, v) \<in># mt_content c"
  shows "\<exists>p c'. mt_cache_pick k c = Ok (p, None, c') \<and> mt_held c' p k \<and> mt_cache_entry_valid p c'
    \<and> mt_payload p c' = v \<and> mt_content c' = mt_content c"
proof -
  let ?i = "mt_key k c"
  let ?s = "mt_slots c ! ?i"
  let ?s' = "?s\<lparr>mt_locked := True\<rparr>"
  from assms(1) have wf: "mt_wf c" and ul: "\<And>i. i < mt_count c \<Longrightarrow> \<not> mt_locked (mt_slots c ! i)"
    by (auto simp: mt_inv_def)
  then have len: "length (mt_slots c) = mt_count c" and pos: "0 < mt_count c"
    by (auto simp: mt_wf_def)
  note lt = mt_key_lt [OF wf, of k]
  from assms(2) wf have s: "mt_full ?s" "mt_idx ?s = k" "mt_data ?s = v"
    by (auto simp: mt_content_mem mt_wf_def)
  have "mt_cache_pick k c = Ok (?i, None, c\<lparr>mt_slots := (mt_slots c)[?i := ?s']\<rparr>)"
    using len pos lt ul [OF lt] s by (simp add: mt_cache_pick_def Let_def)
  moreover have "mt_held (c\<lparr>mt_slots := (mt_slots c)[?i := ?s']\<rparr>) ?i k"
    using mt_held_update [OF assms(1), of ?s' k] s by simp
  moreover have "mt_content (c\<lparr>mt_slots := (mt_slots c)[?i := ?s']\<rparr>) = mt_content c"
    using mt_content_update [of ?i c ?s'] len lt s by (simp add: mt_slot_content_def)
  ultimately show ?thesis
    using len lt s by (auto simp: mt_cache_entry_valid_def mt_payload_def)
qed

lemma mt_fill:
  assumes "mt_held c p k" and "\<not> mt_cache_entry_valid p c"
  shows "\<exists>c'. mt_cache_entry_mark_valid p (mt_set_payload p v c) = Ok c' \<and> mt_held c' p k
    \<and> mt_cache_entry_valid p c' \<and> mt_payload p c' = v
    \<and> mt_content c' = add_mset (k, v) (mt_content c)"
proof -
  let ?s = "(mt_slots c ! p)\<lparr>mt_data := v, mt_full := True\<rparr>"
  let ?c = "c\<lparr>mt_slots := (mt_slots c)[p := ?s]\<rparr>"
  from assms(1) have wf: "mt_wf c" and p: "p = mt_key k c" and k: "mt_idx (mt_slots c ! p) = k"
    and lk: "\<And>i. i < mt_count c \<Longrightarrow> mt_locked (mt_slots c ! i) \<longleftrightarrow> i = p"
    by (auto simp: mt_held_def)
  have len: "length (mt_slots c) = mt_count c" and lt: "p < mt_count c"
    using wf mt_key_lt [OF wf, of k] p by (auto simp: mt_wf_def)
  have "mt_cache_entry_mark_valid p (mt_set_payload p v c) = Ok ?c"
    using assms(2) len lt
    by (simp add: mt_cache_entry_mark_valid_def mt_set_payload_def mt_cache_entry_valid_def)
  moreover have "mt_held ?c p k"
    using mt_wf_update [OF wf, of ?s k] p k lk len lt
    by (auto simp: mt_held_def nth_list_update)
  moreover have "mt_content ?c = add_mset (k, v) (mt_content c)"
    using mt_content_update [of p c ?s] len lt assms(2) k
    by (simp add: mt_slot_content_def mt_cache_entry_valid_def)
  ultimately show ?thesis
    using len lt by (auto simp: mt_cache_entry_valid_def mt_payload_def)
qed

lemma mt_put_inv:
  assumes "mt_held c p k"
  shows "mt_inv (mt_cache_put p c)" and "mt_content (mt_cache_put p c) = mt_content c"
proof -
  let ?s = "(mt_slots c ! p)\<lparr>mt_locked := False\<rparr>"
  from assms have wf: "mt_wf c" and p: "p = mt_key k c" and k: "mt_idx (mt_slots c ! p) = k"
    and lk: "\<And>i. i < mt_count c \<Longrightarrow> mt_locked (mt_slots c ! i) \<longleftrightarrow> i = p"
    by (auto simp: mt_held_def)
  have len: "length (mt_slots c) = mt_count c" and lt: "p < mt_count c"
    using wf mt_key_lt [OF wf, of k] p by (auto simp: mt_wf_def)
  show "mt_inv (mt_cache_put p c)"
    using mt_wf_update [OF wf, of ?s k] p k lk len lt
    by (auto simp: mt_inv_def mt_cache_put_def nth_list_update split: if_splits)
  show "mt_content (mt_cache_put p c) = mt_content c"
    using mt_content_update [of p c ?s] len lt
    by (cases "mt_full (mt_slots c ! p)") (simp_all add: mt_cache_put_def mt_slot_content_def)
qed

interpretation mt: cache_api mt_cache_pick mt_cache_entry_valid mt_cache_entry_mark_valid
  mt_cache_put mt_payload mt_set_payload mt_content mt_inv mt_usable mt_held
  by unfold_locales (blast intro: mt_pick_hit mt_pick_miss mt_fill mt_put_inv)+

section \<open>Several threads\<close>

datatype mt_pc = MT_Idle | MT_Held u64 size_t

record 'e mt_sys =
  sys_cache :: "'e mt_cache"
  sys_pc :: "nat \<Rightarrow> mt_pc"

inductive mt_step :: "nat \<Rightarrow> 'e mt_sys \<Rightarrow> 'e mt_sys \<Rightarrow> bool" where
  mt_get: "sys_pc s t = MT_Idle \<Longrightarrow> mt_cache_pick k (sys_cache s) = Ok (p, ev, c') \<Longrightarrow>
     mt_step t s (s\<lparr>sys_cache := c', sys_pc := (sys_pc s)(t := MT_Held k p)\<rparr>)"
| mt_fill: "sys_pc s t = MT_Held k p \<Longrightarrow> \<not> mt_cache_entry_valid p (sys_cache s) \<Longrightarrow>
     mt_cache_entry_mark_valid p (mt_set_payload p v (sys_cache s)) = Ok c' \<Longrightarrow>
     mt_step t s (s\<lparr>sys_cache := c'\<rparr>)"
| mt_put: "sys_pc s t = MT_Held k p \<Longrightarrow>
     mt_step t s (s\<lparr>sys_cache := mt_cache_put p (sys_cache s), sys_pc := (sys_pc s)(t := MT_Idle)\<rparr>)"

inductive_cases mt_stepE: "mt_step t s s'"

inductive mt_reachable :: "'e mt_sys \<Rightarrow> bool" where
  mt_start: "mt_inv (sys_cache s) \<Longrightarrow> (\<And>t. sys_pc s t = MT_Idle) \<Longrightarrow> mt_reachable s"
| mt_more: "mt_reachable s \<Longrightarrow> mt_step t s s' \<Longrightarrow> mt_reachable s'"

definition mt_sys_inv :: "'e mt_sys \<Rightarrow> bool" where
  "mt_sys_inv s \<longleftrightarrow> mt_wf (sys_cache s) \<and>
     (\<forall>t k p. sys_pc s t = MT_Held k p \<longrightarrow>
        p = mt_key k (sys_cache s) \<and> mt_idx (mt_slots (sys_cache s) ! p) = k \<and>
        mt_locked (mt_slots (sys_cache s) ! p)) \<and>
     (\<forall>t t' k k' p. sys_pc s t = MT_Held k p \<longrightarrow> sys_pc s t' = MT_Held k' p \<longrightarrow> t = t')"

text \<open>What a successful pick does to the slots: it writes the key's slot only, which was free.\<close>

lemma mt_pick_Ok:
  assumes "mt_cache_pick k c = Ok (p, ev, c')"
  obtains s where "p = mt_key k c" and "p < length (mt_slots c)" and "\<not> mt_locked (mt_slots c ! p)"
    and "c' = c\<lparr>mt_slots := (mt_slots c)[p := s]\<rparr>" and "mt_locked s" and "mt_idx s = k"
  using assms by (auto simp: mt_cache_pick_def Let_def split: if_splits)

lemma mt_step_sys_inv:
  assumes "mt_step t s s'" and "mt_sys_inv s"
  shows "mt_sys_inv s'"
  using assms
proof (cases rule: mt_step.cases)
  case (mt_get k p ev c')
  from mt_get(3) obtain sl where sl: "p = mt_key k (sys_cache s)" "p < length (mt_slots (sys_cache s))"
      "\<not> mt_locked (mt_slots (sys_cache s) ! p)"
      "c' = (sys_cache s)\<lparr>mt_slots := (mt_slots (sys_cache s))[p := sl]\<rparr>" "mt_locked sl" "mt_idx sl = k"
    by (rule mt_pick_Ok)
  have "mt_wf c'" using assms(2) sl mt_wf_update [of "sys_cache s" sl k] by (simp add: mt_sys_inv_def)
  moreover have "q \<noteq> p" if "sys_pc s u = MT_Held l q" for u l q
    using assms(2) that sl(3) unfolding mt_sys_inv_def by blast
  ultimately show ?thesis
    using assms(2) sl mt_get(1) unfolding mt_sys_inv_def
    by (auto simp: nth_list_update split: if_splits)
next
  case (mt_fill k p v c')
  from assms(2) mt_fill(2) have p: "p = mt_key k (sys_cache s)" "mt_wf (sys_cache s)"
      "mt_idx (mt_slots (sys_cache s) ! p) = k"
    unfolding mt_sys_inv_def by auto
  then have lt: "p < length (mt_slots (sys_cache s))" using mt_key_lt [of "sys_cache s" k]
    by (simp add: mt_wf_def)
  let ?sl = "(mt_slots (sys_cache s) ! p)\<lparr>mt_data := v, mt_full := True\<rparr>"
  from mt_fill(3,4) lt have c': "c' = (sys_cache s)\<lparr>mt_slots := (mt_slots (sys_cache s))[p := ?sl]\<rparr>"
    by (simp add: mt_cache_entry_mark_valid_def mt_set_payload_def mt_cache_entry_valid_def)
  have "mt_wf c'" using p c' mt_wf_update [of "sys_cache s" ?sl k] by simp
  then show ?thesis
    using assms(2) mt_fill(1) c' lt unfolding mt_sys_inv_def
    by (auto simp: nth_list_update split: if_splits)
next
  case (mt_put k p)
  from assms(2) mt_put(2) have p: "p = mt_key k (sys_cache s)" "mt_wf (sys_cache s)"
      "mt_idx (mt_slots (sys_cache s) ! p) = k"
    unfolding mt_sys_inv_def by auto
  then have lt: "p < length (mt_slots (sys_cache s))" using mt_key_lt [of "sys_cache s" k]
    by (simp add: mt_wf_def)
  let ?sl = "(mt_slots (sys_cache s) ! p)\<lparr>mt_locked := False\<rparr>"
  have "mt_wf (mt_cache_put p (sys_cache s))"
    using p mt_wf_update [of "sys_cache s" ?sl k] by (simp add: mt_cache_put_def)
  moreover have "q \<noteq> p" if "sys_pc s u = MT_Held l q" "u \<noteq> t" for u l q
    using assms(2) that mt_put(2) unfolding mt_sys_inv_def by blast
  ultimately show ?thesis
    using assms(2) mt_put(1) lt unfolding mt_sys_inv_def mt_cache_put_def
    by (auto simp: nth_list_update split: if_splits)
qed

lemma mt_reachable_inv: "mt_reachable s \<Longrightarrow> mt_sys_inv s"
proof (induction rule: mt_reachable.induct)
  case (mt_start s)
  then show ?case by (simp add: mt_sys_inv_def mt_inv_def)
next
  case (mt_more s t s')
  then show ?case by (blast intro: mt_step_sys_inv)
qed

text \<open>A step of one thread does not touch a slot another thread holds.\<close>

lemma mt_step_frame:
  assumes "mt_sys_inv s" and "mt_step t s s'" and "sys_pc s u = MT_Held k p" and "u \<noteq> t"
  shows "mt_slots (sys_cache s') ! p = mt_slots (sys_cache s) ! p \<and> sys_pc s' u = MT_Held k p"
  using assms(2)
proof (cases rule: mt_step.cases)
  case (mt_get l q ev c')
  from mt_get(3) obtain sl where "\<not> mt_locked (mt_slots (sys_cache s) ! q)"
      "c' = (sys_cache s)\<lparr>mt_slots := (mt_slots (sys_cache s))[q := sl]\<rparr>"
    by (rule mt_pick_Ok)
  moreover have "mt_locked (mt_slots (sys_cache s) ! p)"
    using assms(1,3) unfolding mt_sys_inv_def by blast
  ultimately show ?thesis using mt_get(1) assms(3,4) by (cases "p = q") auto
next
  case (mt_fill l q v c')
  moreover have "p \<noteq> q" using assms(1,3,4) mt_fill(2) unfolding mt_sys_inv_def by blast
  ultimately show ?thesis using assms(3)
    by (auto simp: mt_cache_entry_mark_valid_def mt_set_payload_def split: if_splits)
next
  case (mt_put l q)
  moreover have "p \<noteq> q" using assms(1,3,4) mt_put(2) unfolding mt_sys_inv_def by blast
  ultimately show ?thesis using assms(3,4) by (auto simp: mt_cache_put_def)
qed



section \<open>Properties\<close>

text \<open>C30. Mutual exclusion: however the steps of the threads interleave, no two of them hold the same
  slot of the multi-threaded cache.\<close>

theorem mt_mutual_exclusion:
  assumes "mt_reachable s" and "sys_pc s t = MT_Held k p" and "u \<noteq> t"
  shows "sys_pc s u \<noteq> MT_Held k' p"
  using mt_reachable_inv [OF assms(1)] assms(2,3) unfolding mt_sys_inv_def by blast

text \<open>C31. While a thread holds a slot, no step of another thread changes it: neither the key, nor the
  data, nor whether it is valid.\<close>

theorem mt_held_slot_stable:
  assumes "mt_reachable s" and "mt_step t s s'" and "sys_pc s u = MT_Held k p" and "u \<noteq> t"
  shows "mt_slots (sys_cache s') ! p = mt_slots (sys_cache s) ! p \<and> sys_pc s' u = MT_Held k p"
  by (rule mt_step_frame [OF mt_reachable_inv [OF assms(1)] assms(2-4)])


definition wit_mt_slot :: "u8 mt_slot" where
  "wit_mt_slot = \<lparr>mt_full = False, mt_idx = 0, mt_locked = False, mt_data = 0\<rparr>"

definition wit_mt :: "u8 mt_slot list \<Rightarrow> (nat \<Rightarrow> mt_pc) \<Rightarrow> u8 mt_sys" where
  "wit_mt sl pc = \<lparr>sys_cache = \<lparr>mt_slots = sl, mt_dispose = (\<lambda>_. io_ret ()), mt_entry_size = 57, mt_count = 2\<rparr>,
     sys_pc = pc\<rparr>"

lemma wit_hash_values [simp]: "unat (MurmurRehash64A 1) mod 2 = 0" "unat (MurmurRehash64A 4) mod 2 = Suc 0"
  by (simp_all add: MurmurRehash64A_def kMurmur2Seed_def)

text \<open>Two threads, each with a slot of its own.\<close>

definition wit_mt0 :: "u8 mt_sys" where "wit_mt0 = wit_mt [wit_mt_slot, wit_mt_slot] (\<lambda>_. MT_Idle)"

definition wit_mt1 :: "u8 mt_sys" where
  "wit_mt1 = wit_mt [wit_mt_slot\<lparr>mt_locked := True, mt_idx := 1\<rparr>, wit_mt_slot] ((\<lambda>_. MT_Idle)(0 := MT_Held 1 0))"

definition wit_mt2 :: "u8 mt_sys" where
  "wit_mt2 = wit_mt [wit_mt_slot\<lparr>mt_locked := True, mt_idx := 1\<rparr>, wit_mt_slot\<lparr>mt_locked := True, mt_idx := 4\<rparr>]
     ((\<lambda>_. MT_Idle)(0 := MT_Held 1 0, 1 := MT_Held 4 1))"

lemma wit_mt_steps: "mt_step 0 wit_mt0 wit_mt1" "mt_step 1 wit_mt1 wit_mt2"
proof -
  have "mt_cache_pick 1 (sys_cache wit_mt0) = Ok (0, None, sys_cache wit_mt1)"
    "mt_cache_pick 4 (sys_cache wit_mt1) = Ok (1, None, sys_cache wit_mt2)"
    by (simp_all add: mt_cache_pick_def wit_mt0_def wit_mt1_def wit_mt2_def wit_mt_def mt_key_def wit_mt_slot_def)
  moreover have "wit_mt1 = wit_mt0\<lparr>sys_cache := sys_cache wit_mt1, sys_pc := (sys_pc wit_mt0)(0 := MT_Held 1 0)\<rparr>"
    "wit_mt2 = wit_mt1\<lparr>sys_cache := sys_cache wit_mt2, sys_pc := (sys_pc wit_mt1)(1 := MT_Held 4 1)\<rparr>"
    "sys_pc wit_mt0 0 = MT_Idle" "sys_pc wit_mt1 1 = MT_Idle"
    by (simp_all add: wit_mt0_def wit_mt1_def wit_mt2_def wit_mt_def)
  ultimately show "mt_step 0 wit_mt0 wit_mt1" "mt_step 1 wit_mt1 wit_mt2"
    using mt_step.mt_get [of wit_mt0 0 1] mt_step.mt_get [of wit_mt1 1 4] by metis+
qed

lemma wit_mt_reachable: "mt_reachable wit_mt1" "mt_reachable wit_mt2"
proof -
  have "mt_reachable wit_mt0"
    by (rule mt_start) (simp_all add: wit_mt0_def wit_mt_def mt_inv_def mt_wf_def wit_mt_slot_def less_2_cases_iff)
  then show "mt_reachable wit_mt1" "mt_reachable wit_mt2" using wit_mt_steps mt_more by blast+
qed

theorem mt_mutual_exclusion_witness: "sys_pc wit_mt2 1 = MT_Held 4 1 \<and> sys_pc wit_mt2 0 \<noteq> MT_Held 4 1"
  using mt_mutual_exclusion [OF wit_mt_reachable(2), of 1 4 1 0 4] by (simp add: wit_mt2_def wit_mt_def)

theorem mt_held_slot_stable_witness:
  "mt_slots (sys_cache wit_mt2) ! 0 = mt_slots (sys_cache wit_mt1) ! 0 \<and> sys_pc wit_mt2 0 = MT_Held 1 0"
  by (rule mt_held_slot_stable [OF wit_mt_reachable(1) wit_mt_steps(2)]) (simp_all add: wit_mt1_def wit_mt_def)


end
