(* ===== verification/Sqfs_Hash.thy ===== *)
theory Sqfs_Hash
  imports Sqfs_Block
begin

text \<open>
  The hash table of \<^verbatim>\<open>hash.c\<close>: an array of \<^verbatim>\<open>capacity\<close> chains, the
  capacity a power of two, the hash of a key its low bits. A chain is the list of its buckets from
  the head; \<^verbatim>\<open>buckets = NULL\<close> is \<open>None\<close>. The table is used by \<^verbatim>\<open>ll_inode.c\<close> to
  remember which inode number is which inode; what it relies on is the locale \<open>key_map\<close>.
\<close>

section \<open>State and operations\<close>

type_synonym sqfs_hash_key = u32

record 'v sqfs_hash =
  h_value_size :: size_t
  h_capacity :: size_t
  h_size :: size_t
  h_buckets :: "(sqfs_hash_key \<times> 'v) list list option"

definition hash_slot :: "sqfs_hash_key \<Rightarrow> size_t \<Rightarrow> nat" where
  "hash_slot k cap = unat k AND size_sub cap 1"

definition hash_chain :: "sqfs_hash_key \<Rightarrow> 'v sqfs_hash \<Rightarrow> (sqfs_hash_key \<times> 'v) list res" where
  "hash_chain k t = (case h_buckets t of
     None \<Rightarrow> Fault Null_Deref
   | Some bs \<Rightarrow> (let i = hash_slot k (h_capacity t) in
       if i < length bs then Ok (bs ! i) else Fault Out_Of_Bounds))"

definition hash_set_chain ::
  "sqfs_hash_key \<Rightarrow> (sqfs_hash_key \<times> 'v) list \<Rightarrow> 'v sqfs_hash \<Rightarrow> 'v sqfs_hash" where
  "hash_set_chain k ch t =
     t\<lparr>h_buckets := map_option (\<lambda>bs. bs[hash_slot k (h_capacity t) := ch]) (h_buckets t)\<rparr>"

text \<open>\<^verbatim>\<open>calloc(initial, sizeof(sqfs_hash_bucket*))\<close> fails as well when the product of its
  arguments does not fit \<open>size_t\<close>.\<close>

definition sqfs_hash_init :: "size_t \<Rightarrow> size_t \<Rightarrow> ('v sqfs_hash \<times> heap, unit) io" where
  "sqfs_hash_init vsize initial = (\<lambda>(t, h).
     let t0 = \<lparr>h_value_size = 0, h_capacity = 0, h_size = 0, h_buckets = None\<rparr> in
     if initial AND size_sub initial 1 \<noteq> 0 then (Err SQFS_ERR, (t0, h))
     else (case hp_malloc h of (r, h') \<Rightarrow>
       (if r = Ok True \<and> initial * 8 < 2 ^ 64 then
          (Ok (), (\<lparr>h_value_size = vsize, h_capacity = initial, h_size = 0,
                    h_buckets = Some (replicate initial [])\<rparr>, h'))
        else (Err SQFS_ERR, (t0, h')))))"

definition sqfs_hash_add_internal ::
  "sqfs_hash_key \<Rightarrow> 'v \<Rightarrow> ('v sqfs_hash \<times> heap, unit) io" where
  "sqfs_hash_add_internal k v = (\<lambda>(t, h). case hp_malloc h of (r, h') \<Rightarrow>
     (if r = Ok True then
        (case hash_chain k t of
           Ok ch \<Rightarrow> (Ok (), ((hash_set_chain k ((k, v) # ch) t)\<lparr>h_size := h_size t + 1\<rparr>, h'))
         | Err e \<Rightarrow> (Err e, (t, h'))
         | Fault u \<Rightarrow> (Fault u, (t, h')))
      else (Err SQFS_ERR, (t, h'))))"

text \<open>Re-adding the buckets of the old table one after the other; after the first failure the
  remaining buckets are only freed.\<close>

fun hash_move :: "(sqfs_hash_key \<times> 'v) list \<Rightarrow> ('v sqfs_hash \<times> heap, unit) io" where
  "hash_move [] = io_ret ()"
| "hash_move ((k, v) # bs) = io_bind (sqfs_hash_add_internal k v) (\<lambda>_. hash_move bs)"

definition sqfs_hash_double :: "('v sqfs_hash \<times> heap, unit) io" where
  "sqfs_hash_double = (\<lambda>(t, h). case h_buckets t of
     None \<Rightarrow> io_bind (sqfs_hash_init (h_value_size t) (size_mul (h_capacity t) 2))
               (\<lambda>_. if h_capacity t = 0 then io_ret () else io_fault Null_Deref) (t, h)
   | Some ob \<Rightarrow>
       io_bind (sqfs_hash_init (h_value_size t) (size_mul (h_capacity t) 2))
         (\<lambda>_. hash_move (concat ob)) (t, h))"

definition sqfs_hash_get :: "sqfs_hash_key \<Rightarrow> 'v sqfs_hash \<Rightarrow> 'v option res" where
  "sqfs_hash_get k t = (case hash_chain k t of
     Ok ch \<Rightarrow> Ok (map_of ch k) | Err e \<Rightarrow> Err e | Fault u \<Rightarrow> Fault u)"

definition sqfs_hash_add :: "sqfs_hash_key \<Rightarrow> 'v \<Rightarrow> ('v sqfs_hash \<times> heap, unit) io" where
  "sqfs_hash_add k v = (\<lambda>(t, h).
     if h_capacity t \<le> h_size t
     then io_bind sqfs_hash_double (\<lambda>_. sqfs_hash_add_internal k v) (t, h)
     else sqfs_hash_add_internal k v (t, h))"

text \<open>Unlinking the first bucket with the key.\<close>

fun chain_remove :: "sqfs_hash_key \<Rightarrow> (sqfs_hash_key \<times> 'v) list \<Rightarrow> (sqfs_hash_key \<times> 'v) list" where
  "chain_remove k [] = []"
| "chain_remove k (b # bs) = (if fst b = k then bs else b # chain_remove k bs)"

definition sqfs_hash_remove :: "sqfs_hash_key \<Rightarrow> 'v sqfs_hash \<Rightarrow> 'v sqfs_hash res" where
  "sqfs_hash_remove k t = (case hash_chain k t of
     Err e \<Rightarrow> Err e | Fault u \<Rightarrow> Fault u
   | Ok ch \<Rightarrow> Ok (if k \<in> fst ` set ch
        then (hash_set_chain k (chain_remove k ch) t)\<lparr>h_size := h_size t - 1\<rparr> else t))"

text \<open>A caller of \<^verbatim>\<open>sqfs_hash_get\<close> may write the value in place through the pointer it got.\<close>

fun chain_write :: "sqfs_hash_key \<Rightarrow> 'v \<Rightarrow> (sqfs_hash_key \<times> 'v) list \<Rightarrow> (sqfs_hash_key \<times> 'v) list" where
  "chain_write k v [] = []"
| "chain_write k v (b # bs) = (if fst b = k then (k, v) # bs else b # chain_write k v bs)"

definition hash_write :: "sqfs_hash_key \<Rightarrow> 'v \<Rightarrow> 'v sqfs_hash \<Rightarrow> 'v sqfs_hash res" where
  "hash_write k v t = (case hash_chain k t of
     Err e \<Rightarrow> Err e | Fault u \<Rightarrow> Fault u | Ok ch \<Rightarrow> Ok (hash_set_chain k (chain_write k v ch) t))"

definition sqfs_hash_destroy :: "'v sqfs_hash \<Rightarrow> 'v sqfs_hash res" where
  "sqfs_hash_destroy t = (case h_buckets t of
     None \<Rightarrow> if h_capacity t = 0 then Ok t else Fault Null_Deref
   | Some bs \<Rightarrow> Ok (t\<lparr>h_buckets := None\<rparr>))"

section \<open>Invariant and abstraction\<close>

definition chains_ok :: "size_t \<Rightarrow> (sqfs_hash_key \<times> 'v) list list \<Rightarrow> bool" where
  "chains_ok cap bs \<longleftrightarrow> length bs = cap \<and> (\<forall>i < cap. distinct (map fst (bs ! i)) \<and>
     (\<forall>k \<in> fst ` set (bs ! i). hash_slot k cap = i))"

definition hash_wf :: "'v sqfs_hash \<Rightarrow> bool" where
  "hash_wf t \<longleftrightarrow> (\<exists>n < 61. h_capacity t = 2 ^ n) \<and> (case h_buckets t of None \<Rightarrow> False
     | Some bs \<Rightarrow> chains_ok (h_capacity t) bs \<and> h_size t = sum_list (map length bs))"

definition hash_map :: "'v sqfs_hash \<Rightarrow> sqfs_hash_key \<Rightarrow> 'v option" where
  "hash_map t k = (case hash_chain k t of Ok ch \<Rightarrow> map_of ch k | _ \<Rightarrow> None)"

lemma hash_slot_power:
  assumes "n < 64"
  shows "hash_slot k (2 ^ n) = unat k mod 2 ^ n"
proof -
  have "(2 :: nat) ^ n < 2 ^ 64" by (rule power_strict_increasing) (use assms in auto)
  then have "size_sub (2 ^ n) 1 = mask n" by (simp add: mask_eq_exp_minus_1)
  then show ?thesis by (simp add: hash_slot_def flip: take_bit_eq_mask take_bit_eq_mod)
qed

lemma hash_slot_less: "\<exists>n < 61. cap = 2 ^ n \<Longrightarrow> hash_slot k cap < cap"
  using hash_slot_power by fastforce

lemma hash_wf_obtains:
  assumes "hash_wf t"
  obtains bs where "h_buckets t = Some bs" and "\<exists>n < 61. h_capacity t = 2 ^ n"
    and "chains_ok (h_capacity t) bs" and "h_size t = sum_list (map length bs)"
    and "length bs = h_capacity t"
  using assms by (auto simp: hash_wf_def chains_ok_def split: option.splits)

lemma hash_wf_chain:
  assumes "hash_wf t"
  obtains bs where "h_buckets t = Some bs" and "length bs = h_capacity t"
    and "hash_slot k (h_capacity t) < length bs"
    and "hash_chain k t = Ok (bs ! hash_slot k (h_capacity t))"
    and "distinct (map fst (bs ! hash_slot k (h_capacity t)))"
proof -
  from assms obtain bs where bs: "h_buckets t = Some bs" "\<exists>n < 61. h_capacity t = 2 ^ n"
      "chains_ok (h_capacity t) bs" "length bs = h_capacity t"
    by (rule hash_wf_obtains)
  have "hash_slot k (h_capacity t) < h_capacity t" using bs(2) by (rule hash_slot_less)
  then have i: "hash_slot k (h_capacity t) < length bs" using bs(4) by simp
  have "hash_chain k t = Ok (bs ! hash_slot k (h_capacity t))"
    using bs(1) i by (simp add: hash_chain_def)
  moreover have "distinct (map fst (bs ! hash_slot k (h_capacity t)))"
    using bs(3) i by (simp add: chains_ok_def)
  ultimately show ?thesis using that [OF bs(1,4) i] by simp
qed

lemma hash_get_map: "hash_wf t \<Longrightarrow> sqfs_hash_get k t = Ok (hash_map t k)"
  by (erule hash_wf_chain [where k = k]) (simp add: sqfs_hash_get_def hash_map_def)

lemma sum_list_update_nat:
  fixes f :: "'a \<Rightarrow> nat"
  assumes "i < length xs"
  shows "(\<Sum>x\<leftarrow>xs[i := y]. f x) + f (xs ! i) = (\<Sum>x\<leftarrow>xs. f x) + f y"
proof -
  have "(\<Sum>x\<leftarrow>xs. f x) = (\<Sum>x\<leftarrow>take i xs @ xs ! i # drop (Suc i) xs. f x)"
    using assms by (simp add: id_take_nth_drop [symmetric])
  moreover have "(\<Sum>x\<leftarrow>xs[i := y]. f x) = (\<Sum>x\<leftarrow>take i xs @ y # drop (Suc i) xs. f x)"
    using assms by (simp add: upd_conv_take_nth_drop)
  ultimately show ?thesis by simp
qed

text \<open>Replacing one chain, with the size adjusted, keeps the invariant and changes one binding.\<close>

lemma hash_wf_set_chain:
  assumes wf: "hash_wf t" and ch: "hash_chain k t = Ok ch"
    and keys: "\<And>k'. k' \<in> fst ` set ch' \<Longrightarrow> k' = k \<or> k' \<in> fst ` set ch"
    and dist: "distinct (map fst ch')" and m: "m + length ch = h_size t + length ch'"
  shows "hash_wf ((hash_set_chain k ch' t)\<lparr>h_size := m\<rparr>)"
proof -
  let ?i = "hash_slot k (h_capacity t)"
  obtain bs where bs: "h_buckets t = Some bs" "\<exists>n < 61. h_capacity t = 2 ^ n"
      "chains_ok (h_capacity t) bs" "h_size t = sum_list (map length bs)"
      "length bs = h_capacity t"
    using wf by (rule hash_wf_obtains)
  have i: "?i < length bs" and chi: "ch = bs ! ?i"
    using ch bs(1) by (auto simp: hash_chain_def Let_def split: if_splits)
  have "\<forall>k' \<in> fst ` set (bs ! ?i). hash_slot k' (h_capacity t) = ?i"
    using bs(3,5) i unfolding chains_ok_def by metis
  then have slots: "\<forall>k' \<in> fst ` set ch'. hash_slot k' (h_capacity t) = ?i"
    using keys chi by metis
  have "chains_ok (h_capacity t) (bs[?i := ch'])"
    unfolding chains_ok_def
  proof (intro conjI allI impI)
    show "length (bs[?i := ch']) = h_capacity t" using bs(5) by simp
    fix j assume j: "j < h_capacity t"
    show "distinct (map fst (bs[?i := ch'] ! j))"
      using bs(3,5) j dist by (cases "j = ?i") (simp_all add: chains_ok_def)
    show "\<forall>k' \<in> fst ` set (bs[?i := ch'] ! j). hash_slot k' (h_capacity t) = j"
      using bs(3,5) j slots by (cases "j = ?i") (simp_all add: chains_ok_def)
  qed
  moreover have "m = sum_list (map length (bs[?i := ch']))"
    using sum_list_update_nat [OF i, of length ch'] m chi bs(4) by simp
  ultimately show ?thesis using bs(1,2) by (simp add: hash_wf_def hash_set_chain_def)
qed

lemma hash_chain_set:
  assumes "hash_wf t"
  shows "hash_chain k' ((hash_set_chain k ch t)\<lparr>h_size := m\<rparr>) =
    (if hash_slot k' (h_capacity t) = hash_slot k (h_capacity t) then Ok ch else hash_chain k' t)"
proof -
  obtain bs where bs: "h_buckets t = Some bs" "hash_slot k (h_capacity t) < length bs"
    using assms by (rule hash_wf_chain [where k = k])
  then show ?thesis
    by (cases "hash_slot k' (h_capacity t) = hash_slot k (h_capacity t)")
      (simp_all add: hash_chain_def hash_set_chain_def Let_def)
qed

lemma hash_map_set_chain:
  assumes "hash_wf t" and ch: "hash_chain k t = Ok ch"
    and same: "\<And>k'. k' \<noteq> k \<Longrightarrow> map_of ch' k' = map_of ch k'"
  shows "hash_map ((hash_set_chain k ch' t)\<lparr>h_size := m\<rparr>) = (hash_map t)(k := map_of ch' k)"
proof
  fix j
  have "hash_chain j t = Ok ch" if "hash_slot j (h_capacity t) = hash_slot k (h_capacity t)"
    using ch unfolding hash_chain_def that .
  then show "hash_map ((hash_set_chain k ch' t)\<lparr>h_size := m\<rparr>) j =
      ((hash_map t)(k := map_of ch' k)) j"
    using hash_chain_set [OF assms(1), where k' = j and k = k and ch = ch' and m = m] same
    by (simp add: hash_map_def)
qed

lemma chain_remove_set: "set (chain_remove k ch) \<subseteq> set ch"
  by (induction ch) auto

lemma chain_remove_distinct: "distinct (map fst ch) \<Longrightarrow> distinct (map fst (chain_remove k ch))"
proof (induction ch)
  case (Cons b ch)
  then show ?case using chain_remove_set [of k ch] by auto
qed simp

lemma chain_remove_map:
  "distinct (map fst ch) \<Longrightarrow> map_of (chain_remove k ch) = (map_of ch)(k := None)"
  by (induction ch) (auto simp: fun_eq_iff map_of_eq_None_iff)

lemma chain_remove_length:
  "k \<in> fst ` set ch \<Longrightarrow> Suc (length (chain_remove k ch)) = length ch"
  by (induction ch) auto

lemma chain_write_keys [simp]: "map fst (chain_write k v ch) = map fst ch"
  by (induction ch) auto

lemma chain_write_length [simp]: "length (chain_write k v ch) = length ch"
  by (induction ch) auto

lemma chain_write_map:
  "map_of (chain_write k v ch) = (if map_of ch k = None then map_of ch else (map_of ch)(k \<mapsto> v))"
  by (induction ch) (auto simp: fun_eq_iff)

section \<open>What the operations do\<close>

lemma hash_init_spec:
  assumes "\<exists>n < 61. cap = 2 ^ n" and "hp_malloc_ok h (hp_mallocs h)"
  shows "\<exists>t'. sqfs_hash_init vs cap (t, h) = (Ok (), (t', h\<lparr>hp_mallocs := Suc (hp_mallocs h)\<rparr>))
    \<and> hash_wf t' \<and> hash_map t' = Map.empty \<and> h_size t' = 0 \<and> h_capacity t' = cap
    \<and> h_value_size t' = vs"
proof -
  from assms(1) obtain n where n: "n < 61" "cap = 2 ^ n" by blast
  have "(2 :: nat) ^ n < 2 ^ 61" by (rule power_strict_increasing) (use n in auto)
  moreover from this have "size_sub cap 1 = mask n" using n by (simp add: mask_eq_exp_minus_1)
  ultimately have "cap AND size_sub cap 1 = 0" and "cap * 8 < 2 ^ 64"
    using n by (simp_all flip: take_bit_eq_mask)
  let ?t = "\<lparr>h_value_size = vs, h_capacity = cap, h_size = 0, h_buckets = Some (replicate cap [])\<rparr>"
  have "hash_wf (?t :: 'a sqfs_hash)"
    using assms(1) by (simp add: hash_wf_def chains_ok_def)
  moreover from this have "hash_map (?t :: 'a sqfs_hash) = Map.empty"
    using hash_slot_less [OF assms(1)] by (simp add: hash_map_def hash_chain_def fun_eq_iff)
  ultimately show ?thesis
    using \<open>cap AND size_sub cap 1 = 0\<close> \<open>cap * 8 < 2 ^ 64\<close> assms(2)
    by (simp add: sqfs_hash_init_def hp_malloc_run)
qed

lemma sqfs_hash_add_internal_spec:
  assumes "hash_wf t" and "hash_map t k = None" and "hp_malloc_ok h (hp_mallocs h)"
  shows "\<exists>t'. sqfs_hash_add_internal k v (t, h) = (Ok (), (t', h\<lparr>hp_mallocs := Suc (hp_mallocs h)\<rparr>))
    \<and> hash_wf t' \<and> hash_map t' = (hash_map t)(k \<mapsto> v) \<and> h_size t' = Suc (h_size t)
    \<and> h_capacity t' = h_capacity t \<and> h_value_size t' = h_value_size t"
proof -
  obtain ch where ch: "hash_chain k t = Ok ch" "distinct (map fst ch)"
    using assms(1) by (rule hash_wf_chain [where k = k])
  let ?t = "(hash_set_chain k ((k, v) # ch) t)\<lparr>h_size := h_size t + 1\<rparr>"
  have "map_of ch k = None" using assms(2) ch by (simp add: hash_map_def)
  then have "k \<notin> fst ` set ch" by (simp add: map_of_eq_None_iff)
  then have "hash_wf ?t"
    using ch(2) by (intro hash_wf_set_chain [OF assms(1) ch(1)]) auto
  moreover have "hash_map ?t = (hash_map t)(k \<mapsto> v)"
    using hash_map_set_chain [OF assms(1) ch(1), of "(k, v) # ch"] by simp
  ultimately show ?thesis
    using ch assms(3) by (simp add: sqfs_hash_add_internal_def hp_malloc_run hash_set_chain_def)
qed

text \<open>Moving buckets with distinct new keys into a table adds exactly those bindings.\<close>

lemma hash_move_spec:
  assumes "hash_wf t" and "distinct (map fst bs)" and "\<forall>k \<in> fst ` set bs. hash_map t k = None"
    and "\<forall>n. hp_malloc_ok h n"
  shows "\<exists>t' n. hash_move bs (t, h) = (Ok (), (t', h\<lparr>hp_mallocs := n\<rparr>)) \<and> hash_wf t'
    \<and> hash_map t' = hash_map t ++ map_of bs \<and> h_size t' = h_size t + length bs
    \<and> h_capacity t' = h_capacity t"
  using assms
proof (induction bs arbitrary: t h)
  case Nil
  then show ?case by (intro exI [of _ t] exI [of _ "hp_mallocs h"]) (simp add: io_simps)
next
  case (Cons b bs)
  obtain k v where b: "b = (k, v)" by (cases b)
  have none: "hash_map t k = None" and ok: "hp_malloc_ok h (hp_mallocs h)"
    using Cons.prems(3,4) b by simp_all
  let ?h = "h\<lparr>hp_mallocs := Suc (hp_mallocs h)\<rparr>"
  obtain t1 where t1: "sqfs_hash_add_internal k v (t, h) = (Ok (), (t1, ?h))" "hash_wf t1"
      "hash_map t1 = (hash_map t)(k \<mapsto> v)" "h_size t1 = Suc (h_size t)"
      "h_capacity t1 = h_capacity t"
    using sqfs_hash_add_internal_spec [OF Cons.prems(1) none ok, of v] by blast
  have k: "k \<notin> fst ` set bs" and d: "distinct (map fst bs)" using Cons.prems(2) b by auto
  have new: "\<forall>k' \<in> fst ` set bs. hash_map t1 k' = None"
    using t1(3) Cons.prems(3) k by auto
  have "\<forall>n. hp_malloc_ok ?h n" using Cons.prems(4) by simp
  from Cons.IH [OF t1(2) d new this]
  obtain t2 n where t2: "hash_move bs (t1, ?h) = (Ok (), (t2, ?h\<lparr>hp_mallocs := n\<rparr>))" "hash_wf t2"
      "hash_map t2 = hash_map t1 ++ map_of bs" "h_size t2 = h_size t1 + length bs"
      "h_capacity t2 = h_capacity t1"
    by blast
  have "map_of bs k = None" using k by (simp add: map_of_eq_None_iff)
  then have m2: "hash_map t2 = hash_map t ++ map_of (b # bs)"
    using t1(3) t2(3) b by (auto simp: fun_eq_iff map_add_def split: option.splits)
  moreover have "hash_move (b # bs) (t, h) = (Ok (), (t2, h\<lparr>hp_mallocs := n\<rparr>))"
    using t1(1) t2(1) b by (simp add: io_simps)
  moreover have "h_size t2 = h_size t + length (b # bs)" "h_capacity t2 = h_capacity t"
    using t1(4,5) t2(4,5) by simp_all
  ultimately show ?case using t2(2) m2 by blast
qed

text \<open>The buckets of a well-formed table are its bindings.\<close>

lemma slotted_concat:
  assumes "\<forall>i < length bs. distinct (map fst (bs ! i)) \<and> (\<forall>k \<in> fst ` set (bs ! i). f k = i + c)"
  shows "distinct (map fst (concat bs)) \<and> (\<forall>k \<in> fst ` set (concat bs). c \<le> f k) \<and>
    (\<forall>k. c \<le> f k \<longrightarrow> f k < c + length bs \<longrightarrow> map_of (concat bs) k = map_of (bs ! (f k - c)) k)"
  using assms
proof (induction bs arbitrary: c)
  case (Cons ch bs)
  have hd: "distinct (map fst ch)" "\<forall>k \<in> fst ` set ch. f k = c"
    using Cons.prems by force+
  have "\<forall>i < length bs. distinct (map fst (bs ! i)) \<and> (\<forall>k \<in> fst ` set (bs ! i). f k = i + Suc c)"
    using Cons.prems by force
  note IH = Cons.IH [OF this]
  have "fst ` set ch \<inter> fst ` set (concat bs) = {}"
    using IH hd(2) by fastforce
  then have "distinct (map fst (concat (ch # bs)))"
    using IH hd(1) by simp
  moreover have "\<forall>k \<in> fst ` set (concat (ch # bs)). c \<le> f k"
    using IH hd(2) by fastforce
  moreover have "map_of (concat (ch # bs)) k = map_of ((ch # bs) ! (f k - c)) k"
    if "c \<le> f k" "f k < c + length (ch # bs)" for k
  proof (cases "f k = c")
    case True
    then have "k \<notin> fst ` set (concat bs)" using IH by (metis Suc_n_not_le_n)
    then have "map_of (concat bs) k = None" by (simp only: map_of_eq_None_iff not_False_eq_True)
    with True show ?thesis by (simp add: map_add_def split: option.splits)
  next
    case False
    then have "k \<notin> fst ` set ch" using hd(2) by blast
    then have "map_of ch k = None" by (simp add: map_of_eq_None_iff)
    moreover have "f k - c = Suc (f k - Suc c)" "Suc c \<le> f k" using False that by simp_all
    ultimately show ?thesis using IH that by (simp add: map_add_def split: option.splits)
  qed
  ultimately show ?case by blast
qed simp

lemma hash_buckets_map:
  assumes "hash_wf t" and "h_buckets t = Some bs"
  shows "distinct (map fst (concat bs))" and "map_of (concat bs) = hash_map t"
proof -
  let ?f = "\<lambda>k. hash_slot k (h_capacity t)"
  from assms obtain cap: "\<exists>n < 61. h_capacity t = 2 ^ n" and ok: "chains_ok (h_capacity t) bs"
      and len: "length bs = h_capacity t"
    by (auto elim!: hash_wf_obtains)
  have sl: "?f k < length bs" for k using hash_slot_less [OF cap] len by simp
  have "\<forall>i < length bs. distinct (map fst (bs ! i)) \<and> (\<forall>k \<in> fst ` set (bs ! i). ?f k = i + 0)"
    using ok len by (simp add: chains_ok_def)
  note * = slotted_concat [OF this]
  then show "distinct (map fst (concat bs))" by blast
  have "map_of (concat bs) k = hash_map t k" for k
  proof -
    have "hash_map t k = map_of (bs ! ?f k) k"
      using sl [of k] assms(2) by (simp add: hash_map_def hash_chain_def)
    with * sl [of k] show ?thesis by simp
  qed
  then show "map_of (concat bs) = hash_map t" ..
qed

lemma hash_size_card:
  assumes "hash_wf t"
  shows "h_size t = card (dom (hash_map t))" and "h_size t \<le> 2 ^ 32"
proof -
  obtain bs where bs: "h_buckets t = Some bs" "h_size t = sum_list (map length bs)"
    using assms by (rule hash_wf_obtains)
  have "h_size t = length (map fst (concat bs))" using bs(2) by (simp add: length_concat)
  also have "\<dots> = card (set (map fst (concat bs)))"
    using hash_buckets_map(1) [OF assms bs(1)] distinct_card by metis
  also have "\<dots> = card (dom (hash_map t))"
    by (simp only: hash_buckets_map(2) [OF assms bs(1), symmetric] dom_map_of_conv_image_fst set_map)
  finally show "h_size t = card (dom (hash_map t))" .
  moreover have "card (dom (hash_map t)) \<le> card (UNIV :: u32 set)" by (rule card_mono) auto
  ultimately show "h_size t \<le> 2 ^ 32" by (simp add: card_word)
qed

lemma sqfs_hash_double_spec:
  assumes "hash_wf t" and "h_capacity t \<le> h_size t" and mem: "\<forall>n. hp_malloc_ok h n"
  shows "\<exists>t' n. sqfs_hash_double (t, h) = (Ok (), (t', h\<lparr>hp_mallocs := n\<rparr>)) \<and> hash_wf t'
    \<and> hash_map t' = hash_map t \<and> h_size t' = h_size t \<and> h_capacity t' = 2 * h_capacity t"
proof -
  obtain bs where bs: "h_buckets t = Some bs" "\<exists>n < 61. h_capacity t = 2 ^ n"
      "h_size t = sum_list (map length bs)"
    using assms(1) by (rule hash_wf_obtains)
  then obtain n where n: "h_capacity t = 2 ^ n" by blast
  have "(2 :: nat) ^ n \<le> 2 ^ 32" using hash_size_card(2) [OF assms(1)] assms(2) n by simp
  then have "n \<le> 32" by (rule power_le_imp_le_exp [rotated]) simp
  have cap: "size_mul (h_capacity t) 2 = 2 ^ Suc n" and "Suc n < 61"
    using \<open>2 ^ n \<le> 2 ^ 32\<close> \<open>n \<le> 32\<close> n by simp_all
  then have "\<exists>m < 61. size_mul (h_capacity t) 2 = 2 ^ m" by metis
  moreover have "hp_malloc_ok h (hp_mallocs h)" using mem by simp
  ultimately obtain t1 where t1: "sqfs_hash_init (h_value_size t) (size_mul (h_capacity t) 2) (t, h)
        = (Ok (), (t1, h\<lparr>hp_mallocs := Suc (hp_mallocs h)\<rparr>))" "hash_wf t1"
      "hash_map t1 = Map.empty" "h_size t1 = 0" "h_capacity t1 = size_mul (h_capacity t) 2"
    using hash_init_spec [of "size_mul (h_capacity t) 2" h "h_value_size t" t] by blast
  have "\<forall>k \<in> fst ` set (concat bs). hash_map t1 k = None" using t1(3) by simp
  moreover have "\<forall>n. hp_malloc_ok (h\<lparr>hp_mallocs := Suc (hp_mallocs h)\<rparr>) n" using mem by simp
  ultimately obtain t2 n2 where "hash_move (concat bs) (t1, h\<lparr>hp_mallocs := Suc (hp_mallocs h)\<rparr>)
        = (Ok (), (t2, h\<lparr>hp_mallocs := n2\<rparr>))" "hash_wf t2"
      "hash_map t2 = hash_map t1 ++ map_of (concat bs)" "h_size t2 = h_size t1 + length (concat bs)"
      "h_capacity t2 = h_capacity t1"
    using hash_move_spec [OF t1(2) hash_buckets_map(1) [OF assms(1) bs(1)],
        of "h\<lparr>hp_mallocs := Suc (hp_mallocs h)\<rparr>"] by auto
  with t1 bs cap n hash_buckets_map(2) [OF assms(1) bs(1)] show ?thesis
    by (intro exI [of _ t2] exI [of _ n2])
      (simp add: sqfs_hash_double_def io_simps length_concat)
qed

lemma sqfs_hash_add_spec:
  assumes "hash_wf t" and "hash_map t k = None" and mem: "\<forall>n. hp_malloc_ok h n"
  shows "\<exists>t' n. sqfs_hash_add k v (t, h) = (Ok (), (t', h\<lparr>hp_mallocs := n\<rparr>)) \<and> hash_wf t'
    \<and> hash_map t' = (hash_map t)(k \<mapsto> v)"
proof (cases "h_capacity t \<le> h_size t")
  case True
  with sqfs_hash_double_spec [OF assms(1) _ mem] obtain t1 n where
    t1: "sqfs_hash_double (t, h) = (Ok (), (t1, h\<lparr>hp_mallocs := n\<rparr>))" "hash_wf t1"
      "hash_map t1 = hash_map t"
    by blast
  have "hash_map t1 k = None" "hp_malloc_ok (h\<lparr>hp_mallocs := n\<rparr>) (hp_mallocs (h\<lparr>hp_mallocs := n\<rparr>))"
    using t1(3) assms(2) mem by simp_all
  from sqfs_hash_add_internal_spec [OF t1(2) this, of v] True t1 show ?thesis
    by (auto simp: sqfs_hash_add_def io_simps)
next
  case False
  then show ?thesis
    using sqfs_hash_add_internal_spec [OF assms(1,2), of h v] mem
    by (auto simp: sqfs_hash_add_def)
qed

lemma sqfs_hash_remove_spec:
  assumes "hash_wf t"
  shows "\<exists>t'. sqfs_hash_remove k t = Ok t' \<and> hash_wf t' \<and> hash_map t' = (hash_map t)(k := None)"
proof -
  obtain ch where ch: "hash_chain k t = Ok ch" "distinct (map fst ch)"
    using assms by (rule hash_wf_chain [where k = k])
  show ?thesis
  proof (cases "k \<in> fst ` set ch")
    case True
    let ?t = "(hash_set_chain k (chain_remove k ch) t)\<lparr>h_size := h_size t - 1\<rparr>"
    have len: "Suc (length (chain_remove k ch)) = length ch" by (rule chain_remove_length) fact
    have "hash_map t k \<noteq> None" using True ch by (simp add: hash_map_def map_of_eq_None_iff)
    then have "0 < h_size t"
      using hash_size_card(1) [OF assms] by (auto simp: card_gt_0_iff intro: finite_subset)
    then have "hash_wf ?t"
      using len chain_remove_set [of k ch] ch(2)
      by (intro hash_wf_set_chain [OF assms ch(1)]) (auto simp: chain_remove_distinct)
    moreover have "hash_map ?t = (hash_map t)(k := None)"
      using hash_map_set_chain [OF assms ch(1), of "chain_remove k ch"] ch(2)
      by (simp add: chain_remove_map)
    ultimately show ?thesis using ch(1) True by (simp add: sqfs_hash_remove_def)
  next
    case False
    then have "hash_map t k = None" using ch by (simp add: hash_map_def map_of_eq_None_iff)
    then have "(hash_map t)(k := None) = hash_map t" by (simp add: fun_eq_iff)
    with False show ?thesis using ch(1) assms by (simp add: sqfs_hash_remove_def)
  qed
qed

lemma hash_write_spec:
  assumes "hash_wf t" and "hash_map t k \<noteq> None"
  shows "\<exists>t'. hash_write k v t = Ok t' \<and> hash_wf t' \<and> hash_map t' = (hash_map t)(k \<mapsto> v)"
proof -
  obtain ch where ch: "hash_chain k t = Ok ch" "distinct (map fst ch)"
    using assms(1) by (rule hash_wf_chain [where k = k])
  let ?t = "(hash_set_chain k (chain_write k v ch) t)\<lparr>h_size := h_size t\<rparr>"
  have t: "?t = hash_set_chain k (chain_write k v ch) t" by (simp add: hash_set_chain_def)
  have k: "map_of ch k \<noteq> None" using assms(2) ch(1) by (simp add: hash_map_def)
  have "fst ` set (chain_write k v ch) = fst ` set ch"
    by (metis chain_write_keys set_map)
  then have "hash_wf ?t"
    using ch(2) by (intro hash_wf_set_chain [OF assms(1) ch(1)]) auto
  moreover have "hash_map ?t = (hash_map t)(k \<mapsto> v)"
    using hash_map_set_chain [OF assms(1) ch(1), of "chain_write k v ch"] k
    by (simp add: chain_write_map)
  ultimately show ?thesis unfolding t using ch(1) by (simp add: hash_write_def)
qed

section \<open>The interface the inode table relies on\<close>

text \<open>A mutable finite map with 32-bit keys: lookups see exactly the bindings added and not removed.
  \<open>room\<close> says that memory is available.\<close>

locale key_map =
  fixes look :: "'k \<Rightarrow> 's \<Rightarrow> 'v option res"
    and insert_new :: "'k \<Rightarrow> 'v \<Rightarrow> ('s, unit) io"
    and write_at :: "'k \<Rightarrow> 'v \<Rightarrow> ('s, unit) io"
    and delete :: "'k \<Rightarrow> ('s, unit) io"
    and contents :: "'s \<Rightarrow> 'k \<Rightarrow> 'v option"
    and ok :: "'s \<Rightarrow> bool"
    and room :: "'s \<Rightarrow> bool"
  assumes look_contents: "ok s \<Longrightarrow> look k s = Ok (contents s k)"
    and insert_new_contents: "\<lbrakk>ok s; room s; contents s k = None\<rbrakk> \<Longrightarrow>
      \<exists>s'. insert_new k v s = (Ok (), s') \<and> ok s' \<and> room s' \<and> contents s' = (contents s)(k \<mapsto> v)"
    and write_at_contents: "\<lbrakk>ok s; contents s k \<noteq> None\<rbrakk> \<Longrightarrow>
      \<exists>s'. write_at k v s = (Ok (), s') \<and> ok s' \<and> (room s \<longrightarrow> room s') \<and>
        contents s' = (contents s)(k \<mapsto> v)"
    and delete_contents: "ok s \<Longrightarrow>
      \<exists>s'. delete k s = (Ok (), s') \<and> ok s' \<and> (room s \<longrightarrow> room s') \<and>
        contents s' = (contents s)(k := None)"
begin

text \<open>Adding a key and removing it again leaves the bindings as they were; looking up after an
  insertion finds the value and no other binding moves.\<close>

lemma insert_look:
  assumes "ok s" and "room s" and "contents s k = None"
  shows "\<exists>s'. insert_new k v s = (Ok (), s') \<and> look k s' = Ok (Some v) \<and>
    (\<forall>k'. k' \<noteq> k \<longrightarrow> look k' s' = look k' s)"
  using insert_new_contents [OF assms, of v] look_contents assms(1) by fastforce

lemma insert_delete:
  assumes "ok s" and "room s" and "contents s k = None"
  shows "\<exists>s'. io_bind (insert_new k v) (\<lambda>_. delete k) s = (Ok (), s') \<and> ok s' \<and>
    contents s' = contents s"
proof -
  obtain s1 where s1: "insert_new k v s = (Ok (), s1)" "ok s1" "contents s1 = (contents s)(k \<mapsto> v)"
    using insert_new_contents [OF assms, of v] by blast
  obtain s2 where "delete k s1 = (Ok (), s2)" "ok s2" "contents s2 = (contents s1)(k := None)"
    using delete_contents [OF s1(2), of k] by blast
  with s1 assms(3) show ?thesis by (auto simp: io_simps fun_eq_iff)
qed

end

definition hash_remove_io :: "sqfs_hash_key \<Rightarrow> ('v sqfs_hash \<times> heap, unit) io" where
  "hash_remove_io k = (\<lambda>(t, h). case sqfs_hash_remove k t of
     Ok t' \<Rightarrow> (Ok (), (t', h)) | Err e \<Rightarrow> (Err e, (t, h)) | Fault u \<Rightarrow> (Fault u, (t, h)))"

definition hash_write_io :: "sqfs_hash_key \<Rightarrow> 'v \<Rightarrow> ('v sqfs_hash \<times> heap, unit) io" where
  "hash_write_io k v = (\<lambda>(t, h). case hash_write k v t of
     Ok t' \<Rightarrow> (Ok (), (t', h)) | Err e \<Rightarrow> (Err e, (t, h)) | Fault u \<Rightarrow> (Fault u, (t, h)))"

definition hash_room :: "'v sqfs_hash \<times> heap \<Rightarrow> bool" where
  "hash_room th \<longleftrightarrow> (\<forall>n. hp_malloc_ok (snd th) n)"

interpretation hm: key_map "\<lambda>k th. sqfs_hash_get k (fst th)" sqfs_hash_add hash_write_io
  hash_remove_io "\<lambda>th. hash_map (fst th)" "\<lambda>th. hash_wf (fst th)" hash_room
proof (unfold_locales, goal_cases)
  case (1 s k)
  then show ?case by (rule hash_get_map)
next
  case (2 s k v)
  then show ?case
    using sqfs_hash_add_spec [of "fst s" k "snd s" v] by (fastforce simp: hash_room_def)
next
  case (3 s k v)
  then show ?case
    using hash_write_spec [of "fst s" k v]
    by (auto simp: hash_write_io_def hash_room_def split: prod.splits)
next
  case (4 s k)
  then show ?case
    using sqfs_hash_remove_spec [of "fst s" k]
    by (auto simp: hash_remove_io_def hash_room_def split: prod.splits)
qed

section \<open>Properties\<close>

text \<open>While memory is available, adding a key the table does not hold succeeds, even when the
  table has to double first; afterwards the key is found with its value, every other key is found
  exactly as before, and the table is well formed.\<close>

theorem hash_add_get:
  assumes "hash_wf t" and "hash_map t k = None" and "\<forall>n. hp_malloc_ok h n"
  shows "\<exists>t' h'. sqfs_hash_add k v (t, h) = (Ok (), (t', h')) \<and> hash_wf t' \<and>
    sqfs_hash_get k t' = Ok (Some v) \<and>
    (\<forall>k'. k' \<noteq> k \<longrightarrow> sqfs_hash_get k' t' = sqfs_hash_get k' t)"
  using sqfs_hash_add_spec [OF assms, of v] hash_get_map assms(1) by fastforce

definition wit_hash :: "u8 sqfs_hash" where
  "wit_hash = \<lparr>h_value_size = 1, h_capacity = 2, h_size = 2, h_buckets = Some [[(4, 40)], [(7, 70)]]\<rparr>"

definition hash_wit_heap :: heap where
  "hash_wit_heap = \<lparr>hp_cells = (\<lambda>_. None), hp_brk = 0, hp_malloc_ok = (\<lambda>_. True), hp_mallocs = 0\<rparr>"

lemma wit_hash_slots [simp]: "hash_slot k 2 = unat k mod 2"
  using hash_slot_power [of 1 k] by simp

lemma wit_hash_wf: "hash_wf wit_hash"
proof -
  have "chains_ok 2 [[(4, 40 :: u8)], [(7, 70)]]"
    by (simp add: chains_ok_def less_2_cases_iff all_conj_distrib imp_disjL)
  moreover have "\<exists>n < 61. (2 :: nat) = 2 ^ n" by (rule exI [of _ 1]) simp
  ultimately show ?thesis by (simp add: hash_wf_def wit_hash_def)
qed

theorem hash_add_get_witness:
  "\<exists>t' h'. sqfs_hash_add 6 60 (wit_hash, hash_wit_heap) = (Ok (), (t', h')) \<and>
    sqfs_hash_get 6 t' = Ok (Some 60) \<and> sqfs_hash_get 4 t' = Ok (Some 40)"
proof -
  have "hash_map wit_hash 6 = None" "sqfs_hash_get 4 wit_hash = Ok (Some 40)"
    by (simp_all add: hash_map_def sqfs_hash_get_def hash_chain_def wit_hash_def)
  then show ?thesis
    using hash_add_get [OF wit_hash_wf, of 6 hash_wit_heap 60]
    by (force simp: hash_wit_heap_def)
qed

text \<open>Adding a key and removing it again gives a table that answers every lookup as before, however
  the table grew in between.\<close>

theorem hash_add_remove:
  assumes "hash_wf t" and "hash_map t k = None" and "\<forall>n. hp_malloc_ok h n"
  shows "\<exists>t' h' t''. sqfs_hash_add k v (t, h) = (Ok (), (t', h')) \<and> sqfs_hash_remove k t' = Ok t'' \<and>
    hash_wf t'' \<and> (\<forall>k'. sqfs_hash_get k' t'' = sqfs_hash_get k' t)"
proof -
  from sqfs_hash_add_spec [OF assms, of v] obtain t' n where
    t': "sqfs_hash_add k v (t, h) = (Ok (), (t', h\<lparr>hp_mallocs := n\<rparr>))" "hash_wf t'" "hash_map t' = (hash_map t)(k \<mapsto> v)"
    by blast
  from sqfs_hash_remove_spec [OF t'(2), of k] obtain t'' where
    t'': "sqfs_hash_remove k t' = Ok t''" "hash_wf t''" "hash_map t'' = (hash_map t')(k := None)" by blast
  have "hash_map t'' = hash_map t" using t'(3) t''(3) assms(2) by auto
  then show ?thesis using t'(1) t'' hash_get_map [OF t''(2)] hash_get_map [OF assms(1)] by auto
qed

theorem hash_add_remove_witness:
  "\<exists>t' h' t''. sqfs_hash_add 6 60 (wit_hash, hash_wit_heap) = (Ok (), (t', h')) \<and>
    sqfs_hash_remove 6 t' = Ok t'' \<and> sqfs_hash_get 6 t'' = Ok None \<and> sqfs_hash_get 4 t'' = Ok (Some 40)"
proof -
  have "hash_map wit_hash 6 = None" "sqfs_hash_get 4 wit_hash = Ok (Some 40)" "sqfs_hash_get 6 wit_hash = Ok None"
    by (simp_all add: hash_map_def sqfs_hash_get_def hash_chain_def wit_hash_def)
  then show ?thesis
    using hash_add_remove [OF wit_hash_wf, of 6 hash_wit_heap 60] by (force simp: hash_wit_heap_def)
qed

end
