(* ===== verification/Sqfs_LL_Inode.thy ===== *)
theory Sqfs_LL_Inode
  imports Sqfs_Hash Sqfs_Stat Sqfs_Init
begin

text \<open>
  Inode numbers of the low-level FUSE client: \<^verbatim>\<open>ll_inode.c\<close>. FUSE names a file by a
  \<^verbatim>\<open>fuse_ino_t\<close> with zero for none and one for the root; the library by a 48-bit position (the
  inode id) or a 32-bit number. Where \<^verbatim>\<open>fuse_ino_t\<close> has room for a position it is used, shifted
  around the reserved values; otherwise the number is used, and the way back is the export table or a
  table of the inodes FUSE knows, with a reference count per entry.

  The width of \<^verbatim>\<open>fuse_ino_t\<close> is a type parameter. The function pointers of \<^verbatim>\<open>struct sqfs_ll\<close>
  are the name of the implementation they were set to.
\<close>

section \<open>Data\<close>

record sqfs_ll_inode_entry =
  ie_refcount :: u32
  ie_ino_hi :: u32
  ie_ino_lo :: u16

text \<open>The table of an implementation that does not use it is \<open>None\<close>.\<close>

record sqfs_ll_inode_map =
  im_root :: sqfs_inode_num
  im_icache :: "sqfs_ll_inode_entry sqfs_hash option"

datatype ino_functions = INO64 | INO32 | INO32EXP

record sqfs_ll =
  ll_fs :: sqfs
  ll_ino :: "ino_functions option"
  ll_ino_data :: "sqfs_ll_inode_map option"

abbreviation (input) FUSE_ROOT_ID :: "'w::len word" where "FUSE_ROOT_ID \<equiv> 1"
abbreviation (input) FUSE_INODE_NONE :: "'w::len word" where "FUSE_INODE_NONE \<equiv> 0"
abbreviation (input) SQFS_INODE_NONE :: sqfs_inode_id where "SQFS_INODE_NONE \<equiv> 1"
abbreviation (input) SQFS_ICACHE_INITIAL :: size_t where "SQFS_ICACHE_INITIAL \<equiv> 32"
abbreviation (input) SQFS_INODE_ID_BYTES :: nat where "SQFS_INODE_ID_BYTES \<equiv> 6"

definition IE_INODE :: "sqfs_ll_inode_entry \<Rightarrow> sqfs_inode_id" where
  "IE_INODE ie = push_bit 16 (ucast (ie_ino_hi ie)) OR ucast (ie_ino_lo ie)"

definition INODE_HI :: "sqfs_inode_id \<Rightarrow> u64" where "INODE_HI i = drop_bit 16 i"
definition INODE_LO :: "sqfs_inode_id \<Rightarrow> u64" where "INODE_LO i = i AND 0xFFFF"

text \<open>Calls on the file system, on the map, and on its table.\<close>

definition on_fs :: "(sqfs, 'a) io \<Rightarrow> (sqfs_ll, 'a) io" where
  "on_fs = io_on ll_fs (\<lambda>fs s. s\<lparr>ll_fs := fs\<rparr>)"

definition ll_map :: "(sqfs_ll, sqfs_ll_inode_map) io" where
  "ll_map = (\<lambda>s. case ll_ino_data s of None \<Rightarrow> (Fault Null_Deref, s) | Some m \<Rightarrow> (Ok m, s))"

definition on_icache :: "(sqfs_ll_inode_entry sqfs_hash \<times> heap, 'a) io \<Rightarrow> (sqfs_ll, 'a) io" where
  "on_icache m =
     io_bind ll_map (\<lambda>mp. case im_icache mp of None \<Rightarrow> io_fault Uninitialised
     | Some t \<Rightarrow> (\<lambda>s. case m (t, fs_heap (ll_fs s)) of (r, (t', h)) \<Rightarrow>
         (r, s\<lparr>ll_ino_data := Some (mp\<lparr>im_icache := Some t'\<rparr>), ll_fs := (ll_fs s)\<lparr>fs_heap := h\<rparr>\<rparr>)))"

definition icache_get :: "u32 \<Rightarrow> (sqfs_ll, sqfs_ll_inode_entry option) io" where
  "icache_get n = on_icache (\<lambda>(t, h). (sqfs_hash_get n t, (t, h)))"

section \<open>Positions as inode numbers\<close>

definition sqfs_ll_ino64_fuse :: "sqfs_ll \<Rightarrow> sqfs_inode_id \<Rightarrow> 'w::len word" where
  "sqfs_ll_ino64_fuse ll i =
     (if i = sqfs_inode_root (ll_fs ll) then FUSE_ROOT_ID else if i = 0 then 2 else ucast i)"

definition sqfs_ll_ino64_sqfs :: "sqfs_ll \<Rightarrow> 'w::len word \<Rightarrow> sqfs_inode_id" where
  "sqfs_ll_ino64_sqfs ll i =
     (if i = FUSE_ROOT_ID then sqfs_inode_root (ll_fs ll) else if i = 2 then 0 else ucast i)"

definition sqfs_ll_ino64_fuse_num :: "sqfs_ll \<Rightarrow> sqfs_dir_entry \<Rightarrow> 'w::len word" where
  "sqfs_ll_ino64_fuse_num ll e = sqfs_ll_ino64_fuse ll (ent_inode e)"

definition sqfs_ll_ino64_init :: "(sqfs_ll, unit) io" where
  "sqfs_ll_ino64_init = io_modify (\<lambda>ll. ll\<lparr>ll_ino := Some INO64\<rparr>)"

section \<open>Numbers as inode numbers\<close>

text \<open>\<^verbatim>\<open>map->root + 1\<close> and \<^verbatim>\<open>n + 1\<close> are 32-bit sums.\<close>

definition sqfs_ll_ino32_num2fuse :: "sqfs_ll_inode_map \<Rightarrow> sqfs_inode_num \<Rightarrow> 'w::len word" where
  "sqfs_ll_ino32_num2fuse mp n =
     (if n = im_root mp then FUSE_ROOT_ID else if n = 0 then ucast (im_root mp + 1) else ucast (n + 1))"

definition sqfs_ll_ino32_fuse2num :: "sqfs_ll_inode_map \<Rightarrow> 'w::len word \<Rightarrow> 'w word" where
  "sqfs_ll_ino32_fuse2num mp i =
     (if i = FUSE_ROOT_ID then ucast (im_root mp) else if i = ucast (im_root mp + 1) then 0 else i - 1)"

definition sqfs_ll_ino32_fuse :: "sqfs_inode_id \<Rightarrow> (sqfs_ll, 'w::len word) io" where
  "sqfs_ll_ino32_fuse i =
     io_try (on_fs (sqfs_inode_get i)) (\<lambda>r. case r of
       Inl e \<Rightarrow> io_ret FUSE_INODE_NONE
     | Inr inode \<Rightarrow> io_bind ll_map (\<lambda>mp. io_ret (sqfs_ll_ino32_num2fuse mp (bi_inode_number (in_base inode)))))"

definition sqfs_ll_ino32_sqfs :: "'w::len word \<Rightarrow> (sqfs_ll, sqfs_inode_id) io" where
  "sqfs_ll_ino32_sqfs i =
     (if i = FUSE_ROOT_ID then io_gets (\<lambda>ll. sqfs_inode_root (ll_fs ll)) else
      io_bind ll_map (\<lambda>mp.
      io_bind (icache_get (ucast (sqfs_ll_ino32_fuse2num mp i))) (\<lambda>ie.
      io_ret (case ie of Some ie \<Rightarrow> IE_INODE ie | None \<Rightarrow> SQFS_INODE_NONE))))"

definition sqfs_ll_ino32_fuse_num :: "sqfs_dir_entry \<Rightarrow> (sqfs_ll, 'w::len word) io" where
  "sqfs_ll_ino32_fuse_num e = io_bind ll_map (\<lambda>mp. io_ret (sqfs_ll_ino32_num2fuse mp (ent_inode_number e)))"

definition sqfs_ll_ino32_register :: "sqfs_dir_entry \<Rightarrow> (sqfs_ll, 'w::len word) io" where
  "sqfs_ll_ino32_register e =
     (let n = ent_inode_number e in
      io_bind (icache_get n) (\<lambda>ie. case ie of
        Some ie \<Rightarrow>
          io_bind (on_icache (hash_write_io n (ie\<lparr>ie_refcount := ie_refcount ie + 1\<rparr>))) (\<lambda>_.
          sqfs_ll_ino32_fuse_num e)
      | None \<Rightarrow>
          let i = ent_inode e;
              nie = \<lparr>ie_refcount = 1, ie_ino_hi = ucast (INODE_HI i), ie_ino_lo = ucast (INODE_LO i)\<rparr> in
          io_try (on_icache (sqfs_hash_add n nie)) (\<lambda>r. case r of
            Inl err \<Rightarrow> io_ret FUSE_INODE_NONE
          | Inr _ \<Rightarrow> sqfs_ll_ino32_fuse_num e)))"

definition sqfs_ll_ino32_forget :: "'w::len word \<Rightarrow> size_t \<Rightarrow> (sqfs_ll, unit) io" where
  "sqfs_ll_ino32_forget i refs =
     io_bind ll_map (\<lambda>mp.
     let n = ucast (sqfs_ll_ino32_fuse2num mp i) in
     io_bind (icache_get n) (\<lambda>ie. case ie of
       None \<Rightarrow> io_ret ()
     | Some ie \<Rightarrow>
        if refs < unat (ie_refcount ie)
        then on_icache (hash_write_io n (ie\<lparr>ie_refcount := ie_refcount ie - word_of_nat refs\<rparr>))
        else on_icache (hash_remove_io n)))"

definition sqfs_ll_ino32_destroy :: "(sqfs_ll, unit) io" where
  "sqfs_ll_ino32_destroy =
     io_bind (on_icache (\<lambda>(t, h). case sqfs_hash_destroy t of
       Ok t' \<Rightarrow> (Ok (), (t', h)) | Err e \<Rightarrow> (Err e, (t, h)) | Fault u \<Rightarrow> (Fault u, (t, h)))) (\<lambda>_.
     io_modify (\<lambda>ll. ll\<lparr>ll_ino_data := None\<rparr>))"

text \<open>The result of \<^verbatim>\<open>malloc\<close> is used without a check, and the result of
  \<^verbatim>\<open>sqfs_hash_init\<close> is ignored. \<open>entry_size\<close> is \<^verbatim>\<open>sizeof(sqfs_ll_inode_entry)\<close>.\<close>

abbreviation (input) entry_size :: size_t where "entry_size \<equiv> 12"

definition hash_blank :: "sqfs_ll_inode_entry sqfs_hash" where
  "hash_blank = \<lparr>h_value_size = 0, h_capacity = 0, h_size = 0, h_buckets = None\<rparr>"

definition sqfs_ll_ino32_init :: "(sqfs_ll, unit) io" where
  "sqfs_ll_ino32_init =
     io_bind (io_gets (\<lambda>ll. sqfs_inode_root (ll_fs ll))) (\<lambda>root.
     io_bind (on_fs (sqfs_inode_get root)) (\<lambda>inode.
     io_bind (on_fs (on_heap hp_malloc)) (\<lambda>ok.
     io_bind (io_guard ok Null_Deref) (\<lambda>_.
     io_bind (io_modify (\<lambda>ll. ll\<lparr>ll_ino_data :=
       Some \<lparr>im_root = bi_inode_number (in_base inode), im_icache = Some hash_blank\<rparr>\<rparr>)) (\<lambda>_.
     io_bind (io_try (on_icache (sqfs_hash_init entry_size SQFS_ICACHE_INITIAL)) (\<lambda>_. io_ret ())) (\<lambda>_.
     io_modify (\<lambda>ll. ll\<lparr>ll_ino := Some INO32\<rparr>)))))))"

section \<open>Numbers and an export table\<close>

definition sqfs_ll_ino32exp_sqfs :: "'w::len word \<Rightarrow> (sqfs_ll, sqfs_inode_id) io" where
  "sqfs_ll_ino32exp_sqfs i =
     (if i = FUSE_ROOT_ID then io_gets (\<lambda>ll. sqfs_inode_root (ll_fs ll)) else
      io_bind ll_map (\<lambda>mp.
      io_try (on_fs (sqfs_export_inode (ucast (sqfs_ll_ino32_fuse2num mp i)))) (\<lambda>r. case r of
        Inl e \<Rightarrow> io_ret SQFS_INODE_NONE | Inr ret \<Rightarrow> io_ret ret)))"

definition sqfs_ll_ino32exp_destroy :: "(sqfs_ll, unit) io" where
  "sqfs_ll_ino32exp_destroy = io_modify (\<lambda>ll. ll\<lparr>ll_ino_data := None\<rparr>)"

definition sqfs_ll_ino32exp_init :: "(sqfs_ll, unit) io" where
  "sqfs_ll_ino32exp_init =
     io_bind (io_gets (\<lambda>ll. sqfs_inode_root (ll_fs ll))) (\<lambda>root.
     io_bind (on_fs (sqfs_inode_get root)) (\<lambda>inode.
     io_bind (on_fs (on_heap hp_malloc)) (\<lambda>ok.
     io_bind (io_guard ok Null_Deref) (\<lambda>_.
     io_modify (\<lambda>ll. ll\<lparr>ll_ino_data :=
       Some \<lparr>im_root = bi_inode_number (in_base inode), im_icache = None\<rparr>, ll_ino := Some INO32EXP\<rparr>)))))"

section \<open>The chosen functions\<close>

text \<open>Calling through a pointer that was never set is a fault.\<close>

definition ino_sqfs :: "'w::len word \<Rightarrow> (sqfs_ll, sqfs_inode_id) io" where
  "ino_sqfs i = io_bind (io_gets ll_ino) (\<lambda>f. case f of
     None \<Rightarrow> io_fault Null_Deref
   | Some INO64 \<Rightarrow> io_gets (\<lambda>ll. sqfs_ll_ino64_sqfs ll i)
   | Some INO32 \<Rightarrow> sqfs_ll_ino32_sqfs i
   | Some INO32EXP \<Rightarrow> sqfs_ll_ino32exp_sqfs i)"

definition ino_fuse_num :: "sqfs_dir_entry \<Rightarrow> (sqfs_ll, 'w::len word) io" where
  "ino_fuse_num e = io_bind (io_gets ll_ino) (\<lambda>f. case f of
     None \<Rightarrow> io_fault Null_Deref
   | Some INO64 \<Rightarrow> io_gets (\<lambda>ll. sqfs_ll_ino64_fuse_num ll e)
   | Some _ \<Rightarrow> sqfs_ll_ino32_fuse_num e)"

definition ino_register :: "sqfs_dir_entry \<Rightarrow> (sqfs_ll, 'w::len word) io" where
  "ino_register e = io_bind (io_gets ll_ino) (\<lambda>f. case f of
     Some INO32 \<Rightarrow> sqfs_ll_ino32_register e | _ \<Rightarrow> ino_fuse_num e)"

definition sqfs_ll_null_forget :: "'w::len word \<Rightarrow> size_t \<Rightarrow> (sqfs_ll, unit) io" where
  "sqfs_ll_null_forget i refs = io_ret ()"

definition ino_forget :: "'w::len word \<Rightarrow> size_t \<Rightarrow> (sqfs_ll, unit) io" where
  "ino_forget i refs = io_bind (io_gets ll_ino) (\<lambda>f. case f of
     Some INO32 \<Rightarrow> sqfs_ll_ino32_forget i refs | _ \<Rightarrow> sqfs_ll_null_forget i refs)"

definition sqfs_ll_init :: "'w::len itself \<Rightarrow> (sqfs_ll, unit) io" where
  "sqfs_ll_init w =
     (if SQFS_INODE_ID_BYTES \<le> LENGTH('w) div 8 then sqfs_ll_ino64_init else
      io_bind (io_gets (\<lambda>ll. sqfs_export_ok (ll_fs ll))) (\<lambda>ok.
      if ok then sqfs_ll_ino32exp_init else sqfs_ll_ino32_init))"

definition sqfs_ll_destroy :: "(sqfs_ll, unit) io" where
  "sqfs_ll_destroy =
     io_bind (on_fs sqfs_destroy) (\<lambda>_.
     io_bind (io_gets ll_ino) (\<lambda>f. case f of
       Some INO32 \<Rightarrow> sqfs_ll_ino32_destroy | Some INO32EXP \<Rightarrow> sqfs_ll_ino32exp_destroy | _ \<Rightarrow> io_ret ()))"

definition sqfs_ll_inode :: "'w::len word \<Rightarrow> (sqfs_ll, sqfs_inode) io" where
  "sqfs_ll_inode i = io_bind (ino_sqfs i) (\<lambda>iid. on_fs (sqfs_inode_get iid))"

text \<open>\<^verbatim>\<open>sqfs_ll_stat\<close>: like \<^verbatim>\<open>sqfs_stat\<close>, without the size of a link and the owner override.\<close>

definition ll_stat_xtra :: "(int \<Rightarrow> int \<Rightarrow> u64) \<Rightarrow> sqfs_inode \<Rightarrow> stat \<Rightarrow> stat res" where
  "ll_stat_xtra makedev inode st =
     (if S_ISREG (st_mode st) then
        (case in_xtra inode of
           X_Reg _ file_size _ _ \<Rightarrow>
             Ok (st\<lparr>st_size := off_of_u64 file_size, st_blocks := off_of_u64 file_size sdiv 512\<rparr>)
         | _ \<Rightarrow> Fault Wrong_Union_Arm)
      else if S_ISBLK (st_mode st) \<or> S_ISCHR (st_mode st) then
        (case in_xtra inode of
           X_Dev mj mn \<Rightarrow> Ok (st\<lparr>st_rdev := sqfs_makedev makedev mj mn\<rparr>)
         | _ \<Rightarrow> Fault Wrong_Union_Arm)
      else Ok st)"

definition sqfs_ll_stat :: "(int \<Rightarrow> int \<Rightarrow> u64) \<Rightarrow> sqfs_inode \<Rightarrow> (sqfs_ll, stat) io" where
  "sqfs_ll_stat makedev inode =
     (let mtime = uint (bi_mtime (in_base inode));
          st = stat_zero\<lparr>st_mode := in_mode inode, st_nlink := in_nlink inode,
            st_mtime := mtime, st_ctime := mtime, st_atime := mtime\<rparr>
      in io_bind (io_lift (ll_stat_xtra makedev inode st)) (\<lambda>st.
         io_bind (io_gets (\<lambda>ll. fs_sb (ll_fs ll))) (\<lambda>sb.
         let st = st\<lparr>st_blksize := uint (sb_block_size sb)\<rparr> in
         io_bind (on_fs (sqfs_id_get (bi_uid (in_base inode)))) (\<lambda>uid.
         io_bind (on_fs (sqfs_id_get (bi_guid (in_base inode)))) (\<lambda>gid.
         io_ret (st\<lparr>st_uid := uid, st_gid := gid\<rparr>))))))"

section \<open>The two numberings\<close>

lemma ino64_roundtrip:
  assumes "i = sqfs_inode_root (ll_fs ll) \<or> i \<noteq> 1 \<and> i \<noteq> 2"
  shows "sqfs_ll_ino64_sqfs ll (sqfs_ll_ino64_fuse ll i :: u64) = i" and "(sqfs_ll_ino64_fuse ll i :: u64) \<noteq> 0"
  using assms by (auto simp: sqfs_ll_ino64_sqfs_def sqfs_ll_ino64_fuse_def)

lemma ino32_roundtrip: "sqfs_ll_ino32_fuse2num mp (sqfs_ll_ino32_num2fuse mp n :: u32) = n"
proof -
  have "n + 1 = im_root mp + 1 \<longleftrightarrow> n = im_root mp" "n + 1 = 1 \<longleftrightarrow> n = 0" "im_root mp + 1 = 1 \<longleftrightarrow> im_root mp = 0"
    by (simp_all add: add_eq_0_iff)
  then show ?thesis by (auto simp: sqfs_ll_ino32_fuse2num_def sqfs_ll_ino32_num2fuse_def)
qed

lemma IE_INODE_halves:
  assumes "i < 2 ^ 48"
  shows "IE_INODE \<lparr>ie_refcount = r, ie_ino_hi = ucast (INODE_HI i), ie_ino_lo = ucast (INODE_LO i)\<rparr> = i"
proof -
  have F: "(0xFFFF :: u64) = mask 16" by (simp add: mask_eq_exp_minus_1)
  have i: "bit i n \<Longrightarrow> n < 48" for n
  proof -
    assume b: "bit i n"
    have "unat i < 2 ^ 48" using assms by (simp add: word_less_nat_alt)
    then have "take_bit 48 i = i" by (simp add: word_unat_eq_iff unsigned_take_bit_eq take_bit_nat_eq_self)
    then show "n < 48" using b by (metis bit_take_bit_iff)
  qed
  show ?thesis
    unfolding IE_INODE_def INODE_HI_def INODE_LO_def F
    by (rule bit_word_eqI) (auto simp: bit_simps dest: i)
qed

section \<open>The table of known inodes\<close>

definition icache_of :: "sqfs_ll \<Rightarrow> sqfs_ll_inode_entry sqfs_hash" where
  "icache_of ll = (case ll_ino_data ll of Some mp \<Rightarrow> the (im_icache mp) | None \<Rightarrow> hash_blank)"

definition root_of :: "sqfs_ll \<Rightarrow> sqfs_inode_num" where
  "root_of ll = (case ll_ino_data ll of Some mp \<Rightarrow> im_root mp | None \<Rightarrow> 0)"

text \<open>The table works and memory is available.\<close>

definition icache_ok :: "sqfs_ll \<Rightarrow> bool" where
  "icache_ok ll \<longleftrightarrow> ll_ino ll = Some INO32 \<and> (\<exists>mp t. ll_ino_data ll = Some mp \<and> im_icache mp = Some t \<and> hash_wf t) \<and>
     (\<forall>n. hp_malloc_ok (fs_heap (ll_fs ll)) n)"

text \<open>The same client with another table, after some more allocations.\<close>

definition same_ll :: "sqfs_ll \<Rightarrow> sqfs_ll \<Rightarrow> bool" where
  "same_ll ll ll' \<longleftrightarrow> root_of ll' = root_of ll \<and> (\<exists>n. ll_fs ll' = (ll_fs ll)\<lparr>fs_heap := (fs_heap (ll_fs ll))\<lparr>hp_mallocs := n\<rparr>\<rparr>)"

lemma on_icache_run:
  assumes "icache_ok ll" and "m (icache_of ll, fs_heap (ll_fs ll)) = (r, (t', (fs_heap (ll_fs ll))\<lparr>hp_mallocs := n\<rparr>))"
    and "hash_wf t'"
  shows "\<exists>ll'. on_icache m ll = (r, ll') \<and> icache_ok ll' \<and> icache_of ll' = t' \<and> same_ll ll ll'"
  using assms by (auto simp: icache_ok_def on_icache_def ll_map_def io_simps icache_of_def same_ll_def root_of_def)

lemma icache_get_run:
  assumes "icache_ok ll"
  shows "icache_get n ll = (Ok (hash_map (icache_of ll) n), ll)"
proof -
  obtain mp t where m: "ll_ino_data ll = Some mp" "im_icache mp = Some t" "hash_wf t"
    using assms by (auto simp: icache_ok_def)
  have "mp\<lparr>im_icache := Some t\<rparr> = mp" using m(2) by (cases mp) simp
  then show ?thesis using m hash_get_map [OF m(3), of n]
    by (simp add: icache_get_def on_icache_def ll_map_def io_simps icache_of_def)
qed

lemma ll_map_run: "icache_ok ll \<Longrightarrow> \<exists>mp. ll_map ll = (Ok mp, ll) \<and> im_root mp = root_of ll"
  by (auto simp: icache_ok_def ll_map_def root_of_def)

text \<open>The table as FUSE sees it: for a known inode its position and how often it was looked up.\<close>

definition known :: "sqfs_ll \<Rightarrow> sqfs_inode_num \<Rightarrow> (nat \<times> sqfs_inode_id) option" where
  "known ll n = map_option (\<lambda>ie. (unat (ie_refcount ie), IE_INODE ie)) (hash_map (icache_of ll) n)"

lemma same_ll_refl: "same_ll ll ll"
  by (auto simp: same_ll_def intro!: exI [of _ "hp_mallocs (fs_heap (ll_fs ll))"])

lemma same_ll_map: "icache_ok ll' \<Longrightarrow> same_ll ll ll' \<Longrightarrow> \<exists>mp. ll_map ll' = (Ok mp, ll') \<and> im_root mp = root_of ll"
  using ll_map_run [of ll'] by (auto simp: same_ll_def)

lemma register_known:
  assumes ok: "icache_ok ll" and id: "ent_inode e < 2 ^ 48"
    and few: "\<And>k i. known ll (ent_inode_number e) = Some (k, i) \<Longrightarrow> Suc k < 2 ^ 32"
  shows "\<exists>ll'. ino_register e ll = (Ok (sqfs_ll_ino32_num2fuse \<lparr>im_root = root_of ll, im_icache = None\<rparr> (ent_inode_number e) :: u32), ll') \<and>
    icache_ok ll' \<and> same_ll ll ll' \<and> known ll' = (known ll)(ent_inode_number e \<mapsto>
      (case known ll (ent_inode_number e) of None \<Rightarrow> (1, ent_inode e) | Some (k, i) \<Rightarrow> (Suc k, i)))"
proof -
  let ?n = "ent_inode_number e" and ?t = "icache_of ll" and ?h = "fs_heap (ll_fs ll)"
  have wf: "hash_wf ?t" using ok by (auto simp: icache_ok_def icache_of_def)
  have mem: "\<forall>n. hp_malloc_ok ?h n" and ino: "ll_ino ll = Some INO32" using ok by (auto simp: icache_ok_def)
  have num: "sqfs_ll_ino32_fuse_num e ll' =
      (Ok (sqfs_ll_ino32_num2fuse \<lparr>im_root = root_of ll, im_icache = None\<rparr> ?n :: u32), ll')"
    if "icache_ok ll'" "same_ll ll ll'" for ll'
    using same_ll_map [OF that] by (auto simp: sqfs_ll_ino32_fuse_num_def io_simps sqfs_ll_ino32_num2fuse_def)
  have reg: "ino_register e ll = sqfs_ll_ino32_register e ll" using ino by (simp add: ino_register_def io_simps)
  show ?thesis
  proof (cases "hash_map ?t ?n")
    case None
    let ?ie = "\<lparr>ie_refcount = 1, ie_ino_hi = ucast (INODE_HI (ent_inode e)), ie_ino_lo = ucast (INODE_LO (ent_inode e))\<rparr>"
    from sqfs_hash_add_spec [OF wf None mem, of ?ie] obtain t' n where
      t': "sqfs_hash_add ?n ?ie (?t, ?h) = (Ok (), (t', ?h\<lparr>hp_mallocs := n\<rparr>))" "hash_wf t'" "hash_map t' = (hash_map ?t)(?n \<mapsto> ?ie)"
      by blast
    from on_icache_run [where m = "sqfs_hash_add ?n ?ie", OF ok t'(1,2)] obtain ll' where
      ll': "on_icache (sqfs_hash_add ?n ?ie) ll = (Ok (), ll')" "icache_ok ll'" "icache_of ll' = t'" "same_ll ll ll'" by blast
    have "known ll' = (known ll)(?n \<mapsto> (1, ent_inode e))"
      using t'(3) ll'(3) IE_INODE_halves [OF id] by (simp add: known_def fun_eq_iff)
    then show ?thesis using None ll' num [OF ll'(2,4)] icache_get_run [OF ok, of ?n]
      by (auto simp: reg sqfs_ll_ino32_register_def io_simps Let_def known_def)
  next
    case (Some ie)
    let ?ie = "ie\<lparr>ie_refcount := ie_refcount ie + 1\<rparr>"
    from hash_write_spec [OF wf, of ?n ?ie] Some obtain t' where
      t': "hash_write ?n ?ie ?t = Ok t'" "hash_wf t'" "hash_map t' = (hash_map ?t)(?n \<mapsto> ?ie)" by auto
    have w: "hash_write_io ?n ?ie (?t, ?h) = (Ok (), (t', ?h\<lparr>hp_mallocs := hp_mallocs ?h\<rparr>))"
      using t'(1) by (simp add: hash_write_io_def)
    from on_icache_run [where m = "hash_write_io ?n ?ie", OF ok w t'(2)] obtain ll' where
      ll': "on_icache (hash_write_io ?n ?ie) ll = (Ok (), ll')" "icache_ok ll'" "icache_of ll' = t'" "same_ll ll ll'" by blast
    have "Suc (unat (ie_refcount ie)) < 2 ^ 32" using few Some by (simp add: known_def)
    then have "unat (ie_refcount ie + 1) = Suc (unat (ie_refcount ie))" by (simp add: unat_word_ariths)
    then have "known ll' = (known ll)(?n \<mapsto> (Suc (unat (ie_refcount ie)), IE_INODE ie))"
      using t'(3) ll'(3) by (simp add: known_def fun_eq_iff IE_INODE_def)
    then show ?thesis using Some ll' num [OF ll'(2,4)] icache_get_run [OF ok, of ?n]
      by (auto simp: reg sqfs_ll_ino32_register_def io_simps Let_def known_def)
  qed
qed

text \<open>Forgetting takes lookups back and drops the inode with the last one.\<close>

lemma forget_known:
  fixes i :: u32
  assumes ok: "icache_ok ll"
  defines "n \<equiv> sqfs_ll_ino32_fuse2num \<lparr>im_root = root_of ll, im_icache = None\<rparr> i"
  shows "\<exists>ll'. ino_forget i refs ll = (Ok (), ll') \<and> icache_ok ll' \<and> same_ll ll ll' \<and>
    known ll' = (known ll)(n := (case known ll n of None \<Rightarrow> None
      | Some (k, p) \<Rightarrow> if refs < k then Some (k - refs, p) else None))"
proof -
  let ?t = "icache_of ll" and ?h = "fs_heap (ll_fs ll)"
  have wf: "hash_wf ?t" and ino: "ll_ino ll = Some INO32" using ok by (auto simp: icache_ok_def icache_of_def)
  obtain mp where mp: "ll_map ll = (Ok mp, ll)" "im_root mp = root_of ll" using ll_map_run [OF ok] by blast
  have num: "ucast (sqfs_ll_ino32_fuse2num mp i) = n" using mp(2) by (simp add: n_def sqfs_ll_ino32_fuse2num_def)
  have run: "ino_forget i refs ll = (case hash_map ?t n of None \<Rightarrow> io_ret ()
     | Some ie \<Rightarrow> if refs < unat (ie_refcount ie)
        then on_icache (hash_write_io n (ie\<lparr>ie_refcount := ie_refcount ie - word_of_nat refs\<rparr>))
        else on_icache (hash_remove_io n)) ll"
    using ino mp(1) num icache_get_run [OF ok, of n]
    by (simp add: ino_forget_def sqfs_ll_ino32_forget_def io_simps Let_def split: option.split)
  consider (no) "hash_map ?t n = None" | (fewer) ie where "hash_map ?t n = Some ie" "refs < unat (ie_refcount ie)"
    | (last) ie where "hash_map ?t n = Some ie" "\<not> refs < unat (ie_refcount ie)" by (cases "hash_map ?t n") auto
  then show ?thesis
  proof cases
    case no
    then show ?thesis using ok by (auto simp: run io_simps known_def same_ll_refl fun_eq_iff)
  next
    case fewer
    let ?ie = "ie\<lparr>ie_refcount := ie_refcount ie - word_of_nat refs\<rparr>"
    from hash_write_spec [OF wf, of n ?ie] fewer obtain t' where
      t': "hash_write n ?ie ?t = Ok t'" "hash_wf t'" "hash_map t' = (hash_map ?t)(n \<mapsto> ?ie)" by auto
    then have w: "hash_write_io n ?ie (?t, ?h) = (Ok (), (t', ?h\<lparr>hp_mallocs := hp_mallocs ?h\<rparr>))"
      by (simp add: hash_write_io_def)
    from on_icache_run [where m = "hash_write_io n ?ie", OF ok w t'(2)] obtain ll' where
      ll': "on_icache (hash_write_io n ?ie) ll = (Ok (), ll')" "icache_ok ll'" "icache_of ll' = t'" "same_ll ll ll'" by blast
    have "unat (ie_refcount ie) < 2 ^ LENGTH(32)" by (rule unsigned_less)
    then have "refs < 2 ^ 32" using fewer(2) by simp
    then have "unat (ie_refcount ie - word_of_nat refs) = unat (ie_refcount ie) - refs"
      using fewer(2) by (simp add: unat_sub word_le_nat_alt unat_of_nat)
    then have "known ll' = (known ll)(n \<mapsto> (unat (ie_refcount ie) - refs, IE_INODE ie))"
      using t'(3) ll'(3) by (simp add: known_def fun_eq_iff IE_INODE_def)
    then show ?thesis using fewer ll' by (auto simp: run known_def)
  next
    case last
    from sqfs_hash_remove_spec [OF wf, of n] obtain t' where
      t': "sqfs_hash_remove n ?t = Ok t'" "hash_wf t'" "hash_map t' = (hash_map ?t)(n := None)" by blast
    then have w: "hash_remove_io n (?t, ?h) = (Ok (), (t', ?h\<lparr>hp_mallocs := hp_mallocs ?h\<rparr>))"
      by (simp add: hash_remove_io_def)
    from on_icache_run [where m = "hash_remove_io n", OF ok w t'(2)] obtain ll' where
      ll': "on_icache (hash_remove_io n) ll = (Ok (), ll')" "icache_ok ll'" "icache_of ll' = t'" "same_ll ll ll'" by blast
    have "known ll' = (known ll)(n := None)" using t'(3) ll'(3) by (simp add: known_def fun_eq_iff)
    then show ?thesis using last ll' by (auto simp: run known_def)
  qed
qed

section \<open>The interface the request handlers rely on\<close>

text \<open>A numbering of inodes. \<open>names s w\<close> is the position the number \<open>w\<close> stands for, \<open>good s e\<close> says that
  the directory entry \<open>e\<close> can be numbered. Numbers given out are never zero, stay valid while other entries
  are registered and while other numbers are forgotten.\<close>

locale inode_numbers =
  fixes names :: "'s \<Rightarrow> 'w::len word \<Rightarrow> sqfs_inode_id option"
    and ok :: "'s \<Rightarrow> bool"
    and good :: "'s \<Rightarrow> sqfs_dir_entry \<Rightarrow> bool"
    and register :: "sqfs_dir_entry \<Rightarrow> ('s, 'w word) io"
    and resolve :: "'w word \<Rightarrow> ('s, sqfs_inode_id) io"
    and forget :: "'w word \<Rightarrow> size_t \<Rightarrow> ('s, unit) io"
  assumes register_names: "ok s \<Longrightarrow> good s e \<Longrightarrow> \<exists>w s'. register e s = (Ok w, s') \<and> ok s' \<and> w \<noteq> 0 \<and>
      names s' w = Some (ent_inode e) \<and> (\<forall>v p. names s v = Some p \<longrightarrow> names s' v = Some p)"
    and resolve_names: "ok s \<Longrightarrow> names s w = Some p \<Longrightarrow> \<exists>s'. resolve w s = (Ok p, s') \<and> ok s' \<and> names s' = names s"
    and forget_names: "ok s \<Longrightarrow> \<exists>s'. forget w k s = (Ok (), s') \<and> ok s' \<and> (\<forall>v. v \<noteq> w \<longrightarrow> names s' v = names s v)"
begin

lemma register_resolve:
  assumes "ok s" and "good s e"
  shows "\<exists>w s1 s2. register e s = (Ok w, s1) \<and> w \<noteq> 0 \<and> resolve w s1 = (Ok (ent_inode e), s2) \<and> ok s2"
  using register_names [OF assms] resolve_names by blast

text \<open>Requests between the lookup and the use of a number.\<close>

lemma register_other_resolve:
  assumes "ok s" and "good s e" and "\<And>s'. ok s' \<Longrightarrow> good s' e'"
  shows "\<exists>w v s1 s2 s3 s4. register e s = (Ok w, s1) \<and> register e' s1 = (Ok v, s2) \<and>
    (v = w \<or> forget v k s2 = (Ok (), s3) \<and> resolve w s3 = (Ok (ent_inode e), s4))"
proof -
  obtain w s1 where 1: "register e s = (Ok w, s1)" "ok s1" "names s1 w = Some (ent_inode e)"
    using register_names [OF assms(1,2)] by blast
  obtain v s2 where 2: "register e' s1 = (Ok v, s2)" "ok s2" "names s2 w = Some (ent_inode e)"
    using register_names [OF 1(2) assms(3)] 1 by blast
  obtain s3 where 3: "forget v k s2 = (Ok (), s3)" "ok s3" "\<forall>u. u \<noteq> v \<longrightarrow> names s3 u = names s2 u"
    using forget_names [OF 2(2)] by blast
  show ?thesis
  proof (cases "v = w")
    case False
    then have "names s3 w = Some (ent_inode e)" using 2(3) 3(3) by simp
    then show ?thesis using resolve_names [OF 3(2)] 1 2 3 by blast
  qed (use 1 2 in blast)
qed

end

subsection \<open>Positions\<close>

interpretation n64: inode_numbers "\<lambda>ll w. Some (sqfs_ll_ino64_sqfs ll (w :: u64))" "\<lambda>ll. ll_ino ll = Some INO64"
  "\<lambda>ll e. ent_inode e = sqfs_inode_root (ll_fs ll) \<or> ent_inode e \<noteq> 1 \<and> ent_inode e \<noteq> 2"
  ino_register ino_sqfs ino_forget
proof (unfold_locales, goal_cases)
  case (1 ll e)
  then show ?case using ino64_roundtrip [of "ent_inode e" ll]
    by (auto simp: ino_register_def ino_fuse_num_def sqfs_ll_ino64_fuse_num_def io_simps)
next
  case (2 ll w p)
  then show ?case by (simp add: ino_sqfs_def io_simps)
next
  case (3 ll w k)
  then show ?case by (simp add: ino_forget_def sqfs_ll_null_forget_def io_simps)
qed

subsection \<open>Numbers, with the table of known inodes\<close>

definition names32 :: "sqfs_ll \<Rightarrow> u32 \<Rightarrow> sqfs_inode_id option" where
  "names32 ll w = (if w = 1 then Some (sqfs_inode_root (ll_fs ll))
     else map_option snd (known ll (sqfs_ll_ino32_fuse2num \<lparr>im_root = root_of ll, im_icache = None\<rparr> w)))"

definition fuse_num_of :: "sqfs_inode_num \<Rightarrow> sqfs_inode_num \<Rightarrow> u32" where
  "fuse_num_of root n = sqfs_ll_ino32_num2fuse \<lparr>im_root = root, im_icache = None\<rparr> n"

text \<open>The entry has a number other than zero, its position fits 48 bits, the number has not been used for
  another position, and the count of lookups does not overflow.\<close>

definition good32 :: "sqfs_ll \<Rightarrow> sqfs_dir_entry \<Rightarrow> bool" where
  "good32 ll e \<longleftrightarrow> ent_inode e < 2 ^ 48 \<and> fuse_num_of (root_of ll) (ent_inode_number e) \<noteq> 0 \<and>
     (ent_inode_number e = root_of ll \<longrightarrow> ent_inode e = sqfs_inode_root (ll_fs ll)) \<and>
     pred_option (\<lambda>(k, p). p = ent_inode e \<and> Suc k < 2 ^ 32) (known ll (ent_inode_number e))"

lemma fuse2num_inj:
  assumes "sqfs_ll_ino32_fuse2num mp (v :: u32) = sqfs_ll_ino32_fuse2num mp w"
  shows "v = w"
proof -
  let ?f = "sqfs_ll_ino32_num2fuse mp :: u32 \<Rightarrow> u32"
  have "inj ?f" using ino32_roundtrip by (metis injI)
  then have "surj ?f" by (rule finite_UNIV_inj_surj [OF finite_class.finite_UNIV])
  then obtain m n where "v = ?f m" "w = ?f n" by (metis surjD)
  then show ?thesis using assms ino32_roundtrip by metis
qed

lemma same_ll_root: "same_ll ll ll' \<Longrightarrow> root_of ll' = root_of ll \<and> sqfs_inode_root (ll_fs ll') = sqfs_inode_root (ll_fs ll)"
  by (auto simp: same_ll_def sqfs_inode_root_def)

lemma num2fuse_root: "(sqfs_ll_ino32_num2fuse mp n :: u32) = 1 \<Longrightarrow> n = im_root mp \<or> n = 0 \<and> im_root mp = 0"
  by (auto simp: sqfs_ll_ino32_num2fuse_def split: if_splits)

interpretation n32: inode_numbers names32 icache_ok good32 "ino_register :: _ \<Rightarrow> (_, u32) io" ino_sqfs ino_forget
proof (unfold_locales, goal_cases)
  case (1 ll e)
  let ?n = "ent_inode_number e" and ?mp = "\<lparr>im_root = root_of ll, im_icache = None\<rparr>"
  let ?w = "sqfs_ll_ino32_num2fuse ?mp ?n :: u32"
  have g: "ent_inode e < 2 ^ 48" "?w \<noteq> 0" "?n = root_of ll \<Longrightarrow> ent_inode e = sqfs_inode_root (ll_fs ll)"
    "\<And>k p. known ll ?n = Some (k, p) \<Longrightarrow> p = ent_inode e \<and> Suc k < 2 ^ 32"
    using 1(2) by (auto simp: good32_def fuse_num_of_def)
  from register_known [OF 1(1) g(1)] g(4) obtain ll' where
    r: "ino_register e ll = (Ok ?w, ll')" "icache_ok ll'" "same_ll ll ll'" "known ll' = (known ll)(?n \<mapsto>
      (case known ll ?n of None \<Rightarrow> (1, ent_inode e) | Some (k, i) \<Rightarrow> (Suc k, i)))" by blast
  have new: "map_option snd (known ll' ?n) = Some (ent_inode e)" using r(4) g(4) by (auto split: option.splits)
  have old: "map_option snd (known ll' m) = Some p" if "map_option snd (known ll m) = Some p" for m p
    using that r(4) g(4) new by (cases "m = ?n") auto
  have "names32 ll' ?w = Some (ent_inode e)"
    using new num2fuse_root [of ?mp ?n] g(3) same_ll_root [OF r(3)] ino32_roundtrip [of ?mp ?n]
    by (auto simp: names32_def)
  moreover have "names32 ll v = Some p \<longrightarrow> names32 ll' v = Some p" for v p
    using old same_ll_root [OF r(3)] by (simp add: names32_def)
  ultimately show ?case using r(1,2) g(2) by blast
next
  case (2 ll w p)
  obtain mp where mp: "ll_map ll = (Ok mp, ll)" "im_root mp = root_of ll" using ll_map_run [OF 2(1)] by blast
  have ino: "ll_ino ll = Some INO32" using 2(1) by (simp add: icache_ok_def)
  have f: "sqfs_ll_ino32_fuse2num mp w = sqfs_ll_ino32_fuse2num \<lparr>im_root = root_of ll, im_icache = None\<rparr> w"
    using mp(2) by (simp add: sqfs_ll_ino32_fuse2num_def)
  have "ino_sqfs w ll = (Ok p, ll)"
    using 2(2) ino mp(1) icache_get_run [OF 2(1)]
    by (auto simp: ino_sqfs_def sqfs_ll_ino32_sqfs_def io_simps names32_def f known_def split: if_splits)
  then show ?case using 2(1) by blast
next
  case (3 ll w k)
  let ?mp = "\<lparr>im_root = root_of ll, im_icache = None\<rparr>"
  from forget_known [OF 3, of w k] obtain ll' where
    r: "ino_forget w k ll = (Ok (), ll')" "icache_ok ll'" "same_ll ll ll'"
      "\<forall>m. m \<noteq> sqfs_ll_ino32_fuse2num ?mp w \<longrightarrow> known ll' m = known ll m" by auto
  have "names32 ll' v = names32 ll v" if "v \<noteq> w" for v
  proof -
    have "sqfs_ll_ino32_fuse2num ?mp v \<noteq> sqfs_ll_ino32_fuse2num ?mp w" using that fuse2num_inj by blast
    then have "known ll' (sqfs_ll_ino32_fuse2num ?mp v) = known ll (sqfs_ll_ino32_fuse2num ?mp v)" using r(4) by blast
    then show ?thesis using same_ll_root [OF r(3)] by (simp add: names32_def)
  qed
  then show ?case using r(1,2) by blast
qed

subsection \<open>Numbers, with the export table\<close>

text \<open>The image has an export table that holds \<open>ds\<close>, and memory does not run out.\<close>

definition export_ready :: "fs_env \<Rightarrow> nat multiset \<Rightarrow> bytes list \<Rightarrow> sqfs_inode_num \<Rightarrow> sqfs_ll \<Rightarrow> bool" where
  "export_ready E M ds root ll \<longleftrightarrow> ll_ino ll = Some INO32EXP \<and> (\<exists>mp. ll_ino_data ll = Some mp \<and> im_root mp = root) \<and>
     fs_clean E M (ll_fs ll) \<and> \<not> ev_oom E \<and> sb_lookup_table_start (fs_sb (ev_img E)) \<noteq> u64_of_off SQUASHFS_INVALID_BLK \<and>
     table_holds (ev_img E) (fs_export_table (ev_img E)) ds \<and> tb_each (fs_export_table (ev_img E)) = 8"

definition export_names :: "sqfs_image \<Rightarrow> bytes list \<Rightarrow> sqfs_inode_num \<Rightarrow> u32 \<Rightarrow> sqfs_inode_id option" where
  "export_names im ds root w =
     (let idx = unat (sqfs_ll_ino32_fuse2num \<lparr>im_root = root, im_icache = None\<rparr> w - 1); tab = fs_export_table im in
      if w = 1 then Some (sb_root_inode (fs_sb im))
      else if idx < tb_count tab then Some (sqfs_swapin64 (table_array tab ds idx)) else None)"

lemma export_inode_array:
  assumes "sb_lookup_table_start (fs_sb (ev_img E)) \<noteq> u64_of_off SQUASHFS_INVALID_BLK" and "table_holds (ev_img E) (fs_export_table (ev_img E)) ds"
    and "tb_each (fs_export_table (ev_img E)) = 8" and "unat (n - 1) < tb_count (fs_export_table (ev_img E))"
  shows "yields E M (sqfs_export_inode n) (Ok (sqfs_swapin64 (table_array (fs_export_table (ev_img E)) ds (unat (n - 1)))))"
proof -
  have img: "fs_img s = ev_img E" if "fs_clean E M s" for s using that by (simp add: fs_inv_def)
  have ok: "yields E M (io_gets sqfs_export_ok) (Ok True)"
    by (rule implements_gets) (metis assms(1) img sqfs_export_ok_def fs_img_fields(3))
  have tab: "yields E M (io_gets fs_export_table) (Ok (fs_export_table (ev_img E)))"
    by (rule implements_gets) (metis img fs_img_fields)
  have get: "yields E M (sqfs_table_get (fs_export_table (ev_img E)) (unat (n - 1)))
      (Ok (table_array (fs_export_table (ev_img E)) ds (unat (n - 1))))"
    by (rule sqfs_table_get_array) (use assms in auto)
  show ?thesis unfolding sqfs_export_inode_def
    by (rule yields_bind_Ok [OF ok], simp only: not_True_eq_False if_False,
        rule yields_bind_Ok [OF tab], rule yields_bind_Ok [OF get], rule yields_ret, rule refl)
qed

interpretation nexp: inode_numbers "\<lambda>_. export_names (ev_img E) ds root" "export_ready E M ds root"
  "\<lambda>_ e. let w = fuse_num_of root (ent_inode_number e) in w \<noteq> 0 \<and> export_names (ev_img E) ds root w = Some (ent_inode e)"
  "ino_register :: _ \<Rightarrow> (_, u32) io" ino_sqfs ino_forget
proof (unfold_locales, goal_cases)
  case (1 ll e)
  then show ?case
    by (auto simp: export_ready_def ino_register_def ino_fuse_num_def sqfs_ll_ino32_fuse_num_def ll_map_def io_simps
        Let_def fuse_num_of_def sqfs_ll_ino32_num2fuse_def)
next
  case (2 ll w p)
  from 2(1) obtain mp where mp: "ll_ino_data ll = Some mp" "im_root mp = root" and ino: "ll_ino ll = Some INO32EXP"
    and clean: "fs_clean E M (ll_fs ll)" and mem: "\<not> ev_oom E"
    and tab: "sb_lookup_table_start (fs_sb (ev_img E)) \<noteq> u64_of_off SQUASHFS_INVALID_BLK" "table_holds (ev_img E) (fs_export_table (ev_img E)) ds" "tb_each (fs_export_table (ev_img E)) = 8"
    by (auto simp: export_ready_def)
  have root: "sqfs_inode_root (ll_fs ll) = sb_root_inode (fs_sb (ev_img E))"
    using clean by (metis fs_inv_def fs_img_fields(3) sqfs_inode_root_def)
  have f: "sqfs_ll_ino32_fuse2num mp w = sqfs_ll_ino32_fuse2num \<lparr>im_root = root, im_icache = None\<rparr> w"
    using mp(2) by (simp add: sqfs_ll_ino32_fuse2num_def)
  show ?case
  proof (cases "w = 1")
    case True
    then show ?thesis using 2 ino root
      by (auto simp: ino_sqfs_def sqfs_ll_ino32exp_sqfs_def io_simps export_names_def Let_def)
  next
    case False
    let ?n = "sqfs_ll_ino32_fuse2num mp w"
    have idx: "unat (?n - 1) < tb_count (fs_export_table (ev_img E))"
      and p: "p = sqfs_swapin64 (table_array (fs_export_table (ev_img E)) ds (unat (?n - 1)))"
      using 2(2) False by (auto simp: export_names_def Let_def f split: if_splits)
    from implements_OkD [OF export_inode_array [OF tab idx, of M, simplified mem] clean] obtain s' where
      s': "sqfs_export_inode ?n (ll_fs ll) = (Ok p, s')" "fs_clean E M s'" unfolding p by blast
    have "ino_sqfs w ll = (Ok p, ll\<lparr>ll_fs := s'\<rparr>)"
      using False ino mp(1) s'(1)
      by (simp add: ino_sqfs_def sqfs_ll_ino32exp_sqfs_def io_simps ll_map_def on_fs_def)
    then show ?thesis using 2(1) s'(2) by (auto simp: export_ready_def)
  qed
next
  case (3 ll w k)
  then show ?case by (auto simp: export_ready_def ino_forget_def sqfs_ll_null_forget_def io_simps)
qed

end
