(* ===== verification/Sqfs_LL.thy ===== *)
theory Sqfs_LL
  imports Sqfs_LL_Inode Sqfs_File
begin

text \<open>
  The low-level FUSE client: the request handlers of \<^verbatim>\<open>ll.c\<close>, \<^verbatim>\<open>sqfs_ll_iget\<close> of
  \<^verbatim>\<open>ll_inode.c\<close>, and the idle timeout that unmounts an unused file system.

  A session is the client (\<open>sqfs_ll\<close>), the static variables of \<^verbatim>\<open>ll.c\<close>, the objects that file
  handles point to, and the log of replies sent to FUSE. What belongs to FUSE and the system is the
  configuration \<open>ll_config\<close>: the encoding \<^verbatim>\<open>fuse_add_direntry\<close> (or \<^verbatim>\<open>fuse_add_dirent\<close>) gives a
  directory entry, \<^verbatim>\<open>makedev\<close>, \<^verbatim>\<open>sqfs_enoattr\<close>, the conditional compilation switches, and the
  contents of an uninitialised \<^verbatim>\<open>sqfs_xattr\<close>. \<open>now\<close> is what \<^verbatim>\<open>time(NULL)\<close> returns in a call.

  The lemmas show that every handler answers its request exactly once on every path, that a session's
  count of open files is the number of its live handles, so that the timer never stops a session that has
  one, and what the main handlers reply on an image an image builder would write.
\<close>

section \<open>Data\<close>

abbreviation (input) ENOENT :: int where "ENOENT \<equiv> 2"
abbreviation (input) ENOMEM :: int where "ENOMEM \<equiv> 12"
abbreviation (input) ENOTDIR :: int where "ENOTDIR \<equiv> 20"
abbreviation (input) EISDIR :: int where "EISDIR \<equiv> 21"
abbreviation (input) EINVAL :: int where "EINVAL \<equiv> 22"
abbreviation (input) EROFS :: int where "EROFS \<equiv> 30"
abbreviation (input) O_WRONLY :: u32 where "O_WRONLY \<equiv> 1"
abbreviation (input) O_RDWR :: u32 where "O_RDWR \<equiv> 2"

text \<open>\<open>fi_fh\<close> is an address, zero for \<^verbatim>\<open>NULL\<close>.\<close>

record fuse_file_info =
  fi_flags :: u32
  fi_fh :: nat
  fi_keep_cache :: bool

text \<open>\<^verbatim>\<open>SQFS_TIMEOUT\<close> is the largest \<^verbatim>\<open>double\<close>: the kernel may keep the answer for ever.\<close>

datatype fuse_timeout = TIMEOUT_ZERO | SQFS_TIMEOUT

record fuse_entry_param =
  fe_ino :: u64
  fe_attr :: stat
  fe_attr_timeout :: fuse_timeout
  fe_entry_timeout :: fuse_timeout

datatype ll_reply =
    Reply_Err int
  | Reply_None
  | Reply_Attr stat fuse_timeout
  | Reply_Open fuse_file_info
  | Reply_Buf bytes
  | Reply_Entry fuse_entry_param
  | Reply_Readlink bytes
  | Reply_Xattr size_t
  | Reply_Statfs statvfs

text \<open>What a file handle points to: nothing yet, a \<^verbatim>\<open>sqfs_ll_i\<close>, or a \<^verbatim>\<open>sqfs_inode\<close>.\<close>

datatype ll_handle = H_Blank | H_Dir sqfs_inode | H_File sqfs_inode

record ll_session =
  ls_ll :: sqfs_ll
  ls_idle_timeout_secs :: u32
  ls_last_access :: int
  ls_open_refcount :: u32
  ls_fuse_instance :: bool
  ls_alarm :: bool
  ls_sigint :: bool
  ls_notify_pipe :: "bytes option"
  ls_notices :: "(bytes \<times> u8) list"
  ls_handles :: "nat \<rightharpoonup> ll_handle"
  ls_brk :: nat
  ls_replies :: "ll_reply list"

record ll_config =
  lc_multithreaded :: bool
  lc_broken_offsets :: bool
  lc_makedev :: "int \<Rightarrow> int \<Rightarrow> u64"
  lc_enoattr :: int
  lc_direntry :: "bytes \<Rightarrow> stat \<Rightarrow> off_t \<Rightarrow> bytes"
  lc_xattr :: sqfs_xattr

definition cstring :: "bytes \<Rightarrow> bytes" where
  "cstring bs = takeWhile (\<lambda>c. c \<noteq> 0) bs"

definition on_ll :: "(sqfs_ll, 'a) io \<Rightarrow> (ll_session, 'a) io" where
  "on_ll = io_on ls_ll (\<lambda>ll s. s\<lparr>ls_ll := ll\<rparr>)"

definition fs_call :: "(sqfs, 'a) io \<Rightarrow> (ll_session, 'a) io" where
  "fs_call m = on_ll (on_fs m)"

definition reply :: "ll_reply \<Rightarrow> (ll_session, unit) io" where
  "reply r = io_modify (\<lambda>s. s\<lparr>ls_replies := ls_replies s @ [r]\<rparr>)"

definition ll_malloc :: "(ll_session, bool) io" where
  "ll_malloc = fs_call (on_heap hp_malloc)"

text \<open>Objects that outlive the request: \<^verbatim>\<open>malloc\<close>, writing, following the pointer, \<^verbatim>\<open>free\<close>.\<close>

definition handle_new :: "(ll_session, nat option) io" where
  "handle_new = io_bind ll_malloc (\<lambda>ok.
     if \<not> ok then io_ret None else (\<lambda>s.
       let p = Suc (ls_brk s) in (Ok (Some p), s\<lparr>ls_brk := p, ls_handles := (ls_handles s)(p \<mapsto> H_Blank)\<rparr>)))"

definition handle_set :: "nat \<Rightarrow> ll_handle \<Rightarrow> (ll_session, unit) io" where
  "handle_set p h = io_modify (\<lambda>s. s\<lparr>ls_handles := (ls_handles s)(p \<mapsto> h)\<rparr>)"

definition handle_get :: "nat \<Rightarrow> (ll_session, ll_handle) io" where
  "handle_get p = (\<lambda>s. if p = 0 then (Fault Null_Deref, s) else
     case ls_handles s p of None \<Rightarrow> (Fault Use_After_Free, s) | Some h \<Rightarrow> (Ok h, s))"

definition handle_free :: "nat \<Rightarrow> (ll_session, unit) io" where
  "handle_free p = (\<lambda>s. if p = 0 then (Ok (), s) else
     case ls_handles s p of None \<Rightarrow> (Fault Use_After_Free, s)
     | Some h \<Rightarrow> (Ok (), s\<lparr>ls_handles := (ls_handles s)(p := None)\<rparr>))"

section \<open>Access times and open files\<close>

definition update_access_time :: "ll_config \<Rightarrow> int \<Rightarrow> (ll_session, unit) io" where
  "update_access_time cf now = io_modify (\<lambda>s.
     if lc_multithreaded cf \<and> ls_idle_timeout_secs s = 0 then s else s\<lparr>ls_last_access := now\<rparr>)"

definition update_open_refcount :: "int \<Rightarrow> (ll_session, unit) io" where
  "update_open_refcount delta = io_modify (\<lambda>s. s\<lparr>ls_open_refcount := ls_open_refcount s + word_of_int delta\<rparr>)"

definition get_access_time :: "ll_session \<Rightarrow> int" where "get_access_time s = ls_last_access s"

definition get_open_refcount :: "ll_session \<Rightarrow> u32" where "get_open_refcount s = ls_open_refcount s"

section \<open>Handlers\<close>

text \<open>\<^verbatim>\<open>sqfs_ll_iget\<close>: on failure it has replied. For inode zero it does not fetch an inode.\<close>

definition sqfs_ll_iget :: "'w::len word \<Rightarrow> (ll_session, sqfs_inode option) io" where
  "sqfs_ll_iget i =
     (if i = FUSE_INODE_NONE then io_ret None else
      io_try (on_ll (sqfs_ll_inode i)) (\<lambda>r. case r of
        Inl e \<Rightarrow> io_bind (reply (Reply_Err ENOENT)) (\<lambda>_. io_raise e)
      | Inr inode \<Rightarrow> io_ret (Some inode)))"

text \<open>\<^verbatim>\<open>if (sqfs_ll_iget(req, &lli, ino)) return;\<close> and then a use of \<^verbatim>\<open>lli.inode\<close>.\<close>

definition iget_or_return :: "'w::len word \<Rightarrow> (sqfs_inode \<Rightarrow> (ll_session, unit) io) \<Rightarrow> (ll_session, unit) io" where
  "iget_or_return i k =
     io_try (sqfs_ll_iget i) (\<lambda>r. case r of
       Inl e \<Rightarrow> io_ret ()
     | Inr None \<Rightarrow> io_fault Uninitialised
     | Inr (Some inode) \<Rightarrow> k inode)"

definition sqfs_ll_op_getattr :: "ll_config \<Rightarrow> int \<Rightarrow> 'w::len word \<Rightarrow> (ll_session, unit) io" where
  "sqfs_ll_op_getattr cf now ino =
     io_bind (update_access_time cf now) (\<lambda>_.
     iget_or_return ino (\<lambda>inode.
     io_try (fs_call (sqfs_stat (lc_makedev cf) inode)) (\<lambda>r. case r of
       Inl e \<Rightarrow> reply (Reply_Err ENOENT)
     | Inr st \<Rightarrow> reply (Reply_Attr (st\<lparr>st_ino := ucast ino\<rparr>) SQFS_TIMEOUT))))"

definition sqfs_ll_op_opendir :: "ll_config \<Rightarrow> int \<Rightarrow> 'w::len word \<Rightarrow> fuse_file_info \<Rightarrow> (ll_session, unit) io" where
  "sqfs_ll_op_opendir cf now ino fi =
     io_bind (update_access_time cf now) (\<lambda>_.
     let fi = fi\<lparr>fi_fh := 0\<rparr> in
     io_bind handle_new (\<lambda>lli. case lli of
       None \<Rightarrow> reply (Reply_Err ENOMEM)
     | Some p \<Rightarrow>
        io_try (sqfs_ll_iget ino) (\<lambda>r. case r of
          Inl e \<Rightarrow> handle_free p
        | Inr None \<Rightarrow> io_fault Uninitialised
        | Inr (Some inode) \<Rightarrow>
           io_bind (handle_set p (H_Dir inode)) (\<lambda>_.
           if \<not> S_ISDIR (in_mode inode) then io_bind (reply (Reply_Err ENOTDIR)) (\<lambda>_. handle_free p)
           else io_bind (update_open_refcount 1) (\<lambda>_. reply (Reply_Open (fi\<lparr>fi_fh := p\<rparr>)))))))"

definition sqfs_ll_op_create :: "ll_config \<Rightarrow> int \<Rightarrow> (ll_session, unit) io" where
  "sqfs_ll_op_create cf now = io_bind (update_access_time cf now) (\<lambda>_. reply (Reply_Err EROFS))"

definition sqfs_ll_op_releasedir :: "ll_config \<Rightarrow> int \<Rightarrow> fuse_file_info \<Rightarrow> (ll_session, unit) io" where
  "sqfs_ll_op_releasedir cf now fi =
     io_bind (update_access_time cf now) (\<lambda>_.
     io_bind (update_open_refcount (- 1)) (\<lambda>_.
     io_bind (handle_free (fi_fh fi)) (\<lambda>_.
     reply (Reply_Err 0))))"

text \<open>\<^verbatim>\<open>sqfs_ll_add_direntry\<close>: the size the entry needs, and what is written to the buffer: the entry
  when it fits, nothing otherwise.\<close>

definition sqfs_ll_add_direntry :: "ll_config \<Rightarrow> size_t \<Rightarrow> bytes \<Rightarrow> stat \<Rightarrow> off_t \<Rightarrow> size_t \<times> bytes" where
  "sqfs_ll_add_direntry cf bufsize name st off =
     (let e = lc_direntry cf name st off in (length e, if bufsize < length e then [] else e))"

text \<open>The entries for \<^verbatim>\<open>.\<close> and \<^verbatim>\<open>..\<close>: the offset reached, the room left and what was written.\<close>

function ll_dots :: "ll_config \<Rightarrow> stat \<Rightarrow> off_t \<Rightarrow> size_t \<Rightarrow> off_t \<times> size_t \<times> bytes" where
  "ll_dots cf st off sz =
     (if off < 2 then
        let name = (if off = 0 then [46] else [46, 46]);
            (esize, out) = sqfs_ll_add_direntry cf sz name st (off + 1)
        in if sz < esize then (off + 1, sz, [])
           else case ll_dots cf st (off + 1) (sz - esize) of (off', sz', rest) \<Rightarrow> (off', sz', out @ rest)
      else (off, sz, []))"
  by pat_completeness auto
termination by (relation "measure (\<lambda>(cf, st, off, sz). nat (2 - off))") auto

declare ll_dots.simps [simp del]

text \<open>The loop over the directory: \<open>off\<close> is only used when directory offsets are broken. Every entry
  advances in the metadata stream, as in \<open>dir_lookup_loop\<close>.\<close>

fun ll_readdir_loop ::
  "ll_config \<Rightarrow> 'w::len itself \<Rightarrow> nat \<Rightarrow> sqfs_dir \<Rightarrow> sqfs_dir_entry \<Rightarrow> stat \<Rightarrow> off_t \<Rightarrow> size_t \<Rightarrow> (ll_session, bytes) io" where
  "ll_readdir_loop cf w 0 dir entry st off sz = io_fault Diverges"
| "ll_readdir_loop cf w (Suc fuel) dir entry st off sz =
     io_bind (fs_call (sqfs_dir_next dir entry)) (\<lambda>(more, dir, entry).
     if \<not> more then io_ret [] else
     io_bind (on_ll (ino_fuse_num entry :: (sqfs_ll, 'w word) io)) (\<lambda>ino.
     let st = st\<lparr>st_ino := ucast ino, st_mode := sqfs_dentry_mode entry\<rparr> in
     case sqfs_dentry_name entry of None \<Rightarrow> io_fault Null_Deref
     | Some nm \<Rightarrow>
        let (esize, out) = sqfs_ll_add_direntry cf sz (cstring nm) st (ent_next_offset entry + 2) in
        if lc_broken_offsets cf \<and> 0 < off then ll_readdir_loop cf w fuel dir entry st (off - int esize) sz
        else if sz < esize then io_ret []
        else io_bind (ll_readdir_loop cf w fuel dir entry st off (sz - esize)) (\<lambda>rest. io_ret (out @ rest))))"

definition ll_readdir :: "ll_config \<Rightarrow> 'w::len itself \<Rightarrow> sqfs_inode \<Rightarrow> size_t \<Rightarrow> off_t \<Rightarrow> (ll_session, int + bytes) io" where
  "ll_readdir cf w inode sz off =
     io_bind ll_malloc (\<lambda>ok. if \<not> ok then io_ret (Inl ENOMEM) else
     let st = stat_zero\<lparr>st_ino := 1, st_mode := S_IFDIR\<rparr>;
         (dir_offset, sz, dots) = ll_dots cf st (if lc_broken_offsets cf then 0 else off) sz
     in io_try (fs_call (sqfs_dir_open inode (dir_offset - 2))) (\<lambda>r. case r of
          Inl e \<Rightarrow> io_ret (Inl EINVAL)
        | Inr dir \<Rightarrow>
           io_bind (io_gets (\<lambda>s. md_fuel (fs_img (ll_fs (ls_ll s))))) (\<lambda>fuel.
           io_try (ll_readdir_loop cf w fuel dir (sqfs_dentry_init True) st off sz) (\<lambda>r. case r of
             Inl e \<Rightarrow> io_ret (Inl EIO)
           | Inr rest \<Rightarrow> io_ret (Inr (dots @ rest))))))"

definition handle_dir :: "nat \<Rightarrow> (ll_session, sqfs_inode) io" where
  "handle_dir p = io_bind (handle_get p) (\<lambda>h. case h of
     H_Dir inode \<Rightarrow> io_ret inode | H_File _ \<Rightarrow> io_fault Wrong_Union_Arm | H_Blank \<Rightarrow> io_fault Uninitialised)"

definition handle_file :: "nat \<Rightarrow> (ll_session, sqfs_inode) io" where
  "handle_file p = io_bind (handle_get p) (\<lambda>h. case h of
     H_File inode \<Rightarrow> io_ret inode | H_Dir _ \<Rightarrow> io_fault Wrong_Union_Arm | H_Blank \<Rightarrow> io_fault Uninitialised)"

definition sqfs_ll_op_readdir ::
  "ll_config \<Rightarrow> int \<Rightarrow> 'w::len itself \<Rightarrow> size_t \<Rightarrow> off_t \<Rightarrow> fuse_file_info \<Rightarrow> (ll_session, unit) io" where
  "sqfs_ll_op_readdir cf now w sz off fi =
     io_bind (update_access_time cf now) (\<lambda>_.
     io_bind (handle_dir (fi_fh fi)) (\<lambda>inode.
     io_bind (ll_readdir cf w inode sz off) (\<lambda>r. case r of
       Inl e \<Rightarrow> reply (Reply_Err e)
     | Inr buf \<Rightarrow> reply (Reply_Buf buf))))"

definition fentry_zero :: fuse_entry_param where
  "fentry_zero = \<lparr>fe_ino = 0, fe_attr = stat_zero, fe_attr_timeout = TIMEOUT_ZERO, fe_entry_timeout = TIMEOUT_ZERO\<rparr>"

definition sqfs_ll_op_lookup :: "ll_config \<Rightarrow> int \<Rightarrow> 'w::len word \<Rightarrow> bytes \<Rightarrow> (ll_session, unit) io" where
  "sqfs_ll_op_lookup cf now parent name =
     io_bind (update_access_time cf now) (\<lambda>_.
     iget_or_return parent (\<lambda>dir.
     if \<not> S_ISDIR (in_mode dir) then reply (Reply_Err ENOTDIR) else
     io_try (fs_call (sqfs_dir_lookup dir name (sqfs_dentry_init True))) (\<lambda>r. case r of
       Inl e \<Rightarrow> reply (Reply_Err EIO)
     | Inr (found, entry) \<Rightarrow>
        if \<not> found then
          reply (Reply_Entry (fentry_zero\<lparr>fe_attr_timeout := SQFS_TIMEOUT, fe_entry_timeout := SQFS_TIMEOUT, fe_ino := 0\<rparr>))
        else
        io_try (fs_call (sqfs_inode_get (ent_inode entry))) (\<lambda>r. case r of
          Inl e \<Rightarrow> reply (Reply_Err ENOENT)
        | Inr inode \<Rightarrow>
           io_try (fs_call (sqfs_stat (lc_makedev cf) inode)) (\<lambda>r. case r of
             Inl e \<Rightarrow> reply (Reply_Err EIO)
           | Inr st \<Rightarrow>
              io_bind (on_ll (ino_register entry :: (sqfs_ll, 'w word) io)) (\<lambda>ino.
              reply (Reply_Entry \<lparr>fe_ino = ucast ino, fe_attr = st\<lparr>st_ino := ucast ino\<rparr>,
                fe_attr_timeout = SQFS_TIMEOUT, fe_entry_timeout = SQFS_TIMEOUT\<rparr>)))))))"

definition sqfs_ll_op_open :: "ll_config \<Rightarrow> int \<Rightarrow> 'w::len word \<Rightarrow> fuse_file_info \<Rightarrow> (ll_session, unit) io" where
  "sqfs_ll_op_open cf now ino fi =
     io_bind (update_access_time cf now) (\<lambda>_.
     if fi_flags fi AND (O_WRONLY OR O_RDWR) \<noteq> 0 then reply (Reply_Err EROFS) else
     io_bind handle_new (\<lambda>h. case h of
       None \<Rightarrow> reply (Reply_Err ENOMEM)
     | Some p \<Rightarrow>
        io_try (on_ll (sqfs_ll_inode ino)) (\<lambda>r. case r of
          Inl e \<Rightarrow> io_bind (reply (Reply_Err ENOENT)) (\<lambda>_. handle_free p)
        | Inr inode \<Rightarrow>
           io_bind (handle_set p (H_File inode)) (\<lambda>_.
           if \<not> S_ISREG (in_mode inode) then io_bind (reply (Reply_Err EISDIR)) (\<lambda>_. handle_free p)
           else io_bind (update_open_refcount 1) (\<lambda>_.
             reply (Reply_Open (fi\<lparr>fi_fh := p, fi_keep_cache := True\<rparr>)))))))"

definition sqfs_ll_op_release :: "ll_config \<Rightarrow> int \<Rightarrow> fuse_file_info \<Rightarrow> (ll_session, unit) io" where
  "sqfs_ll_op_release cf now fi =
     io_bind (handle_free (fi_fh fi)) (\<lambda>_.
     io_bind (update_access_time cf now) (\<lambda>_.
     io_bind (update_open_refcount (- 1)) (\<lambda>_.
     reply (Reply_Err 0))))"

definition sqfs_ll_op_read ::
  "ll_config \<Rightarrow> int \<Rightarrow> size_t \<Rightarrow> off_t \<Rightarrow> fuse_file_info \<Rightarrow> (ll_session, unit) io" where
  "sqfs_ll_op_read cf now sz off fi =
     io_bind ll_malloc (\<lambda>ok. if \<not> ok then reply (Reply_Err ENOMEM) else
     io_bind (update_access_time cf now) (\<lambda>_.
     io_bind (handle_file (fi_fh fi)) (\<lambda>inode.
     io_try (fs_call (sqfs_read_range inode off (off_wrap (int sz)))) (\<lambda>r. case r of
       Inl e \<Rightarrow> reply (Reply_Err EIO)
     | Inr got \<Rightarrow> if got = [] then reply (Reply_Buf []) else reply (Reply_Buf got)))))"

definition sqfs_ll_op_readlink :: "ll_config \<Rightarrow> int \<Rightarrow> 'w::len word \<Rightarrow> (ll_session, unit) io" where
  "sqfs_ll_op_readlink cf now ino =
     io_bind (update_access_time cf now) (\<lambda>_.
     iget_or_return ino (\<lambda>inode.
     if \<not> S_ISLNK (in_mode inode) then reply (Reply_Err EINVAL) else
     io_try (fs_call (sqfs_readlink inode False 0)) (\<lambda>r. case r of
       Inl e \<Rightarrow> reply (Reply_Err EIO)
     | Inr (Inr _) \<Rightarrow> io_fault Uninitialised
     | Inr (Inl sz) \<Rightarrow>
        io_bind ll_malloc (\<lambda>ok. if \<not> ok then reply (Reply_Err ENOMEM) else
        io_try (fs_call (sqfs_readlink inode True sz)) (\<lambda>r. case r of
          Inl e \<Rightarrow> reply (Reply_Err EIO)
        | Inr (Inl _) \<Rightarrow> io_fault Uninitialised
        | Inr (Inr dst) \<Rightarrow> reply (Reply_Readlink (cstring dst)))))))"

definition sqfs_ll_op_listxattr :: "ll_config \<Rightarrow> int \<Rightarrow> 'w::len word \<Rightarrow> size_t \<Rightarrow> (ll_session, unit) io" where
  "sqfs_ll_op_listxattr cf now ino sz =
     io_bind (update_access_time cf now) (\<lambda>_.
     iget_or_return ino (\<lambda>inode.
     io_bind (if sz = 0 then io_ret True else ll_malloc) (\<lambda>ok. if \<not> ok then reply (Reply_Err ENOMEM) else
     io_bind (fs_call (sqfs_listxattr (lc_xattr cf) inode (if sz = 0 then None else Some sz))) (\<lambda>r. case r of
       Inl e \<Rightarrow> reply (Reply_Err e)
     | Inr (tot, names) \<Rightarrow> if sz \<noteq> 0 then reply (Reply_Buf names) else reply (Reply_Xattr tot)))))"

text \<open>\<open>position\<close> is \<open>None\<close> where FUSE has no such argument.\<close>

definition sqfs_ll_op_getxattr ::
  "ll_config \<Rightarrow> int \<Rightarrow> 'w::len word \<Rightarrow> bytes \<Rightarrow> size_t \<Rightarrow> u32 option \<Rightarrow> (ll_session, unit) io" where
  "sqfs_ll_op_getxattr cf now ino name sz position =
     (if position \<noteq> None \<and> position \<noteq> Some 0 then reply (Reply_Err EINVAL) else
      io_bind (update_access_time cf now) (\<lambda>_.
      iget_or_return ino (\<lambda>inode.
      io_bind ll_malloc (\<lambda>ok. if \<not> ok then reply (Reply_Err ENOMEM) else
      io_try (fs_call (sqfs_xattr_lookup (lc_xattr cf) inode name (Some sz))) (\<lambda>r. case r of
        Inl e \<Rightarrow> reply (Reply_Err EIO)
      | Inr (real, val) \<Rightarrow>
         if real = 0 then reply (Reply_Err (lc_enoattr cf))
         else if sz = 0 then reply (Reply_Xattr real)
         else if sz < real then reply (Reply_Err ERANGE)
         else case val of None \<Rightarrow> io_fault Uninitialised | Some bs \<Rightarrow> reply (Reply_Buf bs))))))"

definition sqfs_ll_op_forget :: "ll_config \<Rightarrow> int \<Rightarrow> 'w::len word \<Rightarrow> size_t \<Rightarrow> (ll_session, unit) io" where
  "sqfs_ll_op_forget cf now ino nlookup =
     io_bind (update_access_time cf now) (\<lambda>_.
     io_try (sqfs_ll_iget (FUSE_INODE_NONE :: 'w word)) (\<lambda>_.
     io_bind (on_ll (ino_forget ino nlookup)) (\<lambda>_.
     reply Reply_None)))"

definition stfs_ll_op_statfs :: "(ll_session, unit) io" where
  "stfs_ll_op_statfs = io_bind (fs_call sqfs_statfs) (\<lambda>st. reply (Reply_Statfs st))"

text \<open>\<^verbatim>\<open>sqfs_ll_op_init\<close> forks a process that writes to the pipe; it is no request.\<close>

abbreviation (input) NOTIFY_SUCCESS :: u8 where "NOTIFY_SUCCESS \<equiv> 115"

definition notify_mount_ready_async :: "bytes option \<Rightarrow> u8 \<Rightarrow> (ll_session, unit) io" where
  "notify_mount_ready_async notify_pipe status = (case notify_pipe of
     None \<Rightarrow> io_ret ()
   | Some p \<Rightarrow> io_modify (\<lambda>s. s\<lparr>ls_notices := ls_notices s @ [(p, status)]\<rparr>))"

definition sqfs_ll_op_init :: "(ll_session, unit) io" where
  "sqfs_ll_op_init = io_bind (io_gets ls_notify_pipe) (\<lambda>p. notify_mount_ready_async p NOTIFY_SUCCESS)"

section \<open>The idle timeout\<close>

definition alarm_tick :: "int \<Rightarrow> (ll_session, unit) io" where
  "alarm_tick now = io_modify (\<lambda>s.
     if \<not> ls_fuse_instance s \<or> ls_idle_timeout_secs s = 0 then s\<lparr>ls_alarm := False\<rparr>
     else if get_open_refcount s = 0 \<and> uint (ls_idle_timeout_secs s) < now - get_access_time s
     then s\<lparr>ls_alarm := False, ls_sigint := True\<rparr>
     else s\<lparr>ls_alarm := True\<rparr>)"

definition setup_idle_timeout :: "ll_config \<Rightarrow> int \<Rightarrow> bool \<Rightarrow> u32 \<Rightarrow> (ll_session, unit) io" where
  "setup_idle_timeout cf now sigaction_ok timeout_secs =
     io_bind (io_modify (\<lambda>s. s\<lparr>ls_idle_timeout_secs := timeout_secs\<rparr>)) (\<lambda>_.
     io_bind (update_access_time cf now) (\<lambda>_.
     io_bind (io_modify (\<lambda>s. s\<lparr>ls_fuse_instance := True\<rparr>)) (\<lambda>_.
     if \<not> sigaction_ok then io_ret () else io_modify (\<lambda>s. s\<lparr>ls_alarm := True\<rparr>))))"

definition teardown_idle_timeout :: "(ll_session, unit) io" where
  "teardown_idle_timeout = io_modify (\<lambda>s. s\<lparr>ls_alarm := False, ls_fuse_instance := False\<rparr>)"

section \<open>Requests\<close>

text \<open>The operation table of \<^verbatim>\<open>ll_main.c\<close>: which handler FUSE calls for which request.\<close>

datatype 'i ll_request =
    Getattr 'i
  | Opendir 'i fuse_file_info
  | Releasedir fuse_file_info
  | Readdir size_t off_t fuse_file_info
  | Lookup 'i bytes
  | Open 'i fuse_file_info
  | Create
  | Release fuse_file_info
  | Read size_t off_t fuse_file_info
  | Readlink 'i
  | Listxattr 'i size_t
  | Getxattr 'i bytes size_t "u32 option"
  | Forget 'i size_t
  | Statfs

fun sqfs_ll_ops :: "ll_config \<Rightarrow> int \<Rightarrow> 'w::len word ll_request \<Rightarrow> (ll_session, unit) io" where
  "sqfs_ll_ops cf now (Getattr ino) = sqfs_ll_op_getattr cf now ino"
| "sqfs_ll_ops cf now (Opendir ino fi) = sqfs_ll_op_opendir cf now ino fi"
| "sqfs_ll_ops cf now (Releasedir fi) = sqfs_ll_op_releasedir cf now fi"
| "sqfs_ll_ops cf now (Readdir sz off fi) = sqfs_ll_op_readdir cf now TYPE('w) sz off fi"
| "sqfs_ll_ops cf now (Lookup parent name) = sqfs_ll_op_lookup cf now parent name"
| "sqfs_ll_ops cf now (Open ino fi) = sqfs_ll_op_open cf now ino fi"
| "sqfs_ll_ops cf now Create = sqfs_ll_op_create cf now"
| "sqfs_ll_ops cf now (Release fi) = sqfs_ll_op_release cf now fi"
| "sqfs_ll_ops cf now (Read sz off fi) = sqfs_ll_op_read cf now sz off fi"
| "sqfs_ll_ops cf now (Readlink ino) = sqfs_ll_op_readlink cf now ino"
| "sqfs_ll_ops cf now (Listxattr ino sz) = sqfs_ll_op_listxattr cf now ino sz"
| "sqfs_ll_ops cf now (Getxattr ino name sz pos) = sqfs_ll_op_getxattr cf now ino name sz pos"
| "sqfs_ll_ops cf now (Forget ino n) = sqfs_ll_op_forget cf now ino n"
| "sqfs_ll_ops cf now Statfs = stfs_ll_op_statfs"

section \<open>Exactly one reply\<close>

text \<open>\<open>step_rel T m\<close>: whatever \<open>m\<close> returns, the states before and after are related by \<open>T\<close>.
  \<open>no_err m\<close>: \<open>m\<close> never returns an error code.\<close>

definition step_rel :: "('s \<Rightarrow> 's \<Rightarrow> bool) \<Rightarrow> ('s, 'a) io \<Rightarrow> bool" where
  "step_rel T m \<longleftrightarrow> (\<forall>s. T s (snd (m s)))"

definition no_err :: "('s, 'a) io \<Rightarrow> bool" where
  "no_err m \<longleftrightarrow> (\<forall>s e. fst (m s) \<noteq> Err e)"

named_theorems no_err_rules \<open>calls that never return an error code\<close>
named_theorems frame_rules \<open>calls that leave a part of the session alone\<close>
named_theorems answer_rules \<open>calls that send one reply\<close>

lemma no_err_bind [no_err_rules]: "no_err m \<Longrightarrow> (\<And>a. no_err (f a)) \<Longrightarrow> no_err (io_bind m f)"
  by (auto simp: no_err_def io_bind_def split: prod.splits res.splits) (metis fst_conv)+

lemma no_err_try [no_err_rules]: "(\<And>x. no_err (k x)) \<Longrightarrow> no_err (io_try m k)"
  by (auto simp: no_err_def io_try_def split: prod.splits res.splits)

lemma no_err_basic [no_err_rules]: "no_err (io_ret a)" "no_err (io_fault u)" "no_err (io_gets f)" "no_err (io_modify g)"
  "no_err (io_guard c u)"
  by (auto simp: no_err_def io_simps)

lemma no_err_if [no_err_rules]: "no_err m \<Longrightarrow> no_err n \<Longrightarrow> no_err (if c then m else n)"
  by simp

lemma no_err_on_ll [no_err_rules]: "no_err m \<Longrightarrow> no_err (on_ll m)"
  by (auto simp: no_err_def on_ll_def io_simps split: prod.splits) (metis fst_conv)

lemma no_err_on_fs [no_err_rules]: "no_err m \<Longrightarrow> no_err (on_fs m)"
  by (auto simp: no_err_def on_fs_def io_simps split: prod.splits) (metis fst_conv)

definition answers :: "(ll_session, unit) io \<Rightarrow> bool" where
  "answers m \<longleftrightarrow> (\<forall>s. (\<exists>u. fst (m s) = Fault u) \<or>
     (\<exists>x. fst (m s) = Ok () \<and> ls_replies (snd (m s)) = ls_replies s @ [x]))"

text \<open>A part of the session that work on the image and the time of the last access do not touch.\<close>

locale session_frame =
  fixes T :: "ll_session \<Rightarrow> ll_session \<Rightarrow> bool"
  assumes T_refl: "T s s"
    and T_trans: "T s s' \<Longrightarrow> T s' s'' \<Longrightarrow> T s s''"
    and T_ll: "T s (s\<lparr>ls_ll := ll\<rparr>)"
    and T_access: "T s (s\<lparr>ls_last_access := t\<rparr>)"
begin

lemma frame_basic [frame_rules]: "step_rel T (io_ret a)" "step_rel T (io_gets f)" "step_rel T (io_fault u)"
  "step_rel T (io_raise e)"
  by (auto simp: step_rel_def io_simps T_refl)

lemma frame_bind [frame_rules]: "step_rel T m \<Longrightarrow> (\<And>a. step_rel T (f a)) \<Longrightarrow> step_rel T (io_bind m f)"
  unfolding step_rel_def io_bind_def by (auto split: prod.splits res.splits) (metis T_trans snd_conv)+

lemma frame_try [frame_rules]: "step_rel T m \<Longrightarrow> (\<And>x. step_rel T (k x)) \<Longrightarrow> step_rel T (io_try m k)"
  unfolding step_rel_def io_try_def by (auto split: prod.splits res.splits) (metis T_trans snd_conv)+

lemma frame_cases [frame_rules]:
  "(\<And>a. step_rel T (f a)) \<Longrightarrow> (\<And>b. step_rel T (g b)) \<Longrightarrow> step_rel T (case r of Inl a \<Rightarrow> f a | Inr b \<Rightarrow> g b)"
  "step_rel T m \<Longrightarrow> (\<And>b. step_rel T (g b)) \<Longrightarrow> step_rel T (case x of None \<Rightarrow> m | Some b \<Rightarrow> g b)"
  "(\<And>a b. step_rel T (h a b)) \<Longrightarrow> step_rel T (case p of (a, b) \<Rightarrow> h a b)"
  "step_rel T m \<Longrightarrow> step_rel T n \<Longrightarrow> step_rel T (if c then m else n)"
  by (auto split: sum.split option.split prod.split)

lemma frame_on_ll [frame_rules]: "step_rel T (on_ll m)"
  by (auto simp: step_rel_def on_ll_def io_simps T_ll split: prod.splits)

lemma frame_fs_call [frame_rules]: "step_rel T (fs_call m)" "step_rel T ll_malloc"
  by (simp_all add: fs_call_def ll_malloc_def frame_on_ll)

lemma frame_access [frame_rules]: "step_rel T (update_access_time cf now)"
  by (auto simp: step_rel_def update_access_time_def io_simps T_refl T_access)

lemma frame_handle_get [frame_rules]: "step_rel T (handle_get p)"
  by (auto simp: step_rel_def handle_get_def T_refl split: option.split)

lemma frame_handles [frame_rules]: "step_rel T (handle_dir p)" "step_rel T (handle_file p)"
  unfolding handle_dir_def handle_file_def
  by (intro frame_rules; auto simp: frame_basic split: ll_handle.split)+

lemma frame_readdir_loop: "step_rel T (ll_readdir_loop cf w fuel dir entry st off sz)"
proof (induction fuel arbitrary: dir entry st off sz)
  case (Suc fuel)
  then show ?case
    by (auto simp: Let_def sqfs_ll_add_direntry_def split: prod.split option.split intro!: frame_rules)
qed (simp add: frame_basic)

lemma frame_readdir [frame_rules]: "step_rel T (ll_readdir cf w inode sz off)"
  unfolding ll_readdir_def
  by (auto simp: Let_def split: prod.split sum.split intro!: frame_rules frame_readdir_loop)

end

abbreviation quiet :: "(ll_session, 'a) io \<Rightarrow> bool" where
  "quiet \<equiv> step_rel (\<lambda>s s'. ls_replies s' = ls_replies s)"

interpretation q: session_frame "\<lambda>s s'. ls_replies s' = ls_replies s"
  by unfold_locales auto

lemma quiet_handles [frame_rules]: "quiet (update_open_refcount d)" "quiet (handle_set p h)" "quiet (handle_free p)"
  by (auto simp: step_rel_def io_simps update_open_refcount_def handle_set_def handle_free_def split: option.splits)

lemma quiet_handle_new [frame_rules]: "quiet handle_new"
  unfolding handle_new_def by (intro frame_rules) (auto simp: step_rel_def io_simps Let_def)

lemma quiet_iget_none [frame_rules]: "quiet (sqfs_ll_iget 0)"
  by (simp add: sqfs_ll_iget_def q.frame_basic)

lemma answersI:
  assumes "\<And>s r s'. m s = (r, s') \<Longrightarrow> (\<exists>u. r = Fault u) \<or> (\<exists>x. r = Ok () \<and> ls_replies s' = ls_replies s @ [x])"
  shows "answers m"
  unfolding answers_def using assms by (metis prod.collapse)

lemma answersD:
  assumes "answers m" and "m s = (r, s')"
  shows "(\<exists>u. r = Fault u) \<or> (\<exists>x. r = Ok () \<and> ls_replies s' = ls_replies s @ [x])"
  using assms unfolding answers_def by (metis fst_conv snd_conv)

lemma quietD: "quiet m \<Longrightarrow> m s = (r, s') \<Longrightarrow> ls_replies s' = ls_replies s"
  unfolding step_rel_def by (metis snd_conv)

lemma no_errD: "no_err m \<Longrightarrow> m s \<noteq> (Err e, s')"
  unfolding no_err_def by (metis fst_conv)

lemma answers_bind [answer_rules]:
  assumes "quiet m" and "no_err m" and "\<And>a. answers (f a)"
  shows "answers (io_bind m f)"
proof (rule answersI)
  fix s r s' assume run: "io_bind m f s = (r, s')"
  obtain r1 s1 where m: "m s = (r1, s1)" by fastforce
  show "(\<exists>u. r = Fault u) \<or> (\<exists>x. r = Ok () \<and> ls_replies s' = ls_replies s @ [x])"
  proof (cases r1)
    case (Ok a)
    then have "f a s1 = (r, s')" using run m by (simp add: io_simps)
    from answersD [OF assms(3) this] quietD [OF assms(1) m] show ?thesis by simp
  qed (use run m no_errD [OF assms(2)] in \<open>auto simp: io_simps\<close>)
qed

lemma answers_try [answer_rules]:
  assumes "quiet m" and "\<And>x. answers (k x)"
  shows "answers (io_try m k)"
proof (rule answersI)
  fix s r s' assume run: "io_try m k s = (r, s')"
  obtain r1 s1 where m: "m s = (r1, s1)" by fastforce
  note q = quietD [OF assms(1) m]
  show "(\<exists>u. r = Fault u) \<or> (\<exists>x. r = Ok () \<and> ls_replies s' = ls_replies s @ [x])"
    using run m q by (cases r1) (auto simp: io_simps dest!: answersD [OF assms(2)])
qed

lemma answers_reply [answer_rules]: "answers (reply r)" "answers (io_fault u)"
  by (auto simp: answers_def reply_def io_simps)

text \<open>Work after the reply.\<close>

lemma answers_then:
  fixes m :: "(ll_session, unit) io"
  assumes "quiet m" and "no_err m"
  shows "answers (io_bind (reply r) (\<lambda>_. m))"
proof (rule answersI)
  fix s x s' assume "io_bind (reply r) (\<lambda>_. m) s = (x, s')"
  then have m: "m (s\<lparr>ls_replies := ls_replies s @ [r]\<rparr>) = (x, s')" by (simp add: io_simps reply_def)
  then show "(\<exists>u. x = Fault u) \<or> (\<exists>y. x = Ok () \<and> ls_replies s' = ls_replies s @ [y])"
    using quietD [OF assms(1) m] no_errD [OF assms(2)] by (cases x) auto
qed

lemma answers_iget [answer_rules]:
  assumes "\<And>inode. answers (k inode)"
  shows "answers (iget_or_return i k)"
proof (rule answersI)
  fix s x s' assume run: "iget_or_return i k s = (x, s')"
  obtain r1 s1 where m: "on_ll (sqfs_ll_inode i) s = (r1, s1)" by fastforce
  note q = quietD [OF q.frame_on_ll m]
  show "(\<exists>u. x = Fault u) \<or> (\<exists>y. x = Ok () \<and> ls_replies s' = ls_replies s @ [y])"
    using run m q
    by (cases r1) (auto simp: iget_or_return_def sqfs_ll_iget_def io_simps reply_def split: if_splits dest!: answersD [OF assms])
qed

lemma no_err_hp_malloc [no_err_rules]: "no_err (on_heap hp_malloc)"
  by (auto simp: no_err_def on_heap_def hp_malloc_def io_simps split: prod.splits)

lemma no_err_fs_call [no_err_rules]: "no_err m \<Longrightarrow> no_err (fs_call m)"
  by (simp add: fs_call_def no_err_rules)

lemma no_err_ll_malloc [no_err_rules]: "no_err ll_malloc"
  by (simp add: ll_malloc_def no_err_rules)

lemma no_err_session [no_err_rules]: "no_err (update_access_time cf now)" "no_err (update_open_refcount d)"
  "no_err (handle_set p h)" "no_err (handle_free p)" "no_err (handle_get p)" "no_err (reply r)"
  by (auto simp: no_err_def io_simps update_access_time_def update_open_refcount_def handle_set_def handle_free_def
      handle_get_def reply_def split: option.splits)

lemma no_err_handle_new [no_err_rules]: "no_err handle_new"
  unfolding handle_new_def by (intro no_err_rules) (auto simp: no_err_def io_simps Let_def)

lemma no_err_handles [no_err_rules]: "no_err (handle_dir p)" "no_err (handle_file p)"
  unfolding handle_dir_def handle_file_def
  by (intro no_err_rules; auto simp: no_err_def io_simps split: ll_handle.split)+

lemma no_err_readdir [no_err_rules]: "no_err (ll_readdir cf w inode sz off)"
  unfolding ll_readdir_def
  by (auto simp: Let_def split: prod.split sum.split intro!: no_err_rules)

lemma no_err_ll_map [no_err_rules]: "no_err ll_map"
  by (auto simp: no_err_def ll_map_def split: option.splits)

lemma no_err_on_icache:
  assumes "\<And>th e. fst (m th) \<noteq> Err e"
  shows "no_err (on_icache m)"
  unfolding on_icache_def
proof (intro no_err_rules)
  fix mp
  show "no_err (case im_icache mp of None \<Rightarrow> io_fault Uninitialised
     | Some t \<Rightarrow> (\<lambda>s. case m (t, fs_heap (ll_fs s)) of (r, (t', h)) \<Rightarrow>
         (r, s\<lparr>ll_ino_data := Some (mp\<lparr>im_icache := Some t'\<rparr>), ll_fs := (ll_fs s)\<lparr>fs_heap := h\<rparr>\<rparr>)))"
    using assms unfolding no_err_def
    by (auto simp: io_simps split: option.split prod.splits) (metis fst_conv)
qed

lemma hash_no_err:
  "sqfs_hash_get k t \<noteq> Err e" "fst (hash_remove_io k th) \<noteq> Err e" "fst (hash_write_io k v th) \<noteq> Err e"
  by (auto simp: sqfs_hash_get_def hash_remove_io_def hash_write_io_def sqfs_hash_remove_def hash_write_def hash_chain_def
      Let_def split: prod.splits option.splits res.splits if_splits)

lemma no_err_icache [no_err_rules]:
  "no_err (icache_get n)" "no_err (on_icache (hash_remove_io n))" "no_err (on_icache (hash_write_io n v))"
  unfolding icache_get_def by (auto intro!: no_err_on_icache simp: hash_no_err split: prod.splits)

lemma no_err_fuse_num [no_err_rules]: "no_err (ino_fuse_num e)"
  unfolding ino_fuse_num_def sqfs_ll_ino32_fuse_num_def
  by (auto split: option.split ino_functions.split intro!: no_err_rules)

lemma no_err_register [no_err_rules]: "no_err (ino_register e)"
  unfolding ino_register_def sqfs_ll_ino32_register_def sqfs_ll_ino32_fuse_num_def
  by (auto simp: Let_def split: option.split ino_functions.split sum.split intro!: no_err_rules)

lemma no_err_forget [no_err_rules]: "no_err (ino_forget i k)"
  unfolding ino_forget_def sqfs_ll_ino32_forget_def sqfs_ll_null_forget_def
  by (auto simp: Let_def split: option.split ino_functions.split intro!: no_err_rules)

lemma no_err_statfs [no_err_rules]: "no_err sqfs_statfs"
  unfolding sqfs_statfs_def by (intro no_err_rules)

lemma name_size_no_err: "sqfs_xattr_name_size x \<noteq> Err e"
  by (auto simp: sqfs_xattr_name_size_def xattr_prefix_def)

lemma no_err_listxattr_loop: "no_err (listxattr_loop fuel buf cnt x)"
proof (induction fuel arbitrary: buf cnt x)
  case 0
  then show ?case by (auto simp: listxattr_loop.simps [of 0] intro!: no_err_rules)
next
  case (Suc fuel)
  have lift: "no_err (io_lift (sqfs_xattr_name_size y) :: (sqfs, nat) io)" for y
    by (auto simp: no_err_def io_simps name_size_no_err)
  show ?case unfolding listxattr_loop.simps [of "Suc fuel"]
    by (auto simp: Let_def split: sum.split option.split prod.split intro!: no_err_rules lift Suc)
qed

lemma no_err_listxattr [no_err_rules]: "no_err (sqfs_listxattr x inode buf)"
  unfolding sqfs_listxattr_def by (auto split: sum.split intro!: no_err_rules no_err_listxattr_loop)

lemma answers_cases [answer_rules]:
  "(\<And>a. answers (f a)) \<Longrightarrow> (\<And>b. answers (g b)) \<Longrightarrow> answers (case r of Inl a \<Rightarrow> f a | Inr b \<Rightarrow> g b)"
  "answers m \<Longrightarrow> (\<And>b. answers (g b)) \<Longrightarrow> answers (case x of None \<Rightarrow> m | Some b \<Rightarrow> g b)"
  "(\<And>a b. answers (h a b)) \<Longrightarrow> answers (case p of (a, b) \<Rightarrow> h a b)"
  "answers m \<Longrightarrow> answers n \<Longrightarrow> answers (if c then m else n)"
  by (auto split: sum.split option.split prod.split)

text \<open>\<^verbatim>\<open>sqfs_ll_op_opendir\<close> frees the handle after \<^verbatim>\<open>sqfs_ll_iget\<close> has replied.\<close>

lemma answers_iget_free:
  assumes "\<And>inode. answers (k inode)"
  shows "answers (io_try (sqfs_ll_iget i) (\<lambda>r. case r of Inl e \<Rightarrow> handle_free p
    | Inr None \<Rightarrow> io_fault Uninitialised | Inr (Some inode) \<Rightarrow> k inode))"
proof (rule answersI)
  fix s x s' assume run: "io_try (sqfs_ll_iget i) (\<lambda>r. case r of Inl e \<Rightarrow> handle_free p
    | Inr None \<Rightarrow> io_fault Uninitialised | Inr (Some inode) \<Rightarrow> k inode) s = (x, s')"
  obtain r1 s1 where m: "on_ll (sqfs_ll_inode i) s = (r1, s1)" by fastforce
  note q = quietD [OF q.frame_on_ll m]
  show "(\<exists>u. x = Fault u) \<or> (\<exists>y. x = Ok () \<and> ls_replies s' = ls_replies s @ [y])"
    using run m q
    by (cases r1) (auto simp: handle_free_def sqfs_ll_iget_def io_simps reply_def split: if_splits option.splits
        dest!: answersD [OF assms])
qed

lemmas ll_op_defs = sqfs_ll_op_getattr_def sqfs_ll_op_opendir_def sqfs_ll_op_releasedir_def sqfs_ll_op_readdir_def
  sqfs_ll_op_lookup_def sqfs_ll_op_open_def sqfs_ll_op_create_def sqfs_ll_op_release_def sqfs_ll_op_read_def
  sqfs_ll_op_readlink_def sqfs_ll_op_listxattr_def sqfs_ll_op_getxattr_def sqfs_ll_op_forget_def stfs_ll_op_statfs_def

lemma handler_answers: "answers (sqfs_ll_ops cf now req)"
  by (cases req, simp_all only: sqfs_ll_ops.simps ll_op_defs Let_def)
    (rule answers_then answers_iget_free | rule answer_rules | rule frame_rules | rule no_err_rules)+

section \<open>The count of open files\<close>

definition same_handles :: "ll_session \<Rightarrow> ll_session \<Rightarrow> bool" where
  "same_handles s s' \<longleftrightarrow> ls_handles s' = ls_handles s \<and> ls_brk s' = ls_brk s \<and> ls_open_refcount s' = ls_open_refcount s"

interpretation hf: session_frame same_handles
  by unfold_locales (auto simp: same_handles_def)

lemma same_handles_reply [frame_rules]: "step_rel same_handles (reply r)"
  by (auto simp: step_rel_def reply_def io_simps same_handles_def)

lemma same_handles_iget [frame_rules]: "step_rel same_handles (sqfs_ll_iget i)"
  unfolding sqfs_ll_iget_def by (intro frame_rules)

lemma same_handles_iget_or_return [frame_rules]:
  "(\<And>inode. step_rel same_handles (k inode)) \<Longrightarrow> step_rel same_handles (iget_or_return i k)"
  unfolding iget_or_return_def by (intro frame_rules)

text \<open>The live handles: addresses that were given out, counted by \<^verbatim>\<open>open_refcount\<close>. While a file is being
  opened its handle \<open>p\<close> is not counted yet.\<close>

definition live :: "nat set \<Rightarrow> ll_session \<Rightarrow> bool" where
  "live D s \<longleftrightarrow> dom (ls_handles s) = D \<and> finite D \<and> (\<forall>p \<in> D. 0 < p \<and> p \<le> ls_brk s)"

definition handles_ok :: "ll_session \<Rightarrow> bool" where
  "handles_ok s \<longleftrightarrow> (\<exists>D. live D s \<and> ls_open_refcount s = of_nat (card D))"

definition pending :: "nat \<Rightarrow> ll_session \<Rightarrow> bool" where
  "pending p s \<longleftrightarrow> (\<exists>D. p \<notin> D \<and> live (insert p D) s \<and> ls_open_refcount s = of_nat (card D))"

lemma frame_triple:
  assumes "step_rel same_handles m"
  shows "io_triple handles_ok m (\<lambda>_. handles_ok) (\<lambda>_. handles_ok) (\<lambda>_. True)"
    and "io_triple (pending p) m (\<lambda>_. pending p) (\<lambda>_. pending p) (\<lambda>_. True)"
proof -
  have "same_handles s s'" if "m s = (r, s')" for s r s'
    using assms that unfolding step_rel_def by (metis snd_conv)
  then show "io_triple handles_ok m (\<lambda>_. handles_ok) (\<lambda>_. handles_ok) (\<lambda>_. True)"
    "io_triple (pending p) m (\<lambda>_. pending p) (\<lambda>_. pending p) (\<lambda>_. True)"
    by (fastforce intro!: io_tripleI simp: same_handles_def live_def handles_ok_def pending_def split: res.split)+
qed

lemma io_triple_no_err:
  assumes "no_err m" and "io_triple P m Q E F"
  shows "io_triple P m Q E' F"
proof (rule io_tripleI)
  fix s r s' assume "P s" and m: "m s = (r, s')"
  from io_tripleD [OF assms(2) this] show "case r of Ok a \<Rightarrow> Q a s' | Err e \<Rightarrow> E' e s' | Fault u \<Rightarrow> F u"
    using no_errD [OF assms(1)] m by (auto split: res.splits)
qed

abbreviation keeps_handles :: "(ll_session \<Rightarrow> bool) \<Rightarrow> (ll_session, unit) io \<Rightarrow> bool" where
  "keeps_handles P m \<equiv> io_triple P m (\<lambda>_. handles_ok) (\<lambda>_. handles_ok) (\<lambda>_. True)"

lemma handle_add:
  assumes "handles_ok s"
  shows "pending (Suc (ls_brk s)) (s\<lparr>ls_brk := Suc (ls_brk s), ls_handles := (ls_handles s)(Suc (ls_brk s) \<mapsto> H_Blank)\<rparr>)"
proof -
  obtain D where D: "live D s" "ls_open_refcount s = of_nat (card D)" using assms by (auto simp: handles_ok_def)
  have "Suc (ls_brk s) \<notin> D" using D(1) by (meson Suc_n_not_le_n live_def)
  with D show ?thesis by (auto simp: pending_def live_def le_Suc_eq intro!: exI [of _ D])
qed

lemma handle_new_triple:
  "io_triple handles_ok handle_new (\<lambda>h s. case h of None \<Rightarrow> handles_ok s | Some p \<Rightarrow> pending p s)
     (\<lambda>_. handles_ok) (\<lambda>_. True)"
  unfolding handle_new_def
  by (rule io_triple_bind [OF frame_triple(1) [OF hf.frame_fs_call(2)]])
    (auto intro!: io_tripleI handle_add simp: io_simps Let_def split: if_splits)

lemma pending_free: "keeps_handles (pending p) (handle_free p)"
proof (rule io_tripleI)
  fix s r s' assume "pending p s" and run: "handle_free p s = (r, s')"
  then obtain D where D: "p \<notin> D" "live (insert p D) s" "ls_open_refcount s = of_nat (card D)" by (auto simp: pending_def)
  have "live D (s\<lparr>ls_handles := (ls_handles s)(p := None)\<rparr>)" using D(1,2) by (auto simp: live_def)
  then show "case r of Ok a \<Rightarrow> handles_ok s' | Err e \<Rightarrow> handles_ok s' | Fault u \<Rightarrow> True"
    using run D by (auto simp: handle_free_def handles_ok_def live_def split: if_splits option.splits)
qed

lemma pending_set: "io_triple (pending p) (handle_set p h) (\<lambda>_. pending p) (\<lambda>_. handles_ok) (\<lambda>_. True)"
  by (rule io_tripleI) (auto simp: handle_set_def io_simps pending_def live_def)

lemma pending_count: "keeps_handles (pending p) (update_open_refcount 1)"
proof (rule io_tripleI)
  fix s r s' assume "pending p s" and run: "update_open_refcount 1 s = (r, s')"
  then obtain D where D: "p \<notin> D" "live (insert p D) s" "ls_open_refcount s = of_nat (card D)" by (auto simp: pending_def)
  have "card (insert p D) = Suc (card D)" using D(1,2) by (simp add: live_def)
  then have "ls_open_refcount s + 1 = of_nat (card (insert p D))" using D(3) by simp
  then show "case r of Ok a \<Rightarrow> handles_ok s' | Err e \<Rightarrow> handles_ok s' | Fault u \<Rightarrow> True"
    using run D(2) by (auto simp: update_open_refcount_def io_simps handles_ok_def live_def)
qed

text \<open>The end of a successful or failed open.\<close>

lemma pending_reply_free: "keeps_handles (pending p) (io_bind (reply r) (\<lambda>_. handle_free p))"
  by (rule io_triple_bind [OF io_triple_no_err [OF no_err_session(6) frame_triple(2) [OF same_handles_reply]] pending_free])

lemma release_count:
  assumes "p \<noteq> 0"
  shows "keeps_handles handles_ok (io_bind (handle_free p) (\<lambda>_. update_open_refcount (- 1)))"
    and "keeps_handles handles_ok (io_bind (update_open_refcount (- 1)) (\<lambda>_. handle_free p))"
proof -
  have *: "handles_ok s'"
    if ok: "handles_ok s" and h: "ls_handles s p = Some h" and s': "ls_handles s' = (ls_handles s)(p := None)"
      "ls_open_refcount s' = ls_open_refcount s - 1" "ls_brk s' = ls_brk s" for s h s'
  proof -
    obtain D where D: "live D s" "ls_open_refcount s = of_nat (card D)" using ok by (auto simp: handles_ok_def)
    have "card D = Suc (card (D - {p}))" using D(1) h by (intro card.remove) (auto simp: live_def)
    then have "ls_open_refcount s - 1 = of_nat (card (D - {p}))" using D(2) by simp
    then show ?thesis using D(1) s' by (auto simp: handles_ok_def live_def)
  qed
  show "keeps_handles handles_ok (io_bind (handle_free p) (\<lambda>_. update_open_refcount (- 1)))"
    "keeps_handles handles_ok (io_bind (update_open_refcount (- 1)) (\<lambda>_. handle_free p))"
    using assms by (auto intro!: io_tripleI elim!: * simp: io_simps handle_free_def update_open_refcount_def
        split: if_splits option.splits res.splits)
qed

text \<open>\<^verbatim>\<open>release\<close> and \<^verbatim>\<open>releasedir\<close> get the handle the open returned, which is not null.\<close>

fun proper_request :: "'i ll_request \<Rightarrow> bool" where
  "proper_request (Release fi) = (fi_fh fi \<noteq> 0)"
| "proper_request (Releasedir fi) = (fi_fh fi \<noteq> 0)"
| "proper_request _ = True"

lemma keeps_then:
  assumes "keeps_handles P m" and "step_rel same_handles (n :: (ll_session, unit) io)"
  shows "keeps_handles P (io_bind m (\<lambda>_. n))"
  by (rule io_triple_bind [OF assms(1) frame_triple(1) [OF assms(2)]])

lemma keeps_after:
  assumes "step_rel same_handles m" and "\<And>a. keeps_handles handles_ok (f a)"
  shows "keeps_handles handles_ok (io_bind m f)"
  by (rule io_triple_bind [OF frame_triple(1) [OF assms(1)] assms(2)])

text \<open>The handle is filled in and either freed after an error reply or counted and handed out.\<close>

lemma pending_finish: "keeps_handles (pending p) (io_bind (handle_set p h) (\<lambda>_.
    if c then io_bind (reply e) (\<lambda>_. handle_free p) else io_bind (update_open_refcount 1) (\<lambda>_. reply r)))"
  by (rule io_triple_bind [OF pending_set], intro io_triple_if pending_reply_free keeps_then pending_count frame_rules)

lemma opendir_handles: "keeps_handles handles_ok (sqfs_ll_op_opendir cf now ino fi)"
proof -
  have body: "keeps_handles (pending p) (io_try (sqfs_ll_iget ino) (\<lambda>r. case r of
      Inl e \<Rightarrow> handle_free p | Inr None \<Rightarrow> io_fault Uninitialised
    | Inr (Some inode) \<Rightarrow> io_bind (handle_set p (H_Dir inode)) (\<lambda>_.
      if \<not> S_ISDIR (in_mode inode) then io_bind (reply (Reply_Err ENOTDIR)) (\<lambda>_. handle_free p)
      else io_bind (update_open_refcount 1) (\<lambda>_. reply (Reply_Open (fi\<lparr>fi_fh := 0, fi_fh := p\<rparr>))))))" for p
    by (rule io_triple_try [where Q = "\<lambda>_. pending p"])
      (auto intro!: frame_triple(2) frame_rules pending_free io_triple_fault pending_finish
        split: sum.split option.split split del: if_split)
  show ?thesis unfolding sqfs_ll_op_opendir_def Let_def
    by (rule keeps_after [OF hf.frame_access], rule io_triple_bind [OF handle_new_triple], rename_tac h, case_tac h)
      (simp_all add: body [unfolded Let_def] frame_triple(1) frame_rules)
qed

lemma open_handles: "keeps_handles handles_ok (sqfs_ll_op_open cf now ino fi)"
proof -
  have body: "keeps_handles (pending p) (io_try (on_ll (sqfs_ll_inode ino)) (\<lambda>r. case r of
      Inl e \<Rightarrow> io_bind (reply (Reply_Err ENOENT)) (\<lambda>_. handle_free p)
    | Inr inode \<Rightarrow> io_bind (handle_set p (H_File inode)) (\<lambda>_.
      if \<not> S_ISREG (in_mode inode) then io_bind (reply (Reply_Err EISDIR)) (\<lambda>_. handle_free p)
      else io_bind (update_open_refcount 1) (\<lambda>_. reply (Reply_Open (fi\<lparr>fi_fh := p, fi_keep_cache := True\<rparr>))))))" for p
    by (rule io_triple_try [where Q = "\<lambda>_. pending p"])
      (auto intro!: frame_triple(2) frame_rules pending_reply_free pending_finish split: sum.split split del: if_split)
  show ?thesis unfolding sqfs_ll_op_open_def
    by (rule keeps_after [OF hf.frame_access], rule io_triple_if, simp add: frame_triple(1) frame_rules,
        rule io_triple_bind [OF handle_new_triple], rename_tac h, case_tac h)
      (simp_all add: body frame_triple(1) frame_rules)
qed

lemma release_handles:
  assumes "fi_fh fi \<noteq> 0"
  shows "keeps_handles handles_ok (sqfs_ll_op_release cf now fi)" and "keeps_handles handles_ok (sqfs_ll_op_releasedir cf now fi)"
proof -
  let ?p = "fi_fh fi" and ?done = "reply (Reply_Err 0)"
  have swap: "io_bind (update_access_time cf now) (\<lambda>_. io_bind (update_open_refcount d) (\<lambda>_. m))
    = io_bind (update_open_refcount d) (\<lambda>_. io_bind (update_access_time cf now) (\<lambda>_. m))" for d and m :: "(ll_session, unit) io"
    by (rule ext, rename_tac s, case_tac s) (simp add: io_simps update_access_time_def update_open_refcount_def)
  have "sqfs_ll_op_release cf now fi = io_bind (io_bind (handle_free ?p) (\<lambda>_. update_open_refcount (- 1)))
      (\<lambda>_. io_bind (update_access_time cf now) (\<lambda>_. ?done))"
    unfolding sqfs_ll_op_release_def swap io_bind_assoc ..
  then show "keeps_handles handles_ok (sqfs_ll_op_release cf now fi)"
    by (simp only:) (intro keeps_then release_count(1) [OF assms] frame_rules)
  have "sqfs_ll_op_releasedir cf now fi = io_bind (update_access_time cf now) (\<lambda>_.
      io_bind (io_bind (update_open_refcount (- 1)) (\<lambda>_. handle_free ?p)) (\<lambda>_. ?done))"
    unfolding sqfs_ll_op_releasedir_def io_bind_assoc ..
  then show "keeps_handles handles_ok (sqfs_ll_op_releasedir cf now fi)"
    by (simp only:) (intro keeps_after keeps_then release_count(2) [OF assms] frame_rules)
qed

lemma handler_handles: "proper_request req \<Longrightarrow> keeps_handles handles_ok (sqfs_ll_ops cf now req)"
proof (cases req)
  case (Opendir ino fi)
  then show ?thesis by (simp add: opendir_handles)
next
  case (Open ino fi)
  then show ?thesis by (simp add: open_handles)
qed (simp_all add: release_handles, (simp only: ll_op_defs, rule frame_triple(1), (rule frame_rules)+)+)

section \<open>Sessions\<close>

text \<open>A session goes on by requests that are answered and by ticks of its timer.\<close>

inductive ll_step :: "'w::len itself \<Rightarrow> ll_config \<Rightarrow> ll_session \<Rightarrow> ll_session \<Rightarrow> bool" for w cf where
  request: "proper_request (req :: 'w word ll_request) \<Longrightarrow> sqfs_ll_ops cf now req s = (Ok (), s') \<Longrightarrow> ll_step w cf s s'"
| tick: "ls_alarm s \<Longrightarrow> alarm_tick now s = (Ok (), s') \<Longrightarrow> ll_step w cf s s'"

inductive_cases ll_step_cases: "ll_step w cf s s'"

lemma step_handles: "ll_step w cf s s' \<Longrightarrow> handles_ok s \<Longrightarrow> handles_ok s'"
proof (induction rule: ll_step.induct)
  case (request req now s s')
  then show ?case using io_tripleD [OF handler_handles [OF request(1)]] by fastforce
next
  case (tick s now s')
  then have "same_handles s s'" by (auto simp: alarm_tick_def io_simps same_handles_def)
  with tick show ?case by (auto simp: same_handles_def handles_ok_def live_def)
qed

lemma session_handles: "(ll_step w cf)\<^sup>*\<^sup>* s s' \<Longrightarrow> handles_ok s \<Longrightarrow> handles_ok s'"
  by (induction rule: rtranclp_induct) (auto intro: step_handles)

section \<open>Handlers on an intact image\<close>

text \<open>The session works on the image of \<open>E\<close>, and memory does not run out.\<close>

definition session_on :: "fs_env \<Rightarrow> nat multiset \<Rightarrow> ll_session \<Rightarrow> bool" where
  "session_on E M s \<longleftrightarrow> img_ok (ev_img E) \<and> \<not> ev_oom E \<and> fs_clean E M (ll_fs (ls_ll s))"

text \<open>The same session after work on the image.\<close>

definition moved_on :: "fs_env \<Rightarrow> nat multiset \<Rightarrow> ll_session \<Rightarrow> ll_session \<Rightarrow> bool" where
  "moved_on E M s s' \<longleftrightarrow> (\<exists>f. s' = s\<lparr>ls_ll := (ls_ll s)\<lparr>ll_fs := f\<rparr>\<rparr> \<and> fs_clean E M f)"

lemma moved_on_session: "session_on E M s \<Longrightarrow> moved_on E M s s' \<Longrightarrow> session_on E M s'"
  by (auto simp: session_on_def moved_on_def)

lemma moved_on_trans: "moved_on E M s s1 \<Longrightarrow> moved_on E M s1 s2 \<Longrightarrow> moved_on E M s s2"
  by (auto simp: moved_on_def)

lemma moved_on_fields:
  "moved_on E M s s' \<Longrightarrow> ls_replies s' = ls_replies s \<and> ls_handles s' = ls_handles s \<and> ll_ino (ls_ll s') = ll_ino (ls_ll s)"
  by (auto simp: moved_on_def)

lemma fs_call_yields:
  assumes "session_on E M s" and "yields E M m (Ok a)"
  shows "\<exists>s'. fs_call m s = (Ok a, s') \<and> moved_on E M s s'"
proof -
  have "implements False (fs_clean E M) (fs_safe E M) m (Ok a)" "fs_clean E M (ll_fs (ls_ll s))"
    using assms by (auto simp: session_on_def)
  from implements_OkD [OF this] obtain f where "m (ll_fs (ls_ll s)) = (Ok a, f)" "fs_clean E M f" by blast
  then show ?thesis by (auto simp: fs_call_def on_ll_def on_fs_def io_simps moved_on_def)
qed

lemma malloc_ok:
  assumes "\<not> ev_oom E"
  shows "yields E M (on_heap hp_malloc) (Ok True)"
proof (rule implementsI)
  fix f assume f: "fs_clean E M f"
  then have "hp_malloc_ok (fs_heap f) n" for n using assms by (simp add: fs_inv_def ev_oom_def)
  then have "on_heap hp_malloc f = (Ok True, f\<lparr>fs_heap := (fs_heap f)\<lparr>hp_mallocs := Suc (hp_mallocs (fs_heap f))\<rparr>\<rparr>)"
    by (simp add: on_heap_def hp_malloc_def io_simps)
  then show "\<exists>r' s'. on_heap hp_malloc f = (r', s') \<and> (r' = Ok True \<or> ev_oom E \<and> r' = Err SQFS_ERR) \<and>
      (case r' of Ok x \<Rightarrow> fs_clean E M s' | Err e \<Rightarrow> fs_safe E M s' | Fault u \<Rightarrow> True)"
    using fs_inv_mallocs [OF f] by simp
qed

lemma malloc_yields:
  assumes "session_on E M s"
  shows "\<exists>s'. ll_malloc s = (Ok True, s') \<and> moved_on E M s s'"
  unfolding ll_malloc_def by (rule fs_call_yields [OF assms malloc_ok]) (use assms in \<open>simp add: session_on_def\<close>)

lemma session_access: "session_on E M s \<Longrightarrow> \<exists>s'. update_access_time cf now s = (Ok (), s') \<and> session_on E M s' \<and>
    ls_replies s' = ls_replies s \<and> ls_handles s' = ls_handles s \<and> ls_ll s' = ls_ll s"
  by (auto simp: update_access_time_def io_simps session_on_def)

lemma ll_read_slice:
  assumes s: "session_on E M s" and h: "ls_handles s (fi_fh fi) = Some (H_File inode)" "fi_fh fi \<noteq> 0"
    and rd: "yields E M (sqfs_read_range inode off (int sz)) (Ok bs)" and sz: "sz < 2 ^ 63"
  shows "\<exists>s'. sqfs_ll_op_read cf now sz off fi s = (Ok (), s') \<and> ls_replies s' = ls_replies s @ [Reply_Buf bs] \<and>
    session_on E M s'"
proof -
  obtain s1 where s1: "ll_malloc s = (Ok True, s1)" "moved_on E M s s1" using malloc_yields [OF s] by blast
  obtain s2 where s2: "update_access_time cf now s1 = (Ok (), s2)" "session_on E M s2" "ls_replies s2 = ls_replies s1"
      "ls_handles s2 = ls_handles s1" using session_access [OF moved_on_session [OF s s1(2)]] by blast
  have hd: "handle_file (fi_fh fi) s2 = (Ok inode, s2)"
    using h s2(4) moved_on_fields [OF s1(2)] by (simp add: handle_file_def handle_get_def io_simps)
  obtain s3 where s3: "fs_call (sqfs_read_range inode off (int sz)) s2 = (Ok bs, s3)" "moved_on E M s2 s3"
    using fs_call_yields [OF s2(2) rd] by blast
  have "off_wrap (int sz) = int sz" using sz by simp
  then show ?thesis
    using s1(1) s2(1,3) hd s3(1) moved_on_fields [OF s1(2)] moved_on_fields [OF s3(2)] moved_on_session [OF s2(2) s3(2)]
    by (auto simp: sqfs_ll_op_read_def io_simps reply_def session_on_def)
qed

lemma iget_yields:
  assumes "session_on E M s" and "ll_ino (ls_ll s) = Some INO64" and "ino \<noteq> (0 :: u64)"
    and "yields E M (sqfs_inode_get (sqfs_ll_ino64_sqfs (ls_ll s) ino)) (Ok inode)"
  shows "\<exists>s'. (\<forall>k. iget_or_return ino k s = k inode s') \<and> moved_on E M s s'"
proof -
  from fs_call_yields [OF assms(1,4)] obtain s' where
    "fs_call (sqfs_inode_get (sqfs_ll_ino64_sqfs (ls_ll s) ino)) s = (Ok inode, s')" "moved_on E M s s'" by blast
  then show ?thesis using assms(2,3)
    by (auto simp: iget_or_return_def sqfs_ll_iget_def sqfs_ll_inode_def ino_sqfs_def io_simps on_ll_def fs_call_def)
qed

lemma ll_lookup_entry:
  fixes parent :: u64
  assumes s: "session_on E M s" and ino: "ll_ino (ls_ll s) = Some INO64" "parent \<noteq> 0"
    and get: "yields E M (sqfs_inode_get (sqfs_ll_ino64_sqfs (ls_ll s) parent)) (Ok dir)"
    and dir: "dir_holds (ev_img E) dir rs" "names_sorted (listing_of 0 0 0 [] rs)" and name: "0 \<notin> set name"
    and ents: "\<And>e. e \<in> set (listing_of 0 0 0 [] rs) \<Longrightarrow> ent_inode e \<noteq> 1 \<and> ent_inode e \<noteq> 2 \<and>
      (\<exists>inode st. yields E M (sqfs_inode_get (ent_inode e)) (Ok inode) \<and> yields E M (sqfs_stat (lc_makedev cf) inode) (Ok st))"
  shows "\<exists>s' fe. sqfs_ll_op_lookup cf now parent name s = (Ok (), s') \<and> ls_replies s' = ls_replies s @ [Reply_Entry fe] \<and>
    (if \<exists>e \<in> set (listing_of 0 0 0 [] rs). ent_name e = Some name
     then \<exists>e \<in> set (listing_of 0 0 0 [] rs). ent_name e = Some name \<and> fe_ino fe \<noteq> 0 \<and>
       sqfs_ll_ino64_sqfs (ls_ll s') (fe_ino fe) = ent_inode e
     else fe_ino fe = 0)"
proof -
  let ?ents = "set (listing_of 0 0 0 [] rs)"
  obtain s1 where s1: "update_access_time cf now s = (Ok (), s1)" "session_on E M s1" "ls_replies s1 = ls_replies s"
      "ls_ll s1 = ls_ll s" using session_access [OF s] by blast
  have "ll_ino (ls_ll s1) = Some INO64" "yields E M (sqfs_inode_get (sqfs_ll_ino64_sqfs (ls_ll s1) parent)) (Ok dir)"
    using s1(4) ino get by simp_all
  from iget_yields [OF s1(2) this(1) ino(2) this(2)] obtain s2 where
    s2: "\<And>k. iget_or_return parent k s1 = k dir s2" "moved_on E M s1 s2" by blast
  note on2 = moved_on_session [OF s1(2) s2(2)]
  have isdir: "S_ISDIR (in_mode dir)" using dir(1) by (simp add: dir_holds_def)
  have img: "img_ok (ev_img E)" using s by (simp add: session_on_def)
  from sqfs_dir_lookup_sorted [OF img dir(1) name _ dir(2), of "sqfs_dentry_init True" M] obtain found e where
    lk: "yields E M (sqfs_dir_lookup dir name (sqfs_dentry_init True)) (Ok (found, e))"
      "found \<longleftrightarrow> (\<exists>x \<in> ?ents. ent_name x = Some name)" "found \<longrightarrow> e \<in> ?ents \<and> ent_name e = Some name"
    by (auto simp: sqfs_dentry_init_def)
  obtain s3 where s3: "fs_call (sqfs_dir_lookup dir name (sqfs_dentry_init True)) s2 = (Ok (found, e), s3)" "moved_on E M s2 s3"
    using fs_call_yields [OF on2 lk(1)] by blast
  note on3 = moved_on_session [OF on2 s3(2)] and m3 = moved_on_fields [OF moved_on_trans [OF s2(2) s3(2)]]
  show ?thesis
  proof (cases found)
    case False
    then show ?thesis using s1(1,3) s2(1) s3(1) isdir m3 lk(2)
      by (auto simp: sqfs_ll_op_lookup_def io_simps reply_def fentry_zero_def)
  next
    case True
    then have e: "e \<in> ?ents" "ent_name e = Some name" using lk(3) by simp_all
    from ents [OF e(1)] obtain inode st where y: "yields E M (sqfs_inode_get (ent_inode e)) (Ok inode)"
      "yields E M (sqfs_stat (lc_makedev cf) inode) (Ok st)" and id: "ent_inode e \<noteq> 1" "ent_inode e \<noteq> 2" by blast
    obtain s4 where s4: "fs_call (sqfs_inode_get (ent_inode e)) s3 = (Ok inode, s4)" "moved_on E M s3 s4"
      using fs_call_yields [OF on3 y(1)] by blast
    note on4 = moved_on_session [OF on3 s4(2)]
    obtain s5 where s5: "fs_call (sqfs_stat (lc_makedev cf) inode) s4 = (Ok st, s5)" "moved_on E M s4 s5"
      using fs_call_yields [OF on4 y(2)] by blast
    note m5 = moved_on_fields [OF moved_on_trans [OF s4(2) s5(2)]]
    have "ll_ino (ls_ll s5) = Some INO64" using m3 m5 s1(4) ino(1) by simp
    from n64.register_names [OF this disjI2 [OF conjI [OF id]]] obtain w :: u64 and ll where
      w: "ino_register e (ls_ll s5) = (Ok w, ll)" "w \<noteq> 0" "Some (sqfs_ll_ino64_sqfs ll w) = Some (ent_inode e)" by blast
    then have reg: "on_ll (ino_register e) s5 = (Ok w, s5\<lparr>ls_ll := ll\<rparr>)" by (simp add: on_ll_def io_simps)
    let ?fe = "\<lparr>fe_ino = ucast w, fe_attr = st\<lparr>st_ino := ucast w\<rparr>, fe_attr_timeout = SQFS_TIMEOUT, fe_entry_timeout = SQFS_TIMEOUT\<rparr>"
    have "sqfs_ll_op_lookup cf now parent name s =
        (Ok (), s5\<lparr>ls_ll := ll, ls_replies := ls_replies s5 @ [Reply_Entry ?fe]\<rparr>)"
      using s1(1) s2(1) s3(1) isdir True s4(1) s5(1) reg
      by (simp add: sqfs_ll_op_lookup_def io_simps reply_def)
    moreover have "ls_replies s5 = ls_replies s" using s1(3) m3 m5 by simp
    ultimately show ?thesis using lk(2) True e w(2,3) by auto
  qed
qed

section \<open>Properties\<close>

text \<open>C21. Every request gets exactly one reply, on every path of its handler and whatever the image holds:
  a handler that returns has sent one reply and no other.\<close>

theorem handler_replies_once:
  "(\<exists>u. fst (sqfs_ll_ops cf now req s) = Fault u) \<or>
   (\<exists>x. fst (sqfs_ll_ops cf now req s) = Ok () \<and> ls_replies (snd (sqfs_ll_ops cf now req s)) = ls_replies s @ [x])"
  using handler_answers [of cf now req] unfolding answers_def by blast

text \<open>C23. The idle timer stops the session exactly when the timeout is set, no file or directory is open and
  the last access is longer ago than the timeout, after any sequence of requests and ticks: the count of
  open files always is the number of live handles, through failed opens too.\<close>

theorem idle_timer_exact:
  assumes "(ll_step w cf)\<^sup>*\<^sup>* s0 s" and "ls_handles s0 = Map.empty" and "ls_open_refcount s0 = 0"
    and "card (dom (ls_handles s)) < 2 ^ 32" and "\<not> ls_sigint s"
  shows "ls_sigint (snd (alarm_tick now s)) \<longleftrightarrow> ls_fuse_instance s \<and> ls_idle_timeout_secs s \<noteq> 0 \<and>
    ls_handles s = Map.empty \<and> uint (ls_idle_timeout_secs s) < now - ls_last_access s"
proof -
  have "handles_ok s0" using assms(2,3) by (auto simp: handles_ok_def live_def)
  then obtain D where D: "live D s" "ls_open_refcount s = of_nat (card D)"
    using session_handles [OF assms(1)] by (auto simp: handles_ok_def)
  then have "card D < 2 ^ 32" "finite D" "dom (ls_handles s) = D" using assms(4) by (auto simp: live_def)
  then have "ls_open_refcount s = 0 \<longleftrightarrow> ls_handles s = Map.empty"
    using D(2) by (auto simp: word_unat_eq_iff unat_of_nat take_bit_nat_eq_self)
  then show ?thesis using assms(5)
    by (auto simp: alarm_tick_def io_simps get_open_refcount_def get_access_time_def)
qed

definition idle_session :: "sqfs_ll \<Rightarrow> ll_session" where
  "idle_session ll = \<lparr>ls_ll = ll, ls_idle_timeout_secs = 10, ls_last_access = 100, ls_open_refcount = 0, ls_fuse_instance = True,
     ls_alarm = True, ls_sigint = False, ls_notify_pipe = None, ls_notices = [], ls_handles = Map.empty, ls_brk = 0, ls_replies = []\<rparr>"

theorem idle_timer_exact_witness:
  "\<forall>ll. ls_sigint (snd (alarm_tick 111 (idle_session ll))) \<and>
     \<not> ls_sigint (snd (alarm_tick 111 ((idle_session ll)\<lparr>ls_last_access := 101, ls_replies := [Reply_Err EROFS]\<rparr>)))"
proof
  fix ll
  let ?cf = "\<lparr>lc_multithreaded = True, lc_broken_offsets = False, lc_makedev = \<lambda>_ _. 0, lc_enoattr = 61,
    lc_direntry = \<lambda>nm _ _. nm, lc_xattr = undefined\<rparr>"
  have "sqfs_ll_ops ?cf 101 (Create :: u64 ll_request) (idle_session ll) =
      (Ok (), (idle_session ll)\<lparr>ls_last_access := 101, ls_replies := [Reply_Err EROFS]\<rparr>)"
    by (simp add: sqfs_ll_op_create_def update_access_time_def reply_def io_simps idle_session_def)
  then have "ll_step TYPE(64) ?cf (idle_session ll) ((idle_session ll)\<lparr>ls_last_access := 101, ls_replies := [Reply_Err EROFS]\<rparr>)"
    by (intro ll_step.request [of "Create :: u64 ll_request"]) simp_all
  then have step: "(ll_step TYPE(64) ?cf)\<^sup>*\<^sup>* (idle_session ll)
      ((idle_session ll)\<lparr>ls_last_access := 101, ls_replies := [Reply_Err EROFS]\<rparr>)" by blast
  show "ls_sigint (snd (alarm_tick 111 (idle_session ll))) \<and>
     \<not> ls_sigint (snd (alarm_tick 111 ((idle_session ll)\<lparr>ls_last_access := 101, ls_replies := [Reply_Err EROFS]\<rparr>)))"
    using idle_timer_exact [OF rtranclp.rtrancl_refl, of "idle_session ll" 111] idle_timer_exact [OF step, of 111]
    by (simp add: idle_session_def)
qed

end
