(* ===== verification/Sqfs_Path.thy ===== *)
theory Sqfs_Path
  imports Sqfs_Dir
begin

text \<open>
  Path lookup (\<^verbatim>\<open>sqfs_lookup_path\<close> of \<^verbatim>\<open>dir.c\<close>) against a specification: a path is the list of
  its components, whatever slashes surround them, and looking it up is a walk through the directories of
  the image, which ends at an inode or at a name that is missing.
\<close>

section \<open>Components of a path\<close>

fun split_slash :: "bytes \<Rightarrow> bytes list" where
  "split_slash [] = [[]]"
| "split_slash (c # cs) = (if c = slash then [] # split_slash cs
     else (c # hd (split_slash cs)) # tl (split_slash cs))"

definition path_names :: "bytes \<Rightarrow> bytes list" where
  "path_names path = filter (\<lambda>n. n \<noteq> []) (split_slash path)"

lemma split_slash_nonempty: "split_slash p \<noteq> []"
  by (cases p) auto

lemma split_slash_word:
  "split_slash p = takeWhile (\<lambda>c. c \<noteq> slash) p #
     (case dropWhile (\<lambda>c. c \<noteq> slash) p of [] \<Rightarrow> [] | c # cs \<Rightarrow> split_slash cs)"
  by (induction p) auto

lemma path_names_Nil [simp]: "path_names [] = []"
  by (simp add: path_names_def)

lemma path_names_skip: "path_names (dropWhile (\<lambda>c. c = slash) p) = path_names p"
  by (induction p) (auto simp: path_names_def)

lemma path_names_word:
  assumes "takeWhile (\<lambda>c. c \<noteq> slash) p \<noteq> []"
  shows "path_names p = takeWhile (\<lambda>c. c \<noteq> slash) p # path_names (dropWhile (\<lambda>c. c \<noteq> slash) p)"
proof (cases "dropWhile (\<lambda>c. c \<noteq> slash) p")
  case Nil
  then show ?thesis using assms unfolding path_names_def
    by (subst split_slash_word) (simp del: dropWhile_eq_Nil_conv)
next
  case (Cons c cs)
  then have "c = slash" using hd_dropWhile [of "\<lambda>c. c \<noteq> slash" p] by simp
  then show ?thesis using assms Cons unfolding path_names_def by (subst split_slash_word) simp
qed

lemma no_word_after_slashes:
  assumes "takeWhile (\<lambda>c. c \<noteq> slash) (dropWhile (\<lambda>c. c = slash) p) = []"
  shows "path_names p = []"
proof (cases "dropWhile (\<lambda>c. c = slash) p")
  case Nil
  then show ?thesis using path_names_skip [of p] by (simp del: dropWhile_eq_Nil_conv)
next
  case (Cons c cs)
  then show ?thesis using assms hd_dropWhile [of "\<lambda>c. c = slash" p] by simp
qed

section \<open>Walking\<close>

text \<open>\<open>walk E M inode i names r\<close>: from the inode \<open>inode\<close> with id \<open>i\<close>, following \<open>names\<close> ends in \<open>r\<close>:
  an inode and its id, or \<open>None\<close> at a name its directory does not have.\<close>

fun walk ::
  "fs_env \<Rightarrow> nat multiset \<Rightarrow> sqfs_inode \<Rightarrow> sqfs_inode_id \<Rightarrow> bytes list \<Rightarrow> (sqfs_inode \<times> sqfs_inode_id) option \<Rightarrow> bool" where
  "walk E M inode i [] r \<longleftrightarrow> r = Some (inode, i)"
| "walk E M inode i (n # ns) r \<longleftrightarrow>
     (\<exists>rs. dir_holds (ev_img E) inode rs \<and> names_sorted (listing_of 0 0 0 [] rs) \<and> 0 \<notin> set n \<and>
        ((\<forall>e \<in> set (listing_of 0 0 0 [] rs). ent_name e \<noteq> Some n) \<and> r = None \<or>
         (\<exists>e \<in> set (listing_of 0 0 0 [] rs). ent_name e = Some n \<and>
            (\<exists>child. yields E M (sqfs_inode_get (ent_inode e)) (Ok child) \<and> walk E M child (ent_inode e) ns r))))"

lemma sorted_name_unique:
  assumes "names_sorted xs" and "x \<in> set xs" and "y \<in> set xs" and "ent_name x = ent_name y"
  shows "x = y"
proof -
  have "sorted_wrt (\<lambda>a b. name_less (the (ent_name a)) (the (ent_name b))) xs"
    using assms(1) by (simp add: names_sorted_def sorted_wrt_map)
  then show ?thesis using assms(2-)
    by (induction xs) (auto dest: bspec)
qed

lemma lookup_loop_walk:
  assumes im: "img_ok (ev_img E)"
  shows "walk E M inode i (path_names path) r \<Longrightarrow> ent_name entry \<noteq> None \<Longrightarrow> length path \<le> fuel \<Longrightarrow>
    yields E M (lookup_loop fuel inode i path entry) (Ok r)"
proof (induction fuel arbitrary: inode i path entry)
  case 0
  then show ?case by (auto simp: lookup_loop.simps [of 0] intro: yields_ret)
next
  case (Suc fuel)
  let ?rest = "dropWhile (\<lambda>c. c = slash) path"
  let ?name = "takeWhile (\<lambda>c. c \<noteq> slash) ?rest" and ?path = "dropWhile (\<lambda>c. c \<noteq> slash) ?rest"
  show ?case
  proof (cases "path = [] \<or> ?name = []")
    case True
    then have "path_names path = []" using no_word_after_slashes [of path] by auto
    then show ?thesis using Suc.prems(1) True by (auto simp: lookup_loop.simps [of "Suc fuel"] Let_def intro: yields_ret)
  next
    case False
    then have names: "path_names path = ?name # path_names ?path"
      using path_names_word [of ?rest] path_names_skip [of path] by simp
    have "length ?rest \<le> length path" by (rule length_dropWhile_le)
    moreover have "length ?rest = length ?name + length ?path" by (simp flip: length_append)
    ultimately have len: "length ?path \<le> fuel" using False Suc.prems(3) by (cases ?name) auto
    from Suc.prems(1) [unfolded names] obtain rs where
      rs: "dir_holds (ev_img E) inode rs" "names_sorted (listing_of 0 0 0 [] rs)" "0 \<notin> set ?name"
      and w: "(\<forall>e \<in> set (listing_of 0 0 0 [] rs). ent_name e \<noteq> Some ?name) \<and> r = None \<or>
         (\<exists>e \<in> set (listing_of 0 0 0 [] rs). ent_name e = Some ?name \<and>
            (\<exists>child. yields E M (sqfs_inode_get (ent_inode e)) (Ok child) \<and> walk E M child (ent_inode e) (path_names ?path) r))"
      unfolding walk.simps by blast
    from sqfs_dir_lookup_sorted [OF im rs(1,3) Suc.prems(2) rs(2), of M] obtain found x where
      x: "yields E M (sqfs_dir_lookup inode ?name entry) (Ok (found, x))"
        "found \<longleftrightarrow> (\<exists>x \<in> set (listing_of 0 0 0 [] rs). ent_name x = Some ?name)"
        "found \<longrightarrow> x \<in> set (listing_of 0 0 0 [] rs) \<and> ent_name x = Some ?name" by blast
    have loop: "lookup_loop (Suc fuel) inode i path entry = io_bind (sqfs_dir_lookup inode ?name entry) (\<lambda>(found, entry).
        if \<not> found then io_ret None else
        io_bind (sqfs_inode_get (ent_inode entry)) (\<lambda>inode. lookup_loop fuel inode (ent_inode entry) ?path entry))"
      using False unfolding lookup_loop.simps [of "Suc fuel"] Let_def by simp
    show ?thesis
    proof (cases found)
      case False
      then show ?thesis using w x(2) unfolding loop by (intro yields_bind_Ok [OF x(1)]) (auto intro: yields_ret)
    next
      case True
      then obtain child where c: "yields E M (sqfs_inode_get (ent_inode x)) (Ok child)"
        "walk E M child (ent_inode x) (path_names ?path) r"
        using w x(3) sorted_name_unique [OF rs(2)] by metis
      have "ent_name x \<noteq> None" using True x(3) by simp
      from Suc.IH [OF c(2) this len] show ?thesis unfolding loop
        by (intro yields_bind_Ok [OF x(1)], simp only: prod.case True not_True_eq_False if_False)
          (rule yields_bind_Ok [OF c(1)])
    qed
  qed
qed

lemma lookup_path_with_id_walk:
  assumes "img_ok (ev_img E)" and "walk E M inode i (path_names path) r"
  shows "yields E M (sqfs_lookup_path_with_id inode i path) (Ok r)"
  unfolding sqfs_lookup_path_with_id_def
  by (rule lookup_loop_walk [OF assms]) (simp_all add: sqfs_dentry_init_def)

lemma lookup_path_walk:
  assumes "img_ok (ev_img E)" and "walk E M inode 0 (path_names path) r"
  shows "yields E M (sqfs_lookup_path inode path) (Ok (map_option fst r))"
  unfolding sqfs_lookup_path_def
  by (rule yields_bind_Ok [OF lookup_path_with_id_walk [OF assms]]) (rule yields_ret, rule refl)

end
