(* ===== verification/Sqfs_HL.thy ===== *)
theory Sqfs_HL
  imports Sqfs_LL Sqfs_Path
begin

text \<open>
  The high-level FUSE client: the operations of \<^verbatim>\<open>hl.c\<close>, which name files by their path. A session
  is the \<^verbatim>\<open>sqfs_hl\<close> of the mount, the inodes its file handles point to and the notices sent through
  the notification pipe. An operation returns a negative error number (\<open>Inl\<close>) or what it hands back
  (\<open>Inr\<close>): the attributes, the open file, the bytes, or nothing. The configuration is that of the low-level
  client; the filler of a directory listing is a parameter, a function from the buffer and an entry to
  whether the buffer is full and the new buffer.

  The lemmas show that an operation on a path acts on the inode that walking the path reaches.
\<close>

section \<open>Data\<close>

record sqfs_hl =
  hl_fs :: sqfs
  hl_root :: sqfs_inode

record hl_session =
  hs_hl :: sqfs_hl
  hs_handles :: "nat \<rightharpoonup> sqfs_inode option"
  hs_brk :: nat
  hs_notify_pipe :: "bytes option"
  hs_notices :: "(bytes \<times> u8) list"

definition on_hl :: "(sqfs, 'a) io \<Rightarrow> (hl_session, 'a) io" where
  "on_hl = io_on (\<lambda>s. hl_fs (hs_hl s)) (\<lambda>fs s. s\<lparr>hs_hl := (hs_hl s)\<lparr>hl_fs := fs\<rparr>\<rparr>)"

definition hl_new :: "(hl_session, nat option) io" where
  "hl_new = io_bind (on_hl (on_heap hp_malloc)) (\<lambda>ok.
     if \<not> ok then io_ret None else (\<lambda>s.
       let p = Suc (hs_brk s) in (Ok (Some p), s\<lparr>hs_brk := p, hs_handles := (hs_handles s)(p \<mapsto> None)\<rparr>)))"

definition hl_set :: "nat \<Rightarrow> sqfs_inode \<Rightarrow> (hl_session, unit) io" where
  "hl_set p inode = io_modify (\<lambda>s. s\<lparr>hs_handles := (hs_handles s)(p \<mapsto> Some inode)\<rparr>)"

definition hl_get :: "nat \<Rightarrow> (hl_session, sqfs_inode) io" where
  "hl_get p = (\<lambda>s. if p = 0 then (Fault Null_Deref, s) else
     case hs_handles s p of None \<Rightarrow> (Fault Use_After_Free, s)
     | Some None \<Rightarrow> (Fault Uninitialised, s) | Some (Some inode) \<Rightarrow> (Ok inode, s))"

definition hl_free :: "nat \<Rightarrow> (hl_session, unit) io" where
  "hl_free p = (\<lambda>s. if p = 0 then (Ok (), s) else
     case hs_handles s p of None \<Rightarrow> (Fault Use_After_Free, s)
     | Some h \<Rightarrow> (Ok (), s\<lparr>hs_handles := (hs_handles s)(p := None)\<rparr>))"

section \<open>Operations\<close>

text \<open>\<^verbatim>\<open>sqfs_hl_lookup\<close> with an inode to fill. Without one, as in \<^verbatim>\<open>sqfs_hl_lookup(&fs, NULL, NULL)\<close>,
  it only fetches the file system.\<close>

definition sqfs_hl_lookup :: "bytes option \<Rightarrow> (hl_session, sqfs_inode) io" where
  "sqfs_hl_lookup path =
     io_bind (io_gets (\<lambda>s. hl_root (hs_hl s))) (\<lambda>root. case path of
       None \<Rightarrow> io_ret root
     | Some p \<Rightarrow> io_bind (on_hl (sqfs_lookup_path root p)) (\<lambda>r. case r of
         None \<Rightarrow> io_raise SQFS_ERR | Some inode \<Rightarrow> io_ret inode))"

definition sqfs_hl_op_destroy :: "(hl_session, unit) io" where
  "sqfs_hl_op_destroy = on_hl sqfs_destroy"

definition sqfs_hl_op_init :: "(hl_session, unit) io" where
  "sqfs_hl_op_init = io_modify (\<lambda>s. case hs_notify_pipe s of None \<Rightarrow> s
     | Some p \<Rightarrow> s\<lparr>hs_notices := hs_notices s @ [(p, NOTIFY_SUCCESS)]\<rparr>)"

definition sqfs_hl_op_getattr :: "ll_config \<Rightarrow> bytes option \<Rightarrow> (hl_session, int + stat) io" where
  "sqfs_hl_op_getattr cf path =
     io_try (sqfs_hl_lookup path) (\<lambda>r. case r of
       Inl e \<Rightarrow> io_ret (Inl (- ENOENT))
     | Inr inode \<Rightarrow> io_try (on_hl (sqfs_stat (lc_makedev cf) inode)) (\<lambda>r. case r of
         Inl e \<Rightarrow> io_ret (Inl (- ENOENT)) | Inr st \<Rightarrow> io_ret (Inr st)))"

definition sqfs_hl_op_opendir :: "bytes option \<Rightarrow> fuse_file_info \<Rightarrow> (hl_session, int + fuse_file_info) io" where
  "sqfs_hl_op_opendir path fi =
     io_bind hl_new (\<lambda>h. case h of None \<Rightarrow> io_ret (Inl (- ENOMEM)) | Some p \<Rightarrow>
     io_try (sqfs_hl_lookup path) (\<lambda>r. case r of
       Inl e \<Rightarrow> io_bind (hl_free p) (\<lambda>_. io_ret (Inl (- ENOENT)))
     | Inr inode \<Rightarrow>
        io_bind (hl_set p inode) (\<lambda>_.
        if \<not> S_ISDIR (in_mode inode) then io_bind (hl_free p) (\<lambda>_. io_ret (Inl (- ENOTDIR)))
        else io_ret (Inr (fi\<lparr>fi_fh := p\<rparr>)))))"

definition sqfs_hl_op_releasedir :: "fuse_file_info \<Rightarrow> (hl_session, int + fuse_file_info) io" where
  "sqfs_hl_op_releasedir fi = io_bind (hl_free (fi_fh fi)) (\<lambda>_. io_ret (Inr (fi\<lparr>fi_fh := 0\<rparr>)))"

text \<open>The entries \<^verbatim>\<open>.\<close> and \<^verbatim>\<open>..\<close>: whether the buffer filled up, the offset reached and the buffer.\<close>

type_synonym 'b filler = "'b \<Rightarrow> bytes \<Rightarrow> stat \<Rightarrow> off_t \<Rightarrow> bool \<times> 'b"

function hl_dots :: "'b filler \<Rightarrow> 'b \<Rightarrow> stat \<Rightarrow> off_t \<Rightarrow> bool \<times> off_t \<times> 'b" where
  "hl_dots filler buf st off =
     (if off < 2 then
        let name = (if off = 0 then [46] else [46, 46]); (full, buf) = filler buf name st (off + 1)
        in if full then (True, off + 1, buf) else hl_dots filler buf st (off + 1)
      else (False, off, buf))"
  by pat_completeness auto
termination by (relation "measure (\<lambda>(filler, buf, st, off). nat (2 - off))") auto

declare hl_dots.simps [simp del]

fun hl_readdir_loop ::
  "ll_config \<Rightarrow> 'b filler \<Rightarrow> nat \<Rightarrow> sqfs_dir \<Rightarrow> sqfs_dir_entry \<Rightarrow> stat \<Rightarrow> 'b \<Rightarrow> (hl_session, 'b) io" where
  "hl_readdir_loop cf filler 0 dir entry st buf = io_fault Diverges"
| "hl_readdir_loop cf filler (Suc fuel) dir entry st buf =
     io_bind (on_hl (sqfs_dir_next dir entry)) (\<lambda>(more, dir, entry).
     if \<not> more then io_ret buf else
     let doff = (if lc_broken_offsets cf then 0 else ent_next_offset entry) + 2;
         st = st\<lparr>st_mode := sqfs_dentry_mode entry\<rparr>
     in case sqfs_dentry_name entry of None \<Rightarrow> io_fault Null_Deref
        | Some nm \<Rightarrow>
           case filler buf (cstring nm) st doff of (full, buf) \<Rightarrow>
           if full then io_ret buf else hl_readdir_loop cf filler fuel dir entry st buf)"

definition sqfs_hl_op_readdir ::
  "ll_config \<Rightarrow> 'b filler \<Rightarrow> 'b \<Rightarrow> off_t \<Rightarrow> fuse_file_info \<Rightarrow> (hl_session, int + 'b) io" where
  "sqfs_hl_op_readdir cf filler buf offset fi =
     (case hl_dots filler buf (stat_zero\<lparr>st_mode := S_IFDIR\<rparr>) (if lc_broken_offsets cf then 0 else offset) of
        (full, off, buf) \<Rightarrow>
      if full then io_ret (Inr buf) else
      io_bind (hl_get (fi_fh fi)) (\<lambda>inode.
      io_try (on_hl (sqfs_dir_open inode (off - 2))) (\<lambda>r. case r of
        Inl e \<Rightarrow> io_ret (Inl (- EINVAL))
      | Inr dir \<Rightarrow>
         io_bind (io_gets (\<lambda>s. md_fuel (fs_img (hl_fs (hs_hl s))))) (\<lambda>fuel.
         io_try (hl_readdir_loop cf filler fuel dir (sqfs_dentry_init True) (stat_zero\<lparr>st_mode := S_IFDIR\<rparr>) buf)
           (\<lambda>r. case r of Inl e \<Rightarrow> io_ret (Inl (- EIO)) | Inr buf \<Rightarrow> io_ret (Inr buf))))))"

definition sqfs_hl_op_open :: "bytes option \<Rightarrow> fuse_file_info \<Rightarrow> (hl_session, int + fuse_file_info) io" where
  "sqfs_hl_op_open path fi =
     (if fi_flags fi AND (O_WRONLY OR O_RDWR) \<noteq> 0 then io_ret (Inl (- EROFS)) else
      io_bind hl_new (\<lambda>h. case h of None \<Rightarrow> io_ret (Inl (- ENOMEM)) | Some p \<Rightarrow>
      io_try (sqfs_hl_lookup path) (\<lambda>r. case r of
        Inl e \<Rightarrow> io_bind (hl_free p) (\<lambda>_. io_ret (Inl (- ENOENT)))
      | Inr inode \<Rightarrow>
         io_bind (hl_set p inode) (\<lambda>_.
         if \<not> S_ISREG (in_mode inode) then io_bind (hl_free p) (\<lambda>_. io_ret (Inl (- EISDIR)))
         else io_ret (Inr (fi\<lparr>fi_fh := p, fi_keep_cache := True\<rparr>))))))"

definition sqfs_hl_op_create :: "(hl_session, int + unit) io" where
  "sqfs_hl_op_create = io_ret (Inl (- EROFS))"

definition sqfs_hl_op_release :: "fuse_file_info \<Rightarrow> (hl_session, int + fuse_file_info) io" where
  "sqfs_hl_op_release fi = io_bind (hl_free (fi_fh fi)) (\<lambda>_. io_ret (Inr (fi\<lparr>fi_fh := 0\<rparr>)))"

definition sqfs_hl_op_read :: "size_t \<Rightarrow> off_t \<Rightarrow> fuse_file_info \<Rightarrow> (hl_session, int + bytes) io" where
  "sqfs_hl_op_read sz off fi =
     io_bind (hl_get (fi_fh fi)) (\<lambda>inode.
     io_try (on_hl (sqfs_read_range inode off (off_wrap (int sz)))) (\<lambda>r. case r of
       Inl e \<Rightarrow> io_ret (Inl (- EIO)) | Inr got \<Rightarrow> io_ret (Inr got)))"

definition sqfs_hl_op_readlink :: "bytes option \<Rightarrow> size_t \<Rightarrow> (hl_session, int + bytes) io" where
  "sqfs_hl_op_readlink path sz =
     io_try (sqfs_hl_lookup path) (\<lambda>r. case r of
       Inl e \<Rightarrow> io_ret (Inl (- ENOENT))
     | Inr inode \<Rightarrow>
        if \<not> S_ISLNK (in_mode inode) then io_ret (Inl (- EINVAL)) else
        io_try (on_hl (sqfs_readlink inode True sz)) (\<lambda>r. case r of
          Inl e \<Rightarrow> io_ret (Inl (- EIO))
        | Inr (Inl _) \<Rightarrow> io_fault Uninitialised
        | Inr (Inr buf) \<Rightarrow> io_ret (Inr buf)))"

text \<open>FUSE asks for the size of the list with a size of zero and no buffer.\<close>

definition sqfs_hl_op_listxattr ::
  "ll_config \<Rightarrow> bytes option \<Rightarrow> size_t option \<Rightarrow> (hl_session, int + size_t \<times> bytes) io" where
  "sqfs_hl_op_listxattr cf path buf =
     io_try (sqfs_hl_lookup path) (\<lambda>r. case r of
       Inl e \<Rightarrow> io_ret (Inl (- ENOENT))
     | Inr inode \<Rightarrow>
        io_bind (on_hl (sqfs_listxattr (lc_xattr cf) inode buf)) (\<lambda>r. case r of
          Inl ferr \<Rightarrow> io_ret (Inl (- ferr)) | Inr out \<Rightarrow> io_ret (Inr out)))"

definition sqfs_hl_op_getxattr ::
  "ll_config \<Rightarrow> bytes option \<Rightarrow> bytes \<Rightarrow> bool \<Rightarrow> size_t \<Rightarrow> u32 option \<Rightarrow> (hl_session, int + size_t \<times> bytes option) io" where
  "sqfs_hl_op_getxattr cf path name buf sz position =
     (if position \<noteq> None \<and> position \<noteq> Some 0 then io_ret (Inl (- EINVAL)) else
      io_try (sqfs_hl_lookup path) (\<lambda>r. case r of
        Inl e \<Rightarrow> io_ret (Inl (- ENOENT))
      | Inr inode \<Rightarrow>
         io_try (on_hl (sqfs_xattr_lookup (lc_xattr cf) inode name (if buf then Some sz else None))) (\<lambda>r. case r of
           Inl e \<Rightarrow> io_ret (Inl (- EIO))
         | Inr (real, val) \<Rightarrow>
            if real = 0 then io_ret (Inl (- lc_enoattr cf))
            else if sz \<noteq> 0 \<and> sz < real then io_ret (Inl (- ERANGE))
            else io_ret (Inr (real, val)))))"

definition sqfs_hl_op_statfs :: "(hl_session, int + statvfs) io" where
  "sqfs_hl_op_statfs = io_bind (on_hl sqfs_statfs) (\<lambda>st. io_ret (Inr st))"

section \<open>Operations on an intact image\<close>

definition hl_on :: "fs_env \<Rightarrow> nat multiset \<Rightarrow> hl_session \<Rightarrow> bool" where
  "hl_on E M s \<longleftrightarrow> img_ok (ev_img E) \<and> \<not> ev_oom E \<and> fs_clean E M (hl_fs (hs_hl s))"

definition hl_moved :: "fs_env \<Rightarrow> nat multiset \<Rightarrow> hl_session \<Rightarrow> hl_session \<Rightarrow> bool" where
  "hl_moved E M s s' \<longleftrightarrow> (\<exists>f. s' = s\<lparr>hs_hl := (hs_hl s)\<lparr>hl_fs := f\<rparr>\<rparr> \<and> fs_clean E M f)"

lemma hl_moved_on: "hl_on E M s \<Longrightarrow> hl_moved E M s s' \<Longrightarrow> hl_on E M s'"
  by (auto simp: hl_on_def hl_moved_def)

lemma hl_moved_fields: "hl_moved E M s s' \<Longrightarrow> hs_handles s' = hs_handles s \<and> hl_root (hs_hl s') = hl_root (hs_hl s)"
  by (auto simp: hl_moved_def)

lemma on_hl_yields:
  assumes "hl_on E M s" and "yields E M m (Ok a)"
  shows "\<exists>s'. on_hl m s = (Ok a, s') \<and> hl_moved E M s s'"
proof -
  have "implements False (fs_clean E M) (fs_safe E M) m (Ok a)" "fs_clean E M (hl_fs (hs_hl s))"
    using assms by (auto simp: hl_on_def)
  from implements_OkD [OF this] obtain f where "m (hl_fs (hs_hl s)) = (Ok a, f)" "fs_clean E M f" by blast
  then show ?thesis by (auto simp: on_hl_def io_simps hl_moved_def)
qed

text \<open>A path is the inode that walking it reaches; a path that leads nowhere is an error.\<close>

lemma hl_lookup_walk:
  assumes s: "hl_on E M s" and w: "walk E M (hl_root (hs_hl s)) 0 (path_names p) r"
  shows "\<exists>s'. sqfs_hl_lookup (Some p) s = (case r of None \<Rightarrow> Err SQFS_ERR | Some (inode, _) \<Rightarrow> Ok inode, s') \<and> hl_moved E M s s'"
proof -
  have "yields E M (sqfs_lookup_path (hl_root (hs_hl s)) p) (Ok (map_option fst r))"
    by (rule lookup_path_walk [OF _ w]) (use s in \<open>simp add: hl_on_def\<close>)
  from on_hl_yields [OF s this] obtain s' where
    "on_hl (sqfs_lookup_path (hl_root (hs_hl s)) p) s = (Ok (map_option fst r), s')" "hl_moved E M s s'" by blast
  then show ?thesis by (auto simp: sqfs_hl_lookup_def io_simps split: option.split)
qed

lemma hl_new_run:
  assumes "hl_on E M s"
  shows "\<exists>p s'. hl_new s = (Ok (Some p), s') \<and> hl_on E M s' \<and> p \<noteq> 0 \<and> hl_root (hs_hl s') = hl_root (hs_hl s)"
proof -
  from on_hl_yields [OF assms malloc_ok] assms obtain s' where
    "on_hl (on_heap hp_malloc) s = (Ok True, s')" "hl_moved E M s s'" by (auto simp: hl_on_def)
  then show ?thesis using assms by (auto simp: hl_new_def io_simps Let_def hl_on_def hl_moved_def)
qed

lemma hl_open_read_slice:
  assumes s: "hl_on E M s" and w: "walk E M (hl_root (hs_hl s)) 0 (path_names path) (Some (inode, i))"
    and reg: "S_ISREG (in_mode inode)" and fl: "fi_flags fi AND 3 = 0"
    and rd: "yields E M (sqfs_read_range inode off (int sz)) (Ok bs)" and sz: "sz < 2 ^ 63"
  shows "\<exists>fi' s1 s2. sqfs_hl_op_open (Some path) fi s = (Ok (Inr fi'), s1) \<and> sqfs_hl_op_read sz off fi' s1 = (Ok (Inr bs), s2)"
proof -
  obtain p s1 where 1: "hl_new s = (Ok (Some p), s1)" "hl_on E M s1" "p \<noteq> 0" "hl_root (hs_hl s1) = hl_root (hs_hl s)"
    using hl_new_run [OF s] by blast
  from hl_lookup_walk [OF 1(2), of path "Some (inode, i)"] w 1(4) obtain s2 where
    2: "sqfs_hl_lookup (Some path) s1 = (Ok inode, s2)" "hl_moved E M s1 s2" by auto
  let ?s3 = "s2\<lparr>hs_handles := (hs_handles s2)(p \<mapsto> Some inode)\<rparr>" and ?fi = "fi\<lparr>fi_fh := p, fi_keep_cache := True\<rparr>"
  have op: "sqfs_hl_op_open (Some path) fi s = (Ok (Inr ?fi), ?s3)"
    using 1(1) 2(1) reg fl by (simp add: sqfs_hl_op_open_def io_simps hl_set_def)
  have "hl_on E M ?s3" using hl_moved_on [OF 1(2) 2(2)] by (simp add: hl_on_def)
  from on_hl_yields [OF this rd] obtain s4 where "on_hl (sqfs_read_range inode off (int sz)) ?s3 = (Ok bs, s4)" by blast
  moreover have "off_wrap (int sz) = int sz" using sz by simp
  ultimately have "sqfs_hl_op_read sz off ?fi ?s3 = (Ok (Inr bs), s4)"
    using 1(3) by (simp add: sqfs_hl_op_read_def hl_get_def io_simps)
  with op show ?thesis by blast
qed

end
