(* ===== verification/Sqfs_Mount.thy ===== *)
theory Sqfs_Mount
  imports Sqfs_HL Sqfs_Open
begin

text \<open>
  Opening an image for a FUSE client: \<^verbatim>\<open>sqfs_ll_open_with_subdir\<close> of \<^verbatim>\<open>ll.c\<close> and
  \<^verbatim>\<open>sqfs_hl_open\<close> of \<^verbatim>\<open>hl.c\<close>. Both allocate their state, open the image, finish their own set-up
  and undo everything when that fails; the result is \<open>None\<close> for a null pointer.
\<close>

definition perror :: "'st open_env \<Rightarrow> string \<Rightarrow> (open_state, unit) io" where
  "perror env m = print_err (m @ '': '' @ oe_why env @ [CHR 0x0A])"

text \<open>A client that could not be set up: its message, then the library state is destroyed.\<close>

definition give_up :: "string \<Rightarrow> (open_state, 'a option) io" where
  "give_up m = io_bind (print_err (m @ [CHR 0x0A])) (\<lambda>_. io_bind (on_os sqfs_destroy) (\<lambda>_. io_ret None))"

definition sqfs_ll_open_with_subdir ::
  "'st open_env \<Rightarrow> 'w::len itself \<Rightarrow> bytes \<Rightarrow> size_t \<Rightarrow> bytes option \<Rightarrow> (open_state, sqfs_ll option) io" where
  "sqfs_ll_open_with_subdir env w path offset subdir =
     io_bind (on_os (on_heap hp_malloc)) (\<lambda>ok.
     if \<not> ok then io_bind (perror env ''Can't allocate memory'') (\<lambda>_. io_ret None) else
     io_try (sqfs_open_image_with_subdir env path offset subdir) (\<lambda>r. case r of
       Inl e \<Rightarrow> io_ret None
     | Inr fd \<Rightarrow> (\<lambda>s.
        case sqfs_ll_init w \<lparr>ll_fs = os_fs s, ll_ino = None, ll_ino_data = None\<rparr> of (r, ll) \<Rightarrow>
        (case r of
           Ok _ \<Rightarrow> (Ok (Some ll), s\<lparr>os_fs := ll_fs ll\<rparr>)
         | Err e \<Rightarrow> give_up ''Can't initialize this filesystem!'' (s\<lparr>os_fs := ll_fs ll\<rparr>)
         | Fault u \<Rightarrow> (Fault u, s\<lparr>os_fs := ll_fs ll\<rparr>)))))"

definition sqfs_ll_open :: "'st open_env \<Rightarrow> 'w::len itself \<Rightarrow> bytes \<Rightarrow> size_t \<Rightarrow> (open_state, sqfs_ll option) io" where
  "sqfs_ll_open env w path offset = sqfs_ll_open_with_subdir env w path offset None"

definition sqfs_hl_open :: "'st open_env \<Rightarrow> bytes \<Rightarrow> size_t \<Rightarrow> bytes option \<Rightarrow> (open_state, sqfs_hl option) io" where
  "sqfs_hl_open env path offset subdir =
     io_bind (on_os (on_heap hp_malloc)) (\<lambda>ok.
     if \<not> ok then io_bind (perror env ''Can't allocate memory'') (\<lambda>_. io_ret None) else
     io_try (sqfs_open_image_with_subdir env path offset subdir) (\<lambda>r. case r of
       Inl e \<Rightarrow> io_ret None
     | Inr fd \<Rightarrow>
        io_bind (io_gets (\<lambda>s. sqfs_inode_root (os_fs s))) (\<lambda>root.
        io_try (on_os (sqfs_inode_get root)) (\<lambda>r. case r of
          Inl e \<Rightarrow> give_up ''Can't find the root of this filesystem!''
        | Inr inode \<Rightarrow> io_gets (\<lambda>s. Some \<lparr>hl_fs = os_fs s, hl_root = inode\<rparr>)))))"

text \<open>On a 64-bit system the low-level client opens exactly when the library does.\<close>

lemma ll_open_64:
  assumes "\<forall>n. hp_malloc_ok (fs_heap (os_fs s)) n"
    and "sqfs_open_image env path offset (s\<lparr>os_fs := (os_fs s)\<lparr>fs_heap := (fs_heap (os_fs s))\<lparr>hp_mallocs :=
      Suc (hp_mallocs (fs_heap (os_fs s)))\<rparr>\<rparr>\<rparr>) = (Ok fd, s')"
  shows "sqfs_ll_open env TYPE(64) path offset s =
    (Ok (Some \<lparr>ll_fs = os_fs s', ll_ino = Some INO64, ll_ino_data = None\<rparr>), s')"
  using assms
  by (simp add: sqfs_ll_open_def sqfs_ll_open_with_subdir_def sqfs_open_image_def on_os_def on_heap_def hp_malloc_def io_simps
      sqfs_ll_init_def sqfs_ll_ino64_init_def)

end
