(* ===== verification/Sqfs_Main.thy ===== *)
theory Sqfs_Main
  imports Sqfs_Mount
begin

text \<open>
  The programs \<^verbatim>\<open>squashfuse_ll\<close> and \<^verbatim>\<open>squashfuse\<close>: \<^verbatim>\<open>main\<close> of \<^verbatim>\<open>ll_main.c\<close> and of
  \<^verbatim>\<open>hl.c\<close>, with what they call of \<^verbatim>\<open>ll.c\<close> (mounting), \<^verbatim>\<open>fuseprivate.c\<close> (usage and
  notification) and \<^verbatim>\<open>nonstd-daemon.c\<close>. This is the branch for FUSE 3.

  FUSE and the system are parameters. Every call into them is recorded, and \<open>me_sys\<close> gives the value a call
  returns after the calls made before it. \<^verbatim>\<open>fuse_opt_parse\<close> gets the callback the program passes to it;
  \<open>me_serve\<close> is what the requests FUSE serves in its loop make of the session (\<open>Sqfs_LL\<close> has their
  handlers).

  The lemmas show that the programs keep to the protocol of FUSE's sessions on every path, and when they report
  failure.
\<close>

section \<open>The system\<close>

datatype sys_call =
    Open_Null
  | Close_Fd int
  | Session_New
  | Session_Mount bytes
  | Session_Unmount
  | Session_Destroy
  | Daemonize bool
  | Signals_Set
  | Signals_Remove
  | Sigaction_Term
  | Sigaction_Alarm
  | Session_Loop
  | Session_Loop_Mt
  | Fuse_Main "bytes list" "bytes option"
  | Cmdline_Help
  | Stat_Pipe bytes
  | Open_Pipe bytes
  | Write_Pipe bytes u8
  | Close_Pipe bytes
  | Fork
  | Setsid
  | Exec bytes bytes
  | Kill_Parent
  | Kill_Self
  | Child_Exit

record fuse_cmdline_opts =
  co_mountpoint :: "bytes option"
  co_foreground :: bool
  co_singlethread :: bool

record 'st main_env =
  me_open :: "'st open_env"
  me_config :: ll_config
  me_sys :: "sys_call list \<Rightarrow> sys_call \<Rightarrow> int"
  me_opt_parse :: "(sqfs_opts \<Rightarrow> bytes \<Rightarrow> int \<Rightarrow> int \<times> sqfs_opts) \<Rightarrow> bytes list \<Rightarrow> sqfs_opts \<Rightarrow> int \<times> bytes list \<times> sqfs_opts"
  me_parse_cmdline :: "bytes list \<Rightarrow> int \<times> fuse_cmdline_opts"
  me_serve :: "sys_call list \<Rightarrow> ll_session \<Rightarrow> ll_session"
  me_pipe_mode :: "bytes \<Rightarrow> u32"
  me_now :: int
  me_errno :: nat
  me_sigterm_handler :: bool
  me_package_string :: string
  me_kernel :: "(u32 \<times> u32 \<times> u32) option"
  me_KERNEL_VERSION :: "u32 \<Rightarrow> u32 \<Rightarrow> u32 \<Rightarrow> u32"

record main_state =
  mn_os :: open_state
  mn_session :: ll_session
  mn_mount_point :: "bytes option"
  mn_calls :: "sys_call list"

definition on_mn_os :: "(open_state, 'a) io \<Rightarrow> (main_state, 'a) io" where
  "on_mn_os = io_on mn_os (\<lambda>o' s. s\<lparr>mn_os := o'\<rparr>)"

definition on_session :: "(ll_session, 'a) io \<Rightarrow> (main_state, 'a) io" where
  "on_session = io_on mn_session (\<lambda>x s. s\<lparr>mn_session := x\<rparr>)"

definition sys :: "'st main_env \<Rightarrow> sys_call \<Rightarrow> (main_state, int) io" where
  "sys env c = io_bind (io_gets mn_calls) (\<lambda>h.
     io_bind (io_modify (\<lambda>s. s\<lparr>mn_calls := h @ [c]\<rparr>)) (\<lambda>_. io_ret (me_sys env h c)))"

definition complain :: "string \<Rightarrow> (main_state, unit) io" where
  "complain m = on_mn_os (print_err m)"

abbreviation (input) nl :: string where "nl \<equiv> [CHR 0x0A]"

section \<open>Usage, notification\<close>

definition chars :: "bytes \<Rightarrow> string" where "chars bs = map (\<lambda>b. char_of (unat b)) bs"

definition sqfs_minimal_fuse_usage :: "(main_state, unit) io" where
  "sqfs_minimal_fuse_usage = complain (nl @ ''Selection of FUSE options:'' @ nl @
     ''    -h   --help            print help'' @ nl @
     ''    -V   --version         print version'' @ nl @
     ''    -d   -o debug          enable debug output (implies -f)'' @ nl @
     ''    -f                     foreground operation'' @ nl)"

definition sqfs_usage :: "'st main_env \<Rightarrow> bytes \<Rightarrow> bool \<Rightarrow> bool \<Rightarrow> (main_state, int) io" where
  "sqfs_usage env progname fuse_usage ll_usage =
     io_bind (complain (me_package_string env @ '' (c) 2012 Dave Vasilevsky'' @ nl @ nl @
       ''Usage: '' @ chars progname @ '' [options] ARCHIVE MOUNTPOINT'' @ nl @
       nl @ chars progname @ '' options:'' @ nl @
       ''    -o offset=N            offset N bytes into ARCHIVE to mount'' @ nl @
       ''    -o subdir=PATH         mount subdirectory PATH of ARCHIVE'' @ nl @
       ''    -o notify_pipe=PATH    named pipe that will receive 's' (success)'' @ nl @
       ''                           or 'f' (failure) when the mountpoint is ready'' @ nl)) (\<lambda>_.
     io_bind (if ll_usage then complain (
         ''    -o timeout=N           idle N seconds for automatic unmount'' @ nl @
         ''    -o uid=N               set file owner to uid N'' @ nl @
         ''    -o gid=N               set file group to gid N'' @ nl) else io_ret ()) (\<lambda>_.
     io_bind (if \<not> fuse_usage then io_ret ()
       else if ll_usage then
         if lc_multithreaded (me_config env) then
           io_bind (complain (nl @ ''FUSE options:'' @ nl)) (\<lambda>_. io_bind (sys env Cmdline_Help) (\<lambda>_. io_ret ()))
         else sqfs_minimal_fuse_usage
       else io_bind sqfs_minimal_fuse_usage (\<lambda>_. complain (
         ''    -o allow_other         allow access by other users'' @ nl @
         ''    -o allow_root          allow access by the superuser'' @ nl))) (\<lambda>_.
     io_ret (- 2))))"

abbreviation (input) S_IFIFO :: u32 where "S_IFIFO \<equiv> 0x1000"
abbreviation (input) NOTIFY_FAILURE :: u8 where "NOTIFY_FAILURE \<equiv> 102"

definition notify_mount_ready :: "'st main_env \<Rightarrow> bytes \<Rightarrow> u8 \<Rightarrow> (main_state, unit) io" where
  "notify_mount_ready env notify_pipe status =
     (let with_errno = (\<lambda>m. complain (m @ '' '' @ [CHR 0x22] @ chars notify_pipe @ [CHR 0x22] @ '' ('' @ show_nat (me_errno env) @ '')'' @ nl)) in
      io_bind (sys env (Stat_Pipe notify_pipe)) (\<lambda>r.
      if r \<noteq> 0 then with_errno ''Cannot stat file''
      else if me_pipe_mode env notify_pipe AND S_IFIFO = 0
      then complain ([CHR 0x22] @ chars notify_pipe @ [CHR 0x22] @ '' is not a pipe'' @ nl)
      else
        io_bind (sys env (Open_Pipe notify_pipe)) (\<lambda>fd.
        if fd < 0 then with_errno ''Open fifo failed'' else
        io_bind (sys env (Write_Pipe notify_pipe status)) (\<lambda>n.
        if n < 0 then with_errno ''Write to fifo failed'' else
        io_bind (sys env (Close_Pipe notify_pipe)) (\<lambda>_. io_ret ())))))"

section \<open>Mounting\<close>

text \<open>\<^verbatim>\<open>sqfs_ll_chan\<close> holds the session, a pointer FUSE returned.\<close>

definition sqfs_ll_mount :: "'st main_env \<Rightarrow> bytes \<Rightarrow> (main_state, unit) io" where
  "sqfs_ll_mount env mountpoint =
     io_bind (sys env Session_New) (\<lambda>session.
     if session = 0 then io_raise SQFS_ERR else
     io_bind (sys env (Session_Mount mountpoint)) (\<lambda>r.
     if r \<noteq> 0 then io_bind (sys env Session_Destroy) (\<lambda>_. io_raise SQFS_ERR)
     else io_ret ()))"

definition sqfs_ll_unmount :: "'st main_env \<Rightarrow> (main_state, unit) io" where
  "sqfs_ll_unmount env = io_bind (sys env Session_Unmount) (\<lambda>_. io_bind (sys env Session_Destroy) (\<lambda>_. io_ret ()))"

definition sqfs_ll_daemonize :: "'st main_env \<Rightarrow> bool \<Rightarrow> (main_state, int) io" where
  "sqfs_ll_daemonize env fg = sys env (Daemonize fg)"

section \<open>Termination by signal\<close>

definition kernel_version_at_least :: "'st main_env \<Rightarrow> u32 \<Rightarrow> u32 \<Rightarrow> u32 \<Rightarrow> bool" where
  "kernel_version_at_least env required_major required_minor required_micro = (case me_kernel env of
     Some (major, minor, micro) \<Rightarrow>
       me_KERNEL_VERSION env required_major required_minor required_micro \<le> me_KERNEL_VERSION env major minor micro
   | None \<Rightarrow> False)"

text \<open>\<^verbatim>\<open>sigterm_handler\<close>. What the child does after \<^verbatim>\<open>fork\<close> is recorded in the same list; a
  successful \<^verbatim>\<open>exec\<close> does not return, which is the value 0 here.\<close>

definition sigterm_handler :: "'st main_env \<Rightarrow> (main_state, unit) io" where
  "sigterm_handler env =
     io_bind (io_gets mn_mount_point) (\<lambda>mp. case mp of
       Some p \<Rightarrow>
         if kernel_version_at_least env 5 2 0 then
           io_bind (sys env Fork) (\<lambda>pid.
           if pid = 0 then
             io_bind (sys env Setsid) (\<lambda>_.
             io_bind (sys env (Exec (map of_char ''/bin/fusermount3'') p)) (\<lambda>r.
             if r = 0 then io_ret () else
             io_bind (sys env (Exec (map of_char ''fusermount3'') p)) (\<lambda>r.
             if r = 0 then io_ret () else
             io_bind (sys env Kill_Parent) (\<lambda>_. io_bind (sys env Child_Exit) (\<lambda>_. io_ret ())))))
           else if 0 < pid then io_ret ()
           else io_bind (sys env Kill_Self) (\<lambda>_. io_ret ()))
         else io_bind (sys env Kill_Self) (\<lambda>_. io_ret ())
     | None \<Rightarrow> io_bind (sys env Kill_Self) (\<lambda>_. io_ret ()))"

definition set_sigterm_handler :: "'st main_env \<Rightarrow> bytes \<Rightarrow> (main_state, unit) io" where
  "set_sigterm_handler env mountpoint =
     io_bind (io_modify (\<lambda>s. s\<lparr>mn_mount_point := Some mountpoint\<rparr>)) (\<lambda>_.
     io_bind (sys env Sigaction_Term) (\<lambda>r.
     if r = - 1 then on_mn_os (perror (me_open env) ''sigaction(SIGTERM)'') else io_ret ()))"

section \<open>The low-level program\<close>

text \<open>Descriptors 0 to 2 are taken before the image is opened. Four rounds are enough, because the system hands
  out a descriptor once.\<close>

fun reserve_fds :: "nat \<Rightarrow> 'st main_env \<Rightarrow> (main_state, unit) io" where
  "reserve_fds 0 env = io_fault Diverges"
| "reserve_fds (Suc fuel) env =
     io_bind (sys env Open_Null) (\<lambda>fd.
     if fd = - 1 then io_ret ()
     else if 2 < fd then io_bind (sys env (Close_Fd fd)) (\<lambda>_. io_ret ())
     else reserve_fds fuel env)"

definition session_start :: "sqfs_ll \<Rightarrow> sqfs_opts \<Rightarrow> ll_session" where
  "session_start ll opts = \<lparr>ls_ll = ll\<lparr>ll_fs := (ll_fs ll)\<lparr>fs_uid := op_uid opts, fs_gid := op_gid opts\<rparr>\<rparr>,
     ls_idle_timeout_secs = 0, ls_last_access = 0, ls_open_refcount = 0, ls_fuse_instance = False, ls_alarm = False,
     ls_sigint = False, ls_notify_pipe = op_notify_pipe opts, ls_notices = [], ls_handles = Map.empty, ls_brk = 0,
     ls_replies = []\<rparr>"

definition ll_serve :: "'st main_env \<Rightarrow> sqfs_opts \<Rightarrow> fuse_cmdline_opts \<Rightarrow> bytes \<Rightarrow> (main_state, int) io" where
  "ll_serve env opts co mountpoint =
     io_bind (if me_sigterm_handler env then set_sigterm_handler env mountpoint else io_ret ()) (\<lambda>_.
     io_bind (if op_idle_timeout_secs opts \<noteq> 0 then
         io_bind (sys env Sigaction_Alarm) (\<lambda>r. io_bind (on_session (setup_idle_timeout (me_config env) (me_now env) (r \<noteq> - 1) (op_idle_timeout_secs opts))) (\<lambda>_.
         if r = - 1 then on_mn_os (perror (me_open env) ''fuse: cannot get old signal handler'') else io_ret ()))
       else io_ret ()) (\<lambda>_.
     io_bind (io_gets mn_calls) (\<lambda>h.
     io_bind (sys env (if lc_multithreaded (me_config env) \<and> \<not> co_singlethread co then Session_Loop_Mt else Session_Loop)) (\<lambda>err.
     io_bind (io_modify (\<lambda>s. s\<lparr>mn_session := me_serve env h (mn_session s)\<rparr>)) (\<lambda>_.
     io_bind (on_session teardown_idle_timeout) (\<lambda>_.
     io_bind (sys env Signals_Remove) (\<lambda>_. io_ret err)))))))"

definition ll_run :: "'st main_env \<Rightarrow> sqfs_opts \<Rightarrow> fuse_cmdline_opts \<Rightarrow> bytes \<Rightarrow> (main_state, int) io" where
  "ll_run env opts co mountpoint =
     io_try (sqfs_ll_mount env mountpoint) (\<lambda>r. case r of Inl _ \<Rightarrow> io_ret (- 1) | Inr _ \<Rightarrow>
     io_bind (sqfs_ll_daemonize env (co_foreground co)) (\<lambda>d.
     io_bind (if d \<noteq> - 1 then
         io_bind (sys env Signals_Set) (\<lambda>sg. if sg \<noteq> - 1 then ll_serve env opts co mountpoint else io_ret (- 1))
       else io_ret (- 1)) (\<lambda>err.
     io_bind (on_session (on_ll sqfs_ll_destroy)) (\<lambda>_.
     io_bind (sqfs_ll_unmount env) (\<lambda>_. io_ret err)))))"

definition opts_zero :: "bytes \<Rightarrow> sqfs_opts" where
  "opts_zero progname = \<lparr>op_progname = progname, op_image = None, op_subdir = None, op_mountpoint = 0, op_offset = 0,
     op_idle_timeout_secs = 0, op_uid = 0, op_gid = 0, op_notify_pipe = None\<rparr>"

text \<open>The part of \<^verbatim>\<open>main\<close> that ends at \<^verbatim>\<open>out\<close>: the options, if they were parsed, and \<^verbatim>\<open>err\<close>.\<close>

definition ll_start :: "'st main_env \<Rightarrow> 'w::len itself \<Rightarrow> bytes \<Rightarrow> bytes list \<Rightarrow> sqfs_opts \<Rightarrow> (main_state, int) io" where
  "ll_start env w progname args opts =
     (case me_parse_cmdline env args of (rc, co) \<Rightarrow>
      if rc \<noteq> 0 then sqfs_usage env progname True True else
      case co_mountpoint co of None \<Rightarrow> sqfs_usage env progname True True
      | Some mountpoint \<Rightarrow>
        io_bind (reserve_fds 4 env) (\<lambda>_.
        case op_image opts of None \<Rightarrow> io_fault Null_Deref | Some img \<Rightarrow>
        io_bind (on_mn_os (sqfs_ll_open_with_subdir (me_open env) w img (op_offset opts) (op_subdir opts))) (\<lambda>ll.
        case ll of None \<Rightarrow> io_ret 1
        | Some ll \<Rightarrow>
          io_bind (io_modify (\<lambda>s. s\<lparr>mn_session := session_start ll opts\<rparr>)) (\<lambda>_. ll_run env opts co mountpoint))))"

definition ll_main :: "'st main_env \<Rightarrow> 'w::len itself \<Rightarrow> bytes list \<Rightarrow> (main_state, int) io" where
  "ll_main env w argv =
     (case me_opt_parse env sqfs_opt_proc argv (opts_zero (argv ! 0)) of (rc, args, opts) \<Rightarrow>
      io_bind (if rc = - 1 then sqfs_usage env (argv ! 0) True True else ll_start env w (argv ! 0) args opts) (\<lambda>err.
      io_bind (if err \<noteq> 0 then (case op_notify_pipe opts of None \<Rightarrow> io_ret () | Some p \<Rightarrow> notify_mount_ready env p NOTIFY_FAILURE)
        else io_ret ()) (\<lambda>_.
      io_ret (- err))))"

section \<open>The high-level program\<close>

text \<open>\<^verbatim>\<open>fuse_main\<close> gets the open image, with the pipe to report to.\<close>

definition hl_main :: "'st main_env \<Rightarrow> bytes list \<Rightarrow> (main_state, int) io" where
  "hl_main env argv =
     (case me_opt_parse env sqfs_opt_proc argv (opts_zero (argv ! 0)) of (rc, args, opts) \<Rightarrow>
      io_bind (if rc = - 1 then sqfs_usage env (argv ! 0) True False else
        case op_image opts of None \<Rightarrow> sqfs_usage env (argv ! 0) True False
        | Some img \<Rightarrow>
          io_bind (on_mn_os (sqfs_hl_open (me_open env) img (op_offset opts) (op_subdir opts))) (\<lambda>hl.
          case hl of None \<Rightarrow> io_ret (- 1)
          | Some hl \<Rightarrow> sys env (Fuse_Main (args @ [map of_char ''-s'']) (op_notify_pipe opts)))) (\<lambda>ret.
      io_bind (if ret \<noteq> 0 then (case op_notify_pipe opts of None \<Rightarrow> io_ret () | Some p \<Rightarrow> notify_mount_ready env p NOTIFY_FAILURE)
        else io_ret ()) (\<lambda>_.
      io_ret ret)))"

section \<open>The protocol of a session\<close>

text \<open>How a session may be used: it is created, mounted, served with signal handlers in place, the handlers are
  removed, it is unmounted and destroyed. Failure is reported when there is no session.\<close>

datatype fuse_state = No_Session | Created | Mounted | Serving | Reported

definition fuse_next :: "'st main_env \<Rightarrow> sys_call list \<Rightarrow> sys_call \<Rightarrow> fuse_state \<Rightarrow> fuse_state option" where
  "fuse_next env h c st = (case c of
     Session_New \<Rightarrow> if st = No_Session then Some (if me_sys env h c = 0 then No_Session else Created) else None
   | Session_Mount p \<Rightarrow> if st = Created then Some (if me_sys env h c = 0 then Mounted else Created) else None
   | Session_Destroy \<Rightarrow> if st = Created then Some No_Session else None
   | Session_Unmount \<Rightarrow> if st = Mounted then Some Created else None
   | Daemonize fg \<Rightarrow> if st = Mounted then Some Mounted else None
   | Signals_Set \<Rightarrow> if st = Mounted then Some (if me_sys env h c = - 1 then Mounted else Serving) else None
   | Signals_Remove \<Rightarrow> if st = Serving then Some Mounted else None
   | Session_Loop \<Rightarrow> if st = Serving then Some Serving else None
   | Session_Loop_Mt \<Rightarrow> if st = Serving then Some Serving else None
   | Stat_Pipe p \<Rightarrow> if st = No_Session then Some Reported else None
   | Open_Pipe p \<Rightarrow> if st = Reported then Some Reported else None
   | Write_Pipe p b \<Rightarrow> if st = Reported then Some Reported else None
   | Close_Pipe p \<Rightarrow> if st = Reported then Some Reported else None
   | _ \<Rightarrow> Some st)"

fun protocol :: "'st main_env \<Rightarrow> sys_call list \<Rightarrow> sys_call list \<Rightarrow> fuse_state \<Rightarrow> fuse_state option" where
  "protocol env h [] st = Some st"
| "protocol env h (c # cs) st = (case fuse_next env h c st of None \<Rightarrow> None | Some st' \<Rightarrow> protocol env (h @ [c]) cs st')"

lemma protocol_append:
  "protocol env h (cs @ ds) st = (case protocol env h cs st of None \<Rightarrow> None | Some st' \<Rightarrow> protocol env (h @ cs) ds st')"
  by (induction env h cs st rule: protocol.induct) (auto split: option.split)

text \<open>\<open>obeys env m st Q\<close>: started in state \<open>st\<close> of the protocol, the calls of \<open>m\<close> are allowed, and lead to
  a state that \<open>Q\<close> relates to the result.\<close>

definition obeys :: "'st main_env \<Rightarrow> (main_state, 'a) io \<Rightarrow> fuse_state \<Rightarrow> (sqfs_err + 'a \<Rightarrow> fuse_state \<Rightarrow> bool) \<Rightarrow> bool" where
  "obeys env m st Q \<longleftrightarrow> (\<forall>s r s'. m s = (r, s') \<longrightarrow> (\<forall>u. r \<noteq> Fault u) \<longrightarrow>
     (\<exists>cs st'. mn_calls s' = mn_calls s @ cs \<and> protocol env (mn_calls s) cs st = Some st' \<and>
        Q (case r of Ok x \<Rightarrow> Inr x | Err e \<Rightarrow> Inl e) st'))"

lemma obeysD:
  assumes "obeys env m st Q" and "m s = (r, s')" and "\<forall>u. r \<noteq> Fault u"
  obtains cs st' where "mn_calls s' = mn_calls s @ cs" "protocol env (mn_calls s) cs st = Some st'"
    "Q (case r of Ok x \<Rightarrow> Inr x | Err e \<Rightarrow> Inl e) st'"
  using assms unfolding obeys_def by blast

lemma obeys_try:
  assumes m: "obeys env m st R" and k: "\<And>x st'. R x st' \<Longrightarrow> obeys env (k x) st' Q"
  shows "obeys env (io_try m k) st Q"
  unfolding obeys_def
proof (intro allI impI)
  fix s r s' assume run: "io_try m k s = (r, s')" and ok: "\<forall>u. r \<noteq> Fault u"
  obtain r1 s1 where 1: "m s = (r1, s1)" by fastforce
  have f1: "\<forall>u. r1 \<noteq> Fault u" using run ok 1 by (auto simp: io_simps)
  let ?x = "case r1 of Ok x \<Rightarrow> Inr x | Err e \<Rightarrow> Inl e"
  from m 1 f1 obtain cs st1 where c: "mn_calls s1 = mn_calls s @ cs" "protocol env (mn_calls s) cs st = Some st1" "R ?x st1"
    by (rule obeysD)
  have "k ?x s1 = (r, s')" using run 1 f1 by (cases r1) (simp_all add: io_simps)
  from obeysD [OF k [OF c(3)] this ok] obtain ds st' where
    d: "mn_calls s' = mn_calls s1 @ ds" "protocol env (mn_calls s1) ds st1 = Some st'" "Q (case r of Ok x \<Rightarrow> Inr x | Err e \<Rightarrow> Inl e) st'"
    by blast
  show "\<exists>cs st'. mn_calls s' = mn_calls s @ cs \<and> protocol env (mn_calls s) cs st = Some st' \<and> Q (case r of Ok x \<Rightarrow> Inr x | Err e \<Rightarrow> Inl e) st'"
    using c d by (intro exI [of _ "cs @ ds"] exI [of _ st']) (simp add: protocol_append)
qed

lemma bind_try: "io_bind m k = io_try m (\<lambda>r. case r of Inl e \<Rightarrow> io_raise e | Inr x \<Rightarrow> k x)"
  by (rule ext) (simp add: io_simps split: prod.split res.split)

lemma obeys_quiet:
  assumes "\<And>s. mn_calls (snd (m s)) = mn_calls s" and "\<And>x. Q x st"
  shows "obeys env m st Q"
  unfolding obeys_def using assms by (metis append_Nil2 protocol.simps(1) snd_conv)

lemma obeys_ret: "Q (Inr x) st \<Longrightarrow> obeys env (io_ret x) st Q"
  by (auto simp: obeys_def io_simps)

lemma obeys_raise: "Q (Inl e) st \<Longrightarrow> obeys env (io_raise e) st Q"
  by (auto simp: obeys_def io_simps)

lemma obeys_fault: "obeys env (io_fault u) st Q"
  by (simp add: obeys_def io_simps)

lemma obeys_bind:
  assumes "obeys env m st R" and "\<And>x st'. R (Inr x) st' \<Longrightarrow> obeys env (k x) st' Q" and "\<And>e st'. R (Inl e) st' \<Longrightarrow> Q (Inl e) st'"
  shows "obeys env (io_bind m k) st Q"
  unfolding bind_try by (rule obeys_try [OF assms(1)]) (auto intro: obeys_raise assms split: sum.split)

lemma obeys_sys:
  assumes "\<And>h. \<exists>st'. fuse_next env h c st = Some st' \<and> Q (Inr (me_sys env h c)) st'"
  shows "obeys env (sys env c) st Q"
  unfolding obeys_def
proof (intro allI impI)
  fix s r s' assume "sys env c s = (r, s')"
  then have r: "r = Ok (me_sys env (mn_calls s) c)" "mn_calls s' = mn_calls s @ [c]" by (auto simp: sys_def io_simps)
  obtain st' where "fuse_next env (mn_calls s) c st = Some st'" "Q (Inr (me_sys env (mn_calls s) c)) st'" using assms by blast
  then show "\<exists>cs st'. mn_calls s' = mn_calls s @ cs \<and> protocol env (mn_calls s) cs st = Some st' \<and>
      Q (case r of Ok x \<Rightarrow> Inr x | Err e \<Rightarrow> Inl e) st'"
    using r by (intro exI [of _ "[c]"] exI [of _ st']) simp
qed

text \<open>A call followed by the rest of the program, and steps that make no calls.\<close>

lemma obeys_call:
  assumes "\<And>h. \<exists>st'. fuse_next env h c st = Some st' \<and> obeys env (k (me_sys env h c)) st' Q"
  shows "obeys env (io_bind (sys env c) k) st Q"
proof (rule obeys_bind)
  show "obeys env (sys env c) st (\<lambda>x st'. \<exists>h. x = Inr (me_sys env h c) \<and> fuse_next env h c st = Some st')"
    using assms by (intro obeys_sys) blast
next
  fix x st' assume "\<exists>h. (Inr x :: sqfs_err + int) = Inr (me_sys env h c) \<and> fuse_next env h c st = Some st'"
  then obtain h where "x = me_sys env h c" "fuse_next env h c st = Some st'" by blast
  with assms [of h] show "obeys env (k x) st' Q" by auto
qed simp

definition no_calls :: "(main_state, 'a) io \<Rightarrow> bool" where
  "no_calls m \<longleftrightarrow> (\<forall>s. mn_calls (snd (m s)) = mn_calls s)"

lemma no_calls_rules [simp]:
  "no_calls (on_mn_os m1)" "no_calls (on_session m2)" "no_calls (complain t)" "no_calls (io_ret x)"
  "no_calls (io_modify (\<lambda>s. s\<lparr>mn_session := f s\<rparr>))" "no_calls (io_modify (\<lambda>s. s\<lparr>mn_mount_point := g s\<rparr>))"
  "no_calls (io_gets z)"
  by (simp_all add: no_calls_def on_mn_os_def on_session_def complain_def io_simps split: prod.split)

definition on_ok :: "('a \<Rightarrow> fuse_state \<Rightarrow> bool) \<Rightarrow> sqfs_err + 'a \<Rightarrow> fuse_state \<Rightarrow> bool" where
  "on_ok P x st \<longleftrightarrow> (case x of Inl e \<Rightarrow> True | Inr r \<Rightarrow> P r st)"

lemma on_ok_simps [simp]: "on_ok P (Inl e) st" "on_ok P (Inr r) st \<longleftrightarrow> P r st"
  by (simp_all add: on_ok_def)

lemma obeys_pass:
  assumes "no_calls m" and "\<And>x. obeys env (k x) st (on_ok P)"
  shows "obeys env (io_bind m k) st (on_ok P)"
proof (rule obeys_bind)
  show "obeys env m st (\<lambda>x st'. st' = st)" using assms(1) by (intro obeys_quiet) (simp_all add: no_calls_def)
qed (use assms(2) in auto)

lemma obeys_step:
  assumes "obeys env m st (on_ok R)" and "\<And>x st'. R x st' \<Longrightarrow> obeys env (k x) st' (on_ok P)"
  shows "obeys env (io_bind m k) st (on_ok P)"
  using assms(1) by (rule obeys_bind) (use assms(2) in auto)

lemma obeys_done: "P x st \<Longrightarrow> obeys env (io_ret x) st (on_ok P)"
  by (rule obeys_ret) simp

lemma obeys_weaken: "obeys env m st Q \<Longrightarrow> (\<And>x st'. Q x st' \<Longrightarrow> R x st') \<Longrightarrow> obeys env m st R"
  unfolding obeys_def by blast

lemma obeys_still: "no_calls m \<Longrightarrow> (\<And>x. P x st) \<Longrightarrow> obeys env m st (on_ok P)"
  by (rule obeys_quiet) (auto simp: no_calls_def on_ok_def split: sum.split)

lemmas obeys_rules = obeys_done obeys_fault obeys_call obeys_pass [OF no_calls_rules(1)] obeys_pass [OF no_calls_rules(2)]
  obeys_pass [OF no_calls_rules(3)] obeys_pass [OF no_calls_rules(4)] obeys_pass [OF no_calls_rules(5)] obeys_pass [OF no_calls_rules(6)] obeys_pass [OF no_calls_rules(7)]
  obeys_still [OF no_calls_rules(1)] obeys_still [OF no_calls_rules(3)]

section \<open>The programs keep to it\<close>

lemma usage_obeys: "obeys env (sqfs_usage env pn fu lu) st (on_ok (\<lambda>r st'. r = - 2 \<and> st' = st))"
  unfolding sqfs_usage_def sqfs_minimal_fuse_usage_def
  by (auto simp: io_bind_assoc fuse_next_def intro!: obeys_rules)

lemma notify_obeys: "obeys env (notify_mount_ready env p b) No_Session (on_ok (\<lambda>_ st. st = Reported))"
  unfolding notify_mount_ready_def Let_def
  by (auto simp: fuse_next_def intro!: obeys_rules)

lemma mount_obeys:
  "obeys env (sqfs_ll_mount env mp) No_Session (\<lambda>x st. st = (case x of Inl e \<Rightarrow> No_Session | Inr _ \<Rightarrow> Mounted))"
  unfolding sqfs_ll_mount_def by (auto simp: fuse_next_def intro!: obeys_call obeys_raise obeys_ret)

lemma unmount_obeys: "obeys env (sqfs_ll_unmount env) Mounted (on_ok (\<lambda>_ st. st = No_Session))"
  unfolding sqfs_ll_unmount_def by (auto simp: fuse_next_def intro!: obeys_call obeys_done)

lemma reserve_obeys: "obeys env (reserve_fds n env) st (on_ok (\<lambda>_ st'. st' = st))"
  by (induction n) (auto simp: fuse_next_def intro!: obeys_call obeys_done obeys_fault)

lemma serve_obeys: "obeys env (ll_serve env opts co mp) Serving (on_ok (\<lambda>_ st. st = Mounted))"
proof -
  have 1: "obeys env (if me_sigterm_handler env then set_sigterm_handler env mp else io_ret ()) Serving (on_ok (\<lambda>_ st. st = Serving))"
    by (auto simp: set_sigterm_handler_def fuse_next_def intro!: obeys_rules)
  have 2: "obeys env (if op_idle_timeout_secs opts \<noteq> 0 then
         io_bind (sys env Sigaction_Alarm) (\<lambda>r. io_bind (on_session (setup_idle_timeout (me_config env) (me_now env) (r \<noteq> - 1) (op_idle_timeout_secs opts))) (\<lambda>_.
         if r = - 1 then on_mn_os (perror (me_open env) ''fuse: cannot get old signal handler'') else io_ret ()))
       else io_ret ()) Serving (on_ok (\<lambda>_ st. st = Serving))"
    by (auto simp: fuse_next_def intro!: obeys_rules)
  show ?thesis unfolding ll_serve_def
    by (rule obeys_step [OF 1], simp only:, rule obeys_step [OF 2], simp only:)
      (auto simp: fuse_next_def intro!: obeys_rules)
qed

lemma run_obeys: "obeys env (ll_run env opts co mp) No_Session (on_ok (\<lambda>_ st. st = No_Session))"
proof -
  have inner: "obeys env (if d \<noteq> - 1 then io_bind (sys env Signals_Set) (\<lambda>sg. if sg \<noteq> - 1 then ll_serve env opts co mp else io_ret (- 1))
      else io_ret (- 1)) Mounted (on_ok (\<lambda>_ st. st = Mounted))" for d
    by (auto simp: fuse_next_def intro!: obeys_call obeys_done serve_obeys)
  have rest: "obeys env (io_bind (sqfs_ll_daemonize env (co_foreground co)) (\<lambda>d.
     io_bind (if d \<noteq> - 1 then
         io_bind (sys env Signals_Set) (\<lambda>sg. if sg \<noteq> - 1 then ll_serve env opts co mp else io_ret (- 1))
       else io_ret (- 1)) (\<lambda>err.
     io_bind (on_session (on_ll sqfs_ll_destroy)) (\<lambda>_.
     io_bind (sqfs_ll_unmount env) (\<lambda>_. io_ret err))))) Mounted (on_ok (\<lambda>_ st. st = No_Session))"
    unfolding sqfs_ll_daemonize_def
    by (intro obeys_call exI conjI, simp add: fuse_next_def, intro obeys_step [OF inner])
      (auto intro!: obeys_rules obeys_step [OF unmount_obeys])
  show ?thesis unfolding ll_run_def
    by (rule obeys_try [OF mount_obeys]) (auto intro!: obeys_done rest split: sum.split)
qed

lemma start_obeys: "obeys env (ll_start env w pn args opts) No_Session (on_ok (\<lambda>_ st. st = No_Session))"
proof -
  have us: "obeys env (sqfs_usage env pn True True) No_Session (on_ok (\<lambda>_ st. st = No_Session))"
    by (rule obeys_weaken [OF usage_obeys]) (auto simp: on_ok_def split: sum.splits)
  show ?thesis unfolding ll_start_def
    by (auto intro!: us obeys_step [OF reserve_obeys] obeys_rules run_obeys split: prod.split option.split)
qed

lemma report_obeys:
  "obeys env (if err \<noteq> 0 then (case op_notify_pipe opts of None \<Rightarrow> io_ret () | Some p \<Rightarrow> notify_mount_ready env p NOTIFY_FAILURE)
      else io_ret ()) No_Session (on_ok (\<lambda>_ st. st = (if err \<noteq> 0 \<and> op_notify_pipe opts \<noteq> None then Reported else No_Session)))"
  by (cases "op_notify_pipe opts") (auto intro!: obeys_done notify_obeys)

lemma main_obeys:
  assumes "me_opt_parse env sqfs_opt_proc argv (opts_zero (argv ! 0)) = (rc, args, opts)"
  shows "obeys env (ll_main env w argv) No_Session
    (on_ok (\<lambda>code st. st = (if code \<noteq> 0 \<and> op_notify_pipe opts \<noteq> None then Reported else No_Session)))"
proof -
  have us: "obeys env (sqfs_usage env pn True True) No_Session (on_ok (\<lambda>_ st. st = No_Session))" for pn
    by (rule obeys_weaken [OF usage_obeys]) (auto simp: on_ok_def split: sum.splits)
  have 1: "obeys env (if rc = - 1 then sqfs_usage env (argv ! 0) True True else ll_start env w (argv ! 0) args opts) No_Session
      (on_ok (\<lambda>_ st. st = No_Session))" by (simp add: us start_obeys)
  show ?thesis unfolding ll_main_def assms prod.case
    by (rule obeys_step [OF 1], simp only:, rule obeys_step [OF report_obeys]) (auto intro!: obeys_done)
qed

lemma hl_main_obeys:
  assumes "me_opt_parse env sqfs_opt_proc argv (opts_zero (argv ! 0)) = (rc, args, opts)"
  shows "obeys env (hl_main env argv) No_Session
    (on_ok (\<lambda>code st. st = (if code \<noteq> 0 \<and> op_notify_pipe opts \<noteq> None then Reported else No_Session)))"
proof -
  have us: "obeys env (sqfs_usage env pn True False) No_Session (on_ok (\<lambda>_ st. st = No_Session))" for pn
    by (rule obeys_weaken [OF usage_obeys]) (auto simp: on_ok_def split: sum.splits)
  have 1: "obeys env (if rc = - 1 then sqfs_usage env (argv ! 0) True False else
      case op_image opts of None \<Rightarrow> sqfs_usage env (argv ! 0) True False
      | Some img \<Rightarrow> io_bind (on_mn_os (sqfs_hl_open (me_open env) img (op_offset opts) (op_subdir opts))) (\<lambda>hl.
          case hl of None \<Rightarrow> io_ret (- 1)
          | Some hl \<Rightarrow> sys env (Fuse_Main (args @ [map of_char ''-s'']) (op_notify_pipe opts)))) No_Session
      (on_ok (\<lambda>_ st. st = No_Session))"
    by (auto simp: fuse_next_def intro!: us obeys_rules obeys_sys split: option.split)
  show ?thesis unfolding hl_main_def assms prod.case
    by (rule obeys_step [OF 1], simp only:, rule obeys_step [OF report_obeys]) (auto intro!: obeys_done)
qed

section \<open>Descriptors and signals\<close>

text \<open>A system whose descriptors are not handed out twice while they are open.\<close>

definition fresh_fds :: "'st main_env \<Rightarrow> bool" where
  "fresh_fds env \<longleftrightarrow> (\<forall>h. - 1 \<le> me_sys env h Open_Null) \<and>
     (\<forall>h k. 0 < k \<longrightarrow> me_sys env h Open_Null \<noteq> - 1 \<longrightarrow> me_sys env (h @ replicate k Open_Null) Open_Null \<noteq> me_sys env h Open_Null)"

lemma four_fds:
  fixes a b c d :: int
  assumes "a \<noteq> - 1 \<longrightarrow> b \<noteq> a \<and> c \<noteq> a \<and> d \<noteq> a" and "b \<noteq> - 1 \<longrightarrow> c \<noteq> b \<and> d \<noteq> b" and "c \<noteq> - 1 \<longrightarrow> d \<noteq> c"
    and "- 1 \<le> a" and "- 1 \<le> b" and "- 1 \<le> c" and "- 1 \<le> d"
  shows "a = - 1 \<or> 2 < a \<or> b = - 1 \<or> 2 < b \<or> c = - 1 \<or> 2 < c \<or> d = - 1 \<or> 2 < d"
  using assms by presburger

lemma reserve_fds_ends:
  assumes "fresh_fds env"
  shows "\<exists>s'. reserve_fds 4 env s = (Ok (), s')"
proof -
  let ?h = "mn_calls s" and ?o = Open_Null
  let ?a = "me_sys env ?h ?o" and ?b = "me_sys env (?h @ [?o]) ?o" and ?c = "me_sys env (?h @ [?o, ?o]) ?o"
    and ?d = "me_sys env (?h @ [?o, ?o, ?o]) ?o"
  have lo: "\<And>h. - 1 \<le> me_sys env h ?o" using assms by (simp add: fresh_fds_def)
  have new: "\<And>h k. 0 < k \<Longrightarrow> me_sys env h ?o \<noteq> - 1 \<Longrightarrow> me_sys env (h @ replicate k ?o) ?o \<noteq> me_sys env h ?o"
    using assms by (simp add: fresh_fds_def)
  have "?a \<noteq> - 1 \<longrightarrow> ?b \<noteq> ?a \<and> ?c \<noteq> ?a \<and> ?d \<noteq> ?a" using new [of 1 ?h] new [of 2 ?h] new [of 3 ?h] by (simp add: numeral_eq_Suc)
  moreover have "?b \<noteq> - 1 \<longrightarrow> ?c \<noteq> ?b \<and> ?d \<noteq> ?b" using new [of 1 "?h @ [?o]"] new [of 2 "?h @ [?o]"] by (simp add: numeral_eq_Suc)
  moreover have "?c \<noteq> - 1 \<longrightarrow> ?d \<noteq> ?c" using new [of 1 "?h @ [?o, ?o]"] by simp
  ultimately have "?a = - 1 \<or> 2 < ?a \<or> ?b = - 1 \<or> 2 < ?b \<or> ?c = - 1 \<or> 2 < ?c \<or> ?d = - 1 \<or> 2 < ?d"
    using lo by (intro four_fds)
  then show ?thesis by (auto simp: numeral_eq_Suc sys_def io_simps)
qed

text \<open>The handler for SIGTERM starts a lazy unmount, or has the process killed; there is no path on which it does
  neither, apart from the parent's, which leaves it to the child.\<close>

lemma sigterm_acts:
  "\<exists>cs s'. sigterm_handler env s = (Ok (), s') \<and> mn_calls s' = mn_calls s @ cs \<and> cs \<noteq> [] \<and>
    (last cs = Kill_Self \<or> last cs = Child_Exit \<and> Kill_Parent \<in> set cs \<or> (\<exists>prog p. last cs = Exec prog p) \<or> cs = [Fork])"
  by (auto simp: sigterm_handler_def sys_def io_simps split: option.split)

end
