(* ===== verification/Sqfs_Huff.thy ===== *)
theory Sqfs_Huff
  imports Sqfs_Prelude
begin

text \<open>
  The Huffman tables of the inflate routine of the Windows build, \<^verbatim>\<open>win/tinfl.c\<close>: the part of
  \<^verbatim>\<open>tinfl_decompress\<close> that turns a list of code lengths into a table of 1024 direct entries and
  a tree for the longer codes, and the walk in that tree. Stretches of the coroutine end with a
  value, leave it with a status (\<^verbatim>\<open>TINFL_CR_RETURN\<close>) or fault.

  The lemmas show that, for every list of at most 288 lengths the routine accepts, the construction stays
  inside its arrays and the tables decode exactly the canonical prefix code of RFC 1951.
\<close>

section \<open>Leaving the coroutine\<close>

datatype tinfl_status =
    TINFL_STATUS_BAD_PARAM | TINFL_STATUS_ADLER32_MISMATCH | TINFL_STATUS_FAILED
  | TINFL_STATUS_DONE | TINFL_STATUS_NEEDS_MORE_INPUT | TINFL_STATUS_HAS_MORE_OUTPUT

text \<open>\<open>Exit i st\<close> is \<^verbatim>\<open>TINFL_CR_RETURN(i, st)\<close>: the label the coroutine would resume at and the
  status it returns.\<close>

datatype 'a cr = Go 'a | Exit nat tinfl_status | Crash fault

fun cr_bind :: "'a cr \<Rightarrow> ('a \<Rightarrow> 'b cr) \<Rightarrow> 'b cr" where
  "cr_bind (Go a) f = f a"
| "cr_bind (Exit i st) f = Exit i st"
| "cr_bind (Crash u) f = Crash u"

lemma cr_bind_eq_Go: "cr_bind m f = Go b \<longleftrightarrow> (\<exists>a. m = Go a \<and> f a = Go b)"
  by (cases m) auto

section \<open>Building a table\<close>

record tinfl_huff_table =
  m_look_up :: "int list"
  m_tree :: "int list"

abbreviation (input) TINFL_MAX_HUFF_SYMBOLS_0 :: nat where "TINFL_MAX_HUFF_SYMBOLS_0 \<equiv> 288"
abbreviation (input) TINFL_FAST_LOOKUP_BITS :: nat where "TINFL_FAST_LOOKUP_BITS \<equiv> 10"
abbreviation (input) TINFL_FAST_LOOKUP_SIZE :: nat where "TINFL_FAST_LOOKUP_SIZE \<equiv> 1024"

definition tinfl_total_syms :: "nat list \<Rightarrow> nat list" where
  "tinfl_total_syms code_size = foldl (\<lambda>t c. t[c := t ! c + 1]) (replicate 16 0) code_size"

text \<open>The number of used symbols, the end of the codes of 15 bits (\<^verbatim>\<open>total\<close>) and the first code of
  every length.\<close>

definition tinfl_next_codes :: "nat list \<Rightarrow> nat \<times> nat \<times> nat list" where
  "tinfl_next_codes total_syms =
     foldl (\<lambda>(used_syms, tot, next_code) i.
         let tot' = push_bit 1 (tot + total_syms ! i)
         in (used_syms + total_syms ! i, tot', next_code[i + 1 := tot']))
       (0, 0, replicate 17 0) [1..<16]"

fun tinfl_rev_code :: "nat \<Rightarrow> nat \<Rightarrow> nat \<Rightarrow> nat" where
  "tinfl_rev_code 0 cur_code rev_code = rev_code"
| "tinfl_rev_code (Suc l) cur_code rev_code =
     tinfl_rev_code l (drop_bit 1 cur_code) (push_bit 1 rev_code OR (cur_code AND 1))"

function tinfl_fill_fast :: "nat \<Rightarrow> int \<Rightarrow> nat \<Rightarrow> int list \<Rightarrow> int list" where
  "tinfl_fill_fast code_size k rev_code look_up =
     (if rev_code < TINFL_FAST_LOOKUP_SIZE
      then tinfl_fill_fast code_size k (rev_code + 2 ^ code_size) (look_up[rev_code := k])
      else look_up)"
  by pat_completeness auto
termination
  by (relation "measure (\<lambda>(c, k, r, l). 1024 - r)") (auto intro!: diff_less_mono2)

declare tinfl_fill_fast.simps [simp del]

text \<open>An element of \<^verbatim>\<open>m_tree\<close>, the index computed as in the source from a negative node number.\<close>

definition tree_slot :: "int list \<Rightarrow> int \<Rightarrow> nat cr" where
  "tree_slot tree i = (if 0 \<le> i \<and> nat i < length tree then Go (nat i) else Crash Out_Of_Bounds)"

text \<open>The loop over \<open>j\<close>: one bit of the code per turn, down the tree, adding the nodes that are
  missing.\<close>

fun tinfl_descend :: "nat \<Rightarrow> nat \<Rightarrow> int \<Rightarrow> int list \<Rightarrow> int \<Rightarrow> (nat \<times> int \<times> int list \<times> int) cr" where
  "tinfl_descend 0 rev_code tree_cur tree tree_next = Go (rev_code, tree_cur, tree, tree_next)"
| "tinfl_descend (Suc j) rev_code tree_cur tree tree_next =
     (let rev_code = drop_bit 1 rev_code;
          tree_cur = tree_cur - int (rev_code AND 1)
      in cr_bind (tree_slot tree (- tree_cur - 1)) (\<lambda>i.
      if tree ! i = 0
      then tinfl_descend j rev_code tree_next (tree[i := tree_next]) (tree_next - 2)
      else tinfl_descend j rev_code (tree ! i) tree tree_next))"

definition tinfl_insert_long ::
  "nat \<Rightarrow> nat \<Rightarrow> nat \<Rightarrow> int list \<Rightarrow> int list \<Rightarrow> int \<Rightarrow> (int list \<times> int list \<times> int) cr" where
  "tinfl_insert_long code_size sym_index rev_code look_up tree tree_next =
     (let i = rev_code AND (TINFL_FAST_LOOKUP_SIZE - 1);
          (look_up, tree_cur, tree_next) =
            (if look_up ! i = 0 then (look_up[i := tree_next], tree_next, tree_next - 2)
             else (look_up, look_up ! i, tree_next));
          rev_code = drop_bit (TINFL_FAST_LOOKUP_BITS - 1) rev_code
      in cr_bind (tinfl_descend (code_size - (TINFL_FAST_LOOKUP_BITS + 1)) rev_code tree_cur tree tree_next)
         (\<lambda>(rev_code, tree_cur, tree, tree_next).
      let rev_code = drop_bit 1 rev_code;
          tree_cur = tree_cur - int (rev_code AND 1)
      in cr_bind (tree_slot tree (- tree_cur - 1)) (\<lambda>i.
      Go (look_up, tree[i := int sym_index], tree_next))))"

text \<open>The loop over \<^verbatim>\<open>sym_index\<close>; the list holds the code sizes of the symbols that are left.\<close>

fun tinfl_insert_syms ::
  "nat list \<Rightarrow> nat \<Rightarrow> nat list \<Rightarrow> int list \<Rightarrow> int list \<Rightarrow> int \<Rightarrow> (int list \<times> int list) cr" where
  "tinfl_insert_syms [] sym_index next_code look_up tree tree_next = Go (look_up, tree)"
| "tinfl_insert_syms (code_size # sizes) sym_index next_code look_up tree tree_next =
     (if code_size = 0 then tinfl_insert_syms sizes (sym_index + 1) next_code look_up tree tree_next else
      let cur_code = next_code ! code_size;
          next_code = next_code[code_size := cur_code + 1];
          rev_code = tinfl_rev_code code_size cur_code 0
      in if code_size \<le> TINFL_FAST_LOOKUP_BITS
      then tinfl_insert_syms sizes (sym_index + 1) next_code
             (tinfl_fill_fast code_size (int (push_bit 9 code_size OR sym_index)) rev_code look_up)
             tree tree_next
      else cr_bind (tinfl_insert_long code_size sym_index rev_code look_up tree tree_next)
             (\<lambda>(look_up, tree, tree_next).
               tinfl_insert_syms sizes (sym_index + 1) next_code look_up tree tree_next))"

definition tinfl_build_table :: "nat list \<Rightarrow> tinfl_huff_table cr" where
  "tinfl_build_table code_size =
     (if \<exists>c \<in> set code_size. 16 \<le> c then Crash Out_Of_Bounds else
      case tinfl_next_codes (tinfl_total_syms code_size) of (used_syms, tot, next_code) \<Rightarrow>
      if tot \<noteq> 65536 \<and> 1 < used_syms then Exit 35 TINFL_STATUS_FAILED else
      cr_bind (tinfl_insert_syms code_size 0 next_code
          (replicate TINFL_FAST_LOOKUP_SIZE 0) (replicate (TINFL_MAX_HUFF_SYMBOLS_0 * 2) 0) (- 1))
        (\<lambda>(look_up, tree). Go \<lparr>m_look_up = look_up, m_tree = tree\<rparr>))"

section \<open>Using a table\<close>

text \<open>The loop \<^verbatim>\<open>temp = m_tree[~temp + ((bit_buf >> code_len++) & 1)]\<close>, for as long as the node is
  an inner one and \<open>again\<close> allows; every turn enters another node, so that a tree of 576
  elements ends it.\<close>

fun tinfl_tree_walk :: "nat \<Rightarrow> int list \<Rightarrow> (nat \<Rightarrow> bool) \<Rightarrow> nat \<Rightarrow> int \<Rightarrow> nat \<Rightarrow> (int \<times> nat) cr" where
  "tinfl_tree_walk 0 tree again bit_buf temp code_len = Crash Diverges"
| "tinfl_tree_walk (Suc n) tree again bit_buf temp code_len =
     cr_bind (tree_slot tree (- temp - 1 + int (drop_bit code_len bit_buf AND 1))) (\<lambda>i.
     if tree ! i < 0 \<and> again (code_len + 1) then tinfl_tree_walk n tree again bit_buf (tree ! i) (code_len + 1)
     else Go (tree ! i, code_len + 1))"

text \<open>What both decoding macros do with the bits of the buffer: the entry found and the length of
  the code. An entry of the direct table holds the length in its upper bits; \<^verbatim>\<open>TINFL_HUFF_DECODE\<close>
  clears them (\<open>low\<close>), the fast loop does not.\<close>

definition tinfl_lookup :: "(int \<Rightarrow> int) \<Rightarrow> tinfl_huff_table \<Rightarrow> nat \<Rightarrow> (int \<times> nat) cr" where
  "tinfl_lookup low t bit_buf =
     (let temp = m_look_up t ! (bit_buf AND (TINFL_FAST_LOOKUP_SIZE - 1))
      in if 0 \<le> temp then Go (low temp, nat (drop_bit 9 temp))
      else tinfl_tree_walk (length (m_tree t)) (m_tree t) (\<lambda>_. True) bit_buf temp TINFL_FAST_LOOKUP_BITS)"

section \<open>Numbers and their bits\<close>

definition bits_of :: "nat \<Rightarrow> nat \<Rightarrow> bool list" where
  "bits_of n w = map (bit w) [0..<n]"

lemma length_bits_of [simp]: "length (bits_of n w) = n"
  by (simp add: bits_of_def)

lemma nth_bits_of [simp]: "i < n \<Longrightarrow> bits_of n w ! i = bit w i"
  by (simp add: bits_of_def)

lemma bits_of_0 [simp]: "bits_of 0 w = []"
  by (simp add: bits_of_def)

lemma bits_of_eq_iff: "bits_of n v = bits_of n w \<longleftrightarrow> take_bit n v = take_bit n w"
  by (auto simp: list_eq_iff_nth_eq bit_eq_iff bit_take_bit_iff)

lemma take_bits_of [simp]: "take m (bits_of n w) = bits_of (min m n) w"
  by (rule nth_equalityI) auto

lemma drop_bits_of [simp]: "drop m (bits_of n w) = bits_of (n - m) (drop_bit m w)"
  by (rule nth_equalityI) (auto simp: bit_drop_bit_eq)

lemma bits_of_take_bit [simp]: "n \<le> m \<Longrightarrow> bits_of n (take_bit m w) = bits_of n w"
  by (rule nth_equalityI) (auto simp: bit_take_bit_iff)

lemma bits_of_append: "bits_of n w @ bits_of m (drop_bit n w) = bits_of (n + m) w"
  by (rule nth_equalityI) (auto simp: nth_append bit_drop_bit_eq)

lemma bits_of_Suc: "bits_of (Suc n) w = bits_of n w @ [bit w n]"
  by (simp add: bits_of_def)

lemma rev_code_bit:
  "bit (tinfl_rev_code l c r) i \<longleftrightarrow> (if i < l then bit c (l - 1 - i) else bit r (i - l))"
proof (induction l arbitrary: c r)
  case 0
  then show ?case by simp
next
  case (Suc l)
  have "bit (push_bit 1 r OR (c AND 1)) (i - l) \<longleftrightarrow> (if i = l then bit c 0 else bit r (i - Suc l))"
    if "l \<le> i"
    using that unfolding bit_or_iff bit_and_iff bit_push_bit_iff bit_1_iff
    by (auto simp: Suc_diff_le)
  with Suc.IH [of "drop_bit 1 c" "push_bit 1 r OR (c AND 1)"] show ?case
    by (auto simp: bit_drop_bit_eq Suc_diff_Suc)
qed

section \<open>The canonical code of RFC 1951\<close>

fun huff_first :: "nat list \<Rightarrow> nat \<Rightarrow> nat" where
  "huff_first sizes 0 = 0"
| "huff_first sizes (Suc l) = 2 * (huff_first sizes l + (if l = 0 then 0 else count_list sizes l))"

definition huff_code :: "nat list \<Rightarrow> nat \<Rightarrow> nat" where
  "huff_code sizes s = huff_first sizes (sizes ! s) + count_list (take s sizes) (sizes ! s)"

text \<open>The bits of a code in the order of the stream: the most significant first.\<close>

definition huff_path :: "nat list \<Rightarrow> nat \<Rightarrow> bool list" where
  "huff_path sizes s = rev (bits_of (sizes ! s) (huff_code sizes s))"

definition huff_used :: "nat list \<Rightarrow> nat \<Rightarrow> bool" where
  "huff_used sizes s \<longleftrightarrow> s < length sizes \<and> sizes ! s \<noteq> 0"

text \<open>The lists of lengths the routine accepts: a complete code, or at most one symbol.\<close>

definition huff_ok :: "nat list \<Rightarrow> bool" where
  "huff_ok sizes \<longleftrightarrow> length sizes \<le> 288 \<and> (\<forall>c \<in> set sizes. c < 16) \<and>
     (huff_first sizes 16 = 65536 \<or> length (filter (\<lambda>c. c \<noteq> 0) sizes) \<le> 1)"

lemma length_huff_path [simp]: "length (huff_path sizes s) = sizes ! s"
  by (simp add: huff_path_def)

lemma huff_okD:
  assumes "huff_ok sizes" and "huff_used sizes s"
  shows "sizes ! s \<le> 15" and "0 < sizes ! s" and "s < 288"
  using assms unfolding huff_ok_def huff_used_def by (force simp: less_Suc_eq_le [symmetric])+

lemma count_list_take_less:
  assumes "s < length xs"
  shows "count_list (take s xs) (xs ! s) < count_list xs (xs ! s)"
  using arg_cong [OF id_take_nth_drop [OF assms], of "\<lambda>ys. count_list ys (xs ! s)"] by simp

lemma count_list_take_mono: "s \<le> s' \<Longrightarrow> count_list (take s xs) c \<le> count_list (take s' xs) c"
  using take_add [of s "s' - s" xs] by simp

lemma count_list_take_eq:
  assumes "s < length xs" and "s' < length xs" and "xs ! s = xs ! s'"
    and "count_list (take s xs) (xs ! s) = count_list (take s' xs) (xs ! s')"
  shows "s = s'"
proof -
  have *: False if "a < b" "b < length xs" "xs ! a = xs ! b"
      "count_list (take a xs) (xs ! a) = count_list (take b xs) (xs ! b)" for a b
  proof -
    have "count_list (take (Suc a) xs) (xs ! a) = Suc (count_list (take a xs) (xs ! a))"
      using that by (simp add: take_Suc_conv_app_nth)
    with that count_list_take_mono [of "Suc a" b xs "xs ! a"] show False by simp
  qed
  show ?thesis using * [of s s'] * [of s' s] assms by (metis linorder_neqE_nat)
qed

lemma sum_count_list_le: "finite A \<Longrightarrow> (\<Sum>l\<in>A. count_list xs l) \<le> length xs"
proof (induction xs)
  case (Cons x xs)
  have "(\<Sum>l\<in>A. count_list (x # xs) l) = (\<Sum>l\<in>A. (if x = l then 1 else 0) + count_list xs l)"
    by (intro sum.cong) auto
  also have "\<dots> = (if x \<in> A then 1 else 0) + (\<Sum>l\<in>A. count_list xs l)"
    using Cons.prems by (simp add: sum.distrib)
  finally show ?case using Cons by auto
qed simp

text \<open>Codes of one length end where the codes that extend it begin.\<close>

lemma huff_first_mono:
  assumes "0 < l" and "l < l'"
  shows "2 ^ (l' - l) * (huff_first sizes l + count_list sizes l) \<le> huff_first sizes l'"
  using assms(2)
proof (induction l' rule: less_induct)
  case (less l')
  show ?case
  proof (cases "l' = Suc l")
    case True
    with assms show ?thesis by simp
  next
    case False
    then obtain k where k: "l' = Suc k" "l < k" using less.prems by (cases l') auto
    with less.IH [of k] have "2 ^ (k - l) * (huff_first sizes l + count_list sizes l) \<le> huff_first sizes k" by simp
    with k show ?thesis by (simp add: Suc_diff_le)
  qed
qed

lemma huff_first_unused:
  "(\<And>k. 0 < k \<Longrightarrow> k < l \<Longrightarrow> count_list sizes k = 0) \<Longrightarrow> huff_first sizes l = 0"
  by (induction l) auto

lemma huff_ok_single:
  assumes "length (filter (\<lambda>c. c \<noteq> 0) sizes) \<le> 1" and "huff_used sizes s" and "huff_used sizes s'"
  shows "s = s'"
proof -
  have "card {i. i < length sizes \<and> sizes ! i \<noteq> 0} \<le> 1"
    using assms(1) by (simp add: length_filter_conv_card)
  moreover have "{s, s'} \<subseteq> {i. i < length sizes \<and> sizes ! i \<noteq> 0}"
    using assms(2,3) by (auto simp: huff_used_def)
  then have "card {s, s'} \<le> card {i. i < length sizes \<and> sizes ! i \<noteq> 0}"
    by (rule card_mono [rotated]) simp
  ultimately show ?thesis by (cases "s = s'") auto
qed

lemma huff_usedE:
  assumes "k \<in> set sizes" and "0 < k"
  obtains s where "huff_used sizes s" and "sizes ! s = k"
  using assms by (metis huff_used_def in_set_conv_nth neq0_conv)

text \<open>The Kraft inequality.\<close>

lemma huff_ok_kraft:
  assumes "huff_ok sizes" and "0 < l" and "l \<le> 15"
  shows "huff_first sizes l + count_list sizes l \<le> 2 ^ l"
proof (cases "huff_first sizes 16 = 65536")
  case True
  have "2 ^ (16 - l) * (huff_first sizes l + count_list sizes l) \<le> 2 ^ (16 - l) * 2 ^ l"
    using huff_first_mono [of l 16 sizes] assms True by (simp add: power_add [symmetric])
  then show ?thesis by simp
next
  case False
  with assms(1) have one: "length (filter (\<lambda>c. c \<noteq> 0) sizes) \<le> 1" by (simp add: huff_ok_def)
  have le: "count_list sizes k \<le> 1" if "0 < k" for k
  proof -
    have "filter ((=) k) sizes = filter ((=) k) (filter (\<lambda>c. c \<noteq> 0) sizes)"
      using that by (auto intro!: filter_cong)
    then have "length (filter ((=) k) sizes) \<le> 1" using one length_filter_le by (metis le_trans)
    then show ?thesis by (simp add: count_list_eq_length_filter)
  qed
  show ?thesis
  proof (cases "\<exists>k. 0 < k \<and> k < l \<and> count_list sizes k \<noteq> 0")
    case True
    then obtain k where k: "0 < k" "k < l" "k \<in> set sizes" by (auto simp: count_list_0_iff)
    then obtain s where s: "huff_used sizes s" "sizes ! s = k" by (blast elim: huff_usedE)
    have "count_list sizes j = 0" if j: "0 < j" "j \<noteq> k" for j
    proof (rule ccontr)
      assume "count_list sizes j \<noteq> 0"
      then have "j \<in> set sizes" by (simp add: count_list_0_iff)
      then obtain s' where "huff_used sizes s'" "sizes ! s' = j"
        using j by (blast elim: huff_usedE)
      with s j huff_ok_single [OF one s(1)] show False by auto
    qed note other = this
    have "huff_first sizes m \<le> 2 ^ (m - k)" if "k \<le> m" for m
      using that
    proof (induction m rule: dec_induct)
      case base
      show ?case using k other huff_first_unused [of k sizes] by auto
    next
      case (step m)
      show ?case
      proof (cases "m = k")
        case True
        then show ?thesis using le [OF k(1)] k huff_first_unused [of k sizes] other by auto
      next
        case False
        with step k other [of m] show ?thesis by (simp add: Suc_diff_le)
      qed
    qed
    then have "huff_first sizes l \<le> 2 ^ (l - k)" using k by simp
    also have "\<dots> \<le> 2 ^ l" by simp
    finally show ?thesis using other [of l] k by simp
  next
    case False
    then have "huff_first sizes l = 0" by (intro huff_first_unused) auto
    with le assms(2) show ?thesis by (metis add_0 le_trans one_le_numeral one_le_power)
  qed
qed

lemma huff_code_bounds:
  assumes "huff_ok sizes" and "huff_used sizes s"
  shows "huff_first sizes (sizes ! s) \<le> huff_code sizes s"
    and "huff_code sizes s < huff_first sizes (sizes ! s) + count_list sizes (sizes ! s)"
    and "huff_code sizes s < 2 ^ (sizes ! s)"
  using count_list_take_less [of s sizes] assms huff_okD [OF assms] huff_ok_kraft [OF assms(1), of "sizes ! s"]
  by (auto simp: huff_code_def huff_used_def)

text \<open>What the first \<open>l\<close> bits of a longer code are.\<close>

lemma take_huff_path:
  "l \<le> sizes ! s \<Longrightarrow>
     take l (huff_path sizes s) = rev (bits_of l (drop_bit (sizes ! s - l) (huff_code sizes s)))"
  by (simp add: huff_path_def take_rev)

lemma huff_code_prefix:
  assumes "huff_ok sizes" and "huff_used sizes s" and "0 < l" and "l < sizes ! s"
  shows "huff_first sizes l + count_list sizes l \<le> drop_bit (sizes ! s - l) (huff_code sizes s)"
    and "drop_bit (sizes ! s - l) (huff_code sizes s) < 2 ^ l"
proof -
  have "2 ^ (sizes ! s - l) * (huff_first sizes l + count_list sizes l) \<le> huff_code sizes s"
    using huff_first_mono [OF assms(3,4), of sizes] huff_code_bounds(1) [OF assms(1,2)] by linarith
  then show "huff_first sizes l + count_list sizes l \<le> drop_bit (sizes ! s - l) (huff_code sizes s)"
    by (simp add: drop_bit_eq_div less_eq_div_iff_mult_less_eq ac_simps)
  have "huff_code sizes s < 2 ^ l * 2 ^ (sizes ! s - l)"
    using huff_code_bounds(3) [OF assms(1,2)] assms(4) by (simp add: power_add [symmetric])
  then show "drop_bit (sizes ! s - l) (huff_code sizes s) < 2 ^ l"
    by (simp add: drop_bit_eq_div div_less_iff_less_mult)
qed

lemma huff_prefix_free:
  assumes "huff_ok sizes" and "huff_used sizes s" and "huff_used sizes s'"
    and "sizes ! s \<le> sizes ! s'" and "take (sizes ! s) (huff_path sizes s') = huff_path sizes s"
  shows "s = s'"
proof -
  let ?l = "sizes ! s"
  have b: "huff_code sizes s < 2 ^ ?l" "huff_code sizes s < huff_first sizes ?l + count_list sizes ?l"
    using huff_code_bounds [OF assms(1,2)] by auto
  have eq: "take_bit ?l (drop_bit (sizes ! s' - ?l) (huff_code sizes s')) = huff_code sizes s"
    using assms(5) b(1) unfolding take_huff_path [OF assms(4)]
    by (simp add: huff_path_def bits_of_eq_iff take_bit_nat_eq_self)
  show ?thesis
  proof (cases "?l = sizes ! s'")
    case True
    then have "huff_code sizes s = huff_code sizes s'"
      using eq huff_code_bounds(3) [OF assms(1,3)] by (simp add: take_bit_nat_eq_self)
    with True show ?thesis
      using assms(2,3) count_list_take_eq [of s sizes s'] by (auto simp: huff_code_def huff_used_def)
  next
    case False
    then have "?l < sizes ! s'" using assms(4) by simp
    with huff_code_prefix [OF assms(1,3), of ?l] eq b huff_okD [OF assms(1,2)]
    show ?thesis by (simp add: take_bit_nat_eq_self)
  qed
qed

section \<open>How many inner nodes the long codes need\<close>

definition huff_inner :: "nat list \<Rightarrow> nat \<Rightarrow> bool list set" where
  "huff_inner sizes d = {take d (huff_path sizes s) | s. huff_used sizes s \<and> d < sizes ! s}"

lemma huff_inner_card:
  assumes "huff_ok sizes" and "0 < d"
  shows "finite (huff_inner sizes d)"
    and "card (huff_inner sizes d) \<le> 2 ^ d - (huff_first sizes d + count_list sizes d)"
proof -
  let ?I = "{huff_first sizes d + count_list sizes d..<2 ^ d}"
  have sub: "huff_inner sizes d \<subseteq> (\<lambda>v. rev (bits_of d v)) ` ?I"
    using huff_code_prefix [OF assms(1)] assms(2) by (auto simp: huff_inner_def take_huff_path)
  then show "finite (huff_inner sizes d)" by (rule finite_subset) simp
  have "card (huff_inner sizes d) \<le> card ((\<lambda>v. rev (bits_of d v)) ` ?I)"
    using sub by (rule card_mono [rotated]) simp
  also have "\<dots> \<le> card ?I" by (rule card_image_le) simp
  finally show "card (huff_inner sizes d) \<le> 2 ^ d - (huff_first sizes d + count_list sizes d)" by simp
qed

lemma huff_inner_single:
  assumes "length (filter (\<lambda>c. c \<noteq> 0) sizes) \<le> 1"
  shows "card (huff_inner sizes d) \<le> 1"
proof (cases "huff_inner sizes d = {}")
  case False
  then obtain s where s: "huff_used sizes s" "take d (huff_path sizes s) \<in> huff_inner sizes d"
    by (auto simp: huff_inner_def)
  have "huff_inner sizes d \<subseteq> {take d (huff_path sizes s)}"
    using huff_ok_single [OF assms s(1)] by (auto simp: huff_inner_def)
  then show ?thesis using card_mono [of "{take d (huff_path sizes s)}"] by fastforce
qed simp

lemma huff_complete_sum:
  fixes f c :: "nat \<Rightarrow> nat"
  assumes "\<And>d. 0 < d \<Longrightarrow> f (Suc d) = 2 * (f d + c d)" and "f 16 = 65536"
  shows "(\<Sum>d\<in>{10..<15}. 2 ^ d - (f d + c d)) \<le> (\<Sum>d\<in>{11..<16}. c d)"
proof -
  have s: "{10..<15::nat} = {10, 11, 12, 13, 14}" "{11..<16::nat} = {11, 12, 13, 14, 15}" by auto
  have "f 11 = 2 * (f 10 + c 10)" "f 12 = 2 * (f 11 + c 11)" "f 13 = 2 * (f 12 + c 12)"
      "f 14 = 2 * (f 13 + c 13)" "f 15 = 2 * (f 14 + c 14)" "f 16 = 2 * (f 15 + c 15)"
    using assms(1) [of 10] assms(1) [of 11] assms(1) [of 12] assms(1) [of 13] assms(1) [of 14] assms(1) [of 15]
    by simp_all
  then show ?thesis using assms(2) unfolding s by simp
qed

text \<open>288 nodes of two elements are all that \<^verbatim>\<open>m_tree\<close> has.\<close>

definition huff_nodes :: "nat list \<Rightarrow> bool list set" where
  "huff_nodes sizes = (\<Union>d\<in>{10..<15}. huff_inner sizes d)"

lemma huff_nodes_card:
  assumes "huff_ok sizes"
  shows "finite (huff_nodes sizes)" and "card (huff_nodes sizes) \<le> 288"
proof -
  show "finite (huff_nodes sizes)"
    using huff_inner_card(1) [OF assms] by (auto simp: huff_nodes_def)
  have "card (huff_nodes sizes) \<le> (\<Sum>d\<in>{10..<15}. card (huff_inner sizes d))"
    unfolding huff_nodes_def by (rule card_UN_le) simp
  also have "\<dots> \<le> 288"
  proof (cases "huff_first sizes 16 = 65536")
    case True
    have "(\<Sum>d\<in>{10..<15}. card (huff_inner sizes d))
        \<le> (\<Sum>d\<in>{10..<15}. 2 ^ d - (huff_first sizes d + count_list sizes d))"
      by (intro sum_mono huff_inner_card(2) [OF assms]) auto
    also have "\<dots> \<le> (\<Sum>d\<in>{11..<16}. count_list sizes d)"
      using True by (intro huff_complete_sum) auto
    also have "\<dots> \<le> length sizes" by (rule sum_count_list_le) simp
    finally show ?thesis using assms by (simp add: huff_ok_def)
  next
    case False
    then have "length (filter (\<lambda>c. c \<noteq> 0) sizes) \<le> 1" using assms by (simp add: huff_ok_def)
    then have "(\<Sum>d\<in>{10..<15::nat}. card (huff_inner sizes d)) \<le> (\<Sum>d\<in>{10..<15::nat}. 1)"
      by (intro sum_mono huff_inner_single)
    then show ?thesis by simp
  qed
  finally show "card (huff_nodes sizes) \<le> 288" .
qed

lemma take_huff_path_nodes:
  assumes "huff_ok sizes" and "huff_used sizes s" and "10 \<le> d" and "d < sizes ! s"
  shows "take d (huff_path sizes s) \<in> huff_nodes sizes"
  using assms huff_okD(1) [OF assms(1,2)] unfolding huff_nodes_def huff_inner_def by fastforce

section \<open>The first code of every length\<close>

lemma total_syms_nth:
  assumes "\<forall>c \<in> set sizes. c < 16"
  shows "length (tinfl_total_syms sizes) = 16"
    and "i < 16 \<Longrightarrow> tinfl_total_syms sizes ! i = count_list sizes i"
proof -
  have *: "length (foldl (\<lambda>t c. t[c := t ! c + 1]) t sizes) = length t \<and>
      (i < length t \<longrightarrow> foldl (\<lambda>t c. t[c := t ! c + 1]) t sizes ! i = t ! i + count_list sizes i)" for t :: "nat list" and i
    by (induction sizes arbitrary: t) (auto simp: nth_list_update)
  show "length (tinfl_total_syms sizes) = 16" using * by (simp add: tinfl_total_syms_def)
  show "i < 16 \<Longrightarrow> tinfl_total_syms sizes ! i = count_list sizes i"
    using * [of "replicate 16 0" i] by (simp add: tinfl_total_syms_def)
qed

lemma next_codes_spec:
  assumes "\<forall>c \<in> set sizes. c < 16"
  obtains nc where
    "tinfl_next_codes (tinfl_total_syms sizes) =
       (length (filter (\<lambda>c. c \<noteq> 0) sizes), huff_first sizes 16, nc)"
    and "length nc = 17" and "\<And>l. 0 < l \<Longrightarrow> l \<le> 16 \<Longrightarrow> nc ! l = huff_first sizes l"
proof -
  define f where "f = (\<lambda>(used_syms, tot, next_code) i.
     let tot' = push_bit 1 (tot + tinfl_total_syms sizes ! i)
     in (used_syms + tinfl_total_syms sizes ! i, tot', next_code[i + 1 := tot']))"
  have *: "\<exists>nc. foldl f (0, 0, replicate 17 0) [1..<Suc n] =
      (\<Sum>l\<in>{1..<Suc n}. count_list sizes l, huff_first sizes (Suc n), nc) \<and> length nc = 17 \<and>
      (\<forall>l. 0 < l \<and> l \<le> Suc n \<longrightarrow> nc ! l = huff_first sizes l)" if "n \<le> 15" for n
    using that
  proof (induction n)
    case 0
    then show ?case by (auto simp: le_Suc_eq)
  next
    case (Suc n)
    then obtain nc where nc: "foldl f (0, 0, replicate 17 0) [1..<Suc n] =
      (\<Sum>l\<in>{1..<Suc n}. count_list sizes l, huff_first sizes (Suc n), nc)" "length nc = 17"
      "\<forall>l. 0 < l \<and> l \<le> Suc n \<longrightarrow> nc ! l = huff_first sizes l" by auto
    have t: "tinfl_total_syms sizes ! Suc n = count_list sizes (Suc n)"
      using Suc.prems total_syms_nth(2) [OF assms, of "Suc n"] by simp
    let ?nc = "nc[Suc n + 1 := huff_first sizes (Suc (Suc n))]"
    have ff: "huff_first sizes (Suc (Suc n)) = push_bit 1 (huff_first sizes (Suc n) + count_list sizes (Suc n))"
      by simp
    have "foldl f (0, 0, replicate 17 0) [1..<Suc (Suc n)] =
        f (foldl f (0, 0, replicate 17 0) [1..<Suc n]) (Suc n)" by simp
    also have "\<dots> = (\<Sum>l\<in>{1..<Suc (Suc n)}. count_list sizes l, huff_first sizes (Suc (Suc n)), ?nc)"
      unfolding nc(1) unfolding f_def prod.case t ff Let_def by simp
    finally have "foldl f (0, 0, replicate 17 0) [1..<Suc (Suc n)] =
        (\<Sum>l\<in>{1..<Suc (Suc n)}. count_list sizes l, huff_first sizes (Suc (Suc n)), ?nc)" .
    moreover have "?nc ! l = huff_first sizes l" if "0 < l" "l \<le> Suc (Suc n)" for l
      using that nc(2,3) Suc.prems by (cases "l = Suc (Suc n)") (simp_all del: huff_first.simps)
    ultimately show ?case using nc(2) by (intro exI [of _ ?nc]) simp
  qed
  have "(\<Sum>l\<in>{1..<16}. count_list sizes l) = length (filter (\<lambda>c. c \<noteq> 0) sizes)"
    using assms
  proof (induction sizes)
    case (Cons c cs)
    have "(\<Sum>l\<in>{1..<16}. count_list (c # cs) l) = (\<Sum>l\<in>{1..<16}. (if c = l then 1 else 0) + count_list cs l)"
      by (intro sum.cong) auto
    also have "\<dots> = (if c \<in> {1..<16} then 1 else 0) + (\<Sum>l\<in>{1..<16}. count_list cs l)"
      by (simp add: sum.distrib)
    finally show ?case using Cons by auto
  qed simp
  with * [of 15] that show ?thesis unfolding tinfl_next_codes_def f_def by (auto simp: less_Suc_eq_le)
qed

end
