(* ===== verification/Sqfs_Huff_Tree.thy ===== *)
theory Sqfs_Huff_Tree
  imports Sqfs_Huff
begin

text \<open>
  That the arrays \<^verbatim>\<open>m_look_up\<close> and \<^verbatim>\<open>m_tree\<close> which \<open>tinfl_build_table\<close> fills decode the canonical
  code. \<open>tree_rep\<close> relates the arrays to what they stand for: the inner nodes \<open>N\<close> and the
  leaves \<open>F\<close> of a binary tree, both by their path, and the direct entries \<open>S\<close>.
\<close>

section \<open>What the arrays stand for\<close>

definition node_ref :: "nat \<Rightarrow> int" where
  "node_ref n = - 1 - 2 * int n"

definition node_val :: "(bool list \<rightharpoonup> nat) \<Rightarrow> (bool list \<rightharpoonup> nat) \<Rightarrow> bool list \<Rightarrow> int" where
  "node_val N F q = (case N q of Some n \<Rightarrow> node_ref n
     | None \<Rightarrow> (case F q of Some s \<Rightarrow> int s | None \<Rightarrow> 0))"

definition tree_rep ::
  "int list \<Rightarrow> int list \<Rightarrow> int \<Rightarrow> (bool list \<rightharpoonup> nat) \<Rightarrow> (bool list \<rightharpoonup> nat) \<Rightarrow> (nat \<Rightarrow> int) \<Rightarrow> bool" where
  "tree_rep L T tn N F S \<longleftrightarrow>
     length L = 1024 \<and> length T = 576 \<and>
     finite (dom N) \<and> card (dom N) \<le> 288 \<and> tn = node_ref (card (dom N)) \<and>
     inj_on N (dom N) \<and> ran N \<subseteq> {..<card (dom N)} \<and>
     (\<forall>p \<in> dom N. 10 \<le> length p \<and> (length p \<noteq> 10 \<longrightarrow> butlast p \<in> dom N)) \<and>
     (\<forall>q \<in> dom F. 10 < length q \<and> butlast q \<in> dom N \<and> q \<notin> dom N) \<and>
     (\<forall>p n b. N p = Some n \<longrightarrow> T ! (2 * n + of_bool b) = node_val N F (p @ [b])) \<and>
     (\<forall>j. 2 * card (dom N) \<le> j \<and> j < 576 \<longrightarrow> T ! j = 0) \<and>
     (\<forall>i < 1024. L ! i = (case N (bits_of 10 i) of Some n \<Rightarrow> node_ref n | None \<Rightarrow> S i))"

lemma node_ref_less_0 [simp]: "node_ref n < 0" "\<not> 0 \<le> node_ref n" "node_ref n \<noteq> 0"
  by (simp_all add: node_ref_def)

lemma node_ref_Suc: "node_ref (Suc n) = node_ref n - 2"
  by (simp add: node_ref_def)

lemma node_slot [simp]: "- (node_ref n - int (of_bool b)) - 1 = int (2 * n + of_bool b)"
  by (simp add: node_ref_def)

lemma tree_rep_ran: "tree_rep L T tn N F S \<Longrightarrow> N p = Some n \<Longrightarrow> n < card (dom N)"
  unfolding tree_rep_def by (blast intro: ranI)

lemma tree_rep_slot:
  assumes "tree_rep L T tn N F S" and "N p = Some n"
  shows "2 * n + of_bool b < 576" and "T ! (2 * n + of_bool b) = node_val N F (p @ [b])"
    and "length T = 576" and "length L = 1024"
  using assms tree_rep_ran [OF assms] unfolding tree_rep_def by (auto split: if_splits)

lemma tree_rep_same_slot:
  assumes "tree_rep L T tn N F S" and "N p = Some n" and "N p' = Some n'"
  shows "2 * n + of_bool b = 2 * n' + of_bool b' \<longleftrightarrow> p = p' \<and> b = b'"
proof -
  have inj: "inj_on N (dom N)" using assms(1) by (simp add: tree_rep_def)
  have "2 * n + of_bool b = 2 * n' + of_bool b' \<longleftrightarrow> n = n' \<and> b = b'"
    by (cases b; cases b') (auto, presburger+)
  then show ?thesis using inj_onD [OF inj, of p p'] assms(2,3) by auto
qed

lemma bits_of_10_inj: "i < 1024 \<Longrightarrow> j < 1024 \<Longrightarrow> bits_of 10 i = bits_of 10 j \<Longrightarrow> i = j"
  by (simp add: bits_of_eq_iff take_bit_nat_eq_self)

section \<open>Growing the tree\<close>

lemma tree_rep_dom:
  assumes "tree_rep L T tn N F S" and "q \<notin> dom N" and "10 \<le> length q"
  shows "q @ [b] \<notin> dom N" and "q @ [b] \<notin> dom F"
proof -
  have "length p \<noteq> 10 \<Longrightarrow> butlast p \<in> dom N" if "p \<in> dom N" for p
    using assms(1) that unfolding tree_rep_def by blast
  from this [of "q @ [b]"] show "q @ [b] \<notin> dom N" using assms(2,3) by auto
  have "butlast p \<in> dom N" if "p \<in> dom F" for p
    using assms(1) that unfolding tree_rep_def by blast
  from this [of "q @ [b]"] show "q @ [b] \<notin> dom F" using assms(2) by auto
qed

lemma inj_on_fresh:
  assumes "inj_on N (dom N)" and "ran N \<subseteq> {..<k}" and "q \<notin> dom N"
  shows "inj_on (N(q \<mapsto> k)) (dom (N(q \<mapsto> k)))" and "ran (N(q \<mapsto> k)) \<subseteq> {..<Suc k}"
proof -
  have "N p \<noteq> Some k" for p using assms(2) by (force intro: ranI)
  then show "inj_on (N(q \<mapsto> k)) (dom (N(q \<mapsto> k)))"
    using assms(1,3) by (auto simp: inj_on_def)
  show "ran (N(q \<mapsto> k)) \<subseteq> {..<Suc k}"
    using assms(2) by (auto simp: ran_def less_Suc_eq subset_iff)
qed

lemma tree_rep_new_node:
  assumes rep: "tree_rep L T tn N F S" and q: "q \<notin> dom N" "q \<notin> dom F" and room: "card (dom N) < 288"
    and p: "N p = Some n" "q = p @ [b]"
  shows "tree_rep L (T[2 * n + of_bool b := tn]) (tn - 2) (N(q \<mapsto> card (dom N))) F S"
proof -
  let ?k = "card (dom N)" and ?N = "N(q \<mapsto> card (dom N))" and ?T = "T[2 * n + of_bool b := tn]"
  have len: "10 \<le> length p" using rep p(1) unfolding tree_rep_def by blast
  have fin: "finite (dom N)" and tn: "tn = node_ref ?k" using rep by (simp_all add: tree_rep_def)
  have card: "card (dom ?N) = Suc ?k" using q(1) fin by simp
  have n: "n < ?k" using tree_rep_ran [OF rep p(1)] .
  have child: "q @ [c] \<notin> dom N" "q @ [c] \<notin> dom F" for c
    using tree_rep_dom [OF rep q(1)] len p(2) by auto
  have slot: "?T ! (2 * m + of_bool c) = node_val ?N F (r @ [c])" if r: "?N r = Some m" for r m c
  proof (cases "r = q")
    case True
    with r have "m = ?k" by simp
    moreover have "T ! (2 * ?k + of_bool c) = 0" using rep room unfolding tree_rep_def by (cases c) auto
    ultimately show ?thesis
      using n child [of c] True p(2) by (cases c; cases b) (auto simp: node_val_def nth_list_update domIff split: option.splits)
  next
    case False
    with r have r': "N r = Some m" by simp
    show ?thesis
      using tree_rep_same_slot [OF rep p(1) r', of b c] tree_rep_slot(1,2) [OF rep r', of c] tree_rep_slot(3) [OF rep r'] tree_rep_slot(1) [OF rep p(1), of b] p(2) tn
      by (auto simp: nth_list_update node_val_def)
  qed
  have "?T ! j = 0" if "2 * Suc ?k \<le> j" "j < 576" for j
    using rep that n unfolding tree_rep_def by (auto simp: nth_list_update)
  moreover have "bits_of 10 i \<noteq> q" for i
  proof
    assume "bits_of 10 i = q"
    from arg_cong [OF this, of length] show False using p(2) len by simp
  qed
  moreover have "inj_on ?N (dom ?N)" "ran ?N \<subseteq> {..<Suc ?k}"
    using inj_on_fresh [of N ?k q] rep q(1) by (simp_all add: tree_rep_def)
  ultimately show ?thesis
    using rep q slot room len p card unfolding tree_rep_def
    by (auto simp: tn node_ref_Suc)
qed

lemma tree_rep_new_root:
  assumes rep: "tree_rep L T tn N F S" and q: "bits_of 10 i \<notin> dom N" and i: "i < 1024"
    and room: "card (dom N) < 288"
  shows "tree_rep (L[i := tn]) T (tn - 2) (N(bits_of 10 i \<mapsto> card (dom N))) F S"
proof -
  let ?q = "bits_of 10 i" and ?k = "card (dom N)"
  let ?N = "N(?q \<mapsto> ?k)"
  have fin: "finite (dom N)" and tn: "tn = node_ref ?k" using rep by (simp_all add: tree_rep_def)
  have card: "card (dom ?N) = Suc ?k" using q fin by simp
  have child: "?q @ [c] \<notin> dom N" "?q @ [c] \<notin> dom F" for c using tree_rep_dom [OF rep q] by auto
  have nF: "?q \<notin> dom F"
  proof
    assume "?q \<in> dom F"
    then have "10 < length ?q" using rep unfolding tree_rep_def by blast
    then show False by simp
  qed
  have neq: "r @ [c] \<noteq> ?q" if "10 \<le> length r" for r c
  proof
    assume "r @ [c] = ?q"
    from arg_cong [OF this, of length] show False using that by simp
  qed
  have slot: "T ! (2 * m + of_bool c) = node_val ?N F (r @ [c])" if r: "?N r = Some m" for r m c
  proof (cases "r = ?q")
    case True
    with r have "m = ?k" by simp
    moreover have "T ! (2 * ?k + of_bool c) = 0" using rep room unfolding tree_rep_def by (cases c) auto
    ultimately show ?thesis using child [of c] True by (auto simp: node_val_def domIff split: option.splits)
  next
    case False
    with r have r': "N r = Some m" by simp
    then have "10 \<le> length r" using rep unfolding tree_rep_def by blast
    then show ?thesis using tree_rep_slot(2) [OF rep r', of c] neq [of r c] by (simp add: node_val_def)
  qed
  have look: "L[i := tn] ! j = (case ?N (bits_of 10 j) of Some n \<Rightarrow> node_ref n | None \<Rightarrow> S j)" if "j < 1024" for j
    using rep i that bits_of_10_inj [OF that i] unfolding tree_rep_def by (auto simp: nth_list_update tn)
  moreover have "inj_on ?N (dom ?N)" "ran ?N \<subseteq> {..<Suc ?k}"
    using inj_on_fresh [of N ?k ?q] rep q by (simp_all add: tree_rep_def)
  ultimately show ?thesis
    using rep q slot room card nF unfolding tree_rep_def
    by (auto simp: tn node_ref_Suc)
qed

lemma tree_rep_new_leaf:
  assumes rep: "tree_rep L T tn N F S" and p: "N p = Some n" and q: "p @ [b] \<notin> dom N"
  shows "tree_rep L (T[2 * n + of_bool b := int s]) tn N (F(p @ [b] \<mapsto> s)) S"
proof -
  have len: "10 \<le> length p" using rep p(1) unfolding tree_rep_def by blast
  have n: "n < card (dom N)" using tree_rep_ran [OF rep p] .
  have "T[2 * n + of_bool b := int s] ! (2 * m + of_bool c) = node_val N (F(p @ [b] \<mapsto> s)) (r @ [c])"
    if r: "N r = Some m" for r m c
    using tree_rep_same_slot [OF rep p r, of b c] tree_rep_slot(1,2) [OF rep r, of c] tree_rep_slot(3) [OF rep r]
      tree_rep_slot(1) [OF rep p, of b] q
    by (auto simp: nth_list_update node_val_def domIff split: option.splits)
  moreover have "T[2 * n + of_bool b := int s] ! j = 0" if "2 * card (dom N) \<le> j" "j < 576" for j
    using rep that n unfolding tree_rep_def by (auto simp: nth_list_update)
  ultimately show ?thesis using rep p q len unfolding tree_rep_def by auto
qed

lemma fill_fast_nth:
  "length (tinfl_fill_fast l k r L) = length L \<and>
   (i < length L \<longrightarrow> length L = 1024 \<longrightarrow>
    tinfl_fill_fast l k r L ! i = (if r \<le> i \<and> i mod 2 ^ l = r mod 2 ^ l then k else L ! i))"
proof (induction l k r L rule: tinfl_fill_fast.induct)
  case (1 l k r L)
  show ?case
  proof (cases "r < 1024")
    case True
    have "r + 2 ^ l \<le> i" if "r \<le> i" "i mod 2 ^ l = r mod 2 ^ l" "i \<noteq> r"
    proof -
      from that obtain m where "i = r + m * 2 ^ l" by (metis le_imp_diff_is_add mod_eq_dvd_iff_nat dvdE add.commute mult.commute)
      with that show ?thesis by (cases m) auto
    qed
    with 1 True show ?thesis
      by (subst (1 2) tinfl_fill_fast.simps) (auto simp: nth_list_update)
  next
    case False
    then show ?thesis by (subst (1 2) tinfl_fill_fast.simps) auto
  qed
qed

lemma tree_rep_new_short:
  assumes rep: "tree_rep L T tn N F S" and r: "r < 2 ^ l" and l: "l \<le> 10"
    and free: "\<And>i. i < 1024 \<Longrightarrow> bits_of l i = bits_of l r \<Longrightarrow> bits_of 10 i \<notin> dom N"
  shows "tree_rep (tinfl_fill_fast l k r L) T tn N F (\<lambda>i. if bits_of l i = bits_of l r then k else S i)"
proof -
  have "(r \<le> i \<and> i mod 2 ^ l = r mod 2 ^ l) \<longleftrightarrow> bits_of l i = bits_of l r" for i
    using r by (auto simp: bits_of_eq_iff take_bit_eq_mod)
  then have "tinfl_fill_fast l k r L ! i =
      (case N (bits_of 10 i) of Some n \<Rightarrow> node_ref n | None \<Rightarrow> if bits_of l i = bits_of l r then k else S i)"
    if "i < 1024" for i
    using fill_fast_nth [of l k r L i] rep that free [OF that] unfolding tree_rep_def
    by (auto split: option.splits)
  then show ?thesis using rep fill_fast_nth [of l k r L] unfolding tree_rep_def by auto
qed

section \<open>Inserting a long code\<close>

lemma and_1_drop_bit: "drop_bit n (x :: nat) AND 1 = of_bool (bit x n)"
  by (simp add: and_one_eq mod_2_eq_odd bit_iff_odd_drop_bit)

lemma tree_slot_node:
  assumes "tree_rep L T tn N F S" and "N p = Some n"
  shows "tree_slot T (- (node_ref n - int (of_bool b)) - 1) = Go (2 * n + of_bool b)"
  using tree_rep_slot(1) [OF assms, of b] tree_rep_slot(3) [OF assms]
  unfolding node_slot tree_slot_def nat_int by (simp del: of_nat_add of_nat_mult)

lemma take_Suc_snoc: "k < length c \<Longrightarrow> take (Suc k) c = take k c @ [c ! k]"
  by (rule take_Suc_conv_app_nth)

lemma card_room:
  assumes "insert q D \<subseteq> I" and "q \<notin> D" and "finite I" and "card I \<le> 288"
  shows "card D < 288"
proof -
  have "card (insert q D) \<le> card I" using assms(1,3) by (intro card_mono)
  moreover have "finite D" using assms(1,3) by (auto intro: finite_subset)
  ultimately show ?thesis using assms(2,4) by simp
qed

lemma tinfl_descend_rep:
  assumes "tree_rep L T tn N F S" and "N (take k c) = Some n" and "10 \<le> k" and "k + j < length c"
    and "\<And>t. t < j \<Longrightarrow> bit rc (Suc t) = c ! (k + t)"
    and "\<And>m. k < m \<Longrightarrow> m \<le> k + j \<Longrightarrow> take m c \<notin> dom F \<and> take m c \<in> I"
    and "dom N \<subseteq> I" and "finite I" and "card I \<le> 288"
  shows "\<exists>N' T' tn' n'. tinfl_descend j rc (node_ref n) T tn = Go (drop_bit j rc, node_ref n', T', tn') \<and>
    tree_rep L T' tn' N' F S \<and> N' (take (k + j) c) = Some n' \<and>
    dom N' = dom N \<union> (\<lambda>m. take m c) ` {k<..k + j}"
  using assms
proof (induction j arbitrary: rc n T tn N k)
  case 0
  then have "dom N = dom N \<union> (\<lambda>m. take m c) ` {k<..k + 0}" by auto
  with 0 show ?case by (intro exI [of _ N]) simp
next
  case (Suc j)
  let ?b = "c ! k" and ?q = "take (Suc k) c"
  have q: "?q = take k c @ [?b]" using Suc.prems(4) by (intro take_Suc_snoc) simp
  have bit: "drop_bit 1 rc AND 1 = of_bool ?b"
    using Suc.prems(5) [of 0] unfolding and_1_drop_bit by simp
  note slot = tree_slot_node [OF Suc.prems(1,2), of ?b]
  have val: "T ! (2 * n + of_bool ?b) = node_val N F ?q"
    using tree_rep_slot(2) [OF Suc.prems(1,2), of ?b] q by simp
  have F: "?q \<notin> dom F" "?q \<in> I" using Suc.prems(6) [of "Suc k"] by auto
  have bits: "\<And>t. t < j \<Longrightarrow> bit (drop_bit 1 rc) (Suc t) = c ! (Suc k + t)"
    using Suc.prems(5) [of "Suc t" for t] by (auto simp: bit_drop_bit_eq)
  have pre: "10 \<le> Suc k" "Suc k + j < length c"
    "\<And>m. Suc k < m \<Longrightarrow> m \<le> Suc k + j \<Longrightarrow> take m c \<notin> dom F \<and> take m c \<in> I"
    using Suc.prems(3,4,6) by auto
  have "{k<..k + Suc j} = insert (Suc k) {Suc k<..Suc k + j}" by auto
  then have un: "(\<lambda>m. take m c) ` {k<..k + Suc j} = insert ?q ((\<lambda>m. take m c) ` {Suc k<..Suc k + j})"
    by (simp only: image_insert)
  show ?case
  proof (cases "?q \<in> dom N")
    case True
    then obtain n' where n': "N ?q = Some n'" by auto
    then have v: "T ! (2 * n + of_bool ?b) = node_ref n'" using val by (simp add: node_val_def)
    have "tinfl_descend (Suc j) rc (node_ref n) T tn = tinfl_descend j (drop_bit 1 rc) (node_ref n') T tn"
      using bit slot v by (simp del: drop_bit_Suc node_slot)
    with Suc.IH [OF Suc.prems(1) n' pre(1,2) bits pre(3) Suc.prems(7,8,9)] True show ?thesis
      unfolding un by (simp add: drop_bit_drop_bit insert_absorb del: drop_bit_Suc)
  next
    case False
    then have v: "T ! (2 * n + of_bool ?b) = 0" using val F by (auto simp: node_val_def domIff split: option.splits)
    have room: "card (dom N) < 288"
      using card_room [of ?q "dom N" I] False F Suc.prems(7,8,9) by auto
    have tn: "tn = node_ref (card (dom N))" using Suc.prems(1) by (simp add: tree_rep_def)
    note rep' = tree_rep_new_node [OF Suc.prems(1) False F(1) room Suc.prems(2) q]
    have "tinfl_descend (Suc j) rc (node_ref n) T tn =
        tinfl_descend j (drop_bit 1 rc) (node_ref (card (dom N))) (T[2 * n + of_bool ?b := tn]) (tn - 2)"
      using bit slot v tn by (simp del: drop_bit_Suc node_slot)
    moreover have "dom (N(?q \<mapsto> card (dom N))) \<subseteq> I" using F Suc.prems(7) by auto
    from Suc.IH [OF rep' fun_upd_same pre(1,2) bits pre(3) this Suc.prems(8,9)] obtain N' T' tn' n' where
      "tinfl_descend j (drop_bit 1 rc) (node_ref (card (dom N))) (T[2 * n + of_bool ?b := tn]) (tn - 2) =
        Go (drop_bit (Suc j) rc, node_ref n', T', tn')"
      "tree_rep L T' tn' N' F S" "N' (take (k + Suc j) c) = Some n'"
      "dom N' = insert ?q (dom N) \<union> (\<lambda>m. take m c) ` {Suc k<..Suc k + j}"
      by (auto simp: drop_bit_drop_bit simp del: drop_bit_Suc fun_upd_apply)
    ultimately show ?thesis unfolding un by (intro exI [of _ N'] exI [of _ T'] exI [of _ tn'] exI [of _ n']) simp
  qed
qed

lemma and_1023: "(x :: nat) AND 1023 = take_bit 10 x"
  by (simp add: take_bit_eq_mask mask_eq_exp_minus_1)

lemma tinfl_insert_long_rep:
  assumes rep: "tree_rep L T tn N F S" and l: "10 < l" and c: "c = bits_of l r"
    and free: "c \<notin> dom N" "\<And>m. 10 \<le> m \<Longrightarrow> m < l \<Longrightarrow> take m c \<notin> dom F \<and> take m c \<in> I"
    and direct: "take 10 c \<notin> dom N \<Longrightarrow> S (take_bit 10 r) = 0"
    and room: "dom N \<subseteq> I" "finite I" "card I \<le> 288"
  shows "\<exists>L' T' tn' N'. tinfl_insert_long l s r L T tn = Go (L', T', tn') \<and>
    tree_rep L' T' tn' N' (F(c \<mapsto> s)) S \<and> dom N' = dom N \<union> (\<lambda>m. take m c) ` {10..<l}"
proof -
  let ?i = "take_bit 10 r" and ?c10 = "take 10 c"
  have i: "?i < 1024" using take_bit_nat_less_exp [of 10 r] by simp
  have c10: "?c10 = bits_of 10 ?i" using l c by simp
  have look: "L ! ?i = (case N ?c10 of Some n \<Rightarrow> node_ref n | None \<Rightarrow> S ?i)"
    using rep i c10 unfolding tree_rep_def by simp
  obtain L1 tn1 N1 n1 where
    first: "(if L ! ?i = 0 then (L[?i := tn], tn, tn - 2) else (L, L ! ?i, tn)) = (L1, node_ref n1, tn1)"
    and rep1: "tree_rep L1 T tn1 N1 F S" and n1: "N1 ?c10 = Some n1" and dom1: "dom N1 = insert ?c10 (dom N)"
  proof (cases "?c10 \<in> dom N")
    case True
    then obtain n where "N ?c10 = Some n" by auto
    with that [of L n tn N] look rep True show ?thesis by (simp add: insert_absorb)
  next
    case False
    have "card (dom N) < 288" using card_room [of ?c10 "dom N" I] False free(2) [of 10] l room by auto
    from tree_rep_new_root [OF rep False [unfolded c10] i this] have
      "tree_rep (L[?i := tn]) T (tn - 2) (N(?c10 \<mapsto> card (dom N))) F S" by (simp only: c10)
    moreover have "tn = node_ref (card (dom N))" using rep by (simp add: tree_rep_def)
    ultimately show ?thesis
      using that [of "L[?i := tn]" "card (dom N)" "tn - 2" "N(?c10 \<mapsto> card (dom N))"] look False direct
      by (auto simp: domIff)
  qed
  have "\<exists>N' T' tn' n'. tinfl_descend (l - 11) (drop_bit 9 r) (node_ref n1) T tn1 =
      Go (drop_bit (l - 11) (drop_bit 9 r), node_ref n', T', tn') \<and>
      tree_rep L1 T' tn' N' F S \<and> N' (take (10 + (l - 11)) c) = Some n' \<and>
      dom N' = dom N1 \<union> (\<lambda>m. take m c) ` {10<..10 + (l - 11)}"
  proof (rule tinfl_descend_rep [OF rep1 n1, where I = I])
    show "bit (drop_bit 9 r) (Suc t) = c ! (10 + t)" if "t < l - 11" for t
      using that l c by (simp add: bit_drop_bit_eq)
    show "dom N1 \<subseteq> I" using dom1 free(2) [of 10] room l by auto
  qed (use l c free(2) room in auto)
  then obtain N2 T2 tn2 n2 where
    down: "tinfl_descend (l - 11) (drop_bit 9 r) (node_ref n1) T tn1 = Go (drop_bit (l - 2) r, node_ref n2, T2, tn2)"
    and rep2: "tree_rep L1 T2 tn2 N2 F S" and n2: "N2 (take (l - 1) c) = Some n2"
    and dom2: "dom N2 = dom N1 \<union> (\<lambda>m. take m c) ` {10<..l - 1}"
    using l by (auto simp: drop_bit_drop_bit)
  let ?b = "bit r (l - 1)"
  have c': "take (l - 1) c @ [?b] = c"
    using l c bits_of_Suc [of "l - 1" r] by simp
  have "{10..<l} = insert 10 {10<..l - 1}" using l by auto
  then have dom3: "dom N2 = dom N \<union> (\<lambda>m. take m c) ` {10..<l}" unfolding dom2 dom1 by auto
  have "c \<noteq> take m c" if "m < l" for m
  proof
    assume "c = take m c"
    from arg_cong [OF this, of length] show False using that c by simp
  qed
  then have "c \<notin> (\<lambda>m. take m c) ` {10..<l}" by (metis atLeastLessThan_iff imageE)
  then have "take (l - 1) c @ [?b] \<notin> dom N2" using free(1) dom3 unfolding c' by auto
  note rep3 = tree_rep_new_leaf [OF rep2 n2 this, of s, unfolded c']
  have "1 + (l - 2) = l - 1" using l by simp
  then have last: "drop_bit 1 (drop_bit (l - 2) r) AND 1 = of_bool ?b"
    by (simp only: drop_bit_drop_bit and_1_drop_bit)
  have "tinfl_insert_long l s r L T tn = Go (L1, T2[2 * n2 + of_bool ?b := int s], tn2)"
    using first down tree_slot_node [OF rep2 n2, of ?b] last
    unfolding tinfl_insert_long_def
    by (simp add: and_1023 Let_def del: node_slot drop_bit_Suc drop_bit_drop_bit)
  with rep3 dom3 show ?thesis by blast
qed

section \<open>Inserting every symbol\<close>

lemma rev_code_path: "bits_of l (tinfl_rev_code l c 0) = rev (bits_of l c)"
  by (rule nth_equalityI) (auto simp: rev_code_bit rev_nth)

lemma rev_code_less: "tinfl_rev_code l c 0 < 2 ^ l"
proof -
  have "take_bit l (tinfl_rev_code l c 0) = tinfl_rev_code l c 0"
    by (rule bit_eqI) (auto simp: bit_take_bit_iff rev_code_bit)
  then show ?thesis by (metis take_bit_nat_less_exp)
qed

definition huff_entry :: "nat list \<Rightarrow> nat \<Rightarrow> int" where
  "huff_entry sizes s = int (push_bit 9 (sizes ! s) OR s)"

definition huff_in :: "nat list \<Rightarrow> nat \<Rightarrow> nat \<Rightarrow> bool" where
  "huff_in sizes k s \<longleftrightarrow> s < k \<and> huff_used sizes s"

text \<open>The state of the loop when the symbols below \<open>k\<close> are in.\<close>

definition huff_inv where
  "huff_inv sizes k nc L T tn N F S \<longleftrightarrow>
     tree_rep L T tn N F S \<and> length nc = 17 \<and>
     (\<forall>l. 0 < l \<and> l < 16 \<longrightarrow> nc ! l = huff_first sizes l + count_list (take k sizes) l) \<and>
     dom N = {take m (huff_path sizes s) | m s. huff_in sizes k s \<and> 10 \<le> m \<and> m < sizes ! s} \<and>
     (\<forall>q s. F q = Some s \<longleftrightarrow> huff_in sizes k s \<and> 10 < sizes ! s \<and> huff_path sizes s = q) \<and>
     (\<forall>i s. huff_in sizes k s \<and> sizes ! s \<le> 10 \<and> bits_of (sizes ! s) i = huff_path sizes s
        \<longrightarrow> S i = huff_entry sizes s) \<and>
     (\<forall>i. (\<forall>s. huff_in sizes k s \<and> sizes ! s \<le> 10 \<longrightarrow> bits_of (sizes ! s) i \<noteq> huff_path sizes s)
        \<longrightarrow> S i = 0)"

lemma huff_prefixD:
  assumes "huff_ok sizes" and "huff_used sizes s" and "huff_used sizes s'"
    and "take m (huff_path sizes s) = take m' (huff_path sizes s')" and "sizes ! s' \<le> m'" and "m \<le> sizes ! s"
  shows "s = s'"
proof -
  have "length (take m (huff_path sizes s)) = length (take m' (huff_path sizes s'))" using assms(4) by simp
  then have m: "m = sizes ! s'" using assms(5,6) by simp
  with assms(4,5) have "take (sizes ! s') (huff_path sizes s) = huff_path sizes s'" by simp
  with huff_prefix_free [OF assms(1,3,2)] m assms(6) show ?thesis by simp
qed

lemma next_code_step:
  assumes "\<forall>l. 0 < l \<and> l < 16 \<longrightarrow> nc ! l = huff_first sizes l + count_list (take k sizes) l"
    and "length nc = 17" and "k < length sizes" and "sizes ! k < 16"
  shows "\<forall>l. 0 < l \<and> l < 16 \<longrightarrow>
    nc[sizes ! k := nc ! (sizes ! k) + 1] ! l = huff_first sizes l + count_list (take (Suc k) sizes) l"
  using assms by (auto simp: nth_list_update take_Suc_conv_app_nth)

lemma huff_inv_unused:
  assumes "huff_inv sizes k nc L T tn N F S" and "k < length sizes" and "sizes ! k = 0"
  shows "huff_inv sizes (Suc k) nc L T tn N F S"
proof -
  have "huff_in sizes (Suc k) = huff_in sizes k"
    using assms(3) by (auto simp: huff_in_def less_Suc_eq huff_used_def intro!: ext)
  moreover have "count_list (take (Suc k) sizes) l = count_list (take k sizes) l" if "0 < l" for l
    using that assms(2,3) by (simp add: take_Suc_conv_app_nth)
  ultimately show ?thesis using assms(1) unfolding huff_inv_def by simp
qed

lemma huff_inv_code:
  assumes "huff_inv sizes k nc L T tn N F S" and "huff_ok sizes" and "huff_used sizes k"
  shows "nc ! (sizes ! k) = huff_code sizes k"
  using assms huff_okD [OF assms(2,3)] unfolding huff_inv_def huff_code_def by simp

lemma huff_inv_short:
  assumes inv: "huff_inv sizes k nc L T tn N F S" and ok: "huff_ok sizes" and k: "huff_used sizes k"
    and l: "sizes ! k \<le> 10"
  shows "\<exists>S'. huff_inv sizes (Suc k) (nc[sizes ! k := nc ! (sizes ! k) + 1])
    (tinfl_fill_fast (sizes ! k) (huff_entry sizes k) (tinfl_rev_code (sizes ! k) (huff_code sizes k) 0) L)
    T tn N F S'"
proof -
  let ?l = "sizes ! k" and ?r = "tinfl_rev_code (sizes ! k) (huff_code sizes k) 0"
  let ?S = "\<lambda>i. if bits_of ?l i = bits_of ?l ?r then huff_entry sizes k else S i"
  have path: "bits_of ?l ?r = huff_path sizes k" by (simp add: rev_code_path huff_path_def)
  have rep: "tree_rep L T tn N F S" and dom: "dom N =
      {take m (huff_path sizes s) | m s. huff_in sizes k s \<and> 10 \<le> m \<and> m < sizes ! s}"
    using inv by (simp_all add: huff_inv_def)
  have "bits_of 10 i \<notin> dom N" if i: "bits_of ?l i = bits_of ?l ?r" for i
  proof
    assume "bits_of 10 i \<in> dom N"
    then obtain m s where s: "bits_of 10 i = take m (huff_path sizes s)" "s < k" "huff_used sizes s" "m < sizes ! s" "10 \<le> m"
      unfolding dom huff_in_def by blast
    have "bits_of ?l i = take ?l (huff_path sizes s)"
      using arg_cong [OF s(1), of "take ?l"] l s(5) by (simp add: min_def split: if_splits)
    then have "take ?l (huff_path sizes s) = take ?l (huff_path sizes k)" using i path by simp
    from huff_prefixD [OF ok s(3) k this] s l show False by simp
  qed
  then have rep': "tree_rep (tinfl_fill_fast ?l (huff_entry sizes k) ?r L) T tn N F ?S"
    using tree_rep_new_short [OF rep rev_code_less l] by blast
  have uniq: "bits_of (sizes ! s) i \<noteq> huff_path sizes s"
    if "s < k" "huff_used sizes s" "bits_of ?l i = huff_path sizes k" for s i
  proof
    assume s: "bits_of (sizes ! s) i = huff_path sizes s"
    show False
    proof (cases "?l \<le> sizes ! s")
      case True
      then have "take ?l (huff_path sizes s) = take ?l (huff_path sizes k)"
        using arg_cong [OF s, of "take ?l"] that(3) by (simp add: min_def)
      from huff_prefixD [OF ok that(2) k this] True that(1) show False by simp
    next
      case False
      then have "take (sizes ! s) (huff_path sizes k) = take (sizes ! s) (huff_path sizes s)"
        using arg_cong [OF that(3), of "take (sizes ! s)"] s by (simp add: min_def)
      from huff_prefixD [OF ok k that(2) this] False that(1) show False by simp
    qed
  qed
  have "{take m (huff_path sizes s) | m s. huff_in sizes (Suc k) s \<and> 10 \<le> m \<and> m < sizes ! s} = dom N"
    unfolding dom using l by (auto simp: huff_in_def less_Suc_eq)
  moreover have "F q = Some s \<longleftrightarrow> huff_in sizes (Suc k) s \<and> 10 < sizes ! s \<and> huff_path sizes s = q" for q s
    using inv l unfolding huff_inv_def by (auto simp: huff_in_def less_Suc_eq)
  moreover have "?S i = huff_entry sizes s" if "huff_in sizes (Suc k) s \<and> sizes ! s \<le> 10 \<and>
      bits_of (sizes ! s) i = huff_path sizes s" for i s
    using that inv uniq path unfolding huff_inv_def by (auto simp: huff_in_def less_Suc_eq)
  moreover have "?S i = 0" if "\<forall>s. huff_in sizes (Suc k) s \<and> sizes ! s \<le> 10 \<longrightarrow>
      bits_of (sizes ! s) i \<noteq> huff_path sizes s" for i
    using that [rule_format, of k] that inv k l path unfolding huff_inv_def by (auto simp: huff_in_def)
  ultimately have "huff_inv sizes (Suc k) (nc[sizes ! k := nc ! (sizes ! k) + 1])
      (tinfl_fill_fast ?l (huff_entry sizes k) ?r L) T tn N F ?S"
    using rep' inv next_code_step [of nc sizes k] k huff_okD(1) [OF ok k] unfolding huff_inv_def
    by (auto simp: huff_used_def)
  then show ?thesis by blast
qed

lemma huff_inv_long:
  assumes inv: "huff_inv sizes k nc L T tn N F S" and ok: "huff_ok sizes" and k: "huff_used sizes k"
    and l: "10 < sizes ! k"
  shows "\<exists>L' T' tn' N' F'.
    tinfl_insert_long (sizes ! k) k (tinfl_rev_code (sizes ! k) (huff_code sizes k) 0) L T tn = Go (L', T', tn') \<and>
    huff_inv sizes (Suc k) (nc[sizes ! k := nc ! (sizes ! k) + 1]) L' T' tn' N' F' S"
proof -
  let ?l = "sizes ! k" and ?r = "tinfl_rev_code (sizes ! k) (huff_code sizes k) 0" and ?c = "huff_path sizes k"
  have path: "?c = bits_of ?l ?r" by (simp add: rev_code_path huff_path_def)
  have rep: "tree_rep L T tn N F S" and dom: "dom N =
      {take m (huff_path sizes s) | m s. huff_in sizes k s \<and> 10 \<le> m \<and> m < sizes ! s}"
    and leaf: "\<And>q s. F q = Some s \<longleftrightarrow> huff_in sizes k s \<and> 10 < sizes ! s \<and> huff_path sizes s = q"
    and short: "\<And>i s. huff_in sizes k s \<Longrightarrow> sizes ! s \<le> 10 \<Longrightarrow> bits_of (sizes ! s) i = huff_path sizes s \<Longrightarrow>
        S i = huff_entry sizes s"
    and none: "\<And>i. (\<And>s. huff_in sizes k s \<Longrightarrow> sizes ! s \<le> 10 \<Longrightarrow> bits_of (sizes ! s) i \<noteq> huff_path sizes s) \<Longrightarrow>
        S i = 0"
    using inv by (simp_all add: huff_inv_def)
  have N: "?c \<notin> dom N"
  proof
    assume "?c \<in> dom N"
    then obtain m s where s: "take ?l ?c = take m (huff_path sizes s)" "huff_in sizes k s" "m < sizes ! s"
      unfolding dom by force
    from huff_prefixD [OF ok _ k s(1) [symmetric]] s show False by (auto simp: huff_in_def)
  qed
  have F: "take m ?c \<notin> dom F" if "m < ?l" for m
  proof
    assume "take m ?c \<in> dom F"
    then obtain s where s: "huff_in sizes k s" "take m ?c = take (sizes ! s) (huff_path sizes s)"
      using leaf by auto
    from huff_prefixD [OF ok k _ s(2)] s(1) that show False by (auto simp: huff_in_def)
  qed
  have direct: "S (take_bit 10 ?r) = 0"
  proof -
    have "bits_of (sizes ! s) (take_bit 10 ?r) \<noteq> huff_path sizes s"
      if s: "huff_in sizes k s" "sizes ! s \<le> 10" for s
    proof
      assume "bits_of (sizes ! s) (take_bit 10 ?r) = huff_path sizes s"
      then have "take (sizes ! s) ?c = take (sizes ! s) (huff_path sizes s)"
        using s(2) l path by (simp add: min_def)
      from huff_prefixD [OF ok k _ this] s l show False by (auto simp: huff_in_def)
    qed
    then show ?thesis by (rule none)
  qed
  have "\<exists>L' T' tn' N'. tinfl_insert_long ?l k ?r L T tn = Go (L', T', tn') \<and>
    tree_rep L' T' tn' N' (F(?c \<mapsto> k)) S \<and> dom N' = dom N \<union> (\<lambda>m. take m ?c) ` {10..<?l}"
  proof (rule tinfl_insert_long_rep [OF rep l path N, where I = "huff_nodes sizes"])
    show "dom N \<subseteq> huff_nodes sizes"
      unfolding dom using take_huff_path_nodes [OF ok] by (auto simp: huff_in_def)
  qed (use F take_huff_path_nodes [OF ok k] direct huff_nodes_card [OF ok] in auto)
  then obtain L' T' tn' N' where ins: "tinfl_insert_long ?l k ?r L T tn = Go (L', T', tn')"
    and rep': "tree_rep L' T' tn' N' (F(?c \<mapsto> k)) S" and dom': "dom N' = dom N \<union> (\<lambda>m. take m ?c) ` {10..<?l}"
    by blast
  have in_Suc: "huff_in sizes (Suc k) s \<longleftrightarrow> huff_in sizes k s \<or> s = k" for s
    using k by (auto simp: huff_in_def less_Suc_eq)
  have "dom N' = {take m (huff_path sizes s) | m s. huff_in sizes (Suc k) s \<and> 10 \<le> m \<and> m < sizes ! s}"
    unfolding dom' dom in_Suc by (auto simp: image_iff) blast+
  moreover have "(F(?c \<mapsto> k)) q = Some s \<longleftrightarrow> huff_in sizes (Suc k) s \<and> 10 < sizes ! s \<and> huff_path sizes s = q" for q s
  proof (cases "q = ?c")
    case True
    have "s = k" if "huff_in sizes k s" "huff_path sizes s = ?c"
    proof -
      have "sizes ! s = ?l" using arg_cong [OF that(2), of length] by simp
      with huff_prefixD [OF ok _ k, of s "sizes ! s" ?l] that show ?thesis by (simp add: huff_in_def)
    qed
    with True show ?thesis using l by (auto simp: in_Suc)
  next
    case False
    then show ?thesis using leaf by (auto simp: in_Suc)
  qed
  moreover have "S i = huff_entry sizes s"
    if "huff_in sizes (Suc k) s \<and> sizes ! s \<le> 10 \<and> bits_of (sizes ! s) i = huff_path sizes s" for i s
    using that l short by (auto simp: in_Suc)
  moreover have "S i = 0" if "\<forall>s. huff_in sizes (Suc k) s \<and> sizes ! s \<le> 10 \<longrightarrow>
      bits_of (sizes ! s) i \<noteq> huff_path sizes s" for i
    using that none by (auto simp: in_Suc)
  ultimately have "huff_inv sizes (Suc k) (nc[?l := nc ! ?l + 1]) L' T' tn' N' (F(?c \<mapsto> k)) S"
    using rep' inv next_code_step [of nc sizes k] k huff_okD(1) [OF ok k] unfolding huff_inv_def
    by (auto simp: huff_used_def simp del: fun_upd_apply)
  with ins show ?thesis by blast
qed

lemma tinfl_insert_syms_inv:
  assumes "huff_inv sizes k nc L T tn N F S" and "huff_ok sizes" and "rest = drop k sizes" and "k \<le> length sizes"
  shows "\<exists>L' T' nc' tn' N' F' S'. tinfl_insert_syms rest k nc L T tn = Go (L', T') \<and>
    huff_inv sizes (length sizes) nc' L' T' tn' N' F' S'"
  using assms
proof (induction rest arbitrary: k nc L T tn N F S)
  case Nil
  then have "k = length sizes" by simp
  with Nil show ?case by (metis tinfl_insert_syms.simps(1))
next
  case (Cons l rest)
  have k: "k < length sizes" and l: "l = sizes ! k" and rest: "rest = drop (Suc k) sizes"
    using Cons.prems(3) by (metis drop_eq_Nil list.distinct(1) not_le, metis nth_via_drop, metis drop_Suc list.sel(3) tl_drop)
  note IH = Cons.IH [OF _ Cons.prems(2) rest Suc_leI [OF k]]
  show ?case
  proof (cases "l = 0")
    case True
    with IH [OF huff_inv_unused [OF Cons.prems(1) k]] l show ?thesis by simp
  next
    case False
    then have used: "huff_used sizes k" using k l by (simp add: huff_used_def)
    note code = huff_inv_code [OF Cons.prems(1,2) used]
    show ?thesis
    proof (cases "l \<le> 10")
      case True
      then obtain S' where "huff_inv sizes (Suc k) (nc[l := nc ! l + 1])
          (tinfl_fill_fast l (huff_entry sizes k) (tinfl_rev_code l (huff_code sizes k) 0) L) T tn N F S'"
        using huff_inv_short [OF Cons.prems(1,2) used] l by blast
      from IH [OF this] show ?thesis using False True code l by (simp add: huff_entry_def Let_def)
    next
      case long: False
      then obtain L' T' tn' N' F' where
        ins: "tinfl_insert_long l k (tinfl_rev_code l (huff_code sizes k) 0) L T tn = Go (L', T', tn')" and
        "huff_inv sizes (Suc k) (nc[l := nc ! l + 1]) L' T' tn' N' F' S"
        using huff_inv_long [OF Cons.prems(1,2) used] l by (metis not_le)
      from IH [OF this(2)] show ?thesis using False long ins code l by (simp add: Let_def)
    qed
  qed
qed

section \<open>The table decodes the code\<close>

definition huff_table :: "nat list \<Rightarrow> tinfl_huff_table \<Rightarrow> bool" where
  "huff_table sizes t \<longleftrightarrow> huff_ok sizes \<and> (\<exists>nc tn N F S.
     huff_inv sizes (length sizes) nc (m_look_up t) (m_tree t) tn N F S)"

lemma huff_inv_init:
  assumes "length nc = 17" and "\<And>l. 0 < l \<Longrightarrow> l \<le> 16 \<Longrightarrow> nc ! l = huff_first sizes l"
  shows "huff_inv sizes 0 nc (replicate 1024 0) (replicate 576 0) (- 1) Map.empty Map.empty (\<lambda>_. 0)"
  using assms by (auto simp: huff_inv_def huff_in_def tree_rep_def node_ref_def)

lemma tinfl_build_table_ok:
  assumes "huff_ok sizes"
  obtains t where "tinfl_build_table sizes = Go t" and "huff_table sizes t"
proof -
  have small: "\<forall>c \<in> set sizes. c < 16" using assms by (simp add: huff_ok_def)
  obtain nc where nc: "tinfl_next_codes (tinfl_total_syms sizes) =
      (length (filter (\<lambda>c. c \<noteq> 0) sizes), huff_first sizes 16, nc)"
    and "length nc = 17" "\<And>l. 0 < l \<Longrightarrow> l \<le> 16 \<Longrightarrow> nc ! l = huff_first sizes l"
    using next_codes_spec [OF small] by blast
  from huff_inv_init [OF this(2,3)] obtain L T nc' tn N F S where
    ins: "tinfl_insert_syms sizes 0 nc (replicate 1024 0) (replicate 576 0) (- 1) = Go (L, T)" and
    inv: "huff_inv sizes (length sizes) nc' L T tn N F S"
    using tinfl_insert_syms_inv [OF _ assms, of 0] by (metis drop_0 le0)
  have "\<not> (\<exists>c \<in> set sizes. 16 \<le> c)" using small by auto
  then have "tinfl_build_table sizes = Go \<lparr>m_look_up = L, m_tree = T\<rparr>"
    using nc ins assms by (auto simp: tinfl_build_table_def huff_ok_def)
  moreover have "huff_table sizes \<lparr>m_look_up = L, m_tree = T\<rparr>"
    using inv assms unfolding huff_table_def by (metis tinfl_huff_table.select_convs)
  ultimately show ?thesis by (rule that)
qed

lemma tinfl_build_table_rejects:
  assumes "\<not> huff_ok sizes" and "length sizes \<le> 288" and small: "\<forall>c \<in> set sizes. c < 16"
  shows "tinfl_build_table sizes = Exit 35 TINFL_STATUS_FAILED"
proof -
  obtain nc where "tinfl_next_codes (tinfl_total_syms sizes) =
      (length (filter (\<lambda>c. c \<noteq> 0) sizes), huff_first sizes 16, nc)"
    using next_codes_spec [OF small] by blast
  moreover have "\<not> (\<exists>c \<in> set sizes. 16 \<le> c)" using small by auto
  ultimately show ?thesis using assms by (auto simp: tinfl_build_table_def huff_ok_def)
qed

lemma node_slot_plus: "- node_ref n - 1 + int (of_bool b) = int (2 * n + of_bool b)"
  by (simp add: node_ref_def)

lemma tinfl_tree_walk_spec:
  assumes rep: "tree_rep L T tn N F S" and deep: "\<And>p. p \<in> dom N \<Longrightarrow> length p < 15"
    and "N (bits_of k w) = Some n" and "15 - k \<le> fuel"
  shows "\<exists>l. tinfl_tree_walk fuel T again w (node_ref n) k = Go (node_val N F (bits_of l w), l) \<and>
    k < l \<and> l \<le> 15 \<and> (\<forall>m. k \<le> m \<and> m < l \<longrightarrow> bits_of m w \<in> dom N) \<and>
    (\<forall>m. k < m \<and> m < l \<longrightarrow> again m) \<and> (bits_of l w \<in> dom N \<longrightarrow> \<not> again l)"
  using assms(3,4)
proof (induction "15 - k" arbitrary: k n fuel)
  case 0
  then have "length (bits_of k w) < 15" using deep by blast
  with 0 show ?case by simp
next
  case (Suc d)
  let ?b = "bit w k"
  obtain f where f: "fuel = Suc f" "15 - Suc k \<le> f" using Suc.hyps(2) Suc.prems(2) by (cases fuel) auto
  have slot: "tree_slot T (- node_ref n - 1 + int (drop_bit k w AND 1)) = Go (2 * n + of_bool ?b)"
    using tree_rep_slot(1) [OF rep Suc.prems(1), of ?b] tree_rep_slot(3) [OF rep Suc.prems(1)]
    unfolding and_1_drop_bit node_slot_plus tree_slot_def nat_int by (simp del: of_nat_add of_nat_mult)
  have val: "T ! (2 * n + of_bool ?b) = node_val N F (bits_of (Suc k) w)"
    using tree_rep_slot(2) [OF rep Suc.prems(1), of ?b] by (simp add: bits_of_Suc)
  have k: "k < 15" using Suc.hyps(2) by simp
  have neg: "node_val N F (bits_of (Suc k) w) < 0 \<longleftrightarrow> bits_of (Suc k) w \<in> dom N"
    by (auto simp: node_val_def split: option.splits)
  have step: "tinfl_tree_walk fuel T again w (node_ref n) k =
    (if bits_of (Suc k) w \<in> dom N \<and> again (Suc k)
     then tinfl_tree_walk f T again w (node_val N F (bits_of (Suc k) w)) (Suc k)
     else Go (node_val N F (bits_of (Suc k) w), Suc k))"
    unfolding f(1) tinfl_tree_walk.simps slot cr_bind.simps val neg by simp
  show ?case
  proof (cases "bits_of (Suc k) w \<in> dom N \<and> again (Suc k)")
    case True
    then obtain n' where n': "N (bits_of (Suc k) w) = Some n'" by auto
    have "d = 15 - Suc k" using Suc.hyps(2) by simp
    from Suc.hyps(1) [OF this n' f(2)] obtain l where l:
      "tinfl_tree_walk f T again w (node_ref n') (Suc k) = Go (node_val N F (bits_of l w), l)" "Suc k < l" "l \<le> 15"
      "\<forall>m. Suc k \<le> m \<and> m < l \<longrightarrow> bits_of m w \<in> dom N" "\<forall>m. Suc k < m \<and> m < l \<longrightarrow> again m"
      "bits_of l w \<in> dom N \<longrightarrow> \<not> again l" by auto
    have "bits_of m w \<in> dom N" if "k \<le> m" "m < l" for m
      using that l(4) Suc.prems(1) by (cases "m = k") auto
    moreover have "again m" if "k < m" "m < l" for m
      using that l(5) True by (cases "m = Suc k") auto
    moreover have "tinfl_tree_walk fuel T again w (node_ref n) k = Go (node_val N F (bits_of l w), l)"
      unfolding step using True n' l(1) by (simp add: node_val_def)
    ultimately show ?thesis using l(2,3,6) by (intro exI [of _ l]) auto
  next
    case False
    then have "tinfl_tree_walk fuel T again w (node_ref n) k = Go (node_val N F (bits_of (Suc k) w), Suc k)"
      unfolding step by auto
    moreover have "bits_of m w \<in> dom N" if "k \<le> m" "m < Suc k" for m
      using that Suc.prems(1) by (auto simp: less_Suc_eq)
    ultimately show ?thesis using False k by (intro exI [of _ "Suc k"]) auto
  qed
qed

text \<open>What both decoding macros rely on. For any content of the buffer the search ends within the
  arrays; it finds the symbol whose code the buffer starts with.\<close>

definition huff_rep :: "nat list \<Rightarrow> tinfl_huff_table \<Rightarrow> (bool list \<rightharpoonup> nat) \<Rightarrow> (bool list \<rightharpoonup> nat) \<Rightarrow> (nat \<Rightarrow> int) \<Rightarrow> bool" where
  "huff_rep sizes t N F S \<longleftrightarrow> huff_ok sizes \<and> (\<exists>nc tn.
     huff_inv sizes (length sizes) nc (m_look_up t) (m_tree t) tn N F S)"

lemma huff_tableE:
  assumes "huff_table sizes t"
  obtains N F S where "huff_rep sizes t N F S"
  using assms unfolding huff_table_def huff_rep_def by blast

lemma huff_repD:
  assumes "huff_rep sizes t N F S"
  shows "huff_ok sizes" and "\<exists>tn. tree_rep (m_look_up t) (m_tree t) tn N F S"
    and "p \<in> dom N \<longleftrightarrow> (\<exists>m s. huff_used sizes s \<and> 10 \<le> m \<and> m < sizes ! s \<and> p = take m (huff_path sizes s))"
    and "p \<in> dom N \<Longrightarrow> length p < 15"
    and "F q = Some s \<longleftrightarrow> huff_used sizes s \<and> 10 < sizes ! s \<and> huff_path sizes s = q"
    and "huff_used sizes s \<Longrightarrow> sizes ! s \<le> 10 \<Longrightarrow> bits_of (sizes ! s) i = huff_path sizes s \<Longrightarrow>
        S i = huff_entry sizes s"
    and "(\<And>s. huff_used sizes s \<Longrightarrow> sizes ! s \<le> 10 \<Longrightarrow> bits_of (sizes ! s) i \<noteq> huff_path sizes s) \<Longrightarrow>
        S i = 0"
proof -
  obtain nc tn where ok: "huff_ok sizes" and
    inv: "huff_inv sizes (length sizes) nc (m_look_up t) (m_tree t) tn N F S"
    using assms by (auto simp: huff_rep_def)
  have all: "huff_in sizes (length sizes) s \<longleftrightarrow> huff_used sizes s" for s
    by (auto simp: huff_in_def huff_used_def)
  show "huff_ok sizes" by (rule ok)
  show "\<exists>tn. tree_rep (m_look_up t) (m_tree t) tn N F S" using inv by (auto simp: huff_inv_def)
  show dom: "p \<in> dom N \<longleftrightarrow> (\<exists>m s. huff_used sizes s \<and> 10 \<le> m \<and> m < sizes ! s \<and> p = take m (huff_path sizes s))"
    using inv unfolding huff_inv_def all by auto
  show "length p < 15" if "p \<in> dom N"
  proof -
    from that dom obtain m s where s: "huff_used sizes s" "m < sizes ! s" "p = take m (huff_path sizes s)" by blast
    with huff_okD(1) [OF ok s(1)] show ?thesis by simp
  qed
  show "F q = Some s \<longleftrightarrow> huff_used sizes s \<and> 10 < sizes ! s \<and> huff_path sizes s = q"
    using inv by (simp add: huff_inv_def all)
  show "S i = huff_entry sizes s"
    if "huff_used sizes s" "sizes ! s \<le> 10" "bits_of (sizes ! s) i = huff_path sizes s"
    using inv that by (simp add: huff_inv_def all)
  show "S i = 0" if "\<And>s. huff_used sizes s \<Longrightarrow> sizes ! s \<le> 10 \<Longrightarrow> bits_of (sizes ! s) i \<noteq> huff_path sizes s"
    using inv that by (simp add: huff_inv_def all)
qed

text \<open>The element the low ten bits select.\<close>

lemma huff_rep_look_up:
  assumes "huff_rep sizes t N F S"
  shows "m_look_up t ! (w AND 1023) = (case N (bits_of 10 w) of Some n \<Rightarrow> node_ref n | None \<Rightarrow> S (take_bit 10 w))"
    and "15 - 10 \<le> length (m_tree t)"
proof -
  obtain tn where rep: "tree_rep (m_look_up t) (m_tree t) tn N F S" using huff_repD(2) [OF assms] by blast
  have "take_bit 10 w < 1024" using take_bit_nat_less_exp [of 10 w] by simp
  then show "m_look_up t ! (w AND 1023) = (case N (bits_of 10 w) of Some n \<Rightarrow> node_ref n | None \<Rightarrow> S (take_bit 10 w))"
    using rep unfolding tree_rep_def and_1023 by (auto split: option.splits)
  show "15 - 10 \<le> length (m_tree t)" using rep by (simp add: tree_rep_def)
qed

lemma huff_rep_walk:
  assumes h: "huff_rep sizes t N F S" and n: "N (bits_of 10 w) = Some n"
  obtains l where
    "tinfl_tree_walk (length (m_tree t)) (m_tree t) again w (node_ref n) 10 = Go (node_val N F (bits_of l w), l)"
    and "10 < l" and "l \<le> 15" and "\<And>m. 10 \<le> m \<Longrightarrow> m < l \<Longrightarrow> bits_of m w \<in> dom N"
    and "\<And>m. 10 < m \<Longrightarrow> m < l \<Longrightarrow> again m" and "bits_of l w \<in> dom N \<Longrightarrow> \<not> again l"
proof -
  obtain tn where rep: "tree_rep (m_look_up t) (m_tree t) tn N F S" using huff_repD(2) [OF h] by blast
  from tinfl_tree_walk_spec [OF rep huff_repD(4) [OF h] n huff_rep_look_up(2) [OF h], of again] show ?thesis
    using that by blast
qed

lemma drop_bit_huff_entry:
  assumes "huff_ok sizes" and "huff_used sizes s"
  shows "drop_bit 9 (huff_entry sizes s) = int (sizes ! s)" and "0 \<le> huff_entry sizes s"
    and "huff_entry sizes s AND 511 = int s"
proof -
  have s: "s < 512" using huff_okD(3) [OF assms] by simp
  have "drop_bit 9 (push_bit 9 (sizes ! s) OR s) = sizes ! s"
  proof -
    have "drop_bit 9 s = 0" using s by (simp add: drop_bit_eq_div)
    then show ?thesis by (simp add: drop_bit_or drop_bit_push_bit)
  qed
  then show "drop_bit 9 (huff_entry sizes s) = int (sizes ! s)"
    unfolding huff_entry_def by (metis drop_bit_of_nat)
  show "0 \<le> huff_entry sizes s" by (simp add: huff_entry_def)
  have "take_bit 9 (push_bit 9 (sizes ! s) OR s) = s"
    using s by (simp add: take_bit_push_bit take_bit_nat_eq_self)
  then have "take_bit 9 (huff_entry sizes s) = int s"
    unfolding huff_entry_def by (metis take_bit_of_nat)
  then show "huff_entry sizes s AND 511 = int s" by (simp add: take_bit_eq_mask mask_eq_exp_minus_1)
qed

lemma huff_rep_no_node:
  assumes h: "huff_rep sizes t N F S" and s: "huff_used sizes s" "sizes ! s \<le> m"
    and w: "bits_of (sizes ! s) w = huff_path sizes s"
  shows "bits_of m w \<notin> dom N"
proof
  assume "bits_of m w \<in> dom N"
  then obtain m' s' where s': "huff_used sizes s'" "10 \<le> m'" "m' < sizes ! s'" "bits_of m w = take m' (huff_path sizes s')"
    using huff_repD(3) [OF h] by blast
  have "m' = m" using arg_cong [OF s'(4), of length] s'(3) by simp
  then have "take (sizes ! s) (bits_of m w) = take (sizes ! s) (take m (huff_path sizes s'))"
    using s'(4) by simp
  then have "take (sizes ! s) (huff_path sizes s') = take (sizes ! s) (huff_path sizes s)"
    using s(2) w by (simp add: min_absorb1)
  from huff_prefixD [OF huff_repD(1) [OF h] s'(1) s(1) this] s' s(2) \<open>m' = m\<close> show False by simp
qed

lemma tinfl_lookup_code:
  assumes t: "huff_table sizes t" and s: "huff_used sizes s" and w: "bits_of (sizes ! s) w = huff_path sizes s"
  shows "tinfl_lookup low t w = Go (if sizes ! s \<le> 10 then low (huff_entry sizes s) else int s, sizes ! s)"
proof -
  obtain N F S where h: "huff_rep sizes t N F S" using huff_tableE [OF t] .
  note look = huff_rep_look_up(1) [OF h, of w]
  show ?thesis
  proof (cases "sizes ! s \<le> 10")
    case True
    have "bits_of 10 w \<notin> dom N" using huff_rep_no_node [OF h s True w] .
    moreover have "S (take_bit 10 w) = huff_entry sizes s"
      using huff_repD(6) [OF h s True, of "take_bit 10 w"] w True by simp
    ultimately show ?thesis using True look drop_bit_huff_entry [OF huff_repD(1) [OF h] s]
      by (simp add: tinfl_lookup_def domIff)
  next
    case False
    have prefix: "bits_of m w \<in> dom N" if "10 \<le> m" "m < sizes ! s" for m
      using huff_repD(3) [OF h, of "bits_of m w"] arg_cong [OF w, of "take m"] s that by (auto simp: min_def)
    have "bits_of 10 w \<in> dom N" using prefix [of 10] False by simp
    then obtain n where n: "N (bits_of 10 w) = Some n" by auto
    obtain l where
      l: "tinfl_tree_walk (length (m_tree t)) (m_tree t) (\<lambda>_. True) w (node_ref n) 10 =
          Go (node_val N F (bits_of l w), l)" "10 < l" "\<And>m. 10 \<le> m \<Longrightarrow> m < l \<Longrightarrow> bits_of m w \<in> dom N"
        "bits_of l w \<notin> dom N" using huff_rep_walk [OF h n, of "\<lambda>_. True"] by metis
    have F: "F (bits_of (sizes ! s) w) = Some s" using huff_repD(5) [OF h] s w False by simp
    have "bits_of (sizes ! s) w \<notin> dom N" using huff_rep_no_node [OF h s _ w] by simp
    then have "l = sizes ! s"
      using l(2,4) l(3) [of "sizes ! s"] prefix [of l] False by (cases l "sizes ! s" rule: linorder_cases) auto
    with l(1,4) F n look False show ?thesis
      by (simp add: tinfl_lookup_def node_val_def domIff Let_def)
  qed
qed

text \<open>When the buffer starts with no code, which only an incomplete code allows, the routine takes it for
  symbol 0.\<close>

lemma tinfl_lookup_total:
  assumes "huff_table sizes t"
  shows "(\<exists>s. huff_used sizes s \<and> bits_of (sizes ! s) w = huff_path sizes s) \<or>
    tinfl_lookup low t w = Go (low 0, 0) \<or> (\<exists>l. 10 < l \<and> l \<le> 15 \<and> tinfl_lookup low t w = Go (0, l))"
proof -
  obtain N F S where h: "huff_rep sizes t N F S" using huff_tableE [OF assms] .
  note look = huff_rep_look_up(1) [OF h, of w]
  show ?thesis
  proof (cases "N (bits_of 10 w)")
    case None
    show ?thesis
    proof (cases "\<exists>s. huff_used sizes s \<and> sizes ! s \<le> 10 \<and> bits_of (sizes ! s) w = huff_path sizes s")
      case False
      then have "S (take_bit 10 w) = 0" by (intro huff_repD(7) [OF h]) auto
      with None look show ?thesis by (simp add: tinfl_lookup_def)
    qed blast
  next
    case (Some n)
    obtain l where
      l: "tinfl_tree_walk (length (m_tree t)) (m_tree t) (\<lambda>_. True) w (node_ref n) 10 =
          Go (node_val N F (bits_of l w), l)" "10 < l" "l \<le> 15" "bits_of l w \<notin> dom N"
      using huff_rep_walk [OF h Some, of "\<lambda>_. True"] by metis
    show ?thesis
    proof (cases "F (bits_of l w)")
      case None
      with l Some look show ?thesis by (auto simp: tinfl_lookup_def node_val_def domIff Let_def)
    next
      case (Some s)
      then have s: "huff_used sizes s" "huff_path sizes s = bits_of l w" using huff_repD(5) [OF h] by auto
      have "l = sizes ! s" by (metis s(2) length_bits_of length_huff_path)
      with s show ?thesis by (intro disjI1) auto
    qed
  qed
qed

end
