(* ===== verification/Sqfs_Tinfl.thy ===== *)
theory Sqfs_Tinfl
  imports Sqfs_Huff Sqfs_Decompress
begin

text \<open>
  The inflate routine of the Windows build: \<^verbatim>\<open>win/tinfl.c\<close> and the codec wrapper of
  \<^verbatim>\<open>win/win_decompress.c.inc\<close>. \<^verbatim>\<open>tinfl_decompress\<close> is a coroutine; the program calls it once
  per block, through \<^verbatim>\<open>tinfl_decompress_mem_to_mem\<close>, on the whole input
  (\<^verbatim>\<open>TINFL_FLAG_HAS_MORE_INPUT\<close> clear) and a buffer that takes the whole output
  (\<^verbatim>\<open>TINFL_FLAG_USING_NON_WRAPPING_OUTPUT_BUF\<close> set). The model is that call: every label the
  coroutine can leave at is an \<open>Exit\<close>, and it is never resumed. With a mask of all ones the test for a power of two
  holds, so that \<^verbatim>\<open>TINFL_STATUS_BAD_PARAM\<close> is not returned.

  \<^item> \<open>tinfl_io\<close> holds the locals the macros work on. The output is the list of the bytes written:
    every store of the routine is at \<^verbatim>\<open>pOut_buf_cur\<close>. A store at or after \<^verbatim>\<open>pOut_buf_end\<close> is the
    fault \<open>Out_Of_Bounds\<close>, a load from a byte not yet written \<open>Uninitialised\<close>.
  \<^item> \<open>bit_buf_size\<close> is \<^verbatim>\<open>TINFL_BITBUF_SIZE\<close>, 64 or 32: both branches of
    \<^verbatim>\<open>TINFL_USE_64BIT_BITBUF\<close> are modelled, with \<^verbatim>\<open>MINIZ_USE_UNALIGNED_LOADS_AND_STORES\<close> set as on every x86 target.
\<close>

section \<open>Locals and sequencing\<close>

record tinfl_io =
  bit_buf_size :: nat
  pIn_buf :: bytes
  pIn_buf_cur :: nat
  bit_buf :: nat
  num_bits :: nat
  pOut_buf :: bytes
  pOut_buf_end :: nat

type_synonym 'a co = "tinfl_io \<Rightarrow> 'a cr \<times> tinfl_io"

definition co_ret :: "'a \<Rightarrow> 'a co" where
  "co_ret a s = (Go a, s)"

definition co_lift :: "'a cr \<Rightarrow> 'a co" where
  "co_lift r s = (r, s)"

definition co_exit :: "nat \<Rightarrow> tinfl_status \<Rightarrow> 'a co" where
  "co_exit i st s = (Exit i st, s)"

definition co_crash :: "fault \<Rightarrow> 'a co" where
  "co_crash u s = (Crash u, s)"

definition co_gets :: "(tinfl_io \<Rightarrow> 'a) \<Rightarrow> 'a co" where
  "co_gets f s = (Go (f s), s)"

definition co_modify :: "(tinfl_io \<Rightarrow> tinfl_io) \<Rightarrow> unit co" where
  "co_modify f s = (Go (), f s)"

definition co_bind :: "'a co \<Rightarrow> ('a \<Rightarrow> 'b co) \<Rightarrow> 'b co" where
  "co_bind m f s = (case m s of (r, s') \<Rightarrow>
     (case r of Go a \<Rightarrow> f a s' | Exit i st \<Rightarrow> (Exit i st, s') | Crash u \<Rightarrow> (Crash u, s')))"

lemmas co_simps = co_ret_def co_lift_def co_exit_def co_crash_def co_gets_def co_modify_def co_bind_def

section \<open>The bit buffer\<close>

text \<open>Subtraction of \<^verbatim>\<open>mz_uint32\<close> values.\<close>

definition u32_sub :: "nat \<Rightarrow> nat \<Rightarrow> nat" where
  "u32_sub a b = (a + 2 ^ 32 - b) mod 2 ^ 32"

text \<open>\<^verbatim>\<open>TINFL_GET_BYTE\<close>: past the end of the input the byte is 0.\<close>

definition tinfl_get_byte :: "tinfl_io \<Rightarrow> u8 \<times> tinfl_io" where
  "tinfl_get_byte s =
     (if length (pIn_buf s) \<le> pIn_buf_cur s then (0, s)
      else (pIn_buf s ! pIn_buf_cur s, s\<lparr>pIn_buf_cur := pIn_buf_cur s + 1\<rparr>))"

text \<open>\<^verbatim>\<open>bit_buf |= ((tinfl_bit_buf_t)c << num_bits); num_bits += n\<close>\<close>

definition tinfl_add_bits :: "nat \<Rightarrow> nat \<Rightarrow> tinfl_io \<Rightarrow> tinfl_io" where
  "tinfl_add_bits c n s =
     s\<lparr>bit_buf := bit_buf s OR take_bit (bit_buf_size s) (push_bit (num_bits s) c), num_bits := num_bits s + n\<rparr>"

definition tinfl_add_byte :: "tinfl_io \<Rightarrow> tinfl_io" where
  "tinfl_add_byte s = (case tinfl_get_byte s of (c, s) \<Rightarrow> tinfl_add_bits (unat c) 8 s)"

definition tinfl_drop_bits :: "nat \<Rightarrow> tinfl_io \<Rightarrow> tinfl_io" where
  "tinfl_drop_bits n s = s\<lparr>bit_buf := drop_bit n (bit_buf s), num_bits := u32_sub (num_bits s) n\<rparr>"

lemma tinfl_add_byte_num_bits [simp]: "num_bits (tinfl_add_byte s) = num_bits s + 8"
  by (auto simp: tinfl_add_byte_def tinfl_get_byte_def tinfl_add_bits_def)

function tinfl_need_bits :: "nat \<Rightarrow> tinfl_io \<Rightarrow> tinfl_io" where
  "tinfl_need_bits n s =
     (let s = tinfl_add_byte s in if num_bits s < n then tinfl_need_bits n s else s)"
  by pat_completeness auto
termination by (relation "measure (\<lambda>(n, s). n - num_bits s)") auto

declare tinfl_need_bits.simps [simp del]

definition tinfl_skip_bits :: "nat \<Rightarrow> unit co" where
  "tinfl_skip_bits n s =
     (let s = (if num_bits s < n then tinfl_need_bits n s else s)
      in (Go (), tinfl_drop_bits n s))"

definition tinfl_get_bits :: "nat \<Rightarrow> nat co" where
  "tinfl_get_bits n s =
     (let s = (if num_bits s < n then tinfl_need_bits n s else s)
      in (Go (bit_buf s AND (2 ^ n - 1)), tinfl_drop_bits n s))"

section \<open>Decoding a symbol\<close>

text \<open>\<^verbatim>\<open>TINFL_HUFF_BITBUF_FILL\<close>: the test whether the buffer holds a whole code, and the loop.\<close>

definition tinfl_huff_ready :: "tinfl_huff_table \<Rightarrow> tinfl_io \<Rightarrow> bool cr" where
  "tinfl_huff_ready t s =
     (let temp = m_look_up t ! (bit_buf s AND (TINFL_FAST_LOOKUP_SIZE - 1))
      in if 0 \<le> temp
      then let code_len = nat (drop_bit 9 temp) in Go (code_len \<noteq> 0 \<and> code_len \<le> num_bits s)
      else if TINFL_FAST_LOOKUP_BITS < num_bits s
      then cr_bind (tinfl_tree_walk (length (m_tree t)) (m_tree t) (\<lambda>code_len. code_len + 1 \<le> num_bits s)
             (bit_buf s) temp TINFL_FAST_LOOKUP_BITS) (\<lambda>(temp, code_len). Go (0 \<le> temp))
      else Go False)"

function tinfl_huff_fill :: "tinfl_huff_table \<Rightarrow> unit co" where
  "tinfl_huff_fill t s =
     (case tinfl_huff_ready t s of
        Go r \<Rightarrow> if r then (Go (), s) else
          let s = tinfl_add_byte s in if num_bits s < 15 then tinfl_huff_fill t s else (Go (), s)
      | Exit i st \<Rightarrow> (Exit i st, s)
      | Crash u \<Rightarrow> (Crash u, s))"
  by pat_completeness auto
termination by (relation "measure (\<lambda>(t, s). 15 - num_bits s)") auto

declare tinfl_huff_fill.simps [simp del]

text \<open>Two bytes at once.\<close>

definition tinfl_add_2_bytes :: "tinfl_io \<Rightarrow> tinfl_io" where
  "tinfl_add_2_bytes s =
     (let c0 = unat (pIn_buf s ! pIn_buf_cur s); c1 = unat (pIn_buf s ! (pIn_buf_cur s + 1))
      in s\<lparr>bit_buf := bit_buf s OR take_bit (bit_buf_size s) (push_bit (num_bits s) c0)
             OR take_bit (bit_buf_size s) (push_bit (num_bits s + 8) c1),
           pIn_buf_cur := pIn_buf_cur s + 2, num_bits := num_bits s + 16\<rparr>)"

text \<open>\<^verbatim>\<open>TINFL_HUFF_DECODE\<close>\<close>

definition tinfl_huff_decode :: "tinfl_huff_table \<Rightarrow> nat co" where
  "tinfl_huff_decode t =
     co_bind (\<lambda>s. if num_bits s < 15
        then if length (pIn_buf s) - pIn_buf_cur s < 2 then tinfl_huff_fill t s
             else (Go (), tinfl_add_2_bytes s)
        else (Go (), s)) (\<lambda>_.
     co_bind (\<lambda>s. (tinfl_lookup (\<lambda>temp. temp AND 511) t (bit_buf s), s)) (\<lambda>(temp, code_len).
     co_bind (co_modify (tinfl_drop_bits code_len)) (\<lambda>_.
     co_ret (nat temp))))"

section \<open>Stores\<close>

definition tinfl_put_byte :: "u8 \<Rightarrow> unit co" where
  "tinfl_put_byte b s =
     (if length (pOut_buf s) < pOut_buf_end s then (Go (), s\<lparr>pOut_buf := pOut_buf s @ [b]\<rparr>)
      else (Crash Out_Of_Bounds, s))"

text \<open>\<^verbatim>\<open>while (pOut_buf_cur >= pOut_buf_end) TINFL_CR_RETURN(i, TINFL_STATUS_HAS_MORE_OUTPUT)\<close>\<close>

definition tinfl_room :: "nat \<Rightarrow> unit co" where
  "tinfl_room i s =
     (if pOut_buf_end s \<le> length (pOut_buf s) then (Exit i TINFL_STATUS_HAS_MORE_OUTPUT, s) else (Go (), s))"

text \<open>Copies of 1 and of 4 bytes from the output; \<open>src\<close> is an offset from \<^verbatim>\<open>pOut_buf_start\<close>.\<close>

definition tinfl_copy_byte :: "nat \<Rightarrow> unit co" where
  "tinfl_copy_byte src s =
     (if length (pOut_buf s) \<le> src then (Crash Uninitialised, s) else tinfl_put_byte (pOut_buf s ! src) s)"

definition tinfl_copy_32 :: "nat \<Rightarrow> unit co" where
  "tinfl_copy_32 src s =
     (if length (pOut_buf s) < src + 4 then (Crash Uninitialised, s)
      else if pOut_buf_end s < length (pOut_buf s) + 4 then (Crash Out_Of_Bounds, s)
      else (Go (), s\<lparr>pOut_buf := pOut_buf s @ take 4 (drop src (pOut_buf s))\<rparr>))"

section \<open>Literals\<close>

text \<open>The refill of the fast loop, for a buffer of 64 and of 32 bits.\<close>

definition tinfl_refill_64 :: "tinfl_io \<Rightarrow> tinfl_io" where
  "tinfl_refill_64 s =
     (if bit_buf_size s = 64 \<and> num_bits s < 30
      then (tinfl_add_bits (unat (sqfs_swapin32 (take 4 (drop (pIn_buf_cur s) (pIn_buf s)))) ) 32 s)
             \<lparr>pIn_buf_cur := pIn_buf_cur s + 4\<rparr>
      else s)"

definition tinfl_refill_32 :: "tinfl_io \<Rightarrow> tinfl_io" where
  "tinfl_refill_32 s =
     (if bit_buf_size s \<noteq> 64 \<and> num_bits s < 15
      then (tinfl_add_bits (unat (sqfs_swapin16 (take 2 (drop (pIn_buf_cur s) (pIn_buf s))))) 16 s)
             \<lparr>pIn_buf_cur := pIn_buf_cur s + 2\<rparr>
      else s)"

definition tinfl_fast_sym :: "tinfl_huff_table \<Rightarrow> nat co" where
  "tinfl_fast_sym t =
     co_bind (\<lambda>s. (tinfl_lookup (\<lambda>sym2. sym2) t (bit_buf s), s)) (\<lambda>(sym2, code_len).
     co_bind (co_modify (tinfl_drop_bits code_len)) (\<lambda>_.
     co_ret (nat sym2)))"

text \<open>One turn of the inner loop: \<open>Some counter\<close> when it breaks.\<close>

definition tinfl_literal :: "tinfl_huff_table \<Rightarrow> nat option co" where
  "tinfl_literal t s =
     (if length (pIn_buf s) - pIn_buf_cur s < 4 \<or> pOut_buf_end s - length (pOut_buf s) < 2
      then co_bind (tinfl_huff_decode t) (\<lambda>counter.
           if 256 \<le> counter then co_ret (Some counter) else
           co_bind (tinfl_room 24) (\<lambda>_.
           co_bind (tinfl_put_byte (of_nat counter)) (\<lambda>_.
           co_ret None))) s
      else co_bind (co_modify (\<lambda>s. tinfl_refill_32 (tinfl_refill_64 s))) (\<lambda>_.
           co_bind (tinfl_fast_sym t) (\<lambda>counter.
           if counter AND 256 \<noteq> 0 then co_ret (Some counter) else
           co_bind (co_modify tinfl_refill_32) (\<lambda>_.
           co_bind (tinfl_fast_sym t) (\<lambda>sym2.
           co_bind (tinfl_put_byte (of_nat counter)) (\<lambda>_.
           if sym2 AND 256 \<noteq> 0 then co_ret (Some sym2) else
           co_bind (tinfl_put_byte (of_nat sym2)) (\<lambda>_.
           co_ret None)))))) s)"

fun tinfl_literals :: "nat \<Rightarrow> tinfl_huff_table \<Rightarrow> nat co" where
  "tinfl_literals 0 t = co_crash Diverges"
| "tinfl_literals (Suc n) t =
     co_bind (tinfl_literal t) (\<lambda>r. case r of Some counter \<Rightarrow> co_ret counter | None \<Rightarrow> tinfl_literals n t)"

section \<open>Matches\<close>

definition s_length_base :: "nat list" where
  "s_length_base = [3,4,5,6,7,8,9,10,11,13, 15,17,19,23,27,31,35,43,51,59, 67,83,99,115,131,163,195,227,258,0,0]"

definition s_length_extra :: "nat list" where
  "s_length_extra = [0,0,0,0,0,0,0,0,1,1,1,1,2,2,2,2,3,3,3,3,4,4,4,4,5,5,5,5,0,0,0]"

definition s_dist_base :: "nat list" where
  "s_dist_base = [1,2,3,4,5,7,9,13,17,25,33,49,65,97,129,193, 257,385,513,769,1025,1537,2049,3073,4097,6145,8193,12289,16385,24577,0,0]"

definition s_dist_extra :: "nat list" where
  "s_dist_extra = [0,0,0,0,1,1,2,2,3,3,4,4,5,5,6,6,7,7,8,8,9,9,10,10,11,11,12,12,13,13,0,0]"

text \<open>The copy that may stop for want of room.\<close>

fun tinfl_copy_slow :: "nat \<Rightarrow> nat \<Rightarrow> unit co" where
  "tinfl_copy_slow 0 src = co_ret ()"
| "tinfl_copy_slow (Suc counter) src =
     co_bind (tinfl_room 53) (\<lambda>_.
     co_bind (tinfl_copy_byte src) (\<lambda>_. tinfl_copy_slow counter (src + 1)))"

text \<open>Eight bytes per turn; the loop tests its condition after the first turn. It returns \<^verbatim>\<open>pSrc\<close>.\<close>

function tinfl_copy_8 :: "nat \<Rightarrow> nat \<Rightarrow> nat co" where
  "tinfl_copy_8 src src_end =
     co_bind (tinfl_copy_32 src) (\<lambda>_.
     co_bind (tinfl_copy_32 (src + 4)) (\<lambda>_.
     if src + 8 < src_end then tinfl_copy_8 (src + 8) src_end else co_ret (src + 8)))"
  by pat_completeness auto
termination by (relation "measure (\<lambda>(a, b). b - a)") auto

declare tinfl_copy_8.simps [simp del]

text \<open>Three bytes per turn, before the condition \<^verbatim>\<open>(int)(counter -= 3) > 2\<close>.\<close>

function tinfl_copy_3 :: "int \<Rightarrow> nat \<Rightarrow> (int \<times> nat) co" where
  "tinfl_copy_3 counter src =
     co_bind (tinfl_copy_byte src) (\<lambda>_.
     co_bind (tinfl_copy_byte (src + 1)) (\<lambda>_.
     co_bind (tinfl_copy_byte (src + 2)) (\<lambda>_.
     if 2 < counter - 3 then tinfl_copy_3 (counter - 3) (src + 3) else co_ret (counter - 3, src + 3))))"
  by pat_completeness auto
termination by (relation "measure (\<lambda>(c, a). nat c)") auto

declare tinfl_copy_3.simps [simp del]

definition tinfl_copy_tail :: "int \<Rightarrow> nat \<Rightarrow> unit co" where
  "tinfl_copy_tail counter src =
     (if 0 < counter
      then co_bind (tinfl_copy_byte src) (\<lambda>_. if 1 < counter then tinfl_copy_byte (src + 1) else co_ret ())
      else co_ret ())"

definition tinfl_copy_fast :: "nat \<Rightarrow> nat \<Rightarrow> unit co" where
  "tinfl_copy_fast counter src =
     co_bind (tinfl_copy_3 (int counter) src) (\<lambda>(counter, src). tinfl_copy_tail counter src)"

definition tinfl_copy :: "nat \<Rightarrow> nat \<Rightarrow> unit co" where
  "tinfl_copy counter dist s =
     (let src = length (pOut_buf s) - dist
      in if pOut_buf_end s < max (length (pOut_buf s)) src + counter then tinfl_copy_slow counter src s
      else if 9 \<le> counter \<and> counter \<le> dist
      then co_bind (tinfl_copy_8 src (src + (counter - counter mod 8))) (\<lambda>src.
           let counter = counter mod 8
           in if counter < 3 then tinfl_copy_tail (int counter) src else tinfl_copy_fast counter src) s
      else tinfl_copy_fast counter src s)"

text \<open>From the length symbol to the end of the copy.\<close>

definition tinfl_extra :: "nat \<Rightarrow> nat co" where
  "tinfl_extra num_extra = (if num_extra \<noteq> 0 then tinfl_get_bits num_extra else co_ret 0)"

definition tinfl_match :: "tinfl_huff_table \<Rightarrow> nat \<Rightarrow> unit co" where
  "tinfl_match t1 counter =
     (if length s_length_base \<le> counter - 257 then co_crash Out_Of_Bounds else
      co_bind (tinfl_extra (s_length_extra ! (counter - 257))) (\<lambda>extra_bits.
      let counter = s_length_base ! (counter - 257) + extra_bits
      in co_bind (tinfl_huff_decode t1) (\<lambda>dist.
      if length s_dist_base \<le> dist then co_crash Out_Of_Bounds else
      co_bind (tinfl_extra (s_dist_extra ! dist)) (\<lambda>extra_bits.
      let dist = s_dist_base ! dist + extra_bits
      in co_bind (co_gets (\<lambda>s. length (pOut_buf s))) (\<lambda>dist_from_out_buf_start.
      if dist_from_out_buf_start < dist then co_exit 37 TINFL_STATUS_FAILED
      else tinfl_copy counter dist)))))"

text \<open>The compressed data of a block. Every turn of the loops writes to the output, so that a
  fuel of one more than the room that is left is enough.\<close>

fun tinfl_codes :: "nat \<Rightarrow> tinfl_huff_table \<Rightarrow> tinfl_huff_table \<Rightarrow> unit co" where
  "tinfl_codes 0 t0 t1 = co_crash Diverges"
| "tinfl_codes (Suc n) t0 t1 =
     co_bind (\<lambda>s. tinfl_literals (pOut_buf_end s - length (pOut_buf s) + 2) t0 s) (\<lambda>counter.
     let counter = counter AND 511
     in if counter = 256 then co_ret ()
     else co_bind (tinfl_match t1 counter) (\<lambda>_. tinfl_codes n t0 t1))"

section \<open>Stored blocks\<close>

text \<open>\<^verbatim>\<open>if (num_bits) TINFL_GET_BITS(.., 8) else TINFL_GET_BYTE(..)\<close>\<close>

definition tinfl_raw_byte :: "nat co" where
  "tinfl_raw_byte s =
     (if num_bits s \<noteq> 0 then tinfl_get_bits 8 s
      else case tinfl_get_byte s of (c, s) \<Rightarrow> (Go (unat c), s))"

text \<open>The bytes that are already in the bit buffer; returns what is left of \<^verbatim>\<open>counter\<close>.\<close>

fun tinfl_stored_bits :: "nat \<Rightarrow> nat co" where
  "tinfl_stored_bits 0 = co_ret 0"
| "tinfl_stored_bits (Suc counter) =
     (\<lambda>s. if num_bits s = 0 then (Go (Suc counter), s) else
      co_bind (tinfl_get_bits 8) (\<lambda>dist.
      co_bind (tinfl_room 52) (\<lambda>_.
      co_bind (tinfl_put_byte (of_nat dist)) (\<lambda>_. tinfl_stored_bits counter))) s)"

text \<open>The rest, copied from the input; the second turn of the loop finds no room or no input.\<close>

function tinfl_stored_copy :: "nat \<Rightarrow> unit co" where
  "tinfl_stored_copy counter s =
     (if counter = 0 then (Go (), s)
      else if pOut_buf_end s \<le> length (pOut_buf s) then (Exit 9 TINFL_STATUS_HAS_MORE_OUTPUT, s)
      else if length (pIn_buf s) \<le> pIn_buf_cur s then (Exit 40 TINFL_STATUS_FAILED, s)
      else let n = min (min (pOut_buf_end s - length (pOut_buf s)) (length (pIn_buf s) - pIn_buf_cur s)) counter
        in tinfl_stored_copy (counter - n)
             (s\<lparr>pOut_buf := pOut_buf s @ take n (drop (pIn_buf_cur s) (pIn_buf s)),
                pIn_buf_cur := pIn_buf_cur s + n\<rparr>))"
  by pat_completeness auto
termination by (relation "measure (\<lambda>(c, s). c)") auto

declare tinfl_stored_copy.simps [simp del]

definition tinfl_stored :: "unit co" where
  "tinfl_stored =
     co_bind (\<lambda>s. tinfl_skip_bits (num_bits s AND 7) s) (\<lambda>_.
     co_bind tinfl_raw_byte (\<lambda>h0.
     co_bind tinfl_raw_byte (\<lambda>h1.
     co_bind tinfl_raw_byte (\<lambda>h2.
     co_bind tinfl_raw_byte (\<lambda>h3.
     let counter = h0 OR push_bit 8 h1
     in if counter \<noteq> 65535 XOR (h2 OR push_bit 8 h3) then co_exit 39 TINFL_STATUS_FAILED else
     co_bind (tinfl_stored_bits counter) tinfl_stored_copy)))))"

section \<open>The tables of a block\<close>

text \<open>\<^verbatim>\<open>r->m_tables[0].m_code_size\<close> and \<^verbatim>\<open>r->m_tables[1].m_code_size\<close> of a block of type 1.\<close>

definition tinfl_fixed_sizes :: "nat list \<times> nat list" where
  "tinfl_fixed_sizes = (replicate 144 8 @ replicate 112 9 @ replicate 24 7 @ replicate 8 8, replicate 32 5)"

definition s_length_dezigzag :: "nat list" where
  "s_length_dezigzag = [16,17,18,0,8,7,9,6,10,5,11,4,12,3,13,2,14,1,15]"

text \<open>The lengths of the code length code: \<open>n\<close> lengths of 3 bits, in zigzag order.\<close>

fun tinfl_code_len_sizes :: "nat \<Rightarrow> nat \<Rightarrow> nat list \<Rightarrow> nat list co" where
  "tinfl_code_len_sizes 0 counter sizes = co_ret sizes"
| "tinfl_code_len_sizes (Suc n) counter sizes =
     co_bind (tinfl_get_bits 3) (\<lambda>s.
     tinfl_code_len_sizes n (counter + 1) (sizes[s_length_dezigzag ! counter := s]))"

text \<open>The loop that reads the code lengths of both tables. \<open>lens\<close> are the first \<^verbatim>\<open>counter\<close> elements of
  \<^verbatim>\<open>m_len_codes\<close>, which has 457; \<open>n\<close> is \<^verbatim>\<open>m_table_sizes[0] + m_table_sizes[1]\<close>. Every turn adds a
  length, so that a fuel of \<open>n\<close> is enough.\<close>

definition tinfl_len_codes_add :: "nat list \<Rightarrow> nat \<Rightarrow> nat \<Rightarrow> nat list co" where
  "tinfl_len_codes_add lens s v =
     (if 457 < length lens + s then co_crash Out_Of_Bounds else co_ret (lens @ replicate s v))"

fun tinfl_len_codes :: "nat \<Rightarrow> tinfl_huff_table \<Rightarrow> nat \<Rightarrow> nat list \<Rightarrow> nat list co" where
  "tinfl_len_codes fuel t2 n lens =
     (if n \<le> length lens then co_ret lens else
      case fuel of 0 \<Rightarrow> co_crash Diverges | Suc fuel \<Rightarrow>
      co_bind (tinfl_huff_decode t2) (\<lambda>dist.
      if dist < 16
      then co_bind (tinfl_len_codes_add lens 1 dist) (tinfl_len_codes fuel t2 n)
      else if dist = 16 \<and> lens = [] then co_exit 17 TINFL_STATUS_FAILED
      else if 18 < dist then co_crash Out_Of_Bounds
      else co_bind (tinfl_get_bits ([2, 3, 7] ! (dist - 16))) (\<lambda>s.
      co_bind (tinfl_len_codes_add lens (s + [3, 3, 11] ! (dist - 16)) (if dist = 16 then last lens else 0))
        (tinfl_len_codes fuel t2 n))))"

declare tinfl_len_codes.simps [simp del]

definition tinfl_dynamic_sizes :: "(nat list \<times> nat list) co" where
  "tinfl_dynamic_sizes =
     co_bind (tinfl_get_bits 5) (\<lambda>n0. let n0 = n0 + 257 in
     co_bind (tinfl_get_bits 5) (\<lambda>n1. let n1 = n1 + 1 in
     co_bind (tinfl_get_bits 4) (\<lambda>n2. let n2 = n2 + 4 in
     co_bind (tinfl_code_len_sizes n2 0 (replicate 19 0)) (\<lambda>sizes.
     co_bind (co_lift (tinfl_build_table sizes)) (\<lambda>t2.
     co_bind (tinfl_len_codes (n0 + n1) t2 (n0 + n1) []) (\<lambda>lens.
     if length lens \<noteq> n0 + n1 then co_exit 21 TINFL_STATUS_FAILED
     else co_ret (take n0 lens, drop n0 lens)))))))"

definition tinfl_huff_block :: "nat \<Rightarrow> unit co" where
  "tinfl_huff_block type =
     co_bind (if type = 1 then co_ret tinfl_fixed_sizes else tinfl_dynamic_sizes) (\<lambda>(sizes0, sizes1).
     co_bind (co_lift (tinfl_build_table sizes1)) (\<lambda>t1.
     co_bind (co_lift (tinfl_build_table sizes0)) (\<lambda>t0.
     \<lambda>s. tinfl_codes (pOut_buf_end s - length (pOut_buf s) + 2) t0 t1 s)))"

section \<open>The stream\<close>

definition tinfl_block :: "nat \<Rightarrow> unit co" where
  "tinfl_block m_type =
     (if m_type = 0 then tinfl_stored
      else if m_type = 3 then co_exit 10 TINFL_STATUS_FAILED
      else tinfl_huff_block m_type)"

text \<open>The loop over the blocks. A block takes bits from the input as long as there are any, and the zeros
  that follow it are no block: a fuel of one more than the bits of the input is enough.\<close>

fun tinfl_blocks :: "nat \<Rightarrow> unit co" where
  "tinfl_blocks 0 = co_crash Diverges"
| "tinfl_blocks (Suc n) =
     co_bind (tinfl_get_bits 3) (\<lambda>m_final.
     let m_type = drop_bit 1 m_final
     in co_bind (tinfl_block m_type) (\<lambda>_.
     if m_final AND 1 \<noteq> 0 then co_ret () else tinfl_blocks n))"

definition tinfl_zlib_header :: "unit co" where
  "tinfl_zlib_header s =
     (case tinfl_get_byte s of (c, s) \<Rightarrow> let m_zhdr0 = unat c in
      case tinfl_get_byte s of (c, s) \<Rightarrow> let m_zhdr1 = unat c in
      if (m_zhdr0 * 256 + m_zhdr1) mod 31 \<noteq> 0 \<or> m_zhdr1 AND 32 \<noteq> 0 \<or> m_zhdr0 AND 15 \<noteq> 8
      then (Exit 36 TINFL_STATUS_FAILED, s) else (Go (), s))"

text \<open>The checksum at the end, most significant byte first; \<^verbatim>\<open>m_z_adler32\<close> starts at 1.\<close>

fun tinfl_zlib_trailer :: "nat \<Rightarrow> u32 \<Rightarrow> u32 co" where
  "tinfl_zlib_trailer 0 m_z_adler32 = co_ret m_z_adler32"
| "tinfl_zlib_trailer (Suc n) m_z_adler32 =
     co_bind tinfl_raw_byte (\<lambda>s. tinfl_zlib_trailer n (push_bit 8 m_z_adler32 OR of_nat s))"

definition tinfl_stream :: "bool \<Rightarrow> u32 co" where
  "tinfl_stream zlib =
     co_bind (if zlib then tinfl_zlib_header else co_ret ()) (\<lambda>_.
     co_bind (\<lambda>s. tinfl_blocks (8 * length (pIn_buf s) + 2) s) (\<lambda>_.
     if zlib
     then co_bind (\<lambda>s. tinfl_skip_bits (num_bits s AND 7) s) (\<lambda>_. tinfl_zlib_trailer 4 1)
     else co_ret 1))"

section \<open>The checksum\<close>

definition tinfl_adler_byte :: "u32 \<times> u32 \<Rightarrow> u8 \<Rightarrow> u32 \<times> u32" where
  "tinfl_adler_byte = (\<lambda>(s1, s2) b. let s1 = s1 + ucast b in (s1, s2 + s1))"

text \<open>Eight bytes per turn while there are eight, then one at a time.\<close>

fun tinfl_adler_run :: "u32 \<times> u32 \<Rightarrow> bytes \<Rightarrow> u32 \<times> u32" where
  "tinfl_adler_run s (b0 # b1 # b2 # b3 # b4 # b5 # b6 # b7 # ptr) =
     tinfl_adler_run (foldl tinfl_adler_byte s [b0, b1, b2, b3, b4, b5, b6, b7]) ptr"
| "tinfl_adler_run s ptr = foldl tinfl_adler_byte s ptr"

function tinfl_adler_loop :: "u32 \<times> u32 \<Rightarrow> nat \<Rightarrow> bytes \<Rightarrow> u32 \<times> u32" where
  "tinfl_adler_loop s block_len ptr =
     (if ptr = [] then s else
      case tinfl_adler_run s (take block_len ptr) of (s1, s2) \<Rightarrow>
      tinfl_adler_loop (s1 mod 65521, s2 mod 65521) 5552 (drop block_len ptr))"
  by pat_completeness auto
termination
  by (relation "measures [\<lambda>(s, n, p). length p, \<lambda>(s, n, p). if n = 0 then 1 else 0]") auto

declare tinfl_adler_loop.simps [simp del]

definition tinfl_adler32 :: "u32 \<Rightarrow> bytes \<Rightarrow> u32" where
  "tinfl_adler32 check_adler32 ptr =
     (case tinfl_adler_loop (check_adler32 AND 0xffff, drop_bit 16 check_adler32) (length ptr mod 5552) ptr
      of (s1, s2) \<Rightarrow> push_bit 16 s2 + s1)"

section \<open>The call\<close>

abbreviation (input) TINFL_FLAG_PARSE_ZLIB_HEADER :: u32 where "TINFL_FLAG_PARSE_ZLIB_HEADER \<equiv> 1"
abbreviation (input) TINFL_FLAG_HAS_MORE_INPUT :: u32 where "TINFL_FLAG_HAS_MORE_INPUT \<equiv> 2"
abbreviation (input) TINFL_FLAG_USING_NON_WRAPPING_OUTPUT_BUF :: u32
  where "TINFL_FLAG_USING_NON_WRAPPING_OUTPUT_BUF \<equiv> 4"
abbreviation (input) TINFL_FLAG_COMPUTE_ADLER32 :: u32 where "TINFL_FLAG_COMPUTE_ADLER32 \<equiv> 8"

definition tinfl_init :: "nat \<Rightarrow> bytes \<Rightarrow> nat \<Rightarrow> tinfl_io" where
  "tinfl_init w inp out_size =
     \<lparr>bit_buf_size = w, pIn_buf = inp, pIn_buf_cur = 0, bit_buf = 0, num_bits = 0,
      pOut_buf = [], pOut_buf_end = out_size\<rparr>"

text \<open>The status, \<^verbatim>\<open>*pIn_buf_size\<close> and the bytes written, \<^verbatim>\<open>*pOut_buf_size\<close> of them. The statuses from
  \<^verbatim>\<open>TINFL_STATUS_DONE\<close> on are not negative.\<close>

definition tinfl_decompress ::
  "nat \<Rightarrow> bytes \<Rightarrow> nat \<Rightarrow> u32 \<Rightarrow> (tinfl_status \<times> nat \<times> bytes) res" where
  "tinfl_decompress w inp out_size decomp_flags =
     (let zlib = (decomp_flags AND TINFL_FLAG_PARSE_ZLIB_HEADER \<noteq> 0)
      in case tinfl_stream zlib (tinfl_init w inp out_size) of
        (Crash u, s) \<Rightarrow> Fault u
      | (Exit i status, s) \<Rightarrow> Ok (status, pIn_buf_cur s, pOut_buf s)
      | (Go m_z_adler32, s) \<Rightarrow>
          Ok (if zlib \<and> tinfl_adler32 1 (pOut_buf s) \<noteq> m_z_adler32 then TINFL_STATUS_ADLER32_MISMATCH
              else TINFL_STATUS_DONE, pIn_buf_cur s, pOut_buf s))"

text \<open>\<open>None\<close> is \<^verbatim>\<open>TINFL_DECOMPRESS_MEM_TO_MEM_FAILED\<close>; otherwise the bytes written.\<close>

definition tinfl_decompress_mem_to_mem :: "nat \<Rightarrow> nat \<Rightarrow> bytes \<Rightarrow> u32 \<Rightarrow> bytes option res" where
  "tinfl_decompress_mem_to_mem w out_buf_len src flags =
     res_bind (tinfl_decompress w src out_buf_len
         ((flags AND NOT TINFL_FLAG_HAS_MORE_INPUT) OR TINFL_FLAG_USING_NON_WRAPPING_OUTPUT_BUF))
       (\<lambda>(status, _, out). Ok (if status \<noteq> TINFL_STATUS_DONE then None else Some out))"

definition win_decompressor_zlib :: "nat \<Rightarrow> sqfs_decompressor" where
  "win_decompressor_zlib w inp outsz =
     res_bind (tinfl_decompress_mem_to_mem w outsz inp
         (TINFL_FLAG_PARSE_ZLIB_HEADER OR TINFL_FLAG_USING_NON_WRAPPING_OUTPUT_BUF))
       (\<lambda>r. case r of None \<Rightarrow> Err SQFS_ERR | Some out \<Rightarrow> Ok out)"

end
