(* ===== verification/Sqfs_Bits.thy ===== *)
theory Sqfs_Bits
  imports Sqfs_Huff_Tree Sqfs_Tinfl
begin

text \<open>
  The bit buffer of \<^verbatim>\<open>win/tinfl.c\<close> as a sequence of bits. \<open>todo s\<close> is what the routine has not
  consumed yet: the bits in the buffer followed by the bits of the bytes it has not loaded. Loading
  bytes does not change it, whether one, two or four at a time; the lemmas show what each of the macros
  \<^verbatim>\<open>TINFL_NEED_BITS\<close>, \<^verbatim>\<open>TINFL_GET_BITS\<close>, \<^verbatim>\<open>TINFL_SKIP_BITS\<close> and \<^verbatim>\<open>TINFL_HUFF_DECODE\<close> takes from it.
\<close>

section \<open>Bits and bytes\<close>

definition byte_bits :: "u8 \<Rightarrow> bool list" where
  "byte_bits b = bits_of 8 (unat b)"

definition stream_bits :: "bytes \<Rightarrow> bool list" where
  "stream_bits bs = concat (map byte_bits bs)"

text \<open>The number a group of bits stands for, the least significant first.\<close>

definition bits_val :: "bool list \<Rightarrow> nat" where
  "bits_val bs = horner_sum of_bool 2 bs"

lemma length_byte_bits [simp]: "length (byte_bits b) = 8"
  by (simp add: byte_bits_def)

lemma stream_bits_simps [simp]:
  "stream_bits [] = []" "stream_bits (b # bs) = byte_bits b @ stream_bits bs"
  "stream_bits (xs @ ys) = stream_bits xs @ stream_bits ys"
  by (simp_all add: stream_bits_def)

lemma length_stream_bits [simp]: "length (stream_bits bs) = 8 * length bs"
  by (induction bs) auto

lemma bits_val_bits_of [simp]: "bits_val (bits_of n w) = take_bit n w"
  unfolding bits_val_def bits_of_def by (rule horner_sum_bit_eq_take_bit)

lemma bits_of_bits_val [simp]: "bits_of (length bs) (bits_val bs) = bs"
  by (rule nth_equalityI) (simp_all add: bits_val_def bit_horner_sum_bit_iff)

lemma bits_val_less: "bits_val bs < 2 ^ length bs"
  by (metis bits_of_bits_val bits_val_bits_of take_bit_nat_less_exp)

lemma unat_byte_less: "unat (b :: u8) < 2 ^ 8"
  using unsigned_less [of b] by simp

lemma bits_val_byte [simp]: "bits_val (byte_bits b) = unat b"
  using unat_byte_less [of b] by (simp add: byte_bits_def take_bit_nat_eq_self)

lemma bits_of_or_shift:
  assumes "a < 2 ^ n"
  shows "bits_of (n + m) (a OR push_bit n b) = bits_of n a @ bits_of m b"
proof (rule nth_equalityI)
  have "\<not> bit a i" if "n \<le> i" for i
    using assms that by (metis bit_take_bit_iff leD take_bit_nat_eq_self)
  then show "bits_of (n + m) (a OR push_bit n b) ! i = (bits_of n a @ bits_of m b) ! i"
    if "i < length (bits_of (n + m) (a OR push_bit n b))" for i
    using that by (auto simp: nth_append bit_or_iff bit_push_bit_iff)
qed simp

lemma or_shift_less:
  assumes "a < 2 ^ n" and "b < 2 ^ m"
  shows "a OR push_bit n b < (2 :: nat) ^ (n + m)"
proof -
  have "take_bit (n + m) (a OR push_bit n b) = a OR push_bit n b"
    using assms by (simp add: take_bit_or take_bit_push_bit take_bit_nat_eq_self
        order_less_le_trans [OF assms(1)])
  then show ?thesis by (metis take_bit_nat_less_exp)
qed

section \<open>The bits that are left\<close>

definition todo :: "tinfl_io \<Rightarrow> bool list" where
  "todo s = bits_of (num_bits s) (bit_buf s) @ stream_bits (drop (pIn_buf_cur s) (pIn_buf s))"

text \<open>The invariant of the buffer: nothing above the bits it counts.\<close>

definition bb_ok :: "tinfl_io \<Rightarrow> bool" where
  "bb_ok s \<longleftrightarrow> (bit_buf_size s = 32 \<or> bit_buf_size s = 64) \<and> bit_buf s < 2 ^ num_bits s \<and>
     num_bits s \<le> bit_buf_size s \<and> pIn_buf_cur s \<le> length (pIn_buf s)"

text \<open>What reading does not touch.\<close>

definition keeps :: "tinfl_io \<Rightarrow> tinfl_io \<Rightarrow> bool" where
  "keeps s s' \<longleftrightarrow> bit_buf_size s' = bit_buf_size s \<and> pIn_buf s' = pIn_buf s \<and>
     pOut_buf s' = pOut_buf s \<and> pOut_buf_end s' = pOut_buf_end s"

lemma keeps_refl [simp]: "keeps s s"
  and keeps_trans [trans]: "keeps s s' \<Longrightarrow> keeps s' s'' \<Longrightarrow> keeps s s''"
  by (simp_all add: keeps_def)

lemma tinfl_add_bits_todo:
  assumes "bb_ok s" and "num_bits s + 8 * n \<le> bit_buf_size s"
    and "pIn_buf_cur s + n \<le> length (pIn_buf s)"
    and c: "c < 2 ^ (8 * n)" "bits_of (8 * n) c = stream_bits (take n (drop (pIn_buf_cur s) (pIn_buf s)))"
  shows "todo ((tinfl_add_bits c (8 * n) s)\<lparr>pIn_buf_cur := pIn_buf_cur s + n\<rparr>) = todo s"
    and "bb_ok ((tinfl_add_bits c (8 * n) s)\<lparr>pIn_buf_cur := pIn_buf_cur s + n\<rparr>)"
    and "keeps s ((tinfl_add_bits c (8 * n) s)\<lparr>pIn_buf_cur := pIn_buf_cur s + n\<rparr>)"
proof -
  let ?a = "bit_buf s" and ?m = "num_bits s"
  have "push_bit ?m c < 2 ^ (?m + 8 * n)" using c(1) or_shift_less [of 0 ?m c "8 * n"] by simp
  also have "\<dots> \<le> 2 ^ bit_buf_size s" using assms(2) by (intro power_increasing) auto
  finally have fit: "take_bit (bit_buf_size s) (push_bit ?m c) = push_bit ?m c" by (rule take_bit_nat_eq_self)
  have a: "?a < 2 ^ ?m" using assms(1) by (simp add: bb_ok_def)
  have "drop (pIn_buf_cur s) (pIn_buf s) = take n (drop (pIn_buf_cur s) (pIn_buf s)) @ drop (pIn_buf_cur s + n) (pIn_buf s)"
    by (metis append_take_drop_id drop_drop add.commute)
  then have "stream_bits (drop (pIn_buf_cur s) (pIn_buf s)) = bits_of (8 * n) c @ stream_bits (drop (pIn_buf_cur s + n) (pIn_buf s))"
    using c(2) by (metis stream_bits_simps(3))
  then show "todo ((tinfl_add_bits c (8 * n) s)\<lparr>pIn_buf_cur := pIn_buf_cur s + n\<rparr>) = todo s"
    using bits_of_or_shift [OF a, of "8 * n" c] by (simp add: todo_def tinfl_add_bits_def fit)
  show "bb_ok ((tinfl_add_bits c (8 * n) s)\<lparr>pIn_buf_cur := pIn_buf_cur s + n\<rparr>)"
    using or_shift_less [OF a c(1)] assms(1,2,3) by (simp add: bb_ok_def tinfl_add_bits_def fit)
  show "keeps s ((tinfl_add_bits c (8 * n) s)\<lparr>pIn_buf_cur := pIn_buf_cur s + n\<rparr>)"
    by (simp add: keeps_def tinfl_add_bits_def)
qed

lemma tinfl_add_byte_todo:
  assumes "bb_ok s" and "num_bits s + 8 \<le> bit_buf_size s" and "pIn_buf_cur s < length (pIn_buf s)"
  shows "todo (tinfl_add_byte s) = todo s" and "bb_ok (tinfl_add_byte s)" and "keeps s (tinfl_add_byte s)"
proof -
  let ?c = "pIn_buf s ! pIn_buf_cur s"
  have "tinfl_add_byte s = (tinfl_add_bits (unat ?c) (8 * 1) s)\<lparr>pIn_buf_cur := pIn_buf_cur s + 1\<rparr>"
    using assms(3) by (simp add: tinfl_add_byte_def tinfl_get_byte_def tinfl_add_bits_def)
  moreover have "unat ?c < 2 ^ (8 * 1)" using unat_byte_less [of ?c] by simp
  moreover have "bits_of (8 * 1) (unat ?c) = stream_bits (take 1 (drop (pIn_buf_cur s) (pIn_buf s)))"
    using assms(3) by (simp add: take_Suc_conv_app_nth byte_bits_def hd_drop_conv_nth take_Suc)
  ultimately show "todo (tinfl_add_byte s) = todo s" and "bb_ok (tinfl_add_byte s)" and "keeps s (tinfl_add_byte s)"
    using tinfl_add_bits_todo [OF assms(1), of 1 "unat ?c"] assms(2,3) by simp_all
qed

lemma bits_of_swapin:
  assumes "8 * length bs \<le> LENGTH('a)"
  shows "bits_of (8 * length bs) (unat (sqfs_swapin bs :: 'a::len word)) = stream_bits bs"
    and "unat (sqfs_swapin bs :: 'a::len word) < 2 ^ (8 * length bs)"
proof -
  have "bits_of (8 * length bs) (unat (sqfs_swapin bs :: 'a::len word)) = stream_bits bs"
    using assms
  proof (induction bs)
    case (Cons b bs)
    have small: "\<not> bit (unat b) i" if "8 \<le> i" for i
      using that by (auto simp: bit_unsigned_iff dest: bit_imp_le_length)
    have "bits_of (8 * length (b # bs)) (unat (sqfs_swapin (b # bs) :: 'a word)) ! i =
        (byte_bits b @ bits_of (8 * length bs) (unat (sqfs_swapin bs :: 'a word))) ! i" if "i < 8 * length (b # bs)" for i
      using that Cons.prems
      by (auto simp: nth_append byte_bits_def sqfs_swapin_Cons bit_unsigned_iff bit_simps
          dest: bit_imp_le_length)
    then have "bits_of (8 * length (b # bs)) (unat (sqfs_swapin (b # bs) :: 'a word)) =
        byte_bits b @ bits_of (8 * length bs) (unat (sqfs_swapin bs :: 'a word))"
      by (intro nth_equalityI) auto
    with Cons show ?case by simp
  qed simp
  then show "bits_of (8 * length bs) (unat (sqfs_swapin bs :: 'a::len word)) = stream_bits bs" .
  have "take_bit (8 * length bs) (sqfs_swapin bs :: 'a word) = sqfs_swapin bs" by (rule take_bit_sqfs_swapin) simp
  then show "unat (sqfs_swapin bs :: 'a::len word) < 2 ^ (8 * length bs)"
    by (metis take_bit_nat_less_exp unsigned_take_bit_eq)
qed

section \<open>Taking bits\<close>

text \<open>\<open>takes s n s'\<close>: the routine consumed \<open>n\<close> bits, the bits past the end of the input being 0.
  \<open>peek n s\<close> are the next \<open>n\<close> bits.\<close>

definition peek :: "nat \<Rightarrow> tinfl_io \<Rightarrow> bool list" where
  "peek n s = take n (todo s @ replicate n False)"

definition takes :: "tinfl_io \<Rightarrow> nat \<Rightarrow> tinfl_io \<Rightarrow> bool" where
  "takes s n s' \<longleftrightarrow> bb_ok s' \<and> keeps s s' \<and>
     (\<exists>k. n \<le> length (todo s) + 8 * k \<and> todo s' = drop n (todo s @ replicate (8 * k) False))"

lemma length_peek [simp]: "length (peek n s) = n"
  by (simp add: peek_def)

lemma takesD: "takes s n s' \<Longrightarrow> bb_ok s'" "takes s n s' \<Longrightarrow> keeps s s'"
  by (simp_all add: takes_def)

lemma takes_refl: "bb_ok s \<Longrightarrow> takes s 0 s"
  by (auto simp: takes_def intro: exI [of _ 0])

lemma takes_trans:
  assumes "takes s n s'" and "takes s' m s''"
  shows "takes s (n + m) s''"
proof -
  obtain k j where k: "n \<le> length (todo s) + 8 * k" "todo s' = drop n (todo s @ replicate (8 * k) False)"
    and j: "m \<le> length (todo s') + 8 * j" "todo s'' = drop m (todo s' @ replicate (8 * j) False)"
    using assms by (auto simp: takes_def)
  have "drop (n + m) (x @ z) = drop m (drop n x @ z)" if "n \<le> length x" for x z :: "bool list"
    using that by (metis add.commute append.simps(1) diff_is_0_eq drop_0 drop_append drop_drop)
  from this [of "todo s @ replicate (8 * k) False" "replicate (8 * j) False"]
  have "todo s'' = drop (n + m) (todo s @ replicate (8 * (k + j)) False)"
    using k j(2) by (simp only: distrib_left replicate_add append_assoc length_append length_replicate)
  moreover have "n + m \<le> length (todo s) + 8 * (k + j)" using k j(1) by simp
  ultimately show ?thesis using assms keeps_trans unfolding takes_def by blast
qed

lemma nth_peek: "i < n \<Longrightarrow> peek n s ! i = (i < length (todo s) \<and> todo s ! i)"
  by (simp add: peek_def nth_append)

lemma peek_pad:
  assumes "todo s' = todo s @ replicate k False"
  shows "peek n s' = peek n s"
  by (rule nth_equalityI) (use assms in \<open>auto simp: nth_peek nth_append\<close>)

lemma takes_0_peek: "takes s 0 s' \<Longrightarrow> peek n s' = peek n s"
  by (auto simp: takes_def intro: peek_pad)

lemma takes_0I: "bb_ok s' \<Longrightarrow> keeps s s' \<Longrightarrow> todo s' = todo s @ replicate (8 * k) False \<Longrightarrow> takes s 0 s'"
  by (auto simp: takes_def)

lemma peek_buffer: "n \<le> num_bits s \<Longrightarrow> peek n s = bits_of n (bit_buf s)"
  by (simp add: peek_def todo_def)

lemma bits_of_0_right [simp]: "bits_of n 0 = replicate n False"
  by (rule nth_equalityI) auto

lemma tinfl_add_byte_takes:
  assumes "bb_ok s" and "num_bits s + 8 \<le> bit_buf_size s"
  shows "takes s 0 (tinfl_add_byte s)"
proof (cases "pIn_buf_cur s < length (pIn_buf s)")
  case True
  then show ?thesis
    using tinfl_add_byte_todo [OF assms True] by (intro takes_0I [where k = 0]) simp_all
next
  case False
  then have add: "tinfl_add_byte s = s\<lparr>num_bits := num_bits s + 8\<rparr>"
    by (simp add: tinfl_add_byte_def tinfl_get_byte_def tinfl_add_bits_def)
  have a: "bit_buf s < 2 ^ num_bits s" using assms by (simp add: bb_ok_def)
  have "bits_of (num_bits s + 8) (bit_buf s) = bits_of (num_bits s) (bit_buf s) @ replicate 8 False"
    using bits_of_or_shift [OF a, of 8 0] by simp
  moreover have "bit_buf s < 2 ^ (num_bits s + 8)" using or_shift_less [OF a, of 0 8] by simp
  ultimately show ?thesis
    using False assms by (intro takes_0I [where k = 1]) (auto simp: add todo_def bb_ok_def keeps_def)
qed

lemma u32_sub_small [simp]: "b \<le> a \<Longrightarrow> a < 2 ^ 32 \<Longrightarrow> u32_sub a b = a - b"
proof -
  assume ab: "b \<le> a" "a < 2 ^ 32"
  then have "u32_sub a b = ((a - b) + 2 ^ 32) mod 2 ^ 32" by (simp add: u32_sub_def)
  also have "\<dots> = (a - b) mod 2 ^ 32" by (rule mod_add_self2)
  also have "\<dots> = a - b" using ab by simp
  finally show ?thesis .
qed

lemma tinfl_drop_bits_takes:
  assumes "bb_ok s" and "n \<le> num_bits s"
  shows "takes s n (tinfl_drop_bits n s)"
proof -
  have nb: "num_bits s < 2 ^ 32" using assms(1) by (auto simp: bb_ok_def)
  have "bit_buf s div 2 ^ n < 2 ^ (num_bits s - n)"
    using assms by (simp add: bb_ok_def less_mult_imp_div_less power_add [symmetric])
  then have "bb_ok (tinfl_drop_bits n s)"
    using assms nb by (auto simp: bb_ok_def tinfl_drop_bits_def drop_bit_eq_div)
  moreover have "keeps s (tinfl_drop_bits n s)" by (simp add: keeps_def tinfl_drop_bits_def)
  moreover have "todo (tinfl_drop_bits n s) = drop n (todo s)"
    using assms nb by (simp add: todo_def tinfl_drop_bits_def)
  ultimately show ?thesis using assms unfolding takes_def
    by (intro conjI exI [of _ 0]) (auto simp: todo_def)
qed

lemma tinfl_need_bits_takes:
  assumes "bb_ok s" and "num_bits s < n" and "n \<le> 16"
  shows "takes s 0 (tinfl_need_bits n s) \<and> n \<le> num_bits (tinfl_need_bits n s)"
  using assms
proof (induction n s rule: tinfl_need_bits.induct)
  case (1 n s)
  have t: "takes s 0 (tinfl_add_byte s)"
    using 1 by (intro tinfl_add_byte_takes) (auto simp: bb_ok_def)
  show ?case
  proof (cases "num_bits (tinfl_add_byte s) < n")
    case True
    with 1 t have "takes (tinfl_add_byte s) 0 (tinfl_need_bits n (tinfl_add_byte s)) \<and>
        n \<le> num_bits (tinfl_need_bits n (tinfl_add_byte s))" using takesD(1) [OF t] by simp
    with True takes_trans [OF t] show ?thesis by (subst (1 2) tinfl_need_bits.simps) (simp add: Let_def)
  next
    case False
    with t show ?thesis by (subst (1 2) tinfl_need_bits.simps) (simp add: Let_def)
  qed
qed

lemma tinfl_fetch_takes:
  assumes "bb_ok s" and "n \<le> 16"
  obtains s' where "(if num_bits s < n then tinfl_need_bits n s else s) = s'"
    and "takes s 0 s'" and "n \<le> num_bits s'"
  using tinfl_need_bits_takes [OF assms(1) _ assms(2)] takes_refl [OF assms(1)] by (cases "num_bits s < n") auto

lemma tinfl_skip_bits_takes:
  assumes "bb_ok s" and "n \<le> 16"
  obtains s' where "tinfl_skip_bits n s = (Go (), s')" and "takes s n s'"
proof -
  obtain s1 where s1: "(if num_bits s < n then tinfl_need_bits n s else s) = s1" "takes s 0 s1" "n \<le> num_bits s1"
    using tinfl_fetch_takes [OF assms] .
  have "takes s n (tinfl_drop_bits n s1)"
    using takes_trans [OF s1(2) tinfl_drop_bits_takes [OF takesD(1) [OF s1(2)] s1(3)]] by simp
  then show ?thesis by (rule that [rotated]) (simp add: tinfl_skip_bits_def s1(1))
qed

lemma tinfl_get_bits_takes:
  assumes "bb_ok s" and "n \<le> 16"
  obtains s' where "tinfl_get_bits n s = (Go (bits_val (peek n s)), s')" and "takes s n s'"
proof -
  obtain s1 where s1: "(if num_bits s < n then tinfl_need_bits n s else s) = s1" "takes s 0 s1" "n \<le> num_bits s1"
    using tinfl_fetch_takes [OF assms] .
  have "takes s n (tinfl_drop_bits n s1)"
    using takes_trans [OF s1(2) tinfl_drop_bits_takes [OF takesD(1) [OF s1(2)] s1(3)]] by simp
  moreover have "bit_buf s1 AND (2 ^ n - 1) = bits_val (peek n s)"
    unfolding takes_0_peek [OF s1(2), symmetric] peek_buffer [OF s1(3)]
    by (simp add: take_bit_eq_mask mask_eq_exp_minus_1)
  ultimately show ?thesis by (intro that) (simp_all add: tinfl_get_bits_def s1(1))
qed

end
