(* ===== verification/Sqfs_Decode.thy ===== *)
theory Sqfs_Decode
  imports Sqfs_Bits
begin

text \<open>
  Decoding one symbol, in the careful macro \<^verbatim>\<open>TINFL_HUFF_DECODE\<close> and in the fast loop of
  \<^verbatim>\<open>win/tinfl.c\<close>: both take the code the remaining bits start with and return its symbol, on
  any input, and neither asks for bits the code does not need.
\<close>

section \<open>When the buffer holds a whole code\<close>

lemma huff_rep_lookup_cases:
  assumes h: "huff_rep sizes t N F S" and l: "tinfl_lookup low t w = Go (v, l)"
  obtains (code) s where "huff_used sizes s" "l = sizes ! s" "bits_of l w = huff_path sizes s" "sizes ! s \<le> 10"
  | (none) "l = 0" "v = low 0"
  | (walk) "10 < l" "l \<le> 15" "bits_of l w \<notin> dom N" "v = node_val N F (bits_of l w)"
      "\<And>m. 10 \<le> m \<Longrightarrow> m < l \<Longrightarrow> bits_of m w \<in> dom N"
proof (cases "N (bits_of 10 w)")
  case None
  note look = huff_rep_look_up(1) [OF h, of w]
  show ?thesis
  proof (cases "\<exists>s. huff_used sizes s \<and> sizes ! s \<le> 10 \<and> bits_of (sizes ! s) w = huff_path sizes s")
    case True
    then obtain s where s: "huff_used sizes s" "sizes ! s \<le> 10" "bits_of (sizes ! s) w = huff_path sizes s" by blast
    have "huff_table sizes t" using h unfolding huff_table_def huff_rep_def by blast
    from tinfl_lookup_code [OF this s(1,3), of low] l s code show ?thesis by auto
  next
    case False
    then have "S (take_bit 10 w) = 0" by (intro huff_repD(7) [OF h]) auto
    with None look l none show ?thesis by (simp add: tinfl_lookup_def)
  qed
next
  case (Some n)
  obtain l' where
    l': "tinfl_tree_walk (length (m_tree t)) (m_tree t) (\<lambda>_. True) w (node_ref n) 10 =
        Go (node_val N F (bits_of l' w), l')" "10 < l'" "l' \<le> 15"
      "\<And>m. 10 \<le> m \<Longrightarrow> m < l' \<Longrightarrow> bits_of m w \<in> dom N" "bits_of l' w \<notin> dom N"
    using huff_rep_walk [OF h Some, of "\<lambda>_. True"] by metis
  then have "l = l'" "v = node_val N F (bits_of l' w)"
    using l Some huff_rep_look_up(1) [OF h, of w] by (auto simp: tinfl_lookup_def Let_def)
  with l' show ?thesis by (intro walk) auto
qed

lemma huff_path_node:
  assumes "huff_rep sizes t N F S" and "huff_used sizes s" and "10 \<le> m" and "m < sizes ! s"
  shows "take m (huff_path sizes s) \<in> dom N"
  unfolding huff_repD(3) [OF assms(1)] using assms(2,3,4) by blast

text \<open>A code found within the \<open>nb\<close> bits of the buffer is the code the stream starts with.\<close>

lemma tinfl_lookup_whole:
  assumes h: "huff_rep sizes t N F S" and l: "tinfl_lookup low t w = Go (v, l)" "l \<le> nb" "l \<noteq> 0 \<or> 15 \<le> nb"
    and s: "huff_used sizes s" "take (min nb (sizes ! s)) (huff_path sizes s) = bits_of (min nb (sizes ! s)) w"
  shows "sizes ! s \<le> nb"
proof (rule ccontr)
  assume "\<not> sizes ! s \<le> nb"
  then have big: "nb < sizes ! s" by simp
  note ok = huff_repD(1) [OF h]
  have "take l (take nb (huff_path sizes s)) = take l (bits_of nb w)" using s(2) big by (simp add: min_def)
  then have w: "take l (huff_path sizes s) = bits_of l w" using l(2) by (simp add: min_absorb1)
  have nb: "nb < 15" using big huff_okD(1) [OF ok s(1)] by simp
  from h l(1) show False
  proof (cases rule: huff_rep_lookup_cases)
    case (code s')
    with w have "take l (huff_path sizes s) = take l (huff_path sizes s')" by simp
    from huff_prefixD [OF ok s(1) code(1) this] code(2) l(2) big show False by auto
  next
    case none
    with l nb show False by simp
  next
    case walk
    have "take l (huff_path sizes s) \<in> dom N" using huff_path_node [OF h s(1), of l] walk(1) l(2) big by simp
    with walk(3) w show False by simp
  qed
qed

lemma tinfl_huff_ready_spec:
  assumes h: "huff_rep sizes t N F S"
  obtains b where "tinfl_huff_ready t st = Go b"
    and "b \<Longrightarrow> \<exists>v l. tinfl_lookup low t (bit_buf st) = Go (v, l) \<and> l \<noteq> 0 \<and> l \<le> num_bits st"
proof (cases "N (bits_of 10 (bit_buf st))")
  case None
  let ?w = "bit_buf st"
  note look = huff_rep_look_up(1) [OF h, of ?w]
  let ?e = "S (take_bit 10 ?w)"
  have pos: "0 \<le> ?e"
  proof (cases "\<exists>s. huff_used sizes s \<and> sizes ! s \<le> 10 \<and> bits_of (sizes ! s) (take_bit 10 ?w) = huff_path sizes s")
    case True
    then show ?thesis using huff_repD(6) [OF h] drop_bit_huff_entry(2) [OF huff_repD(1) [OF h]] by metis
  next
    case False
    then have "?e = 0" by (intro huff_repD(7) [OF h]) auto
    then show ?thesis by simp
  qed
  then have "tinfl_lookup low t ?w = Go (low ?e, nat (drop_bit 9 ?e))"
    using None look by (simp add: tinfl_lookup_def Let_def)
  moreover have "tinfl_huff_ready t st = Go (nat (drop_bit 9 ?e) \<noteq> 0 \<and> nat (drop_bit 9 ?e) \<le> num_bits st)"
    using None look pos by (simp add: tinfl_huff_ready_def Let_def not_le)
  ultimately show ?thesis by (intro that) auto
next
  case (Some n)
  let ?w = "bit_buf st" and ?nb = "num_bits st"
  note look = huff_rep_look_up(1) [OF h, of ?w]
  show ?thesis
  proof (cases "10 < ?nb")
    case False
    then have "tinfl_huff_ready t st = Go False" using Some look by (simp add: tinfl_huff_ready_def Let_def)
    then show ?thesis by (rule that) simp
  next
    case True
    obtain l where
      l: "tinfl_tree_walk (length (m_tree t)) (m_tree t) (\<lambda>m. m + 1 \<le> ?nb) ?w (node_ref n) 10 =
        Go (node_val N F (bits_of l ?w), l)" "10 < l" "\<And>m. 10 \<le> m \<Longrightarrow> m < l \<Longrightarrow> bits_of m ?w \<in> dom N"
        "\<And>m. 10 < m \<Longrightarrow> m < l \<Longrightarrow> m + 1 \<le> ?nb"
      using huff_rep_walk [OF h Some, of "\<lambda>m. m + 1 \<le> ?nb"] by metis
    obtain l' where
      l': "tinfl_tree_walk (length (m_tree t)) (m_tree t) (\<lambda>_. True) ?w (node_ref n) 10 =
        Go (node_val N F (bits_of l' ?w), l')" "10 < l'" "\<And>m. 10 \<le> m \<Longrightarrow> m < l' \<Longrightarrow> bits_of m ?w \<in> dom N"
        "bits_of l' ?w \<notin> dom N"
      using huff_rep_walk [OF h Some, of "\<lambda>_. True"] by metis
    have lk: "tinfl_lookup low t ?w = Go (node_val N F (bits_of l' ?w), l')"
      using Some look l'(1) by (simp add: tinfl_lookup_def Let_def)
    have r: "tinfl_huff_ready t st = Go (0 \<le> node_val N F (bits_of l ?w))"
      using Some look True l(1) by (simp add: tinfl_huff_ready_def Let_def)
    have "l' \<le> ?nb" if "0 \<le> node_val N F (bits_of l ?w)"
    proof -
      have "bits_of l ?w \<notin> dom N" using that by (auto simp: node_val_def)
      then have "l' = l" using l(2,3) l'(2,3,4) by (cases l l' rule: linorder_cases) auto
      moreover have "l \<le> ?nb" using l(4) [of "l - 1"] l(2) True by (cases "l = 11") auto
      ultimately show ?thesis by simp
    qed
    with lk l'(2) show ?thesis by (intro that [OF r]) auto
  qed
qed

section \<open>The careful macro\<close>

lemma lookup_total_Go:
  assumes "huff_rep sizes t N F S"
  obtains v l where "tinfl_lookup low t w = Go (v, l)" and "l \<le> 15"
proof -
  have t: "huff_table sizes t" using assms unfolding huff_table_def huff_rep_def by blast
  from tinfl_lookup_total [OF t, of w low] show ?thesis
    using that tinfl_lookup_code [OF t, of _ w low] huff_okD(1) [OF huff_repD(1) [OF assms]] by blast
qed

text \<open>What the filling of the buffer establishes.\<close>

definition lookup_fits :: "(int \<Rightarrow> int) \<Rightarrow> tinfl_huff_table \<Rightarrow> tinfl_io \<Rightarrow> bool" where
  "lookup_fits low t s \<longleftrightarrow> (\<exists>v l. tinfl_lookup low t (bit_buf s) = Go (v, l) \<and> l \<le> num_bits s \<and>
     (l \<noteq> 0 \<or> 15 \<le> num_bits s))"

lemma lookup_fits_15:
  assumes "huff_rep sizes t N F S" and "15 \<le> num_bits s"
  shows "lookup_fits low t s"
proof -
  obtain v l where "tinfl_lookup low t (bit_buf s) = Go (v, l)" and "l \<le> 15" using lookup_total_Go [OF assms(1)] .
  with assms(2) show ?thesis unfolding lookup_fits_def by (intro exI [of _ v] exI [of _ l]) simp
qed

lemma tinfl_huff_fill_takes:
  assumes "huff_rep sizes t N F S" and "bb_ok s" and "num_bits s < 15"
  shows "\<exists>s'. tinfl_huff_fill t s = (Go (), s') \<and> takes s 0 s' \<and> lookup_fits low t s'"
  using assms
proof (induction t s rule: tinfl_huff_fill.induct)
  case (1 t s)
  let ?s = "tinfl_add_byte s"
  obtain b where b: "tinfl_huff_ready t s = Go b"
    and ready: "b \<Longrightarrow> \<exists>v l. tinfl_lookup low t (bit_buf s) = Go (v, l) \<and> l \<noteq> 0 \<and> l \<le> num_bits s"
    using tinfl_huff_ready_spec [OF 1(2), of s low] by metis
  have t: "takes s 0 ?s" using 1(3,4) by (intro tinfl_add_byte_takes) (auto simp: bb_ok_def)
  consider b | "\<not> b" "num_bits ?s < 15" | "\<not> b" "15 \<le> num_bits ?s" by linarith
  then show ?case
  proof cases
    case 1
    then have "lookup_fits low t s" using ready unfolding lookup_fits_def by blast
    then show ?thesis using 1 b takes_refl [OF \<open>bb_ok s\<close>] by (subst tinfl_huff_fill.simps) simp
  next
    case 2
    with 1(1) [OF b _ refl] 1(2) takesD(1) [OF t] obtain s' where
      "tinfl_huff_fill t ?s = (Go (), s')" "takes ?s 0 s'" "lookup_fits low t s'" by blast
    with takes_trans [OF t] 2 b show ?thesis by (subst tinfl_huff_fill.simps) (auto simp: Let_def)
  next
    case 3
    with lookup_fits_15 [OF 1(2), of ?s low] t b show ?thesis
      by (subst tinfl_huff_fill.simps) (simp add: Let_def)
  qed
qed

text \<open>The value both searches leave for a symbol, and that \<open>v\<close>, \<open>l\<close> is what they find.\<close>

definition sym_val :: "(int \<Rightarrow> int) \<Rightarrow> nat list \<Rightarrow> nat \<Rightarrow> int" where
  "sym_val low sizes c = (if sizes ! c \<le> 10 then low (huff_entry sizes c) else int c)"

definition finds :: "(int \<Rightarrow> int) \<Rightarrow> nat list \<Rightarrow> tinfl_io \<Rightarrow> int \<Rightarrow> nat \<Rightarrow> bool" where
  "finds low sizes s v l \<longleftrightarrow> l \<le> 15 \<and>
     (\<forall>c. huff_used sizes c \<and> peek (sizes ! c) s = huff_path sizes c \<longrightarrow> l = sizes ! c \<and> v = sym_val low sizes c) \<and>
     (v = low 0 \<or> v = 0 \<or> (\<exists>c. huff_used sizes c \<and> v = sym_val low sizes c))"

lemma tinfl_lookup_takes:
  assumes h: "huff_rep sizes t N F S" and "bb_ok s" and fits: "lookup_fits low t s"
  obtains v l where "tinfl_lookup low t (bit_buf s) = Go (v, l)"
    and "takes s l (tinfl_drop_bits l s)" and "finds low sizes s v l"
proof -
  have t: "huff_table sizes t" using h unfolding huff_table_def huff_rep_def by blast
  obtain v l where l: "tinfl_lookup low t (bit_buf s) = Go (v, l)" "l \<le> num_bits s" "l \<noteq> 0 \<or> 15 \<le> num_bits s"
    using fits by (auto simp: lookup_fits_def)
  have "l \<le> 15" using lookup_total_Go [OF h, of low "bit_buf s"] l(1) by auto
  moreover have "l = sizes ! c \<and> v = sym_val low sizes c"
    if c: "huff_used sizes c" "peek (sizes ! c) s = huff_path sizes c" for c
  proof -
    have "take (min (num_bits s) (sizes ! c)) (huff_path sizes c) = bits_of (min (num_bits s) (sizes ! c)) (bit_buf s)"
      unfolding c(2) [symmetric]
      by (rule nth_equalityI) (auto simp: nth_peek todo_def nth_append)
    from tinfl_lookup_whole [OF h l c(1) this] have "bits_of (sizes ! c) (bit_buf s) = huff_path sizes c"
      using c(2) peek_buffer by simp
    from tinfl_lookup_code [OF t c(1) this, of low] l(1) show ?thesis by (auto simp: sym_val_def)
  qed
  moreover have "v = low 0 \<or> v = 0 \<or> (\<exists>c. huff_used sizes c \<and> v = sym_val low sizes c)"
    using tinfl_lookup_total [OF t, of "bit_buf s" low] tinfl_lookup_code [OF t, of _ "bit_buf s" low] l(1)
    by (fastforce simp: sym_val_def)
  ultimately have "finds low sizes s v l" unfolding finds_def by blast
  with that l(1) tinfl_drop_bits_takes [OF assms(2) l(2)] show ?thesis by blast
qed

lemma finds_peek: "takes s 0 s' \<Longrightarrow> finds low sizes s' v l \<longleftrightarrow> finds low sizes s v l"
  by (simp add: finds_def takes_0_peek)

lemma tinfl_add_2_bytes_takes:
  assumes "bb_ok s" and "num_bits s < 15" and "2 \<le> length (pIn_buf s) - pIn_buf_cur s"
  shows "takes s 0 (tinfl_add_2_bytes s)" and "num_bits (tinfl_add_2_bytes s) = num_bits s + 16"
proof -
  let ?i = "pIn_buf_cur s"
  let ?x = "pIn_buf s ! ?i" and ?y = "pIn_buf s ! (?i + 1)"
  let ?z = "unat ?x OR push_bit 8 (unat ?y)"
  have eq: "tinfl_add_2_bytes s = (tinfl_add_bits ?z (8 * 2) s)\<lparr>pIn_buf_cur := ?i + 2\<rparr>"
    by (simp add: tinfl_add_2_bytes_def tinfl_add_bits_def Let_def push_bit_or take_bit_or push_bit_push_bit
        add.commute or.assoc)
  have "take 2 (drop ?i (pIn_buf s)) = [?x, ?y]"
    using assms(3) by (simp add: take_Suc_conv_app_nth numeral_2_eq_2)
  then have "bits_of (8 * 2) ?z = stream_bits (take 2 (drop ?i (pIn_buf s)))"
    using bits_of_or_shift [OF unat_byte_less [of ?x], of 8 "unat ?y"] by (simp add: byte_bits_def)
  moreover have "?z < 2 ^ (8 * 2)" using or_shift_less [OF unat_byte_less [of ?x] unat_byte_less [of ?y]] by simp
  ultimately show "takes s 0 (tinfl_add_2_bytes s)"
    unfolding eq using tinfl_add_bits_todo [OF assms(1), of 2 ?z] assms by (intro takes_0I [where k = 0]) (auto simp: bb_ok_def)
  show "num_bits (tinfl_add_2_bytes s) = num_bits s + 16" by (simp add: tinfl_add_2_bytes_def Let_def)
qed

lemma huff_used_less:
  "huff_rep sizes t N F S \<Longrightarrow> huff_used sizes s \<Longrightarrow> s < 288"
  using huff_okD(3) huff_repD(1) by blast

theorem tinfl_huff_decode_takes:
  assumes "huff_table sizes t" and "bb_ok s"
  obtains sym n s' where "tinfl_huff_decode t s = (Go sym, s')" and "takes s n s'" and "n \<le> 15"
    and "sym = 0 \<or> huff_used sizes sym"
    and "\<And>c. huff_used sizes c \<Longrightarrow> peek (sizes ! c) s = huff_path sizes c \<Longrightarrow> sym = c \<and> n = sizes ! c"
proof -
  let ?low = "\<lambda>temp :: int. temp AND 511"
  obtain N F S where h: "huff_rep sizes t N F S" using huff_tableE [OF assms(1)] .
  note ok = huff_repD(1) [OF h]
  obtain s1 where s1: "(if num_bits s < 15
        then if length (pIn_buf s) - pIn_buf_cur s < 2 then tinfl_huff_fill t s else (Go (), tinfl_add_2_bytes s)
        else (Go (), s)) = (Go (), s1)" and t1: "takes s 0 s1" and fits: "lookup_fits ?low t s1"
  proof (cases "num_bits s < 15")
    case True
    show ?thesis
    proof (cases "length (pIn_buf s) - pIn_buf_cur s < 2")
      case small: True
      with tinfl_huff_fill_takes [OF h assms(2) True, of ?low] True that show ?thesis by auto
    next
      case False
      with tinfl_add_2_bytes_takes [OF assms(2) True] True that lookup_fits_15 [OF h, of "tinfl_add_2_bytes s" ?low]
      show ?thesis by auto
    qed
  next
    case False
    with that [of s] takes_refl [OF assms(2)] lookup_fits_15 [OF h, of s ?low] show ?thesis by auto
  qed
  obtain v l where lk: "tinfl_lookup ?low t (bit_buf s1) = Go (v, l)"
    and t2: "takes s1 l (tinfl_drop_bits l s1)" and f1: "finds ?low sizes s1 v l"
    using tinfl_lookup_takes [OF h takesD(1) [OF t1] fits] .
  have f: "finds ?low sizes s v l" using f1 finds_peek [OF t1] by simp
  have run: "tinfl_huff_decode t s = (Go (nat v), tinfl_drop_bits l s1)"
    unfolding tinfl_huff_decode_def co_bind_def s1 by (simp add: co_simps lk)
  have val: "nat (sym_val ?low sizes c) = c" if "huff_used sizes c" for c
    using drop_bit_huff_entry(3) [OF ok that] by (simp add: sym_val_def)
  have "nat v = 0 \<or> huff_used sizes (nat v)"
    using f val by (auto simp: finds_def)
  moreover have "nat v = c \<and> l = sizes ! c" if "huff_used sizes c" "peek (sizes ! c) s = huff_path sizes c" for c
    using f that val by (simp add: finds_def)
  moreover have "l \<le> 15" using f by (simp add: finds_def)
  ultimately show ?thesis using that [OF run] takes_trans [OF t1 t2] by simp
qed

section \<open>The fast loop\<close>

lemma tinfl_refill_takes:
  assumes "bb_ok s" and n: "n = 2 \<or> n = 4" and room: "num_bits s + 8 * n \<le> bit_buf_size s"
    and inp: "n \<le> length (pIn_buf s) - pIn_buf_cur s" and c: "8 * n \<le> LENGTH('a::len)"
  shows "takes s 0 ((tinfl_add_bits (unat (sqfs_swapin (take n (drop (pIn_buf_cur s) (pIn_buf s))) :: 'a word)) (8 * n) s)
    \<lparr>pIn_buf_cur := pIn_buf_cur s + n\<rparr>)"
proof -
  let ?bs = "take n (drop (pIn_buf_cur s) (pIn_buf s))"
  have "length ?bs = n" using inp by simp
  then show ?thesis
    using tinfl_add_bits_todo [OF assms(1) room, of "unat (sqfs_swapin ?bs :: 'a word)"]
      bits_of_swapin [of ?bs, where ?'a = 'a] c inp n
    by (intro takes_0I [where k = 0]) auto
qed

lemma tinfl_refill_64_takes:
  assumes "bb_ok s" and "4 \<le> length (pIn_buf s) - pIn_buf_cur s"
  shows "takes s 0 (tinfl_refill_64 s)"
    and "bit_buf_size s = 64 \<Longrightarrow> 30 \<le> num_bits (tinfl_refill_64 s)"
    and "bit_buf_size s \<noteq> 64 \<Longrightarrow> tinfl_refill_64 s = s"
  using tinfl_refill_takes [OF assms(1), of 4, where ?'a = 32] takes_refl [OF assms(1)] assms(2)
  by (auto simp: tinfl_refill_64_def sqfs_swapin32_def tinfl_add_bits_def)

lemma tinfl_refill_32_takes:
  assumes "bb_ok s" and "bit_buf_size s \<noteq> 64 \<Longrightarrow> 2 \<le> length (pIn_buf s) - pIn_buf_cur s"
  shows "takes s 0 (tinfl_refill_32 s)"
    and "bit_buf_size s \<noteq> 64 \<Longrightarrow> 15 \<le> num_bits (tinfl_refill_32 s)"
    and "bit_buf_size s = 64 \<Longrightarrow> tinfl_refill_32 s = s"
    and "pIn_buf_cur (tinfl_refill_32 s) \<le> pIn_buf_cur s + 2"
  using tinfl_refill_takes [OF assms(1), of 2, where ?'a = 16] takes_refl [OF assms(1)] assms
  by (auto simp: tinfl_refill_32_def sqfs_swapin16_def tinfl_add_bits_def bb_ok_def)

text \<open>An entry of the direct table keeps the length of the code above the symbol; what the loop does with
  it depends on the symbol only.\<close>

lemma fast_val:
  assumes "v AND 511 = c" and "c < 512"
  shows "v AND 256 \<noteq> 0 \<longleftrightarrow> 256 \<le> c" and "(of_nat v :: u8) = of_nat c"
proof -
  have c: "c = take_bit 9 v" using assms(1) by (simp add: take_bit_eq_mask mask_eq_exp_minus_1)
  have "v AND 256 \<noteq> 0 \<longleftrightarrow> bit v 8"
    using and_exp_eq_0_iff_not_bit [of v 8] by simp
  also have "\<dots> \<longleftrightarrow> bit c 8" by (simp add: c bit_take_bit_iff)
  also have "\<dots> \<longleftrightarrow> 256 \<le> c"
  proof (cases "256 \<le> c")
    case True
    then have "c div 256 = 1" using assms(2) by (intro div_nat_eqI) auto
    with True show ?thesis by (simp add: bit_iff_odd)
  qed (simp add: bit_iff_odd)
  finally show "v AND 256 \<noteq> 0 \<longleftrightarrow> 256 \<le> c" .
  have "take_bit 8 v = take_bit 8 c" by (simp add: c take_bit_take_bit)
  then show "(of_nat v :: u8) = of_nat c" by (simp add: word_of_nat_eq_iff)
qed

lemma tinfl_fast_sym_takes:
  assumes "huff_table sizes t" and "bb_ok s" and "15 \<le> num_bits s"
  obtains sym v n s' where "tinfl_fast_sym t s = (Go v, s')" and "v AND 511 = sym" and "takes s n s'" and "n \<le> 15"
    and "num_bits s' = num_bits s - n" and "pIn_buf_cur s' = pIn_buf_cur s"
    and "sym = 0 \<or> huff_used sizes sym"
    and "\<forall>c. huff_used sizes c \<and> peek (sizes ! c) s = huff_path sizes c \<longrightarrow> sym = c \<and> n = sizes ! c"
proof -
  let ?low = "\<lambda>sym2 :: int. sym2"
  obtain N F S where h: "huff_rep sizes t N F S" using huff_tableE [OF assms(1)] .
  note ok = huff_repD(1) [OF h]
  obtain v l where lk: "tinfl_lookup ?low t (bit_buf s) = Go (v, l)"
    and t2: "takes s l (tinfl_drop_bits l s)" and f: "finds ?low sizes s v l"
    using tinfl_lookup_takes [OF h assms(2) lookup_fits_15 [OF h assms(3)]] .
  have l: "l \<le> 15" using f by (simp add: finds_def)
  have run: "tinfl_fast_sym t s = (Go (nat v), tinfl_drop_bits l s)"
    unfolding tinfl_fast_sym_def by (simp add: co_simps lk)
  have val: "nat (sym_val ?low sizes c) AND 511 = c" if "huff_used sizes c" for c
  proof (cases "sizes ! c \<le> 10")
    case True
    have "int (nat (huff_entry sizes c) AND 511) = int c"
      using drop_bit_huff_entry(2,3) [OF ok that] by (simp add: of_nat_and_eq)
    with True show ?thesis by (simp add: sym_val_def)
  next
    case False
    have "c < 2 ^ 9" using huff_okD(3) [OF ok that] by simp
    then have "c AND 511 = c" using take_bit_nat_eq_self [of c 9] by (simp add: take_bit_eq_mask mask_eq_exp_minus_1)
    with False show ?thesis by (simp add: sym_val_def)
  qed
  have "nat v AND 511 = 0 \<or> huff_used sizes (nat v AND 511)"
    using f val by (auto simp: finds_def)
  moreover have "\<forall>c. huff_used sizes c \<and> peek (sizes ! c) s = huff_path sizes c \<longrightarrow> nat v AND 511 = c \<and> l = sizes ! c"
    using f val by (simp add: finds_def)
  moreover have "num_bits (tinfl_drop_bits l s) = num_bits s - l" "pIn_buf_cur (tinfl_drop_bits l s) = pIn_buf_cur s"
    using assms(2,3) l by (auto simp: tinfl_drop_bits_def bb_ok_def)
  ultimately show ?thesis using that [OF run refl t2 l] by blast
qed

end
