(* ===== verification/Sqfs_Inflate.thy ===== *)
theory Sqfs_Inflate
  imports Sqfs_Decode
begin

text \<open>
  The format RFC 1951 defines, as a grammar on sequences of bits, and the proof that the routine of
  \<^verbatim>\<open>win/tinfl.c\<close> decodes it. The grammar says what a stream means without any buffer, table or
  limit: a run of literals, a copy of earlier output, a block of each of the three types.
\<close>

section \<open>The compressed data of a block\<close>

text \<open>The lengths and distances of RFC 1951, section 3.2.5, by the rule that generates its tables: every code
  starts where the one before it ends.\<close>

fun rfc_length_extra :: "nat \<Rightarrow> nat" where
  "rfc_length_extra c = (if c < 265 \<or> c = 285 then 0 else (c - 261) div 4)"

fun rfc_length_base :: "nat \<Rightarrow> nat" where
  "rfc_length_base c = (if c = 285 then 258 else 3 + (\<Sum>i\<leftarrow>[257..<c]. 2 ^ rfc_length_extra i))"

fun rfc_dist_extra :: "nat \<Rightarrow> nat" where
  "rfc_dist_extra d = (if d < 4 then 0 else d div 2 - 1)"

fun rfc_dist_base :: "nat \<Rightarrow> nat" where
  "rfc_dist_base d = 1 + (\<Sum>i\<leftarrow>[0..<d]. 2 ^ rfc_dist_extra i)"

fun lz_copy :: "nat \<Rightarrow> nat \<Rightarrow> bytes \<Rightarrow> bytes" where
  "lz_copy 0 dist out = out"
| "lz_copy (Suc n) dist out = lz_copy n dist (out @ [out ! (length out - dist)])"

declare rfc_length_extra.simps [simp del] rfc_length_base.simps [simp del]
  rfc_dist_extra.simps [simp del] rfc_dist_base.simps [simp del]

text \<open>Literals up to the first symbol that is none.\<close>

inductive inflate_lits :: "nat list \<Rightarrow> bytes \<Rightarrow> bool list \<Rightarrow> bytes \<Rightarrow> nat \<Rightarrow> bool list \<Rightarrow> bool" for lit where
  lits_stop: "huff_used lit c \<Longrightarrow> 256 \<le> c \<Longrightarrow> inflate_lits lit out (huff_path lit c @ bs) out c bs"
| lits_byte: "huff_used lit c \<Longrightarrow> c < 256 \<Longrightarrow> inflate_lits lit (out @ [of_nat c]) bs out' c' bs' \<Longrightarrow>
    inflate_lits lit out (huff_path lit c @ bs) out' c' bs'"

inductive inflate_codes :: "nat list \<Rightarrow> nat list \<Rightarrow> bytes \<Rightarrow> bool list \<Rightarrow> bytes \<Rightarrow> bool list \<Rightarrow> bool" for lit dist where
  codes_end: "inflate_lits lit out bs out' 256 bs' \<Longrightarrow> inflate_codes lit dist out bs out' bs'"
| codes_match: "inflate_lits lit out bs out1 c (xs @ huff_path dist d @ ys @ bs1) \<Longrightarrow>
    257 \<le> c \<Longrightarrow> c \<le> 285 \<Longrightarrow> length xs = rfc_length_extra c \<Longrightarrow>
    huff_used dist d \<Longrightarrow> d < 30 \<Longrightarrow> length ys = rfc_dist_extra d \<Longrightarrow>
    rfc_dist_base d + bits_val ys \<le> length out1 \<Longrightarrow>
    inflate_codes lit dist (lz_copy (rfc_length_base c + bits_val xs) (rfc_dist_base d + bits_val ys) out1) bs1 out' bs' \<Longrightarrow>
    inflate_codes lit dist out bs out' bs'"

section \<open>States and remaining bits\<close>

definition rest :: "tinfl_io \<Rightarrow> bool list \<Rightarrow> bool" where
  "rest s bs \<longleftrightarrow> bb_ok s \<and> (\<exists>k. todo s = bs @ replicate (8 * k) False)"

lemma rest_bb_ok: "rest s bs \<Longrightarrow> bb_ok s"
  by (simp add: rest_def)

lemma rest_takes:
  assumes "rest s (xs @ bs)" and "takes s (length xs) s'"
  shows "rest s' bs"
proof -
  obtain k j where "todo s = xs @ bs @ replicate (8 * k) False"
      "todo s' = drop (length xs) (todo s @ replicate (8 * j) False)"
    using assms by (auto simp: rest_def takes_def)
  then have "todo s' = bs @ replicate (8 * (k + j)) False" by (simp add: replicate_add distrib_left)
  with takesD(1) [OF assms(2)] show ?thesis unfolding rest_def by blast
qed

lemma rest_takes_0: "rest s bs \<Longrightarrow> takes s 0 s' \<Longrightarrow> rest s' bs"
  using rest_takes [of s "[]" bs s'] by simp

lemma rest_peek: "rest s (xs @ bs) \<Longrightarrow> peek (length xs) s = xs"
  by (auto simp: rest_def peek_def)

lemma rest_get_bits:
  assumes "rest s (xs @ bs)" and "length xs \<le> 16"
  obtains s' where "tinfl_get_bits (length xs) s = (Go (bits_val xs), s')" and "rest s' bs" and "keeps s s'"
proof -
  obtain s' where s': "tinfl_get_bits (length xs) s = (Go (bits_val (peek (length xs) s)), s')" "takes s (length xs) s'"
    using tinfl_get_bits_takes [OF rest_bb_ok [OF assms(1)] assms(2)] .
  with that rest_takes [OF assms(1)] rest_peek [OF assms(1)] takesD(2) show ?thesis by simp
qed

lemma rest_huff_decode:
  assumes "huff_table sizes t" and "huff_used sizes c" and "rest s (huff_path sizes c @ bs)"
  obtains s' where "tinfl_huff_decode t s = (Go c, s')" and "rest s' bs" and "keeps s s'"
proof -
  have "peek (sizes ! c) s = huff_path sizes c" using rest_peek [OF assms(3)] by simp
  with tinfl_huff_decode_takes [OF assms(1) rest_bb_ok [OF assms(3)]] assms(2) obtain s' where
    "tinfl_huff_decode t s = (Go c, s')" "takes s (sizes ! c) s'" by metis
  with that rest_takes [OF assms(3)] takesD(2) show ?thesis by simp
qed

lemma rest_fast_sym:
  assumes "huff_table sizes t" and "huff_used sizes c" and "rest s (huff_path sizes c @ bs)" and "15 \<le> num_bits s"
  obtains v s' where "tinfl_fast_sym t s = (Go v, s')" and "v AND 511 = c" and "rest s' bs" and "keeps s s'"
    and "num_bits s - 15 \<le> num_bits s'" and "pIn_buf_cur s' = pIn_buf_cur s"
proof -
  have "peek (sizes ! c) s = huff_path sizes c" using rest_peek [OF assms(3)] by simp
  with tinfl_fast_sym_takes [OF assms(1) rest_bb_ok [OF assms(3)] assms(4)] assms(2) obtain v s' n where
    "tinfl_fast_sym t s = (Go v, s')" "v AND 511 = c" "takes s (sizes ! c) s'" "n \<le> 15"
    "num_bits s' = num_bits s - n" "pIn_buf_cur s' = pIn_buf_cur s" by metis
  with that [of v s'] rest_takes [OF assms(3)] takesD(2) show ?thesis by simp
qed

section \<open>Literals\<close>

text \<open>What a stretch that writes output keeps.\<close>

definition fixed :: "tinfl_io \<Rightarrow> tinfl_io \<Rightarrow> bool" where
  "fixed s s' \<longleftrightarrow> bit_buf_size s' = bit_buf_size s \<and> pIn_buf s' = pIn_buf s \<and> pOut_buf_end s' = pOut_buf_end s"

lemma fixed_refl [simp]: "fixed s s"
  and fixed_trans [trans]: "fixed s s' \<Longrightarrow> fixed s' s'' \<Longrightarrow> fixed s s''"
  and keeps_fixed: "keeps s s' \<Longrightarrow> fixed s s'"
  by (simp_all add: fixed_def keeps_def)

lemma keeps_out: "keeps s s' \<Longrightarrow> pOut_buf s' = pOut_buf s" "keeps s s' \<Longrightarrow> pOut_buf_end s' = pOut_buf_end s"
  "keeps s s' \<Longrightarrow> pIn_buf s' = pIn_buf s" "keeps s s' \<Longrightarrow> bit_buf_size s' = bit_buf_size s"
  by (simp_all add: keeps_def)

text \<open>A change of the output leaves the remaining bits alone.\<close>

lemma out_update [simp]:
  "todo (s\<lparr>pOut_buf := o'\<rparr>) = todo s" "bb_ok (s\<lparr>pOut_buf := o'\<rparr>) = bb_ok s"
  "rest (s\<lparr>pOut_buf := o'\<rparr>) = rest s" "fixed s (s\<lparr>pOut_buf := o'\<rparr>)"
  by (simp_all add: todo_def bb_ok_def rest_def fixed_def fun_eq_iff)

lemma inflate_lits_mono: "inflate_lits lit out bs out' c bs' \<Longrightarrow> length out \<le> length out'"
  by (induction rule: inflate_lits.induct) auto

lemma inflate_lits_stop: "inflate_lits lit out bs out' c bs' \<Longrightarrow> huff_used lit c \<and> 256 \<le> c"
  by (induction rule: inflate_lits.induct) auto

lemma huff_table_less: "huff_table sizes t \<Longrightarrow> huff_used sizes s \<Longrightarrow> s < 288"
  using huff_okD(3) by (auto simp: huff_table_def)

lemma and_511_id: "c < 512 \<Longrightarrow> (c :: nat) AND 511 = c"
  using take_bit_nat_eq_self [of c 9] by (simp add: take_bit_eq_mask mask_eq_exp_minus_1)

definition lits_after :: "nat list \<Rightarrow> bytes \<Rightarrow> nat \<Rightarrow> bool list \<Rightarrow> bytes \<Rightarrow> nat option \<times> tinfl_io \<Rightarrow> bool" where
  "lits_after lit out' c bs' out = (\<lambda>(r, s').
     case r of Some v \<Rightarrow> v AND 511 = c \<and> rest s' bs' \<and> pOut_buf s' = out'
     | None \<Rightarrow> \<exists>bs1. inflate_lits lit (pOut_buf s') bs1 out' c bs' \<and> rest s' bs1 \<and> length out < length (pOut_buf s'))"

lemma tinfl_literal_slow:
  assumes t: "huff_table lit t" and l: "inflate_lits lit out bs out' c bs'" and s: "rest s bs" "pOut_buf s = out"
    and room: "length out' \<le> pOut_buf_end s"
    and slow: "length (pIn_buf s) - pIn_buf_cur s < 4 \<or> pOut_buf_end s - length (pOut_buf s) < 2"
  shows "\<exists>r s'. tinfl_literal t s = (Go r, s') \<and> fixed s s' \<and> lits_after lit out' c bs' out (r, s')"
  using l
proof cases
  case lits_stop
  obtain s1 where "tinfl_huff_decode t s = (Go c, s1)" "rest s1 bs'" "keeps s s1"
    using rest_huff_decode [OF t lits_stop(3), of s bs'] s lits_stop by auto
  then show ?thesis using slow lits_stop s huff_table_less [OF t lits_stop(3)]
    by (auto simp: tinfl_literal_def co_simps lits_after_def keeps_def fixed_def and_511_id)
next
  case (lits_byte d bs1)
  obtain s1 where s1: "tinfl_huff_decode t s = (Go d, s1)" "rest s1 bs1" "keeps s s1"
    using rest_huff_decode [OF t lits_byte(2), of s bs1] s lits_byte by auto
  have "length out < pOut_buf_end s" using inflate_lits_mono [OF lits_byte(4)] room by simp
  then show ?thesis using slow lits_byte s s1
    by (auto simp: tinfl_literal_def co_simps lits_after_def keeps_def tinfl_room_def tinfl_put_byte_def fixed_def)
qed

lemma refills_takes:
  assumes "bb_ok s" and inp: "4 \<le> length (pIn_buf s) - pIn_buf_cur s"
  obtains s' where "tinfl_refill_32 (tinfl_refill_64 s) = s'" and "takes s 0 s'"
    and "bit_buf_size s = 64 \<Longrightarrow> 30 \<le> num_bits s'" and "15 \<le> num_bits s'"
    and "bit_buf_size s \<noteq> 64 \<Longrightarrow> 2 \<le> length (pIn_buf s) - pIn_buf_cur s'"
proof (cases "bit_buf_size s = 64")
  case True
  note r = tinfl_refill_64_takes [OF assms]
  have "bit_buf_size (tinfl_refill_64 s) = 64" using True r(1) by (auto simp: takes_def keeps_def)
  moreover have "tinfl_refill_32 s' = s'" if "bit_buf_size s' = 64" for s'
    using that by (simp add: tinfl_refill_32_def)
  ultimately show ?thesis using that r(1,2) True by fastforce
next
  case False
  have "2 \<le> length (pIn_buf s) - pIn_buf_cur s" using inp by simp
  note r = tinfl_refill_32_takes [OF assms(1) this]
  have "tinfl_refill_64 s = s" using False by (simp add: tinfl_refill_64_def)
  with that [of "tinfl_refill_32 s"] r False inp show ?thesis by auto
qed

lemma refill_again_takes:
  assumes "bb_ok s" and "bit_buf_size s = 64 \<Longrightarrow> 15 \<le> num_bits s"
    and "bit_buf_size s \<noteq> 64 \<Longrightarrow> 2 \<le> length (pIn_buf s) - pIn_buf_cur s"
  obtains s' where "tinfl_refill_32 s = s'" and "takes s 0 s'" and "15 \<le> num_bits s'"
  using tinfl_refill_32_takes [OF assms(1,3)] assms(2) that [of "tinfl_refill_32 s"]
  by (cases "bit_buf_size s = 64") auto

lemma tinfl_literal_fast:
  assumes t: "huff_table lit t" and l: "inflate_lits lit out bs out' c bs'" and s: "rest s bs" "pOut_buf s = out"
    and room: "length out' \<le> pOut_buf_end s"
    and fast: "4 \<le> length (pIn_buf s) - pIn_buf_cur s" "2 \<le> pOut_buf_end s - length (pOut_buf s)"
  shows "\<exists>r s'. tinfl_literal t s = (Go r, s') \<and> fixed s s' \<and> lits_after lit out' c bs' out (r, s')"
proof -
  obtain s0 where s0: "tinfl_refill_32 (tinfl_refill_64 s) = s0" "takes s 0 s0" "15 \<le> num_bits s0"
    and s0_64: "bit_buf_size s = 64 \<Longrightarrow> 30 \<le> num_bits s0"
    and s0_32: "bit_buf_size s \<noteq> 64 \<Longrightarrow> 2 \<le> length (pIn_buf s) - pIn_buf_cur s0"
    using refills_takes [OF rest_bb_ok [OF s(1)] fast(1)] by metis
  have r0: "rest s0 bs" and k0: "keeps s s0" using rest_takes_0 [OF s(1) s0(2)] takesD(2) [OF s0(2)] by auto
  have lit: "tinfl_literal t s =
      co_bind (tinfl_fast_sym t) (\<lambda>counter.
        if counter AND 256 \<noteq> 0 then co_ret (Some counter) else
        co_bind (co_modify tinfl_refill_32) (\<lambda>_.
        co_bind (tinfl_fast_sym t) (\<lambda>sym2.
        co_bind (tinfl_put_byte (of_nat counter)) (\<lambda>_.
        if sym2 AND 256 \<noteq> 0 then co_ret (Some sym2) else
        co_bind (tinfl_put_byte (of_nat sym2)) (\<lambda>_.
        co_ret None))))) s0"
    using fast s0(1) by (simp add: tinfl_literal_def co_bind_def [of "co_modify _"] co_modify_def)
  from l show ?thesis
  proof cases
    case lits_stop
    obtain v s1 where v: "tinfl_fast_sym t s0 = (Go v, s1)" "v AND 511 = c" "rest s1 bs'" "keeps s0 s1"
      using rest_fast_sym [OF t lits_stop(3), of s0 bs'] r0 lits_stop(1) s0(3) by metis
    have "v AND 256 \<noteq> 0" using fast_val(1) [OF v(2)] huff_table_less [OF t lits_stop(3)] lits_stop(4) by simp
    then have "tinfl_literal t s = (Go (Some v), s1)" using v(1) unfolding lit by (simp add: co_simps)
    then show ?thesis using v lits_stop s k0 by (auto simp: lits_after_def keeps_def fixed_def)
  next
    case (lits_byte d bs1)
    obtain v s1 where v: "tinfl_fast_sym t s0 = (Go v, s1)" "v AND 511 = d" "rest s1 bs1" "keeps s0 s1"
      and nb: "num_bits s0 - 15 \<le> num_bits s1" and cur: "pIn_buf_cur s1 = pIn_buf_cur s0"
      using rest_fast_sym [OF t lits_byte(2), of s0 bs1] r0 lits_byte(1) s0(3) by metis
    have v256: "v AND 256 = 0" "(of_nat v :: u8) = of_nat d"
      using fast_val [OF v(2)] lits_byte(3) by auto
    have "keeps s s1" using keeps_trans [OF k0 v(4)] .
    then have "bit_buf_size s1 = 64 \<Longrightarrow> 15 \<le> num_bits s1"
        "bit_buf_size s1 \<noteq> 64 \<Longrightarrow> 2 \<le> length (pIn_buf s1) - pIn_buf_cur s1"
      using s0_64 s0_32 nb cur by (auto simp: keeps_def)
    then obtain s2 where s2: "tinfl_refill_32 s1 = s2" "takes s1 0 s2" "15 \<le> num_bits s2"
      using refill_again_takes [OF rest_bb_ok [OF v(3)]] by blast
    have r2: "rest s2 bs1" and k2: "keeps s s2"
      using rest_takes_0 [OF v(3) s2(2)] keeps_trans [OF \<open>keeps s s1\<close> takesD(2) [OF s2(2)]] by auto
    have len: "length out < pOut_buf_end s" using inflate_lits_mono [OF lits_byte(4)] room by simp
    let ?put = "\<lambda>s b. s\<lparr>pOut_buf := pOut_buf s @ [of_nat b]\<rparr>"
    from lits_byte(4) show ?thesis
    proof cases
      case lits_stop
      obtain v' s3 where v': "tinfl_fast_sym t s2 = (Go v', s3)" "v' AND 511 = c" "rest s3 bs'" "keeps s2 s3"
        using rest_fast_sym [OF t lits_stop(3), of s2 bs'] r2 lits_stop(1) s2(3) by metis
      have "v' AND 256 \<noteq> 0" using fast_val(1) [OF v'(2)] huff_table_less [OF t lits_stop(3)] lits_stop(4) by simp
      then have "tinfl_literal t s = (Go (Some v'), ?put s3 d)"
        using v(1) v256 s2(1) v' k2 len s(2) unfolding lit
        by (auto simp: co_simps tinfl_put_byte_def keeps_def)
      then show ?thesis using v' lits_stop s k2 by (auto simp: lits_after_def keeps_def fixed_def)
    next
      case (lits_byte d' bs2)
      obtain v' s3 where v': "tinfl_fast_sym t s2 = (Go v', s3)" "v' AND 511 = d'" "rest s3 bs2" "keeps s2 s3"
        using rest_fast_sym [OF t lits_byte(2), of s2 bs2] r2 lits_byte(1) s2(3) by metis
      have v256': "v' AND 256 = 0" "(of_nat v' :: u8) = of_nat d'"
        using fast_val [OF v'(2)] lits_byte(3) by auto
      have "tinfl_literal t s = (Go None, ?put (?put s3 d) d')"
        using v(1) v256 v256' s2(1) v' k2 fast(2) s(2) unfolding lit
        by (auto simp: co_simps tinfl_put_byte_def keeps_def)
      then show ?thesis using v' lits_byte s k2 by (auto simp: lits_after_def keeps_def fixed_def)
    qed
  qed
qed

lemma tinfl_literals_sim:
  assumes "huff_table lit t" and "inflate_lits lit out bs out' c bs'" and "rest s bs" and "pOut_buf s = out"
    and "length out' \<le> pOut_buf_end s" and "length out' - length out < fuel"
  shows "\<exists>v s'. tinfl_literals fuel t s = (Go v, s') \<and> v AND 511 = c \<and> fixed s s' \<and> rest s' bs' \<and> pOut_buf s' = out'"
  using assms(2-6)
proof (induction fuel arbitrary: out bs s)
  case (Suc fuel)
  obtain r s1 where s1: "tinfl_literal t s = (Go r, s1)" "fixed s s1" "lits_after lit out' c bs' out (r, s1)"
    using tinfl_literal_slow [OF assms(1) Suc.prems(1-4)] tinfl_literal_fast [OF assms(1) Suc.prems(1-4)]
    by (meson leI)
  show ?case
  proof (cases r)
    case None
    with s1(3) obtain bs1 where bs1: "inflate_lits lit (pOut_buf s1) bs1 out' c bs'" "rest s1 bs1" "length out < length (pOut_buf s1)"
      by (auto simp: lits_after_def)
    have "length out' - length (pOut_buf s1) < fuel" using bs1(3) inflate_lits_mono [OF bs1(1)] Suc.prems(5) by linarith
    with Suc.IH [OF bs1(1,2) refl] Suc.prems(4) s1(2) obtain v s' where
      "tinfl_literals fuel t s1 = (Go v, s')" "v AND 511 = c" "fixed s1 s'" "rest s' bs'" "pOut_buf s' = out'"
      by (auto simp: fixed_def)
    with s1(1,2) None fixed_trans show ?thesis by (auto simp: co_bind_def)
  next
    case (Some v)
    with s1 show ?thesis by (auto simp: co_simps lits_after_def)
  qed
qed simp

section \<open>Copies\<close>

lemma length_lz_copy [simp]: "length (lz_copy n d out) = length out + n"
  by (induction n arbitrary: out) auto

lemma lz_copy_add: "lz_copy (m + n) d out = lz_copy n d (lz_copy m d out)"
  by (induction m arbitrary: out) auto

text \<open>A copy that does not reach into itself is a block of the output.\<close>

lemma lz_copy_block:
  assumes "n \<le> d" and "d \<le> length out"
  shows "lz_copy n d out = out @ take n (drop (length out - d) out)"
  using assms(1)
proof (induction n)
  case (Suc n)
  let ?o = "lz_copy n d out"
  have "lz_copy (Suc n) d out = ?o @ [?o ! (length ?o - d)]" using lz_copy_add [of n 1 d out] by simp
  moreover have "?o ! (length ?o - d) = out ! (length out - d + n)"
    using Suc assms(2) by (simp add: nth_append)
  ultimately show ?case using Suc assms(2) by (simp add: take_Suc_conv_app_nth)
qed simp

lemma tinfl_copy_byte_lz:
  assumes "0 < d" and "d \<le> length (pOut_buf s)" and "length (pOut_buf s) < pOut_buf_end s"
  shows "tinfl_copy_byte (length (pOut_buf s) - d) s = (Go (), s\<lparr>pOut_buf := lz_copy 1 d (pOut_buf s)\<rparr>)"
  using assms by (simp add: tinfl_copy_byte_def tinfl_put_byte_def)

text \<open>The same for a source that is given by its own offset, as in the loops.\<close>

lemma tinfl_copy_byte_at:
  assumes "0 < d" and "src + d = length (pOut_buf s)" and "length (pOut_buf s) < pOut_buf_end s"
  shows "tinfl_copy_byte src s = (Go (), s\<lparr>pOut_buf := lz_copy 1 d (pOut_buf s)\<rparr>)"
  using tinfl_copy_byte_lz [OF assms(1) _ assms(3)] assms(2) by (metis add_diff_cancel_right' le_add2)

lemma tinfl_copy_32_at:
  assumes "4 \<le> d" and "src + d = length (pOut_buf s)" and "length (pOut_buf s) + 4 \<le> pOut_buf_end s"
  shows "tinfl_copy_32 src s = (Go (), s\<lparr>pOut_buf := lz_copy 4 d (pOut_buf s)\<rparr>)"
proof -
  have src: "length (pOut_buf s) - d = src" "d \<le> length (pOut_buf s)" using assms(2) by auto
  show ?thesis unfolding lz_copy_block [OF assms(1) src(2)] src(1)
    using assms by (simp add: tinfl_copy_32_def)
qed

lemma out_out [simp]: "s\<lparr>pOut_buf := a, pOut_buf := b\<rparr> = s\<lparr>pOut_buf := b\<rparr>"
  by simp

lemma tinfl_copy_3_lz:
  assumes "3 \<le> n" and "0 < d" and "src + d = length (pOut_buf s)" and "length (pOut_buf s) + n \<le> pOut_buf_end s"
  shows "tinfl_copy_3 (int n) src s =
    (Go (int (n mod 3), src + (n - n mod 3)), s\<lparr>pOut_buf := lz_copy (n - n mod 3) d (pOut_buf s)\<rparr>)"
  using assms
proof (induction n arbitrary: src s rule: less_induct)
  case (less n)
  let ?s1 = "s\<lparr>pOut_buf := lz_copy 1 d (pOut_buf s)\<rparr>" and ?s2 = "s\<lparr>pOut_buf := lz_copy 2 d (pOut_buf s)\<rparr>"
    and ?s3 = "s\<lparr>pOut_buf := lz_copy 3 d (pOut_buf s)\<rparr>"
  have c: "lz_copy 1 d (lz_copy 1 d o') = lz_copy 2 d o'" "lz_copy 1 d (lz_copy 2 d o') = lz_copy 3 d o'" for o'
    using lz_copy_add [of 1 1 d o'] lz_copy_add [of 2 1 d o'] by (simp_all add: numeral_eq_Suc)
  have "tinfl_copy_byte src s = (Go (), ?s1)" using less.prems by (intro tinfl_copy_byte_at) auto
  moreover have "tinfl_copy_byte (src + 1) ?s1 = (Go (), ?s2)"
    using tinfl_copy_byte_at [of d "src + 1" ?s1] less.prems by (simp add: c del: One_nat_def lz_copy.simps)
  moreover have "tinfl_copy_byte (src + 2) ?s2 = (Go (), ?s3)"
    using tinfl_copy_byte_at [of d "src + 2" ?s2] less.prems by (simp add: c del: One_nat_def lz_copy.simps)
  ultimately have step: "tinfl_copy_3 (int n) src s =
      (if 2 < int n - 3 then tinfl_copy_3 (int n - 3) (src + 3) ?s3 else (Go (int n - 3, src + 3), ?s3))"
    by (subst tinfl_copy_3.simps) (simp add: co_simps del: One_nat_def)
  show ?case
  proof (cases "6 \<le> n")
    case True
    have m: "(n - 3) mod 3 = n mod 3" using True mod_add_self2 [of "n - 3" 3] by simp
    have "tinfl_copy_3 (int (n - 3)) (src + 3) ?s3 =
        (Go (int (n mod 3), src + 3 + (n - 3 - n mod 3)), s\<lparr>pOut_buf := lz_copy (n - 3 - n mod 3) d (lz_copy 3 d (pOut_buf s))\<rparr>)"
      using less.IH [of "n - 3" "src + 3" ?s3] less.prems True m by (simp del: lz_copy.simps)
    moreover have k: "3 + (n - 3 - n mod 3) = n - n mod 3" using True mod_less_divisor [of 3 n] by linarith
    moreover have "lz_copy (n - 3 - n mod 3) d (lz_copy 3 d (pOut_buf s)) = lz_copy (n - n mod 3) d (pOut_buf s)"
      unfolding lz_copy_add [symmetric] k ..
    moreover have "tinfl_copy_3 (int n) src s = tinfl_copy_3 (int (n - 3)) (src + 3) ?s3"
      using step True by (simp add: of_nat_diff del: lz_copy.simps)
    ultimately show ?thesis by (simp only: add.assoc)
  next
    case False
    then have "n = 3 \<or> n = 4 \<or> n = 5" using less.prems(1) by linarith
    then show ?thesis using step by (auto simp del: lz_copy.simps)
  qed
qed

lemma tinfl_copy_tail_lz:
  assumes "n \<le> 2" and "0 < d" and "src + d = length (pOut_buf s)" and "length (pOut_buf s) + n \<le> pOut_buf_end s"
  shows "tinfl_copy_tail (int n) src s = (Go (), s\<lparr>pOut_buf := lz_copy n d (pOut_buf s)\<rparr>)"
proof -
  have c: "lz_copy 1 d (lz_copy 1 d o') = lz_copy 2 d o'" for o'
    using lz_copy_add [of 1 1 d o'] by (simp add: numeral_eq_Suc)
  consider "n = 0" | "n = 1" | "n = 2" using assms(1) by linarith
  then show ?thesis
  proof cases
    case 1
    then show ?thesis by (simp add: tinfl_copy_tail_def co_simps)
  next
    case 2
    then show ?thesis using tinfl_copy_byte_at [OF assms(2,3)] assms(4)
      by (simp add: tinfl_copy_tail_def co_simps)
  next
    case 3
    let ?s1 = "s\<lparr>pOut_buf := lz_copy 1 d (pOut_buf s)\<rparr>"
    have "tinfl_copy_byte src s = (Go (), ?s1)" using tinfl_copy_byte_at [OF assms(2,3)] assms(4) 3 by simp
    moreover have "tinfl_copy_byte (src + 1) ?s1 = (Go (), s\<lparr>pOut_buf := lz_copy 2 d (pOut_buf s)\<rparr>)"
      using tinfl_copy_byte_at [of d "src + 1" ?s1] assms 3 by (simp add: c del: One_nat_def lz_copy.simps)
    ultimately show ?thesis using 3 by (simp add: tinfl_copy_tail_def co_simps del: One_nat_def lz_copy.simps)
  qed
qed

lemma tinfl_copy_fast_lz:
  assumes "3 \<le> n" and "0 < d" and "src + d = length (pOut_buf s)" and "length (pOut_buf s) + n \<le> pOut_buf_end s"
  shows "tinfl_copy_fast n src s = (Go (), s\<lparr>pOut_buf := lz_copy n d (pOut_buf s)\<rparr>)"
proof -
  let ?s = "s\<lparr>pOut_buf := lz_copy (n - n mod 3) d (pOut_buf s)\<rparr>"
  have n: "n - n mod 3 + n mod 3 = n" by simp
  have "n mod 3 \<le> 2" by (simp add: less_Suc_eq_le [symmetric])
  then have "tinfl_copy_tail (int (n mod 3)) (src + (n - n mod 3)) ?s = (Go (), s\<lparr>pOut_buf := lz_copy n d (pOut_buf s)\<rparr>)"
    using tinfl_copy_tail_lz [of "n mod 3" d "src + (n - n mod 3)" ?s] assms lz_copy_add [of "n - n mod 3" "n mod 3" d "pOut_buf s"] n
    by simp
  then show ?thesis using tinfl_copy_3_lz [OF assms] by (simp add: tinfl_copy_fast_def co_simps)
qed

lemma tinfl_copy_8_lz:
  assumes "4 \<le> d" and "src + d = length (pOut_buf s)" and "length (pOut_buf s) + 8 * Suc q \<le> pOut_buf_end s"
  shows "tinfl_copy_8 src (src + 8 * Suc q) s =
    (Go (src + 8 * Suc q), s\<lparr>pOut_buf := lz_copy (8 * Suc q) d (pOut_buf s)\<rparr>)"
  using assms
proof (induction q arbitrary: src s)
  case (0 src s)
  let ?s1 = "s\<lparr>pOut_buf := lz_copy 4 d (pOut_buf s)\<rparr>"
  have "tinfl_copy_32 src s = (Go (), ?s1)" using 0 by (intro tinfl_copy_32_at) auto
  moreover have "tinfl_copy_32 (src + 4) ?s1 = (Go (), s\<lparr>pOut_buf := lz_copy 8 d (pOut_buf s)\<rparr>)"
    using tinfl_copy_32_at [of d "src + 4" ?s1] 0 lz_copy_add [of 4 4 d "pOut_buf s"] by simp
  ultimately show ?case by (subst tinfl_copy_8.simps) (simp add: co_simps)
next
  case (Suc q)
  let ?s1 = "s\<lparr>pOut_buf := lz_copy 4 d (pOut_buf s)\<rparr>" and ?s2 = "s\<lparr>pOut_buf := lz_copy 8 d (pOut_buf s)\<rparr>"
  have "tinfl_copy_32 src s = (Go (), ?s1)" using Suc.prems by (intro tinfl_copy_32_at) auto
  moreover have "tinfl_copy_32 (src + 4) ?s1 = (Go (), ?s2)"
    using tinfl_copy_32_at [of d "src + 4" ?s1] Suc.prems lz_copy_add [of 4 4 d "pOut_buf s"] by simp
  moreover have "tinfl_copy_8 (src + 8) (src + 8 + 8 * Suc q) ?s2 =
      (Go (src + 8 + 8 * Suc q), s\<lparr>pOut_buf := lz_copy (8 * Suc q) d (lz_copy 8 d (pOut_buf s))\<rparr>)"
    using Suc.IH [of "src + 8" ?s2] Suc.prems by simp
  moreover have "lz_copy (8 * Suc q) d (lz_copy 8 d (pOut_buf s)) = lz_copy (8 * Suc (Suc q)) d (pOut_buf s)"
    using lz_copy_add [of 8 "8 * Suc q" d "pOut_buf s"] by simp
  ultimately show ?case by (subst tinfl_copy_8.simps) (simp add: co_simps add.assoc)
qed

text \<open>Whichever of its loops it takes, the copy is the byte by byte copy of RFC 1951.\<close>

lemma tinfl_copy_lz:
  assumes "3 \<le> n" and "0 < d" and "d \<le> length (pOut_buf s)" and "length (pOut_buf s) + n \<le> pOut_buf_end s"
  shows "tinfl_copy n d s = (Go (), s\<lparr>pOut_buf := lz_copy n d (pOut_buf s)\<rparr>)"
proof -
  let ?src = "length (pOut_buf s) - d"
  have src: "?src + d = length (pOut_buf s)" using assms(3) by simp
  have max: "max (length (pOut_buf s)) ?src = length (pOut_buf s)" by simp
  show ?thesis
  proof (cases "9 \<le> n \<and> n \<le> d")
    case True
    define q where "q = n div 8 - 1"
    have "1 \<le> n div 8" using True div_le_mono [of 8 n 8] by simp
    then have q: "n - n mod 8 = 8 * Suc q" by (simp add: q_def minus_mod_eq_mult_div)
    have n: "8 * Suc q + n mod 8 = n" using q mod_le_divisor [of 8 n] by (metis le_add_diff_inverse2 mod_less_eq_dividend)
    let ?s = "s\<lparr>pOut_buf := lz_copy (8 * Suc q) d (pOut_buf s)\<rparr>"
    have "tinfl_copy_8 ?src (?src + (n - n mod 8)) s = (Go (?src + 8 * Suc q), ?s)"
      unfolding q using True src assms(4) n by (intro tinfl_copy_8_lz) auto
    moreover have "tinfl_copy_tail (int (n mod 8)) (?src + 8 * Suc q) ?s =
        (Go (), s\<lparr>pOut_buf := lz_copy n d (pOut_buf s)\<rparr>)" if "n mod 8 < 3"
      using tinfl_copy_tail_lz [of "n mod 8" d "?src + 8 * Suc q" ?s] that assms src n
        lz_copy_add [of "8 * Suc q" "n mod 8" d "pOut_buf s"] by simp
    moreover have "tinfl_copy_fast (n mod 8) (?src + 8 * Suc q) ?s =
        (Go (), s\<lparr>pOut_buf := lz_copy n d (pOut_buf s)\<rparr>)" if "\<not> n mod 8 < 3"
      using tinfl_copy_fast_lz [of "n mod 8" d "?src + 8 * Suc q" ?s] that assms src n
        lz_copy_add [of "8 * Suc q" "n mod 8" d "pOut_buf s"] by simp
    ultimately show ?thesis using True assms(4) by (simp add: tinfl_copy_def co_simps Let_def)
  next
    case False
    with tinfl_copy_fast_lz [OF assms(1,2) src assms(4)] assms(4) show ?thesis by (auto simp: tinfl_copy_def Let_def)
  qed
qed

section \<open>The symbols of a block\<close>

lemma rfc_length_tables:
  assumes "257 \<le> c" and "c \<le> 285"
  shows "s_length_base ! (c - 257) = rfc_length_base c" and "s_length_extra ! (c - 257) = rfc_length_extra c"
    and "3 \<le> rfc_length_base c" and "rfc_length_extra c \<le> 16"
proof -
  have "\<forall>c \<in> set [257..<286]. s_length_base ! (c - 257) = rfc_length_base c \<and>
      s_length_extra ! (c - 257) = rfc_length_extra c \<and> 3 \<le> rfc_length_base c \<and> rfc_length_extra c \<le> 16"
    by code_simp
  moreover have "c \<in> set [257..<286]" using assms unfolding set_upt atLeastLessThan_iff by simp
  ultimately show "s_length_base ! (c - 257) = rfc_length_base c" and "s_length_extra ! (c - 257) = rfc_length_extra c"
    and "3 \<le> rfc_length_base c" and "rfc_length_extra c \<le> 16" by blast+
qed

lemma rfc_dist_tables:
  assumes "d < 30"
  shows "s_dist_base ! d = rfc_dist_base d" and "s_dist_extra ! d = rfc_dist_extra d"
    and "0 < rfc_dist_base d" and "rfc_dist_extra d \<le> 16"
proof -
  have base: "map rfc_dist_base [0..<30] = take 30 s_dist_base"
    by (simp add: rfc_dist_base.simps rfc_dist_extra.simps upt_conv_Cons s_dist_base_def)
  have extra: "map rfc_dist_extra [0..<30] = take 30 s_dist_extra"
    by (simp add: rfc_dist_extra.simps upt_conv_Cons s_dist_extra_def)
  show "s_dist_base ! d = rfc_dist_base d" "s_dist_extra ! d = rfc_dist_extra d"
    using arg_cong [OF base, of "\<lambda>xs. xs ! d"] arg_cong [OF extra, of "\<lambda>xs. xs ! d"] assms by simp_all
  show "0 < rfc_dist_base d" "rfc_dist_extra d \<le> 16"
    using assms by (auto simp: rfc_dist_base.simps rfc_dist_extra.simps)
qed

lemma rest_extra:
  assumes "rest s (xs @ bs)" and "length xs \<le> 16"
  obtains s' where "tinfl_extra (length xs) s = (Go (bits_val xs), s')" and "rest s' bs" and "keeps s s'"
proof (cases "xs = []")
  case True
  with that [of s] assms show ?thesis by (simp add: tinfl_extra_def co_simps bits_val_def)
next
  case False
  obtain s' where "tinfl_get_bits (length xs) s = (Go (bits_val xs), s')" "rest s' bs" "keeps s s'"
    using rest_get_bits [OF assms] .
  with False that show ?thesis by (simp add: tinfl_extra_def)
qed

lemma tinfl_match_sim:
  assumes t: "huff_table dist t" and c: "257 \<le> c" "c \<le> 285" "length xs = rfc_length_extra c"
    and d: "huff_used dist d" "d < 30" "length ys = rfc_dist_extra d"
    and reach: "rfc_dist_base d + bits_val ys \<le> length (pOut_buf s)"
    and room: "length (pOut_buf s) + (rfc_length_base c + bits_val xs) \<le> pOut_buf_end s"
    and s: "rest s (xs @ huff_path dist d @ ys @ bs)"
  shows "\<exists>s'. tinfl_match t c s = (Go (), s') \<and> fixed s s' \<and> rest s' bs \<and>
    pOut_buf s' = lz_copy (rfc_length_base c + bits_val xs) (rfc_dist_base d + bits_val ys) (pOut_buf s)"
proof -
  note len = rfc_length_tables [OF c(1,2)] and dst = rfc_dist_tables [OF d(2)]
  obtain s1 where s1: "tinfl_extra (s_length_extra ! (c - 257)) s = (Go (bits_val xs), s1)"
      "rest s1 (huff_path dist d @ ys @ bs)" "keeps s s1"
    using rest_extra [OF s] len(2,4) c(3) by metis
  obtain s2 where s2: "tinfl_huff_decode t s1 = (Go d, s2)" "rest s2 (ys @ bs)" "keeps s1 s2"
    using rest_huff_decode [OF t d(1) s1(2)] .
  obtain s3 where s3: "tinfl_extra (s_dist_extra ! d) s2 = (Go (bits_val ys), s3)" "rest s3 bs" "keeps s2 s3"
    using rest_extra [OF s2(2)] dst(2,4) d(3) by metis
  have k: "keeps s s3" using s1(3) s2(3) s3(3) keeps_trans by blast
  let ?n = "rfc_length_base c + bits_val xs" and ?d = "rfc_dist_base d + bits_val ys"
  have copy: "tinfl_copy ?n ?d s3 = (Go (), s3\<lparr>pOut_buf := lz_copy ?n ?d (pOut_buf s3)\<rparr>)"
    using len(3) dst(3) reach room keeps_out [OF k] by (intro tinfl_copy_lz) auto
  have "\<not> length s_length_base \<le> c - 257" using c(1,2) by (simp add: s_length_base_def)
  moreover have "\<not> length s_dist_base \<le> d" using d(2) by (simp add: s_dist_base_def)
  ultimately have "tinfl_match t c s = (Go (), s3\<lparr>pOut_buf := lz_copy ?n ?d (pOut_buf s3)\<rparr>)"
    using s1(1) s2(1) s3(1) copy reach len(1) dst(1) keeps_out [OF k]
    by (simp add: tinfl_match_def co_simps Let_def)
  with s3(2) keeps_out [OF k] keeps_fixed [OF k] show ?thesis by (auto simp: fixed_def)
qed

lemma inflate_codes_mono: "inflate_codes lit dist out bs out' bs' \<Longrightarrow> length out \<le> length out'"
  by (induction rule: inflate_codes.induct) (auto dest: inflate_lits_mono)

lemma tinfl_codes_sim:
  assumes "huff_table lit t0" and "huff_table dist t1"
    and "inflate_codes lit dist out bs out' bs'" and "rest s bs" and "pOut_buf s = out"
    and "length out' \<le> pOut_buf_end s" and "length out' - length out < fuel"
  shows "\<exists>s'. tinfl_codes fuel t0 t1 s = (Go (), s') \<and> fixed s s' \<and> rest s' bs' \<and> pOut_buf s' = out'"
  using assms(3-7)
proof (induction arbitrary: s fuel rule: inflate_codes.induct)
  case (codes_end out bs out' bs')
  obtain f where f: "fuel = Suc f" using codes_end.prems by (cases fuel) auto
  have "length out' - length out < pOut_buf_end s - length (pOut_buf s) + 2" using codes_end.prems by auto
  from tinfl_literals_sim [OF assms(1) codes_end.hyps codes_end.prems(1,2,3) this] codes_end.prems
  show ?case unfolding f by (auto simp: co_bind_def co_ret_def)
next
  case (codes_match out bs out1 c xs d ys bs1 out' bs')
  let ?n = "rfc_length_base c + bits_val xs" and ?d = "rfc_dist_base d + bits_val ys"
  obtain f where f: "fuel = Suc f" using codes_match.prems by (cases fuel) auto
  have "length (lz_copy ?n ?d out1) \<le> length out'" using inflate_codes_mono [OF codes_match.hyps(9)] .
  then have out1: "length out1 + ?n \<le> length out'" by simp
  have mono: "length out \<le> length out1" using inflate_lits_mono [OF codes_match.hyps(1)] .
  have "length out1 \<le> pOut_buf_end s" and "length out1 - length out < pOut_buf_end s - length (pOut_buf s) + 2"
    using codes_match.prems out1 by auto
  from tinfl_literals_sim [OF assms(1) codes_match.hyps(1) codes_match.prems(1,2) this] obtain v s1 where
    s1: "tinfl_literals (pOut_buf_end s - length (pOut_buf s) + 2) t0 s = (Go v, s1)" "v AND 511 = c"
      "fixed s s1" "rest s1 (xs @ huff_path dist d @ ys @ bs1)" "pOut_buf s1 = out1" by blast
  have "length (pOut_buf s1) + ?n \<le> pOut_buf_end s1" using out1 s1(3,5) codes_match.prems(3) by (simp add: fixed_def)
  then obtain s2 where s2: "tinfl_match t1 c s1 = (Go (), s2)" "fixed s1 s2" "rest s2 bs1" "pOut_buf s2 = lz_copy ?n ?d out1"
    using tinfl_match_sim [OF assms(2) codes_match.hyps(2-7) _ _ s1(4)] codes_match.hyps(8) s1(5) by blast
  have "length out' - length (lz_copy ?n ?d out1) < f"
    using codes_match.prems(4) f mono out1 rfc_length_tables(3) [OF codes_match.hyps(2,3)] by simp
  moreover have "length out' \<le> pOut_buf_end s2" using codes_match.prems(3) s1(3) s2(2) by (simp add: fixed_def)
  ultimately obtain s3 where "tinfl_codes f t0 t1 s2 = (Go (), s3)" "fixed s2 s3" "rest s3 bs'" "pOut_buf s3 = out'"
    using codes_match.IH [OF s2(3,4)] by blast
  moreover have "c \<noteq> 256" using codes_match.hyps(2) by simp
  moreover have "fixed s s3" using s1(3) s2(2) \<open>fixed s2 s3\<close> fixed_trans by blast
  ultimately show ?case using s1(1,2) s2(1) unfolding f by (simp add: co_bind_def Let_def)
qed

end
