(* ===== verification/Sqfs_Zlib.thy ===== *)
theory Sqfs_Zlib
  imports Sqfs_Inflate
begin

text \<open>
  Blocks and whole streams: the three kinds of block of RFC 1951, the zlib container of RFC 1950 with its
  Adler-32 checksum, and the proof that the decompressor of the Windows build returns the data of every
  stream that follows the grammar, in a build with a bit buffer of 32 or of 64 bits.
\<close>

section \<open>The grammar of a stream\<close>

text \<open>The code lengths of the code length alphabet, in the order of RFC 1951, section 3.2.7.\<close>

definition rfc_order :: "nat list" where
  "rfc_order = [16, 17, 18, 0, 8, 7, 9, 6, 10, 5, 11, 4, 12, 3, 13, 2, 14, 1, 15]"

definition rfc_clen :: "nat list \<Rightarrow> nat list" where
  "rfc_clen vs = foldl (\<lambda>z (i, v). z[i := v]) (replicate 19 0) (zip rfc_order vs)"

inductive code_lens :: "nat list \<Rightarrow> nat \<Rightarrow> nat list \<Rightarrow> bool list \<Rightarrow> nat list \<Rightarrow> bool list \<Rightarrow> bool" for clen n where
  lens_done: "length lens = n \<Longrightarrow> code_lens clen n lens bs lens bs"
| lens_one: "huff_used clen d \<Longrightarrow> d < 16 \<Longrightarrow> code_lens clen n (lens @ [d]) bs lens' bs' \<Longrightarrow>
    code_lens clen n lens (huff_path clen d @ bs) lens' bs'"
| lens_again: "huff_used clen 16 \<Longrightarrow> lens \<noteq> [] \<Longrightarrow> length xs = 2 \<Longrightarrow>
    code_lens clen n (lens @ replicate (3 + bits_val xs) (last lens)) bs lens' bs' \<Longrightarrow>
    code_lens clen n lens (huff_path clen 16 @ xs @ bs) lens' bs'"
| lens_zeros: "huff_used clen 17 \<Longrightarrow> length xs = 3 \<Longrightarrow>
    code_lens clen n (lens @ replicate (3 + bits_val xs) 0) bs lens' bs' \<Longrightarrow>
    code_lens clen n lens (huff_path clen 17 @ xs @ bs) lens' bs'"
| lens_many_zeros: "huff_used clen 18 \<Longrightarrow> length xs = 7 \<Longrightarrow>
    code_lens clen n (lens @ replicate (11 + bits_val xs) 0) bs lens' bs' \<Longrightarrow>
    code_lens clen n lens (huff_path clen 18 @ xs @ bs) lens' bs'"

inductive inflate_sizes :: "bool list \<Rightarrow> nat list \<Rightarrow> nat list \<Rightarrow> bool list \<Rightarrow> bool" where
  "length hlit = 5 \<Longrightarrow> length hdist = 5 \<Longrightarrow> length hclen = 4 \<Longrightarrow>
   length vs = bits_val hclen + 4 \<Longrightarrow> \<forall>v \<in> set vs. length v = 3 \<Longrightarrow>
   huff_ok (rfc_clen (map bits_val vs)) \<Longrightarrow>
   code_lens (rfc_clen (map bits_val vs)) (bits_val hlit + 257 + (bits_val hdist + 1)) [] bs lens bs' \<Longrightarrow>
   inflate_sizes (hlit @ hdist @ hclen @ concat vs @ bs)
     (take (bits_val hlit + 257) lens) (drop (bits_val hlit + 257) lens) bs'"

text \<open>The fixed code of section 3.2.6.\<close>

definition rfc_fixed_lit :: "nat list" where
  "rfc_fixed_lit = map (\<lambda>c. if c < 144 then 8 else if c < 256 then 9 else if c < 280 then 7 else 8) [0..<288]"

definition rfc_fixed_dist :: "nat list" where
  "rfc_fixed_dist = replicate 32 5"

inductive inflate_block :: "nat \<Rightarrow> bytes \<Rightarrow> bool list \<Rightarrow> bytes \<Rightarrow> bool list \<Rightarrow> bool" where
  block_stored: "length pad < 8 \<Longrightarrow> 8 dvd length bs \<Longrightarrow> length data = unat (n :: u16) \<Longrightarrow>
    inflate_block 0 out (pad @ stream_bits (le_bytes 2 n @ le_bytes 2 (NOT n) @ data) @ bs) (out @ data) bs"
| block_fixed: "inflate_codes rfc_fixed_lit rfc_fixed_dist out bs out' bs' \<Longrightarrow> inflate_block 1 out bs out' bs'"
| block_dynamic: "inflate_sizes bs lit dist bs1 \<Longrightarrow> huff_ok lit \<Longrightarrow> huff_ok dist \<Longrightarrow>
    inflate_codes lit dist out bs1 out' bs' \<Longrightarrow>
    inflate_block 2 out bs out' bs'"

inductive inflate_blocks :: "bytes \<Rightarrow> bool list \<Rightarrow> bytes \<Rightarrow> bool list \<Rightarrow> bool" where
  blocks_last: "inflate_block (bits_val [t0, t1]) out bs out' bs' \<Longrightarrow>
    inflate_blocks out (True # t0 # t1 # bs) out' bs'"
| blocks_more: "inflate_block (bits_val [t0, t1]) out bs out1 bs1 \<Longrightarrow> inflate_blocks out1 bs1 out' bs' \<Longrightarrow>
    inflate_blocks out (False # t0 # t1 # bs) out' bs'"

section \<open>Stored blocks\<close>

lemma byte_bits_inj: "byte_bits a = byte_bits b \<longleftrightarrow> a = b"
  by (metis bits_val_byte unsigned_word_eqI)

lemma stream_bits_inj:
  "length xs = length ys \<Longrightarrow> stream_bits xs @ r = stream_bits ys @ r' \<longleftrightarrow> xs = ys \<and> r = r'"
proof (induction xs ys rule: list_induct2)
  case (Cons x xs y ys)
  then show ?case by (auto simp: byte_bits_inj)
qed simp

lemma rest_raw_byte:
  assumes "rest s (byte_bits b @ bs)"
  obtains s' where "tinfl_raw_byte s = (Go (unat b), s')" and "rest s' bs" and "keeps s s'"
    and "num_bits s \<noteq> 0 \<Longrightarrow> 8 dvd num_bits s \<Longrightarrow> num_bits s' = num_bits s - 8"
    and "num_bits s = 0 \<Longrightarrow> num_bits s' = 0"
proof (cases "num_bits s = 0")
  case True
  obtain k where k: "stream_bits (drop (pIn_buf_cur s) (pIn_buf s)) = byte_bits b @ bs @ replicate (8 * k) False"
    using assms True by (auto simp: rest_def todo_def)
  then have cur: "pIn_buf_cur s < length (pIn_buf s)"
    by (metis drop_all length_byte_bits append_is_Nil_conv stream_bits_simps(1) not_le list.size(3) zero_neq_numeral)
  let ?s = "s\<lparr>pIn_buf_cur := pIn_buf_cur s + 1\<rparr>"
  have d: "drop (pIn_buf_cur s) (pIn_buf s) = pIn_buf s ! pIn_buf_cur s # drop (pIn_buf_cur s + 1) (pIn_buf s)"
    using cur by (simp add: Cons_nth_drop_Suc)
  have e: "byte_bits (pIn_buf s ! pIn_buf_cur s) = byte_bits b"
      "stream_bits (drop (pIn_buf_cur s + 1) (pIn_buf s)) = bs @ replicate (8 * k) False"
    using k unfolding d by (auto simp: append_eq_append_conv)
  have "tinfl_raw_byte s = (Go (unat b), ?s)"
    using True cur e(1) by (simp add: tinfl_raw_byte_def tinfl_get_byte_def byte_bits_inj)
  moreover have "rest ?s bs" using assms True e(2) cur by (auto simp: rest_def todo_def bb_ok_def)
  ultimately show ?thesis using that [of ?s] True by (simp add: keeps_def)
next
  case False
  obtain s' where s': "tinfl_get_bits 8 s = (Go (unat b), s')" "rest s' bs" "keeps s s'"
    using rest_get_bits [OF assms] by auto
  moreover have "num_bits s' = num_bits s - 8" if "8 dvd num_bits s"
  proof -
    have "8 \<le> num_bits s" using that False by (simp add: dvd_imp_le)
    then show ?thesis using s'(1) rest_bb_ok [OF assms] by (auto simp: tinfl_get_bits_def tinfl_drop_bits_def bb_ok_def)
  qed
  ultimately show ?thesis using that [of s'] False by (simp add: tinfl_raw_byte_def)
qed

lemma tinfl_stored_bits_sim:
  assumes "rest s (stream_bits data @ bs)" and "8 dvd num_bits s" and "length (pOut_buf s) + length data \<le> pOut_buf_end s"
  shows "\<exists>s' d1 d2. tinfl_stored_bits (length data) s = (Go (length d2), s') \<and> data = d1 @ d2 \<and> fixed s s' \<and>
    rest s' (stream_bits d2 @ bs) \<and> pOut_buf s' = pOut_buf s @ d1 \<and> (d2 = [] \<or> num_bits s' = 0)"
  using assms
proof (induction data arbitrary: s)
  case Nil
  then show ?case by (intro exI [of _ s]) (simp add: co_simps)
next
  case (Cons b data)
  show ?case
  proof (cases "num_bits s = 0")
    case True
    with Cons.prems show ?thesis by (intro exI [of _ s] exI [of _ "[]"] exI [of _ "b # data"]) simp
  next
    case False
    obtain s1 where "tinfl_raw_byte s = (Go (unat b), s1)" and r1: "rest s1 (stream_bits data @ bs)" and k1: "keeps s s1"
      and n1: "num_bits s1 = num_bits s - 8"
      using rest_raw_byte [of s b "stream_bits data @ bs"] Cons.prems(1,2) False by auto
    then have g: "tinfl_get_bits 8 s = (Go (unat b), s1)" using False by (simp add: tinfl_raw_byte_def)
    let ?s = "s1\<lparr>pOut_buf := pOut_buf s1 @ [b]\<rparr>"
    have "8 dvd num_bits ?s" using Cons.prems(2) n1 by (simp add: dvd_diff_nat)
    moreover have "rest ?s (stream_bits data @ bs)" using r1 by simp
    moreover have "length (pOut_buf ?s) + length data \<le> pOut_buf_end ?s" using Cons.prems(3) keeps_out [OF k1] by simp
    ultimately obtain s' d1 d2 where s': "tinfl_stored_bits (length data) ?s = (Go (length d2), s')" "data = d1 @ d2" "fixed ?s s'"
      "rest s' (stream_bits d2 @ bs)" "pOut_buf s' = pOut_buf ?s @ d1" "d2 = [] \<or> num_bits s' = 0"
      using Cons.IH [of ?s] by blast
    have "fixed s s'" using s'(3) k1 by (simp add: fixed_def keeps_def)
    moreover have "tinfl_stored_bits (length (b # data)) s = (Go (length d2), s')"
      using False g s'(1) Cons.prems(3) keeps_out [OF k1]
      by (simp add: co_simps tinfl_room_def tinfl_put_byte_def)
    ultimately show ?thesis using s' keeps_out [OF k1] by (intro exI [of _ s'] exI [of _ "b # d1"] exI [of _ d2]) simp
  qed
qed

lemma tinfl_stored_copy_sim:
  assumes "rest s (stream_bits data @ bs)" and "data = [] \<or> num_bits s = 0"
    and "length (pOut_buf s) + length data \<le> pOut_buf_end s"
  shows "\<exists>s'. tinfl_stored_copy (length data) s = (Go (), s') \<and> fixed s s' \<and> rest s' bs \<and> pOut_buf s' = pOut_buf s @ data"
proof (cases "data = []")
  case True
  with assms show ?thesis by (intro exI [of _ s]) (simp add: tinfl_stored_copy.simps)
next
  case False
  let ?in = "drop (pIn_buf_cur s) (pIn_buf s)" and ?n = "length data"
  obtain k where k: "stream_bits ?in = stream_bits data @ bs @ replicate (8 * k) False"
    using assms(1,2) False by (auto simp: rest_def todo_def)
  have "?n \<le> length ?in" using arg_cong [OF k, of length] by simp
  then have len: "length data \<le> length (pIn_buf s) - pIn_buf_cur s" by simp
  have "stream_bits (take ?n ?in) @ stream_bits (drop ?n ?in) = stream_bits data @ bs @ replicate (8 * k) False"
    using k by (metis append_take_drop_id stream_bits_simps(3))
  then have e: "take ?n ?in = data" "stream_bits (drop ?n ?in) = bs @ replicate (8 * k) False"
    using stream_bits_inj [of "take ?n ?in" data] len by auto
  let ?s = "s\<lparr>pOut_buf := pOut_buf s @ data, pIn_buf_cur := pIn_buf_cur s + ?n\<rparr>"
  have "0 < ?n" using False by simp
  then have "tinfl_stored_copy ?n s = tinfl_stored_copy 0 ?s"
  proof -
    have "min (min (pOut_buf_end s - length (pOut_buf s)) (length (pIn_buf s) - pIn_buf_cur s)) ?n = ?n"
      using assms(3) len by simp
    moreover have "\<not> pOut_buf_end s \<le> length (pOut_buf s)" "\<not> length (pIn_buf s) \<le> pIn_buf_cur s"
      using assms(3) len \<open>0 < ?n\<close> by linarith+
    ultimately show ?thesis using \<open>0 < ?n\<close> e(1) by (subst tinfl_stored_copy.simps) (simp add: Let_def)
  qed
  moreover have "tinfl_stored_copy 0 ?s = (Go (), ?s)" by (simp add: tinfl_stored_copy.simps)
  moreover have "rest ?s bs" using assms(1,2) False e(2) len
    by (auto simp: rest_def todo_def bb_ok_def add.commute)
  ultimately show ?thesis by (simp add: fixed_def)
qed

lemma rest_align:
  assumes "rest s (pad @ bs)" and "length pad < 8" and "8 dvd length bs"
  obtains s' where "tinfl_skip_bits (num_bits s AND 7) s = (Go (), s')" and "rest s' bs" and "keeps s s'"
    and "8 dvd num_bits s'"
proof -
  obtain k where "todo s = pad @ bs @ replicate (8 * k) False" using assms(1) by (auto simp: rest_def)
  from arg_cong [OF this, of length] have "num_bits s + 8 * (length (pIn_buf s) - pIn_buf_cur s) = length pad + length bs + 8 * k"
    by (simp add: todo_def)
  moreover obtain m where "length bs = 8 * m" using assms(3) by blast
  ultimately have "num_bits s mod 8 = length pad"
    using assms(2) by (metis add.assoc distrib_left mod_less mod_mult_self2)
  then have n: "num_bits s AND 7 = length pad"
    by (simp add: take_bit_eq_mod [of 3, symmetric, simplified] take_bit_eq_mask mask_eq_exp_minus_1)
  obtain s' where s': "tinfl_skip_bits (length pad) s = (Go (), s')" "takes s (length pad) s'"
    using tinfl_skip_bits_takes [OF rest_bb_ok [OF assms(1)], of "length pad"] assms(2) by auto
  have "length pad \<le> num_bits s" using \<open>num_bits s mod 8 = length pad\<close> by (metis mod_less_eq_dividend)
  then have "num_bits s' = num_bits s - length pad"
    using s'(1) rest_bb_ok [OF assms(1)] by (auto simp: tinfl_skip_bits_def tinfl_drop_bits_def bb_ok_def)
  then have "8 dvd num_bits s'" using \<open>num_bits s mod 8 = length pad\<close> by (metis dvd_minus_mod)
  with that [of s'] s' n rest_takes [OF assms(1) s'(2)] takesD(2) show ?thesis by simp
qed

lemma stored_len:
  "le_bytes 2 (n :: u16) = [a, b] \<Longrightarrow> unat a OR push_bit 8 (unat b) = unat n"
proof -
  assume n: "le_bytes 2 n = [a, b]"
  let ?v = "unat a OR push_bit 8 (unat b)"
  have "bits_of 16 ?v = stream_bits [a, b]"
    using bits_of_or_shift [OF unat_byte_less [of a], of 8 "unat b"] by (simp add: byte_bits_def)
  also have "\<dots> = bits_of 16 (unat (sqfs_swapin16 [a, b]))"
    using bits_of_swapin(1) [of "[a, b]", where ?'a = 16] by (simp add: sqfs_swapin16_def)
  also have "sqfs_swapin16 [a, b] = n" by (metis n swapin_le_bytes(1))
  finally have "take_bit 16 ?v = take_bit 16 (unat n)" by (simp add: bits_of_eq_iff)
  moreover have "?v < 2 ^ 16" using or_shift_less [OF unat_byte_less [of a] unat_byte_less [of b]] by simp
  moreover have "unat n < 2 ^ 16" using unsigned_less [of n] by simp
  ultimately show ?thesis by (simp only: take_bit_nat_eq_self)
qed

lemma xor_not_len: "65535 XOR unat (NOT n :: u16) = unat n"
proof -
  have m: "(65535 :: nat) = mask 16" by (simp add: mask_eq_exp_minus_1)
  show ?thesis unfolding m
    by (intro bit_eqI) (auto simp: bit_xor_iff bit_mask_iff bit_unsigned_iff bit_not_iff dest: bit_imp_le_length)
qed

lemma tinfl_stored_sim:
  assumes "length pad < 8" and "8 dvd length bs" and "length data = unat (n :: u16)"
    and "rest s (pad @ stream_bits (le_bytes 2 n @ le_bytes 2 (NOT n) @ data) @ bs)"
    and "length (pOut_buf s) + length data \<le> pOut_buf_end s"
  shows "\<exists>s'. tinfl_stored s = (Go (), s') \<and> fixed s s' \<and> rest s' bs \<and> pOut_buf s' = pOut_buf s @ data"
proof -
  obtain a b where n: "le_bytes 2 n = [a, b]" by (simp add: numeral_2_eq_2)
  obtain c d where m: "le_bytes 2 (NOT n) = [c, d]" by (simp add: numeral_2_eq_2)
  obtain s0 where s0: "tinfl_skip_bits (num_bits s AND 7) s = (Go (), s0)" "keeps s s0" "8 dvd num_bits s0"
    and r0: "rest s0 (byte_bits a @ byte_bits b @ byte_bits c @ byte_bits d @ stream_bits data @ bs)"
    using rest_align [OF assms(4,1)] assms(2) unfolding n m by auto
  have step: "\<exists>s'. tinfl_raw_byte s = (Go (unat x), s') \<and> rest s' xs \<and> keeps s s' \<and> 8 dvd num_bits s'"
    if "rest s (byte_bits x @ xs)" "8 dvd num_bits s" for s x xs
    using rest_raw_byte [OF that(1)] that(2) by (metis dvd_0_right dvd_diff_nat dvd_refl)
  obtain s1 where s1: "tinfl_raw_byte s0 = (Go (unat a), s1)" "keeps s0 s1" "8 dvd num_bits s1"
    and r1: "rest s1 (byte_bits b @ byte_bits c @ byte_bits d @ stream_bits data @ bs)" using step [OF r0 s0(3)] by blast
  obtain s2 where s2: "tinfl_raw_byte s1 = (Go (unat b), s2)" "keeps s1 s2" "8 dvd num_bits s2"
    and r2: "rest s2 (byte_bits c @ byte_bits d @ stream_bits data @ bs)" using step [OF r1 s1(3)] by blast
  obtain s3 where s3: "tinfl_raw_byte s2 = (Go (unat c), s3)" "keeps s2 s3" "8 dvd num_bits s3"
    and r3: "rest s3 (byte_bits d @ stream_bits data @ bs)" using step [OF r2 s2(3)] by blast
  obtain s4 where s4: "tinfl_raw_byte s3 = (Go (unat d), s4)" "keeps s3 s4" "8 dvd num_bits s4"
    and r4: "rest s4 (stream_bits data @ bs)" using step [OF r3 s3(3)] by blast
  have k: "keeps s s4" using s0(2) s1(2) s2(2) s3(2) s4(2) by (simp add: keeps_def)
  obtain s5 d1 d2 where s5: "tinfl_stored_bits (length data) s4 = (Go (length d2), s5)" "data = d1 @ d2" "fixed s4 s5"
    "rest s5 (stream_bits d2 @ bs)" "pOut_buf s5 = pOut_buf s4 @ d1" "d2 = [] \<or> num_bits s5 = 0"
  proof -
    have "length (pOut_buf s4) + length data \<le> pOut_buf_end s4" using assms(5) keeps_out [OF k] by simp
    from tinfl_stored_bits_sim [OF r4 s4(3) this] that show ?thesis by blast
  qed
  have "length (pOut_buf s5) + length d2 \<le> pOut_buf_end s5"
    using s5(2,3,5) assms(5) keeps_out [OF k] by (simp add: fixed_def)
  from tinfl_stored_copy_sim [OF s5(4,6) this] obtain s6 where
    s6: "tinfl_stored_copy (length d2) s5 = (Go (), s6)" "fixed s5 s6" "rest s6 bs" "pOut_buf s6 = pOut_buf s5 @ d2" by blast
  have "unat a OR push_bit 8 (unat b) = length data" "65535 XOR (unat c OR push_bit 8 (unat d)) = length data"
    using stored_len [OF n] stored_len [OF m] xor_not_len [of n] assms(3) by simp_all
  then have "tinfl_stored s = (Go (), s6)"
    using s0(1) s1(1) s2(1) s3(1) s4(1) s5(1) s6(1) by (simp add: tinfl_stored_def co_simps Let_def)
  moreover have "fixed s s6" using keeps_fixed [OF k] s5(3) s6(2) by (simp add: fixed_def)
  ultimately show ?thesis using s6(3,4) s5(2,5) keeps_out [OF k] by simp
qed

section \<open>The code lengths of a block\<close>

lemma count_list_replicate: "count_list (replicate n x) y = (if x = y then n else 0)"
  by (induction n) auto

lemma huff_first_numeral:
  "huff_first sizes (numeral k) =
     2 * (huff_first sizes (pred_numeral k) + (if pred_numeral k = 0 then 0 else count_list sizes (pred_numeral k)))"
  by (simp add: numeral_eq_Suc)

lemma tinfl_fixed_rfc: "tinfl_fixed_sizes = (rfc_fixed_lit, rfc_fixed_dist)"
proof -
  have "replicate 144 8 @ replicate 112 9 @ replicate 24 7 @ replicate 8 8 = rfc_fixed_lit"
    by (rule nth_equalityI) (auto simp: rfc_fixed_lit_def nth_append)
  then show ?thesis by (simp add: tinfl_fixed_sizes_def rfc_fixed_dist_def)
qed

lemma tinfl_fixed_ok: "huff_ok (fst tinfl_fixed_sizes)" "huff_ok (snd tinfl_fixed_sizes)"
  by (simp_all add: huff_ok_def tinfl_fixed_sizes_def count_list_replicate huff_first_numeral ball_Un)

lemma tinfl_code_len_sizes_sim:
  assumes "\<forall>v \<in> set vs. length v = 3" and "rest s (concat vs @ bs)" and "counter + length vs \<le> 19"
  shows "\<exists>s'. tinfl_code_len_sizes (length vs) counter sizes s =
      (Go (foldl (\<lambda>z (i, v). z[i := v]) sizes (zip (drop counter rfc_order) (map bits_val vs))), s') \<and>
    rest s' bs \<and> keeps s s'"
  using assms
proof (induction vs arbitrary: s counter sizes)
  case Nil
  then show ?case by (auto simp: co_simps)
next
  case (Cons v vs)
  obtain s1 where s1: "tinfl_get_bits 3 s = (Go (bits_val v), s1)" "rest s1 (concat vs @ bs)" "keeps s s1"
    using rest_get_bits [of s v "concat vs @ bs"] Cons.prems(1,2) by auto
  have o: "s_length_dezigzag = rfc_order" by (simp add: s_length_dezigzag_def rfc_order_def)
  have d: "drop counter rfc_order = rfc_order ! counter # drop (counter + 1) rfc_order"
  proof -
    have "length rfc_order = 19" by (simp add: rfc_order_def)
    with Cons.prems(3) show ?thesis by (simp add: Cons_nth_drop_Suc)
  qed
  obtain s' where s': "tinfl_code_len_sizes (length vs) (counter + 1) (sizes[rfc_order ! counter := bits_val v]) s1 =
      (Go (foldl (\<lambda>z (i, v). z[i := v]) (sizes[rfc_order ! counter := bits_val v])
        (zip (drop (counter + 1) rfc_order) (map bits_val vs))), s')" "rest s' bs" "keeps s1 s'"
    using Cons.IH [of s1 "counter + 1" "sizes[rfc_order ! counter := bits_val v]"] Cons.prems s1(2) by auto
  have "keeps s s'" using s1(3) s'(3) keeps_trans by blast
  with s1(1) s'(1,2) show ?case unfolding d by (simp add: co_simps o)
qed

lemma code_lens_length:
  "code_lens clen n lens bs lens' bs' \<Longrightarrow> length lens' = n \<and> length lens \<le> n"
  by (induction rule: code_lens.induct) auto

text \<open>The three symbols that stand for several lengths.\<close>

lemma tinfl_len_codes_run:
  assumes t: "huff_table clen t" and lens: "code_lens clen n (lens @ replicate (k + bits_val xs) v) bs lens' bs'"
    and n: "n \<le> 457" and d: "huff_used clen d" "d = 16 \<or> d = 17 \<or> d = 18" "d = 16 \<longrightarrow> lens \<noteq> []"
    and xs: "length xs = [2, 3, 7] ! (d - 16)" and k: "k = [3, 3, 11] ! (d - 16)"
    and v: "v = (if d = 16 then last lens else 0)"
    and IH: "\<And>s fuel. rest s bs \<Longrightarrow> n - length (lens @ replicate (k + bits_val xs) v) \<le> fuel \<Longrightarrow>
      \<exists>s'. tinfl_len_codes fuel t n (lens @ replicate (k + bits_val xs) v) s = (Go lens', s') \<and> rest s' bs' \<and> keeps s s'"
    and s: "rest s (huff_path clen d @ xs @ bs)" "n - length lens \<le> fuel"
  shows "\<exists>s'. tinfl_len_codes fuel t n lens s = (Go lens', s') \<and> rest s' bs' \<and> keeps s s'"
proof -
  have len: "length lens + (k + bits_val xs) \<le> n" using code_lens_length [OF lens] by simp
  have "0 < k" "length xs \<le> 16" using k xs d(2) by auto
  obtain f where f: "fuel = Suc f" using len \<open>0 < k\<close> s(2) by (cases fuel) auto
  obtain s1 where s1: "tinfl_huff_decode t s = (Go d, s1)" "rest s1 (xs @ bs)" "keeps s s1"
    using rest_huff_decode [OF t d(1) s(1)] .
  obtain s2 where s2: "tinfl_get_bits ([2, 3, 7] ! (d - 16)) s1 = (Go (bits_val xs), s2)" "rest s2 bs" "keeps s1 s2"
    using rest_get_bits [OF s1(2) \<open>length xs \<le> 16\<close>] xs by metis
  have "n - length (lens @ replicate (k + bits_val xs) v) \<le> f" using s(2) f \<open>0 < k\<close> by simp
  from IH [OF s2(2) this] obtain s3 where
    s3: "tinfl_len_codes f t n (lens @ replicate (k + bits_val xs) v) s2 = (Go lens', s3)" "rest s3 bs'" "keeps s2 s3" by blast
  have add: "tinfl_len_codes_add lens (bits_val xs + [3, 3, 11] ! (d - 16)) (if d = 16 then last lens else 0) =
      co_ret (lens @ replicate (k + bits_val xs) v)"
    unfolding k [symmetric] v [symmetric] tinfl_len_codes_add_def using len n by (simp add: add.commute)
  have "\<not> n \<le> length lens" using len \<open>0 < k\<close> by simp
  moreover have "\<not> d < 16" "\<not> 18 < d" using d(2) by auto
  ultimately have "tinfl_len_codes fuel t n lens s = (Go lens', s3)"
    using s1(1) s2(1) s3(1) d(3)
    by (subst tinfl_len_codes.simps) (auto simp: f co_bind_def add co_ret_def)
  moreover have "keeps s s3" using s1(3) s2(3) s3(3) keeps_trans by blast
  ultimately show ?thesis using s3(2) by blast
qed

lemma tinfl_len_codes_sim:
  assumes t: "huff_table clen t" and "code_lens clen n lens bs lens' bs'" and n: "n \<le> 457"
    and "rest s bs" and "n - length lens \<le> fuel"
  shows "\<exists>s'. tinfl_len_codes fuel t n lens s = (Go lens', s') \<and> rest s' bs' \<and> keeps s s'"
  using assms(2,4,5)
proof (induction arbitrary: s fuel rule: code_lens.induct)
  case (lens_done lens bs)
  then show ?case by (subst tinfl_len_codes.simps) (auto simp: co_simps)
next
  case (lens_one d lens bs lens' bs')
  have len: "length lens < n" using code_lens_length [OF lens_one.hyps(3)] by simp
  obtain f where f: "fuel = Suc f" using len lens_one.prems(2) by (cases fuel) auto
  obtain s1 where s1: "tinfl_huff_decode t s = (Go d, s1)" "rest s1 bs" "keeps s s1"
    using rest_huff_decode [OF t lens_one.hyps(1) lens_one.prems(1)] .
  have "n - length (lens @ [d]) \<le> f" using lens_one.prems(2) f by simp
  from lens_one.IH [OF s1(2) this] obtain s2 where
    s2: "tinfl_len_codes f t n (lens @ [d]) s1 = (Go lens', s2)" "rest s2 bs'" "keeps s1 s2" by blast
  have "tinfl_len_codes fuel t n lens s = (Go lens', s2)"
    using s1(1) s2(1) lens_one.hyps(2) len n
    by (subst tinfl_len_codes.simps) (auto simp: f co_simps tinfl_len_codes_add_def)
  moreover have "keeps s s2" using s1(3) s2(3) keeps_trans by blast
  ultimately show ?case using s2(2) by blast
next
  case (lens_again lens xs bs lens' bs')
  show ?case
    by (rule tinfl_len_codes_run [OF t lens_again.hyps(4) n lens_again.hyps(1) _ _ _ _ _ lens_again.IH lens_again.prems])
      (use lens_again.hyps in auto)
next
  case (lens_zeros xs lens bs lens' bs')
  show ?case
    by (rule tinfl_len_codes_run [OF t lens_zeros.hyps(3) n lens_zeros.hyps(1) _ _ _ _ _ lens_zeros.IH lens_zeros.prems])
      (use lens_zeros.hyps in auto)
next
  case (lens_many_zeros xs lens bs lens' bs')
  show ?case
    by (rule tinfl_len_codes_run [OF t lens_many_zeros.hyps(3) n lens_many_zeros.hyps(1) _ _ _ _ _
          lens_many_zeros.IH lens_many_zeros.prems])
      (use lens_many_zeros.hyps in auto)
qed

lemma tinfl_dynamic_sizes_sim:
  assumes "inflate_sizes bs lit dist bs'" and "rest s bs"
  shows "\<exists>s'. tinfl_dynamic_sizes s = (Go (lit, dist), s') \<and> rest s' bs' \<and> keeps s s'"
  using assms(1)
proof cases
  case (1 hlit hdist hclen vs bs1 lens)
  let ?clen = "rfc_clen (map bits_val vs)" and ?n0 = "bits_val hlit + 257" and ?n1 = "bits_val hdist + 1"
  have small: "bits_val hlit < 32" "bits_val hdist < 32" "bits_val hclen < 16"
    using bits_val_less [of hlit] bits_val_less [of hdist] bits_val_less [of hclen] 1 by simp_all
  obtain s1 where s1: "tinfl_get_bits 5 s = (Go (bits_val hlit), s1)" "rest s1 (hdist @ hclen @ concat vs @ bs1)" "keeps s s1"
    using rest_get_bits [of s hlit] assms(2) 1 by auto
  obtain s2 where s2: "tinfl_get_bits 5 s1 = (Go (bits_val hdist), s2)" "rest s2 (hclen @ concat vs @ bs1)" "keeps s1 s2"
    using rest_get_bits [OF s1(2)] 1 by auto
  obtain s3 where s3: "tinfl_get_bits 4 s2 = (Go (bits_val hclen), s3)" "rest s3 (concat vs @ bs1)" "keeps s2 s3"
    using rest_get_bits [OF s2(2)] 1 by auto
  have "0 + length vs \<le> 19" using small(3) 1 by simp
  from tinfl_code_len_sizes_sim [OF 1(8) s3(2) this, of "replicate 19 0"] obtain s4 where
    s4: "tinfl_code_len_sizes (bits_val hclen + 4) 0 (replicate 19 0) s3 = (Go ?clen, s4)" "rest s4 bs1" "keeps s3 s4"
    using 1(7) by (auto simp: rfc_clen_def)
  obtain t where t: "tinfl_build_table ?clen = Go t" "huff_table ?clen t" using tinfl_build_table_ok [OF 1(9)] .
  from tinfl_len_codes_sim [OF t(2) 1(10) _ s4(2), of "?n0 + ?n1"] small obtain s5 where
    s5: "tinfl_len_codes (?n0 + ?n1) t (?n0 + ?n1) [] s4 = (Go lens, s5)" "rest s5 bs'" "keeps s4 s5" by auto
  have "length lens = ?n0 + ?n1" using code_lens_length [OF 1(10)] by simp
  then have "tinfl_dynamic_sizes s = (Go (lit, dist), s5)"
    using s1(1) s2(1) s3(1) s4(1) t(1) s5(1) 1(2,3)
    unfolding tinfl_dynamic_sizes_def co_bind_def co_lift_def co_ret_def Let_def
    by (simp del: add_Suc_right One_nat_def)
  moreover have "keeps s s5" using s1(3) s2(3) s3(3) s4(3) s5(3) by (simp add: keeps_def)
  ultimately show ?thesis using s5(2) by blast
qed

section \<open>Blocks\<close>

lemma tinfl_huff_codes_sim:
  assumes "huff_ok lit" and "huff_ok dist" and "inflate_codes lit dist (pOut_buf s) bs out' bs'"
    and "rest s bs" and "length out' \<le> pOut_buf_end s"
  shows "\<exists>s'. co_bind (co_lift (tinfl_build_table dist)) (\<lambda>t1.
      co_bind (co_lift (tinfl_build_table lit)) (\<lambda>t0.
      \<lambda>s. tinfl_codes (pOut_buf_end s - length (pOut_buf s) + 2) t0 t1 s)) s = (Go (), s') \<and>
    fixed s s' \<and> rest s' bs' \<and> pOut_buf s' = out'"
proof -
  obtain t0 where t0: "tinfl_build_table lit = Go t0" "huff_table lit t0" using tinfl_build_table_ok [OF assms(1)] .
  obtain t1 where t1: "tinfl_build_table dist = Go t1" "huff_table dist t1" using tinfl_build_table_ok [OF assms(2)] .
  have "length out' - length (pOut_buf s) < pOut_buf_end s - length (pOut_buf s) + 2" using assms(5) by auto
  from tinfl_codes_sim [OF t0(2) t1(2) assms(3,4) refl assms(5) this] t0(1) t1(1) show ?thesis
    by (simp add: co_bind_def co_lift_def)
qed

lemma tinfl_huff_block_sim:
  assumes "(lit, dist) = tinfl_fixed_sizes \<and> bs1 = bs \<and> ty = 1 \<or> inflate_sizes bs lit dist bs1 \<and> ty = 2"
    and "huff_ok lit" and "huff_ok dist" and "inflate_codes lit dist (pOut_buf s) bs1 out' bs'"
    and "rest s bs" and "length out' \<le> pOut_buf_end s"
  shows "\<exists>s'. tinfl_huff_block ty s = (Go (), s') \<and> fixed s s' \<and> rest s' bs' \<and> pOut_buf s' = out'"
proof -
  obtain s1 where s1: "(if ty = 1 then co_ret tinfl_fixed_sizes else tinfl_dynamic_sizes) s = (Go (lit, dist), s1)"
    "rest s1 bs1" "keeps s s1"
    using assms(1,5) tinfl_dynamic_sizes_sim [of bs lit dist bs1 s] by (auto simp: co_ret_def)
  obtain s2 where s2: "co_bind (co_lift (tinfl_build_table dist)) (\<lambda>t1.
      co_bind (co_lift (tinfl_build_table lit)) (\<lambda>t0.
      \<lambda>s. tinfl_codes (pOut_buf_end s - length (pOut_buf s) + 2) t0 t1 s)) s1 = (Go (), s2)"
    "fixed s1 s2" "rest s2 bs'" "pOut_buf s2 = out'"
  proof -
    have "inflate_codes lit dist (pOut_buf s1) bs1 out' bs'" "length out' \<le> pOut_buf_end s1"
      using assms(4,6) keeps_out [OF s1(3)] by simp_all
    from tinfl_huff_codes_sim [OF assms(2,3) this(1) s1(2) this(2)] that show ?thesis by blast
  qed
  have "tinfl_huff_block ty s = (Go (), s2)"
    unfolding tinfl_huff_block_def
    by (subst co_bind_def) (use s1(1) s2(1) in simp)
  moreover have "fixed s s2" using keeps_fixed [OF s1(3)] s2(2) fixed_trans by blast
  ultimately show ?thesis using s2(3,4) by blast
qed

lemma tinfl_block_sim:
  assumes "inflate_block ty out bs out' bs'" and "rest s bs" and "pOut_buf s = out" and "length out' \<le> pOut_buf_end s"
  shows "\<exists>s'. tinfl_block ty s = (Go (), s') \<and> fixed s s' \<and> rest s' bs' \<and> pOut_buf s' = out'"
  using assms(1)
proof cases
  case (block_stored pad data n)
  then have "rest s (pad @ stream_bits (le_bytes 2 n @ le_bytes 2 (NOT n) @ data) @ bs')"
    and "length (pOut_buf s) + length data \<le> pOut_buf_end s"
    using assms(2,3,4) by simp_all
  from tinfl_stored_sim [OF block_stored(4-6) this] block_stored(1,3) assms(3) show ?thesis by (simp add: tinfl_block_def)
next
  case block_fixed
  have "inflate_codes (fst tinfl_fixed_sizes) (snd tinfl_fixed_sizes) (pOut_buf s) bs out' bs'"
    using block_fixed(2) assms(3) by (simp add: tinfl_fixed_rfc)
  from tinfl_huff_block_sim [OF _ tinfl_fixed_ok this assms(2,4), of 1] block_fixed(1) show ?thesis
    unfolding prod.collapse by (simp add: tinfl_block_def)
next
  case (block_dynamic lit dist bs1)
  with tinfl_huff_block_sim [of lit dist bs1 bs 2 s out' bs'] assms(2,3,4) show ?thesis
    by (simp add: tinfl_block_def)
qed

lemma inflate_block_mono: "inflate_block ty out bs out' bs' \<Longrightarrow> length out \<le> length out'"
  by (induction rule: inflate_block.induct) (auto dest: inflate_codes_mono)

lemma inflate_blocks_mono: "inflate_blocks out bs out' bs' \<Longrightarrow> length out \<le> length out'"
  by (induction rule: inflate_blocks.induct) (auto dest: inflate_block_mono)

lemma inflate_lits_bits: "inflate_lits lit out bs out' c bs' \<Longrightarrow> length bs' \<le> length bs"
  by (induction rule: inflate_lits.induct) auto

lemma inflate_codes_bits: "inflate_codes lit dist out bs out' bs' \<Longrightarrow> length bs' \<le> length bs"
  by (induction rule: inflate_codes.induct) (auto dest: inflate_lits_bits)

lemma code_lens_bits: "code_lens clen n lens bs lens' bs' \<Longrightarrow> length bs' \<le> length bs"
  by (induction rule: code_lens.induct) auto

lemma inflate_sizes_bits: "inflate_sizes bs lit dist bs' \<Longrightarrow> length bs' \<le> length bs"
  by (erule inflate_sizes.cases) (auto dest!: code_lens_bits)

lemma inflate_block_bits: "inflate_block ty out bs out' bs' \<Longrightarrow> length bs' \<le> length bs"
  by (induction rule: inflate_block.induct) (auto dest!: inflate_codes_bits inflate_sizes_bits)

lemma block_header:
  "drop_bit 1 (bits_val [f, a, b]) = bits_val [a, b]" "bits_val [f, a, b] AND 1 = of_bool f"
  by (simp_all add: bits_val_def drop_bit_eq_div and_one_eq)

lemma rest_header:
  assumes "rest s (f # a # b # bs)"
  obtains s' where "tinfl_get_bits 3 s = (Go (bits_val [f, a, b]), s')" and "rest s' bs" and "keeps s s'"
proof -
  have "rest s ([f, a, b] @ bs)" "length [f, a, b] \<le> 16" using assms by simp_all
  from rest_get_bits [OF this] obtain s' where
    "tinfl_get_bits (length [f, a, b]) s = (Go (bits_val [f, a, b]), s')" "rest s' bs" "keeps s s'" .
  with that show ?thesis by (simp add: numeral_3_eq_3)
qed

lemma tinfl_blocks_sim:
  assumes "inflate_blocks out bs out' bs'" and "rest s bs" and "pOut_buf s = out" and "length out' \<le> pOut_buf_end s"
    and "length bs < fuel"
  shows "\<exists>s'. tinfl_blocks fuel s = (Go (), s') \<and> fixed s s' \<and> rest s' bs' \<and> pOut_buf s' = out'"
  using assms
proof (induction arbitrary: s fuel rule: inflate_blocks.induct)
  case (blocks_last a b out bs out' bs')
  obtain n where n: "fuel = Suc n" using blocks_last.prems by (cases fuel) auto
  obtain s1 where s1: "tinfl_get_bits 3 s = (Go (bits_val [True, a, b]), s1)" "rest s1 bs" "keeps s s1"
    using rest_header [OF blocks_last.prems(1)] .
  obtain s2 where s2: "tinfl_block (bits_val [a, b]) s1 = (Go (), s2)"
      "fixed s1 s2" "rest s2 bs'" "pOut_buf s2 = out'"
  proof -
    have "pOut_buf s1 = out" "length out' \<le> pOut_buf_end s1" using keeps_out [OF s1(3)] blocks_last.prems(2,3) by simp_all
    from tinfl_block_sim [OF blocks_last.hyps s1(2) this] that show ?thesis by blast
  qed
  have "tinfl_blocks fuel s = (Go (), s2)"
    unfolding n using s1(1) s2(1) by (simp add: co_bind_def block_header Let_def co_ret_def del: One_nat_def)
  with s2 keeps_fixed [OF s1(3)] fixed_trans show ?case by blast
next
  case (blocks_more a b out bs out1 bs1 out' bs')
  obtain n where n: "fuel = Suc n" using blocks_more.prems by (cases fuel) auto
  obtain s1 where s1: "tinfl_get_bits 3 s = (Go (bits_val [False, a, b]), s1)" "rest s1 bs" "keeps s s1"
    using rest_header [OF blocks_more.prems(1)] .
  have pre: "pOut_buf s1 = out" "length out1 \<le> pOut_buf_end s1"
    using inflate_blocks_mono [OF blocks_more.hyps(2)] keeps_out [OF s1(3)] blocks_more.prems(2,3) by simp_all
  obtain s2 where s2: "tinfl_block (bits_val [a, b]) s1 = (Go (), s2)"
      "fixed s1 s2" "rest s2 bs1" "pOut_buf s2 = out1"
    using tinfl_block_sim [OF blocks_more.hyps(1) s1(2) pre] by blast
  have "length out' \<le> pOut_buf_end s2" using blocks_more.prems(3) keeps_out [OF s1(3)] s2(2) by (simp add: fixed_def)
  moreover have "length bs1 < n" using inflate_block_bits [OF blocks_more.hyps(1)] blocks_more.prems(4) n by simp
  ultimately obtain s3 where s3: "tinfl_blocks n s2 = (Go (), s3)" "fixed s2 s3" "rest s3 bs'" "pOut_buf s3 = out'"
    using blocks_more.IH [OF s2(3,4)] by blast
  have "tinfl_blocks fuel s = (Go (), s3)"
    unfolding n using s1(1) s2(1) s3(1) by (simp add: co_bind_def block_header Let_def del: One_nat_def)
  moreover have "fixed s s3" using keeps_fixed [OF s1(3)] s2(2) s3(2) fixed_trans by blast
  ultimately show ?case using s3(3,4) by blast
qed

section \<open>The Adler-32 checksum\<close>

definition adler32_step :: "nat \<times> nat \<Rightarrow> u8 \<Rightarrow> nat \<times> nat" where
  "adler32_step = (\<lambda>(a, b) x. let a = (a + unat x) mod 65521 in (a, (b + a) mod 65521))"

definition rfc_adler32 :: "bytes \<Rightarrow> nat" where
  "rfc_adler32 data = (case foldl adler32_step (1, 0) data of (a, b) \<Rightarrow> b * 65536 + a)"

text \<open>The sums without reduction, as the loop keeps them for up to 5552 bytes.\<close>

definition adler32_sum :: "nat \<times> nat \<Rightarrow> u8 \<Rightarrow> nat \<times> nat" where
  "adler32_sum = (\<lambda>(a, b) x. (a + unat x, b + (a + unat x)))"

lemma tinfl_adler_run_foldl: "tinfl_adler_run s xs = foldl tinfl_adler_byte s xs"
  by (induction s xs rule: tinfl_adler_run.induct) auto

lemma adler32_sum_bound:
  assumes "foldl adler32_sum (a, b) xs = (a', b')"
  shows "a' \<le> a + 255 * length xs" and "2 * b' \<le> 2 * b + 2 * length xs * a + 255 * length xs * (length xs + 1)"
proof -
  have "a' \<le> a + 255 * length xs \<and> 2 * b' \<le> 2 * b + 2 * length xs * a + 255 * length xs * (length xs + 1)"
    using assms
  proof (induction xs arbitrary: a' b' rule: rev_induct)
    case (snoc x xs)
    obtain c d where cd: "foldl adler32_sum (a, b) xs = (c, d)" by fastforce
    have "unat x \<le> 255" using unat_byte_less [of x] by simp
    with snoc.IH [OF cd] snoc.prems cd show ?case by (auto simp: adler32_sum_def algebra_simps)
  qed simp
  then show "a' \<le> a + 255 * length xs" and "2 * b' \<le> 2 * b + 2 * length xs * a + 255 * length xs * (length xs + 1)" by auto
qed

lemma adler32_sum_mod:
  assumes "foldl adler32_sum (a, b) xs = (a', b')"
  shows "foldl adler32_step (a mod 65521, b mod 65521) xs = (a' mod 65521, b' mod 65521)"
  using assms
proof (induction xs arbitrary: a b)
  case (Cons x xs)
  have "adler32_step (a mod 65521, b mod 65521) x = ((a + unat x) mod 65521, (b + (a + unat x)) mod 65521)"
    unfolding adler32_step_def Let_def prod.case by (simp only: mod_add_left_eq mod_add_right_eq)
  with Cons show ?case by (simp add: adler32_sum_def)
qed simp

lemma tinfl_adler_sum:
  assumes "foldl adler32_sum (unat (s1 :: u32), unat (s2 :: u32)) xs = (a, b)" and "a < 2 ^ 32" and "b < 2 ^ 32"
  shows "foldl tinfl_adler_byte (s1, s2) xs = (word_of_nat a, word_of_nat b)"
  using assms
proof (induction xs arbitrary: a b rule: rev_induct)
  case (snoc x xs)
  obtain c d where cd: "foldl adler32_sum (unat s1, unat s2) xs = (c, d)" by fastforce
  with snoc.prems have ab: "a = c + unat x" "b = d + (c + unat x)" by (auto simp: adler32_sum_def)
  with snoc.IH [OF cd] snoc.prems(2,3) have "foldl tinfl_adler_byte (s1, s2) xs = (word_of_nat c, word_of_nat d)" by simp
  then show ?case by (simp add: tinfl_adler_byte_def ab Let_def)
qed simp

lemma tinfl_adler_run_step:
  assumes "unat s1 < 65521" and "unat s2 < 65521" and "length xs \<le> 5552"
  shows "(case tinfl_adler_run (s1, s2) xs of (t1, t2) \<Rightarrow> (unat (t1 mod 65521), unat (t2 mod 65521))) =
    foldl adler32_step (unat s1, unat s2) xs"
proof -
  obtain a b where ab: "foldl adler32_sum (unat s1, unat s2) xs = (a, b)" by fastforce
  have "a < 2 ^ 32" using adler32_sum_bound(1) [OF ab] assms by simp
  have "length xs * (length xs + 1) \<le> 5552 * 5553" using assms(3) by (intro mult_le_mono) auto
  moreover have "length xs * unat s1 \<le> 5552 * 65520" using assms(1,3) by (intro mult_le_mono) auto
  ultimately have "b < 2 ^ 32" using adler32_sum_bound(2) [OF ab] assms(2) by simp
  note run = tinfl_adler_sum [OF ab \<open>a < 2 ^ 32\<close> \<open>b < 2 ^ 32\<close>]
  have "unat (word_of_nat a :: u32) = a" "unat (word_of_nat b :: u32) = b"
    using \<open>a < 2 ^ 32\<close> \<open>b < 2 ^ 32\<close> by (simp_all add: unat_of_nat)
  then show ?thesis
    using adler32_sum_mod [OF ab] assms(1,2) by (simp add: tinfl_adler_run_foldl run unat_mod)
qed

lemma tinfl_adler_loop_rfc:
  assumes "unat (fst s) < 65521" and "unat (snd s) < 65521" and "n \<le> 5552"
  shows "(case tinfl_adler_loop s n xs of (t1, t2) \<Rightarrow> (unat t1, unat t2)) =
    foldl adler32_step (unat (fst s), unat (snd s)) xs"
  using assms
proof (induction s n xs rule: tinfl_adler_loop.induct)
  case (1 s n xs)
  show ?case
  proof (cases "xs = []")
    case True
    then show ?thesis by (subst tinfl_adler_loop.simps) (simp add: case_prod_beta)
  next
    case False
    obtain t1 t2 where t: "tinfl_adler_run s (take n xs) = (t1, t2)" by fastforce
    have step: "(unat (t1 mod 65521), unat (t2 mod 65521)) = foldl adler32_step (unat (fst s), unat (snd s)) (take n xs)"
      using tinfl_adler_run_step [of "fst s" "snd s" "take n xs"] 1(2-4) t by simp
    have small: "unat (t1 mod 65521) < 65521" "unat (t2 mod 65521) < 65521" by (simp_all add: unat_mod)
    have "(case tinfl_adler_loop (t1 mod 65521, t2 mod 65521) 5552 (drop n xs) of (t1, t2) \<Rightarrow> (unat t1, unat t2)) =
        foldl adler32_step (unat (t1 mod 65521), unat (t2 mod 65521)) (drop n xs)"
      using 1(1) [OF False t [symmetric]] small by simp
    also have "\<dots> = foldl adler32_step (unat (fst s), unat (snd s)) (take n xs @ drop n xs)"
      unfolding step foldl_append ..
    finally show ?thesis using False t by (subst tinfl_adler_loop.simps) simp
  qed
qed

lemma tinfl_adler32_rfc: "tinfl_adler32 1 data = word_of_nat (rfc_adler32 data)"
proof -
  obtain t1 t2 where t: "tinfl_adler_loop (1, 0) (length data mod 5552) data = (t1, t2)" by fastforce
  have "length data mod 5552 \<le> 5552" using mod_less_divisor [of 5552 "length data"] by simp
  then have "(unat t1, unat t2) = foldl adler32_step (1, 0) data"
    using tinfl_adler_loop_rfc [of "(1, 0)" "length data mod 5552" data] t by simp
  then have "rfc_adler32 data = unat t2 * 65536 + unat t1" unfolding rfc_adler32_def by (metis case_prod_conv)
  then have "word_of_nat (rfc_adler32 data) = push_bit 16 t2 + t1" by (simp add: push_bit_eq_mult)
  then show ?thesis using t by (simp add: tinfl_adler32_def)
qed

section \<open>The zlib container\<close>

inductive zlib_stream :: "bytes \<Rightarrow> bytes \<Rightarrow> bool" where
  "(unat cmf * 256 + unat flg) mod 31 = 0 \<Longrightarrow> unat cmf AND 15 = 8 \<Longrightarrow> unat flg AND 32 = 0 \<Longrightarrow>
   inflate_blocks [] (stream_bits body) data
     (pad @ stream_bits (rev (le_bytes 4 (word_of_nat (rfc_adler32 data) :: u32))) @ bs) \<Longrightarrow>
   length pad < 8 \<Longrightarrow> 8 dvd length bs \<Longrightarrow>
   zlib_stream (cmf # flg # body) data"

lemma tinfl_zlib_trailer_value:
  assumes "le_bytes 4 (w :: u32) = [d, c, b, a]"
  shows "push_bit 8 (push_bit 8 (push_bit 8 (push_bit 8 x OR ucast a) OR ucast b) OR ucast c) OR ucast d = w"
proof -
  have "d = ucast w" "c = ucast (drop_bit 8 w)" "b = ucast (drop_bit 16 w)" "a = ucast (drop_bit 24 w)"
    using assms by (simp_all add: numeral_eq_Suc drop_bit_drop_bit)
  moreover have "bit (push_bit 8 (push_bit 8 (push_bit 8 (push_bit 8 x OR ucast (ucast (drop_bit 24 w) :: u8))
      OR ucast (ucast (drop_bit 16 w) :: u8)) OR ucast (ucast (drop_bit 8 w) :: u8)) OR ucast (ucast w :: u8)) n = bit w n"
    if "n < 32" for n
  proof -
    consider "n < 8" | "8 \<le> n" "n < 16" | "16 \<le> n" "n < 24" | "24 \<le> n" using that by linarith
    then show ?thesis using that by cases (simp_all add: bit_simps, linarith+)
  qed
  ultimately show ?thesis by (simp only:) (rule bit_word_eqI, simp)
qed

lemma tinfl_zlib_trailer_sim:
  assumes "rest s (stream_bits (rev (le_bytes 4 (w :: u32))) @ bs)"
  shows "\<exists>s'. tinfl_zlib_trailer 4 1 s = (Go w, s') \<and> keeps s s'"
proof -
  obtain a b c d where w: "le_bytes 4 w = [d, c, b, a]" by (simp add: numeral_eq_Suc)
  have r: "rest s (byte_bits a @ byte_bits b @ byte_bits c @ byte_bits d @ bs)" using assms unfolding w by simp
  obtain s1 where s1: "tinfl_raw_byte s = (Go (unat a), s1)" "rest s1 (byte_bits b @ byte_bits c @ byte_bits d @ bs)" "keeps s s1"
    using rest_raw_byte [OF r] by metis
  obtain s2 where s2: "tinfl_raw_byte s1 = (Go (unat b), s2)" "rest s2 (byte_bits c @ byte_bits d @ bs)" "keeps s1 s2"
    using rest_raw_byte [OF s1(2)] by metis
  obtain s3 where s3: "tinfl_raw_byte s2 = (Go (unat c), s3)" "rest s3 (byte_bits d @ bs)" "keeps s2 s3"
    using rest_raw_byte [OF s2(2)] by metis
  obtain s4 where s4: "tinfl_raw_byte s3 = (Go (unat d), s4)" "keeps s3 s4"
    using rest_raw_byte [OF s3(2)] by metis
  have "tinfl_zlib_trailer 4 1 s = (Go w, s4)"
    using s1(1) s2(1) s3(1) s4(1) tinfl_zlib_trailer_value [OF w, of 1]
    by (simp add: numeral_eq_Suc co_simps)
  moreover have "keeps s s4" using s1(3) s2(3) s3(3) s4(2) by (simp add: keeps_def)
  ultimately show ?thesis by blast
qed

lemma tinfl_decompress_zlib:
  assumes z: "zlib_stream inp data" and room: "length data \<le> cap" and w: "w = 32 \<or> w = 64"
    and flags: "flags AND TINFL_FLAG_PARSE_ZLIB_HEADER \<noteq> 0"
  shows "\<exists>n. tinfl_decompress w inp cap flags = Ok (TINFL_STATUS_DONE, n, data)"
  using z
proof cases
  case (1 cmf flg body pad bs)
  let ?s = "tinfl_init w inp cap" and ?a = "word_of_nat (rfc_adler32 data) :: u32"
  let ?s1 = "?s\<lparr>pIn_buf_cur := 2\<rparr>"
  have h: "tinfl_zlib_header ?s = (Go (), ?s1)"
    using 1 by (simp add: tinfl_zlib_header_def tinfl_get_byte_def tinfl_init_def Let_def)
  have "rest ?s1 (stream_bits body)" using w 1(1)
    by (auto simp: rest_def bb_ok_def todo_def tinfl_init_def intro: exI [of _ 0])
  moreover have "length (stream_bits body) < 8 * length (pIn_buf ?s1) + 2" using 1(1) by (simp add: tinfl_init_def)
  ultimately obtain s2 where s2: "tinfl_blocks (8 * length (pIn_buf ?s1) + 2) ?s1 = (Go (), s2)"
      "rest s2 (pad @ stream_bits (rev (le_bytes 4 ?a)) @ bs)" "pOut_buf s2 = data"
    using tinfl_blocks_sim [OF 1(5), of ?s1 "8 * length (pIn_buf ?s1) + 2"] room by (auto simp: tinfl_init_def)
  have "8 dvd length (stream_bits (rev (le_bytes 4 ?a)) @ bs)" using 1(7) by simp
  then obtain s3 where s3: "tinfl_skip_bits (num_bits s2 AND 7) s2 = (Go (), s3)"
      "rest s3 (stream_bits (rev (le_bytes 4 ?a)) @ bs)" "keeps s2 s3"
    using rest_align [OF s2(2) 1(6)] by metis
  obtain s4 where s4: "tinfl_zlib_trailer 4 1 s3 = (Go ?a, s4)" "keeps s3 s4"
    using tinfl_zlib_trailer_sim [OF s3(2)] by blast
  have "tinfl_stream True ?s = (Go ?a, s4)"
    using h s2(1) s3(1) s4(1) by (simp add: tinfl_stream_def co_bind_def del: tinfl_blocks.simps add_2_eq_Suc')
  moreover have "pOut_buf s4 = data" using s2(3) keeps_out(1) [OF s3(3)] keeps_out(1) [OF s4(2)] by simp
  ultimately show ?thesis using flags by (simp add: tinfl_decompress_def tinfl_adler32_rfc)
qed

lemma win_decompressor_zlib_correct:
  assumes "zlib_stream inp data" and "length data \<le> outsz" and "w = 32 \<or> w = 64"
  shows "win_decompressor_zlib w inp outsz = Ok data"
proof -
  let ?f = "((TINFL_FLAG_PARSE_ZLIB_HEADER OR TINFL_FLAG_USING_NON_WRAPPING_OUTPUT_BUF) AND NOT TINFL_FLAG_HAS_MORE_INPUT)
    OR TINFL_FLAG_USING_NON_WRAPPING_OUTPUT_BUF"
  have "?f AND TINFL_FLAG_PARSE_ZLIB_HEADER \<noteq> 0" by simp
  from tinfl_decompress_zlib [OF assms this] obtain n where
    "tinfl_decompress w inp outsz ?f = Ok (TINFL_STATUS_DONE, n, data)" by blast
  then show ?thesis by (simp add: win_decompressor_zlib_def tinfl_decompress_mem_to_mem_def)
qed

end
