(* ===== verification/Sqfs_Deflate.thy ===== *)
theory Sqfs_Deflate
  imports Sqfs_Zlib
begin

text \<open>
  Encoders for the zlib format, written from RFC 1950 and 1951: one that stores its data, and one that writes
  any parse of the data into literals and copies with the fixed Huffman code. The decompressor of the
  Windows build inverts both. The last section has the streams that make it write beyond its buffer: the
  length symbols 286 and 287, which the format reserves, pass its tables.
\<close>

section \<open>Packing bits\<close>

fun pack_bits :: "bool list \<Rightarrow> bytes" where
  "pack_bits [] = []"
| "pack_bits (b # bs) = of_nat (bits_val (take 8 (b # bs))) # pack_bits (drop 8 (b # bs))"

declare pack_bits.simps(2) [simp del]

lemma byte_bits_pack:
  assumes "length xs \<le> 8"
  shows "byte_bits (of_nat (bits_val xs)) = xs @ replicate (8 - length xs) False"
proof (rule nth_equalityI)
  have "(2 :: nat) ^ length xs \<le> 2 ^ 8" using assms by (intro power_increasing) simp_all
  then have "bits_val xs < 2 ^ 8" using bits_val_less [of xs] by linarith
  then have "unat (of_nat (bits_val xs) :: u8) = bits_val xs" by (simp add: unat_of_nat)
  then show "byte_bits (of_nat (bits_val xs)) ! i = (xs @ replicate (8 - length xs) False) ! i"
    if "i < length (byte_bits (of_nat (bits_val xs)))" for i
    using that by (simp add: byte_bits_def bits_val_def bit_horner_sum_bit_iff nth_append)
qed (use assms in simp)

lemma stream_bits_pack:
  obtains k where "stream_bits (pack_bits bs) = bs @ replicate k False" and "k < 8"
proof -
  have "\<exists>k. stream_bits (pack_bits bs) = bs @ replicate k False \<and> k < 8"
  proof (induction bs rule: pack_bits.induct)
    case (2 b bs)
    show ?case
    proof (cases "length (b # bs) < 8")
      case True
      then show ?thesis using byte_bits_pack [of "b # bs"] by (simp add: pack_bits.simps)
    next
      case False
      then have "byte_bits (of_nat (bits_val (take 8 (b # bs)))) = take 8 (b # bs)"
        using byte_bits_pack [of "take 8 (b # bs)"] by simp
      with 2 show ?thesis unfolding pack_bits.simps by (metis append.assoc append_take_drop_id stream_bits_simps(2))
    qed
  qed simp
  with that show ?thesis by blast
qed

section \<open>Stored streams\<close>

abbreviation zlib_trailer :: "bytes \<Rightarrow> bytes" where
  "zlib_trailer data \<equiv> rev (le_bytes 4 (word_of_nat (rfc_adler32 data) :: u32))"

definition stored_block :: "bool \<Rightarrow> bytes \<Rightarrow> bytes" where
  "stored_block final data =
     of_bool final # le_bytes 2 (of_nat (length data) :: u16) @ le_bytes 2 (NOT (of_nat (length data)) :: u16) @ data"

function stored_blocks :: "bytes \<Rightarrow> bytes" where
  "stored_blocks data =
     (if length data < 65536 then stored_block True data
      else stored_block False (take 65535 data) @ stored_blocks (drop 65535 data))"
  by pat_completeness auto
termination by (relation "measure length") auto

declare stored_blocks.simps [simp del]

definition zlib_store :: "bytes \<Rightarrow> bytes" where
  "zlib_store data = 0x78 # 0x01 # stored_blocks data @ zlib_trailer data"

lemma stored_block_bits:
  "stream_bits (stored_block f data) = f # False # False # replicate 5 False @
     stream_bits (le_bytes 2 (of_nat (length data) :: u16) @ le_bytes 2 (NOT (of_nat (length data)) :: u16) @ data)"
  by (cases f) (simp_all add: stored_block_def byte_bits_def bits_of_def upt_rec bit_1_iff bit_Suc_0_iff numeral_eq_Suc)

lemma stored_block_inflates:
  assumes "length data < 65536" and "8 dvd length bs"
  shows "inflate_block 0 out (replicate 5 False @
     stream_bits (le_bytes 2 (of_nat (length data) :: u16) @ le_bytes 2 (NOT (of_nat (length data)) :: u16) @ data) @ bs)
     (out @ data) bs"
  using assms by (intro block_stored) (simp_all add: unat_of_nat)

lemma stored_blocks_inflate:
  assumes "8 dvd length bs"
  shows "inflate_blocks out (stream_bits (stored_blocks data) @ bs) (out @ data) bs"
proof (induction data arbitrary: out rule: stored_blocks.induct)
  case (1 data)
  have ty: "bits_val [False, False] = 0" by (simp add: bits_val_def)
  show ?case
  proof (cases "length data < 65536")
    case True
    with stored_block_inflates [OF True assms] show ?thesis
      unfolding stored_blocks.simps [of data] by (simp add: stored_block_bits ty blocks_last)
  next
    case False
    let ?bs = "stream_bits (stored_blocks (drop 65535 data)) @ bs"
    have "inflate_block 0 out (replicate 5 False @ stream_bits (le_bytes 2 (of_nat (length (take 65535 data)) :: u16) @
        le_bytes 2 (NOT (of_nat (length (take 65535 data))) :: u16) @ take 65535 data) @ ?bs) (out @ take 65535 data) ?bs"
      using assms False by (intro stored_block_inflates) auto
    moreover have "inflate_blocks (out @ take 65535 data) ?bs (out @ data) bs"
      using 1 [OF False, of "out @ take 65535 data"] by simp
    ultimately have "inflate_blocks out (stream_bits (stored_block False (take 65535 data)) @ ?bs) (out @ data) bs"
      by (simp only: stored_block_bits append_Cons append_assoc) (rule blocks_more, simp_all only: ty)
    then show ?thesis unfolding stored_blocks.simps [of data] using False by simp
  qed
qed

lemma zlib_header_ok:
  "(unat (0x78 :: u8) * 256 + unat (0x01 :: u8)) mod 31 = 0" "unat (0x78 :: u8) AND 15 = 8" "unat (0x01 :: u8) AND 32 = 0"
  by simp_all

lemma zlib_store_stream: "zlib_stream (zlib_store data) data"
  unfolding zlib_store_def
proof (rule zlib_stream.intros [OF zlib_header_ok, of _ _ "[]" "[]"])
  show "inflate_blocks [] (stream_bits (stored_blocks data @ zlib_trailer data)) data ([] @ stream_bits (zlib_trailer data) @ [])"
    using stored_blocks_inflate [of "stream_bits (zlib_trailer data)" "[]" data] by simp
qed simp_all

section \<open>Streams with the fixed code\<close>

text \<open>A parse of the data: bytes, and copies of \<open>n\<close> bytes from \<open>d\<close> bytes back.\<close>

datatype lz_token = Lz_Byte u8 | Lz_Copy nat nat

fun lz_expand :: "bytes \<Rightarrow> lz_token list \<Rightarrow> bytes" where
  "lz_expand out [] = out"
| "lz_expand out (Lz_Byte b # ts) = lz_expand (out @ [b]) ts"
| "lz_expand out (Lz_Copy n d # ts) = lz_expand (lz_copy n d out) ts"

fun lz_ok :: "nat \<Rightarrow> lz_token list \<Rightarrow> bool" where
  "lz_ok k [] = True"
| "lz_ok k (Lz_Byte b # ts) = lz_ok (k + 1) ts"
| "lz_ok k (Lz_Copy n d # ts) = (3 \<le> n \<and> n \<le> 258 \<and> 1 \<le> d \<and> d \<le> 32768 \<and> d \<le> k \<and> lz_ok (k + n) ts)"

text \<open>The last symbol below \<open>k\<close> whose base is not above \<open>n\<close>.\<close>

fun last_base :: "(nat \<Rightarrow> nat) \<Rightarrow> nat \<Rightarrow> nat \<Rightarrow> nat" where
  "last_base base n 0 = 0"
| "last_base base n (Suc k) = (if base k \<le> n then k else last_base base n k)"

definition length_sym :: "nat \<Rightarrow> nat" where
  "length_sym n = (if n = 258 then 285 else last_base rfc_length_base n 285)"

definition dist_sym :: "nat \<Rightarrow> nat" where
  "dist_sym d = last_base rfc_dist_base d 30"

fun lz_bits :: "lz_token \<Rightarrow> bool list" where
  "lz_bits (Lz_Byte b) = huff_path rfc_fixed_lit (unat b)"
| "lz_bits (Lz_Copy n d) = (let c = length_sym n; e = dist_sym d
     in huff_path rfc_fixed_lit c @ bits_of (rfc_length_extra c) (n - rfc_length_base c) @
        huff_path rfc_fixed_dist e @ bits_of (rfc_dist_extra e) (d - rfc_dist_base e))"

definition zlib_fixed :: "lz_token list \<Rightarrow> bytes" where
  "zlib_fixed ts = 0x78 # 0x01 #
     pack_bits (True # True # False # concat (map lz_bits ts) @ huff_path rfc_fixed_lit 256) @
     zlib_trailer (lz_expand [] ts)"

text \<open>Every length and every distance is in the range of its symbol.\<close>

lemma last_base_range:
  assumes "base j \<le> n" and "j < k" and "n < base k" and "\<And>i. j \<le> i \<Longrightarrow> i < k \<Longrightarrow> base (Suc i) = base i + 2 ^ extra i"
  shows "j \<le> last_base base n k" and "last_base base n k < k" and "base (last_base base n k) \<le> n"
    and "n < base (last_base base n k) + 2 ^ extra (last_base base n k)"
proof -
  have "j \<le> last_base base n k \<and> last_base base n k < k \<and> base (last_base base n k) \<le> n \<and>
      n < base (last_base base n k) + 2 ^ extra (last_base base n k)"
    using assms(2-4)
  proof (induction k)
    case (Suc k)
    show ?case
    proof (cases "base k \<le> n")
      case True
      with Suc.prems show ?thesis by simp
    next
      case False
      then have "j < k" using assms(1) Suc.prems(1) by (metis less_antisym)
      with False Suc show ?thesis by simp
    qed
  qed simp
  then show "j \<le> last_base base n k" "last_base base n k < k" "base (last_base base n k) \<le> n"
    "n < base (last_base base n k) + 2 ^ extra (last_base base n k)" by auto
qed

text \<open>Below 285, the base of a length is a running sum; the copy of 258 bytes has its own symbol.\<close>

lemma length_sym_range:
  assumes "3 \<le> n" and "n \<le> 258"
  shows "257 \<le> length_sym n" and "length_sym n \<le> 285" and "rfc_length_base (length_sym n) \<le> n"
    and "n - rfc_length_base (length_sym n) < 2 ^ rfc_length_extra (length_sym n)"
proof -
  let ?b = "\<lambda>c. 3 + (\<Sum>i\<leftarrow>[257..<c]. 2 ^ rfc_length_extra i) :: nat"
  have same: "last_base rfc_length_base n k = last_base ?b n k" if "k \<le> 285" for k
    using that by (induction k) (auto simp: rfc_length_base.simps)
  have top: "?b 285 = 259" by (simp add: upt_rec rfc_length_extra.simps)
  have step: "?b (Suc i) = ?b i + 2 ^ rfc_length_extra i" if "257 \<le> i" for i using that by simp
  have "?b 257 \<le> n" "n < ?b 285" using assms top by simp_all
  note r = last_base_range [of ?b 257 n 285 rfc_length_extra, OF this(1) _ this(2) step]
  let ?c = "last_base ?b n 285"
  have c: "257 \<le> ?c" "?c < 285" "?b ?c \<le> n" "n < ?b ?c + 2 ^ rfc_length_extra ?c" using r by simp_all
  have b: "rfc_length_base ?c = ?b ?c" using c(2) by (simp add: rfc_length_base.simps)
  show "257 \<le> length_sym n" "length_sym n \<le> 285" using c(1,2) by (auto simp: length_sym_def same)
  show "rfc_length_base (length_sym n) \<le> n" "n - rfc_length_base (length_sym n) < 2 ^ rfc_length_extra (length_sym n)"
    using c(3,4) b by (auto simp: length_sym_def same) (auto simp: rfc_length_base.simps)
qed

lemma dist_sym_range:
  assumes "1 \<le> d" and "d \<le> 32768"
  shows "dist_sym d < 30" and "rfc_dist_base (dist_sym d) \<le> d"
    and "d - rfc_dist_base (dist_sym d) < 2 ^ rfc_dist_extra (dist_sym d)"
proof -
  have step: "rfc_dist_base (Suc i) = rfc_dist_base i + 2 ^ rfc_dist_extra i" for i by (simp add: rfc_dist_base.simps)
  have "rfc_dist_base 30 = 32769" by (simp add: rfc_dist_base.simps upt_rec rfc_dist_extra.simps)
  then have "rfc_dist_base 0 \<le> d" "d < rfc_dist_base 30" using assms by (simp_all add: rfc_dist_base.simps)
  note r = last_base_range [of rfc_dist_base 0 d 30 rfc_dist_extra, OF this(1) _ this(2) step]
  show "dist_sym d < 30" "rfc_dist_base (dist_sym d) \<le> d" using r(2,3) by (simp_all add: dist_sym_def)
  show "d - rfc_dist_base (dist_sym d) < 2 ^ rfc_dist_extra (dist_sym d)" using r(3,4) by (simp add: dist_sym_def)
qed

lemma rfc_fixed_used:
  "c < 288 \<Longrightarrow> huff_used rfc_fixed_lit c" "d < 32 \<Longrightarrow> huff_used rfc_fixed_dist d"
  by (simp_all add: huff_used_def rfc_fixed_lit_def rfc_fixed_dist_def)

lemma inflate_codes_byte:
  assumes "inflate_codes lit dist (out @ [of_nat c]) bs out' bs'" and "huff_used lit c" and "c < 256"
  shows "inflate_codes lit dist out (huff_path lit c @ bs) out' bs'"
  using assms(1)
proof cases
  case codes_end
  with assms(2,3) show ?thesis by (intro inflate_codes.codes_end lits_byte)
next
  case (codes_match out1 c' xs d ys bs1)
  from lits_byte [OF assms(2,3) codes_match(1)] codes_match(2-9) show ?thesis by (rule inflate_codes.codes_match)
qed

lemma lz_bits_inflate:
  assumes "lz_ok (length out) ts"
  shows "inflate_codes rfc_fixed_lit rfc_fixed_dist out (concat (map lz_bits ts) @ huff_path rfc_fixed_lit 256 @ bs)
     (lz_expand out ts) bs"
  using assms
proof (induction out ts rule: lz_expand.induct)
  case (1 out)
  have "inflate_lits rfc_fixed_lit out (huff_path rfc_fixed_lit 256 @ bs) out 256 bs"
    by (intro lits_stop rfc_fixed_used) simp_all
  then show ?case by (simp add: codes_end)
next
  case (2 out b ts)
  have "unat b < 256" using unat_byte_less [of b] by simp
  then have "huff_used rfc_fixed_lit (unat b)" by (intro rfc_fixed_used) simp
  from inflate_codes_byte [OF _ this \<open>unat b < 256\<close>] 2 show ?case by simp
next
  case (3 out n d ts)
  let ?c = "length_sym n" and ?e = "dist_sym d"
  have ok: "3 \<le> n" "n \<le> 258" "1 \<le> d" "d \<le> 32768" "d \<le> length out" using "3.prems" by auto
  note c = length_sym_range [OF ok(1,2)] and e = dist_sym_range [OF ok(3,4)]
  let ?xs = "bits_of (rfc_length_extra ?c) (n - rfc_length_base ?c)" and ?ys = "bits_of (rfc_dist_extra ?e) (d - rfc_dist_base ?e)"
  let ?bs = "concat (map lz_bits ts) @ huff_path rfc_fixed_lit 256 @ bs"
  have n: "rfc_length_base ?c + bits_val ?xs = n" and d: "rfc_dist_base ?e + bits_val ?ys = d"
    using c(3,4) e(2,3) by (simp_all add: take_bit_nat_eq_self)
  have lits: "inflate_lits rfc_fixed_lit out (huff_path rfc_fixed_lit ?c @ ?xs @ huff_path rfc_fixed_dist ?e @ ?ys @ ?bs) out ?c
      (?xs @ huff_path rfc_fixed_dist ?e @ ?ys @ ?bs)"
    using c(1,2) by (intro lits_stop rfc_fixed_used) simp_all
  have used: "huff_used rfc_fixed_dist ?e" using e(1) by (intro rfc_fixed_used) simp
  have tail: "inflate_codes rfc_fixed_lit rfc_fixed_dist
      (lz_copy (rfc_length_base ?c + bits_val ?xs) (rfc_dist_base ?e + bits_val ?ys) out) ?bs (lz_expand (lz_copy n d out) ts) bs"
    unfolding n d using "3.IH" "3.prems" by simp
  have reach: "rfc_dist_base ?e + bits_val ?ys \<le> length out" unfolding d by (rule ok(5))
  have "inflate_codes rfc_fixed_lit rfc_fixed_dist out
      (huff_path rfc_fixed_lit ?c @ ?xs @ huff_path rfc_fixed_dist ?e @ ?ys @ ?bs) (lz_expand (lz_copy n d out) ts) bs"
    by (rule codes_match [OF lits c(1,2) length_bits_of used e(1) length_bits_of reach tail])
  then show ?case by (simp add: Let_def)
qed

lemma zlib_fixed_stream:
  assumes "lz_ok 0 ts"
  shows "zlib_stream (zlib_fixed ts) (lz_expand [] ts)"
proof -
  let ?bs = "concat (map lz_bits ts) @ huff_path rfc_fixed_lit 256" and ?d = "lz_expand [] ts"
  obtain k where k: "stream_bits (pack_bits (True # True # False # ?bs)) = (True # True # False # ?bs) @ replicate k False" "k < 8"
    using stream_bits_pack .
  have "bits_val [True, False] = 1" by (simp add: bits_val_def)
  moreover have "inflate_codes rfc_fixed_lit rfc_fixed_dist [] (?bs @ replicate k False @ stream_bits (zlib_trailer ?d)) ?d
      (replicate k False @ stream_bits (zlib_trailer ?d))"
    using lz_bits_inflate [of "[]" ts] assms by simp
  ultimately have "inflate_blocks [] (True # True # False # ?bs @ replicate k False @ stream_bits (zlib_trailer ?d)) ?d
      (replicate k False @ stream_bits (zlib_trailer ?d))"
    using blocks_last [of True False] block_fixed by simp
  then have "inflate_blocks [] (stream_bits (pack_bits (True # True # False # ?bs) @ zlib_trailer ?d)) ?d
      (replicate k False @ stream_bits (zlib_trailer ?d) @ [])"
    using k(1) by simp
  from zlib_stream.intros [OF zlib_header_ok this] k(2) show ?thesis by (simp add: zlib_fixed_def)
qed

section \<open>Encoders\<close>

text \<open>What an encoder promises and what follows for the decompressor: it inverts the encoder, so that
  two inputs with the same encoding mean the same.\<close>

locale zlib_encoder =
  fixes enc :: "'a \<Rightarrow> bytes" and plain :: "'a \<Rightarrow> bytes" and valid :: "'a \<Rightarrow> bool"
  assumes enc_stream: "valid a \<Longrightarrow> zlib_stream (enc a) (plain a)"
begin

lemma decodes:
  assumes "valid a" and "length (plain a) \<le> outsz" and "w = 32 \<or> w = 64"
  shows "win_decompressor_zlib w (enc a) outsz = Ok (plain a)"
  using win_decompressor_zlib_correct [OF enc_stream [OF assms(1)] assms(2,3)] .

lemma enc_plain:
  assumes "valid a" and "valid b" and "enc a = enc b"
  shows "plain a = plain b"
proof -
  let ?n = "max (length (plain a)) (length (plain b))"
  have "win_decompressor_zlib 64 (enc a) ?n = Ok (plain a)" "win_decompressor_zlib 64 (enc b) ?n = Ok (plain b)"
    using decodes assms(1,2) by simp_all
  with assms(3) show ?thesis by simp
qed

end

interpretation st: zlib_encoder zlib_store "\<lambda>data. data" "\<lambda>_. True"
  by unfold_locales (rule zlib_store_stream)

interpretation lz: zlib_encoder zlib_fixed "lz_expand []" "lz_ok 0"
  by unfold_locales (rule zlib_fixed_stream)

section \<open>The reserved length symbols\<close>

text \<open>The entries of \<^verbatim>\<open>s_length_base\<close> for the symbols 286 and 287 are 0. The test for room before the copy passes,
  and the loop after it copies three bytes before it looks at the count.\<close>

definition zlib_overrun :: "nat \<Rightarrow> bytes \<Rightarrow> bytes" where
  "zlib_overrun c data = 0x78 # 0x01 #
     pack_bits (True # True # False # concat (map (\<lambda>b. huff_path rfc_fixed_lit (unat b)) data) @
       huff_path rfc_fixed_lit c @ huff_path rfc_fixed_dist 0)"

lemma tinfl_copy_0_overrun:
  assumes "0 < dist" and "dist \<le> length (pOut_buf s)"
    and "length (pOut_buf s) \<le> pOut_buf_end s" and "pOut_buf_end s < length (pOut_buf s) + 3"
  obtains s' where "tinfl_copy 0 dist s = (Crash Out_Of_Bounds, s')"
proof -
  have "pOut_buf_end s = length (pOut_buf s) \<or> pOut_buf_end s = length (pOut_buf s) + 1 \<or> pOut_buf_end s = length (pOut_buf s) + 2"
    using assms(3,4) by linarith
  then have "\<exists>s'. tinfl_copy_3 0 (length (pOut_buf s) - dist) s = (Crash Out_Of_Bounds, s')"
    using assms(1,2) by (subst tinfl_copy_3.simps) (auto simp: co_simps tinfl_copy_byte_def tinfl_put_byte_def)
  with assms(3) that show ?thesis by (auto simp: tinfl_copy_def tinfl_copy_fast_def Let_def co_bind_def)
qed

lemma tinfl_match_overrun:
  assumes "huff_table dist t" and "c = 286 \<or> c = 287" and "huff_used dist 0" and "rest s (huff_path dist 0 @ bs)"
    and "pOut_buf s \<noteq> []" and "length (pOut_buf s) \<le> pOut_buf_end s" and "pOut_buf_end s < length (pOut_buf s) + 3"
  obtains s' where "tinfl_match t c s = (Crash Out_Of_Bounds, s')"
proof -
  obtain s1 where s1: "tinfl_huff_decode t s = (Go 0, s1)" "keeps s s1"
    using rest_huff_decode [OF assms(1,3,4)] .
  have "0 < (1 :: nat)" "1 \<le> length (pOut_buf s1)" "length (pOut_buf s1) \<le> pOut_buf_end s1" "pOut_buf_end s1 < length (pOut_buf s1) + 3"
    using assms(5-7) keeps_out [OF s1(2)] by (simp_all add: Suc_le_eq)
  from tinfl_copy_0_overrun [OF this] obtain s2 where "tinfl_copy 0 1 s1 = (Crash Out_Of_Bounds, s2)" .
  moreover have "pOut_buf s1 \<noteq> []" using assms(5) keeps_out [OF s1(2)] by simp
  ultimately have "tinfl_match t c s = (Crash Out_Of_Bounds, s2)"
    using assms(2) s1(1)
    by (auto simp: tinfl_match_def s_length_base_def s_length_extra_def s_dist_base_def s_dist_extra_def
        tinfl_extra_def co_simps Let_def)
  with that show ?thesis .
qed

lemma fixed_lits_inflate:
  assumes "256 \<le> c" and "c < 288"
  shows "inflate_lits rfc_fixed_lit out (concat (map (\<lambda>b. huff_path rfc_fixed_lit (unat b)) data) @ huff_path rfc_fixed_lit c @ bs)
    (out @ data) c bs"
proof (induction data arbitrary: out)
  case Nil
  show ?case using lits_stop [OF rfc_fixed_used(1) [OF assms(2)] assms(1)] by simp
next
  case (Cons b data)
  have b: "unat b < 256" using unat_byte_less [of b] by simp
  have "huff_used rfc_fixed_lit (unat b)" using b by (intro rfc_fixed_used) simp
  from lits_byte [OF this b] Cons [of "out @ [b]"] show ?case by simp
qed

lemma tinfl_codes_overrun:
  assumes t: "huff_table rfc_fixed_lit t0" "huff_table rfc_fixed_dist t1" and c: "c = 286 \<or> c = 287"
    and s: "rest s (concat (map (\<lambda>b. huff_path rfc_fixed_lit (unat b)) data) @ huff_path rfc_fixed_lit c @ huff_path rfc_fixed_dist 0 @ bs)"
    and out: "pOut_buf s = []" and data: "(data :: bytes) \<noteq> []" "length data \<le> pOut_buf_end s" "pOut_buf_end s < length data + 3"
  obtains s' where "tinfl_codes (Suc n) t0 t1 s = (Crash Out_Of_Bounds, s')"
proof -
  have "inflate_lits rfc_fixed_lit (pOut_buf s) (concat (map (\<lambda>b. huff_path rfc_fixed_lit (unat b)) data) @
      huff_path rfc_fixed_lit c @ huff_path rfc_fixed_dist 0 @ bs) data c (huff_path rfc_fixed_dist 0 @ bs)"
    using fixed_lits_inflate [of c "[]"] c out by auto
  moreover have "length data - length (pOut_buf s) < pOut_buf_end s - length (pOut_buf s) + 2" using data(2) by linarith
  ultimately obtain v s1 where s1: "tinfl_literals (pOut_buf_end s - length (pOut_buf s) + 2) t0 s = (Go v, s1)" "v AND 511 = c"
      "fixed s s1" "rest s1 (huff_path rfc_fixed_dist 0 @ bs)" "pOut_buf s1 = data"
    using tinfl_literals_sim [OF t(1) _ s refl data(2)] by blast
  have "pOut_buf s1 \<noteq> []" "length (pOut_buf s1) \<le> pOut_buf_end s1" "pOut_buf_end s1 < length (pOut_buf s1) + 3"
    using s1(3,5) data by (simp_all add: fixed_def)
  with tinfl_match_overrun [OF t(2) c rfc_fixed_used(2) s1(4)] obtain s2 where
    "tinfl_match t1 c s1 = (Crash Out_Of_Bounds, s2)" by auto
  with s1(1,2) c that [of s2] show ?thesis by (auto simp: co_bind_def Let_def)
qed

lemma zlib_overrun_faults:
  assumes "c = 286 \<or> c = 287" and "data \<noteq> []" and "length data \<le> outsz" and "outsz < length data + 3" and "w = 32 \<or> w = 64"
  shows "win_decompressor_zlib w (zlib_overrun c data) outsz = Fault Out_Of_Bounds"
proof -
  let ?bs = "concat (map (\<lambda>b. huff_path rfc_fixed_lit (unat b)) data) @ huff_path rfc_fixed_lit c @ huff_path rfc_fixed_dist 0"
  let ?s = "tinfl_init w (zlib_overrun c data) outsz"
  let ?s1 = "?s\<lparr>pIn_buf_cur := 2\<rparr>"
  obtain k where k: "stream_bits (pack_bits (True # True # False # ?bs)) = (True # True # False # ?bs) @ replicate k False"
    using stream_bits_pack .
  have h: "tinfl_zlib_header ?s = (Go (), ?s1)"
    by (simp add: tinfl_zlib_header_def tinfl_get_byte_def tinfl_init_def zlib_overrun_def Let_def)
  have r: "rest ?s1 (True # True # False # ?bs @ replicate k False)" using assms(5) k
    by (auto simp: rest_def bb_ok_def todo_def tinfl_init_def zlib_overrun_def intro: exI [of _ 0])
  obtain s2 where s2: "tinfl_get_bits 3 ?s1 = (Go (bits_val [True, True, False]), s2)" "rest s2 (?bs @ replicate k False)" "keeps ?s1 s2"
    using rest_header [OF r] .
  obtain t0 where t0: "tinfl_build_table rfc_fixed_lit = Go t0" "huff_table rfc_fixed_lit t0"
    using tinfl_build_table_ok tinfl_fixed_ok(1) by (auto simp: tinfl_fixed_rfc)
  obtain t1 where t1: "tinfl_build_table rfc_fixed_dist = Go t1" "huff_table rfc_fixed_dist t1"
    using tinfl_build_table_ok tinfl_fixed_ok(2) by (auto simp: tinfl_fixed_rfc)
  have out: "pOut_buf s2 = []" "pOut_buf_end s2 = outsz" using keeps_out [OF s2(3)] by (simp_all add: tinfl_init_def)
  obtain s3 where s3: "tinfl_codes (Suc (outsz + 1)) t0 t1 s2 = (Crash Out_Of_Bounds, s3)"
    using tinfl_codes_overrun [OF t0(2) t1(2) assms(1) _ out(1) assms(2)] s2(2) out(2) assms(3,4) by (metis append.assoc)
  have "tinfl_block 1 s2 = (Crash Out_Of_Bounds, s3)"
    using t0(1) t1(1) s3 out
    by (simp add: tinfl_block_def tinfl_huff_block_def co_bind_def co_lift_def co_ret_def tinfl_fixed_rfc del: tinfl_codes.simps)
  moreover have ty: "bits_val [True, False] = 1" by (simp add: bits_val_def)
  ultimately have "tinfl_blocks (8 * length (pIn_buf ?s1) + 2) ?s1 = (Crash Out_Of_Bounds, s3)"
    using s2(1) ty by (simp add: co_bind_def block_header Let_def del: One_nat_def)
  with h have "tinfl_stream True ?s = (Crash Out_Of_Bounds, s3)"
    by (simp add: tinfl_stream_def co_bind_def del: tinfl_blocks.simps add_2_eq_Suc')
  then show ?thesis by (simp add: win_decompressor_zlib_def tinfl_decompress_mem_to_mem_def tinfl_decompress_def)
qed

end
