(* ===== verification/Sqfs_Tinfl_Safe.thy ===== *)
theory Sqfs_Tinfl_Safe
  imports Sqfs_Inflate
begin

text \<open>
  The inflate routine on arbitrary input. \<open>post m s Q\<close> is a postcondition for one run: \<open>Q\<close> holds where
  the run goes on; where it leaves, the status is not the one of success; where it goes wrong, the
  fault is a copy that runs out of the output buffer or that reads what was never written. In particular the
  fuel of the loops is enough: the measure of a block is the number of bits up to the last 1 of the
  input, the measure of the loops within a block is the room in the output buffer.
\<close>

section \<open>The bits up to the last 1\<close>

definition left_bits :: "tinfl_io \<Rightarrow> nat" where
  "left_bits s = length (dropWhile Not (rev (todo s)))"

lemma last_bit_le: "length (dropWhile Not (rev bs)) \<le> k \<longleftrightarrow> (\<forall>i < length bs. bs ! i \<longrightarrow> i < k)"
proof (induction bs rule: rev_induct)
  case (snoc b bs)
  then show ?case by (cases b) (auto simp: nth_append less_Suc_eq)
qed simp

lemma left_bits_le: "left_bits s \<le> k \<longleftrightarrow> (\<forall>i < length (todo s). todo s ! i \<longrightarrow> i < k)"
  by (simp add: left_bits_def last_bit_le)

lemma takes_left_bits:
  assumes "takes s n s'"
  shows "left_bits s' = left_bits s - n"
proof -
  obtain k where k: "n \<le> length (todo s) + 8 * k" "todo s' = drop n (todo s @ replicate (8 * k) False)"
    using assms by (auto simp: takes_def)
  have nth: "todo s' ! i = (n + i < length (todo s) \<and> todo s ! (n + i))" if "i < length (todo s')" for i
    using that k by (auto simp: nth_append)
  have "left_bits s' \<le> m \<longleftrightarrow> left_bits s \<le> m + n" for m
  proof
    assume l: "left_bits s' \<le> m"
    show "left_bits s \<le> m + n"
      unfolding left_bits_le
    proof (intro allI impI)
      fix i assume i: "i < length (todo s)" "todo s ! i"
      show "i < m + n"
      proof (cases "i < n")
        case False
        then have "i - n < length (todo s')" "todo s' ! (i - n)" using i k by (auto simp: nth_append)
        with l False show ?thesis unfolding left_bits_le by fastforce
      qed simp
    qed
  next
    assume "left_bits s \<le> m + n"
    then show "left_bits s' \<le> m" unfolding left_bits_le using nth by fastforce
  qed
  then show ?thesis by (metis diff_le_self le_diff_conv le_antisym order_refl)
qed

lemma left_bits_0_peek: "left_bits s = 0 \<Longrightarrow> peek n s = replicate n False"
  using left_bits_le [of s 0] by (intro nth_equalityI) (auto simp: nth_peek)

lemma bits_val_zeros [simp]: "bits_val (replicate n False) = 0"
  by (induction n) (simp_all add: bits_val_def)

section \<open>Postconditions\<close>

definition copy_fault :: "fault \<Rightarrow> bool" where
  "copy_fault u \<longleftrightarrow> u = Out_Of_Bounds \<or> u = Uninitialised"

definition post :: "'a co \<Rightarrow> tinfl_io \<Rightarrow> ('a \<Rightarrow> tinfl_io \<Rightarrow> bool) \<Rightarrow> bool" where
  "post m s Q \<longleftrightarrow> (case m s of
     (Go a, s') \<Rightarrow> Q a s' | (Exit i st, s') \<Rightarrow> st \<noteq> TINFL_STATUS_DONE | (Crash u, s') \<Rightarrow> copy_fault u)"

lemma post_bind: "post m s (\<lambda>a s'. post (f a) s' Q) \<Longrightarrow> post (co_bind m f) s Q"
  by (auto simp: post_def co_bind_def split: prod.splits cr.splits)

lemma post_mono: "post m s Q \<Longrightarrow> (\<And>a s'. Q a s' \<Longrightarrow> R a s') \<Longrightarrow> post m s R"
  by (auto simp: post_def split: prod.splits cr.splits)

lemma post_seq: "post m s P \<Longrightarrow> (\<And>a s'. P a s' \<Longrightarrow> post (f a) s' Q) \<Longrightarrow> post (co_bind m f) s Q"
  by (rule post_bind) (rule post_mono)

lemma post_Go: "m s = (Go a, s') \<Longrightarrow> Q a s' \<Longrightarrow> post m s Q"
  by (simp add: post_def)

lemma post_simps [simp]:
  "post (co_ret a) s Q \<longleftrightarrow> Q a s" "post (co_modify f) s Q' \<longleftrightarrow> Q' () (f s)" "post (co_gets g) s Q'' \<longleftrightarrow> Q'' (g s) s"
  "post (co_exit i st) s R \<longleftrightarrow> st \<noteq> TINFL_STATUS_DONE" "post (co_crash u) s R' \<longleftrightarrow> copy_fault u"
  "copy_fault Out_Of_Bounds" "copy_fault Uninitialised"
  by (simp_all add: post_def co_simps copy_fault_def)

text \<open>The states a run goes through: the bit buffer is in order, the output is within its buffer, and
  input and output only move forward.\<close>

definition io_ok :: "tinfl_io \<Rightarrow> bool" where
  "io_ok s \<longleftrightarrow> bb_ok s \<and> length (pOut_buf s) \<le> pOut_buf_end s"

definition onward :: "tinfl_io \<Rightarrow> tinfl_io \<Rightarrow> bool" where
  "onward s s' \<longleftrightarrow> io_ok s' \<and> fixed s s' \<and> length (pOut_buf s) \<le> length (pOut_buf s') \<and> left_bits s' \<le> left_bits s"

lemma onward_refl: "io_ok s \<Longrightarrow> onward s s"
  by (simp add: onward_def)

lemma onward_trans: "onward s s' \<Longrightarrow> onward s' s'' \<Longrightarrow> onward s s''"
  using fixed_trans by (auto simp: onward_def)

lemma onward_ok: "onward s s' \<Longrightarrow> io_ok s'"
  by (simp add: onward_def)

lemma onward_room: "onward s s' \<Longrightarrow> pOut_buf_end s' = pOut_buf_end s" "onward s s' \<Longrightarrow> length (pOut_buf s') \<le> pOut_buf_end s"
  by (simp_all add: onward_def fixed_def io_ok_def)

lemma takes_onward: "io_ok s \<Longrightarrow> takes s n s' \<Longrightarrow> onward s s'"
  using takesD [of s n s'] keeps_fixed [of s s'] keeps_out [of s s'] takes_left_bits [of s n s']
  by (simp add: onward_def io_ok_def)

text \<open>Reading moves the output nowhere.\<close>

lemma takes_room:
  "takes s n s' \<Longrightarrow> length (pOut_buf s') = length (pOut_buf s)" "takes s n s' \<Longrightarrow> pOut_buf_end s' = pOut_buf_end s"
  using keeps_out takesD(2) by metis+

lemma takes_ok: "io_ok s \<Longrightarrow> takes s n s' \<Longrightarrow> io_ok s'"
  using takes_onward onward_ok by blast

section \<open>Reading\<close>

lemma get_bits_post:
  assumes "io_ok s" and "n \<le> 16"
  shows "post (tinfl_get_bits n) s (\<lambda>v s'. takes s n s' \<and> v = bits_val (peek n s) \<and> v < 2 ^ n)"
proof -
  have "bb_ok s" using assms(1) by (simp add: io_ok_def)
  then obtain s' where "tinfl_get_bits n s = (Go (bits_val (peek n s)), s')" "takes s n s'"
    using tinfl_get_bits_takes assms(2) by blast
  then show ?thesis using bits_val_less [of "peek n s"] by (simp add: post_def)
qed

lemma skip_bits_post:
  assumes "io_ok s"
  shows "post (\<lambda>s. tinfl_skip_bits (num_bits s AND 7) s) s (\<lambda>_ s'. \<exists>n. takes s n s')"
proof -
  have "num_bits s AND 7 = num_bits s mod 8" using take_bit_eq_mask [of 3 "num_bits s"] by (simp add: mask_eq_exp_minus_1 take_bit_eq_mod)
  then have "num_bits s AND 7 \<le> 16" using mod_less_divisor [of 8 "num_bits s"] by linarith
  moreover have "bb_ok s" using assms by (simp add: io_ok_def)
  ultimately obtain s' where "tinfl_skip_bits (num_bits s AND 7) s = (Go (), s')" "takes s (num_bits s AND 7) s'"
    using tinfl_skip_bits_takes by blast
  then show ?thesis by (auto simp: post_def)
qed

lemma raw_byte_post:
  assumes "io_ok s"
  shows "post tinfl_raw_byte s (\<lambda>v s'. takes s 8 s' \<and> v = bits_val (peek 8 s))"
proof (cases "num_bits s = 0")
  case False
  have "post (tinfl_get_bits 8) s (\<lambda>v s'. takes s 8 s' \<and> v = bits_val (peek 8 s))"
    by (rule post_mono [OF get_bits_post [OF assms]]) simp_all
  with False show ?thesis by (simp add: post_def tinfl_raw_byte_def)
next
  case True
  have ok: "bb_ok s" using assms by (simp add: io_ok_def)
  show ?thesis
  proof (cases "pIn_buf_cur s < length (pIn_buf s)")
    case cur: True
    let ?s = "s\<lparr>pIn_buf_cur := pIn_buf_cur s + 1\<rparr>" and ?c = "pIn_buf s ! pIn_buf_cur s"
    have t: "todo s = byte_bits ?c @ todo ?s"
      using True cur by (simp add: todo_def Cons_nth_drop_Suc [symmetric])
    then have "takes s 8 ?s" using ok True cur by (auto simp: takes_def bb_ok_def keeps_def intro: exI [of _ 0])
    moreover have "bits_val (peek 8 s) = unat ?c" using t by (simp add: peek_def)
    ultimately show ?thesis using True cur by (simp add: post_def tinfl_raw_byte_def tinfl_get_byte_def)
  next
    case False
    then have t: "todo s = []" using True by (simp add: todo_def)
    then have "takes s 8 s" using ok by (auto simp: takes_def intro: exI [of _ 1])
    moreover have "bits_val (peek 8 s) = 0" using t by (simp add: peek_def)
    ultimately show ?thesis using True False by (simp add: post_def tinfl_raw_byte_def tinfl_get_byte_def)
  qed
qed

lemma huff_decode_post:
  assumes "huff_table sizes t" and "io_ok s"
  shows "post (tinfl_huff_decode t) s (\<lambda>c s'. (\<exists>n. takes s n s') \<and> (c = 0 \<or> huff_used sizes c))"
proof -
  have "bb_ok s" using assms(2) by (simp add: io_ok_def)
  from tinfl_huff_decode_takes [OF assms(1) this] obtain c n s' where
    "tinfl_huff_decode t s = (Go c, s')" "takes s n s'" "c = 0 \<or> huff_used sizes c" by metis
  then show ?thesis by (auto simp: post_def)
qed

lemma fast_sym_post:
  assumes "huff_table sizes t" and "io_ok s" and "15 \<le> num_bits s"
  shows "post (tinfl_fast_sym t) s (\<lambda>v s'. \<exists>n. takes s n s' \<and> n \<le> 15 \<and> num_bits s' = num_bits s - n \<and>
    pIn_buf_cur s' = pIn_buf_cur s \<and> (v AND 511 = 0 \<or> huff_used sizes (v AND 511)))"
proof -
  have "bb_ok s" using assms(2) by (simp add: io_ok_def)
  from tinfl_fast_sym_takes [OF assms(1) this assms(3)] obtain v n s' where
    "tinfl_fast_sym t s = (Go v, s')" "takes s n s'" "n \<le> 15" "num_bits s' = num_bits s - n"
    "pIn_buf_cur s' = pIn_buf_cur s" "v AND 511 = 0 \<or> huff_used sizes (v AND 511)" by metis
  then show ?thesis by (auto simp: post_def)
qed

section \<open>Literals\<close>

lemma left_bits_out [simp]: "left_bits (s\<lparr>pOut_buf := x\<rparr>) = left_bits s"
  by (simp add: left_bits_def)

lemma onward_out:
  assumes "io_ok s" and "length (pOut_buf s) + length bs \<le> pOut_buf_end s"
  shows "onward s (s\<lparr>pOut_buf := pOut_buf s @ bs\<rparr>)"
  using assms by (simp add: onward_def io_ok_def fixed_def)

lemma put_byte_post:
  assumes "io_ok s"
  shows "post (tinfl_put_byte b) s (\<lambda>_ s'. onward s s' \<and> length (pOut_buf s') = length (pOut_buf s) + 1)"
  using onward_out [OF assms, of "[b]"] by (simp add: post_def tinfl_put_byte_def)

lemma room_post:
  assumes "io_ok s"
  shows "post (tinfl_room i) s (\<lambda>_ s'. s' = s)"
  by (simp add: post_def tinfl_room_def)

definition lit_end :: "nat \<Rightarrow> bool" where
  "lit_end v \<longleftrightarrow> 256 \<le> v AND 511 \<and> v AND 511 < 288"

lemma lit_endI:
  assumes "huff_table sizes t" and "v AND 511 = 0 \<or> huff_used sizes (v AND 511)" and "v AND 256 \<noteq> 0"
  shows "lit_end v"
proof -
  have "v AND 511 < 288" using assms(2) huff_table_less [OF assms(1)] by auto
  with fast_val(1) [OF refl, of v] assms(3) show ?thesis by (simp add: lit_end_def)
qed

text \<open>A turn of the loop writes a byte, or it has found a symbol that is none.\<close>

definition lit_turn :: "tinfl_io \<Rightarrow> nat option \<Rightarrow> tinfl_io \<Rightarrow> bool" where
  "lit_turn s r s' \<longleftrightarrow> onward s s' \<and>
     (case r of None \<Rightarrow> length (pOut_buf s) < length (pOut_buf s') | Some v \<Rightarrow> lit_end v)"

lemma put_none_post:
  assumes "onward s s1"
  shows "post (co_bind (tinfl_put_byte c) (\<lambda>_. co_ret None)) s1 (lit_turn s)"
  using onward_trans [OF assms] assms
  by (intro post_seq [OF put_byte_post [OF onward_ok [OF assms]]]) (auto simp: lit_turn_def onward_def)

lemma literal_slow_post:
  assumes t: "huff_table lit t" and ok: "io_ok s"
  shows "post (co_bind (tinfl_huff_decode t) (\<lambda>counter.
           if 256 \<le> counter then co_ret (Some counter) else
           co_bind (tinfl_room 24) (\<lambda>_.
           co_bind (tinfl_put_byte (of_nat counter)) (\<lambda>_.
           co_ret None)))) s (lit_turn s)"
proof (rule post_seq [OF huff_decode_post [OF t ok]])
  fix c s' assume a: "(\<exists>n. takes s n s') \<and> (c = 0 \<or> huff_used lit c)"
  then have o: "onward s s'" using takes_onward [OF ok] by blast
  have c: "c < 288" using a huff_table_less [OF t] by auto
  show "post (if 256 \<le> c then co_ret (Some c) else
           co_bind (tinfl_room 24) (\<lambda>_. co_bind (tinfl_put_byte (of_nat c)) (\<lambda>_. co_ret None))) s' (lit_turn s)"
  proof (cases "256 \<le> c")
    case True
    then show ?thesis using o c and_511_id [of c] by (simp add: lit_turn_def lit_end_def)
  next
    case False
    have "post (co_bind (tinfl_put_byte (of_nat c)) (\<lambda>_. co_ret None)) s' (lit_turn s)"
      by (rule put_none_post [OF o])
    with False show ?thesis
      by (simp, intro post_seq [OF room_post [OF onward_ok [OF o]]]) simp
  qed
qed

lemma literal_second_post:
  assumes t: "huff_table lit t" and o: "onward s s1" and n: "15 \<le> num_bits s1"
  shows "post (co_bind (tinfl_fast_sym t) (\<lambda>sym2.
           co_bind (tinfl_put_byte b) (\<lambda>_.
           if sym2 AND 256 \<noteq> 0 then co_ret (Some sym2) else
           co_bind (tinfl_put_byte (of_nat sym2)) (\<lambda>_.
           co_ret None)))) s1 (lit_turn s)"
proof (rule post_seq [OF fast_sym_post [OF t onward_ok [OF o] n]])
  fix v s2 assume "\<exists>n. takes s1 n s2 \<and> n \<le> 15 \<and> num_bits s2 = num_bits s1 - n \<and>
    pIn_buf_cur s2 = pIn_buf_cur s1 \<and> (v AND 511 = 0 \<or> huff_used lit (v AND 511))"
  then obtain n where s2: "takes s1 n s2" "v AND 511 = 0 \<or> huff_used lit (v AND 511)" by blast
  have o2: "onward s s2" using onward_trans [OF o takes_onward [OF onward_ok [OF o] s2(1)]] .
  show "post (co_bind (tinfl_put_byte b) (\<lambda>_.
           if v AND 256 \<noteq> 0 then co_ret (Some v) else
           co_bind (tinfl_put_byte (of_nat v)) (\<lambda>_. co_ret None))) s2 (lit_turn s)"
  proof (rule post_seq [OF put_byte_post [OF onward_ok [OF o2]]])
    fix a s3 assume "onward s2 s3 \<and> length (pOut_buf s3) = length (pOut_buf s2) + 1"
    then have o3: "onward s s3" using onward_trans [OF o2] by blast
    with put_none_post [OF o3] lit_endI [OF t s2(2)] show "post (if v AND 256 \<noteq> 0 then co_ret (Some v) else
           co_bind (tinfl_put_byte (of_nat v)) (\<lambda>_. co_ret None)) s3 (lit_turn s)"
      by (simp add: lit_turn_def)
  qed
qed

lemma literal_fast_post:
  assumes t: "huff_table lit t" and ok: "io_ok s" and inp: "4 \<le> length (pIn_buf s) - pIn_buf_cur s"
  shows "post (co_bind (co_modify (\<lambda>s. tinfl_refill_32 (tinfl_refill_64 s))) (\<lambda>_.
           co_bind (tinfl_fast_sym t) (\<lambda>counter.
           if counter AND 256 \<noteq> 0 then co_ret (Some counter) else
           co_bind (co_modify tinfl_refill_32) (\<lambda>_.
           co_bind (tinfl_fast_sym t) (\<lambda>sym2.
           co_bind (tinfl_put_byte (of_nat counter)) (\<lambda>_.
           if sym2 AND 256 \<noteq> 0 then co_ret (Some sym2) else
           co_bind (tinfl_put_byte (of_nat sym2)) (\<lambda>_.
           co_ret None))))))) s (lit_turn s)"
proof (rule post_bind, simp only: post_simps)
  have "bb_ok s" using ok by (simp add: io_ok_def)
  obtain s1 where s1: "tinfl_refill_32 (tinfl_refill_64 s) = s1" "takes s 0 s1" "bit_buf_size s = 64 \<longrightarrow> 30 \<le> num_bits s1"
      "15 \<le> num_bits s1" "bit_buf_size s \<noteq> 64 \<longrightarrow> 2 \<le> length (pIn_buf s) - pIn_buf_cur s1"
    using refills_takes [OF \<open>bb_ok s\<close> inp] by metis
  have o1: "onward s s1" using takes_onward [OF ok s1(2)] .
  show "post (co_bind (tinfl_fast_sym t) (\<lambda>counter.
           if counter AND 256 \<noteq> 0 then co_ret (Some counter) else
           co_bind (co_modify tinfl_refill_32) (\<lambda>_.
           co_bind (tinfl_fast_sym t) (\<lambda>sym2.
           co_bind (tinfl_put_byte (of_nat counter)) (\<lambda>_.
           if sym2 AND 256 \<noteq> 0 then co_ret (Some sym2) else
           co_bind (tinfl_put_byte (of_nat sym2)) (\<lambda>_.
           co_ret None)))))) (tinfl_refill_32 (tinfl_refill_64 s)) (lit_turn s)"
    unfolding s1(1)
  proof (rule post_seq [OF fast_sym_post [OF t onward_ok [OF o1] s1(4)]])
    fix v s2 assume "\<exists>n. takes s1 n s2 \<and> n \<le> 15 \<and> num_bits s2 = num_bits s1 - n \<and>
      pIn_buf_cur s2 = pIn_buf_cur s1 \<and> (v AND 511 = 0 \<or> huff_used lit (v AND 511))"
    then obtain n where s2: "takes s1 n s2" "n \<le> 15" "num_bits s2 = num_bits s1 - n"
      "pIn_buf_cur s2 = pIn_buf_cur s1" "v AND 511 = 0 \<or> huff_used lit (v AND 511)" by blast
    have o2: "onward s s2" using onward_trans [OF o1 takes_onward [OF onward_ok [OF o1] s2(1)]] .
    have same: "bit_buf_size s2 = bit_buf_size s" "pIn_buf s2 = pIn_buf s" using o2 by (simp_all add: onward_def fixed_def)
    show "post (if v AND 256 \<noteq> 0 then co_ret (Some v) else
           co_bind (co_modify tinfl_refill_32) (\<lambda>_.
           co_bind (tinfl_fast_sym t) (\<lambda>sym2.
           co_bind (tinfl_put_byte (of_nat v)) (\<lambda>_.
           if sym2 AND 256 \<noteq> 0 then co_ret (Some sym2) else
           co_bind (tinfl_put_byte (of_nat sym2)) (\<lambda>_.
           co_ret None))))) s2 (lit_turn s)"
    proof (cases "v AND 256 \<noteq> 0")
      case True
      with lit_endI [OF t s2(5)] o2 show ?thesis by (simp add: lit_turn_def)
    next
      case False
      have bb: "bb_ok s2" using onward_ok [OF o2] by (simp add: io_ok_def)
      obtain s3 where s3: "tinfl_refill_32 s2 = s3" "takes s2 0 s3" "15 \<le> num_bits s3"
        using refill_again_takes [OF bb] s1(3,5) s2(2-4) same by fastforce
      have o3: "onward s s3" using onward_trans [OF o2 takes_onward [OF onward_ok [OF o2] s3(2)]] .
      have "post (co_bind (tinfl_fast_sym t) (\<lambda>sym2.
           co_bind (tinfl_put_byte (of_nat v)) (\<lambda>_.
           if sym2 AND 256 \<noteq> 0 then co_ret (Some sym2) else
           co_bind (tinfl_put_byte (of_nat sym2)) (\<lambda>_.
           co_ret None)))) s3 (lit_turn s)"
        by (rule literal_second_post [OF t o3 s3(3)])
      with False s3(1) show ?thesis by (simp, intro post_bind) simp
    qed
  qed
qed

lemma literals_post:
  assumes t: "huff_table lit t" and ok: "io_ok s" and fuel: "pOut_buf_end s - length (pOut_buf s) < fuel"
  shows "post (tinfl_literals fuel t) s (\<lambda>v s'. onward s s' \<and> lit_end v)"
  using ok fuel
proof (induction fuel arbitrary: s)
  case (Suc fuel)
  have "post (tinfl_literal t) s (lit_turn s)"
    using literal_slow_post [OF t Suc.prems(1)] literal_fast_post [OF t Suc.prems(1)]
    by (simp add: post_def tinfl_literal_def)
  then have "post (co_bind (tinfl_literal t) (\<lambda>r. case r of Some counter \<Rightarrow> co_ret counter | None \<Rightarrow> tinfl_literals fuel t)) s
      (\<lambda>v s'. onward s s' \<and> lit_end v)"
  proof (rule post_seq)
    fix r s' assume r: "lit_turn s r s'"
    then have o: "onward s s'" by (simp add: lit_turn_def)
    show "post (case r of Some counter \<Rightarrow> co_ret counter | None \<Rightarrow> tinfl_literals fuel t) s' (\<lambda>v s'. onward s s' \<and> lit_end v)"
    proof (cases r)
      case None
      then have "pOut_buf_end s' - length (pOut_buf s') < fuel"
        using r Suc.prems(2) onward_room [OF o] by (auto simp: lit_turn_def)
      from Suc.IH [OF onward_ok [OF o] this] onward_trans [OF o] None show ?thesis by (auto elim: post_mono)
    next
      case (Some v)
      with r show ?thesis by (simp add: lit_turn_def)
    qed
  qed
  then show ?case by simp
qed simp

section \<open>Copies\<close>

text \<open>Every copy writes at least a byte.\<close>

definition grown :: "tinfl_io \<Rightarrow> tinfl_io \<Rightarrow> bool" where
  "grown s s' \<longleftrightarrow> onward s s' \<and> length (pOut_buf s) < length (pOut_buf s')"

lemma grown_ok: "grown s s' \<Longrightarrow> io_ok s'"
  by (simp add: grown_def onward_def)

lemma grown_onward: "grown s s' \<Longrightarrow> onward s s'"
  by (simp add: grown_def)

lemma grown_trans: "grown s s' \<Longrightarrow> onward s' s'' \<Longrightarrow> grown s s''" "onward s s' \<Longrightarrow> grown s' s'' \<Longrightarrow> grown s s''"
  using onward_trans by (auto simp: grown_def onward_def)

lemma copy_byte_post:
  assumes "io_ok s"
  shows "post (tinfl_copy_byte src) s (\<lambda>_ s'. grown s s')"
proof -
  have "post (tinfl_put_byte b) s (\<lambda>_ s'. grown s s')" for b
    by (rule post_mono [OF put_byte_post [OF assms]]) (simp add: grown_def)
  then show ?thesis by (simp add: post_def tinfl_copy_byte_def)
qed

lemma copy_32_post:
  assumes "io_ok s"
  shows "post (tinfl_copy_32 src) s (\<lambda>_ s'. grown s s')"
  using onward_out [OF assms, of "take 4 (drop src (pOut_buf s))"] by (auto simp: post_def tinfl_copy_32_def grown_def)

lemma copy_slow_post:
  assumes "io_ok s"
  shows "post (tinfl_copy_slow n src) s (\<lambda>_ s'. onward s s' \<and> (n \<noteq> 0 \<longrightarrow> grown s s'))"
  using assms
proof (induction n arbitrary: src s)
  case 0
  then show ?case by (simp add: onward_refl)
next
  case (Suc n)
  have "post (co_bind (tinfl_copy_byte src) (\<lambda>_. tinfl_copy_slow n (src + 1))) s (\<lambda>_ s'. grown s s')"
  proof (rule post_seq [OF copy_byte_post [OF Suc.prems]])
    fix a s' assume g: "grown s s'"
    show "post (tinfl_copy_slow n (src + 1)) s' (\<lambda>_ s'. grown s s')"
      by (rule post_mono [OF Suc.IH [OF grown_ok [OF g]]]) (use grown_trans(1) [OF g] in blast)
  qed
  then have "post (tinfl_copy_slow (Suc n) src) s (\<lambda>_ s'. grown s s')"
    by simp (rule post_seq [OF room_post [OF Suc.prems]], simp)
  then show ?case by (rule post_mono) (simp add: grown_onward)
qed

lemma copy_8_post:
  assumes "io_ok s"
  shows "post (tinfl_copy_8 src src_end) s (\<lambda>_ s'. grown s s')"
  using assms
proof (induction src src_end arbitrary: s rule: tinfl_copy_8.induct)
  case (1 src src_end)
  have "post (co_bind (tinfl_copy_32 src) (\<lambda>_. co_bind (tinfl_copy_32 (src + 4)) (\<lambda>_.
     if src + 8 < src_end then tinfl_copy_8 (src + 8) src_end else co_ret (src + 8)))) s (\<lambda>_ s'. grown s s')"
  proof (rule post_seq [OF copy_32_post [OF "1.prems"]], rule post_seq [OF copy_32_post [OF grown_ok]], assumption)
    fix a b s1 s2 assume g: "grown s s1" "grown s1 s2"
    then have o: "grown s s2" using grown_trans(1) grown_onward by blast
    show "post (if src + 8 < src_end then tinfl_copy_8 (src + 8) src_end else co_ret (src + 8)) s2 (\<lambda>_ s'. grown s s')"
    proof (cases "src + 8 < src_end")
      case True
      have "post (tinfl_copy_8 (src + 8) src_end) s2 (\<lambda>_ s'. grown s s')"
        by (rule post_mono [OF "1.IH" [OF True grown_ok [OF o]]]) (use grown_trans(1) [OF o] grown_onward in blast)
      with True show ?thesis by simp
    qed (use o in simp)
  qed
  then show ?case by (subst tinfl_copy_8.simps)
qed

lemma copy_3_post:
  assumes "io_ok s"
  shows "post (tinfl_copy_3 counter src) s (\<lambda>_ s'. grown s s')"
  using assms
proof (induction counter src arbitrary: s rule: tinfl_copy_3.induct)
  case (1 counter src)
  have "post (co_bind (tinfl_copy_byte src) (\<lambda>_. co_bind (tinfl_copy_byte (src + 1)) (\<lambda>_. co_bind (tinfl_copy_byte (src + 2)) (\<lambda>_.
     if 2 < counter - 3 then tinfl_copy_3 (counter - 3) (src + 3) else co_ret (counter - 3, src + 3))))) s (\<lambda>_ s'. grown s s')"
  proof (rule post_seq [OF copy_byte_post [OF "1.prems"]], rule post_seq [OF copy_byte_post [OF grown_ok]], assumption,
      rule post_seq [OF copy_byte_post [OF grown_ok]], assumption)
    fix a b c s1 s2 s3 assume g: "grown s s1" "grown s1 s2" "grown s2 s3"
    then have o: "grown s s3" using grown_trans(1) grown_onward by blast
    show "post (if 2 < counter - 3 then tinfl_copy_3 (counter - 3) (src + 3) else co_ret (counter - 3, src + 3)) s3 (\<lambda>_ s'. grown s s')"
    proof (cases "2 < counter - 3")
      case True
      have "post (tinfl_copy_3 (counter - 3) (src + 3)) s3 (\<lambda>_ s'. grown s s')"
        by (rule post_mono [OF "1.IH" [OF True grown_ok [OF o]]]) (use grown_trans(1) [OF o] grown_onward in blast)
      with True show ?thesis by simp
    qed (use o in simp)
  qed
  then show ?case by (subst tinfl_copy_3.simps)
qed

lemma copy_tail_post:
  assumes "io_ok s"
  shows "post (tinfl_copy_tail counter src) s (\<lambda>_ s'. onward s s')"
proof -
  have "post (if 1 < counter then tinfl_copy_byte (src + 1) else co_ret ()) s1 (\<lambda>_ s'. onward s s')" if "grown s s1" for s1
  proof (cases "1 < counter")
    case True
    have "post (tinfl_copy_byte (src + 1)) s1 (\<lambda>_ s'. onward s s')"
      by (rule post_mono [OF copy_byte_post [OF grown_ok [OF that]]]) (use grown_trans(1) [OF that] grown_onward in blast)
    with True show ?thesis by simp
  qed (use grown_onward [OF that] in simp)
  then have "post (co_bind (tinfl_copy_byte src) (\<lambda>_. if 1 < counter then tinfl_copy_byte (src + 1) else co_ret ())) s (\<lambda>_ s'. onward s s')"
    by (rule post_seq [OF copy_byte_post [OF assms]])
  then show ?thesis using onward_refl [OF assms] by (simp add: tinfl_copy_tail_def)
qed

lemma copy_fast_post:
  assumes "io_ok s"
  shows "post (tinfl_copy_fast counter src) s (\<lambda>_ s'. grown s s')"
  unfolding tinfl_copy_fast_def
proof (rule post_seq [OF copy_3_post [OF assms]], clarify)
  fix c src s' assume g: "grown s s'"
  show "post (tinfl_copy_tail c src) s' (\<lambda>_ s'. grown s s')"
    by (rule post_mono [OF copy_tail_post [OF grown_ok [OF g]]]) (use grown_trans(1) [OF g] in blast)
qed

lemma copy_post:
  assumes ok: "io_ok s"
  shows "post (tinfl_copy counter dist) s (\<lambda>_ s'. grown s s')"
proof -
  let ?src = "length (pOut_buf s) - dist"
  consider "pOut_buf_end s < max (length (pOut_buf s)) ?src + counter"
    | "\<not> pOut_buf_end s < max (length (pOut_buf s)) ?src + counter" "9 \<le> counter \<and> counter \<le> dist"
    | "\<not> pOut_buf_end s < max (length (pOut_buf s)) ?src + counter" "\<not> (9 \<le> counter \<and> counter \<le> dist)" by blast
  then show ?thesis
  proof cases
    case 1
    then have "counter \<noteq> 0" using ok by (auto simp: io_ok_def)
    with copy_slow_post [OF ok, of counter ?src] have "post (tinfl_copy_slow counter ?src) s (\<lambda>_ s'. grown s s')"
      by (auto elim: post_mono)
    with 1 show ?thesis by (simp add: post_def tinfl_copy_def Let_def)
  next
    case 2
    have "post (co_bind (tinfl_copy_8 ?src (?src + (counter - counter mod 8))) (\<lambda>src.
           let counter = counter mod 8
           in if counter < 3 then tinfl_copy_tail (int counter) src else tinfl_copy_fast counter src)) s (\<lambda>_ s'. grown s s')"
    proof (rule post_seq [OF copy_8_post [OF ok]])
      fix src s' assume g: "grown s s'"
      note t = post_mono [OF copy_tail_post [OF grown_ok [OF g]]] and f = post_mono [OF copy_fast_post [OF grown_ok [OF g]]]
      show "post (let counter = counter mod 8
           in if counter < 3 then tinfl_copy_tail (int counter) src else tinfl_copy_fast counter src) s' (\<lambda>_ s'. grown s s')"
        using t [of "\<lambda>_ s'. grown s s'"] f [of "\<lambda>_ s'. grown s s'"] grown_trans(1) [OF g] grown_onward by (simp add: Let_def)
    qed
    with 2 show ?thesis by (simp add: post_def tinfl_copy_def Let_def)
  next
    case 3
    with copy_fast_post [OF ok, of counter ?src] show ?thesis by (auto simp: post_def tinfl_copy_def Let_def)
  qed
qed

lemma extra_post:
  assumes "io_ok s" and "n \<le> 16"
  shows "post (tinfl_extra n) s (\<lambda>_ s'. onward s s')"
proof (cases "n = 0")
  case True
  then show ?thesis using onward_refl [OF assms(1)] by (simp add: tinfl_extra_def)
next
  case False
  have "post (tinfl_get_bits n) s (\<lambda>_ s'. onward s s')"
    by (rule post_mono [OF get_bits_post [OF assms]]) (use takes_onward [OF assms(1)] in blast)
  with False show ?thesis by (simp add: tinfl_extra_def)
qed

lemma extra_small: "i < 31 \<Longrightarrow> s_length_extra ! i \<le> 16" "i < 32 \<Longrightarrow> s_dist_extra ! i \<le> 16"
proof -
  have "list_all (\<lambda>x. x \<le> 16) s_length_extra" "list_all (\<lambda>x. x \<le> 16) s_dist_extra"
    by (simp_all add: s_length_extra_def s_dist_extra_def)
  then show "i < 31 \<Longrightarrow> s_length_extra ! i \<le> 16" "i < 32 \<Longrightarrow> s_dist_extra ! i \<le> 16"
    by (auto simp: list_all_length s_length_extra_def s_dist_extra_def)
qed

lemma match_post:
  assumes t: "huff_table sizes t" and ok: "io_ok s"
  shows "post (tinfl_match t counter) s (\<lambda>_ s'. grown s s')"
proof (cases "length s_length_base \<le> counter - 257")
  case True
  then show ?thesis by (simp add: tinfl_match_def)
next
  case False
  then have small: "counter - 257 < 31" by (simp add: s_length_base_def)
  show ?thesis
    unfolding tinfl_match_def if_not_P [OF False]
  proof (rule post_seq [OF extra_post [OF ok extra_small(1) [OF small]]], unfold Let_def,
      rule post_seq [OF huff_decode_post [OF t onward_ok]], assumption)
    fix e s1 d s2 assume s1: "onward s s1" and "(\<exists>n. takes s1 n s2) \<and> (d = 0 \<or> huff_used sizes d)"
    then have s2: "onward s s2" using takes_onward [OF onward_ok [OF s1]] onward_trans [OF s1] by blast
    let ?n = "s_length_base ! (counter - 257) + e"
    show "post (if length s_dist_base \<le> d then co_crash Out_Of_Bounds else
      co_bind (tinfl_extra (s_dist_extra ! d)) (\<lambda>extra_bits.
      co_bind (co_gets (\<lambda>s. length (pOut_buf s))) (\<lambda>dist_from_out_buf_start.
      if dist_from_out_buf_start < s_dist_base ! d + extra_bits then co_exit 37 TINFL_STATUS_FAILED
      else tinfl_copy ?n (s_dist_base ! d + extra_bits)))) s2 (\<lambda>_ s'. grown s s')"
    proof (cases "length s_dist_base \<le> d")
      case False
      then have "d < 32" by (simp add: s_dist_base_def)
      show ?thesis
        unfolding if_not_P [OF False]
      proof (rule post_seq [OF extra_post [OF onward_ok [OF s2] extra_small(2) [OF \<open>d < 32\<close>]]], rule post_bind)
        fix x s3 assume "onward s2 s3"
        then have s3: "onward s s3" using onward_trans [OF s2] by blast
        have "post (tinfl_copy ?n (s_dist_base ! d + x)) s3 (\<lambda>_ s'. grown s s')"
          by (rule post_mono [OF copy_post [OF onward_ok [OF s3]]]) (use grown_trans(2) [OF s3] in blast)
        then show "post (co_gets (\<lambda>s. length (pOut_buf s))) s3 (\<lambda>a s'. post (if a < s_dist_base ! d + x
            then co_exit 37 TINFL_STATUS_FAILED else tinfl_copy ?n (s_dist_base ! d + x)) s' (\<lambda>_ s'. grown s s'))"
          by simp
      qed
    qed simp
  qed
qed

lemma codes_post:
  assumes t: "huff_table lit t0" "huff_table dist t1" and ok: "io_ok s" and fuel: "pOut_buf_end s - length (pOut_buf s) < fuel"
  shows "post (tinfl_codes fuel t0 t1) s (\<lambda>_ s'. onward s s')"
  using ok fuel
proof (induction fuel arbitrary: s)
  case (Suc fuel)
  have "post (\<lambda>s. tinfl_literals (pOut_buf_end s - length (pOut_buf s) + 2) t0 s) s (\<lambda>v s'. onward s s' \<and> lit_end v)"
    using literals_post [OF t(1) Suc.prems(1), of "pOut_buf_end s - length (pOut_buf s) + 2"] by (simp add: post_def del: tinfl_literals.simps)
  then show ?case
    unfolding tinfl_codes.simps
  proof (rule post_seq, unfold Let_def)
    fix v s1 assume v: "onward s s1 \<and> lit_end v"
    have "post (co_bind (tinfl_match t1 (v AND 511)) (\<lambda>_. tinfl_codes fuel t0 t1)) s1 (\<lambda>_ s'. onward s s')"
    proof (rule post_seq [OF match_post [OF t(2)]])
      show "io_ok s1" using v onward_ok by blast
      fix a s2 assume "grown s1 s2"
      then have g: "grown s s2" using v grown_trans(2) by blast
      have "pOut_buf_end s2 - length (pOut_buf s2) < fuel"
        using g Suc.prems(2) onward_room [OF grown_onward [OF g]] unfolding grown_def by linarith
      then show "post (tinfl_codes fuel t0 t1) s2 (\<lambda>_ s'. onward s s')"
        using onward_trans [OF grown_onward [OF g]] by (intro post_mono [OF Suc.IH [OF grown_ok [OF g]]])
    qed
    with v show "post (if v AND 511 = 256 then co_ret () else
        co_bind (tinfl_match t1 (v AND 511)) (\<lambda>_. tinfl_codes fuel t0 t1)) s1 (\<lambda>_ s'. onward s s')"
      by simp
  qed
qed simp

section \<open>Stored blocks\<close>

lemma stored_bits_post:
  assumes "io_ok s"
  shows "post (tinfl_stored_bits n) s (\<lambda>n' s'. onward s s' \<and> (n' = 0 \<or> num_bits s' = 0))"
  using assms
proof (induction n arbitrary: s)
  case 0
  then show ?case by (simp add: onward_refl)
next
  case (Suc n)
  have "post (co_bind (tinfl_get_bits 8) (\<lambda>dist. co_bind (tinfl_room 52) (\<lambda>_.
      co_bind (tinfl_put_byte (of_nat dist)) (\<lambda>_. tinfl_stored_bits n)))) s (\<lambda>n' s'. onward s s' \<and> (n' = 0 \<or> num_bits s' = 0))"
  proof (rule post_seq [OF get_bits_post [OF Suc.prems]], simp, rule post_seq [OF room_post])
    fix v s1 assume s1: "takes s 8 s1 \<and> v = bits_val (peek 8 s) \<and> v < 2 ^ 8"
    then show ok1: "io_ok s1" using takes_ok [OF Suc.prems] by blast
    fix a s1' assume "s1' = s1"
    moreover have "post (co_bind (tinfl_put_byte (of_nat v)) (\<lambda>_. tinfl_stored_bits n)) s1 (\<lambda>n' s'. onward s s' \<and> (n' = 0 \<or> num_bits s' = 0))"
    proof (rule post_seq [OF put_byte_post [OF ok1]])
      fix a s2 assume "onward s1 s2 \<and> length (pOut_buf s2) = length (pOut_buf s1) + 1"
      then have o: "onward s s2" using onward_trans takes_onward [OF Suc.prems] s1 by blast
      show "post (tinfl_stored_bits n) s2 (\<lambda>n' s'. onward s s' \<and> (n' = 0 \<or> num_bits s' = 0))"
        by (rule post_mono [OF Suc.IH [OF onward_ok [OF o]]]) (use onward_trans [OF o] in auto)
    qed
    ultimately show "post (co_bind (tinfl_put_byte (of_nat v)) (\<lambda>_. tinfl_stored_bits n)) s1' (\<lambda>n' s'. onward s s' \<and> (n' = 0 \<or> num_bits s' = 0))"
      by simp
  qed
  then show ?case using onward_refl [OF Suc.prems] by (simp add: post_def)
qed

lemma stream_bits_drop: "n \<le> length xs \<Longrightarrow> stream_bits (drop n xs) = drop (8 * n) (stream_bits xs)"
  by (metis append_eq_conv_conj append_take_drop_id length_stream_bits length_take min.absorb2 stream_bits_simps(3))

lemma stored_copy_post:
  assumes "io_ok s" and "counter = 0 \<or> num_bits s = 0"
  shows "post (tinfl_stored_copy counter) s (\<lambda>_ s'. onward s s')"
  using assms
proof (induction counter s rule: tinfl_stored_copy.induct)
  case (1 counter s)
  show ?case
  proof (cases "counter = 0 \<or> pOut_buf_end s \<le> length (pOut_buf s) \<or> length (pIn_buf s) \<le> pIn_buf_cur s")
    case True
    then show ?thesis using onward_refl [OF "1.prems"(1)] by (subst post_def, subst tinfl_stored_copy.simps) auto
  next
    case False
    let ?n = "min (min (pOut_buf_end s - length (pOut_buf s)) (length (pIn_buf s) - pIn_buf_cur s)) counter"
    let ?s = "s\<lparr>pOut_buf := pOut_buf s @ take ?n (drop (pIn_buf_cur s) (pIn_buf s)), pIn_buf_cur := pIn_buf_cur s + ?n\<rparr>"
    have nb: "num_bits s = 0" using "1.prems"(2) False by blast
    have ok: "io_ok ?s" using "1.prems"(1) False by (auto simp: io_ok_def bb_ok_def)
    have "takes (s\<lparr>pOut_buf := pOut_buf ?s\<rparr>) (8 * ?n) ?s" 
    proof -
      have "stream_bits (drop (pIn_buf_cur s + ?n) (pIn_buf s)) = drop (8 * ?n) (stream_bits (drop (pIn_buf_cur s) (pIn_buf s)))"
        using stream_bits_drop [of ?n "drop (pIn_buf_cur s) (pIn_buf s)"] by (simp add: add.commute)
      then show ?thesis using ok nb False unfolding takes_def by (intro conjI exI [of _ 0]) (auto simp: todo_def io_ok_def keeps_def)
    qed
    from takes_left_bits [OF this] have "onward s ?s" using ok by (auto simp: onward_def fixed_def)
    have "post (tinfl_stored_copy (counter - ?n)) ?s (\<lambda>_ s'. onward s s')"
      using "1.IH" [OF _ _ _ refl] False ok nb onward_trans [OF \<open>onward s ?s\<close>] by (auto elim!: post_mono)
    with False show ?thesis by (subst post_def, subst tinfl_stored_copy.simps) (simp add: post_def Let_def)
  qed
qed

text \<open>Where no 1 is left in the input, the two lengths of the block are 0 and not complements.\<close>

lemma raw_byte_zero:
  assumes "io_ok s" and "takes s0 k s"
  shows "post tinfl_raw_byte s (\<lambda>v s'. takes s0 (k + 8) s' \<and> io_ok s' \<and> (left_bits s0 = 0 \<longrightarrow> v = 0))"
  by (rule post_mono [OF raw_byte_post [OF assms(1)]])
    (use takes_left_bits [OF assms(2)] takes_trans [OF assms(2)] takes_ok [OF assms(1)] left_bits_0_peek [of s] in auto)

lemma raw_4_post:
  assumes "io_ok s"
    and f: "\<And>h0 h1 h2 h3 s'. takes s 32 s' \<Longrightarrow> left_bits s = 0 \<longrightarrow> h0 = 0 \<and> h1 = 0 \<and> h2 = 0 \<and> h3 = 0 \<Longrightarrow>
      post (f h0 h1 h2 h3) s' Q"
  shows "post (co_bind tinfl_raw_byte (\<lambda>h0. co_bind tinfl_raw_byte (\<lambda>h1. co_bind tinfl_raw_byte (\<lambda>h2.
    co_bind tinfl_raw_byte (\<lambda>h3. f h0 h1 h2 h3))))) s Q"
proof -
  have "takes s 0 s" using takes_refl assms(1) by (simp add: io_ok_def)
  then show ?thesis
    by (intro post_seq [OF raw_byte_zero [of _ s 0]] post_seq [OF raw_byte_zero [of _ s 8]]
        post_seq [OF raw_byte_zero [of _ s 16]] post_seq [OF raw_byte_zero [of _ s 24]] f) (use assms(1) in auto)
qed

lemma stored_data_post:
  assumes "io_ok s"
  shows "post (co_bind (tinfl_stored_bits counter) tinfl_stored_copy) s (\<lambda>_ s'. onward s s')"
proof (rule post_seq [OF stored_bits_post [OF assms]])
  fix m :: nat and s1 assume o: "onward s s1 \<and> (m = 0 \<or> num_bits s1 = 0)"
  then have "io_ok s1" "m = 0 \<or> num_bits s1 = 0" by (auto dest: onward_ok)
  from stored_copy_post [OF this] show "post (tinfl_stored_copy m) s1 (\<lambda>_ s'. onward s s')"
    by (rule post_mono) (use o onward_trans in blast)
qed

lemma stored_post:
  assumes ok: "io_ok s"
  shows "post tinfl_stored s (\<lambda>_ s'. onward s s' \<and> left_bits s' < left_bits s)"
  unfolding tinfl_stored_def
proof (rule post_seq [OF skip_bits_post [OF ok]])
  fix u s0 assume "\<exists>n. takes s n s0"
  then obtain n where s0: "takes s n s0" by blast
  show "post (co_bind tinfl_raw_byte (\<lambda>h0. co_bind tinfl_raw_byte (\<lambda>h1. co_bind tinfl_raw_byte (\<lambda>h2. co_bind tinfl_raw_byte (\<lambda>h3.
     let counter = h0 OR push_bit 8 h1
     in if counter \<noteq> 65535 XOR (h2 OR push_bit 8 h3) then co_exit 39 TINFL_STATUS_FAILED else
     co_bind (tinfl_stored_bits counter) tinfl_stored_copy))))) s0 (\<lambda>_ s'. onward s s' \<and> left_bits s' < left_bits s)"
  proof (rule raw_4_post [OF takes_ok [OF ok s0]])
    fix h0 h1 h2 h3 :: nat and s4 assume 4: "takes s0 32 s4" and zero: "left_bits s0 = 0 \<longrightarrow> h0 = 0 \<and> h1 = 0 \<and> h2 = 0 \<and> h3 = 0"
    have o: "onward s s4" using takes_onward [OF ok takes_trans [OF s0 4]] .
    have left: "left_bits s4 < left_bits s" if "left_bits s0 \<noteq> 0"
      using that takes_left_bits [OF s0] takes_left_bits [OF 4] by simp
    have "post (co_bind (tinfl_stored_bits (h0 OR push_bit 8 h1)) tinfl_stored_copy) s4 (\<lambda>_ s'. onward s s' \<and> left_bits s' < left_bits s)"
      if "left_bits s0 \<noteq> 0"
      by (rule post_mono [OF stored_data_post [OF onward_ok [OF o]]])
        (use left [OF that] onward_trans [OF o] in \<open>auto simp: onward_def\<close>)
    then show "post (let counter = h0 OR push_bit 8 h1
       in if counter \<noteq> 65535 XOR (h2 OR push_bit 8 h3) then co_exit 39 TINFL_STATUS_FAILED else
       co_bind (tinfl_stored_bits counter) tinfl_stored_copy) s4 (\<lambda>_ s'. onward s s' \<and> left_bits s' < left_bits s)"
      using zero by (auto simp: Let_def)
  qed
qed

section \<open>The tables of a block\<close>

lemma build_table_post:
  assumes "length sizes \<le> 288" and "\<forall>c \<in> set sizes. c < 16"
  shows "post (co_lift (tinfl_build_table sizes)) s (\<lambda>t s'. huff_table sizes t \<and> s' = s)"
proof (cases "huff_ok sizes")
  case True
  obtain t where "tinfl_build_table sizes = Go t" "huff_table sizes t" using tinfl_build_table_ok [OF True] .
  then show ?thesis by (simp add: post_def co_lift_def)
next
  case False
  with tinfl_build_table_rejects assms show ?thesis by (simp add: post_def co_lift_def)
qed

lemma code_len_sizes_post:
  assumes "io_ok s" and "length sizes = 19" and "\<forall>c \<in> set sizes. c < 16"
  shows "post (tinfl_code_len_sizes n i sizes) s (\<lambda>sizes' s'. onward s s' \<and> length sizes' = 19 \<and> (\<forall>c \<in> set sizes'. c < 16))"
  using assms
proof (induction n arbitrary: i sizes s)
  case 0
  then show ?case by (simp add: onward_refl)
next
  case (Suc n)
  show ?case
    unfolding tinfl_code_len_sizes.simps
  proof (rule post_seq [OF get_bits_post [OF Suc.prems(1)]], simp)
    fix v s1 assume v: "takes s 3 s1 \<and> v = bits_val (peek 3 s) \<and> v < 2 ^ 3"
    then have o: "onward s s1" using takes_onward [OF Suc.prems(1)] by blast
    have "\<forall>c \<in> set (sizes[s_length_dezigzag ! i := v]). c < 16"
      using v Suc.prems(3) set_update_subset_insert [of sizes "s_length_dezigzag ! i" v] by fastforce
    moreover have "length (sizes[s_length_dezigzag ! i := v]) = 19" using Suc.prems(2) by simp
    ultimately show "post (tinfl_code_len_sizes n (i + 1) (sizes[s_length_dezigzag ! i := v])) s1
        (\<lambda>sizes' s'. onward s s' \<and> length sizes' = 19 \<and> (\<forall>c \<in> set sizes'. c < 16))"
      using onward_trans [OF o] by (intro post_mono [OF Suc.IH [OF onward_ok [OF o]]]) auto
  qed
qed

text \<open>The code lengths of a block: every turn adds one at least, and the array takes the longest run that can
  start below its 320 elements.\<close>

lemma repeat_bits_small:
  "d < 19 \<Longrightarrow> 16 \<le> d \<Longrightarrow> [2, 3, 7] ! (d - 16) \<le> (16 :: nat)"
  "d < 19 \<Longrightarrow> 16 \<le> d \<Longrightarrow> v < 2 ^ ([2, 3, 7] ! (d - 16)) \<Longrightarrow> 0 < v + [3, 3, 11] ! (d - 16) \<and> v + [3, 3, 11] ! (d - 16) \<le> (138 :: nat)"
proof -
  have d: "d = 16 \<or> d = 17 \<or> d = 18" if "d < 19" "16 \<le> d" using that by linarith
  show "d < 19 \<Longrightarrow> 16 \<le> d \<Longrightarrow> [2, 3, 7] ! (d - 16) \<le> (16 :: nat)" using d by auto
  show "d < 19 \<Longrightarrow> 16 \<le> d \<Longrightarrow> v < 2 ^ ([2, 3, 7] ! (d - 16)) \<Longrightarrow> 0 < v + [3, 3, 11] ! (d - 16) \<and> v + [3, 3, 11] ! (d - 16) \<le> (138 :: nat)"
    using d by auto
qed

lemma len_codes_post:
  assumes t: "huff_table clen t" "length clen = 19" and ok: "io_ok s" and lens: "\<forall>c \<in> set lens. c < 16"
    and n: "n \<le> 320" and fuel: "n - length lens \<le> fuel"
  shows "post (tinfl_len_codes fuel t n lens) s (\<lambda>lens' s'. onward s s' \<and> (\<forall>c \<in> set lens'. c < 16))"
  using ok lens fuel
proof (induction fuel arbitrary: lens s)
  case 0
  then show ?case by (subst tinfl_len_codes.simps) (simp add: onward_refl)
next
  case (Suc fuel)
  let ?Q = "\<lambda>lens' s'. onward s s' \<and> (\<forall>c \<in> set lens'. c < 16)"
  show ?case
  proof (cases "n \<le> length lens")
    case True
    then show ?thesis using Suc.prems by (subst tinfl_len_codes.simps) (simp add: onward_refl)
  next
    case False
    have add: "post (co_bind (tinfl_len_codes_add lens k v) (tinfl_len_codes fuel t n)) s1 ?Q"
      if k: "0 < k" "k \<le> 138" and v: "v < 16" and o: "onward s s1" for k v s1
    proof -
      have "\<not> 457 < length lens + k" using False n k(2) by linarith
      moreover have "\<forall>c \<in> set (lens @ replicate k v). c < 16" using Suc.prems(2) v by auto
      moreover have "n - length (lens @ replicate k v) \<le> fuel" using Suc.prems(3) k(1) by simp
      moreover note Suc.IH [OF onward_ok [OF o], of "lens @ replicate k v"]
      ultimately show ?thesis
        using onward_trans [OF o] by (intro post_bind) (auto simp: tinfl_len_codes_add_def elim!: post_mono)
    qed
    have "post (co_bind (tinfl_huff_decode t) (\<lambda>dist.
      if dist < 16 then co_bind (tinfl_len_codes_add lens 1 dist) (tinfl_len_codes fuel t n)
      else if dist = 16 \<and> lens = [] then co_exit 17 TINFL_STATUS_FAILED
      else if 18 < dist then co_crash Out_Of_Bounds
      else co_bind (tinfl_get_bits ([2, 3, 7] ! (dist - 16))) (\<lambda>s.
      co_bind (tinfl_len_codes_add lens (s + [3, 3, 11] ! (dist - 16)) (if dist = 16 then last lens else 0))
        (tinfl_len_codes fuel t n)))) s ?Q"
    proof (rule post_seq [OF huff_decode_post [OF t(1) Suc.prems(1)]])
      fix d s1 assume d: "(\<exists>n. takes s n s1) \<and> (d = 0 \<or> huff_used clen d)"
      then have o: "onward s s1" using takes_onward [OF Suc.prems(1)] by blast
      have d19: "d < 19" using d t(2) by (auto simp: huff_used_def)
      have "post (co_bind (tinfl_get_bits ([2, 3, 7] ! (d - 16))) (\<lambda>s.
          co_bind (tinfl_len_codes_add lens (s + [3, 3, 11] ! (d - 16)) (if d = 16 then last lens else 0))
            (tinfl_len_codes fuel t n))) s1 ?Q" if "16 \<le> d" "d \<noteq> 16 \<or> lens \<noteq> []"
      proof (rule post_seq [OF get_bits_post [OF onward_ok [OF o] repeat_bits_small(1) [OF d19 that(1)]]])
        fix v s2 assume v: "takes s1 ([2, 3, 7] ! (d - 16)) s2 \<and> v = bits_val (peek ([2, 3, 7] ! (d - 16)) s1) \<and> v < 2 ^ ([2, 3, 7] ! (d - 16))"
        then have "onward s s2" using takes_onward [OF onward_ok [OF o]] onward_trans [OF o] by blast
        moreover have "(if d = 16 then last lens else 0) < 16" using that(2) Suc.prems(2) by auto
        ultimately show "post (co_bind (tinfl_len_codes_add lens (v + [3, 3, 11] ! (d - 16)) (if d = 16 then last lens else 0))
            (tinfl_len_codes fuel t n)) s2 ?Q"
          using repeat_bits_small(2) [OF d19 that(1), of v] v by (intro add) auto
      qed
      then show "post (if d < 16 then co_bind (tinfl_len_codes_add lens 1 d) (tinfl_len_codes fuel t n)
          else if d = 16 \<and> lens = [] then co_exit 17 TINFL_STATUS_FAILED
          else if 18 < d then co_crash Out_Of_Bounds
          else co_bind (tinfl_get_bits ([2, 3, 7] ! (d - 16))) (\<lambda>s.
            co_bind (tinfl_len_codes_add lens (s + [3, 3, 11] ! (d - 16)) (if d = 16 then last lens else 0))
              (tinfl_len_codes fuel t n))) s1 ?Q"
        using add [of 1 d, OF _ _ _ o] by auto
    qed
    with False show ?thesis by (subst tinfl_len_codes.simps) simp
  qed
qed

text \<open>The lists of lengths both tables of a block are built from.\<close>

definition sizes_ok :: "nat list \<times> nat list \<Rightarrow> bool" where
  "sizes_ok = (\<lambda>(sizes0, sizes1). length sizes0 \<le> 288 \<and> length sizes1 \<le> 288 \<and>
     (\<forall>c \<in> set sizes0. c < 16) \<and> (\<forall>c \<in> set sizes1. c < 16))"

lemma dynamic_lens_post:
  assumes ok: "io_ok s" and n: "n0 < 32" "n1 < 32"
  shows "post (co_bind (tinfl_code_len_sizes n2 0 (replicate 19 0)) (\<lambda>sizes.
     co_bind (co_lift (tinfl_build_table sizes)) (\<lambda>t2.
     co_bind (tinfl_len_codes (n0 + 257 + (n1 + 1)) t2 (n0 + 257 + (n1 + 1)) []) (\<lambda>lens.
     if length lens \<noteq> n0 + 257 + (n1 + 1) then co_exit 21 TINFL_STATUS_FAILED
     else co_ret (take (n0 + 257) lens, drop (n0 + 257) lens))))) s (\<lambda>r s'. onward s s' \<and> sizes_ok r)"
proof (rule post_seq [OF code_len_sizes_post [OF ok]], simp, simp)
  let ?n = "n0 + 257 + (n1 + 1)"
  fix sizes :: "nat list" and s1 assume 1: "onward s s1 \<and> length sizes = 19 \<and> (\<forall>c \<in> set sizes. c < 16)"
  then have "length sizes \<le> 288" "\<forall>c \<in> set sizes. c < 16" by simp_all
  then show "post (co_bind (co_lift (tinfl_build_table sizes)) (\<lambda>t2. co_bind (tinfl_len_codes ?n t2 ?n []) (\<lambda>lens.
     if length lens \<noteq> ?n then co_exit 21 TINFL_STATUS_FAILED
     else co_ret (take (n0 + 257) lens, drop (n0 + 257) lens)))) s1 (\<lambda>r s'. onward s s' \<and> sizes_ok r)"
  proof (rule post_seq [OF build_table_post])
    fix t s2 assume t: "huff_table sizes t \<and> s2 = s1"
    have lens: "post (tinfl_len_codes ?n t ?n []) s2 (\<lambda>lens' s'. onward s2 s' \<and> (\<forall>c \<in> set lens'. c < 16))"
      using t 1 n onward_ok by (intro len_codes_post) auto
    show "post (co_bind (tinfl_len_codes ?n t ?n []) (\<lambda>lens.
       if length lens \<noteq> ?n then co_exit 21 TINFL_STATUS_FAILED
       else co_ret (take (n0 + 257) lens, drop (n0 + 257) lens))) s2 (\<lambda>r s'. onward s s' \<and> sizes_ok r)"
    proof (rule post_seq [OF lens])
      fix lens :: "nat list" and s3 assume 3: "onward s2 s3 \<and> (\<forall>c \<in> set lens. c < 16)"
      then have "onward s s3" using 1 t onward_trans by blast
      with 3 n show "post (if length lens \<noteq> ?n then co_exit 21 TINFL_STATUS_FAILED
         else co_ret (take (n0 + 257) lens, drop (n0 + 257) lens)) s3 (\<lambda>r s'. onward s s' \<and> sizes_ok r)"
        by (auto simp: sizes_ok_def dest: in_set_takeD in_set_dropD)
    qed
  qed
qed

lemma dynamic_sizes_post:
  assumes ok: "io_ok s"
  shows "post tinfl_dynamic_sizes s (\<lambda>r s'. onward s s' \<and> sizes_ok r)"
  unfolding tinfl_dynamic_sizes_def Let_def
proof (rule post_seq [OF get_bits_post [OF ok]], simp)
  fix n0 s1 assume 1: "takes s 5 s1 \<and> n0 = bits_val (peek 5 s) \<and> n0 < 2 ^ 5"
  note ok1 = takes_ok [OF ok, of 5 s1]
  show "post (co_bind (tinfl_get_bits 5) (\<lambda>n1. co_bind (tinfl_get_bits 4) (\<lambda>n2.
     co_bind (tinfl_code_len_sizes (n2 + 4) 0 (replicate 19 0)) (\<lambda>sizes.
     co_bind (co_lift (tinfl_build_table sizes)) (\<lambda>t2.
     co_bind (tinfl_len_codes (n0 + 257 + (n1 + 1)) t2 (n0 + 257 + (n1 + 1)) []) (\<lambda>lens.
     if length lens \<noteq> n0 + 257 + (n1 + 1) then co_exit 21 TINFL_STATUS_FAILED
     else co_ret (take (n0 + 257) lens, drop (n0 + 257) lens))))))) s1 (\<lambda>r s'. onward s s' \<and> sizes_ok r)"
  proof (rule post_seq [OF get_bits_post [OF ok1]], use 1 in blast, simp, rule post_seq [OF get_bits_post])
    fix n1 s2 assume 2: "takes s1 5 s2 \<and> n1 = bits_val (peek 5 s1) \<and> n1 < 2 ^ 5"
    then show ok2: "io_ok s2" using takes_ok ok1 1 by blast
    fix n2 s3 assume 3: "takes s2 4 s3 \<and> n2 = bits_val (peek 4 s2) \<and> n2 < 2 ^ 4"
    have o: "onward s s3" using 1 2 3 takes_trans takes_onward [OF ok] by blast
    have "n0 < 32" "n1 < 32" using 1 2 by simp_all
    from dynamic_lens_post [OF onward_ok [OF o] this, of "n2 + 4"]
    show "post (co_bind (tinfl_code_len_sizes (n2 + 4) 0 (replicate 19 0)) (\<lambda>sizes.
     co_bind (co_lift (tinfl_build_table sizes)) (\<lambda>t2.
     co_bind (tinfl_len_codes (n0 + 257 + (n1 + 1)) t2 (n0 + 257 + (n1 + 1)) []) (\<lambda>lens.
     if length lens \<noteq> n0 + 257 + (n1 + 1) then co_exit 21 TINFL_STATUS_FAILED
     else co_ret (take (n0 + 257) lens, drop (n0 + 257) lens))))) s3 (\<lambda>r s'. onward s s' \<and> sizes_ok r)"
      by (rule post_mono) (use onward_trans [OF o] in blast)
  qed simp
qed

section \<open>Blocks\<close>

lemma fixed_sizes_ok: "sizes_ok tinfl_fixed_sizes"
  by (auto simp: sizes_ok_def tinfl_fixed_sizes_def)

lemma huff_block_post:
  assumes ok: "io_ok s"
  shows "post (tinfl_huff_block ty) s (\<lambda>_ s'. onward s s')"
proof -
  have sizes: "post (if ty = 1 then co_ret tinfl_fixed_sizes else tinfl_dynamic_sizes) s (\<lambda>r s'. onward s s' \<and> sizes_ok r)"
    using dynamic_sizes_post [OF ok] fixed_sizes_ok onward_refl [OF ok] by simp
  show ?thesis
    unfolding tinfl_huff_block_def
  proof (rule post_seq [OF sizes], clarify)
    fix sizes0 sizes1 s1 assume 1: "onward s s1" and "sizes_ok (sizes0, sizes1)"
    then have ok0: "length sizes0 \<le> 288" "\<forall>c \<in> set sizes0. c < 16" and ok1: "length sizes1 \<le> 288" "\<forall>c \<in> set sizes1. c < 16"
      by (simp_all add: sizes_ok_def)
    show "post (co_bind (co_lift (tinfl_build_table sizes1)) (\<lambda>t1. co_bind (co_lift (tinfl_build_table sizes0)) (\<lambda>t0.
     \<lambda>s. tinfl_codes (pOut_buf_end s - length (pOut_buf s) + 2) t0 t1 s))) s1 (\<lambda>_ s'. onward s s')"
    proof (rule post_seq [OF build_table_post [OF ok1]], rule post_seq [OF build_table_post [OF ok0]])
      fix t1 s2 t0 s3 assume t: "huff_table sizes1 t1 \<and> s2 = s1" "huff_table sizes0 t0 \<and> s3 = s2"
      have "post (tinfl_codes (pOut_buf_end s1 - length (pOut_buf s1) + 2) t0 t1) s1 (\<lambda>_ s'. onward s s')"
        using t by (intro post_mono [OF codes_post [OF _ _ onward_ok [OF 1]]] onward_trans [OF 1]) auto
      with t show "post (\<lambda>s. tinfl_codes (pOut_buf_end s - length (pOut_buf s) + 2) t0 t1 s) s3 (\<lambda>_ s'. onward s s')"
        by (simp add: post_def del: tinfl_codes.simps)
    qed
  qed
qed

lemma block_post:
  assumes "io_ok s"
  shows "post (tinfl_block ty) s (\<lambda>_ s'. onward s s' \<and> (ty = 0 \<longrightarrow> left_bits s' < left_bits s))"
  using stored_post [OF assms] huff_block_post [OF assms, of ty] by (simp add: tinfl_block_def)

lemma blocks_post:
  assumes "io_ok s" and "left_bits s < fuel"
  shows "post (tinfl_blocks fuel) s (\<lambda>_ s'. onward s s')"
  using assms
proof (induction fuel arbitrary: s)
  case (Suc fuel)
  show ?case
    unfolding tinfl_blocks.simps Let_def
  proof (rule post_seq [OF get_bits_post [OF Suc.prems(1)]], simp)
    fix v s1 assume v: "takes s 3 s1 \<and> v = bits_val (peek 3 s) \<and> v < 2 ^ 3"
    then have o1: "onward s s1" and l1: "left_bits s1 = left_bits s - 3"
      using takes_onward [OF Suc.prems(1)] takes_left_bits by blast+
    show "post (co_bind (tinfl_block (drop_bit 1 v)) (\<lambda>_. if v AND 1 \<noteq> 0 then co_ret () else tinfl_blocks fuel)) s1 (\<lambda>_ s'. onward s s')"
    proof (rule post_seq [OF block_post [OF onward_ok [OF o1]]])
      fix a s2 assume 2: "onward s1 s2 \<and> (drop_bit 1 v = 0 \<longrightarrow> left_bits s2 < left_bits s1)"
      then have o2: "onward s s2" using onward_trans [OF o1] by blast
      have "v \<noteq> 0 \<longrightarrow> 0 < left_bits s" using v left_bits_0_peek by fastforce
      then have "left_bits s2 < fuel" using 2 l1 Suc.prems(2) by (auto simp: onward_def)
      from Suc.IH [OF onward_ok [OF o2] this] o2 show "post (if v AND 1 \<noteq> 0 then co_ret () else tinfl_blocks fuel) s2 (\<lambda>_ s'. onward s s')"
        using onward_trans [OF o2] by (auto elim: post_mono)
    qed
  qed
qed simp

section \<open>The call\<close>

lemma zlib_trailer_post:
  assumes "io_ok s"
  shows "post (tinfl_zlib_trailer n a) s (\<lambda>_ s'. onward s s')"
  using assms
proof (induction n arbitrary: a s)
  case 0
  then show ?case by (simp add: onward_refl)
next
  case (Suc n)
  show ?case
    unfolding tinfl_zlib_trailer.simps
  proof (rule post_seq [OF raw_byte_post [OF Suc.prems]])
    fix v s1 assume "takes s 8 s1 \<and> v = bits_val (peek 8 s)"
    then have o: "onward s s1" using takes_onward [OF Suc.prems] by blast
    show "post (tinfl_zlib_trailer n (push_bit 8 a OR of_nat v)) s1 (\<lambda>_ s'. onward s s')"
      by (rule post_mono [OF Suc.IH [OF onward_ok [OF o]]]) (rule onward_trans [OF o])
  qed
qed

lemma zlib_header_post:
  assumes "w = 32 \<or> w = 64"
  shows "post tinfl_zlib_header (tinfl_init w inp cap) (\<lambda>_ s'. io_ok s' \<and> num_bits s' = 0 \<and> pIn_buf s' = inp \<and> pOut_buf_end s' = cap)"
proof -
  consider "inp = []" | a where "inp = [a]" | a b rs where "inp = a # b # rs" by (metis list.exhaust)
  then show ?thesis
    by cases (use assms in \<open>auto simp: post_def tinfl_zlib_header_def tinfl_get_byte_def tinfl_init_def io_ok_def bb_ok_def Let_def\<close>)
qed

lemma left_bits_length: "left_bits s \<le> length (todo s)"
  unfolding left_bits_def using length_dropWhile_le [of Not "rev (todo s)"] by simp

lemma stream_post:
  assumes "w = 32 \<or> w = 64"
  shows "post (tinfl_stream zlib) (tinfl_init w inp cap) (\<lambda>_ s'. io_ok s' \<and> pOut_buf_end s' = cap)"
proof -
  have "post (if zlib then tinfl_zlib_header else co_ret ()) (tinfl_init w inp cap)
      (\<lambda>_ s'. io_ok s' \<and> num_bits s' = 0 \<and> pIn_buf s' = inp \<and> pOut_buf_end s' = cap)"
    using zlib_header_post [OF assms] assms by (simp, auto simp: tinfl_init_def io_ok_def bb_ok_def)
  then show ?thesis
    unfolding tinfl_stream_def
  proof (rule post_seq)
    fix a s1 assume 1: "io_ok s1 \<and> num_bits s1 = 0 \<and> pIn_buf s1 = inp \<and> pOut_buf_end s1 = cap"
    then have ok1: "io_ok s1" and "length (todo s1) \<le> 8 * length (pIn_buf s1)" by (simp_all add: todo_def)
    then have "left_bits s1 < 8 * length (pIn_buf s1) + 2" using left_bits_length [of s1] by linarith
    from blocks_post [OF ok1 this] have b: "post (\<lambda>s. tinfl_blocks (8 * length (pIn_buf s) + 2) s) s1 (\<lambda>_ s'. onward s1 s')"
      by (simp add: post_def del: tinfl_blocks.simps)
    show "post (co_bind (\<lambda>s. tinfl_blocks (8 * length (pIn_buf s) + 2) s) (\<lambda>_.
     if zlib then co_bind (\<lambda>s. tinfl_skip_bits (num_bits s AND 7) s) (\<lambda>_. tinfl_zlib_trailer 4 1)
     else co_ret 1)) s1 (\<lambda>_ s'. io_ok s' \<and> pOut_buf_end s' = cap)"
    proof (rule post_seq [OF b])
      fix a s2 assume 2: "onward s1 s2"
      have "post (co_bind (\<lambda>s. tinfl_skip_bits (num_bits s AND 7) s) (\<lambda>_. tinfl_zlib_trailer 4 1)) s2 (\<lambda>_ s'. onward s1 s')"
      proof (rule post_seq [OF skip_bits_post [OF onward_ok [OF 2]]])
        fix a s3 assume "\<exists>n. takes s2 n s3"
        then have o: "onward s1 s3" using onward_trans [OF 2] takes_onward [OF onward_ok [OF 2]] by blast
        show "post (tinfl_zlib_trailer 4 1) s3 (\<lambda>_ s'. onward s1 s')"
          by (rule post_mono [OF zlib_trailer_post [OF onward_ok [OF o]]]) (rule onward_trans [OF o])
      qed
      then have "post (if zlib then co_bind (\<lambda>s. tinfl_skip_bits (num_bits s AND 7) s) (\<lambda>_. tinfl_zlib_trailer 4 1)
          else co_ret 1) s2 (\<lambda>_ s'. onward s1 s')" using 2 by simp
      then show "post (if zlib then co_bind (\<lambda>s. tinfl_skip_bits (num_bits s AND 7) s) (\<lambda>_. tinfl_zlib_trailer 4 1)
          else co_ret 1) s2 (\<lambda>_ s'. io_ok s' \<and> pOut_buf_end s' = cap)"
        by (rule post_mono) (use 1 in \<open>auto simp: onward_def fixed_def\<close>)
    qed
  qed
qed

lemma tinfl_decompress_safe:
  assumes "w = 32 \<or> w = 64"
  shows "case tinfl_decompress w inp cap flags of
      Ok (st, n, out) \<Rightarrow> st = TINFL_STATUS_DONE \<longrightarrow> length out \<le> cap | Err e \<Rightarrow> False | Fault u \<Rightarrow> copy_fault u"
  using stream_post [OF assms, of "flags AND TINFL_FLAG_PARSE_ZLIB_HEADER \<noteq> 0" inp cap]
  by (auto simp: post_def tinfl_decompress_def Let_def io_ok_def split: prod.splits cr.splits)

lemma win_decompressor_zlib_safe:
  assumes "w = 32 \<or> w = 64"
  shows "case win_decompressor_zlib w inp outsz of Ok out \<Rightarrow> length out \<le> outsz | Err e \<Rightarrow> e = SQFS_ERR | Fault u \<Rightarrow> copy_fault u"
proof -
  let ?f = "((TINFL_FLAG_PARSE_ZLIB_HEADER OR TINFL_FLAG_USING_NON_WRAPPING_OUTPUT_BUF) AND NOT TINFL_FLAG_HAS_MORE_INPUT)
    OR TINFL_FLAG_USING_NON_WRAPPING_OUTPUT_BUF"
  show ?thesis
    using tinfl_decompress_safe [OF assms, where inp = inp and cap = outsz and flags = ?f]
    by (cases "tinfl_decompress w inp outsz ?f")
      (auto simp: win_decompressor_zlib_def tinfl_decompress_mem_to_mem_def split: prod.splits)
qed

text \<open>What the block reader asks of a decompressor.\<close>

lemma win_decompressor_zlib_codec_ok:
  assumes "w = 32 \<or> w = 64"
  shows "codec_ok (win_decompressor_zlib w)"
  unfolding codec_ok_def
proof (intro allI)
  fix bs n
  show "case win_decompressor_zlib w bs n of Ok out \<Rightarrow> length out \<le> n | Err e \<Rightarrow> True | Fault u \<Rightarrow> u \<noteq> Diverges"
    using win_decompressor_zlib_safe [OF assms, where inp = bs and outsz = n] by (auto simp: copy_fault_def split: res.splits)
qed

end
