(* ===== verification/Sqfs_Windows.thy ===== *)
theory Sqfs_Windows
  imports Sqfs_Deflate Sqfs_Tinfl_Safe Sqfs_Image
begin

text \<open>
  The parts of the Windows build put together: \<^verbatim>\<open>sqfs_pread\<close> over \<^verbatim>\<open>ReadFile\<close>, the choice of the
  decompressor, and compressed metadata read through the block reader. \<^verbatim>\<open>ReadFile\<close> belongs to the
  system and is a parameter; \<open>readfile_ok\<close> is what its documentation says of a file opened for
  synchronous access and read at an offset: up to the number of bytes asked for, and
  \<^verbatim>\<open>FALSE\<close> (\<^verbatim>\<open>ERROR_HANDLE_EOF\<close>) at the end of the file.
\<close>

section \<open>Positioned reads\<close>

text \<open>The two halves of the offset go into the \<^verbatim>\<open>OVERLAPPED\<close> structure; \<^verbatim>\<open>count\<close> becomes a \<^verbatim>\<open>DWORD\<close>. \<open>None\<close> is \<^verbatim>\<open>-1\<close>.\<close>

definition win_sqfs_pread :: "(u32 \<Rightarrow> u32 \<Rightarrow> u32 \<Rightarrow> bytes option) \<Rightarrow> size_t \<Rightarrow> u64 \<Rightarrow> bytes option" where
  "win_sqfs_pread ReadFile cnt off =
     (let Offset = ucast off; OffsetHigh = ucast (drop_bit 32 off)
      in case ReadFile (word_of_nat cnt) Offset OffsetHigh of None \<Rightarrow> None | Some buf \<Rightarrow> Some buf)"

definition readfile_ok :: "(u32 \<Rightarrow> u32 \<Rightarrow> u32 \<Rightarrow> bytes option) \<Rightarrow> bytes \<Rightarrow> bool" where
  "readfile_ok ReadFile file \<longleftrightarrow> (\<forall>n lo hi. let off = unat hi * 2 ^ 32 + unat lo in
     ReadFile n lo hi = (if length file \<le> off then None else Some (take (unat n) (drop off file))))"

lemma offset_halves: "unat (ucast (drop_bit 32 (off :: u64)) :: u32) * 2 ^ 32 + unat (ucast off :: u32) = unat off"
proof -
  have "unat (ucast off :: u32) = unat off mod 2 ^ 32" by (simp add: unsigned_ucast_eq take_bit_eq_mod)
  moreover have "unat off div 2 ^ 32 < 2 ^ 32" by (intro less_mult_imp_div_less) (use unsigned_less [of off] in simp)
  then have "unat (ucast (drop_bit 32 off) :: u32) = unat off div 2 ^ 32"
    by (simp add: unsigned_ucast_eq take_bit_eq_mod drop_bit_eq_div unat_div)
  ultimately show ?thesis by (simp only: div_mult_mod_eq)
qed

lemma win_sqfs_pread_posix:
  assumes "readfile_ok ReadFile file" and "cnt < 2 ^ 32" and "unat off < length file"
  shows "win_sqfs_pread ReadFile cnt off = sqfs_pread file cnt (int (unat off))"
proof -
  have "unat (word_of_nat cnt :: u32) = cnt" using assms(2) by (simp add: unat_of_nat)
  then show ?thesis
    using assms(1,3) offset_halves [of off] by (simp add: win_sqfs_pread_def readfile_ok_def sqfs_pread_def Let_def)
qed

text \<open>A caller that asks for a whole structure or block sees no difference, the end of the file included.\<close>

lemma win_sqfs_pread_full:
  assumes "readfile_ok ReadFile file" and "cnt < 2 ^ 32" and "0 < cnt"
  shows "win_sqfs_pread ReadFile cnt off = Some bs \<and> length bs = cnt \<longleftrightarrow>
    sqfs_pread file cnt (int (unat off)) = Some bs \<and> length bs = cnt"
proof (cases "unat off < length file")
  case True
  then show ?thesis using win_sqfs_pread_posix [OF assms(1,2)] by simp
next
  case False
  then have "win_sqfs_pread ReadFile cnt off = None"
    using assms(1) offset_halves [of off] by (simp add: win_sqfs_pread_def readfile_ok_def Let_def)
  then show ?thesis using False assms(3) by (auto simp: sqfs_pread_def)
qed

section \<open>The decompressor\<close>

text \<open>The Windows build defines \<^verbatim>\<open>CAN_DECOMPRESS_ZLIB\<close> only.\<close>

definition win_decompressor_get :: "nat \<Rightarrow> int \<Rightarrow> sqfs_decompressor option" where
  "win_decompressor_get w type = (if type = ZLIB_COMPRESSION then Some (win_decompressor_zlib w) else None)"

lemma win_decompressor_get_ok:
  "w = 32 \<or> w = 64 \<Longrightarrow> win_decompressor_get w type = Some d \<Longrightarrow> codec_ok d"
  using win_decompressor_zlib_codec_ok [of w] by (auto simp: win_decompressor_get_def split: if_splits)

section \<open>Compressed metadata\<close>

definition md_block_zlib :: "bytes \<Rightarrow> bytes" where
  "md_block_zlib z = le_bytes 2 (word_of_nat (length z) :: u16) @ z"

lemma md_header_compressed:
  assumes "0 < n" and "n < 32768"
  shows "sqfs_md_header (word_of_nat n) = (True, word_of_nat n)"
proof -
  have p: "bit (0x8000 :: u16) k \<longleftrightarrow> k = 15" for k using bit_exp_iff [of 15 k, where ?'a = "16 word"] by auto
  have "n div 2 ^ 15 = 0" using assms by simp
  then have "\<not> bit n 15" unfolding bit_iff_odd by presburger
  then have "(word_of_nat n :: u16) AND SQUASHFS_COMPRESSED_BIT = 0"
    by (intro bit_word_eqI, simp only: bit_and_iff p) (auto simp: bit_simps)
  moreover have "(word_of_nat n :: u16) AND NOT SQUASHFS_COMPRESSED_BIT = word_of_nat n"
    using \<open>\<not> bit n 15\<close> by (intro bit_word_eqI, simp only: bit_and_iff bit_not_iff p) (auto simp: bit_simps)
  moreover have "(word_of_nat n :: u16) \<noteq> 0"
  proof
    assume "(word_of_nat n :: u16) = 0"
    then have "unat (word_of_nat n :: u16) = 0" by simp
    then show False using assms by (simp add: unat_of_nat)
  qed
  ultimately show ?thesis unfolding sqfs_md_header_def Let_def by simp
qed

lemma img_at_md_block_zlib:
  assumes at: "img_at im pos (md_block_zlib z)" and z: "zlib_stream z d" "length z < 32768" "length d \<le> 8192"
    and dec: "fs_decompressor im = Some (win_decompressor_zlib w)" and w: "w = 32 \<or> w = 64"
  shows "md_block_spec im (int pos) = Ok (d, 2 + length z)"
proof -
  have 1: "img_at im pos (le_bytes 2 (word_of_nat (length z) :: u16))" and 2: "img_at im (pos + 2) z"
    using at by (simp_all add: md_block_zlib_def img_at_append)
  have "0 < length z" using z(1) by (auto elim: zlib_stream.cases)
  then have hdr: "sqfs_md_header (word_of_nat (length z)) = (True, word_of_nat (length z))"
    using z(2) by (intro md_header_compressed)
  have "off_add (int pos) 2 = int (pos + 2)" using 2 by (simp add: img_at_def)
  moreover have "block_spec im (int (pos + 2)) True (length z) 8192 = Ok d"
    using img_at_pread [OF 2] dec win_decompressor_zlib_correct [OF z(1,3) w] by (simp add: block_spec_def)
  ultimately show ?thesis
    using img_at_pread [OF 1] hdr z(2) by (simp add: md_block_spec_def unat_of_nat)
qed

lemma win_md_read:
  assumes at: "img_at im pos (md_block_zlib z)" and z: "zlib_stream z d" "length z < 32768" "length d \<le> 8192"
    and dec: "fs_decompressor im = Some (win_decompressor_zlib w)" and w: "w = 32 \<or> w = 64"
    and pos: "0 < pos" "fs_offset im < 2 ^ 62" and n: "0 < n" "off + n < length d"
  shows "img_ok im" and "cur_ok \<lparr>cur_block = int pos, cur_offset = off\<rparr>"
    and "md_read_spec im True \<lparr>cur_block = int pos, cur_offset = off\<rparr> n =
      Ok (take n (drop off d), \<lparr>cur_block = int pos, cur_offset = off + n\<rparr>)"
proof -
  show im: "img_ok im" using dec w pos(2) at win_decompressor_zlib_codec_ok by (simp add: img_ok_def img_at_def)
  show cur: "cur_ok \<lparr>cur_block = int pos, cur_offset = off\<rparr>"
    using assms by (auto simp: cur_ok_def pos_ok_def img_at_def)
  have "md_block_spec im (int pos) = Ok (d, 2 + length z)" by (rule img_at_md_block_zlib [OF at z dec w])
  then show "md_read_spec im True \<lparr>cur_block = int pos, cur_offset = off\<rparr> n =
      Ok (take n (drop off d), \<lparr>cur_block = int pos, cur_offset = off + n\<rparr>)"
    using md_read_within [OF im cur, of d "2 + length z" n] n by simp
qed

section \<open>A stream\<close>

text \<open>What zlib makes of ten letters a: two literals and a copy of eight bytes, with the fixed code.\<close>

definition zlib_sample :: bytes where
  "zlib_sample = [0x78, 0x9c, 0x4b, 0x4c, 0x84, 0x01, 0x00, 0x14, 0xe1, 0x03, 0xcb]"

lemma le_bytes_4: "le_bytes 4 w = [ucast w, ucast (drop_bit 8 w), ucast (drop_bit 16 w), ucast (drop_bit 24 w)]"
  by (simp add: numeral_eq_Suc drop_bit_drop_bit)

lemma zlib_sample_paths:
  "huff_path rfc_fixed_lit 97 = [True, False, False, True, False, False, False, True]"
  "huff_path rfc_fixed_lit 262 = [False, False, False, False, True, True, False]"
  "huff_path rfc_fixed_lit 256 = [False, False, False, False, False, False, False]"
  "huff_path rfc_fixed_dist 0 = [False, False, False, False, False]"
  by code_simp+

lemma zlib_sample_bits:
  "stream_bits [0x4b, 0x4c, 0x84, 0x01, 0x00] = True # True # False #
     huff_path rfc_fixed_lit 97 @ huff_path rfc_fixed_lit 97 @ huff_path rfc_fixed_lit 262 @ huff_path rfc_fixed_dist 0 @
     huff_path rfc_fixed_lit 256 @ [False, False]"
  unfolding zlib_sample_paths by code_simp

lemma zlib_sample_trailer: "rev (le_bytes 4 (0x14e103cb :: u32)) = [0x14, 0xe1, 0x03, 0xcb]"
  by (simp add: le_bytes_4)

lemma zlib_sample_data: "replicate 10 x = [x, x, x, x, x, x, x, x, x, x]"
  by (simp add: numeral_eq_Suc)

lemma zlib_sample_adler: "rfc_adler32 (replicate 10 97) = 0x14e103cb"
  unfolding zlib_sample_data by (simp add: rfc_adler32_def adler32_step_def Let_def)

lemma zlib_sample_copy:
  "rfc_length_base 262 = 8" "rfc_length_extra 262 = 0" "rfc_dist_base 0 = 1" "rfc_dist_extra 0 = 0"
  "lz_copy 8 1 [97, 97] = replicate 10 97"
  by (simp_all add: rfc_length_base.simps rfc_length_extra.simps rfc_dist_base.simps rfc_dist_extra.simps upt_rec numeral_eq_Suc)

lemma zlib_sample_codes:
  "inflate_codes rfc_fixed_lit rfc_fixed_dist [] (huff_path rfc_fixed_lit 97 @ huff_path rfc_fixed_lit 97 @
      huff_path rfc_fixed_lit 262 @ huff_path rfc_fixed_dist 0 @ huff_path rfc_fixed_lit 256 @ bs) (replicate 10 97) bs"
proof -
  have 256: "(256 :: nat) \<le> 256" "(256 :: nat) < 288" by simp_all
  have stop: "inflate_codes rfc_fixed_lit rfc_fixed_dist (replicate 10 97) (huff_path rfc_fixed_lit 256 @ bs) (replicate 10 97) bs"
    by (rule codes_end [OF lits_stop [OF rfc_fixed_used(1) [OF 256(2)] 256(1)]])
  have 262: "(256 :: nat) \<le> 262" "(262 :: nat) < 288" "(257 :: nat) \<le> 262" "(262 :: nat) \<le> 285" "(0 :: nat) < 32" "(0 :: nat) < 30" by simp_all
  have lits: "inflate_lits rfc_fixed_lit [97, 97] (huff_path rfc_fixed_lit 262 @ [] @ huff_path rfc_fixed_dist 0 @ [] @
      huff_path rfc_fixed_lit 256 @ bs) [97, 97] 262 ([] @ huff_path rfc_fixed_dist 0 @ [] @ huff_path rfc_fixed_lit 256 @ bs)"
    by (rule lits_stop [OF rfc_fixed_used(1) [OF 262(2)] 262(1)])
  have nil: "bits_val [] = 0" by (simp add: bits_val_def)
  have copy: "inflate_codes rfc_fixed_lit rfc_fixed_dist [97, 97] (huff_path rfc_fixed_lit 262 @ [] @ huff_path rfc_fixed_dist 0 @ [] @
      huff_path rfc_fixed_lit 256 @ bs) (replicate 10 97) bs"
    by (rule codes_match [OF lits 262(3,4) _ rfc_fixed_used(2) [OF 262(5)] 262(6)])
      (simp_all add: zlib_sample_copy [unfolded One_nat_def] nil stop)
  have a: "huff_used rfc_fixed_lit 97" "(97 :: nat) < 256" by (simp_all add: rfc_fixed_used)
  have one: "inflate_codes rfc_fixed_lit rfc_fixed_dist [97] (huff_path rfc_fixed_lit 97 @ huff_path rfc_fixed_lit 262 @
      huff_path rfc_fixed_dist 0 @ huff_path rfc_fixed_lit 256 @ bs) (replicate 10 97) bs"
    by (rule inflate_codes_byte [OF _ a]) (use copy in simp)
  show ?thesis by (rule inflate_codes_byte [OF _ a]) (use one in simp)
qed

lemma zlib_sample_stream: "zlib_stream zlib_sample (replicate 10 97)"
proof -
  let ?t = "stream_bits (rev (le_bytes 4 (word_of_nat (rfc_adler32 (replicate 10 97)) :: u32)))"
  have "bits_val [True, False] = 1" by (simp add: bits_val_def)
  then have "inflate_block (bits_val [True, False]) [] (huff_path rfc_fixed_lit 97 @ huff_path rfc_fixed_lit 97 @
      huff_path rfc_fixed_lit 262 @ huff_path rfc_fixed_dist 0 @ huff_path rfc_fixed_lit 256 @ [False, False] @ ?t @ [])
      (replicate 10 97) ([False, False] @ ?t @ [])"
    using block_fixed [OF zlib_sample_codes] by simp
  from blocks_last [OF this]
  have "inflate_blocks [] (stream_bits [0x4b, 0x4c, 0x84, 0x01, 0x00] @ ?t) (replicate 10 97) ([False, False] @ ?t @ [])"
    unfolding zlib_sample_bits by simp
  moreover have "word_of_nat 0x14e103cb = (0x14e103cb :: u32)" by simp
  then have "stream_bits [0x4b, 0x4c, 0x84, 0x01, 0x00] @ ?t = stream_bits [0x4b, 0x4c, 0x84, 0x01, 0x00, 0x14, 0xe1, 0x03, 0xcb]"
    unfolding zlib_sample_adler by (simp only: zlib_sample_trailer) (simp only: stream_bits_simps append.simps append_assoc)
  ultimately have "inflate_blocks [] (stream_bits [0x4b, 0x4c, 0x84, 0x01, 0x00, 0x14, 0xe1, 0x03, 0xcb]) (replicate 10 97)
      ([False, False] @ ?t @ [])" by (simp only:)
  then show ?thesis
    unfolding zlib_sample_def by (rule zlib_stream.intros [rotated 3]) simp_all
qed

section \<open>The properties\<close>

text \<open>C6. The decompressor of the Windows build implements the format: for every stream of the grammar of RFC 1950 and
  1951 (stored blocks, blocks with the fixed code, blocks with codes of their own, literals and copies) whose data fit the
  buffer, it returns the data, in a build with a bit buffer of 32 or of 64 bits.\<close>

theorem win_inflate_correct:
  assumes "zlib_stream inp data" and "length data \<le> outsz" and "w = 32 \<or> w = 64"
  shows "win_decompressor_zlib w inp outsz = Ok data"
  using assms by (rule win_decompressor_zlib_correct)

theorem win_inflate_correct_witness:
  "win_decompressor_zlib 64 [0x78, 0x9c, 0x4b, 0x4c, 0x84, 0x01, 0x00, 0x14, 0xe1, 0x03, 0xcb] 16 = Ok (replicate 10 97)"
  using win_inflate_correct [OF zlib_sample_stream, of 16 64] unfolding zlib_sample_def by simp

text \<open>C17. Compressing and decompressing: any parse of the data into bytes and copies of 3 to 258 bytes from up to 32768 bytes back,
  written with the fixed code, is read back as the data.\<close>

theorem win_inflate_roundtrip:
  assumes "lz_ok 0 ts" and "length (lz_expand [] ts) \<le> outsz" and "w = 32 \<or> w = 64"
  shows "win_decompressor_zlib w (zlib_fixed ts) outsz = Ok (lz_expand [] ts)"
  using assms by (rule lz.decodes)

theorem win_inflate_roundtrip_witness:
  "win_decompressor_zlib 32 (zlib_fixed [Lz_Byte 1, Lz_Byte 2, Lz_Copy 4 2, Lz_Byte 3]) 7 = Ok [1, 2, 1, 2, 1, 2, 3]"
  using win_inflate_roundtrip [of "[Lz_Byte 1, Lz_Byte 2, Lz_Copy 4 2, Lz_Byte 3]" 7 32] by (simp add: numeral_eq_Suc)



text \<open>C39. The length symbols 286 and 287, which the format reserves, are not refused: a stream with one of them makes the
  decompressor of the Windows build write up to three bytes beyond its buffer, after any data that fill the buffer or
  leave less than three bytes of it.\<close>

theorem win_inflate_overruns:
  assumes "c = 286 \<or> c = 287" and "data \<noteq> []" and "length data \<le> outsz" and "outsz < length data + 3" and "w = 32 \<or> w = 64"
  shows "win_decompressor_zlib w (zlib_overrun c data) outsz = Fault Out_Of_Bounds"
  using assms by (rule zlib_overrun_faults)

theorem win_inflate_overruns_witness:
  "win_decompressor_zlib 64 [0x78, 0x01, 0x4b, 0x1c, 0x03] 1 = Fault Out_Of_Bounds"
proof -
  have "zlib_overrun 286 [97] = [0x78, 0x01, 0x4b, 0x1c, 0x03]" by code_simp
  with win_inflate_overruns [of 286 "[97]" 1 64] show ?thesis by simp
qed

text \<open>C19. The tables of a Huffman code against its definition: from lengths that make a complete code, or that use one symbol at
  most, the tables are built without leaving their arrays, and a search in them finds the symbol whose canonical code
  the buffer starts with, however long the code is; other lengths are refused.\<close>

theorem huff_tables_decode:
  assumes "length sizes \<le> 288" and "\<forall>c \<in> set sizes. c < 16"
  shows "if huff_ok sizes
    then \<exists>t. tinfl_build_table sizes = Go t \<and> (\<forall>s w. huff_used sizes s \<and> bits_of (sizes ! s) w = huff_path sizes s \<longrightarrow>
      tinfl_lookup (\<lambda>temp. temp AND 511) t w = Go (int s, sizes ! s))
    else tinfl_build_table sizes = Exit 35 TINFL_STATUS_FAILED"
proof (cases "huff_ok sizes")
  case True
  obtain t where t: "tinfl_build_table sizes = Go t" "huff_table sizes t" using tinfl_build_table_ok [OF True] .
  have "tinfl_lookup (\<lambda>temp. temp AND 511) t w = Go (int s, sizes ! s)"
    if "huff_used sizes s" "bits_of (sizes ! s) w = huff_path sizes s" for s w
    using tinfl_lookup_code [OF t(2) that, of "\<lambda>temp. temp AND 511"] drop_bit_huff_entry(3) [OF True that(1)] by simp
  with t(1) True show ?thesis by auto
qed (use assms tinfl_build_table_rejects in auto)

theorem huff_tables_decode_witness:
  "\<exists>t. tinfl_build_table [1, 2, 2] = Go t \<and> tinfl_lookup (\<lambda>temp. temp AND 511) t 13 = Go (1, 2)"
proof -
  have "huff_ok [1, 2, 2]" by (simp add: huff_ok_def huff_first_numeral)
  then obtain t where t: "tinfl_build_table [1, 2, 2] = Go t" "\<And>s w. huff_used [1, 2, 2] s \<Longrightarrow>
      bits_of ([1, 2, 2] ! s) w = huff_path [1, 2, 2] s \<Longrightarrow> tinfl_lookup (\<lambda>temp. temp AND 511) t w = Go (int s, [1, 2, 2] ! s)"
    using huff_tables_decode [of "[1, 2, 2]"] by auto
  have "huff_used [1, 2, 2] 1" "bits_of ([1, 2, 2] ! 1) 13 = huff_path [1, 2, 2] 1" by code_simp+
  from t(2) [OF this] t(1) show ?thesis by simp
qed

text \<open>C28. The checksum, whose sums are reduced once in 5552 bytes only, is the Adler-32 of RFC 1950, which reduces them
  after every byte: no sum overflows in between.\<close>

theorem adler32_is_rfc: "tinfl_adler32 1 data = word_of_nat (rfc_adler32 data)"
  by (rule tinfl_adler32_rfc)

text \<open>C11. Compressed metadata on Windows: where the image has a compressed metadata block, reading within it through the cache, the
  block reader and the decompressor returns the bytes that were compressed, from every state that satisfies the invariant;
  the one other outcome is \<^verbatim>\<open>SQFS_ERR\<close> when memory runs out.\<close>

theorem windows_md_read:
  assumes "img_at (ev_img E) pos (md_block_zlib z)" and "zlib_stream z d" and "length z < 32768" and "length d \<le> 8192"
    and "fs_decompressor (ev_img E) = win_decompressor_get w ZLIB_COMPRESSION" and "w = 32 \<or> w = 64"
    and "0 < pos" and "fs_offset (ev_img E) < 2 ^ 62" and "0 < n" and "off + n < length d"
  shows "implements (ev_oom E) (fs_clean E M) (fs_safe E M) (sqfs_md_read True \<lparr>cur_block = int pos, cur_offset = off\<rparr> n)
    (Ok (take n (drop off d), \<lparr>cur_block = int pos, cur_offset = off + n\<rparr>))"
proof -
  have "fs_decompressor (ev_img E) = Some (win_decompressor_zlib w)" using assms(5) by (simp add: win_decompressor_get_def)
  note rd = win_md_read [OF assms(1-4) this assms(6-10)]
  from sqfs_md_read_implements [OF rd(1,2), of M True n] rd(3) show ?thesis by simp
qed

definition win_fs :: sqfs where
  "win_fs = wit_fs\<lparr>fs_fd := replicate 96 0 @ md_block_zlib zlib_sample, fs_decompressor := win_decompressor_get 64 ZLIB_COMPRESSION\<rparr>"

definition win_env :: fs_env where
  "win_env = wit_env\<lparr>ev_img := fs_img win_fs\<rparr>"

theorem windows_md_read_witness:
  "implements False (fs_clean win_env {#}) (fs_safe win_env {#}) (sqfs_md_read True \<lparr>cur_block = 96, cur_offset = 3\<rparr> 4)
     (Ok ([97, 97, 97, 97], \<lparr>cur_block = 96, cur_offset = 7\<rparr>)) \<and> fs_clean win_env {#} win_fs"
proof
  have at: "img_at (ev_img win_env) 96 (md_block_zlib zlib_sample)"
    by (simp add: win_env_def win_fs_def img_at_def md_block_zlib_def zlib_sample_def sqfs_image.defs)
  have oom: "\<not> ev_oom win_env" by (simp add: win_env_def wit_env_def ev_oom_def)
  have fs: "fs_decompressor (ev_img win_env) = win_decompressor_get 64 ZLIB_COMPRESSION" "fs_offset (ev_img win_env) < 2 ^ 62"
    by (simp_all add: win_env_def win_fs_def wit_fs_def sqfs_image.defs)
  have z: "length zlib_sample < 32768" "length (replicate 10 (97 :: u8)) \<le> 8192" by (simp_all add: zlib_sample_def)
  show "implements False (fs_clean win_env {#}) (fs_safe win_env {#}) (sqfs_md_read True \<lparr>cur_block = 96, cur_offset = 3\<rparr> 4)
     (Ok ([97, 97, 97, 97], \<lparr>cur_block = 96, cur_offset = 7\<rparr>))"
    using windows_md_read [OF at zlib_sample_stream z fs(1) _ _ fs(2), of 4 3 "{#}"] oom by (simp add: zlib_sample_data)
  show "fs_clean win_env {#} win_fs"
    by (rule fs_clean_fresh) (simp_all add: win_env_def win_fs_def wit_env_def caches_ready_def wit_fs_def wit_heap_def heap_owned_def)
qed

end
