(* ===== verification/Sqfs_Tests.thy ===== *)
theory Sqfs_Tests
  imports Sqfs_Cache Sqfs_Swap
begin

text \<open>
  The test programs of \<^verbatim>\<open>tests/\<close>, run in the model: \<^verbatim>\<open>cachetest.c\<close> on the operations of
  \<^verbatim>\<open>cache.c\<close>, \<^verbatim>\<open>endiantest.c\<close> on those of \<^verbatim>\<open>swap.c\<close>. The macros \<^verbatim>\<open>EXPECT_EQ\<close> and \<^verbatim>\<open>EXPECT_NE\<close>
  count failures; a test returns whether there were none. When \<^verbatim>\<open>sqfs_cache_init\<close> fails, a test goes on with a
  variable that was never assigned.
\<close>

section \<open>cachetest.c\<close>

record TestStruct =
  ts_x :: int
  ts_y :: int

definition TestStructDispose :: "TestStruct \<Rightarrow> (heap, unit) io" where
  "TestStructDispose t = io_ret ()"

text \<open>The number of failures an expectation adds.\<close>

definition EXPECT :: "bool \<Rightarrow> nat" where
  "EXPECT c = (if c then 0 else 1)"

text \<open>\<open>with_cache f\<close> is the beginning of every test, with a cache of 16 elements of 8 bytes.\<close>

definition with_cache :: "(TestStruct sqfs_cache \<times> heap, nat) io \<Rightarrow> (heap, bool) io" where
  "with_cache body = io_try (sqfs_cache_init 8 16 TestStructDispose \<lparr>ts_x = 0, ts_y = 0\<rparr>) (\<lambda>r.
     case r of Inl err \<Rightarrow> io_fault Uninitialised
     | Inr c \<Rightarrow> (\<lambda>h. case body (Some c, h) of (res, (_, h')) \<Rightarrow>
         (case res of Ok errors \<Rightarrow> Ok (errors = 0) | Err e \<Rightarrow> Err e | Fault u \<Rightarrow> Fault u, h')))"

text \<open>Operations that take the cache by reference.\<close>

definition on_cache :: "(TestStruct sqfs_cache_internal \<Rightarrow> (TestStruct sqfs_cache_internal \<times> 'a) res) \<Rightarrow> (TestStruct sqfs_cache \<times> heap, 'a) io" where
  "on_cache f = (\<lambda>(co, h). case co of None \<Rightarrow> (Fault Null_Deref, (co, h))
     | Some c \<Rightarrow> (case f c of Ok (c', a) \<Rightarrow> (Ok a, (Some c', h)) | Err e \<Rightarrow> (Err e, (co, h)) | Fault u \<Rightarrow> (Fault u, (co, h))))"

definition entry_valid :: "size_t \<Rightarrow> (TestStruct sqfs_cache \<times> heap, bool) io" where
  "entry_valid e = on_cache (\<lambda>c. Ok (c, sqfs_cache_entry_valid e c))"

definition entry_get :: "size_t \<Rightarrow> (TestStruct sqfs_cache \<times> heap, TestStruct) io" where
  "entry_get e = on_cache (\<lambda>c. Ok (c, cache_payload e c))"

definition entry_put :: "size_t \<Rightarrow> (TestStruct sqfs_cache \<times> heap, unit) io" where
  "entry_put e = on_cache (\<lambda>c. Ok (sqfs_cache_put e c, ()))"

text \<open>\<^verbatim>\<open>entry->x = x; entry->y = y; sqfs_cache_entry_mark_valid(..); sqfs_cache_put(..)\<close>\<close>

definition entry_fill :: "size_t \<Rightarrow> int \<Rightarrow> int \<Rightarrow> (TestStruct sqfs_cache \<times> heap, unit) io" where
  "entry_fill e x y =
     io_bind (on_cache (\<lambda>c. Ok (cache_set_payload e ((cache_payload e c)\<lparr>ts_x := x, ts_y := y\<rparr>) c, ()))) (\<lambda>_.
     io_bind (on_cache (\<lambda>c. res_bind (sqfs_cache_entry_mark_valid e c) (\<lambda>c. Ok (c, ())))) (\<lambda>_.
     entry_put e))"

definition test_cache_miss :: "(heap, bool) io" where
  "test_cache_miss = with_cache (
     io_bind (sqfs_cache_get 1) (\<lambda>entry.
     io_bind (entry_valid entry) (\<lambda>v.
     io_bind (entry_put entry) (\<lambda>_.
     io_bind sqfs_cache_destroy (\<lambda>_.
     io_ret (EXPECT (\<not> v)))))))"

definition test_mark_valid_and_lookup :: "(heap, bool) io" where
  "test_mark_valid_and_lookup = with_cache (
     io_bind (sqfs_cache_get 1) (\<lambda>entry.
     io_bind (entry_fill entry 666 777) (\<lambda>_.
     io_bind (entry_valid entry) (\<lambda>v1.
     io_bind (sqfs_cache_get 1) (\<lambda>entry.
     io_bind (entry_valid entry) (\<lambda>v2.
     io_bind (entry_get entry) (\<lambda>t.
     io_bind (entry_put entry) (\<lambda>_.
     io_bind sqfs_cache_destroy (\<lambda>_.
     io_ret (EXPECT v1 + EXPECT v2 + EXPECT (ts_x t = 666) + EXPECT (ts_y t = 777)))))))))))"

definition test_two_entries :: "(heap, bool) io" where
  "test_two_entries = with_cache (
     io_bind (sqfs_cache_get 1) (\<lambda>entry1.
     io_bind (entry_fill entry1 1 2) (\<lambda>_.
     io_bind (sqfs_cache_get 666) (\<lambda>entry2.
     io_bind (entry_fill entry2 3 4) (\<lambda>_.
     io_bind (sqfs_cache_get 1) (\<lambda>entry1.
     io_bind (entry_put entry1) (\<lambda>_.
     io_bind (sqfs_cache_get 666) (\<lambda>entry2.
     io_bind (entry_put entry2) (\<lambda>_.
     io_bind (entry_valid entry1) (\<lambda>v1.
     io_bind (entry_valid entry2) (\<lambda>v2.
     io_bind (entry_get entry1) (\<lambda>t1.
     io_bind (entry_get entry2) (\<lambda>t2.
     io_bind sqfs_cache_destroy (\<lambda>_.
     io_ret (EXPECT v1 + EXPECT v2 + EXPECT (ts_x t1 = 1) + EXPECT (ts_y t1 = 2)
       + EXPECT (ts_x t2 = 3) + EXPECT (ts_y t2 = 4))))))))))))))))"

definition cachetest_main :: "(heap, int) io" where
  "cachetest_main = io_bind test_cache_miss (\<lambda>t1. if \<not> t1 then io_ret 1 else
     io_bind test_mark_valid_and_lookup (\<lambda>t2. if \<not> t2 then io_ret 1 else
     io_bind test_two_entries (\<lambda>t3. io_ret (if t3 then 0 else 1))))"

lemmas test_simps = io_simps with_cache_def sqfs_cache_init_def hp_malloc_run on_cache_def entry_valid_def
  entry_get_def entry_put_def entry_fill_def sqfs_cache_get_def sqfs_cache_entry_valid_def
  sqfs_cache_entry_mark_valid_def sqfs_cache_put_def cache_payload_def cache_set_payload_def
  sqfs_cache_destroy_def TestStructDispose_def EXPECT_def Let_def

abbreviation (input) more_mallocs :: "nat \<Rightarrow> heap \<Rightarrow> heap" where
  "more_mallocs n h \<equiv> h\<lparr>hp_mallocs := hp_mallocs h + n\<rparr>"

lemma replicate_16: "replicate 16 x = [x, x, x, x, x, x, x, x, x, x, x, x, x, x, x, x]"
  by (simp add: numeral_eq_Suc)

lemma cache_tests_pass:
  assumes "\<And>n. hp_malloc_ok h n"
  shows "test_cache_miss h = (Ok True, more_mallocs 2 h)"
    and "test_mark_valid_and_lookup h = (Ok True, more_mallocs 2 h)"
    and "test_two_entries h = (Ok True, more_mallocs 2 h)"
  using assms
  by (simp_all add: test_simps test_cache_miss_def test_mark_valid_and_lookup_def test_two_entries_def replicate_16)

lemma cachetest_passes:
  assumes "\<And>n. hp_malloc_ok h n"
  shows "cachetest_main h = (Ok 0, more_mallocs 6 h)"
  using cache_tests_pass [OF assms] cache_tests_pass [of "more_mallocs 2 h"] cache_tests_pass [of "more_mallocs 4 h"] assms
  by (simp add: cachetest_main_def io_simps numeral_eq_Suc)

text \<open>When the first allocation of a test fails, it reads the variable that was to hold the cache.\<close>

lemma cachetest_no_memory:
  assumes "\<not> hp_malloc_ok h (hp_mallocs h)"
  shows "fst (cachetest_main h) = Fault Uninitialised"
  using assms by (simp add: cachetest_main_def test_simps test_cache_miss_def)

section \<open>endiantest.c\<close>

text \<open>\<^verbatim>\<open>htole16\<close> and its relatives leave the bytes of their argument in little-endian order in memory.\<close>

definition test16 :: bool where
  "test16 \<longleftrightarrow> sqfs_swapin16 (le_bytes 2 (0xbabe :: u16)) = 0xbabe"

definition test32 :: bool where
  "test32 \<longleftrightarrow> sqfs_swapin32 (le_bytes 4 (0xc0ffee01 :: u32)) = 0xc0ffee01"

definition test64 :: bool where
  "test64 \<longleftrightarrow> sqfs_swapin64 (le_bytes 8 (0xf00ddeadbeeff00d :: u64)) = 0xf00ddeadbeeff00d"

definition endiantest_main :: int where
  "endiantest_main = (if test16 \<and> test32 \<and> test64 then 0 else 1)"

lemma endiantest_passes: "endiantest_main = 0"
  by (simp only: endiantest_main_def test16_def test32_def test64_def swapin_le_bytes) simp

end
