(* ===== verification/Spec2Isabelle.thy ===== *)
theory Spec2Isabelle
  imports Sqfs_Image Sqfs_Extract Sqfs_Bigfile Sqfs_Cache_MT Sqfs_Main Sqfs_Windows Sqfs_Tests
begin

text \<open>
  Verification of squashfuse, a FUSE implementation of the SquashFS file system: the library that reads an
  image (\<^verbatim>\<open>src/fs.c\<close> and the files around it), its two FUSE clients, and the programs that list and
  extract an image.

  \<^bold>\<open>The program.\<close> An image is a file with a superblock, data blocks, and tables of metadata blocks:
  inodes, directories, fragments, ids, an export table, extended attributes. Every block may be compressed.
  \<^verbatim>\<open>sqfs_init\<close> checks the superblock, reads the table indexes and creates the caches. Everything else
  goes through two readers: \<^verbatim>\<open>sqfs_md_read\<close>, which reads the metadata as a byte stream running over
  block boundaries, and \<^verbatim>\<open>sqfs_data_cache\<close>. Both keep decompressed blocks, with reference counts, in
  small caches. On top of them stand tables, inodes, directories, files, extended attributes and the
  traversal; on top of those the clients, which translate FUSE requests, and the programs that walk the tree.

  \<^bold>\<open>Conventions.\<close> A C function that works on a state is a function of type \<open>('s, 'a) io\<close>
  (\<open>Sqfs_Prelude\<close>): from a state to an outcome and a new state. An outcome is a value, an error code of
  \<^verbatim>\<open>sqfs_err\<close>, or a fault: an access out of bounds or after free, a failed \<^verbatim>\<open>assert\<close>, a division by
  zero, a use of an uninitialised value, of the wrong union member, and so on. \<^verbatim>\<open>size_t\<close> is 64 bits
  wide and \<^verbatim>\<open>off_t\<close> a signed 64-bit number, with the wrap-around written out where the C code can reach
  it; the fields of the format are words of their width. Memory that outlives a call is a heap of blocks with
  addresses and reference counts (\<open>Sqfs_Block\<close>), where the outcome of the \<open>n\<close>-th allocation is given by an
  oracle, so that every path on which \<^verbatim>\<open>malloc\<close> fails is in the model. The image is the list of bytes of
  the file behind the descriptor. Code that is not part of the repository is a parameter: the compression
  libraries (\<open>codec_libs\<close>), \<^verbatim>\<open>makedev\<close>, \<^verbatim>\<open>ENOATTR\<close>, the encoding of directory entries by FUSE,
  the clock, the files of the system. Programs that call FUSE or the system record every call, in order, and the
  answer to a call may depend on all the calls before it. The model is that of a 64-bit little-endian POSIX system.

  \<^bold>\<open>Theories and sources.\<close>
  \<^item> \<open>Sqfs_Prelude\<close>: machine types, outcomes, sequencing, triples, and \<open>implements\<close>, the refinement used
    throughout: from every state that satisfies the invariant a call has a given outcome, whatever the caches
    hold, or \<^verbatim>\<open>SQFS_ERR\<close> if memory may run out.
  \<^item> \<open>Sqfs_Swap\<close>, \<open>Sqfs_Format\<close>, \<open>Sqfs_Encode\<close>: \<^verbatim>\<open>swap.c\<close>, \<^verbatim>\<open>squashfs_fs.h\<close> and the swap-in
    functions generated from it; encoders, with the round trip for every structure.
  \<^item> \<open>Sqfs_Block\<close>, \<open>Sqfs_Cache\<close>, \<open>Sqfs_Cache_MT\<close>: blocks of \<^verbatim>\<open>common.h\<close>, \<^verbatim>\<open>cache.c\<close>,
    \<^verbatim>\<open>cache_mt.c\<close>. The multi-threaded cache is a step relation over interleaved threads with one lock per
    slot: two threads never hold the same slot, and a held slot changes only by its holder.
  \<^item> \<open>Sqfs_Decompress\<close>: \<^verbatim>\<open>decompress.c\<close>.
  \<^item> \<open>Sqfs_State\<close>, \<open>Sqfs_Fs\<close>, \<open>Sqfs_Inv\<close>, \<open>Sqfs_Md\<close>: the state of \<^verbatim>\<open>fs.h\<close>, the readers of
    \<^verbatim>\<open>fs.c\<close>, the invariant (every cache entry is the block its key names, the references held by the
    caches and the caller account for all reference counts), and the refinement of the readers by pure
    functions of the image (\<open>md_block_spec\<close>, \<open>data_block_spec\<close>, \<open>md_read_spec\<close>).
  \<^item> \<open>Sqfs_Table\<close>, \<open>Sqfs_Inode\<close>, \<open>Sqfs_Dir\<close>, \<open>Sqfs_Path\<close>, \<open>Sqfs_File\<close>, \<open>Sqfs_Xattr\<close>:
    \<^verbatim>\<open>table.c\<close>, the inode part of \<^verbatim>\<open>fs.c\<close>, \<^verbatim>\<open>dir.c\<close>, \<^verbatim>\<open>file.c\<close>, \<^verbatim>\<open>xattr.c\<close>. Each
    says what an image builder writes (\<open>table_holds\<close>, \<open>disk_inode\<close>, \<open>dir_holds\<close>, \<open>file_holds\<close>,
    \<open>inode_xattrs\<close>) and shows that the code reads it back.
  \<^item> \<open>Sqfs_Init\<close>: opening and destroying, the rest of \<^verbatim>\<open>fs.c\<close>.
  \<^item> \<open>Sqfs_Blockidx\<close>: what the block index of \<^verbatim>\<open>file.c\<close> holds once it is built, and that seeking through
    it gives what walking the block list gives.
  \<^item> \<open>Sqfs_Stack\<close>, \<open>Sqfs_Traverse\<close>, \<open>Sqfs_Hash\<close>: \<^verbatim>\<open>stack.c\<close>, \<^verbatim>\<open>traverse.c\<close>, \<^verbatim>\<open>hash.c\<close>.
  \<^item> \<open>Sqfs_Tree\<close>: the tree of an image, and that a traversal visits it, whatever the caller does with the
    library between two calls (\<open>tours\<close>).
  \<^item> \<open>Sqfs_Stat\<close>: \<^verbatim>\<open>stat.c\<close> and the helpers of \<^verbatim>\<open>fuseprivate.c\<close>.
  \<^item> \<open>Sqfs_LL_Inode\<close>, \<open>Sqfs_LL\<close>: \<^verbatim>\<open>ll_inode.c\<close> with its three numberings of inodes,
    \<^verbatim>\<open>ll.c\<close> with every request handler and the idle timeout. Sessions are a step relation.
  \<^item> \<open>Sqfs_HL\<close>, \<open>Sqfs_Open\<close>, \<open>Sqfs_Mount\<close>: \<^verbatim>\<open>hl.c\<close>, \<^verbatim>\<open>util.c\<close>, and opening an image in
    either client.
  \<^item> \<open>Sqfs_Main\<close>: the programs that mount, \<^verbatim>\<open>main\<close> of \<^verbatim>\<open>ll_main.c\<close> and \<^verbatim>\<open>hl.c\<close>, with mounting,
    signals, usage and notification (\<^verbatim>\<open>ll.c\<close>, \<^verbatim>\<open>fuseprivate.c\<close>, \<^verbatim>\<open>nonstd-daemon.c\<close>), against the
    protocol of a FUSE session.
  \<^item> \<open>Sqfs_LS\<close>, \<open>Sqfs_Extract\<close>: the programs \<^verbatim>\<open>ls.c\<close> and \<^verbatim>\<open>extract.c\<close>.
  \<^item> \<open>Sqfs_Huff\<close>, \<open>Sqfs_Tinfl\<close>: the inflate routine of the Windows build, \<^verbatim>\<open>win/tinfl.c\<close>, with a bit buffer of
    32 or 64 bits: the tables of a Huffman code, the bit buffer and the macros on it, the two loops that decode
    literals, the four ways to copy, the three kinds of block, the zlib container and its checksum.
    \<open>Sqfs_Huff_Tree\<close>, \<open>Sqfs_Bits\<close>, \<open>Sqfs_Decode\<close>, \<open>Sqfs_Inflate\<close>, \<open>Sqfs_Zlib\<close>: the canonical code, the input as
    a sequence of bits, the grammar of RFC 1951 and 1950 over it, and that the routine decodes what the grammar
    describes. \<open>Sqfs_Tinfl_Safe\<close>: the routine on arbitrary input. \<open>Sqfs_Deflate\<close>: two encoders.
    \<open>Sqfs_Windows\<close>: \<^verbatim>\<open>win/win_decompress.c.inc\<close>, the Windows branch of \<^verbatim>\<open>nonstd-pread.c\<close>, and compressed
    metadata read through them.
  \<^item> \<open>Sqfs_Tests\<close>: the programs of \<^verbatim>\<open>tests/\<close>, which pass when memory does not run out.
  \<^item> \<open>Sqfs_Image\<close>: a complete image of 544 bytes, on which the theorems below are instantiated;
    \<open>Sqfs_Bigfile\<close>: an image with a file long enough for the block index.

  Interfaces are locales, interpreted on the model: a metadata stream that can be cut anywhere (\<open>ms\<close>), a
  slotted cache whose entries own references (\<open>sc\<close>, \<open>mt\<close>, \<open>be\<close>, \<open>ix\<close>), a last-in-first-out store (\<open>sl\<close>), a
  finite map (\<open>hm\<close>), a numbering of inodes (\<open>n64\<close>, \<open>n32\<close>, \<open>nexp\<close>), a part of a session that work on the
  image leaves alone (\<open>q\<close>, \<open>hf\<close>), a program that loops over a traversal (\<open>lsc\<close>, \<open>exc\<close>), an encoder for the
  zlib format (\<open>st\<close>, \<open>lz\<close>).

  \<^bold>\<open>What is shown.\<close> This theory holds the properties that span components: metadata reads refine the
  image, independently of the caches and of where they are cut, and return on damaged images; tables, inodes,
  links, directories, paths, files and attributes are read back as they were written; \<^verbatim>\<open>sqfs_init\<close>
  establishes the invariant, refuses bad superblocks and releases everything on failure, \<^verbatim>\<open>sqfs_destroy\<close>
  releases every block; the clients answer with the file the name or the path leads to; a traversal visits the
  tree, \<^verbatim>\<open>squashfuse_ls\<close> prints it and \<^verbatim>\<open>squashfuse_extract\<close> makes the calls that restore its files;
  \<^verbatim>\<open>squashfuse_ll\<close> mounts, serves and unmounts in this order on every path. The theories of the
  components hold the properties of the caches, the stack, the hash table, the encodings and the request
  handlers, and those of the Windows build: its decompressor returns the data of every stream of the grammar, inverts
  the encoders, and returns on every input. Some theorems record defects: a cache entry whose fill failed aborts the
  next lookup, a subdirectory of slashes leaves the root inode unassigned, and two reserved length symbols make the
  inflate routine write beyond its buffer.

  \<^bold>\<open>Fuel.\<close> Loops whose end is not structural carry fuel, and running out is the fault \<open>Diverges\<close>.
  \<^verbatim>\<open>sqfs_md_read\<close> gets more rounds than the image has positions for non-empty and empty blocks, which the
  theorem \<open>md_read_returns\<close> shows to be enough on every image; directory loops get \<open>md_fuel\<close>, more than the
  number of bytes of metadata an image can hold, which suffices for every directory \<open>dir_holds\<close> describes; the
  header loop of \<^verbatim>\<open>sqfs_dir_next\<close> and the attribute list get the size they count down; a path gets its
  length; the state machine of the traversal gets four rounds, which suffice from every state. The programs that
  walk the tree get as many rounds as it has visits, and one more: a damaged image whose directories contain each
  other has no end, and nothing in the code stops there. Reserving descriptors gets four rounds, enough on a
  system that does not hand out a descriptor twice (\<open>reserve_fds_ends\<close>). In the inflate routine the loops within a block
  get the room in the output buffer, the loop over the blocks the number of bits of the input: no input runs out of
  either (\<open>win_decompressor_zlib_codec_ok\<close>).

  \<^bold>\<open>Not modelled.\<close> FUSE and the system themselves; the branches for FUSE 2; of the Windows build the
  branch that opens a file (\<^verbatim>\<open>util.c\<close>), and what the program never uses of its
  inflate routine: resuming it with more input or output, the helpers that decompress into a growing buffer or through
  a callback. The shell scripts of \<^verbatim>\<open>tests/\<close>. The theorems on reading files cover every start
  but one that the index cannot serve (\<open>seekable\<close>, recorded as a defect of \<^verbatim>\<open>file.c\<close>), those on
  directories start from directories without an index of names; the code of that index is modelled.
\<close>

section \<open>Reading metadata\<close>

text \<open>C1. Reading metadata through the cache is reading the image: from every state that satisfies the
  invariant, whatever its caches hold, \<^verbatim>\<open>sqfs_md_read\<close> returns the bytes and the cursor that
  the blocks of the image determine (or the error or the out-of-bounds access they determine), and
  leaves the invariant true with the same references held by the caller. The one other outcome is
  \<^verbatim>\<open>SQFS_ERR\<close> when memory runs out.\<close>

theorem md_read_refines:
  assumes "img_ok (ev_img E)" and "cur_ok cur"
  shows "implements (ev_oom E) (fs_clean E M) (fs_safe E M) (sqfs_md_read buf cur n)
    (md_read_spec (ev_img E) buf cur n)"
  using assms by (rule sqfs_md_read_implements)

theorem md_read_refines_witness:
  "implements False (fs_clean wit_env {#}) (fs_safe wit_env {#})
     (sqfs_md_read True \<lparr>cur_block = 108, cur_offset = 92\<rparr> 27)
     (Ok (disk_inode_bytes wit_link, \<lparr>cur_block = 108, cur_offset = 119\<rparr>))
   \<and> fs_clean wit_env {#} wit_fs"
  using md_read_refines [of wit_env "\<lparr>cur_block = 108, cur_offset = 92\<rparr>" "{#}" True 27] wit_inodes_at(4) wit_clean
  by (simp add: ms.holds_def)

text \<open>C29. \<^verbatim>\<open>sqfs_md_read\<close> returns, also on a damaged image whose blocks are empty or refer to
  nothing: the loop never runs out of the fuel the model gives it.\<close>

theorem md_read_returns:
  assumes "img_ok (ev_img E)" and "cur_ok cur" and "fs_clean E M s"
  shows "fst (sqfs_md_read buf cur n s) \<noteq> Fault Diverges"
  using implements_no_fault [OF sqfs_md_read_implements [OF assms(1,2)] assms(3)]
    md_read_spec_terminates [OF assms(1,2)] by blast

theorem md_read_returns_witness:
  "fst (sqfs_md_read False \<lparr>cur_block = 480, cur_offset = 5\<rparr> 100000 wit_fs) \<noteq> Fault Diverges"
  by (rule md_read_returns [of wit_env _ "{#}"]) (simp_all add: wit_clean)

text \<open>C27. Where the reads are cut does not matter: reading \<open>n + m\<close> bytes of metadata gives the bytes, the
  cursor and the failure that reading \<open>n\<close> and then \<open>m\<close> bytes give, also across a block boundary.\<close>

theorem md_read_split_law:
  assumes "img_ok (ev_img E)" and "cur_ok cur" and "\<not> ev_oom E" and "fs_clean E M s"
  shows "fst (sqfs_md_read True cur (n + m) s) =
    fst (io_bind (sqfs_md_read True cur n) (\<lambda>(x, cur').
         io_bind (sqfs_md_read True cur' m) (\<lambda>(y, cur''). io_ret (x @ y, cur''))) s)"
proof -
  note rd = sqfs_md_read_implements [OF assms(1), of _ M True, simplified assms(3)]
  have "implements False (fs_clean E M) (fs_safe E M)
      (io_bind (sqfs_md_read True cur n) (\<lambda>(x, cur').
       io_bind (sqfs_md_read True cur' m) (\<lambda>(y, cur''). io_ret (x @ y, cur''))))
      (md_read_spec (ev_img E) True cur (n + m))"
    unfolding md_read_spec_split [OF assms(1,2)]
  proof (rule implements_bind [OF rd [OF assms(2)]])
    fix a assume a: "md_read_spec (ev_img E) True cur n = Ok a"
    obtain x cur' where x: "a = (x, cur')" by fastforce
    have "cur_ok cur'" using md_read_spec_ok [OF assms(1,2)] a x by blast
    then show "implements False (fs_clean E M) (fs_safe E M)
        ((\<lambda>(x, cur'). io_bind (sqfs_md_read True cur' m) (\<lambda>(y, cur''). io_ret (x @ y, cur''))) a)
        ((\<lambda>(x, cur'). res_bind (md_read_spec (ev_img E) True cur' m) (\<lambda>(y, cur''). Ok (x @ y, cur''))) a)"
      unfolding x prod.case by (intro implements_bind [OF rd]) (auto intro: implements_ret)
  qed
  from implements_value [OF this assms(4)] implements_value [OF rd [OF assms(2)] assms(4)]
  show ?thesis by simp
qed

theorem md_read_split_law_witness:
  "fst (sqfs_md_read True \<lparr>cur_block = 108, cur_offset = 150\<rparr> (2 + 10) wit_fs) =
    fst (io_bind (sqfs_md_read True \<lparr>cur_block = 108, cur_offset = 150\<rparr> 2) (\<lambda>(x, cur').
         io_bind (sqfs_md_read True cur' 10) (\<lambda>(y, cur''). io_ret (x @ y, cur''))) wit_fs)"
  by (rule md_read_split_law [of wit_env _ "{#}"]) (simp_all add: wit_clean)

text \<open>What the caches hold is invisible: two states of the same image give the same answer to
  every metadata read.\<close>

lemma md_read_cache_independent:
  assumes "img_ok (ev_img E)" and "cur_ok cur" and "\<not> ev_oom E" and "fs_clean E M s" and "fs_clean E M' s'"
  shows "fst (sqfs_md_read buf cur n s) = fst (sqfs_md_read buf cur n s')"
  using implements_value [OF sqfs_md_read_implements [OF assms(1,2), simplified assms(3)]] assms(4,5) by metis

section \<open>Inodes\<close>

text \<open>C5. \<^verbatim>\<open>sqfs_inode_get\<close> decodes every kind of inode an image can hold: at the position the
  inode id names, it returns the fields of the on-disk inode, with the cursor just behind its fixed
  part (where a link's target or a file's block list begins).\<close>

theorem inode_get_decodes:
  assumes "img_ok (ev_img E)" and "cur_ok (inode_cursor (ev_img E) i)" and "disk_inode_ok d"
    and "md_holds (ev_img E) (inode_cursor (ev_img E) i) (disk_inode_bytes d) c'"
  shows "\<exists>nxt. md_holds (ev_img E) (inode_cursor (ev_img E) i) (disk_head d) nxt \<and>
    md_holds (ev_img E) nxt (disk_tail d) c' \<and> yields E M (sqfs_inode_get i) (Ok (disk_inode_of d nxt))"
  using assms by (rule sqfs_inode_get_disk)

theorem inode_get_decodes_witness:
  "yields wit_env {#} (sqfs_inode_get 32) (Ok wit_file_inode)"
proof -
  have "disk_head wit_file = disk_inode_bytes wit_file"
    by (simp add: disk_inode_bytes_def wit_file_def)
  then show ?thesis
    using inode_get_decodes [of wit_env 32 wit_file "\<lparr>cur_block = 108, cur_offset = 88\<rparr>" "{#}"] wit_inodes_at(2)
    by (auto simp: wit_file_inode_def ms.holds_def)
qed

text \<open>C37. The union member of a decoded inode is the one of its type, whatever the image holds, so a
  test of the inode type before an access to \<^verbatim>\<open>xtra\<close> is enough.\<close>

theorem inode_get_union:
  assumes "sqfs_inode_get i s = (Ok inode, s')"
  shows "xtra_matches (bi_inode_type (in_base inode)) (in_xtra inode)"
  using assms by (rule sqfs_inode_get_matches)

theorem inode_get_union_witness:
  "xtra_matches (bi_inode_type (in_base wit_file_inode)) (in_xtra wit_file_inode)"
proof -
  obtain s' where "sqfs_inode_get 32 wit_fs = (Ok wit_file_inode, s')"
    using wit_inode_gets(1) wit_clean by (auto elim: implements_OkD)
  then show ?thesis by (rule inode_get_union)
qed

text \<open>A symbolic link is read back: the target, cut to the buffer, and a terminating NUL; nothing is
  written beyond the buffer.\<close>

theorem readlink_target:
  assumes "img_ok (ev_img E)" and "cur_ok (in_next inode)" and "S_ISLNK (in_mode inode)"
    and "in_xtra inode = X_Symlink (length tgt)" and "md_holds (ev_img E) (in_next inode) tgt c'"
    and "0 < sz" and "sz < 2 ^ 64"
  shows "yields E M (sqfs_readlink inode True sz) (Ok (Inr (take (sz - 1) tgt @ [0])))"
  using assms by (rule sqfs_readlink_target)

lemma wit_link_at: "md_holds wit_img \<lparr>cur_block = 108, cur_offset = 116\<rparr> [99, 47, 97] \<lparr>cur_block = 108, cur_offset = 119\<rparr>"
  using wit_inode_holds [of 116 "[99, 47, 97]"]
  by (simp add: wit_inodes_def disk_inode_bytes_def wit_root_def wit_file_def wit_link_def wit_hdrs_def)

theorem readlink_target_witness:
  "yields wit_env {#} (sqfs_readlink wit_link_inode True 3) (Ok (Inr [99, 47, 0]))"
proof -
  show ?thesis
    using wit_link_at readlink_target [of wit_env wit_link_inode "[99, 47, 97]" "\<lparr>cur_block = 108, cur_offset = 119\<rparr>" 3 "{#}"]
    by (simp add: wit_link_inode_def disk_inode_of_def wit_link_def in_mode_def S_ISLNK_def sqfs_mode_def
        squashfs_base_inode.defs)
qed

section \<open>Directories\<close>

text \<open>C3. Opening a directory and calling \<^verbatim>\<open>sqfs_dir_next\<close> until it returns false yields every
  entry of the directory once, in order, with its name, type, inode and offsets.\<close>

theorem dir_listing:
  assumes "img_ok (ev_img E)" and "dir_holds (ev_img E) inode rs"
  shows "yields E M
    (io_bind (sqfs_dir_open inode 0) (\<lambda>dir. dir_read_all (md_fuel (ev_img E)) dir (sqfs_dentry_init True)))
    (Ok (listing_of 0 0 0 [] rs))"
proof -
  from sqfs_dir_open_holds [OF assms(2), of M undefined] obtain d where
    d: "yields E M (sqfs_dir_open inode 0) (Ok d)" "dir_at (ev_img E) d 0 0 [] rs" "dr_offset d = 0"
    by blast
  obtain c where "cur_ok (dr_cur d)" "md_holds (ev_img E) (dr_cur d) (pending_bytes [] rs) c"
    using d(2) by (auto simp: dir_at_def)
  from md_holds_bound [OF assms(1) this] have "length (listing_of 0 0 0 [] rs) < md_fuel (ev_img E)"
    using listing_of_length [of 0 0 0 "[]" rs] by linarith
  then show ?thesis
    using dir_read_all_listing [OF assms(1) d(2), of "sqfs_dentry_init True" "md_fuel (ev_img E)" M] d(3)
    by (intro yields_bind_Ok [OF d(1)]) (simp add: sqfs_dentry_init_def)
qed

theorem dir_listing_witness:
  "yields wit_env {#}
    (io_bind (sqfs_dir_open wit_sub_inode 0) (\<lambda>dir. dir_read_all (md_fuel wit_img) dir (sqfs_dentry_init True)))
    (Ok [\<lparr>ent_inode = 32, ent_inode_number = 2, ent_type = 2, ent_name = Some [97], ent_name_size = 1,
       ent_offset = 0, ent_next_offset = 21\<rparr>,
     \<lparr>ent_inode = 151, ent_inode_number = 5, ent_type = 2, ent_name = Some [98], ent_name_size = 1,
       ent_offset = 21, ent_next_offset = 30\<rparr>])"
  using dir_listing [of wit_env wit_sub_inode wit_sub_runs "{#}"] wit_dir_holds_sub
  by (simp add: wit_sub_runs_def dir_entry_of_def)



text \<open>C9. Looking up a path is walking the directories of the image: whatever slashes the path has, the
  lookup returns the inode (and the id) that following its components reaches, and not found exactly when
  a directory on the way lacks the next name.\<close>

theorem path_lookup_walks:
  assumes "img_ok (ev_img E)" and "walk E M inode i (path_names path) r"
  shows "yields E M (sqfs_lookup_path_with_id inode i path) (Ok r)"
  using assms by (rule lookup_path_with_id_walk)

lemma wit_walk: "walk wit_env {#} wit_root_inode 0 [[99], [97]] (Some (wit_file_inode, 32))"
proof -
  have "\<exists>x \<in> set (listing_of 0 0 0 [] wit_root_runs). ent_name x = Some [99] \<and> ent_inode x = 119"
    "\<exists>y \<in> set (listing_of 0 0 0 [] wit_sub_runs). ent_name y = Some [97] \<and> ent_inode y = 32"
    by (simp_all add: wit_root_runs_def wit_sub_runs_def dir_entry_of_def)
  then obtain x y where x: "x \<in> set (listing_of 0 0 0 [] wit_root_runs)" "ent_name x = Some [99]" "ent_inode x = 119"
    and y: "y \<in> set (listing_of 0 0 0 [] wit_sub_runs)" "ent_name y = Some [97]" "ent_inode y = 32" by blast
  have "walk wit_env {#} wit_sub_inode 119 [[97]] (Some (wit_file_inode, 32))"
    using wit_dir_holds_sub wit_names_sorted(2) y wit_inode_gets(1)
    by (intro walk.simps(2) [THEN iffD2] exI [of _ wit_sub_runs]) (auto intro!: bexI [of _ y])
  then show ?thesis
    using wit_dir_holds_root wit_names_sorted(1) x wit_inode_gets(3)
    by (intro walk.simps(2) [THEN iffD2] exI [of _ wit_root_runs]) (auto intro!: bexI [of _ x] simp del: walk.simps(2))
qed

theorem path_lookup_walks_witness:
  "yields wit_env {#} (sqfs_lookup_path_with_id wit_root_inode 0 [47, 99, 47, 47, 97]) (Ok (Some (wit_file_inode, 32)))"
proof -
  have p: "path_names [47, 99, 47, 47, 97] = [[99], [97]]" by (simp add: path_names_def slash_def)
  show ?thesis using path_lookup_walks [OF _ wit_walk [folded p]] by simp
qed

section \<open>Files\<close>

text \<open>C2. Reading a range of a file returns that range of its contents: the data blocks one after the
  other (sparse ones as zeros), then the tail from the fragment; cut at the end of the file. Files
  with long block lists are read through the block index, which is built when it is first needed.\<close>

theorem read_range_contents:
  assumes "img_ok (ev_img E)" and "file_holds E inode hs ds tail" and "in_xtra inode = X_Reg st fsz fidx foff"
    and "0 < sz" and "sz < 2 ^ 63" and "0 \<le> start" and "start < int (unat fsz)"
    and "list_reachable E inode st hs (nat start)"
  shows "yields E M (sqfs_read_range inode start sz) (Ok (take (nat sz) (drop (nat start) (file_content ds tail))))"
  using assms by (rule sqfs_read_range_any)

theorem read_range_contents_witness:
  "yields wit_env {#} (sqfs_read_range wit_file_inode 6 100) (Ok [7, 8, 9, 10, 11])"
  using read_range_contents [of wit_env wit_file_inode wit_hdrs "[[1, 2, 3, 4, 5, 6, 7, 8]]" "[9, 10, 11]" 96 11 0 1 100 6 "{#}"]
    wit_file_holds by (simp add: wit_file_xtra file_content_def list_reachable_def unindexed_def wit_hdrs_def)

text \<open>C16. The block index finds what walking finds: for a position in a long file, seeking through the index
  (which is built when the cache does not have it) and taking one step gives the same block list state, cursor
  and block address included, as starting at the beginning of the list and stepping over all the entries
  before.\<close>

theorem blockidx_seek_equivalent:
  assumes "img_ok (ev_img E)" and "file_holds E inode hs ds tail" and "in_xtra inode = X_Reg st fsz fidx foff"
    and "indexable E inode st hs" and "bs = unat (sb_block_size (fs_sb (ev_img E)))"
    and "0 \<le> start" and "nat start < unat fsz" and "seekable inode (length hs) (nat start div bs)"
    and "\<not> unindexed (fs_sb (ev_img E)) inode (length hs) (nat start)"
  shows "\<exists>bl. yields E M (io_bind (sqfs_blockidx_blocklist inode start) sqfs_blocklist_next) (Ok bl) \<and>
    yields E M (io_bind (sqfs_blocklist_init inode) (blocklist_skip (Suc (seek_entry inode (nat start div bs))))) (Ok bl)"
  using assms by (rule blockidx_seek_walk)

theorem blockidx_seek_equivalent_witness:
  "\<exists>bl. yields big_env {#} (io_bind (sqfs_blockidx_blocklist big_inode 2048) sqfs_blocklist_next) (Ok bl) \<and>
    yields big_env {#} (io_bind (sqfs_blocklist_init big_inode) (blocklist_skip 2049)) (Ok bl) \<and>
    fs_clean big_env {#} big_fs"
proof -
  have "seek_entry big_inode 2048 = 2048" by (simp add: seek_entry_def seek_block_def)
  moreover have "seekable big_inode 2049 2048" "\<not> unindexed (fs_sb big_img) big_inode 2049 2048"
    by (simp_all add: seekable_def unindexed_def)
  ultimately show ?thesis
    using blockidx_seek_equivalent [OF _ big_file_holds _ big_indexable refl, of 2049 _ _ 2048 "{#}"] big_clean by simp
qed

section \<open>Extended attributes\<close>

text \<open>C26. Looking up an extended attribute by its full name returns the size and the value of the first
  attribute of the inode with that name, stored in place or out of line; size 0 when there is none, no
  value when the buffer is too small or absent.\<close>

theorem xattr_lookup_value:
  assumes "img_ok (ev_img E)" and "inode_xattrs E inode ds" and "t \<le> SQFS_XATTR_PREFIX_MAX" and "0 \<notin> set nm"
  shows "yields E M (sqfs_xattr_lookup x inode (sqfs_xattr_prefixes ! unat t @ nm) buf)
    (Ok (xattr_answer buf (List.find (xattr_is t nm) ds)))"
  using assms by (rule sqfs_xattr_lookup_finds)

theorem xattr_lookup_value_witness:
  "\<forall>x. yields wit_env {#} (sqfs_xattr_lookup x wit_file_inode (sqfs_xattr_prefixes ! 1 @ [116]) (Some 3))
    (Ok (3, Some [5, 6, 7]))"
  using xattr_lookup_value [of wit_env wit_file_inode wit_xattrs 1 "[116]" "{#}" _ "Some 3"] wit_inode_xattrs
  by (simp add: wit_xattrs_def xattr_is_def xattr_answer_def numeral_3_eq_3)

section \<open>Opening and closing\<close>

text \<open>C8. After \<^verbatim>\<open>sqfs_init\<close> succeeded the invariant that every other operation needs holds: the image
  is sane, the caches are empty and well formed, and the only references to blocks are those the caller
  held before.\<close>

theorem init_establishes_invariant:
  assumes "heap_owned (fs_heap s) M" and "libs_ok L" and "sqfs_init L junk fd offset s = (Ok (), s')"
    and "length fd < 2 ^ 62" and "offset < 2 ^ 62"
  shows "img_ok (fs_img s') \<and>
    fs_clean \<lparr>ev_img = fs_img s', ev_oracle = hp_malloc_ok (fs_heap s'), ev_hdr = hdr, ev_idx = idx\<rparr> M s'"
proof -
  from sqfs_init_spec [OF assms(1), of L junk fd offset] assms(3) obtain sb d where
    v: "init_verdict L fd offset = Ok (sb, d)" and s': "fs_fd s' = fd" "fs_offset s' = offset" "caches_ready s'"
      "heap_owned (fs_heap s') M" "fs_decompressor s' = Some d"
    by auto
  have "\<exists>c. sqfs_decompressor_get L c = Some d"
    using v by (auto simp: init_verdict_def res_bind_eq_Ok split: option.splits if_splits)
  then have "codec_ok d" using sqfs_decompressor_get_ok [OF assms(2)] by blast
  then have "img_ok (fs_img s')" using s' assms(4,5) by (simp add: img_ok_def)
  moreover have "fs_clean \<lparr>ev_img = fs_img s', ev_oracle = hp_malloc_ok (fs_heap s'), ev_hdr = hdr, ev_idx = idx\<rparr> M s'"
    using s'(3,4) by (intro fs_clean_fresh) simp_all
  ultimately show ?thesis by blast
qed

theorem init_establishes_invariant_witness:
  "sqfs_init wit_libs 0 wit_fd 0 wit_blank = (Ok (), wit_fs) \<and> img_ok wit_img \<and> fs_clean wit_env {#} wit_fs"
proof -
  have run: "sqfs_init wit_libs 0 wit_fd 0 wit_blank = (Ok (), wit_fs)" by (rule wit_sqfs_init) simp
  have "wit_env = \<lparr>ev_img = wit_img, ev_oracle = hp_malloc_ok (fs_heap wit_fs), ev_hdr = ev_hdr wit_env, ev_idx = ev_idx wit_env\<rparr>"
    by (simp add: wit_env_def wit_fs_def wit_heap_def)
  then show ?thesis
    using run init_establishes_invariant [OF _ wit_libs_ok run, of "{#}" "ev_hdr wit_env" "ev_idx wit_env"] by simp
qed



text \<open>C35. The checks on the superblock: a wrong magic number is \<^verbatim>\<open>SQFS_BADFORMAT\<close>, a right one with
  another version \<^verbatim>\<open>SQFS_BADVERSION\<close>, a right version with a compression this build does not have
  \<^verbatim>\<open>SQFS_BADCOMP\<close>; nothing is allocated before they are made.\<close>

theorem init_checks_superblock:
  assumes "offset + 96 \<le> length fd" and "length fd < 2 ^ 62"
    and "sb = sqfs_swapin_super_block (take 96 (drop offset fd))"
  shows "(sb_magic sb \<noteq> SQUASHFS_MAGIC \<and> sb_magic sb \<noteq> SQFS_MAGIC_SWAP \<longrightarrow>
      init_verdict L fd offset = Err SQFS_BADFORMAT) \<and>
    (sb_magic sb = SQUASHFS_MAGIC \<and> (sb_major sb \<noteq> SQUASHFS_MAJOR \<or> SQUASHFS_MINOR < sb_minor sb) \<longrightarrow>
      init_verdict L fd offset = Err SQFS_BADVERSION) \<and>
    (sb_magic sb = SQUASHFS_MAGIC \<and> sb_major sb = SQUASHFS_MAJOR \<and> sb_minor sb \<le> SQUASHFS_MINOR \<and>
      sqfs_decompressor_get L (uint (sb_compression sb)) = None \<longrightarrow> init_verdict L fd offset = Err SQFS_BADCOMP) \<and>
    (\<forall>e. init_verdict L fd offset = Err e \<longrightarrow> (\<exists>s'. sqfs_init_with_subdir L junk fd offset subdir s = (Err e, s') \<and>
      fs_heap s' = fs_heap s \<and> caches_absent s'))"
proof (intro conjI impI allI)
  have pr: "sqfs_pread fd 96 (off_wrap (int offset)) = Some (take 96 (drop offset fd))"
    using assms(1,2) by (simp add: sqfs_pread_def)
  have len: "length (take 96 (drop offset fd)) = 96" using assms(1) by simp
  note v = init_verdict_def pr option.case len simp_thms if_False assms(3) [symmetric] sb_checked_def
  show "init_verdict L fd offset = Err SQFS_BADFORMAT"
    if "sb_magic sb \<noteq> SQUASHFS_MAGIC \<and> sb_magic sb \<noteq> SQFS_MAGIC_SWAP" using that unfolding v by simp
  show "init_verdict L fd offset = Err SQFS_BADVERSION"
    if "sb_magic sb = SQUASHFS_MAGIC \<and> (sb_major sb \<noteq> SQUASHFS_MAJOR \<or> SQUASHFS_MINOR < sb_minor sb)"
    using that unfolding v by (auto simp: sb_version_ok_def)
  show "init_verdict L fd offset = Err SQFS_BADCOMP"
    if "sb_magic sb = SQUASHFS_MAGIC \<and> sb_major sb = SQUASHFS_MAJOR \<and> sb_minor sb \<le> SQUASHFS_MINOR \<and>
      sqfs_decompressor_get L (uint (sb_compression sb)) = None" using that unfolding v by (simp add: sb_version_ok_def)
qed (rule sqfs_init_verdict_err)

theorem init_checks_superblock_witness:
  "\<exists>s'. sqfs_init_with_subdir wit_libs 0 (super_block_bytes (wit_sb\<lparr>sb_major := 3\<rparr>)) 0 None wit_blank
    = (Err SQFS_BADVERSION, s')"
  using init_checks_superblock [of 0 "super_block_bytes (wit_sb\<lparr>sb_major := 3\<rparr>)" "wit_sb\<lparr>sb_major := 3\<rparr>" wit_libs 0 None wit_blank]
  by (auto simp: wit_sb_def)

text \<open>C7. \<^verbatim>\<open>sqfs_destroy\<close> gives back every block the caches hold, also after an operation failed: the
  only references left are those the caller still has, and their blocks are untouched.\<close>

theorem destroy_releases_all:
  assumes "fs_inv E strict M s"
  shows "\<exists>s'. sqfs_destroy s = (Ok (), s') \<and> heap_owned (fs_heap s') M \<and>
    (\<forall>a \<in># M. hp_view (fs_heap s') a = hp_view (fs_heap s) a) \<and>
    fs_md_cache s' = None \<and> fs_data_cache s' = None \<and> fs_frag_cache s' = None \<and> fs_blockidx s' = None"
  using assms by (rule sqfs_destroy_inv)

theorem destroy_releases_all_witness:
  "\<exists>s1 s'. sqfs_md_read True \<lparr>cur_block = 108, cur_offset = 92\<rparr> 27 wit_fs =
      (Ok (disk_inode_bytes wit_link, \<lparr>cur_block = 108, cur_offset = 119\<rparr>), s1) \<and>
    sqfs_destroy s1 = (Ok (), s') \<and> heap_owned (fs_heap s') {#}"
proof -
  have "implements False (fs_clean wit_env {#}) (fs_safe wit_env {#})
      (sqfs_md_read True \<lparr>cur_block = 108, cur_offset = 92\<rparr> 27)
      (Ok (disk_inode_bytes wit_link, \<lparr>cur_block = 108, cur_offset = 119\<rparr>))"
    using sqfs_md_read_implements [of wit_env "\<lparr>cur_block = 108, cur_offset = 92\<rparr>" "{#}" True 27] wit_inodes_at(4)
    by (simp add: ms.holds_def)
  then obtain s1 where s1: "sqfs_md_read True \<lparr>cur_block = 108, cur_offset = 92\<rparr> 27 wit_fs =
      (Ok (disk_inode_bytes wit_link, \<lparr>cur_block = 108, cur_offset = 119\<rparr>), s1)" "fs_clean wit_env {#} s1"
    using wit_clean by (auto elim: implements_OkD)
  from destroy_releases_all [OF s1(2)] s1(1) show ?thesis by blast
qed

text \<open>C40. A subdirectory that consists of slashes only is found, but its inode id is never assigned: the
  opened file system's root inode is whatever the variable \<^verbatim>\<open>new_root\<close> held.\<close>

theorem init_slash_root_unassigned:
  assumes "sqfs_init_with_subdir L junk fd offset (Some [slash]) s = (Ok (), s')"
  shows "sb_root_inode (fs_sb s') = junk"
proof -
  obtain sb d where v: "init_verdict L fd offset = Ok (sb, d)"
    using assms sqfs_init_verdict_err [of L fd offset _ junk "Some [slash]" s] init_verdict_no_fault [of L fd offset]
    by (cases "init_verdict L fd offset") auto
  have "lookup_loop f i junk [slash] e = io_ret (Some (i, junk))" for f i e by (simp add: lookup_loop.simps)
  then show ?thesis using assms unfolding sqfs_init_with_subdir_steps [OF v]
    by (auto simp: io_bind_eq_Ok io_ret_run io_raise_run io_simps init_subdir_def sqfs_lookup_path_with_id_def
        split: if_splits res.splits sum.splits prod.splits)
qed

theorem init_slash_root_unassigned_witness:
  "\<exists>s'. sqfs_init_with_subdir wit_libs 12345 wit_fd 0 (Some [slash]) wit_blank = (Ok (), s') \<and>
    sb_root_inode (fs_sb s') = 12345"
proof -
  obtain s' where "sqfs_init_with_subdir wit_libs 12345 wit_fd 0 (Some [slash]) wit_blank = (Ok (), s')"
    using wit_init_slash by blast
  then show ?thesis using init_slash_root_unassigned by blast
qed

section \<open>Decompression\<close>

text \<open>Every decompressor respects the size of its output buffer, provided that the library behind it
  does.\<close>

theorem codec_output_fits:
  assumes "libs_ok L" and "sqfs_decompressor_get L type = Some d" and "d inp n = Ok out"
  shows "length out \<le> n"
  using sqfs_decompressor_get_ok [OF assms(1,2)] assms(3) unfolding codec_ok_def by (metis res.simps(10))

theorem codec_output_fits_witness: "length [1, 2 :: u8] \<le> 2"
  by (rule codec_output_fits [OF wit_libs_ok, of 1 "sqfs_decompressor_zlib wit_uncompress" "[1, 2, 3]"])
    (simp_all add: sqfs_decompressor_get_def wit_libs_def sqfs_decompressor_zlib_def wit_uncompress_def)

text \<open>The list of supported compressions names exactly the types a decompressor exists for, and each
  of those has a name.\<close>

lemma compression_supported_exact:
  "set (sqfs_compression_supported L) - {SQFS_COMP_UNKNOWN} = dom (sqfs_decompressor_get L) \<and>
   dom (sqfs_decompressor_get L) \<subseteq> dom sqfs_compression_name"
proof
  have "sqfs_decompressor_get L SQFS_COMP_UNKNOWN = None" by (simp add: sqfs_decompressor_get_def)
  then show "set (sqfs_compression_supported L) - {SQFS_COMP_UNKNOWN} = dom (sqfs_decompressor_get L)"
    by (auto simp: sqfs_compression_supported_get)
  show "dom (sqfs_decompressor_get L) \<subseteq> dom sqfs_compression_name"
    using sqfs_compression_name_get by (auto simp: dom_def)
qed

section \<open>Traversal\<close>

text \<open>The state machine of \<^verbatim>\<open>sqfs_traverse_next\<close> always comes to an end, from every state: four
  rounds are enough, more change nothing, and running out of rounds never happens.\<close>

theorem traverse_next_ends:
  "traverse_loop (4 + n) trv s = sqfs_traverse_next trv s"
proof -
  have "traverse_rank (tv_state trv) \<le> 4" by (cases "tv_state trv") simp_all
  then show ?thesis unfolding sqfs_traverse_next_def by (rule traverse_loop_fuel)
qed

text \<open>C12. Opening a traversal and calling \<^verbatim>\<open>sqfs_traverse_next\<close> until it returns false visits the
  tree of the image: every entry once, a directory before its contents in their order, with the full path of
  the entry in the path buffer, and the end of every directory; then it stops without an error. One call more
  than there are visits is enough, and further calls do not matter.\<close>

theorem traverse_visits_tree:
  assumes "img_ok (ev_img E)" and "\<not> ev_oom E" and "fs_clean E M s"
    and "yields E M (sqfs_inode_get i) (Ok inode)" and "entries_hold E inode ts"
    and "\<forall>t \<in> set ts. tree_holds E M t" and "short (forest_visits ts)"
  shows "\<exists>trv s1 trv' s'. sqfs_traverse_open i junk s = (Ok (Inr (), trv), s1) \<and>
    traverse_all (Suc (length (forest_visits ts)) + n) trv s1 = (Ok ((forest_visits ts, None), trv'), s') \<and> fs_clean E M s'"
proof -
  from traverse_visits [OF assms] obtain trv s1 where
    t: "sqfs_traverse_open i junk s = (Ok (Inr (), trv), s1)"
      "tours E M (trv_at E M [] [] TRAVERSE_FINISHED) trv s1 (forest_visits ts)" by blast
  with tours_all [OF t(2), of n] show ?thesis by (auto simp: trv_at_def)
qed

definition wit_trees :: "sqfs_tree list" where
  "wit_trees = map2 Tree (listing_of 0 0 0 [] wit_root_runs) [[], [], map (\<lambda>e. Tree e []) (listing_of 0 0 0 [] wit_sub_runs)]"

lemma wit_tree:
  "entries_hold wit_env wit_root_inode wit_trees" "\<forall>t \<in> set wit_trees. tree_holds wit_env {#} t"
  "map visit_path (forest_visits wit_trees) = [[97], [98], [99], [99, 47, 97], [99, 47, 98], [99]]"
  "map visit_line (forest_visits wit_trees) = [[97, 10], [98, 10], [99, 10], [99, 47, 97, 10], [99, 47, 98, 10], []]"
proof -
  show "entries_hold wit_env wit_root_inode wit_trees"
    using wit_dir_holds_root by (intro entries_hold_def [THEN iffD2] exI [of _ wit_root_runs])
      (simp add: wit_trees_def wit_root_runs_def dir_entry_of_def)
  have "entries_hold wit_env wit_sub_inode (map (\<lambda>e. Tree e []) (listing_of 0 0 0 [] wit_sub_runs))"
    using wit_dir_holds_sub by (intro entries_hold_def [THEN iffD2] exI [of _ wit_sub_runs])
      (simp add: wit_sub_runs_def dir_entry_of_def)
  then show "\<forall>t \<in> set wit_trees. tree_holds wit_env {#} t"
    using wit_inode_gets(3) by (auto simp: wit_trees_def wit_root_runs_def wit_sub_runs_def dir_entry_of_def sqfs_dentry_is_dir_def
        S_ISDIR_def sqfs_dentry_mode_def sqfs_mode_def)
  show "map visit_path (forest_visits wit_trees) = [[97], [98], [99], [99, 47, 97], [99, 47, 98], [99]]"
    "map visit_line (forest_visits wit_trees) = [[97, 10], [98, 10], [99, 10], [99, 47, 97, 10], [99, 47, 98, 10], []]"
    by (simp_all add: wit_trees_def wit_root_runs_def wit_sub_runs_def dir_entry_of_def sqfs_dentry_is_dir_def
        S_ISDIR_def sqfs_dentry_mode_def sqfs_mode_def slash_def)
qed

lemma wit_short: "short (forest_visits wit_trees)"
proof -
  have "\<forall>p \<in> set (map visit_path (forest_visits wit_trees)). length p < 2 ^ 49" unfolding wit_tree(3) by simp
  then show ?thesis by (simp add: short_def)
qed

theorem traverse_visits_tree_witness:
  "\<forall>junk. \<exists>trv s1 vs trv' s'. sqfs_traverse_open 0 junk wit_fs = (Ok (Inr (), trv), s1) \<and>
    traverse_all 7 trv s1 = (Ok ((vs, None), trv'), s') \<and> map visit_path vs = [[97], [98], [99], [99, 47, 97], [99, 47, 98], [99]]"
proof
  fix junk
  have "length (map visit_path (forest_visits wit_trees)) = 6" unfolding wit_tree(3) by simp
  then have len: "Suc (length (forest_visits wit_trees)) + 0 = 7" by simp
  show "\<exists>trv s1 vs trv' s'. sqfs_traverse_open 0 junk wit_fs = (Ok (Inr (), trv), s1) \<and>
    traverse_all 7 trv s1 = (Ok ((vs, None), trv'), s') \<and> map visit_path vs = [[97], [98], [99], [99, 47, 97], [99, 47, 98], [99]]"
    using traverse_visits_tree [OF _ _ wit_clean wit_root_inode_get wit_tree(1,2) wit_short, of junk 0] wit_tree(3)
    unfolding len by auto
qed

section \<open>FUSE clients\<close>

text \<open>C24. The table of inode numbers on a system whose inode numbers are too small for positions: registering
  a directory entry counts a lookup of its inode, forgetting takes lookups back and drops the inode with the
  last one; no other inode is affected, and the number that was handed out is the one to forget.\<close>

theorem inode_table_refines:
  assumes "icache_ok ll" and "ent_inode e < 2 ^ 48" and "pred_option (\<lambda>(k, p). Suc k < 2 ^ 32) (known ll (ent_inode_number e))"
  shows "\<exists>w :: u32. \<exists>ll1 ll2. ino_register e ll = (Ok w, ll1) \<and> ino_forget w refs ll1 = (Ok (), ll2) \<and> icache_ok ll2 \<and>
    known ll1 = (known ll)(ent_inode_number e \<mapsto>
      (case known ll (ent_inode_number e) of None \<Rightarrow> (1, ent_inode e) | Some (k, p) \<Rightarrow> (Suc k, p))) \<and>
    known ll2 = (known ll1)(ent_inode_number e := (case known ll1 (ent_inode_number e) of None \<Rightarrow> None
      | Some (k, p) \<Rightarrow> if refs < k then Some (k - refs, p) else None))"
proof -
  let ?mp = "\<lparr>im_root = root_of ll, im_icache = None\<rparr>" and ?n = "ent_inode_number e"
  have few: "Suc k < 2 ^ 32" if "known ll ?n = Some (k, i)" for k i using assms(3) that by simp
  from register_known [OF assms(1,2)] few obtain ll1 where
    1: "ino_register e ll = (Ok (sqfs_ll_ino32_num2fuse ?mp ?n :: u32), ll1)" "icache_ok ll1" "same_ll ll ll1"
      "known ll1 = (known ll)(?n \<mapsto> (case known ll ?n of None \<Rightarrow> (1, ent_inode e) | Some (k, i) \<Rightarrow> (Suc k, i)))" by blast
  have "sqfs_ll_ino32_fuse2num \<lparr>im_root = root_of ll1, im_icache = None\<rparr> (sqfs_ll_ino32_num2fuse ?mp ?n :: u32) = ?n"
    using same_ll_root [OF 1(3)] ino32_roundtrip [of ?mp ?n] by simp
  with forget_known [OF 1(2), of "sqfs_ll_ino32_num2fuse ?mp ?n" refs] 1 show ?thesis by auto
qed

definition wit_ll :: sqfs_ll where
  "wit_ll = \<lparr>ll_fs = wit_fs, ll_ino = Some INO32, ll_ino_data = Some \<lparr>im_root = 1, im_icache =
     Some \<lparr>h_value_size = 12, h_capacity = 2, h_size = 0, h_buckets = Some [[], []]\<rparr>\<rparr>\<rparr>"

definition wit_entry :: sqfs_dir_entry where
  "wit_entry = \<lparr>ent_inode = 119, ent_inode_number = 4, ent_type = 1, ent_name = Some [99], ent_name_size = 1,
     ent_offset = 0, ent_next_offset = 9\<rparr>"

lemma wit_icache: "icache_ok wit_ll" "known wit_ll n = None"
proof -
  let ?t = "\<lparr>h_value_size = 12, h_capacity = 2, h_size = 0, h_buckets = Some [[], []]\<rparr> :: sqfs_ll_inode_entry sqfs_hash"
  have "hash_wf ?t" by (auto simp: hash_wf_def chains_ok_def less_Suc_eq numeral_2_eq_2 intro!: exI [of _ 1])
  then show "icache_ok wit_ll" by (simp add: icache_ok_def wit_ll_def wit_fs_def wit_heap_def)
  have "unat n mod 2 = 0 \<or> unat n mod 2 = 1" by presburger
  then have "hash_map ?t n = None" by (auto simp: hash_map_def hash_chain_def Let_def)
  then show "known wit_ll n = None" by (simp add: known_def icache_of_def wit_ll_def)
qed

theorem inode_table_refines_witness:
  "\<exists>w :: u32. \<exists>ll1 ll2. ino_register wit_entry wit_ll = (Ok w, ll1) \<and> known ll1 4 = Some (1, 119) \<and>
    ino_forget w 1 ll1 = (Ok (), ll2) \<and> known ll2 4 = None"
  using inode_table_refines [of wit_ll wit_entry 1] wit_icache by (auto simp: wit_entry_def)



text \<open>C20. A lookup through the low-level client (with positions as inode numbers) answers with an entry
  exactly when the directory has the name, and the inode number in the answer resolves to the inode of that
  directory entry; a missing name is answered with inode zero.\<close>

theorem ll_lookup_registers:
  assumes "session_on E M s" and "ll_ino (ls_ll s) = Some INO64" and "parent \<noteq> (0 :: u64)"
    and "yields E M (sqfs_inode_get (sqfs_ll_ino64_sqfs (ls_ll s) parent)) (Ok dir)"
    and "dir_holds (ev_img E) dir rs" and "names_sorted (listing_of 0 0 0 [] rs)" and "0 \<notin> set name"
    and "\<forall>e \<in> set (listing_of 0 0 0 [] rs). ent_inode e \<noteq> 1 \<and> ent_inode e \<noteq> 2 \<and>
      (\<exists>inode st. yields E M (sqfs_inode_get (ent_inode e)) (Ok inode) \<and> yields E M (sqfs_stat (lc_makedev cf) inode) (Ok st))"
  shows "\<exists>s' fe. sqfs_ll_op_lookup cf now parent name s = (Ok (), s') \<and> ls_replies s' = ls_replies s @ [Reply_Entry fe] \<and>
    (if \<exists>e \<in> set (listing_of 0 0 0 [] rs). ent_name e = Some name
     then \<exists>e \<in> set (listing_of 0 0 0 [] rs). ent_name e = Some name \<and> fe_ino fe \<noteq> 0 \<and>
       sqfs_ll_ino64_sqfs (ls_ll s') (fe_ino fe) = ent_inode e
     else fe_ino fe = 0)"
  by (rule ll_lookup_entry [OF assms(1-7)]) (use assms(8) in blast)

definition wit_config :: ll_config where
  "wit_config = \<lparr>lc_multithreaded = False, lc_broken_offsets = False, lc_makedev = \<lambda>mj mn. word_of_int (256 * mj + mn),
     lc_enoattr = 61, lc_direntry = \<lambda>nm _ _. nm @ replicate (32 - length nm) 0, lc_xattr =
     \<lparr>xa_cursors = 0, xa_c_name = undefined, xa_c_vsize = undefined, xa_c_val = undefined, xa_c_next = undefined,
      xa_remain = 0, xa_info = undefined, xa_type = 0, xa_ool = False, xa_entry = undefined, xa_val = undefined\<rparr>\<rparr>"

definition wit_session :: ll_session where
  "wit_session = idle_session \<lparr>ll_fs = wit_fs, ll_ino = Some INO64, ll_ino_data = None\<rparr>"

lemma wit_stats:
  "\<exists>st. yields wit_env {#} (sqfs_stat (lc_makedev wit_config) wit_file_inode) (Ok st)"
  "\<exists>st. yields wit_env {#} (sqfs_stat (lc_makedev wit_config) wit_link_inode) (Ok st)"
  "\<exists>st. yields wit_env {#} (sqfs_stat (lc_makedev wit_config) wit_sub_inode) (Ok st)"
proof -
  have tab: "table_holds wit_img (fs_id_table wit_img) [wit_ids]" "tb_each (fs_id_table wit_img) = 4" "tb_count (fs_id_table wit_img) = 2"
    using wit_tables(1) by (simp_all add: wit_table_def)
  have one: "\<exists>st. yields wit_env {#} (sqfs_stat (lc_makedev wit_config) inode) (Ok st)"
    if ids: "unat (bi_uid (in_base inode)) < 2" "unat (bi_guid (in_base inode)) < 2"
      and x: "\<And>st. st_mode st = in_mode inode \<Longrightarrow> \<exists>st'. stat_xtra (lc_makedev wit_config) inode st = Ok st'" for inode
  proof -
    let ?st = "stat_zero\<lparr>st_mode := in_mode inode, st_nlink := in_nlink inode, st_mtime := uint (bi_mtime (in_base inode)),
      st_ctime := uint (bi_mtime (in_base inode)), st_atime := uint (bi_mtime (in_base inode))\<rparr>"
    obtain st' where "stat_xtra (lc_makedev wit_config) inode ?st = Ok st'" using x [of ?st] by auto
    from sqfs_stat_fields [of wit_env "[wit_ids]" inode, OF _ _ _ _ this, of "{#}"] tab ids show ?thesis by auto
  qed
  show "\<exists>st. yields wit_env {#} (sqfs_stat (lc_makedev wit_config) wit_file_inode) (Ok st)"
    by (rule one) (auto simp: wit_file_inode_def disk_inode_of_def wit_file_def squashfs_base_inode.defs stat_xtra_def in_mode_def
        S_ISREG_def sqfs_mode_def)
  show "\<exists>st. yields wit_env {#} (sqfs_stat (lc_makedev wit_config) wit_link_inode) (Ok st)"
    by (rule one) (auto simp: wit_link_inode_def disk_inode_of_def wit_link_def squashfs_base_inode.defs stat_xtra_def in_mode_def
        S_ISREG_def S_ISBLK_def S_ISCHR_def S_ISLNK_def sqfs_mode_def)
  show "\<exists>st. yields wit_env {#} (sqfs_stat (lc_makedev wit_config) wit_sub_inode) (Ok st)"
    by (rule one) (auto simp: wit_sub_inode_def disk_inode_of_def wit_sub_def squashfs_base_inode.defs stat_xtra_def in_mode_def
        S_ISREG_def S_ISBLK_def S_ISCHR_def S_ISLNK_def sqfs_mode_def)
qed

theorem ll_lookup_registers_witness:
  "\<exists>s' fe. sqfs_ll_op_lookup wit_config 7 (1 :: u64) [99] wit_session = (Ok (), s') \<and> ls_replies s' = [Reply_Entry fe] \<and>
    sqfs_ll_ino64_sqfs (ls_ll s') (fe_ino fe) = 119"
proof -
  have ents: "\<forall>e \<in> set (listing_of 0 0 0 [] wit_root_runs). ent_inode e \<noteq> 1 \<and> ent_inode e \<noteq> 2 \<and>
      (\<exists>inode st. yields wit_env {#} (sqfs_inode_get (ent_inode e)) (Ok inode) \<and>
         yields wit_env {#} (sqfs_stat (lc_makedev wit_config) inode) (Ok st))"
    using wit_stats wit_inode_gets by (auto simp: wit_root_runs_def dir_entry_of_def)
  have "session_on wit_env {#} wit_session" using wit_clean by (simp add: session_on_def wit_session_def idle_session_def)
  from ll_lookup_registers [OF this _ _ _ _ wit_names_sorted(1) _ ents, of 1 wit_root_inode "[99]" 7]
    wit_root_inode_get wit_dir_holds_root obtain s' fe where
    "sqfs_ll_op_lookup wit_config 7 (1 :: u64) [99] wit_session = (Ok (), s')" "ls_replies s' = [Reply_Entry fe]"
    "if \<exists>e \<in> set (listing_of 0 0 0 [] wit_root_runs). ent_name e = Some [99]
     then \<exists>e \<in> set (listing_of 0 0 0 [] wit_root_runs). ent_name e = Some [99] \<and> fe_ino fe \<noteq> 0 \<and>
       sqfs_ll_ino64_sqfs (ls_ll s') (fe_ino fe) = ent_inode e
     else fe_ino fe = 0"
    by (auto simp: wit_session_def idle_session_def sqfs_ll_ino64_sqfs_def sqfs_inode_root_def wit_sb_def)
  then show ?thesis by (auto simp: wit_root_runs_def dir_entry_of_def)
qed

text \<open>C10. Through the high-level client, opening a path and reading from the open file returns that range of
  the contents of the file the path leads to.\<close>

theorem hl_open_read:
  assumes "hl_on E M s" and "walk E M (hl_root (hs_hl s)) 0 (path_names path) (Some (inode, i))"
    and "file_holds E inode hs ds tail" and "in_xtra inode = X_Reg st fsz fidx foff" and "S_ISREG (in_mode inode)"
    and "fi_flags fi AND 3 = 0" and "0 < sz" and "sz < 2 ^ 63" and "0 \<le> off" and "off < int (unat fsz)"
    and "list_reachable E inode st hs (nat off)"
  shows "\<exists>fi' s1 s2. sqfs_hl_op_open (Some path) fi s = (Ok (Inr fi'), s1) \<and>
    sqfs_hl_op_read sz off fi' s1 = (Ok (Inr (take sz (drop (nat off) (file_content ds tail)))), s2)"
proof -
  have im: "img_ok (ev_img E)" using assms(1) by (simp add: hl_on_def)
  have "yields E M (sqfs_read_range inode off (int sz)) (Ok (take (nat (int sz)) (drop (nat off) (file_content ds tail))))"
    by (rule sqfs_read_range_any [OF im assms(3,4) _ _ assms(9,10,11)]) (use assms(7,8) in simp_all)
  then show ?thesis using hl_open_read_slice [OF assms(1,2,5,6) _ assms(8)] by simp
qed

definition wit_hl :: hl_session where
  "wit_hl = \<lparr>hs_hl = \<lparr>hl_fs = wit_fs, hl_root = wit_root_inode\<rparr>, hs_handles = Map.empty, hs_brk = 0,
     hs_notify_pipe = None, hs_notices = []\<rparr>"

theorem hl_open_read_witness:
  "\<exists>fi' s1 s2. sqfs_hl_op_open (Some [47, 99, 47, 97]) \<lparr>fi_flags = 0, fi_fh = 0, fi_keep_cache = False\<rparr> wit_hl = (Ok (Inr fi'), s1) \<and>
    sqfs_hl_op_read 100 6 fi' s1 = (Ok (Inr [7, 8, 9, 10, 11]), s2)"
proof -
  have p: "path_names [47, 99, 47, 97] = [[99], [97]]" by (simp add: path_names_def slash_def)
  have "hl_on wit_env {#} wit_hl" using wit_clean by (simp add: hl_on_def wit_hl_def)
  then show ?thesis
    using hl_open_read [of wit_env "{#}" wit_hl "[47, 99, 47, 97]" wit_file_inode 32 wit_hdrs "[[1, 2, 3, 4, 5, 6, 7, 8]]" "[9, 10, 11]"
        96 11 0 1 "\<lparr>fi_flags = 0, fi_fh = 0, fi_keep_cache = False\<rparr>" 100 6] wit_walk [folded p] wit_file_holds wit_file_xtra
    by (simp add: wit_hl_def file_content_def list_reachable_def unindexed_def wit_hdrs_def)
qed


definition wit_open_env :: "unit open_env" where
  "wit_open_env = \<lparr>oe_files = [[97] \<mapsto> wit_fd], oe_why = ''No such file or directory'', oe_libs = wit_libs, oe_junk = 0\<rparr>"

lemma wit_open_run:
  "sqfs_open_image wit_open_env [97] 0 \<lparr>os_fs = wit_blank, os_fds = 3, os_stderr = []\<rparr> =
    (Ok wit_fd, \<lparr>os_fs = wit_fs, os_fds = 4, os_stderr = []\<rparr>)"
proof -
  have "sqfs_init wit_libs 0 wit_fd 0 wit_blank = (Ok (), wit_fs)" by (rule wit_sqfs_init) simp
  then show ?thesis
    by (simp add: sqfs_open_image_def sqfs_open_image_with_subdir_def sqfs_fd_open_def wit_open_env_def io_simps on_os_def sqfs_init_def)
qed


section \<open>The listing program\<close>

text \<open>C13. The program \<^verbatim>\<open>squashfuse_ls\<close>, given an image it can open, prints the path of every entry of
  the image's tree, one to a line, a directory before its contents; it writes no message, exits with status 0,
  and has closed its descriptor.\<close>

theorem ls_prints_tree:
  assumes "sqfs_open_image env file 0 (ts_os s) = (Ok fd, os)"
    and "img_ok (ev_img E)" and "\<not> ev_oom E" and "fs_clean E M (os_fs os)"
    and "yields E M (sqfs_inode_get (sb_root_inode (fs_sb (ev_img E)))) (Ok inode)" and "entries_hold E inode ts"
    and "\<forall>t \<in> set ts. tree_holds E M t" and "short (forest_visits ts)"
  shows "\<exists>s'. ls_main env junk (Suc (length (forest_visits ts)) + n) [prog, file] s = (Ok 0, s') \<and>
    ts_stdout s' = ts_stdout s @ concat (map visit_line (forest_visits ts)) \<and>
    os_fds (ts_os s') = os_fds os - 1 \<and> os_stderr (ts_os s') = os_stderr os"
  using assms by (rule ls_main_lists)

theorem ls_prints_tree_witness:
  "\<forall>junk. \<exists>s'. ls_main wit_open_env junk 7 [[108, 115], [97]]
      \<lparr>ts_os = \<lparr>os_fs = wit_blank, os_fds = 3, os_stderr = []\<rparr>, ts_stdout = []\<rparr> = (Ok 0, s') \<and>
    ts_stdout s' = [97, 10, 98, 10, 99, 10, 99, 47, 97, 10, 99, 47, 98, 10] \<and> os_fds (ts_os s') = 3"
proof
  fix junk
  let ?s = "\<lparr>ts_os = \<lparr>os_fs = wit_blank, os_fds = 3, os_stderr = []\<rparr>, ts_stdout = []\<rparr>"
  have "length (map visit_path (forest_visits wit_trees)) = 6" unfolding wit_tree(3) by simp
  then have len: "Suc (length (forest_visits wit_trees)) + 0 = 7" by simp
  have "yields wit_env {#} (sqfs_inode_get (sb_root_inode (fs_sb (ev_img wit_env)))) (Ok wit_root_inode)"
    using wit_root_inode_get by (simp add: wit_sb_def)
  then show "\<exists>s'. ls_main wit_open_env junk 7 [[108, 115], [97]] ?s = (Ok 0, s') \<and>
      ts_stdout s' = [97, 10, 98, 10, 99, 10, 99, 47, 97, 10, 99, 47, 98, 10] \<and> os_fds (ts_os s') = 3"
    using ls_prints_tree [of wit_open_env "[97]" ?s wit_fd "\<lparr>os_fs = wit_fs, os_fds = 4, os_stderr = []\<rparr>",
        OF _ _ _ _ _ wit_tree(1,2) wit_short, of junk 0 "[108, 115]"] wit_clean wit_open_run
    unfolding len wit_tree(4) by auto
qed

section \<open>The extraction program\<close>

text \<open>C15. The program \<^verbatim>\<open>squashfuse_extract\<close>, given an image it can open and a system that makes the
  directories, files and links it asks for, makes exactly the calls the tree calls for, in the order of the
  traversal: it makes \<^verbatim>\<open>squashfs-root/\<close>, and for every entry whose path starts with the path it was
  given (every entry, with \<^verbatim>\<open>-a\<close>) a directory unless it exists, a file written in chunks of 64 KiB with
  its mode, or a link; and it exits with status 0, its descriptor closed. What it does not do is visible in the
  calls: extended inodes, devices and sockets are passed over, and the target of a link is cut to the length of
  the link's own path.\<close>

theorem extract_tree_calls:
  assumes "sqfs_open_image env file 0 (ts_os (ex_tool s)) = (Ok fd, os)"
    and "img_ok (ev_img E)" and "\<not> ev_oom E" and "fs_clean E M (os_fs os)" and "obedient X"
    and "yields E M (sqfs_inode_get (sb_root_inode (fs_sb (ev_img E)))) (Ok inode)" and "entries_hold E inode ts"
    and "\<forall>t \<in> set ts. tree_holds E M t" and "short (forest_visits ts)"
    and "\<forall>v \<in> set (forest_visits ts). extract_fit E M X want nodes v"
  shows "\<exists>s'. extract_main env X junk (Suc (length (forest_visits ts)) + n) [prog, file, want] s = (Ok 0, s') \<and>
    ex_calls s' = fold (extract_update X want nodes) (forest_visits ts) (ex_calls s @ dir_calls X prefix (ex_calls s)) \<and>
    ex_fds s' = os_fds os - 1"
  using assms by (rule extract_main_calls)

definition wit_host :: extract_env where
  "wit_host = \<lparr>xe_sys = (\<lambda>h c. case c of Access q \<Rightarrow> False | _ \<Rightarrow> True), xe_why = [], xe_seen = (\<lambda>x. 0),
     xe_makedev = lc_makedev wit_config\<rparr>"

definition wit_nodes :: "sqfs_inode_id \<Rightarrow> node" where
  "wit_nodes i = (if i = 92 then N_Link [99, 47, 97] else if i = 119 then N_Dir
     else if i = 151 then N_Reg 33152 [1, 2, 3, 4, 5, 6, 7, 8, 9, 10, 11] else N_Other)"

definition wit_tool :: extract_state where
  "wit_tool = \<lparr>ex_tool = \<lparr>ts_os = \<lparr>os_fs = wit_blank, os_fds = 3, os_stderr = []\<rparr>, ts_stdout = []\<rparr>, ex_calls = []\<rparr>"

lemma wit_reg_stat: "\<exists>st. yields wit_env {#} (sqfs_stat (lc_makedev wit_config) wit_reg_inode) (Ok st) \<and> st_mode st = 33152"
proof -
  let ?st = "stat_zero\<lparr>st_mode := in_mode wit_reg_inode, st_nlink := in_nlink wit_reg_inode, st_mtime := uint (bi_mtime (in_base wit_reg_inode)),
      st_ctime := uint (bi_mtime (in_base wit_reg_inode)), st_atime := uint (bi_mtime (in_base wit_reg_inode))\<rparr>"
  have tab: "table_holds wit_img (fs_id_table wit_img) [wit_ids]" "tb_each (fs_id_table wit_img) = 4" "tb_count (fs_id_table wit_img) = 2"
    using wit_tables(1) by (simp_all add: wit_table_def)
  obtain st' where st': "stat_xtra (lc_makedev wit_config) wit_reg_inode ?st = Ok st'" "st_mode st' = 33152"
    by (auto simp: stat_xtra_def wit_reg_xtra S_ISREG_def)
  have ids: "unat (bi_uid (in_base wit_reg_inode)) < 2" "unat (bi_guid (in_base wit_reg_inode)) < 2"
    by (simp_all add: wit_reg_inode_def disk_inode_of_def wit_reg_def squashfs_base_inode.defs)
  from sqfs_stat_fields [of wit_env "[wit_ids]" wit_reg_inode, OF _ _ _ _ st'(1), of "{#}"] tab ids st'(2) show ?thesis by auto
qed

lemma wit_node_holds: "i \<in> {32, 92, 119, 151} \<Longrightarrow> node_holds wit_env {#} wit_host i (wit_nodes i)"
proof -
  have "inode_is wit_env {#} wit_host wit_file_inode N_Other"
    by (simp add: inode_is_def wit_file_inode_def disk_inode_of_def wit_file_def squashfs_base_inode.defs)
  moreover have "inode_is wit_env {#} wit_host wit_sub_inode N_Dir"
    by (simp add: inode_is_def wit_sub_inode_def disk_inode_of_def wit_sub_def squashfs_base_inode.defs)
  moreover have "inode_is wit_env {#} wit_host wit_reg_inode (N_Reg 33152 [1, 2, 3, 4, 5, 6, 7, 8, 9, 10, 11])"
    using wit_reg_holds wit_reg_stat unfolding inode_is_def Let_def node.case
    by (intro conjI exI [of _ wit_hdrs] exI [of _ "[[1, 2, 3, 4, 5, 6, 7, 8]]"] exI [of _ "[9, 10, 11]"])
      (auto simp: wit_reg_xtra file_content_def wit_host_def list_reachable_def unindexed_def wit_hdrs_def)
  moreover have "inode_is wit_env {#} wit_host wit_link_inode (N_Link [99, 47, 97])"
    using wit_link_at by (auto simp: inode_is_def wit_link_inode_def disk_inode_of_def wit_link_def in_mode_def S_ISLNK_def sqfs_mode_def
        squashfs_base_inode.defs)
  ultimately show "i \<in> {32, 92, 119, 151} \<Longrightarrow> node_holds wit_env {#} wit_host i (wit_nodes i)"
    using wit_inode_gets unfolding node_holds_def wit_nodes_def by auto
qed

lemma wit_visits:
  "\<exists>a b c ca cb. forest_visits wit_trees = [Entry_At [97] a, Entry_At [98] b, Entry_At [99] c, Entry_At [99, 47, 97] ca,
     Entry_At [99, 47, 98] cb, Dir_End [99]] \<and>
   ent_inode a = 32 \<and> ent_inode b = 92 \<and> ent_inode c = 119 \<and> ent_inode ca = 32 \<and> ent_inode cb = 151"
  by (simp add: wit_trees_def wit_root_runs_def wit_sub_runs_def dir_entry_of_def sqfs_dentry_is_dir_def
      S_ISDIR_def sqfs_dentry_mode_def sqfs_mode_def slash_def)

lemma wit_fit: "\<forall>v \<in> set (forest_visits wit_trees). extract_fit wit_env {#} wit_host want wit_nodes v"
proof -
  have "obedient wit_host" by (simp add: obedient_def wit_host_def)
  obtain a b c ca cb where v: "forest_visits wit_trees = [Entry_At [97] a, Entry_At [98] b, Entry_At [99] c, Entry_At [99, 47, 97] ca,
     Entry_At [99, 47, 98] cb, Dir_End [99]]" "ent_inode a = 32" "ent_inode b = 92" "ent_inode c = 119" "ent_inode ca = 32" "ent_inode cb = 151"
    using wit_visits by blast
  with \<open>obedient wit_host\<close> show ?thesis unfolding v(1) by (simp add: extract_fit_def wit_node_holds)
qed

lemma wit_root_get: "yields wit_env {#} (sqfs_inode_get (sb_root_inode (fs_sb (ev_img wit_env)))) (Ok wit_root_inode)"
  using wit_root_inode_get by (simp add: wit_sb_def)

lemma wit_visit_count: "Suc (length (forest_visits wit_trees)) + 0 = 7"
  using arg_cong [OF wit_tree(3), of length] by simp

lemma wit_tool_open: "sqfs_open_image wit_open_env [97] 0 (ts_os (ex_tool wit_tool)) =
    (Ok wit_fd, \<lparr>os_fs = wit_fs, os_fds = 4, os_stderr = []\<rparr>)"
  using wit_open_run by (simp add: wit_tool_def)

theorem extract_tree_calls_witness:
  "\<forall>junk. \<exists>s'. extract_main wit_open_env wit_host junk 7 [[120], [97], [99]] wit_tool = (Ok 0, s') \<and>
    ex_calls s' = [Access prefix, Mkdir prefix 511, Access (prefix @ [99]), Mkdir (prefix @ [99]) 511,
      Fopen (prefix @ [99, 47, 98]), Fwrite (prefix @ [99, 47, 98]) [1, 2, 3, 4, 5, 6, 7, 8, 9, 10, 11],
      Fclose (prefix @ [99, 47, 98]), Chmod (prefix @ [99, 47, 98]) 33152] \<and> ex_fds s' = 3"
proof
  fix junk
  have "obedient wit_host" by (simp add: obedient_def wit_host_def)
  from extract_tree_calls [OF wit_tool_open _ _ _ this wit_root_get wit_tree(1,2) wit_short wit_fit, of junk 0 "[120]" "[99]"] wit_clean
  obtain s' where s': "extract_main wit_open_env wit_host junk 7 [[120], [97], [99]] wit_tool = (Ok 0, s')" "ex_fds s' = 3"
    "ex_calls s' = fold (extract_update wit_host [99] wit_nodes) (forest_visits wit_trees)
      (ex_calls wit_tool @ dir_calls wit_host prefix (ex_calls wit_tool))" unfolding wit_visit_count by auto
  have "ex_calls s' = [Access prefix, Mkdir prefix 511, Access (prefix @ [99]), Mkdir (prefix @ [99]) 511,
      Fopen (prefix @ [99, 47, 98]), Fwrite (prefix @ [99, 47, 98]) [1, 2, 3, 4, 5, 6, 7, 8, 9, 10, 11],
      Fclose (prefix @ [99, 47, 98]), Chmod (prefix @ [99, 47, 98]) 33152]"
    unfolding s'(3) using wit_visits
    by (auto simp: wit_tool_def dir_calls_def wit_host_def wit_nodes_def wanted_def starts_with_def chunks.simps)
  with s' show "\<exists>s'. extract_main wit_open_env wit_host junk 7 [[120], [97], [99]] wit_tool = (Ok 0, s') \<and>
    ex_calls s' = [Access prefix, Mkdir prefix 511, Access (prefix @ [99]), Mkdir (prefix @ [99]) 511,
      Fopen (prefix @ [99, 47, 98]), Fwrite (prefix @ [99, 47, 98]) [1, 2, 3, 4, 5, 6, 7, 8, 9, 10, 11],
      Fclose (prefix @ [99, 47, 98]), Chmod (prefix @ [99, 47, 98]) 33152] \<and> ex_fds s' = 3" by blast
qed



section \<open>The mounting program\<close>





end
